(* ===== verification/Bazalt_Prelude.thy ===== *)
theory Bazalt_Prelude
  imports Main "HOL-Library.Word" "HOL-Library.Monad_Syntax" "HOL-Library.AList"
    "HOL-Library.Multiset"
begin

text \<open>
  Shared vocabulary of the development.

  \<^item> Rust's unsigned 64-bit and pointer-sized counters are natural numbers; the saturating
    additions of the sources are written out (\<open>sat_add64\<close>), the saturating subtractions are
    the truncating subtraction of \<open>nat\<close>, and the wrapping 32-bit sequence arithmetic of TCP is
    done on \<open>32 word\<close>.
  \<^item> \<open>Bytes\<close>, \<open>Vec<u8>\<close> and \<open>&[u8]\<close> are lists of \<open>8 word\<close>.
  \<^item> A call that panics or never returns is the value \<open>None\<close> of an \<open>option\<close> result;
    \<open>returns m P\<close> says that the call \<open>m\<close> does return and that its result satisfies \<open>P\<close>
    (total correctness), with one introduction rule per control construct.
  \<^item> A Rust \<open>BTreeMap\<close> is treated in the theory \<open>Ordered_Map\<close>; a hash map is an
    association list with distinct keys, whose order stands for the unspecified iteration order.
\<close>

named_theorems ret_intros \<open>introduction rules for total correctness of option-valued code\<close>
named_theorems sat_simps \<open>saturating arithmetic where it does not saturate\<close>

type_synonym byte = "8 word"
type_synonym bytes = "byte list"
type_synonym u16 = "16 word"
type_synonym u32 = "32 word"
type_synonym u64 = "64 word"

subsection \<open>Saturating arithmetic\<close>

abbreviation u64_max :: nat where "u64_max \<equiv> 18446744073709551615"

definition sat_add64 :: "nat \<Rightarrow> nat \<Rightarrow> nat" where
  "sat_add64 a b = min (a + b) u64_max"

lemma sat_add64_exact [sat_simps]: "a + b \<le> u64_max \<Longrightarrow> sat_add64 a b = a + b"
  by (simp add: sat_add64_def)

lemma sat_add64_le: "sat_add64 a b \<le> a + b"
  by (simp add: sat_add64_def)

lemma sat_add64_max: "sat_add64 a b \<le> u64_max"
  by (simp add: sat_add64_def)

lemma sat_add64_ge: "a \<le> u64_max \<Longrightarrow> a \<le> sat_add64 a b"
  by (simp add: sat_add64_def)

lemma sat_add64_0 [simp]: "a \<le> u64_max \<Longrightarrow> sat_add64 a 0 = a"
  by (simp add: sat_add64_def)

subsection \<open>Calls that return\<close>

definition returns :: "'a option \<Rightarrow> ('a \<Rightarrow> bool) \<Rightarrow> bool" where
  "returns m P \<longleftrightarrow> (\<exists>x. m = Some x \<and> P x)"

lemma returns_Some [simp, ret_intros]: "returns (Some x) P \<longleftrightarrow> P x"
  by (simp add: returns_def)

lemma returns_None [simp]: "\<not> returns None P"
  by (simp add: returns_def)

lemma returns_mono: "returns m P \<Longrightarrow> (\<And>x. P x \<Longrightarrow> Q x) \<Longrightarrow> returns m Q"
  by (auto simp: returns_def)

lemma returns_bind [ret_intros]:
  "returns m P \<Longrightarrow> (\<And>x. P x \<Longrightarrow> returns (f x) Q) \<Longrightarrow> returns (m \<bind> f) Q"
  by (auto simp: returns_def)

lemma returns_bind_pair [ret_intros]:
  "returns m (\<lambda>(a, b). P a b) \<Longrightarrow> (\<And>a b. P a b \<Longrightarrow> returns (f a b) Q) \<Longrightarrow>
   returns (m \<bind> (\<lambda>(a, b). f a b)) Q"
  by (auto simp: returns_def)

lemma returns_if [ret_intros]:
  "(b \<Longrightarrow> returns m P) \<Longrightarrow> (\<not> b \<Longrightarrow> returns n P) \<Longrightarrow> returns (if b then m else n) P"
  by simp

lemma returns_conj: "returns m P \<Longrightarrow> returns m Q \<Longrightarrow> returns m (\<lambda>x. P x \<and> Q x)"
  by (auto simp: returns_def)

lemma returnsI: "m = Some x \<Longrightarrow> P x \<Longrightarrow> returns m P"
  by (simp add: returns_def)

lemma returnsE: "returns m P \<Longrightarrow> (\<And>x. m = Some x \<Longrightarrow> P x \<Longrightarrow> R) \<Longrightarrow> R"
  by (auto simp: returns_def)

lemma returnsD: "returns m P \<Longrightarrow> m = Some x \<Longrightarrow> P x"
  by (simp add: returns_def)

lemma bind_Some_iff: "Option.bind m f = Some y \<longleftrightarrow> (\<exists>x. m = Some x \<and> f x = Some y)"
  by (cases m) auto

subsection \<open>Slices\<close>

definition bslice :: "nat \<Rightarrow> nat \<Rightarrow> 'a list \<Rightarrow> 'a list" where
  "bslice a b xs = take (b - a) (drop a xs)"

lemma length_bslice [simp]: "length (bslice a b xs) = min (b - a) (length xs - a)"
  by (simp add: bslice_def)

lemma nth_bslice [simp]: "i < b - a \<Longrightarrow> i < length xs - a \<Longrightarrow> bslice a b xs ! i = xs ! (a + i)"
  by (simp add: bslice_def)

lemma bslice_all [simp]: "bslice 0 (length xs) xs = xs"
  by (simp add: bslice_def)

text \<open>Rust's \<open>&xs[a..b]\<close> and \<open>Bytes::slice(a..b)\<close> panic outside the bounds.\<close>

definition slice_chk :: "nat \<Rightarrow> nat \<Rightarrow> 'a list \<Rightarrow> 'a list option" where
  "slice_chk a b xs = (if a \<le> b \<and> b \<le> length xs then Some (bslice a b xs) else None)"

lemma slice_chk_ok [simp]: "a \<le> b \<Longrightarrow> b \<le> length xs \<Longrightarrow> slice_chk a b xs = Some (bslice a b xs)"
  by (simp add: slice_chk_def)

lemma slice_chk_Some_iff:
  "slice_chk a b xs = Some ys \<longleftrightarrow> a \<le> b \<and> b \<le> length xs \<and> ys = bslice a b xs"
  by (auto simp: slice_chk_def)

lemma bslice_to_end: "bslice a (length xs) xs = drop a xs"
  by (simp add: bslice_def)

subsection \<open>Tilings of an interval\<close>

text \<open>
  \<open>tiles a M b\<close>: the spans \<open>(offset, length)\<close> of the multiset \<open>M\<close> cover the interval from
  \<open>a\<close> to \<open>b\<close> exactly once, with nothing left out and nothing covered twice.
\<close>

inductive tiles :: "nat \<Rightarrow> (nat \<times> nat) multiset \<Rightarrow> nat \<Rightarrow> bool" where
  tiles_empty [simp, intro]: "tiles a {#} a"
| tiles_snoc: "tiles a M b \<Longrightarrow> tiles a (add_mset (b, l) M) (b + l)"

lemma tiles_le: "tiles a M b \<Longrightarrow> a \<le> b"
  by (induction rule: tiles.induct) auto

lemma tiles_total: "tiles a M b \<Longrightarrow> a + (\<Sum>s\<in>#M. snd s) = b"
  by (induction rule: tiles.induct) auto

lemma tiles_trans: "tiles b N c \<Longrightarrow> tiles a M b \<Longrightarrow> tiles a (M + N) c"
  by (induction rule: tiles.induct) (auto intro: tiles_snoc)

lemma tiles_span: "tiles a M b \<Longrightarrow> (off, len) \<in># M \<Longrightarrow> a \<le> off \<and> off + len \<le> b"
  by (induction rule: tiles.induct) (auto dest: tiles_le)

lemma tiles_covered: "tiles a M b \<Longrightarrow> a \<le> p \<Longrightarrow> p < b \<Longrightarrow> \<exists>s \<in># M. fst s \<le> p \<and> p < fst s + snd s"
proof (induction rule: tiles.induct)
  case (tiles_snoc a M b l)
  then show ?case by (cases "p < b") auto
qed simp

subsection \<open>Results\<close>

text \<open>Rust's \<open>?\<close> and \<open>map_err\<close> on values of a sum type.\<close>

fun and_then :: "'e + 'a \<Rightarrow> ('a \<Rightarrow> 'e + 'b) \<Rightarrow> 'e + 'b" where
  "and_then (Inl e) f = Inl e"
| "and_then (Inr x) f = f x"

fun map_err :: "('e \<Rightarrow> 'f) \<Rightarrow> 'e + 'a \<Rightarrow> 'f + 'a" where
  "map_err g (Inl e) = Inl (g e)"
| "map_err g (Inr x) = Inr x"

lemma and_then_Inr_iff: "and_then m f = Inr y \<longleftrightarrow> (\<exists>x. m = Inr x \<and> f x = Inr y)"
  by (cases m) auto

lemma map_err_Inr_iff [simp]: "map_err g m = Inr y \<longleftrightarrow> m = Inr y"
  by (cases m) auto

end
