(* ===== verification/Ordered_Map.thy ===== *)
theory Ordered_Map
  imports Bazalt_Prelude
begin

text \<open>
  Rust's \<open>std::collections::BTreeMap\<close>, as the reassembler and the fragment cache use it:
  \<open>get\<close>, \<open>insert\<close>, \<open>remove\<close>, \<open>first_key_value\<close> and the four range queries that occur in the
  sources. The model is an association list with strictly increasing keys, so that iterating
  over the map is reading the list. The locale \<open>btree\<close> states the laws the clients rely on;
  \<open>segment_map\<close> extends it by what a map of disjoint byte segments satisfies. Both are
  interpreted on the list model at the end.
\<close>

subsection \<open>The sorted association list\<close>

type_synonym ('k, 'v) omap = "('k \<times> 'v) list"

definition om_invar :: "('k::linorder, 'v) omap \<Rightarrow> bool" where
  "om_invar m \<longleftrightarrow> sorted_wrt (<) (map fst m)"

definition om_get :: "'k::linorder \<Rightarrow> ('k, 'v) omap \<Rightarrow> 'v option" where
  "om_get k m = map_of m k"

fun om_insert :: "'k::linorder \<Rightarrow> 'v \<Rightarrow> ('k, 'v) omap \<Rightarrow> ('k, 'v) omap" where
  "om_insert k v [] = [(k, v)]"
| "om_insert k v (e # m) =
     (if fst e < k then e # om_insert k v m
      else if fst e = k then (k, v) # m
      else (k, v) # e # m)"

definition om_remove :: "'k::linorder \<Rightarrow> ('k, 'v) omap \<Rightarrow> ('k, 'v) omap" where
  "om_remove k m = filter (\<lambda>e. fst e \<noteq> k) m"

definition om_first :: "('k::linorder, 'v) omap \<Rightarrow> ('k \<times> 'v) option" where
  "om_first m = (case m of [] \<Rightarrow> None | e # _ \<Rightarrow> Some e)"

text \<open>\<open>range(..=k).next_back()\<close>, \<open>range(..k).next_back()\<close>, \<open>range(k..).next()\<close> and
  \<open>range(a..b).next()\<close>.\<close>

definition last_option :: "'a list \<Rightarrow> 'a option" where
  "last_option xs = (if xs = [] then None else Some (last xs))"

definition om_last_le :: "'k::linorder \<Rightarrow> ('k, 'v) omap \<Rightarrow> ('k \<times> 'v) option" where
  "om_last_le k m = last_option (filter (\<lambda>e. fst e \<le> k) m)"

definition om_last_less :: "'k::linorder \<Rightarrow> ('k, 'v) omap \<Rightarrow> ('k \<times> 'v) option" where
  "om_last_less k m = last_option (filter (\<lambda>e. fst e < k) m)"

definition om_first_ge :: "'k::linorder \<Rightarrow> ('k, 'v) omap \<Rightarrow> ('k \<times> 'v) option" where
  "om_first_ge k m = om_first (filter (\<lambda>e. k \<le> fst e) m)"

definition om_first_in :: "'k::linorder \<Rightarrow> 'k \<Rightarrow> ('k, 'v) omap \<Rightarrow> ('k \<times> 'v) option" where
  "om_first_in a b m = om_first (filter (\<lambda>e. a \<le> fst e \<and> fst e < b) m)"

subsection \<open>Basic facts about the list model\<close>

lemma om_invar_simps [simp]:
  "om_invar []"
  "om_invar (e # m) \<longleftrightarrow> (\<forall>e' \<in> set m. fst e < fst e') \<and> om_invar m"
  by (auto simp: om_invar_def)

lemma om_invar_filter: "om_invar m \<Longrightarrow> om_invar (filter P m)"
  by (induction m) auto

lemma om_invar_functional:
  "om_invar m \<Longrightarrow> (k, v) \<in> set m \<Longrightarrow> (k, v') \<in> set m \<Longrightarrow> v = v'"
  by (induction m) force+

lemma om_invar_distinct: "om_invar m \<Longrightarrow> distinct m"
  by (induction m) auto

lemma om_get_iff: "om_invar m \<Longrightarrow> om_get k m = Some v \<longleftrightarrow> (k, v) \<in> set m"
  by (induction m) (force simp: om_get_def)+

lemma set_om_insert:
  "om_invar m \<Longrightarrow> set (om_insert k v m) = insert (k, v) {e \<in> set m. fst e \<noteq> k}"
  by (induction m) force+

lemma om_invar_insert: "om_invar m \<Longrightarrow> om_invar (om_insert k v m)"
  by (induction m) (force simp: set_om_insert)+

lemma length_om_insert: "length (om_insert k v m) \<le> Suc (length m)"
  by (induction m) auto

lemma om_first_simps [simp]: "om_first [] = None" "om_first (e # m) = Some e"
  by (simp_all add: om_first_def)

lemma om_first_Some_iff: "om_first m = Some e \<longleftrightarrow> (\<exists>m'. m = e # m')"
  by (cases m) auto

lemma om_first_None_iff [simp]: "om_first m = None \<longleftrightarrow> m = []"
  by (cases m) auto

lemma om_first_least:
  "om_invar m \<Longrightarrow> om_first m = Some e \<Longrightarrow> e' \<in> set m \<Longrightarrow> fst e \<le> fst e'"
  by (cases m) auto

lemma last_option_None_iff [simp]: "last_option xs = None \<longleftrightarrow> xs = []"
  by (simp add: last_option_def)

lemma last_option_Some_iff: "last_option xs = Some x \<longleftrightarrow> xs \<noteq> [] \<and> x = last xs"
  by (auto simp: last_option_def)

lemma om_last_greatest:
  "om_invar m \<Longrightarrow> last_option m = Some e \<Longrightarrow> e \<in> set m \<and> (\<forall>e' \<in> set m. fst e' \<le> fst e)"
  by (induction m) (fastforce simp: last_option_def split: if_splits)+

lemma om_remove_head [simp]: "om_invar (e # m) \<Longrightarrow> om_remove (fst e) (e # m) = m"
  by (auto simp: om_remove_def intro!: filter_True)

lemma length_om_remove: "e \<in> set m \<Longrightarrow> length (om_remove (fst e) m) < length m"
  by (auto simp: om_remove_def intro: length_filter_less)

subsection \<open>The interface\<close>

locale btree =
  fixes entries :: "'m \<Rightarrow> (nat \<times> 'v) set"
    and invar :: "'m \<Rightarrow> bool"
    and get :: "nat \<Rightarrow> 'm \<Rightarrow> 'v option"
    and put :: "nat \<Rightarrow> 'v \<Rightarrow> 'm \<Rightarrow> 'm"
    and del :: "nat \<Rightarrow> 'm \<Rightarrow> 'm"
    and first :: "'m \<Rightarrow> (nat \<times> 'v) option"
    and last_le :: "nat \<Rightarrow> 'm \<Rightarrow> (nat \<times> 'v) option"
    and last_less :: "nat \<Rightarrow> 'm \<Rightarrow> (nat \<times> 'v) option"
    and first_ge :: "nat \<Rightarrow> 'm \<Rightarrow> (nat \<times> 'v) option"
    and first_in :: "nat \<Rightarrow> nat \<Rightarrow> 'm \<Rightarrow> (nat \<times> 'v) option"
  assumes functional: "invar m \<Longrightarrow> (k, v) \<in> entries m \<Longrightarrow> (k, v') \<in> entries m \<Longrightarrow> v = v'"
    and get_iff: "invar m \<Longrightarrow> get k m = Some v \<longleftrightarrow> (k, v) \<in> entries m"
    and entries_put: "invar m \<Longrightarrow> entries (put k v m) = insert (k, v) {e \<in> entries m. fst e \<noteq> k}"
    and entries_del: "invar m \<Longrightarrow> entries (del k m) = {e \<in> entries m. fst e \<noteq> k}"
    and invar_put: "invar m \<Longrightarrow> invar (put k v m)"
    and invar_del: "invar m \<Longrightarrow> invar (del k m)"
    and first_None: "invar m \<Longrightarrow> first m = None \<longleftrightarrow> entries m = {}"
    and first_Some: "invar m \<Longrightarrow> first m = Some e \<Longrightarrow>
        e \<in> entries m \<and> (\<forall>e' \<in> entries m. fst e \<le> fst e')"
    and last_le_None: "invar m \<Longrightarrow> last_le k m = None \<longleftrightarrow> (\<forall>e \<in> entries m. k < fst e)"
    and last_le_Some: "invar m \<Longrightarrow> last_le k m = Some e \<Longrightarrow>
        e \<in> entries m \<and> fst e \<le> k \<and> (\<forall>e' \<in> entries m. fst e' \<le> k \<longrightarrow> fst e' \<le> fst e)"
    and last_less_None: "invar m \<Longrightarrow> last_less k m = None \<longleftrightarrow> (\<forall>e \<in> entries m. k \<le> fst e)"
    and last_less_Some: "invar m \<Longrightarrow> last_less k m = Some e \<Longrightarrow>
        e \<in> entries m \<and> fst e < k \<and> (\<forall>e' \<in> entries m. fst e' < k \<longrightarrow> fst e' \<le> fst e)"
    and first_ge_None: "invar m \<Longrightarrow> first_ge k m = None \<longleftrightarrow> (\<forall>e \<in> entries m. fst e < k)"
    and first_ge_Some: "invar m \<Longrightarrow> first_ge k m = Some e \<Longrightarrow>
        e \<in> entries m \<and> k \<le> fst e \<and> (\<forall>e' \<in> entries m. k \<le> fst e' \<longrightarrow> fst e \<le> fst e')"
    and first_in_None: "invar m \<Longrightarrow> first_in a b m = None \<longleftrightarrow>
        (\<forall>e \<in> entries m. \<not> (a \<le> fst e \<and> fst e < b))"
    and first_in_Some: "invar m \<Longrightarrow> first_in a b m = Some e \<Longrightarrow>
        e \<in> entries m \<and> a \<le> fst e \<and> fst e < b \<and>
        (\<forall>e' \<in> entries m. a \<le> fst e' \<and> fst e' < b \<longrightarrow> fst e \<le> fst e')"

subsection \<open>Maps of disjoint segments\<close>

text \<open>
  A segment map sends a start position to a value that carries bytes. \<open>disjoint_segs\<close>: every
  segment is non-empty and ends before the next one starts. \<open>covered\<close>: some segment holds the
  position. \<open>byte_in\<close>: that segment's byte there.
\<close>

definition disjoint_segs :: "('v \<Rightarrow> nat) \<Rightarrow> (nat \<times> 'v) set \<Rightarrow> bool" where
  "disjoint_segs len S \<longleftrightarrow>
     (\<forall>(k, v) \<in> S. 0 < len v) \<and>
     (\<forall>(k, v) \<in> S. \<forall>(k', v') \<in> S. k < k' \<longrightarrow> k + len v \<le> k')"

definition covered :: "('v \<Rightarrow> nat) \<Rightarrow> (nat \<times> 'v) set \<Rightarrow> nat \<Rightarrow> bool" where
  "covered len S p \<longleftrightarrow> (\<exists>(k, v) \<in> S. k \<le> p \<and> p < k + len v)"

definition byte_in :: "('v \<Rightarrow> 'b list) \<Rightarrow> (nat \<times> 'v) set \<Rightarrow> nat \<Rightarrow> 'b \<Rightarrow> bool" where
  "byte_in dat S p b \<longleftrightarrow> (\<exists>(k, v) \<in> S. k \<le> p \<and> p < k + length (dat v) \<and> dat v ! (p - k) = b)"

lemma disjoint_segsD:
  "disjoint_segs len S \<Longrightarrow> (k, v) \<in> S \<Longrightarrow> 0 < len v"
  "disjoint_segs len S \<Longrightarrow> (k, v) \<in> S \<Longrightarrow> (k', v') \<in> S \<Longrightarrow> k < k' \<Longrightarrow> k + len v \<le> k'"
  by (auto simp: disjoint_segs_def)

lemma disjoint_segs_subset: "disjoint_segs len S \<Longrightarrow> T \<subseteq> S \<Longrightarrow> disjoint_segs len T"
  unfolding disjoint_segs_def by blast

lemma disjoint_segs_empty [simp]: "disjoint_segs len {}"
  by (simp add: disjoint_segs_def)

lemma coveredI: "(k, v) \<in> S \<Longrightarrow> k \<le> p \<Longrightarrow> p < k + len v \<Longrightarrow> covered len S p"
  by (auto simp: covered_def)

lemma covered_empty [simp]: "\<not> covered len {} p"
  by (simp add: covered_def)

lemma covered_insert: "covered len (insert (k, v) S) p \<longleftrightarrow> k \<le> p \<and> p < k + len v \<or> covered len S p"
  by (auto simp: covered_def)

lemma byte_in_insert:
  "byte_in dat (insert (k, v) S) p b \<longleftrightarrow>
     k \<le> p \<and> p < k + length (dat v) \<and> dat v ! (p - k) = b \<or> byte_in dat S p b"
  by (auto simp: byte_in_def)

lemma byte_in_covered: "byte_in dat S p b \<Longrightarrow> covered (\<lambda>v. length (dat v)) S p"
  by (fastforce simp: byte_in_def covered_def)

lemma covered_byte_in: "covered (\<lambda>v. length (dat v)) S p \<Longrightarrow> \<exists>b. byte_in dat S p b"
  by (fastforce simp: byte_in_def covered_def)

lemma byte_in_mono: "byte_in dat S p b \<Longrightarrow> S \<subseteq> T \<Longrightarrow> byte_in dat T p b"
  by (auto simp: byte_in_def)

lemma covered_mono: "covered len S p \<Longrightarrow> S \<subseteq> T \<Longrightarrow> covered len T p"
  by (auto simp: covered_def)

lemma disjoint_segs_insert:
  assumes "disjoint_segs len S" and "0 < len v"
    and "\<And>q. c \<le> q \<Longrightarrow> q < c + len v \<Longrightarrow> \<not> covered len S q"
    and "\<And>w. (c, w) \<notin> S"
  shows "disjoint_segs len (insert (c, v) S)"
proof -
  have after: "c + len v \<le> k" if "(k, w) \<in> S" "c < k" for k w
  proof (rule ccontr)
    assume "\<not> c + len v \<le> k"
    moreover have "covered len S k"
      using that disjoint_segsD(1) [OF assms(1) that(1)] by (force simp: covered_def)
    ultimately show False using assms(3) [of k] that by auto
  qed
  have before: "k + len w \<le> c" if "(k, w) \<in> S" "k < c" for k w
  proof (rule ccontr)
    assume "\<not> k + len w \<le> c"
    then have "covered len S c" using that by (intro coveredI [of k w]) auto
    then show False using assms(3) [of c] assms(2) by auto
  qed
  show ?thesis
    using assms(1,2) after before unfolding disjoint_segs_def by auto
qed

lemma disjoint_segs_byte_unique:
  assumes "disjoint_segs (\<lambda>v. length (dat v)) S"
    and "\<And>k v v'. (k, v) \<in> S \<Longrightarrow> (k, v') \<in> S \<Longrightarrow> v = v'"
    and "byte_in dat S p b" and "byte_in dat S p b'"
  shows "b = b'"
proof -
  from assms(3) obtain k v where kv: "(k, v) \<in> S" "k \<le> p" "p < k + length (dat v)" "dat v ! (p - k) = b"
    by (auto simp: byte_in_def)
  from assms(4) obtain k' v' where kv': "(k', v') \<in> S" "k' \<le> p" "p < k' + length (dat v')" "dat v' ! (p - k') = b'"
    by (auto simp: byte_in_def)
  have "k = k'"
    using disjoint_segsD(2) [OF assms(1) kv(1) kv'(1)] disjoint_segsD(2) [OF assms(1) kv'(1) kv(1)] kv kv'
    by (cases k k' rule: linorder_cases) auto
  then show ?thesis using assms(2) kv kv' by blast
qed

locale segment_map = btree entries invar get put del first last_le last_less first_ge first_in
  for entries :: "'m \<Rightarrow> (nat \<times> 'v) set" and invar get put del first last_le last_less first_ge first_in +
  fixes len :: "'v \<Rightarrow> nat"
begin

text \<open>The predecessor query decides whether a position is covered.\<close>

lemma last_le_covers:
  assumes "invar m" "disjoint_segs len (entries m)" "last_le p m = Some (k, v)"
  shows "covered len (entries m) p \<longleftrightarrow> p < k + len v"
proof
  assume "covered len (entries m) p"
  then obtain k' v' where kv': "(k', v') \<in> entries m" "k' \<le> p" "p < k' + len v'"
    by (auto simp: covered_def)
  have kv: "(k, v) \<in> entries m" "k \<le> p" "k' \<le> k"
    using last_le_Some [OF assms(1,3)] kv' by auto
  show "p < k + len v"
  proof (cases "k' < k")
    case True
    then show ?thesis using disjoint_segsD(2) [OF assms(2) kv'(1) kv(1)] kv' kv by auto
  next
    case False
    then show ?thesis using kv kv' functional [OF assms(1)] by auto
  qed
next
  assume "p < k + len v"
  then show "covered len (entries m) p"
    using last_le_Some [OF assms(1,3)] by (auto simp: covered_def)
qed

lemma last_le_none_uncovered:
  "invar m \<Longrightarrow> last_le p m = None \<Longrightarrow> \<not> covered len (entries m) p"
  by (auto simp: last_le_None covered_def)

text \<open>From an uncovered position up to the next start, nothing is covered.\<close>

lemma hole_until_next:
  assumes "invar m" "disjoint_segs len (entries m)" "\<not> covered len (entries m) p"
    and "p \<le> q" "q < (case first_in p e m of None \<Rightarrow> e | Some (k, _) \<Rightarrow> k)" "q < e"
  shows "\<not> covered len (entries m) q"
proof
  assume "covered len (entries m) q"
  then obtain k v where kv: "(k, v) \<in> entries m" "k \<le> q" "q < k + len v"
    by (auto simp: covered_def)
  show False
  proof (cases "k \<le> p")
    case True
    with kv assms(3,4) show False by (force simp: covered_def)
  next
    case False
    then have "p \<le> k" "k < e" using kv assms(6) by auto
    then show False
      using kv assms(5) first_in_None [OF assms(1)] first_in_Some [OF assms(1)]
      by (fastforce split: option.splits prod.splits)
  qed
qed

text \<open>Storing a non-empty segment in a hole keeps the segments disjoint and adds exactly its
  span to the covered positions.\<close>

lemma put_in_hole:
  assumes "invar m" "disjoint_segs len (entries m)" "0 < len v"
    and hole: "\<And>q. c \<le> q \<Longrightarrow> q < c + len v \<Longrightarrow> \<not> covered len (entries m) q"
  shows "entries (put c v m) = insert (c, v) (entries m)"
    and "disjoint_segs len (entries (put c v m))"
    and "(c, w) \<notin> entries m"
proof -
  have fresh: "(c, w) \<notin> entries m" for w
  proof
    assume "(c, w) \<in> entries m"
    then have "covered len (entries m) c"
      using disjoint_segsD(1) [OF assms(2)] by (force simp: covered_def)
    then show False using hole [of c] assms(3) by auto
  qed
  then show "(c, w) \<notin> entries m" .
  show eq: "entries (put c v m) = insert (c, v) (entries m)"
    using fresh by (auto simp: entries_put [OF assms(1)])
  show "disjoint_segs len (entries (put c v m))"
    unfolding eq using assms fresh by (intro disjoint_segs_insert) auto
qed

end

subsection \<open>The list model provides the interface\<close>

lemma filter_first_Some:
  assumes "om_invar m" "om_first (filter P m) = Some e"
  shows "e \<in> set m \<and> P e \<and> (\<forall>e' \<in> set m. P e' \<longrightarrow> fst e \<le> fst e')"
proof -
  obtain m' where m': "filter P m = e # m'"
    using assms(2) by (auto simp: om_first_Some_iff)
  then have "e \<in> set (filter P m)" by simp
  moreover have "\<forall>e' \<in> set (filter P m). fst e \<le> fst e'"
    using om_first_least [OF om_invar_filter [OF assms(1)] assms(2)] by blast
  ultimately show ?thesis by auto
qed

lemma filter_last_Some:
  assumes "om_invar m" "last_option (filter P m) = Some e"
  shows "e \<in> set m \<and> P e \<and> (\<forall>e' \<in> set m. P e' \<longrightarrow> fst e' \<le> fst e)"
  using om_last_greatest [OF om_invar_filter [OF assms(1)] assms(2)] by auto

interpretation om: btree set om_invar om_get om_insert om_remove om_first om_last_le
    om_last_less om_first_ge om_first_in
proof (unfold_locales, goal_cases)
  case (8 m e)
  then show ?case using filter_first_Some [of m "\<lambda>_. True"] by simp
next
  case (10 m k e)
  then show ?case using filter_last_Some [of m "\<lambda>e. fst e \<le> k" e] by (simp add: om_last_le_def)
next
  case (12 m k e)
  then show ?case using filter_last_Some [of m "\<lambda>e. fst e < k" e] by (simp add: om_last_less_def)
next
  case (14 m k e)
  then show ?case using filter_first_Some [of m "\<lambda>e. k \<le> fst e" e] by (simp add: om_first_ge_def)
next
  case (16 m a b e)
  then show ?case using filter_first_Some [of m "\<lambda>e. a \<le> fst e \<and> fst e < b" e]
    by (simp add: om_first_in_def)
qed (auto simp: om_get_iff set_om_insert om_invar_insert om_invar_filter om_remove_def
      om_last_le_def om_last_less_def om_first_ge_def om_first_in_def filter_empty_conv
      dest: om_invar_functional)

end
