(* ===== verification/Tcp_Reassembly.thy ===== *)
theory Tcp_Reassembly
  imports Ordered_Map
begin

text \<open>
  The TCP reassembler of \<open>src/src/flow/reassembly.rs\<close>: one \<open>tcp_half\<close> per direction of a flow.

  Sequence numbers arrive as \<open>32 word\<close> and are extended to an absolute 64-bit position around the
  next expected byte (\<open>extend_seq\<close>). In-order data is emitted at once; later data is kept in an
  ordered map of disjoint segments in which the first-seen byte of a position wins; holes become
  explicit gaps when the peer's cumulative ACK, memory pressure, a timeout or the close of the flow
  says so. A FIN seen ahead of the expected position stays tentative until an ACK covers it.

  The \<open>expect\<close> calls of the source and its one loop that need not end on an arbitrary map
  (\<open>insert_ooo_first_seen\<close>) make the operations partial: \<open>None\<close> is a call that panics or does not
  return. The theory \<open>Tcp_Properties\<close> shows that no reachable state has one.
\<close>

subsection \<open>Data\<close>

abbreviation initial_seq_epoch :: nat where "initial_seq_epoch \<equiv> 4294967296"

record buffered_segment =
  seg_data :: bytes
  seg_ts_ns :: nat

abbreviation seg_len :: "buffered_segment \<Rightarrow> nat" where
  "seg_len s \<equiv> length (seg_data s)"

definition seg_end :: "buffered_segment \<Rightarrow> nat \<Rightarrow> nat" where
  "seg_end s start = sat_add64 start (length (seg_data s))"

record reassembled_chunk =
  chunk_offset :: nat
  chunk_ts_ns :: nat
  chunk_data :: bytes

record stream_gap =
  gap_offset :: nat
  gap_len :: nat

record reassembly_outcome =
  out_emitted :: "reassembled_chunk list"
  out_gaps :: "stream_gap list"
  out_retransmit :: bool
  out_out_of_order :: bool
  out_fin_consumed :: bool

definition default_outcome :: reassembly_outcome where
  "default_outcome = \<lparr>out_emitted = [], out_gaps = [], out_retransmit = False,
                      out_out_of_order = False, out_fin_consumed = False\<rparr>"

record tcp_half =
  next_abs :: "nat option"
  stream_offset :: nat
  out_of_order :: "(nat, buffered_segment) omap"
  out_of_order_bytes :: nat
  pending_fin :: "nat option"
  pending_fin_requires_ack :: bool
  fin_consumed :: bool
  initial_syn_seq :: "u32 option"
  peer_ack_abs :: "nat option"
  gap_started_ts_ns :: "nat option"

definition default_half :: tcp_half where
  "default_half = \<lparr>next_abs = None, stream_offset = 0, out_of_order = [], out_of_order_bytes = 0,
     pending_fin = None, pending_fin_requires_ack = False, fin_consumed = False,
     initial_syn_seq = None, peer_ack_abs = None, gap_started_ts_ns = None\<rparr>"

subsection \<open>Sequence space\<close>

text \<open>\<open>seq.wrapping_sub(reference as u32) as i32 as i64\<close> is the signed distance of the two.\<close>

definition extend_seq :: "u32 \<Rightarrow> nat \<Rightarrow> nat" where
  "extend_seq seq reference =
     (let delta = sint (seq - of_nat reference) in
      if delta \<ge> 0 then sat_add64 reference (nat delta) else reference - nat (- delta))"

definition payload_seq :: "u32 \<Rightarrow> bool \<Rightarrow> u32" where
  "payload_seq seq syn = seq + (if syn then 1 else 0)"

definition observe :: "tcp_half \<Rightarrow> u32 \<Rightarrow> bool \<Rightarrow> tcp_half" where
  "observe h seq syn =
     (let h = (if next_abs h = None
               then h\<lparr>next_abs := Some (initial_seq_epoch + unat (payload_seq seq syn))\<rparr> else h)
      in if syn \<and> initial_syn_seq h = None then h\<lparr>initial_syn_seq := Some seq\<rparr> else h)"

definition is_initialized :: "tcp_half \<Rightarrow> bool" where
  "is_initialized h \<longleftrightarrow> next_abs h \<noteq> None"

definition rst_matches_next :: "tcp_half \<Rightarrow> u32 \<Rightarrow> bool" where
  "rst_matches_next h seq =
     (case next_abs h of None \<Rightarrow> True | Some expected \<Rightarrow> extend_seq seq expected = expected)"

definition reserve_udp_offset :: "tcp_half \<Rightarrow> nat \<Rightarrow> tcp_half \<times> nat" where
  "reserve_udp_offset h len =
     (h\<lparr>stream_offset := sat_add64 (stream_offset h) len\<rparr>, stream_offset h)"

subsection \<open>Advancing the stream\<close>

definition ack_covers :: "nat option \<Rightarrow> nat \<Rightarrow> bool" where
  "ack_covers ack fin = (case ack of None \<Rightarrow> False | Some a \<Rightarrow> a > fin)"

definition consume_fin_if_ready ::
  "tcp_half \<Rightarrow> reassembly_outcome \<Rightarrow> tcp_half \<times> reassembly_outcome" where
  "consume_fin_if_ready h out =
     (if fin_consumed h then (h, out)
      else case (pending_fin h, next_abs h) of
        (Some fin, Some next) \<Rightarrow>
          if fin \<le> next then
            if fin = next \<and> pending_fin_requires_ack h \<and> \<not> ack_covers (peer_ack_abs h) fin
            then (h, out)
            else (h\<lparr>next_abs := Some (if fin = next then sat_add64 next 1 else next),
                    fin_consumed := True, pending_fin_requires_ack := False,
                    out_of_order := [], out_of_order_bytes := 0, gap_started_ts_ns := None\<rparr>,
                  out\<lparr>out_fin_consumed := True\<rparr>)
          else (h, out)
      | _ \<Rightarrow> (h, out))"

definition emit ::
  "tcp_half \<Rightarrow> bytes \<Rightarrow> nat \<Rightarrow> reassembly_outcome \<Rightarrow> (tcp_half \<times> reassembly_outcome) option" where
  "emit h data ts out =
     (if data = [] then Some (h, out)
      else do {
        next \<leftarrow> next_abs h;
        let offset = stream_offset h;
        Some (consume_fin_if_ready
          (h\<lparr>stream_offset := sat_add64 (stream_offset h) (length data),
             next_abs := Some (sat_add64 next (length data))\<rparr>)
          (out\<lparr>out_emitted := out_emitted out @
                 [\<lparr>chunk_offset = offset, chunk_ts_ns = ts, chunk_data = data\<rparr>]\<rparr>))
      })"

definition fin_limited :: "nat option \<Rightarrow> nat \<Rightarrow> nat" where
  "fin_limited fin target = (case fin of None \<Rightarrow> target | Some f \<Rightarrow> min target f)"

definition emit_gap_to ::
  "tcp_half \<Rightarrow> nat \<Rightarrow> reassembly_outcome \<Rightarrow> (tcp_half \<times> reassembly_outcome) option" where
  "emit_gap_to h target out =
     do {
       expected \<leftarrow> next_abs h;
       let target = fin_limited (pending_fin h) target;
       if target \<le> expected then Some (h, out)
       else Some (consume_fin_if_ready
         (h\<lparr>stream_offset := sat_add64 (stream_offset h) (target - expected),
            next_abs := Some target\<rparr>)
         (out\<lparr>out_gaps := out_gaps out @
                [\<lparr>gap_offset = stream_offset h, gap_len = target - expected\<rparr>]\<rparr>))
     }"

text \<open>The buffered map only shrinks while the stream advances.\<close>

lemma consume_fin_ooo:
  "out_of_order (fst (consume_fin_if_ready h out)) = out_of_order h \<or>
   out_of_order (fst (consume_fin_if_ready h out)) = []"
  by (auto simp: consume_fin_if_ready_def split: option.splits)

lemma consume_fin_length:
  "length (out_of_order (fst (consume_fin_if_ready h out))) \<le> length (out_of_order h)"
  using consume_fin_ooo [of h out] by auto

lemma consume_fin_lengthD:
  "consume_fin_if_ready h1 o1 = (h', o') \<Longrightarrow> length (out_of_order h') \<le> length (out_of_order h1)"
  using consume_fin_length [of h1 o1] by simp

lemma emit_length:
  "emit h d ts out = Some (h', out') \<Longrightarrow> length (out_of_order h') \<le> length (out_of_order h)"
  by (auto simp: emit_def bind_Some_iff split: if_splits dest: consume_fin_lengthD)

lemma emit_gap_length:
  "emit_gap_to h t out = Some (h', out') \<Longrightarrow> length (out_of_order h') \<le> length (out_of_order h)"
  by (auto simp: emit_gap_to_def bind_Some_iff Let_def split: if_splits dest: consume_fin_lengthD)

lemma remove_first_length:
  "om_first m = Some (k, v) \<Longrightarrow> length (om_remove k m) < length m"
  by (auto simp: om_first_Some_iff om_remove_def less_Suc_eq_le)

function flush_ooo :: "tcp_half \<Rightarrow> reassembly_outcome \<Rightarrow> (tcp_half \<times> reassembly_outcome) option" where
  "flush_ooo h out =
     (if fin_consumed h then Some (h, out)
      else case next_abs h of None \<Rightarrow> Some (h, out) | Some expected \<Rightarrow>
        case om_first (out_of_order h) of None \<Rightarrow> Some (h, out) | Some (first_key, segment) \<Rightarrow>
          if first_key > expected then Some (h, out)
          else
            let h1 = h\<lparr>out_of_order := om_remove first_key (out_of_order h),
                       out_of_order_bytes := out_of_order_bytes h - length (seg_data segment)\<rparr> in
            if first_key < expected then
              let overlap = expected - first_key in
              if overlap \<ge> length (seg_data segment) then flush_ooo h1 out
              else Option.bind (emit h1 (drop overlap (seg_data segment)) (seg_ts_ns segment) out)
                     (\<lambda>(h2, out2). flush_ooo h2 out2)
            else Option.bind (emit h1 (seg_data segment) (seg_ts_ns segment) out)
                   (\<lambda>(h2, out2). flush_ooo h2 out2))"
  by pat_completeness auto
termination
  by (relation "measure (\<lambda>(h, out). length (out_of_order h))")
    (auto dest!: emit_length remove_first_length)

declare flush_ooo.simps [simp del]

text \<open>One round of the loop that does not return, as a relation on the half and its outcome.\<close>

definition pop_first :: "tcp_half \<Rightarrow> nat \<Rightarrow> buffered_segment \<Rightarrow> tcp_half" where
  "pop_first h k s = h\<lparr>out_of_order := om_remove k (out_of_order h),
                      out_of_order_bytes := out_of_order_bytes h - length (seg_data s)\<rparr>"

inductive drain :: "tcp_half \<times> reassembly_outcome \<Rightarrow> tcp_half \<times> reassembly_outcome \<Rightarrow> bool" where
  drain_discard:
    "\<not> fin_consumed h \<Longrightarrow> next_abs h = Some e \<Longrightarrow> om_first (out_of_order h) = Some (k, s) \<Longrightarrow>
     k < e \<Longrightarrow> length (seg_data s) \<le> e - k \<Longrightarrow> drain (h, out) (pop_first h k s, out)"
| drain_deliver:
    "\<not> fin_consumed h \<Longrightarrow> next_abs h = Some e \<Longrightarrow> om_first (out_of_order h) = Some (k, s) \<Longrightarrow>
     k \<le> e \<Longrightarrow> e = k \<or> e - k < length (seg_data s) \<Longrightarrow>
     emit (pop_first h k s) (drop (e - k) (seg_data s)) (seg_ts_ns s) out = Some r \<Longrightarrow>
     drain (h, out) r"

lemma flush_unfold:
  "flush_ooo h out = Some r \<longleftrightarrow>
     (r = (h, out) \<and> (fin_consumed h \<or> next_abs h = None \<or> out_of_order h = [] \<or>
        (\<exists>e k s. next_abs h = Some e \<and> om_first (out_of_order h) = Some (k, s) \<and> e < k))) \<or>
     (\<exists>q. drain (h, out) q \<and> flush_ooo (fst q) (snd q) = Some r)"
proof (cases "fin_consumed h \<or> next_abs h = None \<or> out_of_order h = []")
  case True
  then show ?thesis
    by (subst flush_ooo.simps) (auto elim: drain.cases split: option.splits)
next
  case False
  then obtain e k s where [simp]: "\<not> fin_consumed h" "next_abs h = Some e"
    "om_first (out_of_order h) = Some (k, s)" and ne: "out_of_order h \<noteq> []"
    by (metis om_first_None_iff option.exhaust surj_pair)
  consider (wait) "e < k" | (old) "k < e" "length (seg_data s) \<le> e - k"
    | (now) "k \<le> e" "e = k \<or> e - k < length (seg_data s)"
    by linarith
  then show ?thesis
  proof cases
    case wait
    then show ?thesis using ne by (subst flush_ooo.simps) (auto elim: drain.cases)
  next
    case old
    then have "drain (h, out) q \<longleftrightarrow> q = (pop_first h k s, out)" for q
      by (auto elim: drain.cases intro: drain_discard)
    then show ?thesis
      using ne old by (subst flush_ooo.simps) (auto simp: pop_first_def Let_def)
  next
    case now
    then have "drain (h, out) q \<longleftrightarrow>
        emit (pop_first h k s) (drop (e - k) (seg_data s)) (seg_ts_ns s) out = Some q" for q
      by (auto elim: drain.cases intro: drain_deliver)
    then show ?thesis
      using ne now by (subst flush_ooo.simps) (auto simp: pop_first_def Let_def bind_Some_iff)
  qed
qed

lemma drain_length: "drain q r \<Longrightarrow> length (out_of_order (fst r)) < length (out_of_order (fst q))"
  by (induction rule: drain.induct)
    (auto simp: pop_first_def dest!: remove_first_length emit_length split: prod.splits)

lemma flush_induct [consumes 1, case_names stop round]:
  assumes "flush_ooo h out = Some r"
    and stop: "\<And>h out. fin_consumed h \<or> next_abs h = None \<or> out_of_order h = [] \<or>
        (\<exists>e k s. next_abs h = Some e \<and> om_first (out_of_order h) = Some (k, s) \<and> e < k) \<Longrightarrow>
        P (h, out) (h, out)"
    and round: "\<And>q q' r. drain q q' \<Longrightarrow> P q' r \<Longrightarrow> P q r"
  shows "P (h, out) r"
  using assms(1)
proof (induction "length (out_of_order h)" arbitrary: h out rule: less_induct)
  case less
  from less(2) consider "P (h, out) r"
    | q where "drain (h, out) q" "flush_ooo (fst q) (snd q) = Some r"
    unfolding flush_unfold [of h] using stop [of h out] by blast
  then show ?case
  proof cases
    case (2 q)
    then have "P (fst q, snd q) r"
      using less(1) [of "fst q" "snd q"] drain_length [OF 2(1)] by simp
    then show ?thesis using round [OF 2(1)] by simp
  qed
qed

text \<open>A flush that changes anything has removed a segment; this is what ends the recovery loops.\<close>

lemma flush_shrinks:
  assumes "flush_ooo h out = Some r"
  shows "r = (h, out) \<or> length (out_of_order (fst r)) < length (out_of_order h)"
proof -
  have "r = (h, out) \<or> length (out_of_order (fst r)) < length (out_of_order (fst (h, out)))"
    using assms by (induction rule: flush_induct) (auto dest!: drain_length)
  then show ?thesis by simp
qed

subsection \<open>Buffering out-of-order data\<close>

text \<open>The loop of \<open>insert_ooo_first_seen\<close>: bytes of \<open>data\<close> from \<open>cursor\<close> on, skipping what an
  existing segment already covers.\<close>

partial_function (option) insert_loop ::
  "nat \<Rightarrow> nat \<Rightarrow> nat \<Rightarrow> bytes \<Rightarrow> nat \<Rightarrow> tcp_half \<Rightarrow> reassembly_outcome \<Rightarrow>
   (tcp_half \<times> reassembly_outcome) option" where
  "insert_loop start fin_end ts data cursor h out =
     (if \<not> cursor < fin_end then Some (h, out)
      else
        let existing_end = (case om_last_le cursor (out_of_order h) of
              None \<Rightarrow> 0 | Some (existing_start, existing) \<Rightarrow> seg_end existing existing_start) in
        if existing_end > cursor then
          insert_loop start fin_end ts data (min existing_end fin_end) h
            (out\<lparr>out_retransmit := True\<rparr>)
        else
          let next = om_first_in cursor fin_end (out_of_order h);
              piece_end = min (case next of None \<Rightarrow> fin_end | Some (s, _) \<Rightarrow> s) fin_end in
          do {
            (h, cursor) \<leftarrow>
              (if piece_end > cursor then do {
                 compact \<leftarrow> slice_chk (cursor - start) (piece_end - start) data;
                 Some (h\<lparr>out_of_order_bytes := sat_add64 (out_of_order_bytes h) (length compact),
                         out_of_order := om_insert cursor \<lparr>seg_data = compact, seg_ts_ns = ts\<rparr>
                           (out_of_order h)\<rparr>, piece_end)
               }
               else Some (h, cursor));
            (case next of
               None \<Rightarrow> insert_loop start fin_end ts data cursor h out
             | Some (next_start, next_seg) \<Rightarrow>
                 if next_start \<le> cursor \<and> seg_end next_seg next_start > cursor
                 then insert_loop start fin_end ts data (min (seg_end next_seg next_start) fin_end) h
                        (out\<lparr>out_retransmit := True\<rparr>)
                 else insert_loop start fin_end ts data cursor h out)
          })"

definition insert_ooo_first_seen ::
  "tcp_half \<Rightarrow> nat \<Rightarrow> nat \<Rightarrow> bytes \<Rightarrow> reassembly_outcome \<Rightarrow>
   (tcp_half \<times> reassembly_outcome) option" where
  "insert_ooo_first_seen h start ts data out =
     insert_loop start (sat_add64 start (length data)) ts data start h out"

subsection \<open>Recovery\<close>

text \<open>The loop body of \<open>recover_known_ack\<close> for a known ACK; it goes round only after a flush
  that moved the stream or shrank the buffer.\<close>

function recover_ack_loop ::
  "nat \<Rightarrow> tcp_half \<Rightarrow> reassembly_outcome \<Rightarrow> (tcp_half \<times> reassembly_outcome) option" where
  "recover_ack_loop ack_abs h out =
     (case next_abs h of None \<Rightarrow> Some (h, out) | Some expected \<Rightarrow>
        if expected \<ge> ack_abs then Some (h, out)
        else case om_first (out_of_order h) of
          None \<Rightarrow>
            (case pending_fin h of None \<Rightarrow> Some (h, out) | Some fin \<Rightarrow>
               if fin > expected \<and> ack_abs > fin
               then do { (h, out) \<leftarrow> emit_gap_to h fin out; Some (consume_fin_if_ready h out) }
               else Some (h, out))
        | Some (first, _) \<Rightarrow>
            Option.bind
              (if first > expected then emit_gap_to h (min first ack_abs) out else Some (h, out))
              (\<lambda>(h1, out1). Option.bind (next_abs h1) (\<lambda>next1.
                if next1 \<ge> ack_abs then Some (h1, out1)
                else Option.bind (flush_ooo h1 out1) (\<lambda>(h2, out2).
                  if fin_consumed h2 then Some (h2, out2)
                  else if next_abs h2 = next_abs h1 \<and> out_of_order_bytes h2 = out_of_order_bytes h1
                  then Some (h2, out2)
                  else recover_ack_loop ack_abs h2 out2))))"
  by pat_completeness auto
termination
  by (relation "measure (\<lambda>(ack_abs, h, out). length (out_of_order h))")
    (auto dest!: emit_gap_length flush_shrinks split: if_splits)

declare recover_ack_loop.simps [simp del]

definition recover_known_ack ::
  "tcp_half \<Rightarrow> reassembly_outcome \<Rightarrow> (tcp_half \<times> reassembly_outcome) option" where
  "recover_known_ack h out =
     (case peer_ack_abs h of None \<Rightarrow> Some (h, out)
      | Some ack_abs \<Rightarrow> recover_ack_loop ack_abs h out)"

definition recover_ooo_timeout ::
  "tcp_half \<Rightarrow> nat \<Rightarrow> nat \<Rightarrow> reassembly_outcome \<Rightarrow> (tcp_half \<times> reassembly_outcome) option" where
  "recover_ooo_timeout h max_age_ns ts out =
     (case next_abs h of None \<Rightarrow> Some (h\<lparr>gap_started_ts_ns := None\<rparr>, out) | Some expected \<Rightarrow>
      case om_first (out_of_order h) of
        None \<Rightarrow> Some (h\<lparr>gap_started_ts_ns := None\<rparr>, out)
      | Some (first, _) \<Rightarrow>
          if first \<le> expected then flush_ooo (h\<lparr>gap_started_ts_ns := None\<rparr>) out
          else case gap_started_ts_ns h of
            None \<Rightarrow> Some (h\<lparr>gap_started_ts_ns := Some ts\<rparr>, out)
          | Some started \<Rightarrow>
              if ts - started < max_age_ns then Some (h, out)
              else do {
                (h, out) \<leftarrow> emit_gap_to h first out;
                (h, out) \<leftarrow> flush_ooo h out;
                let h = h\<lparr>gap_started_ts_ns := None\<rparr>;
                Some (case (om_first (out_of_order h), next_abs h) of
                    (Some (next, _), Some expected) \<Rightarrow>
                      if next > expected then (h\<lparr>gap_started_ts_ns := Some ts\<rparr>, out) else (h, out)
                  | _ \<Rightarrow> (h, out))
              })"

function recover_ooo_pressure ::
  "nat \<Rightarrow> nat \<Rightarrow> tcp_half \<Rightarrow> reassembly_outcome \<Rightarrow> (tcp_half \<times> reassembly_outcome) option" where
  "recover_ooo_pressure max_ooo max_segments h out =
     (if out_of_order_bytes h > max_ooo \<or> length (out_of_order h) > max_segments then
        case om_first (out_of_order h) of None \<Rightarrow> Some (h, out) | Some (first, _) \<Rightarrow>
          Option.bind (next_abs h) (\<lambda>expected.
            Option.bind (if first > expected then emit_gap_to h first out else Some (h, out))
              (\<lambda>(h1, out1). Option.bind (flush_ooo h1 out1) (\<lambda>(h2, out2).
                 if fin_consumed h2 \<or> out_of_order_bytes h2 \<ge> out_of_order_bytes h1
                 then Some (h2, out2)
                 else recover_ooo_pressure max_ooo max_segments h2 out2)))
      else Some (h, out))"
  by pat_completeness auto
termination
  by (relation "measure (\<lambda>(max_ooo, max_segments, h, out). length (out_of_order h))")
    (auto dest!: emit_gap_length flush_shrinks split: if_splits)

declare recover_ooo_pressure.simps [simp del]

subsection \<open>The operations on a half\<close>

text \<open>The FIN bookkeeping of \<open>accept\<close>, then the part of the payload it keeps: the result is the
  half, the outcome and the payload cut at a validated FIN.\<close>

definition note_fin :: "tcp_half \<Rightarrow> nat \<Rightarrow> nat \<Rightarrow> nat \<Rightarrow> tcp_half" where
  "note_fin h start_abs end_abs expected =
     (case pending_fin h of
        None \<Rightarrow> h\<lparr>pending_fin := Some end_abs, pending_fin_requires_ack := start_abs > expected\<rparr>
      | Some existing \<Rightarrow>
          if existing = end_abs \<and> start_abs \<le> expected then h\<lparr>pending_fin_requires_ack := False\<rparr>
          else if pending_fin_requires_ack h \<and> start_abs \<le> expected
          then h\<lparr>pending_fin := Some end_abs, pending_fin_requires_ack := False\<rparr>
          else h)"

definition cut_at_fin ::
  "tcp_half \<Rightarrow> nat \<Rightarrow> nat \<Rightarrow> bytes \<Rightarrow> reassembly_outcome \<Rightarrow>
   (tcp_half \<times> reassembly_outcome \<times> bytes) option" where
  "cut_at_fin h start_abs end_abs data out =
     (case pending_fin h of None \<Rightarrow> Some (h, out, data) | Some fin_abs \<Rightarrow>
        if end_abs > fin_abs then
          if pending_fin_requires_ack h \<and> \<not> ack_covers (peer_ack_abs h) fin_abs
          then Some (h\<lparr>pending_fin := None, pending_fin_requires_ack := False\<rparr>, out, data)
          else if start_abs \<ge> fin_abs
          then Some (h, if data \<noteq> [] then out\<lparr>out_retransmit := True\<rparr> else out, [])
          else do {
            kept \<leftarrow> slice_chk 0 (fin_abs - start_abs) data;
            Some (h, out\<lparr>out_retransmit := True\<rparr>, kept)
          }
        else Some (h, out, data))"

text \<open>The payload that is kept. A segment that lies wholly before the expected position is only marked as a
  retransmission: \<open>start\<close> stays 0 in the source, so all of it is emitted, or buffered, once more.\<close>

definition accept_payload ::
  "tcp_half \<Rightarrow> nat \<Rightarrow> nat \<Rightarrow> nat \<Rightarrow> bytes \<Rightarrow> nat \<Rightarrow> nat \<Rightarrow> reassembly_outcome \<Rightarrow>
   (tcp_half \<times> reassembly_outcome) option" where
  "accept_payload h start_abs expected ts data max_ooo max_ooo_segments out =
     (if data = [] then Some (h, out)
      else if start_abs > expected then do {
        (h, out) \<leftarrow> insert_ooo_first_seen h start_abs ts data (out\<lparr>out_out_of_order := True\<rparr>);
        (h, out) \<leftarrow> recover_known_ack h out;
        recover_ooo_pressure max_ooo max_ooo_segments h out
      }
      else
        let overlap = expected - start_abs;
            out = (if start_abs < expected then out\<lparr>out_retransmit := True\<rparr> else out);
            start = (if start_abs < expected \<and> overlap < length data then overlap else 0) in
        if start < length data then do {
          tail \<leftarrow> (if start = 0 then Some data else slice_chk start (length data) data);
          if out_of_order h = [] then emit h tail ts out
          else do {
            (h, out) \<leftarrow> insert_ooo_first_seen h (sat_add64 start_abs start) ts tail out;
            (h, out) \<leftarrow> flush_ooo h out;
            (h, out) \<leftarrow> recover_known_ack h out;
            recover_ooo_pressure max_ooo max_ooo_segments h out
          }
        }
        else Some (h, out))"

definition accept ::
  "tcp_half \<Rightarrow> u32 \<Rightarrow> bool \<Rightarrow> bool \<Rightarrow> nat \<Rightarrow> bytes \<Rightarrow> nat \<Rightarrow> nat \<Rightarrow> nat \<Rightarrow>
   (tcp_half \<times> reassembly_outcome) option" where
  "accept h seq syn fin ts data max_ooo max_ooo_segments gap_timeout_ns =
     (let out = default_outcome; h = observe h seq syn in
      if fin_consumed h
      then Some (h, if data \<noteq> [] then out\<lparr>out_retransmit := True\<rparr> else out)
      else do {
        expected \<leftarrow> next_abs h;
        let start_abs = extend_seq (payload_seq seq syn) expected;
        let end_abs = sat_add64 start_abs (length data);
        let h = (if fin \<and> end_abs \<ge> expected then note_fin h start_abs end_abs expected else h);
        (h, out, data) \<leftarrow> cut_at_fin h start_abs end_abs data out;
        (h, out) \<leftarrow> accept_payload h start_abs expected ts data max_ooo max_ooo_segments out;
        (h, out) \<leftarrow> (if pending_fin h \<noteq> None \<and> \<not> fin_consumed h then recover_known_ack h out
                     else Some (h, out));
        (h, out) \<leftarrow> recover_ooo_timeout h gap_timeout_ns ts out;
        Some (consume_fin_if_ready h out)
      })"

definition note_ack :: "tcp_half \<Rightarrow> u32 \<Rightarrow> nat \<Rightarrow> tcp_half" where
  "note_ack h ack expected =
     (let ack_abs = extend_seq ack expected in
      if ack_abs > expected \<and> (case peer_ack_abs h of None \<Rightarrow> True | Some current \<Rightarrow> ack_abs > current)
      then h\<lparr>peer_ack_abs := Some ack_abs\<rparr> else h)"

definition acknowledge ::
  "tcp_half \<Rightarrow> u32 \<Rightarrow> nat \<Rightarrow> nat \<Rightarrow> (tcp_half \<times> reassembly_outcome) option" where
  "acknowledge h ack ts gap_timeout_ns =
     (case next_abs h of None \<Rightarrow> Some (h, default_outcome) | Some expected \<Rightarrow>
        let h = note_ack h ack expected in
        if out_of_order h = [] \<and> pending_fin h = None then Some (h, default_outcome)
        else do {
          (h, out) \<leftarrow> recover_known_ack h default_outcome;
          (h, out) \<leftarrow> recover_ooo_timeout h gap_timeout_ns ts out;
          Some (consume_fin_if_ready h out)
        })"

function finalize_loop ::
  "tcp_half \<Rightarrow> reassembly_outcome \<Rightarrow> (tcp_half \<times> reassembly_outcome) option" where
  "finalize_loop h out =
     (case next_abs h of None \<Rightarrow> Some (h, out) | Some expected \<Rightarrow>
      case om_first (out_of_order h) of None \<Rightarrow> Some (h, out) | Some (first, _) \<Rightarrow>
        Option.bind (if first > expected then emit_gap_to h first out else Some (h, out))
          (\<lambda>(h1, out1). Option.bind (flush_ooo h1 out1) (\<lambda>(h2, out2).
             if fin_consumed h2 then Some (h2, out2)
             else if next_abs h2 = next_abs h1 \<and> out_of_order_bytes h2 = out_of_order_bytes h1
             then Some (h2, out2)
             else finalize_loop h2 out2)))"
  by pat_completeness auto
termination
  by (relation "measure (\<lambda>(h, out). length (out_of_order h))")
    (auto dest!: emit_gap_length flush_shrinks split: if_splits)

declare finalize_loop.simps [simp del]

definition finalize :: "tcp_half \<Rightarrow> (tcp_half \<times> reassembly_outcome) option" where
  "finalize h =
     do {
       (h, out) \<leftarrow> finalize_loop h default_outcome;
       let (h, out) = consume_fin_if_ready h out;
       Some (h\<lparr>gap_started_ts_ns := None\<rparr>, out)
     }"

subsection \<open>Evaluation on concrete halves\<close>

lemmas reassembly_eval = accept_def observe_def cut_at_fin_def note_fin_def accept_payload_def emit_def
  payload_seq_def insert_ooo_first_seen_def insert_loop.simps flush_ooo.simps emit_gap_to_def
  fin_limited_def recover_known_ack_def recover_ack_loop.simps recover_ooo_timeout_def
  recover_ooo_pressure.simps consume_fin_if_ready_def ack_covers_def extend_seq_def sat_add64_def
  Let_def seg_end_def om_first_def om_remove_def om_last_le_def om_first_in_def last_option_def
  slice_chk_def bslice_def default_outcome_def acknowledge_def note_ack_def finalize_def
  finalize_loop.simps default_half_def

end
