(* ===== verification/Tcp_Buffer.thy ===== *)
theory Tcp_Buffer
  imports Tcp_Reassembly
begin

text \<open>
  The out-of-order buffer of a TCP half as a map of disjoint segments, and the correctness of
  \<open>insert_ooo_first_seen\<close>: its loop ends, and it adds to the buffer exactly those bytes of the
  new segment whose position no buffered segment covers yet. The first-seen byte of a position
  is never replaced.
\<close>

interpretation seg: segment_map set om_invar om_get om_insert om_remove om_first om_last_le
    om_last_less om_first_ge om_first_in seg_len
  by unfold_locales

definition buf_bytes :: "(nat, buffered_segment) omap \<Rightarrow> nat" where
  "buf_bytes m = (\<Sum>e\<leftarrow>m. seg_len (snd e))"

definition buf_ok :: "nat \<Rightarrow> (nat, buffered_segment) omap \<Rightarrow> bool" where
  "buf_ok B m \<longleftrightarrow> om_invar m \<and> disjoint_segs seg_len (set m) \<and>
     (\<forall>(k, s) \<in> set m. k + seg_len s \<le> B)"

text \<open>\<open>first_seen S start data S'\<close>: \<open>S'\<close> is \<open>S\<close> with the bytes of \<open>data\<close> laid down from \<open>start\<close>
  wherever \<open>S\<close> has no byte.\<close>

definition first_seen ::
  "(nat \<times> buffered_segment) set \<Rightarrow> nat \<Rightarrow> bytes \<Rightarrow> (nat \<times> buffered_segment) set \<Rightarrow> bool" where
  "first_seen S start data S' \<longleftrightarrow>
     (\<forall>p b. byte_in seg_data S' p b \<longleftrightarrow> byte_in seg_data S p b \<or>
        (\<not> covered seg_len S p \<and> start \<le> p \<and> p < start + length data \<and> data ! (p - start) = b))"

subsection \<open>Accounting\<close>

lemma buf_bytes_simps [simp]: "buf_bytes [] = 0" "buf_bytes (e # m) = seg_len (snd e) + buf_bytes m"
  by (simp_all add: buf_bytes_def)

lemma buf_bytes_insert:
  "om_invar m \<Longrightarrow> (\<And>s. (k, s) \<notin> set m) \<Longrightarrow> buf_bytes (om_insert k s m) = buf_bytes m + seg_len s"
  by (induction m) force+

lemma buf_ok_Nil [simp]: "buf_ok B []"
  by (simp add: buf_ok_def)

lemma buf_ok_tail: "buf_ok B (e # m) \<Longrightarrow> buf_ok B m"
  by (auto simp: buf_ok_def elim: disjoint_segs_subset)

lemma buf_ok_head: "buf_ok B ((k, s) # m) \<Longrightarrow> 0 < seg_len s \<and> k + seg_len s \<le> B \<and>
    (\<forall>(k', s') \<in> set m. k + seg_len s \<le> k')"
  using disjoint_segsD [of seg_len "set ((k, s) # m)"] by (fastforce simp: buf_ok_def)

lemma buf_bytes_bound:
  "buf_ok B m \<Longrightarrow> (\<And>k s. (k, s) \<in> set m \<Longrightarrow> a \<le> k) \<Longrightarrow> a \<le> B \<Longrightarrow> a + buf_bytes m \<le> B"
proof (induction m arbitrary: a)
  case (Cons e m)
  obtain k s where [simp]: "e = (k, s)" by force
  have "k + seg_len s + buf_bytes m \<le> B"
    using Cons.IH [of "k + seg_len s"] buf_ok_head [of B k s m] buf_ok_tail [of B e m] Cons.prems(1)
    by fastforce
  moreover have "a \<le> k" using Cons.prems(2) [of k s] by simp
  ultimately show ?case by simp
qed simp

lemma buf_ok_bytes_le: "buf_ok B m \<Longrightarrow> buf_bytes m \<le> B"
  using buf_bytes_bound [of B m 0] by simp

lemma buf_ok_mono: "buf_ok B m \<Longrightarrow> B \<le> B' \<Longrightarrow> buf_ok B' m"
  by (fastforce simp: buf_ok_def)

lemma buf_ok_invar [simp]: "buf_ok B m \<Longrightarrow> om_invar m"
  and buf_ok_disjoint [simp]: "buf_ok B m \<Longrightarrow> disjoint_segs seg_len (set m)"
  and buf_ok_end: "buf_ok B m \<Longrightarrow> (k, s) \<in> set m \<Longrightarrow> k + seg_len s \<le> B"
  by (auto simp: buf_ok_def)

lemma seg_end_exact: "k + seg_len s \<le> u64_max \<Longrightarrow> seg_end s k = k + seg_len s"
  by (simp add: seg_end_def sat_simps)

subsection \<open>First-seen insertion\<close>

text \<open>The cursor of the loop never moves past an uncovered byte without storing it, so the loop
  may be described from its cursor on.\<close>

definition from_cursor ::
  "(nat \<times> buffered_segment) set \<Rightarrow> nat \<Rightarrow> nat \<Rightarrow> bytes \<Rightarrow> (nat \<times> buffered_segment) set \<Rightarrow> bool" where
  "from_cursor S cursor start data S' \<longleftrightarrow>
     (\<forall>p b. byte_in seg_data S' p b \<longleftrightarrow> byte_in seg_data S p b \<or>
        (\<not> covered seg_len S p \<and> cursor \<le> p \<and> p < start + length data \<and> data ! (p - start) = b))"

lemma first_seen_from_cursor: "first_seen S start data S' \<longleftrightarrow> from_cursor S start start data S'"
  by (simp add: first_seen_def from_cursor_def)

lemma byte_in_iff_covered: "covered seg_len S p \<longleftrightarrow> (\<exists>b. byte_in seg_data S p b)"
  using byte_in_covered [of seg_data S p] covered_byte_in [of seg_data S p] by auto

lemma from_cursor_skip:
  assumes "from_cursor S c' start data S'" "c \<le> c'"
    and "\<And>p. c \<le> p \<Longrightarrow> p < c' \<Longrightarrow> covered seg_len S p"
  shows "from_cursor S c start data S'"
  unfolding from_cursor_def
proof (intro allI)
  fix p b
  show "byte_in seg_data S' p b \<longleftrightarrow> byte_in seg_data S p b \<or> (\<not> covered seg_len S p \<and>
      c \<le> p \<and> p < start + length data \<and> data ! (p - start) = b)"
    using assms(1) [unfolded from_cursor_def, rule_format, of p b] assms(2) assms(3) [of p]
    by (cases "p < c'") auto
qed

lemma from_cursor_done:
  "start + length data \<le> c \<Longrightarrow> from_cursor S c start data S"
  by (auto simp: from_cursor_def)

lemma from_cursor_put:
  assumes "from_cursor (insert (c, s) S) e start data S'"
    and "start \<le> c" "c < e" "e \<le> start + length data" "seg_data s = bslice (c - start) (e - start) data"
    and "\<And>q. c \<le> q \<Longrightarrow> q < e \<Longrightarrow> \<not> covered seg_len S q"
  shows "from_cursor S c start data S'"
proof -
  have len: "seg_len s = e - c" using assms(2-5) by simp
  have nth: "seg_data s ! (p - c) = data ! (p - start)" if "c \<le> p" "p < e" for p
    using that assms(2-5) by simp
  have cov: "covered seg_len (insert (c, s) S) p \<longleftrightarrow> c \<le> p \<and> p < e \<or> covered seg_len S p" for p
    using len assms(3) by (auto simp: covered_insert)
  have byt: "byte_in seg_data (insert (c, s) S) p b \<longleftrightarrow>
      c \<le> p \<and> p < e \<and> data ! (p - start) = b \<or> byte_in seg_data S p b" for p b
    using len assms(3) nth by (auto simp: byte_in_insert)
  show ?thesis
    unfolding from_cursor_def
  proof (intro allI)
    fix p b
    show "byte_in seg_data S' p b \<longleftrightarrow> byte_in seg_data S p b \<or> (\<not> covered seg_len S p \<and>
        c \<le> p \<and> p < start + length data \<and> data ! (p - start) = b)"
      using assms(1) [unfolded from_cursor_def cov byt, rule_format, of p b] assms(3,4) assms(6) [of p]
      by (cases "p < e"; cases "p < c") auto
  qed
qed

text \<open>One call of the loop: it returns, changes nothing of the half but the buffer and its byte
  count, keeps every old segment, and keeps the buffer well formed.\<close>

definition inserted ::
  "nat \<Rightarrow> tcp_half \<Rightarrow> reassembly_outcome \<Rightarrow> nat \<Rightarrow> nat \<Rightarrow> bytes \<Rightarrow>
   tcp_half \<times> reassembly_outcome \<Rightarrow> bool" where
  "inserted B h out cursor start data r \<longleftrightarrow>
     (\<exists>m rt. r = (h\<lparr>out_of_order := m, out_of_order_bytes := buf_bytes m\<rparr>, out\<lparr>out_retransmit := rt\<rparr>) \<and>
        buf_ok B m \<and> set (out_of_order h) \<subseteq> set m \<and>
        from_cursor (set (out_of_order h)) cursor start data (set m))"

lemma inserted_skip:
  assumes "inserted B h (out\<lparr>out_retransmit := rt\<rparr>) c' start data r" "c \<le> c'"
    and "\<And>p. c \<le> p \<Longrightarrow> p < c' \<Longrightarrow> covered seg_len (set (out_of_order h)) p"
  shows "inserted B h out c start data r"
  using assms from_cursor_skip [OF _ assms(2,3)] unfolding inserted_def by fastforce

lemma inserted_put:
  assumes "inserted B (h\<lparr>out_of_order_bytes := n, out_of_order := om_insert c s (out_of_order h)\<rparr>) out
      e start data r"
    and "set (om_insert c s (out_of_order h)) = insert (c, s) (set (out_of_order h))"
    and "start \<le> c" "c < e" "e \<le> start + length data" "seg_data s = bslice (c - start) (e - start) data"
    and "\<And>q. c \<le> q \<Longrightarrow> q < e \<Longrightarrow> \<not> covered seg_len (set (out_of_order h)) q"
  shows "inserted B h out c start data r"
proof -
  obtain m rt where m: "r = (h\<lparr>out_of_order := m, out_of_order_bytes := buf_bytes m\<rparr>, out\<lparr>out_retransmit := rt\<rparr>)"
    "buf_ok B m" "insert (c, s) (set (out_of_order h)) \<subseteq> set m"
    "from_cursor (insert (c, s) (set (out_of_order h))) e start data (set m)"
    using assms(1,2) by (auto simp: inserted_def)
  then show ?thesis
    using from_cursor_put [OF m(4) assms(3-7)] unfolding inserted_def by auto
qed

lemma piece_end_bounds:
  assumes "om_invar m" "c < (e :: nat)"
  shows "c \<le> (case om_first_in c e m of None \<Rightarrow> e | Some (k, _) \<Rightarrow> k)"
    and "(case om_first_in c e m of None \<Rightarrow> e | Some (k, _) \<Rightarrow> k) \<le> e"
  using assms om.first_in_Some [OF assms(1), of c e]
  by (auto split: option.splits)

lemma piece_end_progress:
  assumes "buf_ok B m" "c < e" "\<not> covered seg_len (set m) c"
  shows "c < (case om_first_in c e m of None \<Rightarrow> e | Some (k, _) \<Rightarrow> k)"
proof (cases "om_first_in c e m")
  case (Some f)
  obtain k s where [simp]: "f = (k, s)" by force
  have "(k, s) \<in> set m" "c \<le> k" using om.first_in_Some [OF _ Some] assms(1) by auto
  moreover from this have "k \<noteq> c"
    using assms(3) disjoint_segsD(1) [OF buf_ok_disjoint [OF assms(1)]] by (fastforce simp: covered_def)
  ultimately show ?thesis using Some by simp
qed (use assms in simp)

text \<open>Storing the uncovered piece from \<open>c\<close> to \<open>e\<close>.\<close>

lemma put_piece:
  assumes "buf_ok B m" "seg_len s = e - c" "c < e" "e \<le> B"
    and "\<And>q. c \<le> q \<Longrightarrow> q < e \<Longrightarrow> \<not> covered seg_len (set m) q"
  shows "set (om_insert c s m) = insert (c, s) (set m)" "buf_ok B (om_insert c s m)"
    "buf_bytes (om_insert c s m) = buf_bytes m + (e - c)"
proof -
  have hole: "\<not> covered seg_len (set m) q" if "c \<le> q" "q < c + seg_len s" for q
    using that assms(2,3,5) by simp
  have pos: "0 < seg_len s" using assms(2,3) by simp
  note put = seg.put_in_hole [of m s c, OF buf_ok_invar [OF assms(1)] buf_ok_disjoint [OF assms(1)] pos hole]
  show eq: "set (om_insert c s m) = insert (c, s) (set m)" by (rule put(1))
  show "buf_ok B (om_insert c s m)"
    using put(2) assms(1-4) unfolding buf_ok_def eq by (auto intro: om_invar_insert)
  show "buf_bytes (om_insert c s m) = buf_bytes m + (e - c)"
    using buf_bytes_insert [OF buf_ok_invar [OF assms(1)] put(3)] assms(2) by simp
qed

text \<open>What the loop requires of its arguments.\<close>

definition insert_pre :: "nat \<Rightarrow> tcp_half \<Rightarrow> nat \<Rightarrow> nat \<Rightarrow> bytes \<Rightarrow> bool" where
  "insert_pre B h start cursor data \<longleftrightarrow>
     buf_ok B (out_of_order h) \<and> out_of_order_bytes h = buf_bytes (out_of_order h) \<and>
     start \<le> cursor \<and> start + length data \<le> B \<and> B \<le> u64_max"

text \<open>The three rounds of the loop: it is done, it skips a covered stretch, or it stores the
  uncovered piece up to the next segment (and then skips that segment).\<close>

lemma insert_loop_stop: "insert_loop start c ts data c h out = Some (h, out)"
  by (subst insert_loop.simps) simp

lemma insert_loop_skip:
  assumes "insert_pre B h start c data" "c < e" "covered seg_len (set (out_of_order h)) c"
  obtains c' where "c < c'" "c' \<le> e"
    "\<And>p. c \<le> p \<Longrightarrow> p < c' \<Longrightarrow> covered seg_len (set (out_of_order h)) p"
    "insert_loop start e ts data c h out = insert_loop start e ts data c' h (out\<lparr>out_retransmit := True\<rparr>)"
proof -
  let ?m = "out_of_order h"
  have ok: "buf_ok B ?m" "B \<le> u64_max" using assms(1) by (auto simp: insert_pre_def)
  obtain k s where ks: "om_last_le c ?m = Some (k, s)"
    using seg.last_le_none_uncovered [of ?m c] assms(3) ok by (cases "om_last_le c ?m") auto
  then have mem: "(k, s) \<in> set ?m" "k \<le> c" "c < k + seg_len s"
    using om.last_le_Some [OF _ ks] seg.last_le_covers [OF _ _ ks] ok assms(3) by auto
  have "seg_end s k = k + seg_len s"
    using buf_ok_end [OF ok(1) mem(1)] ok(2) by (simp add: seg_end_exact)
  then have "insert_loop start e ts data c h out =
      insert_loop start e ts data (min (k + seg_len s) e) h (out\<lparr>out_retransmit := True\<rparr>)"
    using assms(2) ks mem by (subst insert_loop.simps) simp
  then show ?thesis
    using mem assms(2) coveredI [OF mem(1)] by (intro that [of "min (k + seg_len s) e"]) auto
qed

lemma insert_loop_uncovered:
  assumes "insert_pre B h start c data" "c < start + length data"
    and unc: "\<not> covered seg_len (set (out_of_order h)) c"
  obtains e h1 c' rt where "c < e" "e \<le> c'" "c' \<le> start + length data" "insert_pre B h1 start c' data"
    "\<And>p. e \<le> p \<Longrightarrow> p < c' \<Longrightarrow> covered seg_len (set (out_of_order h1)) p"
    "\<And>o' r. inserted B h1 o' e start data r \<Longrightarrow> inserted B h o' c start data r"
    "insert_loop start (start + length data) ts data c h out =
     insert_loop start (start + length data) ts data c' h1 (out\<lparr>out_retransmit := rt\<rparr>)"
proof -
  let ?lim = "start + length data" and ?m = "out_of_order h"
  let ?next = "om_first_in c ?lim ?m"
  define pe where "pe = (case ?next of None \<Rightarrow> ?lim | Some (k, _) \<Rightarrow> k)"
  from assms(1) have pre: "buf_ok B ?m" "out_of_order_bytes h = buf_bytes ?m" "start \<le> c"
    "?lim \<le> B" "B \<le> u64_max"
    by (auto simp: insert_pre_def)
  have ends: "seg_end s k = k + seg_len s" if "(k, s) \<in> set ?m" for k s
    using buf_ok_end [OF pre(1) that] pre(5) by (simp add: seg_end_exact)
  have pe: "c < pe" "pe \<le> ?lim"
    using piece_end_progress [OF pre(1) assms(2) unc] piece_end_bounds [OF buf_ok_invar [OF pre(1)] assms(2)]
    by (simp_all add: pe_def)
  let ?s = "\<lparr>seg_data = bslice (c - start) (pe - start) data, seg_ts_ns = ts\<rparr>"
  have hole: "\<not> covered seg_len (set ?m) q" if "c \<le> q" "q < pe" for q
    using seg.hole_until_next [OF _ _ unc that(1), of ?lim] that pe(2) pre(1) by (simp add: pe_def)
  have sdat: "seg_data ?s = bslice (c - start) (pe - start) data" by simp
  have slen: "seg_len ?s = pe - c" using pe pre(3) by (simp add: min_def)
  note put = put_piece [OF pre(1) slen pe(1) order.trans [OF pe(2) pre(4)] hole]
  let ?h = "h\<lparr>out_of_order_bytes := sat_add64 (out_of_order_bytes h) (pe - c),
              out_of_order := om_insert c ?s ?m\<rparr>"
  have pre1: "insert_pre B ?h start c' data" if "start \<le> c'" for c'
    using put buf_ok_bytes_le [OF put(2)] pre that by (simp add: insert_pre_def sat_simps)
  note put_back = inserted_put [OF _ put(1) pre(3) pe(1,2) sdat hole]
  have no_ex: "\<not> (case om_last_le c ?m of None \<Rightarrow> 0 | Some (k, s) \<Rightarrow> seg_end s k) > c"
    using seg.last_le_covers [of ?m c] pre(1) unc om.last_le_Some [of ?m c] ends
    by (fastforce split: option.splits)
  show ?thesis
  proof (cases ?next)
    case None
    then have "insert_loop start ?lim ts data c h out = insert_loop start ?lim ts data pe ?h out"
      using assms(2) no_ex pe pre(3) slen by (subst insert_loop.simps) (simp add: Let_def pe_def)
    then show ?thesis
      using pe pre(3) by (intro that [where rt = "out_retransmit out", OF pe(1) order_refl pe(2) pre1 _ put_back]) auto
  next
    case (Some f)
    obtain k sg where f [simp]: "f = (k, sg)" by force
    have k: "(k, sg) \<in> set ?m" "k = pe" "k < ?lim"
      using om.first_in_Some [OF _ Some] pre(1) Some by (auto simp: pe_def)
    have sg: "0 < seg_len sg" "seg_end sg k = k + seg_len sg"
      using disjoint_segsD(1) [OF buf_ok_disjoint [OF pre(1)] k(1)] ends [OF k(1)] by auto
    let ?c' = "min (k + seg_len sg) ?lim"
    have "insert_loop start ?lim ts data c h out
        = insert_loop start ?lim ts data ?c' ?h (out\<lparr>out_retransmit := True\<rparr>)"
      using assms(2) no_ex Some pe k sg pre(3) slen by (subst insert_loop.simps) (simp add: Let_def)
    moreover have "covered seg_len (set (out_of_order ?h)) p" if "pe \<le> p" "p < ?c'" for p
      using that k put(1) by (auto intro: coveredI [of k sg])
    ultimately show ?thesis
      using k sg pe pre(3) by (intro that [where c' = ?c' and rt = True, OF pe(1) _ _ pre1 _ put_back]) auto
  qed
qed

lemma insert_loop_inserts:
  assumes "insert_pre B h start cursor data" "cursor \<le> start + length data"
  shows "returns (insert_loop start (start + length data) ts data cursor h out)
           (inserted B h out cursor start data)"
  using assms
proof (induction "start + length data - cursor" arbitrary: cursor h out rule: less_induct)
  case less
  let ?lim = "start + length data"
  note pre = less.prems
  have IH: "returns (insert_loop start ?lim ts data c' h' out') (inserted B h' out' c' start data)"
    if "cursor < c'" "c' \<le> ?lim" "insert_pre B h' start c' data" for c' h' out'
    using less.hyps [of c' h' out'] that by simp
  consider (stop) "cursor = ?lim"
    | (skip) "cursor < ?lim" "covered seg_len (set (out_of_order h)) cursor"
    | (piece) "cursor < ?lim" "\<not> covered seg_len (set (out_of_order h)) cursor"
    using pre(2) by linarith
  then show ?case
  proof cases
    case stop
    then show ?thesis
      using pre(1) by (auto simp: insert_loop_stop inserted_def insert_pre_def
        intro!: exI [of _ "out_of_order h"] exI [of _ "out_retransmit out"] from_cursor_done)
  next
    case skip
    from insert_loop_skip [OF pre(1) skip, of ts out] obtain c' where c': "cursor < c'" "c' \<le> ?lim"
      "\<And>p. cursor \<le> p \<Longrightarrow> p < c' \<Longrightarrow> covered seg_len (set (out_of_order h)) p"
      and eq: "insert_loop start ?lim ts data cursor h out =
        insert_loop start ?lim ts data c' h (out\<lparr>out_retransmit := True\<rparr>)"
      by blast
    have "insert_pre B h start c' data" using pre(1) c'(1) by (simp add: insert_pre_def)
    then show ?thesis
      unfolding eq using c'(1) by (intro returns_mono [OF IH [OF c'(1,2)] inserted_skip [OF _ _ c'(3)]]) auto
  next
    case piece
    obtain e h1 c' rt
      where e: "cursor < e" "e \<le> c'" "c' \<le> ?lim" "insert_pre B h1 start c' data"
        "\<And>p. e \<le> p \<Longrightarrow> p < c' \<Longrightarrow> covered seg_len (set (out_of_order h1)) p"
        "\<And>o' r. inserted B h1 o' e start data r \<Longrightarrow> inserted B h o' cursor start data r"
        and eq: "insert_loop start ?lim ts data cursor h out =
          insert_loop start ?lim ts data c' h1 (out\<lparr>out_retransmit := rt\<rparr>)"
      by (rule insert_loop_uncovered [OF pre(1) piece, of ts out]) (rule that; assumption)
    show ?thesis
      unfolding eq
      by (rule returns_mono [OF IH [OF less_le_trans [OF e(1,2)] e(3,4)]])
        (rule e(6), erule inserted_skip [OF _ e(2,5)])
  qed
qed

lemma insert_ooo_inserts:
  assumes "insert_pre B h start start data"
  shows "returns (insert_ooo_first_seen h start ts data out) (\<lambda>r. \<exists>m rt.
     r = (h\<lparr>out_of_order := m, out_of_order_bytes := buf_bytes m\<rparr>, out\<lparr>out_retransmit := rt\<rparr>) \<and>
     buf_ok B m \<and> set (out_of_order h) \<subseteq> set m \<and>
     first_seen (set (out_of_order h)) start data (set m))"
proof -
  have "sat_add64 start (length data) = start + length data"
    using assms by (simp add: insert_pre_def sat_simps)
  then show ?thesis
    using insert_loop_inserts [OF assms, of ts out] unfolding insert_ooo_first_seen_def
    by (auto simp: inserted_def first_seen_from_cursor elim!: returns_mono)
qed

end
