(* ===== verification/Tcp_Stream.thy ===== *)
theory Tcp_Stream
  imports Tcp_Buffer
begin

text \<open>
  The abstract view of a TCP half: a stream that only ever advances. \<open>advance\<close> is the relation
  of single moves (deliver the first buffered segment, drop it, skip a hole, consume the FIN,
  restart the hole timer); \<open>track\<close> says what any sequence of moves has done to the
  half and to the outcome it fills. The recovery loops and \<open>flush_ooo\<close> are shown to return and to
  be sequences of moves, so every statement about moves is one about the code.

  \<open>half_inv B h\<close> is the invariant of a half whose positions all stay at or below \<open>B\<close>; \<open>B\<close> grows
  with every packet and says how far the 64-bit positions are from saturating.
\<close>

definition half_inv :: "nat \<Rightarrow> tcp_half \<Rightarrow> bool" where
  "half_inv B h \<longleftrightarrow>
     buf_ok B (out_of_order h) \<and> out_of_order_bytes h = buf_bytes (out_of_order h) \<and>
     (case next_abs h of
        None \<Rightarrow> out_of_order h = [] \<and> pending_fin h = None \<and> stream_offset h = 0 \<and> \<not> fin_consumed h
      | Some n \<Rightarrow> initial_seq_epoch + stream_offset h \<le> n \<and> n \<le> B) \<and>
     (case pending_fin h of None \<Rightarrow> \<not> fin_consumed h | Some f \<Rightarrow> f < B) \<and>
     (fin_consumed h \<longrightarrow> out_of_order h = [] \<and>
        (\<exists>f n. pending_fin h = Some f \<and> next_abs h = Some n \<and> f \<le> n)) \<and>
     B \<le> u64_max"

text \<open>\<open>base h\<close> is the sequence position of stream offset zero.\<close>

definition base :: "tcp_half \<Rightarrow> nat" where
  "base h = the (next_abs h) - stream_offset h"

inductive advance :: "tcp_half \<times> reassembly_outcome \<Rightarrow> tcp_half \<times> reassembly_outcome \<Rightarrow> bool" where
  adv_drain: "drain q r \<Longrightarrow> advance q r"
| adv_gap: "\<not> fin_consumed h \<Longrightarrow> (\<And>k s. (k, s) \<in> set (out_of_order h) \<Longrightarrow> t \<le> k) \<Longrightarrow>
    out_of_order h \<noteq> [] \<or> pending_fin h \<noteq> None \<Longrightarrow> emit_gap_to h t out = Some r \<Longrightarrow>
    advance (h, out) r"
| adv_fin: "advance (h, out) (consume_fin_if_ready h out)"
| adv_timer: "advance (h, out) (h\<lparr>gap_started_ts_ns := g\<rparr>, out)"

definition chunk_span :: "reassembled_chunk \<Rightarrow> nat \<times> nat" where
  "chunk_span c = (chunk_offset c, length (chunk_data c))"

definition gap_span :: "stream_gap \<Rightarrow> nat \<times> nat" where
  "gap_span g = (gap_offset g, gap_len g)"

definition spans :: "reassembled_chunk list \<Rightarrow> stream_gap list \<Rightarrow> (nat \<times> nat) multiset" where
  "spans E G = mset (map chunk_span E) + mset (map gap_span G)"

text \<open>A chunk taken from the buffer of \<open>h\<close>; a gap over positions the buffer of \<open>h\<close> does not have.\<close>

definition chunk_from :: "tcp_half \<Rightarrow> reassembled_chunk \<Rightarrow> bool" where
  "chunk_from h c \<longleftrightarrow> (\<forall>i < length (chunk_data c).
     byte_in seg_data (set (out_of_order h)) (base h + chunk_offset c + i) (chunk_data c ! i))"

definition gap_clear :: "tcp_half \<Rightarrow> stream_gap \<Rightarrow> bool" where
  "gap_clear h g \<longleftrightarrow> (\<forall>i < gap_len g. \<not> covered seg_len (set (out_of_order h)) (base h + gap_offset g + i))"

text \<open>What a sequence of moves from \<open>(h0, out0)\<close> to \<open>(h, out)\<close> has done.\<close>

definition track ::
  "nat \<Rightarrow> tcp_half \<Rightarrow> reassembly_outcome \<Rightarrow> tcp_half \<times> reassembly_outcome \<Rightarrow> bool" where
  "track B h0 out0 = (\<lambda>(h, out).
     half_inv B h \<and> next_abs h \<noteq> None \<and>
     the (next_abs h0) \<le> the (next_abs h) \<and>
     (\<exists>E G. out_emitted out = out_emitted out0 @ E \<and> out_gaps out = out_gaps out0 @ G \<and>
        tiles (stream_offset h0) (spans E G) (stream_offset h) \<and>
        (\<forall>c \<in> set E. chunk_from h0 c) \<and> (\<forall>g \<in> set G. gap_clear h0 g) \<and>
        (fin_consumed h0 \<longrightarrow> E = [] \<and> G = [])) \<and>
     set (out_of_order h) \<subseteq> set (out_of_order h0) \<and>
     (\<not> fin_consumed h \<longrightarrow> base h = base h0 \<and>
        (\<forall>(k, s) \<in> set (out_of_order h0) - set (out_of_order h). k + seg_len s \<le> the (next_abs h))) \<and>
     pending_fin h = pending_fin h0 \<and> peer_ack_abs h = peer_ack_abs h0 \<and>
     initial_syn_seq h = initial_syn_seq h0 \<and>
     (fin_consumed h0 \<longrightarrow> fin_consumed h))"

subsection \<open>The invariant\<close>

lemma half_inv_default [simp]: "B \<le> u64_max \<Longrightarrow> half_inv B default_half"
  by (simp add: half_inv_def default_half_def)

lemma half_inv_mono: "half_inv B h \<Longrightarrow> B \<le> B' \<Longrightarrow> B' \<le> u64_max \<Longrightarrow> half_inv B' h"
  by (auto simp: half_inv_def buf_ok_mono split: option.splits)

lemma half_invD:
  assumes "half_inv B h"
  shows "buf_ok B (out_of_order h)" "out_of_order_bytes h = buf_bytes (out_of_order h)" "B \<le> u64_max"
    "next_abs h = Some n \<Longrightarrow> initial_seq_epoch + stream_offset h \<le> n \<and> n \<le> B"
    "pending_fin h = Some f \<Longrightarrow> f < B"
    "fin_consumed h \<Longrightarrow> out_of_order h = []"
    "fin_consumed h \<Longrightarrow> \<exists>f n. pending_fin h = Some f \<and> next_abs h = Some n \<and> f \<le> n"
  using assms by (auto simp: half_inv_def split: option.splits)

lemma half_inv_timer [simp]: "half_inv B (h\<lparr>gap_started_ts_ns := g\<rparr>) = half_inv B h"
  by (simp add: half_inv_def cong: option.case_cong)

lemma half_inv_consume:
  assumes "half_inv B h"
  shows "half_inv B (fst (consume_fin_if_ready h out))"
  using assms by (auto simp: half_inv_def consume_fin_if_ready_def sat_add64_def split: option.splits)

lemma buf_ok_pop:
  assumes "buf_ok B m" "om_first m = Some (k, s)"
  shows "buf_ok B (om_remove k m)" "buf_bytes (om_remove k m) = buf_bytes m - seg_len s"
    "set m = insert (k, s) (set (om_remove k m))" "(k, s) \<notin> set (om_remove k m)"
proof -
  obtain m' where m: "m = (k, s) # m'" using assms(2) by (auto simp: om_first_Some_iff)
  then have r: "om_remove k ((k, s) # m') = m'"
    using om_remove_head [of "(k, s)" m'] buf_ok_invar [OF assms(1)] by simp
  show "buf_ok B (om_remove k m)" "buf_bytes (om_remove k m) = buf_bytes m - seg_len s"
    "set m = insert (k, s) (set (om_remove k m))"
    using buf_ok_tail [of B "(k, s)" m'] assms(1) unfolding m r by simp_all
  show "(k, s) \<notin> set (om_remove k m)" by (auto simp: om_remove_def)
qed

lemma half_inv_pop:
  assumes "half_inv B h" "om_first (out_of_order h) = Some (k, s)"
  shows "half_inv B (pop_first h k s)"
  using assms buf_ok_pop [OF half_invD(1) [OF assms(1)] assms(2)]
  by (auto simp: half_inv_def pop_first_def split: option.splits)

subsection \<open>Moves compose\<close>

lemma spans_append: "spans (E @ E') (G @ G') = spans E G + spans E' G'"
  by (simp add: spans_def)

lemma spans_Nil [simp]: "spans [] [] = {#}"
  by (simp add: spans_def)

lemma half_inv_base: "half_inv B h \<Longrightarrow> next_abs h = Some n \<Longrightarrow> base h + stream_offset h = n"
  using half_invD(4) [of B h n] by (auto simp: base_def)

lemma trackD:
  assumes "track B h0 out0 (h, out)"
  shows "half_inv B h" "next_abs h \<noteq> None" "the (next_abs h0) \<le> the (next_abs h)"
    "set (out_of_order h) \<subseteq> set (out_of_order h0)"
    "\<not> fin_consumed h \<Longrightarrow> base h = base h0"
    "\<not> fin_consumed h \<Longrightarrow>
      \<forall>(k, s) \<in> set (out_of_order h0) - set (out_of_order h). k + seg_len s \<le> the (next_abs h)"
    "pending_fin h = pending_fin h0" "peer_ack_abs h = peer_ack_abs h0"
    "initial_syn_seq h = initial_syn_seq h0" "fin_consumed h0 \<Longrightarrow> fin_consumed h"
  using assms by (auto simp: track_def)

lemma track_refl: "half_inv B h \<Longrightarrow> next_abs h \<noteq> None \<Longrightarrow> track B h out (h, out)"
  by (auto simp: track_def)

lemma chunk_from_mono:
  "chunk_from h c \<Longrightarrow> base h = base h0 \<Longrightarrow> set (out_of_order h) \<subseteq> set (out_of_order h0) \<Longrightarrow>
   chunk_from h0 c"
  unfolding chunk_from_def byte_in_def by fastforce

text \<open>A later gap lies past everything that has left the buffer since.\<close>

lemma gap_clear_mono:
  assumes "gap_clear h g" "base h = base h0" "the (next_abs h) \<le> base h + gap_offset g"
    and "\<forall>(k, s) \<in> set (out_of_order h0) - set (out_of_order h). k + seg_len s \<le> the (next_abs h)"
  shows "gap_clear h0 g"
  unfolding gap_clear_def
proof (intro allI impI notI)
  fix i assume i: "i < gap_len g" and "covered seg_len (set (out_of_order h0)) (base h0 + gap_offset g + i)"
  then obtain k s where ks: "(k, s) \<in> set (out_of_order h0)" "k \<le> base h + gap_offset g + i"
    "base h + gap_offset g + i < k + seg_len s"
    using assms(2) by (auto simp: covered_def)
  then have "(k, s) \<in> set (out_of_order h)" using assms(3) bspec [OF assms(4), of "(k, s)"] by force
  then have "covered seg_len (set (out_of_order h)) (base h + gap_offset g + i)"
    using ks by (blast intro: coveredI)
  then show False using assms(1) i by (simp add: gap_clear_def)
qed

lemma track_trans:
  assumes "track B h0 out0 (h, out)" "track B h out (h', out')"
  shows "track B h0 out0 (h', out')"
proof -
  from assms(1) obtain E G where 1: "out_emitted out = out_emitted out0 @ E" "out_gaps out = out_gaps out0 @ G"
    "tiles (stream_offset h0) (spans E G) (stream_offset h)" "\<forall>c \<in> set E. chunk_from h0 c"
    "\<forall>g \<in> set G. gap_clear h0 g" "fin_consumed h0 \<longrightarrow> E = [] \<and> G = []"
    by (auto simp: track_def)
  from assms(2) obtain E' G' where 2: "out_emitted out' = out_emitted out @ E'" "out_gaps out' = out_gaps out @ G'"
    "tiles (stream_offset h) (spans E' G') (stream_offset h')" "\<forall>c \<in> set E'. chunk_from h c"
    "\<forall>g \<in> set G'. gap_clear h g" "fin_consumed h \<longrightarrow> E' = [] \<and> G' = []"
    by (auto simp: track_def)
  obtain n where n: "next_abs h = Some n" "half_inv B h" using assms(1) by (auto simp: track_def)
  note D = trackD [OF assms(1)] and D' = trackD [OF assms(2)]
  have chunks: "\<forall>c \<in> set E'. chunk_from h0 c"
    using 2(4,6) D(4,5) chunk_from_mono [of h _ h0] by (cases "fin_consumed h") auto
  have gaps: "\<forall>g \<in> set G'. gap_clear h0 g"
  proof
    fix g assume g: "g \<in> set G'"
    then have "gap_span g \<in># spans E' G'" by (simp add: spans_def)
    then have "n \<le> base h + gap_offset g"
      using tiles_span [OF 2(3), of "gap_offset g" "gap_len g"] half_inv_base [OF n(2,1)]
      by (simp add: gap_span_def)
    moreover have "\<not> fin_consumed h" using 2(6) g by auto
    ultimately show "gap_clear h0 g"
      using 2(5) g n(1) D(5,6) gap_clear_mono [of h g h0] by simp
  qed
  have "k + seg_len s \<le> the (next_abs h')"
    if "\<not> fin_consumed h'" "(k, s) \<in> set (out_of_order h0) - set (out_of_order h')" for k s
  proof (cases "(k, s) \<in> set (out_of_order h)")
    case True
    then show ?thesis using D'(6) [OF that(1)] that(2) by auto
  next
    case False
    then have "k + seg_len s \<le> the (next_abs h)" using D(6) D'(10) that by auto
    then show ?thesis using D'(3) by simp
  qed
  moreover have "\<not> fin_consumed h' \<Longrightarrow> base h' = base h0" using D(5) D'(5,10) by auto
  moreover have "\<exists>E G. out_emitted out' = out_emitted out0 @ E \<and> out_gaps out' = out_gaps out0 @ G \<and>
        tiles (stream_offset h0) (spans E G) (stream_offset h') \<and>
        (\<forall>c \<in> set E. chunk_from h0 c) \<and> (\<forall>g \<in> set G. gap_clear h0 g) \<and>
        (fin_consumed h0 \<longrightarrow> E = [] \<and> G = [])"
  proof (intro exI conjI)
    show "tiles (stream_offset h0) (spans (E @ E') (G @ G')) (stream_offset h')"
      unfolding spans_append by (rule tiles_trans [OF 2(3) 1(3)])
  qed (use 1 2 chunks gaps D(10) in auto)
  ultimately show ?thesis
    using D D' unfolding track_def by auto
qed

subsection \<open>Each move\<close>

lemma track_consume:
  assumes "half_inv B h" "next_abs h \<noteq> None"
  shows "track B h out (consume_fin_if_ready h out)"
proof -
  have "half_inv B (fst (consume_fin_if_ready h out))" by (rule half_inv_consume [OF assms(1)])
  then show ?thesis
    using assms half_invD(5) [OF assms(1)] half_invD(3) [OF assms(1)]
    by (auto simp: track_def consume_fin_if_ready_def sat_add64_def split: option.splits)
qed

lemma track_then_consume:
  assumes "track B h0 out0 (h, out)"
  shows "track B h0 out0 (consume_fin_if_ready h out)"
proof -
  obtain h' out' where c: "consume_fin_if_ready h out = (h', out')" by force
  have "track B h out (h', out')"
    using track_consume [of B h out] trackD(1,2) [OF assms] unfolding c by simp
  then show ?thesis unfolding c by (rule track_trans [OF assms])
qed

lemma track_timer:
  "half_inv B h \<Longrightarrow> next_abs h \<noteq> None \<Longrightarrow> track B h out (h\<lparr>gap_started_ts_ns := g\<rparr>, out)"
  by (auto simp: track_def base_def)

lemma track_pop:
  assumes "half_inv B h" "next_abs h = Some e" "om_first (out_of_order h) = Some (k, s)"
    and "k + seg_len s \<le> e"
  shows "track B h out (pop_first h k s, out)"
  using assms half_inv_pop [OF assms(1,3)] buf_ok_pop(3) [OF half_invD(1) [OF assms(1)] assms(3)]
  by (auto simp: track_def pop_first_def base_def)

text \<open>Delivering the first segment from the expected byte on, before the FIN is looked at.\<close>

definition deliver :: "tcp_half \<Rightarrow> nat \<Rightarrow> nat \<Rightarrow> buffered_segment \<Rightarrow> tcp_half" where
  "deliver h e k s = (pop_first h k s)\<lparr>stream_offset := stream_offset h + (k + seg_len s - e),
                       next_abs := Some (k + seg_len s)\<rparr>"

lemma track_deliver:
  assumes inv: "half_inv B h" and "\<not> fin_consumed h" and n: "next_abs h = Some e"
    and f: "om_first (out_of_order h) = Some (k, s)" and ke: "k \<le> e" "e < k + seg_len s"
    and out': "out_emitted out' = out_emitted out @
        [\<lparr>chunk_offset = stream_offset h, chunk_ts_ns = ts, chunk_data = drop (e - k) (seg_data s)\<rparr>]"
      "out_gaps out' = out_gaps out"
  shows "track B h out (deliver h e k s, out')"
proof -
  let ?c = "\<lparr>chunk_offset = stream_offset h, chunk_ts_ns = ts, chunk_data = drop (e - k) (seg_data s)\<rparr>"
  note pop = buf_ok_pop [OF half_invD(1) [OF inv] f]
  have mem: "(k, s) \<in> set (out_of_order h)" using pop(3) by simp
  have end_le: "k + seg_len s \<le> B" by (rule buf_ok_end [OF half_invD(1) [OF inv] mem])
  have off: "initial_seq_epoch + stream_offset h \<le> e" using half_invD(4) [OF inv n] by simp
  have "half_inv B (deliver h e k s)"
    using half_inv_pop [OF inv f] end_le off ke assms(2)
    by (auto simp: half_inv_def deliver_def pop_first_def split: option.splits)
  moreover have "chunk_from h ?c"
    unfolding chunk_from_def byte_in_def
    using mem ke half_inv_base [OF inv n] by (auto intro!: bexI [OF _ mem])
  moreover have "tiles (stream_offset h) (spans [?c] []) (stream_offset h + (k + seg_len s - e))"
    using tiles_snoc [OF tiles_empty, of "stream_offset h" "k + seg_len s - e"] ke
    by (simp add: spans_def chunk_span_def add.commute)
  moreover have "base (deliver h e k s) = base h"
    using ke off n by (simp add: base_def deliver_def)
  ultimately show ?thesis
    using out' n ke pop(3) assms(2) unfolding track_def
    by (auto simp: deliver_def pop_first_def intro!: exI [of _ "[?c]"] exI [of _ "[]"])
qed

lemma emit_eq:
  "d \<noteq> [] \<Longrightarrow> next_abs h = Some e \<Longrightarrow> emit h d ts out = Some (consume_fin_if_ready
     (h\<lparr>stream_offset := sat_add64 (stream_offset h) (length d), next_abs := Some (sat_add64 e (length d))\<rparr>)
     (out\<lparr>out_emitted := out_emitted out @
        [\<lparr>chunk_offset = stream_offset h, chunk_ts_ns = ts, chunk_data = d\<rparr>]\<rparr>))"
  by (simp add: emit_def)

lemma emit_gap_eq:
  "next_abs h = Some e \<Longrightarrow> t' = fin_limited (pending_fin h) t \<Longrightarrow> e < t' \<Longrightarrow>
   emit_gap_to h t out = Some (consume_fin_if_ready
     (h\<lparr>stream_offset := sat_add64 (stream_offset h) (t' - e), next_abs := Some t'\<rparr>)
     (out\<lparr>out_gaps := out_gaps out @ [\<lparr>gap_offset = stream_offset h, gap_len = t' - e\<rparr>]\<rparr>))"
  by (simp add: emit_gap_to_def Let_def)

lemma track_drain:
  assumes "drain (h, out) r" "half_inv B h"
  shows "track B h out r"
  using assms(1)
proof cases
  case (drain_discard e k s)
  then show ?thesis using track_pop [OF assms(2)] by simp
next
  case (drain_deliver e k s)
  note pop = buf_ok_pop [OF half_invD(1) [OF assms(2)] drain_deliver(3)]
  have mem: "(k, s) \<in> set (out_of_order h)" using pop(3) by simp
  have len: "e < k + seg_len s"
    using drain_deliver(4,5) disjoint_segsD(1) [OF buf_ok_disjoint [OF half_invD(1) [OF assms(2)]] mem] by auto
  have sat: "sat_add64 e (k + seg_len s - e) = k + seg_len s"
    "sat_add64 (stream_offset h) (k + seg_len s - e) = stream_offset h + (k + seg_len s - e)"
    using half_invD(3,4) [OF assms(2)] drain_deliver(2) len
      buf_ok_end [OF half_invD(1) [OF assms(2)] mem] by (auto simp: sat_add64_def)
  have ne: "drop (e - k) (seg_data s) \<noteq> []" and llen: "length (drop (e - k) (seg_data s)) = k + seg_len s - e"
    and nx: "next_abs (pop_first h k s) = Some e"
    using len drain_deliver(2,4) by (auto simp: pop_first_def)
  have r: "r = consume_fin_if_ready (deliver h e k s) (out\<lparr>out_emitted := out_emitted out @
      [\<lparr>chunk_offset = stream_offset h, chunk_ts_ns = seg_ts_ns s, chunk_data = drop (e - k) (seg_data s)\<rparr>]\<rparr>)"
    using drain_deliver(6) unfolding emit_eq [OF ne nx] llen
    by (simp add: deliver_def pop_first_def sat)
  show ?thesis
    unfolding r
    by (intro track_then_consume track_deliver [where ts = "seg_ts_ns s"])
      (use drain_deliver assms(2) len in auto)
qed

lemma track_gap:
  assumes inv: "half_inv B h" and nf: "\<not> fin_consumed h" and n: "next_abs h = Some e"
    and t: "e < t" "t \<le> B" "\<And>k s. (k, s) \<in> set (out_of_order h) \<Longrightarrow> t \<le> k"
    and out': "out_emitted out' = out_emitted out"
      "out_gaps out' = out_gaps out @ [\<lparr>gap_offset = stream_offset h, gap_len = t - e\<rparr>]"
  shows "track B h out (h\<lparr>stream_offset := stream_offset h + (t - e), next_abs := Some t\<rparr>, out')"
proof -
  let ?g = "\<lparr>gap_offset = stream_offset h, gap_len = t - e\<rparr>"
  let ?h = "h\<lparr>stream_offset := stream_offset h + (t - e), next_abs := Some t\<rparr>"
  have off: "initial_seq_epoch + stream_offset h \<le> e" using half_invD(4) [OF inv n] by simp
  have "half_inv B ?h"
    using inv t off nf by (auto simp: half_inv_def split: option.splits)
  moreover have "gap_clear h ?g"
    unfolding gap_clear_def covered_def using t(1,3) half_inv_base [OF inv n] by fastforce
  moreover have "tiles (stream_offset h) (spans [] [?g]) (stream_offset h + (t - e))"
    using tiles_snoc [OF tiles_empty, of "stream_offset h" "t - e"] by (simp add: spans_def gap_span_def)
  moreover have "base ?h = base h" using t off n by (simp add: base_def)
  ultimately show ?thesis
    using out' n t nf unfolding track_def
    by (auto intro!: exI [of _ "[]"] exI [of _ "[?g]"])
qed

lemma track_emit_gap:
  assumes "half_inv B h" "\<not> fin_consumed h" "next_abs h = Some e"
    and t: "\<And>k s. (k, s) \<in> set (out_of_order h) \<Longrightarrow> t \<le> k"
    and some: "out_of_order h \<noteq> [] \<or> pending_fin h \<noteq> None"
    and "emit_gap_to h t out = Some r"
  shows "track B h out r"
proof -
  let ?t = "fin_limited (pending_fin h) t"
  have le: "?t \<le> t" by (simp add: fin_limited_def split: option.splits)
  have B: "?t \<le> B"
  proof (cases "pending_fin h")
    case None
    then obtain k s where "(k, s) \<in> set (out_of_order h)"
      using some by (cases "out_of_order h") auto
    then show ?thesis using t [of k s] le buf_ok_end [OF half_invD(1) [OF assms(1)]] by fastforce
  next
    case (Some f)
    then show ?thesis using half_invD(5) [OF assms(1) Some] by (simp add: fin_limited_def)
  qed
  show ?thesis
  proof (cases "?t \<le> e")
    case True
    then show ?thesis
      using assms(3,6) track_refl [OF assms(1), of out] by (auto simp: emit_gap_to_def)
  next
    case False
    then have "sat_add64 (stream_offset h) (?t - e) = stream_offset h + (?t - e)"
      using half_invD(4) [OF assms(1,3)] half_invD(3) [OF assms(1)] B by (simp add: sat_add64_def)
    then have r: "r = consume_fin_if_ready (h\<lparr>stream_offset := stream_offset h + (?t - e), next_abs := Some ?t\<rparr>)
        (out\<lparr>out_gaps := out_gaps out @ [\<lparr>gap_offset = stream_offset h, gap_len = ?t - e\<rparr>]\<rparr>)"
      using assms(6) False by (simp add: emit_gap_eq [OF assms(3) refl])
    show ?thesis
      unfolding r using le t B False assms(1-3)
      by (intro track_then_consume track_gap) (auto intro: le_trans)
  qed
qed

lemma advance_track:
  assumes "advance (h, out) r" "half_inv B h" "next_abs h \<noteq> None"
  shows "track B h out r"
  using assms(1)
proof cases
  case adv_drain
  then show ?thesis using track_drain assms(2) by blast
next
  case (adv_gap t)
  then show ?thesis using track_emit_gap assms(2,3) by blast
next
  case adv_fin
  then show ?thesis using track_consume assms(2,3) by simp
next
  case (adv_timer g)
  then show ?thesis using track_timer assms(2,3) by simp
qed

lemma advances_track:
  assumes "advance\<^sup>*\<^sup>* q r" "half_inv B (fst q)" "next_abs (fst q) \<noteq> None"
  shows "track B (fst q) (snd q) r"
  using assms(1)
proof (induction rule: rtranclp_induct)
  case base
  then show ?case using track_refl [OF assms(2,3), of "snd q"] by simp
next
  case (step x y)
  obtain h out h' out' where xy: "x = (h, out)" "y = (h', out')" by (cases x, cases y)
  show ?case
    using step(2,3) advance_track [of h out y B] trackD(1,2) [of B "fst q" "snd q" h out]
      track_trans [of B "fst q" "snd q" h out h' out'] by (simp add: xy)
qed

subsection \<open>The code moves the stream\<close>

text \<open>\<open>moves h out m Q\<close>: the call \<open>m\<close>, made in \<open>(h, out)\<close>, returns, is a sequence of moves and
  leaves a half with \<open>Q\<close>. \<open>settled\<close>: nothing deliverable is held back.\<close>

definition moves :: "tcp_half \<Rightarrow> reassembly_outcome \<Rightarrow> (tcp_half \<times> reassembly_outcome) option \<Rightarrow>
    (tcp_half \<Rightarrow> bool) \<Rightarrow> bool" where
  "moves h out m Q \<longleftrightarrow> returns m (\<lambda>r. advance\<^sup>*\<^sup>* (h, out) r \<and> Q (fst r))"

definition settled :: "tcp_half \<Rightarrow> bool" where
  "settled h \<longleftrightarrow> fin_consumed h \<or> (\<forall>(k, s) \<in> set (out_of_order h). the (next_abs h) < k)"

text \<open>\<open>live B h\<close>: the invariant of a half that has seen a sequence number.\<close>

definition live :: "nat \<Rightarrow> tcp_half \<Rightarrow> bool" where
  "live B h \<longleftrightarrow> half_inv B h \<and> next_abs h \<noteq> None"

lemma advances_live: "advance\<^sup>*\<^sup>* (h, out) (h', out') \<Longrightarrow> live B h \<Longrightarrow> live B h'"
  using advances_track [of "(h, out)" "(h', out')" B] trackD(1,2) by (auto simp: live_def)

lemma moves_Some: "Q h \<Longrightarrow> moves h out (Some (h, out)) Q"
  by (simp add: moves_def)

lemma moves_mono: "moves h out m Q \<Longrightarrow> (\<And>h. Q h \<Longrightarrow> Q' h) \<Longrightarrow> moves h out m Q'"
  unfolding moves_def by (auto elim: returns_mono)

lemma moves_after:
  assumes "advance\<^sup>*\<^sup>* (h, out) (h1, out1)" "moves h1 out1 m Q"
  shows "moves h out m Q"
  using assms unfolding moves_def by (auto elim!: returns_mono)

lemma moves_bind:
  assumes "live B h" "moves h out m P"
    and "\<And>h1 out1. m = Some (h1, out1) \<Longrightarrow> advance\<^sup>*\<^sup>* (h, out) (h1, out1) \<Longrightarrow> live B h1 \<Longrightarrow> P h1 \<Longrightarrow>
      moves h1 out1 (f h1 out1) Q"
  shows "moves h out (m \<bind> (\<lambda>(h1, out1). f h1 out1)) Q"
proof -
  obtain h1 out1 where 1: "m = Some (h1, out1)" "advance\<^sup>*\<^sup>* (h, out) (h1, out1)" "P h1"
    using assms(2) by (auto simp: moves_def returns_def)
  show ?thesis
    using assms(3) [OF 1(1,2) advances_live [OF 1(2) assms(1)] 1(3)] moves_after [OF 1(2)] by (simp add: 1(1))
qed

lemma moves_fin: "Q (fst (consume_fin_if_ready h out)) \<Longrightarrow> moves h out (Some (consume_fin_if_ready h out)) Q"
  by (auto simp: moves_def intro: adv_fin)

lemma moves_timer: "Q (h\<lparr>gap_started_ts_ns := g\<rparr>) \<Longrightarrow> moves h out (Some (h\<lparr>gap_started_ts_ns := g\<rparr>, out)) Q"
  by (auto simp: moves_def intro: adv_timer)

lemma emit_returns: "next_abs h \<noteq> None \<Longrightarrow> \<exists>r. emit h d ts out = Some r"
  by (auto simp: emit_def)

lemma gap_moves:
  assumes "live B h" "\<And>k s. (k, s) \<in> set (out_of_order h) \<Longrightarrow> t \<le> k"
    and "out_of_order h \<noteq> [] \<or> \<not> fin_consumed h \<and> pending_fin h \<noteq> None"
  shows "moves h out (emit_gap_to h t out) (\<lambda>_. True)"
proof -
  obtain e where e: "next_abs h = Some e" using assms(1) by (auto simp: live_def)
  obtain r where r: "emit_gap_to h t out = Some r"
    using e by (cases "fin_limited (pending_fin h) t \<le> e") (simp_all add: emit_gap_to_def Let_def)
  have "\<not> fin_consumed h" using assms(1,3) half_invD(6) [of B h] by (auto simp: live_def)
  then have "advance (h, out) r" using assms(2,3) by (intro adv_gap [OF _ _ _ r]) auto
  then show ?thesis by (auto simp: moves_def r)
qed

lemma drain_progress:
  assumes "\<not> fin_consumed h" "next_abs h = Some e" "om_first (out_of_order h) = Some (k, s)" "k \<le> e"
  shows "\<exists>q. drain (h, out) q"
proof (cases "k < e \<and> seg_len s \<le> e - k")
  case True
  then show ?thesis using assms by (blast intro: drain_discard)
next
  case False
  obtain r where "emit (pop_first h k s) (drop (e - k) (seg_data s)) (seg_ts_ns s) out = Some r"
    using emit_returns [of "pop_first h k s"] assms(2) by (fastforce simp: pop_first_def)
  then show ?thesis using assms False by (intro exI drain_deliver) auto
qed

lemma flush_moves:
  assumes "live B h"
  shows "moves h out (flush_ooo h out) settled"
  using assms
proof (induction "length (out_of_order h)" arbitrary: h out rule: less_induct)
  case less
  then obtain e where e: "next_abs h = Some e" and inv: "half_inv B h" by (auto simp: live_def)
  show ?case
  proof (cases "\<exists>q. drain (h, out) q")
    case True
    then obtain h1 out1 where q: "drain (h, out) (h1, out1)" by auto
    have adv: "advance\<^sup>*\<^sup>* (h, out) (h1, out1)" using adv_drain [OF q] by blast
    have "moves h1 out1 (flush_ooo h1 out1) settled"
      using less.hyps drain_length [OF q] advances_live [OF adv less.prems] by simp
    moreover have "flush_ooo h out = flush_ooo h1 out1"
      using calculation q flush_unfold [of h out] by (auto simp: moves_def returns_def)
    ultimately show ?thesis using moves_after [OF adv] by simp
  next
    case False
    then consider "fin_consumed h \<or> out_of_order h = []"
      | k s where "om_first (out_of_order h) = Some (k, s)" "e < k"
      using drain_progress [of h e _ _ out] e by (metis linorder_not_less om_first_None_iff option.exhaust surj_pair)
    then have "flush_ooo h out = Some (h, out) \<and> settled h"
    proof cases
      case 1
      then show ?thesis using flush_unfold [of h out "(h, out)"] by (auto simp: settled_def)
    next
      case 2
      then have "\<forall>(k', s') \<in> set (out_of_order h). e < k'"
        using om_first_least [OF buf_ok_invar [OF half_invD(1) [OF inv]] 2(1)] by fastforce
      then show ?thesis using flush_unfold [of h out "(h, out)"] 2 e by (auto simp: settled_def)
    qed
    then show ?thesis by (simp add: moves_def)
  qed
qed

lemma first_least:
  "live B h \<Longrightarrow> om_first (out_of_order h) = Some (k, s) \<Longrightarrow> (k', s') \<in> set (out_of_order h) \<Longrightarrow> k \<le> k'"
  using om_first_least [of "out_of_order h" "(k, s)" "(k', s')"] half_invD(1) [of B h]
  by (auto simp: live_def)

text \<open>Closing the hole before the first buffered segment, as far as \<open>t\<close>.\<close>

lemma close_hole_moves:
  assumes "live B h" "om_first (out_of_order h) = Some (k, s)" "t \<le> k"
  shows "moves h out (if e < k then emit_gap_to h t out else Some (h, out)) (\<lambda>_. True)"
  using assms first_least [OF assms(1,2)]
  by (auto intro!: gap_moves [OF assms(1)] moves_Some intro: le_trans)

text \<open>A round that closes a hole and flushes has shrunk the buffer unless the flush did nothing.\<close>

lemma close_flush_shrinks:
  assumes "(if b then emit_gap_to h t out else Some (h, out)) = Some (h1, out1)"
    and "flush_ooo h1 out1 = Some (h2, out2)" "h2 \<noteq> h1"
  shows "length (out_of_order h2) < length (out_of_order h)"
proof -
  have "length (out_of_order h1) \<le> length (out_of_order h)"
    using assms(1) by (auto dest: emit_gap_length split: if_splits)
  then show ?thesis using flush_shrinks [OF assms(2)] assms(3) by auto
qed

lemma recover_ack_moves:
  assumes "live B h"
  shows "moves h out (recover_ack_loop ack h out) (\<lambda>_. True)"
  using assms
proof (induction "length (out_of_order h)" arbitrary: h out rule: less_induct)
  case less
  then obtain e where e: "next_abs h = Some e" by (auto simp: live_def)
  show ?case
  proof (cases "om_first (out_of_order h)")
    case None
    have "moves h out (emit_gap_to h f out \<bind> (\<lambda>(h, out). Some (consume_fin_if_ready h out))) (\<lambda>_. True)"
      if "pending_fin h = Some f" "e < f" for f
    proof -
      have "\<not> fin_consumed h"
        using that e less.prems half_invD(7) [of B h] by (fastforce simp: live_def)
      then show ?thesis
        using that None by (intro moves_bind [OF less.prems gap_moves [OF less.prems]] moves_fin) auto
    qed
    then show ?thesis
      using None e by (subst recover_ack_loop.simps) (auto intro: moves_Some split: option.split)
  next
    case (Some f)
    obtain k s where f: "f = (k, s)" by force
    have "moves h out
      ((if e < k then emit_gap_to h (min k ack) out else Some (h, out)) \<bind> (\<lambda>(h1, out1).
         next_abs h1 \<bind> (\<lambda>next1. if ack \<le> next1 then Some (h1, out1)
           else flush_ooo h1 out1 \<bind> (\<lambda>(h2, out2).
             if fin_consumed h2 then Some (h2, out2)
             else if next_abs h2 = next_abs h1 \<and> out_of_order_bytes h2 = out_of_order_bytes h1
             then Some (h2, out2) else recover_ack_loop ack h2 out2)))) (\<lambda>_. True)"
    proof (rule moves_bind [OF less.prems close_hole_moves [OF less.prems Some [unfolded f]]])
      fix h1 out1
      assume 1: "(if e < k then emit_gap_to h (min k ack) out else Some (h, out)) = Some (h1, out1)" "live B h1"
      then obtain n where n: "next_abs h1 = Some n" by (auto simp: live_def)
      have "moves h2 out2 (recover_ack_loop ack h2 out2) (\<lambda>_. True)"
        if "flush_ooo h1 out1 = Some (h2, out2)" "live B h2"
          "\<not> (next_abs h2 = next_abs h1 \<and> out_of_order_bytes h2 = out_of_order_bytes h1)" for h2 out2
        using less.hyps close_flush_shrinks [OF 1(1) that(1)] that by auto
      then show "moves h1 out1 (next_abs h1 \<bind> (\<lambda>next1. if ack \<le> next1 then Some (h1, out1)
           else flush_ooo h1 out1 \<bind> (\<lambda>(h2, out2).
             if fin_consumed h2 then Some (h2, out2)
             else if next_abs h2 = next_abs h1 \<and> out_of_order_bytes h2 = out_of_order_bytes h1
             then Some (h2, out2) else recover_ack_loop ack h2 out2))) (\<lambda>_. True)"
        using 1(2) n by (auto intro!: moves_Some moves_bind [OF 1(2) flush_moves [OF 1(2)]])
    qed simp
    then show ?thesis
      using Some e f by (subst recover_ack_loop.simps) (auto intro: moves_Some)
  qed
qed

lemma recover_known_ack_moves: "live B h \<Longrightarrow> moves h out (recover_known_ack h out) (\<lambda>_. True)"
  using recover_ack_moves by (auto simp: recover_known_ack_def intro: moves_Some split: option.split)

lemma settled_timer [simp]: "settled (h\<lparr>gap_started_ts_ns := g\<rparr>) = settled h"
  by (simp add: settled_def)

lemma settled_consume: "settled h \<Longrightarrow> settled (fst (consume_fin_if_ready h out))"
  by (auto simp: settled_def consume_fin_if_ready_def split: option.split)

lemma settledI:
  "live B h \<Longrightarrow> om_first (out_of_order h) = Some (k, s) \<Longrightarrow> the (next_abs h) < k \<Longrightarrow> settled h"
  using first_least [of B h k s] unfolding settled_def by fastforce

lemma recover_timeout_moves:
  assumes "live B h"
  shows "moves h out (recover_ooo_timeout h age ts out) settled"
proof (cases "om_first (out_of_order h)")
  case None
  then have "settled h" by (simp add: settled_def)
  then show ?thesis
    using None assms by (auto simp: recover_ooo_timeout_def live_def intro!: moves_timer split: option.split)
next
  case (Some f)
  obtain k s e where f: "f = (k, s)" and e: "next_abs h = Some e" using assms by (cases f) (auto simp: live_def)
  have fl: "moves h out (flush_ooo (h\<lparr>gap_started_ts_ns := None\<rparr>) out) settled"
    using assms by (intro moves_after [OF _ flush_moves [of B]] r_into_rtranclp adv_timer) (simp add: live_def)
  have go: "moves h out (emit_gap_to h k out \<bind> (\<lambda>(h, out). flush_ooo h out \<bind> (\<lambda>(h, out).
      Let (h\<lparr>gap_started_ts_ns := None\<rparr>) (\<lambda>h. Some (case (om_first (out_of_order h), next_abs h) of
          (Some (next, _), Some expected) \<Rightarrow>
            if next > expected then (h\<lparr>gap_started_ts_ns := Some ts\<rparr>, out) else (h, out)
        | _ \<Rightarrow> (h, out)))))) settled"
    if "e < k"
    using close_hole_moves [OF assms Some [unfolded f] order_refl, of out e] that
    by (intro moves_bind [OF assms, where P = "\<lambda>_. True"] moves_bind [OF _ flush_moves])
      (auto simp: Let_def moves_timer split: option.split prod.split intro!: moves_timer)
  show ?thesis
    using Some f e fl go settledI [OF assms Some [unfolded f]]
    by (auto simp: recover_ooo_timeout_def intro!: moves_timer moves_Some split: option.split)
qed

end
