(* ===== verification/Tcp_Operations.thy ===== *)
theory Tcp_Operations
  imports Tcp_Stream
begin

text \<open>
  The public operations of a TCP half as sequences of moves: memory-pressure recovery and
  \<open>finalize\<close> drain the buffer unless a tentative FIN lies below all of it, and \<open>accept\<close> lays the
  new bytes down first-seen and then moves the stream. \<open>accept_view\<close> and \<open>acknowledge_view\<close> are what
  the theorems on whole packets rest on.
\<close>

subsection \<open>Sub-buffers\<close>

lemma buf_bytes_sum: "om_invar m \<Longrightarrow> buf_bytes m = (\<Sum>e \<in> set m. seg_len (snd e))"
proof (induction m)
  case (Cons e m)
  then have "e \<notin> set m" by auto
  with Cons show ?case by simp
qed simp

lemma sub_buffer_length: "om_invar m \<Longrightarrow> om_invar m' \<Longrightarrow> set m' \<subseteq> set m \<Longrightarrow> length m' \<le> length m"
  using om_invar_distinct [of m] om_invar_distinct [of m'] by (metis card_mono distinct_card finite_set)

lemma sub_buffer_bytes: "om_invar m \<Longrightarrow> om_invar m' \<Longrightarrow> set m' \<subseteq> set m \<Longrightarrow> buf_bytes m' \<le> buf_bytes m"
  by (simp add: buf_bytes_sum sum_mono2)

lemma sub_buffer_bytes_less:
  assumes "buf_ok B m" "om_invar m'" "set m' \<subset> set m"
  shows "buf_bytes m' < buf_bytes m"
proof -
  obtain e where e: "e \<in> set m - set m'" using assms(3) by blast
  then have "0 < seg_len (snd e)"
    using disjoint_segsD(1) [OF buf_ok_disjoint [OF assms(1)]] by (cases e) auto
  then have "(\<Sum>e \<in> set m'. seg_len (snd e)) < (\<Sum>e \<in> set m. seg_len (snd e))"
    using assms(3) e by (intro sum_strict_mono2 [of _ _ e]) auto
  then show ?thesis using assms by (simp add: buf_bytes_sum)
qed

subsection \<open>Draining loops\<close>

text \<open>\<open>fin_blocked\<close>: the stream has reached a pending FIN and all buffered data lies beyond it.\<close>

definition fin_blocked :: "tcp_half \<Rightarrow> bool" where
  "fin_blocked h \<longleftrightarrow> (\<exists>f n. pending_fin h = Some f \<and> next_abs h = Some n \<and> f \<le> n \<and>
     (\<forall>(k, s) \<in> set (out_of_order h). f < k))"

definition within_limits :: "nat \<Rightarrow> nat \<Rightarrow> tcp_half \<Rightarrow> bool" where
  "within_limits max_ooo max_segments h \<longleftrightarrow>
     out_of_order_bytes h \<le> max_ooo \<and> length (out_of_order h) \<le> max_segments"

lemma consume_next:
  "consume_fin_if_ready h out = (h', out') \<Longrightarrow> next_abs h = Some n \<Longrightarrow> n \<le> u64_max \<Longrightarrow>
   n \<le> the (next_abs h')"
  by (auto simp: consume_fin_if_ready_def sat_add64_def split: option.splits if_splits)

lemma close_hole_reaches:
  assumes "live B h" "om_first (out_of_order h) = Some (k, s)" "next_abs h = Some e"
    and "(if e < k then emit_gap_to h k out else Some (h, out)) = Some (h1, out1)"
  shows "fin_limited (pending_fin h) k \<le> the (next_abs h1)"
proof (cases "e < fin_limited (pending_fin h) k")
  case True
  then have "e < k" by (auto simp: fin_limited_def split: option.splits)
  have "(k, s) \<in> set (out_of_order h)" using assms(2) by (auto simp: om_first_Some_iff)
  then have "k \<le> u64_max"
    using assms(1) buf_ok_end [OF half_invD(1), of B h k s] half_invD(3) [of B h] by (auto simp: live_def)
  then have "fin_limited (pending_fin h) k \<le> u64_max"
    by (auto simp: fin_limited_def split: option.split)
  then show ?thesis
    using assms(4) \<open>e < k\<close> by (auto simp: emit_gap_eq [OF assms(3) refl True] dest: consume_next)
next
  case False
  then show ?thesis
    using assms(3,4) by (auto simp: emit_gap_to_def Let_def split: if_splits)
qed

lemma flush_stuck:
  assumes "live B h" "flush_ooo h out = Some (h', out')" "out_of_order_bytes h \<le> out_of_order_bytes h'"
  shows "h' = h \<and> settled h"
proof -
  have adv: "advance\<^sup>*\<^sup>* (h, out) (h', out')" and st: "settled h'"
    using flush_moves [OF assms(1), of out] assms(2) by (simp_all add: moves_def)
  have inv: "half_inv B h" "half_inv B h'"
    using assms(1) advances_live [OF adv assms(1)] by (simp_all add: live_def)
  have "set (out_of_order h') \<subseteq> set (out_of_order h)"
    using trackD(4) advances_track [OF adv, of B] assms(1) by (auto simp: live_def)
  moreover have "\<not> set (out_of_order h') \<subset> set (out_of_order h)"
    using sub_buffer_bytes_less [OF half_invD(1) [OF inv(1)] buf_ok_invar [OF half_invD(1) [OF inv(2)]]]
      half_invD(2) [OF inv(1)] half_invD(2) [OF inv(2)] assms(3) by auto
  ultimately have "set (out_of_order h) \<subseteq> set (out_of_order h')" by blast
  then have "length (out_of_order h) \<le> length (out_of_order h')"
    using sub_buffer_length half_invD(1) [OF inv(1)] half_invD(1) [OF inv(2)] buf_ok_invar by blast
  then show ?thesis using flush_shrinks [OF assms(2)] st by auto
qed

lemma gap_keeps_buffer:
  "emit_gap_to h t out = Some (h', out') \<Longrightarrow> fin_consumed h' \<or>
     out_of_order h' = out_of_order h \<and> pending_fin h' = pending_fin h"
  by (auto simp: emit_gap_to_def bind_Some_iff Let_def consume_fin_if_ready_def
      split: if_splits option.splits)

text \<open>When a round that closes the first hole and flushes has not shrunk the buffer, a pending FIN
  stopped it.\<close>

lemma stuck_round:
  assumes "live B h" "om_first (out_of_order h) = Some (k, s)" "next_abs h = Some e"
    and 1: "(if e < k then emit_gap_to h k out else Some (h, out)) = Some (h1, out1)"
    and 2: "flush_ooo h1 out1 = Some (h2, out2)"
    and stuck: "\<not> fin_consumed h2" "out_of_order_bytes h1 \<le> out_of_order_bytes h2"
  shows "fin_blocked h2"
proof -
  have "advance\<^sup>*\<^sup>* (h, out) (h1, out1)"
    using close_hole_moves [OF assms(1,2) order_refl, of out e] 1 by (simp add: moves_def)
  then have l1: "live B h1" by (rule advances_live [OF _ assms(1)])
  have eq: "h2 = h1" and st: "settled h1" using flush_stuck [OF l1 2 stuck(2)] by auto
  have same: "out_of_order h1 = out_of_order h" "pending_fin h1 = pending_fin h"
    using 1 stuck(1) eq gap_keeps_buffer [of h k out h1 out1] by (auto split: if_splits)
  obtain n where n: "next_abs h1 = Some n" using l1 by (auto simp: live_def)
  have "(k, s) \<in> set (out_of_order h)" using assms(2) by (auto simp: om_first_Some_iff)
  then have "n < k" using st stuck(1) eq n same(1) by (auto simp: settled_def)
  moreover have "fin_limited (pending_fin h) k \<le> n" using close_hole_reaches [OF assms(1-3) 1] n by simp
  ultimately obtain f where f: "pending_fin h = Some f" "f \<le> n" "f < k"
    by (auto simp: fin_limited_def min_def split: option.splits if_splits)
  then show ?thesis
    using n same eq first_least [OF assms(1,2)] by (fastforce simp: fin_blocked_def)
qed

text \<open>Both draining loops go round until their stopping condition or a blocking FIN.\<close>

lemma recover_pressure_moves:
  assumes "live B h"
  shows "moves h out (recover_ooo_pressure mo ms h out) (\<lambda>h'. within_limits mo ms h' \<or> fin_blocked h')"
    (is "moves h out _ ?Q")
  using assms
proof (induction "length (out_of_order h)" arbitrary: h out rule: less_induct)
  case less
  then obtain e where e: "next_abs h = Some e" by (auto simp: live_def)
  show ?case
  proof (cases "out_of_order h")
    case Nil
    moreover have "out_of_order_bytes h = 0" using less.prems half_invD(2) [of B h] Nil by (simp add: live_def)
    ultimately show ?thesis
      by (subst recover_ooo_pressure.simps) (simp add: moves_Some within_limits_def)
  next
    case (Cons f m)
    obtain k s where f: "om_first (out_of_order h) = Some (k, s)" using Cons by (cases f) simp
    have "moves h out
      ((if e < k then emit_gap_to h k out else Some (h, out)) \<bind> (\<lambda>(h1, out1).
         flush_ooo h1 out1 \<bind> (\<lambda>(h2, out2).
           if fin_consumed h2 \<or> out_of_order_bytes h1 \<le> out_of_order_bytes h2
           then Some (h2, out2) else recover_ooo_pressure mo ms h2 out2))) ?Q"
    proof (rule moves_bind [OF less.prems close_hole_moves [OF less.prems f order_refl]], rule moves_bind [OF _ flush_moves])
      fix h1 out1 h2 out2
      assume 1: "(if e < k then emit_gap_to h k out else Some (h, out)) = Some (h1, out1)"
        and 2: "flush_ooo h1 out1 = Some (h2, out2)" and l2: "live B h2"
      have "moves h2 out2 (recover_ooo_pressure mo ms h2 out2) ?Q"
        if "\<not> out_of_order_bytes h1 \<le> out_of_order_bytes h2"
        using less.hyps close_flush_shrinks [OF 1 2] that l2 by auto
      moreover have "?Q h2" if "fin_consumed h2"
        using l2 that half_invD(2,6) [of B h2] by (simp add: live_def within_limits_def)
      ultimately show "moves h2 out2 (if fin_consumed h2 \<or> out_of_order_bytes h1 \<le> out_of_order_bytes h2
          then Some (h2, out2) else recover_ooo_pressure mo ms h2 out2) ?Q"
        using stuck_round [OF less.prems f e 1 2] by (auto intro!: moves_Some)
    qed simp_all
    then show ?thesis
      using f e by (subst recover_ooo_pressure.simps) (auto simp: within_limits_def intro: moves_Some)
  qed
qed

lemma finalize_loop_moves:
  assumes "live B h"
  shows "moves h out (finalize_loop h out) (\<lambda>h'. out_of_order h' = [] \<or> fin_blocked h')"
    (is "moves h out _ ?Q")
  using assms
proof (induction "length (out_of_order h)" arbitrary: h out rule: less_induct)
  case less
  then obtain e where e: "next_abs h = Some e" by (auto simp: live_def)
  show ?case
  proof (cases "out_of_order h")
    case Nil
    then show ?thesis using e by (subst finalize_loop.simps) (simp add: moves_Some)
  next
    case (Cons f m)
    obtain k s where f: "om_first (out_of_order h) = Some (k, s)" using Cons by (cases f) simp
    have "moves h out
      ((if e < k then emit_gap_to h k out else Some (h, out)) \<bind> (\<lambda>(h1, out1).
         flush_ooo h1 out1 \<bind> (\<lambda>(h2, out2).
           if fin_consumed h2 then Some (h2, out2)
           else if next_abs h2 = next_abs h1 \<and> out_of_order_bytes h2 = out_of_order_bytes h1
           then Some (h2, out2) else finalize_loop h2 out2))) ?Q"
    proof (rule moves_bind [OF less.prems close_hole_moves [OF less.prems f order_refl]], rule moves_bind [OF _ flush_moves])
      fix h1 out1 h2 out2
      assume 1: "(if e < k then emit_gap_to h k out else Some (h, out)) = Some (h1, out1)"
        and 2: "flush_ooo h1 out1 = Some (h2, out2)" and l2: "live B h2"
      have "moves h2 out2 (finalize_loop h2 out2) ?Q"
        if "\<not> (next_abs h2 = next_abs h1 \<and> out_of_order_bytes h2 = out_of_order_bytes h1)"
        using less.hyps close_flush_shrinks [OF 1 2] that l2 by auto
      moreover have "?Q h2" if "fin_consumed h2"
        using l2 that half_invD(6) [of B h2] by (simp add: live_def)
      ultimately show "moves h2 out2 (if fin_consumed h2 then Some (h2, out2)
           else if next_abs h2 = next_abs h1 \<and> out_of_order_bytes h2 = out_of_order_bytes h1
           then Some (h2, out2) else finalize_loop h2 out2) ?Q"
        using stuck_round [OF less.prems f e 1 2] by (cases "fin_consumed h2") (auto intro!: moves_Some)
    qed simp_all
    then show ?thesis
      using f e by (subst finalize_loop.simps) simp
  qed
qed

subsection \<open>Sequence numbers\<close>

text \<open>The signed distance of two sequence numbers, and what the extension makes of it.\<close>

lemma extend_seq_bounds:
  "extend_seq seq ref \<le> ref + 2147483647" "ref \<le> extend_seq seq ref + 2147483648 \<or> u64_max < ref"
proof -
  have lt: "sint (seq - of_nat ref) < 2147483648" "- 2147483648 \<le> sint (seq - of_nat ref)"
    using sint_lt [of "seq - of_nat ref"] sint_ge [of "seq - of_nat ref"] by simp_all
  then show "extend_seq seq ref \<le> ref + 2147483647" "ref \<le> extend_seq seq ref + 2147483648 \<or> u64_max < ref"
    by (auto simp: extend_seq_def sat_add64_def Let_def)
qed

lemma observe_simps [simp]:
  "out_of_order (observe h seq syn) = out_of_order h"
  "out_of_order_bytes (observe h seq syn) = out_of_order_bytes h"
  "stream_offset (observe h seq syn) = stream_offset h"
  "pending_fin (observe h seq syn) = pending_fin h"
  "pending_fin_requires_ack (observe h seq syn) = pending_fin_requires_ack h"
  "fin_consumed (observe h seq syn) = fin_consumed h"
  "peer_ack_abs (observe h seq syn) = peer_ack_abs h"
  "next_abs h = Some n \<Longrightarrow> next_abs (observe h seq syn) = Some n"
  by (simp_all add: observe_def Let_def)

lemma half_inv_observe:
  assumes "half_inv B h" "8589934592 \<le> B"
  shows "live B (observe h seq syn)"
proof -
  have "unat (payload_seq seq syn) < 4294967296"
    using unsigned_less [of "payload_seq seq syn"] by simp
  then show ?thesis
    using assms by (auto simp: live_def half_inv_def observe_def Let_def split: option.splits)
qed

subsection \<open>FIN bookkeeping\<close>

text \<open>\<open>same_stream\<close>: the two halves differ at most in their FIN marker.\<close>

definition same_stream :: "tcp_half \<Rightarrow> tcp_half \<Rightarrow> bool" where
  "same_stream h h' \<longleftrightarrow> next_abs h' = next_abs h \<and> stream_offset h' = stream_offset h \<and>
     out_of_order h' = out_of_order h \<and> out_of_order_bytes h' = out_of_order_bytes h \<and>
     fin_consumed h' = fin_consumed h \<and> peer_ack_abs h' = peer_ack_abs h \<and>
     gap_started_ts_ns h' = gap_started_ts_ns h \<and> initial_syn_seq h' = initial_syn_seq h"

lemma live_same_stream:
  assumes "live B h" "same_stream h h'" "\<not> fin_consumed h" "\<And>f. pending_fin h' = Some f \<Longrightarrow> f < B"
  shows "live B h'"
  using assms by (auto simp: live_def half_inv_def same_stream_def split: option.split)

lemma same_stream_note_fin: "same_stream h (note_fin h start_abs end_abs e)"
  by (auto simp: note_fin_def same_stream_def split: option.split)

lemma note_fin_pending:
  "pending_fin (note_fin h start_abs end_abs e) = Some f \<Longrightarrow> f = end_abs \<or> pending_fin h = Some f"
  by (auto simp: note_fin_def split: option.splits if_splits)

text \<open>\<open>fin_waits\<close>: no FIN that is due has been left unconsumed.\<close>

definition fin_waits :: "tcp_half \<Rightarrow> bool" where
  "fin_waits h \<longleftrightarrow> fst (consume_fin_if_ready h default_outcome) = h"

lemma fin_waits_consume [simp]: "fin_waits (fst (consume_fin_if_ready h out))"
  by (auto simp: fin_waits_def consume_fin_if_ready_def split: option.splits)

lemma fin_waits_fin [simp]: "fin_consumed h \<Longrightarrow> fin_waits h"
  by (simp add: fin_waits_def consume_fin_if_ready_def)

lemma fin_waits_None: "pending_fin h = None \<Longrightarrow> fin_waits h"
  by (simp add: fin_waits_def consume_fin_if_ready_def)

lemma fin_waitsD:
  "fin_waits h \<Longrightarrow> \<not> fin_consumed h \<Longrightarrow> pending_fin h = Some f \<Longrightarrow> next_abs h = Some e \<Longrightarrow>
   e < f \<or> e = f \<and> pending_fin_requires_ack h \<and> \<not> ack_covers (peer_ack_abs h) f"
  by (cases h) (auto simp: fin_waits_def consume_fin_if_ready_def split: if_splits)

lemma fin_waits_observe: "fin_waits h \<Longrightarrow> half_inv B h \<Longrightarrow> fin_waits (observe h seq syn)"
  by (cases "next_abs h"; cases h)
    (auto simp: fin_waits_def consume_fin_if_ready_def observe_def Let_def half_inv_def split: if_splits option.splits)

text \<open>The payload that is kept is a prefix and ends at or before a FIN that is still pending.\<close>

lemma cut_at_fin_spec:
  assumes "end_abs = start_abs + length data"
  shows "returns (cut_at_fin h start_abs end_abs data out) (\<lambda>(h', out', d).
     same_stream h h' \<and> (\<exists>rt. out' = out\<lparr>out_retransmit := rt\<rparr>) \<and> (\<exists>n. d = take n data) \<and>
     (pending_fin h' = None \<longrightarrow> d = data) \<and>
     (\<forall>f. pending_fin h' = Some f \<longrightarrow> pending_fin h = Some f \<and> (d \<noteq> [] \<longrightarrow> start_abs + length d \<le> f)))"
proof (cases "pending_fin h")
  case None
  then show ?thesis
    by (auto simp: cut_at_fin_def same_stream_def intro!: exI [of _ "length data"] exI [of _ "out_retransmit out"])
next
  case (Some f)
  have [simp]: "\<exists>rt. out = out\<lparr>out_retransmit := rt\<rparr>" by (rule exI [of _ "out_retransmit out"]) simp
  have [simp]: "\<exists>n. data = take n data" "\<exists>n. [] = take n data"
    by (rule exI [of _ "length data"], simp, rule exI [of _ 0], simp)
  show ?thesis
    using Some assms
    by (auto simp: cut_at_fin_def same_stream_def bslice_def)
qed

text \<open>What is kept of a packet that was cut reaches beyond the expected position.\<close>

lemma cut_keeps_new:
  assumes w: "fin_waits h" "\<not> fin_consumed h" "next_abs h = Some e"
    and "h1 = (if fin then note_fin h start_abs end_abs e else h)"
    and "cut_at_fin h1 start_abs end_abs data out = Some (h', out', d)"
  shows "d = data \<or> d = [] \<or> e < start_abs + length d"
  using assms(4,5) fin_waitsD [OF w(1,2) _ w(3)]
  by (auto simp: cut_at_fin_def note_fin_def slice_chk_def bslice_def split: if_splits option.splits)

subsection \<open>Laying payload down\<close>

definition laid_down :: "nat \<Rightarrow> tcp_half \<Rightarrow> nat \<Rightarrow> bytes \<Rightarrow> tcp_half \<Rightarrow> bool" where
  "laid_down B h start d hv \<longleftrightarrow> (\<exists>m. hv = h\<lparr>out_of_order := m, out_of_order_bytes := buf_bytes m\<rparr> \<and>
     buf_ok B m \<and> set (out_of_order h) \<subseteq> set m \<and> first_seen (set (out_of_order h)) start d (set m))"

lemma laid_down_live: "live B h \<Longrightarrow> \<not> fin_consumed h \<Longrightarrow> laid_down B h start d hv \<Longrightarrow> live B hv"
  by (auto simp: laid_down_def live_def half_inv_def split: option.splits)

lemma laid_down_nothing: "live B h \<Longrightarrow> laid_down B h start [] h"
  using half_invD(1,2) [of B h] unfolding laid_down_def live_def
  by (auto simp: first_seen_def intro!: exI [of _ "out_of_order h"])

text \<open>Every segment of the new buffer was there before or starts inside the new data.\<close>

lemma laid_down_new:
  assumes "laid_down B h start d hv" "(k, s) \<in> set (out_of_order hv)"
  shows "(k, s) \<in> set (out_of_order h) \<or> start \<le> k \<and> k < start + length d"
proof (rule disjCI)
  assume out: "\<not> (start \<le> k \<and> k < start + length d)"
  let ?m = "out_of_order hv"
  from assms(1) have m: "buf_ok B ?m" "set (out_of_order h) \<subseteq> set ?m"
    "first_seen (set (out_of_order h)) start d (set ?m)"
    by (auto simp: laid_down_def)
  have pos: "0 < seg_len s" using disjoint_segsD(1) [OF buf_ok_disjoint [OF m(1)] assms(2)] .
  then have "byte_in seg_data (set ?m) k (seg_data s ! 0)" using assms(2) by (force simp: byte_in_def)
  then have "byte_in seg_data (set (out_of_order h)) k (seg_data s ! 0)"
    using m(3) out by (auto simp: first_seen_def)
  then obtain k' s' where k': "(k', s') \<in> set (out_of_order h)" "k' \<le> k" "k < k' + seg_len s'"
    by (auto simp: byte_in_def)
  have "k' = k"
    using disjoint_segsD(2) [OF buf_ok_disjoint [OF m(1)], of k' s' k s] k' m(2) assms(2)
    by (cases "k' < k") auto
  then have "s' = s" using om_invar_functional [OF buf_ok_invar [OF m(1)]] k'(1) m(2) assms(2) by blast
  then show "(k, s) \<in> set (out_of_order h)" using k' \<open>k' = k\<close> by simp
qed

text \<open>Data that ends at or before a pending FIN cannot push the buffer over its limits: what a
  blocking FIN leaves behind was buffered before.\<close>

lemma laid_down_within:
  assumes "live B h" "\<not> fin_consumed h" "laid_down B h start d hv" "advance\<^sup>*\<^sup>* (hv, out) (h', out')"
    and fin: "\<And>f. pending_fin h = Some f \<Longrightarrow> d \<noteq> [] \<Longrightarrow> start + length d \<le> f"
    and post: "within_limits mo ms h' \<or> fin_blocked h'" and pre: "within_limits mo ms h"
  shows "within_limits mo ms h'"
proof (cases "fin_blocked h'")
  case True
  have lv: "live B hv" by (rule laid_down_live [OF assms(1-3)])
  have t: "track B hv out (h', out')" using advances_track [OF assms(4)] lv by (simp add: live_def)
  have pend: "pending_fin h' = pending_fin h"
    using trackD(7) [OF t] assms(3) by (auto simp: laid_down_def)
  have "set (out_of_order h') \<subseteq> set (out_of_order h)"
  proof clarify
    fix k s assume ks: "(k, s) \<in> set (out_of_order h')"
    then have "(k, s) \<in> set (out_of_order hv)" using trackD(4) [OF t] by blast
    moreover have "\<not> (start \<le> k \<and> k < start + length d)"
      using True ks pend fin by (cases d) (fastforce simp: fin_blocked_def)+
    ultimately show "(k, s) \<in> set (out_of_order h)" using laid_down_new [OF assms(3)] by blast
  qed
  then show ?thesis
    using pre sub_buffer_bytes sub_buffer_length trackD(1) [OF t] assms(1) half_invD(1,2)
    unfolding within_limits_def live_def by (metis buf_ok_invar le_trans)
qed (use post in simp)

lemma recover_both_moves:
  assumes "live B h"
  shows "moves h out (recover_known_ack h out \<bind> (\<lambda>(h, out). recover_ooo_pressure mo ms h out))
    (\<lambda>h'. within_limits mo ms h' \<or> fin_blocked h')"
  by (rule moves_bind [OF assms recover_known_ack_moves [OF assms]]) (rule recover_pressure_moves)

lemma insert_lays_down:
  assumes "live B h" "start + length d \<le> B"
  shows "\<exists>hv rt. insert_ooo_first_seen h start ts d out = Some (hv, out\<lparr>out_retransmit := rt\<rparr>) \<and>
    laid_down B h start d hv"
proof -
  have "insert_pre B h start start d"
    using assms half_invD(1-3) [of B h] by (auto simp: live_def insert_pre_def)
  from insert_ooo_inserts [OF this, of ts out] show ?thesis
    by (auto simp: returns_def laid_down_def)
qed

text \<open>The fast path: emitting at once is laying the data down in the empty buffer and delivering it.\<close>

lemma emit_lays_down:
  assumes "live B h" "\<not> fin_consumed h" "next_abs h = Some e" "out_of_order h = []"
    and "d \<noteq> []" "e + length d \<le> B"
  shows "\<exists>hv. laid_down B h e d hv \<and> moves hv out (emit h d ts out) (\<lambda>h'. out_of_order h' = [])"
proof -
  let ?s = "\<lparr>seg_data = d, seg_ts_ns = ts\<rparr>"
  let ?hv = "h\<lparr>out_of_order := [(e, ?s)], out_of_order_bytes := buf_bytes [(e, ?s)]\<rparr>"
  have "laid_down B h e d ?hv"
    using assms(4-6) unfolding laid_down_def
    by (intro exI [of _ "[(e, ?s)]"]) (auto simp: buf_ok_def disjoint_segs_def first_seen_def byte_in_def)
  moreover have pop: "pop_first ?hv e ?s = h"
    using assms(1,4) half_invD(2) [of B h] by (simp add: pop_first_def om_remove_def live_def)
  obtain h' out' where r: "emit h d ts out = Some (h', out')" using emit_returns [of h d ts out] assms(3) by auto
  have "drain (?hv, out) (h', out')"
    by (rule drain_deliver [of _ e e ?s]) (use assms(2,3) r in \<open>simp_all add: pop [simplified]\<close>)
  then have "moves ?hv out (emit h d ts out) (\<lambda>h'. out_of_order h' = [])"
    using r assms(4) emit_length [OF r] by (auto simp: moves_def intro: adv_drain)
  ultimately show ?thesis by blast
qed

subsection \<open>The view of a packet\<close>

text \<open>\<open>empty_outcome\<close>: nothing has been emitted yet; the flags do not matter to the stream.\<close>

definition empty_outcome :: "reassembly_outcome \<Rightarrow> bool" where
  "empty_outcome out \<longleftrightarrow> out_emitted out = [] \<and> out_gaps out = []"

definition payload_view ::
  "nat \<Rightarrow> tcp_half \<Rightarrow> nat \<Rightarrow> bytes \<Rightarrow> (tcp_half \<times> reassembly_outcome) option \<Rightarrow> (tcp_half \<Rightarrow> bool) \<Rightarrow> bool" where
  "payload_view B h start d m Q \<longleftrightarrow>
     (\<exists>hv outv. laid_down B h start d hv \<and> empty_outcome outv \<and> moves hv outv m Q)"

lemma payload_viewI:
  "laid_down B h start d hv \<Longrightarrow> empty_outcome outv \<Longrightarrow> moves hv outv m Q \<Longrightarrow> payload_view B h start d m Q"
  by (auto simp: payload_view_def)

lemma payload_view_none:
  assumes "live B h" "empty_outcome out"
  shows "payload_view B h s [] (accept_payload h start e ts [] mo ms out)
    (\<lambda>h'. within_limits mo ms h \<longrightarrow> within_limits mo ms h')"
  using assms(2) by (intro payload_viewI [OF laid_down_nothing [OF assms(1)], of out])
    (auto simp: accept_payload_def intro: moves_Some)

text \<open>\<open>trimmed\<close>: how much of a segment the code cuts off, which is nothing when all of it is old.\<close>

definition trimmed :: "nat \<Rightarrow> nat \<Rightarrow> bytes \<Rightarrow> nat" where
  "trimmed start e d = (if start < e \<and> e - start < length d then e - start else 0)"

lemma trimmed_tail: "d \<noteq> [] \<Longrightarrow> drop (trimmed start e d) d \<noteq> []"
  by (auto simp: trimmed_def)

lemma accept_payload_old:
  assumes "start \<le> e" "d \<noteq> []"
  shows "accept_payload h start e ts d mo ms out =
     (let out = (if start < e then out\<lparr>out_retransmit := True\<rparr> else out); d' = drop (trimmed start e d) d in
      if out_of_order h = [] then emit h d' ts out
      else insert_ooo_first_seen h (sat_add64 start (trimmed start e d)) ts d' out \<bind>
        (\<lambda>(h, out). flush_ooo h out \<bind>
        (\<lambda>(h, out). recover_known_ack h out \<bind> (\<lambda>(h, out). recover_ooo_pressure mo ms h out))))"
  using assms by (auto simp: accept_payload_def trimmed_def Let_def bslice_to_end)

lemma payload_view_late:
  assumes "live B h" "\<not> fin_consumed h" "start + length d \<le> B" "empty_outcome out" "e < start" "d \<noteq> []"
  shows "payload_view B h start d (accept_payload h start e ts d mo ms out)
    (\<lambda>h'. within_limits mo ms h' \<or> fin_blocked h')"
proof -
  let ?o = "out\<lparr>out_out_of_order := True\<rparr>"
  obtain hv rt where i: "insert_ooo_first_seen h start ts d ?o = Some (hv, ?o\<lparr>out_retransmit := rt\<rparr>)"
      "laid_down B h start d hv"
    using insert_lays_down [OF assms(1,3), of ts] by blast
  have "moves hv (?o\<lparr>out_retransmit := rt\<rparr>) (accept_payload h start e ts d mo ms out)
      (\<lambda>h'. within_limits mo ms h' \<or> fin_blocked h')"
    using recover_both_moves [OF laid_down_live [OF assms(1,2) i(2)], of "?o\<lparr>out_retransmit := rt\<rparr>"] assms(5,6) i(1)
    by (simp add: accept_payload_def)
  then show ?thesis by (rule payload_viewI [OF i(2), rotated]) (use assms(4) in \<open>simp add: empty_outcome_def\<close>)
qed

lemma payload_view_fast:
  assumes "live B h" "\<not> fin_consumed h" "next_abs h = Some e" "empty_outcome out"
    and "start \<le> e" "d \<noteq> []" "e + length d \<le> B" "out_of_order h = []"
  shows "payload_view B h e (drop (trimmed start e d) d) (accept_payload h start e ts d mo ms out)
    (within_limits mo ms)"
proof -
  let ?o = "if start < e then out\<lparr>out_retransmit := True\<rparr> else out" and ?d = "drop (trimmed start e d) d"
  have "e + length ?d \<le> B" using assms(7) by auto
  then obtain hv where hv: "laid_down B h e ?d hv" "moves hv ?o (emit h ?d ts ?o) (\<lambda>h'. out_of_order h' = [])"
    using emit_lays_down [OF assms(1-3,8) trimmed_tail [OF assms(6)], of start e ?o ts] by blast
  have "moves hv ?o (emit h ?d ts ?o) (within_limits mo ms)"
    using hv(2) laid_down_live [OF assms(1,2) hv(1)] advances_live half_invD(2)
    by (fastforce simp: moves_def returns_def within_limits_def live_def)
  moreover have "accept_payload h start e ts d mo ms out = emit h ?d ts ?o"
    using assms(8) by (simp add: accept_payload_old [OF assms(5,6)] Let_def)
  ultimately show ?thesis
    using assms(4) by (intro payload_viewI [OF hv(1), of ?o]) (auto simp: empty_outcome_def)
qed

lemma payload_view_bridge:
  assumes "live B h" "\<not> fin_consumed h" "next_abs h = Some e" "empty_outcome out"
    and "start \<le> e" "d \<noteq> []" "start + length d \<le> B" "out_of_order h \<noteq> []"
  shows "payload_view B h (start + trimmed start e d) (drop (trimmed start e d) d) (accept_payload h start e ts d mo ms out)
    (\<lambda>h'. within_limits mo ms h' \<or> fin_blocked h')"
proof -
  let ?o = "if start < e then out\<lparr>out_retransmit := True\<rparr> else out" and ?d = "drop (trimmed start e d) d"
    and ?s = "start + trimmed start e d"
  have sB: "?s + length ?d \<le> B" using assms(7) by (auto simp: trimmed_def)
  then have sat: "sat_add64 start (trimmed start e d) = ?s"
    using assms(1) half_invD(3) [of B h] by (auto simp: sat_add64_def live_def)
  obtain hv rt where i: "insert_ooo_first_seen h ?s ts ?d ?o = Some (hv, ?o\<lparr>out_retransmit := rt\<rparr>)"
      "laid_down B h ?s ?d hv"
    using insert_lays_down [OF assms(1) sB, of ts ?o] by blast
  have lv: "live B hv" by (rule laid_down_live [OF assms(1,2) i(2)])
  have "moves hv (?o\<lparr>out_retransmit := rt\<rparr>) (flush_ooo hv (?o\<lparr>out_retransmit := rt\<rparr>) \<bind>
      (\<lambda>(h, out). recover_known_ack h out \<bind> (\<lambda>(h, out). recover_ooo_pressure mo ms h out)))
      (\<lambda>h'. within_limits mo ms h' \<or> fin_blocked h')"
    by (rule moves_bind [OF lv flush_moves [OF lv]]) (rule recover_both_moves)
  moreover have "accept_payload h start e ts d mo ms out = flush_ooo hv (?o\<lparr>out_retransmit := rt\<rparr>) \<bind>
      (\<lambda>(h, out). recover_known_ack h out \<bind> (\<lambda>(h, out). recover_ooo_pressure mo ms h out))"
    using assms(8) i(1) by (simp add: accept_payload_old [OF assms(5,6)] Let_def sat)
  ultimately show ?thesis
    using assms(4) by (intro payload_viewI [OF i(2), of "?o\<lparr>out_retransmit := rt\<rparr>"]) (auto simp: empty_outcome_def)
qed

text \<open>Where the kept payload \<open>d\<close> of a segment at \<open>start\<close> is laid down, and which part of it: without
  its old bytes at the expected position, all of it where it belongs when nothing or all of it is old,
  and all of it at the expected position when all of it is old and nothing is buffered.\<close>

definition lay_at :: "tcp_half \<Rightarrow> nat \<Rightarrow> nat \<Rightarrow> bytes \<Rightarrow> nat" where
  "lay_at h e start d = (if start \<le> e \<and> out_of_order h = [] then e else start + trimmed start e d)"

lemma accept_payload_view:
  assumes l: "live B h" "\<not> fin_consumed h" "next_abs h = Some e" "start + length d \<le> B" "e + length d \<le> B"
    and fin: "\<And>f. pending_fin h = Some f \<Longrightarrow> d \<noteq> [] \<Longrightarrow> start + length d \<le> f"
    and o: "empty_outcome out"
  shows "payload_view B h (lay_at h e start d) (drop (trimmed start e d) d) (accept_payload h start e ts d mo ms out)
      (\<lambda>h'. within_limits mo ms h \<longrightarrow> within_limits mo ms h')"
proof (cases "d = []")
  case True
  then show ?thesis using payload_view_none [OF l(1) o] by simp
next
  case ne: False
  let ?d = "drop (trimmed start e d) d" and ?s = "start + trimmed start e d"
  have slow: ?thesis
    if v: "payload_view B h ?s ?d (accept_payload h start e ts d mo ms out) (\<lambda>h'. within_limits mo ms h' \<or> fin_blocked h')"
      and s: "lay_at h e start d = ?s"
  proof -
    obtain hv outv where v: "laid_down B h ?s ?d hv" "empty_outcome outv"
      "moves hv outv (accept_payload h start e ts d mo ms out) (\<lambda>h'. within_limits mo ms h' \<or> fin_blocked h')"
      using v by (auto simp: payload_view_def)
    have lim: "?s + length ?d \<le> f" if "pending_fin h = Some f" "?d \<noteq> []" for f
      using fin [OF that(1) ne] by (auto simp: trimmed_def)
    from laid_down_within [OF l(1,2) v(1) _ lim, of outv _ _ mo ms]
    have "within_limits mo ms h'"
      if "advance\<^sup>*\<^sup>* (hv, outv) (h', out')" "within_limits mo ms h' \<or> fin_blocked h'" "within_limits mo ms h" for h' out'
      using that by blast
    then have "moves hv outv (accept_payload h start e ts d mo ms out) (\<lambda>h'. within_limits mo ms h \<longrightarrow> within_limits mo ms h')"
      using v(3) by (fastforce simp: moves_def returns_def)
    then show ?thesis unfolding s by (rule payload_viewI [OF v(1,2)])
  qed
  consider (late) "e < start" | (fast) "start \<le> e" "out_of_order h = []" | (bridge) "start \<le> e" "out_of_order h \<noteq> []"
    by linarith
  then show ?thesis
  proof cases
    case late
    then have "trimmed start e d = 0" by (simp add: trimmed_def)
    with late show ?thesis
      using payload_view_late [OF l(1,2,4) o late ne, of ts mo ms] by (intro slow) (simp_all add: lay_at_def)
  next
    case fast
    then show ?thesis
      using payload_view_fast [OF l(1-3) o fast(1) ne l(5) fast(2), of ts mo ms]
      by (auto simp: lay_at_def payload_view_def elim!: moves_mono)
  next
    case bridge
    then show ?thesis
      using payload_view_bridge [OF l(1-3) o bridge(1) ne l(4) bridge(2), of ts mo ms]
      by (intro slow) (simp_all add: lay_at_def)
  qed
qed

lemma moves_within:
  assumes "live B h" "moves h out m Q"
  shows "moves h out m (\<lambda>h'. Q h' \<and> (within_limits mo ms h \<longrightarrow> within_limits mo ms h'))"
proof -
  have "within_limits mo ms h'" if a: "advance\<^sup>*\<^sup>* (h, out) (h', out')" and w: "within_limits mo ms h" for h' out'
  proof -
    have t: "track B h out (h', out')" using advances_track [OF a] assms(1) by (simp add: live_def)
    then have inv: "half_inv B h'" "half_inv B h" using trackD(1) [OF t] assms(1) by (simp_all add: live_def)
    then show ?thesis
      using w trackD(4) [OF t] sub_buffer_bytes sub_buffer_length half_invD(1,2)
      unfolding within_limits_def by (metis buf_ok_invar le_trans)
  qed
  then show ?thesis using assms(2) by (fastforce simp: moves_def returns_def)
qed

lemma tail_moves:
  assumes "live B h"
  shows "moves h out ((if pending_fin h \<noteq> None \<and> \<not> fin_consumed h then recover_known_ack h out
        else Some (h, out)) \<bind> (\<lambda>(h, out). recover_ooo_timeout h gt ts out \<bind>
        (\<lambda>(h, out). Some (consume_fin_if_ready h out)))) (\<lambda>h'. settled h' \<and> fin_waits h')"
proof (rule moves_bind [OF assms, where P = "\<lambda>_. True"])
  show "moves h out (if pending_fin h \<noteq> None \<and> \<not> fin_consumed h then recover_known_ack h out
      else Some (h, out)) (\<lambda>_. True)"
    using recover_known_ack_moves [OF assms] by (simp add: moves_Some)
next
  fix h1 out1 assume l: "live B h1"
  show "moves h1 out1 (recover_ooo_timeout h1 gt ts out1 \<bind> (\<lambda>(h, out). Some (consume_fin_if_ready h out)))
      (\<lambda>h'. settled h' \<and> fin_waits h')"
    by (rule moves_bind [OF l recover_timeout_moves [OF l]]) (auto intro: moves_fin settled_consume)
qed

text \<open>The part of \<open>accept\<close> before the payload is looked at.\<close>

lemma accept_prepare:
  assumes inv: "half_inv B h" "8589934592 \<le> B" "B + 2147483648 + length data \<le> B'" "B' \<le> u64_max"
    and nf: "\<not> fin_consumed h" and e: "next_abs (observe h seq syn) = Some e"
    and start: "start = extend_seq (payload_seq seq syn) e"
  shows "\<exists>hf n out. same_stream (observe h seq syn) hf \<and> live B' hf \<and> empty_outcome out \<and>
     (pending_fin hf = None \<longrightarrow> take n data = data) \<and>
     (\<forall>f. pending_fin hf = Some f \<longrightarrow> take n data \<noteq> [] \<longrightarrow> start + length (take n data) \<le> f) \<and>
     start + length (take n data) \<le> B' \<and> e + length (take n data) \<le> B' \<and>
     (fin_waits h \<longrightarrow> take n data = data \<or> take n data = [] \<or> e < start + length (take n data)) \<and>
     accept h seq syn fin ts data mo ms gt = accept_payload hf start e ts (take n data) mo ms out \<bind>
      (\<lambda>(h, out). (if pending_fin h \<noteq> None \<and> \<not> fin_consumed h then recover_known_ack h out
        else Some (h, out)) \<bind> (\<lambda>(h, out). recover_ooo_timeout h gt ts out \<bind>
        (\<lambda>(h, out). Some (consume_fin_if_ready h out))))"
proof -
  let ?ho = "observe h seq syn"
  have nfo: "\<not> fin_consumed ?ho" using nf by simp
  have lo: "live B' ?ho"
    using half_inv_observe [OF half_inv_mono [OF inv(1)], of B' seq syn] inv by simp
  have eB: "e \<le> B"
    using half_inv_observe [OF inv(1,2), of seq syn] e half_invD(4) [of B ?ho e] by (auto simp: live_def)
  have le: "start \<le> B + 2147483647"
    using extend_seq_bounds(1) [of "payload_seq seq syn" e] half_inv_observe [OF inv(1,2), of seq syn] e
      half_invD(4) [of B ?ho e] by (auto simp: start live_def)
  define en where "en = start + length data"
  have en: "sat_add64 start (length data) = en" "en < B'"
    using le inv by (simp_all add: en_def sat_add64_def)
  define h1 where "h1 = (if fin \<and> e \<le> en then note_fin ?ho start en e else ?ho)"
  have h1: "same_stream ?ho h1" "\<And>f. pending_fin h1 = Some f \<Longrightarrow> f < B'"
    using same_stream_note_fin [of ?ho start en e] note_fin_pending [of ?ho start en e] en lo
      half_invD(5) [of B' ?ho] by (auto simp: h1_def live_def same_stream_def split: if_splits)
  obtain hf outf d where cut: "cut_at_fin h1 start en data default_outcome = Some (hf, outf, d)"
    using cut_at_fin_spec [OF en_def, of h1 default_outcome] by (auto simp: returns_def)
  note spec = cut_at_fin_spec [OF en_def, of h1 default_outcome, unfolded cut returns_Some prod.case]
  obtain n where n: "d = take n data" using spec by blast
  have "empty_outcome outf" using spec by (auto simp: empty_outcome_def default_outcome_def)
  moreover have same: "same_stream ?ho hf" using h1(1) spec by (simp add: same_stream_def)
  moreover have "live B' hf" by (rule live_same_stream [OF lo same nfo]) (use h1(2) spec in blast)
  moreover have "accept h seq syn fin ts data mo ms gt = accept_payload hf start e ts d mo ms outf \<bind>
      (\<lambda>(h, out). (if pending_fin h \<noteq> None \<and> \<not> fin_consumed h then recover_known_ack h out
        else Some (h, out)) \<bind> (\<lambda>(h, out). recover_ooo_timeout h gt ts out \<bind>
        (\<lambda>(h, out). Some (consume_fin_if_ready h out))))"
    using nfo e cut en(1) unfolding accept_def Let_def h1_def start by (cases "fin \<and> e \<le> en") auto
  moreover have "fin_waits h \<longrightarrow> d = data \<or> d = [] \<or> e < start + length d"
    using cut_keeps_new [of ?ho e h1 "fin \<and> e \<le> en" start en data default_outcome hf outf d] fin_waits_observe [OF _ inv(1)]
      nfo e cut by (auto simp: h1_def)
  moreover have "e + length d \<le> B'" using eB inv(3) by (simp add: n)
  moreover have "start + length d \<le> B'" using en by (simp add: en_def n)
  moreover have "pending_fin hf = None \<longrightarrow> d = data" "\<forall>f. pending_fin hf = Some f \<longrightarrow> d \<noteq> [] \<longrightarrow> start + length d \<le> f"
    using spec by simp_all
  ultimately show ?thesis
    unfolding n by (intro exI [of _ hf] exI [of _ n] exI [of _ outf] conjI)
qed

text \<open>What a packet does: with \<open>e\<close> the expected position and \<open>start\<close> the packet's position, the FIN
  marker is updated, a prefix of the payload is kept, what is not trimmed of it is laid down
  first-seen at \<open>lay_at\<close>, and the stream moves.\<close>

lemma accept_view:
  assumes inv: "half_inv B h" "8589934592 \<le> B" "B + 2147483648 + length data \<le> B'" "B' \<le> u64_max"
    and nf: "\<not> fin_consumed h" and e: "next_abs (observe h seq syn) = Some e"
    and start: "start = extend_seq (payload_seq seq syn) e"
  shows "\<exists>hf n. same_stream (observe h seq syn) hf \<and> live B' hf \<and>
     (pending_fin hf = None \<longrightarrow> take n data = data) \<and>
     (fin_waits h \<longrightarrow> take n data = data \<or> take n data = [] \<or> e < start + length (take n data)) \<and>
     payload_view B' hf (lay_at hf e start (take n data)) (drop (trimmed start e (take n data)) (take n data))
       (accept h seq syn fin ts data mo ms gt)
       (\<lambda>h'. (settled h' \<and> fin_waits h') \<and> (within_limits mo ms h \<longrightarrow> within_limits mo ms h'))"
proof -
  obtain hf n out where p: "same_stream (observe h seq syn) hf" "live B' hf" "empty_outcome out"
      "pending_fin hf = None \<longrightarrow> take n data = data"
      "\<forall>f. pending_fin hf = Some f \<longrightarrow> take n data \<noteq> [] \<longrightarrow> start + length (take n data) \<le> f"
      "start + length (take n data) \<le> B'" "e + length (take n data) \<le> B'"
      "fin_waits h \<longrightarrow> take n data = data \<or> take n data = [] \<or> e < start + length (take n data)"
    and acc: "accept h seq syn fin ts data mo ms gt = accept_payload hf start e ts (take n data) mo ms out \<bind>
      (\<lambda>(h, out). (if pending_fin h \<noteq> None \<and> \<not> fin_consumed h then recover_known_ack h out
        else Some (h, out)) \<bind> (\<lambda>(h, out). recover_ooo_timeout h gt ts out \<bind>
        (\<lambda>(h, out). Some (consume_fin_if_ready h out))))"
    using accept_prepare [OF assms, of fin ts mo ms gt] by (elim exE conjE) (rule that; assumption)
  have nff: "\<not> fin_consumed hf" "next_abs hf = Some e"
    and wf: "within_limits mo ms hf = within_limits mo ms h"
    using p(1) nf e by (auto simp: same_stream_def within_limits_def)
  let ?d = "take n data"
  obtain hv outv where v: "laid_down B' hf (lay_at hf e start ?d) (drop (trimmed start e ?d) ?d) hv" "empty_outcome outv"
    "moves hv outv (accept_payload hf start e ts ?d mo ms out)
       (\<lambda>h'. within_limits mo ms hf \<longrightarrow> within_limits mo ms h')"
    using accept_payload_view [OF p(2) nff p(6,7) _ p(3), of ts mo ms] p(5) by (auto simp: payload_view_def)
  have lv: "live B' hv" by (rule laid_down_live [OF p(2) nff(1) v(1)])
  have "moves hv outv (accept h seq syn fin ts data mo ms gt)
      (\<lambda>h'. (settled h' \<and> fin_waits h') \<and> (within_limits mo ms h \<longrightarrow> within_limits mo ms h'))"
    unfolding acc
  proof (rule moves_bind [OF lv v(3)])
    fix h2 out2 assume "live B' h2" "within_limits mo ms hf \<longrightarrow> within_limits mo ms h2"
    then show "moves h2 out2 ((if pending_fin h2 \<noteq> None \<and> \<not> fin_consumed h2 then recover_known_ack h2 out2
        else Some (h2, out2)) \<bind> (\<lambda>(h, out). recover_ooo_timeout h gt ts out \<bind>
        (\<lambda>(h, out). Some (consume_fin_if_ready h out))))
        (\<lambda>h'. (settled h' \<and> fin_waits h') \<and> (within_limits mo ms h \<longrightarrow> within_limits mo ms h'))"
      using moves_within [OF _ tail_moves, of B' h2 B' out2 gt ts mo ms] wf by (auto elim: moves_mono)
  qed
  then show ?thesis
    by (intro exI [of _ hf] exI [of _ n] conjI p(1,2,4,8) payload_viewI [OF v(1,2)])
qed

subsection \<open>Acknowledgements and close\<close>

lemma live_note_ack: "live B h \<Longrightarrow> live B (note_ack h ack e)"
  by (auto simp: live_def half_inv_def note_ack_def Let_def split: option.splits)

lemma acknowledge_view:
  assumes "half_inv B h"
  shows "\<exists>hv. (hv = h \<or> (\<exists>a. hv = h\<lparr>peer_ack_abs := Some a\<rparr>)) \<and>
    moves hv default_outcome (acknowledge h ack ts gt) 
      (\<lambda>h'. (next_abs h \<noteq> None \<longrightarrow> settled h') \<and> (fin_waits h \<longrightarrow> fin_waits h'))"
proof (cases "next_abs h")
  case None
  then show ?thesis by (auto simp: acknowledge_def intro: moves_Some)
next
  case (Some e)
  let ?h = "note_ack h ack e"
  have l: "live B ?h" using assms Some by (intro live_note_ack) (simp add: live_def)
  have sh: "?h = h \<or> (\<exists>a. ?h = h\<lparr>peer_ack_abs := Some a\<rparr>)" by (auto simp: note_ack_def Let_def)
  have "moves ?h default_outcome (recover_known_ack ?h default_outcome \<bind> (\<lambda>(h, out).
      recover_ooo_timeout h gt ts out \<bind> (\<lambda>(h, out). Some (consume_fin_if_ready h out)))) (\<lambda>h'. settled h' \<and> fin_waits h')"
    by (intro moves_bind [OF l recover_known_ack_moves [OF l]] moves_bind [OF _ recover_timeout_moves])
      (auto intro: moves_fin settled_consume)
  moreover have "settled ?h \<and> fin_waits ?h" if "out_of_order ?h = []" "pending_fin ?h = None"
    using that fin_waits_None by (simp add: settled_def)
  ultimately have "moves ?h default_outcome (acknowledge h ack ts gt) (\<lambda>h'. settled h' \<and> fin_waits h')"
    using Some by (auto simp: acknowledge_def Let_def intro: moves_Some)
  then show ?thesis using sh by (intro exI [of _ ?h]) (auto elim: moves_mono)
qed

text \<open>Closing empties the buffer unless a FIN that was never acknowledged lies below all of it.\<close>

definition fin_tentative :: "tcp_half \<Rightarrow> bool" where
  "fin_tentative h \<longleftrightarrow> (\<exists>f. pending_fin h = Some f \<and> next_abs h = Some f \<and>
     pending_fin_requires_ack h \<and> \<not> ack_covers (peer_ack_abs h) f)"

lemma consume_blocked:
  "fin_blocked h \<Longrightarrow> \<not> fin_consumed h \<Longrightarrow>
   out_of_order (fst (consume_fin_if_ready h out)) = [] \<or>
   fin_tentative (fst (consume_fin_if_ready h out))"
  by (auto simp: fin_blocked_def fin_tentative_def consume_fin_if_ready_def)

lemma finalize_moves:
  assumes "live B h"
  shows "moves h default_outcome (finalize h) (\<lambda>h'. out_of_order h' = [] \<or> fin_tentative h')"
proof -
  have step: "moves h1 out1 (let (h, out) = consume_fin_if_ready h1 out1 in Some (h\<lparr>gap_started_ts_ns := None\<rparr>, out))
      (\<lambda>h'. out_of_order h' = [] \<or> fin_tentative h')"
    if q: "out_of_order h1 = [] \<or> fin_blocked h1" and l: "live B h1" for h1 out1
  proof -
    obtain h2 out2 where c: "consume_fin_if_ready h1 out1 = (h2, out2)" by force
    have "out_of_order h2 = [] \<or> fin_tentative h2"
      using q consume_blocked [of h1 out1] consume_fin_ooo [of h1 out1] c l half_invD(6) [of B h1]
      by (cases "fin_consumed h1") (auto simp: live_def)
    moreover have "advance\<^sup>*\<^sup>* (h1, out1) (h2\<lparr>gap_started_ts_ns := None\<rparr>, out2)"
      using adv_fin [of h1 out1] adv_timer [of h2 out2 None] unfolding c by (meson converse_rtranclp_into_rtranclp r_into_rtranclp)
    ultimately show ?thesis by (auto simp: moves_def c fin_tentative_def)
  qed
  show ?thesis
    unfolding finalize_def by (rule moves_bind [OF assms finalize_loop_moves [OF assms]]) (rule step)
qed

end
