(* ===== verification/Tcp_Properties.thy ===== *)
theory Tcp_Properties
  imports Tcp_Operations
begin

text \<open>
  The theorems on the reassembler of \<open>src/src/flow/reassembly.rs\<close>: what one packet, one
  acknowledgement and the close of a half do, and what a whole run of packets and acknowledgements
  delivers. A segment that lies wholly before the expected position while nothing is buffered is emitted again
  (\<open>replays\<close>): \<open>retransmission_displaces\<close> says what that does to the stream, and what is stated about the
  content of chunks is about the other segments (\<open>fresh_run\<close>).
\<close>

subsection \<open>The byte a position shows\<close>

text \<open>\<open>seen h start data p b\<close>: the buffer of \<open>h\<close> holds \<open>b\<close> at position \<open>p\<close>, or it holds nothing there
  and the packet \<open>data\<close> at \<open>start\<close> does.\<close>

definition seen :: "tcp_half \<Rightarrow> nat \<Rightarrow> bytes \<Rightarrow> nat \<Rightarrow> byte \<Rightarrow> bool" where
  "seen h start data p b \<longleftrightarrow> byte_in seg_data (set (out_of_order h)) p b \<or>
     (\<not> covered seg_len (set (out_of_order h)) p \<and> start \<le> p \<and> p < start + length data \<and>
      data ! (p - start) = b)"

text \<open>\<open>replays\<close>: nothing is buffered and all of the packet lies before the expected position \<open>e\<close>. These are
  the packets the code emits a second time.\<close>

definition replays :: "tcp_half \<Rightarrow> nat \<Rightarrow> nat \<Rightarrow> bytes \<Rightarrow> bool" where
  "replays h e start data \<longleftrightarrow> out_of_order h = [] \<and> data \<noteq> [] \<and> start + length data \<le> e"

lemma lay_at_own: "\<not> replays h e start d \<Longrightarrow> d \<noteq> [] \<Longrightarrow> lay_at h e start d = start + trimmed start e d"
  by (auto simp: lay_at_def trimmed_def replays_def)

lemma lay_at_nth:
  assumes "\<not> replays h e start (take n data)" "lay_at h e start (take n data) = s" "drop (trimmed start e (take n data)) (take n data) = d"
  shows "s \<le> p \<Longrightarrow> p < s + length d \<Longrightarrow> start \<le> p \<and> p < start + length data \<and> d ! (p - s) = data ! (p - start)"
    and "take n data = data \<Longrightarrow> e \<le> p \<Longrightarrow> start \<le> p \<Longrightarrow> p < start + length data \<Longrightarrow> s \<le> p \<and> p < s + length d"
proof -
  have own: "s = start + trimmed start e (take n data)" if "take n data \<noteq> []"
    using lay_at_own [OF assms(1) that] assms(2) by simp
  show "start \<le> p \<and> p < start + length data \<and> d ! (p - s) = data ! (p - start)" if p: "s \<le> p" "p < s + length d"
  proof -
    have "take n data \<noteq> []" using p assms(3) by auto
    note s = own [OF this]
    have t: "trimmed start e (take n data) + (p - s) = p - start" using p(1) s by simp
    have len: "p < start + length (take n data)" using p s assms(3) by auto
    have "trimmed start e (take n data) \<le> length (take n data)" by (auto simp: trimmed_def)
    then have "d ! (p - s) = take n data ! (p - start)"
      using nth_drop [of "trimmed start e (take n data)" "take n data" "p - s"] unfolding assms(3) t by simp
    then show ?thesis using p(1) s len by auto
  qed
  show "s \<le> p \<and> p < s + length d" if p: "take n data = data" "e \<le> p" "start \<le> p" "p < start + length data"
  proof -
    have "take n data \<noteq> []" using p by auto
    from own [OF this] show ?thesis using p assms(3) by (auto simp: trimmed_def)
  qed
qed

lemma laid_down_seen:
  assumes "laid_down B hf (lay_at hf e start (take n data)) (drop (trimmed start e (take n data)) (take n data)) hv"
    and "out_of_order hf = out_of_order h" and "\<not> replays hf e start (take n data)"
  shows "byte_in seg_data (set (out_of_order hv)) p b \<Longrightarrow> seen h start data p b"
    and "take n data = data \<Longrightarrow> e \<le> p \<Longrightarrow> seen h start data p b \<Longrightarrow> byte_in seg_data (set (out_of_order hv)) p b"
proof -
  define s d where sd: "s = lay_at hf e start (take n data)" "d = drop (trimmed start e (take n data)) (take n data)"
  note nth = lay_at_nth [OF assms(3) sd [symmetric], of p]
  have fs: "byte_in seg_data (set (out_of_order hv)) p b \<longleftrightarrow> byte_in seg_data (set (out_of_order h)) p b \<or>
      (\<not> covered seg_len (set (out_of_order h)) p \<and> s \<le> p \<and> p < s + length d \<and> d ! (p - s) = b)"
    using assms(1,2) unfolding sd by (auto simp: laid_down_def first_seen_def)
  show "byte_in seg_data (set (out_of_order hv)) p b \<Longrightarrow> seen h start data p b"
    using nth(1) unfolding fs seen_def by auto
  assume a: "take n data = data" "e \<le> p" "seen h start data p b"
  show "byte_in seg_data (set (out_of_order hv)) p b"
    using nth(1) nth(2) [OF a(1,2)] a(3) unfolding fs seen_def by auto
qed

lemma chunk_seen:
  assumes "chunk_from hv c" "i < length (chunk_data c)"
    and "laid_down B hf (lay_at hf e start (take n data)) (drop (trimmed start e (take n data)) (take n data)) hv"
    and "same_stream (observe h seq syn) hf" and "\<not> replays hf e start (take n data)"
  shows "seen h start data (base (observe h seq syn) + chunk_offset c + i) (chunk_data c ! i)"
proof -
  have "base hv = base (observe h seq syn)" "out_of_order hf = out_of_order h"
    using assms(3,4) by (auto simp: laid_down_def same_stream_def base_def)
  then show ?thesis using assms(1,2) laid_down_seen(1) [OF assms(3) _ assms(5)] by (auto simp: chunk_from_def)
qed

text \<open>What the moves have not passed yet stays buffered.\<close>

lemma track_keeps:
  assumes "track B hv outv (h', out)" "pending_fin h' = None" "the (next_abs h') \<le> p"
    and "byte_in seg_data (set (out_of_order hv)) p b"
  shows "byte_in seg_data (set (out_of_order h')) p b"
proof -
  have nf: "\<not> fin_consumed h'" using half_invD(7) [OF trackD(1) [OF assms(1)]] assms(2) by auto
  obtain k s where ks: "(k, s) \<in> set (out_of_order hv)" "k \<le> p" "p < k + seg_len s" "seg_data s ! (p - k) = b"
    using assms(4) by (auto simp: byte_in_def)
  have "(k, s) \<in> set (out_of_order h')"
    using bspec [OF trackD(6) [OF assms(1) nf], of "(k, s)"] ks(1,3) assms(3) by fastforce
  then show ?thesis using ks by (auto simp: byte_in_def)
qed

text \<open>Everything one packet does to a half that is still open.\<close>

lemma accept_open:
  assumes "half_inv B h" "8589934592 \<le> B" "B + 2147483648 + length data \<le> B'" "B' \<le> u64_max"
    and nf: "\<not> fin_consumed h" and e: "next_abs (observe h seq syn) = Some e"
    and start: "start = extend_seq (payload_seq seq syn) e"
  obtains h' out where "accept h seq syn fin ts data mo ms gt = Some (h', out)"
    "half_inv B' h'" "next_abs h' \<noteq> None" "settled h'" "fin_waits h'" "e \<le> the (next_abs h')"
    "within_limits mo ms h \<Longrightarrow> within_limits mo ms h'"
    "tiles (stream_offset h) (spans (out_emitted out) (out_gaps out)) (stream_offset h')"
    "\<And>c i. fin_waits h \<Longrightarrow> \<not> replays h e start data \<Longrightarrow> c \<in> set (out_emitted out) \<Longrightarrow> i < length (chunk_data c) \<Longrightarrow>
       seen h start data (base (observe h seq syn) + chunk_offset c + i) (chunk_data c ! i)"
    "\<And>g i. g \<in> set (out_gaps out) \<Longrightarrow> i < gap_len g \<Longrightarrow>
       \<not> covered seg_len (set (out_of_order h)) (base (observe h seq syn) + gap_offset g + i)"
    "\<And>p b. fin_waits h \<Longrightarrow> \<not> replays h e start data \<Longrightarrow> byte_in seg_data (set (out_of_order h')) p b \<Longrightarrow> seen h start data p b"
    "\<And>p b. fin_waits h \<Longrightarrow> \<not> replays h e start data \<Longrightarrow> pending_fin h' = None \<Longrightarrow> the (next_abs h') \<le> p \<Longrightarrow>
       seen h start data p b \<Longrightarrow> byte_in seg_data (set (out_of_order h')) p b"
    "\<not> fin_consumed h' \<Longrightarrow> base h' = base (observe h seq syn)"
proof -
  obtain hf n where v: "same_stream (observe h seq syn) hf" "live B' hf" "pending_fin hf = None \<longrightarrow> take n data = data"
    "fin_waits h \<longrightarrow> take n data = data \<or> take n data = [] \<or> e < start + length (take n data)"
    "payload_view B' hf (lay_at hf e start (take n data)) (drop (trimmed start e (take n data)) (take n data))
       (accept h seq syn fin ts data mo ms gt)
       (\<lambda>h'. (settled h' \<and> fin_waits h') \<and> (within_limits mo ms h \<longrightarrow> within_limits mo ms h'))"
    using accept_view [OF assms, of fin ts mo ms gt] by (elim exE conjE) (rule that; assumption)
  obtain hv outv h' out where hv: "laid_down B' hf (lay_at hf e start (take n data)) (drop (trimmed start e (take n data)) (take n data)) hv"
    "empty_outcome outv"
    "accept h seq syn fin ts data mo ms gt = Some (h', out)" "advance\<^sup>*\<^sup>* (hv, outv) (h', out)"
    "settled h'" "fin_waits h'" "within_limits mo ms h \<longrightarrow> within_limits mo ms h'"
    using v(5) by (auto simp: payload_view_def moves_def returns_def)
  have nff: "\<not> fin_consumed hf" using v(1) nf by (auto simp: same_stream_def)
  have lv: "live B' hv" by (rule laid_down_live [OF v(2) nff hv(1)])
  have t: "track B' hv outv (h', out)" using advances_track [OF hv(4)] lv by (simp add: live_def)
  then obtain E G where EG: "out_emitted out = E" "out_gaps out = G"
    "tiles (stream_offset hv) (spans E G) (stream_offset h')"
    "\<forall>c \<in> set E. chunk_from hv c" "\<forall>g \<in> set G. gap_clear hv g"
    using hv(2) by (auto simp: track_def empty_outcome_def)
  have same: "base hv = base (observe h seq syn)" "out_of_order hf = out_of_order h" "stream_offset hv = stream_offset h"
    "pending_fin hv = pending_fin hf" "set (out_of_order h) \<subseteq> set (out_of_order hv)" "next_abs hv = Some e"
    using hv(1) v(1) e by (auto simp: laid_down_def same_stream_def base_def)
  have own: "\<not> replays hf e start (take n data)" if "fin_waits h" "\<not> replays h e start data"
    using that v(4) same(2) by (auto simp: replays_def)
  note seen = laid_down_seen [OF hv(1) same(2) own]
  show ?thesis
  proof (rule that [OF hv(3) trackD(1,2) [OF t] hv(5,6)])
    show "tiles (stream_offset h) (spans (out_emitted out) (out_gaps out)) (stream_offset h')"
      using EG same by simp
    show "seen h start data (base (observe h seq syn) + chunk_offset c + i) (chunk_data c ! i)"
      if "fin_waits h" "\<not> replays h e start data" "c \<in> set (out_emitted out)" "i < length (chunk_data c)" for c i
      using that EG(1,4) chunk_seen [OF _ that(4) hv(1) v(1) own] by blast
    show "\<not> covered seg_len (set (out_of_order h)) (base (observe h seq syn) + gap_offset g + i)"
      if "g \<in> set (out_gaps out)" "i < gap_len g" for g i
      using that EG(2,5) same(1) covered_mono [OF _ same(5)] by (auto simp: gap_clear_def)
    show "seen h start data p b"
      if "fin_waits h" "\<not> replays h e start data" "byte_in seg_data (set (out_of_order h')) p b" for p b
      using seen(1) [OF that(1,2)] byte_in_mono [OF that(3) trackD(4) [OF t]] by blast
    show "byte_in seg_data (set (out_of_order h')) p b"
      if "fin_waits h" "\<not> replays h e start data" "pending_fin h' = None" "the (next_abs h') \<le> p" "seen h start data p b" for p b
      using seen(2) [OF that(1,2)] track_keeps [OF t] trackD(3,7) [OF t] v(3) same(4,6) that by simp
  qed (use hv(7) trackD(3,5) [OF t] same in auto)
qed

subsection \<open>One packet\<close>

lemma accept_closed:
  assumes "fin_consumed h"
  shows "accept h seq syn fin ts data mo ms gt
    = Some (observe h seq syn, default_outcome\<lparr>out_retransmit := data \<noteq> []\<rparr>)"
  using assms by (simp add: accept_def Let_def default_outcome_def)

lemma accept_total_waits:
  assumes "half_inv B h" "8589934592 \<le> B" "B + 2147483648 + length data \<le> B'" "B' \<le> u64_max"
  shows "\<exists>h' out. accept h seq syn fin ts data mo ms gt = Some (h', out) \<and> half_inv B' h' \<and> settled h' \<and> fin_waits h'"
proof (cases "fin_consumed h")
  case True
  have "half_inv B' (observe h seq syn)"
    using half_inv_observe [OF half_inv_mono [OF assms(1)], of B'] assms by (simp add: live_def)
  then show ?thesis using accept_closed [OF True] True by (simp add: settled_def)
next
  case False
  obtain e where e: "next_abs (observe h seq syn) = Some e"
    using half_inv_observe [OF assms(1,2), of seq syn] by (auto simp: live_def)
  show ?thesis by (rule accept_open [OF assms False e refl, of fin ts mo ms gt]) blast
qed

lemma accept_total:
  assumes "half_inv B h" "8589934592 \<le> B" "B + 2147483648 + length data \<le> B'" "B' \<le> u64_max"
  shows "\<exists>h' out. accept h seq syn fin ts data mo ms gt = Some (h', out) \<and> half_inv B' h' \<and> settled h'"
  using accept_total_waits [OF assms, of seq syn fin ts mo ms gt] by blast

text \<open>C2: \<open>TcpHalf::accept\<close> never panics and never hangs: on every half that satisfies the invariant
  and for every segment, it returns; the invariant holds again (disjoint non-empty segments, exact byte
  count, nothing buffered after the FIN), no byte that could be delivered is left in the buffer, and no
  FIN that is due is left pending.\<close>

theorem accept_returns:
  assumes "half_inv B h" "8589934592 \<le> B" "B + 2147483648 + length data \<le> B'" "B' \<le> u64_max"
  shows "\<exists>h' out. accept h seq syn fin ts data mo ms gt = Some (h', out) \<and> half_inv B' h' \<and> settled h' \<and> fin_waits h'"
  using assms by (rule accept_total_waits)

text \<open>A concrete half for the witnesses: the SYN had sequence number 99, eight bytes are buffered
  eight bytes ahead.\<close>

definition example_half :: tcp_half where
  "example_half = default_half\<lparr>next_abs := Some 4294967396,
     out_of_order := [(4294967404, \<lparr>seg_data = [8, 9, 10, 11, 12, 13, 14, 15], seg_ts_ns = 1\<rparr>)],
     out_of_order_bytes := 8, initial_syn_seq := Some 99\<rparr>"

lemma example_half_waits: "fin_waits example_half"
  by (rule fin_waits_None) (simp add: example_half_def default_half_def)

lemma example_half_inv: "8589934592 \<le> B \<Longrightarrow> B \<le> u64_max \<Longrightarrow> half_inv B example_half"
  by (simp add: half_inv_def example_half_def default_half_def buf_ok_def disjoint_segs_def)

theorem accept_returns_witness:
  "\<exists>h' out. accept example_half 100 False False 2 [0, 1, 2] 64 4 10 = Some (h', out) \<and>
     half_inv 10737418243 h' \<and> settled h' \<and> fin_waits h'"
  by (rule accept_returns [of 8589934592]) (simp_all add: example_half_inv)

text \<open>C3: memory stays bounded: if the buffer was within the byte and segment limits before a
  packet, it is within them after it, whatever the packet's sequence number, flags and size. (Pressure
  recovery can be stopped by a tentative FIN; then what is left was buffered before the packet.)\<close>

theorem accept_bounded:
  assumes "half_inv B h" "8589934592 \<le> B" "B + 2147483648 + length data \<le> u64_max"
    and "out_of_order_bytes h \<le> max_ooo" "length (out_of_order h) \<le> max_segments"
    and "accept h seq syn fin ts data max_ooo max_segments gt = Some (h', out)"
  shows "out_of_order_bytes h' \<le> max_ooo \<and> length (out_of_order h') \<le> max_segments"
proof (cases "fin_consumed h")
  case True
  then show ?thesis using accept_closed [OF True, of seq syn fin ts data] assms(4-6) by auto
next
  case False
  obtain e where e: "next_abs (observe h seq syn) = Some e"
    using half_inv_observe [OF assms(1,2), of seq syn] by (auto simp: live_def)
  show ?thesis
    by (rule accept_open [OF assms(1-3) order_refl False e refl, of fin ts max_ooo max_segments gt])
      (use assms(4-6) in \<open>simp add: within_limits_def\<close>)
qed

text \<open>Two more bytes would make ten, over the limit of eight: the hole before them becomes a gap.\<close>

definition example_after :: tcp_half where
  "example_after = example_half\<lparr>next_abs := Some 4294967402, stream_offset := 6,
     gap_started_ts_ns := Some 2\<rparr>"

definition example_outcome :: reassembly_outcome where
  "example_outcome = \<lparr>out_emitted = [\<lparr>chunk_offset = 4, chunk_ts_ns = 2, chunk_data = [4, 5]\<rparr>],
     out_gaps = [\<lparr>gap_offset = 0, gap_len = 4\<rparr>], out_retransmit = False,
     out_out_of_order = True, out_fin_consumed = False\<rparr>"

lemma example_accept:
  "accept example_half 104 False False 2 [4, 5] 8 2 10 = Some (example_after, example_outcome)"
  by (simp add: example_half_def example_after_def example_outcome_def reassembly_eval)

theorem accept_bounded_witness:
  "out_of_order_bytes example_after \<le> 8 \<and> length (out_of_order example_after) \<le> 2"
  by (rule accept_bounded [OF example_half_inv _ _ _ _ example_accept, of 8589934592])
    (simp_all add: example_half_def default_half_def)

text \<open>A packet moves the stream without holes or overlaps: the chunks and gaps it emits tile the
  stream offsets from the old to the new offset exactly.\<close>

lemma accept_tiled:
  assumes "half_inv B h" "8589934592 \<le> B" "B + 2147483648 + length data \<le> u64_max"
    and "accept h seq syn fin ts data mo ms gt = Some (h', out)"
  shows "tiles (stream_offset h) (spans (out_emitted out) (out_gaps out)) (stream_offset h')"
proof (cases "fin_consumed h")
  case True
  then show ?thesis using accept_closed [OF True, of seq syn fin ts data] assms(4) by (auto simp: default_outcome_def)
next
  case False
  obtain e where e: "next_abs (observe h seq syn) = Some e"
    using half_inv_observe [OF assms(1,2), of seq syn] by (auto simp: live_def)
  show ?thesis
    by (rule accept_open [OF assms(1-3) order_refl False e refl, of fin ts mo ms gt]) (use assms(4) in simp)
qed

text \<open>C4: first-seen wins, exactly. Let \<open>e\<close> be the expected position and \<open>start\<close> the extended position
  of the packet, and let it not be one that the code replays (nothing buffered, all of it old; what those do
  is \<open>retransmission_displaces\<close>). Every byte a packet causes to be emitted at stream offset \<open>o\<close> is the byte buffered
  earlier for that position or, where nothing was buffered, the packet's own byte; a gap never covers
  a buffered byte; and if no FIN is pending afterwards, the buffer beyond the new expected position is
  the old buffer completed by the packet's bytes where it had none. (\<open>fin_waits\<close> holds of every half
  the code returns.)\<close>

theorem accept_first_seen:
  assumes "half_inv B h" "8589934592 \<le> B" "B + 2147483648 + length data \<le> u64_max" "\<not> fin_consumed h"
    and "next_abs (observe h seq syn) = Some e" "start = extend_seq (payload_seq seq syn) e"
    and "fin_waits h" "\<not> replays h e start data"
    and "accept h seq syn fin ts data mo ms gt = Some (h', out)"
  shows "(\<forall>c i. c \<in> set (out_emitted out) \<longrightarrow> i < length (chunk_data c) \<longrightarrow>
        seen h start data (e - stream_offset h + chunk_offset c + i) (chunk_data c ! i)) \<and>
      (\<forall>g i. g \<in> set (out_gaps out) \<longrightarrow> i < gap_len g \<longrightarrow>
        \<not> covered seg_len (set (out_of_order h)) (e - stream_offset h + gap_offset g + i)) \<and>
      (pending_fin h' = None \<longrightarrow> (\<forall>p b. the (next_abs h') \<le> p \<longrightarrow>
        byte_in seg_data (set (out_of_order h')) p b \<longleftrightarrow> seen h start data p b))"
proof -
  have b: "base (observe h seq syn) = e - stream_offset h" using assms(5) by (simp add: base_def)
  show ?thesis
    by (rule accept_open [OF assms(1-3) order_refl assms(4-6), of fin ts mo ms gt])
      (use assms(7-9) b in auto)
qed

theorem accept_first_seen_witness:
  "seen example_half 4294967400 [4, 5] (4294967396 - 0 + 4 + 1) 5 \<and>
   \<not> covered seg_len (set (out_of_order example_half)) (4294967396 - 0 + 0 + 3)"
proof -
  have nf: "\<not> fin_consumed example_half" and e: "next_abs (observe example_half 104 False) = Some 4294967396"
    and s: "4294967400 = extend_seq (payload_seq 104 False) 4294967396"
    by (simp_all add: example_half_def reassembly_eval)
  have no: "\<not> replays example_half 4294967396 4294967400 [4, 5]" by (simp add: replays_def)
  have w: "(\<forall>c i. c \<in> set (out_emitted example_outcome) \<longrightarrow> i < length (chunk_data c) \<longrightarrow>
        seen example_half 4294967400 [4, 5] (4294967396 - stream_offset example_half + chunk_offset c + i)
          (chunk_data c ! i)) \<and>
      (\<forall>g i. g \<in> set (out_gaps example_outcome) \<longrightarrow> i < gap_len g \<longrightarrow>
        \<not> covered seg_len (set (out_of_order example_half))
          (4294967396 - stream_offset example_half + gap_offset g + i))"
    using accept_first_seen [OF example_half_inv _ _ nf e s example_half_waits no example_accept, of 8589934592] by simp
  have off: "stream_offset example_half = 0" by (simp add: example_half_def default_half_def)
  show ?thesis
    using w [THEN conjunct1, rule_format, of "\<lparr>chunk_offset = 4, chunk_ts_ns = 2, chunk_data = [4, 5]\<rparr>" 1]
      w [THEN conjunct2, rule_format, of "\<lparr>gap_offset = 0, gap_len = 4\<rparr>" 3]
    by (simp add: example_outcome_def off)
qed

subsection \<open>Sequence numbers\<close>

lemma extend_seq_recovers:
  assumes "pos < ref + 2147483648" "ref \<le> pos + 2147483648" "pos \<le> u64_max"
  shows "extend_seq (of_nat pos) ref = pos"
proof -
  have "sint (of_nat pos - of_nat ref :: 32 word) = sint (of_int (int pos - int ref) :: 32 word)"
    by simp
  also have "\<dots> = signed_take_bit 31 (int pos - int ref)" by (simp add: signed_of_int del: of_int_diff)
  also have "\<dots> = int pos - int ref" using assms by (intro signed_take_bit_int_eq_self) auto
  finally show ?thesis using assms by (auto simp: extend_seq_def Let_def sat_add64_def)
qed

text \<open>The extension of a 32-bit sequence number is exact: if the true 64-bit position of a segment
  is less than \<open>2^31\<close> away from the expected position, \<open>extend_seq\<close> recovers it from its low 32
  bits, across any number of wrap-arounds.\<close>

theorem extend_seq_exact:
  assumes "pos < ref + 2147483648" "ref \<le> pos + 2147483648" "pos \<le> u64_max"
  shows "extend_seq (of_nat pos) ref = pos"
  by (rule extend_seq_recovers [OF assms])

theorem extend_seq_exact_witness: "extend_seq (of_nat 4294967300) 4294967290 = 4294967300"
  by (rule extend_seq_exact) simp_all

text \<open>\<open>rst_matches_next\<close> accepts an RST exactly when its sequence number is the low 32 bits of the
  next expected position: no off-sequence RST tears a half down, at any distance.\<close>

theorem rst_exact:
  assumes "half_inv B h" "B + 2147483648 \<le> u64_max" "next_abs h = Some e"
  shows "rst_matches_next h seq \<longleftrightarrow> seq = of_nat e"
proof -
  have e: "4294967296 \<le> e" "e \<le> B" using half_invD(4) [OF assms(1,3)] by auto
  have "seq = of_nat e" if "extend_seq seq e = e"
  proof -
    have "sint (seq - of_nat e) = 0"
      using that e assms(2) sint_lt [of "seq - of_nat e"] by (auto simp: extend_seq_def Let_def sat_add64_def split: if_splits)
    then show ?thesis by (simp add: sint_0 signed_eq_0_iff)
  qed
  moreover have "extend_seq (of_nat e) e = e" using e assms(2) by (intro extend_seq_recovers) auto
  ultimately show ?thesis using assms(3) by (auto simp: rst_matches_next_def)
qed

theorem rst_exact_witness:
  "rst_matches_next example_half 100 \<longleftrightarrow> (100 :: 32 word) = of_nat 4294967396"
  by (rule rst_exact [OF example_half_inv, of 8589934592]) (simp_all add: example_half_def)

subsection \<open>Acknowledgements and close\<close>

lemma acknowledge_total:
  assumes "half_inv B h"
  shows "\<exists>h' out. acknowledge h ack ts gt = Some (h', out) \<and> half_inv B h' \<and>
     (next_abs h \<noteq> None \<longrightarrow> settled h') \<and>
     tiles (stream_offset h) (spans (out_emitted out) (out_gaps out)) (stream_offset h')"
proof (cases "next_abs h")
  case None
  then show ?thesis using assms by (simp add: acknowledge_def default_outcome_def)
next
  case (Some e)
  obtain hv h' out where v: "hv = h \<or> (\<exists>a. hv = h\<lparr>peer_ack_abs := Some a\<rparr>)"
    "acknowledge h ack ts gt = Some (h', out)" "advance\<^sup>*\<^sup>* (hv, default_outcome) (h', out)"
    "next_abs h \<noteq> None \<longrightarrow> settled h'"
    using acknowledge_view [OF assms, of ack ts gt] by (auto simp: moves_def returns_def)
  have "half_inv B hv" using assms v(1) by (auto simp: half_inv_def split: option.splits)
  moreover have "next_abs hv \<noteq> None" "stream_offset hv = stream_offset h" using v(1) Some by auto
  ultimately have t: "track B hv default_outcome (h', out)" using advances_track [OF v(3)] by simp
  then have "tiles (stream_offset h) (spans (out_emitted out) (out_gaps out)) (stream_offset h')"
    using \<open>stream_offset hv = stream_offset h\<close> by (auto simp: track_def default_outcome_def)
  then show ?thesis using v(2,4) trackD(1) [OF t] by blast
qed

text \<open>A peer acknowledgement never panics or hangs, keeps the invariant and tiles the stream; it
  leaves nothing deliverable in the buffer.\<close>

theorem acknowledge_returns:
  assumes "half_inv B h"
  shows "\<exists>h' out. acknowledge h ack ts gt = Some (h', out) \<and> half_inv B h' \<and>
     (next_abs h \<noteq> None \<longrightarrow> settled h') \<and>
     tiles (stream_offset h) (spans (out_emitted out) (out_gaps out)) (stream_offset h')"
  using assms by (rule acknowledge_total)

theorem acknowledge_returns_witness:
  "\<exists>h' out. acknowledge example_half 110 5 10 = Some (h', out) \<and> half_inv 8589934592 h' \<and>
     (next_abs example_half \<noteq> None \<longrightarrow> settled h') \<and>
     tiles (stream_offset example_half) (spans (out_emitted out) (out_gaps out)) (stream_offset h')"
  by (rule acknowledge_returns) (simp add: example_half_inv)

text \<open>A buffered byte the moves have passed is in a chunk, at its place.\<close>

lemma spans_cases:
  assumes "x \<in># spans E G"
  obtains (chunk) c where "c \<in> set E" "x = chunk_span c" | (gap) g where "g \<in> set G" "x = gap_span g"
  using assms by (auto simp: spans_def)

lemma track_emits:
  assumes t: "track B h out0 (h', out)" and e: "empty_outcome out0" "half_inv B h" "next_abs h = Some n" "\<not> fin_consumed h'"
    and px: "byte_in seg_data (set (out_of_order h)) p x" and p: "n \<le> p" "p < the (next_abs h')"
  shows "\<exists>c i. c \<in> set (out_emitted out) \<and> i < length (chunk_data c) \<and>
      p = base h + chunk_offset c + i \<and> chunk_data c ! i = x"
proof -
  have tl: "tiles (stream_offset h) (spans (out_emitted out) (out_gaps out)) (stream_offset h')"
    and chunks: "\<forall>c \<in> set (out_emitted out). chunk_from h c" and gaps: "\<forall>g \<in> set (out_gaps out). gap_clear h g"
    using t e(1) by (auto simp: track_def empty_outcome_def)
  obtain n' where n': "next_abs h' = Some n'" using trackD(2) [OF t] by blast
  have pos: "base h + stream_offset h = n" "base h + stream_offset h' = n'"
    using half_inv_base [OF e(2,3)] half_inv_base [OF trackD(1) [OF t] n'] trackD(5) [OF t e(4)] by simp_all
  define q where "q = p - base h"
  have q: "stream_offset h \<le> q" "q < stream_offset h'" "p = base h + q" using p pos n' by (simp_all add: q_def)
  obtain y where y: "y \<in># spans (out_emitted out) (out_gaps out)" "fst y \<le> q" "q < fst y + snd y"
    using tiles_covered [OF tl q(1,2)] by auto
  from y(1) show ?thesis
  proof (cases rule: spans_cases)
    case (chunk c)
    then have i: "chunk_offset c \<le> q" "q - chunk_offset c < length (chunk_data c)"
      using y(2,3) by (auto simp: chunk_span_def)
    then have "byte_in seg_data (set (out_of_order h)) p (chunk_data c ! (q - chunk_offset c))"
      using chunks chunk(1) q(3) by (fastforce simp: chunk_from_def)
    then have "chunk_data c ! (q - chunk_offset c) = x"
      using disjoint_segs_byte_unique [OF buf_ok_disjoint [OF half_invD(1) [OF e(2)]]] px
        om_invar_functional [OF buf_ok_invar [OF half_invD(1) [OF e(2)]]] by blast
    then show ?thesis using chunk(1) i q(3) by (intro exI [of _ c] exI [of _ "q - chunk_offset c"]) auto
  next
    case (gap g)
    then have "q - gap_offset g < gap_len g" "gap_clear h g"
      using gaps y(2,3) by (auto simp: gap_span_def)
    then have "\<not> covered seg_len (set (out_of_order h)) (base h + gap_offset g + (q - gap_offset g))"
      by (simp only: gap_clear_def) blast
    moreover have "base h + gap_offset g + (q - gap_offset g) = p"
      using gap y(2) q(3) by (simp add: gap_span_def)
    ultimately show ?thesis using byte_in_covered [OF px] by simp
  qed
qed

text \<open>C27: closing a half drains it: when no FIN is pending, \<open>finalize\<close> returns with an empty buffer,
  its chunks and gaps tile the rest of the stream, and every byte that was buffered is emitted at its
  place.\<close>

theorem finalize_drains:
  assumes "half_inv B h" "next_abs h = Some e" "settled h" "pending_fin h = None"
  shows "\<exists>h' out. finalize h = Some (h', out) \<and> half_inv B h' \<and> out_of_order h' = [] \<and>
     tiles (stream_offset h) (spans (out_emitted out) (out_gaps out)) (stream_offset h') \<and>
     (\<forall>p b. byte_in seg_data (set (out_of_order h)) p b \<longrightarrow>
        (\<exists>c i. c \<in> set (out_emitted out) \<and> i < length (chunk_data c) \<and>
           p = e - stream_offset h + chunk_offset c + i \<and> chunk_data c ! i = b))"
proof -
  have l: "live B h" using assms(1,2) by (simp add: live_def)
  obtain h' out where f: "finalize h = Some (h', out)" "advance\<^sup>*\<^sup>* (h, default_outcome) (h', out)"
    "out_of_order h' = [] \<or> fin_tentative h'"
    using finalize_moves [OF l] by (auto simp: moves_def returns_def)
  have t: "track B h default_outcome (h', out)" using advances_track [OF f(2)] assms(1,2) by simp
  have pend: "pending_fin h' = None" using trackD(7) [OF t] assms(4) by simp
  have empty: "out_of_order h' = []" using f(3) pend by (auto simp: fin_tentative_def)
  have nf: "\<not> fin_consumed h'" using half_invD(7) [OF trackD(1) [OF t]] pend by auto
  have b: "base h = e - stream_offset h" using assms(2) by (simp add: base_def)
  have nf0: "\<not> fin_consumed h" using trackD(10) [OF t] nf by blast
  have "\<exists>c i. c \<in> set (out_emitted out) \<and> i < length (chunk_data c) \<and>
      p = e - stream_offset h + chunk_offset c + i \<and> chunk_data c ! i = x"
    if px: "byte_in seg_data (set (out_of_order h)) p x" for p x
  proof -
    obtain k s where ks: "(k, s) \<in> set (out_of_order h)" "k \<le> p" "p < k + seg_len s"
      using px by (auto simp: byte_in_def)
    have "e < k" using assms(2,3) nf0 ks(1) by (auto simp: settled_def)
    moreover have "k + seg_len s \<le> the (next_abs h')" using trackD(6) [OF t nf] ks(1) empty by auto
    ultimately show ?thesis
      using track_emits [OF t _ assms(1,2) nf px] ks b by (auto simp: empty_outcome_def default_outcome_def)
  qed
  moreover have "tiles (stream_offset h) (spans (out_emitted out) (out_gaps out)) (stream_offset h')"
    using t by (auto simp: track_def default_outcome_def)
  ultimately show ?thesis using f(1) trackD(1) [OF t] empty by blast
qed

theorem finalize_drains_witness:
  "\<exists>h' out. finalize example_half = Some (h', out) \<and> half_inv 8589934592 h' \<and> out_of_order h' = [] \<and>
     tiles (stream_offset example_half) (spans (out_emitted out) (out_gaps out)) (stream_offset h') \<and>
     (\<forall>p b. byte_in seg_data (set (out_of_order example_half)) p b \<longrightarrow>
        (\<exists>c i. c \<in> set (out_emitted out) \<and> i < length (chunk_data c) \<and>
           p = 4294967396 - stream_offset example_half + chunk_offset c + i \<and> chunk_data c ! i = b))"
  by (rule finalize_drains [OF example_half_inv])
    (simp_all add: example_half_def default_half_def settled_def)

subsection \<open>Whole runs\<close>

text \<open>A half lives through segments of its own direction and acknowledgements from the peer; a run
  collects what they emit.\<close>

datatype half_event = Segment u32 bool bool nat bytes | PeerAck u32 nat

fun half_step :: "nat \<Rightarrow> nat \<Rightarrow> nat \<Rightarrow> tcp_half \<Rightarrow> half_event \<Rightarrow> (tcp_half \<times> reassembly_outcome) option" where
  "half_step mo ms gt h (Segment seq syn fin ts data) = accept h seq syn fin ts data mo ms gt"
| "half_step mo ms gt h (PeerAck ack ts) = acknowledge h ack ts gt"

fun run_half :: "nat \<Rightarrow> nat \<Rightarrow> nat \<Rightarrow> tcp_half \<Rightarrow> half_event list \<Rightarrow>
    (tcp_half \<times> reassembled_chunk list \<times> stream_gap list) option" where
  "run_half mo ms gt h [] = Some (h, [], [])"
| "run_half mo ms gt h (ev # evs) = do {
     (h, out) \<leftarrow> half_step mo ms gt h ev;
     (h, E, G) \<leftarrow> run_half mo ms gt h evs;
     Some (h, out_emitted out @ E, out_gaps out @ G)
   }"

text \<open>\<open>truthful S\<close>: the payload of a segment is what the sender's stream \<open>S\<close> (a byte for every
  absolute sequence position) has there.\<close>

fun truthful :: "(nat \<Rightarrow> byte) \<Rightarrow> tcp_half \<Rightarrow> half_event \<Rightarrow> bool" where
  "truthful S h (Segment seq syn fin ts data) = 
     (data = map (\<lambda>i. S (extend_seq (payload_seq seq syn) (the (next_abs (observe h seq syn))) + i))
        [0..<length data])"
| "truthful S h (PeerAck ack ts) = True"

fun truthful_run :: "(nat \<Rightarrow> byte) \<Rightarrow> nat \<Rightarrow> nat \<Rightarrow> nat \<Rightarrow> tcp_half \<Rightarrow> half_event list \<Rightarrow> bool" where
  "truthful_run S mo ms gt h [] = True"
| "truthful_run S mo ms gt h (ev # evs) = (truthful S h ev \<and>
     (case half_step mo ms gt h ev of None \<Rightarrow> False | Some (h', _) \<Rightarrow> truthful_run S mo ms gt h' evs))"

text \<open>\<open>fresh_run\<close>: no segment of the run is replayed.\<close>

fun fresh :: "tcp_half \<Rightarrow> half_event \<Rightarrow> bool" where
  "fresh h (Segment seq syn fin ts data) = (fin_consumed h \<or>
     (let e = the (next_abs (observe h seq syn)) in \<not> replays h e (extend_seq (payload_seq seq syn) e) data))"
| "fresh h (PeerAck ack ts) = True"

fun fresh_run :: "nat \<Rightarrow> nat \<Rightarrow> nat \<Rightarrow> tcp_half \<Rightarrow> half_event list \<Rightarrow> bool" where
  "fresh_run mo ms gt h [] = True"
| "fresh_run mo ms gt h (ev # evs) = (fresh h ev \<and>
     (case half_step mo ms gt h ev of None \<Rightarrow> False | Some (h', _) \<Rightarrow> fresh_run mo ms gt h' evs))"

text \<open>How far an event can push the positions towards the end of the 64-bit range.\<close>

fun event_cost :: "half_event \<Rightarrow> nat" where
  "event_cost (Segment seq syn fin ts data) = 2147483648 + length data"
| "event_cost (PeerAck ack ts) = 0"

definition agrees :: "(nat \<Rightarrow> byte) \<Rightarrow> tcp_half \<Rightarrow> bool" where
  "agrees S h \<longleftrightarrow> (\<forall>p b. byte_in seg_data (set (out_of_order h)) p b \<longrightarrow> b = S p)"

definition chunk_true :: "(nat \<Rightarrow> byte) \<Rightarrow> nat \<Rightarrow> reassembled_chunk \<Rightarrow> bool" where
  "chunk_true S b c \<longleftrightarrow> (\<forall>i < length (chunk_data c). chunk_data c ! i = S (b + chunk_offset c + i))"

text \<open>\<open>based b h\<close>: \<open>b\<close> is the position of stream offset zero, once that is fixed and as long as the
  stream is open.\<close>

definition based :: "nat \<Rightarrow> tcp_half \<Rightarrow> bool" where
  "based b h \<longleftrightarrow> (next_abs h \<noteq> None \<and> \<not> fin_consumed h \<longrightarrow> b = base h)"

definition faithful_step :: "(nat \<Rightarrow> byte) \<Rightarrow> nat \<Rightarrow> tcp_half \<Rightarrow> tcp_half \<times> reassembly_outcome \<Rightarrow> bool" where
  "faithful_step S B h = (\<lambda>(h', out). half_inv B h' \<and> fin_waits h' \<and> agrees S h' \<and>
     tiles (stream_offset h) (spans (out_emitted out) (out_gaps out)) (stream_offset h') \<and>
     (next_abs h \<noteq> None \<longrightarrow> next_abs h' \<noteq> None) \<and> (fin_consumed h \<longrightarrow> fin_consumed h' \<and> out_emitted out = []) \<and>
     (next_abs h' = None \<longrightarrow> out_emitted out = []) \<and>
     (\<exists>b. based b h \<and> based b h' \<and> (\<forall>c \<in> set (out_emitted out). chunk_true S b c)))"

lemma accept_faithful:
  assumes "half_inv B h" "8589934592 \<le> B" "B + 2147483648 + length data \<le> B'" "B' \<le> u64_max"
    and "agrees S h" "truthful S h (Segment seq syn fin ts data)"
    and "fin_waits h" "fresh h (Segment seq syn fin ts data)"
  shows "returns (accept h seq syn fin ts data mo ms gt) (faithful_step S B' h)"
proof (cases "fin_consumed h")
  case True
  have "half_inv B' (observe h seq syn)" "fin_waits (observe h seq syn)"
    using half_inv_observe [OF half_inv_mono [OF assms(1)], of B'] assms True by (simp_all add: live_def)
  then show ?thesis
    using accept_closed [OF True] True assms(5) half_invD(7) [OF assms(1)]
    by (auto simp: faithful_step_def default_outcome_def agrees_def based_def)
next
  case False
  obtain e where e: "next_abs (observe h seq syn) = Some e"
    using half_inv_observe [OF assms(1,2), of seq syn] by (auto simp: live_def)
  let ?start = "extend_seq (payload_seq seq syn) e" and ?b = "base (observe h seq syn)"
  have true: "b = S p" if "seen h ?start data p b" for p b
  proof (cases "byte_in seg_data (set (out_of_order h)) p b")
    case True
    then show ?thesis using assms(5) by (simp add: agrees_def)
  next
    case False
    then have inp: "?start \<le> p" "p < ?start + length data" "data ! (p - ?start) = b" using that by (auto simp: seen_def)
    have nth: "data ! j = S (?start + j)" if "j < length data" for j
    proof -
      have "data ! j = map (\<lambda>i. S (?start + i)) [0..<length data] ! j"
        using assms(6) e by (metis option.sel truthful.simps(1))
      then show ?thesis using that by simp
    qed
    show ?thesis using nth [of "p - ?start"] inp by simp
  qed
  have fresh: "fin_waits h" "\<not> replays h e ?start data" using assms(7,8) False e by (simp_all add: Let_def)
  have bh: "based ?b h" by (auto simp: based_def base_def)
  show ?thesis
    by (rule accept_open [OF assms(1-4) False e refl, of fin ts mo ms gt])
      (use False true bh fresh in \<open>auto simp: faithful_step_def agrees_def based_def chunk_true_def\<close>)
qed

lemma acknowledge_faithful:
  assumes "half_inv B h" "agrees S h" "fin_waits h"
  shows "returns (acknowledge h ack ts gt) (faithful_step S B h)"
proof (cases "next_abs h")
  case None
  then show ?thesis
    using assms half_invD(7) [OF assms(1)]
    by (auto simp: acknowledge_def faithful_step_def default_outcome_def based_def)
next
  case (Some e)
  obtain hv h' out where v: "hv = h \<or> (\<exists>a. hv = h\<lparr>peer_ack_abs := Some a\<rparr>)"
    "acknowledge h ack ts gt = Some (h', out)" "advance\<^sup>*\<^sup>* (hv, default_outcome) (h', out)" "fin_waits h'"
    using assms(3) acknowledge_view [OF assms(1), of ack ts gt] by (auto simp: moves_def returns_def)
  have same: "half_inv B hv" "next_abs hv = Some e" "stream_offset hv = stream_offset h" "base hv = base h"
    "out_of_order hv = out_of_order h" "fin_consumed hv = fin_consumed h"
    using assms(1) v(1) Some by (auto simp: half_inv_def base_def split: option.splits)
  have t: "track B hv default_outcome (h', out)" using advances_track [OF v(3)] same by simp
  have chunks: "\<forall>c \<in> set (out_emitted out). chunk_from hv c"
    using t by (auto simp: track_def default_outcome_def)
  have "\<forall>c \<in> set (out_emitted out). chunk_true S (base h) c"
    using chunks assms(2) same(4,5) unfolding chunk_true_def chunk_from_def agrees_def by auto
  moreover have "agrees S h'"
    using assms(2) byte_in_mono [OF _ trackD(4) [OF t], of seg_data] same(5) unfolding agrees_def by metis
  moreover have "tiles (stream_offset h) (spans (out_emitted out) (out_gaps out)) (stream_offset h')"
    "fin_consumed h \<longrightarrow> out_emitted out = []"
    using t same(3,6) by (auto simp: track_def default_outcome_def)
  moreover have "based (base h) h'" "based (base h) h"
    using trackD(5) [OF t] same(4) by (auto simp: based_def)
  ultimately show ?thesis
    using trackD(1,2,10) [OF t] same(6) v(2,4) by (auto simp: faithful_step_def)
qed

lemma half_step_faithful:
  assumes "half_inv B h" "8589934592 \<le> B" "B + event_cost ev \<le> B'" "B' \<le> u64_max" "agrees S h" "truthful S h ev"
    and "fin_waits h" "fresh h ev"
  shows "returns (half_step mo ms gt h ev) (faithful_step S B' h)"
proof (cases ev)
  case (Segment seq syn fin ts data)
  then show ?thesis using accept_faithful [of B h data B' S seq syn fin ts] assms by simp
next
  case (PeerAck ack ts)
  then show ?thesis using acknowledge_faithful [of B' h S] half_inv_mono [OF assms(1)] assms by simp
qed

lemma faithful_base_compose:
  assumes "faithful_step S B h (h1, out1)" "based b2 h1" "based b2 h2"
    and "\<forall>c \<in> set E. chunk_true S b2 c" "fin_consumed h1 \<longrightarrow> fin_consumed h2 \<and> E = []"
  shows "\<exists>b. based b h \<and> based b h2 \<and> (\<forall>c \<in> set (out_emitted out1 @ E). chunk_true S b c)"
proof -
  obtain b1 where b1: "based b1 h" "based b1 h1" "\<forall>c \<in> set (out_emitted out1). chunk_true S b1 c"
    and s: "next_abs h \<noteq> None \<longrightarrow> next_abs h1 \<noteq> None" "next_abs h1 = None \<longrightarrow> out_emitted out1 = []"
    using assms(1) by (auto simp: faithful_step_def)
  consider (fresh) "next_abs h1 = None" | (over) "fin_consumed h1"
    | (open_) "next_abs h1 \<noteq> None" "\<not> fin_consumed h1" by blast
  then show ?thesis
  proof cases
    case fresh
    then show ?thesis using s assms(3,4) by (intro exI [of _ b2]) (auto simp: based_def)
  next
    case over
    then show ?thesis using b1 assms(5) by (intro exI [of _ b1]) (auto simp: based_def)
  next
    case open_
    then have "b2 = b1" using b1(2) assms(2) by (simp add: based_def)
    then show ?thesis using b1 assms(3,4) by (intro exI [of _ b1]) auto
  qed
qed

lemma run_half_faithful:
  assumes "half_inv B h" "8589934592 \<le> B" "B + sum_list (map event_cost evs) \<le> u64_max"
    and "agrees S h" "truthful_run S mo ms gt h evs" "fin_waits h" "fresh_run mo ms gt h evs"
  shows "\<exists>h' E G. run_half mo ms gt h evs = Some (h', E, G) \<and>
     tiles (stream_offset h) (spans E G) (stream_offset h') \<and>
     (fin_consumed h \<longrightarrow> fin_consumed h' \<and> E = []) \<and>
     (\<exists>b. based b h \<and> based b h' \<and> (\<forall>c \<in> set E. chunk_true S b c))"
  using assms
proof (induction evs arbitrary: h B)
  case Nil
  then show ?case by (auto simp: based_def)
next
  case (Cons ev evs)
  let ?B = "B + event_cost ev"
  obtain h1 out1 where st: "half_step mo ms gt h ev = Some (h1, out1)" "faithful_step S ?B h (h1, out1)"
    using half_step_faithful [OF Cons.prems(1,2), of ev ?B S mo ms gt] Cons.prems by (auto simp: returns_def)
  obtain h' E G b where r: "run_half mo ms gt h1 evs = Some (h', E, G)"
    "tiles (stream_offset h1) (spans E G) (stream_offset h')" "fin_consumed h1 \<longrightarrow> fin_consumed h' \<and> E = []"
    "based b h1" "based b h'" "\<forall>c \<in> set E. chunk_true S b c"
    using Cons.IH [of ?B h1] Cons.prems st by (auto simp: faithful_step_def)
  have "tiles (stream_offset h) (spans (out_emitted out1 @ E) (out_gaps out1 @ G)) (stream_offset h')"
    using st(2) r(2) by (auto simp: faithful_step_def spans_append intro: tiles_trans)
  moreover have "fin_consumed h \<longrightarrow> fin_consumed h' \<and> out_emitted out1 @ E = []"
    using st(2) r(3) by (auto simp: faithful_step_def)
  ultimately show ?case
    using faithful_base_compose [OF st(2) r(4,5,6,3)] st(1) r(1) by auto
qed

text \<open>Without any hypothesis on the payloads a run still returns and tiles.\<close>

lemma half_step_total:
  assumes "half_inv B h" "8589934592 \<le> B" "B + event_cost ev \<le> B'" "B' \<le> u64_max"
  shows "\<exists>h' out. half_step mo ms gt h ev = Some (h', out) \<and> half_inv B' h' \<and>
     tiles (stream_offset h) (spans (out_emitted out) (out_gaps out)) (stream_offset h')"
proof (cases ev)
  case (Segment seq syn fin ts data)
  have bounds: "B + 2147483648 + length data \<le> B'" "B + 2147483648 + length data \<le> u64_max"
    using assms Segment by simp_all
  obtain h' out where a: "accept h seq syn fin ts data mo ms gt = Some (h', out)" "half_inv B' h'"
    using accept_total [OF assms(1,2) bounds(1) assms(4), of seq syn fin ts mo ms gt] by blast
  show ?thesis using a accept_tiled [OF assms(1,2) bounds(2) a(1)] Segment by simp
next
  case (PeerAck ack ts)
  then show ?thesis using acknowledge_total [OF half_inv_mono [OF assms(1)], of B' ack ts gt] assms by simp blast
qed

lemma run_half_total:
  assumes "half_inv B h" "8589934592 \<le> B" "B + sum_list (map event_cost evs) \<le> u64_max"
  shows "\<exists>h' E G. run_half mo ms gt h evs = Some (h', E, G) \<and> tiles (stream_offset h) (spans E G) (stream_offset h')"
  using assms
proof (induction evs arbitrary: h B)
  case (Cons ev evs)
  obtain h1 out1 where st: "half_step mo ms gt h ev = Some (h1, out1)" "half_inv (B + event_cost ev) h1"
    "tiles (stream_offset h) (spans (out_emitted out1) (out_gaps out1)) (stream_offset h1)"
    using half_step_total [OF Cons.prems(1,2) order_refl, of ev mo ms gt] Cons.prems(3) by auto
  obtain h' E G where r: "run_half mo ms gt h1 evs = Some (h', E, G)" "tiles (stream_offset h1) (spans E G) (stream_offset h')"
    using Cons.IH [OF st(2)] Cons.prems by auto
  show ?case using st(1) r(1) tiles_trans [OF r(2) st(3)] by (simp add: spans_append)
qed simp

text \<open>C1: end-to-end fidelity. Take any run of segments and acknowledgements on a fresh half, in any
  order, with any loss, duplication, overlap and retransmission, under any buffer limits and gap
  timeout. The run returns, and its chunks and gaps tile the stream from offset 0 to the final offset. If
  the payloads are truthful with respect to a sender's stream \<open>S\<close> and no segment is replayed (one that lies
  wholly before the expected position while nothing is buffered: the code emits those again, see
  \<open>retransmission_displaces\<close>), every chunk carries exactly the bytes of \<open>S\<close> at its place. (The bound keeps
  64-bit positions from saturating: some four thousand million packets.)\<close>

theorem run_faithful:
  assumes "8589934592 + sum_list (map event_cost evs) \<le> u64_max"
  shows "\<exists>h' E G. run_half mo ms gt default_half evs = Some (h', E, G) \<and>
     tiles 0 (spans E G) (stream_offset h') \<and>
     (truthful_run S mo ms gt default_half evs \<and> fresh_run mo ms gt default_half evs \<longrightarrow>
        (\<exists>b. \<forall>c \<in> set E. \<forall>i < length (chunk_data c). chunk_data c ! i = S (b + chunk_offset c + i)))"
proof -
  obtain h' E G where r: "run_half mo ms gt default_half evs = Some (h', E, G)" "tiles 0 (spans E G) (stream_offset h')"
    using run_half_total [OF half_inv_default order_refl assms, of mo ms gt] by (auto simp: default_half_def)
  moreover have "\<exists>b. \<forall>c \<in> set E. chunk_true S b c"
    if "truthful_run S mo ms gt default_half evs" "fresh_run mo ms gt default_half evs"
    using run_half_faithful [OF half_inv_default order_refl assms _ that(1) _ that(2)] r(1)
    by (auto simp: agrees_def byte_in_def fin_waits_None default_half_def)
  ultimately show ?thesis unfolding chunk_true_def by blast
qed

text \<open>Five segments: the second half first, a retransmission, an overlap, then the missing start.\<close>

definition example_run :: "half_event list" where
  "example_run = [Segment 99 True False 0 [], Segment 104 False False 1 [4, 5, 6, 7], PeerAck 100 1,
     Segment 106 False False 2 [6, 7, 8], Segment 100 False False 3 [0, 1, 2, 3, 4]]"

theorem run_faithful_witness:
  "\<exists>h' E G. run_half 64 4 10 default_half example_run = Some (h', E, G) \<and>
     tiles 0 (spans E G) (stream_offset h') \<and>
     (\<exists>b. \<forall>c \<in> set E. \<forall>i < length (chunk_data c).
        chunk_data c ! i = of_nat (b + chunk_offset c + i - 4294967396))"
proof -
  have "truthful_run (\<lambda>p. of_nat (p - 4294967396)) 64 4 10 default_half example_run"
    "fresh_run 64 4 10 default_half example_run"
    by (simp_all add: example_run_def reassembly_eval replays_def)
  moreover have "8589934592 + sum_list (map event_cost example_run) \<le> u64_max" by (simp add: example_run_def)
  ultimately show ?thesis
    using run_faithful [of example_run 64 4 10 "\<lambda>p. of_nat (p - 4294967396)"] by blast
qed

subsection \<open>The FIN\<close>

text \<open>The fast path, exactly. On a half with nothing buffered and no FIN pending, a segment at the
  expected position is emitted whole as one chunk at the current stream offset, and nothing else
  happens to the stream; with the FIN flag the half is closed in the same call, the FIN taking one
  sequence number and no stream offset.\<close>

theorem accept_in_order:
  assumes "half_inv B h" "B + 2147483648 + length data \<le> u64_max" "next_abs h = Some e"
    and "out_of_order h = []" "pending_fin h = None" "data \<noteq> []"
  shows "accept h (of_nat e) False fin ts data mo ms gt = Some
     (h\<lparr>next_abs := Some (if fin then e + length data + 1 else e + length data),
        stream_offset := stream_offset h + length data, out_of_order_bytes := 0,
        pending_fin := (if fin then Some (e + length data) else None),
        pending_fin_requires_ack := (if fin then False else pending_fin_requires_ack h),
        fin_consumed := fin, gap_started_ts_ns := None\<rparr>,
      default_outcome\<lparr>out_emitted := [\<lparr>chunk_offset = stream_offset h, chunk_ts_ns = ts, chunk_data = data\<rparr>],
        out_fin_consumed := fin\<rparr>)"
proof -
  have e: "4294967296 + stream_offset h \<le> e" "e \<le> B" using half_invD(4) [OF assms(1,3)] by auto
  have start: "extend_seq (of_nat e) e = e" using e assms(2) by (intro extend_seq_recovers) auto
  have sat: "sat_add64 e (length data) = e + length data" "sat_add64 (stream_offset h) (length data) = stream_offset h + length data"
    "sat_add64 (e + length data) 1 = e + length data + 1"
    using e assms(2) by (auto simp: sat_add64_def)
  have nf: "\<not> fin_consumed h" using half_invD(7) [OF assms(1)] assms(5) by auto
  have by0: "out_of_order_bytes h = 0" using half_invD(2) [OF assms(1)] assms(4) by simp
  show ?thesis
    using assms(3-6) nf start sat by0
    by (cases fin; simp add: accept_def observe_def Let_def payload_seq_def note_fin_def cut_at_fin_def
        accept_payload_def emit_def consume_fin_if_ready_def recover_ooo_timeout_def default_outcome_def)
qed

definition quiet_half :: tcp_half where
  "quiet_half = default_half\<lparr>next_abs := Some 4294967396\<rparr>"

theorem accept_in_order_witness:
  "accept quiet_half (of_nat 4294967396) False True 7 [1, 2] 64 4 10 = Some
     (quiet_half\<lparr>next_abs := Some 4294967399, stream_offset := 2, out_of_order_bytes := 0,
        pending_fin := Some 4294967398, pending_fin_requires_ack := False, fin_consumed := True,
        gap_started_ts_ns := None\<rparr>,
      default_outcome\<lparr>out_emitted := [\<lparr>chunk_offset = 0, chunk_ts_ns = 7, chunk_data = [1, 2]\<rparr>],
        out_fin_consumed := True\<rparr>)"
proof -
  have "half_inv 8589934592 quiet_half" by (simp add: half_inv_def quiet_half_def default_half_def)
  from accept_in_order [OF this, of "[1, 2]" 4294967396 True 7 64 4 10] show ?thesis
    by (simp add: quiet_half_def default_half_def)
qed

subsection \<open>Retransmissions\<close>

text \<open>A segment whose bytes are all old, on a half with nothing buffered: every byte is emitted again.\<close>

lemma accept_replayed:
  assumes "half_inv B h" "B + 2147483648 + length data \<le> u64_max" "next_abs h = Some e"
    and "out_of_order h = []" "pending_fin h = None" "data \<noteq> []"
    and "start + length data \<le> e" "e \<le> start + 2147483648"
  shows "accept h (of_nat start) False False ts data mo ms gt = Some
     (h\<lparr>next_abs := Some (e + length data), stream_offset := stream_offset h + length data,
        gap_started_ts_ns := None\<rparr>,
      default_outcome\<lparr>out_emitted := [\<lparr>chunk_offset = stream_offset h, chunk_ts_ns = ts, chunk_data = data\<rparr>],
        out_retransmit := True\<rparr>)"
proof -
  have e: "4294967296 + stream_offset h \<le> e" "e \<le> B" using half_invD(4) [OF assms(1,3)] by auto
  have start: "extend_seq (of_nat start) e = start" using e assms(2,7,8) by (intro extend_seq_recovers) auto
  have lt: "start < e" using assms(6,7) by (cases data) auto
  have sat: "sat_add64 (stream_offset h) (length data) = stream_offset h + length data"
    "sat_add64 e (length data) = e + length data" "sat_add64 start (length data) = start + length data"
    using e assms(2,7) by (auto simp: sat_add64_def)
  have nf: "\<not> fin_consumed h" using half_invD(7) [OF assms(1)] assms(5) by auto
  show ?thesis
    using assms(3-7) nf start sat lt
    by (simp add: accept_def observe_def Let_def payload_seq_def cut_at_fin_def
        accept_payload_def emit_def consume_fin_if_ready_def recover_ooo_timeout_def default_outcome_def)
qed

text \<open>A segment at \<open>start \<le> e\<close> that reaches past \<open>e\<close>, on a half with nothing buffered: its old bytes are cut
  off and the rest is emitted.\<close>

lemma accept_trimmed:
  assumes "half_inv B h" "B + 2147483648 + length data \<le> u64_max" "next_abs h = Some e"
    and "out_of_order h = []" "pending_fin h = None"
    and "start < e" "e < start + length data" "e \<le> start + 2147483648"
  shows "accept h (of_nat start) False False ts data mo ms gt = Some
     (h\<lparr>next_abs := Some (start + length data), stream_offset := stream_offset h + (start + length data - e),
        gap_started_ts_ns := None\<rparr>,
      default_outcome\<lparr>out_emitted :=
          [\<lparr>chunk_offset = stream_offset h, chunk_ts_ns = ts, chunk_data = drop (e - start) data\<rparr>],
        out_retransmit := True\<rparr>)"
proof -
  have e: "4294967296 + stream_offset h \<le> e" "e \<le> B" using half_invD(4) [OF assms(1,3)] by auto
  have start: "extend_seq (of_nat start) e = start" using e assms(2,6-8) by (intro extend_seq_recovers) auto
  have sat: "sat_add64 (stream_offset h) (length data - (e - start)) = stream_offset h + (start + length data - e)"
    "sat_add64 e (length data - (e - start)) = start + length data" "sat_add64 start (length data) = start + length data"
    using e assms(2,6,7) by (auto simp: sat_add64_def)
  have nf: "\<not> fin_consumed h" using half_invD(7) [OF assms(1)] assms(5) by auto
  have ne: "data \<noteq> []" "\<not> length data \<le> e - start" "e - start < length data" using assms(6,7) by auto
  show ?thesis
    using assms(3-6) nf start sat ne
    by (simp add: accept_def observe_def Let_def payload_seq_def cut_at_fin_def bslice_to_end slice_chk_def
        accept_payload_def emit_def consume_fin_if_ready_def recover_ooo_timeout_def default_outcome_def)
qed

text \<open>C28: a retransmission displaces the stream. Let a half expect position \<open>e\<close> with nothing buffered and no FIN
  pending, let a sender retransmit bytes it has sent before (\<open>old\<close>, ending at or before \<open>e\<close>) and then send the next
  \<open>new\<close> bytes at \<open>e\<close>. The retransmitted bytes are emitted a second time, as if they came at \<open>e\<close>, and as many of the
  new bytes are then taken for old: they are cut off and never emitted. The code only marks such a segment
  as a retransmission (\<open>overlap >= data.len()\<close>) and leaves \<open>start\<close> at 0, so it takes the path of new data.\<close>

theorem retransmission_displaces:
  assumes "half_inv B h" "B + 4294967296 + length old + length new \<le> u64_max" "next_abs h = Some e"
    and "out_of_order h = []" "pending_fin h = None" "old \<noteq> []" "length old < length new"
    and "start + length old \<le> e" "e \<le> start + 2147483648"
  shows "run_half mo ms gt h [Segment (of_nat start) False False t1 old, Segment (of_nat e) False False t2 new] = Some
     (h\<lparr>next_abs := Some (e + length new), stream_offset := stream_offset h + length new, gap_started_ts_ns := None\<rparr>,
      [\<lparr>chunk_offset = stream_offset h, chunk_ts_ns = t1, chunk_data = old\<rparr>,
       \<lparr>chunk_offset = stream_offset h + length old, chunk_ts_ns = t2, chunk_data = drop (length old) new\<rparr>], [])"
proof -
  let ?h1 = "h\<lparr>next_abs := Some (e + length old), stream_offset := stream_offset h + length old, gap_started_ts_ns := None\<rparr>"
  have B: "B + length old \<le> u64_max" and e: "e \<le> B" "4294967296 + stream_offset h \<le> e"
    using assms(2) half_invD(4) [OF assms(1,3)] by auto
  have nf: "\<not> fin_consumed h" using half_invD(7) [OF assms(1)] assms(5) by auto
  have inv: "half_inv (B + length old) ?h1"
    using assms(1,4,5) B e nf by (simp add: half_inv_def)
  have 1: "accept h (of_nat start) False False t1 old mo ms gt = Some (?h1,
      default_outcome\<lparr>out_emitted := [\<lparr>chunk_offset = stream_offset h, chunk_ts_ns = t1, chunk_data = old\<rparr>],
        out_retransmit := True\<rparr>)"
    by (rule accept_replayed [OF assms(1) _ assms(3-6,8,9)]) (use assms(2) in simp)
  have 2: "accept ?h1 (of_nat e) False False t2 new mo ms gt = Some
     (?h1\<lparr>next_abs := Some (e + length new), stream_offset := stream_offset ?h1 + (e + length new - (e + length old)),
        gap_started_ts_ns := None\<rparr>,
      default_outcome\<lparr>out_emitted :=
          [\<lparr>chunk_offset = stream_offset ?h1, chunk_ts_ns = t2, chunk_data = drop (e + length old - e) new\<rparr>],
        out_retransmit := True\<rparr>)"
    by (rule accept_trimmed [OF inv]) (use assms in auto)
  show ?thesis using 1 2 assms(7) by (simp add: default_outcome_def)
qed

text \<open>Three bytes sent, retransmitted, and followed by four more: the stream shows the first three twice and
  only the last of the four.\<close>

definition sent_half :: tcp_half where
  "sent_half = default_half\<lparr>next_abs := Some 4294967399, stream_offset := 3, initial_syn_seq := Some 99\<rparr>"

theorem retransmission_displaces_witness:
  "accept (default_half\<lparr>next_abs := Some 4294967396, initial_syn_seq := Some 99\<rparr>) 100 False False 1 [0, 1, 2] 64 4 10 =
     Some (sent_half, default_outcome\<lparr>out_emitted := [\<lparr>chunk_offset = 0, chunk_ts_ns = 1, chunk_data = [0, 1, 2]\<rparr>]\<rparr>) \<and>
   run_half 64 4 10 sent_half
     [Segment (of_nat 4294967396) False False 2 [0, 1, 2], Segment (of_nat 4294967399) False False 3 [3, 4, 5, 6]] = Some
     (sent_half\<lparr>next_abs := Some 4294967403, stream_offset := 7, gap_started_ts_ns := None\<rparr>,
      [\<lparr>chunk_offset = 3, chunk_ts_ns = 2, chunk_data = [0, 1, 2]\<rparr>, \<lparr>chunk_offset = 6, chunk_ts_ns = 3, chunk_data = [6]\<rparr>], [])"
proof -
  have "half_inv 8589934592 sent_half" by (simp add: half_inv_def sent_half_def default_half_def)
  from retransmission_displaces [OF this, of "[0, 1, 2]" "[3, 4, 5, 6]" 4294967399 4294967396 64 4 10 2 3]
  have "run_half 64 4 10 sent_half
     [Segment (of_nat 4294967396) False False 2 [0, 1, 2], Segment (of_nat 4294967399) False False 3 [3, 4, 5, 6]] = Some
     (sent_half\<lparr>next_abs := Some 4294967403, stream_offset := 7, gap_started_ts_ns := None\<rparr>,
      [\<lparr>chunk_offset = 3, chunk_ts_ns = 2, chunk_data = [0, 1, 2]\<rparr>, \<lparr>chunk_offset = 6, chunk_ts_ns = 3, chunk_data = [6]\<rparr>], [])"
    by (simp add: sent_half_def default_half_def)
  then show ?thesis by (simp add: sent_half_def reassembly_eval)
qed

end
