(* ===== verification/Bazalt_Model.thy ===== *)
theory Bazalt_Model
  imports Bazalt_Prelude "HOL-Library.List_Lexorder" "HOL-Library.Product_Lexorder"
begin

unbundle bit_operations_syntax

text \<open>
  The data model of \<open>src/src/model.rs\<close>: addresses, canonical flow keys and the per-process shard
  hash, packets, content views and the records that travel between the pipeline stages.

  A UUID is a \<open>128 word\<close>, a service name a \<open>string\<close>, a chrono timestamp the pair of whole seconds
  and nanoseconds it is built from. \<open>Ipv4Addr\<close> and \<open>Ipv6Addr\<close> are words; \<open>octets\<close> gives the
  big-endian arrays the sources compare and hash. The textual form of an address
  (\<open>to_string\<close>) is not modelled: a flow summary carries the address itself.
\<close>

subsection \<open>Services, protocols, directions\<close>

type_synonym uuid = "128 word"
type_synonym timestamp = "nat \<times> nat"

record service_config =
  svc_port :: u16
  svc_name :: string
  svc_http :: bool
  svc_urldecode_http_requests :: bool
  svc_merge_adjacent_packets :: bool
  svc_parse_websockets :: bool

datatype transport_protocol = Tcp | Udp

datatype direction = AToB | BToA

fun opposite :: "direction \<Rightarrow> direction" where
  "opposite AToB = BToA"
| "opposite BToA = AToB"

lemma opposite_opposite [simp]: "opposite (opposite d) = d"
  by (cases d) simp_all

lemma opposite_neq [simp]: "opposite d \<noteq> d" "d \<noteq> opposite d"
  by (cases d; simp)+

subsection \<open>Addresses and endpoints\<close>

datatype ip_addr = V4 u32 | V6 "128 word"

text \<open>\<open>be_octets n w\<close>: the last \<open>n\<close> bytes of \<open>w\<close>, most significant first.\<close>

definition be_octets :: "nat \<Rightarrow> 'a::len word \<Rightarrow> bytes" where
  "be_octets n w = map (\<lambda>i. ucast (drop_bit (8 * (n - 1 - i)) w)) [0..<n]"

lemma length_be_octets [simp]: "length (be_octets n w) = n"
  by (simp add: be_octets_def)

lemma be_octets_inj:
  fixes v w :: "'a::len word"
  assumes "be_octets n v = be_octets n w" and "LENGTH('a) \<le> 8 * n"
  shows "v = w"
proof (rule bit_word_eqI)
  fix j assume j: "j < LENGTH('a)"
  let ?i = "n - 1 - j div 8"
  have jn: "j div 8 < n" using j assms(2) by (simp add: less_mult_imp_div_less)
  have "(ucast (drop_bit (8 * (j div 8)) v) :: byte) = ucast (drop_bit (8 * (j div 8)) w)"
    using arg_cong [OF assms(1), of "\<lambda>xs. xs ! ?i"] jn by (simp add: be_octets_def)
  then have "bit (ucast (drop_bit (8 * (j div 8)) v) :: byte) (j mod 8)
      = bit (ucast (drop_bit (8 * (j div 8)) w) :: byte) (j mod 8)"
    by simp
  then show "bit v j = bit w j"
    using j by (simp add: bit_ucast_iff bit_drop_bit_eq)
qed

datatype endpoint = Endpoint (ep_ip: ip_addr) (ep_port: u16)

definition endpoint_sort_key :: "endpoint \<Rightarrow> nat \<times> bytes \<times> u16" where
  "endpoint_sort_key e =
     (case ep_ip e of
        V4 ip \<Rightarrow> (4, replicate 12 0 @ be_octets 4 ip, ep_port e)
      | V6 ip \<Rightarrow> (6, be_octets 16 ip, ep_port e))"

lemma endpoint_sort_key_inj: "endpoint_sort_key e = endpoint_sort_key f \<Longrightarrow> e = f"
  by (cases e; cases f)
    (auto simp: endpoint_sort_key_def split: ip_addr.splits dest!: be_octets_inj)

definition endpoint_le :: "endpoint \<Rightarrow> endpoint \<Rightarrow> bool" where
  "endpoint_le e f \<longleftrightarrow> endpoint_sort_key e \<le> endpoint_sort_key f"

instantiation endpoint :: linorder
begin

definition less_eq_endpoint :: "endpoint \<Rightarrow> endpoint \<Rightarrow> bool" where
  "less_eq_endpoint e f \<longleftrightarrow> endpoint_le e f"

definition less_endpoint :: "endpoint \<Rightarrow> endpoint \<Rightarrow> bool" where
  "less_endpoint e f \<longleftrightarrow> endpoint_sort_key e < endpoint_sort_key f"

instance
proof
  fix x y z :: endpoint
  show "(x < y) = (x \<le> y \<and> \<not> y \<le> x)"
    by (auto simp: less_eq_endpoint_def endpoint_le_def less_endpoint_def)
  show "x \<le> x"
    by (simp add: less_eq_endpoint_def endpoint_le_def)
  show "x \<le> y \<Longrightarrow> y \<le> z \<Longrightarrow> x \<le> z"
    by (auto simp: less_eq_endpoint_def endpoint_le_def)
  show "x \<le> y \<Longrightarrow> y \<le> x \<Longrightarrow> x = y"
    by (auto simp: less_eq_endpoint_def endpoint_le_def intro: endpoint_sort_key_inj)
  show "x \<le> y \<or> y \<le> x"
    by (auto simp: less_eq_endpoint_def endpoint_le_def)
qed

end

subsection \<open>Flow keys\<close>

record flow_key =
  key_a :: endpoint
  key_b :: endpoint
  key_protocol :: transport_protocol
  key_l2_domain :: u64

definition canonical_with_domain ::
  "ip_addr \<Rightarrow> u16 \<Rightarrow> ip_addr \<Rightarrow> u16 \<Rightarrow> transport_protocol \<Rightarrow> u64 \<Rightarrow> flow_key \<times> direction" where
  "canonical_with_domain src_ip src_port dst_ip dst_port protocol l2_domain =
     (let src = Endpoint src_ip src_port; dst = Endpoint dst_ip dst_port in
      if src \<le> dst
      then (\<lparr>key_a = src, key_b = dst, key_protocol = protocol, key_l2_domain = l2_domain\<rparr>, AToB)
      else (\<lparr>key_a = dst, key_b = src, key_protocol = protocol, key_l2_domain = l2_domain\<rparr>, BToA))"

definition canonical ::
  "ip_addr \<Rightarrow> u16 \<Rightarrow> ip_addr \<Rightarrow> u16 \<Rightarrow> transport_protocol \<Rightarrow> flow_key \<times> direction" where
  "canonical src_ip src_port dst_ip dst_port protocol =
     canonical_with_domain src_ip src_port dst_ip dst_port protocol 0"

text \<open>The keyed shard hash: SplitMix64 rounds folded over the key's words.\<close>

definition shard_mix :: "u64 \<Rightarrow> u64 \<Rightarrow> u64" where
  "shard_mix state word =
     (let z = word + state + 0x9e3779b97f4a7c15;
          z = (z XOR drop_bit 30 z) * 0xbf58476d1ce4e5b9;
          z = (z XOR drop_bit 27 z) * 0x94d049bb133111eb
      in z XOR drop_bit 31 z)"

definition mix_endpoint :: "u64 \<Rightarrow> endpoint \<Rightarrow> u64" where
  "mix_endpoint state ep =
     (let state = (case ep_ip ep of
          V4 ip \<Rightarrow> shard_mix state (ucast ip)
        | V6 ip \<Rightarrow> shard_mix (shard_mix state (ucast (drop_bit 64 ip))) (ucast ip))
      in shard_mix state (ucast (ep_port ep)))"

definition shard_hash64 :: "flow_key \<Rightarrow> u64 \<Rightarrow> u64" where
  "shard_hash64 key seed =
     (let protocol_word = (case key_protocol key of Tcp \<Rightarrow> 6 | Udp \<Rightarrow> 17);
          state = shard_mix seed protocol_word;
          state = (if key_l2_domain key \<noteq> 0 then shard_mix state (key_l2_domain key) else state);
          state = mix_endpoint state (key_a key)
      in mix_endpoint state (key_b key))"

subsection \<open>Packets\<close>

record tcp_flags =
  flag_fin :: bool
  flag_syn :: bool
  flag_rst :: bool
  flag_psh :: bool
  flag_ack :: bool

definition default_flags :: tcp_flags where
  "default_flags = \<lparr>flag_fin = False, flag_syn = False, flag_rst = False, flag_psh = False,
                    flag_ack = False\<rparr>"

record parsed_packet =
  pkt_ts_ns :: nat
  pkt_key :: flow_key
  pkt_direction :: direction
  pkt_seq :: "u32 option"
  pkt_ack :: "u32 option"
  pkt_flags :: tcp_flags
  pkt_payload :: bytes
  pkt_wire_len :: nat

definition source_endpoint :: "parsed_packet \<Rightarrow> endpoint" where
  "source_endpoint p = (case pkt_direction p of AToB \<Rightarrow> key_a (pkt_key p) | BToA \<Rightarrow> key_b (pkt_key p))"

definition destination_endpoint :: "parsed_packet \<Rightarrow> endpoint" where
  "destination_endpoint p =
     (case pkt_direction p of AToB \<Rightarrow> key_b (pkt_key p) | BToA \<Rightarrow> key_a (pkt_key p))"

subsection \<open>Content\<close>

datatype content_view =
    TcpRaw
  | HttpRequestHeaders
  | HttpRequestBody
  | HttpRequestDecodedBody
  | HttpResponseHeaders
  | HttpResponseBody
  | HttpResponseDecodedBody

record stream_chunk =
  sc_flow_id :: uuid
  sc_ts_ns :: nat
  sc_direction :: direction
  sc_key :: flow_key
  sc_offset :: nat
  sc_data :: bytes
  sc_truncated :: bool

record content_record =
  cr_id :: uuid
  cr_flow_id :: uuid
  cr_ts_ns :: nat
  cr_service :: "string option"
  cr_direction :: direction
  cr_view :: content_view
  cr_stream_offset :: nat
  cr_data :: bytes

type_synonym path = "string list"

record content_index_record =
  ci_content_id :: uuid
  ci_flow_id :: uuid
  ci_ts_ns :: nat
  ci_service :: "string option"
  ci_direction :: direction
  ci_view :: content_view
  ci_stream_offset :: nat
  ci_payload_len :: nat
  ci_segment_path :: path
  ci_segment_offset :: nat

record flow_summary =
  fs_flow_id :: uuid
  fs_started_at :: timestamp
  fs_ended_at :: timestamp
  fs_src_ip :: ip_addr
  fs_dst_ip :: ip_addr
  fs_src_port :: u16
  fs_dst_port :: u16
  fs_protocol :: transport_protocol
  fs_service :: "string option"
  fs_packets_c2s :: nat
  fs_packets_s2c :: nat
  fs_bytes_c2s :: nat
  fs_bytes_s2c :: nat
  fs_truncated :: bool

datatype flow_output = Chunk stream_chunk | Snapshot flow_summary | Closed flow_summary

definition ns_to_datetime :: "nat \<Rightarrow> timestamp" where
  "ns_to_datetime ns = (ns div 1000000000, ns mod 1000000000)"

text \<open>The queue gauges of \<open>Metrics\<close>, with the wrap-around of the atomic counter.\<close>

definition queue_enqueued :: "u64 \<Rightarrow> u64 \<Rightarrow> u64 \<times> u64" where
  "queue_enqueued depth high =
     (let val = (if depth = - 1 then - 1 else depth + 1) in (depth + 1, max high val))"

definition queue_dequeued :: "u64 \<Rightarrow> u64" where
  "queue_dequeued depth = (if depth = 0 then 0 else depth - 1)"

subsection \<open>Facts about flow keys\<close>

text \<open>Whichever endpoint sends, both directions of a conversation have one key.\<close>

lemma canonical_fst_swap:
  "fst (canonical_with_domain s sp d dp p l2) = fst (canonical_with_domain d dp s sp p l2)"
  by (auto simp: canonical_with_domain_def Let_def)

lemma canonical_snd_swap:
  assumes "(s, sp) \<noteq> (d, dp)"
  shows "snd (canonical_with_domain s sp d dp p l2)
    = opposite (snd (canonical_with_domain d dp s sp p l2))"
  using assms by (auto simp: canonical_with_domain_def Let_def)

text \<open>Source and destination are recovered from key and direction.\<close>

lemma canonical_endpoints:
  assumes "canonical_with_domain s sp d dp p l2 = (k, dir)"
    and "pkt_key pkt = k" "pkt_direction pkt = dir"
  shows "source_endpoint pkt = Endpoint s sp" "destination_endpoint pkt = Endpoint d dp"
  using assms(1) unfolding source_endpoint_def destination_endpoint_def assms(2,3)
  by (auto simp: canonical_with_domain_def Let_def split: if_splits)

lemma canonical_ordered:
  "canonical_with_domain s sp d dp p l2 = (k, dir) \<Longrightarrow> key_a k \<le> key_b k"
  by (auto simp: canonical_with_domain_def Let_def split: if_splits)

lemma canonical_fields:
  "canonical_with_domain s sp d dp p l2 = (k, dir) \<Longrightarrow> key_protocol k = p \<and> key_l2_domain k = l2"
  by (auto simp: canonical_with_domain_def Let_def split: if_splits)

end
