(* ===== verification/Fragment.thy ===== *)
theory Fragment
  imports Ordered_Map Bazalt_Model
begin

text \<open>
  The IP fragment cache of \<open>src/src/capture/fragment.rs\<close>. A cache shard keeps one state per datagram
  key, with the pieces in a \<open>BTreeMap\<close> by offset, a byte account that charges a fixed overhead per
  datagram and per piece, and an eviction loop that keeps the account and the number of datagrams under
  their limits. The hash map of states is an association list with distinct keys; its order stands for
  the iteration order of \<open>AHashMap\<close>. The clock reading of a call is an argument (\<open>now\<close>, in
  nanoseconds), and \<open>duration_since\<close> is the truncating difference, as in the standard library.
\<close>

subsection \<open>Data\<close>

abbreviation fragment_shards :: nat where "fragment_shards \<equiv> 64"
abbreviation fragment_datagram_overhead :: nat where "fragment_datagram_overhead \<equiv> 256"
abbreviation fragment_piece_overhead :: nat where "fragment_piece_overhead \<equiv> 64"

record fragment_key =
  fk_version :: byte
  fk_l2_domain :: u64
  fk_src :: ip_addr
  fk_dst :: ip_addr
  fk_id :: u32
  fk_next_header :: byte

record fragment_piece =
  piece_data :: bytes
  piece_more :: bool

record fragment_state =
  frag_pieces :: "(nat, fragment_piece) omap"
  frag_bytes :: nat
  frag_total_len :: "nat option"
  frag_last_seen :: nat
  frag_wire_bytes :: nat

definition new_fragment_state :: "nat \<Rightarrow> fragment_state" where
  "new_fragment_state now = \<lparr>frag_pieces = [], frag_bytes = fragment_datagram_overhead,
     frag_total_len = None, frag_last_seen = now, frag_wire_bytes = 0\<rparr>"

datatype fragment_insert = FragPending | FragComplete bytes nat | DroppedOverlap | DroppedInvalid

record fragment_maintenance =
  fm_expired :: nat
  fm_evicted :: nat

record fragment_cache =
  fc_states :: "(fragment_key \<times> fragment_state) list"
  fc_bytes :: nat
  fc_max_bytes :: nat
  fc_max_datagrams :: nat
  fc_timeout :: nat
  fc_last_cleanup :: nat

definition new_fragment_cache :: "nat \<Rightarrow> nat \<Rightarrow> nat \<Rightarrow> nat \<Rightarrow> fragment_cache" where
  "new_fragment_cache max_bytes max_datagrams timeout now =
     \<lparr>fc_states = [], fc_bytes = 0, fc_max_bytes = max max_bytes (64 * 1024),
      fc_max_datagrams = max max_datagrams 1, fc_timeout = timeout, fc_last_cleanup = now\<rparr>"

subsection \<open>Removal, expiry, eviction\<close>

definition remove_key :: "fragment_key \<Rightarrow> fragment_cache \<Rightarrow> fragment_cache" where
  "remove_key key c =
     (case map_of (fc_states c) key of None \<Rightarrow> c
      | Some st \<Rightarrow> c\<lparr>fc_states := AList.delete key (fc_states c),
                     fc_bytes := fc_bytes c - frag_bytes st\<rparr>)"

definition maintenance :: "nat \<Rightarrow> fragment_cache \<Rightarrow> fragment_cache \<times> fragment_maintenance" where
  "maintenance now c =
     (if now - fc_last_cleanup c < 1000000000 then (c, \<lparr>fm_expired = 0, fm_evicted = 0\<rparr>)
      else
        let expired = map fst (filter (\<lambda>(k, v). now - frag_last_seen v \<ge> fc_timeout c) (fc_states c)) in
        (fold remove_key expired (c\<lparr>fc_last_cleanup := now\<rparr>),
         \<lparr>fm_expired = length expired, fm_evicted = 0\<rparr>))"

text \<open>\<open>min_by_key\<close> returns the first of several minimal elements.\<close>

fun oldest :: "(fragment_key \<times> fragment_state) list \<Rightarrow> fragment_key option" where
  "oldest [] = None"
| "oldest ((k, v) # m) =
     (case oldest m of None \<Rightarrow> Some k
      | Some k' \<Rightarrow> (case map_of m k' of None \<Rightarrow> Some k
                    | Some v' \<Rightarrow> if frag_last_seen v \<le> frag_last_seen v' then Some k else Some k'))"

definition evict_oldest :: "fragment_cache \<Rightarrow> fragment_cache \<times> bool" where
  "evict_oldest c = (case oldest (fc_states c) of None \<Rightarrow> (c, False) | Some key \<Rightarrow> (remove_key key c, True))"

lemma oldest_in: "oldest m = Some k \<Longrightarrow> k \<in> fst ` set m"
  by (induction m arbitrary: k) (auto split: option.splits if_splits)

lemma oldest_None [simp]: "oldest m = None \<longleftrightarrow> m = []"
  by (cases m) (auto split: option.splits)

lemma remove_key_length:
  assumes "k \<in> fst ` set (fc_states c)"
  shows "length (fc_states (remove_key k c)) < length (fc_states c)"
proof -
  obtain v where "map_of (fc_states c) k = Some v"
    using assms by (metis domIff dom_map_of_conv_image_fst not_None_eq)
  moreover have "length (AList.delete k (fc_states c)) < length (fc_states c)"
    unfolding AList.delete_eq using assms by (auto intro!: length_filter_less)
  ultimately show ?thesis by (simp add: remove_key_def)
qed

lemma evict_length: "evict_oldest c = (c', True) \<Longrightarrow> length (fc_states c') < length (fc_states c)"
  by (auto simp: evict_oldest_def intro: remove_key_length oldest_in split: option.splits)

function evict_loop :: "fragment_cache \<Rightarrow> nat \<Rightarrow> fragment_cache \<times> nat" where
  "evict_loop c evicted =
     (if fc_bytes c > fc_max_bytes c \<or> length (fc_states c) > fc_max_datagrams c then
        case evict_oldest c of
          (c', removed) \<Rightarrow> if \<not> removed then (c', evicted) else evict_loop c' (sat_add64 evicted 1)
      else (c, evicted))"
  by pat_completeness auto
termination
  by (relation "measure (\<lambda>(c, _). length (fc_states c))") (auto dest: evict_length[OF sym])

declare evict_loop.simps [simp del]

subsection \<open>One fragment\<close>

datatype reject = RejectInvalid | RejectOverlap

definition update_total :: "fragment_state \<Rightarrow> bool \<Rightarrow> nat \<Rightarrow> fragment_state \<times> reject option" where
  "update_total st mf fin_end =
     (if mf then (st, None)
      else
        let (st, rej) = (case frag_total_len st of
              Some existing \<Rightarrow> if existing \<noteq> fin_end then (st, Some RejectInvalid)
                               else (st\<lparr>frag_total_len := Some fin_end\<rparr>, None)
            | None \<Rightarrow> (st\<lparr>frag_total_len := Some fin_end\<rparr>, None)) in
        if rej = None \<and> (\<exists>(start, piece) \<in> set (frag_pieces st).
             sat_add64 start (length (piece_data piece)) > fin_end)
        then (st, Some RejectInvalid) else (st, rej))"

definition check_total :: "fragment_state \<Rightarrow> bool \<Rightarrow> nat \<Rightarrow> reject option" where
  "check_total st mf fin_end =
     (case frag_total_len st of None \<Rightarrow> None
      | Some tot \<Rightarrow> if fin_end > tot \<or> mf \<and> fin_end \<ge> tot then Some RejectInvalid else None)"

text \<open>The verdict on the place of a fragment: \<open>(reject, duplicate)\<close>.\<close>

definition check_place :: "fragment_state \<Rightarrow> nat \<Rightarrow> bool \<Rightarrow> bytes \<Rightarrow> nat \<Rightarrow> reject option \<times> bool" where
  "check_place st offset mf payload fin_end =
     (case om_get offset (frag_pieces st) of
        Some existing \<Rightarrow>
          if piece_more existing = mf \<and> piece_data existing = payload then (None, True)
          else (Some RejectOverlap, False)
      | None \<Rightarrow>
          if (case om_last_less offset (frag_pieces st) of None \<Rightarrow> False
              | Some (prev_start, prev) \<Rightarrow> sat_add64 prev_start (length (piece_data prev)) > offset)
          then (Some RejectOverlap, False)
          else if (case om_first_ge offset (frag_pieces st) of None \<Rightarrow> False
              | Some (next_start, _) \<Rightarrow> next_start < fin_end)
          then (Some RejectOverlap, False)
          else (None, False))"

definition add_piece :: "fragment_state \<Rightarrow> nat \<Rightarrow> bool \<Rightarrow> bytes \<Rightarrow> nat \<Rightarrow> fragment_state" where
  "add_piece st offset mf payload wire_len =
     st\<lparr>frag_bytes := sat_add64 (frag_bytes st) (sat_add64 (length payload) fragment_piece_overhead),
        frag_wire_bytes := sat_add64 (frag_wire_bytes st) wire_len,
        frag_pieces := om_insert offset \<lparr>piece_data = payload, piece_more = mf\<rparr> (frag_pieces st)\<rparr>"

text \<open>The scope in which the state is borrowed: the new state, the reason to reject, whether the
  fragment is a duplicate, and the bytes it adds.\<close>

definition place_fragment ::
  "fragment_state \<Rightarrow> nat \<Rightarrow> nat \<Rightarrow> bool \<Rightarrow> bytes \<Rightarrow> nat \<Rightarrow> nat \<Rightarrow>
   fragment_state \<times> reject option \<times> bool \<times> nat" where
  "place_fragment st now offset mf payload fin_end wire_len =
     (let st = st\<lparr>frag_last_seen := now\<rparr>;
          (st, rej) = update_total st mf fin_end;
          rej = (if rej = None then check_total st mf fin_end else rej);
          (rej, duplicate) = (if rej = None then check_place st offset mf payload fin_end
                              else (rej, False)) in
      if rej = None \<and> \<not> duplicate
      then (add_piece st offset mf payload wire_len, None, False,
            sat_add64 (length payload) fragment_piece_overhead)
      else (st, rej, duplicate, 0))"

text \<open>The pieces of a state are contiguous from \<open>cursor\<close>; the result is the cursor behind them.\<close>

fun contiguous :: "nat \<Rightarrow> (nat, fragment_piece) omap \<Rightarrow> nat option" where
  "contiguous cursor [] = Some cursor"
| "contiguous cursor ((start, piece) # ps) =
     (if start \<noteq> cursor then None else contiguous (sat_add64 cursor (length (piece_data piece))) ps)"

definition try_complete :: "fragment_key \<Rightarrow> fragment_cache \<Rightarrow> fragment_cache \<times> fragment_insert" where
  "try_complete key c =
     (case map_of (fc_states c) key of None \<Rightarrow> (c, FragPending) | Some state \<Rightarrow>
      case frag_total_len state of None \<Rightarrow> (c, FragPending) | Some tot \<Rightarrow>
      case contiguous 0 (frag_pieces state) of None \<Rightarrow> (c, FragPending) | Some cursor \<Rightarrow>
        if cursor \<noteq> tot then (c, FragPending)
        else (c\<lparr>fc_states := AList.delete key (fc_states c), fc_bytes := fc_bytes c - frag_bytes state\<rparr>,
              FragComplete (concat (map (piece_data \<circ> snd) (frag_pieces state))) (frag_wire_bytes state)))"

definition ensure_state :: "fragment_key \<Rightarrow> nat \<Rightarrow> fragment_cache \<Rightarrow> fragment_cache" where
  "ensure_state key now c =
     (if map_of (fc_states c) key \<noteq> None then c
      else c\<lparr>fc_states := AList.update key (new_fragment_state now) (fc_states c),
             fc_bytes := sat_add64 (fc_bytes c) fragment_datagram_overhead\<rparr>)"

text \<open>What happens once the state is no longer borrowed: drop the datagram, or complete it, or evict.\<close>

definition finish_insert ::
  "fragment_key \<Rightarrow> fragment_cache \<Rightarrow> fragment_maintenance \<Rightarrow> reject option \<Rightarrow> bool \<Rightarrow> nat \<Rightarrow>
   fragment_cache \<times> fragment_insert \<times> fragment_maintenance" where
  "finish_insert key c m rej duplicate added =
     (case rej of
        Some RejectInvalid \<Rightarrow> (remove_key key c, DroppedInvalid, m)
      | Some RejectOverlap \<Rightarrow> (remove_key key c, DroppedOverlap, m)
      | None \<Rightarrow>
          if duplicate then (let (c, r) = try_complete key c in (c, r, m))
          else
            let c = c\<lparr>fc_bytes := sat_add64 (fc_bytes c) added\<rparr>;
                (c, completed) = try_complete key c in
            if completed \<noteq> FragPending then (c, completed, m)
            else let (c, evicted) = evict_loop c (fm_evicted m) in (c, FragPending, m\<lparr>fm_evicted := evicted\<rparr>))"

definition fragment_cache_insert ::
  "fragment_cache \<Rightarrow> nat \<Rightarrow> fragment_key \<Rightarrow> nat \<Rightarrow> bool \<Rightarrow> bytes \<Rightarrow> nat \<Rightarrow>
   (fragment_cache \<times> fragment_insert \<times> fragment_maintenance) option" where
  "fragment_cache_insert c now key offset mf payload wire_len =
     (let (c, m) = maintenance now c; fin_end = offset + length payload in
      if fin_end > u64_max then Some (c, DroppedInvalid, m)
      else if fin_end > 65535 \<or> mf \<and> (payload = [] \<or> length payload mod 8 \<noteq> 0)
      then Some (remove_key key c, DroppedInvalid, m)
      else do {
        let c = ensure_state key now c;
        state \<leftarrow> map_of (fc_states c) key;
        let (state, rej, duplicate, added_len) = place_fragment state now offset mf payload fin_end wire_len;
        let c = c\<lparr>fc_states := AList.update key state (fc_states c)\<rparr>;
        Some (finish_insert key c m rej duplicate added_len)
      })"

subsection \<open>The shared cache\<close>

text \<open>Sixty-four shards behind one mutex each; a call works on the shard its keyed hash selects, so a
  sequence of calls is a sequence of steps on the list of shards. The randomized hasher is the
  parameter \<open>hash\<close>.\<close>

definition new_shared_cache :: "nat \<Rightarrow> nat \<Rightarrow> nat \<Rightarrow> nat \<Rightarrow> fragment_cache list" where
  "new_shared_cache max_bytes max_datagrams timeout now =
     (let per_bytes = max (max_bytes div fragment_shards) (64 * 1024);
          per_datagrams = max (max_datagrams div fragment_shards) 1 in
      replicate fragment_shards (new_fragment_cache per_bytes per_datagrams timeout now))"

definition shared_insert ::
  "(fragment_key \<Rightarrow> u64) \<Rightarrow> fragment_cache list \<Rightarrow> nat \<Rightarrow> fragment_key \<Rightarrow> nat \<Rightarrow> bool \<Rightarrow> bytes \<Rightarrow> nat \<Rightarrow>
   (fragment_cache list \<times> fragment_insert \<times> fragment_maintenance) option" where
  "shared_insert hash shards now key offset mf payload wire_len =
     (let idx = unat (hash key) mod fragment_shards in
      if idx < length shards then do {
        (c, r, m) \<leftarrow> fragment_cache_insert (shards ! idx) now key offset mf payload wire_len;
        Some (shards[idx := c], r, m)
      } else None)"

end
