(* ===== verification/Fragment_Props.thy ===== *)
theory Fragment_Props
  imports Fragment
begin

text \<open>
  Correctness of the fragment cache: exact byte accounting, capacity bounds, pieces that never overlap,
  a completed datagram that is byte for byte the original, and completion of every well-formed
  datagram whatever the arrival order of its fragments.
\<close>

subsection \<open>Invariants\<close>

definition piece_len :: "fragment_piece \<Rightarrow> nat" where
  "piece_len p = length (piece_data p)"

definition pieces_bytes :: "(nat, fragment_piece) omap \<Rightarrow> nat" where
  "pieces_bytes ps = (\<Sum>e\<leftarrow>ps. piece_len (snd e) + fragment_piece_overhead)"

definition pieces_ok :: "(nat, fragment_piece) omap \<Rightarrow> bool" where
  "pieces_ok ps \<longleftrightarrow> om_invar ps \<and> (\<forall>(k, p) \<in> set ps. k + piece_len p \<le> 65535) \<and>
     (\<forall>(k, p) \<in> set ps. \<forall>(k', p') \<in> set ps. k < k' \<longrightarrow> k + piece_len p \<le> k')"

definition state_ok :: "fragment_state \<Rightarrow> bool" where
  "state_ok st \<longleftrightarrow> pieces_ok (frag_pieces st) \<and>
     frag_bytes st = fragment_datagram_overhead + pieces_bytes (frag_pieces st) \<and>
     (\<forall>t. frag_total_len st = Some t \<longrightarrow> (\<forall>(k, p) \<in> set (frag_pieces st). k + piece_len p \<le> t))"

definition states_bytes :: "(fragment_key \<times> fragment_state) list \<Rightarrow> nat" where
  "states_bytes m = (\<Sum>e\<leftarrow>m. frag_bytes (snd e))"

definition cache_ok :: "fragment_cache \<Rightarrow> bool" where
  "cache_ok c \<longleftrightarrow> distinct (map fst (fc_states c)) \<and> (\<forall>e \<in> set (fc_states c). state_ok (snd e)) \<and>
     fc_bytes c = states_bytes (fc_states c)"

definition cache_bounded :: "fragment_cache \<Rightarrow> bool" where
  "cache_bounded c \<longleftrightarrow> fc_bytes c \<le> fc_max_bytes c \<and> length (fc_states c) \<le> fc_max_datagrams c"

definition same_limits :: "fragment_cache \<Rightarrow> fragment_cache \<Rightarrow> bool" where
  "same_limits c c' \<longleftrightarrow> fc_max_bytes c' = fc_max_bytes c \<and> fc_max_datagrams c' = fc_max_datagrams c \<and>
     fc_timeout c' = fc_timeout c"

lemma same_limits_trans: "same_limits a b \<Longrightarrow> same_limits b c \<Longrightarrow> same_limits a c"
  by (simp add: same_limits_def)

subsection \<open>Sums over the state table\<close>

lemma states_bytes_simps [simp]:
  "states_bytes [] = 0" "states_bytes (e # m) = frag_bytes (snd e) + states_bytes m"
  by (simp_all add: states_bytes_def)

lemma delete_fresh: "k \<notin> fst ` set m \<Longrightarrow> AList.delete k m = m"
  by (induction m) auto

lemma states_bytes_delete:
  "distinct (map fst m) \<Longrightarrow> map_of m k = Some st \<Longrightarrow>
   states_bytes (AList.delete k m) + frag_bytes st = states_bytes m \<and>
   length (AList.delete k m) + 1 = length m"
proof (induction m)
  case (Cons e m)
  then show ?case by (cases "fst e = k") (auto simp: delete_fresh split: if_splits)
qed simp

lemma states_bytes_update:
  "map_of m k = Some st \<Longrightarrow>
   states_bytes (AList.update k st' m) + frag_bytes st = states_bytes m + frag_bytes st' \<and>
   length (AList.update k st' m) = length m"
proof (induction m)
  case (Cons e m)
  then show ?case by (cases e; cases "fst e = k") auto
qed simp

lemma states_bytes_update_new:
  "map_of m k = None \<Longrightarrow> states_bytes (AList.update k st' m) = states_bytes m + frag_bytes st' \<and>
   length (AList.update k st' m) = length m + 1"
proof (induction m)
  case (Cons e m)
  then show ?case by (cases e; cases "fst e = k") auto
qed simp

lemma set_update_sub: "set (AList.update k v m) \<subseteq> insert (k, v) (set m)"
  by (induction m) auto

lemma set_delete_sub: "set (AList.delete k m) \<subseteq> set m"
  by (auto simp: AList.delete_eq)

subsection \<open>Removal, expiry and eviction\<close>

lemma remove_key_keeps:
  assumes "cache_ok c"
  shows "cache_ok (remove_key k c)" "same_limits c (remove_key k c)"
    "fc_bytes (remove_key k c) \<le> fc_bytes c" "length (fc_states (remove_key k c)) \<le> length (fc_states c)"
proof -
  have "cache_ok (remove_key k c) \<and> same_limits c (remove_key k c) \<and> fc_bytes (remove_key k c) \<le> fc_bytes c \<and>
      length (fc_states (remove_key k c)) \<le> length (fc_states c)"
  proof (cases "map_of (fc_states c) k")
    case None
    then show ?thesis using assms by (simp add: remove_key_def same_limits_def)
  next
    case (Some st)
    then have "states_bytes (AList.delete k (fc_states c)) + frag_bytes st = states_bytes (fc_states c)"
      "length (AList.delete k (fc_states c)) + 1 = length (fc_states c)"
      using states_bytes_delete assms by (auto simp: cache_ok_def)
    then show ?thesis
      using Some assms set_delete_sub [of k "fc_states c"]
      by (auto simp: remove_key_def cache_ok_def same_limits_def AList.distinct_delete)
  qed
  then show "cache_ok (remove_key k c)" "same_limits c (remove_key k c)"
    "fc_bytes (remove_key k c) \<le> fc_bytes c" "length (fc_states (remove_key k c)) \<le> length (fc_states c)"
    by auto
qed

lemma fold_remove_keeps:
  assumes "cache_ok c"
  shows "cache_ok (fold remove_key ks c) \<and> same_limits c (fold remove_key ks c) \<and>
    fc_bytes (fold remove_key ks c) \<le> fc_bytes c \<and>
    length (fc_states (fold remove_key ks c)) \<le> length (fc_states c)"
  using assms
proof (induction ks arbitrary: c)
  case Nil
  then show ?case by (simp add: same_limits_def)
next
  case (Cons k ks)
  note r = remove_key_keeps [OF Cons.prems, of k]
  show ?case using Cons.IH [OF r(1)] r same_limits_trans by auto
qed

lemma maintenance_keeps:
  assumes "cache_ok c" "maintenance now c = (c', m)"
  shows "cache_ok c'" "same_limits c c'" "cache_bounded c \<Longrightarrow> cache_bounded c'"
proof -
  have ok: "cache_ok (c\<lparr>fc_last_cleanup := now\<rparr>)" using assms(1) by (simp add: cache_ok_def)
  show "cache_ok c'" "same_limits c c'" "cache_bounded c \<Longrightarrow> cache_bounded c'"
    using assms(2) fold_remove_keeps [OF ok] assms(1)
    by (auto simp: maintenance_def Let_def same_limits_def cache_bounded_def split: if_splits)
      (metis le_trans fragment_cache.select_convs fragment_cache.simps)+
qed

lemma evict_loop_bounds:
  assumes "cache_ok c" "evict_loop c n = (c', n')"
  shows "cache_ok c' \<and> same_limits c c' \<and> cache_bounded c'"
  using assms
proof (induction "length (fc_states c)" arbitrary: c n rule: less_induct)
  case less
  show ?case
  proof (cases "fc_bytes c > fc_max_bytes c \<or> length (fc_states c) > fc_max_datagrams c")
    case False
    then show ?thesis using less.prems by (subst (asm) evict_loop.simps) (auto simp: cache_bounded_def same_limits_def)
  next
    case True
    show ?thesis
    proof (cases "oldest (fc_states c)")
      case None
      then show ?thesis using True less.prems by (simp add: cache_ok_def)
    next
      case (Some k)
      then have ev: "evict_oldest c = (remove_key k c, True)" by (simp add: evict_oldest_def)
      then have "evict_loop (remove_key k c) (sat_add64 n 1) = (c', n')"
        using True less.prems(2) by (subst (asm) evict_loop.simps) simp
      then show ?thesis
        using less.hyps [OF evict_length [OF ev]] remove_key_keeps [OF less.prems(1), of k] same_limits_trans by blast
    qed
  qed
qed

subsection \<open>Placing one fragment\<close>

lemma pieces_ok_tail: "pieces_ok (e # ps) \<Longrightarrow> pieces_ok ps"
  by (auto simp: pieces_ok_def)

lemma pieces_len_bound:
  "pieces_ok ps \<Longrightarrow> (\<And>k p. (k, p) \<in> set ps \<Longrightarrow> a \<le> k) \<Longrightarrow> a \<le> 65535 \<Longrightarrow>
   a + (\<Sum>e\<leftarrow>ps. piece_len (snd e)) \<le> 65535"
proof (induction ps arbitrary: a)
  case (Cons e ps)
  obtain k p where e: "e = (k, p)" by force
  have "k + piece_len p \<le> k'" if "(k', p') \<in> set ps" for k' p'
    using Cons.prems(1) that unfolding pieces_ok_def e by fastforce
  moreover have "k + piece_len p \<le> 65535" using Cons.prems(1) by (auto simp: pieces_ok_def e)
  ultimately have "k + piece_len p + (\<Sum>e\<leftarrow>ps. piece_len (snd e)) \<le> 65535"
    using Cons.IH [of "k + piece_len p"] pieces_ok_tail [OF Cons.prems(1)] by blast
  then show ?case using Cons.prems(2) [of k p] by (simp add: e)
qed simp

lemma pieces_bytes_eq: "pieces_bytes ps = (\<Sum>e\<leftarrow>ps. piece_len (snd e)) + 64 * length ps"
  by (induction ps) (simp_all add: pieces_bytes_def)

lemma pieces_bytes_bound: "pieces_ok ps \<Longrightarrow> pieces_bytes ps \<le> 4259839"
proof -
  assume ok: "pieces_ok ps"
  have "distinct (map fst ps)"
    using ok by (auto simp: pieces_ok_def om_invar_def strict_sorted_iff)
  moreover have "set (map fst ps) \<subseteq> {..65535}" using ok by (fastforce simp: pieces_ok_def)
  ultimately have "length ps \<le> 65536"
    using card_mono [of "{..65535}" "set (map fst ps)"] distinct_card [of "map fst ps"] by simp
  then show ?thesis using pieces_len_bound [OF ok, of 0] by (simp add: pieces_bytes_eq)
qed

lemma piece_end_exact: "pieces_ok ps \<Longrightarrow> (k, p) \<in> set ps \<Longrightarrow> sat_add64 k (length (piece_data p)) = k + piece_len p"
  by (fastforce simp: pieces_ok_def piece_len_def sat_add64_def)

lemma pieces_bytes_insert:
  "om_invar ps \<Longrightarrow> om_get k ps = None \<Longrightarrow>
   pieces_bytes (om_insert k p ps) = pieces_bytes ps + piece_len p + fragment_piece_overhead"
  by (induction ps) (auto simp: pieces_bytes_def om_get_def split: if_splits)

text \<open>A fragment whose place is free overlaps no piece.\<close>

lemma check_place_free:
  assumes ok: "pieces_ok (frag_pieces st)" and free: "check_place st offset mf payload (offset + length payload) = (None, False)"
    and mem: "(k, p) \<in> set (frag_pieces st)"
  shows "k \<noteq> offset" "k < offset \<Longrightarrow> k + piece_len p \<le> offset" "offset < k \<Longrightarrow> offset + length payload \<le> k"
proof -
  let ?ps = "frag_pieces st"
  have inv: "om_invar ?ps" using ok by (simp add: pieces_ok_def)
  have none: "om_get offset ?ps = None" using free by (auto simp: check_place_def split: option.splits if_splits)
  show "k \<noteq> offset" using none om.get_iff [OF inv, of offset] mem by auto
  show "k + piece_len p \<le> offset" if lt: "k < offset"
  proof -
    obtain k1 p1 where l: "om_last_less offset ?ps = Some (k1, p1)"
      using om.last_less_None [OF inv, of offset] mem lt by (cases "om_last_less offset ?ps") force+
    have k1: "(k1, p1) \<in> set ?ps" "k1 < offset" "k \<le> k1" using om.last_less_Some [OF inv l] mem lt by auto
    have e1: "k1 + piece_len p1 \<le> offset"
      using free none l piece_end_exact [OF ok k1(1)] by (auto simp: check_place_def split: if_splits)
    show ?thesis
    proof (cases "k = k1")
      case True
      then show ?thesis using om_invar_functional [OF inv mem] k1(1) e1 by auto
    next
      case False
      then show ?thesis using ok mem k1 unfolding pieces_ok_def by fastforce
    qed
  qed
  show "offset + length payload \<le> k" if lt: "offset < k"
  proof -
    obtain k1 p1 where l: "om_first_ge offset ?ps = Some (k1, p1)"
      using om.first_ge_None [OF inv, of offset] mem lt by (cases "om_first_ge offset ?ps") force+
    have "k1 \<le> k" using om.first_ge_Some [OF inv l] mem lt by auto
    moreover have "\<not> k1 < offset + length payload"
      using free none l by (auto simp: check_place_def split: if_splits)
    ultimately show ?thesis by simp
  qed
qed

lemma pieces_ok_insert:
  assumes ok: "pieces_ok (frag_pieces st)"
    and free: "check_place st offset mf payload (offset + length payload) = (None, False)"
    and "offset + length payload \<le> 65535"
  shows "pieces_ok (om_insert offset \<lparr>piece_data = payload, piece_more = mf\<rparr> (frag_pieces st))"
    "set (om_insert offset \<lparr>piece_data = payload, piece_more = mf\<rparr> (frag_pieces st)) =
     insert (offset, \<lparr>piece_data = payload, piece_more = mf\<rparr>) (set (frag_pieces st))"
    "om_get offset (frag_pieces st) = None"
proof -
  have inv: "om_invar (frag_pieces st)" using ok by (simp add: pieces_ok_def)
  show none: "om_get offset (frag_pieces st) = None"
    using free by (auto simp: check_place_def split: option.splits if_splits)
  show set: "set (om_insert offset \<lparr>piece_data = payload, piece_more = mf\<rparr> (frag_pieces st)) =
     insert (offset, \<lparr>piece_data = payload, piece_more = mf\<rparr>) (set (frag_pieces st))"
    using check_place_free(1) [OF ok free, of offset] by (auto simp: set_om_insert [OF inv])
  let ?new = "(offset, \<lparr>piece_data = payload, piece_more = mf\<rparr>)" and ?S = "set (frag_pieces st)"
  have old: "k + piece_len p \<le> k'" if "(k, p) \<in> ?S" "(k', p') \<in> ?S" "k < k'" for k p k' p'
    using ok that unfolding pieces_ok_def by blast
  have pair: "k + piece_len p \<le> k'" if "(k, p) \<in> insert ?new ?S" "(k', p') \<in> insert ?new ?S" "k < k'" for k p k' p'
    using that old [of k p k' p'] check_place_free(2) [OF ok free, of k p] check_place_free(3) [OF ok free, of k' p']
    by (auto simp: piece_len_def)
  have ends: "k + piece_len p \<le> 65535" if "(k, p) \<in> insert ?new ?S" for k p
    using that ok assms(3) by (auto simp: pieces_ok_def piece_len_def)
  show "pieces_ok (om_insert offset \<lparr>piece_data = payload, piece_more = mf\<rparr> (frag_pieces st))"
    unfolding pieces_ok_def set
    by (intro conjI om_invar_insert [OF inv]; clarify; (rule ends | rule pair); assumption)
qed

text \<open>What \<open>place_fragment\<close> does to a state, by verdict.\<close>

lemma update_total_frame:
  "update_total st mf e = (st', rej) \<Longrightarrow> frag_pieces st' = frag_pieces st \<and> frag_bytes st' = frag_bytes st \<and>
     frag_wire_bytes st' = frag_wire_bytes st \<and> frag_last_seen st' = frag_last_seen st"
  by (auto simp: update_total_def Let_def split: if_splits option.splits prod.splits)

lemma update_total_ok:
  assumes "state_ok st" "update_total st mf e = (st', None)"
  shows "state_ok st'"
proof -
  have "k + piece_len p \<le> t" if "frag_total_len st' = Some t" "(k, p) \<in> set (frag_pieces st)" for t k p
    using assms that piece_end_exact [of "frag_pieces st" k p]
    by (fastforce simp: update_total_def state_ok_def Let_def split: if_splits option.splits)
  then show ?thesis
    using assms(1) update_total_frame [OF assms(2)] by (auto simp: state_ok_def)
qed

lemma place_cases:
  assumes "place_fragment st now offset mf payload e wl = (st', rej, dup, added)"
  obtains (reject) r where "rej = Some r" "frag_bytes st' = frag_bytes st"
  | (duplicate) st1 where "rej = None" "dup" "update_total (st\<lparr>frag_last_seen := now\<rparr>) mf e = (st1, None)" "st' = st1"
      "om_get offset (frag_pieces st) \<noteq> None" "added = 0"
  | (fresh) st1 where "rej = None" "\<not> dup" "update_total (st\<lparr>frag_last_seen := now\<rparr>) mf e = (st1, None)"
      "check_total st1 mf e = None" "check_place st1 offset mf payload e = (None, False)"
      "st' = add_piece st1 offset mf payload wl" "added = sat_add64 (length payload) fragment_piece_overhead"
proof -
  obtain st1 rej1 where u: "update_total (st\<lparr>frag_last_seen := now\<rparr>) mf e = (st1, rej1)" by force
  have fr: "frag_pieces st1 = frag_pieces st" "frag_bytes st1 = frag_bytes st"
    using update_total_frame [OF u] by auto
  let ?rej2 = "if rej1 = None then check_total st1 mf e else rej1"
  obtain rej3 dup3 where c: "(if ?rej2 = None then check_place st1 offset mf payload e else (?rej2, False)) = (rej3, dup3)"
    by (cases "if ?rej2 = None then check_place st1 offset mf payload e else (?rej2, False)") blast
  have res: "(st', rej, dup, added) = (if rej3 = None \<and> \<not> dup3 then (add_piece st1 offset mf payload wl, None, False,
      sat_add64 (length payload) fragment_piece_overhead) else (st1, rej3, dup3, 0))"
    using assms by (simp add: place_fragment_def Let_def u c split: if_splits)
  show ?thesis
  proof (cases rej3)
    case (Some r)
    then show ?thesis using res fr reject by auto
  next
    case None
    then have rn: "rej1 = None" "check_total st1 mf e = None" "check_place st1 offset mf payload e = (None, dup3)"
      using c by (auto split: if_splits)
    show ?thesis
    proof (cases dup3)
      case True
      then have "om_get offset (frag_pieces st) \<noteq> None"
        using rn(3) fr(1) by (auto simp: check_place_def split: option.splits if_splits)
      then show ?thesis using duplicate [of st1] res None True u rn(1) by auto
    next
      case False
      then show ?thesis using fresh [of st1] res None u rn by auto
    qed
  qed
qed

lemma add_piece_ok:
  assumes "state_ok st" "check_total st mf e = None" "check_place st offset mf payload e = (None, False)"
    and "e = offset + length payload" "e \<le> 65535"
  shows "state_ok (add_piece st offset mf payload wl)"
    "frag_bytes (add_piece st offset mf payload wl) = frag_bytes st + (length payload + 64)"
proof -
  have ok: "pieces_ok (frag_pieces st)" using assms(1) by (simp add: state_ok_def)
  note ins = pieces_ok_insert [OF ok assms(3) [unfolded assms(4)] assms(5) [unfolded assms(4)]]
  have "length payload \<le> 65535" using assms(4,5) by simp
  moreover have "frag_bytes st \<le> 4260095" using assms(1) pieces_bytes_bound [OF ok] by (simp add: state_ok_def)
  ultimately have sat: "sat_add64 (frag_bytes st) (sat_add64 (length payload) 64) = frag_bytes st + (length payload + 64)"
    by (simp add: sat_add64_def)
  then show "frag_bytes (add_piece st offset mf payload wl) = frag_bytes st + (length payload + 64)"
    by (simp add: add_piece_def)
  have "offset + length payload \<le> t" if "frag_total_len st = Some t" for t
    using assms(2,4) that by (auto simp: check_total_def split: if_splits)
  then show "state_ok (add_piece st offset mf payload wl)"
    using assms(1) ins sat pieces_bytes_insert [OF _ ins(3)]
    by (auto simp: state_ok_def add_piece_def pieces_ok_def piece_len_def)
qed

subsection \<open>The invariant of the cache\<close>

lemma new_state_ok: "state_ok (new_fragment_state now)"
  by (simp add: state_ok_def new_fragment_state_def pieces_ok_def pieces_bytes_def)

lemma ensure_state_keeps:
  assumes "cache_ok c" "fc_bytes c + 256 \<le> u64_max"
  shows "cache_ok (ensure_state key now c)" "same_limits c (ensure_state key now c)"
    "AList.delete key (fc_states (ensure_state key now c)) = AList.delete key (fc_states c)"
    "fc_bytes (ensure_state key now c) \<le> fc_bytes c + 256"
    "\<exists>st. map_of (fc_states (ensure_state key now c)) key = Some st \<and> state_ok st \<and>
       (map_of (fc_states c) key = Some st \<or> map_of (fc_states c) key = None \<and> st = new_fragment_state now)"
proof -
  have "cache_ok (ensure_state key now c) \<and> same_limits c (ensure_state key now c) \<and>
    AList.delete key (fc_states (ensure_state key now c)) = AList.delete key (fc_states c) \<and>
    fc_bytes (ensure_state key now c) \<le> fc_bytes c + 256 \<and>
    (\<exists>st. map_of (fc_states (ensure_state key now c)) key = Some st \<and> state_ok st \<and>
       (map_of (fc_states c) key = Some st \<or> map_of (fc_states c) key = None \<and> st = new_fragment_state now))"
  proof (cases "map_of (fc_states c) key")
    case None
    have "frag_bytes (new_fragment_state now) = 256" by (simp add: new_fragment_state_def)
    then show ?thesis
      using None assms states_bytes_update_new [OF None] set_update_sub new_state_ok [of now]
      by (fastforce simp: ensure_state_def cache_ok_def same_limits_def sat_add64_def AList.distinct_update
          AList.delete_update_same AList.update_conv')
  next
    case (Some st)
    then show ?thesis
      using assms by (auto simp: ensure_state_def same_limits_def cache_ok_def dest: map_of_SomeD)
  qed
  then show "cache_ok (ensure_state key now c)" "same_limits c (ensure_state key now c)"
    "AList.delete key (fc_states (ensure_state key now c)) = AList.delete key (fc_states c)"
    "fc_bytes (ensure_state key now c) \<le> fc_bytes c + 256"
    "\<exists>st. map_of (fc_states (ensure_state key now c)) key = Some st \<and> state_ok st \<and>
       (map_of (fc_states c) key = Some st \<or> map_of (fc_states c) key = None \<and> st = new_fragment_state now)"
    by blast+
qed

lemma remove_bounded:
  assumes "cache_ok c1" "cache_bounded c1" "cache_ok c" "same_limits c1 c"
    and "AList.delete key (fc_states c) = AList.delete key (fc_states c1)" "map_of (fc_states c) key = Some st"
  shows "cache_bounded (remove_key key c)"
proof -
  have st: "fc_states (remove_key key c) = AList.delete key (fc_states c1)"
    using assms(5,6) by (simp add: remove_key_def)
  have "states_bytes (AList.delete key (fc_states c1)) \<le> fc_bytes c1 \<and>
      length (AList.delete key (fc_states c1)) \<le> length (fc_states c1)"
  proof (cases "map_of (fc_states c1) key")
    case None
    then show ?thesis using assms(1) by (simp add: delete_fresh map_of_eq_None_iff cache_ok_def)
  next
    case (Some st1)
    then show ?thesis using states_bytes_delete [OF _ Some] assms(1) by (auto simp: cache_ok_def)
  qed
  then show ?thesis
    using st remove_key_keeps(1,2) [OF assms(3), of key] assms(2,4)
    by (auto simp: cache_bounded_def cache_ok_def same_limits_def)
qed

lemma try_complete_cases:
  assumes "try_complete key c = (c', r)"
  obtains (pending) "r = FragPending" "c' = c"
  | (complete) st t where "map_of (fc_states c) key = Some st" "frag_total_len st = Some t"
      "contiguous 0 (frag_pieces st) = Some t"
      "r = FragComplete (concat (map (piece_data \<circ> snd) (frag_pieces st))) (frag_wire_bytes st)"
      "c' = remove_key key c"
  using assms by (auto simp: try_complete_def remove_key_def split: option.splits if_splits)

lemma remove_key_update:
  assumes "map_of (fc_states c) key = Some st" "frag_bytes st' = frag_bytes st"
  shows "remove_key key (c\<lparr>fc_states := AList.update key st' (fc_states c)\<rparr>) = remove_key key c"
  using assms by (simp add: remove_key_def AList.update_conv' AList.delete_update_same)

lemma update_state_ok:
  assumes "cache_ok c" "map_of (fc_states c) key = Some st" "state_ok st'"
    and "frag_bytes st' = frag_bytes st + added" "fc_bytes c + added \<le> u64_max"
  shows "cache_ok (c\<lparr>fc_states := AList.update key st' (fc_states c), fc_bytes := sat_add64 (fc_bytes c) added\<rparr>)"
  using assms states_bytes_update [OF assms(2), of st'] set_update_sub [of key st' "fc_states c"]
  by (auto simp: cache_ok_def sat_add64_def AList.distinct_update)

text \<open>The part of an insertion after the early returns.\<close>

lemma insert_known_keeps:
  assumes c1: "cache_ok c1" "cache_bounded c1" "fc_max_bytes c1 + 100000 \<le> u64_max"
    and e: "e = offset + length payload" "e \<le> 65535"
    and c: "c = ensure_state key now c1" and st: "map_of (fc_states c) key = Some st"
    and place: "place_fragment st now offset mf payload e wl = (st', rej, dup, added)"
    and c': "c' = c\<lparr>fc_states := AList.update key st' (fc_states c)\<rparr>"
  shows "rej \<noteq> None \<Longrightarrow> cache_ok (remove_key key c') \<and> cache_bounded (remove_key key c') \<and> same_limits c1 (remove_key key c')"
    and "rej = None \<Longrightarrow> dup \<Longrightarrow> cache_ok c' \<and> cache_bounded c' \<and> same_limits c1 c'"
    and "rej = None \<Longrightarrow> \<not> dup \<Longrightarrow> cache_ok (c'\<lparr>fc_bytes := sat_add64 (fc_bytes c') added\<rparr>) \<and> same_limits c1 c' \<and>
      cache_bounded (remove_key key (c'\<lparr>fc_bytes := sat_add64 (fc_bytes c') added\<rparr>))"
proof -
  have room: "fc_bytes c1 + 256 \<le> u64_max" "fc_bytes c1 \<le> fc_max_bytes c1"
    using c1(2,3) by (simp_all add: cache_bounded_def)
  note en = ensure_state_keeps [OF c1(1) room(1), of key now, folded c]
  have ok: "state_ok st" and was: "map_of (fc_states c1) key = Some st \<or> map_of (fc_states c1) key = None \<and> st = new_fragment_state now"
    using en(5) st by auto
  have lim: "same_limits c1 c'" using en(2) by (simp add: c' same_limits_def)
  have del: "AList.delete key (fc_states c') = AList.delete key (fc_states c1)"
    using en(3) by (simp add: c' AList.delete_update_same)
  have look: "map_of (fc_states c') key = Some st'" by (simp add: c' AList.update_conv')
  show "cache_ok (remove_key key c') \<and> cache_bounded (remove_key key c') \<and> same_limits c1 (remove_key key c')" if "rej \<noteq> None"
  proof -
    have "frag_bytes st' = frag_bytes st" using place that by (cases rule: place_cases) auto
    then have "remove_key key c' = remove_key key c" unfolding c' by (rule remove_key_update [OF st])
    then show ?thesis
      using remove_key_keeps(1,2) [OF en(1), of key] remove_bounded [OF c1(1,2) en(1,2,3) st] en(2) same_limits_trans by auto
  qed
  show "cache_ok c' \<and> cache_bounded c' \<and> same_limits c1 c'" if "rej = None" "dup"
    using place
  proof (cases rule: place_cases)
    case (duplicate st1)
    have "st \<noteq> new_fragment_state now" using duplicate(5) by (auto simp: new_fragment_state_def om_get_def)
    then have "c = c1" using was by (auto simp: c ensure_state_def)
    moreover have "state_ok st'"
      using update_total_ok [OF _ duplicate(3)] ok duplicate(4) by (simp add: state_ok_def)
    moreover have "frag_bytes st' = frag_bytes st + 0" using update_total_frame [OF duplicate(3)] duplicate(4) by simp
    ultimately have "cache_ok c'"
      using update_state_ok [OF en(1) st, of st' 0] room by (auto simp: c' cache_ok_def sat_add64_def)
    then show ?thesis
      using lim c1(2) \<open>c = c1\<close> states_bytes_update [OF st, of st'] by (auto simp: cache_bounded_def c')
  qed (use that in auto)
  show "cache_ok (c'\<lparr>fc_bytes := sat_add64 (fc_bytes c') added\<rparr>) \<and> same_limits c1 c' \<and>
      cache_bounded (remove_key key (c'\<lparr>fc_bytes := sat_add64 (fc_bytes c') added\<rparr>))" if "rej = None" "\<not> dup"
    using place
  proof (cases rule: place_cases)
    case (fresh st1)
    have "state_ok st1" using update_total_ok [OF _ fresh(3)] ok by (simp add: state_ok_def)
    note add = add_piece_ok [OF this fresh(4,5) e, of wl]
    have len: "added = length payload + 64" "added \<le> 65599" using fresh(7) e by (auto simp: sat_add64_def)
    have "frag_bytes st' = frag_bytes st + added"
      using add(2) fresh(6) len(1) update_total_frame [OF fresh(3)] by simp
    then have ok': "cache_ok (c'\<lparr>fc_bytes := sat_add64 (fc_bytes c') added\<rparr>)"
      using update_state_ok [OF en(1) st, of st' added] add(1) fresh(6) len(2) en(4) room c1(3) by (simp add: c')
    then show ?thesis
      using remove_bounded [OF c1(1,2) ok', of key st'] lim del look by (simp add: same_limits_def)
  qed (use that in auto)
qed

text \<open>An insertion, step by step, once the fragment is well formed.\<close>

definition well_formed_fragment :: "nat \<Rightarrow> bool \<Rightarrow> bytes \<Rightarrow> bool" where
  "well_formed_fragment offset mf payload \<longleftrightarrow>
     offset + length payload \<le> 65535 \<and> (mf \<longrightarrow> payload \<noteq> [] \<and> length payload mod 8 = 0)"

lemma insert_unfold:
  assumes "maintenance now c = (c1, m)" "well_formed_fragment offset mf payload"
    and "map_of (fc_states (ensure_state key now c1)) key = Some st"
    and "place_fragment st now offset mf payload (offset + length payload) wl = (st', rej, dup, added)"
  shows "fragment_cache_insert c now key offset mf payload wl = Some (finish_insert key
     ((ensure_state key now c1)\<lparr>fc_states := AList.update key st' (fc_states (ensure_state key now c1))\<rparr>) m rej dup added)"
  using assms by (auto simp: fragment_cache_insert_def well_formed_fragment_def Let_def)

lemma insert_ill_formed:
  assumes "maintenance now c = (c1, m)" "\<not> well_formed_fragment offset mf payload"
  shows "fragment_cache_insert c now key offset mf payload wl = Some (c1, DroppedInvalid, m) \<or>
    fragment_cache_insert c now key offset mf payload wl = Some (remove_key key c1, DroppedInvalid, m)"
  using assms by (auto simp: fragment_cache_insert_def well_formed_fragment_def Let_def)

lemma finish_insert_keeps:
  assumes rej: "rej \<noteq> None \<Longrightarrow> cache_ok (remove_key key c) \<and> cache_bounded (remove_key key c) \<and> same_limits c1 (remove_key key c)"
    and dup: "rej = None \<Longrightarrow> dup \<Longrightarrow> cache_ok c \<and> cache_bounded c \<and> same_limits c1 c"
    and new: "rej = None \<Longrightarrow> \<not> dup \<Longrightarrow> cache_ok (c\<lparr>fc_bytes := sat_add64 (fc_bytes c) added\<rparr>) \<and> same_limits c1 c \<and>
      cache_bounded (remove_key key (c\<lparr>fc_bytes := sat_add64 (fc_bytes c) added\<rparr>))"
    and f: "finish_insert key c m rej dup added = (c2, r, m2)"
  shows "cache_ok c2 \<and> cache_bounded c2 \<and> same_limits c1 c2"
proof (cases rej)
  case (Some rr)
  then show ?thesis using f rej by (cases rr) (auto simp: finish_insert_def)
next
  case rn: None
  show ?thesis
  proof (cases dup)
    case True
    then obtain r' where t: "try_complete key c = (c2, r')"
      using f rn by (auto simp: finish_insert_def split: prod.splits)
    show ?thesis
      using t dup [OF rn True] remove_key_keeps [of c key] same_limits_trans
      by (cases rule: try_complete_cases) (auto simp: cache_bounded_def same_limits_def)
  next
    case nd: False
    let ?c = "c\<lparr>fc_bytes := sat_add64 (fc_bytes c) added\<rparr>"
    obtain c3 r' where t: "try_complete key ?c = (c3, r')" by force
    note k3 = new [OF rn nd]
    from t show ?thesis
    proof (cases rule: try_complete_cases)
      case pending
      then obtain n where "evict_loop ?c (fm_evicted m) = (c2, n)"
        using f rn nd t by (auto simp: finish_insert_def Let_def split: prod.splits)
      then show ?thesis using evict_loop_bounds [of ?c] k3 by (auto simp: same_limits_def)
    next
      case (complete st t)
      then have "c2 = remove_key key ?c"
        using f rn nd t by (auto simp: finish_insert_def Let_def split: prod.splits)
      then show ?thesis using k3 remove_key_keeps(1,2) [of ?c key] by (auto simp: same_limits_def)
    qed
  qed
qed

lemma cache_insert_keeps:
  assumes "cache_ok c" "cache_bounded c" "fc_max_bytes c + 100000 \<le> u64_max"
  shows "\<exists>c' r m. fragment_cache_insert c now key offset mf payload wl = Some (c', r, m) \<and>
     cache_ok c' \<and> cache_bounded c' \<and> same_limits c c'"
proof -
  obtain c1 m where m: "maintenance now c = (c1, m)" by force
  note mk = maintenance_keeps [OF assms(1) m]
  have c1: "cache_ok c1" "cache_bounded c1" "fc_max_bytes c1 + 100000 \<le> u64_max"
    using mk assms by (simp_all add: same_limits_def)
  note rm = remove_key_keeps [OF c1(1), of key]
  show ?thesis
  proof (cases "well_formed_fragment offset mf payload")
    case False
    have "cache_bounded (remove_key key c1)" using rm c1(2) by (auto simp: cache_bounded_def same_limits_def)
    then show ?thesis
      using insert_ill_formed [OF m False, of key wl] rm(1,2) c1 mk(2) same_limits_trans by blast
  next
    case True
    have room: "fc_bytes c1 + 256 \<le> u64_max" using c1(2,3) by (simp add: cache_bounded_def)
    obtain st where st: "map_of (fc_states (ensure_state key now c1)) key = Some st"
      using ensure_state_keeps(5) [OF c1(1) room] by blast
    obtain st' rej dup added where p: "place_fragment st now offset mf payload (offset + length payload) wl = (st', rej, dup, added)"
      by (metis prod_cases4)
    have e: "offset + length payload \<le> 65535" using True by (simp add: well_formed_fragment_def)
    define c' where "c' = (ensure_state key now c1)\<lparr>fc_states := AList.update key st' (fc_states (ensure_state key now c1))\<rparr>"
    note k = insert_known_keeps [OF c1 refl e refl st p c'_def]
    obtain c2 r m2 where f: "finish_insert key c' m rej dup added = (c2, r, m2)" by (metis prod_cases3)
    have "cache_ok c2 \<and> cache_bounded c2 \<and> same_limits c1 c2" by (rule finish_insert_keeps [OF k f])
    then show ?thesis
      using insert_unfold [OF m True st p] f mk(2) same_limits_trans by (auto simp: c'_def)
  qed
qed

text \<open>One fragment on a cache shard. The call returns (its \<open>expect\<close> never fails), the byte account
  stays equal to the sum over all datagrams and pieces, the pieces of every datagram stay sorted,
  disjoint and within 64 KiB, and the shard stays within its byte and datagram limits, whatever the
  fragment.\<close>

theorem fragment_insert_keeps:
  assumes "cache_ok c" "cache_bounded c" "fc_max_bytes c + 100000 \<le> u64_max"
  shows "\<exists>c' r m. fragment_cache_insert c now key offset mf payload wl = Some (c', r, m) \<and>
     cache_ok c' \<and> cache_bounded c' \<and> same_limits c c'"
  using assms by (rule cache_insert_keeps)

definition example_key :: fragment_key where
  "example_key = \<lparr>fk_version = 4, fk_l2_domain = 0, fk_src = V4 1, fk_dst = V4 2, fk_id = 7, fk_next_header = 17\<rparr>"

lemma new_cache_ok: "cache_ok (new_fragment_cache mb md t now)" "cache_bounded (new_fragment_cache mb md t now)"
  by (simp_all add: new_fragment_cache_def cache_ok_def cache_bounded_def)

theorem fragment_insert_keeps_witness:
  "\<exists>c' r m. fragment_cache_insert (new_fragment_cache 65536 4 5 0) 9 example_key 16 True [1, 2, 3] 40 = Some (c', r, m) \<and>
     cache_ok c' \<and> cache_bounded c' \<and> same_limits (new_fragment_cache 65536 4 5 0) c'"
  by (rule fragment_insert_keeps [OF new_cache_ok]) (simp add: new_fragment_cache_def)

subsection \<open>A completed datagram is the datagram that was sent\<close>

text \<open>\<open>part_of D st\<close>: every piece of the state is the slice of \<open>D\<close> at its offset, and a known total length
  is the length of \<open>D\<close>.\<close>

definition part_of :: "bytes \<Rightarrow> fragment_state \<Rightarrow> bool" where
  "part_of D st \<longleftrightarrow> (\<forall>(k, p) \<in> set (frag_pieces st). k + piece_len p \<le> length D \<and>
       piece_data p = bslice k (k + piece_len p) D) \<and>
     (frag_total_len st = None \<or> frag_total_len st = Some (length D))"

definition true_cache :: "(fragment_key \<Rightarrow> bytes) \<Rightarrow> fragment_cache \<Rightarrow> bool" where
  "true_cache DD c \<longleftrightarrow> (\<forall>(k, st) \<in> set (fc_states c). part_of (DD k) st)"

text \<open>A fragment that was cut out of the datagram of its key.\<close>

definition true_fragment :: "bytes \<Rightarrow> nat \<Rightarrow> bool \<Rightarrow> bytes \<Rightarrow> bool" where
  "true_fragment D offset mf payload \<longleftrightarrow> offset + length payload \<le> length D \<and>
     payload = bslice offset (offset + length payload) D \<and> (\<not> mf \<longrightarrow> offset + length payload = length D)"

lemma bslice_append: "a \<le> b \<Longrightarrow> b \<le> c \<Longrightarrow> c \<le> length D \<Longrightarrow> bslice a b D @ bslice b c D = bslice a c D"
proof -
  assume "a \<le> b" "b \<le> c" "c \<le> length D"
  then have "c - a = (b - a) + (c - b)" "drop b D = drop (b - a) (drop a D)" by simp_all
  then show ?thesis unfolding bslice_def by (metis take_add)
qed

lemma contiguous_slices:
  assumes "contiguous a ps = Some b" "a \<le> length D" "length D \<le> 65535"
    and "\<forall>(k, p) \<in> set ps. k + piece_len p \<le> length D \<and> piece_data p = bslice k (k + piece_len p) D"
  shows "concat (map (piece_data \<circ> snd) ps) = bslice a b D \<and> a \<le> b \<and> b \<le> length D"
  using assms
proof (induction ps arbitrary: a)
  case Nil
  then show ?case by (simp add: bslice_def)
next
  case (Cons e ps)
  obtain p where e: "e = (a, p)" using Cons.prems(1) by (cases e) (auto split: if_splits)
  have p: "a + piece_len p \<le> length D" "piece_data p = bslice a (a + piece_len p) D" using Cons.prems(4) by (auto simp: e)
  have "contiguous (a + piece_len p) ps = Some b"
    using Cons.prems(1,3) p(1) by (simp add: e piece_len_def sat_add64_def)
  from Cons.IH [OF this p(1) Cons.prems(3)] Cons.prems(4)
  have IH: "concat (map (piece_data \<circ> snd) ps) = bslice (a + piece_len p) b D" "a + piece_len p \<le> b" "b \<le> length D"
    by (auto simp: o_def)
  then show ?case using bslice_append [of a "a + piece_len p" b D] p(2) by (simp add: e o_def)
qed

lemma states_shrink:
  "set (fc_states (remove_key k c)) \<subseteq> set (fc_states c)"
  "maintenance now c = (c', m) \<Longrightarrow> set (fc_states c') \<subseteq> set (fc_states c)"
  "evict_loop c n = (c', n') \<Longrightarrow> set (fc_states c') \<subseteq> set (fc_states c)"
proof -
  show rm: "set (fc_states (remove_key k c)) \<subseteq> set (fc_states c)" for k c
    using set_delete_sub by (force simp: remove_key_def split: option.splits)
  have fold: "set (fc_states (fold remove_key ks c)) \<subseteq> set (fc_states c)" for ks c
  proof (induction ks arbitrary: c)
    case (Cons k ks)
    then show ?case using rm [of k c] Cons.IH [of "remove_key k c"] by auto
  qed simp
  show "maintenance now c = (c', m) \<Longrightarrow> set (fc_states c') \<subseteq> set (fc_states c)"
    using fold by (fastforce simp: maintenance_def Let_def split: if_splits)
  show "evict_loop c n = (c', n') \<Longrightarrow> set (fc_states c') \<subseteq> set (fc_states c)"
  proof (induction "length (fc_states c)" arbitrary: c n rule: less_induct)
    case less
    show ?case
    proof (cases "oldest (fc_states c)")
      case None
      then show ?thesis using less.prems by (subst (asm) evict_loop.simps) (auto simp: evict_oldest_def split: if_splits)
    next
      case (Some k)
      then have ev: "evict_oldest c = (remove_key k c, True)" by (simp add: evict_oldest_def)
      show ?thesis
        using less.hyps [OF evict_length [OF ev]] less.prems rm [of k c] ev
        by (subst (asm) evict_loop.simps) (fastforce split: if_splits)
    qed
  qed
qed

lemma part_of_update:
  assumes "part_of D st" "true_fragment D offset mf payload" "update_total (st\<lparr>frag_last_seen := now\<rparr>) mf (offset + length payload) = (st1, None)"
  shows "part_of D st1"
proof -
  have "frag_total_len st1 = frag_total_len st \<or> frag_total_len st1 = Some (length D)"
    using assms(2,3) by (auto simp: true_fragment_def update_total_def Let_def split: if_splits option.splits)
  then show ?thesis using assms(1) update_total_frame [OF assms(3)] by (auto simp: part_of_def)
qed

lemma part_of_add:
  assumes "part_of D st" "true_fragment D offset mf payload" "om_invar (frag_pieces st)"
  shows "part_of D (add_piece st offset mf payload wl)"
  using assms by (auto simp: part_of_def add_piece_def true_fragment_def set_om_insert piece_len_def)

lemma place_part_of:
  assumes "part_of D st" "state_ok st" "true_fragment D offset mf payload"
    and "place_fragment st now offset mf payload (offset + length payload) wl = (st', None, dup, added)"
  shows "part_of D st'"
  using assms(4)
proof (cases rule: place_cases)
  case (duplicate st1)
  then show ?thesis using part_of_update [OF assms(1,3) duplicate(3)] by simp
next
  case (fresh st1)
  have "om_invar (frag_pieces st1)"
    using update_total_frame [OF fresh(3)] assms(2) by (simp add: state_ok_def pieces_ok_def)
  then show ?thesis using part_of_add [OF part_of_update [OF assms(1,3) fresh(3)] assms(3)] fresh(6) by simp
qed simp

lemma try_complete_true:
  assumes "true_cache DD c" "length (DD key) \<le> 65535" "try_complete key c = (c', r)"
  shows "true_cache DD c' \<and> (\<forall>p w. r = FragComplete p w \<longrightarrow> p = DD key)"
  using assms(3)
proof (cases rule: try_complete_cases)
  case pending
  then show ?thesis using assms(1) by simp
next
  case (complete st t)
  have part: "part_of (DD key) st" using assms(1) map_of_SomeD [OF complete(1)] by (auto simp: true_cache_def)
  then have "concat (map (piece_data \<circ> snd) (frag_pieces st)) = bslice 0 t (DD key)" "t = length (DD key)"
    using contiguous_slices [OF complete(3) _ assms(2)] complete(2) by (auto simp: part_of_def o_def)
  then show ?thesis using complete(4,5) assms(1) states_shrink(1) [of key c] by (fastforce simp: true_cache_def)
qed

lemma finish_insert_true:
  assumes "rej = None \<Longrightarrow> true_cache DD c" "true_cache DD (remove_key key c)" "length (DD key) \<le> 65535"
    and f: "finish_insert key c m rej dup added = (c2, r, m2)"
  shows "true_cache DD c2 \<and> (\<forall>p w. r = FragComplete p w \<longrightarrow> p = DD key)"
proof (cases rej)
  case (Some rr)
  then show ?thesis using f assms(2) by (cases rr) (auto simp: finish_insert_def)
next
  case None
  have t1: "true_cache DD c" "true_cache DD (c\<lparr>fc_bytes := x\<rparr>)" for x
    using assms(1) None by (simp_all add: true_cache_def)
  note tc = try_complete_true [OF t1(1) assms(3)] try_complete_true [OF t1(2) assms(3)]
  show ?thesis
  proof (cases dup)
    case True
    then show ?thesis using f None tc(1) by (auto simp: finish_insert_def split: prod.splits)
  next
    case False
    obtain c3 r3 where t3: "try_complete key (c\<lparr>fc_bytes := sat_add64 (fc_bytes c) added\<rparr>) = (c3, r3)" by force
    have ev: "true_cache DD c4" if "evict_loop c3 n = (c4, n')" for c4 n n'
      using states_shrink(3) [OF that] tc(2) [OF t3] by (fastforce simp: true_cache_def)
    show ?thesis
      using f None False tc(2) [OF t3] t3 ev by (auto simp: finish_insert_def Let_def split: prod.splits if_splits)
  qed
qed

text \<open>What the cache hands on is what was sent. Let every datagram key stand for one original
  datagram, and let all fragments ever inserted be cut out of their datagrams (in any order, with any
  duplicates, interleaved with other datagrams, under expiry and eviction). Then a completed payload
  is byte for byte the original datagram.\<close>

theorem fragment_complete_exact:
  assumes "cache_ok c" "cache_bounded c" "fc_max_bytes c + 100000 \<le> u64_max"
    and "true_cache DD c" "true_fragment (DD key) offset mf payload" "length (DD key) \<le> 65535"
    and "fragment_cache_insert c now key offset mf payload wl = Some (c', r, m')"
  shows "true_cache DD c' \<and> (\<forall>p w. r = FragComplete p w \<longrightarrow> p = DD key)"
proof -
  obtain c1 m where m: "maintenance now c = (c1, m)" by force
  have c1: "cache_ok c1" "cache_bounded c1" using maintenance_keeps [OF assms(1) m] assms(2) by auto
  have t1: "true_cache DD c1" using assms(4) states_shrink(2) [OF m] by (fastforce simp: true_cache_def)
  have sub: "true_cache DD (remove_key key c1)" using t1 states_shrink(1) [of key c1] by (fastforce simp: true_cache_def)
  show ?thesis
  proof (cases "well_formed_fragment offset mf payload")
    case False
    then show ?thesis using insert_ill_formed [OF m False, of key wl] assms(7) t1 sub by auto
  next
    case True
    let ?c = "ensure_state key now c1"
    have room: "fc_bytes c1 + 256 \<le> u64_max"
      using c1(2) maintenance_keeps(2) [OF assms(1) m] assms(3) by (simp add: cache_bounded_def same_limits_def)
    obtain st where st: "map_of (fc_states ?c) key = Some st" "state_ok st"
      using ensure_state_keeps(5) [OF c1(1) room] by blast
    have te: "true_cache DD ?c"
      using t1 set_update_sub [of key "new_fragment_state now" "fc_states c1"]
      by (fastforce simp: true_cache_def ensure_state_def part_of_def new_fragment_state_def)
    then have part: "part_of (DD key) st" using map_of_SomeD [OF st(1)] by (auto simp: true_cache_def)
    obtain st' rej dup added where p: "place_fragment st now offset mf payload (offset + length payload) wl = (st', rej, dup, added)"
      by (metis prod_cases4)
    define c2 where "c2 = ?c\<lparr>fc_states := AList.update key st' (fc_states ?c)\<rparr>"
    have "true_cache DD c2" if "rej = None"
      using te place_part_of [OF part st(2) assms(5)] p that set_update_sub [of key st' "fc_states ?c"]
      by (fastforce simp: true_cache_def c2_def)
    moreover have "true_cache DD (remove_key key c2)"
      using te set_delete_sub [of key "fc_states ?c"]
      by (fastforce simp: true_cache_def c2_def remove_key_def AList.update_conv' AList.delete_update_same)
    ultimately show ?thesis
      using finish_insert_true [of rej DD c2 key m dup added c' r m'] assms(6,7) insert_unfold [OF m True st(1) p]
      by (auto simp: c2_def)
  qed
qed

lemmas fragment_eval = fragment_cache_insert_def maintenance_def ensure_state_def place_fragment_def
  update_total_def check_total_def check_place_def add_piece_def finish_insert_def try_complete_def
  new_fragment_cache_def new_fragment_state_def evict_loop.simps remove_key_def om_get_def om_last_less_def
  om_first_ge_def last_option_def om_first_def sat_add64_def Let_def

theorem fragment_complete_exact_witness:
  "\<exists>c' m. fragment_cache_insert (new_fragment_cache 65536 4 5 0) 9 example_key 0 False [1, 2, 3] 40
      = Some (c', FragComplete [1, 2, 3] 40, m) \<and>
     true_cache (\<lambda>_. [1, 2, 3]) c' \<and> (\<forall>p w. FragComplete [1, 2, 3] 40 = FragComplete p w \<longrightarrow> p = [1, 2, 3])"
proof -
  let ?c = "new_fragment_cache 65536 4 5 0"
  have r: "fragment_cache_insert ?c 9 example_key 0 False [1, 2, 3] 40
      = Some (?c, FragComplete [1, 2, 3] 40, \<lparr>fm_expired = 0, fm_evicted = 0\<rparr>)"
    by (simp add: fragment_eval)
  have "true_cache (\<lambda>_. [1, 2, 3]) ?c" "true_fragment [1, 2, 3] 0 False [1, 2, 3]"
    by (simp_all add: true_cache_def new_fragment_cache_def true_fragment_def bslice_def)
  then show ?thesis
    using fragment_complete_exact [OF new_cache_ok _ _ _ _ r, of "\<lambda>_. [1, 2, 3]"] r by (simp add: new_fragment_cache_def)
qed

subsection \<open>Every datagram completes\<close>

text \<open>The fragments of a datagram cut into the parts \<open>ds\<close>, the first of them at offset \<open>a\<close>.\<close>

fun fragments_of :: "nat \<Rightarrow> bytes list \<Rightarrow> (nat \<times> bool \<times> bytes) list" where
  "fragments_of a [] = []"
| "fragments_of a (d # ds) = (a, ds \<noteq> [], d) # fragments_of (a + length d) ds"

definition cut_ok :: "bytes list \<Rightarrow> bool" where
  "cut_ok ds \<longleftrightarrow> ds \<noteq> [] \<and> (\<forall>d \<in> set ds. d \<noteq> []) \<and> (\<forall>d \<in> set (butlast ds). length d mod 8 = 0) \<and>
     length (concat ds) \<le> 65535"

definition piece_entry :: "nat \<times> bool \<times> bytes \<Rightarrow> nat \<times> fragment_piece" where
  "piece_entry = (\<lambda>(o', mf, d). (o', \<lparr>piece_data = d, piece_more = mf\<rparr>))"

lemma fragments_of_mem:
  "(o', mf, d) \<in> set (fragments_of a ds) \<Longrightarrow> a \<le> o' \<and> o' + length d \<le> a + length (concat ds) \<and> d \<in> set ds \<and>
     (mf \<longrightarrow> d \<in> set (butlast ds)) \<and> (\<not> mf \<longrightarrow> o' + length d = a + length (concat ds)) \<and>
     (mf \<longrightarrow> (\<forall>x \<in> set ds. x \<noteq> []) \<longrightarrow> o' + length d < a + length (concat ds))"
proof (induction ds arbitrary: a)
  case (Cons x ds)
  show ?case
  proof (cases "(o', mf, d) = (a, ds \<noteq> [], x)")
    case True
    then show ?thesis by (cases ds) auto
  next
    case False
    then have "(o', mf, d) \<in> set (fragments_of (a + length x) ds)" using Cons.prems by auto
    from Cons.IH [OF this] show ?thesis by (cases ds) auto
  qed
qed simp

lemma fragments_of_sorted:
  "\<forall>x \<in> set ds. x \<noteq> [] \<Longrightarrow> om_invar (map piece_entry (fragments_of a ds))"
proof (induction ds arbitrary: a)
  case (Cons d ds)
  have "a < o'" if "(o', mf, x) \<in> set (fragments_of (a + length d) ds)" for o' mf x
    using fragments_of_mem [OF that] Cons.prems by (cases d) auto
  then show ?case using Cons by (auto simp: piece_entry_def)
qed simp

lemma fragments_of_contiguous:
  "a + length (concat ds) \<le> 65535 \<Longrightarrow>
   contiguous a (map piece_entry (fragments_of a ds)) = Some (a + length (concat ds)) \<and>
   concat (map (piece_data \<circ> snd) (map piece_entry (fragments_of a ds))) = concat ds"
proof (induction ds arbitrary: a)
  case (Cons d ds)
  from Cons.IH [of "a + length d"] Cons.prems show ?case by (simp add: piece_entry_def sat_add64_def add.assoc o_def)
qed simp

lemma fragments_of_disjoint:
  assumes "(o1, m1, d1) \<in> set (fragments_of a ds)" "(o2, m2, d2) \<in> set (fragments_of a ds)" "\<forall>x \<in> set ds. x \<noteq> []"
    and "(o1, m1, d1) \<noteq> (o2, m2, d2)"
  shows "o1 + length d1 \<le> o2 \<or> o2 + length d2 \<le> o1"
  using assms
proof (induction ds arbitrary: a)
  case (Cons d ds)
  show ?case
  proof (cases "(o1, m1, d1) \<in> set (fragments_of (a + length d) ds) \<and> (o2, m2, d2) \<in> set (fragments_of (a + length d) ds)")
    case True
    then show ?thesis using Cons.IH [of "a + length d"] Cons.prems by auto
  next
    case False
    then show ?thesis
      using Cons.prems fragments_of_mem [of o1 m1 d1 "a + length d" ds] fragments_of_mem [of o2 m2 d2 "a + length d" ds] by auto
  qed
qed simp

lemma om_invar_eq: "om_invar m \<Longrightarrow> om_invar m' \<Longrightarrow> set m = set m' \<Longrightarrow> m = m'"
proof (induction m arbitrary: m')
  case (Cons e m)
  then obtain e' m'' where m': "m' = e' # m''" by (cases m') auto
  have "e = e'" using Cons.prems by (auto simp: m') (metis insertE insertI1 not_less_iff_gr_or_eq)+
  then have "set m = set m''" using Cons.prems by (auto simp: m')
  then show ?case using Cons \<open>e = e'\<close> by (simp add: m')
qed simp

lemma contiguous_total:
  "contiguous a ps = Some b \<Longrightarrow> a + (\<Sum>e\<leftarrow>ps. piece_len (snd e)) \<le> u64_max \<Longrightarrow> b = a + (\<Sum>e\<leftarrow>ps. piece_len (snd e))"
proof (induction ps arbitrary: a)
  case (Cons e ps)
  from Cons.IH [of "a + piece_len (snd e)"] Cons.prems show ?case
    by (cases e) (auto simp: sat_add64_def piece_len_def add.assoc split: if_splits)
qed simp

text \<open>\<open>holding ds P w st\<close>: of the datagram cut into \<open>ds\<close>, exactly the fragments \<open>P\<close> have arrived, with \<open>w\<close>
  bytes on the wire.\<close>

definition holding :: "bytes list \<Rightarrow> (nat \<times> bool \<times> bytes) set \<Rightarrow> nat \<Rightarrow> fragment_state \<Rightarrow> bool" where
  "holding ds P w st \<longleftrightarrow> state_ok st \<and> set (frag_pieces st) = piece_entry ` P \<and>
     frag_total_len st = (if \<exists>(o', mf, d) \<in> P. \<not> mf then Some (length (concat ds)) else None) \<and>
     frag_wire_bytes st = w"

lemma full_mem:
  assumes "cut_ok ds" "(o', mf, d) \<in> set (fragments_of 0 ds)"
  shows "o' + length d \<le> length (concat ds)" "\<not> mf \<Longrightarrow> o' + length d = length (concat ds)"
    "mf \<Longrightarrow> o' + length d < length (concat ds)" "d \<noteq> []" "well_formed_fragment o' mf d"
  using fragments_of_mem [of o' mf d 0 ds] assms by (auto simp: cut_ok_def well_formed_fragment_def)

lemma full_disjoint:
  assumes "cut_ok ds" "(o1, m1, d1) \<in> set (fragments_of 0 ds)" "(o2, m2, d2) \<in> set (fragments_of 0 ds)"
    and "(o1, m1, d1) \<noteq> (o2, m2, d2)"
  shows "o1 < o2 \<and> o1 + length d1 \<le> o2 \<or> o2 < o1 \<and> o2 + length d2 \<le> o1"
  using fragments_of_disjoint [OF assms(2,3) _ assms(4)] full_mem(4) [OF assms(1,2)] full_mem(4) [OF assms(1,3)] assms(1)
  by (cases d1; cases d2) (auto simp: cut_ok_def)

text \<open>A fragment that has not arrived yet finds its place free.\<close>

lemma place_new_fragment:
  assumes cut: "cut_ok ds" and h: "holding ds P w st" "P \<subseteq> set (fragments_of 0 ds)"
    and f: "(o', mf, d) \<in> set (fragments_of 0 ds)" "(o', mf, d) \<notin> P" and wl: "w + wl \<le> u64_max"
  shows "\<exists>st'. place_fragment st now o' mf d (o' + length d) wl = (st', None, False, length d + 64) \<and>
     holding ds (insert (o', mf, d) P) (w + wl) st' \<and> frag_last_seen st' = now"
proof -
  let ?e = "o' + length d" and ?L = "length (concat ds)"
  have ok: "state_ok st" and ps: "set (frag_pieces st) = piece_entry ` P" using h(1) by (auto simp: holding_def)
  have pok: "pieces_ok (frag_pieces st)" using ok by (simp add: state_ok_def)
  have other: "(k < o' \<and> k + piece_len p \<le> o' \<or> o' < k \<and> ?e \<le> k) \<and> k + piece_len p \<le> ?L"
    if mem: "(k, p) \<in> set (frag_pieces st)" for k p
  proof -
    obtain m1 d1 where g: "(k, m1, d1) \<in> P" "p = \<lparr>piece_data = d1, piece_more = m1\<rparr>"
      using mem ps by (auto simp: piece_entry_def)
    then have "(k, m1, d1) \<in> set (fragments_of 0 ds)" "(o', mf, d) \<noteq> (k, m1, d1)" using h(2) f(2) by blast+
    then show ?thesis
      using full_disjoint [OF cut f(1)] full_mem(1) [OF cut] g(2) by (fastforce simp: piece_len_def)
  qed
  define st1 where "st1 = st\<lparr>frag_last_seen := now, frag_total_len := (if mf then frag_total_len st else Some ?L)\<rparr>"
  have "\<not> mf \<Longrightarrow> frag_total_len st = None"
  proof -
    assume "\<not> mf"
    have "mf'" if "(k, mf', d') \<in> P" for k mf' d'
    proof (rule ccontr)
      assume "\<not> mf'"
      have g: "(k, mf', d') \<in> set (fragments_of 0 ds)" "(o', mf, d) \<noteq> (k, mf', d')" using that h(2) f(2) by blast+
      have "length d \<noteq> 0" "length d' \<noteq> 0" using full_mem(4) [OF cut f(1)] full_mem(4) [OF cut g(1)] by simp_all
      then show False
        using full_disjoint [OF cut f(1) g] full_mem(2) [OF cut f(1) \<open>\<not> mf\<close>] full_mem(2) [OF cut g(1) \<open>\<not> mf'\<close>] by linarith
    qed
    then show ?thesis using h(1) by (auto simp: holding_def)
  qed
  then have u: "update_total (st\<lparr>frag_last_seen := now\<rparr>) mf ?e = (st1, None)"
    using full_mem(2) [OF cut f(1)] other piece_end_exact [OF pok]
    by (fastforce simp: update_total_def st1_def Let_def)
  have st1_ok: "state_ok st1" using update_total_ok [OF _ u] ok by (simp add: state_ok_def)
  have ct: "check_total st1 mf ?e = None"
    using full_mem(1,3) [OF cut f(1)] h(1) by (auto simp: check_total_def st1_def holding_def split: option.splits if_splits)
  have none: "om_get o' (frag_pieces st) = None"
    using other om.get_iff [of "frag_pieces st" o'] pok by (cases "om_get o' (frag_pieces st)") (auto simp: pieces_ok_def)
  have cp: "check_place st1 o' mf d ?e = (None, False)"
    using none other om.last_less_Some [of "frag_pieces st" o'] om.first_ge_Some [of "frag_pieces st" o'] pok
      piece_end_exact [OF pok]
    by (fastforce simp: check_place_def st1_def pieces_ok_def split: option.splits)
  have le: "?e \<le> 65535" using full_mem(5) [OF cut f(1)] by (simp add: well_formed_fragment_def)
  let ?st' = "add_piece st1 o' mf d wl"
  note add = add_piece_ok [OF st1_ok ct cp refl le, of wl] and ins = pieces_ok_insert [OF _ cp le]
  have "place_fragment st now o' mf d ?e wl = (?st', None, False, length d + 64)"
    using le by (simp add: place_fragment_def Let_def u ct cp sat_add64_def)
  moreover have "holding ds (insert (o', mf, d) P) (w + wl) ?st'"
    using add(1) ins(2) pok ps h(1) wl
    by (auto simp: holding_def add_piece_def st1_def piece_entry_def sat_add64_def)
  moreover have "frag_last_seen ?st' = now" by (simp add: add_piece_def st1_def)
  ultimately show ?thesis by blast
qed

text \<open>The datagram is complete exactly when all its fragments have arrived.\<close>

lemma piece_entry_inj: "inj piece_entry"
  by (auto simp: inj_def piece_entry_def)

lemma sorted_full:
  assumes "cut_ok ds"
  shows "om_invar (map piece_entry (fragments_of 0 ds))"
  using assms by (intro fragments_of_sorted) (simp add: cut_ok_def)

lemma fragments_of_sums:
  "(\<Sum>e\<leftarrow>map piece_entry (fragments_of a ds). piece_len (snd e)) = length (concat ds)"
  "length (fragments_of a ds) = length ds"
  by (induction ds arbitrary: a) (simp_all add: piece_entry_def piece_len_def)

lemma full_sums:
  assumes "cut_ok ds" "om_invar ps" "set ps \<subseteq> piece_entry ` set (fragments_of 0 ds)"
  shows "pieces_bytes ps \<le> length (concat ds) + 64 * length ds"
    and "set ps \<noteq> piece_entry ` set (fragments_of 0 ds) \<Longrightarrow> (\<Sum>e\<leftarrow>ps. piece_len (snd e)) < length (concat ds)"
proof -
  let ?F = "map piece_entry (fragments_of 0 ds)"
  have dis: "distinct ps" "distinct ?F" using assms(2) sorted_full [OF assms(1)] by (auto dest: om_invar_distinct)
  have sums: "(\<Sum>e\<leftarrow>ps. piece_len (snd e)) = (\<Sum>e \<in> set ps. piece_len (snd e))"
    "length (concat ds) = (\<Sum>e \<in> set ?F. piece_len (snd e))"
    using sum_list_distinct_conv_sum_set [OF dis(1), of "\<lambda>e. piece_len (snd e)"]
      sum_list_distinct_conv_sum_set [OF dis(2), of "\<lambda>e. piece_len (snd e)"] fragments_of_sums(1) [of 0 ds] by simp_all
  have "(\<Sum>e\<leftarrow>ps. piece_len (snd e)) \<le> length (concat ds)"
    unfolding sums using assms(3) by (intro sum_mono2) auto
  moreover have "length ps \<le> length ds"
    using card_mono [OF _ assms(3)] distinct_card [OF dis(1)] distinct_card [OF dis(2)] fragments_of_sums(2) [of 0 ds]
    by simp
  ultimately show "pieces_bytes ps \<le> length (concat ds) + 64 * length ds" by (simp add: pieces_bytes_eq)
  show "(\<Sum>e\<leftarrow>ps. piece_len (snd e)) < length (concat ds)" if ne: "set ps \<noteq> piece_entry ` set (fragments_of 0 ds)"
  proof -
    obtain x where x: "x \<in> set (fragments_of 0 ds)" "piece_entry x \<notin> set ps" using ne assms(3) by blast
    obtain o' mf d where xd: "x = (o', mf, d)" using prod_cases3 by blast
    then have "0 < piece_len (snd (piece_entry x))"
      using full_mem(4) [OF assms(1), of o' mf d] x(1) by (simp add: piece_entry_def piece_len_def)
    then show ?thesis
      unfolding sums using x assms(3) by (intro sum_strict_mono2 [of _ _ "piece_entry x"]) auto
  qed
qed

lemma complete_iff_all:
  assumes "cut_ok ds" "holding ds P w st" "P \<subseteq> set (fragments_of 0 ds)"
  shows "P = set (fragments_of 0 ds) \<Longrightarrow> frag_pieces st = map piece_entry (fragments_of 0 ds) \<and>
      frag_total_len st = Some (length (concat ds))"
    and "P \<noteq> set (fragments_of 0 ds) \<Longrightarrow> frag_total_len st = Some t \<Longrightarrow> contiguous 0 (frag_pieces st) \<noteq> Some t"
proof -
  have inv: "om_invar (frag_pieces st)" and ps: "set (frag_pieces st) = piece_entry ` P"
    using assms(2) by (auto simp: holding_def state_ok_def pieces_ok_def)
  show "frag_pieces st = map piece_entry (fragments_of 0 ds) \<and> frag_total_len st = Some (length (concat ds))"
    if P: "P = set (fragments_of 0 ds)"
  proof -
    have "frag_pieces st = map piece_entry (fragments_of 0 ds)"
      using om_invar_eq [OF inv sorted_full [OF assms(1)]] ps P by simp
    moreover have "\<exists>(o', mf, d) \<in> P. \<not> mf"
    proof -
      have "\<exists>o' d. (o', False, d) \<in> set (fragments_of a ds)" if "ds \<noteq> []" for a
        using that
      proof (induction ds arbitrary: a)
        case (Cons d ds)
        then show ?case by (cases "ds = []") fastforce+
      qed simp
      then show ?thesis using assms(1) P by (fastforce simp: cut_ok_def)
    qed
    ultimately show ?thesis using assms(2) by (simp add: holding_def)
  qed
  show "contiguous 0 (frag_pieces st) \<noteq> Some t" if P: "P \<noteq> set (fragments_of 0 ds)" "frag_total_len st = Some t"
  proof
    assume c: "contiguous 0 (frag_pieces st) = Some t"
    have "piece_entry ` P \<noteq> piece_entry ` set (fragments_of 0 ds)" using P(1) by (simp add: inj_image_eq_iff [OF piece_entry_inj])
    then have lt: "(\<Sum>e\<leftarrow>frag_pieces st. piece_len (snd e)) < length (concat ds)"
      using full_sums(2) [OF assms(1) inv] ps assms(3) by auto
    then have "t < length (concat ds)"
      using contiguous_total [OF c] assms(1) by (simp add: cut_ok_def)
    then show False using P(2) assms(2) by (auto simp: holding_def split: if_splits)
  qed
qed

text \<open>A cache that holds one datagram and nothing else.\<close>

definition only :: "fragment_key \<Rightarrow> fragment_state \<Rightarrow> fragment_cache \<Rightarrow> bool" where
  "only key st c \<longleftrightarrow> fc_states c = [(key, st)] \<and> fc_bytes c = frag_bytes st"

lemma maintenance_fresh:
  assumes "\<forall>(k, st) \<in> set (fc_states c). now - frag_last_seen st < fc_timeout c" "maintenance now c = (c', m)"
  shows "c' = c\<lparr>fc_last_cleanup := fc_last_cleanup c'\<rparr>" "fm_evicted m = 0"
proof -
  have "filter (\<lambda>(k, v). now - frag_last_seen v \<ge> fc_timeout c) (fc_states c) = []"
    using assms(1) by (auto simp: filter_empty_conv)
  then show "c' = c\<lparr>fc_last_cleanup := fc_last_cleanup c'\<rparr>" "fm_evicted m = 0"
    using assms(2) by (auto simp: maintenance_def Let_def split: if_splits)
qed

text \<open>One more fragment: the datagram completes if it was the last one missing, and is kept otherwise.\<close>

lemma insert_new_fragment:
  assumes cut: "cut_ok ds" and P: "P \<subseteq> set (fragments_of 0 ds)"
    and f: "(o', mf, d) \<in> set (fragments_of 0 ds)" "(o', mf, d) \<notin> P" and wl: "w + wl \<le> u64_max"
    and c: "fc_states c = [] \<and> fc_bytes c = 0 \<and> P = {} \<and> w = 0 \<or> (\<exists>st. only key st c \<and> holding ds P w st \<and> now - frag_last_seen st < fc_timeout c)"
    and lim: "256 + length (concat ds) + 64 * length ds \<le> fc_max_bytes c" "1 \<le> fc_max_datagrams c"
  shows "\<exists>c' m. same_limits c c' \<and>
     (if insert (o', mf, d) P = set (fragments_of 0 ds)
      then fragment_cache_insert c now key o' mf d wl = Some (c', FragComplete (concat ds) (w + wl), m) \<and> fc_states c' = []
      else fragment_cache_insert c now key o' mf d wl = Some (c', FragPending, m) \<and>
        (\<exists>st. only key st c' \<and> holding ds (insert (o', mf, d) P) (w + wl) st \<and> frag_last_seen st = now))"
proof -
  let ?P = "insert (o', mf, d) P"
  obtain c1 m where m: "maintenance now c = (c1, m)" by force
  have c1: "c1 = c\<lparr>fc_last_cleanup := fc_last_cleanup c1\<rparr>" using maintenance_fresh [OF _ m] c by (auto simp: only_def)
  define ce where "ce = ensure_state key now c1"
  have "frag_bytes (new_fragment_state now) = 256" "holding ds {} 0 (new_fragment_state now)"
    using new_state_ok [of now] by (simp_all add: new_fragment_state_def holding_def)
  then obtain st where st: "only key st ce" "holding ds P w st" "same_limits c ce"
    using c arg_cong [OF c1, of fc_states] arg_cong [OF c1, of fc_bytes] arg_cong [OF c1, of fc_max_bytes]
      arg_cong [OF c1, of fc_max_datagrams] arg_cong [OF c1, of fc_timeout]
    by (fastforce simp: ce_def ensure_state_def only_def same_limits_def sat_add64_def)
  obtain st' where p: "place_fragment st now o' mf d (o' + length d) wl = (st', None, False, length d + 64)"
    "holding ds ?P (w + wl) st'" "frag_last_seen st' = now"
    using place_new_fragment [OF cut st(2) P f wl] by blast
  have bytes: "frag_bytes st' \<le> 256 + length (concat ds) + 64 * length ds" "frag_bytes st' = frag_bytes st + (length d + 64)"
    "frag_bytes st' \<le> u64_max"
  proof -
    have ok: "state_ok st'" "set (frag_pieces st') = piece_entry ` ?P" using p(2) by (simp_all add: holding_def)
    then show "frag_bytes st' \<le> 256 + length (concat ds) + 64 * length ds"
      using full_sums(1) [OF cut, of "frag_pieces st'"] P f(1) by (auto simp: state_ok_def pieces_ok_def)
    show "frag_bytes st' \<le> u64_max" using ok(1) pieces_bytes_bound [of "frag_pieces st'"] by (simp add: state_ok_def)
    have sub: "state_ok st" using st(2) by (simp add: holding_def)
    from p(1) show "frag_bytes st' = frag_bytes st + (length d + 64)"
    proof (cases rule: place_cases)
      case (fresh st1)
      have "state_ok st1" using update_total_ok [OF _ fresh(3)] sub by (simp add: state_ok_def)
      then show ?thesis
        using add_piece_ok(2) [OF _ fresh(4,5) refl] full_mem(5) [OF cut f(1)] fresh(6) update_total_frame [OF fresh(3)]
        by (simp add: well_formed_fragment_def)
    qed auto
  qed
  define c2 where "c2 = ce\<lparr>fc_states := [(key, st')], fc_bytes := frag_bytes st'\<rparr>"
  have upd: "ce\<lparr>fc_states := AList.update key st' (fc_states ce)\<rparr>\<lparr>fc_bytes := sat_add64 (fc_bytes ce) (length d + 64)\<rparr> = c2"
    using st(1) bytes(2,3) by (simp add: c2_def only_def sat_add64_def)
  have ins: "fragment_cache_insert c now key o' mf d wl = Some (finish_insert key (ce\<lparr>fc_states := AList.update key st' (fc_states ce)\<rparr>) m None False (length d + 64))"
    unfolding ce_def by (rule insert_unfold [OF m full_mem(5) [OF cut f(1)] _ p(1)]) (use st(1) in \<open>simp add: only_def ce_def\<close>)
  have lim2: "same_limits c c2" using st(3) by (simp add: c2_def same_limits_def)
  have sub: "?P \<subseteq> set (fragments_of 0 ds)" using P f(1) by simp
  show ?thesis
  proof (cases "?P = set (fragments_of 0 ds)")
    case True
    then have "frag_pieces st' = map piece_entry (fragments_of 0 ds)" "frag_total_len st' = Some (length (concat ds))"
      using complete_iff_all(1) [OF cut p(2) sub] by simp_all
    moreover have "frag_wire_bytes st' = w + wl" using p(2) by (simp add: holding_def)
    ultimately have "try_complete key c2 = (c2\<lparr>fc_states := [], fc_bytes := 0\<rparr>, FragComplete (concat ds) (w + wl))"
      using fragments_of_contiguous [of 0 ds] cut by (simp add: try_complete_def c2_def cut_ok_def)
    then show ?thesis
      using True ins upd lim2 by (auto simp: finish_insert_def same_limits_def Let_def)
  next
    case False
    then have "try_complete key c2 = (c2, FragPending)"
      using complete_iff_all(2) [OF cut p(2) sub] by (auto simp: try_complete_def c2_def split: option.splits)
    moreover have "evict_loop c2 n = (c2, n)" for n
      using lim bytes(1) st(3) by (subst evict_loop.simps) (simp add: c2_def same_limits_def)
    ultimately show ?thesis
      using False ins upd lim2 p(2,3) by (auto simp: finish_insert_def Let_def only_def c2_def)
  qed
qed

text \<open>Fragments arriving one after the other, each with its clock reading and wire length.\<close>

fun insert_fragments ::
  "fragment_cache \<Rightarrow> fragment_key \<Rightarrow> (nat \<times> nat \<times> nat \<times> bool \<times> bytes) list \<Rightarrow>
   (fragment_cache \<times> fragment_insert list) option" where
  "insert_fragments c key [] = Some (c, [])"
| "insert_fragments c key ((now, wl, offset, mf, d) # fs) = do {
     (c, r, _) \<leftarrow> fragment_cache_insert c now key offset mf d wl;
     (c, rs) \<leftarrow> insert_fragments c key fs;
     Some (c, r # rs)
   }"

definition frag_part :: "nat \<times> nat \<times> nat \<times> bool \<times> bytes \<Rightarrow> nat \<times> bool \<times> bytes" where
  "frag_part = (\<lambda>(now, wl, f). f)"

lemma insert_fragments_complete:
  assumes cut: "cut_ok ds" and "arr \<noteq> []" "distinct (map frag_part arr)" "frag_part ` set arr \<inter> P = {}"
    and all: "frag_part ` set arr \<union> P = set (fragments_of 0 ds)"
    and c: "fc_states c = [] \<and> fc_bytes c = 0 \<and> P = {} \<and> w = 0 \<or> (\<exists>st. only key st c \<and> holding ds P w st \<and> lo \<le> frag_last_seen st)"
    and times: "\<forall>x \<in> set arr. lo \<le> fst x \<and> fst x < lo + fc_timeout c"
    and wire: "w + (\<Sum>x\<leftarrow>arr. fst (snd x)) \<le> u64_max"
    and lim: "256 + length (concat ds) + 64 * length ds \<le> fc_max_bytes c" "1 \<le> fc_max_datagrams c"
  shows "\<exists>c'. insert_fragments c key arr = Some (c', replicate (length arr - 1) FragPending @
      [FragComplete (concat ds) (w + (\<Sum>x\<leftarrow>arr. fst (snd x)))]) \<and> fc_states c' = []"
  using assms(2-)
proof (induction arr arbitrary: c P w)
  case (Cons x arr)
  obtain now wl o' mf d where x: "x = (now, wl, o', mf, d)" by (metis prod_cases5)
  let ?f = "(o', mf, d)"
  have f: "?f \<in> set (fragments_of 0 ds)" "?f \<notin> P" "P \<subseteq> set (fragments_of 0 ds)"
    using Cons.prems(3,4) by (auto simp: x frag_part_def)
  have wle: "w + wl \<le> u64_max" using Cons.prems(7) by (simp add: x)
  have "\<forall>st. lo \<le> frag_last_seen st \<longrightarrow> now - frag_last_seen st < fc_timeout c"
    using Cons.prems(6) by (auto simp: x)
  then have c: "fc_states c = [] \<and> fc_bytes c = 0 \<and> P = {} \<and> w = 0 \<or>
      (\<exists>st. only key st c \<and> holding ds P w st \<and> now - frag_last_seen st < fc_timeout c)"
    using Cons.prems(5) by blast
  note step = insert_new_fragment [OF cut f(3,1,2) wle c Cons.prems(8,9)]
  have fresh: "?f \<notin> frag_part ` set arr" using Cons.prems(2) by (auto simp: x frag_part_def image_iff)
  show ?case
  proof (cases "arr = []")
    case True
    then have "insert ?f P = set (fragments_of 0 ds)" using Cons.prems(4) by (simp add: x frag_part_def)
    then show ?thesis using step True by (auto simp: x)
  next
    case False
    then obtain y where y: "y \<in> frag_part ` set arr" by (metis equals0I image_is_empty set_empty)
    have "y \<noteq> ?f" using y fresh by metis
    moreover have "y \<notin> P" using y Cons.prems(3) by auto
    ultimately have "insert ?f P \<noteq> set (fragments_of 0 ds)" using Cons.prems(4) y by auto
    with step obtain c' m st where s: "same_limits c c'" "fragment_cache_insert c now key o' mf d wl = Some (c', FragPending, m)"
      "only key st c'" "holding ds (insert ?f P) (w + wl) st" "frag_last_seen st = now"
      by auto
    have "\<exists>c''. insert_fragments c' key arr = Some (c'', replicate (length arr - 1) FragPending @
        [FragComplete (concat ds) (w + wl + (\<Sum>x\<leftarrow>arr. fst (snd x)))]) \<and> fc_states c'' = []"
    proof (rule Cons.IH [OF False])
      show "frag_part ` set arr \<inter> insert ?f P = {}" using fresh Cons.prems(3) by auto
      show "frag_part ` set arr \<union> insert ?f P = set (fragments_of 0 ds)"
        using Cons.prems(4) by (auto simp: x frag_part_def)
      show "fc_states c' = [] \<and> fc_bytes c' = 0 \<and> insert ?f P = {} \<and> w + wl = 0 \<or>
          (\<exists>st. only key st c' \<and> holding ds (insert ?f P) (w + wl) st \<and> lo \<le> frag_last_seen st)"
        using s(3-5) Cons.prems(6) by (auto simp: x)
    qed (use Cons.prems s(1) in \<open>auto simp: x same_limits_def\<close>)
    then show ?thesis using s(2) False by (cases arr) (auto simp: x add.assoc)
  qed
qed simp

text \<open>C25: every datagram completes. Cut a datagram of at most 64 KiB into non-empty fragments, all but
  the last a multiple of eight bytes long, and let them arrive in any order on a shard with nothing
  else in it, within the timeout and the shard's capacity: every call but the last reports a pending
  datagram, the last one returns the whole datagram and the sum of the wire lengths, and the shard is
  empty again.\<close>

theorem fragments_any_order:
  assumes "cut_ok ds" "mset (map frag_part arr) = mset (fragments_of 0 ds)"
    and "\<forall>x \<in> set arr. lo \<le> fst x \<and> fst x < lo + fc_timeout c"
    and "(\<Sum>x\<leftarrow>arr. fst (snd x)) \<le> u64_max"
    and "fc_states c = []" "fc_bytes c = 0"
    and "256 + length (concat ds) + 64 * length ds \<le> fc_max_bytes c" "1 \<le> fc_max_datagrams c"
  shows "\<exists>c'. insert_fragments c key arr = Some (c', replicate (length arr - 1) FragPending @
      [FragComplete (concat ds) (\<Sum>x\<leftarrow>arr. fst (snd x))]) \<and> fc_states c' = []"
proof -
  have "distinct (fragments_of 0 ds)"
    using om_invar_distinct [OF sorted_full [OF assms(1)]] by (simp add: distinct_map)
  then have "distinct (map frag_part arr)" using assms(2) by (metis mset_eq_imp_distinct_iff)
  moreover have "set (map frag_part arr) = set (fragments_of 0 ds)" using assms(2) by (metis mset_eq_setD)
  moreover have "arr \<noteq> []" using assms(1,2) by (cases ds) (auto simp: cut_ok_def)
  ultimately show ?thesis
    using insert_fragments_complete [OF assms(1), of arr "{}" c 0 key lo] assms(3-8) by simp
qed

definition example_arrivals :: "(nat \<times> nat \<times> nat \<times> bool \<times> bytes) list" where
  "example_arrivals = [(2, 30, 8, False, [9, 10]), (1, 40, 0, True, [1, 2, 3, 4, 5, 6, 7, 8])]"

theorem fragments_any_order_witness:
  "\<exists>c'. insert_fragments (new_fragment_cache 65536 4 5 0) example_key example_arrivals
     = Some (c', [FragPending, FragComplete [1, 2, 3, 4, 5, 6, 7, 8, 9, 10] 70]) \<and> fc_states c' = []"
  using fragments_any_order [of "[[1, 2, 3, 4, 5, 6, 7, 8], [9, 10]]" example_arrivals 0 "new_fragment_cache 65536 4 5 0" example_key]
  by (simp add: cut_ok_def new_fragment_cache_def frag_part_def example_arrivals_def)

end
