(* ===== verification/Packet_Decoder.thy ===== *)
theory Packet_Decoder
  imports Fragment
begin

unbundle bit_operations_syntax

text \<open>
  The packet decoder of \<open>src/src/capture/parser.rs\<close>: Ethernet with up to four VLAN tags, IPv4 and IPv6
  with fragments and extension headers, TCP, UDP, and the tunnels VXLAN, GRE, IPIP and 6in4 down to a
  fixed depth.

  Every index and every slice of the source is a checked access here, so an access out of bounds is the
  value \<open>None\<close>. A call returns the decoder (fragment shards, counters) with an error or an outcome. The
  decoder functions call each other across tunnel levels; here each one takes the decoder of the next
  level as the argument \<open>inner\<close>, and \<open>decode_levels\<close> ties the knot by recursion on the levels that are
  left. The level below the last is \<open>None\<close>: the theorem that decoding never fails shows that the depth
  guards of the source never let it be reached.

  The clock reading of the fragment cache at tunnel depth \<open>d\<close> is \<open>clk d\<close> (one insertion per depth), and
  the randomized hasher of the cache is \<open>hash\<close>; both are fields of the environment.
\<close>

subsection \<open>Outcomes, errors, state\<close>

datatype inner_outcome = Packet parsed_packet | PendingFragment | Ignored

datatype decode_error =
    TruncatedEthernet | TruncatedVlan
  | TruncatedIpv4 | InvalidIpv4Version | InvalidIpv4Ihl | TruncatedIpv4Options
  | InvalidIpv4TotalLength | TruncatedIpv4Packet nat nat
  | TruncatedIpv6 | InvalidIpv6Version | TruncatedIpv6Packet nat nat
  | TruncatedIpv6Extension | TruncatedIpv6ExtensionBody byte | TruncatedIpv6Auth | TruncatedIpv6AuthBody
  | TruncatedReassembledExtension | TruncatedReassembledExtensionBody
  | TruncatedReassembledAuth | TruncatedReassembledAuthBody
  | TruncatedIpv6FragmentHeader | InvalidIpv6PayloadOffset
  | TruncatedTcp | InvalidTcpDataOffset | TruncatedTcpOptions
  | TruncatedUdp | InvalidUdpLength | TruncatedUdpDatagram nat nat
  | TruncatedGre | TruncatedGreKey | TruncatedGreRoutingEntry | TruncatedGreRoutingData

record decoder_metrics =
  dm_truncated :: u64
  dm_fragments_received :: u64
  dm_fragments_reassembled :: u64
  dm_fragment_overlap_drops :: u64
  dm_fragment_expired :: u64
  dm_fragment_evicted :: u64

record packet_decoder =
  pd_fragments :: "fragment_cache list"
  pd_metrics :: "decoder_metrics option"
  pd_tunnel_decapsulation :: bool

record decode_env =
  env_hash :: "fragment_key \<Rightarrow> u64"
  env_clk :: "nat \<Rightarrow> nat"

record captured_frame =
  cf_ts_ns :: nat
  cf_wire_len :: nat
  cf_data :: bytes

type_synonym decode_result = "((decode_error + inner_outcome) \<times> packet_decoder) option"

datatype inner_kind = InnerEthernet | InnerIpv4 | InnerIpv6

text \<open>The decoder of the next tunnel level: what to decode, the state, time stamp, wire length, bytes and
  domain.\<close>

type_synonym inner_decoder =
  "inner_kind \<Rightarrow> packet_decoder \<Rightarrow> nat \<Rightarrow> nat \<Rightarrow> bytes \<Rightarrow> u64 \<Rightarrow> decode_result"

abbreviation max_tunnel_depth :: nat where "max_tunnel_depth \<equiv> 3"
abbreviation ethertype_ipv4 :: u16 where "ethertype_ipv4 \<equiv> 0x0800"
abbreviation ethertype_ipv6 :: u16 where "ethertype_ipv6 \<equiv> 0x86dd"
abbreviation ethertype_teb :: u16 where "ethertype_teb \<equiv> 0x6558"

subsection \<open>Checked reads\<close>

definition byte_at :: "bytes \<Rightarrow> nat \<Rightarrow> byte option" where
  "byte_at xs i = (if i < length xs then Some (xs ! i) else None)"

definition be_word :: "bytes \<Rightarrow> 'a::len word" where
  "be_word bs = fold (\<lambda>b acc. push_bit 8 acc OR ucast b) bs 0"

definition u16_at :: "bytes \<Rightarrow> nat \<Rightarrow> u16 option" where
  "u16_at xs i = do { a \<leftarrow> byte_at xs i; b \<leftarrow> byte_at xs (i + 1); Some (be_word [a, b]) }"

definition u32_at :: "bytes \<Rightarrow> nat \<Rightarrow> u32 option" where
  "u32_at xs i = do {
     a \<leftarrow> byte_at xs i; b \<leftarrow> byte_at xs (i + 1); c \<leftarrow> byte_at xs (i + 2); d \<leftarrow> byte_at xs (i + 3);
     Some (be_word [a, b, c, d]) }"

subsection \<open>Counters\<close>

definition bump :: "(decoder_metrics \<Rightarrow> decoder_metrics) \<Rightarrow> packet_decoder \<Rightarrow> packet_decoder" where
  "bump f d = d\<lparr>pd_metrics := map_option f (pd_metrics d)\<rparr>"

definition mark_truncated :: "packet_decoder \<Rightarrow> packet_decoder" where
  "mark_truncated = bump (\<lambda>m. m\<lparr>dm_truncated := dm_truncated m + 1\<rparr>)"

definition fragment_received :: "packet_decoder \<Rightarrow> packet_decoder" where
  "fragment_received = bump (\<lambda>m. m\<lparr>dm_fragments_received := dm_fragments_received m + 1\<rparr>)"

definition fragment_reassembled :: "packet_decoder \<Rightarrow> packet_decoder" where
  "fragment_reassembled = bump (\<lambda>m. m\<lparr>dm_fragments_reassembled := dm_fragments_reassembled m + 1\<rparr>)"

definition fragment_overlap_drop :: "packet_decoder \<Rightarrow> packet_decoder" where
  "fragment_overlap_drop = bump (\<lambda>m. m\<lparr>dm_fragment_overlap_drops := dm_fragment_overlap_drops m + 1\<rparr>)"

definition apply_fragment_maintenance :: "fragment_maintenance \<Rightarrow> packet_decoder \<Rightarrow> packet_decoder" where
  "apply_fragment_maintenance mt = bump (\<lambda>m.
     let m = (if fm_expired mt \<noteq> 0
              then m\<lparr>dm_fragment_expired := dm_fragment_expired m + of_nat (fm_expired mt)\<rparr> else m)
     in (if fm_evicted mt \<noteq> 0
         then m\<lparr>dm_fragment_evicted := dm_fragment_evicted m + of_nat (fm_evicted mt)\<rparr> else m))"

definition bail :: "decode_error \<Rightarrow> packet_decoder \<Rightarrow> decode_result" where
  "bail e d = Some (Inl e, d)"

definition bail_truncated :: "decode_error \<Rightarrow> packet_decoder \<Rightarrow> decode_result" where
  "bail_truncated e d = Some (Inl e, mark_truncated d)"

subsection \<open>Domains\<close>

definition rotl64 :: "nat \<Rightarrow> u64 \<Rightarrow> u64" where
  "rotl64 n w = push_bit n w OR drop_bit (64 - n) w"

definition mix_domain :: "u64 \<Rightarrow> u64 \<Rightarrow> u64 \<Rightarrow> u64" where
  "mix_domain domain kind val =
     (let z = domain XOR rotl64 17 kind XOR (val * 0x9e3779b97f4a7c15);
          z = z XOR drop_bit 30 z;
          z = z * 0xbf58476d1ce4e5b9;
          z = z XOR drop_bit 27 z;
          z = z * 0x94d049bb133111eb
      in (z XOR drop_bit 31 z) OR 1)"

text \<open>The derived order of \<open>IpAddr\<close>: all IPv4 addresses before all IPv6 addresses.\<close>

fun ip_le :: "ip_addr \<Rightarrow> ip_addr \<Rightarrow> bool" where
  "ip_le (V4 a) (V4 b) = (a \<le> b)"
| "ip_le (V4 a) (V6 b) = True"
| "ip_le (V6 a) (V4 b) = False"
| "ip_le (V6 a) (V6 b) = (a \<le> b)"

definition mix_tunnel_ip :: "u64 \<Rightarrow> u64 \<Rightarrow> ip_addr \<Rightarrow> u64 \<Rightarrow> u64" where
  "mix_tunnel_ip kind tag ip domain =
     (case ip of
        V4 v4 \<Rightarrow> mix_domain domain (kind XOR tag) (ucast v4)
      | V6 v6 \<Rightarrow> mix_domain (mix_domain domain (kind XOR tag) (ucast (drop_bit 64 v6)))
                   (kind XOR rotl64 7 tag) (ucast v6))"

definition mix_tunnel_domain :: "u64 \<Rightarrow> u64 \<Rightarrow> ip_addr \<Rightarrow> ip_addr \<Rightarrow> u64 \<Rightarrow> u64" where
  "mix_tunnel_domain domain kind src dst tid =
     (let (first, second) = (if ip_le src dst then (src, dst) else (dst, src));
          domain = mix_domain domain kind tid;
          domain = mix_tunnel_ip kind 0x53524301 first domain
      in mix_tunnel_ip kind 0x44535402 second domain)"

subsection \<open>Transport\<close>

definition parse_flags :: "byte \<Rightarrow> tcp_flags" where
  "parse_flags bits = \<lparr>flag_fin = bit bits 0, flag_syn = bit bits 1, flag_rst = bit bits 2,
                       flag_psh = bit bits 3, flag_ack = bit bits 4\<rparr>"

definition parse_tcp ::
  "packet_decoder \<Rightarrow> nat \<Rightarrow> nat \<Rightarrow> ip_addr \<Rightarrow> ip_addr \<Rightarrow> bytes \<Rightarrow> u64 \<Rightarrow> decode_result" where
  "parse_tcp d ts wire_len src dst tcp l2_domain =
     (if length tcp < 20 then bail_truncated TruncatedTcp d
      else do {
        src_port \<leftarrow> u16_at tcp 0;
        dst_port \<leftarrow> u16_at tcp 2;
        seq \<leftarrow> u32_at tcp 4;
        ack \<leftarrow> u32_at tcp 8;
        b12 \<leftarrow> byte_at tcp 12;
        let data_offset = unat (drop_bit 4 b12) * 4;
        if data_offset < 20 then bail InvalidTcpDataOffset d
        else if data_offset > length tcp then bail_truncated TruncatedTcpOptions d
        else do {
          bits \<leftarrow> byte_at tcp 13;
          let (key, direction) = canonical_with_domain src src_port dst dst_port Tcp l2_domain;
          payload \<leftarrow> slice_chk data_offset (length tcp) tcp;
          Some (Inr (Packet \<lparr>pkt_ts_ns = ts, pkt_key = key, pkt_direction = direction, pkt_seq = Some seq,
                  pkt_ack = Some ack, pkt_flags = parse_flags bits, pkt_payload = payload,
                  pkt_wire_len = wire_len\<rparr>), d)
        }
      })"

definition plain_udp ::
  "packet_decoder \<Rightarrow> nat \<Rightarrow> nat \<Rightarrow> ip_addr \<Rightarrow> ip_addr \<Rightarrow> u16 \<Rightarrow> u16 \<Rightarrow> nat \<Rightarrow> bytes \<Rightarrow> u64 \<Rightarrow> decode_result" where
  "plain_udp d ts wire_len src dst src_port dst_port udp_len udp l2_domain =
     do {
       let (key, direction) = canonical_with_domain src src_port dst dst_port Udp l2_domain;
       payload \<leftarrow> slice_chk 8 udp_len udp;
       Some (Inr (Packet \<lparr>pkt_ts_ns = ts, pkt_key = key, pkt_direction = direction, pkt_seq = None,
               pkt_ack = None, pkt_flags = default_flags, pkt_payload = payload,
               pkt_wire_len = wire_len\<rparr>), d)
     }"

definition decode_udp ::
  "inner_decoder \<Rightarrow> packet_decoder \<Rightarrow> nat \<Rightarrow> nat \<Rightarrow> ip_addr \<Rightarrow> ip_addr \<Rightarrow> bytes \<Rightarrow> u64 \<Rightarrow> nat \<Rightarrow> decode_result" where
  "decode_udp inner d ts wire_len src dst udp l2_domain depth =
     (if length udp < 8 then bail_truncated TruncatedUdp d
      else do {
        src_port \<leftarrow> u16_at udp 0;
        dst_port \<leftarrow> u16_at udp 2;
        len_word \<leftarrow> u16_at udp 4;
        let udp_len = unat len_word;
        if udp_len < 8 then bail InvalidUdpLength d
        else if udp_len > length udp then bail_truncated (TruncatedUdpDatagram udp_len (length udp)) d
        else if pd_tunnel_decapsulation d \<and> depth < max_tunnel_depth \<and> (dst_port = 4789 \<or> dst_port = 8472)
        then do {
          vxlan \<leftarrow> slice_chk 8 udp_len udp;
          vx \<leftarrow> (if length vxlan \<ge> 8 then do { b \<leftarrow> byte_at vxlan 0; Some (bit b 3) } else Some False);
          if vx then do {
            v4 \<leftarrow> byte_at vxlan 4;
            v5 \<leftarrow> byte_at vxlan 5;
            v6 \<leftarrow> byte_at vxlan 6;
            let vni = push_bit 16 (ucast v4) OR push_bit 8 (ucast v5) OR ucast v6;
            let domain = mix_tunnel_domain l2_domain 0x56584c41 src dst vni;
            rest \<leftarrow> slice_chk 8 (length vxlan) vxlan;
            inner InnerEthernet d ts wire_len rest domain
          }
          else plain_udp d ts wire_len src dst src_port dst_port udp_len udp l2_domain
        }
        else plain_udp d ts wire_len src dst src_port dst_port udp_len udp l2_domain
      })"

subsection \<open>GRE\<close>

text \<open>The source-route loop: the offset behind the terminating entry, or the reason to bail out.\<close>

function gre_routes :: "bytes \<Rightarrow> nat \<Rightarrow> (decode_error + nat) option" where
  "gre_routes gre offset =
     (if offset + 4 > length gre then Some (Inl TruncatedGreRoutingEntry)
      else do {
        af \<leftarrow> u16_at gre offset;
        len_byte \<leftarrow> byte_at gre (offset + 3);
        let len = unat len_byte;
        let offset = offset + 4;
        if af = 0 \<and> len = 0 then Some (Inr offset)
        else if offset + len > length gre then Some (Inl TruncatedGreRoutingData)
        else gre_routes gre (offset + len)
      })"
  by pat_completeness auto
termination
  by (relation "measure (\<lambda>(gre, offset). length gre - offset)") auto

declare gre_routes.simps [simp del]

text \<open>The offset and the key behind the optional words of the GRE header.\<close>

definition gre_key_word :: "u16 \<Rightarrow> bytes \<Rightarrow> nat \<Rightarrow> (decode_error + u64 \<times> nat) option" where
  "gre_key_word flags gre offset =
     (if flags AND 0x2000 \<noteq> 0 then
        if offset + 4 > length gre then Some (Inl TruncatedGreKey)
        else do { k \<leftarrow> u32_at gre offset; Some (Inr (ucast k, offset + 4)) }
      else Some (Inr (0, offset)))"

definition decode_gre ::
  "inner_decoder \<Rightarrow> packet_decoder \<Rightarrow> nat \<Rightarrow> nat \<Rightarrow> ip_addr \<Rightarrow> ip_addr \<Rightarrow> bytes \<Rightarrow> u64 \<Rightarrow> nat \<Rightarrow> decode_result" where
  "decode_gre inner d ts wire_len outer_src outer_dst gre l2_domain depth =
     (if depth \<ge> max_tunnel_depth then Some (Inr Ignored, d)
      else if length gre < 4 then bail_truncated TruncatedGre d
      else do {
        flags \<leftarrow> u16_at gre 0;
        if flags AND 0x0007 \<noteq> 0 then Some (Inr Ignored, d)
        else do {
          proto \<leftarrow> u16_at gre 2;
          let offset = (if flags AND 0xc000 \<noteq> 0 then sat_add64 4 4 else 4);
          key \<leftarrow> gre_key_word flags gre offset;
          case key of
            Inl e \<Rightarrow> bail_truncated e d
          | Inr (gre_key, offset) \<Rightarrow> do {
              let offset = (if flags AND 0x1000 \<noteq> 0 then sat_add64 offset 4 else offset);
              routed \<leftarrow> (if flags AND 0x4000 \<noteq> 0 then gre_routes gre offset else Some (Inr offset));
              case routed of
                Inl e \<Rightarrow> bail_truncated e d
              | Inr offset \<Rightarrow>
                  if offset > length gre then bail_truncated TruncatedGre d
                  else do {
                    let domain = mix_tunnel_domain l2_domain 0x47524520 outer_src outer_dst gre_key;
                    rest \<leftarrow> slice_chk offset (length gre) gre;
                    if proto = ethertype_ipv4 then inner InnerIpv4 d ts wire_len rest domain
                    else if proto = ethertype_ipv6 then inner InnerIpv6 d ts wire_len rest domain
                    else if proto = ethertype_teb then inner InnerEthernet d ts wire_len rest domain
                    else Some (Inr Ignored, d)
                  }
            }
        }
      })"

subsection \<open>IP payload\<close>

definition decode_ip_payload ::
  "inner_decoder \<Rightarrow> packet_decoder \<Rightarrow> nat \<Rightarrow> nat \<Rightarrow> ip_addr \<Rightarrow> ip_addr \<Rightarrow> byte \<Rightarrow> bytes \<Rightarrow> u64 \<Rightarrow> nat \<Rightarrow>
   decode_result" where
  "decode_ip_payload inner d ts wire_len src dst protocol payload l2_domain depth =
     (let tunnel = pd_tunnel_decapsulation d \<and> depth < max_tunnel_depth in
      if protocol = 6 then parse_tcp d ts wire_len src dst payload l2_domain
      else if protocol = 17 then decode_udp inner d ts wire_len src dst payload l2_domain depth
      else if protocol = 47 \<and> tunnel then decode_gre inner d ts wire_len src dst payload l2_domain depth
      else if protocol = 4 \<and> tunnel then
        inner InnerIpv4 d ts wire_len payload (mix_tunnel_domain l2_domain 0x49504950 src dst 4)
      else if protocol = 41 \<and> tunnel then
        inner InnerIpv6 d ts wire_len payload (mix_tunnel_domain l2_domain 0x49504950 src dst 6)
      else Some (Inr Ignored, d))"

text \<open>The fragment step shared by both IP versions: count, insert, account for the maintenance, and on a
  completed datagram go on with its payload and accumulated wire length.\<close>

definition insert_fragment ::
  "decode_env \<Rightarrow> nat \<Rightarrow> packet_decoder \<Rightarrow> fragment_key \<Rightarrow> nat \<Rightarrow> bool \<Rightarrow> bytes \<Rightarrow> nat \<Rightarrow>
   (packet_decoder \<Rightarrow> nat \<Rightarrow> bytes \<Rightarrow> decode_result) \<Rightarrow> decode_result" where
  "insert_fragment env depth d key offset mf payload wire_len complete =
     do {
       let d = fragment_received d;
       (shards, result, mt) \<leftarrow>
         shared_insert (env_hash env) (pd_fragments d) (env_clk env depth) key offset mf payload wire_len;
       let d = apply_fragment_maintenance mt (d\<lparr>pd_fragments := shards\<rparr>);
       case result of
         FragPending \<Rightarrow> Some (Inr PendingFragment, d)
       | DroppedOverlap \<Rightarrow> Some (Inr Ignored, fragment_overlap_drop d)
       | DroppedInvalid \<Rightarrow> Some (Inr Ignored, d)
       | FragComplete whole wire_bytes \<Rightarrow> complete (fragment_reassembled d) wire_bytes whole
     }"

definition decode_ipv4 ::
  "decode_env \<Rightarrow> inner_decoder \<Rightarrow> packet_decoder \<Rightarrow> nat \<Rightarrow> nat \<Rightarrow> bytes \<Rightarrow> u64 \<Rightarrow> nat \<Rightarrow> decode_result" where
  "decode_ipv4 env inner d ts wire_len packet l2_domain depth =
     (if length packet < 20 then bail_truncated TruncatedIpv4 d
      else do {
        b0 \<leftarrow> byte_at packet 0;
        if drop_bit 4 b0 \<noteq> 4 then bail InvalidIpv4Version d
        else do {
          let ihl = unat (b0 AND 0x0f) * 4;
          if ihl < 20 then bail InvalidIpv4Ihl d
          else if length packet < ihl then bail_truncated TruncatedIpv4Options d
          else do {
            len_word \<leftarrow> u16_at packet 2;
            let total_len = unat len_word;
            if total_len < ihl then bail InvalidIpv4TotalLength d
            else if total_len > length packet
            then bail_truncated (TruncatedIpv4Packet total_len (length packet)) d
            else do {
              src \<leftarrow> map_option V4 (u32_at packet 12);
              dst \<leftarrow> map_option V4 (u32_at packet 16);
              protocol \<leftarrow> byte_at packet 9;
              frag \<leftarrow> u16_at packet 6;
              let offset = unat (frag AND 0x1fff) * 8;
              let mf = (frag AND 0x2000 \<noteq> 0);
              payload \<leftarrow> slice_chk ihl total_len packet;
              if offset \<noteq> 0 \<or> mf then do {
                ident \<leftarrow> u16_at packet 4;
                insert_fragment env depth d
                  \<lparr>fk_version = 4, fk_l2_domain = l2_domain, fk_src = src, fk_dst = dst,
                   fk_id = ucast ident, fk_next_header = protocol\<rparr> offset mf payload wire_len
                  (\<lambda>d wire_bytes whole.
                     decode_ip_payload inner d ts wire_bytes src dst protocol whole l2_domain depth)
              }
              else decode_ip_payload inner d ts wire_len src dst protocol payload l2_domain depth
            }
          }
        }
      })"

subsection \<open>IPv6\<close>

text \<open>
  The two loops over extension headers, before and behind a fragment header, differ in their messages
  only. The walk stops at the first header that is no extension: its type and its offset.
\<close>

definition is_options_header :: "byte \<Rightarrow> bool" where
  "is_options_header nh \<longleftrightarrow> nh = 0 \<or> nh = 43 \<or> nh = 60"

function ipv6_walk :: "bool \<Rightarrow> bytes \<Rightarrow> nat \<Rightarrow> byte \<Rightarrow> nat \<Rightarrow> (decode_error + byte \<times> nat) option" where
  "ipv6_walk reassembled packet limit nh offset =
     (if is_options_header nh then
        if offset + 2 > limit
        then Some (Inl (if reassembled then TruncatedReassembledExtension else TruncatedIpv6Extension))
        else do {
          following \<leftarrow> byte_at packet offset;
          len_byte \<leftarrow> byte_at packet (offset + 1);
          let len = (unat len_byte + 1) * 8;
          if offset + len > limit
          then Some (Inl (if reassembled then TruncatedReassembledExtensionBody
                          else TruncatedIpv6ExtensionBody nh))
          else ipv6_walk reassembled packet limit following (offset + len)
        }
      else if nh = 51 then
        if offset + 2 > limit
        then Some (Inl (if reassembled then TruncatedReassembledAuth else TruncatedIpv6Auth))
        else do {
          following \<leftarrow> byte_at packet offset;
          len_byte \<leftarrow> byte_at packet (offset + 1);
          let len = (unat len_byte + 2) * 4;
          if offset + len > limit
          then Some (Inl (if reassembled then TruncatedReassembledAuthBody else TruncatedIpv6AuthBody))
          else ipv6_walk reassembled packet limit following (offset + len)
        }
      else Some (Inr (nh, offset)))"
  by pat_completeness auto
termination
  by (relation "measure (\<lambda>(_, _, limit, _, offset). limit - offset)") auto

declare ipv6_walk.simps [simp del]

definition decode_ipv6_post_fragment ::
  "inner_decoder \<Rightarrow> packet_decoder \<Rightarrow> nat \<Rightarrow> nat \<Rightarrow> ip_addr \<Rightarrow> ip_addr \<Rightarrow> byte \<Rightarrow> bytes \<Rightarrow> u64 \<Rightarrow> nat \<Rightarrow>
   decode_result" where
  "decode_ipv6_post_fragment inner d ts wire_len src dst nh payload l2_domain depth =
     do {
       walked \<leftarrow> ipv6_walk True payload (length payload) nh 0;
       case walked of
         Inl e \<Rightarrow> bail_truncated e d
       | Inr (nh, offset) \<Rightarrow>
           if nh = 44 then Some (Inr Ignored, d)
           else do {
             rest \<leftarrow> slice_chk offset (length payload) payload;
             decode_ip_payload inner d ts wire_len src dst nh rest l2_domain depth
           }
     }"

text \<open>The branch of the loop that meets a fragment header at \<open>offset\<close>.\<close>

definition decode_ipv6_fragment ::
  "decode_env \<Rightarrow> inner_decoder \<Rightarrow> packet_decoder \<Rightarrow> nat \<Rightarrow> nat \<Rightarrow> ip_addr \<Rightarrow> ip_addr \<Rightarrow> bytes \<Rightarrow> nat \<Rightarrow> nat \<Rightarrow>
   u64 \<Rightarrow> nat \<Rightarrow> decode_result" where
  "decode_ipv6_fragment env inner d ts wire_len src dst packet ip_len offset l2_domain depth =
     (if offset + 8 > ip_len then bail_truncated TruncatedIpv6FragmentHeader d
      else do {
        frag_next \<leftarrow> byte_at packet offset;
        frag \<leftarrow> u16_at packet (offset + 2);
        let fragment_offset = unat (frag AND 0xfff8);
        let mf = (frag AND 1 \<noteq> 0);
        ident \<leftarrow> u32_at packet (offset + 4);
        fragment_payload \<leftarrow> slice_chk (offset + 8) ip_len packet;
        if fragment_offset = 0 \<and> \<not> mf
        then decode_ipv6_post_fragment inner d ts wire_len src dst frag_next fragment_payload l2_domain depth
        else insert_fragment env depth d
               \<lparr>fk_version = 6, fk_l2_domain = l2_domain, fk_src = src, fk_dst = dst,
                fk_id = ident, fk_next_header = frag_next\<rparr> fragment_offset mf fragment_payload wire_len
               (\<lambda>d wire_bytes whole.
                  decode_ipv6_post_fragment inner d ts wire_bytes src dst frag_next whole l2_domain depth)
      })"

definition decode_ipv6 ::
  "decode_env \<Rightarrow> inner_decoder \<Rightarrow> packet_decoder \<Rightarrow> nat \<Rightarrow> nat \<Rightarrow> bytes \<Rightarrow> u64 \<Rightarrow> nat \<Rightarrow> decode_result" where
  "decode_ipv6 env inner d ts wire_len packet l2_domain depth =
     (if length packet < 40 then bail_truncated TruncatedIpv6 d
      else do {
        b0 \<leftarrow> byte_at packet 0;
        if drop_bit 4 b0 \<noteq> 6 then bail InvalidIpv6Version d
        else do {
          len_word \<leftarrow> u16_at packet 4;
          let ip_len = sat_add64 40 (unat len_word);
          if ip_len > length packet then bail_truncated (TruncatedIpv6Packet ip_len (length packet)) d
          else do {
            src \<leftarrow> map_option (V6 \<circ> be_word) (slice_chk 8 24 packet);
            dst \<leftarrow> map_option (V6 \<circ> be_word) (slice_chk 24 40 packet);
            first \<leftarrow> byte_at packet 6;
            walked \<leftarrow> ipv6_walk False packet ip_len first 40;
            case walked of
              Inl e \<Rightarrow> bail_truncated e d
            | Inr (nh, offset) \<Rightarrow>
                if nh = 44
                then decode_ipv6_fragment env inner d ts wire_len src dst packet ip_len offset l2_domain depth
                else if offset > ip_len then bail InvalidIpv6PayloadOffset d
                else do {
                  payload \<leftarrow> slice_chk offset ip_len packet;
                  decode_ip_payload inner d ts wire_len src dst nh payload l2_domain depth
                }
          }
        }
      })"

subsection \<open>Ethernet\<close>

definition is_vlan :: "u16 \<Rightarrow> bool" where
  "is_vlan et \<longleftrightarrow> et = 0x8100 \<or> et = 0x88a8 \<or> et = 0x9100 \<or> et = 0x9200"

text \<open>At most \<open>n\<close> tags: ethertype, offset of the network header, domain.\<close>

fun vlan_tags :: "nat \<Rightarrow> bytes \<Rightarrow> u16 \<Rightarrow> nat \<Rightarrow> u64 \<Rightarrow> (decode_error + u16 \<times> nat \<times> u64) option" where
  "vlan_tags 0 frame et l3_offset domain = Some (Inr (et, l3_offset, domain))"
| "vlan_tags (Suc n) frame et l3_offset domain =
     (if is_vlan et then
        if length frame < l3_offset + 4 then Some (Inl TruncatedVlan)
        else do {
          tci \<leftarrow> u16_at frame l3_offset;
          et \<leftarrow> u16_at frame (l3_offset + 2);
          vlan_tags n frame et (l3_offset + 4) (mix_domain domain 0x564c414e (ucast (tci AND 0x0fff)))
        }
      else Some (Inr (et, l3_offset, domain)))"

definition decode_ethernet_bytes ::
  "decode_env \<Rightarrow> inner_decoder \<Rightarrow> packet_decoder \<Rightarrow> nat \<Rightarrow> nat \<Rightarrow> bytes \<Rightarrow> u64 \<Rightarrow> nat \<Rightarrow> decode_result" where
  "decode_ethernet_bytes env inner d ts wire_len frame inherited_domain depth =
     (if depth > max_tunnel_depth then Some (Inr Ignored, d)
      else if length frame < 14 then bail_truncated TruncatedEthernet d
      else do {
        et \<leftarrow> u16_at frame 12;
        tagged \<leftarrow> vlan_tags 4 frame et 14 inherited_domain;
        case tagged of
          Inl e \<Rightarrow> bail_truncated e d
        | Inr (et, l3_offset, domain) \<Rightarrow> do {
            l3 \<leftarrow> slice_chk l3_offset (length frame) frame;
            if et = ethertype_ipv4 then decode_ipv4 env inner d ts wire_len l3 domain depth
            else if et = ethertype_ipv6 then decode_ipv6 env inner d ts wire_len l3 domain depth
            else Some (Inr Ignored, d)
          }
      })"

subsection \<open>The tunnel levels\<close>

text \<open>
  \<open>decode_levels r\<close> is the decoder at depth \<open>4 - r\<close>. The mutual recursion of the source ends because the
  depth grows with every tunnel and every tunnel is guarded by it; \<open>decode_levels 0\<close> stands for a call at
  depth 4.
\<close>

fun decode_levels :: "decode_env \<Rightarrow> nat \<Rightarrow> inner_decoder" where
  "decode_levels env 0 kind d ts wire_len data domain = None"
| "decode_levels env (Suc r) kind d ts wire_len data domain =
     (let inner = decode_levels env r; depth = max_tunnel_depth - r in
      case kind of
        InnerEthernet \<Rightarrow> decode_ethernet_bytes env inner d ts wire_len data domain depth
      | InnerIpv4 \<Rightarrow> decode_ipv4 env inner d ts wire_len data domain depth
      | InnerIpv6 \<Rightarrow> decode_ipv6 env inner d ts wire_len data domain depth)"

definition decode :: "decode_env \<Rightarrow> packet_decoder \<Rightarrow> captured_frame \<Rightarrow> decode_result" where
  "decode env d frame =
     decode_levels env (Suc max_tunnel_depth) InnerEthernet d (cf_ts_ns frame) (cf_wire_len frame)
       (cf_data frame) 0"

definition stateless :: "nat \<Rightarrow> packet_decoder" where
  "stateless now = \<lparr>pd_fragments = new_shared_cache (64 * 1024) 64 1000000000 now, pd_metrics = None,
                    pd_tunnel_decapsulation = True\<rparr>"

definition parse_ethernet_frame ::
  "decode_env \<Rightarrow> nat \<Rightarrow> nat \<Rightarrow> nat \<Rightarrow> bytes \<Rightarrow> (decode_error + parsed_packet option) option" where
  "parse_ethernet_frame env now ts wire_len frame =
     do {
       (outcome, _) \<leftarrow> decode env (stateless now) \<lparr>cf_ts_ns = ts, cf_wire_len = wire_len, cf_data = frame\<rparr>;
       Some (case outcome of Inl e \<Rightarrow> Inl e
             | Inr (Packet p) \<Rightarrow> Inr (Some p)
             | Inr _ \<Rightarrow> Inr None)
     }"

end
