(* ===== verification/Packet_Roundtrip.thy ===== *)
theory Packet_Roundtrip
  imports Packet_Decoder
begin

unbundle bit_operations_syntax

text \<open>
  The decoder against an encoder. \<open>tag_bytes\<close>, \<open>ipv4_bytes\<close> and \<open>tcp_bytes\<close> write the headers of the wire
  formats (IEEE 802.1Q, RFC 791, RFC 9293) with every field free; the decoder reads them back. Then an
  IP-in-IP tunnel: both directions of a tunnelled conversation decode to one flow key.
\<close>

subsection \<open>Big-endian fields\<close>

lemma be_octets_2: "be_octets 2 w = [ucast (drop_bit 8 w), ucast w]"
  by (simp add: be_octets_def upt_rec numeral_2_eq_2)

lemma be_octets_4: "be_octets 4 w = [ucast (drop_bit 24 w), ucast (drop_bit 16 w), ucast (drop_bit 8 w), ucast w]"
  by (simp add: be_octets_def upt_rec numeral_eq_Suc)

lemma be_word_2 [simp]: "be_word [ucast (drop_bit 8 w), ucast w] = (w :: u16)"
  by (rule bit_word_eqI) (auto simp: be_word_def bit_simps)

lemma be_word_4 [simp]: "be_word [ucast (drop_bit 24 w), ucast (drop_bit 16 w), ucast (drop_bit 8 w), ucast w] = (w :: u32)"
proof (rule bit_word_eqI)
  fix n assume "n < LENGTH(32)"
  then consider "n < 8" | "8 \<le> n" "n < 16" | "16 \<le> n" "n < 24" | "24 \<le> n" "n < 32" by fastforce
  then show "bit (be_word [ucast (drop_bit 24 w), ucast (drop_bit 16 w), ucast (drop_bit 8 w), ucast w] :: u32) n = bit w n"
    by cases (auto simp: be_word_def bit_simps)
qed

lemma high_nibble: "n < 256 \<Longrightarrow> unat (drop_bit 4 (of_nat n :: byte)) = n div 16"
  by (subst unat_drop_bit_eq) (simp add: drop_bit_eq_div unat_of_nat)

lemma low_nibble: "n < 256 \<Longrightarrow> unat ((of_nat n :: byte) AND 15) = n mod 16"
proof -
  assume n: "n < 256"
  have "(of_nat n :: byte) AND 15 = take_bit 4 (of_nat n)" by (simp add: take_bit_eq_mask mask_eq_exp_minus_1)
  then show ?thesis
    using n by (simp only: unsigned_take_bit_eq unat_of_nat) (simp add: take_bit_eq_mod)
qed


subsection \<open>VLAN tags\<close>

fun tag_bytes :: "(u16 \<times> u16) list \<Rightarrow> u16 \<Rightarrow> bytes" where
  "tag_bytes [] et = be_octets 2 et"
| "tag_bytes ((tpid, tci) # tags) et = be_octets 2 tpid @ be_octets 2 tci @ tag_bytes tags et"

definition vlan_domain :: "(u16 \<times> u16) list \<Rightarrow> u64 \<Rightarrow> u64" where
  "vlan_domain tags l2 = fold (\<lambda>(_, tci) l2. mix_domain l2 0x564c414e (ucast (tci AND 0x0fff))) tags l2"

definition first_type :: "(u16 \<times> u16) list \<Rightarrow> u16 \<Rightarrow> u16" where
  "first_type tags et = (case tags of [] \<Rightarrow> et | (tpid, _) # _ \<Rightarrow> tpid)"

lemma tag_bytes_first: "\<exists>rest. tag_bytes tags et = be_octets 2 (first_type tags et) @ rest"
  by (cases tags) (auto simp: first_type_def)

lemma length_tag_bytes [simp]: "length (tag_bytes tags et) = 2 + 4 * length tags"
  by (induction tags) auto

lemma u16_at_octets: "i = length pre \<Longrightarrow> u16_at (pre @ be_octets 2 w @ rest) i = Some (w :: u16)"
  by (simp add: u16_at_def byte_at_def be_octets_2 nth_append)

lemma u16_at_tag: "i = length pre \<Longrightarrow> u16_at (pre @ tag_bytes tags et @ body) i = Some (first_type tags et)"
  using tag_bytes_first [of tags et] by (auto simp: u16_at_octets)

lemma vlan_tags_encoded:
  assumes "length tags \<le> n" "\<forall>(tpid, _) \<in> set tags. is_vlan tpid" "\<not> is_vlan et"
  shows "vlan_tags n (pre @ tag_bytes tags et @ body) (first_type tags et) (length pre + 2) l2
    = Some (Inr (et, length pre + 2 + 4 * length tags, vlan_domain tags l2))"
  using assms
proof (induction tags arbitrary: n pre l2)
  case Nil
  then show ?case by (cases n) (auto simp: first_type_def vlan_domain_def)
next
  case (Cons tag tags)
  obtain tpid tci where tag: "tag = (tpid, tci)" by force
  obtain m where n: "n = Suc m" using Cons.prems(1) by (cases n) auto
  let ?pre = "pre @ be_octets 2 tpid @ be_octets 2 tci"
  have "u16_at (pre @ be_octets 2 tpid @ be_octets 2 tci @ tag_bytes tags et @ body) (length pre + 2) = Some tci"
    using u16_at_octets [of "length pre + 2" "pre @ be_octets 2 tpid" tci] by simp
  moreover have "u16_at (pre @ be_octets 2 tpid @ be_octets 2 tci @ tag_bytes tags et @ body) (length pre + 2 + 2) = Some (first_type tags et)"
    using u16_at_tag [of "length pre + 2 + 2" ?pre] by simp
  moreover have "vlan_tags m (?pre @ tag_bytes tags et @ body) (first_type tags et) (length ?pre + 2)
      (mix_domain l2 0x564c414e (ucast (tci AND 0x0fff)))
    = Some (Inr (et, length ?pre + 2 + 4 * length tags, vlan_domain (tag # tags) l2))"
    using Cons.IH [of m ?pre] Cons.prems n tag by (auto simp: vlan_domain_def)
  ultimately show ?case using Cons.prems(2) by (simp add: n tag first_type_def add.commute)
qed

subsection \<open>Header encoders\<close>

record ip_fields =
  ipf_tos :: byte
  ipf_ident :: u16
  ipf_frag :: u16
  ipf_ttl :: byte
  ipf_checksum :: u16
  ipf_opts :: bytes

record tcp_fields =
  tcf_seq :: u32
  tcf_ack :: u32
  tcf_reserved :: nat
  tcf_bits :: byte
  tcf_window :: bytes
  tcf_opts :: bytes

definition opts_ok :: "bytes \<Rightarrow> bool" where
  "opts_ok opts \<longleftrightarrow> length opts mod 4 = 0 \<and> length opts \<le> 40"

definition ip_fields_ok :: "ip_fields \<Rightarrow> bool" where
  "ip_fields_ok h \<longleftrightarrow> opts_ok (ipf_opts h) \<and> ipf_frag h AND 0x1fff = 0 \<and> ipf_frag h AND 0x2000 = 0"

definition tcp_fields_ok :: "tcp_fields \<Rightarrow> bool" where
  "tcp_fields_ok t \<longleftrightarrow> opts_ok (tcf_opts t) \<and> tcf_reserved t < 16 \<and> length (tcf_window t) = 6"

definition ipv4_bytes :: "ip_fields \<Rightarrow> byte \<Rightarrow> u32 \<Rightarrow> u32 \<Rightarrow> bytes \<Rightarrow> bytes" where
  "ipv4_bytes h proto src dst payload =
     [of_nat (64 + (20 + length (ipf_opts h)) div 4), ipf_tos h]
     @ be_octets 2 (of_nat (20 + length (ipf_opts h) + length payload) :: u16)
     @ be_octets 2 (ipf_ident h) @ be_octets 2 (ipf_frag h) @ [ipf_ttl h, proto] @ be_octets 2 (ipf_checksum h)
     @ be_octets 4 src @ be_octets 4 dst @ ipf_opts h @ payload"

definition tcp_bytes :: "tcp_fields \<Rightarrow> u16 \<Rightarrow> u16 \<Rightarrow> bytes \<Rightarrow> bytes" where
  "tcp_bytes t sp dp payload =
     be_octets 2 sp @ be_octets 2 dp @ be_octets 4 (tcf_seq t) @ be_octets 4 (tcf_ack t)
     @ [of_nat (16 * ((20 + length (tcf_opts t)) div 4) + tcf_reserved t), tcf_bits t]
     @ tcf_window t @ tcf_opts t @ payload"

lemma opts_words: "opts_ok opts \<Longrightarrow> (20 + length opts) div 4 * 4 = 20 + length opts \<and> (20 + length opts) div 4 \<le> 15"
  unfolding opts_ok_def by presburger

lemma slice_chk_tail: "drop a xs = ys \<Longrightarrow> a \<le> length xs \<Longrightarrow> slice_chk a (length xs) xs = Some ys"
  by (simp add: bslice_to_end)

lemma drop_prefix: "length pre = n \<Longrightarrow> drop n (pre @ rest) = rest"
  by simp

lemma length_tcp_bytes: "tcp_fields_ok t \<Longrightarrow> length (tcp_bytes t sp dp payload) = 20 + length (tcf_opts t) + length payload"
  by (simp add: tcp_bytes_def tcp_fields_ok_def)

lemma length_ipv4_bytes: "length (ipv4_bytes h proto src dst payload) = 20 + length (ipf_opts h) + length payload"
  by (simp add: ipv4_bytes_def)

definition tcp_packet :: "nat \<Rightarrow> nat \<Rightarrow> tcp_fields \<Rightarrow> ip_addr \<Rightarrow> u16 \<Rightarrow> ip_addr \<Rightarrow> u16 \<Rightarrow> u64 \<Rightarrow> bytes \<Rightarrow> parsed_packet" where
  "tcp_packet ts wl t src sp dst dp l2 payload =
     \<lparr>pkt_ts_ns = ts, pkt_key = fst (canonical_with_domain src sp dst dp Tcp l2),
      pkt_direction = snd (canonical_with_domain src sp dst dp Tcp l2), pkt_seq = Some (tcf_seq t),
      pkt_ack = Some (tcf_ack t), pkt_flags = parse_flags (tcf_bits t), pkt_payload = payload,
      pkt_wire_len = wl\<rparr>"

subsection \<open>Reading them back\<close>

lemma parse_tcp_encoded:
  assumes "tcp_fields_ok t"
  shows "parse_tcp d ts wl src dst (tcp_bytes t sp dp payload) l2
    = Some (Inr (Packet (tcp_packet ts wl t src sp dst dp l2 payload)), d)"
proof -
  let ?opts = "tcf_opts t"
  let ?n = "(20 + length ?opts) div 4"
  let ?b = "of_nat (16 * ?n + tcf_reserved t) :: byte"
  let ?t = "tcp_bytes t sp dp payload"
  have n: "?n * 4 = 20 + length ?opts" "?n \<le> 15"
    using opts_words [of ?opts] assms by (auto simp: tcp_fields_ok_def)
  have "unat (drop_bit 4 ?b) = ?n" using n(2) assms by (subst high_nibble) (auto simp: tcp_fields_ok_def)
  then have off: "unat (drop_bit 4 ?b) * 4 = 20 + length ?opts" using n by simp
  note len = length_tcp_bytes [OF assms, of sp dp payload]
  have reads: "u16_at ?t 0 = Some sp" "u16_at ?t 2 = Some dp" "u32_at ?t 4 = Some (tcf_seq t)"
    "u32_at ?t 8 = Some (tcf_ack t)" "byte_at ?t 12 = Some ?b" "byte_at ?t 13 = Some (tcf_bits t)"
    unfolding tcp_bytes_def be_octets_2 be_octets_4
    by (simp_all add: u16_at_def u32_at_def byte_at_def)
  have "drop (20 + length ?opts) ?t = payload"
    using drop_prefix [of "be_octets 2 sp @ be_octets 2 dp @ be_octets 4 (tcf_seq t) @ be_octets 4 (tcf_ack t)
        @ [?b, tcf_bits t] @ tcf_window t @ ?opts" "20 + length ?opts" payload]
      assms unfolding tcp_bytes_def tcp_fields_ok_def by simp
  then have "slice_chk (20 + length ?opts) (length ?t) ?t = Some payload"
    by (rule slice_chk_tail) (simp add: len)
  then show ?thesis using reads off len by (simp add: parse_tcp_def tcp_packet_def split: prod.split)
qed

lemma decode_ipv4_encoded:
  assumes "ip_fields_ok h" "20 + length (ipf_opts h) + length payload \<le> 65535"
  shows "decode_ipv4 env inner d ts wl (ipv4_bytes h proto src dst payload @ padding) l2 depth
    = decode_ip_payload inner d ts wl (V4 src) (V4 dst) proto payload l2 depth"
proof -
  let ?opts = "ipf_opts h"
  let ?n = "(20 + length ?opts) div 4"
  let ?b = "of_nat (64 + ?n) :: byte"
  let ?len = "20 + length ?opts + length payload"
  let ?p = "ipv4_bytes h proto src dst payload @ padding"
  have n: "?n * 4 = 20 + length ?opts" "?n \<le> 15"
    using opts_words [of ?opts] assms(1) by (auto simp: ip_fields_ok_def)
  have "unat (drop_bit 4 ?b) = 4" using n(2) by (subst high_nibble) auto
  then have version: "drop_bit 4 ?b = 4" by (simp add: word_unat_eq_iff)
  have "(64 + m) mod 16 = m" if "m \<le> 15" for m :: nat using that by presburger
  then have "unat (?b AND 15) = ?n" using n(2) by (subst low_nibble) auto
  then have ihl: "unat (?b AND 15) * 4 = 20 + length ?opts" using n by simp
  have len: "length ?p = ?len + length padding" by (simp add: length_ipv4_bytes)
  have tot: "unat (of_nat ?len :: u16) = ?len" using assms(2) by (simp only: unat_of_nat) simp
  have reads: "byte_at ?p 0 = Some ?b" "u16_at ?p 2 = Some (of_nat ?len)" "u32_at ?p 12 = Some src"
    "u32_at ?p 16 = Some dst" "byte_at ?p 9 = Some proto" "u16_at ?p 6 = Some (ipf_frag h)"
    unfolding ipv4_bytes_def be_octets_2 be_octets_4
    by (simp_all add: u16_at_def u32_at_def byte_at_def del: of_nat_add)
  have "drop (20 + length ?opts) ?p = payload @ padding"
    using drop_prefix [of "[?b, ipf_tos h] @ be_octets 2 (of_nat ?len :: u16) @ be_octets 2 (ipf_ident h)
      @ be_octets 2 (ipf_frag h) @ [ipf_ttl h, proto] @ be_octets 2 (ipf_checksum h) @ be_octets 4 src
      @ be_octets 4 dst @ ?opts" "20 + length ?opts" "payload @ padding"]
    unfolding ipv4_bytes_def by simp
  then have "slice_chk (20 + length ?opts) ?len ?p = Some payload"
    using len by (simp add: bslice_def)
  then show ?thesis using reads version ihl tot len assms(1)
    by (simp add: decode_ipv4_def ip_fields_ok_def del: of_nat_add)
qed

lemma decode_ethernet_encoded:
  assumes "length macs = 12" "length tags \<le> 4" "\<forall>(tpid, _) \<in> set tags. is_vlan tpid" "depth \<le> max_tunnel_depth"
  shows "decode_ethernet_bytes env inner d ts wl (macs @ tag_bytes tags ethertype_ipv4 @ l3) l2 depth
    = decode_ipv4 env inner d ts wl l3 (vlan_domain tags l2) depth"
proof -
  let ?f = "macs @ tag_bytes tags ethertype_ipv4 @ l3"
  let ?o = "14 + 4 * length tags"
  have et: "u16_at ?f 12 = Some (first_type tags ethertype_ipv4)"
    using u16_at_tag [of 12 macs] assms(1) by simp
  have vlan: "vlan_tags 4 ?f (first_type tags ethertype_ipv4) 14 l2 = Some (Inr (ethertype_ipv4, ?o, vlan_domain tags l2))"
    using vlan_tags_encoded [of tags 4 ethertype_ipv4 macs l3 l2] assms by (simp add: is_vlan_def)
  have "drop ?o ?f = l3" using drop_prefix [of "macs @ tag_bytes tags ethertype_ipv4" ?o l3] assms(1) by simp
  then have "slice_chk ?o (length ?f) ?f = Some l3"
    by (rule slice_chk_tail) (simp add: assms(1))
  then show ?thesis using et vlan assms(1,4) by (simp add: decode_ethernet_bytes_def)
qed

lemma decode_top:
  "decode env d f = decode_ethernet_bytes env (decode_levels env max_tunnel_depth) d (cf_ts_ns f) (cf_wire_len f) (cf_data f) 0 0"
  unfolding decode_def decode_levels.simps(2) Let_def by simp

text \<open>C6: the decoder reads back an encoded TCP segment. Ethernet with up to four VLAN tags, an IPv4 header
  with any options and no fragmentation, a TCP header with any options, and any trailing padding: the
  packet has the canonical key of the two endpoints in the domain of the tags, the numbers and flags of the
  header, and exactly the payload bytes, and the decoder state does not change.\<close>

theorem decode_tcp_roundtrip:
  assumes "length macs = 12" "length tags \<le> 4" "\<forall>(tpid, _) \<in> set tags. is_vlan tpid"
    and "ip_fields_ok h" "tcp_fields_ok t"
    and "40 + length (ipf_opts h) + length (tcf_opts t) + length payload \<le> 65535"
  shows "decode env d \<lparr>cf_ts_ns = ts, cf_wire_len = wl, cf_data = macs @ tag_bytes tags ethertype_ipv4
       @ ipv4_bytes h 6 src dst (tcp_bytes t sp dp payload) @ padding\<rparr>
    = Some (Inr (Packet (tcp_packet ts wl t (V4 src) sp (V4 dst) dp (vlan_domain tags 0) payload)), d)"
  using assms
  by (simp add: decode_top decode_ethernet_encoded decode_ipv4_encoded decode_ip_payload_def parse_tcp_encoded
      length_tcp_bytes)

definition example_ip :: ip_fields where
  "example_ip = \<lparr>ipf_tos = 0, ipf_ident = 1, ipf_frag = 0x4000, ipf_ttl = 64, ipf_checksum = 0, ipf_opts = [1, 1, 1, 0]\<rparr>"

definition example_tcp :: tcp_fields where
  "example_tcp = \<lparr>tcf_seq = 5, tcf_ack = 6, tcf_reserved = 1, tcf_bits = 0x18, tcf_window = [1, 2, 3, 4, 5, 6],
     tcf_opts = [1, 1, 1, 0]\<rparr>"

lemma example_fields_ok: "ip_fields_ok example_ip" "tcp_fields_ok example_tcp"
  by (simp_all add: ip_fields_ok_def tcp_fields_ok_def example_ip_def example_tcp_def opts_ok_def)

definition example_env :: decode_env where
  "example_env = \<lparr>env_hash = (\<lambda>_. 0), env_clk = (\<lambda>_. 5)\<rparr>"

theorem decode_tcp_roundtrip_witness:
  "decode example_env (stateless 0) \<lparr>cf_ts_ns = 9, cf_wire_len = 60, cf_data = replicate 12 1
      @ tag_bytes [(0x8100, 7)] ethertype_ipv4 @ ipv4_bytes example_ip 6 1 2 (tcp_bytes example_tcp 80 1000 [65, 66]) @ [0]\<rparr>
   = Some (Inr (Packet (tcp_packet 9 60 example_tcp (V4 1) 80 (V4 2) 1000 (vlan_domain [(0x8100, 7)] 0) [65, 66])), stateless 0)"
  by (rule decode_tcp_roundtrip) (simp_all add: is_vlan_def example_fields_ok, simp add: example_ip_def example_tcp_def)

subsection \<open>Tunnels\<close>

lemma ip_le_total: "ip_le a b \<or> ip_le b a"
  by (cases a; cases b) auto

lemma ip_le_antisym: "ip_le a b \<Longrightarrow> ip_le b a \<Longrightarrow> a = b"
  by (cases a; cases b) auto

lemma mix_tunnel_domain_swap: "mix_tunnel_domain l2 kind src dst i = mix_tunnel_domain l2 kind dst src i"
  using ip_le_total [of src dst] ip_le_antisym [of src dst] by (auto simp: mix_tunnel_domain_def Let_def)

lemma mix_domain_nonzero: "mix_domain l2 kind v \<noteq> 0"
proof
  assume "mix_domain l2 kind v = 0"
  then have "\<not> bit (mix_domain l2 kind v) 0" by simp
  then show False by (simp add: mix_domain_def Let_def bit_or_iff)
qed

lemma mix_tunnel_domain_nonzero: "mix_tunnel_domain l2 kind src dst i \<noteq> 0"
  by (auto simp: mix_tunnel_domain_def mix_tunnel_ip_def Let_def mix_domain_nonzero split: ip_addr.split)

definition ipip_frame ::
  "bytes \<Rightarrow> (u16 \<times> u16) list \<Rightarrow> ip_fields \<Rightarrow> u32 \<Rightarrow> u32 \<Rightarrow> ip_fields \<Rightarrow> u32 \<Rightarrow> u32 \<Rightarrow> bytes \<Rightarrow> bytes" where
  "ipip_frame macs tags oh osrc odst h src dst segment =
     macs @ tag_bytes tags ethertype_ipv4 @ ipv4_bytes oh 4 osrc odst (ipv4_bytes h 6 src dst segment)"

lemma decode_ipip:
  assumes "length macs = 12" "length tags \<le> 4" "\<forall>(tpid, _) \<in> set tags. is_vlan tpid"
    and "ip_fields_ok oh" "ip_fields_ok h" "tcp_fields_ok t" "pd_tunnel_decapsulation d"
    and "60 + length (ipf_opts oh) + length (ipf_opts h) + length (tcf_opts t) + length payload \<le> 65535"
  shows "decode env d \<lparr>cf_ts_ns = ts, cf_wire_len = wl,
       cf_data = ipip_frame macs tags oh osrc odst h src dst (tcp_bytes t sp dp payload)\<rparr>
    = Some (Inr (Packet (tcp_packet ts wl t (V4 src) sp (V4 dst) dp
        (mix_tunnel_domain (vlan_domain tags 0) 0x49504950 (V4 osrc) (V4 odst) 4) payload)), d)"
proof -
  have inner: "decode_levels env 3 InnerIpv4 = (\<lambda>d ts wl data l2. decode_ipv4 env (decode_levels env 2) d ts wl data l2 1)"
    by (simp add: eval_nat_numeral fun_eq_iff Let_def)
  let ?seg = "tcp_bytes t sp dp payload"
  have l3: "decode_ipv4 env i d ts wl (ipv4_bytes oh 4 osrc odst (ipv4_bytes h 6 src dst ?seg)) l2 0
    = decode_ip_payload i d ts wl (V4 osrc) (V4 odst) 4 (ipv4_bytes h 6 src dst ?seg) l2 0" for i l2
    using decode_ipv4_encoded [of oh _ env i d ts wl 4 osrc odst "[]"] assms
    by (simp add: length_ipv4_bytes length_tcp_bytes)
  have "decode_ipv4 env i d ts wl (ipv4_bytes h 6 src dst ?seg) l2 1
    = decode_ip_payload i d ts wl (V4 src) (V4 dst) 6 ?seg l2 1" for i l2
    using decode_ipv4_encoded [of h _ env i d ts wl 6 src dst "[]"] assms by (simp add: length_tcp_bytes)
  then show ?thesis
    using assms l3 by (simp add: ipip_frame_def decode_top decode_ethernet_encoded decode_ip_payload_def inner parse_tcp_encoded)
qed

text \<open>Both directions of a conversation inside an IP-in-IP tunnel decode to one flow. The outer addresses
  swap with the direction, and so do the inner endpoints; the two packets have the same key, in a tunnel
  domain that is never that of untunnelled traffic, and opposite directions.\<close>

theorem tunnel_one_flow:
  assumes "length macs = 12" "length tags \<le> 4" "\<forall>(tpid, _) \<in> set tags. is_vlan tpid"
    and "ip_fields_ok oh" "ip_fields_ok h" "tcp_fields_ok t" "pd_tunnel_decapsulation d"
    and "60 + length (ipf_opts oh) + length (ipf_opts h) + length (tcf_opts t) + length payload \<le> 65535"
    and "(src, sp) \<noteq> (dst, dp)"
  shows "\<exists>p q. decode env d \<lparr>cf_ts_ns = ts, cf_wire_len = wl,
         cf_data = ipip_frame macs tags oh osrc odst h src dst (tcp_bytes t sp dp payload)\<rparr> = Some (Inr (Packet p), d) \<and>
       decode env d \<lparr>cf_ts_ns = ts, cf_wire_len = wl,
         cf_data = ipip_frame macs tags oh odst osrc h dst src (tcp_bytes t dp sp payload)\<rparr> = Some (Inr (Packet q), d) \<and>
       pkt_key p = pkt_key q \<and> key_l2_domain (pkt_key p) \<noteq> 0 \<and> pkt_direction p = opposite (pkt_direction q) \<and>
       pkt_payload p = payload \<and> pkt_payload q = payload"
proof -
  let ?l2 = "mix_tunnel_domain (vlan_domain tags 0) 0x49504950 (V4 osrc) (V4 odst) 4"
  let ?c = "canonical_with_domain (V4 src) sp (V4 dst) dp Tcp ?l2"
  have "key_l2_domain (fst ?c) = ?l2" using canonical_fields [of "V4 src" sp "V4 dst" dp Tcp ?l2] by (cases ?c) simp
  moreover have "snd ?c = opposite (snd (canonical_with_domain (V4 dst) dp (V4 src) sp Tcp ?l2))"
    using assms(9) by (intro canonical_snd_swap) auto
  moreover have "fst ?c = fst (canonical_with_domain (V4 dst) dp (V4 src) sp Tcp ?l2)" by (rule canonical_fst_swap)
  ultimately show ?thesis
    using decode_ipip [OF assms(1-8)] mix_tunnel_domain_swap [of _ _ "V4 odst" "V4 osrc"] mix_tunnel_domain_nonzero
    by (simp add: tcp_packet_def)
qed

theorem tunnel_one_flow_witness:
  "\<exists>p q. decode example_env (stateless 0) \<lparr>cf_ts_ns = 9, cf_wire_len = 90,
         cf_data = ipip_frame (replicate 12 1) [(0x8100, 7)] example_ip 8 9 example_ip 1 2 (tcp_bytes example_tcp 80 1000 [65])\<rparr>
         = Some (Inr (Packet p), stateless 0) \<and>
       decode example_env (stateless 0) \<lparr>cf_ts_ns = 9, cf_wire_len = 90,
         cf_data = ipip_frame (replicate 12 1) [(0x8100, 7)] example_ip 9 8 example_ip 2 1 (tcp_bytes example_tcp 1000 80 [65])\<rparr>
         = Some (Inr (Packet q), stateless 0) \<and>
       pkt_key p = pkt_key q \<and> key_l2_domain (pkt_key p) \<noteq> 0 \<and> pkt_direction p = opposite (pkt_direction q) \<and>
       pkt_payload p = [65] \<and> pkt_payload q = [65]"
  by (rule tunnel_one_flow)
    (simp_all add: is_vlan_def example_fields_ok stateless_def, simp add: example_ip_def example_tcp_def)

end
