(* ===== verification/Tombstones.thy ===== *)
theory Tombstones
  imports Bazalt_Model
begin

text \<open>
  The recent-close set of \<open>src/src/flow/mod.rs\<close> (\<open>TcpTombstones\<close>): deadlines by flow key, with a queue of
  every deadline ever set so that expiry and the capacity limit only look at its front. A queue entry is
  stale when the key was removed or closed again later. Instants are nanoseconds; the hash map is an
  association list with distinct keys.
\<close>

abbreviation tcp_tombstone_ttl :: nat where "tcp_tombstone_ttl \<equiv> 2000000000"
abbreviation tcp_tombstone_max :: nat where "tcp_tombstone_max \<equiv> 65536"

record tcp_tombstones =
  tomb_by_key :: "(flow_key \<times> nat) list"
  tomb_order :: "(nat \<times> flow_key) list"

definition new_tombstones :: tcp_tombstones where
  "new_tombstones = \<lparr>tomb_by_key = [], tomb_order = []\<rparr>"

text \<open>Both loops take the front of the queue and drop the key if the entry is not stale.\<close>

definition drop_front :: "nat \<Rightarrow> flow_key \<Rightarrow> (flow_key \<times> nat) list \<Rightarrow> (flow_key \<times> nat) list" where
  "drop_front deadline key m = (if map_of m key = Some deadline then AList.delete key m else m)"

fun expire_queue :: "nat \<Rightarrow> (flow_key \<times> nat) list \<Rightarrow> (nat \<times> flow_key) list \<Rightarrow> tcp_tombstones" where
  "expire_queue now m [] = \<lparr>tomb_by_key = m, tomb_order = []\<rparr>"
| "expire_queue now m ((deadline, key) # q) =
     (if deadline \<le> now then expire_queue now (drop_front deadline key m) q
      else \<lparr>tomb_by_key = m, tomb_order = (deadline, key) # q\<rparr>)"

definition tomb_expire :: "nat \<Rightarrow> tcp_tombstones \<Rightarrow> tcp_tombstones" where
  "tomb_expire now t = expire_queue now (tomb_by_key t) (tomb_order t)"

definition contains_live :: "flow_key \<Rightarrow> nat \<Rightarrow> tcp_tombstones \<Rightarrow> tcp_tombstones \<times> bool" where
  "contains_live key now t =
     (let t = tomb_expire now t in
      (t, case map_of (tomb_by_key t) key of None \<Rightarrow> False | Some deadline \<Rightarrow> deadline > now))"

definition tomb_remove :: "flow_key \<Rightarrow> tcp_tombstones \<Rightarrow> tcp_tombstones" where
  "tomb_remove key t = t\<lparr>tomb_by_key := AList.delete key (tomb_by_key t)\<rparr>"

fun shrink_queue :: "(flow_key \<times> nat) list \<Rightarrow> (nat \<times> flow_key) list \<Rightarrow> tcp_tombstones" where
  "shrink_queue m [] = \<lparr>tomb_by_key = m, tomb_order = []\<rparr>"
| "shrink_queue m ((deadline, key) # q) =
     (if length m > tcp_tombstone_max then shrink_queue (drop_front deadline key m) q
      else \<lparr>tomb_by_key = m, tomb_order = (deadline, key) # q\<rparr>)"

definition tomb_insert :: "flow_key \<Rightarrow> nat \<Rightarrow> tcp_tombstones \<Rightarrow> tcp_tombstones" where
  "tomb_insert key now t =
     (let deadline = now + tcp_tombstone_ttl;
          t = t\<lparr>tomb_by_key := AList.update key deadline (tomb_by_key t),
                tomb_order := tomb_order t @ [(deadline, key)]\<rparr>;
          t = tomb_expire now t in
      shrink_queue (tomb_by_key t) (tomb_order t))"

subsection \<open>Invariant\<close>

text \<open>Every live deadline is still queued, and the queue is in the order of its deadlines (the clock does
  not run backwards). \<open>clock\<close> bounds the readings so far.\<close>

definition tomb_inv :: "nat \<Rightarrow> tcp_tombstones \<Rightarrow> bool" where
  "tomb_inv clock t \<longleftrightarrow> distinct (map fst (tomb_by_key t)) \<and>
     (\<forall>(k, d) \<in> set (tomb_by_key t). (d, k) \<in> set (tomb_order t)) \<and>
     sorted (map fst (tomb_order t)) \<and> (\<forall>(d, k) \<in> set (tomb_order t). d \<le> clock + tcp_tombstone_ttl)"

definition queued :: "(flow_key \<times> nat) list \<Rightarrow> (nat \<times> flow_key) list \<Rightarrow> bool" where
  "queued m q \<longleftrightarrow> distinct (map fst m) \<and> (\<forall>(k, d) \<in> set m. (d, k) \<in> set q) \<and> sorted (map fst q)"

lemma tomb_inv_queued:
  "tomb_inv c t \<longleftrightarrow> queued (tomb_by_key t) (tomb_order t) \<and> (\<forall>(d, k) \<in> set (tomb_order t). d \<le> c + tcp_tombstone_ttl)"
  by (auto simp: tomb_inv_def queued_def)

lemma tomb_inv_mono: "tomb_inv c t \<Longrightarrow> c \<le> c' \<Longrightarrow> tomb_inv c' t"
  by (fastforce simp: tomb_inv_def)

lemma set_delete_iff: "e \<in> set (AList.delete k m) \<longleftrightarrow> e \<in> set m \<and> fst e \<noteq> k"
  by (cases e) (auto simp: AList.delete_eq)

lemma distinct_fst_delete: "distinct (map fst m) \<Longrightarrow> distinct (map fst (AList.delete k m))"
  by (simp add: AList.delete_eq distinct_map_filter)

lemma queued_Nil: "queued m [] \<longleftrightarrow> m = []"
  by (cases m) (auto simp: queued_def)

lemma queued_drop: "queued m ((d, k) # q) \<Longrightarrow> queued (drop_front d k m) q"
  by (auto simp: queued_def drop_front_def set_delete_iff distinct_fst_delete dest: map_of_is_SomeI)

lemma expire_queue_keeps:
  assumes "queued m q"
  shows "queued (tomb_by_key (expire_queue now m q)) (tomb_order (expire_queue now m q)) \<and>
    set (tomb_order (expire_queue now m q)) \<subseteq> set q \<and>
    (\<forall>k. map_of (tomb_by_key (expire_queue now m q)) k
       = (case map_of m k of Some d \<Rightarrow> if d \<le> now then None else Some d | None \<Rightarrow> None))"
  using assms
proof (induction now m q rule: expire_queue.induct)
  case (1 now m)
  then show ?case by (simp add: queued_Nil)
next
  case (2 now m d k q)
  show ?case
  proof (cases "d \<le> now")
    case True
    have "map_of (drop_front d k m) k' = (if k' = k \<and> map_of m k = Some d then None else map_of m k')" for k'
      by (auto simp: drop_front_def delete_conv')
    then show ?thesis using 2 True queued_drop [OF 2(2)] by (auto split: option.splits)
  next
    case False
    have "\<not> d' \<le> now" if "map_of m k' = Some d'" for k' d'
      using 2(2) False map_of_SomeD [OF that] by (fastforce simp: queued_def)
    then show ?thesis using 2(2) False by (auto split: option.splits)
  qed
qed

lemma tomb_expire_spec:
  assumes "tomb_inv c t"
  shows "tomb_inv c (tomb_expire now t)"
    "map_of (tomb_by_key (tomb_expire now t)) k
       = (case map_of (tomb_by_key t) k of Some d \<Rightarrow> if d \<le> now then None else Some d | None \<Rightarrow> None)"
  using assms expire_queue_keeps [of "tomb_by_key t" "tomb_order t" now]
  by (auto simp: tomb_inv_queued tomb_expire_def)

lemma length_drop_front: "length (drop_front d k m) \<le> length m"
  by (simp add: drop_front_def AList.delete_eq)

lemma shrink_queue_keeps:
  assumes "queued m q"
  shows "queued (tomb_by_key (shrink_queue m q)) (tomb_order (shrink_queue m q)) \<and>
    set (tomb_order (shrink_queue m q)) \<subseteq> set q \<and> length (tomb_by_key (shrink_queue m q)) \<le> tcp_tombstone_max \<and>
    (length m \<le> tcp_tombstone_max \<longrightarrow> tomb_by_key (shrink_queue m q) = m)"
  using assms
proof (induction m q rule: shrink_queue.induct)
  case (1 m)
  then show ?case by (simp add: queued_Nil)
next
  case (2 m d k q)
  then show ?case using queued_drop [OF 2(2)] by auto
qed

lemma queued_insert:
  assumes "queued m q" "\<forall>(d, k) \<in> set q. d \<le> d'"
  shows "queued (AList.update k d' m) (q @ [(d', k)])"
proof -
  have "set (AList.update k d' m) \<subseteq> insert (k, d') (set m)" by (induction m) auto
  then show ?thesis using assms by (auto simp: queued_def distinct_update sorted_append)
qed

lemma tomb_insert_spec:
  assumes "tomb_inv c t" "c \<le> now"
  shows "tomb_inv now (tomb_insert key now t) \<and> length (tomb_by_key (tomb_insert key now t)) \<le> tcp_tombstone_max"
proof -
  let ?d = "now + tcp_tombstone_ttl"
  let ?t = "t\<lparr>tomb_by_key := AList.update key ?d (tomb_by_key t), tomb_order := tomb_order t @ [(?d, key)]\<rparr>"
  have "queued (tomb_by_key ?t) (tomb_order ?t)"
    using assms queued_insert [of "tomb_by_key t" "tomb_order t" ?d key] by (fastforce simp: tomb_inv_queued)
  then have "tomb_inv now ?t" using assms by (fastforce simp: tomb_inv_queued)
  then have e: "tomb_inv now (tomb_expire now ?t)" by (rule tomb_expire_spec)
  then show ?thesis
    using shrink_queue_keeps [of "tomb_by_key (tomb_expire now ?t)" "tomb_order (tomb_expire now ?t)"]
    unfolding tomb_insert_def Let_def tomb_inv_queued by blast
qed

lemma tomb_remove_spec: "tomb_inv c t \<Longrightarrow> tomb_inv c (tomb_remove key t)"
  by (auto simp: tomb_inv_def tomb_remove_def set_delete_iff distinct_fst_delete)

subsection \<open>Histories\<close>

text \<open>
  What the set promises: a key is live from its last close until the deadline, unless a fresh SYN removed
  it in between. The specification keeps the last deadline of every key for ever.
\<close>

datatype tomb_op = CloseKey flow_key | FreshSyn flow_key | Probe flow_key

fun tomb_step :: "nat \<times> tomb_op \<Rightarrow> tcp_tombstones \<Rightarrow> tcp_tombstones \<times> bool" where
  "tomb_step (now, CloseKey k) t = (tomb_insert k now t, False)"
| "tomb_step (now, FreshSyn k) t = (tomb_remove k t, False)"
| "tomb_step (now, Probe k) t = contains_live k now t"

fun tomb_run :: "(nat \<times> tomb_op) list \<Rightarrow> tcp_tombstones \<Rightarrow> tcp_tombstones \<times> bool list" where
  "tomb_run [] t = (t, [])"
| "tomb_run (e # es) t = (let (t, b) = tomb_step e t; (t, bs) = tomb_run es t in (t, b # bs))"

fun spec_step :: "nat \<times> tomb_op \<Rightarrow> (flow_key \<rightharpoonup> nat) \<Rightarrow> (flow_key \<rightharpoonup> nat) \<times> bool" where
  "spec_step (now, CloseKey k) a = (a(k \<mapsto> now + tcp_tombstone_ttl), False)"
| "spec_step (now, FreshSyn k) a = (a(k := None), False)"
| "spec_step (now, Probe k) a = (a, case a k of None \<Rightarrow> False | Some d \<Rightarrow> d > now)"

fun spec_run :: "(nat \<times> tomb_op) list \<Rightarrow> (flow_key \<rightharpoonup> nat) \<Rightarrow> bool list" where
  "spec_run [] a = []"
| "spec_run (e # es) a = (let (a, b) = spec_step e a in b # spec_run es a)"

definition is_close :: "nat \<times> tomb_op \<Rightarrow> bool" where
  "is_close e = (case snd e of CloseKey _ \<Rightarrow> True | _ \<Rightarrow> False)"

text \<open>Simulation: the set knows no deadline but the specified one; it knows every one that is still to
  come (\<open>exact\<close>) as long as nothing was evicted for lack of room.\<close>

definition tomb_sound :: "tcp_tombstones \<Rightarrow> (flow_key \<rightharpoonup> nat) \<Rightarrow> bool" where
  "tomb_sound t a \<longleftrightarrow> (\<forall>k d. map_of (tomb_by_key t) k = Some d \<longrightarrow> a k = Some d)"

definition tomb_exact :: "nat \<Rightarrow> tcp_tombstones \<Rightarrow> (flow_key \<rightharpoonup> nat) \<Rightarrow> bool" where
  "tomb_exact now t a \<longleftrightarrow> (\<forall>k d. a k = Some d \<longrightarrow> now < d \<longrightarrow> map_of (tomb_by_key t) k = Some d)"

lemma shrink_submap:
  "queued m q \<Longrightarrow> map_of (tomb_by_key (shrink_queue m q)) k = Some d \<Longrightarrow> map_of m k = Some d"
proof (induction m q rule: shrink_queue.induct)
  case (2 m d' k' q)
  then show ?case using queued_drop [OF 2(2)]
    by (auto simp: drop_front_def delete_conv' split: if_splits)
qed simp

lemma card_insert_le_Suc: "card (insert x A) \<le> Suc (card A)"
  by (cases "finite A") (simp_all add: card_insert_if)

lemma tomb_insert_known:
  assumes "tomb_inv c t" "c \<le> now" and m_def: "m = tomb_by_key (tomb_insert key now t)"
  shows "map_of m k = Some d \<Longrightarrow> (if k = key then d = now + tcp_tombstone_ttl else map_of (tomb_by_key t) k = Some d)"
    "length (tomb_by_key t) < tcp_tombstone_max \<Longrightarrow>
       map_of m k = (if k = key then Some (now + tcp_tombstone_ttl)
         else case map_of (tomb_by_key t) k of Some d \<Rightarrow> if d \<le> now then None else Some d | None \<Rightarrow> None)"
proof -
  let ?d = "now + tcp_tombstone_ttl"
  let ?t = "t\<lparr>tomb_by_key := AList.update key ?d (tomb_by_key t), tomb_order := tomb_order t @ [(?d, key)]\<rparr>"
  let ?e = "tomb_expire now ?t"
  have inv: "tomb_inv now ?t"
    using assms(1,2) queued_insert [of "tomb_by_key t" "tomb_order t" ?d key] by (fastforce simp: tomb_inv_queued)
  have e: "map_of (tomb_by_key ?e) k = (if k = key then Some ?d
      else case map_of (tomb_by_key t) k of Some d \<Rightarrow> if d \<le> now then None else Some d | None \<Rightarrow> None)" for k
    using tomb_expire_spec(2) [OF inv, of now k] by (simp add: update_conv')
  have q: "queued (tomb_by_key ?e) (tomb_order ?e)"
    using tomb_expire_spec(1) [OF inv] by (simp add: tomb_inv_queued)
  have m: "m = tomb_by_key (shrink_queue (tomb_by_key ?e) (tomb_order ?e))"
    by (simp add: m_def tomb_insert_def Let_def)
  show "if k = key then d = ?d else map_of (tomb_by_key t) k = Some d" if kd: "map_of m k = Some d"
    using shrink_submap [OF q kd [unfolded m]] e [of k] by (auto split: option.splits if_splits)
  assume small: "length (tomb_by_key t) < tcp_tombstone_max"
  have "fst ` set (tomb_by_key ?e) \<subseteq> insert key (fst ` set (tomb_by_key t))"
  proof
    fix x assume "x \<in> fst ` set (tomb_by_key ?e)"
    then have "map_of (tomb_by_key ?e) x \<noteq> None" by (simp add: map_of_eq_None_iff)
    then show "x \<in> insert key (fst ` set (tomb_by_key t))"
      using e [of x] map_of_eq_None_iff [of "tomb_by_key t" x] by (auto split: option.splits if_splits)
  qed
  then have "card (fst ` set (tomb_by_key ?e)) \<le> Suc (card (fst ` set (tomb_by_key t)))"
    by (intro order_trans [OF card_mono card_insert_le_Suc]) auto
  moreover have "card (fst ` set (tomb_by_key ?e)) = length (tomb_by_key ?e)"
    using distinct_card [of "map fst (tomb_by_key ?e)"] q by (simp add: queued_def)
  moreover have "card (fst ` set (tomb_by_key t)) \<le> length (tomb_by_key t)"
    by (metis card_length length_map list.set_map)
  ultimately have "length (tomb_by_key ?e) \<le> tcp_tombstone_max" using small by linarith
  then have "m = tomb_by_key ?e" using shrink_queue_keeps [OF q] m by blast
  then show "map_of m k = (if k = key then Some ?d
      else case map_of (tomb_by_key t) k of Some d \<Rightarrow> if d \<le> now then None else Some d | None \<Rightarrow> None)"
    using e by simp
qed

lemma spec_dom_step: "spec_step (now, op) a = (a', b) \<Longrightarrow> finite (dom a) \<Longrightarrow>
  finite (dom a') \<and> card (dom a') \<le> card (dom a) + (if is_close (now, op) then 1 else 0)"
  by (cases op) (auto simp: is_close_def card_insert_if card_Diff_singleton_if)

lemma sound_length: "tomb_inv c t \<Longrightarrow> tomb_sound t a \<Longrightarrow> finite (dom a) \<Longrightarrow> length (tomb_by_key t) \<le> card (dom a)"
proof -
  assume a: "tomb_inv c t" "tomb_sound t a" "finite (dom a)"
  have "fst ` set (tomb_by_key t) \<subseteq> dom a"
  proof
    fix x assume "x \<in> fst ` set (tomb_by_key t)"
    then obtain d where "map_of (tomb_by_key t) x = Some d"
      by (metis map_of_eq_None_iff not_None_eq)
    then show "x \<in> dom a" using a(2) by (auto simp: tomb_sound_def)
  qed
  then have "card (fst ` set (tomb_by_key t)) \<le> card (dom a)" by (rule card_mono [OF a(3)])
  moreover have "card (fst ` set (tomb_by_key t)) = length (tomb_by_key t)"
    using distinct_card [of "map fst (tomb_by_key t)"] a(1) by (simp add: tomb_inv_def)
  ultimately show ?thesis by simp
qed

lemma tomb_step_sim:
  assumes "tomb_inv c t" "c \<le> now" "tomb_sound t a" "tomb_step (now, op) t = (t', b)" "spec_step (now, op) a = (a', b')"
    and "length (tomb_by_key t) \<le> tcp_tombstone_max"
  shows "tomb_inv now t'" "tomb_sound t' a'" "b \<longrightarrow> b'" "length (tomb_by_key t') \<le> tcp_tombstone_max"
    "is_close (now, op) \<longrightarrow> length (tomb_by_key t) < tcp_tombstone_max \<Longrightarrow> tomb_exact c t a \<Longrightarrow> tomb_exact now t' a' \<and> b = b'"
proof -
  have i: "tomb_inv now t" using assms(1,2) by (rule tomb_inv_mono)
  have "tomb_inv now t' \<and> tomb_sound t' a' \<and> (b \<longrightarrow> b') \<and> length (tomb_by_key t') \<le> tcp_tombstone_max \<and>
    ((is_close (now, op) \<longrightarrow> length (tomb_by_key t) < tcp_tombstone_max) \<longrightarrow> tomb_exact c t a \<longrightarrow> tomb_exact now t' a' \<and> b = b')"
  proof (cases op)
    case (CloseKey key)
    then have r: "t' = tomb_insert key now t" "a' = a(key \<mapsto> now + tcp_tombstone_ttl)" "b = False" "b' = False"
      using assms(4,5) by auto
    note k = tomb_insert_known [OF assms(1,2) refl, of key]
    have "tomb_sound t' a'" using k(1) assms(3) by (fastforce simp: tomb_sound_def r)
    moreover have "tomb_exact now t' a'" if "length (tomb_by_key t) < tcp_tombstone_max" "tomb_exact c t a"
      using k(2) [OF that(1)] that(2) assms(2) by (auto simp: tomb_exact_def r)
    ultimately show ?thesis using tomb_insert_spec [OF assms(1,2), of key] CloseKey by (auto simp: r is_close_def)
  next
    case (FreshSyn key)
    then have r: "t' = tomb_remove key t" "a' = a(key := None)" "b = False" "b' = False" using assms(4,5) by auto
    have m: "map_of (tomb_by_key t') k = (if k = key then None else map_of (tomb_by_key t) k)" for k
      by (simp add: r tomb_remove_def delete_conv')
    have "length (tomb_by_key t') \<le> length (tomb_by_key t)" by (simp add: r tomb_remove_def AList.delete_eq)
    moreover have "tomb_sound t' a'" using assms(3) by (auto simp: tomb_sound_def m r(2))
    moreover have "tomb_exact now t' a'" if "tomb_exact c t a"
      using that assms(2) by (auto simp: tomb_exact_def m r(2) split: if_splits)
    moreover have "tomb_inv now t'" using tomb_remove_spec [OF i, of key] by (simp add: r(1))
    ultimately show ?thesis using assms(6) r(3,4) by (meson order_trans)
  next
    case (Probe key)
    then have r: "t' = tomb_expire now t" "a' = a" "b' = (case a key of None \<Rightarrow> False | Some d \<Rightarrow> d > now)"
      "b = (case map_of (tomb_by_key t') key of None \<Rightarrow> False | Some d \<Rightarrow> d > now)"
      using assms(4,5) by (auto simp: contains_live_def Let_def)
    have m: "map_of (tomb_by_key t') k
       = (case map_of (tomb_by_key t) k of Some d \<Rightarrow> if d \<le> now then None else Some d | None \<Rightarrow> None)" for k
      using tomb_expire_spec(2) [OF i] by (simp add: r)
    have sound: "tomb_sound t' a'" using assms(3) by (auto simp: tomb_sound_def r(2) m split: option.splits if_splits)
    have ex: "tomb_exact now t' a'" if "tomb_exact c t a"
      using that assms(2) by (auto simp: tomb_exact_def r(2) m)
    have known: "a key = Some d" if "map_of (tomb_by_key t') key = Some d" for d
      using sound that r(2) by (simp add: tomb_sound_def)
    have imp: "b \<longrightarrow> b'" using known unfolding r(3,4) by (cases "map_of (tomb_by_key t') key") auto
    have eq: "b = b'" if x: "tomb_exact now t' a'"
    proof -
      have "map_of (tomb_by_key t') key = Some d" if "a key = Some d" "now < d" for d
        using x that r(2) by (simp add: tomb_exact_def)
      then have "b' \<longrightarrow> b" unfolding r(3,4) by (cases "a key") auto
      then show ?thesis using imp by blast
    qed
    have "length (tomb_by_key t') \<le> card (dom (map_of (tomb_by_key t)))"
      by (rule sound_length [OF tomb_expire_spec(1) [OF i, of now, folded r(1)]])
        (auto simp: tomb_sound_def m finite_dom_map_of split: option.splits if_splits)
    also have "\<dots> \<le> length (tomb_by_key t)"
      unfolding dom_map_of_conv_image_fst by (rule order_trans [OF card_image_le card_length]) simp
    finally have len: "length (tomb_by_key t') \<le> tcp_tombstone_max" using assms(6) by simp
    have "tomb_inv now t'" using tomb_expire_spec(1) [OF i, of now] by (simp add: r(1))
    then show ?thesis using sound imp len ex eq by blast
  qed
  then show "tomb_inv now t'" "tomb_sound t' a'" "b \<longrightarrow> b'" "length (tomb_by_key t') \<le> tcp_tombstone_max"
    "is_close (now, op) \<longrightarrow> length (tomb_by_key t) < tcp_tombstone_max \<Longrightarrow> tomb_exact c t a \<Longrightarrow> tomb_exact now t' a' \<and> b = b'"
    by blast+
qed

lemma tomb_run_sim:
  assumes "tomb_inv c t" "tomb_sound t a" "length (tomb_by_key t) \<le> tcp_tombstone_max" "finite (dom a)"
    and "sorted (c # map fst es)" "tomb_run es t = (t', bs)"
  shows "length (tomb_by_key t') \<le> tcp_tombstone_max \<and> list_all2 (\<longrightarrow>) bs (spec_run es a) \<and>
    (tomb_exact c t a \<longrightarrow> card (dom a) + length (filter is_close es) \<le> tcp_tombstone_max \<longrightarrow> bs = spec_run es a)"
  using assms
proof (induction es arbitrary: c t a bs)
  case (Cons e es)
  obtain now op where e: "e = (now, op)" by force
  obtain t1 b where s: "tomb_step (now, op) t = (t1, b)" by force
  obtain a1 b' where a: "spec_step (now, op) a = (a1, b')" by force
  obtain bs1 where bs: "tomb_run es t1 = (t', bs1)" "bs = b # bs1"
    using Cons.prems(6) s by (auto simp: e split: prod.splits)
  have cn: "c \<le> now" "sorted (now # map fst es)" using Cons.prems(5) by (auto simp: e)
  note sim = tomb_step_sim [OF Cons.prems(1) cn(1) Cons.prems(2) s a Cons.prems(3)]
  note d = spec_dom_step [OF a Cons.prems(4)]
  note IH = Cons.IH [OF sim(1,2,4) conjunct1 [OF d] cn(2) bs(1)]
  have "tomb_exact now t1 a1 \<and> b = b' \<and> card (dom a1) + length (filter is_close es) \<le> tcp_tombstone_max"
    if "tomb_exact c t a" "card (dom a) + length (filter is_close (e # es)) \<le> tcp_tombstone_max"
    using sim(5) [OF _ that(1)] sound_length [OF Cons.prems(1,2,4)] d that(2) by (auto simp: e split: if_splits)
  then show ?case using IH sim(3) bs(2) a by (auto simp: e)
qed simp

text \<open>C11: the recent-close set over any history of closes, fresh SYNs and probes at increasing times. It never
  holds more than 65,536 keys; it never reports a key live that was not closed less than two seconds before
  with no fresh SYN since; and as long as the history has no more closes than the capacity, its answers are
  exactly those of the specification.\<close>

theorem tombstones_refine:
  assumes "sorted (map fst es)" "tomb_run es new_tombstones = (t, bs)"
  shows "length (tomb_by_key t) \<le> tcp_tombstone_max \<and> list_all2 (\<longrightarrow>) bs (spec_run es Map.empty) \<and>
    (length (filter is_close es) \<le> tcp_tombstone_max \<longrightarrow> bs = spec_run es Map.empty)"
  using tomb_run_sim [of 0 new_tombstones Map.empty es t bs] assms
  by (simp add: new_tombstones_def tomb_inv_def tomb_sound_def tomb_exact_def)

definition example_flow_key :: flow_key where
  "example_flow_key = \<lparr>key_a = Endpoint (V4 1) 80, key_b = Endpoint (V4 2) 1000, key_protocol = Tcp, key_l2_domain = 0\<rparr>"

definition example_tomb_history :: "(nat \<times> tomb_op) list" where
  "example_tomb_history = [(5, CloseKey example_flow_key), (6, Probe example_flow_key), (7, FreshSyn example_flow_key),
     (8, Probe example_flow_key), (9, CloseKey example_flow_key), (2000000009, Probe example_flow_key)]"

theorem tombstones_refine_witness:
  "snd (tomb_run example_tomb_history new_tombstones) = [False, True, False, False, False, False] \<and>
   length (tomb_by_key (fst (tomb_run example_tomb_history new_tombstones))) \<le> tcp_tombstone_max"
proof -
  have "sorted (map fst example_tomb_history)" by (simp add: example_tomb_history_def)
  from tombstones_refine [OF this, of "fst (tomb_run example_tomb_history new_tombstones)"
      "snd (tomb_run example_tomb_history new_tombstones)"]
  show ?thesis by (simp add: example_tomb_history_def is_close_def)
qed

end
