(* ===== verification/Rust_Text.thy ===== *)
theory Rust_Text
  imports Bazalt_Prelude
begin

text \<open>
  What the sources use of Rust's strings. A \<open>String\<close> is the list of its UTF-8 bytes, one \<open>char\<close> per byte; a
  \<open>&str\<close> inside a byte buffer is the byte list itself, checked with \<open>utf8_valid\<close>.
\<close>

subsection \<open>UTF-8\<close>

definition as_bytes :: "string \<Rightarrow> bytes" where
  "as_bytes s = map (\<lambda>c. of_nat (of_char c)) s"

definition of_bytes :: "bytes \<Rightarrow> string" where
  "of_bytes bs = map (\<lambda>b. char_of (unat b)) bs"

definition is_ascii_whitespace :: "byte \<Rightarrow> bool" where
  "is_ascii_whitespace b \<longleftrightarrow> b = 9 \<or> b = 10 \<or> b = 12 \<or> b = 13 \<or> b = 32"

definition cont_byte :: "byte \<Rightarrow> bool" where
  "cont_byte b \<longleftrightarrow> 0x80 \<le> b \<and> b \<le> 0xBF"

text \<open>The second byte that may follow a leading byte of a three- or four-byte sequence.\<close>

definition second3 :: "byte \<Rightarrow> byte \<Rightarrow> bool" where
  "second3 a b \<longleftrightarrow> (a = 0xE0 \<and> 0xA0 \<le> b \<and> b \<le> 0xBF) \<or> (0xE1 \<le> a \<and> a \<le> 0xEC \<and> cont_byte b)
     \<or> (a = 0xED \<and> 0x80 \<le> b \<and> b \<le> 0x9F) \<or> (0xEE \<le> a \<and> a \<le> 0xEF \<and> cont_byte b)"

definition second4 :: "byte \<Rightarrow> byte \<Rightarrow> bool" where
  "second4 a b \<longleftrightarrow> (a = 0xF0 \<and> 0x90 \<le> b \<and> b \<le> 0xBF) \<or> (0xF1 \<le> a \<and> a \<le> 0xF3 \<and> cont_byte b)
     \<or> (a = 0xF4 \<and> 0x80 \<le> b \<and> b \<le> 0x8F)"

text \<open>
  \<open>utf8_step bs\<close> looks at the front of \<open>bs\<close>: the number of bytes it consumes and whether they are a
  well-formed character. An ill-formed sequence ends before the byte that breaks it.
\<close>

definition byte_or_zero :: "bytes \<Rightarrow> nat \<Rightarrow> byte" where
  "byte_or_zero bs i = (if i < length bs then bs ! i else 0)"

definition utf8_step :: "bytes \<Rightarrow> nat \<times> bool" where
  "utf8_step bs =
     (let a = byte_or_zero bs 0; b = byte_or_zero bs 1; c = byte_or_zero bs 2; d = byte_or_zero bs 3 in
      if a < 0x80 then (1, True)
      else if 0xC2 \<le> a \<and> a \<le> 0xDF then (if cont_byte b then (2, True) else (1, False))
      else if 0xE0 \<le> a \<and> a \<le> 0xEF then
        (if \<not> second3 a b then (1, False) else if cont_byte c then (3, True) else (2, False))
      else if 0xF0 \<le> a \<and> a \<le> 0xF4 then
        (if \<not> second4 a b then (1, False) else if \<not> cont_byte c then (2, False)
         else if cont_byte d then (4, True) else (3, False))
      else (1, False))"

lemma utf8_step_pos [simp]: "0 < fst (utf8_step bs)"
  by (simp add: utf8_step_def Let_def)

lemma utf8_step_some: "(n, ok) = utf8_step bs \<Longrightarrow> 0 < n"
  using utf8_step_pos [of bs] by (cases "utf8_step bs") auto

function utf8_valid :: "bytes \<Rightarrow> bool" where
  "utf8_valid bs =
     (if bs = [] then True
      else if snd (utf8_step bs) then utf8_valid (drop (fst (utf8_step bs)) bs) else False)"
  by auto
termination
  by (relation "measure length") (auto simp: diff_less)

function lossy_bytes :: "bytes \<Rightarrow> bytes" where
  "lossy_bytes bs =
     (if bs = [] then []
      else let (n, ok) = utf8_step bs in
        (if ok then take n bs else [0xEF, 0xBF, 0xBD]) @ lossy_bytes (drop n bs))"
  by auto
termination
  by (relation "measure length") (auto intro!: diff_less dest: utf8_step_some)

declare utf8_valid.simps [simp del] lossy_bytes.simps [simp del]

definition from_utf8_lossy :: "bytes \<Rightarrow> string" where
  "from_utf8_lossy bs = of_bytes (lossy_bytes bs)"

lemma of_bytes_as_bytes [simp]: "of_bytes (as_bytes s) = s"
proof -
  have "char_of (unat (of_nat (of_char c) :: byte)) = c" for c
    using of_char_mod_256 [of c, where 'a = nat] by (simp add: unat_of_nat)
  then show ?thesis by (simp add: of_bytes_def as_bytes_def o_def)
qed

lemma length_as_bytes [simp]: "length (as_bytes s) = length s"
  by (simp add: as_bytes_def)

lemma as_bytes_Nil_iff [simp]: "as_bytes s = [] \<longleftrightarrow> s = []"
  by (simp add: as_bytes_def)

lemma lossy_valid: "utf8_valid bs \<Longrightarrow> lossy_bytes bs = bs"
proof (induction bs rule: utf8_valid.induct)
  case (1 bs)
  show ?case
  proof (cases "bs = []")
    case False
    obtain n ok where st: "utf8_step bs = (n, ok)"
      by (cases "utf8_step bs")
    with 1(2) False have "ok" and v: "utf8_valid (drop n bs)"
      by (auto simp: utf8_valid.simps [of bs] split: if_splits)
    with 1(1) False st show ?thesis
      by (simp add: lossy_bytes.simps [of bs])
  qed (simp add: lossy_bytes.simps)
qed

subsection \<open>Splitting, trimming, numbers\<close>

text \<open>\<open>str::split\<close> on one ASCII character: always at least one piece.\<close>

fun split_on :: "byte \<Rightarrow> bytes \<Rightarrow> bytes list" where
  "split_on c [] = [[]]"
| "split_on c (x # xs) =
     (if x = c then [] # split_on c xs
      else case split_on c xs of [] \<Rightarrow> [[x]] | y # ys \<Rightarrow> (x # y) # ys)"

text \<open>
  \<open>str::trim\<close> removes Unicode white space at both ends. \<open>ws_chars\<close> are the encodings of the characters with
  the property White\_Space.
\<close>

definition ws_chars :: "bytes list" where
  "ws_chars =
     [[9], [10], [11], [12], [13], [32], [0xC2, 0x85], [0xC2, 0xA0], [0xE1, 0x9A, 0x80],
      [0xE2, 0x80, 0x80], [0xE2, 0x80, 0x81], [0xE2, 0x80, 0x82], [0xE2, 0x80, 0x83], [0xE2, 0x80, 0x84],
      [0xE2, 0x80, 0x85], [0xE2, 0x80, 0x86], [0xE2, 0x80, 0x87], [0xE2, 0x80, 0x88], [0xE2, 0x80, 0x89],
      [0xE2, 0x80, 0x8A], [0xE2, 0x80, 0xA8], [0xE2, 0x80, 0xA9], [0xE2, 0x80, 0xAF], [0xE2, 0x81, 0x9F],
      [0xE3, 0x80, 0x80]]"

text \<open>The length of the white space character at the front, 0 if there is none.\<close>

definition ws_len :: "bytes list \<Rightarrow> bytes \<Rightarrow> nat" where
  "ws_len chars bs = (case filter (\<lambda>w. take (length w) bs = w) chars of [] \<Rightarrow> 0 | w # _ \<Rightarrow> length w)"

function strip_front :: "bytes list \<Rightarrow> bytes \<Rightarrow> bytes" where
  "strip_front chars bs =
     (if ws_len chars bs = 0 \<or> bs = [] then bs else strip_front chars (drop (ws_len chars bs) bs))"
  by auto
termination
  by (relation "measure (\<lambda>(_, bs). length bs)") auto

declare strip_front.simps [simp del]

definition trim_start :: "bytes \<Rightarrow> bytes" where
  "trim_start = strip_front ws_chars"

definition trim_end :: "bytes \<Rightarrow> bytes" where
  "trim_end bs = rev (strip_front (map rev ws_chars) (rev bs))"

definition trim :: "bytes \<Rightarrow> bytes" where
  "trim bs = trim_end (trim_start bs)"

definition is_digit :: "byte \<Rightarrow> bool" where
  "is_digit b \<longleftrightarrow> 48 \<le> b \<and> b \<le> 57"

definition lower_byte :: "byte \<Rightarrow> byte" where
  "lower_byte b = (if 65 \<le> b \<and> b \<le> 90 then b + 32 else b)"

definition eq_ignore_ascii_case :: "bytes \<Rightarrow> bytes \<Rightarrow> bool" where
  "eq_ignore_ascii_case a b \<longleftrightarrow> map lower_byte a = map lower_byte b"

text \<open>\<open>parse::<u64>\<close> of a non-empty string of digits: \<open>None\<close> on overflow.\<close>

definition decimal_value :: "bytes \<Rightarrow> nat" where
  "decimal_value bs = foldl (\<lambda>n b. 10 * n + (unat b - 48)) 0 bs"

definition parse_u64 :: "bytes \<Rightarrow> nat option" where
  "parse_u64 bs = (if decimal_value bs \<le> u64_max then Some (decimal_value bs) else None)"

text \<open>Decimal digits, as \<open>format!\<close> prints an integer.\<close>

definition digit :: "nat \<Rightarrow> char" where
  "digit n = char_of (48 + n)"

fun decimal :: "nat \<Rightarrow> string" where
  "decimal n = (if n < 10 then [digit n] else decimal (n div 10) @ [digit (n mod 10)])"

declare decimal.simps [simp del]

lemma decimal_digits: "list_all is_digit (as_bytes (decimal n)) \<and> decimal n \<noteq> []"
proof (induction n rule: decimal.induct)
  case (1 n)
  have d: "is_digit (of_nat (of_char (digit k)) :: byte)" if "k < 10" for k
  proof -
    have "of_char (digit k) = (48 + k :: nat)" using that by (simp add: digit_def)
    moreover have "unat (of_nat (48 + k) :: byte) = 48 + k" using that unfolding unat_of_nat by simp
    ultimately show ?thesis using that by (simp add: is_digit_def word_le_nat_alt)
  qed
  show ?case
    using 1 d by (subst (1 2) decimal.simps) (auto simp: as_bytes_def)
qed

lemma decimal_value_snoc: "decimal_value (bs @ [b]) = 10 * decimal_value bs + (unat b - 48)"
  by (simp add: decimal_value_def)

lemma digit_byte: "k < 10 \<Longrightarrow> unat (of_nat (of_char (digit k)) :: byte) = 48 + k"
proof -
  assume "k < 10"
  then have "of_char (digit k) = (48 + k :: nat)" by (simp add: digit_def)
  with \<open>k < 10\<close> show ?thesis unfolding unat_of_nat by simp
qed

lemma decimal_value_decimal: "decimal_value (as_bytes (decimal n)) = n"
proof (induction n rule: decimal.induct)
  case (1 n)
  show ?case
  proof (cases "n < 10")
    case True
    then show ?thesis by (subst decimal.simps) (simp add: as_bytes_def decimal_value_def digit_byte)
  next
    case False
    then have "as_bytes (decimal n) = as_bytes (decimal (n div 10)) @ [of_nat (of_char (digit (n mod 10)))]"
      by (subst decimal.simps) (simp add: as_bytes_def)
    with False 1 show ?thesis by (simp add: decimal_value_snoc digit_byte)
  qed
qed

lemma decimal_length: "n < 10 ^ k \<Longrightarrow> 0 < k \<Longrightarrow> length (decimal n) \<le> k"
proof (induction k arbitrary: n)
  case (Suc k)
  show ?case
  proof (cases "n < 10")
    case True
    then show ?thesis by (subst decimal.simps) simp
  next
    case False
    with Suc.prems have "0 < k" by (cases k) auto
    moreover have "n div 10 < 10 ^ k" using Suc.prems (1) by (simp add: less_mult_imp_div_less mult.commute)
    ultimately have "length (decimal (n div 10)) \<le> k" using Suc.IH by blast
    with False show ?thesis by (subst decimal.simps) simp
  qed
qed simp

definition hex_digit :: "byte \<Rightarrow> nat option" where
  "hex_digit b =
     (if 48 \<le> b \<and> b \<le> 57 then Some (unat b - 48)
      else if 65 \<le> b \<and> b \<le> 70 then Some (unat b - 55)
      else if 97 \<le> b \<and> b \<le> 102 then Some (unat b - 87) else None)"

fun hex_value :: "nat \<Rightarrow> bytes \<Rightarrow> nat option" where
  "hex_value n [] = Some n"
| "hex_value n (b # bs) =
     (case hex_digit b of None \<Rightarrow> None
      | Some d \<Rightarrow> if 16 * n + d \<le> u64_max then hex_value (16 * n + d) bs else None)"

text \<open>\<open>usize::from_str_radix(_, 16)\<close> accepts one leading plus sign in front of at least one digit.\<close>

definition from_hex :: "bytes \<Rightarrow> nat option" where
  "from_hex bs =
     (if bs = [] \<or> bs = [43] then None
      else hex_value 0 (if hd bs = 43 then tl bs else bs))"

text \<open>\<open>windows(n).position\<close> of a pattern.\<close>

fun find_window :: "bytes \<Rightarrow> bytes \<Rightarrow> nat option" where
  "find_window pat [] = (if pat = [] then Some 0 else None)"
| "find_window pat (x # xs) =
     (if length (x # xs) < length pat then None
      else if take (length pat) (x # xs) = pat then Some 0
      else map_option Suc (find_window pat xs))"

lemma find_window_Some:
  "find_window pat v = Some p \<Longrightarrow> p + length pat \<le> length v \<and> take (length pat) (drop p v) = pat"
  by (induction pat v arbitrary: p rule: find_window.induct) (auto split: if_splits)

lemma find_window_first:
  assumes "find_window pat v = Some p" "q < p"
  shows "take (length pat) (drop q v) \<noteq> pat"
  using assms
proof (induction pat v arbitrary: p q rule: find_window.induct)
  case (2 pat x xs)
  then show ?case by (cases q) (auto split: if_splits)
qed (simp split: if_splits)

lemma find_window_None:
  assumes "find_window pat v = None" "q + length pat \<le> length v"
  shows "take (length pat) (drop q v) \<noteq> pat"
  using assms
proof (induction pat v arbitrary: q rule: find_window.induct)
  case (2 pat x xs)
  then show ?case by (cases q) (auto split: if_splits)
qed (auto split: if_splits)

lemma find_window_iff:
  "find_window pat v = Some p \<longleftrightarrow>
   p + length pat \<le> length v \<and> take (length pat) (drop p v) = pat \<and> (\<forall>q < p. take (length pat) (drop q v) \<noteq> pat)"
  (is "_ \<longleftrightarrow> ?R")
proof
  assume ?R
  then obtain p' where p': "find_window pat v = Some p'"
    using find_window_None by (cases "find_window pat v") auto
  with \<open>?R\<close> find_window_Some [OF p'] find_window_first [OF p'] have "p' = p"
    by (metis linorder_neqE_nat)
  with p' show "find_window pat v = Some p" by simp
qed (use find_window_Some find_window_first in blast)

text \<open>Printable ASCII characters are not trimmed and are well formed.\<close>

definition graphic :: "byte \<Rightarrow> bool" where
  "graphic b \<longleftrightarrow> 33 \<le> b \<and> b \<le> 126"

lemma graphic_strip:
  assumes "list_all graphic bs" and "\<forall>w \<in> set chars. w \<noteq> [] \<and> \<not> graphic (hd w)"
  shows "strip_front chars bs = bs"
proof -
  have "take (length w) bs \<noteq> w" if "w \<in> set chars" "bs \<noteq> []" for w
    using assms that by (cases bs; cases w) auto
  then have "bs \<noteq> [] \<Longrightarrow> filter (\<lambda>w. take (length w) bs = w) chars = []" by (simp add: filter_empty_conv)
  then have "bs = [] \<or> ws_len chars bs = 0" by (cases "bs = []") (simp_all add: ws_len_def)
  then show ?thesis by (subst strip_front.simps) auto
qed

lemma ws_chars_graphic:
  "\<forall>w \<in> set ws_chars. w \<noteq> [] \<and> \<not> graphic (hd w)" "\<forall>w \<in> set (map rev ws_chars). w \<noteq> [] \<and> \<not> graphic (hd w)"
  by (simp_all add: ws_chars_def graphic_def)

lemma graphic_trim: "list_all graphic bs \<Longrightarrow> trim bs = bs"
  by (simp add: trim_def trim_start_def trim_end_def graphic_strip [OF _ ws_chars_graphic (1)] graphic_strip [OF _ ws_chars_graphic (2)])

lemma utf8_valid_ascii: "list_all (\<lambda>b. b < 0x80) bs \<Longrightarrow> utf8_valid bs"
proof (induction bs)
  case (Cons b bs)
  then have "utf8_step (b # bs) = (1, True)" by (simp add: utf8_step_def byte_or_zero_def)
  with Cons show ?case by (subst utf8_valid.simps) simp
qed (simp add: utf8_valid.simps)

lemma split_on_none: "c \<notin> set bs \<Longrightarrow> split_on c bs = [bs]"
  by (induction bs) auto

lemma split_on_append: "c \<notin> set bs \<Longrightarrow> split_on c (bs @ c # xs) = bs # split_on c xs"
  by (induction bs) auto

end
