(* ===== verification/Service_Registry.thy ===== *)
theory Service_Registry
  imports Bazalt_Model Rust_Text
begin

text \<open>
  The service registry of \<open>src/src/http/mod.rs\<close> (\<open>ServiceRegistry\<close>): which ports are captured and how.
  Readers load an immutable snapshot of the map and writers publish a new one (\<open>ArcSwap\<close>), so an operation
  is a function on the current map and the generation counter. The hash map is an association list with
  distinct ports whose order stands for its iteration order; the counter wraps like the \<open>AtomicU64\<close> it is.
\<close>

subsection \<open>State\<close>

record service_packet_scope =
  scope_destination :: bool
  scope_flow :: bool

record service_registry =
  reg_by_port :: "(u16 \<times> service_config) list"
  reg_generation :: u64

definition new_registry :: "service_config list \<Rightarrow> service_registry" where
  "new_registry initial =
     \<lparr>reg_by_port = fold (\<lambda>s m. AList.update (svc_port s) s m) initial [], reg_generation = 1\<rparr>"

subsection \<open>Operations\<close>

definition upsert :: "service_config \<Rightarrow> service_registry \<Rightarrow> service_registry" where
  "upsert s r = r\<lparr>reg_by_port := AList.update (svc_port s) s (reg_by_port r),
                  reg_generation := reg_generation r + 1\<rparr>"

definition delete_service :: "u16 \<Rightarrow> service_registry \<Rightarrow> service_registry \<times> bool" where
  "delete_service port r =
     (if map_of (reg_by_port r) port = None then (r, False)
      else (r\<lparr>reg_by_port := AList.delete port (reg_by_port r), reg_generation := reg_generation r + 1\<rparr>, True))"

definition list_services :: "service_registry \<Rightarrow> service_config list" where
  "list_services r = sort_key svc_port (map snd (reg_by_port r))"

definition by_port :: "u16 \<Rightarrow> service_registry \<Rightarrow> service_config option" where
  "by_port port r = map_of (reg_by_port r) port"

definition registry_is_empty :: "service_registry \<Rightarrow> bool" where
  "registry_is_empty r \<longleftrightarrow> reg_by_port r = []"

definition ports :: "service_registry \<Rightarrow> u16 list" where
  "ports r = sort (map fst (reg_by_port r))"

definition generation :: "service_registry \<Rightarrow> u64" where
  "generation r = reg_generation r"

definition accepts_port :: "service_registry \<Rightarrow> u16 \<Rightarrow> bool" where
  "accepts_port r port \<longleftrightarrow> map_of (reg_by_port r) port \<noteq> None"

definition packet_scope :: "service_registry \<Rightarrow> parsed_packet \<Rightarrow> service_packet_scope" where
  "packet_scope r p =
     (let destination = accepts_port r (ep_port (destination_endpoint p));
          source = accepts_port r (ep_port (source_endpoint p)) in
      \<lparr>scope_destination = destination, scope_flow = destination \<or> source\<rparr>)"

definition accepts_destination :: "service_registry \<Rightarrow> parsed_packet \<Rightarrow> bool" where
  "accepts_destination r p = accepts_port r (ep_port (destination_endpoint p))"

definition accepts_flow :: "service_registry \<Rightarrow> flow_key \<Rightarrow> bool" where
  "accepts_flow r key \<longleftrightarrow> accepts_port r (ep_port (key_a key)) \<or> accepts_port r (ep_port (key_b key))"

definition service_for_http :: "service_registry \<Rightarrow> flow_key \<Rightarrow> direction \<Rightarrow> string" where
  "service_for_http r key request_direction =
     (let port = (case request_direction of AToB \<Rightarrow> ep_port (key_b key) | BToA \<Rightarrow> ep_port (key_a key)) in
      case map_of (reg_by_port r) port of
        Some service \<Rightarrow> svc_name service
      | None \<Rightarrow> ''http:'' @ decimal (unat port))"

text \<open>\<open>get(a).or_else(|| get(b))\<close>\<close>

definition flow_service :: "service_registry \<Rightarrow> flow_key \<Rightarrow> service_config option" where
  "flow_service r key =
     (case map_of (reg_by_port r) (ep_port (key_a key)) of
        Some s \<Rightarrow> Some s | None \<Rightarrow> map_of (reg_by_port r) (ep_port (key_b key)))"

definition service_for_flow :: "service_registry \<Rightarrow> flow_key \<Rightarrow> string option" where
  "service_for_flow r key = map_option svc_name (flow_service r key)"

definition should_parse_http :: "service_registry \<Rightarrow> flow_key \<Rightarrow> bool" where
  "should_parse_http r key = (case flow_service r key of None \<Rightarrow> False | Some s \<Rightarrow> svc_http s)"

subsection \<open>The registry refines a finite map\<close>

text \<open>
  The interface its clients use: a table of services under an abstraction to a map. The invariant is what
  makes the map well formed: ports are distinct and every service is filed under its own port.
\<close>

locale service_table =
  fixes look :: "'r \<Rightarrow> u16 \<rightharpoonup> service_config"
    and invar :: "'r \<Rightarrow> bool"
    and put :: "service_config \<Rightarrow> 'r \<Rightarrow> 'r"
    and del :: "u16 \<Rightarrow> 'r \<Rightarrow> 'r \<times> bool"
  assumes look_put: "invar r \<Longrightarrow> look (put s r) = (look r)(svc_port s \<mapsto> s)"
    and look_del: "invar r \<Longrightarrow> look (fst (del p r)) = (look r)(p := None)"
    and del_found: "snd (del p r) \<longleftrightarrow> look r p \<noteq> None"
    and invar_put: "invar r \<Longrightarrow> invar (put s r)"
    and invar_del: "invar r \<Longrightarrow> invar (fst (del p r))"
    and filed: "invar r \<Longrightarrow> look r p = Some s \<Longrightarrow> svc_port s = p"
begin

lemma put_del_restores:
  assumes "invar r" "look r p = Some s"
  shows "look (put s (fst (del p r))) = look r"
  using assms filed [OF assms] by (auto simp: look_put look_del invar_del)

lemma del_idempotent:
  assumes "invar r"
  shows "look (fst (del p (fst (del p r)))) = look (fst (del p r)) \<and> \<not> snd (del p (fst (del p r)))"
  using assms by (simp add: look_del invar_del del_found)

lemma put_commute:
  assumes "invar r" "svc_port s \<noteq> svc_port t"
  shows "look (put s (put t r)) = look (put t (put s r))"
  using assms by (auto simp: look_put invar_put)

end

definition registry_ok :: "service_registry \<Rightarrow> bool" where
  "registry_ok r \<longleftrightarrow> distinct (map fst (reg_by_port r)) \<and> (\<forall>(p, s) \<in> set (reg_by_port r). svc_port s = p)"

lemma registry_okD: "registry_ok r \<Longrightarrow> map_of (reg_by_port r) p = Some s \<Longrightarrow> svc_port s = p"
  by (auto simp: registry_ok_def dest: map_of_SomeD)

lemma alist_update_filed:
  "\<forall>(p, s) \<in> set m. svc_port s = p \<Longrightarrow> \<forall>(p, s) \<in> set (AList.update (svc_port t) t m). svc_port s = p"
  by (induction m) auto

lemma upsert_ok: "registry_ok r \<Longrightarrow> registry_ok (upsert s r)"
  using alist_update_filed [of "reg_by_port r" s] by (auto simp: registry_ok_def upsert_def distinct_update)

lemma delete_ok: "registry_ok r \<Longrightarrow> registry_ok (fst (delete_service p r))"
  by (auto simp: registry_ok_def delete_service_def AList.delete_eq intro: distinct_map_filter)

interpretation reg: service_table "\<lambda>r. map_of (reg_by_port r)" registry_ok upsert delete_service
  by unfold_locales
    (auto simp: upsert_def delete_service_def update_conv' delete_conv' upsert_ok [unfolded upsert_def]
      delete_ok [unfolded delete_service_def] registry_okD fun_eq_iff intro: upsert_ok delete_ok)

lemma new_registry_ok: "registry_ok (new_registry initial)"
proof -
  have "distinct (map fst (fold (\<lambda>s m. AList.update (svc_port s) s m) initial m)) \<and>
    (\<forall>(p, s) \<in> set (fold (\<lambda>s m. AList.update (svc_port s) s m) initial m). svc_port s = p)"
    if "distinct (map fst m)" "\<forall>(p, s) \<in> set m. svc_port s = p" for m
    using that
  proof (induction initial arbitrary: m)
    case (Cons s initial)
    show ?case using Cons.IH [of "AList.update (svc_port s) s m"] Cons.prems
      by (simp add: distinct_update alist_update_filed)
  qed simp
  from this [of "[]"] show ?thesis by (simp add: registry_ok_def new_registry_def)
qed

subsection \<open>Histories\<close>

datatype registry_op = Upsert service_config | DeleteService u16

fun apply_op :: "registry_op \<Rightarrow> service_registry \<Rightarrow> service_registry" where
  "apply_op (Upsert s) r = upsert s r"
| "apply_op (DeleteService p) r = fst (delete_service p r)"

text \<open>The abstract table and the number of changes it has seen.\<close>

fun map_op :: "registry_op \<Rightarrow> (u16 \<rightharpoonup> service_config) \<times> nat \<Rightarrow> (u16 \<rightharpoonup> service_config) \<times> nat" where
  "map_op (Upsert s) (m, n) = (m(svc_port s \<mapsto> s), n + 1)"
| "map_op (DeleteService p) (m, n) = (if m p = None then (m, n) else (m(p := None), n + 1))"

definition registry_rel :: "service_registry \<Rightarrow> (u16 \<rightharpoonup> service_config) \<times> nat \<Rightarrow> bool" where
  "registry_rel r a \<longleftrightarrow> registry_ok r \<and> map_of (reg_by_port r) = fst a \<and> reg_generation r = of_nat (snd a)"

lemma apply_op_rel:
  assumes "registry_rel r a"
  shows "registry_rel (apply_op x r) (map_op x a)"
proof (cases x)
  case (Upsert s)
  then show ?thesis
    using assms reg.look_put [of r s] reg.invar_put [of r s] by (cases a) (auto simp: registry_rel_def upsert_def)
next
  case (DeleteService p)
  then show ?thesis
    using assms reg.look_del [of r p] reg.invar_del [of r p] reg.del_found [of p r]
    by (cases a) (auto simp: registry_rel_def delete_service_def)
qed

lemma apply_ops_rel: "registry_rel r a \<Longrightarrow> registry_rel (fold apply_op ops r) (fold map_op ops a)"
proof (induction ops arbitrary: r a)
  case (Cons x ops)
  show ?case using Cons.IH [OF apply_op_rel [OF Cons.prems]] by simp
qed simp

lemma list_services_spec:
  assumes "registry_ok r"
  shows "sorted (map svc_port (list_services r))" "distinct (list_services r)"
    "s \<in> set (list_services r) \<longleftrightarrow> map_of (reg_by_port r) (svc_port s) = Some s"
    "ports r = map svc_port (list_services r)"
proof -
  have fst_eq: "map fst (reg_by_port r) = map (svc_port \<circ> snd) (reg_by_port r)"
    using assms by (auto simp: registry_ok_def)
  have d: "distinct (map svc_port (map snd (reg_by_port r)))" using assms fst_eq by (simp add: registry_ok_def)
  then have "distinct (map snd (reg_by_port r))" by (rule distinct_map [THEN iffD1, THEN conjunct1])
  then show "distinct (list_services r)" by (simp add: list_services_def)
  show "sorted (map svc_port (list_services r))" by (simp add: list_services_def)
  have "s \<in> snd ` set (reg_by_port r) \<longleftrightarrow> (svc_port s, s) \<in> set (reg_by_port r)"
    using assms by (force simp: registry_ok_def)
  then show "s \<in> set (list_services r) \<longleftrightarrow> map_of (reg_by_port r) (svc_port s) = Some s"
    using assms by (simp add: list_services_def registry_ok_def)
  show "ports r = map svc_port (list_services r)"
    unfolding ports_def
  proof (rule properties_for_sort)
    show "mset (map svc_port (list_services r)) = mset (map fst (reg_by_port r))"
      by (simp add: list_services_def fst_eq flip: image_mset.compositionality)
  qed (simp add: list_services_def)
qed

text \<open>C12: after any history of edits the registry is the finite map the edits describe. Lookup answers
  from that map; \<open>list\<close> holds each service once, ordered by port, and \<open>ports\<close> are their ports; the
  registry is empty exactly when the map is; and the generation is one more than the number of edits that
  changed the map, so a reader sees a new generation after every change and after no other edit.\<close>

theorem registry_refines_map:
  fixes ops :: "registry_op list"
  defines "r \<equiv> fold apply_op ops (new_registry [])"
    and "a \<equiv> fold map_op ops (Map.empty, 1)"
  shows "(\<forall>p. by_port p r = fst a p) \<and> generation r = of_nat (snd a) \<and>
    sorted (map svc_port (list_services r)) \<and> distinct (list_services r) \<and>
    set (list_services r) = ran (fst a) \<and> ports r = map svc_port (list_services r) \<and>
    (registry_is_empty r \<longleftrightarrow> fst a = Map.empty)"
proof -
  have "registry_rel (new_registry []) (Map.empty, 1)"
    using new_registry_ok [of "[]"] by (simp add: registry_rel_def new_registry_def)
  then have rel: "registry_rel r a" unfolding r_def a_def by (rule apply_ops_rel)
  then have ok: "registry_ok r" and m: "map_of (reg_by_port r) = fst a" by (simp_all add: registry_rel_def)
  have "set (list_services r) = ran (fst a)"
    using list_services_spec(3) [OF ok] registry_okD [OF ok] by (auto simp: m [symmetric] ran_def)
  moreover have "registry_is_empty r \<longleftrightarrow> fst a = Map.empty"
    using m by (metis map_of.simps(1) map_of_eq_empty_iff registry_is_empty_def)
  ultimately show ?thesis
    using rel list_services_spec(1,2,4) [OF ok] m by (simp add: registry_rel_def by_port_def generation_def)
qed

text \<open>The admission test of a packet is directional; the flow test is not.\<close>

lemma scope_flow_key: "scope_flow (packet_scope r p) = accepts_flow r (pkt_key p)"
  by (auto simp: packet_scope_def accepts_flow_def source_endpoint_def destination_endpoint_def Let_def
      split: direction.splits)

lemma accepts_destination_flow: "accepts_destination r p \<Longrightarrow> accepts_flow r (pkt_key p)"
  by (auto simp: accepts_destination_def accepts_flow_def destination_endpoint_def split: direction.splits)

end
