(* ===== verification/Flow_Engine.thy ===== *)
theory Flow_Engine
  imports Tcp_Reassembly Tombstones Service_Registry
begin

text \<open>
  The flow engine of \<open>src/src/flow/mod.rs\<close>: one shard of it, with the flow table, the recent-close set,
  the idle timers, the count of flows per source prefix, the counters it shares with the other shards and
  the channel to the L7 workers.

  One iteration of \<open>shard_loop\<close> is \<open>shard_step\<close>: a packet (\<open>handle_packet\<close>) or a receive timeout, then the
  expired timers, then the compaction of the timer heap. A rejected or suppressed packet ends the iteration
  early, as the \<open>continue\<close> of the source does. \<open>shard_drain\<close> is what happens when the input is closed.

  What the code reads from outside is an argument: the clock readings of an iteration by call site
  (\<open>flow_env\<close>), the fresh UUID of a new flow, and for every send whether the receiving worker is still alive
  (\<open>alive w n\<close>, worker \<open>w\<close> at the \<open>n\<close>-th send). A send that waits for a full queue is one that has
  succeeded. The per-flow packet and byte counters are natural numbers: they would need \<open>2^64\<close> packets to
  overflow. The binary heap of timers is the list of its items in the order \<open>pop\<close> returns them.
\<close>

subsection \<open>Configuration and environment\<close>

record flow_config =
  max_active_flows :: nat
  max_flows_per_source_prefix :: nat
  max_ooo_bytes :: nat
  max_ooo_segments :: nat
  tcp_gap_timeout :: nat
  live_flow_update_interval :: nat
  tcp_idle_timeout :: nat
  udp_idle_timeout :: nat

record flow_env =
  fe_uuid :: uuid
  fe_probe :: nat
  fe_created :: nat
  fe_created_snapshot :: nat
  fe_activity :: nat
  fe_snapshot :: nat
  fe_timer :: nat
  fe_closed :: nat
  fe_expiry :: nat

record flow_metrics =
  fm_active_flows :: nat
  fm_packets_filtered :: u64
  fm_flow_state_rejections :: u64
  fm_flow_prefix_rejections :: u64
  fm_packets_received :: u64
  fm_packet_bytes :: u64
  fm_tcp_rejected_resets :: u64
  fm_tcp_retransmits :: u64
  fm_tcp_out_of_order :: u64
  fm_tcp_gap_events :: u64
  fm_tcp_gap_bytes :: u64
  fm_flows_completed :: u64
  fm_flow_queue_depth :: u64
  fm_l7_queue_depth :: u64
  fm_l7_queue_high_watermark :: u64

subsection \<open>The channel to the L7 workers\<close>

record l7_ingress =
  l7_workers :: nat
  l7_sends :: nat
  l7_sent :: "(nat \<times> flow_output) list"

definition output_flow_id :: "flow_output \<Rightarrow> uuid" where
  "output_flow_id event =
     (case event of Chunk c \<Rightarrow> sc_flow_id c | Snapshot s \<Rightarrow> fs_flow_id s | Closed s \<Rightarrow> fs_flow_id s)"

definition l7_index :: "nat \<Rightarrow> uuid \<Rightarrow> nat" where
  "l7_index workers flow_id = unat (ucast flow_id :: u64) mod workers"

type_synonym liveness = "nat \<Rightarrow> nat \<Rightarrow> bool"

subsection \<open>Flow state\<close>

datatype source_prefix = PrefixV4 u32 | PrefixV6 u64

definition prefix_from_packet :: "parsed_packet \<Rightarrow> source_prefix" where
  "prefix_from_packet p =
     (let source = (case pkt_direction p of AToB \<Rightarrow> ep_ip (key_a (pkt_key p)) | BToA \<Rightarrow> ep_ip (key_b (pkt_key p))) in
      case source of V4 ip \<Rightarrow> PrefixV4 (drop_bit 8 ip) | V6 ip \<Rightarrow> PrefixV6 (ucast (drop_bit 64 ip)))"

record flow_state =
  fl_id :: uuid
  fl_key :: flow_key
  fl_initiator :: direction
  fl_source_prefix :: source_prefix
  fl_started_ns :: nat
  fl_last_seen_ns :: nat
  fl_last_activity :: nat
  fl_a_to_b :: tcp_half
  fl_b_to_a :: tcp_half
  fl_packets_a_to_b :: nat
  fl_packets_b_to_a :: nat
  fl_bytes_a_to_b :: nat
  fl_bytes_b_to_a :: nat
  fl_truncated :: bool
  fl_visible :: bool
  fl_last_snapshot :: nat

definition new_flow_state :: "flow_env \<Rightarrow> parsed_packet \<Rightarrow> flow_state" where
  "new_flow_state env p =
     \<lparr>fl_id = fe_uuid env, fl_key = pkt_key p, fl_initiator = pkt_direction p,
      fl_source_prefix = prefix_from_packet p, fl_started_ns = pkt_ts_ns p, fl_last_seen_ns = pkt_ts_ns p,
      fl_last_activity = fe_created env, fl_a_to_b = default_half, fl_b_to_a = default_half,
      fl_packets_a_to_b = 0, fl_packets_b_to_a = 0, fl_bytes_a_to_b = 0, fl_bytes_b_to_a = 0,
      fl_truncated = False, fl_visible = False, fl_last_snapshot = fe_created_snapshot env\<rparr>"

definition half_of :: "direction \<Rightarrow> flow_state \<Rightarrow> tcp_half" where
  "half_of d f = (case d of AToB \<Rightarrow> fl_a_to_b f | BToA \<Rightarrow> fl_b_to_a f)"

definition set_half :: "direction \<Rightarrow> tcp_half \<Rightarrow> flow_state \<Rightarrow> flow_state" where
  "set_half d h f = (case d of AToB \<Rightarrow> f\<lparr>fl_a_to_b := h\<rparr> | BToA \<Rightarrow> f\<lparr>fl_b_to_a := h\<rparr>)"

definition is_syn_retransmit :: "flow_state \<Rightarrow> parsed_packet \<Rightarrow> bool" where
  "is_syn_retransmit f p \<longleftrightarrow> flag_syn (pkt_flags p) \<and> \<not> flag_ack (pkt_flags p) \<and> pkt_seq p \<noteq> None \<and>
     initial_syn_seq (half_of (pkt_direction p) f) = pkt_seq p"

definition count_packet :: "flow_env \<Rightarrow> parsed_packet \<Rightarrow> flow_state \<Rightarrow> flow_state" where
  "count_packet env p f =
     (case pkt_direction p of
        AToB \<Rightarrow> f\<lparr>fl_packets_a_to_b := fl_packets_a_to_b f + 1,
                  fl_bytes_a_to_b := fl_bytes_a_to_b f + length (pkt_payload p)\<rparr>
      | BToA \<Rightarrow> f\<lparr>fl_packets_b_to_a := fl_packets_b_to_a f + 1,
                  fl_bytes_b_to_a := fl_bytes_b_to_a f + length (pkt_payload p)\<rparr>)
     \<lparr>fl_last_seen_ns := pkt_ts_ns p, fl_last_activity := fe_activity env\<rparr>"

definition should_close :: "flow_state \<Rightarrow> bool \<Rightarrow> bool" where
  "should_close f rst_accepted \<longleftrightarrow> rst_accepted \<or> fin_consumed (fl_a_to_b f) \<and> fin_consumed (fl_b_to_a f)"

definition summary :: "flow_state \<Rightarrow> flow_summary" where
  "summary f =
     (let (src, dst, packets_c2s, packets_s2c, bytes_c2s, bytes_s2c) =
        (case fl_initiator f of
           AToB \<Rightarrow> (key_a (fl_key f), key_b (fl_key f), fl_packets_a_to_b f, fl_packets_b_to_a f,
                    fl_bytes_a_to_b f, fl_bytes_b_to_a f)
         | BToA \<Rightarrow> (key_b (fl_key f), key_a (fl_key f), fl_packets_b_to_a f, fl_packets_a_to_b f,
                    fl_bytes_b_to_a f, fl_bytes_a_to_b f)) in
      \<lparr>fs_flow_id = fl_id f, fs_started_at = ns_to_datetime (fl_started_ns f),
       fs_ended_at = ns_to_datetime (fl_last_seen_ns f), fs_src_ip = ep_ip src, fs_dst_ip = ep_ip dst,
       fs_src_port = ep_port src, fs_dst_port = ep_port dst, fs_protocol = key_protocol (fl_key f),
       fs_service = None, fs_packets_c2s = packets_c2s, fs_packets_s2c = packets_s2c,
       fs_bytes_c2s = bytes_c2s, fs_bytes_s2c = bytes_s2c, fs_truncated = fl_truncated f\<rparr>)"

subsection \<open>Timers and the shard\<close>

record timer_item =
  ti_deadline :: nat
  ti_serial :: u64
  ti_key :: flow_key
  ti_flow_id :: uuid

text \<open>The reversed order of \<open>TimerItem\<close>: the heap returns the least deadline, then the least serial.\<close>

definition timer_rank :: "timer_item \<Rightarrow> nat \<times> nat" where
  "timer_rank t = (ti_deadline t, unat (ti_serial t))"

definition push_timer :: "timer_item \<Rightarrow> timer_item list \<Rightarrow> timer_item list" where
  "push_timer t ts = insort_key timer_rank t ts"

record shard =
  sh_flows :: "(flow_key \<times> flow_state) list"
  sh_tombstones :: tcp_tombstones
  sh_timers :: "timer_item list"
  sh_source_counts :: "(source_prefix \<times> nat) list"
  sh_serial :: u64
  sh_metrics :: flow_metrics
  sh_output :: l7_ingress

definition new_shard :: "flow_metrics \<Rightarrow> nat \<Rightarrow> shard" where
  "new_shard m workers =
     \<lparr>sh_flows = [], sh_tombstones = new_tombstones, sh_timers = [], sh_source_counts = [], sh_serial = 0,
      sh_metrics = m, sh_output = \<lparr>l7_workers = workers, l7_sends = 0, l7_sent = []\<rparr>\<rparr>"

definition bump_metrics :: "(flow_metrics \<Rightarrow> flow_metrics) \<Rightarrow> shard \<Rightarrow> shard" where
  "bump_metrics f s = s\<lparr>sh_metrics := f (sh_metrics s)\<rparr>"

text \<open>\<open>L7Ingress::send\<close>: the worker is chosen by the flow id; \<open>False\<close> when it is gone.\<close>

definition l7_send :: "liveness \<Rightarrow> flow_output \<Rightarrow> shard \<Rightarrow> shard \<times> bool" where
  "l7_send alive event s =
     (let l = sh_output s;
          idx = l7_index (l7_workers l) (output_flow_id event);
          ok = alive idx (l7_sends l);
          l = l\<lparr>l7_sends := l7_sends l + 1\<rparr> in
      if ok then
        let (depth, high) = queue_enqueued (fm_l7_queue_depth (sh_metrics s)) (fm_l7_queue_high_watermark (sh_metrics s)) in
        (bump_metrics (\<lambda>m. m\<lparr>fm_l7_queue_depth := depth, fm_l7_queue_high_watermark := high\<rparr>)
           (s\<lparr>sh_output := l\<lparr>l7_sent := l7_sent l @ [(idx, event)]\<rparr>\<rparr>), True)
      else (s\<lparr>sh_output := l\<rparr>, False))"

subsection \<open>Emitting content\<close>

definition chunk_message :: "flow_state \<Rightarrow> flow_key \<Rightarrow> direction \<Rightarrow> reassembled_chunk \<Rightarrow> flow_output" where
  "chunk_message f key d c =
     Chunk \<lparr>sc_flow_id = fl_id f, sc_ts_ns = chunk_ts_ns c, sc_direction = d, sc_key = key,
            sc_offset = chunk_offset c, sc_data = chunk_data c, sc_truncated = fl_truncated f\<rparr>"

fun emit_chunks :: "liveness \<Rightarrow> flow_key \<Rightarrow> direction \<Rightarrow> reassembled_chunk list \<Rightarrow> flow_state \<Rightarrow> shard \<Rightarrow> flow_state \<times> shard" where
  "emit_chunks alive key d [] f s = (f, s)"
| "emit_chunks alive key d (c # cs) f s =
     (let (s, ok) = l7_send alive (chunk_message f key d c) s in
      if ok then emit_chunks alive key d cs f s else (f\<lparr>fl_truncated := True\<rparr>, s))"

definition emit_tcp_outcome ::
  "liveness \<Rightarrow> flow_key \<Rightarrow> direction \<Rightarrow> reassembly_outcome \<Rightarrow> flow_state \<Rightarrow> shard \<Rightarrow> flow_state \<times> shard \<times> bool" where
  "emit_tcp_outcome alive key d outcome f s =
     (let s = (if out_gaps outcome \<noteq> [] then
                 bump_metrics (\<lambda>m. m\<lparr>fm_tcp_gap_events := fm_tcp_gap_events m + of_nat (length (out_gaps outcome)),
                     fm_tcp_gap_bytes := fm_tcp_gap_bytes m + of_nat (\<Sum>g\<leftarrow>out_gaps outcome. gap_len g)\<rparr>) s
               else s);
          (f, s) = emit_chunks alive key d (out_emitted outcome) f s in
      (f, s, out_emitted outcome \<noteq> []))"

definition finalize_tcp_halves :: "liveness \<Rightarrow> flow_key \<Rightarrow> flow_state \<Rightarrow> shard \<Rightarrow> (flow_state \<times> shard) option" where
  "finalize_tcp_halves alive key f s =
     (if key_protocol key \<noteq> Tcp then Some (f, s)
      else do {
        (ha, a) \<leftarrow> finalize (fl_a_to_b f);
        let f = f\<lparr>fl_a_to_b := ha\<rparr>;
        (hb, b) \<leftarrow> finalize (fl_b_to_a f);
        let f = f\<lparr>fl_b_to_a := hb\<rparr>;
        let (f, s, emitted_a) = emit_tcp_outcome alive key AToB a f s;
        let (f, s, emitted_b) = emit_tcp_outcome alive key BToA b f s;
        Some (if emitted_a \<or> emitted_b then f\<lparr>fl_visible := True\<rparr> else f, s)
      })"

subsection \<open>Closing\<close>

definition release_active :: "flow_metrics \<Rightarrow> flow_metrics" where
  "release_active m = m\<lparr>fm_active_flows := (if fm_active_flows m = 0 then u64_max else fm_active_flows m - 1)\<rparr>"

definition release_prefix :: "source_prefix \<Rightarrow> (source_prefix \<times> nat) list \<Rightarrow> (source_prefix \<times> nat) list" where
  "release_prefix p counts =
     (case map_of counts p of None \<Rightarrow> counts
      | Some n \<Rightarrow> if n - 1 = 0 then AList.delete p counts else AList.update p (n - 1) counts)"

text \<open>What both \<open>close_flow\<close> and the final drain do with a flow that was taken out of the table.\<close>

definition retire_flow :: "liveness \<Rightarrow> flow_key \<Rightarrow> flow_state \<Rightarrow> shard \<Rightarrow> shard option" where
  "retire_flow alive key f s =
     do {
       (f, s) \<leftarrow> finalize_tcp_halves alive key f s;
       let s = (if fl_visible f then
                  bump_metrics (\<lambda>m. m\<lparr>fm_flows_completed := fm_flows_completed m + 1\<rparr>)
                    (fst (l7_send alive (Closed (summary f)) s))
                else s);
       let s = bump_metrics release_active s;
       Some (s\<lparr>sh_source_counts := release_prefix (fl_source_prefix f) (sh_source_counts s)\<rparr>)
     }"

definition close_flow :: "liveness \<Rightarrow> flow_key \<Rightarrow> shard \<Rightarrow> shard option" where
  "close_flow alive key s =
     (case map_of (sh_flows s) key of None \<Rightarrow> Some s
      | Some f \<Rightarrow> retire_flow alive key f (s\<lparr>sh_flows := AList.delete key (sh_flows s)\<rparr>))"

definition try_admit_flow :: "flow_config \<Rightarrow> flow_metrics \<Rightarrow> flow_metrics option" where
  "try_admit_flow cfg m =
     (if fm_active_flows m < max_active_flows cfg then Some (m\<lparr>fm_active_flows := fm_active_flows m + 1\<rparr>) else None)"

subsection \<open>One packet\<close>

definition initiating_syn :: "parsed_packet \<Rightarrow> bool" where
  "initiating_syn p \<longleftrightarrow> key_protocol (pkt_key p) = Tcp \<and> flag_syn (pkt_flags p) \<and> \<not> flag_ack (pkt_flags p)"

text \<open>The tombstone check: the shard and whether the packet is suppressed.\<close>

definition check_tombstone :: "flow_env \<Rightarrow> parsed_packet \<Rightarrow> shard \<Rightarrow> shard \<times> bool" where
  "check_tombstone env p s =
     (let key = pkt_key p; fl = pkt_flags p in
      if key_protocol key = Tcp then
        if flag_syn fl \<and> \<not> flag_ack fl then (s\<lparr>sh_tombstones := tomb_remove key (sh_tombstones s)\<rparr>, False)
        else if map_of (sh_flows s) key = None \<and> \<not> flag_syn fl then
          let (t, live) = contains_live key (fe_probe env) (sh_tombstones s) in
          (s\<lparr>sh_tombstones := t\<rparr>, live \<and> (flag_fin fl \<or> flag_rst fl \<or> pkt_payload p = []))
        else (s, False)
      else (s, False))"

text \<open>A fresh SYN on a live flow closes the old generation.\<close>

definition new_generation :: "liveness \<Rightarrow> parsed_packet \<Rightarrow> shard \<Rightarrow> shard option" where
  "new_generation alive p s =
     (if initiating_syn p \<and>
         (case map_of (sh_flows s) (pkt_key p) of None \<Rightarrow> False | Some f \<Rightarrow> \<not> is_syn_retransmit f p)
      then close_flow alive (pkt_key p) s else Some s)"

text \<open>The entry of a packet's flow: an existing one, an admitted one (\<open>True\<close>), or none.\<close>

definition admit_flow :: "flow_config \<Rightarrow> service_registry \<Rightarrow> flow_env \<Rightarrow> parsed_packet \<Rightarrow> shard \<Rightarrow>
    shard \<times> (flow_state \<times> bool) option" where
  "admit_flow cfg services env p s =
     (case map_of (sh_flows s) (pkt_key p) of
        Some f \<Rightarrow> (s, Some (f, False))
      | None \<Rightarrow>
          if \<not> accepts_destination services p then
            (bump_metrics (\<lambda>m. m\<lparr>fm_packets_filtered := fm_packets_filtered m + 1\<rparr>) s, None)
          else case try_admit_flow cfg (sh_metrics s) of
            None \<Rightarrow> (bump_metrics (\<lambda>m. m\<lparr>fm_flow_state_rejections := fm_flow_state_rejections m + 1\<rparr>) s, None)
          | Some m \<Rightarrow>
              let s = s\<lparr>sh_metrics := m\<rparr>;
                  source = prefix_from_packet p;
                  count = (case map_of (sh_source_counts s) source of None \<Rightarrow> 0 | Some n \<Rightarrow> n) in
              if count \<ge> max_flows_per_source_prefix cfg then
                (bump_metrics (\<lambda>m. (release_active m)\<lparr>fm_flow_prefix_rejections := fm_flow_prefix_rejections m + 1\<rparr>)
                   (s\<lparr>sh_source_counts := AList.update source count (sh_source_counts s)\<rparr>), None)
              else
                let f = new_flow_state env p in
                (s\<lparr>sh_source_counts := AList.update source (count + 1) (sh_source_counts s),
                   sh_flows := AList.update (pkt_key p) f (sh_flows s)\<rparr>, Some (f, True)))"

definition tcp_ack :: "flow_config \<Rightarrow> liveness \<Rightarrow> parsed_packet \<Rightarrow> bool \<Rightarrow> flow_state \<Rightarrow> shard \<Rightarrow>
    (flow_state \<times> shard \<times> bool) option" where
  "tcp_ack cfg alive p rst_accepted f s =
     (if flag_ack (pkt_flags p) \<and> (\<not> flag_rst (pkt_flags p) \<or> rst_accepted) then
        case pkt_ack p of None \<Rightarrow> Some (f, s, False)
        | Some ack \<Rightarrow> do {
            let d = opposite (pkt_direction p);
            (h, outcome) \<leftarrow> acknowledge (half_of d f) ack (pkt_ts_ns p) (tcp_gap_timeout cfg);
            Some (emit_tcp_outcome alive (pkt_key p) d outcome (set_half d h f) s)
          }
      else Some (f, s, False))"

definition tcp_data :: "flow_config \<Rightarrow> liveness \<Rightarrow> parsed_packet \<Rightarrow> flow_state \<Rightarrow> shard \<Rightarrow>
    (flow_state \<times> shard \<times> bool) option" where
  "tcp_data cfg alive p f s =
     (let d = pkt_direction p; fl = pkt_flags p in
      if \<not> flag_rst fl \<and>
         (pkt_payload p \<noteq> [] \<or> flag_syn fl \<or> flag_fin fl \<or> \<not> is_initialized (half_of d f))
      then do {
        let seq = (case pkt_seq p of None \<Rightarrow> 0 | Some q \<Rightarrow> q);
        (h, outcome) \<leftarrow> accept (half_of d f) seq (flag_syn fl) (flag_fin fl) (pkt_ts_ns p) (pkt_payload p)
                           (max_ooo_bytes cfg) (max_ooo_segments cfg) (tcp_gap_timeout cfg);
        let s = (if out_retransmit outcome
                 then bump_metrics (\<lambda>m. m\<lparr>fm_tcp_retransmits := fm_tcp_retransmits m + 1\<rparr>) s else s);
        let s = (if out_out_of_order outcome
                 then bump_metrics (\<lambda>m. m\<lparr>fm_tcp_out_of_order := fm_tcp_out_of_order m + 1\<rparr>) s else s);
        Some (emit_tcp_outcome alive (pkt_key p) d outcome (set_half d h f) s)
      }
      else Some (f, s, False))"

text \<open>The state, the shard, whether content was emitted and whether a reset was accepted.\<close>

definition process_tcp :: "flow_config \<Rightarrow> liveness \<Rightarrow> parsed_packet \<Rightarrow> flow_state \<Rightarrow> shard \<Rightarrow>
    (flow_state \<times> shard \<times> bool \<times> bool) option" where
  "process_tcp cfg alive p f s =
     do {
       let rst = flag_rst (pkt_flags p);
       let rst_accepted = (rst \<and>
         rst_matches_next (half_of (pkt_direction p) f) (case pkt_seq p of None \<Rightarrow> 0 | Some q \<Rightarrow> q));
       let s = (if rst \<and> \<not> rst_accepted
                then bump_metrics (\<lambda>m. m\<lparr>fm_tcp_rejected_resets := fm_tcp_rejected_resets m + 1\<rparr>) s else s);
       (f, s, emitted1) \<leftarrow> tcp_ack cfg alive p rst_accepted f s;
       (f, s, emitted2) \<leftarrow> tcp_data cfg alive p f s;
       Some (f, s, emitted1 \<or> emitted2, rst_accepted)
     }"

definition process_udp :: "liveness \<Rightarrow> parsed_packet \<Rightarrow> flow_state \<Rightarrow> shard \<Rightarrow> flow_state \<times> shard \<times> bool" where
  "process_udp alive p f s =
     (if pkt_payload p = [] then (f, s, False)
      else
        let d = pkt_direction p;
            (h, offset) = reserve_udp_offset (half_of d f) (length (pkt_payload p));
            f = set_half d h f;
            msg = Chunk \<lparr>sc_flow_id = fl_id f, sc_ts_ns = pkt_ts_ns p, sc_direction = d, sc_key = pkt_key p,
                         sc_offset = offset, sc_data = pkt_payload p, sc_truncated = fl_truncated f\<rparr>;
            (s, ok) = l7_send alive msg s in
        (if ok then f else f\<lparr>fl_truncated := True\<rparr>, s, True))"

definition publish_snapshot :: "flow_config \<Rightarrow> flow_env \<Rightarrow> liveness \<Rightarrow> bool \<Rightarrow> flow_state \<Rightarrow> shard \<Rightarrow> flow_state \<times> shard" where
  "publish_snapshot cfg env alive emitted f s =
     (if emitted \<and> (\<not> fl_visible f \<or> fe_snapshot env - fl_last_snapshot f \<ge> live_flow_update_interval cfg) then
        let f = f\<lparr>fl_visible := True, fl_last_snapshot := fe_snapshot env\<rparr>;
            (s, ok) = l7_send alive (Snapshot (summary f)) s in
        (if ok then f else f\<lparr>fl_truncated := True\<rparr>, s)
      else (f, s))"

definition idle_timeout :: "flow_config \<Rightarrow> transport_protocol \<Rightarrow> nat" where
  "idle_timeout cfg proto = (case proto of Tcp \<Rightarrow> tcp_idle_timeout cfg | Udp \<Rightarrow> udp_idle_timeout cfg)"

definition schedule :: "nat \<Rightarrow> flow_key \<Rightarrow> uuid \<Rightarrow> shard \<Rightarrow> shard" where
  "schedule deadline key flow_id s =
     s\<lparr>sh_serial := sh_serial s + 1,
       sh_timers := push_timer \<lparr>ti_deadline = deadline, ti_serial = sh_serial s + 1, ti_key = key,
                                ti_flow_id = flow_id\<rparr> (sh_timers s)\<rparr>"

text \<open>A packet of an entered flow, from the counters to the close.\<close>

definition process_packet :: "flow_config \<Rightarrow> flow_env \<Rightarrow> liveness \<Rightarrow> parsed_packet \<Rightarrow> flow_state \<Rightarrow> bool \<Rightarrow> shard \<Rightarrow> shard option" where
  "process_packet cfg env alive p f is_new s =
     do {
       let key = pkt_key p;
       let s = bump_metrics (\<lambda>m. m\<lparr>fm_packets_received := fm_packets_received m + 1,
                                  fm_packet_bytes := fm_packet_bytes m + of_nat (pkt_wire_len p)\<rparr>) s;
       let f = count_packet env p f;
       (f, s, emitted, rst_accepted) \<leftarrow>
         (case key_protocol key of
            Tcp \<Rightarrow> process_tcp cfg alive p f s
          | Udp \<Rightarrow> (let (f, s, emitted) = process_udp alive p f s in Some (f, s, emitted, False)));
       let (f, s) = publish_snapshot cfg env alive emitted f s;
       let s = s\<lparr>sh_flows := AList.update key f (sh_flows s)\<rparr>;
       let close = should_close f rst_accepted;
       let s = (if is_new \<and> \<not> close
                then schedule (fe_timer env + idle_timeout cfg (key_protocol key)) key (fl_id f) s else s);
       if close then
         let s = (if key_protocol key = Tcp
                  then s\<lparr>sh_tombstones := tomb_insert key (fe_closed env) (sh_tombstones s)\<rparr> else s) in
         close_flow alive key s
       else Some s
     }"

text \<open>The \<open>Ok(packet)\<close> branch of the loop; \<open>False\<close> when the iteration ends there.\<close>

definition handle_packet :: "flow_config \<Rightarrow> service_registry \<Rightarrow> flow_env \<Rightarrow> liveness \<Rightarrow> parsed_packet \<Rightarrow> shard \<Rightarrow>
    (shard \<times> bool) option" where
  "handle_packet cfg services env alive p s =
     do {
       let s = bump_metrics (\<lambda>m. m\<lparr>fm_flow_queue_depth := queue_dequeued (fm_flow_queue_depth m)\<rparr>) s;
       let (s, suppressed) = check_tombstone env p s;
       if suppressed then Some (s, False)
       else do {
         s \<leftarrow> new_generation alive p s;
         case admit_flow cfg services env p s of
           (s, None) \<Rightarrow> Some (s, False)
         | (s, Some (f, is_new)) \<Rightarrow> do {
             s \<leftarrow> process_packet cfg env alive p f is_new s;
             Some (s, True)
           }
       }
     }"

subsection \<open>Timers\<close>

text \<open>Closing a flow does not touch the timers; this is why the expiry loop ends.\<close>

lemma bump_metrics_frame [simp]:
  "sh_flows (bump_metrics g s) = sh_flows s" "sh_timers (bump_metrics g s) = sh_timers s"
  "sh_tombstones (bump_metrics g s) = sh_tombstones s" "sh_source_counts (bump_metrics g s) = sh_source_counts s"
  "sh_serial (bump_metrics g s) = sh_serial s" "sh_output (bump_metrics g s) = sh_output s"
  "sh_metrics (bump_metrics g s) = g (sh_metrics s)"
  by (simp_all add: bump_metrics_def)

text \<open>\<open>same_core s s'\<close>: only the counters other than the number of active flows and the channel differ.\<close>

definition same_core :: "shard \<Rightarrow> shard \<Rightarrow> bool" where
  "same_core s s' \<longleftrightarrow> sh_flows s' = sh_flows s \<and> sh_timers s' = sh_timers s \<and> sh_tombstones s' = sh_tombstones s \<and>
     sh_source_counts s' = sh_source_counts s \<and> sh_serial s' = sh_serial s \<and>
     fm_active_flows (sh_metrics s') = fm_active_flows (sh_metrics s) \<and>
     l7_workers (sh_output s') = l7_workers (sh_output s)"

lemma same_core_refl [simp, intro]: "same_core s s"
  by (simp add: same_core_def)

lemma same_core_trans: "same_core a b \<Longrightarrow> same_core b c \<Longrightarrow> same_core a c"
  by (simp add: same_core_def)

lemma same_core_send [simp]: "same_core s (fst (l7_send alive e s))"
  by (simp add: l7_send_def same_core_def Let_def case_prod_unfold)

lemma same_core_chunks [simp]: "same_core s (snd (emit_chunks alive key d cs f s))"
proof (induction cs arbitrary: s)
  case (Cons c cs)
  show ?case using same_core_trans [OF same_core_send Cons.IH]
    by (simp add: Let_def case_prod_unfold)
qed simp

lemma same_core_bump: "fm_active_flows (g (sh_metrics s)) = fm_active_flows (sh_metrics s) \<Longrightarrow> same_core s (bump_metrics g s)"
  by (simp add: same_core_def)

lemma same_core_emit [simp]: "same_core s (fst (snd (emit_tcp_outcome alive key d out f s)))"
  by (auto simp: emit_tcp_outcome_def Let_def case_prod_unfold
      intro: same_core_trans [OF same_core_bump same_core_chunks])

lemma same_core_finalize: "finalize_tcp_halves alive key f s = Some (f', s') \<Longrightarrow> same_core s s'"
  by (auto simp: finalize_tcp_halves_def bind_Some_iff Let_def case_prod_unfold split: if_splits
      intro: same_core_trans [OF same_core_emit same_core_emit])

lemma retire_shard:
  assumes "retire_flow alive key f s = Some s'"
  obtains f1 s1 where "finalize_tcp_halves alive key f s = Some (f1, s1)" "sh_timers s' = sh_timers s"
    "sh_flows s' = sh_flows s" "sh_tombstones s' = sh_tombstones s" "sh_serial s' = sh_serial s"
    "fm_active_flows (sh_metrics s') = fm_active_flows (release_active (sh_metrics s))"
    "sh_source_counts s' = release_prefix (fl_source_prefix f1) (sh_source_counts s)"
    "l7_workers (sh_output s') = l7_workers (sh_output s)"
proof -
  obtain f1 s1 where f: "finalize_tcp_halves alive key f s = Some (f1, s1)"
    using assms by (auto simp: retire_flow_def bind_Some_iff)
  note c = same_core_finalize [OF f] same_core_send [of s1 alive "Closed (summary f1)"]
  have r: "fm_active_flows (release_active m) = fm_active_flows (release_active m')"
    if "fm_active_flows m = fm_active_flows m'" for m m' using that by (simp add: release_active_def)
  show ?thesis
    by (rule that [OF f]) (use assms f c in \<open>auto simp: retire_flow_def Let_def same_core_def intro!: r split: if_splits\<close>)
qed

lemma close_timers: "close_flow alive key s = Some s' \<Longrightarrow> sh_timers s' = sh_timers s"
  by (auto simp: close_flow_def elim: retire_shard split: option.splits)

definition due :: "nat \<Rightarrow> shard \<Rightarrow> nat" where
  "due now s = length (filter (\<lambda>t. ti_deadline t \<le> now) (sh_timers s))"

lemma due_push: "now < ti_deadline t \<Longrightarrow>
  length (filter (\<lambda>t. ti_deadline t \<le> now) (push_timer t ts)) = length (filter (\<lambda>t. ti_deadline t \<le> now) ts)"
  unfolding push_timer_def by (induction ts) auto

function expire_timers :: "flow_config \<Rightarrow> liveness \<Rightarrow> nat \<Rightarrow> shard \<Rightarrow> shard option" where
  "expire_timers cfg alive now s =
     (case sh_timers s of
        [] \<Rightarrow> Some s
      | item # rest \<Rightarrow>
          if ti_deadline item > now then Some s
          else
            let s1 = s\<lparr>sh_timers := rest\<rparr> in
            case map_of (sh_flows s1) (ti_key item) of
              None \<Rightarrow> expire_timers cfg alive now s1
            | Some f \<Rightarrow>
                if fl_id f \<noteq> ti_flow_id item then expire_timers cfg alive now s1
                else
                  let next_deadline = fl_last_activity f + idle_timeout cfg (key_protocol (fl_key f)) in
                  if next_deadline \<le> now
                  then Option.bind (close_flow alive (ti_key item) s1) (expire_timers cfg alive now)
                  else expire_timers cfg alive now (schedule next_deadline (ti_key item) (fl_id f) s1))"
  by pat_completeness auto
termination
  by (relation "measure (\<lambda>(_, _, now, s). due now s)")
    (auto simp: due_def schedule_def due_push dest: close_timers)

declare expire_timers.simps [simp del]

text \<open>The heap rebuilt from the live flows, one timer each, in the order of the table.\<close>

fun rebuild_timers :: "flow_config \<Rightarrow> (flow_key \<times> flow_state) list \<Rightarrow> u64 \<Rightarrow> timer_item list \<Rightarrow> u64 \<times> timer_item list" where
  "rebuild_timers cfg [] serial ts = (serial, ts)"
| "rebuild_timers cfg ((key, f) # fs) serial ts =
     rebuild_timers cfg fs (serial + 1)
       (push_timer \<lparr>ti_deadline = fl_last_activity f + idle_timeout cfg (key_protocol (fl_key f)),
                    ti_serial = serial + 1, ti_key = key, ti_flow_id = fl_id f\<rparr> ts)"

definition compact_timers :: "flow_config \<Rightarrow> shard \<Rightarrow> shard" where
  "compact_timers cfg s =
     (let n = length (sh_timers s) in
      if n > 4096 \<and> n > sat_add64 (min (2 * length (sh_flows s)) u64_max) 1024 then
        let (serial, ts) = rebuild_timers cfg (sh_flows s) (sh_serial s) [] in
        s\<lparr>sh_serial := serial, sh_timers := ts\<rparr>
      else s)"

subsection \<open>The loop\<close>

definition maintain :: "flow_config \<Rightarrow> flow_env \<Rightarrow> liveness \<Rightarrow> shard \<Rightarrow> shard option" where
  "maintain cfg env alive s = map_option (compact_timers cfg) (expire_timers cfg alive (fe_expiry env) s)"

text \<open>One iteration on a packet (\<open>Some p\<close>) or on a receive timeout (\<open>None\<close>).\<close>

definition shard_step :: "flow_config \<Rightarrow> service_registry \<Rightarrow> flow_env \<Rightarrow> liveness \<Rightarrow> parsed_packet option \<Rightarrow> shard \<Rightarrow> shard option" where
  "shard_step cfg services env alive input s =
     (case input of
        None \<Rightarrow> maintain cfg env alive s
      | Some p \<Rightarrow> do {
          (s, go_on) \<leftarrow> handle_packet cfg services env alive p s;
          if go_on then maintain cfg env alive s else Some s
        })"

text \<open>The input is closed: every flow is retired, in the order of the table.\<close>

fun shard_drain :: "liveness \<Rightarrow> (flow_key \<times> flow_state) list \<Rightarrow> shard \<Rightarrow> shard option" where
  "shard_drain alive [] s = Some s"
| "shard_drain alive ((key, f) # fs) s = Option.bind (retire_flow alive key f s) (shard_drain alive fs)"

definition shard_shutdown :: "liveness \<Rightarrow> shard \<Rightarrow> shard option" where
  "shard_shutdown alive s = shard_drain alive (sh_flows s) (s\<lparr>sh_flows := []\<rparr>)"

subsection \<open>Routing\<close>

text \<open>The shard of a packet: the keyed hash of its flow key.\<close>

definition flow_shard :: "u64 \<Rightarrow> nat \<Rightarrow> parsed_packet \<Rightarrow> nat" where
  "flow_shard seed shards p = unat (shard_hash64 (pkt_key p) seed) mod shards"

end
