(* ===== verification/Flow_Invariant.thy ===== *)
theory Flow_Invariant
  imports Flow_Engine Tcp_Properties
begin

text \<open>
  The invariant of a flow shard and its preservation, operation by operation: keys are distinct and match
  their flows, both TCP halves satisfy the reassembler's invariant, the per-prefix counts are exact and
  within their limit, the global counter covers the flows of the shard, and the timers are in order.
\<close>

subsection \<open>Invariant\<close>

text \<open>How far the sequence positions of a flow can have moved: every packet moves them by less than
  \<open>2^31\<close> and its payload.\<close>

definition flow_bound :: "flow_state \<Rightarrow> nat" where
  "flow_bound f = 8589934592 + 2147483648 * (fl_packets_a_to_b f + fl_packets_b_to_a f)
     + fl_bytes_a_to_b f + fl_bytes_b_to_a f"

definition halves_ok :: "nat \<Rightarrow> flow_state \<Rightarrow> bool" where
  "halves_ok B f \<longleftrightarrow> half_inv B (fl_a_to_b f) \<and> half_inv B (fl_b_to_a f)"

definition flow_ok :: "flow_key \<Rightarrow> flow_state \<Rightarrow> bool" where
  "flow_ok key f \<longleftrightarrow> fl_key f = key \<and> (key_protocol key = Tcp \<longrightarrow> halves_ok (flow_bound f) f)"

definition prefix_count :: "source_prefix \<Rightarrow> (flow_key \<times> flow_state) list \<Rightarrow> nat" where
  "prefix_count p fs = length (filter (\<lambda>e. fl_source_prefix (snd e) = p) fs)"

definition counts_ok :: "(source_prefix \<times> nat) list \<Rightarrow> (flow_key \<times> flow_state) list \<Rightarrow> bool" where
  "counts_ok counts fs \<longleftrightarrow> (\<forall>p. (case map_of counts p of None \<Rightarrow> 0 | Some n \<Rightarrow> n) = prefix_count p fs)"

definition table_ok :: "flow_config \<Rightarrow> shard \<Rightarrow> bool" where
  "table_ok cfg s \<longleftrightarrow> distinct (map fst (sh_flows s)) \<and> (\<forall>(k, f) \<in> set (sh_flows s). flow_ok k f) \<and>
     counts_ok (sh_source_counts s) (sh_flows s) \<and>
     (\<forall>p. prefix_count p (sh_flows s) \<le> max_flows_per_source_prefix cfg) \<and>
     length (sh_flows s) \<le> fm_active_flows (sh_metrics s) \<and>
     fm_active_flows (sh_metrics s) \<le> max_active_flows cfg"

definition shard_inv :: "flow_config \<Rightarrow> shard \<Rightarrow> bool" where
  "shard_inv cfg s \<longleftrightarrow> table_ok cfg s \<and> sorted (map timer_rank (sh_timers s))"

text \<open>The counter of active flows moves with the table of this shard.\<close>

definition conserved :: "shard \<Rightarrow> shard \<Rightarrow> bool" where
  "conserved s s' \<longleftrightarrow>
     fm_active_flows (sh_metrics s') + length (sh_flows s) = fm_active_flows (sh_metrics s) + length (sh_flows s')"

lemma conserved_refl [simp]: "conserved s s"
  by (simp add: conserved_def)

lemma conserved_trans: "conserved a b \<Longrightarrow> conserved b c \<Longrightarrow> conserved a c"
  by (simp add: conserved_def)

lemma same_core_ok: "same_core s s' \<Longrightarrow> table_ok cfg s' = table_ok cfg s \<and> conserved s s'"
  by (simp add: same_core_def table_ok_def conserved_def)

subsection \<open>Counting by prefix\<close>

lemma prefix_count_simps [simp]:
  "prefix_count p [] = 0"
  "prefix_count p (e # fs) = (if fl_source_prefix (snd e) = p then 1 else 0) + prefix_count p fs"
  by (simp_all add: prefix_count_def)

lemma prefix_count_delete:
  assumes "distinct (map fst fs)" "map_of fs k = Some f"
  shows "prefix_count p fs = prefix_count p (AList.delete k fs) + (if fl_source_prefix f = p then 1 else 0)"
  using assms
proof (induction fs)
  case (Cons e fs)
  have "AList.delete k fs = fs" if "k \<notin> fst ` set fs"
    using that unfolding AList.delete_eq by (induction fs) auto
  then show ?case using Cons by (cases e) (auto split: if_splits)
qed simp

lemma prefix_count_update:
  assumes "distinct (map fst fs)" "map_of fs k = Some f" "fl_source_prefix f' = fl_source_prefix f"
  shows "prefix_count p (AList.update k f' fs) = prefix_count p fs"
  using assms
proof (induction fs)
  case (Cons e fs)
  then show ?case by (cases e) (auto split: if_splits)
qed simp

lemma prefix_count_new:
  "map_of fs k = None \<Longrightarrow>
   prefix_count p (AList.update k f fs) = prefix_count p fs + (if fl_source_prefix f = p then 1 else 0)"
proof (induction fs)
  case (Cons e fs)
  then show ?case by (cases e) (auto split: if_splits)
qed simp

lemma length_delete_known:
  assumes "distinct (map fst fs)" "map_of fs k = Some f"
  shows "length fs = Suc (length (AList.delete k fs))"
  using assms
proof (induction fs)
  case (Cons e fs)
  have "AList.delete k fs = fs" if "k \<notin> fst ` set fs"
    using that unfolding AList.delete_eq by (induction fs) auto
  then show ?case using Cons by (cases e) (auto split: if_splits)
qed simp

lemma length_update_known: "map_of fs k \<noteq> None \<Longrightarrow> length (AList.update k f fs) = length fs"
  by (induction fs) auto

lemma length_update_new: "map_of fs k = None \<Longrightarrow> length (AList.update k f fs) = Suc (length fs)"
  by (induction fs) auto

lemma set_alist_update: "set (AList.update k f fs) \<subseteq> insert (k, f) (set fs)"
  by (induction fs) auto

lemma counts_release:
  assumes "counts_ok counts fs" "distinct (map fst fs)" "map_of fs k = Some f"
  shows "counts_ok (release_prefix (fl_source_prefix f) counts) (AList.delete k fs)"
  unfolding counts_ok_def
proof
  fix p
  have c: "(case map_of counts q of None \<Rightarrow> 0 | Some n \<Rightarrow> n) = prefix_count q fs" for q
    using assms(1) by (simp add: counts_ok_def)
  show "(case map_of (release_prefix (fl_source_prefix f) counts) p of None \<Rightarrow> 0 | Some n \<Rightarrow> n)
    = prefix_count p (AList.delete k fs)"
    using c [of p] c [of "fl_source_prefix f"] prefix_count_delete [OF assms(2,3), of p]
      prefix_count_delete [OF assms(2,3), of "fl_source_prefix f"]
    by (auto simp: release_prefix_def delete_conv' update_conv' split: option.splits if_splits)
qed

subsection \<open>What a packet does to a flow state\<close>

definition same_flow :: "flow_state \<Rightarrow> flow_state \<Rightarrow> bool" where
  "same_flow f f' \<longleftrightarrow> fl_id f' = fl_id f \<and> fl_key f' = fl_key f \<and> fl_initiator f' = fl_initiator f \<and>
     fl_source_prefix f' = fl_source_prefix f \<and> fl_last_activity f' = fl_last_activity f \<and>
     fl_packets_a_to_b f' = fl_packets_a_to_b f \<and> fl_packets_b_to_a f' = fl_packets_b_to_a f \<and>
     fl_bytes_a_to_b f' = fl_bytes_a_to_b f \<and> fl_bytes_b_to_a f' = fl_bytes_b_to_a f"

lemma same_flow_refl [simp]: "same_flow f f"
  by (simp add: same_flow_def)

lemma same_flow_trans: "same_flow a b \<Longrightarrow> same_flow b c \<Longrightarrow> same_flow a c"
  by (simp add: same_flow_def)

lemma same_flow_bound: "same_flow f f' \<Longrightarrow> flow_bound f' = flow_bound f"
  by (simp add: same_flow_def flow_bound_def)

lemma emit_chunks_flow: "\<exists>t. fst (emit_chunks alive key d cs f s) = f\<lparr>fl_truncated := t\<rparr>"
proof (induction cs arbitrary: s)
  case Nil
  show ?case by (rule exI [of _ "fl_truncated f"]) simp
next
  case (Cons c cs)
  then show ?case by (auto simp: Let_def case_prod_unfold)
qed

lemma emit_flow: "\<exists>t. fst (emit_tcp_outcome alive key d out f s) = f\<lparr>fl_truncated := t\<rparr>"
  using emit_chunks_flow [of alive key d "out_emitted out" f] by (simp add: emit_tcp_outcome_def Let_def case_prod_unfold)

lemma same_flow_half [simp]: "same_flow f (set_half d h f)"
  by (simp add: same_flow_def set_half_def split: direction.split)

lemma half_of_set_half [simp]: "half_of d (set_half d' h f) = (if d = d' then h else half_of d f)"
  by (cases d; cases d') (simp_all add: half_of_def set_half_def)

lemma half_of_truncated [simp]: "half_of d (f\<lparr>fl_truncated := t\<rparr>) = half_of d f"
  by (simp add: half_of_def split: direction.split)

lemma halves_ok_iff: "halves_ok B f \<longleftrightarrow> (\<forall>d. half_inv B (half_of d f))"
  unfolding halves_ok_def half_of_def by (metis direction.exhaust direction.simps(3,4))

text \<open>One step on a flow: it returns, leaves the core of the shard alone and keeps both halves in order.\<close>

definition flow_step_ok :: "nat \<Rightarrow> flow_state \<Rightarrow> shard \<Rightarrow> (flow_state \<times> shard \<times> 'x) option \<Rightarrow> bool" where
  "flow_step_ok B f s res \<longleftrightarrow> returns res (\<lambda>(f', s', _). same_flow f f' \<and> same_core s s' \<and> halves_ok B f')"

lemma emit_step:
  assumes "\<And>d'. half_inv B (half_of d' (set_half d h f))" "same_core s s1"
  shows "flow_step_ok B f s (Some (emit_tcp_outcome alive key d out (set_half d h f) s1))"
proof -
  obtain f' s' b where e: "emit_tcp_outcome alive key d out (set_half d h f) s1 = (f', s', b)" by (metis prod_cases3)
  obtain t where t: "f' = (set_half d h f)\<lparr>fl_truncated := t\<rparr>" using emit_flow [of alive key d out "set_half d h f" s1] e by auto
  have "same_core s s'" using same_core_trans [OF assms(2) same_core_emit, of alive key d out "set_half d h f"] e by simp
  moreover have "same_flow f f'" using same_flow_half [of f d h] by (simp add: t same_flow_def)
  ultimately show ?thesis using assms(1) by (simp add: flow_step_ok_def e halves_ok_iff t)
qed

lemma tcp_ack_ok:
  assumes "halves_ok B f"
  shows "flow_step_ok B f s (tcp_ack cfg alive p rst f s)"
proof (cases "flag_ack (pkt_flags p) \<and> (\<not> flag_rst (pkt_flags p) \<or> rst) \<and> pkt_ack p \<noteq> None")
  case True
  then obtain ack where a: "pkt_ack p = Some ack" by blast
  let ?d = "opposite (pkt_direction p)"
  obtain h out where h: "acknowledge (half_of ?d f) ack (pkt_ts_ns p) (tcp_gap_timeout cfg) = Some (h, out)" "half_inv B h"
    using acknowledge_total [of B "half_of ?d f"] assms unfolding halves_ok_iff by blast
  have "flow_step_ok B f s (Some (emit_tcp_outcome alive (pkt_key p) ?d out (set_half ?d h f) s))"
    using assms h(2) by (intro emit_step) (auto simp: halves_ok_iff)
  then show ?thesis using True a h(1) by (simp add: tcp_ack_def Let_def)
next
  case False
  then show ?thesis using assms by (auto simp: tcp_ack_def flow_step_ok_def split: option.split)
qed

lemma tcp_data_ok:
  assumes "halves_ok B f" "8589934592 \<le> B" "B + 2147483648 + length (pkt_payload p) \<le> B'" "B' \<le> u64_max"
  shows "flow_step_ok B' f s (tcp_data cfg alive p f s)"
proof (cases "\<not> flag_rst (pkt_flags p) \<and>
    (pkt_payload p \<noteq> [] \<or> flag_syn (pkt_flags p) \<or> flag_fin (pkt_flags p) \<or> \<not> is_initialized (half_of (pkt_direction p) f))")
  case True
  let ?d = "pkt_direction p"
  have h0: "half_inv B (half_of ?d f)" using assms(1) by (simp add: halves_ok_iff)
  obtain h out where h: "accept (half_of ?d f) (case pkt_seq p of None \<Rightarrow> 0 | Some q \<Rightarrow> q) (flag_syn (pkt_flags p))
      (flag_fin (pkt_flags p)) (pkt_ts_ns p) (pkt_payload p) (max_ooo_bytes cfg) (max_ooo_segments cfg)
      (tcp_gap_timeout cfg) = Some (h, out)" "half_inv B' h"
    using accept_total [OF h0 assms(2-4)] by blast
  have ok: "half_inv B' (half_of d' (set_half ?d h f))" for d'
    using h(2) half_inv_mono [of B "half_of d' f" B'] assms by (auto simp: halves_ok_iff)
  show ?thesis
    using True h(1) by (auto simp: tcp_data_def Let_def intro!: emit_step [OF ok] same_core_trans [OF same_core_bump same_core_bump] same_core_bump)
next
  case False
  have "halves_ok B' f" using assms half_inv_mono [of B _ B'] by (auto simp: halves_ok_iff)
  then show ?thesis using False by (auto simp: tcp_data_def Let_def flow_step_ok_def)
qed

lemma process_tcp_ok:
  assumes "halves_ok B f" "8589934592 \<le> B" "B + 2147483648 + length (pkt_payload p) \<le> B'" "B' \<le> u64_max"
  shows "flow_step_ok B' f s (process_tcp cfg alive p f s)"
proof -
  let ?rst = "flag_rst (pkt_flags p) \<and> rst_matches_next (half_of (pkt_direction p) f) (case pkt_seq p of None \<Rightarrow> 0 | Some q \<Rightarrow> q)"
  let ?s = "if flag_rst (pkt_flags p) \<and> \<not> ?rst
    then bump_metrics (\<lambda>m. m\<lparr>fm_tcp_rejected_resets := fm_tcp_rejected_resets m + 1\<rparr>) s else s"
  have s0: "same_core s ?s" by (simp add: same_core_bump)
  obtain f1 s1 e1 where a: "tcp_ack cfg alive p ?rst f ?s = Some (f1, s1, e1)" "same_flow f f1" "same_core ?s s1" "halves_ok B f1"
    using tcp_ack_ok [OF assms(1), of ?s cfg alive p ?rst] by (auto simp: flow_step_ok_def returns_def)
  obtain f2 s2 e2 where b: "tcp_data cfg alive p f1 s1 = Some (f2, s2, e2)" "same_flow f1 f2" "same_core s1 s2" "halves_ok B' f2"
    using tcp_data_ok [OF a(4) assms(2-4), of s1 cfg alive] by (auto simp: flow_step_ok_def returns_def)
  have "process_tcp cfg alive p f s = Some (f2, s2, e1 \<or> e2, ?rst)"
    using a(1) b(1) by (simp add: process_tcp_def Let_def)
  then show ?thesis
    using same_flow_trans [OF a(2) b(2)] same_core_trans [OF s0 same_core_trans [OF a(3) b(3)]] b(4)
    by (simp add: flow_step_ok_def)
qed

subsection \<open>Closing a flow\<close>

lemma finalize_total:
  assumes "half_inv B h"
  shows "\<exists>h' out. finalize h = Some (h', out)"
proof (cases "next_abs h")
  case None
  then show ?thesis by (auto simp: finalize_def finalize_loop.simps [of h] consume_fin_if_ready_def split: option.split)
next
  case (Some n)
  then have "live B h" using assms by (simp add: live_def)
  then show ?thesis using finalize_moves [of B h] by (auto simp: moves_def returns_def)
qed

lemma finalize_halves_ok:
  assumes "flow_ok key f"
  shows "\<exists>f' s'. finalize_tcp_halves alive key f s = Some (f', s') \<and> same_flow f f' \<and> same_core s s'"
proof (cases "key_protocol key = Tcp")
  case True
  then obtain ha a hb b where h: "finalize (fl_a_to_b f) = Some (ha, a)" "finalize (fl_b_to_a f) = Some (hb, b)"
    using assms finalize_total unfolding flow_ok_def halves_ok_def by metis
  let ?f = "f\<lparr>fl_a_to_b := ha, fl_b_to_a := hb\<rparr>"
  obtain f1 s1 e1 where e1: "emit_tcp_outcome alive key AToB a ?f s = (f1, s1, e1)" by (metis prod_cases3)
  obtain f2 s2 e2 where e2: "emit_tcp_outcome alive key BToA b f1 s1 = (f2, s2, e2)" by (metis prod_cases3)
  obtain t1 t2 where "f1 = ?f\<lparr>fl_truncated := t1\<rparr>" "f2 = f1\<lparr>fl_truncated := t2\<rparr>"
    using emit_flow [of alive key AToB a ?f s] emit_flow [of alive key BToA b f1 s1] e1 e2 by auto
  then have "same_flow f (if e1 \<or> e2 then f2\<lparr>fl_visible := True\<rparr> else f2)" by (simp add: same_flow_def)
  moreover have r: "finalize_tcp_halves alive key f s = Some (if e1 \<or> e2 then f2\<lparr>fl_visible := True\<rparr> else f2, s2)"
    using True h e1 e2 by (simp add: finalize_tcp_halves_def Let_def)
  moreover have "same_core s s2" by (rule same_core_finalize [OF r])
  ultimately show ?thesis by blast
qed (simp add: finalize_tcp_halves_def)

lemma retire_ok:
  assumes "flow_ok key f" "0 < fm_active_flows (sh_metrics s)"
  shows "\<exists>s'. retire_flow alive key f s = Some s' \<and> sh_flows s' = sh_flows s \<and> sh_timers s' = sh_timers s \<and>
    sh_tombstones s' = sh_tombstones s \<and> fm_active_flows (sh_metrics s') = fm_active_flows (sh_metrics s) - 1 \<and>
    sh_source_counts s' = release_prefix (fl_source_prefix f) (sh_source_counts s)"
proof -
  obtain f1 s1 where f: "finalize_tcp_halves alive key f s = Some (f1, s1)" "same_flow f f1"
    using finalize_halves_ok [OF assms(1)] by blast
  then obtain s' where r: "retire_flow alive key f s = Some s'" by (simp add: retire_flow_def Let_def)
  obtain f2 s2 where "finalize_tcp_halves alive key f s = Some (f2, s2)" "sh_timers s' = sh_timers s"
    "sh_flows s' = sh_flows s" "sh_tombstones s' = sh_tombstones s"
    "fm_active_flows (sh_metrics s') = fm_active_flows (release_active (sh_metrics s))"
    "sh_source_counts s' = release_prefix (fl_source_prefix f2) (sh_source_counts s)"
    by (rule retire_shard [OF r])
  then show ?thesis using r f assms(2) by (auto simp: release_active_def same_flow_def)
qed

lemma close_ok:
  assumes "table_ok cfg s"
  shows "\<exists>s'. close_flow alive key s = Some s' \<and> table_ok cfg s' \<and> conserved s s' \<and>
    sh_flows s' = AList.delete key (sh_flows s) \<and> sh_timers s' = sh_timers s \<and> sh_tombstones s' = sh_tombstones s"
proof (cases "map_of (sh_flows s) key")
  case None
  then have "AList.delete key (sh_flows s) = sh_flows s"
    by (force simp: AList.delete_eq filter_id_conv map_of_eq_None_iff)
  then show ?thesis using assms None by (simp add: close_flow_def)
next
  case (Some f)
  have ok: "distinct (map fst (sh_flows s))" "flow_ok key f" "counts_ok (sh_source_counts s) (sh_flows s)"
    and act: "length (sh_flows s) \<le> fm_active_flows (sh_metrics s)"
    using assms map_of_SomeD [OF Some] by (auto simp: table_ok_def)
  note len = length_delete_known [OF ok(1) Some]
  let ?s = "s\<lparr>sh_flows := AList.delete key (sh_flows s)\<rparr>"
  obtain s' where r: "retire_flow alive key f ?s = Some s'" "sh_flows s' = AList.delete key (sh_flows s)"
    "sh_timers s' = sh_timers s" "sh_tombstones s' = sh_tombstones s"
    "fm_active_flows (sh_metrics s') = fm_active_flows (sh_metrics s) - 1"
    "sh_source_counts s' = release_prefix (fl_source_prefix f) (sh_source_counts s)"
    using retire_ok [OF ok(2), of ?s alive] len act by auto
  have le: "prefix_count p (AList.delete key (sh_flows s)) \<le> max_flows_per_source_prefix cfg" for p
  proof -
    have "prefix_count p (sh_flows s) \<le> max_flows_per_source_prefix cfg" using assms by (simp add: table_ok_def)
    then show ?thesis using prefix_count_delete [OF ok(1) Some, of p] by simp
  qed
  have "table_ok cfg s'"
    using assms counts_release [OF ok(3,1) Some] len act le distinct_fst_delete [OF ok(1)]
    by (auto simp: table_ok_def r set_delete_iff)
  moreover have "conserved s s'" using len act by (simp add: conserved_def r)
  ultimately show ?thesis using r Some by (simp add: close_flow_def)
qed

lemma shard_inv_close:
  assumes "shard_inv cfg s" "close_flow alive key s = Some s'"
  shows "shard_inv cfg s'" "conserved s s'"
  using close_ok [of cfg s alive key] assms by (auto simp: shard_inv_def)

subsection \<open>Admission\<close>

lemma table_ok_frame:
  "sh_flows s' = sh_flows s \<Longrightarrow> sh_source_counts s' = sh_source_counts s \<Longrightarrow>
   fm_active_flows (sh_metrics s') = fm_active_flows (sh_metrics s) \<Longrightarrow>
   table_ok cfg s' = table_ok cfg s \<and> conserved s s'"
  by (simp add: table_ok_def conserved_def)

lemma new_flow_ok: "flow_ok (pkt_key p) (new_flow_state env p)"
  by (simp add: flow_ok_def new_flow_state_def halves_ok_def flow_bound_def)

lemma counts_new:
  assumes "counts_ok counts fs" "map_of fs k = None"
  shows "counts_ok (AList.update (fl_source_prefix f)
     ((case map_of counts (fl_source_prefix f) of None \<Rightarrow> 0 | Some n \<Rightarrow> n) + 1) counts) (AList.update k f fs)"
  using assms by (auto simp: counts_ok_def update_conv' prefix_count_new)

lemma counts_touch:
  assumes "counts_ok counts fs"
  shows "counts_ok (AList.update p (case map_of counts p of None \<Rightarrow> 0 | Some n \<Rightarrow> n) counts) fs"
  using assms by (auto simp: counts_ok_def update_conv')

lemma admit_ok:
  assumes "shard_inv cfg s" "admit_flow cfg services env p s = (s', r)"
  shows "shard_inv cfg s'" "conserved s s'" "sh_timers s' = sh_timers s" "sh_tombstones s' = sh_tombstones s"
    "r = None \<Longrightarrow> sh_flows s' = sh_flows s"
    "r = Some (f, b) \<Longrightarrow> map_of (sh_flows s') (pkt_key p) = Some f"
    "r = Some (f, False) \<Longrightarrow> s' = s"
    "r = Some (f, True) \<Longrightarrow> map_of (sh_flows s) (pkt_key p) = None \<and> accepts_destination services p \<and>
       f = new_flow_state env p \<and> sh_flows s' = AList.update (pkt_key p) f (sh_flows s)"
proof -
  have "shard_inv cfg s' \<and> conserved s s' \<and> sh_timers s' = sh_timers s \<and> sh_tombstones s' = sh_tombstones s \<and>
    (r = None \<longrightarrow> sh_flows s' = sh_flows s) \<and> (r = Some (f, b) \<longrightarrow> map_of (sh_flows s') (pkt_key p) = Some f) \<and>
    (r = Some (f, False) \<longrightarrow> s' = s) \<and>
    (r = Some (f, True) \<longrightarrow> map_of (sh_flows s) (pkt_key p) = None \<and> accepts_destination services p \<and>
       f = new_flow_state env p \<and> sh_flows s' = AList.update (pkt_key p) f (sh_flows s))"
  proof (cases "map_of (sh_flows s) (pkt_key p) \<noteq> None \<or> \<not> accepts_destination services p \<or>
      \<not> fm_active_flows (sh_metrics s) < max_active_flows cfg")
    case True
    then consider (known) g where "map_of (sh_flows s) (pkt_key p) = Some g" "s' = s" "r = Some (g, False)"
      | (rejected) "same_core s s'" "r = None"
      using assms(2) by (auto simp: admit_flow_def try_admit_flow_def same_core_bump split: option.splits if_splits)
    then show ?thesis
    proof cases
      case known
      then show ?thesis using assms(1) by auto
    next
      case rejected
      then show ?thesis using assms(1) same_core_ok [of s s' cfg] by (auto simp: shard_inv_def same_core_def)
    qed
  next
    case False
    let ?src = "prefix_from_packet p"
    let ?n = "case map_of (sh_source_counts s) ?src of None \<Rightarrow> 0 | Some n \<Rightarrow> n"
    have c: "counts_ok (sh_source_counts s) (sh_flows s)" and t: "table_ok cfg s"
      using assms(1) by (auto simp: shard_inv_def table_ok_def)
    show ?thesis
    proof (cases "max_flows_per_source_prefix cfg \<le> ?n")
      case full: True
      have s': "s' = bump_metrics (\<lambda>m. (release_active m)\<lparr>fm_flow_prefix_rejections := fm_flow_prefix_rejections m + 1\<rparr>)
          (s\<lparr>sh_metrics := (sh_metrics s)\<lparr>fm_active_flows := fm_active_flows (sh_metrics s) + 1\<rparr>,
             sh_source_counts := AList.update ?src ?n (sh_source_counts s)\<rparr>)" and r: "r = None"
        using assms(2) False full by (auto simp: admit_flow_def try_admit_flow_def Let_def)
      then show ?thesis
        using assms(1) counts_touch [OF c, of ?src]
        by (simp add: shard_inv_def table_ok_def conserved_def release_active_def)
    next
      case room: False
      let ?f = "new_flow_state env p"
      have src: "fl_source_prefix ?f = ?src" by (simp add: new_flow_state_def)
      have s': "s' = s\<lparr>sh_metrics := (sh_metrics s)\<lparr>fm_active_flows := fm_active_flows (sh_metrics s) + 1\<rparr>,
          sh_source_counts := AList.update ?src (?n + 1) (sh_source_counts s),
          sh_flows := AList.update (pkt_key p) ?f (sh_flows s)\<rparr>" and r: "r = Some (?f, True)"
        using assms(2) False room by (auto simp: admit_flow_def try_admit_flow_def Let_def)
      have new: "map_of (sh_flows s) (pkt_key p) = None" using False by simp
      have n: "?n = prefix_count ?src (sh_flows s)" using c by (simp add: counts_ok_def)
      have "prefix_count q (AList.update (pkt_key p) ?f (sh_flows s)) \<le> max_flows_per_source_prefix cfg" for q
        using t room n prefix_count_new [OF new, of q ?f] src by (auto simp: table_ok_def not_le)
      moreover have "\<forall>(k, f) \<in> set (AList.update (pkt_key p) ?f (sh_flows s)). flow_ok k f"
        using set_alist_update [of "pkt_key p" ?f "sh_flows s"] new_flow_ok [of p env] t by (auto simp: table_ok_def)
      ultimately have "table_ok cfg s'"
        using t counts_new [OF c new, of ?f] length_update_new [OF new] False
        by (simp add: table_ok_def s' src distinct_update)
      then show ?thesis
        using assms(1) length_update_new [OF new] new False
        by (simp add: shard_inv_def r conserved_def s' update_conv')
    qed
  qed
  then show "shard_inv cfg s'" "conserved s s'" "sh_timers s' = sh_timers s" "sh_tombstones s' = sh_tombstones s"
    "r = None \<Longrightarrow> sh_flows s' = sh_flows s"
    "r = Some (f, b) \<Longrightarrow> map_of (sh_flows s') (pkt_key p) = Some f"
    "r = Some (f, False) \<Longrightarrow> s' = s"
    "r = Some (f, True) \<Longrightarrow> map_of (sh_flows s) (pkt_key p) = None \<and> accepts_destination services p \<and>
       f = new_flow_state env p \<and> sh_flows s' = AList.update (pkt_key p) f (sh_flows s)"
    by blast+
qed

end
