(* ===== verification/Flow_Loop.thy ===== *)
theory Flow_Loop
  imports Flow_Invariant
begin

text \<open>
  The loop of a flow shard: an iteration returns and keeps the invariant, flows are admitted only for
  traffic to a configured service, idle flows are closed by the timers and active ones are not, and the
  shutdown drains the table.
\<close>

subsection \<open>A packet of an entered flow\<close>

lemma udp_ok: "\<exists>f' s' e. process_udp alive p f s = (f', s', e) \<and> same_flow f f' \<and> same_core s s'"
proof -
  obtain f' s' e where r: "process_udp alive p f s = (f', s', e)" by (metis prod_cases3)
  have "same_core s s'" using r same_core_send
    by (auto simp: process_udp_def Let_def case_prod_unfold reserve_udp_offset_def split: if_splits)
  moreover have "same_flow f f'" using r same_flow_half
    by (auto simp: process_udp_def Let_def case_prod_unfold reserve_udp_offset_def same_flow_def split: if_splits direction.splits)
  ultimately show ?thesis using r by blast
qed

lemma snapshot_ok:
  "\<exists>f' s'. publish_snapshot cfg env alive e f s = (f', s') \<and> same_flow f f' \<and> same_core s s' \<and>
     (\<forall>d. half_of d f' = half_of d f)"
proof -
  obtain f' s' where r: "publish_snapshot cfg env alive e f s = (f', s')" by force
  have "same_core s s'" using r same_core_send
    by (auto simp: publish_snapshot_def Let_def case_prod_unfold split: if_splits)
  moreover have "same_flow f f' \<and> (\<forall>d. half_of d f' = half_of d f)" using r
    by (auto simp: publish_snapshot_def Let_def case_prod_unfold same_flow_def half_of_def split: if_splits direction.splits)
  ultimately show ?thesis using r by blast
qed

definition packet_fits :: "flow_state \<Rightarrow> parsed_packet \<Rightarrow> bool" where
  "packet_fits f p \<longleftrightarrow> flow_bound f + 2147483648 + length (pkt_payload p) \<le> u64_max"

text \<open>A packet on a flow, up to the point where the table is updated.\<close>

definition run_protocol :: "flow_config \<Rightarrow> liveness \<Rightarrow> parsed_packet \<Rightarrow> flow_state \<Rightarrow> shard \<Rightarrow> (flow_state \<times> shard \<times> bool \<times> bool) option" where
  "run_protocol cfg alive p f s =
     (case key_protocol (pkt_key p) of
        Tcp \<Rightarrow> process_tcp cfg alive p f s
      | Udp \<Rightarrow> (let (f, s, emitted) = process_udp alive p f s in Some (f, s, emitted, False)))"

lemma flow_bound_count:
  "flow_bound (count_packet env p f) = flow_bound f + 2147483648 + length (pkt_payload p)"
  by (simp add: flow_bound_def count_packet_def split: direction.split)

lemma count_packet_frame [simp]:
  "fl_id (count_packet env p f) = fl_id f" "fl_key (count_packet env p f) = fl_key f"
  "fl_source_prefix (count_packet env p f) = fl_source_prefix f"
  "fl_last_activity (count_packet env p f) = fe_activity env"
  "half_of d (count_packet env p f) = half_of d f"
  by (simp_all add: count_packet_def half_of_def split: direction.split)

lemma run_protocol_ok:
  assumes "flow_ok (pkt_key p) f" "packet_fits f p"
  shows "\<exists>f' s' e r. run_protocol cfg alive p (count_packet env p f) s = Some (f', s', e, r) \<and>
    same_flow (count_packet env p f) f' \<and> same_core s s' \<and> flow_ok (pkt_key p) f'"
proof (cases "key_protocol (pkt_key p)")
  case Tcp
  let ?f = "count_packet env p f"
  have "halves_ok (flow_bound f) ?f" using assms(1) Tcp by (simp add: flow_ok_def halves_ok_iff)
  then have "flow_step_ok (flow_bound ?f) ?f s (process_tcp cfg alive p ?f s)"
    by (rule process_tcp_ok) (use assms(2) in \<open>simp_all add: flow_bound_count packet_fits_def, simp add: flow_bound_def\<close>)
  then obtain f' s' e r where *: "process_tcp cfg alive p ?f s = Some (f', s', e, r)" "same_flow ?f f'" "same_core s s'"
    "halves_ok (flow_bound ?f) f'"
    by (auto simp: flow_step_ok_def returns_def)
  have "flow_ok (pkt_key p) f'" using * assms(1) same_flow_bound [OF *(2)] by (simp add: flow_ok_def same_flow_def)
  then show ?thesis using * Tcp by (auto simp: run_protocol_def)
next
  case Udp
  obtain f' s' e where "process_udp alive p (count_packet env p f) s = (f', s', e)"
    "same_flow (count_packet env p f) f'" "same_core s s'"
    using udp_ok by blast
  then show ?thesis using Udp assms(1) by (auto simp: run_protocol_def flow_ok_def same_flow_def)
qed

lemma table_ok_update:
  assumes "table_ok cfg s" "map_of (sh_flows s) k = Some f" "flow_ok k f'" "fl_source_prefix f' = fl_source_prefix f"
  shows "table_ok cfg (s\<lparr>sh_flows := AList.update k f' (sh_flows s)\<rparr>)"
    "conserved s (s\<lparr>sh_flows := AList.update k f' (sh_flows s)\<rparr>)"
proof -
  let ?s = "s\<lparr>sh_flows := AList.update k f' (sh_flows s)\<rparr>"
  have d: "distinct (map fst (sh_flows s))" using assms(1) by (simp add: table_ok_def)
  have len: "length (AList.update k f' (sh_flows s)) = length (sh_flows s)"
    using assms(2) by (intro length_update_known) simp
  have "\<forall>(k, f) \<in> set (AList.update k f' (sh_flows s)). flow_ok k f"
    using set_alist_update [of k f' "sh_flows s"] assms(1,3) by (auto simp: table_ok_def)
  then show "table_ok cfg ?s"
    using assms(1) len prefix_count_update [OF d assms(2,4)]
    by (simp add: table_ok_def counts_ok_def distinct_update)
  show "conserved s ?s" by (simp add: conserved_def len)
qed

text \<open>What a packet leaves behind: its flow is closed, or it is still there, active now, with a timer if it
  is new.\<close>

definition packet_effect :: "flow_config \<Rightarrow> flow_env \<Rightarrow> parsed_packet \<Rightarrow> flow_state \<Rightarrow> bool \<Rightarrow> shard \<Rightarrow> shard \<Rightarrow> bool" where
  "packet_effect cfg env p f is_new s s' \<longleftrightarrow>
     (sh_flows s' = AList.delete (pkt_key p) (sh_flows s) \<and> sh_timers s' = sh_timers s) \<or>
     (\<exists>f'. sh_flows s' = AList.update (pkt_key p) f' (sh_flows s) \<and> fl_id f' = fl_id f \<and>
        fl_last_activity f' = fe_activity env \<and> fl_key f' = fl_key f \<and>
        (if is_new then \<exists>serial. sh_timers s' = push_timer \<lparr>ti_deadline = fe_timer env + idle_timeout cfg (key_protocol (pkt_key p)),
             ti_serial = serial, ti_key = pkt_key p, ti_flow_id = fl_id f\<rparr> (sh_timers s)
         else sh_timers s' = sh_timers s))"

lemma sorted_push: "sorted (map timer_rank ts) \<Longrightarrow> sorted (map timer_rank (push_timer t ts))"
  by (simp add: push_timer_def sorted_insort_key)

lemma process_packet_ok:
  assumes inv: "shard_inv cfg s" and f: "map_of (sh_flows s) (pkt_key p) = Some f" and fits: "packet_fits f p"
  shows "\<exists>s'. process_packet cfg env alive p f is_new s = Some s' \<and> shard_inv cfg s' \<and> conserved s s' \<and>
    packet_effect cfg env p f is_new s s'"
proof -
  let ?k = "pkt_key p"
  let ?b = "bump_metrics (\<lambda>m. m\<lparr>fm_packets_received := fm_packets_received m + 1,
      fm_packet_bytes := fm_packet_bytes m + of_nat (pkt_wire_len p)\<rparr>) s"
  have ok: "flow_ok ?k f" and t: "table_ok cfg s"
    using inv map_of_SomeD [OF f] by (auto simp: shard_inv_def table_ok_def)
  obtain f1 s1 e r where r: "run_protocol cfg alive p (count_packet env p f) ?b = Some (f1, s1, e, r)"
    "same_flow (count_packet env p f) f1" "same_core ?b s1" "flow_ok ?k f1"
    using run_protocol_ok [OF ok fits] by blast
  obtain f2 s2 where p: "publish_snapshot cfg env alive e f1 s1 = (f2, s2)" "same_flow f1 f2" "same_core s1 s2"
    "\<forall>d. half_of d f2 = half_of d f1"
    using snapshot_ok by blast
  have "flow_ok ?k f2"
    using r(4) p(2,4) same_flow_bound [OF p(2)] by (simp add: flow_ok_def halves_ok_iff same_flow_def)
  note f2 = this same_flow_trans [OF r(2) p(2)]
  have c: "same_core s s2"
    by (rule same_core_trans [OF same_core_bump same_core_trans [OF r(3) p(3)]]) simp
  then have t2: "table_ok cfg s2" "conserved s s2" "sh_flows s2 = sh_flows s" "sh_timers s2 = sh_timers s"
    using t same_core_ok [OF c] by (auto simp: same_core_def)
  let ?s = "s2\<lparr>sh_flows := AList.update ?k f2 (sh_flows s2)\<rparr>"
  let ?close = "should_close f2 r"
  let ?sched = "schedule (fe_timer env + idle_timeout cfg (key_protocol ?k)) ?k (fl_id f2) ?s"
  have f': "map_of (sh_flows s2) ?k = Some f" using f t2 by simp
  have pre: "fl_source_prefix f2 = fl_source_prefix f" using f2(2) by (simp add: same_flow_def)
  have ts: "table_ok cfg ?s" "conserved s ?s"
    using table_ok_update [OF t2(1) f' f2(1) pre] t2(2) by (auto intro: conserved_trans)
  have eq: "process_packet cfg env alive p f is_new s =
    (if ?close then close_flow alive ?k (if key_protocol ?k = Tcp
       then ?s\<lparr>sh_tombstones := tomb_insert ?k (fe_closed env) (sh_tombstones ?s)\<rparr> else ?s)
     else Some (if is_new then ?sched else ?s))"
    using r(1) p(1) by (cases "key_protocol ?k") (auto simp: process_packet_def run_protocol_def Let_def)
  show ?thesis
  proof (cases ?close)
    case True
    let ?t = "if key_protocol ?k = Tcp
       then ?s\<lparr>sh_tombstones := tomb_insert ?k (fe_closed env) (sh_tombstones ?s)\<rparr> else ?s"
    have t: "table_ok cfg ?t" "conserved ?s ?t"
      using ts(1) by (simp_all add: table_ok_def conserved_def)
    obtain s' where s': "close_flow alive ?k ?t = Some s'" "table_ok cfg s'" "conserved ?t s'"
      "sh_flows s' = AList.delete ?k (sh_flows ?t)" "sh_timers s' = sh_timers ?t"
      using close_ok [OF t(1), of alive ?k] by blast
    have "conserved s s'" by (rule conserved_trans [OF conserved_trans [OF ts(2) t(2)] s'(3)])
    moreover have "sh_flows s' = AList.delete ?k (sh_flows s)" "sh_timers s' = sh_timers s"
      using s'(4,5) t2 by (simp_all add: delete_update_same)
    ultimately show ?thesis
      using s'(1,2) eq True inv by (simp add: shard_inv_def packet_effect_def)
  next
    case False
    let ?s' = "if is_new then ?sched else ?s"
    have "table_ok cfg ?s' \<and> conserved s ?s'"
      using ts by (simp add: table_ok_def conserved_def schedule_def)
    moreover have "sorted (map timer_rank (sh_timers ?s'))"
      using inv t2(4) by (simp add: shard_inv_def schedule_def sorted_push)
    moreover have "packet_effect cfg env p f is_new s ?s'"
      unfolding packet_effect_def
      by (rule disjI2, rule exI [of _ f2]) (use f2(2) t2 in \<open>auto simp: same_flow_def schedule_def\<close>)
    ultimately show ?thesis using eq False by (simp add: shard_inv_def)
  qed
qed

subsection \<open>The packet branch\<close>

definition packet_ready :: "shard \<Rightarrow> parsed_packet \<Rightarrow> bool" where
  "packet_ready s p \<longleftrightarrow> length (pkt_payload p) \<le> 65535 \<and>
     (\<forall>f. map_of (sh_flows s) (pkt_key p) = Some f \<longrightarrow> packet_fits f p)"

lemma tombstone_frame:
  "check_tombstone env p s = (s', b) \<Longrightarrow> s' = s\<lparr>sh_tombstones := sh_tombstones s'\<rparr>"
  by (auto simp: check_tombstone_def Let_def case_prod_unfold split: if_splits)

lemma tombstone_ok:
  assumes "check_tombstone env p s = (s', b)"
  shows "shard_inv cfg s' = shard_inv cfg s" "conserved s s'" "sh_flows s' = sh_flows s" "sh_timers s' = sh_timers s"
  by (subst tombstone_frame [OF assms], simp add: shard_inv_def table_ok_def conserved_def)+

lemma new_generation_ok:
  assumes "shard_inv cfg s"
  shows "\<exists>s'. new_generation alive p s = Some s' \<and> shard_inv cfg s' \<and> conserved s s' \<and> sh_timers s' = sh_timers s \<and>
    (sh_flows s' = sh_flows s \<or> sh_flows s' = AList.delete (pkt_key p) (sh_flows s))"
  using close_ok [of cfg s alive "pkt_key p"] assms by (auto simp: new_generation_def shard_inv_def)

text \<open>How the packet branch of an iteration ends: with the flow table possibly one flow shorter, and then
  without or with a flow for the packet.\<close>

definition handled :: "flow_config \<Rightarrow> service_registry \<Rightarrow> flow_env \<Rightarrow> parsed_packet \<Rightarrow> shard \<Rightarrow> shard \<Rightarrow> bool \<Rightarrow> bool" where
  "handled cfg services env p s s' entered \<longleftrightarrow>
     (\<exists>s1 :: shard. (sh_flows s1 = sh_flows s \<or> sh_flows s1 = AList.delete (pkt_key p) (sh_flows s)) \<and> sh_timers s1 = sh_timers s \<and>
        (if entered then \<exists>f is_new. \<exists>s2 :: shard. packet_effect cfg env p f is_new s2 s' \<and> sh_timers s2 = sh_timers s1 \<and>
             (if is_new then sh_flows s2 = AList.update (pkt_key p) f (sh_flows s1) \<and>
                map_of (sh_flows s1) (pkt_key p) = None \<and> fl_key f = pkt_key p \<and> accepts_destination services p
              else sh_flows s2 = sh_flows s1 \<and> map_of (sh_flows s1) (pkt_key p) = Some f)
         else sh_flows s' = sh_flows s1 \<and> sh_timers s' = sh_timers s1))"

lemma handle_packet_ok:
  assumes "shard_inv cfg s" "packet_ready s p"
  shows "\<exists>s' go. handle_packet cfg services env alive p s = Some (s', go) \<and> shard_inv cfg s' \<and> conserved s s' \<and>
    handled cfg services env p s s' go"
proof -
  let ?s0 = "bump_metrics (\<lambda>m. m\<lparr>fm_flow_queue_depth := queue_dequeued (fm_flow_queue_depth m)\<rparr>) s"
  have i0: "shard_inv cfg ?s0" "conserved s ?s0"
    using assms(1) by (simp_all add: shard_inv_def table_ok_def conserved_def)
  obtain s1 sup where c: "check_tombstone env p ?s0 = (s1, sup)" by force
  note t = tombstone_ok [OF c]
  have i1: "shard_inv cfg s1" "conserved s s1" "sh_flows s1 = sh_flows s" "sh_timers s1 = sh_timers s"
    using t i0 by (auto intro: conserved_trans)
  show ?thesis
  proof (cases sup)
    case True
    have "handled cfg services env p s s1 False"
      unfolding handled_def by (rule exI [of _ s1]) (simp add: i1)
    then show ?thesis using c i1 True by (auto simp: handle_packet_def Let_def)
  next
    case False
    obtain s2 where g: "new_generation alive p s1 = Some s2" "shard_inv cfg s2" "conserved s1 s2" "sh_timers s2 = sh_timers s1"
      "sh_flows s2 = sh_flows s1 \<or> sh_flows s2 = AList.delete (pkt_key p) (sh_flows s1)"
      using new_generation_ok [OF i1(1)] by blast
    have shape: "sh_flows s2 = sh_flows s \<or> sh_flows s2 = AList.delete (pkt_key p) (sh_flows s)" "sh_timers s2 = sh_timers s"
      using g i1 by auto
    have c2: "conserved s s2" by (rule conserved_trans [OF i1(2) g(3)])
    obtain s3 r where a: "admit_flow cfg services env p s2 = (s3, r)" by force
    note ad = admit_ok [OF g(2) a]
    have c3: "conserved s s3" by (rule conserved_trans [OF c2 ad(2)])
    show ?thesis
    proof (cases r)
      case None
      have "handled cfg services env p s s3 False"
        unfolding handled_def by (rule exI [of _ s2]) (use shape ad(3,5) None in simp)
      then show ?thesis using c False g(1) a None ad(1) c3 by (auto simp: handle_packet_def Let_def)
    next
      case (Some fb)
      obtain f b where fb: "r = Some (f, b)" using Some by (cases fb) auto
      have "packet_fits f p"
      proof (cases b)
        case True
        then have "f = new_flow_state env p" using ad(8) fb by blast
        then show ?thesis using assms(2) by (simp add: packet_ready_def packet_fits_def flow_bound_def new_flow_state_def)
      next
        case False
        then have "map_of (sh_flows s2) (pkt_key p) = Some f" using ad(6,7) fb by metis
        then have "map_of (sh_flows s) (pkt_key p) = Some f" using shape(1) by (auto simp: delete_conv')
        then show ?thesis using assms(2) by (simp add: packet_ready_def)
      qed
      then obtain s4 where p4: "process_packet cfg env alive p f b s3 = Some s4" "shard_inv cfg s4" "conserved s3 s4"
        "packet_effect cfg env p f b s3 s4"
        using process_packet_ok [OF ad(1) ad(6) [OF fb]] by blast
      have "packet_effect cfg env p f b s3 s4 \<and> sh_timers s3 = sh_timers s2 \<and>
          (if b then sh_flows s3 = AList.update (pkt_key p) f (sh_flows s2) \<and>
             map_of (sh_flows s2) (pkt_key p) = None \<and> fl_key f = pkt_key p \<and> accepts_destination services p
           else sh_flows s3 = sh_flows s2 \<and> map_of (sh_flows s2) (pkt_key p) = Some f)"
        using ad(3,6,7,8) fb p4(4) by (cases b) (auto simp: new_flow_state_def)
      then have "handled cfg services env p s s4 True"
        unfolding handled_def if_True using shape by blast
      then show ?thesis
        using c False g(1) a fb p4 conserved_trans [OF c3 p4(3)] by (auto simp: handle_packet_def Let_def)
    qed
  qed
qed

subsection \<open>Timers\<close>

definition flow_deadline :: "flow_config \<Rightarrow> flow_state \<Rightarrow> nat" where
  "flow_deadline cfg f = fl_last_activity f + idle_timeout cfg (key_protocol (fl_key f))"

definition has_timer :: "flow_config \<Rightarrow> nat \<Rightarrow> timer_item set \<Rightarrow> flow_key \<times> flow_state \<Rightarrow> bool" where
  "has_timer cfg slack ts = (\<lambda>(k, f). \<exists>t \<in> ts. ti_key t = k \<and> ti_flow_id t = fl_id f \<and>
     ti_deadline t \<le> flow_deadline cfg f + slack)"

text \<open>Every flow has a timer that fires no later than its idle deadline, up to the time between two clock
  readings of one iteration (\<open>slack\<close>).\<close>

definition timers_cover :: "flow_config \<Rightarrow> nat \<Rightarrow> shard \<Rightarrow> bool" where
  "timers_cover cfg slack s \<longleftrightarrow> (\<forall>e \<in> set (sh_flows s). has_timer cfg slack (set (sh_timers s)) e)"

definition clock_ok :: "nat \<Rightarrow> shard \<Rightarrow> bool" where
  "clock_ok c s \<longleftrightarrow> (\<forall>(k, f) \<in> set (sh_flows s). fl_last_activity f \<le> c)"

lemma set_push [simp]: "set (push_timer t ts) = insert t (set ts)"
  by (simp add: push_timer_def set_insort_key)

lemma set_update_distinct:
  "distinct (map fst m) \<Longrightarrow> set (AList.update k v m) = insert (k, v) {e \<in> set m. fst e \<noteq> k}"
proof (induction m)
  case (Cons e m)
  then show ?case by (cases e) (force split: if_splits)
qed simp

lemma length_push [simp]: "length (push_timer t ts) = Suc (length ts)"
  by (simp add: push_timer_def)

lemma has_timer_mono: "has_timer cfg d ts e \<Longrightarrow> ts \<subseteq> ts' \<Longrightarrow> has_timer cfg d ts' e"
  by (cases e) (auto simp: has_timer_def)

lemma cover_sub:
  "timers_cover cfg d s \<Longrightarrow> set (sh_flows s') \<subseteq> set (sh_flows s) \<Longrightarrow> set (sh_timers s) \<subseteq> set (sh_timers s') \<Longrightarrow> timers_cover cfg d s'"
  by (auto simp: timers_cover_def intro: has_timer_mono)

lemma clock_sub: "clock_ok c s \<Longrightarrow> set (sh_flows s') \<subseteq> set (sh_flows s) \<Longrightarrow> c \<le> c' \<Longrightarrow> clock_ok c' s'"
  by (fastforce simp: clock_ok_def)

lemma packet_effect_cover:
  assumes "packet_effect cfg env p f is_new s s'" "clock_ok c s" "c \<le> fe_activity env"
    and "fe_timer env \<le> fe_activity env + d" and "fl_key f = pkt_key p"
    and "\<And>e. e \<in> set (sh_flows s) \<Longrightarrow> fst e \<noteq> pkt_key p \<Longrightarrow> has_timer cfg d (set (sh_timers s)) e"
    and "\<not> is_new \<Longrightarrow> has_timer cfg d (set (sh_timers s)) (pkt_key p, f)" "\<not> is_new \<Longrightarrow> fl_last_activity f \<le> c"
    and "distinct (map fst (sh_flows s))"
  shows "timers_cover cfg d s' \<and> clock_ok (fe_activity env) s'"
  using assms(1) unfolding packet_effect_def
proof (elim disjE exE conjE)
  assume "sh_flows s' = AList.delete (pkt_key p) (sh_flows s)" "sh_timers s' = sh_timers s"
  then show ?thesis using assms(2,3,6) by (fastforce simp: timers_cover_def clock_ok_def set_delete_iff)
next
  fix f' assume f': "sh_flows s' = AList.update (pkt_key p) f' (sh_flows s)" "fl_id f' = fl_id f"
    "fl_last_activity f' = fe_activity env" "fl_key f' = fl_key f"
    and t: "if is_new then \<exists>serial. sh_timers s' = push_timer \<lparr>ti_deadline = fe_timer env + idle_timeout cfg (key_protocol (pkt_key p)),
             ti_serial = serial, ti_key = pkt_key p, ti_flow_id = fl_id f\<rparr> (sh_timers s)
         else sh_timers s' = sh_timers s"
  have sub: "set (sh_timers s) \<subseteq> set (sh_timers s')" using t by (auto split: if_splits)
  have "has_timer cfg d (set (sh_timers s')) (pkt_key p, f')"
  proof (cases is_new)
    case True
    then show ?thesis using t assms(4,5) f' by (auto simp: has_timer_def flow_deadline_def)
  next
    case False
    then show ?thesis using t assms(3,7,8) f' by (fastforce simp: has_timer_def flow_deadline_def)
  qed
  moreover have "set (sh_flows s') = insert (pkt_key p, f') {e \<in> set (sh_flows s). fst e \<noteq> pkt_key p}"
    using assms(9) f'(1) by (simp add: set_update_distinct)
  ultimately show ?thesis
    using assms(2,3,6) f'(3) has_timer_mono [OF _ sub] by (fastforce simp: timers_cover_def clock_ok_def)
qed

lemma delete_subset: "set (AList.delete k m) \<subseteq> set m"
  by (auto simp: set_delete_iff)

lemma handled_cover:
  assumes "handled cfg services env p s s' go" "timers_cover cfg d s" "clock_ok c s" "c \<le> fe_activity env"
    and "fe_timer env \<le> fe_activity env + d" "shard_inv cfg s"
  shows "timers_cover cfg d s' \<and> clock_ok (fe_activity env) s'"
proof -
  obtain s1 :: shard where s1: "sh_flows s1 = sh_flows s \<or> sh_flows s1 = AList.delete (pkt_key p) (sh_flows s)"
    "sh_timers s1 = sh_timers s"
    and r: "if go then \<exists>f is_new. \<exists>s2 :: shard. packet_effect cfg env p f is_new s2 s' \<and> sh_timers s2 = sh_timers s1 \<and>
             (if is_new then sh_flows s2 = AList.update (pkt_key p) f (sh_flows s1) \<and>
                map_of (sh_flows s1) (pkt_key p) = None \<and> fl_key f = pkt_key p \<and> accepts_destination services p
              else sh_flows s2 = sh_flows s1 \<and> map_of (sh_flows s1) (pkt_key p) = Some f)
         else sh_flows s' = sh_flows s1 \<and> sh_timers s' = sh_timers s1"
    using assms(1) unfolding handled_def by blast
  have sub: "set (sh_flows s1) \<subseteq> set (sh_flows s)" using s1(1) by (auto simp: set_delete_iff)
  have cov1: "timers_cover cfg d s1" by (rule cover_sub [OF assms(2) sub]) (simp add: s1)
  have clk1: "clock_ok c s1" by (rule clock_sub [OF assms(3) sub]) simp
  have d0: "distinct (map fst (sh_flows s))" and fk: "\<forall>(k, f) \<in> set (sh_flows s). flow_ok k f"
    using assms(6) by (auto simp: shard_inv_def table_ok_def)
  have d1: "distinct (map fst (sh_flows s1))" using s1(1) d0 distinct_fst_delete by auto
  show ?thesis
  proof (cases go)
    case False
    then show ?thesis
      using r cover_sub [OF cov1, of s'] clock_sub [OF clk1, of s' "fe_activity env"] assms(4) by simp
  next
    case True
    then obtain f is_new and s2 :: shard where e: "packet_effect cfg env p f is_new s2 s'" "sh_timers s2 = sh_timers s1"
      and n: "if is_new then sh_flows s2 = AList.update (pkt_key p) f (sh_flows s1) \<and>
                map_of (sh_flows s1) (pkt_key p) = None \<and> fl_key f = pkt_key p \<and> accepts_destination services p
              else sh_flows s2 = sh_flows s1 \<and> map_of (sh_flows s1) (pkt_key p) = Some f"
      using r by auto
    have others: "e \<in> set (sh_flows s1)" if "e \<in> set (sh_flows s2)" "fst e \<noteq> pkt_key p" for e
      using that n set_alist_update [of "pkt_key p" f "sh_flows s1"] by (auto split: if_splits)
    have mem: "(pkt_key p, f) \<in> set (sh_flows s1)" if "\<not> is_new" using n that map_of_SomeD by fastforce
    have key: "fl_key f = pkt_key p"
      using n mem sub fk by (cases is_new) (auto simp: flow_ok_def)
    have "sh_flows s' = AList.delete (pkt_key p) (sh_flows s1) \<and> sh_timers s' = sh_timers s1 \<or>
      timers_cover cfg d s' \<and> clock_ok (fe_activity env) s'" if "is_new"
    proof -
      let ?s2 = "s2\<lparr>sh_flows := sh_flows s1\<rparr>"
      have "packet_effect cfg env p f is_new ?s2 s'"
        using e(1) n that by (auto simp: packet_effect_def delete_update_same update_last)
      from packet_effect_cover [OF this, of c d] show ?thesis
        using clk1 assms(4,5) key cov1 e(2) d1 that by (auto simp: clock_ok_def timers_cover_def)
    qed
    moreover have "timers_cover cfg d s' \<and> clock_ok (fe_activity env) s'" if nn: "\<not> is_new"
    proof (rule packet_effect_cover [OF e(1) _ assms(4,5) key])
      show "clock_ok c s2" using clk1 n nn by (simp add: clock_ok_def)
      show "fl_last_activity f \<le> c" using clk1 mem [OF nn] by (auto simp: clock_ok_def)
    qed (use n nn cov1 e(2) mem d1 in \<open>auto simp: timers_cover_def\<close>)
    moreover have "timers_cover cfg d s' \<and> clock_ok (fe_activity env) s'"
      if "sh_flows s' = AList.delete (pkt_key p) (sh_flows s1)" "sh_timers s' = sh_timers s1"
      using that cover_sub [OF cov1, of s'] clock_sub [OF clk1, of s' "fe_activity env"] assms(4)
        delete_subset [of "pkt_key p" "sh_flows s1"] by simp
    ultimately show ?thesis by blast
  qed
qed

definition table_keys :: "shard \<Rightarrow> flow_key set" where
  "table_keys s = fst ` set (sh_flows s)"

lemma keys_delete: "fst ` set (AList.delete k m) \<subseteq> fst ` set m"
  by (intro image_mono delete_subset)

lemma keys_update: "fst ` set (AList.update k v m) = insert k (fst ` set m)"
  using dom_update [of k v m] by simp

lemma effect_keys: "packet_effect cfg env p f is_new s s' \<Longrightarrow> table_keys s' \<subseteq> insert (pkt_key p) (table_keys s)"
  using keys_delete [of "pkt_key p" "sh_flows s"] unfolding packet_effect_def table_keys_def
  by (elim disjE exE conjE) (simp_all add: keys_update, blast)

lemma handled_keys:
  assumes "handled cfg services env p s s' go"
  shows "table_keys s' \<subseteq> table_keys s \<or>
    table_keys s' \<subseteq> insert (pkt_key p) (table_keys s) \<and> accepts_destination services p"
proof -
  obtain s1 :: shard where s1: "sh_flows s1 = sh_flows s \<or> sh_flows s1 = AList.delete (pkt_key p) (sh_flows s)"
    and r: "if go then \<exists>f is_new. \<exists>s2 :: shard. packet_effect cfg env p f is_new s2 s' \<and> sh_timers s2 = sh_timers s1 \<and>
             (if is_new then sh_flows s2 = AList.update (pkt_key p) f (sh_flows s1) \<and>
                map_of (sh_flows s1) (pkt_key p) = None \<and> fl_key f = pkt_key p \<and> accepts_destination services p
              else sh_flows s2 = sh_flows s1 \<and> map_of (sh_flows s1) (pkt_key p) = Some f)
         else sh_flows s' = sh_flows s1 \<and> sh_timers s' = sh_timers s1"
    using assms unfolding handled_def by blast
  have k1: "table_keys s1 \<subseteq> table_keys s"
    using s1 keys_delete [of "pkt_key p" "sh_flows s"] unfolding table_keys_def by (elim disjE) simp_all
  show ?thesis
  proof (cases go)
    case False
    then show ?thesis using r k1 by (simp add: table_keys_def)
  next
    case True
    then obtain f is_new and s2 :: shard where e: "packet_effect cfg env p f is_new s2 s'"
      and n: "if is_new then sh_flows s2 = AList.update (pkt_key p) f (sh_flows s1) \<and> accepts_destination services p
              else sh_flows s2 = sh_flows s1 \<and> map_of (sh_flows s1) (pkt_key p) = Some f"
      using r by (auto split: if_splits)
    show ?thesis
    proof (cases is_new)
      case True
      then show ?thesis using effect_keys [OF e] n k1 by (auto simp: table_keys_def keys_update)
    next
      case False
      then have "pkt_key p \<in> table_keys s1" "table_keys s2 = table_keys s1"
        using n by (simp_all add: table_keys_def, force dest: map_of_SomeD)
      then show ?thesis using effect_keys [OF e] k1 by blast
    qed
  qed
qed

lemma cover_drop:
  assumes "timers_cover cfg d s" "sh_timers s = item # rest" "sh_timers s' = rest"
    and "\<forall>f. (ti_key item, f) \<in> set (sh_flows s') \<longrightarrow> fl_id f \<noteq> ti_flow_id item"
    and "set (sh_flows s') \<subseteq> set (sh_flows s)"
  shows "timers_cover cfg d s'"
  using assms by (fastforce simp: timers_cover_def has_timer_def)

definition expired :: "flow_config \<Rightarrow> nat \<Rightarrow> nat \<Rightarrow> shard \<Rightarrow> shard \<Rightarrow> bool" where
  "expired cfg now d s s' \<longleftrightarrow> shard_inv cfg s' \<and> conserved s s' \<and> set (sh_flows s') \<subseteq> set (sh_flows s) \<and>
     (\<forall>e \<in> set (sh_flows s). now < flow_deadline cfg (snd e) \<longrightarrow> e \<in> set (sh_flows s')) \<and>
     (\<forall>t \<in> set (sh_timers s'). now < ti_deadline t) \<and> (timers_cover cfg d s \<longrightarrow> timers_cover cfg d s')"

lemma expired_trans:
  assumes "expired cfg now d s1 s'" "conserved s s1" "set (sh_flows s1) \<subseteq> set (sh_flows s)"
    and "\<And>e. e \<in> set (sh_flows s) \<Longrightarrow> now < flow_deadline cfg (snd e) \<Longrightarrow> e \<in> set (sh_flows s1)"
    and "timers_cover cfg d s \<Longrightarrow> timers_cover cfg d s1"
  shows "expired cfg now d s s'"
  using assms unfolding expired_def by (meson conserved_trans subset_trans)

lemma expire_ok:
  assumes "shard_inv cfg s"
  shows "\<exists>s'. expire_timers cfg alive now s = Some s' \<and> expired cfg now d s s'"
  using assms
proof (induction cfg alive now s rule: expire_timers.induct)
  case (1 cfg alive now s)
  have t: "table_ok cfg s" and dist: "distinct (map fst (sh_flows s))"
    using 1(5) by (auto simp: shard_inv_def table_ok_def)
  show ?case
  proof (cases "sh_timers s")
    case Nil
    then show ?thesis using 1(5) by (subst expire_timers.simps) (simp add: expired_def)
  next
    case (Cons item rest)
    let ?s1 = "s\<lparr>sh_timers := rest\<rparr>"
    have i1: "shard_inv cfg ?s1" "conserved s ?s1"
      using 1(5) Cons by (simp_all add: shard_inv_def table_ok_def conserved_def)
    show ?thesis
    proof (cases "ti_deadline item > now")
      case True
      have "now < ti_deadline t" if "t \<in> set (sh_timers s)" for t
        using that True Cons 1(5) by (auto simp: shard_inv_def timer_rank_def less_eq_prod_def)
      then show ?thesis using True Cons 1(5) by (subst expire_timers.simps) (simp add: expired_def)
    next
      case fires: False
      show ?thesis
      proof (cases "\<exists>f. map_of (sh_flows s) (ti_key item) = Some f \<and> fl_id f = ti_flow_id item")
        case stale: False
        have "expire_timers cfg alive now s = expire_timers cfg alive now ?s1"
          by (subst expire_timers.simps) (use Cons fires stale in \<open>auto simp: Let_def split: option.split\<close>)
        moreover obtain s' where "expire_timers cfg alive now ?s1 = Some s'" "expired cfg now d ?s1 s'"
        proof (cases "map_of (sh_flows s) (ti_key item)")
          case None
          then show ?thesis using that 1(1) [OF Cons fires refl] i1 by auto
        next
          case (Some f)
          then show ?thesis using that stale 1(2) [OF Cons fires refl] i1 by auto
        qed
        moreover have "timers_cover cfg d ?s1" if c: "timers_cover cfg d s"
          using cover_drop [OF c Cons, of ?s1] stale dist by auto
        ultimately show ?thesis using expired_trans [of cfg now d ?s1 _ s] i1(2) by auto
      next
        case True
        then obtain f where f: "map_of (sh_flows s) (ti_key item) = Some f" "fl_id f = ti_flow_id item" by blast
        have fe: "(k, g) \<in> set (sh_flows s) \<Longrightarrow> k = ti_key item \<Longrightarrow> g = f" for k g
          using f(1) dist by simp
        show ?thesis
        proof (cases "flow_deadline cfg f \<le> now")
          case idle: True
          obtain s2 where c: "close_flow alive (ti_key item) ?s1 = Some s2" "table_ok cfg s2" "conserved ?s1 s2"
            "sh_flows s2 = AList.delete (ti_key item) (sh_flows s)" "sh_timers s2 = rest"
            using close_ok [of cfg ?s1 alive "ti_key item"] i1 by (auto simp: shard_inv_def)
          have i2: "shard_inv cfg s2" using c i1 by (simp add: shard_inv_def)
          have "expire_timers cfg alive now s = expire_timers cfg alive now s2"
            by (subst expire_timers.simps) (use Cons fires f c(1) idle in \<open>auto simp: flow_deadline_def Let_def\<close>)
          moreover obtain s' where "expire_timers cfg alive now s2 = Some s'" "expired cfg now d s2 s'"
            using 1(3) [OF Cons fires refl _ _ refl _ c(1)] f idle i2 by (auto simp: flow_deadline_def)
          moreover have "timers_cover cfg d s2" if cv: "timers_cover cfg d s"
            by (intro cover_drop [OF cv Cons c(5)]) (auto simp: c(4) set_delete_iff)
          moreover have "e \<in> set (sh_flows s2)" if "e \<in> set (sh_flows s)" "now < flow_deadline cfg (snd e)" for e
          proof -
            obtain k g where "e = (k, g)" by force
            then show ?thesis using that fe [of k g] idle c(4) by (auto simp: set_delete_iff)
          qed
          moreover have "conserved s s2" by (rule conserved_trans [OF i1(2) c(3)])
          moreover have "set (sh_flows s2) \<subseteq> set (sh_flows s)" using c(4) delete_subset by simp
          ultimately show ?thesis using expired_trans [of cfg now d s2 _ s] by auto
        next
          case busy: False
          let ?s2 = "schedule (flow_deadline cfg f) (ti_key item) (fl_id f) ?s1"
          have i2: "shard_inv cfg ?s2" "conserved s ?s2"
            using i1 by (simp_all add: shard_inv_def table_ok_def conserved_def schedule_def sorted_push)
          have "expire_timers cfg alive now s = expire_timers cfg alive now ?s2"
            by (subst expire_timers.simps) (use Cons fires f busy in \<open>auto simp: flow_deadline_def Let_def\<close>)
          moreover obtain s' where "expire_timers cfg alive now ?s2 = Some s'" "expired cfg now d ?s2 s'"
            using 1(4) [OF Cons fires refl _ _ refl] f busy i2 by (auto simp: flow_deadline_def)
          moreover have "timers_cover cfg d ?s2" if "timers_cover cfg d s"
            using that Cons fe f(2) by (fastforce simp: timers_cover_def has_timer_def schedule_def)
          ultimately show ?thesis using expired_trans [of cfg now d ?s2 _ s] i2(2) by (auto simp: schedule_def)
        qed
      qed
    qed
  qed
qed

subsection \<open>An iteration\<close>

lemma rebuild_spec:
  assumes "rebuild_timers cfg fs serial ts = (serial', ts')"
  shows "set ts \<subseteq> set ts' \<and> (\<forall>e \<in> set fs. has_timer cfg 0 (set ts') e) \<and> length ts' = length ts + length fs \<and>
    (sorted (map timer_rank ts) \<longrightarrow> sorted (map timer_rank ts'))"
  using assms
proof (induction fs arbitrary: serial ts)
  case (Cons e fs)
  obtain k f where e: "e = (k, f)" by force
  let ?t = "\<lparr>ti_deadline = flow_deadline cfg f, ti_serial = serial + 1, ti_key = k, ti_flow_id = fl_id f\<rparr>"
  have r: "rebuild_timers cfg fs (serial + 1) (push_timer ?t ts) = (serial', ts')"
    using Cons.prems by (simp add: e flow_deadline_def)
  note IH = Cons.IH [OF r]
  have "?t \<in> set ts'" using IH by simp
  then have "has_timer cfg 0 (set ts') e" unfolding e has_timer_def by (intro case_prodI bexI [of _ ?t]) simp_all
  then show ?case using IH by (auto simp: sorted_push)
qed simp

lemma compact_ok:
  shows "shard_inv cfg s \<Longrightarrow> shard_inv cfg (compact_timers cfg s)"
    "sh_flows (compact_timers cfg s) = sh_flows s" "conserved s (compact_timers cfg s)"
    "timers_cover cfg d s \<Longrightarrow> timers_cover cfg d (compact_timers cfg s)"
    "length (sh_timers (compact_timers cfg s)) \<le> max 4096 (2 * length (sh_flows s) + 1024)"
proof -
  obtain serial ts where r: "rebuild_timers cfg (sh_flows s) (sh_serial s) [] = (serial, ts)" by force
  note spec = rebuild_spec [OF r]
  show "sh_flows (compact_timers cfg s) = sh_flows s" "conserved s (compact_timers cfg s)"
    by (simp_all add: compact_timers_def Let_def r conserved_def)
  show "shard_inv cfg s \<Longrightarrow> shard_inv cfg (compact_timers cfg s)"
    using spec by (simp add: compact_timers_def Let_def r shard_inv_def table_ok_def)
  have "has_timer cfg 0 X e \<Longrightarrow> has_timer cfg d X e" for X e by (cases e) (fastforce simp: has_timer_def)
  then show "timers_cover cfg d s \<Longrightarrow> timers_cover cfg d (compact_timers cfg s)"
    using spec by (auto simp: compact_timers_def Let_def r timers_cover_def)
  show "length (sh_timers (compact_timers cfg s)) \<le> max 4096 (2 * length (sh_flows s) + 1024)"
    using spec by (auto simp: compact_timers_def Let_def r sat_add64_def)
qed

text \<open>An idle flow, and what the end of an iteration guarantees.\<close>

definition maintained :: "flow_config \<Rightarrow> nat \<Rightarrow> nat \<Rightarrow> shard \<Rightarrow> shard \<Rightarrow> bool" where
  "maintained cfg now d s s' \<longleftrightarrow> shard_inv cfg s' \<and> conserved s s' \<and> timers_cover cfg d s' \<and>
     set (sh_flows s') \<subseteq> set (sh_flows s) \<and>
     (\<forall>e \<in> set (sh_flows s'). now < flow_deadline cfg (snd e) + d) \<and>
     (\<forall>e \<in> set (sh_flows s). now < flow_deadline cfg (snd e) \<longrightarrow> e \<in> set (sh_flows s')) \<and>
     length (sh_timers s') \<le> max 4096 (2 * length (sh_flows s') + 1024)"

lemma maintain_ok:
  assumes "shard_inv cfg s" "timers_cover cfg d s"
  shows "\<exists>s'. maintain cfg env alive s = Some s' \<and> maintained cfg (fe_expiry env) d s s'"
proof -
  obtain s1 where e: "expire_timers cfg alive (fe_expiry env) s = Some s1" "expired cfg (fe_expiry env) d s s1"
    using expire_ok [OF assms(1)] by blast
  let ?s = "compact_timers cfg s1"
  have c: "shard_inv cfg s1" "timers_cover cfg d s1" "conserved s s1" using e(2) assms(2) by (auto simp: expired_def)
  have "fe_expiry env < flow_deadline cfg (snd x) + d" if "x \<in> set (sh_flows s1)" for x
  proof -
    have "has_timer cfg d (set (sh_timers s1)) x" using c(2) that by (simp add: timers_cover_def)
    then show ?thesis using e(2) by (cases x) (fastforce simp: expired_def has_timer_def)
  qed
  then have "maintained cfg (fe_expiry env) d s ?s"
    using e(2) compact_ok(1) [OF c(1)] compact_ok(2,4,5) [where s = s1 and cfg = cfg] c conserved_trans [OF c(3) compact_ok(3)]
    unfolding maintained_def expired_def by simp
  then show ?thesis using e(1) by (simp add: maintain_def)
qed

text \<open>The clock readings of an iteration: none is before \<open>c\<close>, and the timer is set no more than \<open>d\<close> after the
  activity was noted.\<close>

definition env_ok :: "nat \<Rightarrow> nat \<Rightarrow> flow_env \<Rightarrow> bool" where
  "env_ok c d env \<longleftrightarrow> c \<le> fe_activity env \<and> fe_timer env \<le> fe_activity env + d \<and> fe_activity env \<le> fe_expiry env"

definition engine_ok :: "flow_config \<Rightarrow> nat \<Rightarrow> nat \<Rightarrow> shard \<Rightarrow> bool" where
  "engine_ok cfg c d s \<longleftrightarrow> shard_inv cfg s \<and> timers_cover cfg d s \<and> clock_ok c s"

definition step_shape ::
  "flow_config \<Rightarrow> service_registry \<Rightarrow> flow_env \<Rightarrow> nat \<Rightarrow> parsed_packet option \<Rightarrow> shard \<Rightarrow> shard \<Rightarrow> bool" where
  "step_shape cfg services env d input s s' \<longleftrightarrow> (\<exists>s1 go.
     (case input of None \<Rightarrow> sh_flows s1 = sh_flows s \<and> go | Some p \<Rightarrow> handled cfg services env p s s1 go) \<and>
     (if go then maintained cfg (fe_expiry env) d s1 s' else s' = s1))"

lemma shard_step_ok:
  assumes "engine_ok cfg c d s" "env_ok c d env" "\<forall>p. input = Some p \<longrightarrow> packet_ready s p"
  shows "\<exists>s'. shard_step cfg services env alive input s = Some s' \<and> engine_ok cfg (fe_activity env) d s' \<and>
    conserved s s' \<and> step_shape cfg services env d input s s'"
proof -
  have s: "shard_inv cfg s" "timers_cover cfg d s" "clock_ok c s" and c: "c \<le> fe_activity env" "fe_timer env \<le> fe_activity env + d"
    using assms(1,2) by (auto simp: engine_ok_def env_ok_def)
  have fin: "engine_ok cfg (fe_activity env) d s'"
    if "maintained cfg (fe_expiry env) d s1 s'" "clock_ok (fe_activity env) s1" for s1 s'
    using that clock_sub [of "fe_activity env" s1 s'] by (auto simp: maintained_def engine_ok_def)
  show ?thesis
  proof (cases input)
    case None
    obtain s' where m: "maintain cfg env alive s = Some s'" "maintained cfg (fe_expiry env) d s s'"
      using maintain_ok [OF s(1,2)] by blast
    have clk: "clock_ok (fe_activity env) s" by (rule clock_sub [OF s(3)]) (simp_all add: c)
    have "step_shape cfg services env d input s s'"
      unfolding step_shape_def by (rule exI [of _ s], rule exI [of _ True]) (simp add: None m(2))
    then show ?thesis using None m fin [OF m(2) clk] by (simp add: shard_step_def maintained_def)
  next
    case (Some p)
    obtain s1 go where h: "handle_packet cfg services env alive p s = Some (s1, go)" "shard_inv cfg s1" "conserved s s1"
      "handled cfg services env p s s1 go"
      using handle_packet_ok [OF s(1), of p] assms(3) Some by blast
    note cov = handled_cover [OF h(4) s(2,3) c s(1)]
    show ?thesis
    proof (cases go)
      case True
      obtain s' where m: "maintain cfg env alive s1 = Some s'" "maintained cfg (fe_expiry env) d s1 s'"
        using maintain_ok [of cfg s1 d] h(2) cov by blast
      have "step_shape cfg services env d input s s'"
        unfolding step_shape_def by (rule exI [of _ s1], rule exI [of _ True]) (use Some m(2) h(4) True in simp)
      then show ?thesis
        using Some h(1) m True fin [OF m(2)] cov conserved_trans [OF h(3), of s'] by (simp add: shard_step_def maintained_def)
    next
      case False
      have "step_shape cfg services env d input s s1"
        unfolding step_shape_def by (rule exI [of _ s1], rule exI [of _ False]) (use Some h(4) False in simp)
      then show ?thesis using Some h False cov by (simp add: shard_step_def engine_ok_def)
    qed
  qed
qed

end
