(* ===== verification/Flow_Properties.thy ===== *)
theory Flow_Properties
  imports Flow_Loop
begin

text \<open>
  The properties of a flow shard: every iteration returns and keeps the engine invariant; only traffic to a
  configured service opens a flow; idle flows are closed and active ones are kept; the shutdown retires every
  flow.
\<close>

subsection \<open>Concrete instances for the witnesses\<close>

definition example_cfg :: flow_config where
  "example_cfg = \<lparr>max_active_flows = 4, max_flows_per_source_prefix = 2, max_ooo_bytes = 1000, max_ooo_segments = 10,
     tcp_gap_timeout = 1000, live_flow_update_interval = 5, tcp_idle_timeout = 100, udp_idle_timeout = 50\<rparr>"

definition example_metrics :: flow_metrics where
  "example_metrics = \<lparr>fm_active_flows = 0, fm_packets_filtered = 0, fm_flow_state_rejections = 0,
     fm_flow_prefix_rejections = 0, fm_packets_received = 0, fm_packet_bytes = 0, fm_tcp_rejected_resets = 0,
     fm_tcp_retransmits = 0, fm_tcp_out_of_order = 0, fm_tcp_gap_events = 0, fm_tcp_gap_bytes = 0,
     fm_flows_completed = 0, fm_flow_queue_depth = 1, fm_l7_queue_depth = 0, fm_l7_queue_high_watermark = 0\<rparr>"

definition example_flow_env :: flow_env where
  "example_flow_env = \<lparr>fe_uuid = 7, fe_probe = 10, fe_created = 10, fe_created_snapshot = 10, fe_activity = 10,
     fe_snapshot = 11, fe_timer = 12, fe_closed = 12, fe_expiry = 13\<rparr>"

definition example_packet :: parsed_packet where
  "example_packet = \<lparr>pkt_ts_ns = 5, pkt_key = example_flow_key, pkt_direction = BToA, pkt_seq = Some 100,
     pkt_ack = None, pkt_flags = default_flags, pkt_payload = [65, 66], pkt_wire_len = 60\<rparr>"

definition example_service :: service_config where
  "example_service = \<lparr>svc_port = 80, svc_name = ''web'', svc_http = True, svc_urldecode_http_requests = False,
     svc_merge_adjacent_packets = False, svc_parse_websockets = False\<rparr>"

abbreviation example_registry :: service_registry where
  "example_registry \<equiv> new_registry [example_service]"

abbreviation example_shard :: shard where "example_shard \<equiv> new_shard example_metrics 2"

lemma new_shard_ok: "fm_active_flows m \<le> max_active_flows cfg \<Longrightarrow> engine_ok cfg c d (new_shard m w)"
  by (simp add: engine_ok_def shard_inv_def table_ok_def new_shard_def counts_ok_def timers_cover_def clock_ok_def)

lemma example_ready: "packet_ready example_shard example_packet"
  by (simp add: packet_ready_def new_shard_def example_packet_def)

lemma example_env_ok: "env_ok 0 2 example_flow_env"
  by (simp add: env_ok_def example_flow_env_def)

subsection \<open>Every iteration is safe\<close>

text \<open>C7: one iteration of a flow shard, on any packet or on a timeout. It returns: no \<open>expect\<close> fails, no
  loop hangs. The invariant holds again: keys are distinct and match their flows, both halves of every TCP
  flow satisfy the reassembler's invariant, the number of flows of every source prefix is exactly what the
  table holds and within its limit, the global number of flows is within its limit, and every flow has its
  timer. The global counter moves by exactly the flows this shard opened and closed.\<close>

theorem flow_step_safe:
  assumes "engine_ok cfg c d s" "env_ok c d env" "\<forall>p. input = Some p \<longrightarrow> packet_ready s p"
  shows "\<exists>s'. shard_step cfg services env alive input s = Some s' \<and> engine_ok cfg (fe_activity env) d s' \<and>
    fm_active_flows (sh_metrics s') + length (sh_flows s) = fm_active_flows (sh_metrics s) + length (sh_flows s') \<and>
    fm_active_flows (sh_metrics s') \<le> max_active_flows cfg \<and>
    (\<forall>q. length (filter (\<lambda>e. fl_source_prefix (snd e) = q) (sh_flows s')) \<le> max_flows_per_source_prefix cfg)"
  using shard_step_ok [OF assms, of services alive]
  by (auto simp: conserved_def engine_ok_def shard_inv_def table_ok_def prefix_count_def)

theorem flow_step_safe_witness:
  "\<exists>s'. shard_step example_cfg example_registry example_flow_env (\<lambda>_ _. True) (Some example_packet) example_shard = Some s' \<and>
    engine_ok example_cfg (fe_activity example_flow_env) 2 s' \<and>
    fm_active_flows (sh_metrics s') + length (sh_flows example_shard)
      = fm_active_flows (sh_metrics example_shard) + length (sh_flows s') \<and>
    fm_active_flows (sh_metrics s') \<le> max_active_flows example_cfg \<and>
    (\<forall>q. length (filter (\<lambda>e. fl_source_prefix (snd e) = q) (sh_flows s')) \<le> max_flows_per_source_prefix example_cfg)"
  by (rule flow_step_safe [OF new_shard_ok example_env_ok])
    (simp_all add: example_metrics_def example_ready [unfolded example_metrics_def])

subsection \<open>Admission\<close>

text \<open>C8: only traffic addressed to a configured service opens a flow. If an iteration leaves a key in the
  table that was not there before, then it is the key of its packet and the destination port of that packet is
  a configured service; a packet that merely comes from a service port opens nothing.\<close>

theorem only_services_open_flows:
  assumes "engine_ok cfg c d s" "env_ok c d env" "\<forall>p. input = Some p \<longrightarrow> packet_ready s p"
    and "shard_step cfg services env alive input s = Some s'"
    and "map_of (sh_flows s) k = None" "map_of (sh_flows s') k \<noteq> None"
  shows "\<exists>p. input = Some p \<and> k = pkt_key p \<and> accepts_destination services p"
proof -
  have "step_shape cfg services env d input s s'"
    using shard_step_ok [OF assms(1-3), of services alive] assms(4) by auto
  then obtain s1 go where st:
    "case input of None \<Rightarrow> sh_flows s1 = sh_flows s \<and> go | Some p \<Rightarrow> handled cfg services env p s s1 go"
    "if go then maintained cfg (fe_expiry env) d s1 s' else s' = s1"
    unfolding step_shape_def by blast
  have "set (sh_flows s') \<subseteq> set (sh_flows s1)"
    using st(2) by (auto simp: maintained_def split: if_splits)
  then have k1: "k \<in> table_keys s1" using assms(6) by (auto simp: map_of_eq_None_iff table_keys_def)
  have k0: "k \<notin> table_keys s" using assms(5) by (simp add: map_of_eq_None_iff table_keys_def)
  show ?thesis
  proof (cases input)
    case None
    then show ?thesis using st(1) k0 k1 by (simp add: table_keys_def)
  next
    case (Some p)
    then show ?thesis using handled_keys [of cfg services env p s s1 go] st(1) k0 k1 by auto
  qed
qed

lemmas flow_eval = shard_step_def handle_packet_def check_tombstone_def new_generation_def initiating_syn_def
  admit_flow_def accepts_destination_def accepts_port_def destination_endpoint_def new_registry_def
  try_admit_flow_def prefix_from_packet_def new_flow_state_def process_packet_def count_packet_def
  process_tcp_def tcp_ack_def tcp_data_def half_of_def set_half_def is_initialized_def rst_matches_next_def
  emit_tcp_outcome_def chunk_message_def l7_send_def l7_index_def output_flow_id_def queue_enqueued_def
  queue_dequeued_def bump_metrics_def publish_snapshot_def summary_def should_close_def schedule_def push_timer_def
  idle_timeout_def maintain_def expire_timers.simps compact_timers_def contains_live_def tomb_expire_def
  new_shard_def new_tombstones_def ns_to_datetime_def

lemmas example_defs = example_cfg_def example_metrics_def example_flow_env_def example_packet_def example_service_def
  example_flow_key_def default_flags_def

lemma example_flow_opens:
  "map_option (map fst \<circ> sh_flows)
     (shard_step example_cfg example_registry example_flow_env (\<lambda>_ _. True) (Some example_packet) example_shard)
   = Some [example_flow_key]"
  by (simp add: flow_eval example_defs reassembly_eval)

theorem only_services_open_flows_witness:
  "\<exists>p. Some example_packet = Some p \<and> example_flow_key = pkt_key p \<and> accepts_destination example_registry p"
proof -
  obtain s' where s': "shard_step example_cfg example_registry example_flow_env (\<lambda>_ _. True) (Some example_packet) example_shard = Some s'"
    "map fst (sh_flows s') = [example_flow_key]"
    using example_flow_opens by auto
  have "map_of (sh_flows s') example_flow_key \<noteq> None"
    using s'(2) by (auto simp: map_of_eq_None_iff)
  moreover have "engine_ok example_cfg 0 2 example_shard" by (rule new_shard_ok) (simp add: example_metrics_def)
  moreover have "map_of (sh_flows example_shard) example_flow_key = None" by (simp add: new_shard_def)
  ultimately show ?thesis
    using only_services_open_flows [OF _ example_env_ok _ s'(1)] example_ready by blast
qed

subsection \<open>Idle flows\<close>

text \<open>C9: the timers close exactly the idle flows. After an iteration on a timeout no flow is left whose idle
  deadline (last activity plus the timeout of its protocol) passed more than the slack ago, every flow
  whose deadline is still to come is kept as it is, and no more timers are queued than 4096 or twice the
  flows plus 1024.\<close>

theorem idle_flows_expire:
  assumes "engine_ok cfg c d s" "env_ok c d env"
  shows "\<exists>s'. shard_step cfg services env alive None s = Some s' \<and>
    (\<forall>(k, f) \<in> set (sh_flows s'). (k, f) \<in> set (sh_flows s) \<and>
       fe_expiry env < fl_last_activity f + idle_timeout cfg (key_protocol (fl_key f)) + d) \<and>
    (\<forall>(k, f) \<in> set (sh_flows s). fe_expiry env < fl_last_activity f + idle_timeout cfg (key_protocol (fl_key f)) \<longrightarrow>
       (k, f) \<in> set (sh_flows s')) \<and>
    length (sh_timers s') \<le> max 4096 (2 * length (sh_flows s') + 1024)"
proof -
  obtain s' where s': "maintain cfg env alive s = Some s'" "maintained cfg (fe_expiry env) d s s'"
    using maintain_ok [of cfg s d env alive] assms(1) by (auto simp: engine_ok_def)
  have "shard_step cfg services env alive None s = Some s'" using s'(1) by (simp add: shard_step_def)
  then show ?thesis using s'(2) by (fastforce simp: maintained_def flow_deadline_def)
qed

definition idle_shard :: shard where
  "idle_shard = the (shard_step example_cfg example_registry example_flow_env (\<lambda>_ _. True) (Some example_packet) example_shard)"

definition late_env :: flow_env where
  "late_env = example_flow_env\<lparr>fe_activity := 200, fe_timer := 200, fe_expiry := 200\<rparr>"

lemma idle_shard_ok: "engine_ok example_cfg 10 2 idle_shard"
proof -
  have "engine_ok example_cfg 0 2 example_shard" by (rule new_shard_ok) (simp add: example_metrics_def)
  then obtain s' where "shard_step example_cfg example_registry example_flow_env (\<lambda>_ _. True) (Some example_packet) example_shard = Some s'"
    "engine_ok example_cfg (fe_activity example_flow_env) 2 s'"
    using shard_step_ok [OF _ example_env_ok, of example_cfg example_shard "Some example_packet"] example_ready by blast
  then show ?thesis by (simp add: idle_shard_def example_flow_env_def)
qed

theorem idle_flows_expire_witness:
  "\<exists>s'. shard_step example_cfg example_registry late_env (\<lambda>_ _. True) None idle_shard = Some s' \<and>
    (\<forall>(k, f) \<in> set (sh_flows s'). (k, f) \<in> set (sh_flows idle_shard) \<and>
       fe_expiry late_env < fl_last_activity f + idle_timeout example_cfg (key_protocol (fl_key f)) + 2) \<and>
    (\<forall>(k, f) \<in> set (sh_flows idle_shard).
       fe_expiry late_env < fl_last_activity f + idle_timeout example_cfg (key_protocol (fl_key f)) \<longrightarrow>
       (k, f) \<in> set (sh_flows s')) \<and>
    length (sh_timers s') \<le> max 4096 (2 * length (sh_flows s') + 1024)"
  by (rule idle_flows_expire [OF idle_shard_ok]) (simp add: env_ok_def late_env_def)

subsection \<open>Shutdown\<close>

definition closed_ids :: "shard \<Rightarrow> uuid set" where
  "closed_ids s = {fs_flow_id su | w su. (w, Closed su) \<in> set (l7_sent (sh_output s))}"

definition sent_in :: "shard \<Rightarrow> shard \<Rightarrow> bool" where
  "sent_in s s' \<longleftrightarrow> set (l7_sent (sh_output s)) \<subseteq> set (l7_sent (sh_output s'))"

lemma sent_in_trans: "sent_in a b \<Longrightarrow> sent_in b c \<Longrightarrow> sent_in a c"
  by (auto simp: sent_in_def)

lemma send_grows [simp]: "sent_in s (fst (l7_send alive e s))"
  by (auto simp: sent_in_def l7_send_def Let_def case_prod_unfold)

lemma chunks_grow [simp]: "sent_in s (snd (emit_chunks alive key d cs f s))"
proof (induction cs arbitrary: s)
  case Nil
  show ?case by (simp add: sent_in_def)
next
  case (Cons c cs)
  show ?case using sent_in_trans [OF send_grows Cons.IH] by (simp add: Let_def case_prod_unfold)
qed

lemma emit_grows [simp]: "sent_in s (fst (snd (emit_tcp_outcome alive key d out f s)))"
  unfolding emit_tcp_outcome_def Let_def case_prod_unfold fst_conv snd_conv
  by (rule sent_in_trans [OF _ chunks_grow]) (simp add: sent_in_def)

lemma finalize_grows: "finalize_tcp_halves alive key f s = Some (f', s') \<Longrightarrow> sent_in s s'"
  by (auto simp: finalize_tcp_halves_def bind_Some_iff Let_def case_prod_unfold split: if_splits
      intro: sent_in_trans [OF emit_grows emit_grows]) (simp add: sent_in_def)

lemma finalize_visible:
  assumes "finalize_tcp_halves alive key f s = Some (f', s')" "fl_visible f"
  shows "fl_visible f'"
proof (cases "key_protocol key = Tcp")
  case True
  then obtain ha a hb b where h: "finalize (fl_a_to_b f) = Some (ha, a)" "finalize (fl_b_to_a f) = Some (hb, b)"
    using assms(1) by (auto simp: finalize_tcp_halves_def bind_Some_iff Let_def)
  let ?f = "f\<lparr>fl_a_to_b := ha, fl_b_to_a := hb\<rparr>"
  obtain f1 s1 e1 where e1: "emit_tcp_outcome alive key AToB a ?f s = (f1, s1, e1)" by (metis prod_cases3)
  obtain f2 s2 e2 where e2: "emit_tcp_outcome alive key BToA b f1 s1 = (f2, s2, e2)" by (metis prod_cases3)
  have "fl_visible f2"
    using emit_flow [of alive key AToB a ?f s] emit_flow [of alive key BToA b f1 s1] e1 e2 assms(2) by auto
  then show ?thesis using assms(1) True h e1 e2 by (auto simp: finalize_tcp_halves_def Let_def split: if_splits)
qed (use assms in \<open>simp add: finalize_tcp_halves_def\<close>)

lemma retire_closed:
  assumes "flow_ok key f" "retire_flow alive key f s = Some s'"
  shows "closed_ids s \<subseteq> closed_ids s'" "fl_visible f \<Longrightarrow> \<forall>w n. alive w n \<Longrightarrow> fl_id f \<in> closed_ids s'"
proof -
  obtain f1 s1 where f: "finalize_tcp_halves alive key f s = Some (f1, s1)" "same_flow f f1"
    using finalize_halves_ok [OF assms(1), of alive s] by blast
  let ?s = "fst (l7_send alive (Closed (summary f1)) s1)"
  have o: "sh_output s' = (if fl_visible f1 then sh_output ?s else sh_output s1)"
    using assms(2) f(1) by (auto simp: retire_flow_def Let_def split: if_splits)
  have "set (l7_sent (sh_output s)) \<subseteq> set (l7_sent (sh_output s'))"
    using finalize_grows [OF f(1)] send_grows [of s1 alive "Closed (summary f1)"] o by (auto simp: sent_in_def)
  then show "closed_ids s \<subseteq> closed_ids s'" by (auto simp: closed_ids_def)
  assume v: "fl_visible f" and a: "\<forall>w n. alive w n"
  have "fs_flow_id (summary f1) = fl_id f"
    using f(2) by (auto simp: summary_def Let_def case_prod_unfold same_flow_def)
  then have "(l7_index (l7_workers (sh_output s1)) (fl_id f), Closed (summary f1)) \<in> set (l7_sent (sh_output ?s))"
    using a by (simp add: l7_send_def Let_def case_prod_unfold output_flow_id_def)
  then show "fl_id f \<in> closed_ids s'"
    using o finalize_visible [OF f(1) v] \<open>fs_flow_id (summary f1) = fl_id f\<close> unfolding closed_ids_def
    by (intro CollectI exI [of _ "summary f1"]) (auto intro!: exI)
qed

lemma drain_ok:
  assumes "\<forall>(k, f) \<in> set fs. flow_ok k f" "length fs \<le> fm_active_flows (sh_metrics s)" "distinct (map fst fs)"
    and "counts_ok (sh_source_counts s) fs"
  shows "\<exists>s'. shard_drain alive fs s = Some s' \<and> sh_flows s' = sh_flows s \<and>
    fm_active_flows (sh_metrics s') = fm_active_flows (sh_metrics s) - length fs \<and> counts_ok (sh_source_counts s') [] \<and>
    closed_ids s \<subseteq> closed_ids s' \<and>
    ((\<forall>w n. alive w n) \<longrightarrow> (\<forall>(k, f) \<in> set fs. fl_visible f \<longrightarrow> fl_id f \<in> closed_ids s'))"
  using assms
proof (induction fs arbitrary: s)
  case (Cons e fs)
  obtain k f where e: "e = (k, f)" by force
  have ok: "flow_ok k f" using Cons.prems(1) e by simp
  obtain s1 where r: "retire_flow alive k f s = Some s1" "sh_flows s1 = sh_flows s"
    "fm_active_flows (sh_metrics s1) = fm_active_flows (sh_metrics s) - 1"
    "sh_source_counts s1 = release_prefix (fl_source_prefix f) (sh_source_counts s)"
    using retire_ok [OF ok, of s alive] Cons.prems(2) by auto
  have "AList.delete k (e # fs) = fs"
    using Cons.prems(3) unfolding AList.delete_eq by (force simp: e filter_id_conv)
  then have cnt: "counts_ok (sh_source_counts s1) fs"
    using counts_release [OF Cons.prems(4,3), of k f] r(4) by (simp add: e)
  have rest: "\<forall>(k, f) \<in> set fs. flow_ok k f" "length fs \<le> fm_active_flows (sh_metrics s1)" "distinct (map fst fs)"
    using Cons.prems(1-3) r(3) by auto
  obtain s' where s': "shard_drain alive fs s1 = Some s'" "sh_flows s' = sh_flows s1"
    "fm_active_flows (sh_metrics s') = fm_active_flows (sh_metrics s1) - length fs" "counts_ok (sh_source_counts s') []"
    "closed_ids s1 \<subseteq> closed_ids s'"
    "(\<forall>w n. alive w n) \<longrightarrow> (\<forall>(k, f) \<in> set fs. fl_visible f \<longrightarrow> fl_id f \<in> closed_ids s')"
    using Cons.IH [OF rest cnt] by blast
  show ?case
    using s' r retire_closed [OF ok r(1)] by (auto simp: e)
qed simp

text \<open>C10: shutting a shard down retires every flow: the call returns, the table is empty, the global counter
  has lost exactly the flows of this shard, no source prefix is charged any more, and when the workers are
  alive every flow that was visible downstream gets its closing summary.\<close>

theorem shutdown_drains:
  assumes "engine_ok cfg c d s"
  shows "\<exists>s'. shard_shutdown alive s = Some s' \<and> sh_flows s' = [] \<and>
    fm_active_flows (sh_metrics s') = fm_active_flows (sh_metrics s) - length (sh_flows s) \<and>
    (\<forall>p n. map_of (sh_source_counts s') p = Some n \<longrightarrow> n = 0) \<and>
    ((\<forall>w n. alive w n) \<longrightarrow> (\<forall>(k, f) \<in> set (sh_flows s). fl_visible f \<longrightarrow> fl_id f \<in> closed_ids s'))"
proof -
  have t: "table_ok cfg s" using assms by (simp add: engine_ok_def shard_inv_def)
  obtain s' where s': "shard_drain alive (sh_flows s) (s\<lparr>sh_flows := []\<rparr>) = Some s'" "sh_flows s' = []"
    "fm_active_flows (sh_metrics s') = fm_active_flows (sh_metrics s) - length (sh_flows s)"
    "counts_ok (sh_source_counts s') []"
    "(\<forall>w n. alive w n) \<longrightarrow> (\<forall>(k, f) \<in> set (sh_flows s). fl_visible f \<longrightarrow> fl_id f \<in> closed_ids s')"
    using drain_ok [of "sh_flows s" "s\<lparr>sh_flows := []\<rparr>" alive] t by (auto simp: table_ok_def)
  have "n = 0" if "map_of (sh_source_counts s') p = Some n" for p n
    using s'(4) that unfolding counts_ok_def by (metis option.simps(5) prefix_count_simps(1))
  then show ?thesis using s' by (simp add: shard_shutdown_def)
qed

theorem shutdown_drains_witness:
  "\<exists>s'. shard_shutdown (\<lambda>_ _. True) idle_shard = Some s' \<and> sh_flows s' = [] \<and>
    fm_active_flows (sh_metrics s') = fm_active_flows (sh_metrics idle_shard) - length (sh_flows idle_shard) \<and>
    (\<forall>p n. map_of (sh_source_counts s') p = Some n \<longrightarrow> n = 0) \<and>
    (\<forall>(k, f) \<in> set (sh_flows idle_shard). fl_visible f \<longrightarrow> fl_id f \<in> closed_ids s')"
  using shutdown_drains [OF idle_shard_ok, of "\<lambda>_ _. True"] by simp

end
