(* ===== verification/Flow_Pressure.thy ===== *)
theory Flow_Pressure
  imports Flow_Properties
begin

text \<open>
  A shard under pressure. \<open>shard_run\<close> is the loop of \<open>shard_loop\<close> in \<open>src/src/flow/mod.rs\<close>, one iteration per
  received packet or timeout. A rejected packet ends its iteration by \<open>continue\<close>, before the timers are looked at.
\<close>

fun shard_run ::
  "flow_config \<Rightarrow> service_registry \<Rightarrow> liveness \<Rightarrow> (flow_env \<times> parsed_packet option) list \<Rightarrow> shard \<Rightarrow> shard option" where
  "shard_run cfg services alive [] s = Some s"
| "shard_run cfg services alive ((env, input) # rest) s =
     Option.bind (shard_step cfg services env alive input s) (shard_run cfg services alive rest)"

lemma rejected_step:
  assumes "max_active_flows cfg \<le> fm_active_flows (sh_metrics s)" and "map_of (sh_flows s) (pkt_key p) = None"
  shows "\<exists>s'. shard_step cfg services env alive (Some p) s = Some s' \<and> sh_flows s' = sh_flows s \<and> sh_timers s' = sh_timers s
    \<and> fm_active_flows (sh_metrics s') = fm_active_flows (sh_metrics s)"
proof -
  define s1 where "s1 = bump_metrics (\<lambda>m. m\<lparr>fm_flow_queue_depth := queue_dequeued (fm_flow_queue_depth m)\<rparr>) s"
  obtain s2 suppressed where ct: "check_tombstone env p s1 = (s2, suppressed)" by fastforce
  then have s2: "sh_flows s2 = sh_flows s" "sh_timers s2 = sh_timers s" "fm_active_flows (sh_metrics s2) = fm_active_flows (sh_metrics s)"
    by (auto simp: check_tombstone_def s1_def Let_def split: if_splits prod.splits)
  then have "new_generation alive p s2 = Some s2" using assms(2) by (simp add: new_generation_def)
  moreover obtain s3 where "admit_flow cfg services env p s2 = (s3, None)" "sh_flows s3 = sh_flows s2" "sh_timers s3 = sh_timers s2"
    "fm_active_flows (sh_metrics s3) = fm_active_flows (sh_metrics s2)"
    by (rule that [of "fst (admit_flow cfg services env p s2)"])
      (use s2 assms in \<open>simp_all add: admit_flow_def try_admit_flow_def prod_eq_iff\<close>)
  ultimately show ?thesis
    using ct s2 by (cases suppressed) (auto simp: shard_step_def handle_packet_def Let_def simp flip: s1_def)
qed

text \<open>C36: Rejected packets postpone the expiry of idle flows. While as many flows are active as allowed, any number of
  packets of unknown flows, received one after the other without a pause, leaves the table and the timers of a shard as
  they are, however much time passes: a flow whose idle timeout is long over keeps its place, and the newcomers
  are rejected for want of it.\<close>

theorem rejected_flood_stalls_expiry:
  assumes "max_active_flows cfg \<le> fm_active_flows (sh_metrics s)"
    and "list_all (\<lambda>(env, p). map_of (sh_flows s) (pkt_key p) = None) packets"
  shows "\<exists>s'. shard_run cfg services alive (map (\<lambda>(env, p). (env, Some p)) packets) s = Some s'
    \<and> sh_flows s' = sh_flows s \<and> sh_timers s' = sh_timers s"
  using assms
proof (induction packets arbitrary: s)
  case (Cons x packets)
  obtain env p where x: "x = (env, p)" by fastforce
  from rejected_step [OF Cons.prems(1), of p services env alive] Cons.prems x obtain s1 where
    s1: "shard_step cfg services env alive (Some p) s = Some s1" "sh_flows s1 = sh_flows s" "sh_timers s1 = sh_timers s"
      "fm_active_flows (sh_metrics s1) = fm_active_flows (sh_metrics s)" by auto
  with Cons.IH [of s1] Cons.prems x show ?case by simp
qed simp

definition stranger :: parsed_packet where
  "stranger = example_packet\<lparr>pkt_key := example_flow_key\<lparr>key_protocol := Udp\<rparr>\<rparr>"

lemma idle_shard_flows: "map fst (sh_flows idle_shard) = [example_flow_key]" "fm_active_flows (sh_metrics idle_shard) = 1"
  by (simp_all add: idle_shard_def flow_eval example_defs reassembly_eval)

text \<open>Two strangers, long after the idle timeout of the one flow that a shard for one flow holds.\<close>

theorem rejected_flood_stalls_expiry_witness:
  "\<exists>s'. shard_run (example_cfg\<lparr>max_active_flows := 1\<rparr>) example_registry (\<lambda>_ _. True)
      [(late_env, Some stranger), (late_env\<lparr>fe_expiry := 900\<rparr>, Some stranger)] idle_shard = Some s'
    \<and> map fst (sh_flows s') = [example_flow_key]"
proof -
  have "map_of (sh_flows idle_shard) (pkt_key stranger) = None"
    using idle_shard_flows(1) by (auto simp: map_of_eq_None_iff stranger_def example_flow_key_def simp flip: set_map)
  then show ?thesis
    using rejected_flood_stalls_expiry [of "example_cfg\<lparr>max_active_flows := 1\<rparr>" idle_shard
        "[(late_env, stranger), (late_env\<lparr>fe_expiry := 900\<rparr>, stranger)]" example_registry "\<lambda>_ _. True"] idle_shard_flows
    by auto
qed

end
