(* ===== verification/Segment_Codec.thy ===== *)
theory Segment_Codec
  imports Bazalt_Model Rust_Text
begin

unbundle bit_operations_syntax

text \<open>
  The record format of the payload segments, from \<open>src/src/storage/segment.rs\<close>: the segment header, the
  record envelope (magic, length, CRC), the record encoding, the strict reader and the crash recovery of
  the newest segment.

  A file is its list of bytes, a reader a file with a position. A call that returns \<open>Result\<close> is a value of
  a sum type, \<open>Inl\<close> the error; the text of an error message is reduced to its constructor. The CRC of the
  crate \<open>crc32fast\<close> is the argument \<open>crc\<close>, a function of all the bytes fed to the hasher; nothing is
  assumed about it. A Rust \<open>String\<close> is the list of its UTF-8 bytes, one \<open>char\<close> per byte. File operations
  themselves do not fail here: an I/O error of the operating system is not modelled, a crash is (a file
  cut off at any byte).
\<close>

subsection \<open>Errors\<close>

datatype seg_error =
    BadSegmentMagic | UnsupportedVersion u32
  | ServiceNameTooLong | ContentRecordTooLarge | RecordLimitExceeded nat
  | DiskBudgetExhausted nat nat | DiskBudgetRotating | DiskBudgetRotation nat
  | StoreOverBudget nat | NameCollision
  | RecordTooShort | TruncatedField | BadUuid | BadDirection | BadView | UnexpectedTrailer
  | PartialRecordHeader | BadRecordMagic | RecordLengthMax nat | RecordLengthFile nat
  | UnexpectedEof | CrcMismatch | InvalidEncoding seg_error | RecordMissing
  | CorruptAt nat seg_error | OutsideStore | CannotCanonicalize | CannotOpen
  | MetadataStopped | WriterStopped

subsection \<open>Little-endian integers and UUIDs\<close>

definition le_octets :: "nat \<Rightarrow> 'a::len word \<Rightarrow> bytes" where
  "le_octets n w = map (\<lambda>i. ucast (drop_bit (8 * i) w)) [0..<n]"

definition le_word :: "bytes \<Rightarrow> 'a::len word" where
  "le_word bs = foldr (\<lambda>b acc. push_bit 8 acc OR ucast b) bs 0"

definition uuid_as_bytes :: "uuid \<Rightarrow> bytes" where
  "uuid_as_bytes u = be_octets 16 u"

definition uuid_from_slice :: "bytes \<Rightarrow> seg_error + uuid" where
  "uuid_from_slice bs = (if length bs = 16 then Inr (le_word (rev bs)) else Inl BadUuid)"

subsection \<open>Encoding\<close>

definition seg_magic :: bytes where
  "seg_magic = as_bytes ''PMSEG001''"

abbreviation record_magic :: u32 where "record_magic \<equiv> 0x504d5243"
abbreviation header_size :: nat where "header_size \<equiv> 20"
abbreviation u32_max :: nat where "u32_max \<equiv> 4294967295"

fun direction_to_u8 :: "direction \<Rightarrow> byte" where
  "direction_to_u8 AToB = 0"
| "direction_to_u8 BToA = 1"

definition u8_to_direction :: "byte \<Rightarrow> seg_error + direction" where
  "u8_to_direction v = (if v = 0 then Inr AToB else if v = 1 then Inr BToA else Inl BadDirection)"

fun view_to_u8 :: "content_view \<Rightarrow> byte" where
  "view_to_u8 TcpRaw = 0"
| "view_to_u8 HttpRequestHeaders = 1"
| "view_to_u8 HttpRequestBody = 2"
| "view_to_u8 HttpRequestDecodedBody = 3"
| "view_to_u8 HttpResponseHeaders = 4"
| "view_to_u8 HttpResponseBody = 5"
| "view_to_u8 HttpResponseDecodedBody = 6"

definition u8_to_view :: "byte \<Rightarrow> seg_error + content_view" where
  "u8_to_view v =
     (if v = 0 then Inr TcpRaw else if v = 1 then Inr HttpRequestHeaders
      else if v = 2 then Inr HttpRequestBody else if v = 3 then Inr HttpRequestDecodedBody
      else if v = 4 then Inr HttpResponseHeaders else if v = 5 then Inr HttpResponseBody
      else if v = 6 then Inr HttpResponseDecodedBody else Inl BadView)"

definition service_bytes :: "content_record \<Rightarrow> bytes" where
  "service_bytes r = as_bytes (case cr_service r of None \<Rightarrow> '''' | Some s \<Rightarrow> s)"

definition encode_record_prefix :: "content_record \<Rightarrow> seg_error + bytes" where
  "encode_record_prefix r =
     (let service = service_bytes r in
      if length service > 65535 then Inl ServiceNameTooLong
      else if length (cr_data r) > u32_max then Inl ContentRecordTooLarge
      else Inr (uuid_as_bytes (cr_id r) @ uuid_as_bytes (cr_flow_id r)
        @ le_octets 8 (of_nat (cr_ts_ns r) :: u64)
        @ le_octets 2 (of_nat (length service) :: u16) @ service
        @ [direction_to_u8 (cr_direction r)] @ [view_to_u8 (cr_view r)]
        @ le_octets 8 (of_nat (cr_stream_offset r) :: u64)
        @ le_octets 4 (of_nat (length (cr_data r)) :: u32)))"

definition write_header :: "nat \<Rightarrow> bytes" where
  "write_header now = seg_magic @ le_octets 4 (1 :: u32) @ le_octets 8 (of_nat now :: u64)"

subsection \<open>Decoding\<close>

definition take_field :: "bytes \<Rightarrow> nat \<Rightarrow> seg_error + (bytes \<times> bytes)" where
  "take_field d n = (if length d < n then Inl TruncatedField else Inr (take n d, drop n d))"

definition take_u16 :: "bytes \<Rightarrow> seg_error + (u16 \<times> bytes)" where
  "take_u16 d = and_then (take_field d 2) (\<lambda>(a, d). Inr (le_word a, d))"

definition take_u32 :: "bytes \<Rightarrow> seg_error + (u32 \<times> bytes)" where
  "take_u32 d = and_then (take_field d 4) (\<lambda>(a, d). Inr (le_word a, d))"

definition take_u64 :: "bytes \<Rightarrow> seg_error + (u64 \<times> bytes)" where
  "take_u64 d = and_then (take_field d 8) (\<lambda>(a, d). Inr (le_word a, d))"

definition decode_record :: "bytes \<Rightarrow> seg_error + content_record" where
  "decode_record data =
     (if length data < 16 + 16 + 8 + 2 + 1 + 1 + 8 + 4 then Inl RecordTooShort else
      and_then (take_field data 16) (\<lambda>(id_bytes, data).
      and_then (uuid_from_slice id_bytes) (\<lambda>id.
      and_then (take_field data 16) (\<lambda>(flow_bytes, data).
      and_then (uuid_from_slice flow_bytes) (\<lambda>flow_id.
      and_then (take_u64 data) (\<lambda>(ts_ns, data).
      and_then (take_u16 data) (\<lambda>(service_len, data).
      and_then (take_field data (unat service_len)) (\<lambda>(service_bytes, data).
      let service = (if service_bytes = [] then None else Some (from_utf8_lossy service_bytes)) in
      and_then (take_field data 1) (\<lambda>(b, data).
      and_then (u8_to_direction (hd b)) (\<lambda>direction.
      and_then (take_field data 1) (\<lambda>(b, data).
      and_then (u8_to_view (hd b)) (\<lambda>view.
      and_then (take_u64 data) (\<lambda>(stream_offset, data).
      and_then (take_u32 data) (\<lambda>(len, data).
      and_then (take_field data (unat len)) (\<lambda>(payload, data).
      if data \<noteq> [] then Inl UnexpectedTrailer
      else Inr \<lparr>cr_id = id, cr_flow_id = flow_id, cr_ts_ns = unat ts_ns, cr_service = service,
                cr_direction = direction, cr_view = view, cr_stream_offset = unat stream_offset,
                cr_data = payload\<rparr>)))))))))))))))"

subsection \<open>Reading files\<close>

record reader =
  rd_data :: bytes
  rd_pos :: nat

definition read_some :: "nat \<Rightarrow> reader \<Rightarrow> bytes \<times> reader" where
  "read_some n r = (let got = take n (drop (rd_pos r) (rd_data r))
                    in (got, r\<lparr>rd_pos := rd_pos r + length got\<rparr>))"

definition read_exact :: "nat \<Rightarrow> reader \<Rightarrow> seg_error + (bytes \<times> reader)" where
  "read_exact n r =
     (if rd_pos r + n \<le> length (rd_data r)
      then Inr (bslice (rd_pos r) (rd_pos r + n) (rd_data r), r\<lparr>rd_pos := rd_pos r + n\<rparr>)
      else Inl UnexpectedEof)"

definition read_u32 :: "reader \<Rightarrow> seg_error + (u32 \<times> reader)" where
  "read_u32 r = and_then (read_exact 4 r) (\<lambda>(b, r). Inr (le_word b, r))"

definition read_u64 :: "reader \<Rightarrow> seg_error + (u64 \<times> reader)" where
  "read_u64 r = and_then (read_exact 8 r) (\<lambda>(b, r). Inr (le_word b, r))"

definition read_header :: "reader \<Rightarrow> seg_error + reader" where
  "read_header r =
     and_then (read_exact 8 r) (\<lambda>(magic, r).
     if magic \<noteq> seg_magic then Inl BadSegmentMagic else
     and_then (read_u32 r) (\<lambda>(version, r).
     if version \<noteq> 1 then Inl (UnsupportedVersion version) else
     and_then (read_u64 r) (\<lambda>(created, r). Inr r)))"

text \<open>The loop that fills the 12 bytes of a record header; \<open>None\<close> is a clean end of the file.\<close>

function fill_header :: "bytes \<Rightarrow> reader \<Rightarrow> seg_error + (bytes option \<times> reader)" where
  "fill_header hdr r =
     (if length hdr < 12 then
        (let (got, r) = read_some (12 - length hdr) r in
         if got = [] then (if hdr = [] then Inr (None, r) else Inl PartialRecordHeader)
         else fill_header (hdr @ got) r)
      else Inr (Some hdr, r))"
  by pat_completeness auto
termination
  by (relation "measure (\<lambda>(hdr, r). 12 - length hdr)") (auto simp: read_some_def Let_def)

declare fill_header.simps [simp del]

definition read_record ::
  "(bytes \<Rightarrow> u32) \<Rightarrow> nat \<Rightarrow> nat option \<Rightarrow> reader \<Rightarrow> seg_error + ((content_record \<times> nat) option \<times> reader)" where
  "read_record crc max_record_bytes available_bytes r =
     and_then (fill_header [] r) (\<lambda>(filled, r).
     case filled of None \<Rightarrow> Inr (None, r)
     | Some hdr \<Rightarrow>
       if (le_word (bslice 0 4 hdr) :: u32) \<noteq> record_magic then Inl BadRecordMagic else
       let len = unat (le_word (bslice 4 8 hdr) :: u32) in
       if len > max_record_bytes then Inl (RecordLengthMax len) else
       if (case available_bytes of Some avail \<Rightarrow> sat_add64 12 len > avail | None \<Rightarrow> False)
       then Inl (RecordLengthFile len) else
       let expected_crc = (le_word (bslice 8 12 hdr) :: u32) in
       and_then (read_exact len r) (\<lambda>(payload, r).
       if crc payload \<noteq> expected_crc then Inl CrcMismatch else
       and_then (decode_record payload) (\<lambda>record. Inr (Some (record, 12 + len), r))))"

definition read_record_at :: "(bytes \<Rightarrow> u32) \<Rightarrow> bytes \<Rightarrow> nat \<Rightarrow> nat \<Rightarrow> seg_error + content_record" where
  "read_record_at crc file offset max_record_bytes =
     and_then (read_record crc max_record_bytes (Some (length file - offset))
                 \<lparr>rd_data = file, rd_pos = offset\<rparr>)
       (\<lambda>(found, r). case found of Some (record, _) \<Rightarrow> Inr record | None \<Rightarrow> Inl RecordMissing)"

text \<open>\<open>decode_record\<close> reads one field after the other; a successful read of a record moves the reader.\<close>

lemma fill_header_pos:
  "fill_header hdr r = Inr (Some h, r') \<Longrightarrow>
   rd_pos r' + length hdr = rd_pos r + length h \<and> rd_data r' = rd_data r \<and> (length hdr \<le> 12 \<longrightarrow> length h = 12)"
proof (induction hdr r rule: fill_header.induct)
  case (1 hdr r)
  show ?case
  proof (cases "length hdr < 12")
    case True
    then obtain got r1 where rs: "read_some (12 - length hdr) r = (got, r1)"
      by (cases "read_some (12 - length hdr) r")
    with 1 True show ?thesis
      by (auto simp: fill_header.simps [of hdr r] read_some_def Let_def split: if_splits)
  next
    case False
    with 1 show ?thesis by (auto simp: fill_header.simps [of hdr r])
  qed
qed

lemma read_record_Some_iff:
  "read_record crc mx avail r = Inr (Some (record, n), r') \<longleftrightarrow>
   (\<exists>hdr r1 payload. fill_header [] r = Inr (Some hdr, r1)
      \<and> (le_word (bslice 0 4 hdr) :: u32) = record_magic
      \<and> n = 12 + unat (le_word (bslice 4 8 hdr) :: u32)
      \<and> unat (le_word (bslice 4 8 hdr) :: u32) \<le> mx
      \<and> (\<forall>av. avail = Some av \<longrightarrow> sat_add64 12 (unat (le_word (bslice 4 8 hdr) :: u32)) \<le> av)
      \<and> read_exact (unat (le_word (bslice 4 8 hdr) :: u32)) r1 = Inr (payload, r')
      \<and> crc payload = le_word (bslice 8 12 hdr)
      \<and> decode_record payload = Inr record)"
  (is "?L \<longleftrightarrow> ?R")
proof
  assume ?L
  then obtain filled r1 where f: "fill_header [] r = Inr (filled, r1)"
    by (auto simp: read_record_def and_then_Inr_iff)
  with \<open>?L\<close> obtain hdr where h: "filled = Some hdr"
    by (cases filled) (simp_all add: read_record_def)
  from \<open>?L\<close> [unfolded read_record_def f h Let_def] show ?R
    unfolding f h
    by (cases avail) (auto simp: and_then_Inr_iff not_less split: if_splits)
next
  assume ?R
  then show ?L
    by (cases avail) (auto simp: read_record_def Let_def not_less)
qed

lemma read_record_pos:
  assumes "read_record crc mx avail r = Inr (Some (record, n), r')"
  shows "rd_pos r' = rd_pos r + n \<and> rd_data r' = rd_data r \<and> 12 \<le> n \<and> rd_pos r' \<le> length (rd_data r)"
proof -
  from assms [unfolded read_record_Some_iff] obtain hdr r1 payload where
    f: "fill_header [] r = Inr (Some hdr, r1)"
    and n: "n = 12 + unat (le_word (bslice 4 8 hdr) :: u32)"
    and x: "read_exact (unat (le_word (bslice 4 8 hdr) :: u32)) r1 = Inr (payload, r')"
    by blast
  from fill_header_pos [OF f] n x show ?thesis
    by (auto simp: read_exact_def split: if_splits)
qed

text \<open>
  The loop shared by \<open>scan_path\<close> and \<open>rebuild_index_path\<close>: the visitor \<open>f\<close> gets the offset, the record and
  the bytes consumed; its state survives an error.
\<close>

function scan_records ::
  "(bytes \<Rightarrow> u32) \<Rightarrow> nat \<Rightarrow> (nat \<Rightarrow> content_record \<Rightarrow> nat \<Rightarrow> 's \<Rightarrow> (seg_error + unit) \<times> 's) \<Rightarrow> reader \<Rightarrow> 's
   \<Rightarrow> (seg_error + unit) \<times> 's" where
  "scan_records crc max_record_bytes f r s =
     (case read_record crc max_record_bytes (Some (length (rd_data r) - rd_pos r)) r of
        Inr (Some (record, consumed), r') \<Rightarrow>
          (case f (rd_pos r) record consumed s of
             (Inl e, s) \<Rightarrow> (Inl e, s)
           | (Inr _, s) \<Rightarrow> scan_records crc max_record_bytes f r' s)
      | Inr (None, r') \<Rightarrow> (Inr (), s)
      | Inl e \<Rightarrow> (Inl (CorruptAt (rd_pos r) e), s))"
  by pat_completeness auto
termination
  by (relation "measure (\<lambda>(_, _, _, r, _). length (rd_data r) - rd_pos r)")
    (auto dest!: read_record_pos)

declare scan_records.simps [simp del]

definition scan_path ::
  "(bytes \<Rightarrow> u32) \<Rightarrow> nat \<Rightarrow> bytes \<Rightarrow> (content_record \<Rightarrow> 's \<Rightarrow> (seg_error + unit) \<times> 's) \<Rightarrow> 's \<Rightarrow> (seg_error + nat) \<times> 's" where
  "scan_path crc max_record_bytes file f s =
     (case read_header \<lparr>rd_data = file, rd_pos = 0\<rparr> of
        Inl e \<Rightarrow> (Inl e, s)
      | Inr r \<Rightarrow>
          (case scan_records crc max_record_bytes
                  (\<lambda>_ record consumed (bytes, s). case f record s of (res, s) \<Rightarrow> (res, (bytes + consumed, s)))
                  r (header_size, s) of
             (Inl e, (bytes, s)) \<Rightarrow> (Inl e, s)
           | (Inr _, (bytes, s)) \<Rightarrow> (Inr bytes, s)))"

subsection \<open>Recovery of the newest segment\<close>

datatype recovery = Intact | TruncateTo nat | RemoveFile

function recover_loop :: "(bytes \<Rightarrow> u32) \<Rightarrow> nat \<Rightarrow> reader \<Rightarrow> seg_error + recovery" where
  "recover_loop crc max_record_bytes r =
     (let file_len = length (rd_data r); offset = rd_pos r in
      if offset = file_len then Inr Intact else
      let remaining = file_len - offset in
      if remaining < 12 then Inr (TruncateTo offset) else
      case read_exact 12 r of
        Inl e \<Rightarrow> Inl e
      | Inr (hdr, r1) \<Rightarrow>
        if (le_word (bslice 0 4 hdr) :: u32) \<noteq> record_magic then Inl (CorruptAt offset BadRecordMagic) else
        let len = unat (le_word (bslice 4 8 hdr) :: u32) in
        if len > max_record_bytes then Inl (CorruptAt offset (RecordLengthMax len)) else
        let record_end = sat_add64 (sat_add64 offset 12) len in
        if record_end > file_len then Inr (TruncateTo offset) else
        let expected_crc = (le_word (bslice 8 12 hdr) :: u32) in
        case read_exact len r1 of
          Inl e \<Rightarrow> Inl e
        | Inr (payload, r2) \<Rightarrow>
          if crc payload \<noteq> expected_crc then Inl (CorruptAt offset CrcMismatch) else
          case decode_record payload of
            Inl e \<Rightarrow> Inl (CorruptAt offset (InvalidEncoding e))
          | Inr _ \<Rightarrow> recover_loop crc max_record_bytes r2)"
  by pat_completeness auto
termination
  by (relation "measure (\<lambda>(_, _, r). length (rd_data r) - rd_pos r)")
    (auto simp: read_exact_def split: if_splits)

declare recover_loop.simps [simp del]

definition recover_file :: "(bytes \<Rightarrow> u32) \<Rightarrow> nat \<Rightarrow> bytes \<Rightarrow> seg_error + recovery" where
  "recover_file crc max_record_bytes file =
     (if length file < header_size then Inr RemoveFile
      else and_then (read_header \<lparr>rd_data = file, rd_pos = 0\<rparr>) (recover_loop crc max_record_bytes))"

end
