(* ===== verification/Segment_Store.thy ===== *)
theory Segment_Store
  imports Segment_Codec "HOL-Library.Char_ord"
begin

text \<open>
  The segment store of \<open>src/src/storage/segment.rs\<close>: the file operations it uses, \<open>ActiveWriter\<close>, the
  publication of index rows, the loop of the writer thread, start-up, and the operations on sealed
  segments.

  The file system maps paths (lists of components) to files; a file knows how many of its bytes have been
  synced, which is what a crash cannot take back. The standard library's \<open>BufWriter\<close> is written out, with
  its spills and with \<open>stream_position\<close>, which flushes. The channel into the metadata writer is
  \<open>meta_sink\<close>: the rows it accepted, how many of them a durable barrier covers, and after how many more
  commands it stops (\<open>None\<close>: never). The commands the writer thread receives, in order, are the argument of
  \<open>seg_loop\<close>; the clock, the random part of a file name and the queue length come with each of them.
\<close>

subsection \<open>Files\<close>

record fs_file =
  f_data :: bytes
  f_synced :: nat

type_synonym file_system = "(path \<times> fs_file) list"

definition fs_append :: "path \<Rightarrow> bytes \<Rightarrow> file_system \<Rightarrow> file_system" where
  "fs_append p data fs =
     (case map_of fs p of None \<Rightarrow> fs | Some f \<Rightarrow> AList.update p (f\<lparr>f_data := f_data f @ data\<rparr>) fs)"

definition fs_sync :: "path \<Rightarrow> file_system \<Rightarrow> file_system" where
  "fs_sync p fs =
     (case map_of fs p of None \<Rightarrow> fs | Some f \<Rightarrow> AList.update p (f\<lparr>f_synced := length (f_data f)\<rparr>) fs)"

definition set_len :: "path \<Rightarrow> nat \<Rightarrow> file_system \<Rightarrow> file_system" where
  "set_len p n fs =
     (case map_of fs p of None \<Rightarrow> fs
      | Some f \<Rightarrow> AList.update p (f\<lparr>f_data := take n (f_data f), f_synced := min (f_synced f) n\<rparr>) fs)"

definition read_dir :: "path \<Rightarrow> file_system \<Rightarrow> path list" where
  "read_dir root fs = filter (\<lambda>p. p \<noteq> [] \<and> butlast p = root) (map fst fs)"

definition extension_of :: "string \<Rightarrow> string option" where
  "extension_of name =
     (let r = rev name; front = dropWhile (\<lambda>c. c \<noteq> CHR ''.'') r
      in if length front \<le> 1 then None else Some (rev (takeWhile (\<lambda>c. c \<noteq> CHR ''.'') r)))"

definition list_segments :: "path \<Rightarrow> file_system \<Rightarrow> path list" where
  "list_segments root fs = sort (filter (\<lambda>p. extension_of (last p) = Some ''seg'') (read_dir root fs))"

definition latest_segment_path :: "path \<Rightarrow> file_system \<Rightarrow> path option" where
  "latest_segment_path root fs =
     (let paths = list_segments root fs in if paths = [] then None else Some (last paths))"

definition file_len :: "file_system \<Rightarrow> path \<Rightarrow> nat" where
  "file_len fs p = (case map_of fs p of None \<Rightarrow> 0 | Some f \<Rightarrow> length (f_data f))"

definition directory_bytes :: "path \<Rightarrow> file_system \<Rightarrow> nat" where
  "directory_bytes root fs = fold (\<lambda>p acc. sat_add64 acc (file_len fs p)) (read_dir root fs) 0"

record seg_env =
  se_stamp :: string
  se_uuid_text :: string
  se_now_ns :: nat
  se_rx_len :: nat

definition create_segment :: "seg_env \<Rightarrow> path \<Rightarrow> file_system \<Rightarrow> seg_error + (path \<times> file_system)" where
  "create_segment env root fs =
     (let name = ''segment-'' @ se_stamp env @ ''-'' @ se_uuid_text env @ ''.seg'';
          p = root @ [name]
      in if map_of fs p \<noteq> None then Inl NameCollision
         else Inr (p, AList.update p \<lparr>f_data = [], f_synced = 0\<rparr> fs))"

subsection \<open>The active writer\<close>

record active_writer =
  aw_root :: path
  aw_max_bytes :: nat
  aw_max_record_bytes :: nat
  aw_buf :: bytes
  aw_path :: path
  aw_bytes :: nat
  aw_retained_bytes :: nat
  aw_store_max_bytes :: nat

abbreviation bw_capacity :: nat where "bw_capacity \<equiv> 4194304"

definition bw_flush :: "active_writer \<Rightarrow> file_system \<Rightarrow> active_writer \<times> file_system" where
  "bw_flush w fs = (w\<lparr>aw_buf := []\<rparr>, fs_append (aw_path w) (aw_buf w) fs)"

definition bw_write_all :: "bytes \<Rightarrow> active_writer \<times> file_system \<Rightarrow> active_writer \<times> file_system" where
  "bw_write_all data = (\<lambda>(w, fs).
     let spare = bw_capacity - length (aw_buf w) in
     if length data < spare then (w\<lparr>aw_buf := aw_buf w @ data\<rparr>, fs)
     else let (w, fs) = (if length data > spare then bw_flush w fs else (w, fs)) in
       if length data \<ge> bw_capacity then (w, fs_append (aw_path w) data fs)
       else (w\<lparr>aw_buf := aw_buf w @ data\<rparr>, fs))"

definition stream_position :: "active_writer \<times> file_system \<Rightarrow> nat \<times> active_writer \<times> file_system" where
  "stream_position = (\<lambda>(w, fs). let (w, fs) = bw_flush w fs in (file_len fs (aw_path w), w, fs))"

definition new_writer ::
  "seg_env \<Rightarrow> path \<Rightarrow> nat \<Rightarrow> nat \<Rightarrow> nat \<Rightarrow> nat \<Rightarrow> file_system \<Rightarrow> seg_error + (active_writer \<times> file_system)" where
  "new_writer env root max_bytes max_record_bytes store_max_bytes retained_bytes fs =
     and_then (create_segment env root fs) (\<lambda>(p, fs).
       Inr (bw_write_all (write_header (se_now_ns env))
         (\<lparr>aw_root = root, aw_max_bytes = max_bytes, aw_max_record_bytes = max_record_bytes,
           aw_buf = [], aw_path = p, aw_bytes = header_size,
           aw_retained_bytes = sat_add64 retained_bytes header_size,
           aw_store_max_bytes = store_max_bytes\<rparr>, fs)))"

definition rotate_after_commit ::
  "seg_env \<Rightarrow> active_writer \<Rightarrow> file_system \<Rightarrow> seg_error + (active_writer \<times> file_system)" where
  "rotate_after_commit env w fs =
     (if sat_add64 (aw_retained_bytes w) header_size > aw_store_max_bytes w then Inl DiskBudgetRotating
      else and_then (create_segment env (aw_root w) fs) (\<lambda>(p, fs).
        let fs = snd (bw_flush w fs) in
        Inr (bw_write_all (write_header (se_now_ns env))
          (w\<lparr>aw_buf := [], aw_path := p, aw_bytes := header_size,
             aw_retained_bytes := sat_add64 (aw_retained_bytes w) header_size\<rparr>, fs))))"

record prepared_record =
  pr_prefix :: bytes
  pr_payload_len :: nat
  pr_encoded_len :: nat

definition prepare_record :: "active_writer \<Rightarrow> content_record \<Rightarrow> seg_error + prepared_record" where
  "prepare_record w record =
     and_then (encode_record_prefix record) (\<lambda>prefix.
       let payload_len = sat_add64 (length prefix) (length (cr_data record)) in
       if payload_len > u32_max then Inl ContentRecordTooLarge
       else if payload_len > aw_max_record_bytes w then Inl (RecordLimitExceeded payload_len)
       else let encoded_len = 12 + payload_len in
         if sat_add64 (aw_retained_bytes w) encoded_len > aw_store_max_bytes w
         then Inl (DiskBudgetExhausted (aw_retained_bytes w) encoded_len)
         else Inr \<lparr>pr_prefix = prefix, pr_payload_len = payload_len, pr_encoded_len = encoded_len\<rparr>)"

definition needs_rotation :: "active_writer \<Rightarrow> nat \<Rightarrow> bool" where
  "needs_rotation w encoded_len \<longleftrightarrow> aw_bytes w > header_size \<and> aw_bytes w + encoded_len > aw_max_bytes w"

definition check_rotation_budget :: "active_writer \<Rightarrow> nat \<Rightarrow> seg_error + unit" where
  "check_rotation_budget w encoded_len =
     (let required = sat_add64 header_size encoded_len in
      if sat_add64 (aw_retained_bytes w) required > aw_store_max_bytes w
      then Inl (DiskBudgetRotation required) else Inr ())"

definition write_prepared ::
  "(bytes \<Rightarrow> u32) \<Rightarrow> content_record \<Rightarrow> prepared_record \<Rightarrow> active_writer \<Rightarrow> file_system
   \<Rightarrow> seg_error + ((path \<times> nat \<times> nat) \<times> active_writer \<times> file_system)" where
  "write_prepared crc record prepared w fs =
     (if sat_add64 (aw_retained_bytes w) (pr_encoded_len prepared) > aw_store_max_bytes w
      then Inl (DiskBudgetExhausted (aw_retained_bytes w) (pr_encoded_len prepared))
      else
        let (offset, wf) = stream_position (w, fs);
            sum = crc (pr_prefix prepared @ cr_data record);
            wf = bw_write_all (le_octets 4 record_magic) wf;
            wf = bw_write_all (le_octets 4 (of_nat (pr_payload_len prepared) :: u32)) wf;
            wf = bw_write_all (le_octets 4 sum) wf;
            wf = bw_write_all (pr_prefix prepared) wf;
            (w, fs) = bw_write_all (cr_data record) wf;
            w = w\<lparr>aw_bytes := aw_bytes w + pr_encoded_len prepared,
                  aw_retained_bytes := sat_add64 (aw_retained_bytes w) (pr_encoded_len prepared)\<rparr>
        in Inr ((aw_path w, offset, pr_encoded_len prepared), w, fs))"

definition writer_flush_visible :: "active_writer \<Rightarrow> file_system \<Rightarrow> active_writer \<times> file_system" where
  "writer_flush_visible w fs = bw_flush w fs"

definition writer_flush_sync :: "active_writer \<Rightarrow> file_system \<Rightarrow> active_writer \<times> file_system" where
  "writer_flush_sync w fs = (let (w, fs) = bw_flush w fs in (w, fs_sync (aw_path w) fs))"

subsection \<open>Publishing index rows\<close>

record meta_sink =
  ms_sent :: "content_index_record list"
  ms_durable :: nat
  ms_room :: "nat option"

definition sink_send :: "content_index_record \<Rightarrow> meta_sink \<Rightarrow> (seg_error + unit) \<times> meta_sink" where
  "sink_send row k =
     (if ms_room k = Some 0 then (Inl MetadataStopped, k)
      else (Inr (), k\<lparr>ms_sent := ms_sent k @ [row], ms_room := map_option (\<lambda>n. n - 1) (ms_room k)\<rparr>))"

definition sink_durable_barrier :: "meta_sink \<Rightarrow> (seg_error + unit) \<times> meta_sink" where
  "sink_durable_barrier k =
     (if ms_room k = Some 0 then (Inl MetadataStopped, k)
      else (Inr (), k\<lparr>ms_durable := length (ms_sent k), ms_room := map_option (\<lambda>n. n - 1) (ms_room k)\<rparr>))"

text \<open>The rows the sink accepts leave \<open>pending\<close>; the ones behind a failed send stay.\<close>

fun publish :: "content_index_record list \<Rightarrow> meta_sink \<Rightarrow> (seg_error + unit) \<times> content_index_record list \<times> meta_sink" where
  "publish [] k = (Inr (), [], k)"
| "publish (row # rows) k =
     (case sink_send row k of
        (Inl e, k) \<Rightarrow> (Inl e, row # rows, k)
      | (Inr _, k) \<Rightarrow> publish rows k)"

record seg_metrics =
  sm_segment_bytes :: u64
  sm_segment_disk_bytes :: nat
  sm_queue_depth :: nat
  sm_queue_high_watermark :: nat
  sm_last_progress_ns :: nat

record seg_thread =
  st_fs :: file_system
  st_writer :: active_writer
  st_pending :: "content_index_record list"
  st_sink :: meta_sink
  st_metrics :: seg_metrics
  st_fatal :: bool

definition flush_and_publish :: "bool \<Rightarrow> seg_thread \<Rightarrow> (seg_error + unit) \<times> seg_thread" where
  "flush_and_publish durable s =
     (let (w, fs) = (if durable then writer_flush_sync (st_writer s) (st_fs s)
                     else writer_flush_visible (st_writer s) (st_fs s));
          (res, pending, k) = publish (st_pending s) (st_sink s)
      in (res, s\<lparr>st_writer := w, st_fs := fs, st_pending := pending, st_sink := k\<rparr>))"

definition commit_and_rotate :: "seg_env \<Rightarrow> seg_thread \<Rightarrow> (seg_error + unit) \<times> seg_thread" where
  "commit_and_rotate env s =
     (case flush_and_publish True s of
        (Inl e, s) \<Rightarrow> (Inl e, s)
      | (Inr _, s) \<Rightarrow>
        (case sink_durable_barrier (st_sink s) of
           (Inl e, k) \<Rightarrow> (Inl e, s\<lparr>st_sink := k\<rparr>)
         | (Inr _, k) \<Rightarrow>
           (case rotate_after_commit env (st_writer s) (st_fs s) of
              Inl e \<Rightarrow> (Inl e, s\<lparr>st_sink := k\<rparr>)
            | Inr (w, fs) \<Rightarrow> (Inr (), s\<lparr>st_sink := k, st_writer := w, st_fs := fs\<rparr>))))"

subsection \<open>The writer thread\<close>

definition observe_queue :: "nat \<Rightarrow> nat \<Rightarrow> nat \<Rightarrow> nat \<times> nat" where
  "observe_queue depth high val = (val, max high val)"

definition index_row :: "content_record \<Rightarrow> path \<Rightarrow> nat \<Rightarrow> content_index_record" where
  "index_row record p offset =
     \<lparr>ci_content_id = cr_id record, ci_flow_id = cr_flow_id record, ci_ts_ns = cr_ts_ns record,
      ci_service = cr_service record, ci_direction = cr_direction record, ci_view = cr_view record,
      ci_stream_offset = cr_stream_offset record, ci_payload_len = min (length (cr_data record)) u32_max,
      ci_segment_path = p, ci_segment_offset = offset\<rparr>"

datatype seg_command = RecordCmd content_record | FlushCmd | SealCmd

datatype seg_event = Received seg_command | RecvTimeout bool | RecvDisconnected

datatype seg_reply = NoReply | FlushReply "seg_error + unit" | SealReply "seg_error + path list"

text \<open>
  What an iteration of the loop decides: \<open>Continue\<close> jumps to the next iteration and skips the test of
  \<open>fatal\<close> at its bottom, \<open>CheckFatal\<close> runs into it, \<open>Break\<close> leaves the loop.
\<close>

datatype loop_exit = Continue | CheckFatal | Break

definition set_fatal :: "seg_thread \<Rightarrow> seg_thread" where
  "set_fatal s = s\<lparr>st_fatal := True\<rparr>"

definition rotate_for :: "seg_env \<Rightarrow> nat \<Rightarrow> seg_thread \<Rightarrow> (seg_error + unit) \<times> seg_thread" where
  "rotate_for env encoded_len s =
     (if needs_rotation (st_writer s) encoded_len then
        (case check_rotation_budget (st_writer s) encoded_len of
           Inl e \<Rightarrow> (Inl e, s)
         | Inr _ \<Rightarrow> commit_and_rotate env s)
      else (Inr (), s))"

definition store_record ::
  "(bytes \<Rightarrow> u32) \<Rightarrow> content_record \<Rightarrow> prepared_record \<Rightarrow> seg_thread \<Rightarrow> seg_thread" where
  "store_record crc record prepared s =
     (case write_prepared crc record prepared (st_writer s) (st_fs s) of
        Inl e \<Rightarrow> set_fatal s
      | Inr ((p, offset, n), w, fs) \<Rightarrow>
          let s = s\<lparr>st_writer := w, st_fs := fs,
                    st_metrics := (st_metrics s)\<lparr>sm_segment_bytes := sm_segment_bytes (st_metrics s) + of_nat n,
                                                 sm_segment_disk_bytes := aw_retained_bytes w\<rparr>,
                    st_pending := st_pending s @ [index_row record p offset]\<rparr>
          in if length (st_pending s) \<ge> 512 then
               (case flush_and_publish False s of
                  (Inl e, s) \<Rightarrow> set_fatal s | (Inr _, s) \<Rightarrow> s)
             else s)"

definition handle_record ::
  "(bytes \<Rightarrow> u32) \<Rightarrow> seg_env \<Rightarrow> content_record \<Rightarrow> seg_thread \<Rightarrow> loop_exit \<times> seg_thread" where
  "handle_record crc env record s =
     (let (depth, high) = observe_queue (sm_queue_depth (st_metrics s)) (sm_queue_high_watermark (st_metrics s))
                            (se_rx_len env);
          s = s\<lparr>st_metrics := (st_metrics s)\<lparr>sm_queue_depth := depth, sm_queue_high_watermark := high\<rparr>\<rparr>
      in case prepare_record (st_writer s) record of
           Inl e \<Rightarrow> (Continue, set_fatal s)
         | Inr prepared \<Rightarrow>
           (case rotate_for env (pr_encoded_len prepared) s of
              (Inl e, s) \<Rightarrow> (Continue, set_fatal s)
            | (Inr _, s) \<Rightarrow> (CheckFatal, store_record crc record prepared s)))"

definition handle_seal :: "seg_env \<Rightarrow> seg_thread \<Rightarrow> (seg_error + path list) \<times> seg_thread" where
  "handle_seal env s =
     (case commit_and_rotate env s of
        (Inl e, s) \<Rightarrow> (Inl e, set_fatal s)
      | (Inr _, s) \<Rightarrow>
          (Inr (filter (\<lambda>p. p \<noteq> aw_path (st_writer s)) (list_segments (aw_root (st_writer s)) (st_fs s))), s))"

definition seg_step ::
  "(bytes \<Rightarrow> u32) \<Rightarrow> seg_env \<Rightarrow> seg_event \<Rightarrow> seg_thread \<Rightarrow> bool \<times> seg_reply \<times> seg_thread" where
  "seg_step crc env ev s =
     (let s = s\<lparr>st_metrics := (st_metrics s)\<lparr>sm_last_progress_ns := se_now_ns env\<rparr>\<rparr>;
          (ex, reply, s) =
            (case ev of
               Received (RecordCmd record) \<Rightarrow>
                 (case handle_record crc env record s of (ex, s) \<Rightarrow> (ex, NoReply, s))
             | Received FlushCmd \<Rightarrow>
                 (case flush_and_publish False s of
                    (Inl e, s) \<Rightarrow> (CheckFatal, FlushReply (Inl e), set_fatal s)
                  | (Inr u, s) \<Rightarrow> (CheckFatal, FlushReply (Inr u), s))
             | Received SealCmd \<Rightarrow>
                 (case handle_seal env s of (res, s) \<Rightarrow> (CheckFatal, SealReply res, s))
             | RecvTimeout stop \<Rightarrow>
                 (let s = (if st_pending s \<noteq> [] then
                             (case flush_and_publish False s of
                                (Inl e, s) \<Rightarrow> set_fatal s | (Inr _, s) \<Rightarrow> s)
                           else s)
                  in (if stop then Break else CheckFatal, NoReply, s))
             | RecvDisconnected \<Rightarrow> (Break, NoReply, s))
      in (case ex of Continue \<Rightarrow> False | CheckFatal \<Rightarrow> st_fatal s | Break \<Rightarrow> True, reply, s))"

text \<open>The loop over the received events and the final flush behind it.\<close>

fun seg_loop ::
  "(bytes \<Rightarrow> u32) \<Rightarrow> (seg_env \<times> seg_event) list \<Rightarrow> seg_thread \<Rightarrow> seg_reply list \<times> bool \<times> seg_thread" where
  "seg_loop crc [] s = ([], False, s)"
| "seg_loop crc ((env, ev) # evs) s =
     (case seg_step crc env ev s of
        (True, reply, s) \<Rightarrow> ([reply], True, snd (flush_and_publish True s))
      | (False, reply, s) \<Rightarrow> (case seg_loop crc evs s of (replies, rest) \<Rightarrow> (reply # replies, rest)))"

subsection \<open>Start-up\<close>

definition recover_last_segment_tail ::
  "(bytes \<Rightarrow> u32) \<Rightarrow> path \<Rightarrow> nat \<Rightarrow> file_system \<Rightarrow> seg_error + file_system" where
  "recover_last_segment_tail crc root max_record_bytes fs =
     (case latest_segment_path root fs of
        None \<Rightarrow> Inr fs
      | Some p \<Rightarrow>
          (case map_of fs p of None \<Rightarrow> Inl CannotOpen
           | Some f \<Rightarrow>
             and_then (recover_file crc max_record_bytes (f_data f)) (\<lambda>d.
               Inr (case d of Intact \<Rightarrow> fs | RemoveFile \<Rightarrow> AList.delete p fs
                    | TruncateTo n \<Rightarrow> fs_sync p (set_len p n fs)))))"

record seg_config =
  cfg_root :: path
  cfg_max_bytes :: nat
  cfg_max_record_bytes :: nat
  cfg_store_max_bytes :: nat

definition open_store ::
  "(bytes \<Rightarrow> u32) \<Rightarrow> seg_env \<Rightarrow> seg_config \<Rightarrow> meta_sink \<Rightarrow> seg_metrics \<Rightarrow> file_system \<Rightarrow> seg_error + seg_thread" where
  "open_store crc env cfg k m fs =
     and_then (recover_last_segment_tail crc (cfg_root cfg) (cfg_max_record_bytes cfg) fs) (\<lambda>fs.
     let retained_bytes = directory_bytes (cfg_root cfg) fs in
     if retained_bytes > cfg_store_max_bytes cfg then Inl (StoreOverBudget retained_bytes) else
     and_then (new_writer env (cfg_root cfg) (cfg_max_bytes cfg) (cfg_max_record_bytes cfg)
                 (cfg_store_max_bytes cfg) retained_bytes fs) (\<lambda>(w, fs).
     Inr \<lparr>st_fs = fs, st_writer = w, st_pending = [], st_sink = k,
          st_metrics = m\<lparr>sm_segment_disk_bytes := retained_bytes\<rparr>, st_fatal = False\<rparr>))"

subsection \<open>Operations on the files\<close>

definition in_store :: "(path \<Rightarrow> path option) \<Rightarrow> path \<Rightarrow> path \<Rightarrow> seg_error + path" where
  "in_store canonicalize root p =
     (case canonicalize root of None \<Rightarrow> Inl CannotCanonicalize
      | Some canonical_root \<Rightarrow>
        (case canonicalize p of None \<Rightarrow> Inl CannotCanonicalize
         | Some canonical_path \<Rightarrow>
           if take (length canonical_root) canonical_path \<noteq> canonical_root then Inl OutsideStore
           else Inr canonical_path))"

definition open_file :: "file_system \<Rightarrow> path \<Rightarrow> seg_error + bytes" where
  "open_file fs p = (case map_of fs p of None \<Rightarrow> Inl CannotOpen | Some f \<Rightarrow> Inr (f_data f))"

definition read_at ::
  "(bytes \<Rightarrow> u32) \<Rightarrow> (path \<Rightarrow> path option) \<Rightarrow> seg_config \<Rightarrow> file_system \<Rightarrow> path \<Rightarrow> nat \<Rightarrow> seg_error + content_record" where
  "read_at crc canonicalize cfg fs p offset =
     and_then (in_store canonicalize (cfg_root cfg) p) (\<lambda>canonical_path.
     and_then (open_file fs canonical_path) (\<lambda>file.
     read_record_at crc file offset (cfg_max_record_bytes cfg)))"

definition read_many_at ::
  "(bytes \<Rightarrow> u32) \<Rightarrow> (path \<Rightarrow> path option) \<Rightarrow> seg_config \<Rightarrow> file_system \<Rightarrow> path \<Rightarrow> nat list
   \<Rightarrow> seg_error + (nat \<times> (seg_error + content_record)) list" where
  "read_many_at crc canonicalize cfg fs p offsets =
     and_then (in_store canonicalize (cfg_root cfg) p) (\<lambda>canonical_path.
     and_then (open_file fs canonical_path) (\<lambda>file.
     Inr (map (\<lambda>offset.
       (offset, and_then (read_record crc (cfg_max_record_bytes cfg) (Some (length file - offset))
                            \<lparr>rd_data = file, rd_pos = offset\<rparr>)
                  (\<lambda>(found, _). case found of Some (record, _) \<Rightarrow> Inr record | None \<Rightarrow> Inl RecordMissing)))
       offsets)))"

definition disk_stats :: "seg_config \<Rightarrow> file_system \<Rightarrow> nat \<times> nat" where
  "disk_stats cfg fs =
     (let paths = list_segments (cfg_root cfg) fs
      in (length paths, fold (\<lambda>p acc. sat_add64 acc (file_len fs p)) paths 0))"

definition age_of_segment :: "(bytes \<Rightarrow> u32) \<Rightarrow> seg_config \<Rightarrow> bytes \<Rightarrow> (seg_error + nat) \<times> nat \<times> nat" where
  "age_of_segment crc cfg file =
     scan_path crc (cfg_max_record_bytes cfg) file
       (\<lambda>record (newest, records). (Inr (), (max newest (cr_ts_ns record), sat_add64 records 1))) (0, 0)"

fun retention_candidates ::
  "(bytes \<Rightarrow> u32) \<Rightarrow> seg_config \<Rightarrow> file_system \<Rightarrow> nat \<Rightarrow> path list \<Rightarrow> seg_error + path list" where
  "retention_candidates crc cfg fs cutoff_ns [] = Inr []"
| "retention_candidates crc cfg fs cutoff_ns (p # ps) =
     and_then (open_file fs p) (\<lambda>file.
       case age_of_segment crc cfg file of
         (Inl e, _) \<Rightarrow> Inl e
       | (Inr _, newest, records) \<Rightarrow>
           and_then (retention_candidates crc cfg fs cutoff_ns ps) (\<lambda>out.
             Inr (if records = 0 \<or> newest < cutoff_ns then p # out else out)))"

fun delete_loop ::
  "(path \<Rightarrow> path option) \<Rightarrow> seg_config \<Rightarrow> path list \<Rightarrow> nat \<times> nat \<Rightarrow> file_system \<Rightarrow> (seg_error + nat \<times> nat) \<times> file_system" where
  "delete_loop canonicalize cfg [] stats fs = (Inr stats, fs)"
| "delete_loop canonicalize cfg (p # ps) stats fs =
     (case in_store canonicalize (cfg_root cfg) p of
        Inl e \<Rightarrow> (Inl e, fs)
      | Inr cpath \<Rightarrow>
          if map_of fs cpath = None then (Inl CannotOpen, fs)
          else delete_loop canonicalize cfg ps
                 (sat_add64 (fst stats) 1, sat_add64 (snd stats) (file_len fs cpath))
                 (AList.delete cpath fs))"

definition delete_segments ::
  "(path \<Rightarrow> path option) \<Rightarrow> seg_config \<Rightarrow> path list \<Rightarrow> file_system \<Rightarrow> (seg_error + nat \<times> nat) \<times> file_system" where
  "delete_segments canonicalize cfg paths fs = delete_loop canonicalize cfg paths (0, 0) fs"

definition rebuild_index_path ::
  "(bytes \<Rightarrow> u32) \<Rightarrow> seg_config \<Rightarrow> file_system \<Rightarrow> path \<Rightarrow> meta_sink \<Rightarrow> (seg_error + nat) \<times> meta_sink" where
  "rebuild_index_path crc cfg fs p k =
     (case open_file fs p of Inl e \<Rightarrow> (Inl e, k)
      | Inr file \<Rightarrow>
        (case read_header \<lparr>rd_data = file, rd_pos = 0\<rparr> of Inl e \<Rightarrow> (Inl (CorruptAt 0 e), k)
         | Inr r \<Rightarrow>
           (case scan_records crc (cfg_max_record_bytes cfg)
                   (\<lambda>offset record _ (cnt, k).
                      case sink_send (index_row record p offset) k of
                        (Inl e, k) \<Rightarrow> (Inl e, (cnt, k))
                      | (Inr u, k) \<Rightarrow> (Inr u, (sat_add64 cnt 1, k))) r (0, k) of
              (Inl e, (cnt, k)) \<Rightarrow> (Inl e, k)
            | (Inr _, (cnt, k)) \<Rightarrow> (Inr cnt, k))))"

fun rebuild_paths ::
  "(bytes \<Rightarrow> u32) \<Rightarrow> seg_config \<Rightarrow> file_system \<Rightarrow> path list \<Rightarrow> nat \<Rightarrow> meta_sink \<Rightarrow> (seg_error + nat) \<times> meta_sink" where
  "rebuild_paths crc cfg fs [] cnt k = (Inr cnt, k)"
| "rebuild_paths crc cfg fs (p # ps) cnt k =
     (case rebuild_index_path crc cfg fs p k of
        (Inl e, k) \<Rightarrow> (Inl e, k)
      | (Inr n, k) \<Rightarrow> rebuild_paths crc cfg fs ps (sat_add64 cnt n) k)"

text \<open>\<open>rebuild_index\<close> starts with a flush command to the writer thread; its reply is the first argument.\<close>

definition rebuild_index ::
  "(bytes \<Rightarrow> u32) \<Rightarrow> seg_config \<Rightarrow> seg_error + unit \<Rightarrow> file_system \<Rightarrow> meta_sink \<Rightarrow> (seg_error + nat) \<times> meta_sink" where
  "rebuild_index crc cfg flush_reply fs k =
     (case flush_reply of Inl e \<Rightarrow> (Inl e, k)
      | Inr _ \<Rightarrow> rebuild_paths crc cfg fs (list_segments (cfg_root cfg) fs) 0 k)"

end
