(* ===== verification/Segment_Roundtrip.thy ===== *)
theory Segment_Roundtrip
  imports Segment_Codec "HOL-Library.Sublist"
begin

unbundle bit_operations_syntax

text \<open>
  Reading back what was written, in the format of \<open>Segment_Codec\<close>: a record decodes to itself, an envelope
  inside a file is read whole, a scan visits the records in order, and recovery of a file cut off at any
  byte keeps exactly the records that are complete.
\<close>

subsection \<open>Integers\<close>

lemma le_octets_Suc: "le_octets (Suc n) w = ucast w # le_octets n (drop_bit 8 w)"
  by (simp add: le_octets_def upt_conv_Cons map_Suc_upt [symmetric] del: upt_Suc)
    (simp add: drop_bit_drop_bit add.commute)

lemma length_le_octets [simp]: "length (le_octets n w) = n"
  by (simp add: le_octets_def)

lemma le_word_Cons: "le_word (b # bs) = push_bit 8 (le_word bs) OR ucast b"
  by (simp add: le_word_def)

lemma le_word_octets_take: "le_word (le_octets n w) = take_bit (8 * n) (w :: 'a::len word)"
proof (induction n arbitrary: w)
  case 0
  then show ?case by (simp add: le_octets_def le_word_def)
next
  case (Suc n)
  show ?case
    unfolding le_octets_Suc le_word_Cons Suc
    by (rule bit_word_eqI) (auto simp: bit_simps)
qed

lemma le_word_octets [simp]:
  "LENGTH('a) \<le> 8 * n \<Longrightarrow> le_word (le_octets n w) = (w :: 'a::len word)"
  by (simp add: le_word_octets_take take_bit_word_eq_self)

lemma rev_be_octets: "rev (be_octets n w) = le_octets n w"
  by (rule nth_equalityI) (simp_all add: be_octets_def le_octets_def rev_nth)

lemma length_uuid_as_bytes [simp]: "length (uuid_as_bytes u) = 16"
  by (simp add: uuid_as_bytes_def)

lemma uuid_roundtrip [simp]: "uuid_from_slice (uuid_as_bytes u) = Inr u"
  by (simp add: uuid_from_slice_def uuid_as_bytes_def rev_be_octets)

subsection \<open>Records\<close>

definition record_ok :: "content_record \<Rightarrow> bool" where
  "record_ok r \<longleftrightarrow> cr_ts_ns r < 2 ^ 64 \<and> cr_stream_offset r < 2 ^ 64 \<and> utf8_valid (service_bytes r)"

text \<open>An empty service name is stored like a missing one.\<close>

definition stored :: "content_record \<Rightarrow> content_record" where
  "stored r = (if cr_service r = Some '''' then r\<lparr>cr_service := None\<rparr> else r)"

lemma stored_stored [simp]: "stored (stored r) = stored r"
  by (simp add: stored_def)

lemma stored_simps [simp]:
  "cr_id (stored r) = cr_id r" "cr_flow_id (stored r) = cr_flow_id r" "cr_ts_ns (stored r) = cr_ts_ns r"
  "cr_direction (stored r) = cr_direction r" "cr_view (stored r) = cr_view r"
  "cr_stream_offset (stored r) = cr_stream_offset r" "cr_data (stored r) = cr_data r"
  by (simp_all add: stored_def)

lemma stored_service:
  "cr_service (stored r) = (if service_bytes r = [] then None else Some (of_bytes (service_bytes r)))"
  by (cases "cr_service r") (simp_all add: stored_def service_bytes_def)

lemma take_field_append: "length a = n \<Longrightarrow> take_field (a @ d) n = Inr (a, d)"
  by (simp add: take_field_def)

lemma take_field_all: "take_field d (length d) = Inr (d, [])"
  by (simp add: take_field_def)

lemma take_field_Cons: "take_field (b # d) 1 = Inr ([b], d)"
  by (simp add: take_field_def)

lemma take_ints [simp]:
  "take_u16 (le_octets 2 w @ d) = Inr (w, d)"
  "take_u32 (le_octets 4 w' @ d) = Inr (w', d)"
  "take_u64 (le_octets 8 w'' @ d) = Inr (w'', d)"
  by (simp_all add: take_u16_def take_u32_def take_u64_def take_field_append)

lemma direction_roundtrip [simp]: "u8_to_direction (direction_to_u8 d) = Inr d"
  by (cases d) (simp_all add: u8_to_direction_def)

lemma view_roundtrip [simp]: "u8_to_view (view_to_u8 v) = Inr v"
  by (cases v) (simp_all add: u8_to_view_def)

lemma decode_encode:
  assumes "encode_record_prefix r = Inr pfx" and ok: "record_ok r"
  shows "decode_record (pfx @ cr_data r) = Inr (stored r)"
proof -
  let ?s = "service_bytes r"
  from assms(1) have s: "length ?s \<le> 65535" and d: "length (cr_data r) \<le> u32_max"
    and p: "pfx @ cr_data r = uuid_as_bytes (cr_id r) @ uuid_as_bytes (cr_flow_id r)
        @ le_octets 8 (of_nat (cr_ts_ns r) :: u64) @ le_octets 2 (of_nat (length ?s) :: u16) @ ?s
        @ direction_to_u8 (cr_direction r) # view_to_u8 (cr_view r)
        # le_octets 8 (of_nat (cr_stream_offset r) :: u64)
        @ le_octets 4 (of_nat (length (cr_data r)) :: u32) @ cr_data r"
    by (auto simp: encode_record_prefix_def Let_def split: if_splits)
  have len: "unat (of_nat (length ?s) :: u16) = length ?s"
    "unat (of_nat (length (cr_data r)) :: u32) = length (cr_data r)"
    "unat (of_nat (cr_ts_ns r) :: u64) = cr_ts_ns r"
    "unat (of_nat (cr_stream_offset r) :: u64) = cr_stream_offset r"
    using s d ok by (simp_all add: unat_of_nat record_ok_def)
  have v: "lossy_bytes ?s = ?s"
    using ok by (intro lossy_valid) (simp add: record_ok_def)
  have "stored r = \<lparr>cr_id = cr_id r, cr_flow_id = cr_flow_id r, cr_ts_ns = cr_ts_ns r,
      cr_service = (if ?s = [] then None else Some (of_bytes ?s)), cr_direction = cr_direction r,
      cr_view = cr_view r, cr_stream_offset = cr_stream_offset r, cr_data = cr_data r\<rparr>"
    by (simp add: stored_service)
  then show ?thesis
    unfolding p decode_record_def
    by (simp add: take_field_append take_field_all take_field_Cons [unfolded One_nat_def] len v from_utf8_lossy_def Let_def)
qed

subsection \<open>Envelopes\<close>

definition envelope :: "(bytes \<Rightarrow> u32) \<Rightarrow> bytes \<Rightarrow> bytes" where
  "envelope crc payload =
     le_octets 4 record_magic @ le_octets 4 (of_nat (length payload) :: u32) @ le_octets 4 (crc payload) @ payload"

definition record_payload :: "content_record \<Rightarrow> bytes" where
  "record_payload r = (case encode_record_prefix r of Inr pfx \<Rightarrow> pfx @ cr_data r | Inl _ \<Rightarrow> [])"

abbreviation record_image :: "(bytes \<Rightarrow> u32) \<Rightarrow> content_record \<Rightarrow> bytes" where
  "record_image crc r \<equiv> envelope crc (record_payload r)"

definition storable :: "nat \<Rightarrow> content_record \<Rightarrow> bool" where
  "storable mx r \<longleftrightarrow> record_ok r \<and> (\<exists>pfx. encode_record_prefix r = Inr pfx)
     \<and> length (record_payload r) \<le> min mx u32_max"

lemma storable_decode: "storable mx r \<Longrightarrow> decode_record (record_payload r) = Inr (stored r)"
  by (auto simp: storable_def record_payload_def decode_encode)

lemma storable_len:
  "storable mx r \<Longrightarrow> length (record_payload r) \<le> mx \<and> length (record_payload r) \<le> u32_max"
  by (simp add: storable_def)

lemma length_envelope [simp]: "length (envelope crc p) = 12 + length p"
  by (simp add: envelope_def)

lemma envelope_header:
  assumes "length p \<le> u32_max"
  shows "(le_word (bslice 0 4 (take 12 (envelope crc p))) :: u32) = record_magic"
    "unat (le_word (bslice 4 8 (take 12 (envelope crc p))) :: u32) = length p"
    "(le_word (bslice 8 12 (take 12 (envelope crc p))) :: u32) = crc p"
proof -
  let ?h = "le_octets 4 record_magic @ le_octets 4 (of_nat (length p) :: u32) @ le_octets 4 (crc p)"
  have t: "take 12 (envelope crc p) = ?h"
    by (simp add: envelope_def)
  have "bslice 0 4 ?h = le_octets 4 record_magic"
    "bslice 4 8 ?h = le_octets 4 (of_nat (length p) :: u32)" "bslice 8 12 ?h = le_octets 4 (crc p)"
    by (simp_all add: bslice_def)
  then show "(le_word (bslice 0 4 (take 12 (envelope crc p))) :: u32) = record_magic"
    "unat (le_word (bslice 4 8 (take 12 (envelope crc p))) :: u32) = length p"
    "(le_word (bslice 8 12 (take 12 (envelope crc p))) :: u32) = crc p"
    using assms by (simp_all add: t unat_of_nat)
qed

lemma fill_header_full:
  assumes "12 \<le> length rest"
  shows "fill_header [] \<lparr>rd_data = pre @ rest, rd_pos = length pre\<rparr>
    = Inr (Some (take 12 rest), \<lparr>rd_data = pre @ rest, rd_pos = length pre + 12\<rparr>)"
  using assms by (subst fill_header.simps) (auto simp: read_some_def fill_header.simps Let_def)

lemma fill_header_end: "fill_header [] \<lparr>rd_data = file, rd_pos = length file\<rparr>
    = Inr (None, \<lparr>rd_data = file, rd_pos = length file\<rparr>)"
  by (simp add: fill_header.simps read_some_def)

lemma read_record_end: "read_record crc mx avail \<lparr>rd_data = file, rd_pos = length file\<rparr>
    = Inr (None, \<lparr>rd_data = file, rd_pos = length file\<rparr>)"
  by (simp add: read_record_def fill_header_end)

lemma read_record_image:
  assumes "storable mx r" and "case avail of None \<Rightarrow> True | Some av \<Rightarrow> 12 + length (record_payload r) \<le> av"
  shows "read_record crc mx avail \<lparr>rd_data = pre @ record_image crc r @ post, rd_pos = length pre\<rparr>
    = Inr (Some (stored r, 12 + length (record_payload r)),
        \<lparr>rd_data = pre @ record_image crc r @ post, rd_pos = length pre + (12 + length (record_payload r))\<rparr>)"
proof -
  let ?p = "record_payload r"
  note len = storable_len [OF assms(1)]
  note h = envelope_header [OF conjunct2 [OF len], of crc]
  have x: "read_exact (length ?p) \<lparr>rd_data = pre @ record_image crc r @ post, rd_pos = length pre + 12\<rparr>
    = Inr (?p, \<lparr>rd_data = pre @ record_image crc r @ post, rd_pos = length pre + (12 + length ?p)\<rparr>)"
    by (simp add: read_exact_def bslice_def envelope_def)
  have "sat_add64 12 (length ?p) = 12 + length ?p"
    using len by (simp add: sat_add64_def)
  with assms(2) have "\<forall>av. avail = Some av \<longrightarrow> sat_add64 12 (length ?p) \<le> av"
    by (auto split: option.splits)
  then show ?thesis
    unfolding read_record_Some_iff
    using len h x
    by (intro exI [of _ "take 12 (record_image crc r)"]
        exI [of _ "\<lparr>rd_data = pre @ record_image crc r @ post, rd_pos = length pre + 12\<rparr>"] exI [of _ ?p] conjI)
      (simp_all add: fill_header_full storable_decode [OF assms(1)])
qed

corollary read_record_at_image:
  assumes "storable mx r"
  shows "read_record_at crc (pre @ record_image crc r @ post) (length pre) mx = Inr (stored r)"
  by (simp add: read_record_at_def read_record_image [OF assms])

subsection \<open>Segments\<close>

lemma length_write_header [simp]: "length (write_header now) = header_size"
  by (simp add: write_header_def seg_magic_def)

lemma read_header_image:
  "read_header \<lparr>rd_data = write_header now @ rest, rd_pos = 0\<rparr>
    = Inr \<lparr>rd_data = write_header now @ rest, rd_pos = header_size\<rparr>"
  by (simp add: read_header_def read_exact_def read_u32_def read_u64_def bslice_def write_header_def
      seg_magic_def)

abbreviation records_image :: "(bytes \<Rightarrow> u32) \<Rightarrow> content_record list \<Rightarrow> bytes" where
  "records_image crc rs \<equiv> concat (map (record_image crc) rs)"

definition segment_image :: "(bytes \<Rightarrow> u32) \<Rightarrow> nat \<Rightarrow> content_record list \<Rightarrow> bytes" where
  "segment_image crc now rs = write_header now @ records_image crc rs"

text \<open>The records with their offsets, as the index and the scans see them.\<close>

fun located :: "nat \<Rightarrow> content_record list \<Rightarrow> (nat \<times> content_record) list" where
  "located off [] = []"
| "located off (r # rs) = (off, r) # located (off + (12 + length (record_payload r))) rs"

lemma located_append:
  "located off (rs @ qs) = located off rs @ located (off + length (records_image crc rs)) qs"
  by (induction rs arbitrary: off) (simp_all add: add.assoc)

lemma map_snd_located [simp]: "map snd (located off rs) = rs"
  by (induction rs arbitrary: off) simp_all

lemma located_read:
  assumes "(off, r) \<in> set (located (length pre) rs)" and "\<forall>r \<in> set rs. storable mx r"
  shows "read_record_at crc (pre @ records_image crc rs @ post) off mx = Inr (stored r)"
  using assms
proof (induction rs arbitrary: pre)
  case (Cons q rs)
  from Cons.prems(1) consider "off = length pre" "r = q"
    | "(off, r) \<in> set (located (length (pre @ record_image crc q)) rs)"
    by auto
  then show ?case
  proof cases
    case 1
    with Cons.prems(2) show ?thesis by (simp add: read_record_at_image)
  next
    case 2
    from Cons.IH [OF 2] Cons.prems(2) show ?thesis by simp
  qed
qed simp

text \<open>A scan is a fold over the located records.\<close>

fun visit :: "(nat \<Rightarrow> content_record \<Rightarrow> nat \<Rightarrow> 's \<Rightarrow> (seg_error + unit) \<times> 's) \<Rightarrow> (nat \<times> content_record) list \<Rightarrow> 's
    \<Rightarrow> (seg_error + unit) \<times> 's" where
  "visit f [] s = (Inr (), s)"
| "visit f ((off, r) # rs) s =
     (case f off (stored r) (12 + length (record_payload r)) s of
        (Inl e, s) \<Rightarrow> (Inl e, s) | (Inr _, s) \<Rightarrow> visit f rs s)"

lemma scan_records_image:
  assumes "\<forall>r \<in> set rs. storable mx r"
  shows "scan_records crc mx f \<lparr>rd_data = pre @ records_image crc rs, rd_pos = length pre\<rparr> s
    = visit f (located (length pre) rs) s"
  using assms
proof (induction rs arbitrary: pre s)
  case Nil
  then show ?case
    by (subst scan_records.simps) (simp add: read_record_end)
next
  case (Cons r rs)
  have "length pre + (12 + length (record_payload r)) = length (pre @ record_image crc r)"
    by simp
  then have IH: "scan_records crc mx f \<lparr>rd_data = pre @ record_image crc r @ records_image crc rs,
        rd_pos = length pre + (12 + length (record_payload r))\<rparr> s
      = visit f (located (length pre + (12 + length (record_payload r))) rs) s" for s
    using Cons.IH [of "pre @ record_image crc r" s] Cons.prems by simp
  have "storable mx r"
    using Cons.prems by simp
  then have rd: "read_record crc mx (Some (length (pre @ record_image crc r @ records_image crc rs) - length pre))
      \<lparr>rd_data = pre @ record_image crc r @ records_image crc rs, rd_pos = length pre\<rparr>
    = Inr (Some (stored r, 12 + length (record_payload r)), \<lparr>rd_data = pre @ record_image crc r @ records_image crc rs,
        rd_pos = length pre + (12 + length (record_payload r))\<rparr>)"
    by (rule read_record_image) simp
  obtain res s' where v: "f (length pre) (stored r) (12 + length (record_payload r)) s = (res, s')"
    by (cases "f (length pre) (stored r) (12 + length (record_payload r)) s")
  show ?case
    unfolding list.map concat.simps located.simps visit.simps
    by (subst scan_records.simps, unfold reader.select_convs rd v)
      (cases res, simp_all add: IH v del: length_append)
qed

subsection \<open>Recovery\<close>

text \<open>The records that are complete within the first \<open>n\<close> bytes after the header.\<close>

fun complete_prefix :: "nat \<Rightarrow> content_record list \<Rightarrow> content_record list" where
  "complete_prefix n [] = []"
| "complete_prefix n (r # rs) =
     (let l = 12 + length (record_payload r)
      in if l \<le> n then r # complete_prefix (n - l) rs else [])"

lemma complete_prefix_prefix: "prefix (complete_prefix n rs) rs"
  by (induction rs arbitrary: n) (simp_all add: Let_def)

lemma complete_prefix_all: "length (records_image crc rs) \<le> n \<Longrightarrow> complete_prefix n rs = rs"
  by (induction rs arbitrary: n) (auto simp: Let_def)

lemma complete_prefix_image:
  "length (records_image crc (complete_prefix n rs)) \<le> n
   \<and> (n \<le> length (records_image crc rs) \<longrightarrow>
      take (length (records_image crc (complete_prefix n rs))) (take n (records_image crc rs))
        = records_image crc (complete_prefix n rs))"
proof (induction rs arbitrary: n)
  case (Cons r rs)
  let ?l = "12 + length (record_payload r)"
  show ?case
  proof (cases "?l \<le> n")
    case True
    with Cons.IH [of "n - ?l"] show ?thesis
      by (auto simp: Let_def)
  qed (simp add: Let_def)
qed simp

definition recovered :: "recovery \<Rightarrow> bytes \<Rightarrow> bytes" where
  "recovered d file = (case d of Intact \<Rightarrow> file | TruncateTo n \<Rightarrow> take n file | RemoveFile \<Rightarrow> [])"

lemma recover_loop_image:
  assumes "\<forall>r \<in> set rs. storable mx r" and "n \<le> length (records_image crc rs)"
    and "length pre + length (records_image crc rs) \<le> u64_max"
  shows "\<exists>d. recover_loop crc mx \<lparr>rd_data = pre @ take n (records_image crc rs), rd_pos = length pre\<rparr> = Inr d
    \<and> recovered d (pre @ take n (records_image crc rs)) = pre @ records_image crc (complete_prefix n rs)
    \<and> d \<noteq> RemoveFile"
  using assms
proof (induction rs arbitrary: pre n)
  case Nil
  then show ?case by (simp add: recover_loop.simps recovered_def)
next
  case (Cons r rs)
  let ?p = "record_payload r"
  let ?l = "12 + length ?p"
  let ?img = "take n (records_image crc (r # rs))"
  let ?rd = "\<lparr>rd_data = pre @ ?img, rd_pos = length pre\<rparr>"
  from Cons.prems(1) have st: "storable mx r" by simp
  note len = storable_len [OF st]
  have n: "length ?img = n" using Cons.prems(2) by simp
  consider (zero) "n = 0" | (small) "0 < n" "n < 12" | (part) "12 \<le> n" "n < ?l" | (full) "?l \<le> n"
    by linarith
  then show ?case
  proof cases
    case zero
    then show ?thesis by (simp add: recover_loop.simps recovered_def)
  next
    case small
    then have "recover_loop crc mx ?rd = Inr (TruncateTo (length pre))"
      using n by (subst recover_loop.simps) (simp add: Let_def)
    with small show ?thesis by (simp add: recovered_def Let_def)
  next
    case part
    have r1: "read_exact 12 ?rd = Inr (take 12 (envelope crc ?p), ?rd\<lparr>rd_pos := length pre + 12\<rparr>)"
      using part Cons.prems(2) by (simp add: read_exact_def bslice_def min_def)
    note h = envelope_header [OF conjunct2 [OF len], of crc]
    have "sat_add64 (sat_add64 (length pre) 12) (length ?p) = length pre + ?l"
      using Cons.prems(3) by (simp add: sat_add64_def)
    with part n r1 h len have "recover_loop crc mx ?rd = Inr (TruncateTo (length pre))"
      by (subst recover_loop.simps) (simp add: Let_def not_less)
    with part show ?thesis by (simp add: recovered_def Let_def)
  next
    case full
    let ?pre = "pre @ record_image crc r"
    have img: "pre @ ?img = ?pre @ take (n - ?l) (records_image crc rs)"
      using full by simp
    have r1: "read_exact 12 ?rd = Inr (take 12 (envelope crc ?p),
        ?rd\<lparr>rd_pos := length pre + 12\<rparr>)"
      using full by (simp add: read_exact_def bslice_def)
    have r2: "read_exact (length ?p) (?rd\<lparr>rd_pos := length pre + 12\<rparr>)
        = Inr (?p, \<lparr>rd_data = ?pre @ take (n - ?l) (records_image crc rs), rd_pos = length ?pre\<rparr>)"
      unfolding img using full by (simp add: read_exact_def bslice_def envelope_def)
    note h = envelope_header [OF conjunct2 [OF len], of crc]
    have sat: "sat_add64 (sat_add64 (length pre) 12) (length ?p) = length pre + ?l"
      using Cons.prems(3) by (simp add: sat_add64_def)
    have "recover_loop crc mx ?rd
        = recover_loop crc mx \<lparr>rd_data = ?pre @ take (n - ?l) (records_image crc rs), rd_pos = length ?pre\<rparr>"
      using full n r1 r2 h len sat storable_decode [OF st]
      by (subst recover_loop.simps) (simp add: Let_def)
    with Cons.IH [of "n - ?l" ?pre] Cons.prems full show ?thesis
      by (simp add: Let_def img)
  qed
qed

text \<open>
  A segment cut off after \<open>n\<close> bytes: without a whole header it is removed, otherwise it becomes the
  segment of exactly the complete records.
\<close>

lemma recover_file_image:
  assumes "\<forall>r \<in> set rs. storable mx r" and "n \<le> length (segment_image crc now rs)"
    and "length (segment_image crc now rs) \<le> u64_max"
  shows "\<exists>d. recover_file crc mx (take n (segment_image crc now rs)) = Inr d
    \<and> (d = RemoveFile \<longleftrightarrow> n < header_size)
    \<and> (header_size \<le> n \<longrightarrow> recovered d (take n (segment_image crc now rs))
          = segment_image crc now (complete_prefix (n - header_size) rs))"
proof (cases "n < header_size")
  case False
  then have t: "take n (segment_image crc now rs) = write_header now @ take (n - header_size) (records_image crc rs)"
    by (simp add: segment_image_def)
  have "n - header_size \<le> length (records_image crc rs)"
    "length (write_header now) + length (records_image crc rs) \<le> u64_max"
    using assms(2,3) by (simp_all add: segment_image_def)
  from recover_loop_image [OF assms(1) this] False show ?thesis
    unfolding t recover_file_def by (auto simp: read_header_image segment_image_def)
qed (use assms(2) in \<open>simp add: recover_file_def\<close>)

end
