(* ===== verification/Segment_Invariant.thy ===== *)
theory Segment_Invariant
  imports Segment_Store Segment_Roundtrip
begin

text \<open>
  The invariant of the segment writer and that every operation of the writer thread keeps it: the sealed
  segments are whole and synced, the active file with its buffer is the image of its records, every index
  row that was published belongs to a record that is already in the file, and the byte account is exact.
\<close>

subsection \<open>Files\<close>

lemma update_same: "map_of al k = Some v \<Longrightarrow> AList.update k v al = al"
  by (induction al) auto

lemma update_twice: "AList.update k v (AList.update k v' al) = AList.update k v al"
  by (induction al) auto

lemma map_of_fs_append:
  "map_of (fs_append p d fs) q
    = (if q = p then map_option (\<lambda>f. f\<lparr>f_data := f_data f @ d\<rparr>) (map_of fs p) else map_of fs q)"
  by (auto simp: fs_append_def AList.update_conv' split: option.splits)

lemma map_of_fs_sync:
  "map_of (fs_sync p fs) q
    = (if q = p then map_option (\<lambda>f. f\<lparr>f_synced := length (f_data f)\<rparr>) (map_of fs p) else map_of fs q)"
  by (auto simp: fs_sync_def AList.update_conv' split: option.splits)

lemma fs_append_Nil [simp]: "fs_append p [] fs = fs"
  by (auto simp: fs_append_def update_same split: option.splits)

lemma fs_append_append: "fs_append p e (fs_append p d fs) = fs_append p (d @ e) fs"
proof (cases "map_of fs p")
  case (Some f)
  then have "map_of (fs_append p d fs) p = Some (f\<lparr>f_data := f_data f @ d\<rparr>)"
    by (simp add: map_of_fs_append)
  with Some show ?thesis
    by (simp add: fs_append_def [of p e] fs_append_def [of p "d @ e"])
      (simp add: fs_append_def update_twice)
qed (simp add: fs_append_def)

lemma distinct_keys_append [simp]: "distinct (map fst (fs_append p d fs)) \<longleftrightarrow> distinct (map fst fs)"
proof (cases "map_of fs p")
  case (Some f)
  then have "p \<in> fst ` set fs"
    by (metis domI dom_map_of_conv_image_fst)
  with Some show ?thesis
    by (simp add: fs_append_def update_keys)
qed (simp add: fs_append_def)

lemma distinct_keys_sync [simp]: "distinct (map fst (fs_sync p fs)) \<longleftrightarrow> distinct (map fst fs)"
proof (cases "map_of fs p")
  case (Some f)
  then have "p \<in> fst ` set fs"
    by (metis domI dom_map_of_conv_image_fst)
  with Some show ?thesis
    by (simp add: fs_sync_def update_keys)
qed (simp add: fs_sync_def)

lemma set_read_dir: "set (read_dir root fs) = {p. map_of fs p \<noteq> None \<and> p \<noteq> [] \<and> butlast p = root}"
proof -
  have "fst ` set fs = {p. map_of fs p \<noteq> None}"
    using dom_map_of_conv_image_fst [of fs] by (auto simp: dom_def)
  then show ?thesis by (auto simp: read_dir_def)
qed

definition dir_size :: "path \<Rightarrow> file_system \<Rightarrow> nat" where
  "dir_size root fs = (\<Sum>p \<in> set (read_dir root fs). file_len fs p)"

lemma file_len_append:
  "map_of fs p = Some f \<Longrightarrow> file_len (fs_append p d fs) q = (if q = p then file_len fs p + length d else file_len fs q)"
  by (simp add: file_len_def map_of_fs_append)

lemma dir_size_append:
  assumes "map_of fs p = Some f" "p \<noteq> []" "butlast p = root"
  shows "dir_size root (fs_append p d fs) = dir_size root fs + length d"
proof -
  let ?D = "set (read_dir root fs)"
  have p: "p \<in> ?D" using assms by (simp add: set_read_dir)
  have D: "set (read_dir root (fs_append p d fs)) = ?D"
    using assms by (auto simp: set_read_dir map_of_fs_append)
  have "(\<Sum>q \<in> ?D. file_len (fs_append p d fs) q) = file_len (fs_append p d fs) p + (\<Sum>q \<in> ?D - {p}. file_len (fs_append p d fs) q)"
    using p by (simp add: sum.remove)
  also have "\<dots> = file_len fs p + length d + (\<Sum>q \<in> ?D - {p}. file_len fs q)"
    using assms(1) by (simp add: file_len_append)
  also have "\<dots> = (\<Sum>q \<in> ?D. file_len fs q) + length d"
    using p by (simp add: sum.remove)
  finally show ?thesis by (simp add: dir_size_def D)
qed

lemma dir_size_sync [simp]: "dir_size root (fs_sync p fs) = dir_size root fs"
proof -
  have "set (read_dir root (fs_sync p fs)) = set (read_dir root fs)"
    by (auto simp: set_read_dir map_of_fs_sync)
  moreover have "file_len (fs_sync p fs) q = file_len fs q" for q
    by (auto simp: file_len_def map_of_fs_sync split: option.splits)
  ultimately show ?thesis by (simp add: dir_size_def)
qed

lemma dir_size_create:
  assumes "map_of fs p = None"
  shows "dir_size root (AList.update p \<lparr>f_data = [], f_synced = 0\<rparr> fs) = dir_size root fs"
proof -
  let ?fs = "AList.update p \<lparr>f_data = [], f_synced = 0\<rparr> fs"
  have len: "file_len ?fs q = file_len fs q" for q
    using assms by (simp add: file_len_def AList.update_conv')
  have sub: "set (read_dir root fs) \<subseteq> set (read_dir root ?fs)"
    by (auto simp: set_read_dir AList.update_conv')
  have "dir_size root ?fs = (\<Sum>q \<in> set (read_dir root ?fs). file_len fs q)"
    by (simp add: dir_size_def len)
  also have "\<dots> = (\<Sum>q \<in> set (read_dir root fs). file_len fs q)"
    by (rule sum.mono_neutral_right [OF List.finite_set sub])
      (auto simp: set_read_dir AList.update_conv' file_len_def split: if_splits option.splits)
  finally show ?thesis by (simp add: dir_size_def)
qed

lemma directory_bytes_eq:
  assumes "distinct (map fst fs)"
  shows "directory_bytes root fs = min (dir_size root fs) u64_max"
proof -
  have "fold (\<lambda>p acc. sat_add64 acc (file_len fs p)) ps n = min (n + (\<Sum>p\<leftarrow>ps. file_len fs p)) u64_max"
    if "n \<le> u64_max" for ps n
    using that by (induction ps arbitrary: n) (simp_all add: sat_add64_def min_def)
  moreover have "(\<Sum>p\<leftarrow>read_dir root fs. file_len fs p) = dir_size root fs"
    using assms by (simp add: dir_size_def read_dir_def sum_list_distinct_conv_sum_set)
  ultimately show ?thesis
    by (simp add: directory_bytes_def)
qed

subsection \<open>The buffered writer\<close>

text \<open>\<open>appended data x x'\<close>: the bytes of the file together with the buffer grew by \<open>data\<close>, nothing else changed.\<close>

definition appended :: "bytes \<Rightarrow> active_writer \<times> file_system \<Rightarrow> active_writer \<times> file_system \<Rightarrow> bool" where
  "appended data x x' \<longleftrightarrow>
     (\<exists>d. fst x' = (fst x)\<lparr>aw_buf := aw_buf (fst x')\<rparr> \<and> snd x' = fs_append (aw_path (fst x)) d (snd x)
        \<and> d @ aw_buf (fst x') = aw_buf (fst x) @ data)"

lemma appended_trans:
  assumes "appended a x y" "appended b y z"
  shows "appended (a @ b) x z"
proof -
  from assms(1) obtain d where d: "fst y = (fst x)\<lparr>aw_buf := aw_buf (fst y)\<rparr>"
    "snd y = fs_append (aw_path (fst x)) d (snd x)" "d @ aw_buf (fst y) = aw_buf (fst x) @ a"
    by (auto simp: appended_def)
  from assms(2) obtain e where e: "fst z = (fst y)\<lparr>aw_buf := aw_buf (fst z)\<rparr>"
    "snd z = fs_append (aw_path (fst y)) e (snd y)" "e @ aw_buf (fst z) = aw_buf (fst y) @ b"
    by (auto simp: appended_def)
  have p: "aw_path (fst y) = aw_path (fst x)"
    by (subst d(1)) simp
  have "fst z = (fst x)\<lparr>aw_buf := aw_buf (fst z)\<rparr>"
    by (subst e(1), subst d(1)) simp
  moreover have "snd z = fs_append (aw_path (fst x)) (d @ e) (snd x)"
    by (simp add: e(2) p d(2) fs_append_append)
  moreover have "(d @ e) @ aw_buf (fst z) = aw_buf (fst x) @ (a @ b)"
    using d(3) e(3) by (metis append.assoc)
  ultimately show ?thesis
    unfolding appended_def by blast
qed

lemma appended_flush: "appended [] (w, fs) (bw_flush w fs)"
  by (auto simp: appended_def bw_flush_def)

lemma appended_buffer: "appended data (w, fs) (w\<lparr>aw_buf := aw_buf w @ data\<rparr>, fs)"
  by (auto simp: appended_def intro: exI [of _ "[]"])

lemma appended_direct: "aw_buf w = [] \<Longrightarrow> appended data (w, fs) (w, fs_append (aw_path w) data fs)"
  by (auto simp: appended_def intro!: exI [of _ data])

lemma bw_write_all_appended: "appended data x (bw_write_all data x)"
proof -
  obtain w fs where x: "x = (w, fs)" by (cases x)
  let ?spare = "bw_capacity - length (aw_buf w)"
  obtain w1 fs1 where fl: "bw_flush w fs = (w1, fs1)" by (cases "bw_flush w fs")
  have b1: "aw_buf w1 = []" using fl by (auto simp: bw_flush_def)
  have a1: "appended [] (w, fs) (w1, fs1)" using appended_flush [of w fs] by (simp add: fl)
  consider "length data < ?spare" | "length data = ?spare" "length data < bw_capacity"
    | "length data = ?spare" "\<not> length data < bw_capacity"
    | "length data > ?spare" by linarith
  then show ?thesis
  proof cases
    case 1
    then show ?thesis by (simp add: x bw_write_all_def Let_def appended_buffer)
  next
    case 2
    then show ?thesis by (simp add: x bw_write_all_def Let_def appended_buffer)
  next
    case 3
    then have "aw_buf w = []"
      by (cases "aw_buf w") simp_all
    with 3 show ?thesis by (simp add: x bw_write_all_def Let_def appended_direct)
  next
    case 4
    have "appended data (w1, fs1) (if length data \<ge> bw_capacity then (w1, fs_append (aw_path w1) data fs1)
        else (w1\<lparr>aw_buf := aw_buf w1 @ data\<rparr>, fs1))"
      by (simp add: appended_direct b1) (use appended_buffer [of data w1 fs1] b1 in simp)
    from appended_trans [OF a1 this] 4 show ?thesis
      by (simp add: x bw_write_all_def Let_def fl)
  qed
qed

subsection \<open>The invariant on disk\<close>

definition whole_file :: "(bytes \<Rightarrow> u32) \<Rightarrow> nat \<Rightarrow> content_record list \<Rightarrow> fs_file" where
  "whole_file crc t rs = \<lparr>f_data = segment_image crc t rs, f_synced = length (segment_image crc t rs)\<rparr>"

text \<open>
  \<open>store_rep crc w fs olds now rs1 rs2\<close>: \<open>olds\<close> are the segments this writer has sealed (path, creation
  time, records), the active segment was created at \<open>now\<close> and holds the records \<open>rs1 @ rs2\<close>, of which \<open>rs1\<close>
  have left the buffer.
\<close>

definition active_rep :: "(bytes \<Rightarrow> u32) \<Rightarrow> active_writer \<Rightarrow> file_system \<Rightarrow> nat \<Rightarrow> content_record list \<Rightarrow> content_record list \<Rightarrow> bool" where
  "active_rep crc w fs now rs1 rs2 \<longleftrightarrow>
     (\<exists>f. map_of fs (aw_path w) = Some f \<and> f_data f @ aw_buf w = segment_image crc now (rs1 @ rs2)
        \<and> f_synced f \<le> length (f_data f)
        \<and> (rs1 = [] \<or> length (segment_image crc now rs1) \<le> length (f_data f)))"

definition segment_name :: "path \<Rightarrow> path \<Rightarrow> bool" where
  "segment_name root p \<longleftrightarrow> p \<noteq> [] \<and> butlast p = root \<and> extension_of (last p) = Some ''seg''"

lemma segment_nameD: "segment_name root p \<Longrightarrow> p \<noteq> []" "segment_name root p \<Longrightarrow> butlast p = root"
  by (simp_all add: segment_name_def)

lemma created_name: "extension_of (''segment-'' @ a @ ''-'' @ b @ ''.seg'') = Some ''seg''"
  by (simp add: extension_of_def Let_def)

lemma set_list_segments: "set (list_segments root fs) = {p. segment_name root p \<and> map_of fs p \<noteq> None}"
  by (auto simp: list_segments_def set_read_dir segment_name_def)

definition sealed_rep :: "(bytes \<Rightarrow> u32) \<Rightarrow> active_writer \<Rightarrow> file_system \<Rightarrow> (path \<times> nat \<times> content_record list) list \<Rightarrow> bool" where
  "sealed_rep crc w fs olds \<longleftrightarrow>
     (\<forall>(p, t, rs) \<in> set olds. p \<noteq> aw_path w \<and> segment_name (aw_root w) p \<and> map_of fs p = Some (whole_file crc t rs)
        \<and> (\<forall>r \<in> set rs. storable (aw_max_record_bytes w) r))"

definition account_ok :: "active_writer \<Rightarrow> file_system \<Rightarrow> bool" where
  "account_ok w fs \<longleftrightarrow> aw_retained_bytes w = dir_size (aw_root w) fs + length (aw_buf w)
     \<and> aw_retained_bytes w \<le> aw_store_max_bytes w + header_size \<and> aw_store_max_bytes w + header_size \<le> u64_max"

definition store_rep ::
  "(bytes \<Rightarrow> u32) \<Rightarrow> active_writer \<Rightarrow> file_system \<Rightarrow> (path \<times> nat \<times> content_record list) list \<Rightarrow> nat
   \<Rightarrow> content_record list \<Rightarrow> content_record list \<Rightarrow> bool" where
  "store_rep crc w fs olds now rs1 rs2 \<longleftrightarrow>
     distinct (map fst fs) \<and> segment_name (aw_root w) (aw_path w)
     \<and> sealed_rep crc w fs olds \<and> active_rep crc w fs now rs1 rs2
     \<and> (\<forall>r \<in> set (rs1 @ rs2). storable (aw_max_record_bytes w) r)
     \<and> aw_bytes w = length (segment_image crc now (rs1 @ rs2)) \<and> account_ok w fs"

lemma appendedE:
  assumes "appended data (w, fs) (w', fs')"
  obtains d b where "w' = w\<lparr>aw_buf := b\<rparr>" "fs' = fs_append (aw_path w) d fs" "d @ b = aw_buf w @ data"
  using assms by (auto simp: appended_def)

lemma sealed_rep_append:
  "sealed_rep crc w fs olds \<Longrightarrow> sealed_rep crc (w\<lparr>aw_buf := b\<rparr>) (fs_append (aw_path w) d fs) olds"
  by (auto simp: sealed_rep_def map_of_fs_append)

lemma account_append:
  assumes "account_ok w fs" "map_of fs (aw_path w) = Some f" "aw_path w \<noteq> []" "butlast (aw_path w) = aw_root w"
    and "d @ b = aw_buf w @ data"
  shows "dir_size (aw_root w) (fs_append (aw_path w) d fs) + length b = aw_retained_bytes w + length data"
proof -
  have "dir_size (aw_root w) (fs_append (aw_path w) d fs) = dir_size (aw_root w) fs + length d"
    using assms(2-4) by (rule dir_size_append)
  moreover have "length d + length b = length (aw_buf w) + length data"
    using assms(5) by (metis length_append)
  ultimately show ?thesis
    using assms(1) by (simp add: account_ok_def)
qed

lemma length_segment_image: "length (segment_image crc now rs) = header_size + length (records_image crc rs)"
  by (simp add: segment_image_def)

lemma segment_image_append:
  "segment_image crc now (rs @ qs) = segment_image crc now rs @ records_image crc qs"
  by (simp add: segment_image_def)

lemma active_rep_append:
  assumes "active_rep crc w fs now rs1 rs2" "d @ b = aw_buf w @ records_image crc qs"
  shows "active_rep crc (w\<lparr>aw_buf := b\<rparr>) (fs_append (aw_path w) d fs) now rs1 (rs2 @ qs)"
proof -
  from assms(1) obtain f where f: "map_of fs (aw_path w) = Some f"
      "f_data f @ aw_buf w = segment_image crc now (rs1 @ rs2)" "f_synced f \<le> length (f_data f)"
      "rs1 = [] \<or> length (segment_image crc now rs1) \<le> length (f_data f)"
    by (auto simp: active_rep_def)
  have "(f_data f @ d) @ b = segment_image crc now (rs1 @ rs2 @ qs)"
    using f(2) assms(2) by (metis append.assoc segment_image_append)
  with f show ?thesis
    by (auto simp: active_rep_def map_of_fs_append)
qed

text \<open>Writing one record.\<close>

lemma store_rep_write:
  assumes rep: "store_rep crc w fs olds now rs1 rs2"
    and app: "appended (record_image crc r) (w, fs) (w', fs')"
    and st: "storable (aw_max_record_bytes w) r"
    and room: "aw_retained_bytes w + (12 + length (record_payload r)) \<le> aw_store_max_bytes w"
  shows "store_rep crc (w'\<lparr>aw_bytes := aw_bytes w + (12 + length (record_payload r)),
      aw_retained_bytes := aw_retained_bytes w + (12 + length (record_payload r))\<rparr>) fs' olds now rs1 (rs2 @ [r])"
proof -
  from app obtain d b where w': "w' = w\<lparr>aw_buf := b\<rparr>" and fs': "fs' = fs_append (aw_path w) d fs"
    and db: "d @ b = aw_buf w @ record_image crc r"
    by (rule appendedE)
  from rep obtain f where f: "map_of fs (aw_path w) = Some f"
    by (auto simp: store_rep_def active_rep_def)
  have acc: "dir_size (aw_root w) fs' + length b = aw_retained_bytes w + (12 + length (record_payload r))"
    using account_append [OF _ f _ _ db] rep by (simp add: store_rep_def segment_name_def fs')
  have act: "active_rep crc w' fs' now rs1 (rs2 @ [r])"
    using active_rep_append [of crc w fs now rs1 rs2 d b "[r]"] rep db by (simp add: store_rep_def w' fs')
  have old: "sealed_rep crc w' fs' olds"
    using sealed_rep_append rep by (simp add: store_rep_def w' fs')
  have len: "length (segment_image crc now (rs1 @ rs2 @ [r]))
      = length (segment_image crc now (rs1 @ rs2)) + (12 + length (record_payload r))"
    by (simp add: segment_image_def)
  show ?thesis
    using rep acc act old st room
    by (simp add: store_rep_def account_ok_def len w' active_rep_def sealed_rep_def) (simp add: fs')
qed

text \<open>Flushing: any split of the records is good afterwards.\<close>

lemma store_rep_flush:
  assumes rep: "store_rep crc w fs olds now rs1 rs2" and "bw_flush w fs = (w', fs')" and "qs1 @ qs2 = rs1 @ rs2"
  shows "store_rep crc w' fs' olds now qs1 qs2 \<and> aw_buf w' = [] \<and> w' = w\<lparr>aw_buf := []\<rparr>
    \<and> (\<exists>f. map_of fs' (aw_path w) = Some f \<and> f_data f = segment_image crc now (rs1 @ rs2))"
proof -
  have w': "w' = w\<lparr>aw_buf := []\<rparr>" and fs': "fs' = fs_append (aw_path w) (aw_buf w) fs"
    using assms(2) by (auto simp: bw_flush_def)
  from rep obtain f where f: "map_of fs (aw_path w) = Some f"
      "f_data f @ aw_buf w = segment_image crc now (rs1 @ rs2)" "f_synced f \<le> length (f_data f)"
    by (auto simp: store_rep_def active_rep_def)
  let ?f = "f\<lparr>f_data := f_data f @ aw_buf w\<rparr>"
  have f': "map_of fs' (aw_path w) = Some ?f" by (simp add: fs' map_of_fs_append f(1))
  have "length (segment_image crc now qs1) \<le> length (segment_image crc now (rs1 @ rs2))"
    unfolding assms(3) [symmetric] by (simp add: segment_image_append)
  moreover have "f_synced f \<le> length (segment_image crc now (rs1 @ rs2))"
    using f(2,3) by (metis length_append trans_le_add1)
  ultimately have act: "active_rep crc w' fs' now qs1 qs2"
    using f f' assms(3) by (auto simp: active_rep_def w')
  have old: "sealed_rep crc w' fs' olds"
    using sealed_rep_append rep by (simp add: store_rep_def w' fs')
  have acc: "dir_size (aw_root w) fs' = aw_retained_bytes w"
    using account_append [OF _ f(1), of "aw_buf w" "[]" "[]"] rep by (simp add: store_rep_def segment_name_def fs')
  have "set (qs1 @ qs2) = set (rs1 @ rs2)" by (simp only: assms(3))
  then have "store_rep crc w' fs' olds now qs1 qs2"
    unfolding store_rep_def using rep act old acc
    by (simp add: store_rep_def account_ok_def w' assms(3)) (simp add: fs')
  then show ?thesis using f' f(2) by (simp add: w')
qed

lemma store_rep_sync:
  assumes "store_rep crc w fs olds now rs1 rs2"
  shows "store_rep crc w (fs_sync (aw_path w) fs) olds now rs1 rs2"
proof -
  from assms obtain f where "map_of fs (aw_path w) = Some f"
      "f_data f @ aw_buf w = segment_image crc now (rs1 @ rs2)"
      "rs1 = [] \<or> length (segment_image crc now rs1) \<le> length (f_data f)"
    by (auto simp: store_rep_def active_rep_def)
  then have "active_rep crc w (fs_sync (aw_path w) fs) now rs1 rs2"
    by (auto simp: active_rep_def map_of_fs_sync)
  moreover have "sealed_rep crc w (fs_sync (aw_path w) fs) olds"
    using assms by (auto simp: store_rep_def sealed_rep_def map_of_fs_sync)
  ultimately show ?thesis
    using assms by (simp add: store_rep_def account_ok_def)
qed

text \<open>Creating the next segment.\<close>

lemma store_rep_create:
  assumes cr: "create_segment env (aw_root w) fs = Inr (p, fs1)"
    and dk: "distinct (map fst fs)"
    and old: "\<forall>(q, t, rs) \<in> set olds. segment_name (aw_root w) q \<and> map_of fs q = Some (whole_file crc t rs)
        \<and> (\<forall>r \<in> set rs. storable (aw_max_record_bytes w) r)"
    and w1: "aw_buf w1 = []" "aw_path w1 = p" "aw_root w1 = aw_root w"
      "aw_max_record_bytes w1 = aw_max_record_bytes w" "aw_bytes w1 = header_size"
    and acc: "aw_retained_bytes w1 = dir_size (aw_root w) fs + header_size"
      "aw_retained_bytes w1 \<le> aw_store_max_bytes w1 + header_size" "aw_store_max_bytes w1 + header_size \<le> u64_max"
    and wr: "bw_write_all (write_header t) (w1, fs1) = (w', fs')"
  shows "store_rep crc w' fs' olds t [] [] \<and> (\<exists>b. w' = w1\<lparr>aw_buf := b\<rparr>)
    \<and> map_of fs p = None \<and> (\<forall>q. q \<noteq> p \<longrightarrow> map_of fs' q = map_of fs q)"
proof -
  have p: "map_of fs p = None" "p \<noteq> []" "butlast p = aw_root w" "segment_name (aw_root w) p"
    and fs1: "fs1 = AList.update p \<lparr>f_data = [], f_synced = 0\<rparr> fs"
    using cr created_name [of "se_stamp env" "se_uuid_text env"]
    by (auto simp: create_segment_def Let_def segment_name_def simp del: append.simps split: if_splits)
  from bw_write_all_appended [of "write_header t" "(w1, fs1)", unfolded wr]
  obtain d b where w': "w' = w1\<lparr>aw_buf := b\<rparr>" and fs': "fs' = fs_append p d fs1"
    and db: "d @ b = write_header t"
    using w1 by (auto elim: appendedE)
  have m1: "map_of fs1 q = (if q = p then Some \<lparr>f_data = [], f_synced = 0\<rparr> else map_of fs q)" for q
    by (simp add: fs1 AList.update_conv')
  have m': "map_of fs' q = (if q = p then Some \<lparr>f_data = d, f_synced = 0\<rparr> else map_of fs q)" for q
    by (simp add: fs' map_of_fs_append m1)
  have "distinct (map fst fs')"
    using dk by (simp add: fs' fs1 AList.distinct_update)
  moreover have "active_rep crc w' fs' t [] []"
    using w1 by (simp add: active_rep_def m' w' db segment_image_def)
  moreover have "sealed_rep crc w' fs' olds"
    using old p(1) w1 by (fastforce simp: sealed_rep_def m' w')
  moreover have "dir_size (aw_root w) fs' = dir_size (aw_root w) fs + length d"
    using dir_size_append [of fs1 p _ "aw_root w" d] p m1 dir_size_create [OF p(1)]
    by (simp add: fs' fs1)
  moreover have "length d + length b = header_size"
    using arg_cong [OF db, of length] by simp
  ultimately show ?thesis
    using w1 acc p m' by (simp add: store_rep_def account_ok_def w' segment_image_def) blast
qed

subsection \<open>The invariant of the thread\<close>

definition rows :: "path \<Rightarrow> nat \<Rightarrow> content_record list \<Rightarrow> content_index_record list" where
  "rows p off rs = map (\<lambda>(o', r). index_row r p o') (located off rs)"

definition sealed_rows :: "(path \<times> nat \<times> content_record list) list \<Rightarrow> content_index_record list" where
  "sealed_rows olds = concat (map (\<lambda>(p, t, rs). rows p header_size rs) olds)"

definition sealed_records :: "(path \<times> nat \<times> content_record list) list \<Rightarrow> content_record list" where
  "sealed_records olds = concat (map (\<lambda>(p, t, rs). rs) olds)"

text \<open>
  \<open>base\<close> are the rows the sink had accepted before this writer started, \<open>recs\<close> the records received so
  far: a record is missing on disk only after a fatal error.
\<close>

definition seg_rep ::
  "(bytes \<Rightarrow> u32) \<Rightarrow> content_index_record list \<Rightarrow> content_record list \<Rightarrow> seg_thread
   \<Rightarrow> (path \<times> nat \<times> content_record list) list \<Rightarrow> nat \<Rightarrow> content_record list \<Rightarrow> content_record list \<Rightarrow> bool" where
  "seg_rep crc base recs s olds now rs1 rs2 \<longleftrightarrow>
     store_rep crc (st_writer s) (st_fs s) olds now rs1 rs2
     \<and> ms_sent (st_sink s) = base @ sealed_rows olds @ rows (aw_path (st_writer s)) header_size rs1
     \<and> st_pending s = rows (aw_path (st_writer s)) (length (segment_image crc now rs1)) rs2
     \<and> (olds \<noteq> [] \<longrightarrow> length (base @ sealed_rows olds) \<le> ms_durable (st_sink s))
     \<and> subseq (sealed_records olds @ rs1 @ rs2) recs
     \<and> (st_fatal s \<or> sealed_records olds @ rs1 @ rs2 = recs)"

text \<open>What a step never changes: the limits, the files that are not active, the rows already sent.\<close>

definition seg_frame :: "seg_thread \<Rightarrow> seg_thread \<Rightarrow> bool" where
  "seg_frame s s' \<longleftrightarrow>
     aw_root (st_writer s') = aw_root (st_writer s)
     \<and> aw_max_record_bytes (st_writer s') = aw_max_record_bytes (st_writer s)
     \<and> aw_store_max_bytes (st_writer s') = aw_store_max_bytes (st_writer s)
     \<and> (\<forall>p. p \<noteq> aw_path (st_writer s) \<longrightarrow> map_of (st_fs s) p \<noteq> None
          \<longrightarrow> p \<noteq> aw_path (st_writer s') \<and> map_of (st_fs s') p = map_of (st_fs s) p)
     \<and> prefix (ms_sent (st_sink s)) (ms_sent (st_sink s')) \<and> (st_fatal s \<longrightarrow> st_fatal s')"

lemma seg_frame_refl [simp]: "seg_frame s s"
  by (simp add: seg_frame_def)

lemma seg_frame_trans: "seg_frame s t \<Longrightarrow> seg_frame t u \<Longrightarrow> seg_frame s u"
  unfolding seg_frame_def by (metis prefix_order.trans)

lemma rows_append: "rows p off (rs @ qs) = rows p off rs @ rows p (off + length (records_image crc rs)) qs"
  by (simp add: rows_def located_append [where crc = crc])

lemma length_rows [simp]: "length (rows p off rs) = length rs"
proof -
  have "length (located off rs) = length rs" by (induction rs arbitrary: off) simp_all
  then show ?thesis by (simp add: rows_def)
qed

lemma publish_spec:
  assumes "publish pending k = (res, pending', k')"
  shows "\<exists>n. n \<le> length pending \<and> ms_sent k' = ms_sent k @ take n pending \<and> pending' = drop n pending
    \<and> ms_durable k' = ms_durable k \<and> (res = Inr () \<longrightarrow> n = length pending)"
  using assms
proof (induction pending arbitrary: k)
  case (Cons row pending)
  show ?case
  proof (cases "ms_room k = Some 0")
    case True
    with Cons.prems show ?thesis by (auto simp: sink_send_def)
  next
    case False
    let ?k = "k\<lparr>ms_sent := ms_sent k @ [row], ms_room := map_option (\<lambda>n. n - 1) (ms_room k)\<rparr>"
    from Cons.prems False have "publish pending ?k = (res, pending', k')"
      by (simp add: sink_send_def)
    from Cons.IH [OF this] obtain n where "n \<le> length pending"
        "ms_sent k' = ms_sent k @ row # take n pending" "pending' = drop n pending"
        "ms_durable k' = ms_durable k" "res = Inr () \<longrightarrow> n = length pending"
      by auto
    then show ?thesis by (intro exI [of _ "Suc n"]) auto
  qed
qed simp

lemma rows_split:
  "rows p off rs = rows p off (take n rs) @ rows p (off + length (records_image crc (take n rs))) (drop n rs)"
  using rows_append [of p off "take n rs" "drop n rs" crc] by simp

lemma take_rows: "take n (rows p off rs) = rows p off (take n rs)"
  using arg_cong [OF rows_split [of p off rs n], of "take n"] by (cases "n \<le> length rs") simp_all

lemma drop_rows:
  "n \<le> length rs \<Longrightarrow> drop n (rows p off rs) = rows p (off + length (records_image crc (take n rs))) (drop n rs)"
  using arg_cong [OF rows_split [of p off rs n crc], of "drop n"] by simp

definition active_whole :: "(bytes \<Rightarrow> u32) \<Rightarrow> seg_thread \<Rightarrow> nat \<Rightarrow> content_record list \<Rightarrow> bool \<Rightarrow> bool" where
  "active_whole crc s now rs synced \<longleftrightarrow> aw_buf (st_writer s) = []
     \<and> (\<exists>f. map_of (st_fs s) (aw_path (st_writer s)) = Some f \<and> f_data f = segment_image crc now rs
          \<and> (synced \<longrightarrow> f_synced f = length (f_data f)))"

lemma flush_and_publish_rep:
  assumes rep: "seg_rep crc base recs s olds now rs1 rs2" and fp: "flush_and_publish durable s = (res, s')"
  shows "\<exists>qs1 qs2. seg_rep crc base recs s' olds now qs1 qs2 \<and> qs1 @ qs2 = rs1 @ rs2 \<and> (res = Inr () \<longrightarrow> qs2 = [])
    \<and> active_whole crc s' now (rs1 @ rs2) durable \<and> seg_frame s s' \<and> st_fatal s' = st_fatal s
    \<and> aw_path (st_writer s') = aw_path (st_writer s) \<and> st_writer s' = (st_writer s)\<lparr>aw_buf := []\<rparr>"
proof -
  let ?w = "st_writer s"
  obtain w1 fs1 where fl: "bw_flush ?w (st_fs s) = (w1, fs1)" by (cases "bw_flush ?w (st_fs s)")
  obtain pending k where pu: "publish (st_pending s) (st_sink s) = (res, pending, k)"
    and s': "s' = s\<lparr>st_writer := w1, st_fs := (if durable then fs_sync (aw_path w1) fs1 else fs1),
        st_pending := pending, st_sink := k\<rparr>"
    using fp fl by (auto simp: flush_and_publish_def writer_flush_sync_def writer_flush_visible_def Let_def
        split: if_splits prod.splits)
  from publish_spec [OF pu] obtain n where n: "n \<le> length (st_pending s)"
      "ms_sent k = ms_sent (st_sink s) @ take n (st_pending s)" "pending = drop n (st_pending s)"
      "ms_durable k = ms_durable (st_sink s)" "res = Inr () \<longrightarrow> n = length (st_pending s)"
    by blast
  have sr: "store_rep crc ?w (st_fs s) olds now rs1 rs2"
    and pend: "st_pending s = rows (aw_path ?w) (length (segment_image crc now rs1)) rs2"
    using rep by (simp_all add: seg_rep_def)
  have nl: "n \<le> length rs2" using n(1) pend by simp
  let ?q1 = "rs1 @ take n rs2" and ?q2 = "drop n rs2"
  have q: "?q1 @ ?q2 = rs1 @ rs2" by simp
  from store_rep_flush [OF sr fl q] obtain f where st1: "store_rep crc w1 fs1 olds now ?q1 ?q2"
    and w1: "w1 = ?w\<lparr>aw_buf := []\<rparr>" and f: "map_of fs1 (aw_path ?w) = Some f" "f_data f = segment_image crc now (rs1 @ rs2)"
    by blast
  have st': "store_rep crc (st_writer s') (st_fs s') olds now ?q1 ?q2"
    using st1 store_rep_sync [OF st1] by (simp add: s')
  have sent: "ms_sent (st_sink s') = base @ sealed_rows olds @ rows (aw_path (st_writer s')) header_size ?q1"
    using rep n(2) rows_append [of "aw_path ?w" header_size rs1 "take n rs2" crc]
    by (simp add: seg_rep_def s' w1 pend take_rows length_segment_image)
  have pend': "st_pending s' = rows (aw_path (st_writer s')) (length (segment_image crc now ?q1)) ?q2"
    using drop_rows [OF nl, of "aw_path ?w" "length (segment_image crc now rs1)" crc]
    by (simp add: s' w1 n(3) pend length_segment_image add.assoc)
  have "seg_rep crc base recs s' olds now ?q1 ?q2"
    using rep st' sent pend' n(4) by (simp add: seg_rep_def s')
  moreover have "active_whole crc s' now (rs1 @ rs2) durable"
    using f by (auto simp: active_whole_def s' w1 map_of_fs_sync)
  moreover have "fs1 = fs_append (aw_path ?w) (aw_buf ?w) (st_fs s)"
    using fl by (simp add: bw_flush_def)
  then have "seg_frame s s'"
    using n(2) by (auto simp: seg_frame_def s' w1 map_of_fs_append map_of_fs_sync)
  moreover have "res = Inr () \<longrightarrow> ?q2 = []"
    using n(5) pend by simp
  ultimately show ?thesis
    using q by (intro exI [of _ ?q1] exI [of _ ?q2]) (auto simp: s' w1)
qed

lemma sink_durable_barrier_spec:
  "sink_durable_barrier k = (res, k') \<Longrightarrow>
   ms_sent k' = ms_sent k \<and> (res = Inr () \<longrightarrow> ms_durable k' = length (ms_sent k)) \<and> (res \<noteq> Inr () \<longrightarrow> k' = k)"
  by (auto simp: sink_durable_barrier_def split: if_splits)

end
