(* ===== verification/Segment_Thread.thy ===== *)
theory Segment_Thread
  imports Segment_Invariant
begin

text \<open>
  Every step of the writer thread of the segment store keeps the invariant of \<open>Segment_Invariant\<close>:
  rotation, writing a record, the barriers, the whole loop, and start-up establishes it.
\<close>

subsection \<open>Rotation\<close>

lemma sat_room: "sat_add64 a b \<le> m \<Longrightarrow> m + header_size \<le> u64_max \<Longrightarrow> a + b \<le> m"
  by (simp add: sat_add64_def min_def split: if_splits)

lemma rotate_after_commit_rep:
  assumes rep: "store_rep crc w fs olds now rs []" and buf: "aw_buf w = []"
    and f: "map_of fs (aw_path w) = Some (whole_file crc now rs)"
    and ro: "rotate_after_commit env w fs = Inr (w', fs')"
  shows "store_rep crc w' fs' (olds @ [(aw_path w, now, rs)]) (se_now_ns env) [] []
    \<and> aw_path w' \<noteq> aw_path w \<and> map_of fs (aw_path w') = None
    \<and> (\<forall>q. q \<noteq> aw_path w' \<longrightarrow> map_of fs' q = map_of fs q)
    \<and> aw_root w' = aw_root w \<and> aw_max_record_bytes w' = aw_max_record_bytes w
    \<and> aw_store_max_bytes w' = aw_store_max_bytes w"
proof -
  from rep have acc: "account_ok w fs" and dk: "distinct (map fst fs)" and sealed: "sealed_rep crc w fs olds"
    and st: "\<forall>r \<in> set rs. storable (aw_max_record_bytes w) r"
    by (auto simp: store_rep_def)
  from ro obtain p fs1 where cr: "create_segment env (aw_root w) fs = Inr (p, fs1)"
    and room: "sat_add64 (aw_retained_bytes w) header_size \<le> aw_store_max_bytes w"
    and wr: "bw_write_all (write_header (se_now_ns env))
        (w\<lparr>aw_buf := [], aw_path := p, aw_bytes := header_size,
           aw_retained_bytes := sat_add64 (aw_retained_bytes w) header_size\<rparr>, fs1) = (w', fs')"
    using buf by (auto simp: rotate_after_commit_def and_then_Inr_iff bw_flush_def Let_def split: if_splits)
  let ?w1 = "w\<lparr>aw_buf := [], aw_path := p, aw_bytes := header_size,
           aw_retained_bytes := sat_add64 (aw_retained_bytes w) header_size\<rparr>"
  have r: "aw_retained_bytes w + header_size \<le> aw_store_max_bytes w"
    using sat_room [OF room] acc by (simp add: account_ok_def)
  then have sat: "sat_add64 (aw_retained_bytes w) header_size = aw_retained_bytes w + header_size"
    using acc by (simp add: account_ok_def sat_add64_def)
  have old: "\<forall>(q, t, rs) \<in> set (olds @ [(aw_path w, now, rs)]). segment_name (aw_root w) q \<and> map_of fs q = Some (whole_file crc t rs)
      \<and> (\<forall>r \<in> set rs. storable (aw_max_record_bytes w) r)"
    using sealed f st rep by (auto simp: sealed_rep_def store_rep_def)
  from store_rep_create [where ?w1.0 = ?w1, OF cr dk old _ _ _ _ _ _ _ _ wr] r sat acc buf
  have "store_rep crc w' fs' (olds @ [(aw_path w, now, rs)]) (se_now_ns env) [] []
      \<and> (\<exists>b. w' = ?w1\<lparr>aw_buf := b\<rparr>) \<and> map_of fs p = None \<and> (\<forall>q. q \<noteq> p \<longrightarrow> map_of fs' q = map_of fs q)"
    by (simp add: account_ok_def)
  with f show ?thesis by auto
qed

text \<open>Either the active segment is sealed and a fresh one is open, or the old one stays active.\<close>

lemma commit_and_rotate_rep:
  assumes rep: "seg_rep crc base recs s olds now rs1 rs2" and cr: "commit_and_rotate env s = (res, s')"
  shows "seg_frame s s' \<and> st_fatal s' = st_fatal s
    \<and> (res = Inr () \<longrightarrow>
        seg_rep crc base recs s' (olds @ [(aw_path (st_writer s), now, rs1 @ rs2)]) (se_now_ns env) [] []
        \<and> aw_path (st_writer s') \<noteq> aw_path (st_writer s))
    \<and> (res \<noteq> Inr () \<longrightarrow> (\<exists>qs1 qs2. seg_rep crc base recs s' olds now qs1 qs2 \<and> qs1 @ qs2 = rs1 @ rs2))"
proof -
  obtain r1 s1 where fp: "flush_and_publish True s = (r1, s1)" by (cases "flush_and_publish True s")
  from flush_and_publish_rep [OF rep fp] obtain qs1 qs2 where
    q: "seg_rep crc base recs s1 olds now qs1 qs2" "qs1 @ qs2 = rs1 @ rs2" "r1 = Inr () \<longrightarrow> qs2 = []"
    and aw: "active_whole crc s1 now (rs1 @ rs2) True" and fr: "seg_frame s s1" "st_fatal s1 = st_fatal s"
    and pth: "aw_path (st_writer s1) = aw_path (st_writer s)"
    by blast
  show ?thesis
  proof (cases r1)
    case (Inl e)
    with cr fp have "res = Inl e" "s' = s1" by (auto simp: commit_and_rotate_def)
    with q fr show ?thesis by auto
  next
    case [simp]: (Inr u)
    obtain r2 k where ba: "sink_durable_barrier (st_sink s1) = (r2, k)"
      by (cases "sink_durable_barrier (st_sink s1)")
    note k = sink_durable_barrier_spec [OF ba]
    let ?s2 = "s1\<lparr>st_sink := k\<rparr>"
    have rep2: "seg_rep crc base recs ?s2 olds now qs1 qs2"
      using q(1) k by (cases r2) (auto simp: seg_rep_def)
    have fr2: "seg_frame s ?s2"
      using fr(1) k by (simp add: seg_frame_def)
    show ?thesis
    proof (cases "\<exists>w fs. r2 = Inr () \<and> rotate_after_commit env (st_writer s1) (st_fs s1) = Inr (w, fs)")
      case False
      with cr fp ba have "res \<noteq> Inr ()" "s' = ?s2"
        by (auto simp: commit_and_rotate_def split: sum.splits)
      with rep2 fr2 fr(2) q(2) show ?thesis by auto
    next
      case True
      then obtain w fs where r2: "r2 = Inr ()" and ro: "rotate_after_commit env (st_writer s1) (st_fs s1) = Inr (w, fs)"
        by blast
      with cr fp ba have res: "res = Inr ()" and s': "s' = ?s2\<lparr>st_writer := w, st_fs := fs\<rparr>"
        by (auto simp: commit_and_rotate_def)
      have qs: "qs2 = []" "qs1 = rs1 @ rs2" using q(2,3) by auto
      have st1: "store_rep crc (st_writer s1) (st_fs s1) olds now (rs1 @ rs2) []"
        using q(1) qs by (simp add: seg_rep_def)
      have b1: "aw_buf (st_writer s1) = []"
        and f1: "map_of (st_fs s1) (aw_path (st_writer s1)) = Some (whole_file crc now (rs1 @ rs2))"
        using aw by (auto simp: active_whole_def whole_file_def)
      note R = rotate_after_commit_rep [OF st1 b1 f1 ro]
      have "rows p off [] = []" for p off by (simp add: rows_def)
      then have "seg_rep crc base recs s' (olds @ [(aw_path (st_writer s), now, rs1 @ rs2)]) (se_now_ns env) [] []"
        using R q(1) k r2 qs pth
        by (simp add: seg_rep_def s' sealed_rows_def sealed_records_def)
      moreover have "map_of fs p = map_of (st_fs s1) p \<and> p \<noteq> aw_path w" if "map_of (st_fs s1) p \<noteq> None" for p
        using that R by metis
      then have "seg_frame ?s2 s'"
        using R by (simp add: seg_frame_def s')
      ultimately show ?thesis
        using res fr(2) seg_frame_trans [OF fr2] R pth by (simp add: s')
    qed
  qed
qed

subsection \<open>Writing a record\<close>

lemmas appended_write = appended_trans [OF _ bw_write_all_appended]

lemma prepare_record_spec:
  assumes "prepare_record w r = Inr prepared" and "record_ok r"
  shows "pr_prefix prepared @ cr_data r = record_payload r \<and> pr_payload_len prepared = length (record_payload r)
    \<and> pr_encoded_len prepared = 12 + length (record_payload r) \<and> storable (aw_max_record_bytes w) r"
proof -
  from assms(1) obtain pfx where p: "encode_record_prefix r = Inr pfx"
    by (auto simp: prepare_record_def and_then_Inr_iff)
  then have pay: "record_payload r = pfx @ cr_data r"
    by (simp add: record_payload_def)
  let ?n = "sat_add64 (length pfx) (length (cr_data r))"
  from assms(1) p have n: "?n \<le> u32_max" "?n \<le> aw_max_record_bytes w"
    and pr: "prepared = \<lparr>pr_prefix = pfx, pr_payload_len = ?n, pr_encoded_len = 12 + ?n\<rparr>"
    by (auto simp: prepare_record_def Let_def split: if_splits)
  have "?n = length (record_payload r)"
    using n(1) by (simp add: sat_add64_def pay min_def split: if_splits)
  with n pr p assms(2) show ?thesis
    by (simp add: storable_def pay)
qed

lemma write_prepared_appended:
  assumes pr: "pr_prefix prepared @ cr_data r = record_payload r" "pr_payload_len prepared = length (record_payload r)"
      "pr_encoded_len prepared = 12 + length (record_payload r)"
    and wr: "write_prepared crc r prepared w fs = Inr ((p, off, n), w', fs')"
    and fl: "bw_flush w fs = (w1, fs1)"
  obtains w2 where "appended (record_image crc r) (w1, fs1) (w2, fs')"
    and "sat_add64 (aw_retained_bytes w) (12 + length (record_payload r)) \<le> aw_store_max_bytes w"
    and "off = file_len fs1 (aw_path w1)" "p = aw_path w2" "n = 12 + length (record_payload r)"
    and "w' = w2\<lparr>aw_bytes := aw_bytes w2 + (12 + length (record_payload r)),
        aw_retained_bytes := sat_add64 (aw_retained_bytes w2) (12 + length (record_payload r))\<rparr>"
proof -
  define x where "x = bw_write_all (cr_data r) (bw_write_all (pr_prefix prepared)
    (bw_write_all (le_octets 4 (crc (record_payload r)))
      (bw_write_all (le_octets 4 (of_nat (length (record_payload r)) :: u32)) (bw_write_all (le_octets 4 record_magic) (w1, fs1)))))"
  obtain w2 fs2 where x: "x = (w2, fs2)" by (cases x)
  have "appended ((((le_octets 4 record_magic @ le_octets 4 (of_nat (length (record_payload r)) :: u32))
      @ le_octets 4 (crc (record_payload r))) @ pr_prefix prepared) @ cr_data r) (w1, fs1) x"
    unfolding x_def by (intro appended_write bw_write_all_appended)
  then have app: "appended (record_image crc r) (w1, fs1) (w2, fs2)"
    unfolding x using pr(1) by (simp add: envelope_def)
  from wr pr x that [of w2] app show ?thesis
    unfolding x_def
    by (auto simp: write_prepared_def stream_position_def fl Let_def split: if_splits)
qed

lemma write_prepared_rep:
  assumes rep: "store_rep crc w fs olds now rs1 rs2"
    and pr: "pr_prefix prepared @ cr_data r = record_payload r" "pr_payload_len prepared = length (record_payload r)"
      "pr_encoded_len prepared = 12 + length (record_payload r)"
    and st: "storable (aw_max_record_bytes w) r"
    and wr: "write_prepared crc r prepared w fs = Inr ((p, off, n), w', fs')"
  shows "store_rep crc w' fs' olds now rs1 (rs2 @ [r]) \<and> p = aw_path w
    \<and> off = length (segment_image crc now (rs1 @ rs2))
    \<and> (\<forall>q. q \<noteq> aw_path w \<longrightarrow> map_of fs' q = map_of fs q)
    \<and> aw_path w' = aw_path w \<and> aw_root w' = aw_root w \<and> aw_max_record_bytes w' = aw_max_record_bytes w
    \<and> aw_store_max_bytes w' = aw_store_max_bytes w"
proof -
  let ?n = "12 + length (record_payload r)"
  obtain w1 fs1 where fl: "bw_flush w fs = (w1, fs1)" by (cases "bw_flush w fs")
  note F = store_rep_flush [OF rep fl refl]
  from F have rep1: "store_rep crc w1 fs1 olds now rs1 rs2" and w1: "w1 = w\<lparr>aw_buf := []\<rparr>"
    and len1: "file_len fs1 (aw_path w) = length (segment_image crc now (rs1 @ rs2))"
    by (auto simp: file_len_def)
  have acc: "account_ok w fs" using rep by (simp add: store_rep_def)
  from write_prepared_appended [OF pr wr fl] obtain w2 where
    app: "appended (record_image crc r) (w1, fs1) (w2, fs')"
    and room: "sat_add64 (aw_retained_bytes w) ?n \<le> aw_store_max_bytes w"
    and eqs: "off = file_len fs1 (aw_path w1)" "p = aw_path w2"
      "w' = w2\<lparr>aw_bytes := aw_bytes w2 + ?n, aw_retained_bytes := sat_add64 (aw_retained_bytes w2) ?n\<rparr>"
    by metis
  from app obtain d b where w2: "w2 = w1\<lparr>aw_buf := b\<rparr>" and fs2: "fs' = fs_append (aw_path w1) d fs1"
    by (rule appendedE)
  have room': "aw_retained_bytes w1 + ?n \<le> aw_store_max_bytes w1"
    using sat_room [OF room] acc by (simp add: account_ok_def w1)
  have sat: "sat_add64 (aw_retained_bytes w) ?n = aw_retained_bytes w + ?n"
    using room' acc by (simp add: sat_add64_def account_ok_def w1)
  have "store_rep crc (w2\<lparr>aw_bytes := aw_bytes w1 + ?n, aw_retained_bytes := aw_retained_bytes w1 + ?n\<rparr>) fs' olds now rs1 (rs2 @ [r])"
    by (rule store_rep_write [OF rep1 app]) (use st room' in \<open>simp_all add: w1\<close>)
  moreover have "w' = w2\<lparr>aw_bytes := aw_bytes w1 + ?n, aw_retained_bytes := aw_retained_bytes w1 + ?n\<rparr>"
    using eqs(3) sat by (simp add: w2 w1)
  moreover have "map_of fs' q = map_of fs q" if "q \<noteq> aw_path w" for q
    using that fl by (auto simp: fs2 w1 map_of_fs_append bw_flush_def)
  ultimately show ?thesis
    using eqs len1 by (simp add: w2 w1)
qed

lemma subseq_snoc_both: "subseq xs ys \<Longrightarrow> subseq (xs @ [z]) (ys @ [z])"
  by (rule list_emb_append_mono) simp_all

lemma subseq_prefix_append: "subseq xs ys \<Longrightarrow> subseq xs (ys @ zs)"
  using list_emb_append_mono [of "(=)" xs ys "[]" zs] by simp

lemma seg_rep_fatal:
  "seg_rep crc base recs s olds now rs1 rs2 \<Longrightarrow> seg_rep crc base (recs @ ys) (set_fatal s) olds now rs1 rs2"
  by (simp add: seg_rep_def set_fatal_def subseq_prefix_append)

lemma store_record_rep:
  assumes rep: "seg_rep crc base recs s olds now rs1 rs2"
    and pr: "pr_prefix prepared @ cr_data r = record_payload r" "pr_payload_len prepared = length (record_payload r)"
      "pr_encoded_len prepared = 12 + length (record_payload r)"
    and st: "storable (aw_max_record_bytes (st_writer s)) r"
  shows "(\<exists>qs1 qs2. seg_rep crc base (recs @ [r]) (store_record crc r prepared s) olds now qs1 qs2)
    \<and> seg_frame s (store_record crc r prepared s)"
proof (cases "write_prepared crc r prepared (st_writer s) (st_fs s)")
  case (Inl e)
  then have "store_record crc r prepared s = set_fatal s" by (simp add: store_record_def)
  moreover have "seg_frame s (set_fatal s)"
    by (simp add: seg_frame_def set_fatal_def)
  ultimately show ?thesis
    using seg_rep_fatal [OF rep, of "[r]"] by auto
next
  case (Inr x)
  obtain p off n w fs where x: "x = ((p, off, n), w, fs)" by (cases x) auto
  let ?w = "st_writer s"
  have sr: "store_rep crc ?w (st_fs s) olds now rs1 rs2" using rep by (simp add: seg_rep_def)
  note W = write_prepared_rep [OF sr pr st Inr [unfolded x]]
  define s1 where "s1 = s\<lparr>st_writer := w, st_fs := fs,
      st_metrics := (st_metrics s)\<lparr>sm_segment_bytes := sm_segment_bytes (st_metrics s) + of_nat n,
                                   sm_segment_disk_bytes := aw_retained_bytes w\<rparr>,
      st_pending := st_pending s @ [index_row r p off]\<rparr>"
  have "rows (aw_path ?w) (length (segment_image crc now rs1)) (rs2 @ [r])
      = rows (aw_path ?w) (length (segment_image crc now rs1)) rs2 @ [index_row r p off]"
    using W rows_append [of "aw_path ?w" "length (segment_image crc now rs1)" rs2 "[r]" crc]
    by (simp add: rows_def segment_image_append)
  then have rep1: "seg_rep crc base (recs @ [r]) s1 olds now rs1 (rs2 @ [r])"
    using rep W subseq_snoc_both [of "sealed_records olds @ rs1 @ rs2" recs r]
    by (auto simp: seg_rep_def s1_def)
  have fr1: "seg_frame s s1"
    using W by (auto simp: seg_frame_def s1_def)
  show ?thesis
  proof (cases "length (st_pending s1) \<ge> 512")
    case False
    then have "store_record crc r prepared s = s1"
      by (simp add: store_record_def Inr x s1_def Let_def)
    with rep1 fr1 show ?thesis by auto
  next
    case True
    obtain res s2 where fp: "flush_and_publish False s1 = (res, s2)" by (cases "flush_and_publish False s1")
    with True have e: "store_record crc r prepared s = (if res = Inr () then s2 else set_fatal s2)"
      by (cases res) (simp_all add: store_record_def Inr x s1_def Let_def)
    from flush_and_publish_rep [OF rep1 fp] obtain qs1 qs2 where
      q: "seg_rep crc base (recs @ [r]) s2 olds now qs1 qs2" and fr2: "seg_frame s1 s2"
      by blast
    from q have "seg_rep crc base (recs @ [r]) (set_fatal s2) olds now qs1 qs2"
      by (simp add: seg_rep_def set_fatal_def)
    moreover from fr2 have "seg_frame s1 (set_fatal s2)"
      by (simp add: seg_frame_def set_fatal_def)
    ultimately show ?thesis
      unfolding e using q fr2 seg_frame_trans [OF fr1] by auto
  qed
qed

subsection \<open>A step of the loop\<close>

definition seg_inv :: "(bytes \<Rightarrow> u32) \<Rightarrow> content_index_record list \<Rightarrow> content_record list \<Rightarrow> seg_thread \<Rightarrow> bool" where
  "seg_inv crc base recs s \<longleftrightarrow> (\<exists>olds now rs1 rs2. seg_rep crc base recs s olds now rs1 rs2)"

lemma seg_inv_metrics [simp]: "seg_inv crc base recs (s\<lparr>st_metrics := m\<rparr>) = seg_inv crc base recs s"
  by (simp add: seg_inv_def seg_rep_def)

lemma seg_frame_metrics [simp]:
  "seg_frame (s\<lparr>st_metrics := m\<rparr>) s' = seg_frame s s'" "seg_frame s (s'\<lparr>st_metrics := m\<rparr>) = seg_frame s s'"
  by (simp_all add: seg_frame_def)

lemma seg_inv_fatal: "seg_inv crc base recs s \<Longrightarrow> seg_inv crc base (recs @ ys) (set_fatal s)"
  unfolding seg_inv_def using seg_rep_fatal by blast

lemma seg_inv_fatal': "seg_inv crc base recs s \<Longrightarrow> seg_inv crc base recs (set_fatal s)"
  using seg_inv_fatal [of crc base recs s "[]"] by simp

lemma seg_frame_fatal: "seg_frame s s' \<Longrightarrow> seg_frame s (set_fatal s')"
  by (simp add: seg_frame_def set_fatal_def)

lemma flush_and_publish_inv:
  assumes "seg_inv crc base recs s" "flush_and_publish durable s = (res, s')"
  shows "seg_inv crc base recs s' \<and> seg_frame s s' \<and> (res = Inr () \<longrightarrow> st_pending s' = []) \<and> aw_buf (st_writer s') = []"
proof -
  from assms(1) obtain olds now rs1 rs2 where "seg_rep crc base recs s olds now rs1 rs2"
    by (auto simp: seg_inv_def)
  from flush_and_publish_rep [OF this assms(2)] show ?thesis
    by (auto simp: seg_inv_def active_whole_def seg_rep_def rows_def)
qed

lemma commit_and_rotate_inv:
  assumes "seg_inv crc base recs s" "commit_and_rotate env s = (res, s')"
  shows "seg_inv crc base recs s' \<and> seg_frame s s'"
proof -
  from assms(1) obtain olds now rs1 rs2 where "seg_rep crc base recs s olds now rs1 rs2"
    by (auto simp: seg_inv_def)
  from commit_and_rotate_rep [OF this assms(2)] show ?thesis
    unfolding seg_inv_def by blast
qed

lemma handle_record_inv:
  assumes inv: "seg_inv crc base recs s" and ok: "record_ok r" and h: "handle_record crc env r s = (ex, s')"
  shows "seg_inv crc base (recs @ [r]) s' \<and> seg_frame s s'"
proof -
  let ?m = "(st_metrics s)\<lparr>sm_queue_depth := se_rx_len env,
      sm_queue_high_watermark := max (sm_queue_high_watermark (st_metrics s)) (se_rx_len env)\<rparr>"
  let ?s = "s\<lparr>st_metrics := ?m\<rparr>"
  have inv1: "seg_inv crc base recs ?s" using inv by simp
  show ?thesis
  proof (cases "prepare_record (st_writer s) r")
    case (Inl e)
    with h have "s' = set_fatal ?s"
      by (auto simp: handle_record_def observe_queue_def)
    with seg_inv_fatal [OF inv1] seg_frame_fatal [of s ?s] show ?thesis by simp
  next
    case (Inr prepared)
    note P = prepare_record_spec [OF Inr ok]
    obtain res s1 where ro: "rotate_for env (pr_encoded_len prepared) ?s = (res, s1)"
      by (cases "rotate_for env (pr_encoded_len prepared) ?s")
    have R: "seg_inv crc base recs s1 \<and> seg_frame ?s s1"
    proof (cases "needs_rotation (st_writer s) (pr_encoded_len prepared)
        \<and> check_rotation_budget (st_writer s) (pr_encoded_len prepared) = Inr ()")
      case True
      with ro have "commit_and_rotate env ?s = (res, s1)" by (simp add: rotate_for_def)
      from commit_and_rotate_inv [OF inv1 this] show ?thesis .
    next
      case False
      with ro have "s1 = ?s" by (auto simp: rotate_for_def split: if_splits sum.splits)
      with inv1 show ?thesis by simp
    qed
    show ?thesis
    proof (cases res)
      case (Inl e)
      with h Inr ro have "s' = set_fatal s1"
        by (auto simp: handle_record_def observe_queue_def)
      with R show ?thesis using seg_inv_fatal seg_frame_fatal by auto
    next
      case [simp]: (Inr u)
      with h \<open>prepare_record _ _ = _\<close> ro have s': "s' = store_record crc r prepared s1"
        by (auto simp: handle_record_def observe_queue_def)
      from R obtain olds now rs1 rs2 where rep: "seg_rep crc base recs s1 olds now rs1 rs2"
        by (auto simp: seg_inv_def)
      have "aw_max_record_bytes (st_writer s1) = aw_max_record_bytes (st_writer s)"
        using R by (simp add: seg_frame_def)
      with P have "storable (aw_max_record_bytes (st_writer s1)) r" by simp
      with store_record_rep [OF rep] P have "seg_inv crc base (recs @ [r]) s' \<and> seg_frame s1 s'"
        unfolding s' seg_inv_def by blast
      with R seg_frame_trans show ?thesis by auto
    qed
  qed
qed

text \<open>The records among the events.\<close>

fun received :: "(seg_env \<times> seg_event) list \<Rightarrow> content_record list" where
  "received [] = []"
| "received ((env, Received (RecordCmd r)) # evs) = r # received evs"
| "received (_ # evs) = received evs"

lemma received_append: "received (xs @ ys) = received xs @ received ys"
  by (induction xs rule: received.induct) simp_all

lemma seg_step_inv:
  assumes inv: "seg_inv crc base recs s" and ok: "\<forall>r \<in> set (received [(env, ev)]). record_ok r"
    and st: "seg_step crc env ev s = (stop, reply, s')"
  shows "seg_inv crc base (recs @ received [(env, ev)]) s' \<and> seg_frame s s'"
proof -
  let ?s = "s\<lparr>st_metrics := (st_metrics s)\<lparr>sm_last_progress_ns := se_now_ns env\<rparr>\<rparr>"
  have inv1: "seg_inv crc base recs ?s" using inv by simp
  obtain fres sf where fl: "flush_and_publish False ?s = (fres, sf)" by (cases "flush_and_publish False ?s")
  note F = flush_and_publish_inv [OF inv1 fl]
  obtain sres ss where se: "commit_and_rotate env ?s = (sres, ss)" by (cases "commit_and_rotate env ?s")
  note S = commit_and_rotate_inv [OF inv1 se]
  show ?thesis
  proof (cases ev)
    case (Received c)
    then consider (rec) r where "ev = Received (RecordCmd r)" | (flush) "ev = Received FlushCmd"
      | (seal) "ev = Received SealCmd" by (cases c) auto
    then show ?thesis
    proof cases
      case rec
      obtain ex s1 where h: "handle_record crc env r ?s = (ex, s1)" by (cases "handle_record crc env r ?s")
      with st rec have "s' = s1" by (auto simp: seg_step_def Let_def)
      with handle_record_inv [OF inv1 _ h] ok rec show ?thesis by simp
    next
      case flush
      with st fl have "s' = sf \<or> s' = set_fatal sf"
        by (auto simp: seg_step_def Let_def split: sum.splits)
      with F flush seg_inv_fatal' seg_frame_fatal show ?thesis by auto
    next
      case seal
      with st se have "s' = ss \<or> s' = set_fatal ss"
        by (auto simp: seg_step_def handle_seal_def Let_def split: sum.splits)
      with S seal seg_inv_fatal' seg_frame_fatal show ?thesis by auto
    qed
  next
    case (RecvTimeout b)
    with st fl have "s' = ?s \<or> s' = sf \<or> s' = set_fatal sf"
      by (auto simp: seg_step_def Let_def split: sum.splits if_splits)
    with F inv1 RecvTimeout seg_inv_fatal' seg_frame_fatal show ?thesis by auto
  next
    case RecvDisconnected
    with st have "s' = ?s" by (auto simp: seg_step_def Let_def)
    with inv1 RecvDisconnected show ?thesis by simp
  qed
qed

lemma seg_loop_inv:
  assumes "seg_inv crc base recs s" "\<forall>r \<in> set (received evs). record_ok r"
    "seg_loop crc evs s = (replies, stopped, s')"
  shows "seg_inv crc base (recs @ received (take (length replies) evs)) s' \<and> seg_frame s s'
    \<and> length replies \<le> length evs"
  using assms
proof (induction crc evs s arbitrary: recs replies rule: seg_loop.induct)
  case (2 crc env ev evs s)
  obtain stop reply s1 where st: "seg_step crc env ev s = (stop, reply, s1)"
    by (cases "seg_step crc env ev s")
  have rcv: "received ((env, ev) # es) = received [(env, ev)] @ received es" for es
    using received_append [of "[(env, ev)]" es] by simp
  have S: "seg_inv crc base (recs @ received [(env, ev)]) s1 \<and> seg_frame s s1"
    using seg_step_inv [OF 2(2) _ st] 2(3) rcv [of evs] by simp
  show ?case
  proof (cases stop)
    case True
    obtain res s2 where fp: "flush_and_publish True s1 = (res, s2)" by (cases "flush_and_publish True s1")
    from 2(4) True st fp have e: "replies = [reply]" "s' = s2" by simp_all
    from S have "seg_inv crc base (recs @ received [(env, ev)]) s1" by simp
    from flush_and_publish_inv [OF this fp] S show ?thesis
      by (auto simp: e intro: seg_frame_trans)
  next
    case False
    obtain rs rest where lo: "seg_loop crc evs s1 = (rs, rest)" by (cases "seg_loop crc evs s1")
    from 2(4) False st lo have e: "replies = reply # rs" "rest = (stopped, s')" by simp_all
    have ok: "\<forall>r \<in> set (received evs). record_ok r" using 2(3) rcv [of evs] by simp
    from 2(1) [OF st [symmetric] _ refl _ ok, of "recs @ received [(env, ev)]" rs] False S lo e
    have "seg_inv crc base ((recs @ received [(env, ev)]) @ received (take (length rs) evs)) s' \<and> seg_frame s1 s'
      \<and> length rs \<le> length evs" by simp
    with S show ?thesis
      using rcv [of "take (length rs) evs"] by (auto simp: e intro: seg_frame_trans)
  qed
qed simp

subsection \<open>Start-up\<close>

lemma distinct_recovered:
  assumes "distinct (map fst fs)" "recover_last_segment_tail crc root mx fs = Inr fs'"
  shows "distinct (map fst fs')"
proof -
  have "distinct (map fst (set_len p n fs))" for p n
    using assms(1) by (simp add: set_len_def AList.distinct_update split: option.splits)
  then have "distinct (map fst (case d of Intact \<Rightarrow> fs | RemoveFile \<Rightarrow> AList.delete p fs
      | TruncateTo n \<Rightarrow> fs_sync p (set_len p n fs)))" for d p
    using assms(1) by (cases d) (simp_all add: distinct_delete)
  with assms show ?thesis
    by (auto simp: recover_last_segment_tail_def and_then_Inr_iff split: option.splits)
qed

lemma open_store_files:
  assumes op: "open_store crc env cfg k m fs = Inr s" and dk: "distinct (map fst fs)"
    and mx: "cfg_store_max_bytes cfg + header_size \<le> u64_max"
  shows "(seg_inv crc (ms_sent k) [] s \<and> aw_root (st_writer s) = cfg_root cfg
    \<and> aw_max_record_bytes (st_writer s) = cfg_max_record_bytes cfg
    \<and> aw_store_max_bytes (st_writer s) = cfg_store_max_bytes cfg \<and> st_sink s = k \<and> \<not> st_fatal s)
    \<and> (\<exists>fs1. recover_last_segment_tail crc (cfg_root cfg) (cfg_max_record_bytes cfg) fs = Inr fs1
          \<and> map_of fs1 (aw_path (st_writer s)) = None
          \<and> (\<forall>q. q \<noteq> aw_path (st_writer s) \<longrightarrow> map_of (st_fs s) q = map_of fs1 q))"
proof -
  from op obtain fs1 w fs2 where re: "recover_last_segment_tail crc (cfg_root cfg) (cfg_max_record_bytes cfg) fs = Inr fs1"
    and le: "directory_bytes (cfg_root cfg) fs1 \<le> cfg_store_max_bytes cfg"
    and nw: "new_writer env (cfg_root cfg) (cfg_max_bytes cfg) (cfg_max_record_bytes cfg)
        (cfg_store_max_bytes cfg) (directory_bytes (cfg_root cfg) fs1) fs1 = Inr (w, fs2)"
    and s: "s = \<lparr>st_fs = fs2, st_writer = w, st_pending = [], st_sink = k,
        st_metrics = m\<lparr>sm_segment_disk_bytes := directory_bytes (cfg_root cfg) fs1\<rparr>, st_fatal = False\<rparr>"
    by (auto simp: open_store_def and_then_Inr_iff Let_def not_less split: if_splits)
  note dk1 = distinct_recovered [OF dk re]
  have ds: "directory_bytes (cfg_root cfg) fs1 = dir_size (cfg_root cfg) fs1"
    using le mx by (simp add: directory_bytes_eq [OF dk1] min_def split: if_splits)
  let ?w1 = "\<lambda>p. \<lparr>aw_root = cfg_root cfg, aw_max_bytes = cfg_max_bytes cfg,
      aw_max_record_bytes = cfg_max_record_bytes cfg, aw_buf = [], aw_path = p, aw_bytes = header_size,
      aw_retained_bytes = sat_add64 (dir_size (cfg_root cfg) fs1) header_size,
      aw_store_max_bytes = cfg_store_max_bytes cfg\<rparr>"
  from nw obtain p fs3 where cr: "create_segment env (aw_root (?w1 [])) fs1 = Inr (p, fs3)"
    and wr: "bw_write_all (write_header (se_now_ns env)) (?w1 p, fs3) = (w, fs2)"
    by (auto simp: new_writer_def and_then_Inr_iff ds)
  have "store_rep crc w fs2 [] (se_now_ns env) [] [] \<and> (\<exists>b. w = ?w1 p\<lparr>aw_buf := b\<rparr>)
      \<and> map_of fs1 p = None \<and> (\<forall>q. q \<noteq> p \<longrightarrow> map_of fs2 q = map_of fs1 q)"
    by (rule store_rep_create [OF cr dk1 _ _ _ _ _ _ _ _ _ wr])
      (use le ds mx in \<open>simp_all add: sat_add64_def\<close>)
  then show ?thesis
    using re by (auto simp: s seg_inv_def seg_rep_def sealed_rows_def sealed_records_def rows_def
        intro!: exI [of _ "[]"] exI [of _ "se_now_ns env"])
qed

lemmas open_store_inv = open_store_files [THEN conjunct1]

end
