(* ===== verification/Segment_Properties.thy ===== *)
theory Segment_Properties
  imports Segment_Thread
begin

text \<open>
  What the segment store promises: a written record is read back, a published index row points at bytes
  another reader can already see, a crash at any moment is recovered without losing a sealed segment, the
  disk budget holds up to one header, and a sealed snapshot never changes.
\<close>

subsection \<open>Reading published rows\<close>

lemma row_of_located:
  "row \<in> set (rows p off rs) \<longleftrightarrow> (\<exists>o' r. (o', r) \<in> set (located off rs) \<and> row = index_row r p o')"
  by (force simp: rows_def)

lemma located_in: "(o', r) \<in> set (located off rs) \<Longrightarrow> r \<in> set rs"
  by (induction rs arbitrary: off) auto

lemma segment_read:
  assumes "(off, r) \<in> set (located header_size rs)" and "\<forall>r \<in> set rs. storable mx r"
    and "f_data f = segment_image crc now rs @ post"
  shows "read_record_at crc (f_data f) off mx = Inr (stored r)"
  using located_read [where pre = "write_header now" and post = post] assms
  by (simp add: segment_image_def)

definition row_readable ::
  "(bytes \<Rightarrow> u32) \<Rightarrow> nat \<Rightarrow> file_system \<Rightarrow> content_index_record \<Rightarrow> content_record \<Rightarrow> bool" where
  "row_readable crc mx fs row r \<longleftrightarrow>
     row = index_row r (ci_segment_path row) (ci_segment_offset row)
     \<and> (\<exists>f. map_of fs (ci_segment_path row) = Some f
          \<and> read_record_at crc (f_data f) (ci_segment_offset row) mx = Inr (stored r))"

lemma sealed_row_readable:
  assumes "sealed_rep crc w fs olds" "row \<in> set (sealed_rows olds)"
  shows "\<exists>r \<in> set (sealed_records olds). row_readable crc (aw_max_record_bytes w) fs row r
    \<and> ci_segment_path row \<noteq> aw_path w"
proof -
  from assms(2) obtain p t rs o' r where m: "(p, t, rs) \<in> set olds" and l: "(o', r) \<in> set (located header_size rs)"
    and row: "row = index_row r p o'"
    by (auto simp: sealed_rows_def row_of_located)
  from assms(1) m have f: "p \<noteq> aw_path w" "map_of fs p = Some (whole_file crc t rs)"
    "\<forall>r \<in> set rs. storable (aw_max_record_bytes w) r"
    by (auto simp: sealed_rep_def)
  have "read_record_at crc (f_data (whole_file crc t rs)) o' (aw_max_record_bytes w) = Inr (stored r)"
    by (rule segment_read [OF l f(3), where now = t and post = "[]"]) (simp add: whole_file_def)
  moreover have "r \<in> set (sealed_records olds)"
    using m located_in [OF l] by (force simp: sealed_records_def)
  ultimately show ?thesis
    using f by (auto simp: row_readable_def row index_row_def)
qed

lemma active_row_readable:
  assumes "active_rep crc w fs now rs1 rs2" "\<forall>r \<in> set rs1. storable mx r" "row \<in> set (rows (aw_path w) header_size rs1)"
  shows "\<exists>r \<in> set rs1. row_readable crc mx fs row r"
proof -
  from assms(1) obtain f where f: "map_of fs (aw_path w) = Some f"
      "f_data f @ aw_buf w = segment_image crc now (rs1 @ rs2)"
      "rs1 = [] \<or> length (segment_image crc now rs1) \<le> length (f_data f)"
    by (auto simp: active_rep_def)
  from assms(3) obtain o' r where l: "(o', r) \<in> set (located header_size rs1)" and row: "row = index_row r (aw_path w) o'"
    by (auto simp: row_of_located)
  then have "rs1 \<noteq> []" by auto
  with f(3) have le: "length (segment_image crc now rs1) \<le> length (f_data f)" by simp
  have "take (length (segment_image crc now rs1)) (f_data f @ aw_buf w) = segment_image crc now rs1"
    by (simp add: f(2) segment_image_append)
  with le have "f_data f = segment_image crc now rs1 @ drop (length (segment_image crc now rs1)) (f_data f)"
    by (metis append_take_drop_id take_append diff_is_0_eq take0 append_Nil2 take_eq_Nil)
  from segment_read [OF l assms(2) this] f(1) located_in [OF l] show ?thesis
    by (auto simp: row_readable_def row index_row_def)
qed

lemma sent_row_readable:
  assumes "seg_rep crc base recs s olds now rs1 rs2"
    and "row \<in> set (sealed_rows olds @ rows (aw_path (st_writer s)) header_size rs1)"
  shows "\<exists>r \<in> set recs. row_readable crc (aw_max_record_bytes (st_writer s)) (st_fs s) row r"
proof -
  have ss: "subseq (sealed_records olds @ rs1 @ rs2) recs"
    using assms(1) by (simp add: seg_rep_def)
  have sub: "r \<in> set recs" if "r \<in> set (sealed_records olds @ rs1 @ rs2)" for r
    by (rule list_emb_set [OF ss that]) simp
  have "sealed_rep crc (st_writer s) (st_fs s) olds" "active_rep crc (st_writer s) (st_fs s) now rs1 rs2"
    "\<forall>r \<in> set rs1. storable (aw_max_record_bytes (st_writer s)) r"
    using assms(1) by (auto simp: seg_rep_def store_rep_def)
  note S = sealed_row_readable [OF this(1), of row] and A = active_row_readable [OF this(2,3), of row]
  from assms(2) S A sub show ?thesis
    unfolding set_append Un_iff by metis
qed

text \<open>A run of the store: start-up, then the events of the writer thread.\<close>

definition run_store ::
  "(bytes \<Rightarrow> u32) \<Rightarrow> seg_env \<Rightarrow> seg_config \<Rightarrow> meta_sink \<Rightarrow> seg_metrics \<Rightarrow> file_system
   \<Rightarrow> (seg_env \<times> seg_event) list \<Rightarrow> seg_error + (seg_reply list \<times> bool \<times> seg_thread)" where
  "run_store crc env cfg k m fs evs = and_then (open_store crc env cfg k m fs) (\<lambda>s. Inr (seg_loop crc evs s))"

definition run_ok :: "seg_config \<Rightarrow> file_system \<Rightarrow> (seg_env \<times> seg_event) list \<Rightarrow> bool" where
  "run_ok cfg fs evs \<longleftrightarrow> distinct (map fst fs) \<and> cfg_store_max_bytes cfg + header_size \<le> u64_max
     \<and> list_all record_ok (received evs)"

lemma run_inv:
  assumes "run_ok cfg fs evs" and "run_store crc env cfg k m fs evs = Inr (replies, stopped, s)"
  shows "seg_inv crc (ms_sent k) (received (take (length replies) evs)) s
    \<and> aw_root (st_writer s) = cfg_root cfg \<and> aw_max_record_bytes (st_writer s) = cfg_max_record_bytes cfg
    \<and> aw_store_max_bytes (st_writer s) = cfg_store_max_bytes cfg \<and> length replies \<le> length evs"
proof -
  from assms(2) obtain s0 where op: "open_store crc env cfg k m fs = Inr s0"
    and lo: "seg_loop crc evs s0 = (replies, stopped, s)"
    by (auto simp: run_store_def and_then_Inr_iff)
  from assms(1) have ok: "distinct (map fst fs)" "cfg_store_max_bytes cfg + header_size \<le> u64_max"
    "\<forall>r \<in> set (received evs). record_ok r"
    by (auto simp: run_ok_def list_all_iff)
  note O = open_store_inv [OF op ok(1,2)]
  from seg_loop_inv [OF conjunct1 [OF O] ok(3) lo] O show ?thesis
    by (simp add: seg_frame_def)
qed

lemma rows_describe:
  assumes "seg_rep crc base recs s olds now rs1 rs2"
  shows "list_all2 (\<lambda>row r. row = index_row r (ci_segment_path row) (ci_segment_offset row))
    (sealed_rows olds @ rows (aw_path (st_writer s)) header_size rs1 @ st_pending s) (sealed_records olds @ rs1 @ rs2)"
proof -
  have R: "list_all2 (\<lambda>row r. row = index_row r (ci_segment_path row) (ci_segment_offset row)) (rows p off rs) rs"
    for p off rs
    by (induction rs arbitrary: off) (simp_all add: rows_def index_row_def)
  have "list_all2 (\<lambda>row r. row = index_row r (ci_segment_path row) (ci_segment_offset row))
      (sealed_rows olds) (sealed_records olds)"
    by (induction olds) (auto simp: sealed_rows_def sealed_records_def R intro!: list_all2_appendI)
  with R assms show ?thesis
    by (auto simp: seg_rep_def intro!: list_all2_appendI)
qed

text \<open>C13: whatever the store is asked to write, flush and seal, every index row the metadata writer accepted
  already points at a record that a new reader of the file gets back, and it describes that record; the
  rows accepted and pending describe, in order, exactly the records received so far, unless the writer
  has stopped on an error.
\<close>

theorem published_rows_readable:
  assumes "run_ok cfg fs evs"
    and "run_store crc env cfg k m fs evs = Inr (replies, stopped, s)"
  shows "\<exists>sent. ms_sent (st_sink s) = ms_sent k @ sent
    \<and> list_all (\<lambda>row. \<exists>r \<in> set (received evs). row_readable crc (cfg_max_record_bytes cfg) (st_fs s) row r) sent
    \<and> (st_fatal s \<or> list_all2 (\<lambda>row r. row = index_row r (ci_segment_path row) (ci_segment_offset row))
          (sent @ st_pending s) (received (take (length replies) evs)))"
proof -
  note I = run_inv [OF assms]
  then obtain olds now rs1 rs2 where rep: "seg_rep crc (ms_sent k) (received (take (length replies) evs)) s olds now rs1 rs2"
    by (auto simp: seg_inv_def)
  let ?sent = "sealed_rows olds @ rows (aw_path (st_writer s)) header_size rs1"
  have "received evs = received (take (length replies) evs) @ received (drop (length replies) evs)"
    using received_append [of "take (length replies) evs" "drop (length replies) evs"] by simp
  then have "set (received (take (length replies) evs)) \<subseteq> set (received evs)"
    by (metis set_append Un_upper1)
  with sent_row_readable [OF rep] I
  have "list_all (\<lambda>row. \<exists>r \<in> set (received evs). row_readable crc (cfg_max_record_bytes cfg) (st_fs s) row r) ?sent"
    unfolding list_all_iff by (metis subset_iff)
  moreover have "st_fatal s \<or> list_all2 (\<lambda>row r. row = index_row r (ci_segment_path row) (ci_segment_offset row))
      (?sent @ st_pending s) (received (take (length replies) evs))"
    using rows_describe [OF rep] rep by (auto simp: seg_rep_def)
  moreover have "ms_sent (st_sink s) = ms_sent k @ ?sent"
    using rep by (simp add: seg_rep_def)
  ultimately show ?thesis by blast
qed

subsection \<open>Crashes\<close>

text \<open>A crash keeps every file, and of its bytes at least the synced ones.\<close>

definition cut_file :: "path \<times> fs_file \<Rightarrow> path \<times> fs_file \<Rightarrow> bool" where
  "cut_file = (\<lambda>(p, f) (p', f'). p' = p \<and> prefix (f_data f') (f_data f)
     \<and> f_synced f \<le> length (f_data f') \<and> f_synced f' = length (f_data f'))"

definition crashed :: "file_system \<Rightarrow> file_system \<Rightarrow> bool" where
  "crashed fs fs' \<longleftrightarrow> list_all2 cut_file fs fs'"

lemma crashed_map_of:
  assumes "crashed fs fs'"
  shows "(map_of fs p = None \<and> map_of fs' p = None)
    \<or> (\<exists>f f'. map_of fs p = Some f \<and> map_of fs' p = Some f' \<and> cut_file (p, f) (p, f'))"
  using assms unfolding crashed_def
  by (induction rule: list_all2_induct) (auto simp: cut_file_def)

lemma crashed_keys: "crashed fs fs' \<Longrightarrow> map fst fs' = map fst fs"
  unfolding crashed_def by (induction rule: list_all2_induct) (auto simp: cut_file_def)

lemma crashed_whole:
  assumes "crashed fs fs'" "map_of fs p = Some (whole_file crc t rs)"
  shows "map_of fs' p = Some (whole_file crc t rs)"
proof -
  from crashed_map_of [OF assms(1), of p] assms(2) obtain f' where f': "map_of fs' p = Some f'"
    "cut_file (p, whole_file crc t rs) (p, f')"
    by auto
  then have "prefix (f_data f') (segment_image crc t rs)" "length (segment_image crc t rs) \<le> length (f_data f')"
    "f_synced f' = length (f_data f')"
    by (auto simp: cut_file_def whole_file_def)
  then have "f_data f' = segment_image crc t rs" "f_synced f' = length (segment_image crc t rs)"
    by (auto simp: prefix_def)
  with f'(1) show ?thesis
    by (cases f') (simp add: whole_file_def)
qed

lemma located_ge: "(o', r) \<in> set (located off rs) \<Longrightarrow> off \<le> o'"
  by (induction rs arbitrary: off) fastforce+

lemma located_complete:
  assumes "(o', r) \<in> set (located off rs)" "o' + (12 + length (record_payload r)) \<le> off + n"
  shows "(o', r) \<in> set (located off (complete_prefix n rs))"
  using assms
proof (induction rs arbitrary: off n)
  case (Cons q rs)
  let ?l = "12 + length (record_payload q)"
  show ?case
  proof (cases "(o', r) = (off, q)")
    case True
    with Cons.prems show ?thesis by (simp add: Let_def)
  next
    case False
    with Cons.prems have m: "(o', r) \<in> set (located (off + ?l) rs)" by auto
    with located_ge [OF m] Cons.prems have "?l \<le> n" by simp
    with Cons.IH [OF m, of "n - ?l"] Cons.prems show ?thesis by (simp add: Let_def)
  qed
qed simp

lemma recover_tail_image:
  assumes st: "\<forall>r \<in> set rs. storable mx r" and img: "prefix (f_data f) (segment_image crc now rs)"
    and len: "length (segment_image crc now rs) \<le> u64_max" and syn: "f_synced f = length (f_data f)"
    and la: "latest_segment_path root fs = Some p" and f: "map_of fs p = Some f" and dk: "distinct (map fst fs)"
  shows "\<exists>fs'. recover_last_segment_tail crc root mx fs = Inr fs' \<and> (\<forall>q. q \<noteq> p \<longrightarrow> map_of fs' q = map_of fs q)
    \<and> map_of fs' p = (if length (f_data f) < header_size then None
        else Some (whole_file crc now (complete_prefix (length (f_data f) - header_size) rs)))"
proof -
  let ?n = "length (f_data f)" and ?kept = "complete_prefix (length (f_data f) - header_size) rs"
  have t: "take ?n (segment_image crc now rs) = f_data f" and n: "?n \<le> length (segment_image crc now rs)"
    using img by (auto simp: prefix_def)
  from recover_file_image [OF st n len, unfolded t] obtain d where d: "recover_file crc mx (f_data f) = Inr d"
    "d = RemoveFile \<longleftrightarrow> ?n < header_size" "header_size \<le> ?n \<longrightarrow> recovered d (f_data f) = segment_image crc now ?kept"
    by blast
  have R: "recover_last_segment_tail crc root mx fs = Inr (case d of Intact \<Rightarrow> fs | RemoveFile \<Rightarrow> AList.delete p fs
      | TruncateTo n \<Rightarrow> fs_sync p (set_len p n fs))"
    using la f d(1) by (simp add: recover_last_segment_tail_def)
  show ?thesis
  proof (cases d)
    case Intact
    with d have "f_data f = segment_image crc now ?kept" "\<not> ?n < header_size" by (auto simp: recovered_def)
    with R Intact f syn show ?thesis by (cases f) (auto simp: whole_file_def)
  next
    case (TruncateTo m)
    with d have m: "take m (f_data f) = segment_image crc now ?kept" "\<not> ?n < header_size" by (auto simp: recovered_def)
    have sl: "map_of (set_len p m fs) q = (if q = p then Some (f\<lparr>f_data := take m (f_data f), f_synced := min (f_synced f) m\<rparr>)
        else map_of fs q)" for q
      using f by (simp add: set_len_def AList.update_conv')
    from R TruncateTo m show ?thesis
      by (cases f) (auto simp: map_of_fs_sync sl whole_file_def)
  next
    case RemoveFile
    with d have "?n < header_size" by simp
    with R RemoveFile show ?thesis
      by (auto simp: AList.delete_conv')
  qed
qed

lemma active_bound:
  assumes "store_rep crc w fs olds now rs1 rs2"
  shows "length (segment_image crc now (rs1 @ rs2)) \<le> aw_retained_bytes w"
proof -
  from assms obtain f where f: "map_of fs (aw_path w) = Some f" "f_data f @ aw_buf w = segment_image crc now (rs1 @ rs2)"
    and p: "aw_path w \<noteq> []" "butlast (aw_path w) = aw_root w"
    and acc: "aw_retained_bytes w = dir_size (aw_root w) fs + length (aw_buf w)"
    by (auto simp: store_rep_def active_rep_def account_ok_def segment_name_def)
  have "aw_path w \<in> set (read_dir (aw_root w) fs)"
    using f p by (simp add: set_read_dir)
  then have "file_len fs (aw_path w) \<le> dir_size (aw_root w) fs"
    unfolding dir_size_def by (intro member_le_sum) simp_all
  moreover have "file_len fs (aw_path w) = length (f_data f)"
    using f by (simp add: file_len_def)
  moreover have "length (f_data f) + length (aw_buf w) = length (segment_image crc now (rs1 @ rs2))"
    using arg_cong [OF f(2), of length] by simp
  ultimately show ?thesis using acc by simp
qed

text \<open>
  A row describes a record and the record can be read, or it lay beyond the \<open>n\<close> bytes that survived of the
  segment \<open>p\<close>.
\<close>

definition row_survives ::
  "(bytes \<Rightarrow> u32) \<Rightarrow> nat \<Rightarrow> file_system \<Rightarrow> path \<Rightarrow> nat \<Rightarrow> content_index_record \<Rightarrow> content_record \<Rightarrow> bool" where
  "row_survives crc mx fs p n row r \<longleftrightarrow>
     row = index_row r (ci_segment_path row) (ci_segment_offset row)
     \<and> (row_readable crc mx fs row r
        \<or> (ci_segment_path row = p \<and> n < ci_segment_offset row + (12 + length (record_payload r))))"

lemma active_row_survives:
  assumes row: "row \<in> set (rows p header_size rs1)" and st: "\<forall>r \<in> set (rs1 @ rs2). storable mx r"
    and fs: "map_of fs p = (if n < header_size then None
        else Some (whole_file crc now (complete_prefix (n - header_size) (rs1 @ rs2))))"
  shows "\<exists>r \<in> set rs1. row_survives crc mx fs p n row r"
proof -
  let ?kept = "complete_prefix (n - header_size) (rs1 @ rs2)"
  from row obtain o' r where l: "(o', r) \<in> set (located header_size rs1)" and row: "row = index_row r p o'"
    by (auto simp: row_of_located)
  then have l': "(o', r) \<in> set (located header_size (rs1 @ rs2))"
    by (simp add: located_append [where crc = crc])
  have "row_readable crc mx fs row r" if le: "o' + (12 + length (record_payload r)) \<le> n"
  proof -
    have h: "header_size \<le> n" using located_ge [OF l'] le by simp
    with le located_complete [OF l', of "n - header_size"]
    have "(o', r) \<in> set (located header_size ?kept)" by simp
    moreover have "\<forall>r \<in> set ?kept. storable mx r"
      using st complete_prefix_prefix by (metis set_mono_prefix subset_iff)
    ultimately have "read_record_at crc (f_data (whole_file crc now ?kept)) o' mx = Inr (stored r)"
      by (rule segment_read [where now = now and post = "[]"]) (simp add: whole_file_def)
    with h fs show ?thesis by (simp add: row_readable_def row index_row_def)
  qed
  then have "row_survives crc mx fs p n row r"
    by (auto simp: row_survives_def row index_row_def)
  with located_in [OF l] show ?thesis by blast
qed

lemma sealed_row_survives:
  assumes "sealed_rep crc w fs olds" "crashed fs fs'" "\<forall>q. q \<noteq> aw_path w \<longrightarrow> map_of fs2 q = map_of fs' q"
    and "row \<in> set (sealed_rows olds)"
  shows "\<exists>r \<in> set (sealed_records olds). row_survives crc (aw_max_record_bytes w) fs2 p n row r"
proof -
  have "sealed_rep crc w fs2 olds"
    using assms(1,3) crashed_whole [OF assms(2)] by (fastforce simp: sealed_rep_def)
  from sealed_row_readable [OF this assms(4)] show ?thesis
    by (auto simp: row_survives_def row_readable_def)
qed

text \<open>What recovery makes of the segment that was open, and of the sealed ones.\<close>

lemma crash_recovers:
  assumes "run_ok cfg fs evs" and "run_store crc env cfg k m fs evs = Inr (replies, stopped, s)"
    and "crashed (st_fs s) fs'" and "latest_segment_path (cfg_root cfg) fs' = Some (aw_path (st_writer s))"
    and sr: "store_rep crc (st_writer s) (st_fs s) olds now rs1 rs2"
  shows "\<exists>fs2. recover_last_segment_tail crc (cfg_root cfg) (cfg_max_record_bytes cfg) fs' = Inr fs2
    \<and> (\<forall>q. q \<noteq> aw_path (st_writer s) \<longrightarrow> map_of fs2 q = map_of fs' q)
    \<and> map_of fs2 (aw_path (st_writer s)) =
        (if file_len fs' (aw_path (st_writer s)) < header_size then None
         else Some (whole_file crc now (complete_prefix (file_len fs' (aw_path (st_writer s)) - header_size) (rs1 @ rs2))))"
proof -
  let ?w = "st_writer s" and ?p = "aw_path (st_writer s)" and ?mx = "cfg_max_record_bytes cfg"
  note I = run_inv [OF assms(1,2)]
  have st: "\<forall>r \<in> set (rs1 @ rs2). storable ?mx r" and dk: "distinct (map fst (st_fs s))" and ac: "account_ok ?w (st_fs s)"
    using sr I by (auto simp: store_rep_def)
  from sr obtain f where f: "map_of (st_fs s) ?p = Some f" "f_data f @ aw_buf ?w = segment_image crc now (rs1 @ rs2)"
    by (auto simp: store_rep_def active_rep_def)
  from crashed_map_of [OF assms(3), of ?p] f(1) obtain f' where f': "map_of fs' ?p = Some f'" "cut_file (?p, f) (?p, f')"
    by auto
  have pre: "prefix (f_data f') (segment_image crc now (rs1 @ rs2))" and syn: "f_synced f' = length (f_data f')"
    using f'(2) f(2) by (auto simp: cut_file_def simp flip: f(2) intro: prefix_order.trans)
  have len: "length (segment_image crc now (rs1 @ rs2)) \<le> u64_max"
    using active_bound [OF sr] ac by (simp add: account_ok_def)
  have dk': "distinct (map fst fs')"
    using dk crashed_keys [OF assms(3)] by simp
  have n: "file_len fs' ?p = length (f_data f')" using f'(1) by (simp add: file_len_def)
  show ?thesis
    unfolding n using recover_tail_image [OF st pre len syn assms(4) f'(1) dk'] by blast
qed

lemma rep_received:
  assumes "seg_rep crc base (received (take (length replies) evs)) s olds now rs1 rs2"
  shows "subseq (sealed_records olds @ rs1 @ rs2) (received evs)"
  using assms subseq_prefix_append [of _ "received (take (length replies) evs)" "received (drop (length replies) evs)"]
  by (simp add: seg_rep_def flip: received_append)

lemma sealed_kept:
  assumes "sealed_rep crc w fs olds" "crashed fs fs'" "\<forall>q. q \<noteq> aw_path w \<longrightarrow> map_of fs2 q = map_of fs' q"
    and "(p, t, qs) \<in> set olds"
  shows "p \<noteq> aw_path w \<and> map_of fs2 p = Some (whole_file crc t qs)"
  using assms crashed_whole [OF assms(2)] by (fastforce simp: sealed_rep_def)

text \<open>C14: after any run, cut the power: files keep at least their synced bytes. Let the segment the writer had open
  be the newest by its name. When the store opens again, recovery of the newest segment succeeds and touches no
  other file; the newest segment is gone if not even its header survived and else holds exactly those of
  its records that survived whole; the sealed segments of the run and the records of the open one are, unless
  the writer had stopped on an error, exactly the records received; and every published index row whose record lies in a
  sealed segment, or within the bytes of the newest one that survived, can still be read.
\<close>

theorem crash_recovery:
  assumes "run_ok cfg fs evs"
    and "run_store crc env cfg k m fs evs = Inr (replies, stopped, s)"
    and "crashed (st_fs s) fs'"
    and "latest_segment_path (cfg_root cfg) fs' = Some (aw_path (st_writer s))"
  shows "\<exists>fs2 olds now active published. recover_last_segment_tail crc (cfg_root cfg) (cfg_max_record_bytes cfg) fs' = Inr fs2
    \<and> (\<forall>q. q = aw_path (st_writer s) \<or> map_of fs2 q = map_of fs' q)
    \<and> (\<exists>f. map_of (st_fs s) (aw_path (st_writer s)) = Some f
          \<and> f_data f @ aw_buf (st_writer s) = segment_image crc now active)
    \<and> map_of fs2 (aw_path (st_writer s)) =
        (if file_len fs' (aw_path (st_writer s)) < header_size then None
         else Some (whole_file crc now (complete_prefix (file_len fs' (aw_path (st_writer s)) - header_size) active)))
    \<and> list_all (\<lambda>(q, t, qs). q \<noteq> aw_path (st_writer s) \<and> map_of fs2 q = Some (whole_file crc t qs)) olds
    \<and> subseq (sealed_records olds @ active) (received evs)
    \<and> (st_fatal s \<or> sealed_records olds @ active = received (take (length replies) evs))
    \<and> prefix published active
    \<and> ms_sent (st_sink s) = ms_sent k @ sealed_rows olds @ rows (aw_path (st_writer s)) header_size published
    \<and> list_all (\<lambda>row. \<exists>r \<in> set (received evs). row_survives crc (cfg_max_record_bytes cfg) fs2
          (aw_path (st_writer s)) (file_len fs' (aw_path (st_writer s))) row r)
        (sealed_rows olds @ rows (aw_path (st_writer s)) header_size published)"
proof -
  let ?w = "st_writer s" and ?p = "aw_path (st_writer s)" and ?mx = "cfg_max_record_bytes cfg"
  note I = run_inv [OF assms(1,2)]
  then obtain olds now rs1 rs2 where rep: "seg_rep crc (ms_sent k) (received (take (length replies) evs)) s olds now rs1 rs2"
    by (auto simp: seg_inv_def)
  have sr: "store_rep crc ?w (st_fs s) olds now rs1 rs2" using rep by (simp add: seg_rep_def)
  have st: "\<forall>r \<in> set (rs1 @ rs2). storable ?mx r" and sealed: "sealed_rep crc ?w (st_fs s) olds"
    using sr I by (auto simp: store_rep_def)
  from sr obtain f where f: "map_of (st_fs s) ?p = Some f" "f_data f @ aw_buf ?w = segment_image crc now (rs1 @ rs2)"
    by (auto simp: store_rep_def active_rep_def)
  obtain fs2 where
    R: "recover_last_segment_tail crc (cfg_root cfg) ?mx fs' = Inr fs2" "\<forall>q. q \<noteq> ?p \<longrightarrow> map_of fs2 q = map_of fs' q"
      "map_of fs2 ?p = (if file_len fs' ?p < header_size then None
          else Some (whole_file crc now (complete_prefix (file_len fs' ?p - header_size) (rs1 @ rs2))))"
    using crash_recovers [OF assms sr] by blast
  note ss = rep_received [OF rep]
  have sub: "r \<in> set (received evs)" if "r \<in> set (sealed_records olds @ rs1 @ rs2)" for r
    by (rule list_emb_set [OF ss that]) simp
  have "list_all (\<lambda>row. \<exists>r \<in> set (received evs). row_survives crc ?mx fs2 ?p (file_len fs' ?p) row r)
      (sealed_rows olds @ rows ?p header_size rs1)"
    unfolding list_all_iff
    using sealed_row_survives [OF sealed assms(3) R(2), of _ ?p "file_len fs' ?p"] active_row_survives [OF _ st R(3)] sub I
    by (metis Un_iff set_append)
  moreover have "list_all (\<lambda>(q, t, qs). q \<noteq> ?p \<and> map_of fs2 q = Some (whole_file crc t qs)) olds"
    using sealed_kept [OF sealed assms(3) R(2)] by (auto simp: list_all_iff)
  ultimately show ?thesis
    using R rep f ss
    by (intro exI [of _ fs2] exI [of _ olds] exI [of _ now] exI [of _ "rs1 @ rs2"] exI [of _ rs1])
      (auto simp: seg_rep_def)
qed

subsection \<open>Budget, snapshots, barriers\<close>

text \<open>C26: the byte account of the writer is exact (the files of the directory and the buffer) and the store
  never exceeds its budget by more than the one segment header that start-up writes without asking.
\<close>

theorem disk_budget:
  assumes "run_ok cfg fs evs"
    and "run_store crc env cfg k m fs evs = Inr (replies, stopped, s)"
  shows "directory_bytes (cfg_root cfg) (st_fs s) + length (aw_buf (st_writer s)) = aw_retained_bytes (st_writer s)
    \<and> aw_retained_bytes (st_writer s) \<le> cfg_store_max_bytes cfg + header_size"
proof -
  note I = run_inv [OF assms]
  then obtain olds now rs1 rs2 where "store_rep crc (st_writer s) (st_fs s) olds now rs1 rs2"
    by (auto simp: seg_inv_def seg_rep_def)
  with I show ?thesis
    by (auto simp: store_rep_def account_ok_def directory_bytes_eq)
qed

lemma seg_loop_frame:
  assumes "seg_inv crc base recs s" "list_all record_ok (received evs)" "seg_loop crc evs s = (replies, stopped, s')"
  shows "seg_frame s s'"
  using seg_loop_inv [OF assms(1) _ assms(3)] assms(2) by (simp add: list_all_iff)

text \<open>C15: a seal that answers with paths has published and synced everything received before it: the answer lists
  every segment file of the directory but the new active one; the segments the run has sealed are among
  them, whole on disk, and hold, unless the writer had stopped on an error, exactly the records received before; their rows are sent
  and durable; and nothing the writer does later changes any listed file.
\<close>

theorem seal_snapshot:
  assumes "run_ok cfg fs evs" and "run_store crc env cfg k m fs evs = Inr (replies, False, s)"
    and "seg_step crc env' (Received SealCmd) s = (stop, SealReply (Inr paths), s1)"
    and "list_all record_ok (received later)" and "seg_loop crc later s1 = (replies', stopped', s2)"
  shows "st_pending s1 = []
    \<and> set paths = {p. segment_name (cfg_root cfg) p \<and> map_of (st_fs s1) p \<noteq> None} - {aw_path (st_writer s1)}
    \<and> aw_path (st_writer s) \<in> set paths
    \<and> list_all (\<lambda>p. map_of (st_fs s2) p = map_of (st_fs s1) p) paths
    \<and> (\<exists>sealed. list_all (\<lambda>(p, t, rs). p \<in> set paths \<and> map_of (st_fs s1) p = Some (whole_file crc t rs)) sealed
          \<and> ms_sent (st_sink s1) = ms_sent k @ sealed_rows sealed
          \<and> length (ms_sent (st_sink s1)) \<le> ms_durable (st_sink s1)
          \<and> subseq (sealed_records sealed) (received evs)
          \<and> (st_fatal s \<or> sealed_records sealed = received (take (length replies) evs)))"
proof -
  let ?s = "s\<lparr>st_metrics := (st_metrics s)\<lparr>sm_last_progress_ns := se_now_ns env'\<rparr>\<rparr>"
  note I = run_inv [OF assms(1,2)]
  then obtain olds now rs1 rs2 where "seg_rep crc (ms_sent k) (received (take (length replies) evs)) s olds now rs1 rs2"
    by (auto simp: seg_inv_def)
  then have rep: "seg_rep crc (ms_sent k) (received (take (length replies) evs)) ?s olds now rs1 rs2"
    by (simp add: seg_rep_def)
  obtain res s' where cr: "commit_and_rotate env' ?s = (res, s')" by (cases "commit_and_rotate env' ?s")
  from assms(3) cr have ok: "res = Inr ()" "s1 = s'"
    and paths: "paths = filter (\<lambda>p. p \<noteq> aw_path (st_writer s1)) (list_segments (aw_root (st_writer s1)) (st_fs s1))"
    by (auto simp: seg_step_def handle_seal_def Let_def split: sum.splits)
  note C = commit_and_rotate_rep [OF rep cr]
  let ?sealed = "olds @ [(aw_path (st_writer s), now, rs1 @ rs2)]"
  from C ok have rep1: "seg_rep crc (ms_sent k) (received (take (length replies) evs)) s1 ?sealed (se_now_ns env') [] []"
    and fatal: "st_fatal s1 = st_fatal s"
    by auto
  have root: "aw_root (st_writer s1) = cfg_root cfg" using C I by (simp add: seg_frame_def ok)
  have paths': "set paths = {p. segment_name (cfg_root cfg) p \<and> map_of (st_fs s1) p \<noteq> None} - {aw_path (st_writer s1)}"
    unfolding paths root by (auto simp: set_list_segments)
  have sealed: "sealed_rep crc (st_writer s1) (st_fs s1) ?sealed" using rep1 by (simp add: seg_rep_def store_rep_def)
  have in_paths: "p \<in> set paths \<and> map_of (st_fs s1) p = Some (whole_file crc t rs)" if "(p, t, rs) \<in> set ?sealed" for p t rs
    using sealed that root by (fastforce simp: sealed_rep_def paths')
  have "seg_frame s1 s2"
    by (rule seg_loop_frame [OF _ assms(4,5)]) (use rep1 in \<open>unfold seg_inv_def, blast\<close>)
  then have "list_all (\<lambda>p. map_of (st_fs s2) p = map_of (st_fs s1) p) paths"
    unfolding list_all_iff paths' seg_frame_def by blast
  moreover have "st_pending s1 = []" and sent: "ms_sent (st_sink s1) = ms_sent k @ sealed_rows ?sealed"
    and "length (ms_sent (st_sink s1)) \<le> ms_durable (st_sink s1)"
    and "st_fatal s1 \<or> sealed_records ?sealed = received (take (length replies) evs)"
    using rep1 by (auto simp: seg_rep_def rows_def)
  moreover have "subseq (sealed_records ?sealed) (received evs)"
    using rep_received [OF rep1] by simp
  moreover have "aw_path (st_writer s) \<in> set paths" using in_paths [of "aw_path (st_writer s)"] by auto
  moreover have "list_all (\<lambda>(p, t, rs). p \<in> set paths \<and> map_of (st_fs s1) p = Some (whole_file crc t rs)) ?sealed"
    using in_paths unfolding list_all_iff by blast
  ultimately show ?thesis
    using paths' fatal by (intro conjI exI [of _ ?sealed]) auto
qed

text \<open>C29: a record that cannot be prepared (too long, or over the budget) is dropped, and the writer stops, but
  only after it has handled one more command: a flush barrier sent right behind the record still answers
  that everything before it is visible.
\<close>

theorem flush_after_loss:
  assumes "prepare_record (st_writer s) r = Inl e" and "ms_room (st_sink s) = None"
  shows "\<exists>s'. seg_loop crc [(env1, Received (RecordCmd r)), (env2, Received FlushCmd)] s
      = ([NoReply, FlushReply (Inr ())], True, s')
    \<and> ms_sent (st_sink s') = ms_sent (st_sink s) @ st_pending s \<and> st_fatal s'"
proof -
  have P: "publish rs k = (Inr (), [], k\<lparr>ms_sent := ms_sent k @ rs\<rparr>)" if "ms_room k = None" for rs k
    using that by (induction rs arbitrary: k) (simp_all add: sink_send_def)
  show ?thesis
    using assms
    by (simp add: seg_step_def handle_record_def observe_queue_def Let_def flush_and_publish_def P set_fatal_def
        writer_flush_visible_def writer_flush_sync_def bw_flush_def)
qed

text \<open>A record the writer accepts is read back from the file at the offset it reports, once the buffer is
  flushed (an empty service name comes back as none).
\<close>

theorem write_read_roundtrip:
  assumes "record_ok r" and "prepare_record w r = Inr prepared"
    and "map_of fs (aw_path w) \<noteq> None"
    and "write_prepared crc r prepared w fs = Inr ((p, off, n), w', fs')"
    and "bw_flush w' fs' = (w2, fs2)"
  shows "open_file fs2 p = Inr (f_data (the (map_of fs (aw_path w))) @ aw_buf w @ record_image crc r)
    \<and> n = length (record_image crc r)
    \<and> and_then (open_file fs2 p) (\<lambda>file. read_record_at crc file off (aw_max_record_bytes w)) = Inr (stored r)"
proof -
  obtain f where f: "map_of fs (aw_path w) = Some f" using assms(3) by blast
  note P = prepare_record_spec [OF assms(2,1)]
  obtain w1 fs1 where fl: "bw_flush w fs = (w1, fs1)" by (cases "bw_flush w fs")
  from P have pr: "pr_prefix prepared @ cr_data r = record_payload r" "pr_payload_len prepared = length (record_payload r)"
    "pr_encoded_len prepared = 12 + length (record_payload r)" and st: "storable (aw_max_record_bytes w) r" by auto
  from write_prepared_appended [OF pr assms(4) fl] obtain w3 where
    app: "appended (record_image crc r) (w1, fs1) (w3, fs')" and off: "off = file_len fs1 (aw_path w1)"
    and p: "p = aw_path w3" and n: "n = 12 + length (record_payload r)"
    and w': "w' = w3\<lparr>aw_bytes := aw_bytes w3 + (12 + length (record_payload r)),
        aw_retained_bytes := sat_add64 (aw_retained_bytes w3) (12 + length (record_payload r))\<rparr>"
    by metis
  have w1: "w1 = w\<lparr>aw_buf := []\<rparr>" and fs1: "fs1 = fs_append (aw_path w) (aw_buf w) fs"
    using fl by (auto simp: bw_flush_def)
  from app obtain d b where w3: "w3 = w1\<lparr>aw_buf := b\<rparr>" and fs': "fs' = fs_append (aw_path w1) d fs1"
    and db: "d @ b = aw_buf w1 @ record_image crc r"
    by (rule appendedE)
  have fs2: "fs2 = fs_append (aw_path w) (aw_buf w @ record_image crc r) fs"
    using assms(5) db by (simp add: bw_flush_def w' w3 w1 fs' fs1 fs_append_append flip: db)
  have fo: "open_file fs2 p = Inr ((f_data f @ aw_buf w) @ record_image crc r)"
    using f by (simp add: open_file_def fs2 p w3 w1 map_of_fs_append)
  have "off = length (f_data f @ aw_buf w)"
    using f by (simp add: off file_len_def fs1 w1 map_of_fs_append)
  then have "read_record_at crc ((f_data f @ aw_buf w) @ record_image crc r) off (aw_max_record_bytes w) = Inr (stored r)"
    using read_record_at_image [OF st, of crc "f_data f @ aw_buf w" "[]"] by simp
  with fo f n show ?thesis by simp
qed

subsection \<open>An example run\<close>

definition seg_env_at :: "string \<Rightarrow> seg_env" where
  "seg_env_at stamp = \<lparr>se_stamp = stamp, se_uuid_text = ''u'', se_now_ns = 5, se_rx_len = 0\<rparr>"

definition seg_example_cfg :: seg_config where
  "seg_example_cfg = \<lparr>cfg_root = [''data''], cfg_max_bytes = 100, cfg_max_record_bytes = 1000, cfg_store_max_bytes = 10000\<rparr>"

definition seg_example_record :: "uuid \<Rightarrow> content_record" where
  "seg_example_record n = \<lparr>cr_id = n, cr_flow_id = 2, cr_ts_ns = 3, cr_service = Some ''web'', cr_direction = AToB,
     cr_view = TcpRaw, cr_stream_offset = 0, cr_data = [1, 2, 3]\<rparr>"

definition seg_example_sink :: meta_sink where
  "seg_example_sink = \<lparr>ms_sent = [], ms_durable = 0, ms_room = None\<rparr>"

definition seg_example_metrics :: seg_metrics where
  "seg_example_metrics = \<lparr>sm_segment_bytes = 0, sm_segment_disk_bytes = 0, sm_queue_depth = 0,
     sm_queue_high_watermark = 0, sm_last_progress_ns = 0\<rparr>"

definition seg_example_events :: "(seg_env \<times> seg_event) list" where
  "seg_example_events = [(seg_env_at ''b'', Received (RecordCmd (seg_example_record 1))),
     (seg_env_at ''b'', Received (RecordCmd (seg_example_record 2))), (seg_env_at ''c'', Received FlushCmd)]"

lemmas seg_example_defs = seg_env_at_def seg_example_cfg_def seg_example_record_def seg_example_sink_def
  seg_example_metrics_def seg_example_events_def

lemmas seg_eval = run_store_def open_store_def recover_last_segment_tail_def latest_segment_path_def
  list_segments_def read_dir_def directory_bytes_def new_writer_def create_segment_def bw_write_all_def
  seg_step_def handle_record_def observe_queue_def prepare_record_def encode_record_prefix_def service_bytes_def
  rotate_for_def needs_rotation_def check_rotation_budget_def commit_and_rotate_def flush_and_publish_def
  writer_flush_visible_def writer_flush_sync_def bw_flush_def sink_send_def sink_durable_barrier_def
  rotate_after_commit_def store_record_def write_prepared_def stream_position_def fs_append_def fs_sync_def
  file_len_def set_fatal_def handle_seal_def sat_add64_def Let_def

text \<open>The state in which a crash finds everything flushed.\<close>

definition settle :: "file_system \<Rightarrow> file_system" where
  "settle fs = map (\<lambda>(p, f). (p, f\<lparr>f_synced := length (f_data f)\<rparr>)) fs"

lemma seg_example_ok: "run_ok seg_example_cfg [] seg_example_events"
proof -
  have "utf8_valid (as_bytes ''web'')"
    by (simp add: as_bytes_def utf8_valid.simps utf8_step_def byte_or_zero_def Let_def)
  then show ?thesis
    by (simp add: run_ok_def seg_example_defs record_ok_def service_bytes_def)
qed

lemma seg_example_run:
  "\<exists>s. run_store (\<lambda>_. 7) (seg_env_at ''a'') seg_example_cfg seg_example_sink seg_example_metrics [] seg_example_events
      = Inr ([NoReply, NoReply, FlushReply (Inr ())], False, s)
    \<and> length (ms_sent (st_sink s)) = 2 \<and> \<not> st_fatal s \<and> st_pending s = []
    \<and> aw_path (st_writer s) = [''data'', ''segment-b-u.seg'']
    \<and> crashed (st_fs s) (settle (st_fs s))
    \<and> latest_segment_path [''data''] (settle (st_fs s)) = Some [''data'', ''segment-b-u.seg'']"
  by (simp add: seg_eval seg_example_defs crashed_def cut_file_def settle_def extension_of_def
      less_eq_char_def less_char_def)

lemma published_rows_readable_witness:
  "\<exists>replies s. run_store (\<lambda>_. 7) (seg_env_at ''a'') seg_example_cfg seg_example_sink seg_example_metrics [] seg_example_events
      = Inr (replies, False, s) \<and> length (ms_sent (st_sink s)) = 2
    \<and> list_all (\<lambda>row. \<exists>r \<in> set (received seg_example_events). row_readable (\<lambda>_. 7) 1000 (st_fs s) row r) (ms_sent (st_sink s))"
proof -
  from seg_example_run obtain s where
    run: "run_store (\<lambda>_. 7) (seg_env_at ''a'') seg_example_cfg seg_example_sink seg_example_metrics [] seg_example_events
      = Inr ([NoReply, NoReply, FlushReply (Inr ())], False, s)" and len: "length (ms_sent (st_sink s)) = 2"
    by blast
  from published_rows_readable [OF seg_example_ok run] run len show ?thesis
    by (auto simp: seg_example_sink_def seg_example_cfg_def)
qed

lemma crash_recovery_witness:
  "\<exists>s fs2 olds active. run_store (\<lambda>_. 7) (seg_env_at ''a'') seg_example_cfg seg_example_sink seg_example_metrics [] seg_example_events
      = Inr ([NoReply, NoReply, FlushReply (Inr ())], False, s) \<and> crashed (st_fs s) (settle (st_fs s))
    \<and> recover_last_segment_tail (\<lambda>_. 7) [''data''] 1000 (settle (st_fs s)) = Inr fs2
    \<and> sealed_records olds @ active = [seg_example_record 1, seg_example_record 2]"
proof -
  from seg_example_run obtain s where
    run: "run_store (\<lambda>_. 7) (seg_env_at ''a'') seg_example_cfg seg_example_sink seg_example_metrics [] seg_example_events
      = Inr ([NoReply, NoReply, FlushReply (Inr ())], False, s)" and cr: "crashed (st_fs s) (settle (st_fs s))"
    and nf: "\<not> st_fatal s"
    and la: "latest_segment_path (cfg_root seg_example_cfg) (settle (st_fs s)) = Some (aw_path (st_writer s))"
    by (auto simp: seg_example_cfg_def)
  from crash_recovery [OF seg_example_ok run cr la] nf obtain fs2 olds active where
    "recover_last_segment_tail (\<lambda>_. 7) (cfg_root seg_example_cfg) (cfg_max_record_bytes seg_example_cfg) (settle (st_fs s)) = Inr fs2"
    "sealed_records olds @ active = received (take (length [NoReply, NoReply, FlushReply (Inr ())]) seg_example_events)"
    by (elim exE conjE disjE) (blast+)
  then show ?thesis using run cr by (simp add: seg_example_cfg_def seg_example_events_def) blast
qed

lemma disk_budget_witness:
  "\<exists>s. run_store (\<lambda>_. 7) (seg_env_at ''a'') seg_example_cfg seg_example_sink seg_example_metrics [] seg_example_events
      = Inr ([NoReply, NoReply, FlushReply (Inr ())], False, s)
    \<and> directory_bytes [''data''] (st_fs s) + length (aw_buf (st_writer s)) \<le> 10020"
proof -
  from seg_example_run obtain s where
    run: "run_store (\<lambda>_. 7) (seg_env_at ''a'') seg_example_cfg seg_example_sink seg_example_metrics [] seg_example_events
      = Inr ([NoReply, NoReply, FlushReply (Inr ())], False, s)"
    by blast
  from disk_budget [OF seg_example_ok run] run show ?thesis
    by (auto simp: seg_example_cfg_def)
qed

lemma seg_example_seal:
  "\<exists>s s1. run_store (\<lambda>_. 7) (seg_env_at ''a'') seg_example_cfg seg_example_sink seg_example_metrics [] seg_example_events
      = Inr ([NoReply, NoReply, FlushReply (Inr ())], False, s) \<and> \<not> st_fatal s
    \<and> seg_step (\<lambda>_. 7) (seg_env_at ''c'') (Received SealCmd) s
      = (False, SealReply (Inr [[''data'', ''segment-a-u.seg''], [''data'', ''segment-b-u.seg'']]), s1)"
  by (simp add: seg_eval seg_example_defs extension_of_def less_eq_char_def less_char_def)

lemma seal_snapshot_witness:
  "\<exists>s s1 s2 replies stopped sealed. seg_step (\<lambda>_. 7) (seg_env_at ''c'') (Received SealCmd) s
      = (False, SealReply (Inr [[''data'', ''segment-a-u.seg''], [''data'', ''segment-b-u.seg'']]), s1)
    \<and> seg_loop (\<lambda>_. 7) seg_example_events s1 = (replies, stopped, s2)
    \<and> map_of (st_fs s2) [''data'', ''segment-b-u.seg''] = map_of (st_fs s1) [''data'', ''segment-b-u.seg'']
    \<and> sealed_records sealed = [seg_example_record 1, seg_example_record 2]
    \<and> ms_sent (st_sink s1) = sealed_rows sealed"
proof -
  from seg_example_seal obtain s s1 where
    run: "run_store (\<lambda>_. 7) (seg_env_at ''a'') seg_example_cfg seg_example_sink seg_example_metrics [] seg_example_events
      = Inr ([NoReply, NoReply, FlushReply (Inr ())], False, s)" and nf: "\<not> st_fatal s"
    and st: "seg_step (\<lambda>_. 7) (seg_env_at ''c'') (Received SealCmd) s
      = (False, SealReply (Inr [[''data'', ''segment-a-u.seg''], [''data'', ''segment-b-u.seg'']]), s1)"
    by blast
  obtain replies stopped s2 where lo: "seg_loop (\<lambda>_. 7) seg_example_events s1 = (replies, stopped, s2)"
    by (cases "seg_loop (\<lambda>_. 7) seg_example_events s1")
  have "list_all record_ok (received seg_example_events)"
    using seg_example_ok by (simp add: run_ok_def)
  note S = seal_snapshot [OF seg_example_ok run st this lo]
  then have "map_of (st_fs s2) [''data'', ''segment-b-u.seg''] = map_of (st_fs s1) [''data'', ''segment-b-u.seg'']"
    by (elim conjE) simp
  moreover from S nf obtain sealed where "sealed_records sealed = received seg_example_events"
      "ms_sent (st_sink s1) = ms_sent seg_example_sink @ sealed_rows sealed"
    by (elim conjE exE) (simp add: seg_example_events_def)
  then have "sealed_records sealed = [seg_example_record 1, seg_example_record 2]"
      "ms_sent (st_sink s1) = sealed_rows sealed"
    by (simp_all add: seg_example_events_def seg_example_sink_def)
  ultimately show ?thesis using st lo by blast
qed

definition seg_example_writer :: active_writer where
  "seg_example_writer = \<lparr>aw_root = [''data''], aw_max_bytes = 100, aw_max_record_bytes = 1000, aw_buf = [],
     aw_path = [''data'', ''x.seg''], aw_bytes = 20, aw_retained_bytes = 20, aw_store_max_bytes = 10000\<rparr>"

definition seg_example_thread :: "nat \<Rightarrow> seg_thread" where
  "seg_example_thread mx = \<lparr>st_fs = [([''data'', ''x.seg''], \<lparr>f_data = write_header 1, f_synced = 0\<rparr>)],
     st_writer = seg_example_writer\<lparr>aw_max_record_bytes := mx\<rparr>, st_pending = [], st_sink = seg_example_sink,
     st_metrics = seg_example_metrics, st_fatal = False\<rparr>"

lemma flush_after_loss_witness:
  "\<exists>s'. seg_loop (\<lambda>_. 7) [(seg_env_at ''a'', Received (RecordCmd (seg_example_record 1))), (seg_env_at ''a'', Received FlushCmd)]
      (seg_example_thread 10) = ([NoReply, FlushReply (Inr ())], True, s') \<and> ms_sent (st_sink s') = []"
proof -
  have "prepare_record (st_writer (seg_example_thread 10)) (seg_example_record 1) = Inl (RecordLimitExceeded 62)"
    by (simp add: seg_eval seg_example_defs seg_example_thread_def seg_example_writer_def)
  from flush_after_loss [OF this, of "\<lambda>_. 7" "seg_env_at ''a''" "seg_env_at ''a''"] show ?thesis
    by (auto simp: seg_example_thread_def seg_example_sink_def)
qed

lemma write_read_roundtrip_witness:
  "\<exists>off n w' fs' w2 fs2 prepared. prepare_record seg_example_writer (seg_example_record 1) = Inr prepared
    \<and> write_prepared (\<lambda>_. 7) (seg_example_record 1) prepared seg_example_writer (st_fs (seg_example_thread 1000))
        = Inr (([''data'', ''x.seg''], off, n), w', fs')
    \<and> bw_flush w' fs' = (w2, fs2)
    \<and> and_then (open_file fs2 [''data'', ''x.seg'']) (\<lambda>file. read_record_at (\<lambda>_. 7) file off 1000) = Inr (seg_example_record 1)"
proof -
  obtain prepared off n w' fs' where pr: "prepare_record seg_example_writer (seg_example_record 1) = Inr prepared"
    and wr: "write_prepared (\<lambda>_. 7) (seg_example_record 1) prepared seg_example_writer (st_fs (seg_example_thread 1000))
        = Inr (([''data'', ''x.seg''], off, n), w', fs')"
    by (simp add: seg_eval seg_example_defs seg_example_thread_def seg_example_writer_def)
  obtain w2 fs2 where fl: "bw_flush w' fs' = (w2, fs2)" by (cases "bw_flush w' fs'")
  have ok: "record_ok (seg_example_record 1)"
    using seg_example_ok by (simp add: run_ok_def seg_example_events_def)
  have "map_of (st_fs (seg_example_thread 1000)) (aw_path seg_example_writer) \<noteq> None"
    by (simp add: seg_example_thread_def seg_example_writer_def)
  from write_read_roundtrip [OF ok pr this wr fl] pr wr fl show ?thesis
    by (fastforce simp: seg_example_writer_def stored_def seg_example_record_def)
qed

end
