(* ===== verification/Http_Message.thy ===== *)
theory Http_Message
  imports Bazalt_Model Rust_Text
begin

text \<open>
  The parts of the HTTP analyser of \<open>src/src/http/mod.rs\<close> below its stream parser: header fields and framing
  (\<open>parse_header\<close> and what it calls), the search for a message start, the chunked decoder, and the decoded
  body.

  The crate \<open>httparse\<close> is the record \<open>http_lib\<close> of its two parsers; the inflating readers of \<open>flate2\<close> are its
  third field: the blocks of bytes that the successive calls of \<open>read\<close> return for a compressed body, and
  whether the reader then ends (or fails). Nothing is assumed about any of them.
\<close>

subsection \<open>Headers\<close>

record http_field =
  fld_name :: bytes
  fld_value :: bytes

datatype 'a parse_status = ParseFailed | ParsePartial | ParseComplete 'a

datatype encoding = Identity | Gzip | Deflate

record http_lib =
  lib_response :: "bytes \<Rightarrow> (u16 option \<times> http_field list) parse_status"
  lib_request :: "bytes \<Rightarrow> (string option \<times> string option \<times> http_field list) parse_status"
  lib_inflate :: "encoding \<Rightarrow> bytes \<Rightarrow> bytes list \<times> bool"

datatype http_error =
    MalformedHeader | PartialHeader | InvalidRequestLine
  | InvalidContentLength | ContentLengthOverflow | ConflictingContentLength
  | InvalidTransferEncoding | EmptyTransferCoding | ChunkedNotFinal
  | ChunkLineLimit | BadChunkSize | MissingChunkCrlf | ChunkTrailerLimit
  | DecodedLimit | DecodeFailed

record parsed_header =
  ph_request :: bool
  ph_method :: "string option"
  ph_host :: "string option"
  ph_path :: "string option"
  ph_status :: "u16 option"
  ph_user_agent :: "string option"
  ph_content_type :: "string option"
  ph_content_length :: "nat option"
  ph_has_transfer_encoding :: bool
  ph_transfer_final_chunked :: bool
  ph_ambiguous_framing :: bool
  ph_encoding :: encoding

fun header_bytes :: "http_field list \<Rightarrow> bytes \<Rightarrow> bytes option" where
  "header_bytes [] name = None"
| "header_bytes (h # hs) name =
     (if eq_ignore_ascii_case (fld_name h) name then Some (fld_value h) else header_bytes hs name)"

definition header_text :: "http_field list \<Rightarrow> bytes \<Rightarrow> string option" where
  "header_text headers name = map_option (\<lambda>v. of_bytes (trim (lossy_bytes v))) (header_bytes headers name)"

definition ascii_contains_ignore_case :: "bytes \<Rightarrow> bytes \<Rightarrow> bool" where
  "ascii_contains_ignore_case haystack needle \<longleftrightarrow>
     needle = [] \<or> find_window (map lower_byte needle) (map lower_byte haystack) \<noteq> None"

fun content_length_tokens :: "bytes list \<Rightarrow> nat option \<Rightarrow> http_error + nat option" where
  "content_length_tokens [] val = Inr val"
| "content_length_tokens (t # ts) val =
     (let token = trim t in
      if token = [] \<or> \<not> list_all is_digit token then Inl InvalidContentLength
      else case parse_u64 token of
        None \<Rightarrow> Inl ContentLengthOverflow
      | Some parsed \<Rightarrow>
          (case val of
             Some existing \<Rightarrow> if existing \<noteq> parsed then Inl ConflictingContentLength
                               else content_length_tokens ts val
           | None \<Rightarrow> content_length_tokens ts (Some parsed)))"

fun content_length_fields :: "http_field list \<Rightarrow> nat option \<Rightarrow> http_error + nat option" where
  "content_length_fields [] val = Inr val"
| "content_length_fields (h # hs) val =
     (if eq_ignore_ascii_case (fld_name h) (as_bytes ''content-length'') then
        if \<not> utf8_valid (fld_value h) then Inl InvalidContentLength
        else and_then (content_length_tokens (split_on 44 (fld_value h)) val) (content_length_fields hs)
      else content_length_fields hs val)"

definition parse_content_length :: "http_field list \<Rightarrow> http_error + nat option" where
  "parse_content_length headers = content_length_fields headers None"

fun transfer_codings :: "bytes list \<Rightarrow> bool \<times> bool \<Rightarrow> http_error + bool \<times> bool" where
  "transfer_codings [] st = Inr st"
| "transfer_codings (raw # raws) st =
     (let coding = trim (hd (split_on 59 raw)) in
      if coding = [] then Inl EmptyTransferCoding
      else if snd st then Inl ChunkedNotFinal
      else transfer_codings raws (True, eq_ignore_ascii_case coding (as_bytes ''chunked'')))"

fun transfer_fields :: "http_field list \<Rightarrow> bool \<times> bool \<Rightarrow> http_error + bool \<times> bool" where
  "transfer_fields [] st = Inr st"
| "transfer_fields (h # hs) st =
     (if eq_ignore_ascii_case (fld_name h) (as_bytes ''transfer-encoding'') then
        if \<not> utf8_valid (fld_value h) then Inl InvalidTransferEncoding
        else and_then (transfer_codings (split_on 44 (fld_value h)) st) (transfer_fields hs)
      else transfer_fields hs st)"

definition transfer_encoding_framing :: "http_field list \<Rightarrow> http_error + bool \<times> bool" where
  "transfer_encoding_framing headers = transfer_fields headers (False, False)"

definition start_line ::
  "http_lib \<Rightarrow> bytes \<Rightarrow> http_error + (bool \<times> string option \<times> string option \<times> u16 option \<times> http_field list)" where
  "start_line lib bs =
     (if take 5 bs = as_bytes ''HTTP/'' then
        (case lib_response lib bs of
           ParseFailed \<Rightarrow> Inl MalformedHeader
         | ParsePartial \<Rightarrow> Inl PartialHeader
         | ParseComplete (code, headers) \<Rightarrow> Inr (False, None, None, code, headers))
      else
        (case lib_request lib bs of
           ParseFailed \<Rightarrow> Inl MalformedHeader
         | ParsePartial \<Rightarrow> Inl PartialHeader
         | ParseComplete (method, path, headers) \<Rightarrow>
             if method = None \<or> path = None then Inl InvalidRequestLine
             else Inr (True, method, path, None, headers)))"

definition parse_header :: "http_lib \<Rightarrow> bytes \<Rightarrow> http_error + parsed_header" where
  "parse_header lib bs =
     and_then (start_line lib bs) (\<lambda>(request, method, path, status, headers).
     let host = header_text headers (as_bytes ''host'');
         user_agent = header_text headers (as_bytes ''user-agent'');
         content_type = header_text headers (as_bytes ''content-type'') in
     and_then (parse_content_length headers) (\<lambda>content_length.
     and_then (transfer_encoding_framing headers) (\<lambda>(has_te, final_chunked).
     let encoding =
           (case header_bytes headers (as_bytes ''content-encoding'') of
              Some v \<Rightarrow> if ascii_contains_ignore_case v (as_bytes ''gzip'') then Gzip
                         else if ascii_contains_ignore_case v (as_bytes ''deflate'') then Deflate
                         else Identity
            | None \<Rightarrow> Identity)
     in Inr \<lparr>ph_request = request, ph_method = method, ph_host = host, ph_path = path, ph_status = status,
             ph_user_agent = user_agent, ph_content_type = content_type,
             ph_content_length = (if has_te then None else content_length),
             ph_has_transfer_encoding = has_te, ph_transfer_final_chunked = final_chunked,
             ph_ambiguous_framing = (has_te \<and> content_length \<noteq> None), ph_encoding = encoding\<rparr>)))"

subsection \<open>Searching the buffer\<close>

definition find_crlf_from :: "bytes \<Rightarrow> nat \<Rightarrow> nat option" where
  "find_crlf_from v from =
     (if length v < 2 then None
      else let start = min from (length v - 1)
           in map_option (\<lambda>p. start + p) (find_window [13, 10] (drop start v)))"

definition find_double_crlf_from :: "bytes \<Rightarrow> nat \<Rightarrow> nat option" where
  "find_double_crlf_from v from =
     (if length v < 4 then None
      else let start = min from (length v - 3)
           in map_option (\<lambda>p. start + p) (find_window [13, 10, 13, 10] (drop start v)))"

fun position :: "('a \<Rightarrow> bool) \<Rightarrow> 'a list \<Rightarrow> nat option" where
  "position P [] = None"
| "position P (x # xs) = (if P x then Some 0 else map_option Suc (position P xs))"

definition starts_with :: "bytes \<Rightarrow> bytes \<Rightarrow> bool" where
  "starts_with v pat \<longleftrightarrow> take (length pat) v = pat"

definition looks_like_http_start :: "bytes \<Rightarrow> bool" where
  "looks_like_http_start v =
     (if starts_with v (as_bytes ''HTTP/'') then True
      else case position (\<lambda>b. b = 32) (take 17 v) of
        None \<Rightarrow> False
      | Some method_end \<Rightarrow>
          if \<not> (1 \<le> method_end \<and> method_end \<le> 16) then False else
          let method = take method_end v in
          if \<not> list_all (\<lambda>b. (65 \<le> b \<and> b \<le> 90) \<or> b = 45) method then False else
          let rest = drop (method_end + 1) v in
          if rest = [] then False
          else if method = as_bytes ''CONNECT'' then \<not> is_ascii_whitespace (hd rest)
          else starts_with rest (as_bytes ''/'') \<or> starts_with rest (as_bytes ''*'')
            \<or> starts_with rest (as_bytes ''http://'') \<or> starts_with rest (as_bytes ''https://''))"

text \<open>The scan over the bytes behind position \<open>idx\<close>.\<close>

fun line_starts :: "nat \<Rightarrow> bytes \<Rightarrow> nat option" where
  "line_starts idx [] = None"
| "line_starts idx (b # bs) =
     (if b = 10 \<and> bs \<noteq> [] \<and> looks_like_http_start bs then Some (idx + 1) else line_starts (idx + 1) bs)"

definition find_plausible_http_start :: "bytes \<Rightarrow> nat option" where
  "find_plausible_http_start v = (if looks_like_http_start v then Some 0 else line_starts 0 v)"

subsection \<open>The chunked decoder\<close>

datatype chunk_state = ChunkSize | ChunkBody nat | ChunkCrlf | ChunkTrailers

record chunked_decoder =
  cd_state :: chunk_state
  cd_scan_from :: nat

definition default_decoder :: chunked_decoder where
  "default_decoder = \<lparr>cd_state = ChunkSize, cd_scan_from = 0\<rparr>"

record chunk_data =
  ck_relative_offset :: nat
  ck_data :: bytes

record chunk_run =
  cu_decoder :: chunked_decoder
  cu_buf :: bytes
  cu_chunks :: "chunk_data list"
  cu_collected :: nat
  cu_body_bytes :: nat
  cu_done :: bool

definition chunk_size_of :: "bytes \<Rightarrow> http_error + nat" where
  "chunk_size_of line =
     (if \<not> utf8_valid line then Inl BadChunkSize
      else let s = trim (hd (split_on 59 line)) in
        if s = [] \<or> length s > 16 then Inl BadChunkSize
        else case from_hex s of None \<Rightarrow> Inl BadChunkSize | Some n \<Rightarrow> Inr n)"

text \<open>
  One round of the loop of \<open>consume\<close>: an error, or whether the loop goes on. The buffer and the decoder
  keep what they had consumed before an error.
\<close>

definition chunk_round :: "nat \<Rightarrow> nat \<Rightarrow> nat \<Rightarrow> chunk_run \<Rightarrow> (http_error + bool) \<times> chunk_run" where
  "chunk_round initial_len max_line max_collect c =
     (let d = cu_decoder c; buf = cu_buf c in
      case cd_state d of
        ChunkSize \<Rightarrow>
          (case find_crlf_from buf (cd_scan_from d) of
             None \<Rightarrow>
               if length buf > max_line then (Inl ChunkLineLimit, c)
               else (Inr False, c\<lparr>cu_decoder := d\<lparr>cd_scan_from := length buf - 1\<rparr>\<rparr>)
           | Some pos \<Rightarrow>
               let c = c\<lparr>cu_decoder := d\<lparr>cd_scan_from := 0\<rparr>, cu_buf := drop (pos + 2) buf\<rparr> in
               (case chunk_size_of (take pos buf) of
                  Inl e \<Rightarrow> (Inl e, c)
                | Inr n \<Rightarrow>
                    (Inr True, c\<lparr>cu_decoder := (cu_decoder c)\<lparr>cd_state := (if n = 0 then ChunkTrailers else ChunkBody n)\<rparr>\<rparr>)))
      | ChunkBody remaining \<Rightarrow>
          if buf = [] then (Inr False, c)
          else
            let taken = min remaining (length buf);
                relative_offset = initial_len - length buf;
                collect = min taken (max_collect - cu_collected c);
                c = (if collect \<noteq> 0
                     then c\<lparr>cu_chunks := cu_chunks c @ [\<lparr>ck_relative_offset = relative_offset, ck_data = take collect buf\<rparr>],
                            cu_collected := sat_add64 (cu_collected c) collect\<rparr>
                     else c);
                c = c\<lparr>cu_buf := drop taken buf, cu_body_bytes := sat_add64 (cu_body_bytes c) taken\<rparr>;
                remaining = remaining - taken
            in (Inr (remaining = 0),
                c\<lparr>cu_decoder := d\<lparr>cd_state := (if remaining = 0 then ChunkCrlf else ChunkBody remaining)\<rparr>\<rparr>)
      | ChunkCrlf \<Rightarrow>
          if length buf < 2 then (Inr False, c)
          else if take 2 buf \<noteq> [13, 10] then (Inl MissingChunkCrlf, c)
          else (Inr True, c\<lparr>cu_buf := drop 2 buf, cu_decoder := d\<lparr>cd_state := ChunkSize\<rparr>\<rparr>)
      | ChunkTrailers \<Rightarrow>
          if starts_with buf [13, 10]
          then (Inr False, c\<lparr>cu_buf := drop 2 buf, cu_done := True, cu_decoder := default_decoder\<rparr>)
          else
            (case find_double_crlf_from buf (cd_scan_from d) of
               None \<Rightarrow>
                 if length buf > max_line then (Inl ChunkTrailerLimit, c)
                 else (Inr False, c\<lparr>cu_decoder := d\<lparr>cd_scan_from := length buf - 3\<rparr>\<rparr>)
             | Some pos \<Rightarrow>
                 (Inr False, c\<lparr>cu_buf := drop (pos + 4) buf, cu_done := True, cu_decoder := default_decoder\<rparr>)))"

definition chunk_measure :: "chunk_run \<Rightarrow> nat" where
  "chunk_measure c = 2 * length (cu_buf c) + (case cd_state (cu_decoder c) of ChunkBody _ \<Rightarrow> 1 | _ \<Rightarrow> 0)"

lemma find_crlf_bound: "find_crlf_from v from = Some p \<Longrightarrow> p + 2 \<le> length v \<and> take 2 (drop p v) = [13, 10]"
  by (auto simp: find_crlf_from_def Let_def drop_drop add.commute eval_nat_numeral dest!: find_window_Some split: if_splits)

lemma find_double_crlf_bound:
  "find_double_crlf_from v from = Some p \<Longrightarrow> p + 4 \<le> length v \<and> take 4 (drop p v) = [13, 10, 13, 10]"
  by (auto simp: find_double_crlf_from_def Let_def drop_drop add.commute eval_nat_numeral dest!: find_window_Some split: if_splits)

lemma chunk_round_measure:
  "chunk_round il ml mc c = (Inr True, c') \<Longrightarrow> chunk_measure c' < chunk_measure c"
  unfolding chunk_round_def Let_def
  by (cases "cd_state (cu_decoder c)")
    (auto simp: chunk_measure_def min_def split: option.splits sum.splits if_splits dest!: find_crlf_bound)

function consume_loop :: "nat \<Rightarrow> nat \<Rightarrow> nat \<Rightarrow> chunk_run \<Rightarrow> (http_error + unit) \<times> chunk_run" where
  "consume_loop initial_len max_line max_collect c =
     (case chunk_round initial_len max_line max_collect c of
        (Inl e, c) \<Rightarrow> (Inl e, c)
      | (Inr go_on, c) \<Rightarrow> if go_on then consume_loop initial_len max_line max_collect c else (Inr (), c))"
  by pat_completeness auto
termination
  by (relation "measure (\<lambda>(_, _, _, c). chunk_measure c)") (auto dest!: chunk_round_measure [OF sym])

declare consume_loop.simps [simp del]

record chunk_consume =
  cc_data_chunks :: "chunk_data list"
  cc_done :: bool
  cc_wire_consumed :: nat
  cc_body_bytes :: nat

definition consume ::
  "nat \<Rightarrow> nat \<Rightarrow> chunked_decoder \<Rightarrow> bytes \<Rightarrow> (http_error + chunk_consume) \<times> chunked_decoder \<times> bytes" where
  "consume max_line max_collect d buf =
     (case consume_loop (length buf) max_line max_collect
             \<lparr>cu_decoder = d, cu_buf = buf, cu_chunks = [], cu_collected = 0, cu_body_bytes = 0, cu_done = False\<rparr> of
        (Inl e, c) \<Rightarrow> (Inl e, cu_decoder c, cu_buf c)
      | (Inr _, c) \<Rightarrow>
          (Inr \<lparr>cc_data_chunks = cu_chunks c, cc_done = cu_done c,
                cc_wire_consumed = length buf - length (cu_buf c), cc_body_bytes = cu_body_bytes c\<rparr>,
           cu_decoder c, cu_buf c))"

text \<open>What every round keeps holds when the decoder's loop ends.\<close>

lemma consume_loop_keeps:
  assumes "consume_loop il ml mc c = (r, c')" and "P c"
    and "\<And>c r c'. P c \<Longrightarrow> chunk_round il ml mc c = (r, c') \<Longrightarrow> P c'"
  shows "P c'"
  using assms
proof (induction il ml mc c arbitrary: r c' rule: consume_loop.induct)
  case (1 il ml mc c)
  obtain r1 c1 where r1: "chunk_round il ml mc c = (r1, c1)" by fastforce
  have "P c1" by (rule 1 (4) [OF 1 (3) r1])
  show ?case
  proof (cases "r1 = Inr True")
    case True
    then have "consume_loop il ml mc c1 = (r, c')"
      using 1 (2) r1 by (subst (asm) consume_loop.simps) simp
    from 1 (1) [OF r1 [symmetric] True TrueI this \<open>P c1\<close>] 1 (4) show ?thesis by blast
  next
    case False
    with 1 (2) r1 \<open>P c1\<close> show ?thesis
      by (subst (asm) consume_loop.simps) (auto split: sum.splits if_splits)
  qed
qed


lemma chunk_round_length:
  "chunk_round il ml mc c = (r, c') \<Longrightarrow> length (cu_buf c') \<le> length (cu_buf c)"
  unfolding chunk_round_def Let_def
  by (cases "cd_state (cu_decoder c)") (auto split: option.splits sum.splits if_splits)

lemma consume_loop_length:
  "consume_loop il ml mc c = (r, c') \<Longrightarrow> length (cu_buf c') \<le> length (cu_buf c)"
  by (erule consume_loop_keeps) (auto dest: chunk_round_length)

lemma consume_length: "consume ml mc d buf = (r, d', buf') \<Longrightarrow> length buf' \<le> length buf"
  by (auto simp: consume_def split: prod.splits sum.splits dest!: consume_loop_length)

subsection \<open>Decoded bodies\<close>

record message_info =
  mi_flow_id :: uuid
  mi_ts_ns :: nat
  mi_direction :: direction
  mi_request_direction :: direction
  mi_encoding :: encoding
  mi_body_view :: content_view
  mi_decoded_view :: content_view

fun read_bounded :: "nat \<Rightarrow> bytes list \<Rightarrow> bool \<Rightarrow> bytes \<Rightarrow> http_error + bytes" where
  "read_bounded limit [] ok out = (if ok then Inr out else Inl DecodeFailed)"
| "read_bounded limit (block # blocks) ok out =
     (if block = [] then Inr out
      else if sat_add64 (length out) (length block) > limit then Inl DecodedLimit
      else read_bounded limit blocks ok (out @ block))"

definition body_record :: "uuid \<Rightarrow> message_info \<Rightarrow> nat \<Rightarrow> bytes \<Rightarrow> content_record" where
  "body_record uid info offset data =
     \<lparr>cr_id = uid, cr_flow_id = mi_flow_id info, cr_ts_ns = mi_ts_ns info, cr_service = None,
      cr_direction = mi_direction info, cr_view = mi_body_view info, cr_stream_offset = offset, cr_data = data\<rparr>"

definition decoded_record ::
  "http_lib \<Rightarrow> uuid \<Rightarrow> message_info \<Rightarrow> nat \<Rightarrow> bytes \<Rightarrow> nat \<Rightarrow> nat \<Rightarrow> content_record option" where
  "decoded_record lib uid info offset compressed absolute_limit max_ratio =
     (if mi_encoding info = Identity \<or> compressed = [] then None
      else
        let ratio_limit = min (length compressed * max_ratio) u64_max;
            limit = min absolute_limit ratio_limit in
        if limit = 0 then None
        else case lib_inflate lib (mi_encoding info) compressed of
          (blocks, ok) \<Rightarrow>
            (case read_bounded limit blocks ok [] of
               Inl e \<Rightarrow> None
             | Inr decoded \<Rightarrow>
                 Some \<lparr>cr_id = uid, cr_flow_id = mi_flow_id info, cr_ts_ns = mi_ts_ns info, cr_service = None,
                       cr_direction = mi_direction info, cr_view = mi_decoded_view info,
                       cr_stream_offset = offset, cr_data = decoded\<rparr>))"

end
