(* ===== verification/Bazalt_Events.thy ===== *)
theory Bazalt_Events
  imports Bazalt_Model
begin

text \<open>
  The records of \<open>src/src/model.rs\<close> that analysers, matcher and storage exchange: HTTP metadata, patterns and
  their matches, and the metadata events. Identifiers are \<open>128 word\<close>, \<open>i64\<close> counters are \<open>int\<close>.
\<close>

record http_record =
  hr_id :: uuid
  hr_flow_id :: uuid
  hr_timestamp :: timestamp
  hr_request :: bool
  hr_method :: "string option"
  hr_host :: "string option"
  hr_path :: "string option"
  hr_status :: "u16 option"
  hr_user_agent :: "string option"
  hr_content_type :: "string option"
  hr_body_content_id :: "uuid option"

datatype pattern_kind = TextPattern | BinaryPattern | RegexPattern

datatype pattern_action = Find | Ignore

datatype pattern_direction = BothDirections | InputDirection | OutputDirection

record pattern_revision =
  pr_id :: uuid
  pr_revision :: int
  pr_name :: string
  pr_expression :: string
  pr_kind :: pattern_kind
  pr_action :: pattern_action
  pr_color :: string
  pr_direction_type :: pattern_direction
  pr_service :: "string option"
  pr_view :: "content_view option"
  pr_enabled :: bool
  pr_created_at :: timestamp

record match_record =
  mr_timestamp :: timestamp
  mr_pattern_id :: uuid
  mr_pattern_revision :: int
  mr_flow_id :: uuid
  mr_content_id :: uuid
  mr_view :: content_view
  mr_action :: pattern_action
  mr_offset_start :: nat
  mr_offset_end :: nat
  mr_historical :: bool

datatype metadata_event =
    FlowEvent flow_summary
  | HttpEvent http_record
  | MatchEvent match_record
  | ContentIndexEvent content_index_record

end
