(* ===== verification/Http_Parser.thy ===== *)
theory Http_Parser
  imports Http_Message Bazalt_Events
begin

text \<open>
  The HTTP stream parser of \<open>src/src/http/mod.rs\<close>: one parser per direction of a connection, the states of a
  message body, resynchronization after a gap, and the connection that pairs requests with responses.

  \<open>feed\<close> and its loop are written as a function on \<open>http_feed\<close>, which holds the parser with the parts of the
  connection it borrows and the report it fills. An iteration of the loop is \<open>feed_step\<close>: one case per body
  state, the result tells whether the loop goes on. Random record ids come from the environment: \<open>hf_ids\<close>
  counts the ids drawn so far and \<open>he_uuid\<close> gives them.
\<close>

subsection \<open>State\<close>

record http_config =
  http_max_header_bytes :: nat
  http_max_body_bytes :: nat
  http_max_decode_bytes :: nat
  http_max_decode_ratio :: nat

record http_env =
  he_lib :: http_lib
  he_cfg :: http_config
  he_uuid :: "nat \<Rightarrow> uuid"

datatype http_mode = HttpMode | TunnelMode

datatype request_kind = OtherRequest | HeadRequest | ConnectRequest

record http_emission =
  em_content :: "content_record list"
  em_meta :: "http_record option"
  em_request_direction :: "direction option"

datatype body_state =
    Headers
  | Fixed nat message_info bytes
  | SkipFixed nat nat message_info
  | Chunked message_info chunked_decoder bytes nat bool
  | UntilClose message_info bytes nat bool

record http_parser =
  hp_buffer :: bytes
  hp_state :: body_state
  hp_stream_offset :: nat
  hp_next_input_offset :: "nat option"
  hp_synced :: bool
  hp_header_scan_from :: nat

definition new_parser :: http_parser where
  "new_parser = \<lparr>hp_buffer = [], hp_state = Headers, hp_stream_offset = 0, hp_next_input_offset = None,
                 hp_synced = True, hp_header_scan_from = 0\<rparr>"

record http_feed =
  hf_parser :: http_parser
  hf_pending :: "request_kind list"
  hf_request_direction :: "direction option"
  hf_mode :: http_mode
  hf_events :: "http_emission list"
  hf_errors :: nat
  hf_ids :: nat

abbreviation http_pending_request_limit :: nat where "http_pending_request_limit \<equiv> 4096"
abbreviation http_resync_suffix :: nat where "http_resync_suffix \<equiv> 48"

definition from_method :: "string option \<Rightarrow> request_kind" where
  "from_method m =
     (case m of
        Some m \<Rightarrow> if eq_ignore_ascii_case (as_bytes m) (as_bytes ''HEAD'') then HeadRequest
                   else if eq_ignore_ascii_case (as_bytes m) (as_bytes ''CONNECT'') then ConnectRequest
                   else OtherRequest
      | None \<Rightarrow> OtherRequest)"

subsection \<open>Resynchronization\<close>

text \<open>\<open>split_to(n)\<close> on the buffer, with the offset that follows it.\<close>

definition discard :: "nat \<Rightarrow> http_parser \<Rightarrow> http_parser" where
  "discard n p = p\<lparr>hp_buffer := drop n (hp_buffer p), hp_stream_offset := sat_add64 (hp_stream_offset p) n\<rparr>"

definition trim_desynced_suffix :: "http_parser \<Rightarrow> http_parser" where
  "trim_desynced_suffix p =
     (let n = length (hp_buffer p) - http_resync_suffix in if n \<noteq> 0 then discard n p else p)"

definition resync_to_http_start :: "http_parser \<Rightarrow> bool \<times> http_parser" where
  "resync_to_http_start p =
     (case find_plausible_http_start (hp_buffer p) of
        Some pos \<Rightarrow> (True, (if pos \<noteq> 0 then discard pos p else p)\<lparr>hp_synced := True, hp_header_scan_from := 0\<rparr>)
      | None \<Rightarrow> (False, trim_desynced_suffix p))"

subsection \<open>Emitting\<close>

definition upd_parser :: "(http_parser \<Rightarrow> http_parser) \<Rightarrow> http_feed \<Rightarrow> http_feed" where
  "upd_parser f h = h\<lparr>hf_parser := f (hf_parser h)\<rparr>"

definition parse_error :: "http_feed \<Rightarrow> http_feed" where
  "parse_error h = h\<lparr>hf_errors := sat_add64 (hf_errors h) 1\<rparr>"

text \<open>An error that loses the framing.\<close>

definition lose_sync :: "http_feed \<Rightarrow> http_feed" where
  "lose_sync h = upd_parser (\<lambda>p. p\<lparr>hp_synced := False\<rparr>) ((parse_error h)\<lparr>hf_pending := []\<rparr>)"

definition push_event :: "http_emission \<Rightarrow> http_feed \<Rightarrow> http_feed" where
  "push_event e h = h\<lparr>hf_events := hf_events h @ [e]\<rparr>"

definition content_event :: "message_info \<Rightarrow> content_record \<Rightarrow> http_emission" where
  "content_event info r = \<lparr>em_content = [r], em_meta = None, em_request_direction = Some (mi_request_direction info)\<rparr>"

definition emit_body :: "http_env \<Rightarrow> message_info \<Rightarrow> nat \<Rightarrow> bytes \<Rightarrow> http_feed \<Rightarrow> http_feed" where
  "emit_body env info offset data h =
     (push_event (content_event info (body_record (he_uuid env (hf_ids h)) info offset data)) h)\<lparr>hf_ids := hf_ids h + 1\<rparr>"

definition emit_decoded :: "http_env \<Rightarrow> message_info \<Rightarrow> nat \<Rightarrow> bytes \<Rightarrow> http_feed \<Rightarrow> http_feed" where
  "emit_decoded env info offset compressed h =
     (case decoded_record (he_lib env) (he_uuid env (hf_ids h)) info offset compressed
             (http_max_decode_bytes (he_cfg env)) (http_max_decode_ratio (he_cfg env)) of
        None \<Rightarrow> h
      | Some r \<Rightarrow> (push_event (content_event info r) h)\<lparr>hf_ids := hf_ids h + 1\<rparr>)"

definition add_compressed :: "http_env \<Rightarrow> message_info \<Rightarrow> bytes \<Rightarrow> bytes \<Rightarrow> bytes" where
  "add_compressed env info compressed data =
     (if mi_encoding info \<noteq> Identity \<and> sat_add64 (length compressed) (length data) \<le> http_max_decode_bytes (he_cfg env)
      then compressed @ data else compressed)"

subsection \<open>A complete header\<close>

definition in_range :: "nat \<Rightarrow> nat \<Rightarrow> u16 option \<Rightarrow> bool" where
  "in_range a b status = (case status of None \<Rightarrow> False | Some s \<Rightarrow> a \<le> unat s \<and> unat s \<le> b)"

definition is_informational :: "parsed_header \<Rightarrow> bool" where
  "is_informational ph \<longleftrightarrow> \<not> ph_request ph \<and> in_range 100 199 (ph_status ph) \<and> ph_status ph \<noteq> Some 101"

text \<open>The queue of requests that wait for a response.\<close>

definition note_message :: "parsed_header \<Rightarrow> http_feed \<Rightarrow> http_feed" where
  "note_message ph h =
     (if ph_request ph then
        let h = (if length (hf_pending h) \<ge> http_pending_request_limit
                 then parse_error (h\<lparr>hf_pending := tl (hf_pending h)\<rparr>) else h)
        in h\<lparr>hf_pending := hf_pending h @ [from_method (ph_method ph)]\<rparr>
      else if \<not> is_informational ph then h\<lparr>hf_pending := tl (hf_pending h)\<rparr>
      else h)"

definition info_of :: "stream_chunk \<Rightarrow> direction \<Rightarrow> parsed_header \<Rightarrow> message_info" where
  "info_of chunk req_dir ph =
     \<lparr>mi_flow_id = sc_flow_id chunk, mi_ts_ns = sc_ts_ns chunk, mi_direction = sc_direction chunk,
      mi_request_direction = req_dir, mi_encoding = ph_encoding ph,
      mi_body_view = (if ph_request ph then HttpRequestBody else HttpResponseBody),
      mi_decoded_view = (if ph_request ph then HttpRequestDecodedBody else HttpResponseDecodedBody)\<rparr>"

definition header_record :: "uuid \<Rightarrow> stream_chunk \<Rightarrow> parsed_header \<Rightarrow> nat \<Rightarrow> bytes \<Rightarrow> content_record" where
  "header_record uid chunk ph offset header =
     \<lparr>cr_id = uid, cr_flow_id = sc_flow_id chunk, cr_ts_ns = sc_ts_ns chunk, cr_service = None,
      cr_direction = sc_direction chunk, cr_view = (if ph_request ph then HttpRequestHeaders else HttpResponseHeaders),
      cr_stream_offset = offset, cr_data = header\<rparr>"

definition header_meta :: "uuid \<Rightarrow> stream_chunk \<Rightarrow> parsed_header \<Rightarrow> http_record" where
  "header_meta uid chunk ph =
     \<lparr>hr_id = uid, hr_flow_id = sc_flow_id chunk, hr_timestamp = ns_to_datetime (sc_ts_ns chunk),
      hr_request = ph_request ph, hr_method = ph_method ph, hr_host = ph_host ph, hr_path = ph_path ph,
      hr_status = ph_status ph, hr_user_agent = ph_user_agent ph, hr_content_type = ph_content_type ph,
      hr_body_content_id = None\<rparr>"

text \<open>The body framing that follows a header without a tunnel; \<open>None\<close> is the request that cannot be framed.\<close>

definition body_state_for :: "http_env \<Rightarrow> parsed_header \<Rightarrow> bool \<Rightarrow> message_info \<Rightarrow> body_state option" where
  "body_state_for env ph no_body info =
     (if no_body \<or> (ph_request ph \<and> \<not> ph_has_transfer_encoding ph \<and> ph_content_length ph = None) then Some Headers
      else if ph_has_transfer_encoding ph then
        if ph_transfer_final_chunked ph then Some (Chunked info default_decoder [] 0 True)
        else if ph_request ph then None
        else Some (UntilClose info [] 0 True)
      else case ph_content_length ph of
        Some len \<Rightarrow>
          Some (if len = 0 then Headers
                else if len > http_max_body_bytes (he_cfg env) then SkipFixed len (http_max_body_bytes (he_cfg env)) info
                else Fixed len info [])
      | None \<Rightarrow> Some (UntilClose info [] 0 True))"

definition accept_header ::
  "http_env \<Rightarrow> stream_chunk \<Rightarrow> parsed_header \<Rightarrow> bytes \<Rightarrow> nat \<Rightarrow> http_feed \<Rightarrow> bool \<times> http_feed" where
  "accept_header env chunk ph header header_offset h =
     (let h = (if ph_ambiguous_framing ph then parse_error h else h);
          h = (if ph_request ph then h\<lparr>hf_request_direction := Some (sc_direction chunk)\<rparr> else h);
          req_dir = (if ph_request ph then sc_direction chunk
                     else case hf_request_direction h of Some d \<Rightarrow> d | None \<Rightarrow> opposite (sc_direction chunk));
          response_kind = (if ph_request ph \<or> hf_pending h = [] then None else Some (hd (hf_pending h)));
          h = note_message ph h;
          response_to_head = (\<not> ph_request ph \<and> response_kind = Some HeadRequest);
          connect_tunnel = (\<not> ph_request ph \<and> response_kind = Some ConnectRequest \<and> in_range 200 299 (ph_status ph));
          upgrade_tunnel = (\<not> ph_request ph \<and> ph_status ph = Some 101);
          no_body_status = (\<not> ph_request ph \<and> (in_range 100 199 (ph_status ph) \<or> ph_status ph = Some 204
                              \<or> ph_status ph = Some 205 \<or> ph_status ph = Some 304));
          info = info_of chunk req_dir ph;
          h = (push_event
                \<lparr>em_content = [header_record (he_uuid env (hf_ids h)) chunk ph header_offset header],
                 em_meta = Some (header_meta (he_uuid env (hf_ids h + 1)) chunk ph),
                 em_request_direction = Some req_dir\<rparr> h)\<lparr>hf_ids := hf_ids h + 2\<rparr>
      in if connect_tunnel \<or> upgrade_tunnel
         then (False, upd_parser (\<lambda>p. p\<lparr>hp_buffer := []\<rparr>) (h\<lparr>hf_mode := TunnelMode\<rparr>))
         else case body_state_for env ph (no_body_status \<or> response_to_head) info of
           None \<Rightarrow> (True, lose_sync h)
         | Some st \<Rightarrow> (True, upd_parser (\<lambda>p. p\<lparr>hp_state := st\<rparr>) h))"

subsection \<open>One iteration of the loop per body state\<close>

definition step_headers :: "http_env \<Rightarrow> stream_chunk \<Rightarrow> http_feed \<Rightarrow> bool \<times> http_feed" where
  "step_headers env chunk h =
     (let (found, p) = (if hp_synced (hf_parser h) then (True, hf_parser h) else resync_to_http_start (hf_parser h));
          h = h\<lparr>hf_parser := p\<rparr> in
      if \<not> found then (False, h)
      else case find_double_crlf_from (hp_buffer p) (hp_header_scan_from p) of
        None \<Rightarrow>
          if length (hp_buffer p) > http_max_header_bytes (he_cfg env)
          then (False, upd_parser (\<lambda>p. trim_desynced_suffix (p\<lparr>hp_header_scan_from := 0\<rparr>)) (lose_sync h))
          else (False, upd_parser (\<lambda>p. p\<lparr>hp_header_scan_from := length (hp_buffer p) - 3\<rparr>) h)
      | Some pos \<Rightarrow>
          let header = take (pos + 4) (hp_buffer p);
              header_offset = hp_stream_offset p;
              h = upd_parser (\<lambda>p. (discard (pos + 4) p)\<lparr>hp_header_scan_from := 0\<rparr>) h
          in case parse_header (he_lib env) header of
               Inl _ \<Rightarrow> (True, lose_sync h)
             | Inr ph \<Rightarrow> accept_header env chunk ph header header_offset h)"

definition step_fixed :: "http_env \<Rightarrow> nat \<Rightarrow> message_info \<Rightarrow> bytes \<Rightarrow> http_feed \<Rightarrow> bool \<times> http_feed" where
  "step_fixed env remaining info compressed h =
     (let p = hf_parser h in
      if hp_buffer p = [] then (False, upd_parser (\<lambda>p. p\<lparr>hp_state := Fixed remaining info compressed\<rparr>) h)
      else
        let taken = min remaining (length (hp_buffer p));
            data = take taken (hp_buffer p);
            compressed = add_compressed env info compressed data;
            h = emit_body env info (hp_stream_offset p) data (upd_parser (discard taken) h);
            remaining = remaining - taken
        in if remaining = 0
           then (True, emit_decoded env info (hp_stream_offset (hf_parser h)) compressed h)
           else (False, upd_parser (\<lambda>p. p\<lparr>hp_state := Fixed remaining info compressed\<rparr>) h))"

definition step_skip :: "http_env \<Rightarrow> nat \<Rightarrow> nat \<Rightarrow> message_info \<Rightarrow> http_feed \<Rightarrow> bool \<times> http_feed" where
  "step_skip env remaining capture_remaining info h =
     (let p = hf_parser h in
      if hp_buffer p = [] then (False, upd_parser (\<lambda>p. p\<lparr>hp_state := SkipFixed remaining capture_remaining info\<rparr>) h)
      else
        let taken = min remaining (length (hp_buffer p));
            collect = min taken capture_remaining;
            h = (if collect \<noteq> 0 then emit_body env info (hp_stream_offset p) (take collect (hp_buffer p)) h else h);
            h = upd_parser (discard taken) h;
            remaining = remaining - taken
        in if remaining = 0 then (True, h)
           else (False, upd_parser (\<lambda>p. p\<lparr>hp_state := SkipFixed remaining (capture_remaining - collect) info\<rparr>) h))"

text \<open>The loop over the pieces of a chunked body, with the compressed bytes collected so far.\<close>

fun emit_pieces ::
  "http_env \<Rightarrow> message_info \<Rightarrow> nat \<Rightarrow> chunk_data list \<Rightarrow> bytes \<Rightarrow> http_feed \<Rightarrow> bytes \<times> http_feed" where
  "emit_pieces env info base [] compressed h = (compressed, h)"
| "emit_pieces env info base (c # cs) compressed h =
     emit_pieces env info base cs (add_compressed env info compressed (ck_data c))
       (emit_body env info (sat_add64 base (ck_relative_offset c)) (ck_data c) h)"

definition step_chunked ::
  "http_env \<Rightarrow> message_info \<Rightarrow> chunked_decoder \<Rightarrow> bytes \<Rightarrow> nat \<Rightarrow> bool \<Rightarrow> http_feed \<Rightarrow> bool \<times> http_feed" where
  "step_chunked env info decoder compressed body_seen capture_body h =
     (let p = hf_parser h; max_body = http_max_body_bytes (he_cfg env) in
      if hp_buffer p = []
      then (False, upd_parser (\<lambda>p. p\<lparr>hp_state := Chunked info decoder compressed body_seen capture_body\<rparr>) h)
      else
        let collect_remaining = (if capture_body then max_body - body_seen else 0) in
        case consume (http_max_header_bytes (he_cfg env)) collect_remaining decoder (hp_buffer p) of
          (Inr result, decoder, buf) \<Rightarrow>
            let (compressed, h) = emit_pieces env info (hp_stream_offset p) (cc_data_chunks result) compressed h;
                body_seen = sat_add64 body_seen (cc_body_bytes result);
                capture_body = (capture_body \<and> body_seen \<le> max_body);
                h = upd_parser (\<lambda>p. p\<lparr>hp_buffer := buf,
                      hp_stream_offset := sat_add64 (hp_stream_offset p) (cc_wire_consumed result)\<rparr>) h
            in if cc_done result
               then (True, if capture_body then emit_decoded env info (hp_stream_offset (hf_parser h)) compressed h else h)
               else (length buf \<noteq> length (hp_buffer p),
                     upd_parser (\<lambda>p. p\<lparr>hp_state := Chunked info decoder compressed body_seen capture_body\<rparr>) h)
        | (Inl _, decoder, buf) \<Rightarrow>
            (True, lose_sync (upd_parser (\<lambda>p. p\<lparr>hp_buffer := buf,
                     hp_stream_offset := sat_add64 (hp_stream_offset p) (length (hp_buffer p) - length buf)\<rparr>) h)))"

definition step_until_close ::
  "http_env \<Rightarrow> message_info \<Rightarrow> bytes \<Rightarrow> nat \<Rightarrow> bool \<Rightarrow> http_feed \<Rightarrow> bool \<times> http_feed" where
  "step_until_close env info compressed body_seen capture_body h =
     (let p = hf_parser h; max_body = http_max_body_bytes (he_cfg env) in
      if hp_buffer p = []
      then (False, upd_parser (\<lambda>p. p\<lparr>hp_state := UntilClose info compressed body_seen capture_body\<rparr>) h)
      else
        let data = hp_buffer p;
            data_len = length data;
            collect = (if capture_body then min data_len (max_body - body_seen) else 0);
            captured = take collect data;
            (compressed, h) =
              (if collect \<noteq> 0
               then (add_compressed env info compressed captured, emit_body env info (hp_stream_offset p) captured h)
               else (compressed, h));
            body_seen = sat_add64 body_seen data_len;
            capture_body = (capture_body \<and> body_seen \<le> max_body)
        in (False, upd_parser (\<lambda>p. (discard data_len p)\<lparr>hp_state := UntilClose info compressed body_seen capture_body\<rparr>) h))"

definition feed_step :: "http_env \<Rightarrow> stream_chunk \<Rightarrow> http_feed \<Rightarrow> bool \<times> http_feed" where
  "feed_step env chunk h =
     (let state = hp_state (hf_parser h);
          h = upd_parser (\<lambda>p. p\<lparr>hp_state := Headers\<rparr>) h
      in case state of
           Headers \<Rightarrow> step_headers env chunk h
         | Fixed remaining info compressed \<Rightarrow> step_fixed env remaining info compressed h
         | SkipFixed remaining capture_remaining info \<Rightarrow> step_skip env remaining capture_remaining info h
         | Chunked info decoder compressed body_seen capture_body \<Rightarrow>
             step_chunked env info decoder compressed body_seen capture_body h
         | UntilClose info compressed body_seen capture_body \<Rightarrow>
             step_until_close env info compressed body_seen capture_body h)"

subsection \<open>The loop\<close>

definition feed_measure :: "http_feed \<Rightarrow> nat" where
  "feed_measure h = 2 * length (hp_buffer (hf_parser h)) + (if hp_state (hf_parser h) = Headers then 0 else 1)"

lemmas parser_simps = upd_parser_def discard_def parse_error_def lose_sync_def push_event_def emit_body_def

lemma emit_decoded_parser [simp]: "hf_parser (emit_decoded env info off acc h) = hf_parser h"
  by (simp add: emit_decoded_def push_event_def split: option.splits)

lemma emit_pieces_parser: "emit_pieces env info base cs acc h = (acc', h') \<Longrightarrow> hf_parser h' = hf_parser h"
  by (induction env info base cs acc h rule: emit_pieces.induct) (simp_all add: emit_body_def push_event_def)

lemma note_message_parser [simp]: "hf_parser (note_message ph h) = hf_parser h"
  by (simp add: note_message_def parse_error_def Let_def)

lemma accept_header_buffer:
  "accept_header env chunk ph hdr off h = (go, h') \<Longrightarrow>
   hp_buffer (hf_parser h') = hp_buffer (hf_parser h) \<or> (\<not> go \<and> hp_buffer (hf_parser h') = [])"
  by (auto simp: accept_header_def Let_def parser_simps split: if_splits option.splits)

lemma resync_buffer:
  "resync_to_http_start p = (found, p') \<Longrightarrow> length (hp_buffer p') \<le> length (hp_buffer p) \<and> hp_state p' = hp_state p"
  by (auto simp: resync_to_http_start_def trim_desynced_suffix_def discard_def Let_def split: option.splits if_splits)

lemma step_headers_measure:
  assumes "step_headers env chunk h = (True, h')"
  shows "length (hp_buffer (hf_parser h')) < length (hp_buffer (hf_parser h))"
proof -
  obtain found p where fp: "(if hp_synced (hf_parser h) then (True, hf_parser h)
      else resync_to_http_start (hf_parser h)) = (found, p)" by fastforce
  have len: "length (hp_buffer p) \<le> length (hp_buffer (hf_parser h))"
    using fp by (auto split: if_splits dest: resync_buffer)
  obtain pos where pos: "find_double_crlf_from (hp_buffer p) (hp_header_scan_from p) = Some pos"
    using assms unfolding step_headers_def fp by (auto simp: Let_def split: if_splits option.splits)
  note bound = find_double_crlf_bound [OF pos]
  show ?thesis
    using assms bound len unfolding step_headers_def fp
    by (auto simp: Let_def pos parser_simps split: if_splits sum.splits dest!: accept_header_buffer)
qed

lemma feed_step_measure:
  assumes "feed_step env chunk h = (True, h')"
  shows "feed_measure h' < feed_measure h"
proof (cases "hp_state (hf_parser h)")
  case Headers
  then show ?thesis
    using assms by (auto simp: feed_step_def feed_measure_def upd_parser_def Let_def dest!: step_headers_measure)
next
  case (Chunked info d acc seen cap)
  then show ?thesis
    using assms by (auto simp: feed_step_def feed_measure_def Let_def step_chunked_def parser_simps
      split: if_splits prod.splits sum.splits dest!: consume_length emit_pieces_parser)
qed (use assms in \<open>auto simp: feed_step_def feed_measure_def Let_def step_fixed_def step_skip_def
       step_until_close_def parser_simps split: if_splits prod.splits\<close>)

function feed_loop :: "http_env \<Rightarrow> stream_chunk \<Rightarrow> http_feed \<Rightarrow> http_feed" where
  "feed_loop env chunk h =
     (case feed_step env chunk h of (go_on, h') \<Rightarrow> if go_on then feed_loop env chunk h' else h')"
  by pat_completeness auto
termination
  by (relation "measure (\<lambda>(_, _, h). feed_measure h)") (auto dest!: feed_step_measure [OF sym])

declare feed_loop.simps [simp del]

text \<open>The input of a chunk: a hole in the stream drops what was buffered and the framing with it.\<close>

definition begin_chunk :: "stream_chunk \<Rightarrow> http_feed \<Rightarrow> http_feed" where
  "begin_chunk chunk h =
     (let p = hf_parser h;
          h = (case hp_next_input_offset p of
                 Some expected \<Rightarrow>
                   if expected \<noteq> sc_offset chunk
                   then h\<lparr>hf_parser := p\<lparr>hp_buffer := [], hp_state := Headers, hp_stream_offset := sc_offset chunk,
                                        hp_synced := False, hp_header_scan_from := 0\<rparr>,
                          hf_pending := []\<rparr>
                   else h
               | None \<Rightarrow> h\<lparr>hf_parser := p\<lparr>hp_stream_offset := sc_offset chunk, hp_synced := (sc_offset chunk = 0)\<rparr>\<rparr>)
      in upd_parser (\<lambda>p. p\<lparr>hp_next_input_offset := Some (sat_add64 (sc_offset chunk) (length (sc_data chunk))),
                            hp_buffer := hp_buffer p @ sc_data chunk\<rparr>) h)"

definition feed_parser :: "http_env \<Rightarrow> stream_chunk \<Rightarrow> http_feed \<Rightarrow> http_feed" where
  "feed_parser env chunk h = feed_loop env chunk (begin_chunk chunk h)"

subsection \<open>The end of a stream\<close>

text \<open>\<open>base_offset + relative_offset\<close> is Rust's plain addition; a release build wraps it.\<close>

definition wrap_add64 :: "nat \<Rightarrow> nat \<Rightarrow> nat" where
  "wrap_add64 a b = (a + b) mod 2 ^ 64"

fun finish_pieces ::
  "http_env \<Rightarrow> message_info \<Rightarrow> nat \<Rightarrow> chunk_data list \<Rightarrow> bytes \<Rightarrow> http_feed \<Rightarrow> bytes \<times> http_feed" where
  "finish_pieces env info base [] compressed h = (compressed, h)"
| "finish_pieces env info base (c # cs) compressed h =
     finish_pieces env info base cs (add_compressed env info compressed (ck_data c))
       (emit_body env info (wrap_add64 base (ck_relative_offset c)) (ck_data c) h)"

definition finish_until_close ::
  "http_env \<Rightarrow> message_info \<Rightarrow> bytes \<Rightarrow> nat \<Rightarrow> bool \<Rightarrow> http_feed \<Rightarrow> http_feed" where
  "finish_until_close env info compressed body_seen capture_body h =
     (let data = hp_buffer (hf_parser h);
          data_len = length data;
          max_body = http_max_body_bytes (he_cfg env);
          collect = (if capture_body then min data_len (max_body - body_seen) else 0);
          captured = take collect data;
          (compressed, h) =
            (if data \<noteq> [] \<and> collect \<noteq> 0
             then (add_compressed env info compressed captured,
                   emit_body env info (hp_stream_offset (hf_parser h)) captured h)
             else (compressed, h));
          final_capture = (capture_body \<and> (data = [] \<or> sat_add64 body_seen data_len \<le> max_body));
          h = (if data \<noteq> [] then upd_parser (discard data_len) h else h)
      in if final_capture then emit_decoded env info (hp_stream_offset (hf_parser h)) compressed h else h)"

definition finish_fixed :: "http_env \<Rightarrow> nat \<Rightarrow> message_info \<Rightarrow> bytes \<Rightarrow> http_feed \<Rightarrow> http_feed" where
  "finish_fixed env remaining info compressed h =
     (let taken = min remaining (length (hp_buffer (hf_parser h)));
          data = take taken (hp_buffer (hf_parser h));
          (compressed, h) =
            (if taken > 0
             then (add_compressed env info compressed data,
                   upd_parser (discard taken) (emit_body env info (hp_stream_offset (hf_parser h)) data h))
             else (compressed, h));
          h = (if taken = remaining then emit_decoded env info (hp_stream_offset (hf_parser h)) compressed h else h)
      in upd_parser (\<lambda>p. p\<lparr>hp_buffer := []\<rparr>) h)"

definition finish_skip :: "http_env \<Rightarrow> nat \<Rightarrow> nat \<Rightarrow> message_info \<Rightarrow> http_feed \<Rightarrow> http_feed" where
  "finish_skip env remaining capture_remaining info h =
     (let taken = min remaining (length (hp_buffer (hf_parser h)));
          collect = min taken capture_remaining;
          h = (if taken \<noteq> 0 \<and> collect \<noteq> 0
               then emit_body env info (hp_stream_offset (hf_parser h)) (take collect (hp_buffer (hf_parser h))) h
               else h);
          h = (if taken \<noteq> 0 then upd_parser (discard taken) h else h)
      in upd_parser (\<lambda>p. p\<lparr>hp_buffer := []\<rparr>) h)"

definition finish_chunked ::
  "http_env \<Rightarrow> message_info \<Rightarrow> chunked_decoder \<Rightarrow> bytes \<Rightarrow> nat \<Rightarrow> bool \<Rightarrow> http_feed \<Rightarrow> http_feed" where
  "finish_chunked env info decoder compressed body_seen capture_body h =
     (let max_body = http_max_body_bytes (he_cfg env);
          collect_remaining = (if capture_body then max_body - body_seen else 0);
          base_offset = hp_stream_offset (hf_parser h);
          h = (case consume (http_max_header_bytes (he_cfg env)) collect_remaining decoder (hp_buffer (hf_parser h)) of
                 (Inr result, _, buf) \<Rightarrow>
                   let (compressed, h) = finish_pieces env info base_offset (cc_data_chunks result) compressed h;
                       body_seen = sat_add64 body_seen (cc_body_bytes result);
                       capture_body = (capture_body \<and> body_seen \<le> max_body);
                       h = upd_parser (\<lambda>p. p\<lparr>hp_stream_offset := sat_add64 (hp_stream_offset p) (cc_wire_consumed result)\<rparr>) h
                   in if cc_done result \<and> capture_body
                      then emit_decoded env info (hp_stream_offset (hf_parser h)) compressed h else h
               | (Inl _, _, buf) \<Rightarrow> h)
      in upd_parser (\<lambda>p. p\<lparr>hp_buffer := []\<rparr>) h)"

definition finish_parser :: "http_env \<Rightarrow> http_feed \<Rightarrow> http_feed" where
  "finish_parser env h =
     (let state = hp_state (hf_parser h);
          h = upd_parser (\<lambda>p. p\<lparr>hp_state := Headers\<rparr>) h
      in case state of
           UntilClose info compressed body_seen capture_body \<Rightarrow>
             finish_until_close env info compressed body_seen capture_body h
         | Fixed remaining info compressed \<Rightarrow> finish_fixed env remaining info compressed h
         | SkipFixed remaining capture_remaining info \<Rightarrow> finish_skip env remaining capture_remaining info h
         | Chunked info decoder compressed body_seen capture_body \<Rightarrow>
             finish_chunked env info decoder compressed body_seen capture_body h
         | Headers \<Rightarrow> upd_parser (\<lambda>p. p\<lparr>hp_buffer := []\<rparr>) h)"

subsection \<open>The connection\<close>

record http_connection =
  hc_a_to_b :: http_parser
  hc_b_to_a :: http_parser
  hc_pending_requests :: "request_kind list"
  hc_request_direction :: "direction option"
  hc_mode :: http_mode

definition new_connection :: http_connection where
  "new_connection = \<lparr>hc_a_to_b = new_parser, hc_b_to_a = new_parser, hc_pending_requests = [],
                     hc_request_direction = None, hc_mode = HttpMode\<rparr>"

definition parser_for :: "direction \<Rightarrow> http_connection \<Rightarrow> http_parser" where
  "parser_for d c = (case d of AToB \<Rightarrow> hc_a_to_b c | BToA \<Rightarrow> hc_b_to_a c)"

text \<open>The parser of a direction with what it borrows of the connection, and the way back; \<open>n\<close> ids are drawn so far.\<close>

definition borrow :: "direction \<Rightarrow> nat \<Rightarrow> http_connection \<Rightarrow> http_feed" where
  "borrow d n c =
     \<lparr>hf_parser = parser_for d c, hf_pending = hc_pending_requests c, hf_request_direction = hc_request_direction c,
      hf_mode = hc_mode c, hf_events = [], hf_errors = 0, hf_ids = n\<rparr>"

definition give_back :: "direction \<Rightarrow> http_feed \<Rightarrow> http_connection \<Rightarrow> http_connection" where
  "give_back d h c =
     (let c = c\<lparr>hc_pending_requests := hf_pending h, hc_request_direction := hf_request_direction h,
               hc_mode := hf_mode h\<rparr>
      in case d of AToB \<Rightarrow> c\<lparr>hc_a_to_b := hf_parser h\<rparr> | BToA \<Rightarrow> c\<lparr>hc_b_to_a := hf_parser h\<rparr>)"

record http_report =
  rp_events :: "http_emission list"
  rp_parse_errors :: nat
  rp_ids :: nat

definition report_of :: "http_feed \<Rightarrow> http_report" where
  "report_of h = \<lparr>rp_events = hf_events h, rp_parse_errors = hf_errors h, rp_ids = hf_ids h\<rparr>"

definition empty_report :: "nat \<Rightarrow> http_report" where
  "empty_report n = \<lparr>rp_events = [], rp_parse_errors = 0, rp_ids = n\<rparr>"

definition connection_feed ::
  "http_env \<Rightarrow> nat \<Rightarrow> stream_chunk \<Rightarrow> http_connection \<Rightarrow> http_report \<times> http_connection" where
  "connection_feed env n chunk c =
     (if hc_mode c = TunnelMode then (empty_report n, c)
      else let d = sc_direction chunk; h = feed_parser env chunk (borrow d n c) in (report_of h, give_back d h c))"

definition connection_finish :: "http_env \<Rightarrow> nat \<Rightarrow> http_connection \<Rightarrow> http_report \<times> http_connection" where
  "connection_finish env n c =
     (if hc_mode c = TunnelMode then (empty_report n, c)
      else
        let ha = finish_parser env (borrow AToB n c); c = give_back AToB ha c;
            hb = finish_parser env (borrow BToA (hf_ids ha) c); c = give_back BToA hb c
        in (\<lparr>rp_events = hf_events ha @ hf_events hb, rp_parse_errors = 0, rp_ids = hf_ids hb\<rparr>, c))"

end
