(* ===== verification/Http_Invariant.thy ===== *)
theory Http_Invariant
  imports Http_Parser
begin

text \<open>
  The invariant of the HTTP stream parser. \<open>S\<close> is the byte stream of one direction of a connection. What the
  parser buffers is the part of \<open>S\<close> between its offset and the end of the input, what it has emitted are
  pieces of \<open>S\<close> at their own offsets, in order and without overlap, and what it holds on to is bounded by the
  configuration. Every iteration of the loop keeps this (the locale \<open>feed_invariant\<close>), and so does a whole
  call of \<open>feed\<close>.
\<close>

subsection \<open>Pieces of a stream\<close>

definition bytes_at :: "(nat \<Rightarrow> byte) \<Rightarrow> nat \<Rightarrow> bytes \<Rightarrow> bool" where
  "bytes_at S off xs \<longleftrightarrow> (\<forall>i < length xs. xs ! i = S (off + i))"

lemma bytes_at_Nil [simp]: "bytes_at S off []"
  by (simp add: bytes_at_def)

lemma bytes_at_take: "bytes_at S off xs \<Longrightarrow> bytes_at S off (take n xs)"
  by (simp add: bytes_at_def)

lemma bytes_at_drop: "bytes_at S off xs \<Longrightarrow> n \<le> length xs \<Longrightarrow> bytes_at S (off + n) (drop n xs)"
  by (simp add: bytes_at_def add.assoc)

lemma bytes_at_append: "bytes_at S off (xs @ ys) \<longleftrightarrow> bytes_at S off xs \<and> bytes_at S (off + length xs) ys"
proof -
  have "ys ! i = S (off + length xs + i)" if "\<forall>k < length (xs @ ys). (xs @ ys) ! k = S (off + k)" "i < length ys" for i
    using that (1) [rule_format, of "length xs + i"] that (2) by (simp add: add.assoc)
  then show ?thesis
    by (auto simp: bytes_at_def nth_append)
qed

text \<open>Spans \<open>(offset, length)\<close> in order and without overlap, from \<open>lo\<close> to \<open>hi\<close>.\<close>

fun in_order :: "nat \<Rightarrow> (nat \<times> nat) list \<Rightarrow> nat \<Rightarrow> bool" where
  "in_order lo [] hi \<longleftrightarrow> lo \<le> hi"
| "in_order lo (s # ss) hi \<longleftrightarrow> lo \<le> fst s \<and> in_order (fst s + snd s) ss hi"

lemma in_order_le: "in_order lo ss hi \<Longrightarrow> lo \<le> hi"
  by (induction ss arbitrary: lo) fastforce+

lemma in_order_lower: "in_order lo ss hi \<Longrightarrow> lo' \<le> lo \<Longrightarrow> in_order lo' ss hi"
  by (cases ss) auto

lemma in_order_append: "in_order lo ss mid \<Longrightarrow> in_order mid ts hi \<Longrightarrow> in_order lo (ss @ ts) hi"
  by (induction ss arbitrary: lo) (auto intro: in_order_lower)

lemma in_order_upper: "in_order lo ss hi \<Longrightarrow> hi \<le> hi' \<Longrightarrow> in_order lo ss hi'"
  by (induction ss arbitrary: lo) auto

lemma in_order_snoc: "in_order lo ss mid \<Longrightarrow> mid \<le> off \<Longrightarrow> off + len \<le> hi \<Longrightarrow> in_order lo (ss @ [(off, len)]) hi"
  by (erule in_order_append) simp

subsection \<open>The pieces of a chunked body\<close>

abbreviation piece_span :: "chunk_data \<Rightarrow> nat \<times> nat" where
  "piece_span c \<equiv> (ck_relative_offset c, length (ck_data c))"

definition piece_of :: "bytes \<Rightarrow> chunk_data \<Rightarrow> bool" where
  "piece_of buf c \<longleftrightarrow> ck_data c = take (length (ck_data c)) (drop (ck_relative_offset c) buf)"

text \<open>The decoder's loop has consumed a prefix of \<open>buf\<close> and collected pieces of it.\<close>

definition run_of :: "bytes \<Rightarrow> chunk_run \<Rightarrow> bool" where
  "run_of buf c \<longleftrightarrow> (\<exists>k \<le> length buf. cu_buf c = drop k buf \<and>
     in_order 0 (map piece_span (cu_chunks c)) k \<and> list_all (piece_of buf) (cu_chunks c))"

lemma run_of_advance:
  assumes "run_of buf c" and "n \<le> length (cu_buf c)" and "cu_buf c' = drop n (cu_buf c)" and "cu_chunks c' = cu_chunks c"
  shows "run_of buf c'"
proof -
  from assms (1) obtain k where k: "k \<le> length buf" "cu_buf c = drop k buf"
    "in_order 0 (map piece_span (cu_chunks c)) k" "list_all (piece_of buf) (cu_chunks c)"
    unfolding run_of_def by blast
  then show ?thesis
    using assms (2-) unfolding run_of_def
    by (intro exI [of _ "k + n"]) (auto simp: add.commute intro: in_order_upper)
qed

lemma run_of_collect:
  assumes "run_of buf c" and "m \<le> n" and "n \<le> length (cu_buf c)" and "cu_buf c' = drop n (cu_buf c)"
    and "cu_chunks c' = cu_chunks c @ [\<lparr>ck_relative_offset = length buf - length (cu_buf c), ck_data = take m (cu_buf c)\<rparr>]"
  shows "run_of buf c'"
proof -
  from assms (1) obtain k where k: "k \<le> length buf" "cu_buf c = drop k buf"
    "in_order 0 (map piece_span (cu_chunks c)) k" "list_all (piece_of buf) (cu_chunks c)"
    unfolding run_of_def by blast
  then show ?thesis
    using assms (2-) unfolding run_of_def
    by (intro exI [of _ "k + n"]) (auto simp: add.commute piece_of_def min_def intro!: in_order_snoc)
qed

lemma starts_with_length: "starts_with v pat \<Longrightarrow> length pat \<le> length v"
  unfolding starts_with_def by (metis length_take min.cobounded1)

lemma chunk_round_run_of:
  assumes "run_of buf c" and "chunk_round (length buf) ml mc c = (r, c')"
  shows "run_of buf c'"
proof (cases "cd_state (cu_decoder c)")
  case (ChunkBody n)
  let ?n = "min n (length (cu_buf c))" and ?m = "min (min n (length (cu_buf c))) (mc - cu_collected c)"
  show ?thesis
  proof (cases "cu_buf c \<noteq> [] \<and> ?m \<noteq> 0")
    case True
    show ?thesis
      by (rule run_of_collect [OF assms (1), of ?m ?n])
        (use assms (2) True ChunkBody in \<open>auto simp: chunk_round_def Let_def\<close>)
  next
    case False
    show ?thesis
      by (rule run_of_advance [OF assms (1), of "if cu_buf c = [] then 0 else ?n"])
        (use assms (2) False ChunkBody in \<open>auto simp: chunk_round_def Let_def split: if_splits\<close>)
  qed
next
  case ChunkSize
  show ?thesis
  proof (cases "find_crlf_from (cu_buf c) (cd_scan_from (cu_decoder c))")
    case None
    then show ?thesis
      using assms (2) ChunkSize by (intro run_of_advance [OF assms (1), of 0]) (auto simp: chunk_round_def Let_def split: if_splits)
  next
    case (Some pos)
    then show ?thesis
      using assms (2) ChunkSize find_crlf_bound [OF Some]
      by (intro run_of_advance [OF assms (1), of "pos + 2"]) (auto simp: chunk_round_def Let_def split: sum.splits if_splits)
  qed
next
  case ChunkCrlf
  show ?thesis
    by (rule run_of_advance [OF assms (1), of "if cu_buf c' = cu_buf c then 0 else 2"])
      (use assms (2) ChunkCrlf in \<open>auto simp: chunk_round_def Let_def split: if_splits\<close>)
next
  case ChunkTrailers
  show ?thesis
  proof (cases "starts_with (cu_buf c) [13, 10]")
    case True
    from starts_with_length [OF this] have "2 \<le> length (cu_buf c)" by simp
    then show ?thesis
      using assms (2) ChunkTrailers True
      by (intro run_of_advance [OF assms (1), of 2]) (auto simp: chunk_round_def Let_def split: if_splits)
  next
    case False
    show ?thesis
    proof (cases "find_double_crlf_from (cu_buf c) (cd_scan_from (cu_decoder c))")
      case None
      then show ?thesis
        using assms (2) ChunkTrailers False
        by (intro run_of_advance [OF assms (1), of 0]) (auto simp: chunk_round_def Let_def split: if_splits)
    next
      case (Some pos)
      then show ?thesis
        using assms (2) ChunkTrailers False find_double_crlf_bound [OF Some]
        by (intro run_of_advance [OF assms (1), of "pos + 4"]) (auto simp: chunk_round_def Let_def split: if_splits)
    qed
  qed
qed

lemma consume_pieces:
  assumes "consume ml mc d buf = (r, d', buf')"
  shows "buf' = drop (length buf - length buf') buf \<and> length buf' \<le> length buf"
    and "r = Inr res \<Longrightarrow> cc_wire_consumed res = length buf - length buf' \<and> list_all (piece_of buf) (cc_data_chunks res) \<and>
           in_order 0 (map piece_span (cc_data_chunks res)) (cc_wire_consumed res)"
proof -
  let ?c = "\<lparr>cu_decoder = d, cu_buf = buf, cu_chunks = [], cu_collected = 0, cu_body_bytes = 0, cu_done = False\<rparr>"
  obtain r1 c1 where l: "consume_loop (length buf) ml mc ?c = (r1, c1)" by fastforce
  have "run_of buf ?c" by (auto simp: run_of_def)
  from consume_loop_keeps [where P = "run_of buf", OF l this chunk_round_run_of] have "run_of buf c1" .
  then obtain k where k: "k \<le> length buf" "cu_buf c1 = drop k buf"
    "in_order 0 (map piece_span (cu_chunks c1)) k" "list_all (piece_of buf) (cu_chunks c1)"
    unfolding run_of_def by blast
  show "buf' = drop (length buf - length buf') buf \<and> length buf' \<le> length buf"
  proof -
    have "buf' = drop k buf" using assms k (2) unfolding consume_def l by (auto split: sum.splits)
    with k (1) show ?thesis by simp
  qed
  show "cc_wire_consumed res = length buf - length buf' \<and> list_all (piece_of buf) (cc_data_chunks res) \<and>
           in_order 0 (map piece_span (cc_data_chunks res)) (cc_wire_consumed res)" if "r = Inr res"
  proof -
    have "length buf - length (cu_buf c1) = k" using k (1, 2) by simp
    then show ?thesis using assms k (3, 4) that unfolding consume_def l by (auto split: sum.splits)
  qed
qed

subsection \<open>The parser's invariant\<close>

definition decoded_view :: "content_view \<Rightarrow> bool" where
  "decoded_view v \<longleftrightarrow> v = HttpRequestDecodedBody \<or> v = HttpResponseDecodedBody"

definition info_ok :: "uuid \<Rightarrow> direction \<Rightarrow> message_info \<Rightarrow> bool" where
  "info_ok fid d info \<longleftrightarrow> mi_flow_id info = fid \<and> mi_direction info = d \<and>
     \<not> decoded_view (mi_body_view info) \<and> decoded_view (mi_decoded_view info)"

fun state_ok :: "uuid \<Rightarrow> direction \<Rightarrow> body_state \<Rightarrow> bool" where
  "state_ok fid d Headers \<longleftrightarrow> True"
| "state_ok fid d (Fixed r info acc) \<longleftrightarrow> info_ok fid d info"
| "state_ok fid d (SkipFixed r c info) \<longleftrightarrow> info_ok fid d info"
| "state_ok fid d (Chunked info dec acc seen cap) \<longleftrightarrow> info_ok fid d info"
| "state_ok fid d (UntilClose info acc seen cap) \<longleftrightarrow> info_ok fid d info"

definition record_true :: "(nat \<Rightarrow> byte) \<Rightarrow> content_record \<Rightarrow> bool" where
  "record_true S r \<longleftrightarrow> decoded_view (cr_view r) \<or> bytes_at S (cr_stream_offset r) (cr_data r)"

definition events_records :: "http_emission list \<Rightarrow> content_record list" where
  "events_records es = concat (map em_content es)"

lemma events_records_simps [simp]:
  "events_records [] = []" "events_records (es @ es') = events_records es @ events_records es'"
  "events_records [e] = em_content e"
  by (simp_all add: events_records_def)

definition wire_spans :: "content_record list \<Rightarrow> (nat \<times> nat) list" where
  "wire_spans rs = map (\<lambda>r. (cr_stream_offset r, length (cr_data r))) (filter (\<lambda>r. \<not> decoded_view (cr_view r)) rs)"

lemma wire_spans_append [simp]: "wire_spans (rs @ rs') = wire_spans rs @ wire_spans rs'"
  by (simp add: wire_spans_def)

definition feed_ok :: "(nat \<Rightarrow> byte) \<Rightarrow> uuid \<Rightarrow> direction \<Rightarrow> nat \<Rightarrow> nat \<Rightarrow> http_feed \<Rightarrow> bool" where
  "feed_ok S fid d lo fin h \<longleftrightarrow>
     bytes_at S (hp_stream_offset (hf_parser h)) (hp_buffer (hf_parser h)) \<and>
     hp_stream_offset (hf_parser h) + length (hp_buffer (hf_parser h)) \<le> fin \<and> fin \<le> u64_max \<and>
     (hf_mode h = HttpMode \<longrightarrow> hp_stream_offset (hf_parser h) + length (hp_buffer (hf_parser h)) = fin) \<and>
     state_ok fid d (hp_state (hf_parser h)) \<and>
     (\<forall>r \<in> set (events_records (hf_events h)). cr_flow_id r = fid \<and> cr_direction r = d \<and> record_true S r) \<and>
     in_order lo (wire_spans (events_records (hf_events h))) (hp_stream_offset (hf_parser h))"

text \<open>Emitting a prefix of the buffer and consuming at least that much.\<close>

lemma feed_ok_take:
  assumes "feed_ok S fid d lo fin h" and "info_ok fid d info" and "m \<le> n" and "n \<le> length (hp_buffer (hf_parser h))"
  shows "feed_ok S fid d lo fin (upd_parser (discard n)
           (emit_body env info (hp_stream_offset (hf_parser h)) (take m (hp_buffer (hf_parser h))) h))"
  using assms
  by (auto simp: feed_ok_def parser_simps sat_add64_exact content_event_def body_record_def info_ok_def record_true_def
      wire_spans_def intro: bytes_at_take bytes_at_drop in_order_snoc)

lemma feed_ok_discard:
  assumes "feed_ok S fid d lo fin h" and "n \<le> length (hp_buffer (hf_parser h))"
  shows "feed_ok S fid d lo fin (upd_parser (discard n) h)"
  using assms
  by (auto simp: feed_ok_def parser_simps sat_add64_exact intro: bytes_at_drop in_order_upper)

lemma feed_ok_decoded:
  assumes "feed_ok S fid d lo fin h" and "info_ok fid d info"
  shows "feed_ok S fid d lo fin (emit_decoded env info off acc h)"
  using assms
  by (auto simp: feed_ok_def emit_decoded_def push_event_def content_event_def decoded_record_def Let_def info_ok_def
      record_true_def wire_spans_def split: option.splits if_splits prod.splits sum.splits)

lemma feed_ok_state:
  "feed_ok S fid d lo fin h \<Longrightarrow> state_ok fid d st \<Longrightarrow> feed_ok S fid d lo fin (upd_parser (\<lambda>p. p\<lparr>hp_state := st\<rparr>) h)"
  by (simp add: feed_ok_def upd_parser_def)

lemma feed_ok_lose_sync: "feed_ok S fid d lo fin (lose_sync h) \<longleftrightarrow> feed_ok S fid d lo fin h"
  by (simp add: feed_ok_def parser_simps)

text \<open>The pieces of a chunked body, then the bytes consumed with them.\<close>

lemma emit_pieces_ok:
  assumes "emit_pieces env info (hp_stream_offset (hf_parser h)) cs acc h = (acc', h')"
    and "bytes_at S (hp_stream_offset (hf_parser h)) buf" and "hp_stream_offset (hf_parser h) + length buf \<le> u64_max"
    and "info_ok fid d info" and "list_all (piece_of buf) cs" and "in_order k (map piece_span cs) n" and "n \<le> length buf"
    and "\<forall>r \<in> set (events_records (hf_events h)). cr_flow_id r = fid \<and> cr_direction r = d \<and> record_true S r"
    and "in_order lo (wire_spans (events_records (hf_events h))) (hp_stream_offset (hf_parser h) + k)"
  shows "hf_parser h' = hf_parser h \<and> hf_mode h' = hf_mode h \<and>
     (\<forall>r \<in> set (events_records (hf_events h')). cr_flow_id r = fid \<and> cr_direction r = d \<and> record_true S r) \<and>
     in_order lo (wire_spans (events_records (hf_events h'))) (hp_stream_offset (hf_parser h) + n)"
  using assms
proof (induction cs arbitrary: acc h k)
  case Nil
  then show ?case by (auto intro: in_order_upper)
next
  case (Cons c cs)
  let ?o = "hp_stream_offset (hf_parser h)" and ?r = "ck_relative_offset c"
  let ?h = "emit_body env info (sat_add64 ?o ?r) (ck_data c) h"
  have piece: "piece_of buf c" and ord: "k \<le> ?r" "in_order (?r + length (ck_data c)) (map piece_span cs) n"
    using Cons.prems (5, 6) by simp_all
  have fits: "?r + length (ck_data c) \<le> length buf" using in_order_le [OF ord (2)] Cons.prems (7) by simp
  have true: "bytes_at S (?o + ?r) (ck_data c)"
    using piece fits Cons.prems (2) bytes_at_take [OF bytes_at_drop [of S ?o buf ?r]] by (metis piece_of_def add_leD1)
  have sat: "sat_add64 ?o ?r = ?o + ?r" using fits Cons.prems (3) by (simp add: sat_add64_exact)
  have p: "hf_parser ?h = hf_parser h" "hf_mode ?h = hf_mode h"
    and ev: "events_records (hf_events ?h) = events_records (hf_events h) @ [body_record (he_uuid env (hf_ids h)) info (?o + ?r) (ck_data c)]"
    by (simp_all add: emit_body_def push_event_def content_event_def sat)
  have recs: "\<forall>r \<in> set (events_records (hf_events ?h)). cr_flow_id r = fid \<and> cr_direction r = d \<and> record_true S r"
    using Cons.prems (4, 8) true unfolding ev by (auto simp: body_record_def info_ok_def record_true_def)
  have "in_order lo (wire_spans (events_records (hf_events ?h))) (?o + (?r + length (ck_data c)))"
    using Cons.prems (4, 9) ord (1) unfolding ev
    by (auto simp: wire_spans_def body_record_def info_ok_def intro!: in_order_snoc)
  then have "in_order lo (wire_spans (events_records (hf_events ?h))) (hp_stream_offset (hf_parser ?h) + (?r + length (ck_data c)))"
    by (simp only: p)
  from Cons.IH [of ?h "add_compressed env info acc (ck_data c)", OF _ _ _ Cons.prems (4) _ ord (2) Cons.prems (7) recs this]
  show ?case using Cons.prems (1, 2, 3, 5) by (simp add: p)
qed

subsection \<open>Every step keeps the invariant\<close>

lemma resync_ok:
  assumes "feed_ok S fid d lo fin h" and "resync_to_http_start (hf_parser h) = (found, p)"
  shows "feed_ok S fid d lo fin (h\<lparr>hf_parser := p\<rparr>)"
proof -
  have bound: "n \<le> length v" if "find_plausible_http_start v = Some n" for n v
  proof -
    have "idx < m \<and> m < idx + length bs" if "line_starts idx bs = Some m" for idx m bs
      using that by (induction idx bs rule: line_starts.induct) (auto split: if_splits)
    with that show ?thesis by (fastforce simp: find_plausible_http_start_def split: if_splits)
  qed
  have keep: "feed_ok S fid d lo fin (h\<lparr>hf_parser := (discard n (hf_parser h))\<lparr>hp_synced := b, hp_header_scan_from := k\<rparr>\<rparr>)"
    if "n \<le> length (hp_buffer (hf_parser h))" for n b k
    using feed_ok_discard [OF assms (1) that] by (simp add: feed_ok_def upd_parser_def)
  have same: "feed_ok S fid d lo fin (h\<lparr>hf_parser := (hf_parser h)\<lparr>hp_synced := b, hp_header_scan_from := k\<rparr>\<rparr>)" for b k
    using assms (1) by (simp add: feed_ok_def)
  show ?thesis
  proof (cases "find_plausible_http_start (hp_buffer (hf_parser h))")
    case None
    with assms feed_ok_discard [OF assms (1), of "length (hp_buffer (hf_parser h)) - 48"] show ?thesis
      by (auto simp: resync_to_http_start_def trim_desynced_suffix_def Let_def upd_parser_def split: if_splits)
  next
    case (Some n)
    with assms (2) keep [OF bound [OF Some]] same show ?thesis
      by (auto simp: resync_to_http_start_def split: if_splits)
  qed
qed

lemma feed_ok_parse_error [simp]: "feed_ok S fid d lo fin (parse_error h) \<longleftrightarrow> feed_ok S fid d lo fin h"
  by (simp add: feed_ok_def parse_error_def)

lemma feed_ok_note [simp]: "feed_ok S fid d lo fin (note_message ph h) \<longleftrightarrow> feed_ok S fid d lo fin h"
  by (auto simp: feed_ok_def note_message_def parse_error_def Let_def)

lemma info_of_ok: "sc_flow_id chunk = fid \<Longrightarrow> sc_direction chunk = d \<Longrightarrow> info_ok fid d (info_of chunk req_dir ph)"
  by (simp add: info_ok_def info_of_def decoded_view_def)

lemma body_state_for_ok: "body_state_for env ph nb info = Some st \<Longrightarrow> info_ok fid d info \<Longrightarrow> state_ok fid d st"
  by (auto simp: body_state_for_def split: if_splits option.splits)

text \<open>A header record: \<open>h\<close> has consumed the header, which lies before its offset.\<close>

lemma feed_ok_header:
  assumes "feed_ok S fid d lo fin h" and "sc_flow_id chunk = fid" and "sc_direction chunk = d"
    and "bytes_at S off hdr" and "in_order lo (wire_spans (events_records (hf_events h))) off"
    and "off + length hdr = hp_stream_offset (hf_parser h)"
  shows "feed_ok S fid d lo fin ((push_event \<lparr>em_content = [header_record uid chunk ph off hdr], em_meta = m,
           em_request_direction = rd\<rparr> h)\<lparr>hf_ids := k\<rparr>)"
  using assms
  by (auto simp: feed_ok_def push_event_def header_record_def record_true_def wire_spans_def decoded_view_def intro!: in_order_snoc)

lemma accept_header_ok:
  assumes "feed_ok S fid d lo fin h" and "sc_flow_id chunk = fid" and "sc_direction chunk = d"
    and "bytes_at S off hdr" and "in_order lo (wire_spans (events_records (hf_events h))) off"
    and "off + length hdr = hp_stream_offset (hf_parser h)" and "accept_header env chunk ph hdr off h = (go, h')"
  shows "feed_ok S fid d lo fin h'"
proof -
  define h1 where "h1 = (if ph_ambiguous_framing ph then parse_error h else h)"
  define h2 where "h2 = (if ph_request ph then h1\<lparr>hf_request_direction := Some (sc_direction chunk)\<rparr> else h1)"
  define h3 where "h3 = note_message ph h2"
  have h2: "feed_ok S fid d lo fin h2" using assms (1) by (auto simp: h1_def h2_def feed_ok_def parse_error_def)
  then have h3: "feed_ok S fid d lo fin h3" by (simp add: h3_def)
  have ev: "hf_events h3 = hf_events h" "hf_parser h3 = hf_parser h"
    by (auto simp: h3_def h2_def h1_def note_message_def parse_error_def Let_def)
  note hdr = feed_ok_header [OF h3 assms (2-4), unfolded ev, OF assms (5, 6)]
  have mode: "feed_ok S fid d lo fin (upd_parser (\<lambda>p. p\<lparr>hp_buffer := []\<rparr>) (g\<lparr>hf_mode := TunnelMode\<rparr>))"
    if "feed_ok S fid d lo fin g" for g using that by (simp add: feed_ok_def upd_parser_def)
  show ?thesis
    using assms (7) unfolding accept_header_def h1_def [symmetric] Let_def h2_def [symmetric] h3_def [symmetric]
    by (auto simp: feed_ok_lose_sync split: if_splits option.splits
        intro!: hdr mode feed_ok_state intro: body_state_for_ok info_of_ok assms (2, 3))
qed

lemma step_headers_ok:
  assumes ok: "feed_ok S fid d lo fin h" and chunk: "sc_flow_id chunk = fid" "sc_direction chunk = d"
    and step: "step_headers env chunk h = (go, h')"
  shows "feed_ok S fid d lo fin h'"
proof -
  obtain found p where fp: "(if hp_synced (hf_parser h) then (True, hf_parser h)
      else resync_to_http_start (hf_parser h)) = (found, p)" by fastforce
  define g where "g = h\<lparr>hf_parser := p\<rparr>"
  have g: "feed_ok S fid d lo fin g" "hf_parser g = p"
    using fp ok resync_ok [OF ok] by (auto simp: g_def split: if_splits)
  show ?thesis
  proof (cases "find_double_crlf_from (hp_buffer p) (hp_header_scan_from p)")
    case None
    have scan: "feed_ok S fid d lo fin (upd_parser (\<lambda>p. p\<lparr>hp_header_scan_from := f p\<rparr>) g)" for f
      using g (1) by (simp add: feed_ok_def upd_parser_def)
    have "feed_ok S fid d lo fin (upd_parser (\<lambda>p. trim_desynced_suffix (p\<lparr>hp_header_scan_from := 0\<rparr>)) (lose_sync g))"
    proof -
      let ?g = "upd_parser (\<lambda>p. p\<lparr>hp_header_scan_from := 0\<rparr>) (lose_sync g)"
      have "feed_ok S fid d lo fin ?g" using g (1) by (simp add: feed_ok_def parser_simps)
      from this feed_ok_discard [OF this, of "length (hp_buffer (hf_parser ?g)) - 48"] show ?thesis
        by (auto simp: trim_desynced_suffix_def Let_def upd_parser_def)
    qed
    then show ?thesis
      using step None g (1) scan unfolding step_headers_def fp g_def [symmetric]
      by (auto simp: Let_def g_def [symmetric] split: if_splits)
  next
    case (Some pos)
    note bound = conjunct1 [OF find_double_crlf_bound [OF Some]]
    define k where "k = upd_parser (\<lambda>p. (discard (pos + 4) p)\<lparr>hp_header_scan_from := 0\<rparr>) g"
    have k: "feed_ok S fid d lo fin k" "hf_events k = hf_events g"
      "hp_stream_offset (hf_parser k) = hp_stream_offset p + (pos + 4)"
      using feed_ok_discard [OF g (1), of "pos + 4"] bound g by (auto simp: k_def feed_ok_def parser_simps sat_add64_exact)
    have acc: "feed_ok S fid d lo fin h1"
      if "accept_header env chunk ph (take (pos + 4) (hp_buffer p)) (hp_stream_offset p) k = (go1, h1)" for ph go1 h1
      by (rule accept_header_ok [OF k (1) chunk _ _ _ that])
        (use g bound k (2, 3) in \<open>auto simp: feed_ok_def intro: bytes_at_take\<close>)
    show ?thesis
      using step Some g (1) k (1) acc unfolding step_headers_def fp
      by (auto simp: Let_def g_def [symmetric] k_def [symmetric] feed_ok_lose_sync split: if_splits sum.splits)
  qed
qed

lemma emit_body_discard:
  "emit_body env info off data (upd_parser f h) = upd_parser f (emit_body env info off data h)"
  by (simp add: emit_body_def upd_parser_def push_event_def)

lemma step_fixed_ok:
  assumes ok: "feed_ok S fid d lo fin h" and "info_ok fid d info" and "step_fixed env rem info acc h = (go, h')"
  shows "feed_ok S fid d lo fin h'"
  using assms feed_ok_take [OF ok assms (2) order_refl, of "min rem (length (hp_buffer (hf_parser h)))" env]
  by (auto simp: step_fixed_def Let_def emit_body_discard split: if_splits intro: feed_ok_state feed_ok_decoded)

lemma step_skip_ok:
  assumes ok: "feed_ok S fid d lo fin h" and "info_ok fid d info" and "step_skip env rem cap info h = (go, h')"
  shows "feed_ok S fid d lo fin h'"
proof -
  let ?n = "min rem (length (hp_buffer (hf_parser h)))"
  show ?thesis
    using assms feed_ok_take [OF ok assms (2), of "min ?n cap" ?n env] feed_ok_discard [OF ok, of ?n]
    by (auto simp: step_skip_def Let_def split: if_splits intro: feed_ok_state)
qed

lemma step_until_close_ok:
  assumes ok: "feed_ok S fid d lo fin h" and "info_ok fid d info"
    and "step_until_close env info acc seen cap h = (go, h')"
  shows "feed_ok S fid d lo fin h'"
proof -
  let ?n = "length (hp_buffer (hf_parser h))"
  have split: "upd_parser (\<lambda>p. (discard n p)\<lparr>hp_state := st\<rparr>) g = upd_parser (\<lambda>p. p\<lparr>hp_state := st\<rparr>) (upd_parser (discard n) g)"
    for n st g by (simp add: upd_parser_def)
  show ?thesis
    using assms feed_ok_take [OF ok assms (2), of _ ?n env] feed_ok_discard [OF ok, of ?n]
    by (auto simp: step_until_close_def Let_def split split: if_splits intro!: feed_ok_state)
qed

lemma step_chunked_ok:
  assumes ok: "feed_ok S fid d lo fin h" and info: "info_ok fid d info"
    and step: "step_chunked env info dec acc seen cap h = (go, h')"
  shows "feed_ok S fid d lo fin h'"
proof (cases "hp_buffer (hf_parser h) = []")
  case True
  with step ok info show ?thesis by (auto simp: step_chunked_def Let_def intro: feed_ok_state)
next
  case False
  let ?p = "hf_parser h" and ?mc = "if cap then http_max_body_bytes (he_cfg env) - seen else 0"
  obtain r d' buf where c: "consume (http_max_header_bytes (he_cfg env)) ?mc dec (hp_buffer ?p) = (r, d', buf)"
    by (cases "consume (http_max_header_bytes (he_cfg env)) ?mc dec (hp_buffer ?p)") auto
  define n where "n = length (hp_buffer ?p) - length buf"
  note pieces = consume_pieces [OF c]
  have n: "buf = drop n (hp_buffer ?p)" "n \<le> length (hp_buffer ?p)" using pieces (1) by (auto simp: n_def)
  have skip: "upd_parser (\<lambda>p. p\<lparr>hp_buffer := buf, hp_stream_offset := sat_add64 (hp_stream_offset p) n\<rparr>) g = upd_parser (discard n) g"
    if "hf_parser g = ?p" for g using that n (1) by (simp add: upd_parser_def discard_def)
  show ?thesis
  proof (cases r)
    case (Inl e)
    have "upd_parser (\<lambda>p. p\<lparr>hp_buffer := buf, hp_stream_offset :=
        sat_add64 (hp_stream_offset p) (length (hp_buffer p) - length buf)\<rparr>) h = upd_parser (discard n) h"
      using n by (simp add: upd_parser_def discard_def)
    then show ?thesis
      using step False c Inl feed_ok_discard [OF ok n (2)] by (auto simp: step_chunked_def Let_def feed_ok_lose_sync)
  next
    case (Inr res)
    have wire: "cc_wire_consumed res = n" "list_all (piece_of (hp_buffer ?p)) (cc_data_chunks res)"
      "in_order 0 (map piece_span (cc_data_chunks res)) n" using pieces (2) [OF Inr] by (auto simp: n_def)
    obtain acc' g where e: "emit_pieces env info (hp_stream_offset ?p) (cc_data_chunks res) acc h = (acc', g)" by fastforce
    have g: "hf_parser g = ?p \<and> hf_mode g = hf_mode h \<and>
      (\<forall>r \<in> set (events_records (hf_events g)). cr_flow_id r = fid \<and> cr_direction r = d \<and> record_true S r) \<and>
      in_order lo (wire_spans (events_records (hf_events g))) (hp_stream_offset ?p + n)"
      by (rule emit_pieces_ok [OF e, of S "hp_buffer ?p" fid d 0])
        (use ok info wire n (2) in \<open>auto simp: feed_ok_def\<close>)
    have "feed_ok S fid d lo fin (upd_parser (discard n) g)"
      using g ok n (2) by (auto simp: feed_ok_def parser_simps sat_add64_exact intro: bytes_at_drop)
    then show ?thesis
      using step False c e Inr info wire (1) skip [OF conjunct1 [OF g]]
      by (auto simp: step_chunked_def Let_def split: if_splits intro: feed_ok_state feed_ok_decoded)
  qed
qed

text \<open>An invariant of the loop, and what a whole run of the loop gives.\<close>

locale feed_invariant =
  fixes env :: http_env and chunk :: stream_chunk and inv :: "http_feed \<Rightarrow> bool"
  assumes step: "inv h \<Longrightarrow> feed_step env chunk h = (go, h') \<Longrightarrow> inv h'"
begin

lemma loop: "inv h \<Longrightarrow> inv (feed_loop env chunk h)"
proof (induction "feed_measure h" arbitrary: h rule: less_induct)
  case less
  obtain go h' where s: "feed_step env chunk h = (go, h')" by fastforce
  with less.hyps [of h'] feed_step_measure [of env chunk h h'] step [OF less.prems s] show ?case
    by (subst feed_loop.simps) auto
qed

lemma feed: "inv (begin_chunk chunk h) \<Longrightarrow> inv (feed_parser env chunk h)"
  unfolding feed_parser_def by (rule loop)

end

lemma feed_step_ok:
  assumes "feed_ok S fid d lo fin h" and "sc_flow_id chunk = fid" "sc_direction chunk = d"
    and "feed_step env chunk h = (go, h')"
  shows "feed_ok S fid d lo fin h'"
proof -
  have "feed_ok S fid d lo fin (upd_parser (\<lambda>p. p\<lparr>hp_state := Headers\<rparr>) h)"
    by (rule feed_ok_state [OF assms (1)]) simp
  then show ?thesis
    using assms unfolding feed_step_def Let_def
    by (cases "hp_state (hf_parser h)")
      (auto simp: feed_ok_def [of S fid d lo fin h] intro: step_headers_ok step_fixed_ok step_skip_ok step_chunked_ok step_until_close_ok)
qed

interpretation faithful: feed_invariant env chunk
    "\<lambda>h. feed_ok S fid d lo fin h \<and> sc_flow_id chunk = fid \<and> sc_direction chunk = d" for env chunk S fid d lo fin
  by unfold_locales (auto intro: feed_step_ok)

end
