(* ===== verification/Http_Bounds.thy ===== *)
theory Http_Bounds
  imports Http_Invariant
begin

text \<open>
  What the HTTP stream parser may hold and emit, against the limits of the configuration: the queue of pending
  requests, the compressed bytes kept for decoding, the body bytes captured per message, the size of a decoded
  body, and the input buffered between two chunks. The invariant \<open>bounds_ok\<close> is a second instance of
  \<open>feed_invariant\<close>.
\<close>

subsection \<open>Decoded bodies\<close>

lemma read_bounded_limit:
  "read_bounded limit blocks ok out = Inr res \<Longrightarrow> length out \<le> limit \<Longrightarrow> limit < u64_max \<Longrightarrow> length res \<le> limit"
  by (induction limit blocks ok out rule: read_bounded.induct) (auto simp: sat_add64_def split: if_splits)

lemma decoded_record_size:
  assumes "decoded_record lib uid info off acc lim ratio = Some r" and "lim < u64_max"
  shows "length (cr_data r) \<le> lim" and "length (cr_data r) \<le> length acc * ratio"
    and "cr_view r = mi_decoded_view info"
  using assms
  by (auto simp: decoded_record_def Let_def split: if_splits prod.splits sum.splits dest!: read_bounded_limit)

subsection \<open>Captured body bytes\<close>

definition header_view :: "content_view \<Rightarrow> bool" where
  "header_view v \<longleftrightarrow> v = HttpRequestHeaders \<or> v = HttpResponseHeaders"

text \<open>The body bytes captured since the last header of a record sequence, \<open>n\<close> of them before it.\<close>

definition captured1 :: "nat \<Rightarrow> content_record \<Rightarrow> nat" where
  "captured1 n r = (if header_view (cr_view r) then 0 else if decoded_view (cr_view r) then n else n + length (cr_data r))"

definition captured :: "nat \<Rightarrow> content_record list \<Rightarrow> nat" where
  "captured = foldl captured1"

fun captures_within :: "nat \<Rightarrow> nat \<Rightarrow> content_record list \<Rightarrow> bool" where
  "captures_within limit n [] \<longleftrightarrow> n \<le> limit"
| "captures_within limit n (r # rs) \<longleftrightarrow> n \<le> limit \<and> captures_within limit (captured1 n r) rs"

lemma captured_simps [simp]:
  "captured n [] = n" "captured n (r # rs) = captured (captured1 n r) rs"
  "captured n (rs @ rs') = captured (captured n rs) rs'"
  by (simp_all add: captured_def)

lemma captures_within_append [simp]:
  "captures_within limit n (rs @ rs') \<longleftrightarrow> captures_within limit n rs \<and> captures_within limit (captured n rs) rs'"
  by (induction limit n rs rule: captures_within.induct) (auto elim: captures_within.elims)

subsection \<open>The pieces of a chunked body\<close>

abbreviation piece_bytes :: "chunk_data list \<Rightarrow> nat" where
  "piece_bytes cs \<equiv> sum_list (map (\<lambda>c. length (ck_data c)) cs)"

definition run_within :: "nat \<Rightarrow> chunk_run \<Rightarrow> bool" where
  "run_within mc c \<longleftrightarrow> cu_collected c = piece_bytes (cu_chunks c) \<and> piece_bytes (cu_chunks c) \<le> mc \<and>
     piece_bytes (cu_chunks c) \<le> cu_body_bytes c"

lemma chunk_round_within:
  assumes "mc \<le> u64_max" and "run_within mc c" and "chunk_round il ml mc c = (r, c')"
  shows "run_within mc c'"
  using assms unfolding chunk_round_def Let_def
  by (cases "cd_state (cu_decoder c)")
    (auto simp: run_within_def sat_add64_def min_def split: if_splits option.splits sum.splits)

lemma consume_within:
  assumes "consume ml mc d buf = (Inr res, d', buf')" and "mc \<le> u64_max"
  shows "piece_bytes (cc_data_chunks res) \<le> mc" and "piece_bytes (cc_data_chunks res) \<le> cc_body_bytes res"
proof -
  let ?c = "\<lparr>cu_decoder = d, cu_buf = buf, cu_chunks = [], cu_collected = 0, cu_body_bytes = 0, cu_done = False\<rparr>"
  obtain r1 c1 where l: "consume_loop (length buf) ml mc ?c = (r1, c1)" by fastforce
  have "run_within mc ?c" by (simp add: run_within_def)
  from consume_loop_keeps [where P = "run_within mc", OF l this chunk_round_within [OF assms (2)]]
  have "run_within mc c1" .
  then show "piece_bytes (cc_data_chunks res) \<le> mc" "piece_bytes (cc_data_chunks res) \<le> cc_body_bytes res"
    using assms (1) unfolding consume_def l by (auto simp: run_within_def split: sum.splits)
qed

text \<open>What the decoder leaves unread when it waits for input.\<close>

lemma consume_leaves:
  assumes "consume ml mc d buf = (Inr res, d', buf')" and "\<not> cc_done res"
  shows "length buf' \<le> max ml 1"
proof -
  have leaves: "cu_done c' \<or> length (cu_buf c') \<le> max ml 1" if "consume_loop il ml mc c = (Inr (), c')" for il c c'
    using that
  proof (induction il ml mc c arbitrary: c' rule: consume_loop.induct)
    case (1 il ml mc c)
    obtain r1 c1 where r1: "chunk_round il ml mc c = (r1, c1)" by fastforce
    show ?case
    proof (cases "r1 = Inr True")
      case True
      then have "consume_loop il ml mc c1 = (Inr (), c')"
        using 1 (2) r1 by (subst (asm) consume_loop.simps) simp
      from 1 (1) [OF r1 [symmetric] True TrueI this] show ?thesis .
    next
      case False
      then have "r1 = Inr False" "c' = c1"
        using 1 (2) r1 by (subst (asm) consume_loop.simps, auto split: sum.splits if_splits)+
      then show ?thesis
        using r1 unfolding chunk_round_def Let_def
        by (cases "cd_state (cu_decoder c)") (auto split: if_splits option.splits sum.splits)
    qed
  qed
  show ?thesis
    using assms unfolding consume_def by (auto split: prod.splits sum.splits dest: leaves)
qed

subsection \<open>The invariant\<close>

text \<open>The body bytes that a state may still capture, and the compressed bytes that it keeps.\<close>

fun budget :: "nat \<Rightarrow> body_state \<Rightarrow> nat" where
  "budget limit Headers = 0"
| "budget limit (Fixed r info acc) = r"
| "budget limit (SkipFixed r c info) = c"
| "budget limit (Chunked info dec acc seen cap) = (if cap then limit - seen else 0)"
| "budget limit (UntilClose info acc seen cap) = (if cap then limit - seen else 0)"

fun kept :: "body_state \<Rightarrow> bytes" where
  "kept (Fixed r info acc) = acc"
| "kept (Chunked info dec acc seen cap) = acc"
| "kept (UntilClose info acc seen cap) = acc"
| "kept _ = []"

fun info_in :: "body_state \<Rightarrow> message_info option" where
  "info_in Headers = None"
| "info_in (Fixed r info acc) = Some info"
| "info_in (SkipFixed r c info) = Some info"
| "info_in (Chunked info dec acc seen cap) = Some info"
| "info_in (UntilClose info acc seen cap) = Some info"

definition views_ok :: "message_info \<Rightarrow> bool" where
  "views_ok info \<longleftrightarrow> decoded_view (mi_decoded_view info) \<and> \<not> decoded_view (mi_body_view info) \<and> \<not> header_view (mi_body_view info)"

definition record_within :: "http_config \<Rightarrow> content_record \<Rightarrow> bool" where
  "record_within cfg r \<longleftrightarrow> decoded_view (cr_view r) \<longrightarrow> length (cr_data r) \<le> http_max_decode_bytes cfg"

definition config_ok :: "http_config \<Rightarrow> bool" where
  "config_ok cfg \<longleftrightarrow> http_max_body_bytes cfg \<le> u64_max \<and> http_max_decode_bytes cfg < u64_max"

definition bounds_ok :: "http_config \<Rightarrow> nat \<Rightarrow> http_feed \<Rightarrow> bool" where
  "bounds_ok cfg n h \<longleftrightarrow>
     length (hf_pending h) \<le> http_pending_request_limit \<and>
     length (kept (hp_state (hf_parser h))) \<le> http_max_decode_bytes cfg \<and>
     (\<forall>info. info_in (hp_state (hf_parser h)) = Some info \<longrightarrow> views_ok info) \<and>
     list_all (record_within cfg) (events_records (hf_events h)) \<and>
     captures_within (http_max_body_bytes cfg) n (events_records (hf_events h)) \<and>
     captured n (events_records (hf_events h)) + budget (http_max_body_bytes cfg) (hp_state (hf_parser h))
       \<le> http_max_body_bytes cfg"

text \<open>The invariant with the state taken out of the parser, as an iteration of the loop does it.\<close>

definition bounds_in :: "http_config \<Rightarrow> nat \<Rightarrow> nat \<Rightarrow> http_feed \<Rightarrow> bool" where
  "bounds_in cfg n left h \<longleftrightarrow>
     length (hf_pending h) \<le> http_pending_request_limit \<and>
     list_all (record_within cfg) (events_records (hf_events h)) \<and>
     captures_within (http_max_body_bytes cfg) n (events_records (hf_events h)) \<and>
     captured n (events_records (hf_events h)) + left \<le> http_max_body_bytes cfg"

lemma bounds_ok_iff:
  "bounds_ok cfg n h \<longleftrightarrow> bounds_in cfg n (budget (http_max_body_bytes cfg) (hp_state (hf_parser h))) h \<and>
     length (kept (hp_state (hf_parser h))) \<le> http_max_decode_bytes cfg \<and>
     (\<forall>info. info_in (hp_state (hf_parser h)) = Some info \<longrightarrow> views_ok info)"
  by (auto simp: bounds_ok_def bounds_in_def)

lemma bounds_in_mono: "bounds_in cfg n left h \<Longrightarrow> left' \<le> left \<Longrightarrow> bounds_in cfg n left' h"
  by (auto simp: bounds_in_def)

lemma bounds_in_upd [simp]: "bounds_in cfg n left (upd_parser f h) \<longleftrightarrow> bounds_in cfg n left h"
  by (simp add: bounds_in_def upd_parser_def)

lemma bounds_in_ids [simp]: "bounds_in cfg n left (h\<lparr>hf_ids := k\<rparr>) \<longleftrightarrow> bounds_in cfg n left h"
  by (simp add: bounds_in_def)

lemma bounds_in_lose_sync: "bounds_in cfg n left h \<Longrightarrow> bounds_in cfg n left (lose_sync h)"
  by (simp add: bounds_in_def lose_sync_def upd_parser_def parse_error_def)

lemma bounds_in_body:
  "bounds_in cfg n left h \<Longrightarrow> views_ok info \<Longrightarrow> length data \<le> left \<Longrightarrow>
   bounds_in cfg n (left - length data) (emit_body env info off data h)"
  by (auto simp: bounds_in_def emit_body_def push_event_def content_event_def captured1_def body_record_def views_ok_def
      record_within_def)

lemma bounds_in_decoded:
  assumes "bounds_in (he_cfg env) n left h" and "views_ok info" and "config_ok (he_cfg env)"
  shows "bounds_in (he_cfg env) n left (emit_decoded env info off acc h)"
proof (cases "decoded_record (he_lib env) (he_uuid env (hf_ids h)) info off acc
             (http_max_decode_bytes (he_cfg env)) (http_max_decode_ratio (he_cfg env))")
  case None
  with assms show ?thesis by (simp add: emit_decoded_def)
next
  case (Some r)
  have "\<not> header_view (mi_decoded_view info)" using assms (2) by (auto simp: views_ok_def decoded_view_def header_view_def)
  with assms decoded_record_size [OF Some] Some show ?thesis
    by (auto simp: emit_decoded_def bounds_in_def push_event_def content_event_def captured1_def record_within_def
        config_ok_def views_ok_def)
qed

lemma bounds_in_pieces:
  assumes "emit_pieces env info base cs acc h = (acc', h')"
    and "bounds_in cfg n left h" and "views_ok info" and "piece_bytes cs \<le> left"
    and "length acc \<le> http_max_decode_bytes (he_cfg env)" and "config_ok (he_cfg env)"
  shows "bounds_in cfg n (left - piece_bytes cs) h' \<and> length acc' \<le> http_max_decode_bytes (he_cfg env)"
  using assms
proof (induction env info base cs acc h arbitrary: left rule: emit_pieces.induct)
  case (2 env info base c cs acc h)
  have "length (add_compressed env info acc (ck_data c)) \<le> http_max_decode_bytes (he_cfg env)"
    using 2 (6, 7) by (auto simp: add_compressed_def config_ok_def sat_add64_def)
  moreover from 2 have "bounds_in cfg n (left - length (ck_data c)) (emit_body env info (sat_add64 base (ck_relative_offset c)) (ck_data c) h)"
    by (intro bounds_in_body) auto
  ultimately show ?case
    using 2 (1) [of "left - length (ck_data c)"] 2 (2, 4-7) by (auto simp: diff_diff_add)
qed simp

lemma add_compressed_length:
  "length acc \<le> http_max_decode_bytes (he_cfg env) \<Longrightarrow> config_ok (he_cfg env) \<Longrightarrow>
   length (add_compressed env info acc data) \<le> http_max_decode_bytes (he_cfg env)"
  by (auto simp: add_compressed_def config_ok_def sat_add64_def)

subsection \<open>Every step keeps it\<close>

text \<open>A step's result: the state put back is within the limits that are left.\<close>

lemma bounds_okI:
  assumes "bounds_in cfg n left h" and "hp_state (hf_parser h) = st" and "budget (http_max_body_bytes cfg) st \<le> left"
    and "length (kept st) \<le> http_max_decode_bytes cfg" and "\<And>info. info_in st = Some info \<Longrightarrow> views_ok info"
  shows "bounds_ok cfg n h"
  using assms bounds_in_mono [OF assms (1, 3)] by (simp add: bounds_ok_iff)

lemma hp_state_simps [simp]:
  "hp_state (hf_parser (emit_decoded env info off acc h)) = hp_state (hf_parser h)"
  "hp_state (hf_parser (emit_body env info off data h)) = hp_state (hf_parser h)"
  "hp_state (hf_parser (lose_sync h)) = hp_state (hf_parser h)"
  "hp_state (hf_parser (upd_parser f h)) = hp_state (f (hf_parser h))"
  "hp_state (discard k p) = hp_state p"
  by (simp_all add: emit_body_def push_event_def lose_sync_def upd_parser_def parse_error_def discard_def)

lemma step_fixed_bounds:
  assumes "bounds_in (he_cfg env) n rem h" and "hp_state (hf_parser h) = Headers" and "views_ok info"
    and "length acc \<le> http_max_decode_bytes (he_cfg env)" and "config_ok (he_cfg env)"
    and "step_fixed env rem info acc h = (go, h')"
  shows "bounds_ok (he_cfg env) n h'"
proof (cases "hp_buffer (hf_parser h) = []")
  case True
  with assms show ?thesis by (auto simp: step_fixed_def Let_def intro!: bounds_okI [of _ _ rem])
next
  case False
  let ?k = "min rem (length (hp_buffer (hf_parser h)))" and ?b = "hp_buffer (hf_parser h)"
  let ?g = "emit_body env info (hp_stream_offset (hf_parser h)) (take ?k ?b) (upd_parser (discard ?k) h)"
  have "bounds_in (he_cfg env) n (rem - length (take ?k ?b)) ?g"
    using assms (1, 3) by (intro bounds_in_body) auto
  then have g: "bounds_in (he_cfg env) n (rem - ?k) ?g" by simp
  show ?thesis
    using assms False g
    by (auto simp: step_fixed_def Let_def intro!: bounds_okI [of _ _ "rem - ?k"] bounds_in_decoded add_compressed_length
        split: if_splits)
qed

lemma step_skip_bounds:
  assumes "bounds_in (he_cfg env) n cap h" and "hp_state (hf_parser h) = Headers" and "views_ok info"
    and "config_ok (he_cfg env)" and "step_skip env rem cap info h = (go, h')"
  shows "bounds_ok (he_cfg env) n h'"
proof (cases "hp_buffer (hf_parser h) = []")
  case True
  with assms show ?thesis by (auto simp: step_skip_def Let_def intro!: bounds_okI [of _ _ cap])
next
  case False
  let ?b = "hp_buffer (hf_parser h)"
  let ?k = "min (min rem (length ?b)) cap"
  have "bounds_in (he_cfg env) n (cap - length (take ?k ?b)) (emit_body env info (hp_stream_offset (hf_parser h)) (take ?k ?b) h)"
    using assms (1, 3) by (intro bounds_in_body) auto
  moreover have "length (take ?k ?b) = ?k" by simp
  ultimately have g: "bounds_in (he_cfg env) n (cap - ?k) (emit_body env info (hp_stream_offset (hf_parser h)) (take ?k ?b) h)"
    by (simp only:)
  show ?thesis
    using assms False g
    by (auto simp: step_skip_def Let_def intro!: bounds_okI [of _ _ "cap - ?k"] intro: bounds_in_mono split: if_splits)
qed

lemma step_until_close_bounds:
  assumes "bounds_in (he_cfg env) n (if cap then http_max_body_bytes (he_cfg env) - seen else 0) h"
    and "hp_state (hf_parser h) = Headers" and "views_ok info"
    and "length acc \<le> http_max_decode_bytes (he_cfg env)" and "config_ok (he_cfg env)"
    and "step_until_close env info acc seen cap h = (go, h')"
  shows "bounds_ok (he_cfg env) n h'"
proof (cases "hp_buffer (hf_parser h) = []")
  case True
  with assms show ?thesis by (auto simp: step_until_close_def Let_def intro!: bounds_okI)
next
  case False
  let ?b = "hp_buffer (hf_parser h)" and ?left = "if cap then http_max_body_bytes (he_cfg env) - seen else 0"
  let ?k = "if cap then min (length ?b) (http_max_body_bytes (he_cfg env) - seen) else 0"
  have "bounds_in (he_cfg env) n (?left - length (take ?k ?b)) (emit_body env info (hp_stream_offset (hf_parser h)) (take ?k ?b) h)"
    using assms (1, 3) by (intro bounds_in_body) auto
  moreover have "length (take ?k ?b) = ?k" by simp
  ultimately have g: "bounds_in (he_cfg env) n (?left - ?k) (emit_body env info (hp_stream_offset (hf_parser h)) (take ?k ?b) h)"
    by (simp only:)
  have g': "bounds_in (he_cfg env) n (?left - ?k) h" using assms (1) by (rule bounds_in_mono) simp
  show ?thesis
    using assms False g g'
    by (auto simp: step_until_close_def Let_def sat_add64_def config_ok_def intro!: bounds_okI [of _ _ "?left - ?k"] add_compressed_length
        split: if_splits)
qed

lemma step_chunked_bounds:
  assumes inb: "bounds_in (he_cfg env) n (if cap then http_max_body_bytes (he_cfg env) - seen else 0) h"
    and "hp_state (hf_parser h) = Headers" and info: "views_ok info"
    and acc: "length acc \<le> http_max_decode_bytes (he_cfg env)" and cfg: "config_ok (he_cfg env)"
    and step: "step_chunked env info dec acc seen cap h = (go, h')"
  shows "bounds_ok (he_cfg env) n h'"
proof (cases "hp_buffer (hf_parser h) = []")
  case True
  with assms show ?thesis by (auto simp: step_chunked_def Let_def intro!: bounds_okI)
next
  case False
  let ?p = "hf_parser h" and ?left = "if cap then http_max_body_bytes (he_cfg env) - seen else 0"
  obtain r d' buf where c: "consume (http_max_header_bytes (he_cfg env)) ?left dec (hp_buffer ?p) = (r, d', buf)"
    by (cases "consume (http_max_header_bytes (he_cfg env)) ?left dec (hp_buffer ?p)") auto
  show ?thesis
  proof (cases r)
    case (Inl e)
    then show ?thesis
      using assms False c bounds_in_lose_sync [OF bounds_in_mono [OF inb, of 0]]
      by (auto simp: step_chunked_def Let_def intro!: bounds_okI [of _ _ 0] bounds_in_lose_sync bounds_in_mono [OF inb, of 0])
  next
    case (Inr res)
    obtain acc' g where e: "emit_pieces env info (hp_stream_offset ?p) (cc_data_chunks res) acc h = (acc', g)" by fastforce
    have "?left \<le> u64_max" using cfg by (auto simp: config_ok_def)
    note within = consume_within [OF c [unfolded Inr] this]
    from bounds_in_pieces [OF e inb info within (1) acc cfg]
    have g: "bounds_in (he_cfg env) n (?left - piece_bytes (cc_data_chunks res)) g"
      and acc': "length acc' \<le> http_max_decode_bytes (he_cfg env)" by blast+
    have st: "hp_state (hf_parser g) = Headers" using emit_pieces_parser [OF e] assms (2) by simp
    have left: "budget (http_max_body_bytes (he_cfg env)) (Chunked info d' acc' seen' cap') \<le> ?left - piece_bytes (cc_data_chunks res)"
      if "seen' = sat_add64 seen (cc_body_bytes res)" "cap' = (cap \<and> seen' \<le> http_max_body_bytes (he_cfg env))" for seen' cap'
      using that within cfg by (auto simp: sat_add64_def config_ok_def)
    show ?thesis
      using step False c e Inr g acc' st info cfg left
      by (auto simp: step_chunked_def Let_def intro!: bounds_okI [OF _ refl, of _ _ "?left - piece_bytes (cc_data_chunks res)"]
          bounds_in_decoded split: if_splits)
  qed
qed

lemma bounds_in_note:
  "bounds_in cfg n left h \<Longrightarrow> bounds_in cfg n left (note_message ph h)"
  by (auto simp: bounds_in_def note_message_def parse_error_def Let_def)

lemma bounds_in_header:
  "bounds_in cfg n left h \<Longrightarrow> bounds_in cfg n (http_max_body_bytes cfg)
     (push_event \<lparr>em_content = [header_record uid chunk ph off hdr], em_meta = m, em_request_direction = rd\<rparr> h)"
  by (auto simp: bounds_in_def push_event_def captured1_def header_record_def header_view_def record_within_def decoded_view_def)

lemma views_ok_info_of: "views_ok (info_of chunk rd ph)"
  by (simp add: views_ok_def info_of_def decoded_view_def header_view_def)

lemma body_state_for_bounds:
  assumes "body_state_for env ph nb info = Some st" and "views_ok info"
  shows "budget (http_max_body_bytes (he_cfg env)) st \<le> http_max_body_bytes (he_cfg env)" and "kept st = []"
    and "\<And>i. info_in st = Some i \<Longrightarrow> views_ok i"
  using assms by (auto simp: body_state_for_def split: if_splits option.splits)

lemma accept_header_bounds:
  assumes "bounds_in (he_cfg env) n left h" and "hp_state (hf_parser h) = Headers"
    and "accept_header env chunk ph hdr off h = (go, h')"
  shows "bounds_ok (he_cfg env) n h'"
proof -
  define h1 where "h1 = (if ph_ambiguous_framing ph then parse_error h else h)"
  define h2 where "h2 = (if ph_request ph then h1\<lparr>hf_request_direction := Some (sc_direction chunk)\<rparr> else h1)"
  define h3 where "h3 = note_message ph h2"
  have "bounds_in (he_cfg env) n left h2" using assms (1) by (auto simp: h1_def h2_def bounds_in_def parse_error_def)
  then have h3: "bounds_in (he_cfg env) n left h3" unfolding h3_def by (rule bounds_in_note)
  have st: "hp_state (hf_parser h3) = Headers"
    using assms (2) by (auto simp: h3_def h2_def h1_def note_message_def parse_error_def Let_def)
  let ?max = "http_max_body_bytes (he_cfg env)"
  define g where "g rd = (push_event \<lparr>em_content = [header_record (he_uuid env (hf_ids h3)) chunk ph off hdr],
      em_meta = Some (header_meta (he_uuid env (hf_ids h3 + 1)) chunk ph), em_request_direction = Some rd\<rparr> h3)\<lparr>hf_ids := hf_ids h3 + 2\<rparr>"
    for rd
  have g: "bounds_in (he_cfg env) n ?max (g rd)" "hp_state (hf_parser (g rd)) = Headers" for rd
    using bounds_in_header [OF h3] st by (simp_all add: g_def push_event_def bounds_in_def)
  have tunnel: "bounds_ok (he_cfg env) n (upd_parser (\<lambda>p. p\<lparr>hp_buffer := []\<rparr>) ((g rd)\<lparr>hf_mode := TunnelMode\<rparr>))" for rd
    using g [of rd] by (auto simp: bounds_ok_def bounds_in_def upd_parser_def)
  have lost: "bounds_ok (he_cfg env) n (lose_sync (g rd))" for rd
    by (rule bounds_okI [OF bounds_in_lose_sync [OF g (1)] refl]) (simp_all add: g (2))
  have put: "bounds_ok (he_cfg env) n (upd_parser (\<lambda>p. p\<lparr>hp_state := st\<rparr>) (g rd))"
    if "body_state_for env ph nb (info_of chunk rd' ph) = Some st" for rd rd' nb st
    by (rule bounds_okI [of _ _ ?max _ st]) (use g body_state_for_bounds [OF that views_ok_info_of] in auto)
  show ?thesis
    using assms (3) unfolding accept_header_def h1_def [symmetric] Let_def h2_def [symmetric] h3_def [symmetric] g_def [symmetric]
    by (auto split: if_splits option.splits intro: tunnel lost put)
qed

lemma step_headers_bounds:
  assumes "bounds_in (he_cfg env) n left h" and "hp_state (hf_parser h) = Headers"
    and step: "step_headers env chunk h = (go, h')"
  shows "bounds_ok (he_cfg env) n h'"
proof -
  obtain found p where fp: "(if hp_synced (hf_parser h) then (True, hf_parser h)
      else resync_to_http_start (hf_parser h)) = (found, p)" by fastforce
  define g where "g = h\<lparr>hf_parser := p\<rparr>"
  have g: "bounds_in (he_cfg env) n 0 g" "hf_parser g = p" "hp_state p = Headers"
    using fp assms (1, 2) by (auto simp: g_def bounds_in_def split: if_splits dest: resync_buffer)
  have trim: "hp_state (trim_desynced_suffix q) = hp_state q" for q
    by (simp add: trim_desynced_suffix_def Let_def)
  have put: "bounds_ok (he_cfg env) n k" if "bounds_in (he_cfg env) n 0 k" "hp_state (hf_parser k) = Headers" for k
    by (rule bounds_okI [OF that]) simp_all
  have lost: "bounds_ok (he_cfg env) n (lose_sync k)" if "bounds_in (he_cfg env) n 0 k" "hp_state (hf_parser k) = Headers" for k
    by (rule put [OF bounds_in_lose_sync [OF that (1)]]) (simp add: that (2))
  have same: "bounds_ok (he_cfg env) n (upd_parser f k)"
    if "bounds_ok (he_cfg env) n k" "hp_state (f (hf_parser k)) = hp_state (hf_parser k)" for f k
    using that by (simp add: bounds_ok_def upd_parser_def)
  have acc: "bounds_ok (he_cfg env) n h1"
    if "accept_header env chunk ph hdr off (upd_parser f g) = (go1, h1)" "hp_state (f p) = Headers" for ph hdr off f go1 h1
    by (rule accept_header_bounds [OF _ _ that (1), where left = 0]) (use that (2) g in simp_all)
  show ?thesis
    using step g put [OF g (1)] lost [OF g (1)] unfolding step_headers_def fp
    by (auto simp: Let_def g_def [symmetric] trim split: if_splits option.splits sum.splits intro!: same lost intro: acc)
qed

lemma feed_step_bounds:
  assumes "bounds_ok (he_cfg env) n h" and "config_ok (he_cfg env)" and "feed_step env chunk h = (go, h')"
  shows "bounds_ok (he_cfg env) n h'"
proof -
  define g where "g = upd_parser (\<lambda>p. p\<lparr>hp_state := Headers\<rparr>) h"
  have g: "bounds_in (he_cfg env) n (budget (http_max_body_bytes (he_cfg env)) (hp_state (hf_parser h))) g"
    "hp_state (hf_parser g) = Headers"
    using assms (1) by (simp_all add: g_def bounds_ok_iff)
  show ?thesis
    using assms g unfolding feed_step_def Let_def bounds_ok_iff [of _ _ h] g_def [symmetric]
    by (cases "hp_state (hf_parser h)")
      (auto intro: step_headers_bounds step_fixed_bounds step_skip_bounds step_chunked_bounds step_until_close_bounds)
qed

interpretation bounds: feed_invariant env chunk "\<lambda>h. bounds_ok (he_cfg env) n h \<and> config_ok (he_cfg env)" for env chunk n
  by unfold_locales (auto intro: feed_step_bounds)

subsection \<open>The end of a stream\<close>

lemma bounds_in_finish_pieces:
  assumes "finish_pieces env info base cs acc h = (acc', h')"
    and "bounds_in cfg n left h" and "views_ok info" and "piece_bytes cs \<le> left"
  shows "bounds_in cfg n (left - piece_bytes cs) h'"
  using assms
proof (induction env info base cs acc h arbitrary: left rule: finish_pieces.induct)
  case (2 env info base c cs acc h)
  then have "bounds_in cfg n (left - length (ck_data c)) (emit_body env info (wrap_add64 base (ck_relative_offset c)) (ck_data c) h)"
    by (intro bounds_in_body) auto
  then show ?case
    using 2 (1) [of "left - length (ck_data c)"] 2 (2, 4, 5) by (auto simp: diff_diff_add)
qed simp

lemma finish_until_close_bounds:
  assumes "bounds_in (he_cfg env) n (if cap then http_max_body_bytes (he_cfg env) - seen else 0) h"
    and "views_ok info" and "config_ok (he_cfg env)"
  shows "bounds_in (he_cfg env) n 0 (finish_until_close env info acc seen cap h)"
proof -
  let ?b = "hp_buffer (hf_parser h)" and ?left = "if cap then http_max_body_bytes (he_cfg env) - seen else 0"
  let ?k = "if cap then min (length ?b) (http_max_body_bytes (he_cfg env) - seen) else 0"
  have "bounds_in (he_cfg env) n (?left - length (take ?k ?b)) (emit_body env info (hp_stream_offset (hf_parser h)) (take ?k ?b) h)"
    using assms (1, 2) by (intro bounds_in_body) auto
  from bounds_in_mono [OF this, of 0] bounds_in_mono [OF assms (1), of 0] assms (2, 3) show ?thesis
    by (auto simp: finish_until_close_def Let_def intro!: bounds_in_decoded)
qed

lemma finish_fixed_bounds:
  assumes "bounds_in (he_cfg env) n rem h" and "views_ok info" and "config_ok (he_cfg env)"
  shows "bounds_in (he_cfg env) n 0 (finish_fixed env rem info acc h)"
proof -
  let ?b = "hp_buffer (hf_parser h)"
  let ?k = "min rem (length ?b)"
  have "bounds_in (he_cfg env) n (rem - length (take ?k ?b)) (emit_body env info (hp_stream_offset (hf_parser h)) (take ?k ?b) h)"
    using assms (1, 2) by (intro bounds_in_body) auto
  from bounds_in_mono [OF this, of 0] bounds_in_mono [OF assms (1), of 0] assms (2, 3) show ?thesis
    by (auto simp: finish_fixed_def Let_def intro!: bounds_in_decoded)
qed

lemma finish_skip_bounds:
  assumes "bounds_in (he_cfg env) n cap h" and "views_ok info"
  shows "bounds_in (he_cfg env) n 0 (finish_skip env rem cap info h)"
proof -
  let ?b = "hp_buffer (hf_parser h)"
  let ?k = "min (min rem (length ?b)) cap"
  have "bounds_in (he_cfg env) n (cap - length (take ?k ?b)) (emit_body env info (hp_stream_offset (hf_parser h)) (take ?k ?b) h)"
    using assms by (intro bounds_in_body) auto
  from bounds_in_mono [OF this, of 0] bounds_in_mono [OF assms (1), of 0] show ?thesis
    by (auto simp: finish_skip_def Let_def)
qed

lemma finish_chunked_bounds:
  assumes inb: "bounds_in (he_cfg env) n (if cap then http_max_body_bytes (he_cfg env) - seen else 0) h"
    and info: "views_ok info" and cfg: "config_ok (he_cfg env)"
  shows "bounds_in (he_cfg env) n 0 (finish_chunked env info dec acc seen cap h)"
proof -
  let ?left = "if cap then http_max_body_bytes (he_cfg env) - seen else 0"
  obtain r d' buf where c: "consume (http_max_header_bytes (he_cfg env)) ?left dec (hp_buffer (hf_parser h)) = (r, d', buf)"
    by (cases "consume (http_max_header_bytes (he_cfg env)) ?left dec (hp_buffer (hf_parser h))") auto
  show ?thesis
  proof (cases r)
    case (Inl e)
    with c bounds_in_mono [OF inb, of 0] show ?thesis by (simp add: finish_chunked_def Let_def)
  next
    case (Inr res)
    obtain acc' g where f: "finish_pieces env info (hp_stream_offset (hf_parser h)) (cc_data_chunks res) acc h = (acc', g)"
      by fastforce
    have "?left \<le> u64_max" using cfg by (auto simp: config_ok_def)
    note within = consume_within [OF c [unfolded Inr] this]
    from bounds_in_mono [OF bounds_in_finish_pieces [OF f inb info within (1)], of 0]
    have "bounds_in (he_cfg env) n 0 g" by simp
    with c Inr f info cfg show ?thesis
      by (auto simp: finish_chunked_def Let_def intro!: bounds_in_decoded)
  qed
qed

lemma finish_parser_bounds:
  assumes "bounds_ok (he_cfg env) n h" and "config_ok (he_cfg env)"
  shows "bounds_in (he_cfg env) n 0 (finish_parser env h)"
proof -
  define g where "g = upd_parser (\<lambda>p. p\<lparr>hp_state := Headers\<rparr>) h"
  have g: "bounds_in (he_cfg env) n (budget (http_max_body_bytes (he_cfg env)) (hp_state (hf_parser h))) g"
    using assms (1) by (simp add: g_def bounds_ok_iff)
  show ?thesis
    using assms g unfolding finish_parser_def Let_def bounds_ok_iff g_def [symmetric]
    by (cases "hp_state (hf_parser h)")
      (auto intro: finish_fixed_bounds finish_skip_bounds finish_chunked_bounds finish_until_close_bounds)
qed

subsection \<open>The input left over\<close>

lemma feed_step_leaves:
  assumes "feed_step env chunk h = (False, h')"
  shows "length (hp_buffer (hf_parser h')) \<le> max (http_max_header_bytes (he_cfg env)) http_resync_suffix"
proof -
  let ?ok = "\<lambda>h'. length (hp_buffer (hf_parser h')) \<le> max (http_max_header_bytes (he_cfg env)) http_resync_suffix"
  have headers: "?ok h'" if "step_headers env chunk h = (False, h')" for h h'
  proof -
    obtain found p where fp: "(if hp_synced (hf_parser h) then (True, hf_parser h)
        else resync_to_http_start (hf_parser h)) = (found, p)" by fastforce
    have trim: "length (hp_buffer (trim_desynced_suffix q)) \<le> 48" for q
      by (auto simp: trim_desynced_suffix_def Let_def discard_def)
    have "\<not> found \<Longrightarrow> length (hp_buffer p) \<le> 48"
      using fp trim by (auto simp: resync_to_http_start_def split: if_splits option.splits)
    moreover have "accept_header env chunk ph hd off g = (False, h1) \<Longrightarrow> hp_buffer (hf_parser h1) = []" for ph hd off g h1
      by (auto simp: accept_header_def Let_def upd_parser_def split: if_splits option.splits)
    ultimately show ?thesis
      using that trim unfolding step_headers_def fp
      by (fastforce simp: Let_def upd_parser_def lose_sync_def parse_error_def le_max_iff_disj split: if_splits option.splits sum.splits)
  qed
  have chunked: "?ok h'" if "step_chunked env info dec acc seen cap h = (False, h')" for info dec acc seen cap h h'
    using that unfolding step_chunked_def Let_def
    by (auto simp: upd_parser_def split: if_splits prod.splits sum.splits dest!: consume_leaves emit_pieces_parser)
  show ?thesis
    using assms unfolding feed_step_def Let_def
    by (cases "hp_state (hf_parser h)")
      (auto simp: step_fixed_def step_skip_def step_until_close_def Let_def parser_simps
        split: if_splits prod.splits intro: headers chunked)
qed

lemma feed_loop_exit: "\<exists>g. feed_step env chunk g = (False, feed_loop env chunk h)"
proof (induction env chunk h rule: feed_loop.induct)
  case (1 env chunk h)
  obtain go h' where s: "feed_step env chunk h = (go, h')" by fastforce
  show ?case
  proof (cases go)
    case True
    with 1 [OF s [symmetric]] s show ?thesis by (subst feed_loop.simps) simp
  next
    case False
    with s show ?thesis by (intro exI [of _ h]) (subst feed_loop.simps, simp)
  qed
qed

lemma feed_parser_leaves:
  "length (hp_buffer (hf_parser (feed_parser env chunk h))) \<le> max (http_max_header_bytes (he_cfg env)) http_resync_suffix"
  using feed_loop_exit [of env chunk "begin_chunk chunk h"] feed_step_leaves unfolding feed_parser_def by blast

end
