(* ===== verification/L7_Worker.thy ===== *)
theory L7_Worker
  imports Http_Parser Service_Registry
begin

text \<open>
  The L7 worker of \<open>src/src/http/mod.rs\<close>: it takes the outputs of the flow engine one at a time, feeds TCP chunks
  of HTTP services to the connection's parser, and hands every chunk, header and body to the segment store, the
  matcher and the metadata writer.

  The peers' answers are the parameters \<open>l7_io\<close>: whether the \<open>k\<close>-th append to the segment store is accepted,
  whether the matcher is then interested in a view, and whether the \<open>k\<close>-th metadata event is accepted. What the
  worker hands over is collected in the state, in order. The service registry may change between two events:
  each event comes with the registry that the worker reads while it handles it.
\<close>

subsection \<open>State\<close>

record l7_io =
  io_append_ok :: "nat \<Rightarrow> bool"
  io_interested :: "nat \<Rightarrow> content_view \<Rightarrow> bool"
  io_metadata_ok :: "nat \<Rightarrow> bool"

record l7_worker =
  lw_parsers :: "(uuid \<times> http_connection) list"
  lw_detected :: "(uuid \<times> string) list"
  lw_segments :: "content_record list"
  lw_appends :: nat
  lw_matcher :: "content_record list"
  lw_closed :: "uuid list"
  lw_metadata :: "metadata_event list"
  lw_sends :: nat
  lw_ids :: nat
  lw_parse_errors :: u64
  lw_requests :: u64
  lw_responses :: u64
  lw_queue_depth :: u64

definition new_worker :: "u64 \<Rightarrow> l7_worker" where
  "new_worker depth = \<lparr>lw_parsers = [], lw_detected = [], lw_segments = [], lw_appends = 0, lw_matcher = [], lw_closed = [],
                 lw_metadata = [], lw_sends = 0, lw_ids = 0, lw_parse_errors = 0, lw_requests = 0, lw_responses = 0,
                 lw_queue_depth = depth\<rparr>"

subsection \<open>Handing over\<close>

definition fanout_content :: "l7_io \<Rightarrow> content_record \<Rightarrow> l7_worker \<Rightarrow> l7_worker" where
  "fanout_content io record w =
     (let k = lw_appends w;
          match_copy = (if io_interested io k (cr_view record) then Some record else None);
          w = w\<lparr>lw_appends := k + 1\<rparr> in
      if \<not> io_append_ok io k then w
      else let w = w\<lparr>lw_segments := lw_segments w @ [record]\<rparr> in
        case match_copy of None \<Rightarrow> w | Some record \<Rightarrow> w\<lparr>lw_matcher := lw_matcher w @ [record]\<rparr>)"

definition send_metadata :: "l7_io \<Rightarrow> metadata_event \<Rightarrow> l7_worker \<Rightarrow> bool \<times> l7_worker" where
  "send_metadata io e w =
     (let k = lw_sends w; w = w\<lparr>lw_sends := k + 1\<rparr> in
      if io_metadata_ok io k then (True, w\<lparr>lw_metadata := lw_metadata w @ [e]\<rparr>) else (False, w))"

fun fanout_records :: "l7_io \<Rightarrow> string option \<Rightarrow> content_record list \<Rightarrow> l7_worker \<Rightarrow> l7_worker" where
  "fanout_records io service [] w = w"
| "fanout_records io service (r # rs) w =
     fanout_records io service rs (fanout_content io (r\<lparr>cr_service := service\<rparr>) w)"

definition emit_http_event :: "l7_io \<Rightarrow> http_emission \<Rightarrow> string option \<Rightarrow> l7_worker \<Rightarrow> l7_worker" where
  "emit_http_event io evt service w =
     (let w = fanout_records io service (em_content evt) w in
      case em_meta evt of
        None \<Rightarrow> w
      | Some meta \<Rightarrow>
          let w = (if hr_request meta then w\<lparr>lw_requests := lw_requests w + 1\<rparr>
                   else w\<lparr>lw_responses := lw_responses w + 1\<rparr>)
          in snd (send_metadata io (HttpEvent meta) w))"

subsection \<open>The events of a flow\<close>

definition raw_record :: "uuid \<Rightarrow> service_registry \<Rightarrow> stream_chunk \<Rightarrow> content_record" where
  "raw_record uid services chunk =
     \<lparr>cr_id = uid, cr_flow_id = sc_flow_id chunk, cr_ts_ns = sc_ts_ns chunk,
      cr_service = service_for_flow services (sc_key chunk), cr_direction = sc_direction chunk, cr_view = TcpRaw,
      cr_stream_offset = sc_offset chunk, cr_data = sc_data chunk\<rparr>"

definition parse_chunk ::
  "http_env \<Rightarrow> service_registry \<Rightarrow> stream_chunk \<Rightarrow> l7_worker \<Rightarrow> http_emission list option \<times> l7_worker" where
  "parse_chunk env services chunk w =
     (if key_protocol (sc_key chunk) = Tcp \<and> should_parse_http services (sc_key chunk) then
        let parser = (case map_of (lw_parsers w) (sc_flow_id chunk) of Some c \<Rightarrow> c | None \<Rightarrow> new_connection);
            (report, parser) = connection_feed env (lw_ids w) chunk parser
        in (Some (rp_events report),
            w\<lparr>lw_parsers := AList.update (sc_flow_id chunk) parser (lw_parsers w), lw_ids := rp_ids report,
              lw_parse_errors := lw_parse_errors w + of_nat (rp_parse_errors report)\<rparr>)
      else (None, w))"

fun emit_events :: "l7_io \<Rightarrow> service_registry \<Rightarrow> stream_chunk \<Rightarrow> http_emission list \<Rightarrow> l7_worker \<Rightarrow> l7_worker" where
  "emit_events io services chunk [] w = w"
| "emit_events io services chunk (evt # evts) w =
     emit_events io services chunk evts
       (case em_request_direction evt of
          Some req_dir \<Rightarrow>
            let service = service_for_http services (sc_key chunk) req_dir
            in emit_http_event io evt (Some service)
                 (w\<lparr>lw_detected := AList.update (sc_flow_id chunk) service (lw_detected w)\<rparr>)
        | None \<Rightarrow> emit_http_event io evt (map_of (lw_detected w) (sc_flow_id chunk)) w)"

definition handle_chunk :: "http_env \<Rightarrow> l7_io \<Rightarrow> service_registry \<Rightarrow> stream_chunk \<Rightarrow> l7_worker \<Rightarrow> l7_worker" where
  "handle_chunk env io services chunk w =
     (let (parsed_events, w) = parse_chunk env services chunk w;
          w = fanout_content io (raw_record (he_uuid env (lw_ids w)) services chunk) (w\<lparr>lw_ids := lw_ids w + 1\<rparr>)
      in case parsed_events of None \<Rightarrow> w | Some events \<Rightarrow> emit_events io services chunk events w)"

text \<open>\<open>by_port(a).or_else(|| by_port(b))\<close> on the ports of a summary.\<close>

definition port_service :: "service_registry \<Rightarrow> flow_summary \<Rightarrow> string option" where
  "port_service services s =
     map_option svc_name
       (case by_port (fs_src_port s) services of Some x \<Rightarrow> Some x | None \<Rightarrow> by_port (fs_dst_port s) services)"

definition or_service :: "string option \<Rightarrow> service_registry \<Rightarrow> flow_summary \<Rightarrow> flow_summary" where
  "or_service detected services s =
     s\<lparr>fs_service := (case detected of Some x \<Rightarrow> Some x | None \<Rightarrow> port_service services s)\<rparr>"

definition finish_flow :: "http_env \<Rightarrow> l7_io \<Rightarrow> uuid \<Rightarrow> l7_worker \<Rightarrow> l7_worker" where
  "finish_flow env io fid w =
     (case map_of (lw_parsers w) fid of
        None \<Rightarrow> w
      | Some parser \<Rightarrow>
          let report = fst (connection_finish env (lw_ids w) parser);
              w = w\<lparr>lw_parsers := AList.delete fid (lw_parsers w), lw_ids := rp_ids report\<rparr>
          in fold (\<lambda>evt w. emit_http_event io evt (map_of (lw_detected w) fid) w) (rp_events report) w)"

text \<open>One iteration of the loop; \<open>False\<close> is its \<open>break\<close>.\<close>

definition l7_step :: "http_env \<Rightarrow> l7_io \<Rightarrow> service_registry \<Rightarrow> flow_output \<Rightarrow> l7_worker \<Rightarrow> bool \<times> l7_worker" where
  "l7_step env io services event w =
     (let w = w\<lparr>lw_queue_depth := queue_dequeued (lw_queue_depth w)\<rparr> in
      case event of
        Chunk chunk \<Rightarrow> (True, handle_chunk env io services chunk w)
      | Snapshot s \<Rightarrow> send_metadata io (FlowEvent (or_service (fs_service s) services s)) w
      | Closed s \<Rightarrow>
          let w = finish_flow env io (fs_flow_id s) w;
              s = or_service (map_of (lw_detected w) (fs_flow_id s)) services s;
              w = w\<lparr>lw_detected := AList.delete (fs_flow_id s) (lw_detected w)\<rparr>;
              (ok, w) = send_metadata io (FlowEvent s) w
          in (ok, if ok then w\<lparr>lw_closed := lw_closed w @ [fs_flow_id s]\<rparr> else w))"

fun l7_worker_loop :: "http_env \<Rightarrow> l7_io \<Rightarrow> (service_registry \<times> flow_output) list \<Rightarrow> l7_worker \<Rightarrow> l7_worker" where
  "l7_worker_loop env io [] w = w"
| "l7_worker_loop env io ((services, event) # events) w =
     (case l7_step env io services event w of (True, w) \<Rightarrow> l7_worker_loop env io events w | (False, w) \<Rightarrow> w)"

end
