(* ===== verification/L7_Invariant.thy ===== *)
theory L7_Invariant
  imports Http_Bounds L7_Worker
begin

text \<open>
  The invariant of HTTP connections and of the L7 worker that holds them: between two events every parser is in
  the state that \<open>feed_ok\<close> and \<open>bounds_ok\<close> describe, and everything handed to the segment store is true to the
  byte streams of the flows. \<open>S f d\<close> is the stream of direction \<open>d\<close> of flow \<open>f\<close>.
\<close>

subsection \<open>The input cursor\<close>

lemma discard_next [simp]: "hp_next_input_offset (discard n p) = hp_next_input_offset p"
  by (simp add: discard_def)

lemma resync_next: "resync_to_http_start p = (found, p') \<Longrightarrow> hp_next_input_offset p' = hp_next_input_offset p"
  by (auto simp: resync_to_http_start_def trim_desynced_suffix_def Let_def split: option.splits if_splits)

lemma accept_header_next:
  "accept_header env chunk ph hdr off h = (go, h') \<Longrightarrow>
   hp_next_input_offset (hf_parser h') = hp_next_input_offset (hf_parser h)"
  by (auto simp: accept_header_def Let_def parser_simps split: if_splits option.splits)

lemma step_headers_next:
  assumes "step_headers env chunk h = (go, h')"
  shows "hp_next_input_offset (hf_parser h') = hp_next_input_offset (hf_parser h)"
proof -
  obtain found p where fp: "(if hp_synced (hf_parser h) then (True, hf_parser h)
      else resync_to_http_start (hf_parser h)) = (found, p)" by fastforce
  have "hp_next_input_offset p = hp_next_input_offset (hf_parser h)"
    using fp by (auto split: if_splits dest: resync_next)
  with assms show ?thesis unfolding step_headers_def fp
    by (auto simp: Let_def upd_parser_def lose_sync_def parse_error_def trim_desynced_suffix_def
        split: if_splits option.splits sum.splits dest!: accept_header_next)
qed

lemma feed_step_next:
  "feed_step env chunk h = (go, h') \<Longrightarrow> hp_next_input_offset (hf_parser h') = hp_next_input_offset (hf_parser h)"
  unfolding feed_step_def Let_def
  by (cases "hp_state (hf_parser h)")
    (auto simp: step_fixed_def step_skip_def step_until_close_def step_chunked_def Let_def upd_parser_def lose_sync_def
      parse_error_def emit_body_def push_event_def
      split: if_splits prod.splits sum.splits dest!: step_headers_next emit_pieces_parser)

interpretation cursor: feed_invariant env chunk "\<lambda>h. hp_next_input_offset (hf_parser h) = x" for env chunk x
  by unfold_locales (simp add: feed_step_next)

subsection \<open>A parser between two chunks\<close>

definition parser_ok :: "(nat \<Rightarrow> byte) \<Rightarrow> uuid \<Rightarrow> direction \<Rightarrow> http_parser \<Rightarrow> bool" where
  "parser_ok S fid d p \<longleftrightarrow>
     bytes_at S (hp_stream_offset p) (hp_buffer p) \<and> state_ok fid d (hp_state p) \<and>
     (case hp_next_input_offset p of
        None \<Rightarrow> hp_buffer p = [] \<and> hp_state p = Headers
      | Some e \<Rightarrow> hp_stream_offset p + length (hp_buffer p) = e \<and> e \<le> u64_max)"

lemma parser_ok_new [simp]: "parser_ok S fid d new_parser"
  by (simp add: parser_ok_def new_parser_def)

definition records_ok :: "(direction \<Rightarrow> nat \<Rightarrow> byte) \<Rightarrow> uuid \<Rightarrow> http_emission list \<Rightarrow> bool" where
  "records_ok S fid es \<longleftrightarrow> (\<forall>r \<in> set (events_records es). cr_flow_id r = fid \<and> record_true (S (cr_direction r)) r)"

lemma records_ok_append [simp]: "records_ok S fid (es @ es') \<longleftrightarrow> records_ok S fid es \<and> records_ok S fid es'"
  by (auto simp: records_ok_def)

lemma records_ok_Nil [simp]: "records_ok S fid []"
  by (simp add: records_ok_def)

lemma feed_ok_records: "feed_ok (S d) fid d lo fin h \<Longrightarrow> records_ok S fid (hf_events h)"
  by (auto simp: feed_ok_def records_ok_def)

definition stream_chunk_true :: "(uuid \<Rightarrow> direction \<Rightarrow> nat \<Rightarrow> byte) \<Rightarrow> stream_chunk \<Rightarrow> bool" where
  "stream_chunk_true S c \<longleftrightarrow> bytes_at (S (sc_flow_id c) (sc_direction c)) (sc_offset c) (sc_data c) \<and>
     sc_offset c + length (sc_data c) \<le> u64_max"

lemma begin_chunk_ok:
  assumes "parser_ok S fid d (hf_parser h)" and "hf_events h = []"
    and "bytes_at S (sc_offset chunk) (sc_data chunk)" and "sc_offset chunk + length (sc_data chunk) \<le> u64_max"
    and "lo \<le> sc_offset chunk" and "hp_next_input_offset (hf_parser h) \<noteq> None \<Longrightarrow> lo \<le> hp_stream_offset (hf_parser h)"
  shows "feed_ok S fid d lo (sc_offset chunk + length (sc_data chunk)) (begin_chunk chunk h)"
proof (cases "hp_next_input_offset (hf_parser h)")
  case None
  with assms show ?thesis
    by (auto simp: begin_chunk_def Let_def upd_parser_def feed_ok_def parser_ok_def wire_spans_def)
next
  case (Some e)
  with assms show ?thesis
    by (auto simp: begin_chunk_def Let_def upd_parser_def feed_ok_def parser_ok_def bytes_at_append wire_spans_def)
qed

lemma begin_chunk_next:
  "hp_next_input_offset (hf_parser (begin_chunk chunk h)) = Some (sat_add64 (sc_offset chunk) (length (sc_data chunk)))"
  by (simp add: begin_chunk_def Let_def upd_parser_def)

lemma feed_parser_ok:
  assumes "parser_ok S (sc_flow_id chunk) (sc_direction chunk) (hf_parser h)" and "hf_events h = []"
    and "bytes_at S (sc_offset chunk) (sc_data chunk)" and "sc_offset chunk + length (sc_data chunk) \<le> u64_max"
    and "lo \<le> sc_offset chunk" and "hp_next_input_offset (hf_parser h) \<noteq> None \<Longrightarrow> lo \<le> hp_stream_offset (hf_parser h)"
  shows "feed_ok S (sc_flow_id chunk) (sc_direction chunk) lo (sc_offset chunk + length (sc_data chunk)) (feed_parser env chunk h)"
    and "hf_mode (feed_parser env chunk h) = HttpMode \<Longrightarrow>
           parser_ok S (sc_flow_id chunk) (sc_direction chunk) (hf_parser (feed_parser env chunk h))"
proof -
  note b = begin_chunk_ok [OF assms]
  show ok: "feed_ok S (sc_flow_id chunk) (sc_direction chunk) lo (sc_offset chunk + length (sc_data chunk)) (feed_parser env chunk h)"
    using faithful.feed [of S "sc_flow_id chunk" "sc_direction chunk" lo _ chunk h env] b by blast
  have "hp_next_input_offset (hf_parser (feed_parser env chunk h)) = Some (sc_offset chunk + length (sc_data chunk))"
    using cursor.feed [of chunk h] begin_chunk_next [of chunk h] assms (4) by (simp add: sat_add64_exact)
  with ok show "parser_ok S (sc_flow_id chunk) (sc_direction chunk) (hf_parser (feed_parser env chunk h))"
    if "hf_mode (feed_parser env chunk h) = HttpMode"
    using that by (simp add: feed_ok_def parser_ok_def)
qed

subsection \<open>Connections\<close>

definition connection_ok :: "(uuid \<Rightarrow> direction \<Rightarrow> nat \<Rightarrow> byte) \<Rightarrow> uuid \<Rightarrow> http_connection \<Rightarrow> bool" where
  "connection_ok S fid c \<longleftrightarrow> (hc_mode c = HttpMode \<longrightarrow> (\<forall>d. parser_ok (S fid d) fid d (parser_for d c)))"

lemma connection_ok_new: "connection_ok S fid new_connection"
  by (simp add: connection_ok_def new_connection_def parser_for_def split: direction.splits)

lemma parser_for_give_back:
  "parser_for d' (give_back d h c) = (if d' = d then hf_parser h else parser_for d' c)"
  by (cases d; cases d') (simp_all add: parser_for_def give_back_def Let_def)

lemma give_back_simps [simp]:
  "hc_mode (give_back d h c) = hf_mode h" "hc_pending_requests (give_back d h c) = hf_pending h"
  "hc_request_direction (give_back d h c) = hf_request_direction h"
  by (simp_all add: give_back_def Let_def split: direction.splits)

lemma http_mode_not: "m \<noteq> TunnelMode \<longleftrightarrow> m = HttpMode"
  by (cases m) auto

lemma connection_feed_ok:
  assumes "connection_ok S (sc_flow_id chunk) c" and "stream_chunk_true S chunk"
    and "connection_feed env n chunk c = (rep, c')"
  shows "connection_ok S (sc_flow_id chunk) c' \<and> records_ok (S (sc_flow_id chunk)) (sc_flow_id chunk) (rp_events rep)"
proof (cases "hc_mode c = TunnelMode")
  case True
  with assms show ?thesis by (auto simp: connection_feed_def empty_report_def)
next
  case False
  let ?f = "sc_flow_id chunk" and ?d = "sc_direction chunk"
  define h where "h = feed_parser env chunk (borrow ?d n c)"
  have c': "c' = give_back ?d h c" "rp_events rep = hf_events h"
    using assms (3) False by (auto simp: connection_feed_def Let_def h_def report_of_def)
  have ps: "parser_ok (S ?f d) ?f d (parser_for d c)" for d
    using assms (1) False by (simp add: connection_ok_def http_mode_not)
  have fed: "feed_ok (S ?f ?d) ?f ?d 0 (sc_offset chunk + length (sc_data chunk)) h"
    "hf_mode h = HttpMode \<Longrightarrow> parser_ok (S ?f ?d) ?f ?d (hf_parser h)"
    unfolding h_def by (rule feed_parser_ok [where lo = 0]; use assms (2) ps [of ?d] in \<open>simp add: borrow_def stream_chunk_true_def\<close>)+
  show ?thesis
    using fed ps by (auto simp: c' connection_ok_def parser_for_give_back intro: feed_ok_records)
qed

subsection \<open>The end of a stream\<close>

text \<open>Below the 64-bit limit the wrapping addition of \<open>finish\<close> is the saturating one of \<open>feed\<close>.\<close>

lemma finish_pieces_eq:
  assumes "list_all (\<lambda>c. base + ck_relative_offset c \<le> u64_max) cs"
  shows "finish_pieces env info base cs acc h = emit_pieces env info base cs acc h"
  using assms
  by (induction env info base cs acc h rule: emit_pieces.induct) (simp_all add: wrap_add64_def sat_add64_def min_absorb1)

lemma piece_offsets: "in_order lo (map piece_span cs) n \<Longrightarrow> list_all (\<lambda>c. ck_relative_offset c \<le> n) cs"
  by (induction cs arbitrary: lo) (auto dest: in_order_le)

lemma records_ok_upd [simp]: "hf_events (upd_parser f h) = hf_events h"
  by (simp add: upd_parser_def)

lemma records_ok_body:
  "records_ok S fid (hf_events h) \<Longrightarrow> info_ok fid d info \<Longrightarrow> bytes_at (S d) off data \<Longrightarrow>
   records_ok S fid (hf_events (emit_body env info off data h))"
  by (auto simp: records_ok_def emit_body_def push_event_def content_event_def body_record_def info_ok_def record_true_def)

lemma records_ok_decoded:
  "records_ok S fid (hf_events h) \<Longrightarrow> info_ok fid d info \<Longrightarrow>
   records_ok S fid (hf_events (emit_decoded env info off acc h))"
  by (auto simp: records_ok_def emit_decoded_def push_event_def content_event_def decoded_record_def Let_def info_ok_def
      record_true_def split: option.splits if_splits prod.splits sum.splits)

lemma finish_until_close_ok:
  "records_ok S fid (hf_events h) \<Longrightarrow> info_ok fid d info \<Longrightarrow> bytes_at (S d) (hp_stream_offset (hf_parser h)) (hp_buffer (hf_parser h)) \<Longrightarrow>
   records_ok S fid (hf_events (finish_until_close env info acc seen cap h))"
  by (auto simp: finish_until_close_def Let_def intro!: records_ok_decoded records_ok_body bytes_at_take)

lemma finish_fixed_ok:
  "records_ok S fid (hf_events h) \<Longrightarrow> info_ok fid d info \<Longrightarrow> bytes_at (S d) (hp_stream_offset (hf_parser h)) (hp_buffer (hf_parser h)) \<Longrightarrow>
   records_ok S fid (hf_events (finish_fixed env rem info acc h))"
  by (auto simp: finish_fixed_def Let_def intro!: records_ok_decoded records_ok_body bytes_at_take)

lemma finish_skip_ok:
  "records_ok S fid (hf_events h) \<Longrightarrow> info_ok fid d info \<Longrightarrow> bytes_at (S d) (hp_stream_offset (hf_parser h)) (hp_buffer (hf_parser h)) \<Longrightarrow>
   records_ok S fid (hf_events (finish_skip env rem cap info h))"
  by (auto simp: finish_skip_def Let_def intro!: records_ok_decoded records_ok_body bytes_at_take)

lemma finish_chunked_ok:
  assumes ok: "feed_ok (S d) fid d lo fin h" and info: "info_ok fid d info"
  shows "records_ok S fid (hf_events (finish_chunked env info dec acc seen cap h))"
proof -
  let ?p = "hf_parser h" and ?mc = "if cap then http_max_body_bytes (he_cfg env) - seen else 0"
  obtain r d' buf where c: "consume (http_max_header_bytes (he_cfg env)) ?mc dec (hp_buffer ?p) = (r, d', buf)"
    by (cases "consume (http_max_header_bytes (he_cfg env)) ?mc dec (hp_buffer ?p)") auto
  show ?thesis
  proof (cases r)
    case (Inl e)
    with c ok show ?thesis by (auto simp: finish_chunked_def Let_def intro: feed_ok_records)
  next
    case (Inr res)
    define n where "n = length (hp_buffer ?p) - length buf"
    note pieces = consume_pieces (2) [OF c Inr]
    have n: "n \<le> length (hp_buffer ?p)" and wire: "cc_wire_consumed res = n"
      "list_all (piece_of (hp_buffer ?p)) (cc_data_chunks res)" "in_order 0 (map piece_span (cc_data_chunks res)) n"
      using pieces by (auto simp: n_def)
    obtain acc' g where e: "emit_pieces env info (hp_stream_offset ?p) (cc_data_chunks res) acc h = (acc', g)" by fastforce
    have "hp_stream_offset ?p + n \<le> u64_max" using ok n by (auto simp: feed_ok_def)
    then have f: "finish_pieces env info (hp_stream_offset ?p) (cc_data_chunks res) acc h = (acc', g)"
      using e piece_offsets [OF wire (3)] by (subst finish_pieces_eq) (auto simp: list_all_iff)
    have g: "hf_parser g = ?p \<and> hf_mode g = hf_mode h \<and>
      (\<forall>r \<in> set (events_records (hf_events g)). cr_flow_id r = fid \<and> cr_direction r = d \<and> record_true (S d) r) \<and>
      in_order lo (wire_spans (events_records (hf_events g))) (hp_stream_offset ?p + n)"
      by (rule emit_pieces_ok [OF e, of "S d" "hp_buffer ?p" fid d 0])
        (use ok info wire n in \<open>auto simp: feed_ok_def\<close>)
    have "records_ok S fid (hf_events g)" using g by (auto simp: records_ok_def)
    then show ?thesis
      using c Inr f info by (auto simp: finish_chunked_def Let_def intro!: records_ok_decoded)
  qed
qed

lemma finish_parser_ok:
  assumes "parser_ok (S d) fid d (hf_parser h)" and "hf_events h = []"
  shows "records_ok S fid (hf_events (finish_parser env h))"
proof (cases "hp_state (hf_parser h) = Headers")
  case True
  with assms (2) show ?thesis by (simp add: finish_parser_def Let_def)
next
  case False
  define g where "g = upd_parser (\<lambda>p. p\<lparr>hp_state := Headers\<rparr>) h"
  obtain e where e: "hp_next_input_offset (hf_parser h) = Some e" "hp_stream_offset (hf_parser h) + length (hp_buffer (hf_parser h)) = e"
    "e \<le> u64_max" using assms (1) False by (auto simp: parser_ok_def split: option.splits)
  have g: "feed_ok (S d) fid d 0 e g" "records_ok S fid (hf_events g)"
    "bytes_at (S d) (hp_stream_offset (hf_parser g)) (hp_buffer (hf_parser g))"
    using assms e by (auto simp: g_def upd_parser_def feed_ok_def parser_ok_def wire_spans_def)
  have "state_ok fid d (hp_state (hf_parser h))" using assms (1) by (simp add: parser_ok_def)
  with g show ?thesis
    unfolding finish_parser_def Let_def g_def [symmetric]
    by (cases "hp_state (hf_parser h)")
      (auto intro: finish_until_close_ok finish_fixed_ok finish_skip_ok finish_chunked_ok)
qed

lemma connection_finish_ok:
  assumes "connection_ok S fid c"
  shows "records_ok (S fid) fid (rp_events (fst (connection_finish env n c)))"
proof (cases "hc_mode c = TunnelMode")
  case True
  then show ?thesis by (simp add: connection_finish_def empty_report_def)
next
  case False
  have ps: "parser_ok (S fid d) fid d (parser_for d c)" for d
    using assms False by (simp add: connection_ok_def http_mode_not)
  show ?thesis
    using False finish_parser_ok [of "S fid" AToB fid "borrow AToB n c" env] ps [of AToB] ps [of BToA]
    by (auto simp: connection_finish_def Let_def borrow_def [of AToB] parser_for_give_back
        intro!: finish_parser_ok [of "S fid" BToA] simp: borrow_def [of BToA])
qed

subsection \<open>The worker\<close>

definition record_ok :: "(uuid \<Rightarrow> direction \<Rightarrow> nat \<Rightarrow> byte) \<Rightarrow> content_record \<Rightarrow> bool" where
  "record_ok S r \<longleftrightarrow> record_true (S (cr_flow_id r) (cr_direction r)) r"

definition worker_ok :: "(uuid \<Rightarrow> direction \<Rightarrow> nat \<Rightarrow> byte) \<Rightarrow> l7_worker \<Rightarrow> bool" where
  "worker_ok S w \<longleftrightarrow> (\<forall>fid c. map_of (lw_parsers w) fid = Some c \<longrightarrow> connection_ok S fid c) \<and>
     (\<forall>r \<in> set (lw_segments w). record_ok S r)"

lemma record_ok_service [simp]: "record_ok S (r\<lparr>cr_service := s\<rparr>) \<longleftrightarrow> record_ok S r"
  by (simp add: record_ok_def record_true_def)

lemma fanout_ok: "worker_ok S w \<Longrightarrow> record_ok S r \<Longrightarrow> worker_ok S (fanout_content io r w)"
  by (auto simp: worker_ok_def fanout_content_def Let_def)

lemma fanout_records_ok:
  "worker_ok S w \<Longrightarrow> \<forall>r \<in> set rs. record_ok S r \<Longrightarrow> worker_ok S (fanout_records io service rs w)"
  by (induction rs arbitrary: w) (simp_all add: fanout_ok)

lemma send_metadata_ok: "worker_ok S (snd (send_metadata io e w)) \<longleftrightarrow> worker_ok S w"
  by (simp add: send_metadata_def worker_ok_def Let_def)

lemma worker_ok_fields [simp]:
  "worker_ok S (w\<lparr>lw_detected := x\<rparr>) \<longleftrightarrow> worker_ok S w" "worker_ok S (w\<lparr>lw_requests := y\<rparr>) \<longleftrightarrow> worker_ok S w"
  "worker_ok S (w\<lparr>lw_responses := y\<rparr>) \<longleftrightarrow> worker_ok S w" "worker_ok S (w\<lparr>lw_ids := z\<rparr>) \<longleftrightarrow> worker_ok S w"
  "worker_ok S (w\<lparr>lw_closed := u\<rparr>) \<longleftrightarrow> worker_ok S w" "worker_ok S (w\<lparr>lw_queue_depth := y\<rparr>) \<longleftrightarrow> worker_ok S w"
  by (simp_all add: worker_ok_def)

lemma emit_http_event_ok:
  "worker_ok S w \<Longrightarrow> \<forall>r \<in> set (em_content evt). record_ok S r \<Longrightarrow> worker_ok S (emit_http_event io evt service w)"
  by (auto simp: emit_http_event_def Let_def send_metadata_ok fanout_records_ok split: option.splits)

lemma emit_events_ok:
  "worker_ok S w \<Longrightarrow> \<forall>r \<in> set (events_records evts). record_ok S r \<Longrightarrow> worker_ok S (emit_events io services chunk evts w)"
  by (induction evts arbitrary: w) (simp_all add: events_records_def Let_def ball_Un emit_http_event_ok split: option.splits)

lemma fold_emit_ok:
  "worker_ok S w \<Longrightarrow> \<forall>r \<in> set (events_records evts). record_ok S r \<Longrightarrow>
   worker_ok S (fold (\<lambda>evt w. emit_http_event io evt (f w) w) evts w)"
  by (induction evts arbitrary: w) (simp_all add: events_records_def ball_Un emit_http_event_ok)

lemma records_ok_record_ok: "records_ok (S fid) fid es \<Longrightarrow> r \<in> set (events_records es) \<Longrightarrow> record_ok S r"
  by (auto simp: records_ok_def record_ok_def)

lemma worker_ok_parser: "worker_ok S w \<Longrightarrow> map_of (lw_parsers w) fid = Some c \<Longrightarrow> connection_ok S fid c"
  by (simp add: worker_ok_def)

lemma parse_chunk_ok:
  assumes "worker_ok S w" and "stream_chunk_true S chunk" and "parse_chunk env services chunk w = (evs, w')"
  shows "worker_ok S w' \<and> (\<forall>es r. evs = Some es \<longrightarrow> r \<in> set (events_records es) \<longrightarrow> record_ok S r)"
proof (cases "key_protocol (sc_key chunk) = Tcp \<and> should_parse_http services (sc_key chunk)")
  case False
  with assms show ?thesis by (auto simp: parse_chunk_def)
next
  case True
  let ?f = "sc_flow_id chunk"
  let ?c = "case map_of (lw_parsers w) ?f of Some c \<Rightarrow> c | None \<Rightarrow> new_connection"
  obtain rep c' where f: "connection_feed env (lw_ids w) chunk ?c = (rep, c')" by fastforce
  have "connection_ok S ?f ?c"
    using worker_ok_parser [OF assms (1)] by (auto simp: connection_ok_new split: option.splits)
  from connection_feed_ok [OF this assms (2) f]
  have fed: "connection_ok S ?f c'" "records_ok (S ?f) ?f (rp_events rep)" by blast+
  then have "worker_ok S (w\<lparr>lw_parsers := AList.update ?f c' (lw_parsers w), lw_ids := rp_ids rep,
      lw_parse_errors := lw_parse_errors w + of_nat (rp_parse_errors rep)\<rparr>)"
    using assms (1) by (auto simp: worker_ok_def update_conv')
  with assms (3) True f fed (2) show ?thesis
    by (auto simp: parse_chunk_def Let_def intro: records_ok_record_ok)
qed

lemma raw_record_ok: "stream_chunk_true S chunk \<Longrightarrow> record_ok S (raw_record uid services chunk)"
  by (simp add: record_ok_def raw_record_def record_true_def stream_chunk_true_def)

lemma handle_chunk_ok:
  assumes "worker_ok S w" and "stream_chunk_true S chunk"
  shows "worker_ok S (handle_chunk env io services chunk w)"
proof -
  obtain evs w1 where p: "parse_chunk env services chunk w = (evs, w1)" by fastforce
  note ok = parse_chunk_ok [OF assms p]
  let ?w = "fanout_content io (raw_record (he_uuid env (lw_ids w1)) services chunk) (w1\<lparr>lw_ids := lw_ids w1 + 1\<rparr>)"
  have "worker_ok S ?w" using ok raw_record_ok [OF assms (2)] by (intro fanout_ok) simp_all
  with ok show ?thesis by (auto simp: handle_chunk_def p Let_def intro: emit_events_ok split: option.splits)
qed

lemma finish_flow_ok:
  assumes "worker_ok S w"
  shows "worker_ok S (finish_flow env io fid w)"
proof (cases "map_of (lw_parsers w) fid")
  case None
  with assms show ?thesis by (simp add: finish_flow_def)
next
  case (Some c)
  note recs = connection_finish_ok [OF worker_ok_parser [OF assms Some], of env "lw_ids w"]
  have "worker_ok S (w\<lparr>lw_parsers := AList.delete fid (lw_parsers w), lw_ids := k\<rparr>)" for k
    using assms by (auto simp: worker_ok_def delete_conv')
  with recs Some show ?thesis by (auto simp: finish_flow_def Let_def intro!: fold_emit_ok intro: records_ok_record_ok)
qed

lemma l7_step_ok:
  assumes "worker_ok S w" and "\<And>c. event = Chunk c \<Longrightarrow> stream_chunk_true S c"
  shows "worker_ok S (snd (l7_step env io services event w))"
  using assms
  by (cases event)
    (auto simp: l7_step_def Let_def handle_chunk_ok send_metadata_ok finish_flow_ok split: prod.splits dest!: arg_cong [where f = snd])

lemma l7_worker_loop_ok:
  assumes "worker_ok S w" and "\<forall>(services, event) \<in> set events. \<forall>c. event = Chunk c \<longrightarrow> stream_chunk_true S c"
  shows "worker_ok S (l7_worker_loop env io events w)"
  using assms
proof (induction env io events w rule: l7_worker_loop.induct)
  case (2 env io services event events w)
  have "worker_ok S (snd (l7_step env io services event w))"
    using 2 (2, 3) by (intro l7_step_ok) auto
  with 2 show ?case by (auto split: prod.splits bool.splits)
qed simp

end
