(* ===== verification/L7_Properties.thy ===== *)
theory L7_Properties
  imports L7_Invariant "HOL-Library.Sublist"
begin

text \<open>
  The properties of the HTTP analyser and of the L7 worker: what reaches the segment store is true to the streams,
  every chunk is stored, nothing is matched that is not stored, records of a direction are in stream order, and
  what a connection holds and captures stays within the configured limits.
\<close>

subsection \<open>Where records come from\<close>

text \<open>Every record that a parser emits carries its flow, its direction and an HTTP view.\<close>

definition from_parser :: "uuid \<Rightarrow> direction \<Rightarrow> content_record \<Rightarrow> bool" where
  "from_parser fid d r \<longleftrightarrow> cr_flow_id r = fid \<and> cr_direction r = d \<and> cr_view r \<noteq> TcpRaw"

definition info_from :: "uuid \<Rightarrow> direction \<Rightarrow> message_info \<Rightarrow> bool" where
  "info_from fid d info \<longleftrightarrow> mi_flow_id info = fid \<and> mi_direction info = d \<and> mi_body_view info \<noteq> TcpRaw \<and>
     mi_decoded_view info \<noteq> TcpRaw"

definition origin_ok :: "uuid \<Rightarrow> direction \<Rightarrow> http_feed \<Rightarrow> bool" where
  "origin_ok fid d h \<longleftrightarrow> list_all (from_parser fid d) (events_records (hf_events h)) \<and>
     (\<forall>info. info_in (hp_state (hf_parser h)) = Some info \<longrightarrow> info_from fid d info)"

lemma from_body:
  "list_all (from_parser fid d) (events_records (hf_events (emit_body env info off data h))) \<longleftrightarrow>
   list_all (from_parser fid d) (events_records (hf_events h)) \<and> from_parser fid d (body_record (he_uuid env (hf_ids h)) info off data)"
  by (simp add: emit_body_def push_event_def content_event_def)

lemma from_body_record: "info_from fid d info \<Longrightarrow> from_parser fid d (body_record uid info off data)"
  by (simp add: info_from_def from_parser_def body_record_def)

lemma from_decoded:
  "info_from fid d info \<Longrightarrow> list_all (from_parser fid d) (events_records (hf_events h)) \<Longrightarrow>
   list_all (from_parser fid d) (events_records (hf_events (emit_decoded env info off acc h)))"
  by (auto simp: emit_decoded_def push_event_def content_event_def decoded_record_def Let_def info_from_def from_parser_def
      split: option.splits if_splits prod.splits sum.splits)

lemma from_pieces:
  "info_from fid d info \<Longrightarrow> emit_pieces env info base cs acc h = (acc', h') \<Longrightarrow>
   list_all (from_parser fid d) (events_records (hf_events h)) \<Longrightarrow> list_all (from_parser fid d) (events_records (hf_events h'))"
  by (induction env info base cs acc h rule: emit_pieces.induct) (simp_all add: from_body from_body_record)

lemma lose_sync_events [simp]: "hf_events (lose_sync h) = hf_events h"
  by (simp add: lose_sync_def parse_error_def)

lemma note_message_events [simp]: "hf_events (note_message ph h) = hf_events h"
  by (simp add: note_message_def parse_error_def Let_def)

lemma body_state_for_info: "info_in st = Some i \<Longrightarrow> body_state_for env ph nb info = Some st \<Longrightarrow> i = info"
  by (auto simp: body_state_for_def split: if_splits option.splits)

lemma accept_header_origin:
  assumes "accept_header env chunk ph hdr off h = (go, h')" and "sc_flow_id chunk = fid" "sc_direction chunk = d"
    and "hp_state (hf_parser h) = Headers" and "list_all (from_parser fid d) (events_records (hf_events h))"
  shows "origin_ok fid d h'"
proof -
  have hdr: "from_parser fid d (header_record uid chunk ph off hdr)" for uid
    using assms (2, 3) by (simp add: from_parser_def header_record_def)
  have info: "info_from fid d (info_of chunk rd ph)" for rd
    using assms (2, 3) by (simp add: info_from_def info_of_def)
  have put: "info_from fid d i" if "info_in st = Some i" "body_state_for env ph nb (info_of chunk rd ph) = Some st" for i st nb rd
    using body_state_for_info [OF that] info by simp
  show ?thesis
    using assms (1, 4, 5) unfolding accept_header_def Let_def
    by (auto simp: origin_ok_def push_event_def parse_error_def hdr split: if_splits option.splits intro: put)
qed

lemma step_chunked_origin:
  assumes "list_all (from_parser fid d) (events_records (hf_events g))" "hp_state (hf_parser g) = Headers"
    and info: "info_from fid d info" and step: "step_chunked env info dec acc seen cap g = (go, h')"
  shows "origin_ok fid d h'"
proof -
  let ?mc = "if cap then http_max_body_bytes (he_cfg env) - seen else 0" and ?p = "hf_parser g"
  obtain r d' buf where c: "consume (http_max_header_bytes (he_cfg env)) ?mc dec (hp_buffer ?p) = (r, d', buf)"
    by (cases "consume (http_max_header_bytes (he_cfg env)) ?mc dec (hp_buffer ?p)") auto
  have pieces: "list_all (from_parser fid d) (events_records (hf_events k))" "hp_state (hf_parser k) = Headers"
    if "emit_pieces env info (hp_stream_offset ?p) cs acc g = (acc', k)" for cs acc' k
    using from_pieces [OF info that assms (1)] emit_pieces_parser [OF that] assms (2) by simp_all
  show ?thesis
    using assms c pieces
    by (auto simp: step_chunked_def Let_def origin_ok_def from_decoded split: if_splits prod.splits sum.splits)
qed

lemma feed_step_origin:
  assumes "origin_ok fid d h" and "sc_flow_id chunk = fid" "sc_direction chunk = d" and "feed_step env chunk h = (go, h')"
  shows "origin_ok fid d h'"
proof -
  define g where "g = upd_parser (\<lambda>p. p\<lparr>hp_state := Headers\<rparr>) h"
  have g: "list_all (from_parser fid d) (events_records (hf_events g))" "hp_state (hf_parser g) = Headers"
    using assms (1) by (simp_all add: g_def origin_ok_def)
  have headers: "origin_ok fid d h'" if "step_headers env chunk g = (go, h')"
  proof -
    obtain found p where fp: "(if hp_synced (hf_parser g) then (True, hf_parser g)
        else resync_to_http_start (hf_parser g)) = (found, p)" by fastforce
    have st: "hp_state p = Headers" using fp g (2) by (auto split: if_splits dest: resync_buffer)
    have acc: "origin_ok fid d h1"
      if "accept_header env chunk ph hdr off (upd_parser f (g\<lparr>hf_parser := p\<rparr>)) = (go1, h1)" "hp_state (f p) = Headers" for ph hdr off f go1 h1
      by (rule accept_header_origin [OF that (1) assms (2, 3)]) (use that (2) g (1) in simp_all)
    show ?thesis
      using that g st unfolding step_headers_def fp
      by (auto simp: Let_def origin_ok_def [of fid d "lose_sync _"] origin_ok_def [of fid d "upd_parser _ _"] origin_ok_def [of fid d "g\<lparr>hf_parser := p\<rparr>"]
          trim_desynced_suffix_def split: if_splits option.splits sum.splits intro: acc)
  qed
  have info: "info_from fid d info" if "info_in (hp_state (hf_parser h)) = Some info" for info
    using assms (1) that by (simp add: origin_ok_def)
  show ?thesis
  proof (cases "hp_state (hf_parser h)")
    case Headers
    with assms (4) headers show ?thesis by (simp add: feed_step_def Let_def g_def [symmetric])
  next
    case (Chunked i dec acc seen cap)
    with assms (4) info step_chunked_origin [OF g] show ?thesis by (simp add: feed_step_def Let_def g_def [symmetric])
  qed (use assms (4) g info in \<open>auto simp: feed_step_def g_def [symmetric] step_fixed_def step_skip_def step_until_close_def
        Let_def origin_ok_def from_body from_body_record from_decoded split: if_splits prod.splits\<close>)
qed

interpretation origin: feed_invariant env chunk "\<lambda>h. origin_ok fid d h \<and> sc_flow_id chunk = fid \<and> sc_direction chunk = d"
  for env chunk fid d
  by unfold_locales (auto intro: feed_step_origin)

subsection \<open>A whole connection\<close>

fun run_connection ::
  "http_env \<Rightarrow> nat \<Rightarrow> stream_chunk list \<Rightarrow> http_connection \<Rightarrow> http_emission list \<times> nat \<times> http_connection" where
  "run_connection env n [] c = ([], n, c)"
| "run_connection env n (chunk # chunks) c =
     (let (report, c) = connection_feed env n chunk c;
          (events, n, c) = run_connection env (rp_ids report) chunks c
      in (rp_events report @ events, n, c))"

definition of_direction :: "direction \<Rightarrow> content_record list \<Rightarrow> content_record list" where
  "of_direction d rs = filter (\<lambda>r. cr_direction r = d) rs"

lemma of_direction_append [simp]: "of_direction d (rs @ rs') = of_direction d rs @ of_direction d rs'"
  by (simp add: of_direction_def)

lemma of_direction_Nil [simp]: "of_direction d [] = []"
  by (simp add: of_direction_def)

lemma of_direction_from:
  "list_all (from_parser fid d) rs \<Longrightarrow> of_direction d' rs = (if d' = d then rs else [])"
  by (auto simp: of_direction_def list_all_iff from_parser_def filter_id_conv filter_empty_conv)

lemma begin_chunk_simps:
  "hf_events (begin_chunk chunk h) = hf_events h"
  "hp_state (hf_parser (begin_chunk chunk h)) = hp_state (hf_parser h) \<or> hp_state (hf_parser (begin_chunk chunk h)) = Headers"
  "hf_pending (begin_chunk chunk h) = hf_pending h \<or> hf_pending (begin_chunk chunk h) = []"
  by (auto simp: begin_chunk_def Let_def upd_parser_def split: option.splits)

definition parser_from :: "uuid \<Rightarrow> direction \<Rightarrow> http_parser \<Rightarrow> bool" where
  "parser_from fid d p \<longleftrightarrow> (\<forall>info. info_in (hp_state p) = Some info \<longrightarrow> info_from fid d info)"

lemma feed_parser_origin:
  assumes "parser_from (sc_flow_id chunk) (sc_direction chunk) (hf_parser h)" and "hf_events h = []"
  shows "origin_ok (sc_flow_id chunk) (sc_direction chunk) (feed_parser env chunk h)"
proof -
  have "origin_ok (sc_flow_id chunk) (sc_direction chunk) (begin_chunk chunk h)"
    using assms begin_chunk_simps (1, 2) [of chunk h] by (auto simp: origin_ok_def parser_from_def)
  with origin.feed [of "sc_flow_id chunk" "sc_direction chunk" chunk h env] show ?thesis by blast
qed

text \<open>What one call of \<open>feed\<close> does to a connection that is not a tunnel.\<close>

lemma connection_feed_cases:
  assumes "connection_feed env n chunk c = (rep, c')" and "hc_mode c = HttpMode"
  obtains h where "h = feed_parser env chunk (borrow (sc_direction chunk) n c)" and "rp_events rep = hf_events h"
    and "c' = give_back (sc_direction chunk) h c"
  using assms by (auto simp: connection_feed_def Let_def report_of_def)

lemma borrow_simps [simp]:
  "hf_parser (borrow d n c) = parser_for d c" "hf_events (borrow d n c) = []" "hf_mode (borrow d n c) = hc_mode c"
  "hf_pending (borrow d n c) = hc_pending_requests c"
  by (simp_all add: borrow_def)

definition connection_from :: "uuid \<Rightarrow> http_connection \<Rightarrow> bool" where
  "connection_from fid c \<longleftrightarrow> (\<forall>d. parser_from fid d (parser_for d c))"

lemma connection_from_new [simp]: "connection_from fid new_connection"
  by (simp add: connection_from_def parser_from_def new_connection_def parser_for_def new_parser_def split: direction.splits)

lemma connection_feed_from:
  assumes "connection_from (sc_flow_id chunk) c" and "connection_feed env n chunk c = (rep, c')"
  shows "connection_from (sc_flow_id chunk) c' \<and>
    list_all (from_parser (sc_flow_id chunk) (sc_direction chunk)) (events_records (rp_events rep))"
proof (cases "hc_mode c = TunnelMode")
  case True
  with assms show ?thesis by (auto simp: connection_feed_def empty_report_def)
next
  case False
  with assms (2) obtain h where h: "h = feed_parser env chunk (borrow (sc_direction chunk) n c)"
    "rp_events rep = hf_events h" "c' = give_back (sc_direction chunk) h c"
    by (auto elim: connection_feed_cases simp: http_mode_not)
  have "origin_ok (sc_flow_id chunk) (sc_direction chunk) h"
    unfolding h (1) by (rule feed_parser_origin) (use assms (1) in \<open>simp_all add: connection_from_def\<close>)
  with assms (1) h (2, 3) show ?thesis
    by (auto simp: connection_from_def origin_ok_def parser_for_give_back parser_from_def)
qed

subsubsection \<open>Limits\<close>

definition limits_ok :: "http_config \<Rightarrow> content_record list \<Rightarrow> http_connection \<Rightarrow> bool" where
  "limits_ok cfg rs c \<longleftrightarrow> length (hc_pending_requests c) \<le> http_pending_request_limit \<and> list_all (record_within cfg) rs \<and>
     (\<forall>d. captures_within (http_max_body_bytes cfg) 0 (of_direction d rs) \<and>
          captured 0 (of_direction d rs) + budget (http_max_body_bytes cfg) (hp_state (parser_for d c)) \<le> http_max_body_bytes cfg \<and>
          length (kept (hp_state (parser_for d c))) \<le> http_max_decode_bytes cfg \<and>
          (\<forall>info. info_in (hp_state (parser_for d c)) = Some info \<longrightarrow> views_ok info) \<and>
          length (hp_buffer (parser_for d c)) \<le> max (http_max_header_bytes cfg) http_resync_suffix)"

lemma limits_ok_new: "limits_ok cfg [] new_connection"
  by (simp add: limits_ok_def new_connection_def parser_for_def new_parser_def split: direction.splits)

lemma connection_feed_limits:
  assumes "limits_ok (he_cfg env) rs c" and "connection_from (sc_flow_id chunk) c" and "config_ok (he_cfg env)"
    and "connection_feed env n chunk c = (rep, c')"
  shows "limits_ok (he_cfg env) (rs @ events_records (rp_events rep)) c'"
proof (cases "hc_mode c = TunnelMode")
  case True
  with assms show ?thesis by (auto simp: connection_feed_def empty_report_def)
next
  case False
  let ?d = "sc_direction chunk"
  from False assms (4) obtain h where h: "h = feed_parser env chunk (borrow ?d n c)"
    "rp_events rep = hf_events h" "c' = give_back ?d h c"
    by (auto elim: connection_feed_cases simp: http_mode_not)
  let ?n = "captured 0 (of_direction ?d rs)" and ?b = "begin_chunk chunk (borrow ?d n c)"
  have le: "captured 0 (of_direction d' rs) \<le> http_max_body_bytes (he_cfg env)" for d'
    using assms (1) unfolding limits_ok_def by (meson add_leD1)
  have "bounds_ok (he_cfg env) ?n ?b"
    using begin_chunk_simps [of chunk "borrow ?d n c"] assms (1) le
    by (auto simp: bounds_ok_def limits_ok_def)
  with bounds.feed [of env ?n chunk "borrow ?d n c"] assms (3) have bd: "bounds_ok (he_cfg env) ?n h" unfolding h (1) by blast
  have from_h: "list_all (from_parser (sc_flow_id chunk) ?d) (events_records (hf_events h))"
    using connection_feed_from [OF assms (2, 4)] h (2) by simp
  have "length (hp_buffer (hf_parser h)) \<le> max (http_max_header_bytes (he_cfg env)) http_resync_suffix"
    unfolding h (1) by (rule feed_parser_leaves)
  with bd assms (1) le show ?thesis
    by (auto simp: limits_ok_def bounds_ok_def h (2, 3) of_direction_from [OF from_h] parser_for_give_back)
qed

lemma run_connection_limits:
  assumes "limits_ok (he_cfg env) rs c" and "connection_from fid c" and "config_ok (he_cfg env)"
    and "\<forall>chunk \<in> set chunks. sc_flow_id chunk = fid" and "run_connection env n chunks c = (es, n', c')"
  shows "limits_ok (he_cfg env) (rs @ events_records es) c'"
  using assms
proof (induction chunks arbitrary: n c rs es)
  case (Cons chunk chunks)
  obtain rep c1 where f: "connection_feed env n chunk c = (rep, c1)" by fastforce
  obtain es1 where r: "run_connection env (rp_ids rep) chunks c1 = (es1, n', c')" "es = rp_events rep @ es1"
    using Cons.prems (5) f by (auto simp: Let_def split: prod.splits)
  have fid: "sc_flow_id chunk = fid" using Cons.prems (4) by simp
  have "limits_ok (he_cfg env) (rs @ events_records (rp_events rep)) c1"
    using connection_feed_limits [OF Cons.prems (1) _ Cons.prems (3) f] Cons.prems (2) fid by simp
  from Cons.IH [OF this _ Cons.prems (3) _ r (1)] connection_feed_from [OF _ f] Cons.prems (2, 4) fid r (2)
  show ?case by simp
qed simp

lemma run_connection_from:
  assumes "connection_from fid c" and "\<forall>chunk \<in> set chunks. sc_flow_id chunk = fid" and "run_connection env n chunks c = (es, n', c')"
  shows "connection_from fid c'"
  using assms
proof (induction chunks arbitrary: n c es)
  case (Cons chunk chunks)
  obtain rep c1 where f: "connection_feed env n chunk c = (rep, c1)" by fastforce
  then obtain es1 where "run_connection env (rp_ids rep) chunks c1 = (es1, n', c')"
    using Cons.prems (3) by (auto simp: Let_def split: prod.splits)
  moreover have "sc_flow_id chunk = fid" using Cons.prems (2) by simp
  then have "connection_from fid c1" using connection_feed_from [OF _ f] Cons.prems (1) by simp
  ultimately show ?case using Cons.IH Cons.prems (2) by simp
qed simp

subsubsection \<open>Its end\<close>

lemma finish_pieces_parser: "finish_pieces env info base cs acc h = (acc', h') \<Longrightarrow> hf_parser h' = hf_parser h"
  by (induction env info base cs acc h rule: finish_pieces.induct) (simp_all add: emit_body_def push_event_def)

lemma from_finish_pieces:
  "info_from fid d info \<Longrightarrow> finish_pieces env info base cs acc h = (acc', h') \<Longrightarrow>
   list_all (from_parser fid d) (events_records (hf_events h)) \<Longrightarrow> list_all (from_parser fid d) (events_records (hf_events h'))"
  by (induction env info base cs acc h rule: finish_pieces.induct) (simp_all add: from_body from_body_record)

lemma finish_parser_from:
  assumes "parser_from fid d (hf_parser h)" and "hf_events h = []"
  shows "list_all (from_parser fid d) (events_records (hf_events (finish_parser env h)))"
proof (cases "hp_state (hf_parser h)")
  case (Chunked info dec acc seen cap)
  with assms have info: "info_from fid d info" by (simp add: parser_from_def)
  with Chunked assms (2) show ?thesis
    by (auto simp: finish_parser_def finish_chunked_def Let_def intro!: from_decoded split: sum.splits prod.splits
        dest!: from_finish_pieces [OF info])
qed (use assms in \<open>auto simp: parser_from_def finish_parser_def finish_until_close_def finish_fixed_def finish_skip_def Let_def
       from_body from_body_record intro!: from_decoded\<close>)

lemma finish_parser_limits:
  assumes "limits_ok (he_cfg env) rs c" and "connection_from fid c" and "config_ok (he_cfg env)" and "h = finish_parser env (borrow d n c)"
  shows "length (hf_pending h) \<le> http_pending_request_limit \<and> list_all (record_within (he_cfg env)) (events_records (hf_events h)) \<and>
    captures_within (http_max_body_bytes (he_cfg env)) (captured 0 (of_direction d rs)) (events_records (hf_events h)) \<and>
    list_all (from_parser fid d) (events_records (hf_events h))"
proof -
  let ?n = "captured 0 (of_direction d rs)"
  have "?n \<le> http_max_body_bytes (he_cfg env)" using assms (1) unfolding limits_ok_def by (meson add_leD1)
  with assms (1) have "bounds_ok (he_cfg env) ?n (borrow d n c)" by (simp add: bounds_ok_def limits_ok_def)
  from finish_parser_bounds [OF this assms (3)] have "bounds_in (he_cfg env) ?n 0 h" by (simp add: assms (4))
  moreover have "list_all (from_parser fid d) (events_records (hf_events h))"
    unfolding assms (4) by (rule finish_parser_from) (use assms (2) in \<open>simp_all add: connection_from_def\<close>)
  ultimately show ?thesis by (simp add: bounds_in_def)
qed

text \<open>What the end of a connection emits stays within the limits, on top of what the chunks emitted.\<close>

lemma connection_finish_limits:
  assumes "limits_ok (he_cfg env) rs c" and "connection_from fid c" and "config_ok (he_cfg env)"
    and "connection_finish env n c = (rep, c')"
  shows "list_all (record_within (he_cfg env)) (events_records (rp_events rep)) \<and>
    captures_within (http_max_body_bytes (he_cfg env)) 0 (of_direction d (rs @ events_records (rp_events rep)))"
proof (cases "hc_mode c = TunnelMode")
  case True
  have "captured 0 (of_direction d rs) \<le> http_max_body_bytes (he_cfg env)"
    using assms (1) unfolding limits_ok_def by (meson add_leD1)
  with True assms show ?thesis by (auto simp: connection_finish_def empty_report_def limits_ok_def)
next
  case False
  define ha where "ha = finish_parser env (borrow AToB n c)"
  define c1 where "c1 = give_back AToB ha c"
  define hb where "hb = finish_parser env (borrow BToA (hf_ids ha) c1)"
  note A = finish_parser_limits [OF assms (1-3) ha_def]
  have other: "parser_for BToA c1 = parser_for BToA c" "hc_pending_requests c1 = hf_pending ha"
    by (simp_all add: c1_def parser_for_give_back)
  have "bounds_ok (he_cfg env) (captured 0 (of_direction BToA rs)) (borrow BToA (hf_ids ha) c1)"
    using assms (1) A other unfolding limits_ok_def by (simp add: bounds_ok_def) (metis add_leD1)
  from finish_parser_bounds [OF this assms (3)] have
    B: "bounds_in (he_cfg env) (captured 0 (of_direction BToA rs)) 0 hb" by (simp add: hb_def)
  have from_b: "list_all (from_parser fid BToA) (events_records (hf_events hb))"
    unfolding hb_def by (rule finish_parser_from) (use assms (2) other in \<open>simp_all add: connection_from_def\<close>)
  have ev: "rp_events rep = hf_events ha @ hf_events hb"
    using assms (4) False by (auto simp: connection_finish_def Let_def ha_def hb_def c1_def)
  have "captures_within (http_max_body_bytes (he_cfg env)) 0 (of_direction d rs)" using assms (1) by (simp add: limits_ok_def)
  with A B show ?thesis
    by (cases d) (auto simp: ev bounds_in_def of_direction_from [OF conjunct2 [OF conjunct2 [OF conjunct2 [OF A]]]] of_direction_from [OF from_b])
qed

subsubsection \<open>Order\<close>

text \<open>The spans of the chunks of a direction, and the connection after the records \<open>rs\<close>, its next chunk at \<open>lo d\<close> or later.\<close>

definition chunk_spans :: "direction \<Rightarrow> stream_chunk list \<Rightarrow> (nat \<times> nat) list" where
  "chunk_spans d cs = map (\<lambda>c. (sc_offset c, length (sc_data c))) (filter (\<lambda>c. sc_direction c = d) cs)"

definition order_at :: "nat \<Rightarrow> content_record list \<Rightarrow> bool \<Rightarrow> http_parser \<Rightarrow> bool" where
  "order_at lo rs live p \<longleftrightarrow> in_order 0 (wire_spans rs) lo \<and>
     (live \<longrightarrow> (case hp_next_input_offset p of
                 None \<Rightarrow> rs = []
               | Some e \<Rightarrow> e \<le> lo \<and> in_order 0 (wire_spans rs) (hp_stream_offset p)))"

definition ordered_ok :: "(direction \<Rightarrow> nat) \<Rightarrow> content_record list \<Rightarrow> http_connection \<Rightarrow> bool" where
  "ordered_ok lo rs c \<longleftrightarrow> (\<forall>d. order_at (lo d) (of_direction d rs) (hc_mode c = HttpMode) (parser_for d c))"

lemma order_at_mono: "order_at lo rs live p \<Longrightarrow> lo \<le> hi \<Longrightarrow> (live' \<Longrightarrow> live) \<Longrightarrow> order_at hi rs live' p"
  by (auto simp: order_at_def intro: in_order_upper split: option.splits)

lemma ordered_ok_mono: "ordered_ok lo rs c \<Longrightarrow> (\<And>d. lo d \<le> hi d) \<Longrightarrow> ordered_ok hi rs c"
  by (auto simp: ordered_ok_def intro: order_at_mono)

lemma ordered_ok_new: "ordered_ok lo [] new_connection"
  by (simp add: ordered_ok_def order_at_def new_connection_def parser_for_def new_parser_def wire_spans_def split: direction.splits)

lemma connection_feed_ordered:
  assumes inv: "ordered_ok lo rs c" and from_c: "connection_from (sc_flow_id chunk) c" and ok: "connection_ok S (sc_flow_id chunk) c"
    and true: "stream_chunk_true S chunk" and off: "lo (sc_direction chunk) \<le> sc_offset chunk"
    and feed: "connection_feed env n chunk c = (rep, c')"
  shows "ordered_ok (lo(sc_direction chunk := sc_offset chunk + length (sc_data chunk))) (rs @ events_records (rp_events rep)) c'"
proof (cases "hc_mode c = TunnelMode")
  case True
  have "ordered_ok (lo(sc_direction chunk := sc_offset chunk + length (sc_data chunk))) rs c"
    by (rule ordered_ok_mono [OF inv]) (use off in auto)
  with feed True show ?thesis by (auto simp: connection_feed_def empty_report_def)
next
  case False
  let ?d = "sc_direction chunk" and ?f = "sc_flow_id chunk"
  let ?e = "sc_offset chunk + length (sc_data chunk)"
  from False feed obtain h where h: "h = feed_parser env chunk (borrow ?d n c)"
    "rp_events rep = hf_events h" "c' = give_back ?d h c"
    by (auto elim: connection_feed_cases simp: http_mode_not)
  let ?p = "parser_for ?d c"
  define low where "low = (if hp_next_input_offset ?p = None then sc_offset chunk else hp_stream_offset ?p)"
  have p: "parser_ok (S ?f ?d) ?f ?d ?p" using ok False by (simp add: connection_ok_def http_mode_not)
  have prev: "in_order 0 (wire_spans (of_direction ?d rs)) low" and low: "low \<le> sc_offset chunk"
    using inv off p False by (auto simp: ordered_ok_def order_at_def low_def parser_ok_def http_mode_not wire_spans_def split: option.splits dest!: spec [of _ ?d])
  have fed: "feed_ok (S ?f ?d) ?f ?d low ?e h"
    unfolding h (1) by (rule feed_parser_ok (1)) (use p true low in \<open>auto simp: stream_chunk_true_def low_def\<close>)
  have nxt: "hp_next_input_offset (hf_parser h) = Some ?e"
    using cursor.feed [of chunk "borrow ?d n c"] begin_chunk_next [of chunk "borrow ?d n c"] true
    by (simp add: h (1) sat_add64_exact stream_chunk_true_def)
  have from_h: "list_all (from_parser ?f ?d) (events_records (hf_events h))"
    using connection_feed_from [OF from_c feed] h (2) by simp
  have new: "in_order 0 (wire_spans (of_direction ?d rs) @ wire_spans (events_records (hf_events h))) (hp_stream_offset (hf_parser h))"
    "hp_stream_offset (hf_parser h) \<le> ?e"
    using fed by (auto simp: feed_ok_def intro: in_order_append [OF prev])
  show ?thesis
    unfolding ordered_ok_def
  proof (intro allI)
    fix d
    show "order_at ((lo(?d := ?e)) d) (of_direction d (rs @ events_records (rp_events rep))) (hc_mode c' = HttpMode) (parser_for d c')"
    proof (cases "d = ?d")
      case True
      with new nxt in_order_upper [OF new] show ?thesis
        by (simp add: order_at_def h (2, 3) of_direction_from [OF from_h] parser_for_give_back)
    next
      case other: False
      have "order_at (lo d) (of_direction d rs) (hc_mode c = HttpMode) (parser_for d c)"
        using inv by (simp add: ordered_ok_def)
      with other False show ?thesis
        by (auto simp: h (2, 3) of_direction_from [OF from_h] parser_for_give_back http_mode_not intro: order_at_mono)
    qed
  qed
qed

lemma run_connection_ordered:
  assumes "ordered_ok lo rs c" and "connection_from fid c" and "connection_ok S fid c"
    and "\<forall>chunk \<in> set chunks. sc_flow_id chunk = fid \<and> stream_chunk_true S chunk"
    and "\<And>d. in_order (lo d) (chunk_spans d chunks) (hi d)" and "run_connection env n chunks c = (es, n', c')"
    and "\<forall>r \<in> set rs. record_true (S fid (cr_direction r)) r"
  shows "ordered_ok hi (rs @ events_records es) c' \<and> (\<forall>r \<in> set (rs @ events_records es). record_true (S fid (cr_direction r)) r)"
  using assms
proof (induction chunks arbitrary: n c rs es lo)
  case Nil
  have "lo d \<le> hi d" for d using Nil.prems (5) [of d] by (simp add: chunk_spans_def)
  with Nil show ?case by (auto intro: ordered_ok_mono)
next
  case (Cons chunk chunks)
  let ?d = "sc_direction chunk"
  let ?lo = "lo(?d := sc_offset chunk + length (sc_data chunk))"
  obtain rep c1 where f: "connection_feed env n chunk c = (rep, c1)" by fastforce
  obtain es1 where r: "run_connection env (rp_ids rep) chunks c1 = (es1, n', c')" "es = rp_events rep @ es1"
    using Cons.prems (6) f by (auto simp: Let_def split: prod.splits)
  have fid: "sc_flow_id chunk = fid" and true: "stream_chunk_true S chunk" using Cons.prems (4) by simp_all
  have ord: "in_order (?lo d) (chunk_spans d chunks) (hi d)" and off: "lo ?d \<le> sc_offset chunk" for d
    using Cons.prems (5) [of ?d] Cons.prems (5) [of d] by (auto simp: chunk_spans_def)
  have recs: "connection_ok S fid c1" "records_ok (S fid) fid (rp_events rep)"
    using connection_feed_ok [OF _ true f] Cons.prems (3) fid by simp_all
  have inv: "ordered_ok ?lo (rs @ events_records (rp_events rep)) c1"
    using connection_feed_ordered [OF Cons.prems (1) _ _ true off f] Cons.prems (2, 3) fid by simp
  have from1: "connection_from fid c1" using connection_feed_from [OF _ f] Cons.prems (2) fid by simp
  have "\<forall>r \<in> set (rs @ events_records (rp_events rep)). record_true (S fid (cr_direction r)) r"
    using Cons.prems (7) recs (2) by (auto simp: records_ok_def)
  from Cons.IH [OF inv from1 recs (1) _ ord r (1) this] Cons.prems (4) r (2) show ?case by simp
qed

subsection \<open>The worker: what is stored and what is matched\<close>

text \<open>
  An invariant of the worker: a property \<open>P\<close> of its whole state that handing over a record, reporting metadata and
  bookkeeping keep is kept by the events of a parser.
\<close>

definition matched_stored :: "l7_worker \<Rightarrow> bool" where
  "matched_stored w \<longleftrightarrow> subseq (lw_matcher w) (lw_segments w)"

definition raw_stored :: "content_record list \<Rightarrow> l7_worker \<Rightarrow> bool" where
  "raw_stored rs w \<longleftrightarrow> filter (\<lambda>r. cr_view r = TcpRaw) (lw_segments w) = rs"

locale worker_invariant =
  fixes io :: l7_io and inv :: "l7_worker \<Rightarrow> bool" and good :: "content_record \<Rightarrow> bool"
  assumes fanout: "inv w \<Longrightarrow> good r \<Longrightarrow> inv (fanout_content io r w)"
    and good_service: "good (r\<lparr>cr_service := s\<rparr>) \<longleftrightarrow> good r"
    and same: "lw_segments w' = lw_segments w \<Longrightarrow> lw_matcher w' = lw_matcher w \<Longrightarrow> inv w' \<longleftrightarrow> inv w"
begin

lemma records: "inv w \<Longrightarrow> list_all good rs \<Longrightarrow> inv (fanout_records io service rs w)"
  by (induction rs arbitrary: w) (simp_all add: fanout good_service)

lemma metadata: "inv (snd (send_metadata io e w)) \<longleftrightarrow> inv w"
  by (rule same) (simp_all add: send_metadata_def Let_def)

lemma http_event: "inv w \<Longrightarrow> list_all good (em_content evt) \<Longrightarrow> inv (emit_http_event io evt service w)"
proof -
  assume "inv w" "list_all good (em_content evt)"
  then have "inv (fanout_records io service (em_content evt) w)" by (rule records)
  then show ?thesis
    by (auto simp: emit_http_event_def Let_def metadata split: option.splits
        elim: iffD2 [OF same, rotated 2])
qed

lemma events: "inv w \<Longrightarrow> list_all good (events_records evts) \<Longrightarrow> inv (emit_events io services chunk evts w)"
proof (induction evts arbitrary: w)
  case (Cons evt evts)
  have "inv (w\<lparr>lw_detected := x\<rparr>)" for x using Cons.prems (1) by (simp add: same [of "w\<lparr>lw_detected := x\<rparr>" w])
  with Cons show ?case
    by (auto simp: events_records_def Let_def split: option.splits intro!: Cons.IH http_event)
qed simp

lemma fold_events:
  "inv w \<Longrightarrow> list_all good (events_records evts) \<Longrightarrow> inv (fold (\<lambda>evt w. emit_http_event io evt (f w) w) evts w)"
  by (induction evts arbitrary: w) (auto simp: events_records_def intro!: http_event)

end

interpretation matched: worker_invariant io matched_stored "\<lambda>r. True" for io
  by unfold_locales (auto simp: matched_stored_def fanout_content_def Let_def intro: list_emb_append_mono list_emb_append2)

interpretation stored: worker_invariant io "raw_stored rs" "\<lambda>r. cr_view r \<noteq> TcpRaw" for io rs
  by unfold_locales (auto simp: raw_stored_def fanout_content_def Let_def)

lemma connection_finish_from:
  assumes "connection_from fid c"
  shows "list_all (\<lambda>r. cr_view r \<noteq> TcpRaw) (events_records (rp_events (fst (connection_finish env n c))))"
proof (cases "hc_mode c = TunnelMode")
  case False
  let ?a = "finish_parser env (borrow AToB n c)"
  let ?b = "finish_parser env (borrow BToA (hf_ids ?a) (give_back AToB ?a c))"
  have "list_all (from_parser fid AToB) (events_records (hf_events ?a))"
    "list_all (from_parser fid BToA) (events_records (hf_events ?b))"
    using assms by (auto intro!: finish_parser_from simp: connection_from_def parser_for_give_back)
  with False show ?thesis
    by (auto simp: connection_finish_def Let_def list_all_iff from_parser_def)
qed (simp add: connection_finish_def empty_report_def)

definition worker_from :: "l7_worker \<Rightarrow> bool" where
  "worker_from w \<longleftrightarrow> (\<forall>fid c. map_of (lw_parsers w) fid = Some c \<longrightarrow> connection_from fid c)"

lemma parsers_kept [simp]:
  "lw_parsers (fanout_content io r w) = lw_parsers w" "lw_parsers (snd (send_metadata io e w)) = lw_parsers w"
  "lw_parsers (fanout_records io service rs w) = lw_parsers w"
proof -
  show one: "lw_parsers (fanout_content io r w) = lw_parsers w" for r w
    by (simp add: fanout_content_def Let_def)
  show "lw_parsers (snd (send_metadata io e w)) = lw_parsers w"
    by (simp add: send_metadata_def Let_def)
  show "lw_parsers (fanout_records io service rs w) = lw_parsers w"
    by (induction rs arbitrary: w) (simp_all add: one)
qed

lemma emit_event_parsers [simp]: "lw_parsers (emit_http_event io evt service w) = lw_parsers w"
  by (auto simp: emit_http_event_def Let_def split: option.splits)

lemma emit_events_parsers [simp]: "lw_parsers (emit_events io services chunk evts w) = lw_parsers w"
  by (induction evts arbitrary: w) (auto simp: Let_def split: option.splits)

lemma fold_events_parsers [simp]:
  "lw_parsers (fold (\<lambda>evt w. emit_http_event io evt (f w) w) evts w) = lw_parsers w"
  by (induction evts arbitrary: w) auto

lemma parse_chunk_from:
  assumes "worker_from w" and "parse_chunk env services chunk w = (evs, w')"
  shows "worker_from w' \<and> lw_segments w' = lw_segments w \<and> lw_matcher w' = lw_matcher w \<and>
    (\<forall>es. evs = Some es \<longrightarrow> list_all (\<lambda>r. cr_view r \<noteq> TcpRaw) (events_records es))"
proof (cases "key_protocol (sc_key chunk) = Tcp \<and> should_parse_http services (sc_key chunk)")
  case True
  let ?c = "case map_of (lw_parsers w) (sc_flow_id chunk) of Some c \<Rightarrow> c | None \<Rightarrow> new_connection"
  obtain rep c' where f: "connection_feed env (lw_ids w) chunk ?c = (rep, c')" by fastforce
  have "connection_from (sc_flow_id chunk) ?c"
    using assms (1) by (auto simp: worker_from_def split: option.splits)
  from connection_feed_from [OF this f] assms True f show ?thesis
    by (auto simp: parse_chunk_def Let_def worker_from_def update_conv' list_all_iff from_parser_def split: if_splits)
qed (use assms in \<open>auto simp: parse_chunk_def\<close>)

text \<open>One event adds its chunk, if it has one, to the raw records, and keeps the matcher behind the store.\<close>

abbreviation event_chunk :: "flow_output \<Rightarrow> stream_chunk list" where
  "event_chunk e \<equiv> (case e of Chunk c \<Rightarrow> [c] | _ \<Rightarrow> [])"

lemma handle_chunk_stored:
  assumes "worker_from w" and "\<And>k. io_append_ok io k" and "raw_stored rs w"
  shows "worker_from (handle_chunk env io services chunk w) \<and>
    (\<exists>uid. raw_stored (rs @ [raw_record uid services chunk]) (handle_chunk env io services chunk w))"
proof -
  obtain evs w1 where p: "parse_chunk env services chunk w = (evs, w1)" by fastforce
  note from1 = parse_chunk_from [OF assms (1) p]
  let ?r = "raw_record (he_uuid env (lw_ids w1)) services chunk"
  let ?w = "fanout_content io ?r (w1\<lparr>lw_ids := lw_ids w1 + 1\<rparr>)"
  have "raw_stored (rs @ [?r]) ?w"
    using from1 assms (2, 3) by (auto simp: raw_stored_def fanout_content_def Let_def raw_record_def)
  then have "raw_stored (rs @ [?r]) (handle_chunk env io services chunk w)"
    using from1 by (auto simp: handle_chunk_def p Let_def intro!: stored.events split: option.splits)
  moreover have "worker_from (handle_chunk env io services chunk w)"
    using from1 by (auto simp: handle_chunk_def p Let_def worker_from_def split: option.splits)
  ultimately show ?thesis by blast
qed

lemma finish_flow_stored:
  assumes "worker_from w" and "raw_stored rs w"
  shows "worker_from (finish_flow env io fid w) \<and> raw_stored rs (finish_flow env io fid w)"
proof (cases "map_of (lw_parsers w) fid")
  case (Some c)
  let ?w = "w\<lparr>lw_parsers := AList.delete fid (lw_parsers w), lw_ids := rp_ids (fst (connection_finish env (lw_ids w) c))\<rparr>"
  have "raw_stored rs ?w" using assms (2) by (simp add: raw_stored_def)
  moreover have "connection_from fid c" using assms (1) Some by (simp add: worker_from_def)
  ultimately show ?thesis
    using Some assms (1) connection_finish_from [of fid c env "lw_ids w"]
    by (auto simp: finish_flow_def Let_def worker_from_def delete_conv' intro!: stored.fold_events)
qed (use assms in \<open>simp add: finish_flow_def\<close>)

lemma l7_step_stored:
  assumes "worker_from w" and "\<And>k. io_append_ok io k" "\<And>k. io_metadata_ok io k" and "raw_stored rs w"
  shows "fst (l7_step env io services event w) \<and> worker_from (snd (l7_step env io services event w)) \<and>
    (\<exists>uids. raw_stored (rs @ map2 (\<lambda>uid c. raw_record uid services c) uids (event_chunk event)) (snd (l7_step env io services event w)) \<and>
       length uids = length (event_chunk event))"
proof -
  define v where "v = w\<lparr>lw_queue_depth := queue_dequeued (lw_queue_depth w)\<rparr>"
  have v: "worker_from v" "raw_stored rs v" using assms (1, 4) by (simp_all add: v_def worker_from_def raw_stored_def)
  show ?thesis
  proof (cases event)
    case (Chunk c)
    from handle_chunk_stored [OF v (1) assms (2) v (2), of env services c]
    obtain uid where "worker_from (handle_chunk env io services c v)"
      "raw_stored (rs @ [raw_record uid services c]) (handle_chunk env io services c v)" by blast
    with Chunk show ?thesis by (auto simp: l7_step_def v_def [symmetric] Let_def intro!: exI [of _ "[uid]"])
  next
    case (Snapshot s)
    with assms (3) v show ?thesis
      by (auto simp: l7_step_def v_def [symmetric] send_metadata_def Let_def worker_from_def raw_stored_def)
  next
    case (Closed s)
    with finish_flow_stored [OF v, of env io "fs_flow_id s"] assms (3) show ?thesis
      by (auto simp: l7_step_def v_def [symmetric] send_metadata_def Let_def worker_from_def raw_stored_def)
  qed
qed

definition stored_part :: "content_record \<Rightarrow> uuid \<times> direction \<times> nat \<times> nat \<times> bytes" where
  "stored_part r = (cr_flow_id r, cr_direction r, cr_ts_ns r, cr_stream_offset r, cr_data r)"

definition chunk_part :: "stream_chunk \<Rightarrow> uuid \<times> direction \<times> nat \<times> nat \<times> bytes" where
  "chunk_part c = (sc_flow_id c, sc_direction c, sc_ts_ns c, sc_offset c, sc_data c)"

lemma raw_record_part: "stored_part (raw_record uid services c) = chunk_part c"
  by (simp add: stored_part_def raw_record_def chunk_part_def)

lemma map2_parts:
  "length uids = length cs \<Longrightarrow> map (stored_part \<circ> (\<lambda>(uid, c). raw_record uid services c)) (zip uids cs) = map chunk_part cs"
  by (induction uids cs rule: list_induct2) (simp_all add: raw_record_part)

lemma loop_stored:
  assumes "worker_from w" and "\<And>k. io_append_ok io k" "\<And>k. io_metadata_ok io k"
  shows "map stored_part (filter (\<lambda>r. cr_view r = TcpRaw) (lw_segments (l7_worker_loop env io events w)))
    = map stored_part (filter (\<lambda>r. cr_view r = TcpRaw) (lw_segments w)) @ map chunk_part (concat (map (event_chunk \<circ> snd) events))"
  using assms (1)
proof (induction events arbitrary: w)
  case (Cons se events)
  obtain services e where se: "se = (services, e)" by fastforce
  obtain ok w' where s: "l7_step env io services e w = (ok, w')" by fastforce
  from l7_step_stored [OF Cons.prems assms (2, 3), of "filter (\<lambda>r. cr_view r = TcpRaw) (lw_segments w)" env services e]
  obtain uids where "ok" "worker_from w'" "length uids = length (event_chunk e)"
    "filter (\<lambda>r. cr_view r = TcpRaw) (lw_segments w') = filter (\<lambda>r. cr_view r = TcpRaw) (lw_segments w) @
       map2 (\<lambda>uid c. raw_record uid services c) uids (event_chunk e)"
    by (auto simp: s raw_stored_def)
  with Cons.IH [of w'] s se show ?case by (simp add: map2_parts)
qed simp

lemma l7_step_matched: "matched_stored w \<Longrightarrow> matched_stored (snd (l7_step env io services event w))"
proof -
  assume m: "matched_stored w"
  define v where "v = w\<lparr>lw_queue_depth := queue_dequeued (lw_queue_depth w)\<rparr>"
  have v: "matched_stored v" using m by (simp add: v_def matched_stored_def)
  have finish: "matched_stored (finish_flow env io fid v)" for fid
    using v by (auto simp: finish_flow_def Let_def matched_stored_def [of "v\<lparr>lw_parsers := _, lw_ids := _\<rparr>"]
        matched_stored_def [of v] list_all_iff intro!: matched.fold_events split: option.splits)
  have chunk: "matched_stored (handle_chunk env io services c v)" for c
  proof -
    obtain evs w1 where p: "parse_chunk env services c v = (evs, w1)" by fastforce
    have "matched_stored w1" using v p by (auto simp: parse_chunk_def Let_def matched_stored_def split: if_splits prod.splits)
    then have "matched_stored (w1\<lparr>lw_ids := lw_ids w1 + 1\<rparr>)" by (simp add: matched_stored_def)
    then show ?thesis
      by (auto simp: handle_chunk_def p Let_def list_all_iff intro!: matched.events matched.fanout split: option.splits)
  qed
  show ?thesis
    using v chunk finish
    by (cases event) (auto simp: l7_step_def v_def [symmetric] send_metadata_def Let_def matched_stored_def)
qed

lemma loop_matched: "matched_stored w \<Longrightarrow> matched_stored (l7_worker_loop env io events w)"
proof (induction events arbitrary: w)
  case (Cons se events)
  obtain services e where se: "se = (services, e)" by fastforce
  with Cons.IH l7_step_matched [OF Cons.prems, of env io services e] show ?case
    by (auto split: prod.splits bool.splits)
qed simp

subsection \<open>Properties\<close>

text \<open>C20: everything the L7 worker hands to the segment store is true to the traffic. Whatever the flow engine
  sends, in any interleaving of flows and directions and with holes in the streams, with whatever HTTP library,
  registry changes and refused appends: if each chunk carries the bytes of its flow's stream at its offset, then
  so does every stored record, raw chunks, headers and bodies (decoded bodies are the inflater's output).\<close>

theorem l7_records_true:
  assumes "\<forall>(services, event) \<in> set events. \<forall>c. event = Chunk c \<longrightarrow> stream_chunk_true S c"
  shows "\<forall>r \<in> set (lw_segments (l7_worker_loop env io events (new_worker depth))).
     record_true (S (cr_flow_id r) (cr_direction r)) r"
  using l7_worker_loop_ok [OF _ assms, of "new_worker depth" env io]
  by (simp add: worker_ok_def record_ok_def new_worker_def)

text \<open>C21: no chunk is lost. While the segment store and the metadata writer accept what they are given, the raw
  records in the store are the chunks that the flow engine sent, each once, in order, with flow, direction,
  timestamp, offset and bytes.\<close>

theorem l7_raw_complete:
  assumes "\<And>k. io_append_ok io k" and "\<And>k. io_metadata_ok io k"
  shows "map stored_part (filter (\<lambda>r. cr_view r = TcpRaw) (lw_segments (l7_worker_loop env io events (new_worker depth))))
    = map chunk_part (concat (map (event_chunk \<circ> snd) events))"
  using loop_stored [OF _ assms, of "new_worker depth" env events] by (simp add: new_worker_def worker_from_def)

text \<open>Storage comes before analysis. What the worker gives to the matcher is, in order, part of what the
  segment store has accepted: no match can refer to content that is not stored.\<close>

theorem l7_matched_after_stored:
  "subseq (lw_matcher (l7_worker_loop env io events (new_worker depth))) (lw_segments (l7_worker_loop env io events (new_worker depth)))"
  using loop_matched [of "new_worker depth" env io events] by (simp add: matched_stored_def new_worker_def)

text \<open>C24: the records of a connection follow the stream. For chunks of one flow that come in stream order in each
  direction, with any holes, the headers and bodies extracted from a direction are true to its stream, do not
  overlap, and come in order of their offsets, up to the end of the last chunk.\<close>

theorem http_records_ordered:
  assumes "\<forall>chunk \<in> set chunks. sc_flow_id chunk = fid \<and> stream_chunk_true S chunk"
    and "\<And>d. in_order 0 (chunk_spans d chunks) (hi d)"
    and "run_connection env n chunks new_connection = (es, n', c')"
  shows "in_order 0 (wire_spans (of_direction d (events_records es))) (hi d) \<and>
     (\<forall>r \<in> set (events_records es). record_true (S fid (cr_direction r)) r)"
  using run_connection_ordered [OF ordered_ok_new connection_from_new connection_ok_new assms]
  by (auto simp: ordered_ok_def order_at_def)

text \<open>C22: the memory of a connection and what is captured of a message are bounded, whatever the peers send. Between
  two chunks a parser buffers at most the configured header size (or the 48 bytes kept for resynchronization)
  and keeps at most the configured number of compressed bytes; at most 4096 requests are pending. Also when the connection
  is finished, which is where bodies that end with the connection are decoded, no decoded
  body exceeds the decode limit (however it was compressed), and the body bytes captured since a header never
  exceed the body limit, in either direction.\<close>

theorem http_bounded:
  assumes "config_ok (he_cfg env)" and "\<forall>chunk \<in> set chunks. sc_flow_id chunk = fid"
    and "run_connection env n chunks new_connection = (es, n', c')" and "connection_finish env n' c' = (rep, c'')"
  shows "length (hc_pending_requests c') \<le> 4096 \<and>
     length (hp_buffer (parser_for d c')) \<le> max (http_max_header_bytes (he_cfg env)) 48 \<and>
     length (kept (hp_state (parser_for d c'))) \<le> http_max_decode_bytes (he_cfg env) \<and>
     (\<forall>r \<in> set (events_records (es @ rp_events rep)).
        decoded_view (cr_view r) \<longrightarrow> length (cr_data r) \<le> http_max_decode_bytes (he_cfg env)) \<and>
     captures_within (http_max_body_bytes (he_cfg env)) 0 (of_direction d (events_records (es @ rp_events rep)))"
proof -
  note R = run_connection_limits [OF limits_ok_new connection_from_new assms (1-3)]
  from connection_finish_limits [OF R run_connection_from [OF connection_from_new assms (2, 3)] assms (1, 4)] R
  show ?thesis by (auto simp: limits_ok_def list_all_iff record_within_def)
qed

subsection \<open>An example\<close>

text \<open>A request with a body of three bytes in two chunks, for a library that reports its two header fields.\<close>

definition example_lib :: http_lib where
  "example_lib = \<lparr>lib_response = (\<lambda>_. ParseFailed),
     lib_request = (\<lambda>_. ParseComplete (Some ''PUT'', Some ''/'', [\<lparr>fld_name = as_bytes ''Content-Length'', fld_value = as_bytes ''3''\<rparr>])),
     lib_inflate = (\<lambda>_ _. ([], True))\<rparr>"

definition example_http_env :: http_env where
  "example_http_env = \<lparr>he_lib = example_lib, he_cfg = \<lparr>http_max_header_bytes = 64, http_max_body_bytes = 8,
     http_max_decode_bytes = 32, http_max_decode_ratio = 4\<rparr>, he_uuid = of_nat\<rparr>"

definition example_stream :: bytes where
  "example_stream = as_bytes ''PUT /'' @ [13, 10, 13, 10, 97, 98, 99]"

definition example_chunk :: "nat \<Rightarrow> bytes \<Rightarrow> stream_chunk" where
  "example_chunk off data = \<lparr>sc_flow_id = 1, sc_ts_ns = 5, sc_direction = AToB,
     sc_key = \<lparr>key_a = Endpoint (V4 1) 4000, key_b = Endpoint (V4 2) 80, key_protocol = Tcp, key_l2_domain = 0\<rparr>,
     sc_offset = off, sc_data = data, sc_truncated = False\<rparr>"

abbreviation example_chunks :: "stream_chunk list" where
  "example_chunks \<equiv> [example_chunk 0 (take 7 example_stream), example_chunk 7 (drop 7 example_stream)]"

definition example_bytes :: "uuid \<Rightarrow> direction \<Rightarrow> nat \<Rightarrow> byte" where
  "example_bytes fid d i = (if i < length example_stream then example_stream ! i else 0)"

lemma example_stream_simps [simp]: "length example_stream = 12"
  by (simp add: example_stream_def as_bytes_def)

lemma example_chunks_true: "\<forall>c \<in> set example_chunks. sc_flow_id c = 1 \<and> stream_chunk_true example_bytes c"
  by (simp add: example_chunk_def stream_chunk_true_def bytes_at_def example_bytes_def)

lemma example_chunks_ordered: "in_order 0 (chunk_spans d example_chunks) 12"
  by (cases d) (simp_all add: chunk_spans_def example_chunk_def)

abbreviation example_io :: l7_io where
  "example_io \<equiv> \<lparr>io_append_ok = (\<lambda>_. True), io_interested = (\<lambda>_ v. v = HttpRequestBody), io_metadata_ok = (\<lambda>_. True)\<rparr>"

abbreviation example_services :: service_registry where
  "example_services \<equiv> new_registry [\<lparr>svc_port = 80, svc_name = ''web'', svc_http = True, svc_urldecode_http_requests = False,
     svc_merge_adjacent_packets = False, svc_parse_websockets = False\<rparr>]"

abbreviation example_events :: "(service_registry \<times> flow_output) list" where
  "example_events \<equiv> map (\<lambda>c. (example_services, Chunk c)) example_chunks"

theorem l7_records_true_witness:
  "list_all (\<lambda>r. record_true (example_bytes (cr_flow_id r) (cr_direction r)) r)
     (lw_segments (l7_worker_loop example_http_env example_io example_events (new_worker 0)))"
  unfolding list_all_iff by (rule l7_records_true) (use example_chunks_true in auto)

theorem l7_raw_complete_witness:
  "map stored_part (filter (\<lambda>r. cr_view r = TcpRaw) (lw_segments (l7_worker_loop example_http_env example_io example_events (new_worker 0))))
   = [(1, AToB, 5, 0, take 7 example_stream), (1, AToB, 5, 7, drop 7 example_stream)]"
  using l7_raw_complete [of example_io example_http_env example_events] by (simp add: chunk_part_def example_chunk_def)

theorem http_records_ordered_witness:
  "\<forall>d. in_order 0 (wire_spans (of_direction d (events_records (fst (run_connection example_http_env 0 example_chunks new_connection))))) 12"
proof
  fix d
  obtain es n' c' where r: "run_connection example_http_env 0 example_chunks new_connection = (es, n', c')"
    by (cases "run_connection example_http_env 0 example_chunks new_connection")
  from http_records_ordered [OF example_chunks_true example_chunks_ordered r, of d]
  show "in_order 0 (wire_spans (of_direction d (events_records (fst (run_connection example_http_env 0 example_chunks new_connection))))) 12"
    unfolding r by simp
qed

definition example_end :: "http_emission list" where
  "example_end = (let (es, n, c) = run_connection example_http_env 0 example_chunks new_connection
     in es @ rp_events (fst (connection_finish example_http_env n c)))"

theorem http_bounded_witness:
  "\<forall>d. captures_within 8 0 (of_direction d (events_records example_end))"
proof
  fix d
  obtain es n' c' where r: "run_connection example_http_env 0 example_chunks new_connection = (es, n', c')"
    by (cases "run_connection example_http_env 0 example_chunks new_connection")
  obtain rep c'' where f: "connection_finish example_http_env n' c' = (rep, c'')" by fastforce
  have cfg: "config_ok (he_cfg example_http_env)" and eight: "http_max_body_bytes (he_cfg example_http_env) = 8"
    by (simp_all add: config_ok_def example_http_env_def)
  have flow: "\<forall>c \<in> set example_chunks. sc_flow_id c = 1" using example_chunks_true by blast
  have e: "example_end = es @ rp_events rep" unfolding example_end_def r by (simp add: f)
  from http_bounded [OF cfg flow r f, of d]
  show "captures_within 8 0 (of_direction d (events_records example_end))"
    unfolding e eight by blast
qed

end
