(* ===== verification/Http_Chunked.thy ===== *)
theory Http_Chunked
  imports Http_Bounds
begin

text \<open>
  The run of the chunked decoder over the segments of a body: \<open>chunked_wire ps l0 T\<close> is the encoding of the chunks
  \<open>ps\<close>, each with its size line, of the last chunk's line \<open>l0\<close> and of the trailer section \<open>T\<close>. The size lines and
  trailers here are the ones the decoder's own functions take (\<open>line_ok\<close>, \<open>trailer_ok\<close>): the loop over rounds
  and segments is proved over them, and \<open>Http_Grammar\<close> relates them to a grammar of their own.
\<close>

subsection \<open>Searching from a position\<close>

lemma find_window_from:
  assumes "s \<le> length v"
  shows "map_option (\<lambda>p. s + p) (find_window pat (drop s v)) = Some p \<longleftrightarrow>
    s \<le> p \<and> p + length pat \<le> length v \<and> take (length pat) (drop p v) = pat \<and>
    (\<forall>q. s \<le> q \<and> q < p \<longrightarrow> take (length pat) (drop q v) \<noteq> pat)" (is "?L \<longleftrightarrow> ?R")
proof
  assume ?L
  then obtain k where k: "find_window pat (drop s v) = Some k" "p = s + k" by auto
  have "take (length pat) (drop q v) \<noteq> pat" if "s \<le> q" "q < p" for q
    using find_window_first [OF k (1), of "q - s"] that k (2) by (simp add: drop_drop)
  with find_window_Some [OF k (1)] k (2) assms show ?R by (auto simp: drop_drop add.commute)
next
  assume R: ?R
  have "take (length pat) (drop q (drop s v)) \<noteq> pat" if "q < p - s" for q
    using R that by (auto simp: drop_drop dest!: spec [of _ "q + s"])
  with R assms have "find_window pat (drop s v) = Some (p - s)"
    by (auto simp: find_window_iff drop_drop)
  with R show ?L by simp
qed

abbreviation crlf :: bytes where "crlf \<equiv> [13, 10]"

text \<open>A line without a carriage return, in front of its end: found when all of the end is there.\<close>

lemma take2_iff: "take 2 v = [a, b] \<longleftrightarrow> 2 \<le> length v \<and> v ! 0 = a \<and> v ! 1 = b"
  by (cases v; cases "tl v") (auto simp: eval_nat_numeral)

lemma find_crlf_line:
  assumes "buf @ later = line @ crlf @ tail" and "13 \<notin> set line" and "from \<le> length line"
  shows "find_crlf_from buf from = (if length line + 2 \<le> length buf then Some (length line) else None)"
proof -
  have before: "take 2 (drop q buf) \<noteq> crlf" if "q < length line" for q
  proof
    assume "take 2 (drop q buf) = crlf"
    then have "q < length buf" "buf ! q = 13" by (auto simp: take2_iff)
    then have "(buf @ later) ! q = 13" by (simp add: nth_append)
    with assms (1) that have "line ! q = 13" by (simp add: nth_append)
    with that assms (2) show False by (metis nth_mem)
  qed
  have at: "take 2 (drop (length line) buf) = crlf" if "length line + 2 \<le> length buf"
  proof -
    have "drop (length line) (buf @ later) = crlf @ tail" using assms (1) by simp
    then have "take 2 (drop (length line) (buf @ later)) = crlf" by (simp add: eval_nat_numeral)
    with that show ?thesis by simp
  qed
  show ?thesis
  proof (cases "length buf < 2")
    case False
    let ?s = "min from (length buf - 1)"
    have s: "?s \<le> length buf" by simp
    note iff = find_window_from [OF s, where pat = crlf]
    show ?thesis
    proof (cases "length line + 2 \<le> length buf")
      case True
      with at before iff [of "length line"] False assms (3) show ?thesis
        by (simp add: find_crlf_from_def Let_def eval_nat_numeral)
    next
      case short: False
      have "map_option (\<lambda>p. ?s + p) (find_window crlf (drop ?s buf)) \<noteq> Some p" for p
      proof
        assume "map_option (\<lambda>p. ?s + p) (find_window crlf (drop ?s buf)) = Some p"
        with iff have "p + 2 \<le> length buf" "take 2 (drop p buf) = crlf" by (auto simp: eval_nat_numeral)
        with before [of p] short show False by simp
      qed
      then have "map_option (\<lambda>p. ?s + p) (find_window crlf (drop ?s buf)) = None" by (metis option.exhaust)
      with short False show ?thesis by (simp only: find_crlf_from_def Let_def if_False)
    qed
  qed (simp add: find_crlf_from_def)
qed

subsection \<open>Size lines and trailers the decoder takes\<close>

definition line_ok :: "nat \<Rightarrow> bytes \<Rightarrow> nat \<Rightarrow> bool" where
  "line_ok max_line line n \<longleftrightarrow> 13 \<notin> set line \<and> length line < max_line \<and> chunk_size_of line = Inr n"

text \<open>Trailers: nothing but the empty line, or fields up to the first empty line.\<close>

definition trailer_ok :: "nat \<Rightarrow> bytes \<Rightarrow> bool" where
  "trailer_ok max_line T \<longleftrightarrow> T = crlf \<or>
     (\<not> starts_with T crlf \<and> 4 \<le> length T \<and> length T \<le> max_line + 1 \<and>
      find_double_crlf_from T 0 = Some (length T - 4))"

definition chunked_wire :: "(bytes \<times> bytes) list \<Rightarrow> bytes \<Rightarrow> bytes \<Rightarrow> bytes" where
  "chunked_wire ps l0 T = concat (map (\<lambda>(line, data). line @ crlf @ data @ crlf) ps) @ l0 @ crlf @ T"

definition chunks_ok :: "nat \<Rightarrow> (bytes \<times> bytes) list \<Rightarrow> bool" where
  "chunks_ok max_line ps \<longleftrightarrow> (\<forall>(line, data) \<in> set ps. data \<noteq> [] \<and> line_ok max_line line (length data))"

abbreviation payload :: "(bytes \<times> bytes) list \<Rightarrow> bytes" where
  "payload ps \<equiv> concat (map snd ps)"

abbreviation first_line :: "(bytes \<times> bytes) list \<Rightarrow> bytes \<Rightarrow> bytes" where
  "first_line ps l0 \<equiv> (case ps of [] \<Rightarrow> l0 | p # _ \<Rightarrow> fst p)"

text \<open>What a decoder expects to read when the payload \<open>P\<close> is still to come and \<open>rest\<close> follows the body.\<close>

definition expects :: "nat \<Rightarrow> bytes \<Rightarrow> bytes \<Rightarrow> bytes \<Rightarrow> chunked_decoder \<Rightarrow> bytes \<Rightarrow> bytes \<Rightarrow> bool" where
  "expects ml l0 T rest d P w =
     (case cd_state d of
        ChunkSize \<Rightarrow> \<exists>ps. chunks_ok ml ps \<and> w = chunked_wire ps l0 T @ rest \<and> P = payload ps \<and>
          cd_scan_from d \<le> length (first_line ps l0)
      | ChunkBody n \<Rightarrow> \<exists>c ps. chunks_ok ml ps \<and> length c = n \<and> 0 < n \<and> w = c @ crlf @ chunked_wire ps l0 T @ rest \<and>
          P = c @ payload ps \<and> cd_scan_from d = 0
      | ChunkCrlf \<Rightarrow> \<exists>ps. chunks_ok ml ps \<and> w = crlf @ chunked_wire ps l0 T @ rest \<and> P = payload ps \<and> cd_scan_from d = 0
      | ChunkTrailers \<Rightarrow> w = T @ rest \<and> P = [] \<and> cd_scan_from d \<le> length T - 4)"

lemma chunked_wire_Nil: "chunked_wire [] l0 T = l0 @ crlf @ T"
  by (simp add: chunked_wire_def)

lemma chunked_wire_Cons: "chunked_wire ((line, data) # ps) l0 T = line @ crlf @ data @ crlf @ chunked_wire ps l0 T"
  by (simp add: chunked_wire_def)

definition pieces :: "chunk_run \<Rightarrow> bytes" where
  "pieces c = concat (map ck_data (cu_chunks c))"

text \<open>A run of the decoder that has collected a prefix of \<open>P\<close>, with \<open>later\<close> still to arrive.\<close>

definition on_track :: "nat \<Rightarrow> nat \<Rightarrow> bytes \<Rightarrow> bytes \<Rightarrow> bytes \<Rightarrow> bytes \<Rightarrow> bytes \<Rightarrow> chunk_run \<Rightarrow> bool" where
  "on_track ml mc l0 T rest P later c \<longleftrightarrow> \<not> cu_done c \<and>
     (\<exists>Q. expects ml l0 T rest (cu_decoder c) Q (cu_buf c @ later) \<and> pieces c @ Q = P \<and> cu_collected c + length Q \<le> mc)"

definition finished :: "bytes \<Rightarrow> bytes \<Rightarrow> bytes \<Rightarrow> chunk_run \<Rightarrow> bool" where
  "finished rest P later c \<longleftrightarrow> cu_done c \<and> pieces c = P \<and> cu_buf c @ later = rest"

lemma on_trackI:
  "expects ml l0 T rest (cu_decoder c) Q (cu_buf c @ later) \<Longrightarrow> pieces c @ Q = P \<Longrightarrow> cu_collected c + length Q \<le> mc \<Longrightarrow>
   \<not> cu_done c \<Longrightarrow> on_track ml mc l0 T rest P later c"
  by (auto simp: on_track_def)

lemma expects_body:
  "chunks_ok ml ps \<Longrightarrow> 0 < length c \<Longrightarrow> cd_state d = ChunkBody (length c) \<Longrightarrow> cd_scan_from d = 0 \<Longrightarrow>
   expects ml l0 T rest d (c @ payload ps) (c @ crlf @ chunked_wire ps l0 T @ rest)"
  by (auto simp: expects_def)

lemma round_size:
  assumes "on_track ml mc l0 T rest P later c" and "cd_state (cu_decoder c) = ChunkSize" and "line_ok ml l0 0"
  shows "(\<exists>c'. chunk_round il ml mc c = (Inr True, c') \<and> on_track ml mc l0 T rest P later c') \<or>
    (\<exists>c'. chunk_round il ml mc c = (Inr False, c') \<and> on_track ml mc l0 T rest P later c' \<and> later \<noteq> [])"
proof -
  obtain ps where ps: "chunks_ok ml ps" "cu_buf c @ later = chunked_wire ps l0 T @ rest" "pieces c @ payload ps = P"
    "cd_scan_from (cu_decoder c) \<le> length (first_line ps l0)" "\<not> cu_done c" "cu_collected c + length (payload ps) \<le> mc"
    using assms (1, 2) by (auto simp: on_track_def expects_def)
  define line where "line = first_line ps l0"
  obtain tail where tail: "cu_buf c @ later = line @ crlf @ tail"
    "tail = (case ps of [] \<Rightarrow> T @ rest | p # ps' \<Rightarrow> snd p @ crlf @ chunked_wire ps' l0 T @ rest)"
    using ps (2) by (cases ps) (auto simp: line_def chunked_wire_Nil chunked_wire_Cons)
  define n where "n = (case ps of [] \<Rightarrow> 0 | p # _ \<Rightarrow> length (snd p))"
  have ok: "line_ok ml line n"
    using ps (1) assms (3) by (cases ps) (auto simp: line_def n_def chunks_ok_def)
  have find: "find_crlf_from (cu_buf c) (cd_scan_from (cu_decoder c)) =
      (if length line + 2 \<le> length (cu_buf c) then Some (length line) else None)"
    using find_crlf_line [OF tail (1)] ok ps (4) by (simp add: line_ok_def line_def)
  show ?thesis
  proof (cases "length line + 2 \<le> length (cu_buf c)")
    case False
    have "later \<noteq> []" using False arg_cong [OF tail (1), of length] by auto
    moreover have "length (cu_buf c) \<le> ml" using False ok by (simp add: line_ok_def)
    moreover have "on_track ml mc l0 T rest P later (c\<lparr>cu_decoder := (cu_decoder c)\<lparr>cd_scan_from := length (cu_buf c) - 1\<rparr>\<rparr>)"
      using ps assms (2) False by (auto simp: on_track_def expects_def pieces_def line_def intro!: exI [of _ ps])
    ultimately show ?thesis using find False assms (2) by (auto simp: chunk_round_def Let_def)
  next
    case True
    have "take (length line) (cu_buf c @ later) = line" using tail (1) by simp
    with True have line: "take (length line) (cu_buf c) = line" by simp
    have "drop (length line + 2) (cu_buf c @ later) = tail" using tail (1) by simp
    with True have rest: "drop (length line + 2) (cu_buf c) @ later = tail" by simp
    let ?c = "c\<lparr>cu_decoder := (cu_decoder c)\<lparr>cd_scan_from := 0, cd_state := (if n = 0 then ChunkTrailers else ChunkBody n)\<rparr>,
        cu_buf := drop (length line + 2) (cu_buf c)\<rparr>"
    have "chunk_round il ml mc c = (Inr True, ?c)"
      using find True line ok assms (2) by (auto simp: chunk_round_def Let_def line_ok_def)
    moreover have "on_track ml mc l0 T rest P later ?c"
    proof (cases ps)
      case Nil
      with ps rest tail (2) show ?thesis by (auto simp: on_track_def expects_def pieces_def n_def)
    next
      case (Cons p qs)
      then have "0 < n" "chunks_ok ml qs" using ps (1) by (auto simp: n_def chunks_ok_def)
      then have "expects ml l0 T rest (cu_decoder ?c) (snd p @ payload qs) (cu_buf ?c @ later)"
        using Cons rest tail (2) expects_body [of ml qs "snd p" "cu_decoder ?c" l0 T rest] by (simp add: n_def)
      then show ?thesis using Cons ps (3, 5, 6) by (auto simp: pieces_def intro!: on_trackI)
    qed
    ultimately show ?thesis by blast
  qed
qed

lemma round_body:
  assumes "on_track ml mc l0 T rest P later c" and "cd_state (cu_decoder c) = ChunkBody n"
  shows "(\<exists>c'. chunk_round il ml mc c = (Inr True, c') \<and> on_track ml mc l0 T rest P later c') \<or>
    (\<exists>c'. chunk_round il ml mc c = (Inr False, c') \<and> on_track ml mc l0 T rest P later c' \<and> later \<noteq> [])"
proof -
  obtain x ps where x: "chunks_ok ml ps" "length x = n" "0 < n" "cu_buf c @ later = x @ crlf @ chunked_wire ps l0 T @ rest"
    "pieces c @ x @ payload ps = P" "cd_scan_from (cu_decoder c) = 0" "\<not> cu_done c" "cu_collected c + length (x @ payload ps) \<le> mc"
  proof -
    obtain Q where Q: "expects ml l0 T rest (cu_decoder c) Q (cu_buf c @ later)" "pieces c @ Q = P"
      "cu_collected c + length Q \<le> mc" "\<not> cu_done c" using assms (1) by (auto simp: on_track_def)
    from Q (1) assms (2) have "\<exists>x ps. chunks_ok ml ps \<and> length x = n \<and> 0 < n \<and>
        cu_buf c @ later = x @ crlf @ chunked_wire ps l0 T @ rest \<and> Q = x @ payload ps \<and> cd_scan_from (cu_decoder c) = 0"
      by (simp add: expects_def)
    then obtain x ps where "chunks_ok ml ps" "length x = n" "0 < n" "cu_buf c @ later = x @ crlf @ chunked_wire ps l0 T @ rest"
      "Q = x @ payload ps" "cd_scan_from (cu_decoder c) = 0" by blast
    with Q (2-) show thesis by (intro that [of ps x]) simp_all
  qed
  show ?thesis
  proof (cases "cu_buf c = []")
    case True
    have "later \<noteq> []" using True x (2-4) by auto
    with assms True show ?thesis by (auto simp: chunk_round_def Let_def)
  next
    case False
    let ?t = "min n (length (cu_buf c))"
    have collect: "min ?t (mc - cu_collected c) = ?t" "?t \<noteq> 0" using x (2, 3, 8) False by auto
    let ?c = "c\<lparr>cu_chunks := cu_chunks c @ [\<lparr>ck_relative_offset = il - length (cu_buf c), ck_data = take ?t (cu_buf c)\<rparr>],
        cu_collected := sat_add64 (cu_collected c) ?t, cu_buf := drop ?t (cu_buf c), cu_body_bytes := sat_add64 (cu_body_bytes c) ?t,
        cu_decoder := (cu_decoder c)\<lparr>cd_state := (if n - ?t = 0 then ChunkCrlf else ChunkBody (n - ?t))\<rparr>\<rparr>"
    have "cu_collected c < mc" using x (2, 3, 8) by simp
    then have round: "chunk_round il ml mc c = (Inr (n - ?t = 0), ?c)"
      using assms (2) False collect by (simp add: chunk_round_def Let_def)
    have "take ?t (cu_buf c @ later) = take ?t x" using x (2, 4) by simp
    then have data: "take ?t (cu_buf c) = take ?t x" by simp
    have "drop ?t (cu_buf c @ later) = drop ?t x @ crlf @ chunked_wire ps l0 T @ rest" using x (2, 4) by simp
    then have buf: "drop ?t (cu_buf c) @ later = drop ?t x @ crlf @ chunked_wire ps l0 T @ rest" by simp
    have ex: "expects ml l0 T rest (cu_decoder ?c) (drop ?t x @ payload ps) (cu_buf ?c @ later)"
    proof (cases "n - ?t = 0")
      case True
      with x (2) have "drop ?t x = []" by simp
      with True buf x (1, 6) show ?thesis by (auto simp: expects_def)
    next
      case False
      then have len: "length (drop ?t x) = n - ?t" "0 < length (drop ?t x)" using x (2) by auto
      then show ?thesis
        using expects_body [OF x (1) len (2), of "cu_decoder ?c" l0 T rest] buf x (6) False by (simp add: len (1))
    qed
    have "pieces ?c = pieces c @ take ?t x" by (simp add: pieces_def data)
    then have "pieces ?c @ drop ?t x @ payload ps = P"
      using x (5) append_take_drop_id [of ?t x] by (metis append.assoc)
    moreover have "cu_collected ?c + length (drop ?t x @ payload ps) \<le> mc"
      using x (2, 8) sat_add64_le [of "cu_collected c" ?t] by simp
    ultimately have on: "on_track ml mc l0 T rest P later ?c" using ex x (7) by (auto intro: on_trackI)
    have "later \<noteq> []" if "n - ?t \<noteq> 0"
      using that arg_cong [OF x (4), of length] x (2) by auto
    with round on show ?thesis by (cases "n - ?t = 0") auto
  qed
qed

lemma round_crlf:
  assumes "on_track ml mc l0 T rest P later c" and "cd_state (cu_decoder c) = ChunkCrlf"
  shows "(\<exists>c'. chunk_round il ml mc c = (Inr True, c') \<and> on_track ml mc l0 T rest P later c') \<or>
    (\<exists>c'. chunk_round il ml mc c = (Inr False, c') \<and> on_track ml mc l0 T rest P later c' \<and> later \<noteq> [])"
proof -
  obtain ps where ps: "chunks_ok ml ps" "cu_buf c @ later = crlf @ chunked_wire ps l0 T @ rest" "pieces c @ payload ps = P"
    "cd_scan_from (cu_decoder c) = 0" "\<not> cu_done c" "cu_collected c + length (payload ps) \<le> mc"
    using assms by (auto simp: on_track_def expects_def)
  show ?thesis
  proof (cases "length (cu_buf c) < 2")
    case True
    have "later \<noteq> []" using True arg_cong [OF ps (2), of length] by auto
    with assms True show ?thesis by (auto simp: chunk_round_def Let_def)
  next
    case False
    have "take 2 (cu_buf c @ later) = crlf" "drop 2 (cu_buf c @ later) = chunked_wire ps l0 T @ rest"
      using ps (2) by (simp_all add: eval_nat_numeral)
    with False have b: "take 2 (cu_buf c) = crlf" "drop 2 (cu_buf c) @ later = chunked_wire ps l0 T @ rest" by simp_all
    let ?c = "c\<lparr>cu_buf := drop 2 (cu_buf c), cu_decoder := (cu_decoder c)\<lparr>cd_state := ChunkSize\<rparr>\<rparr>"
    have "on_track ml mc l0 T rest P later ?c"
      by (rule on_trackI [of _ _ _ _ _ "payload ps"]) (use ps b (2) in \<open>auto simp: expects_def pieces_def\<close>)
    with False b (1) assms (2) show ?thesis by (auto simp: chunk_round_def Let_def)
  qed
qed

text \<open>The trailer section: found when it is complete.\<close>

lemma find_trailer:
  assumes "trailer_ok ml T" and "T \<noteq> crlf" and "buf @ later = T @ rest" and "from \<le> length T - 4"
  shows "find_double_crlf_from buf from = (if length T \<le> length buf then Some (length T - 4) else None)"
proof -
  let ?pat = "[13, 10, 13, 10] :: bytes"
  have T: "4 \<le> length T" "find_double_crlf_from T 0 = Some (length T - 4)" using assms (1, 2) by (auto simp: trailer_ok_def)
  from T have fT: "take 4 (drop (length T - 4) T) = ?pat" "\<And>q. q < length T - 4 \<Longrightarrow> take 4 (drop q T) \<noteq> ?pat"
    using find_window_iff [of ?pat T "length T - 4"] by (auto simp: find_double_crlf_from_def eval_nat_numeral split: if_splits)
  have same: "take 4 (drop q buf) = take 4 (drop q T)" if "q + 4 \<le> length T" "q + 4 \<le> length buf" for q
  proof -
    have "take 4 (drop q (buf @ later)) = take 4 (drop q (T @ rest))" using assms (3) by simp
    with that show ?thesis by simp
  qed
  show ?thesis
  proof (cases "length buf < 4")
    case False
    let ?s = "min from (length buf - 3)"
    have s: "?s \<le> length buf" by simp
    note iff = find_window_from [OF s, where pat = ?pat]
    show ?thesis
    proof (cases "length T \<le> length buf")
      case True
      have "map_option (\<lambda>p. ?s + p) (find_window ?pat (drop ?s buf)) = Some (length T - 4)"
        unfolding iff using True T (1) fT assms (4) same by (auto simp: eval_nat_numeral)
      with True False show ?thesis by (simp only: find_double_crlf_from_def Let_def if_False if_True)
    next
      case short: False
      have "map_option (\<lambda>p. ?s + p) (find_window ?pat (drop ?s buf)) \<noteq> Some p" for p
      proof
        assume "map_option (\<lambda>p. ?s + p) (find_window ?pat (drop ?s buf)) = Some p"
        with iff have "p + 4 \<le> length buf" "take 4 (drop p buf) = ?pat" by (auto simp: eval_nat_numeral)
        moreover from this (1) short have "p < length T - 4" by linarith
        ultimately show False using same [of p] fT (2) [of p] by simp
      qed
      then have "map_option (\<lambda>p. ?s + p) (find_window ?pat (drop ?s buf)) = None" by (metis option.exhaust)
      with short False show ?thesis by (simp only: find_double_crlf_from_def Let_def if_False)
    qed
  qed (use T (1) in \<open>simp add: find_double_crlf_from_def\<close>)
qed

lemma round_trailers:
  assumes "on_track ml mc l0 T rest P later c" and "cd_state (cu_decoder c) = ChunkTrailers"
    and "trailer_ok ml T" and "0 < ml"
  shows "(\<exists>c'. chunk_round il ml mc c = (Inr False, c') \<and> finished rest P later c') \<or>
    (\<exists>c'. chunk_round il ml mc c = (Inr False, c') \<and> on_track ml mc l0 T rest P later c' \<and> later \<noteq> [])"
proof -
  have w: "cu_buf c @ later = T @ rest" "pieces c = P" "cd_scan_from (cu_decoder c) \<le> length T - 4" "\<not> cu_done c" "cu_collected c \<le> mc"
    using assms (1, 2) by (auto simp: on_track_def expects_def)
  have stay: "on_track ml mc l0 T rest P later (c\<lparr>cu_decoder := (cu_decoder c)\<lparr>cd_scan_from := length (cu_buf c) - 3\<rparr>\<rparr>)"
    if "length (cu_buf c) < length T"
    by (rule on_trackI [of _ _ _ _ _ "[]"]) (use that w assms (2) in \<open>auto simp: expects_def pieces_def\<close>)
  have "length T \<le> length (cu_buf c) \<or> later \<noteq> []" using arg_cong [OF w (1), of length] by auto
  then have wait: "later \<noteq> []" if "length (cu_buf c) < length T" using that by auto
  have all: "drop (length T) (cu_buf c) @ later = rest" "take (length T) (cu_buf c) = T" if "length T \<le> length (cu_buf c)"
  proof -
    have "drop (length T) (cu_buf c @ later) = rest" "take (length T) (cu_buf c @ later) = T" using w (1) by simp_all
    with that show "drop (length T) (cu_buf c) @ later = rest" "take (length T) (cu_buf c) = T" by simp_all
  qed
  have done_c: "finished rest P later (c\<lparr>cu_buf := drop (length T) (cu_buf c), cu_done := True, cu_decoder := default_decoder\<rparr>)"
    if "length T \<le> length (cu_buf c)" using all [OF that] w (2) by (simp add: finished_def pieces_def)
  show ?thesis
  proof (cases "T = crlf")
    case True
    show ?thesis
    proof (cases "length T \<le> length (cu_buf c)")
      case le: True
      with all [OF le] True have "starts_with (cu_buf c) crlf" by (simp add: starts_with_def)
      with done_c [OF le] True assms (2) show ?thesis by (auto simp: chunk_round_def Let_def numeral_2_eq_2)
    next
      case False
      with True have "\<not> starts_with (cu_buf c) crlf" "find_double_crlf_from (cu_buf c) (cd_scan_from (cu_decoder c)) = None"
        by (auto simp: find_double_crlf_from_def dest: starts_with_length)
      with stay wait False True assms (2, 4) show ?thesis by (auto simp: chunk_round_def Let_def)
    qed
  next
    case False
    have T: "\<not> starts_with T crlf" "4 \<le> length T" "length T \<le> ml + 1" using False assms (3) by (auto simp: trailer_ok_def)
    have no: "\<not> starts_with (cu_buf c) crlf"
    proof
      assume s: "starts_with (cu_buf c) crlf"
      then have "2 \<le> length (cu_buf c)" by (auto dest: starts_with_length)
      moreover have "take 2 (cu_buf c @ later) = take 2 (T @ rest)" using w (1) by simp
      ultimately show False using s T (1, 2) by (simp add: starts_with_def numeral_2_eq_2)
    qed
    note find = find_trailer [OF assms (3) False w (1, 3)]
    show ?thesis
    proof (cases "length T \<le> length (cu_buf c)")
      case True
      have "length T - 4 + 4 = length T" using T (2) by simp
      with find no True done_c [OF True] assms (2) show ?thesis by (auto simp: chunk_round_def Let_def)
    next
      case less: False
      then have "length (cu_buf c) \<le> ml" using T (3) by simp
      with find no less stay wait assms (2) show ?thesis by (auto simp: chunk_round_def Let_def)
    qed
  qed
qed

subsection \<open>The decoder's loop and the segments of a body\<close>

lemma round_on_track:
  assumes "on_track ml mc l0 T rest P later c" and "line_ok ml l0 0" and "trailer_ok ml T"
  shows "(\<exists>c'. chunk_round il ml mc c = (Inr True, c') \<and> on_track ml mc l0 T rest P later c') \<or>
    (\<exists>c'. chunk_round il ml mc c = (Inr False, c') \<and>
       (finished rest P later c' \<or> on_track ml mc l0 T rest P later c' \<and> later \<noteq> []))"
proof (cases "cd_state (cu_decoder c)")
  case ChunkSize
  from round_size [OF assms (1) this assms (2), of il] show ?thesis by blast
next
  case (ChunkBody n)
  from round_body [OF assms (1) this, of il] show ?thesis by blast
next
  case ChunkCrlf
  from round_crlf [OF assms (1) this, of il] show ?thesis by blast
next
  case ChunkTrailers
  have "0 < ml" using assms (2) by (simp add: line_ok_def)
  from round_trailers [OF assms (1) ChunkTrailers assms (3) this, of il] show ?thesis by blast
qed

lemma consume_loop_on_track:
  assumes "on_track ml mc l0 T rest P later c" and "line_ok ml l0 0" and "trailer_ok ml T"
  shows "\<exists>c'. consume_loop il ml mc c = (Inr (), c') \<and>
    (finished rest P later c' \<or> on_track ml mc l0 T rest P later c' \<and> later \<noteq> [])"
  using assms
proof (induction "chunk_measure c" arbitrary: c rule: less_induct)
  case less
  from round_on_track [OF less.prems, of il] show ?case
  proof (elim disjE exE conjE)
    fix c'
    assume r: "chunk_round il ml mc c = (Inr True, c')" and on: "on_track ml mc l0 T rest P later c'"
    from less.hyps [OF chunk_round_measure [OF r] on less.prems (2, 3)] r show ?thesis
      by (subst consume_loop.simps) simp
  qed (subst consume_loop.simps, simp)+
qed

text \<open>The decoder on the segments of a body, as they arrive: what it collects, and what it leaves when it is done.\<close>

fun consume_all :: "nat \<Rightarrow> nat \<Rightarrow> chunked_decoder \<Rightarrow> bytes \<Rightarrow> bytes list \<Rightarrow> http_error + bytes \<times> bytes option" where
  "consume_all ml mc d buf [] = Inr ([], None)"
| "consume_all ml mc d buf (seg # segs) =
     (case consume ml mc d (buf @ seg) of
        (Inl e, _, _) \<Rightarrow> Inl e
      | (Inr r, d', buf') \<Rightarrow>
          let got = concat (map ck_data (cc_data_chunks r)) in
          if cc_done r then Inr (got, Some (buf' @ concat segs))
          else and_then (consume_all ml mc d' buf' segs) (\<lambda>(data, left). Inr (got @ data, left)))"

lemma consume_all_expects:
  assumes "expects ml l0 T rest d P (buf @ concat segs)" and "segs \<noteq> []" and "length P \<le> mc"
    and "line_ok ml l0 0" and "trailer_ok ml T"
  shows "consume_all ml mc d buf segs = Inr (P, Some rest)"
  using assms
proof (induction segs arbitrary: d P buf)
  case (Cons seg segs)
  let ?c = "\<lparr>cu_decoder = d, cu_buf = buf @ seg, cu_chunks = [], cu_collected = 0, cu_body_bytes = 0, cu_done = False\<rparr>"
  have "on_track ml mc l0 T rest P (concat segs) ?c"
    by (rule on_trackI [of _ _ _ _ _ P]) (use Cons.prems in \<open>simp_all add: pieces_def\<close>)
  from consume_loop_on_track [OF this Cons.prems (4, 5), of "length (buf @ seg)"]
  obtain c' where c': "consume_loop (length (buf @ seg)) ml mc ?c = (Inr (), c')"
    "finished rest P (concat segs) c' \<or> on_track ml mc l0 T rest P (concat segs) c' \<and> concat segs \<noteq> []" by blast
  from c' (2) show ?case
  proof (elim disjE conjE)
    assume "finished rest P (concat segs) c'"
    with c' (1) show ?thesis by (simp add: consume_def finished_def pieces_def)
  next
    assume on: "on_track ml mc l0 T rest P (concat segs) c'" and "concat segs \<noteq> []"
    from on obtain Q where Q: "expects ml l0 T rest (cu_decoder c') Q (cu_buf c' @ concat segs)" "pieces c' @ Q = P" "\<not> cu_done c'"
      by (auto simp: on_track_def)
    have "segs \<noteq> []" "length Q \<le> mc" using \<open>concat segs \<noteq> []\<close> Q (2) Cons.prems (3) by auto
    from Cons.IH [OF Q (1) this Cons.prems (4, 5)] Q (2, 3) c' (1) show ?thesis
      by (simp add: consume_def pieces_def)
  qed
qed simp

subsection \<open>Size lines as they are usually written\<close>

definition hex_char :: "nat \<Rightarrow> byte" where
  "hex_char n = of_nat (if n < 10 then 48 + n else 87 + n)"

fun hex_bytes :: "nat \<Rightarrow> bytes" where
  "hex_bytes n = (if n < 16 then [hex_char n] else hex_bytes (n div 16) @ [hex_char (n mod 16)])"

declare hex_bytes.simps [simp del]

definition plain_hex :: "byte \<Rightarrow> bool" where
  "plain_hex b \<longleftrightarrow> (48 \<le> b \<and> b \<le> 57) \<or> (97 \<le> b \<and> b \<le> 102)"

lemma hex_char_cases: "n < 16 \<Longrightarrow> plain_hex (hex_char n) \<and> hex_digit (hex_char n) = Some n"
proof -
  assume "n < 16"
  then have "unat (hex_char n) = (if n < 10 then 48 + n else 87 + n)"
    unfolding hex_char_def unat_of_nat by simp
  with \<open>n < 16\<close> show ?thesis by (auto simp: plain_hex_def hex_digit_def word_le_nat_alt)
qed

lemma hex_bytes_plain: "list_all plain_hex (hex_bytes n)"
  by (induction n rule: hex_bytes.induct) (subst hex_bytes.simps, simp add: hex_char_cases)

lemma hex_bytes_not_Nil [simp]: "hex_bytes n \<noteq> []"
  by (subst hex_bytes.simps) simp

lemma hex_value_append: "hex_value n (xs @ ys) = (case hex_value n xs of None \<Rightarrow> None | Some m \<Rightarrow> hex_value m ys)"
  by (induction n xs rule: hex_value.induct) (auto split: option.splits)

lemma hex_value_hex_bytes: "n \<le> u64_max \<Longrightarrow> hex_value 0 (hex_bytes n) = Some n"
proof (induction n rule: hex_bytes.induct)
  case (1 n)
  show ?case
  proof (cases "n < 16")
    case True
    with 1 (2) show ?thesis by (subst hex_bytes.simps) (simp add: hex_char_cases)
  next
    case False
    have "hex_value 0 (hex_bytes (n div 16)) = Some (n div 16)" using 1 False by simp
    moreover have "16 * (n div 16) + n mod 16 = n" by simp
    ultimately show ?thesis using False 1 (2)
      by (subst hex_bytes.simps) (simp add: hex_value_append hex_char_cases)
  qed
qed

lemma hex_bytes_length: "n < 16 ^ k \<Longrightarrow> 0 < k \<Longrightarrow> length (hex_bytes n) \<le> k"
proof (induction k arbitrary: n)
  case (Suc k)
  show ?case
  proof (cases "n < 16")
    case True
    then show ?thesis by (subst hex_bytes.simps) simp
  next
    case False
    with Suc.prems have "0 < k" by (cases k) auto
    moreover have "n div 16 < 16 ^ k" using Suc.prems (1) by (simp add: less_mult_imp_div_less mult.commute)
    ultimately have "length (hex_bytes (n div 16)) \<le> k" using Suc.IH by blast
    with False show ?thesis by (subst hex_bytes.simps) simp
  qed
qed simp

lemma plain_hex_graphic: "plain_hex b \<Longrightarrow> graphic b \<and> b \<noteq> 59"
  by (auto simp: plain_hex_def graphic_def word_le_nat_alt)

lemma plain_hex_split: "list_all plain_hex bs \<Longrightarrow> split_on 59 bs = [bs]"
  by (rule split_on_none) (auto simp: list_all_iff dest: plain_hex_graphic)

lemma plain_hex_trim: "list_all plain_hex bs \<Longrightarrow> trim bs = bs"
  by (rule graphic_trim) (auto simp: list_all_iff dest: plain_hex_graphic)

lemma plain_hex_ascii: "plain_hex b \<Longrightarrow> b < 0x80 \<and> b \<noteq> 13 \<and> b \<noteq> 43"
  by (auto simp: plain_hex_def word_le_nat_alt word_less_nat_alt)

lemma hex_line_ok:
  assumes "n \<le> u64_max" and "16 < max_line"
  shows "line_ok max_line (hex_bytes n) n"
proof -
  note plain = hex_bytes_plain [of n]
  have len: "length (hex_bytes n) \<le> 16" using assms (1) by (intro hex_bytes_length) simp_all
  have "13 \<notin> set (hex_bytes n)" and valid: "utf8_valid (hex_bytes n)" and no43: "43 \<notin> set (hex_bytes n)"
    using plain plain_hex_ascii by (auto simp: list_all_iff intro!: utf8_valid_ascii)
  moreover have hd: "hd (hex_bytes n) \<noteq> 43" "hex_bytes n \<noteq> [43]" using no43 by (metis hd_in_set hex_bytes_not_Nil, auto)
  moreover have "from_hex (hex_bytes n) = Some n" using hd hex_value_hex_bytes [OF assms (1)] by (simp add: from_hex_def)
  ultimately show ?thesis
    using len assms (2) by (simp add: line_ok_def chunk_size_of_def plain_hex_split [OF plain] plain_hex_trim [OF plain])
qed

definition chunked_encode :: "bytes list \<Rightarrow> bytes" where
  "chunked_encode cs = concat (map (\<lambda>c. hex_bytes (length c) @ crlf @ c @ crlf) cs) @ [48] @ crlf @ crlf"

lemma chunked_encode_wire: "chunked_encode cs = chunked_wire (map (\<lambda>c. (hex_bytes (length c), c)) cs) (hex_bytes 0) crlf"
  by (simp add: chunked_encode_def chunked_wire_def hex_bytes.simps hex_char_def o_def)

subsection \<open>The decoder on encoded chunks\<close>

text \<open>For chunks with any size lines that the decoder takes, a last chunk and a trailer section within the line limit,
  followed by anything, and cut into segments at any places: feeding the segments one after the other gives no
  error, collects exactly the bytes of the chunks, and leaves exactly what follows the body. \<open>Http_Grammar\<close> says
  which lines these are.\<close>

lemma chunked_decodes:
  assumes "chunks_ok max_line ps" and "line_ok max_line l0 0" and "trailer_ok max_line T"
    and "concat segs = chunked_wire ps l0 T @ rest" and "length (payload ps) \<le> max_collect"
  shows "consume_all max_line max_collect default_decoder [] segs = Inr (payload ps, Some rest)"
proof -
  have "expects max_line l0 T rest default_decoder (payload ps) ([] @ concat segs)"
    using assms (1, 4) by (auto simp: expects_def default_decoder_def)
  moreover have "segs \<noteq> []" using assms (4) by (auto simp: chunked_wire_def)
  ultimately show ?thesis by (rule consume_all_expects [OF _ _ assms (5, 2, 3)])
qed

text \<open>The round trip. A sequence of non-empty chunks, encoded with hexadecimal size lines and cut into segments at
  any places, decodes to the bytes of the chunks, and what follows the body is left for the next message.\<close>

theorem chunked_roundtrip:
  assumes "\<forall>c \<in> set cs. c \<noteq> [] \<and> length c \<le> u64_max" and "16 < max_line" and "length (concat cs) \<le> max_collect"
    and "concat segs = chunked_encode cs @ rest"
  shows "consume_all max_line max_collect default_decoder [] segs = Inr (concat cs, Some rest)"
proof -
  let ?ps = "map (\<lambda>c. (hex_bytes (length c), c)) cs"
  have pay: "payload ?ps = concat cs" by (simp add: o_def)
  have "expects max_line (hex_bytes 0) crlf rest default_decoder (concat cs) ([] @ concat segs)"
    unfolding expects_def default_decoder_def
    using assms (1, 2, 4) pay
    by (auto simp: chunks_ok_def chunked_encode_wire intro!: exI [of _ ?ps] hex_line_ok)
  moreover have "segs \<noteq> []" using assms (4) by (auto simp: chunked_encode_def)
  ultimately show ?thesis
    by (rule consume_all_expects [OF _ _ assms (3)]) (use assms (2) in \<open>auto simp: trailer_ok_def intro: hex_line_ok\<close>)
qed


theorem chunked_roundtrip_witness:
  "consume_all 20 9 default_decoder [] [[50, 13, 10, 97, 98], [13, 10, 49, 13, 10, 99, 13, 10, 48, 13, 10, 13, 10]]
   = Inr ([97, 98, 99], Some [])"
  using chunked_roundtrip [of "[[97, 98], [99]]" 20 9 "[[50, 13, 10, 97, 98], [13, 10, 49, 13, 10, 99, 13, 10, 48, 13, 10, 13, 10]]" "[]"]
  by (simp add: chunked_encode_def hex_bytes.simps hex_char_def)

end
