(* ===== verification/Http_Grammar.thy ===== *)
theory Http_Grammar
  imports Http_Chunked
begin

text \<open>
  The grammar of a chunked body, written down without the decoder's functions, and the decoder against it in both
  directions. \<open>size_line\<close> and \<open>trailer_section\<close> are the chunk size line and the trailer section of RFC 9112:
  hexadecimal digits with a positional value, optional blanks, an optional extension behind a semicolon; field
  lines up to the first empty line. \<open>taken_line\<close> and \<open>taken_trailer\<close> are what the code takes beyond that: white
  space in front of the digits, a plus sign, a lone carriage return in an extension, any trailer up to the first
  empty line. Every body of the first grammar is decoded; whatever is decoded is a body of the second.
\<close>

subsection \<open>Hexadecimal numbers\<close>

definition digit_means :: "byte \<Rightarrow> nat \<Rightarrow> bool" where
  "digit_means b k \<longleftrightarrow> k < 16 \<and>
     (b = as_bytes ''0123456789abcdef'' ! k \<or> b = as_bytes ''0123456789ABCDEF'' ! k)"

definition hexadecimal :: "bytes \<Rightarrow> nat \<Rightarrow> bool" where
  "hexadecimal ds n \<longleftrightarrow> ds \<noteq> [] \<and> (\<exists>ks. list_all2 digit_means ds ks \<and> n = foldl (\<lambda>m k. 16 * m + k) 0 ks)"

lemma digit_alphabets:
  "as_bytes ''0123456789abcdef'' = [48, 49, 50, 51, 52, 53, 54, 55, 56, 57, 97, 98, 99, 100, 101, 102]"
  "as_bytes ''0123456789ABCDEF'' = [48, 49, 50, 51, 52, 53, 54, 55, 56, 57, 65, 66, 67, 68, 69, 70]"
  by (simp_all add: as_bytes_def)

lemma below_16: "(k::nat) < 16 \<longleftrightarrow> k \<in> {0, 1, 2, 3, 4, 5, 6, 7, 8, 9, 10, 11, 12, 13, 14, 15}"
  by (simp only: insert_iff empty_iff) presburger

lemma digit_means_digit: "digit_means b k \<Longrightarrow> hex_digit b = Some k \<and> graphic b \<and> b < 0x80 \<and> b \<notin> {13, 43, 59}"
  unfolding digit_means_def digit_alphabets below_16
  by (elim conjE insertE emptyE disjE) (simp_all add: hex_digit_def graphic_def)

lemma digit_means_iff: "digit_means b k \<longleftrightarrow> hex_digit b = Some k"
proof
  assume h: "hex_digit b = Some k"
  then have "b = of_nat (48 + k) \<and> k < 10 \<or> b = of_nat (55 + k) \<and> 10 \<le> k \<and> k < 16 \<or> b = of_nat (87 + k) \<and> 10 \<le> k \<and> k < 16"
    by (auto simp: hex_digit_def word_le_nat_alt split: if_splits)
  moreover from this have "k < 16" by auto
  ultimately show "digit_means b k"
    unfolding digit_means_def digit_alphabets below_16 by (elim insertE emptyE) (auto simp: hex_digit_def)
qed (simp add: digit_means_digit)

lemma hex_value_from:
  "list_all2 digit_means ds ks \<Longrightarrow> foldl (\<lambda>m k. 16 * m + k) n ks \<le> u64_max \<Longrightarrow>
   hex_value n ds = Some (foldl (\<lambda>m k. 16 * m + k) n ks)"
proof (induction ds ks arbitrary: n rule: list_all2_induct)
  case (Cons d ds k ks)
  have "n \<le> foldl (\<lambda>m k. 16 * m + k) n ks" for n :: nat and ks
  proof (induction ks arbitrary: n)
    case (Cons k ks)
    from Cons.IH [of "16 * n + k"] show ?case by simp
  qed simp
  then have "16 * n + k \<le> u64_max" using Cons.prems by (simp, meson order_trans)
  with Cons show ?case by (simp add: digit_means_digit)
qed simp

lemma hex_value_means:
  "hex_value n ds = Some m \<Longrightarrow> \<exists>ks. list_all2 digit_means ds ks \<and> m = foldl (\<lambda>m k. 16 * m + k) n ks"
proof (induction n ds rule: hex_value.induct)
  case (2 n b bs)
  from 2 (2) obtain k where k: "hex_digit b = Some k" "16 * n + k \<le> u64_max" "hex_value (16 * n + k) bs = Some m"
    by (auto split: option.splits if_splits)
  from 2 (1) [OF k] obtain ks where "list_all2 digit_means bs ks" "m = foldl (\<lambda>m k. 16 * m + k) (16 * n + k) ks" by blast
  then show ?case using k (1) by (intro exI [of _ "k # ks"]) (simp add: digit_means_iff [of b])
qed simp

lemma positional_bound: "list_all (\<lambda>k::nat. k < 16) ks \<Longrightarrow> foldl (\<lambda>m k. 16 * m + k) n ks < (n + 1) * 16 ^ length ks"
proof (induction ks arbitrary: n)
  case (Cons k ks)
  then have "foldl (\<lambda>m k. 16 * m + k) (16 * n + k) ks < (16 * n + k + 1) * 16 ^ length ks" by simp
  also have "\<dots> \<le> (n + 1) * 16 * 16 ^ length ks" using Cons.prems by (intro mult_right_mono) auto
  finally show ?case by (simp add: algebra_simps)
qed simp

lemma hexadecimal_facts:
  assumes "hexadecimal ds n" and "length ds \<le> 16"
  shows "from_hex ds = Some n" and "list_all graphic ds" and "list_all (\<lambda>b. b < 0x80 \<and> b \<notin> {13, 43, 59}) ds" and "ds \<noteq> []"
proof -
  obtain ks where ks: "list_all2 digit_means ds ks" "n = foldl (\<lambda>m k. 16 * m + k) 0 ks" and ds: "ds \<noteq> []"
    using assms (1) by (auto simp: hexadecimal_def)
  show all: "list_all graphic ds" "list_all (\<lambda>b. b < 0x80 \<and> b \<notin> {13, 43, 59}) ds"
    using ks (1) by (induction rule: list_all2_induct) (auto dest: digit_means_digit)
  have "list_all (\<lambda>k. k < 16) ks" using ks (1) by (induction rule: list_all2_induct) (auto simp: digit_means_def)
  from positional_bound [OF this, of 0] have "n < 16 ^ length ks" using ks (2) by simp
  also have "(16::nat) ^ length ks \<le> 16 ^ 16" using assms (2) list_all2_lengthD [OF ks (1)] by (intro power_increasing) auto
  finally have "n \<le> u64_max" by simp
  then have "hex_value 0 ds = Some n" using hex_value_from [OF ks (1), of 0] ks (2) by simp
  moreover have "hd ds \<noteq> 43" "ds \<noteq> [43]" using all (2) ds by (cases ds; simp)+
  ultimately show "from_hex ds = Some n" using ds by (simp add: from_hex_def)
  show "ds \<noteq> []" by (rule ds)
qed

subsection \<open>Size lines\<close>

definition size_line :: "nat \<Rightarrow> bytes \<Rightarrow> nat \<Rightarrow> bool" where
  "size_line max_line line n \<longleftrightarrow>
     (\<exists>ds pad ext. line = ds @ pad @ ext \<and> hexadecimal ds n \<and> length ds \<le> 16 \<and> set pad \<subseteq> {32, 9} \<and>
        (ext = [] \<or> hd ext = 59)) \<and>
     13 \<notin> set line \<and> utf8_valid line \<and> length line < max_line"

lemma strip_blank:
  assumes "set pad \<subseteq> {32, 9}" and "\<forall>w \<in> set chars. w \<noteq> [] \<and> \<not> graphic (hd w)" and "[32] \<in> set chars" and "[9] \<in> set chars"
    and "\<forall>w \<in> set chars. hd w \<in> {32, 9} \<longrightarrow> length w = 1" and "list_all graphic ds"
  shows "strip_front chars (pad @ ds) = ds"
  using assms (1)
proof (induction pad)
  case (Cons b pad)
  let ?bs = "b # pad @ ds"
  have b: "b = 32 \<or> b = 9" using Cons.prems by auto
  let ?f = "filter (\<lambda>w. take (length w) ?bs = w) chars"
  have "[b] \<in> set ?f" using b assms (3, 4) by auto
  then obtain w ws where f: "?f = w # ws" by (cases ?f) auto
  then have w: "w \<in> set chars" "take (length w) ?bs = w" by (auto simp: filter_eq_Cons_iff)
  have "w \<noteq> []" using w (1) assms (2) by auto
  then have "hd w = b" using w (2) by (cases w) auto
  with w (1) b assms (5) have "length w = 1" by auto
  with f have "ws_len chars ?bs = 1" by (simp add: ws_len_def)
  with Cons show ?case by (subst strip_front.simps) simp
qed (simp add: graphic_strip [OF assms (6, 2)])

lemma trim_pad:
  assumes "list_all graphic ds" and "set pad \<subseteq> {32, 9}" and "ds \<noteq> []"
  shows "trim (ds @ pad) = ds"
proof -
  have "take (length w) (ds @ pad) \<noteq> w" if "w \<in> set ws_chars" for w
  proof -
    have "w \<noteq> [] \<and> \<not> graphic (hd w)" using that ws_chars_graphic (1) by blast
    then show ?thesis using assms (1, 3) by (cases ds; cases w) auto
  qed
  then have "filter (\<lambda>w. take (length w) (ds @ pad) = w) ws_chars = []" by (simp add: filter_empty_conv)
  then have "trim_start (ds @ pad) = ds @ pad"
    unfolding trim_start_def by (subst strip_front.simps) (simp add: ws_len_def)
  moreover have "strip_front (map rev ws_chars) (rev pad @ rev ds) = rev ds"
    by (rule strip_blank) (use assms ws_chars_graphic (2) in \<open>simp_all add: ws_chars_def list_all_iff\<close>)
  ultimately show ?thesis by (simp add: trim_def trim_end_def)
qed

lemma size_line_ok: "size_line max_line line n \<Longrightarrow> line_ok max_line line n"
proof -
  assume L: "size_line max_line line n"
  then obtain ds pad ext where p: "line = ds @ pad @ ext" "hexadecimal ds n" "length ds \<le> 16" "set pad \<subseteq> {32, 9}"
    "ext = [] \<or> hd ext = 59" by (auto simp: size_line_def)
  note h = hexadecimal_facts [OF p (2, 3)]
  have no: "59 \<notin> set (ds @ pad)" using h (3) p (4) by (auto simp: list_all_iff)
  have "hd (split_on 59 line) = ds @ pad"
  proof (cases ext)
    case Nil
    then show ?thesis using p (1) no by (simp add: split_on_none)
  next
    case (Cons e es)
    then have "line = (ds @ pad) @ 59 # es" using p (1, 5) by simp
    then show ?thesis by (simp only: split_on_append [OF no] list.sel)
  qed
  with h p (3) trim_pad [OF h (2) p (4) h (4)] have "chunk_size_of line = Inr n"
    using L by (simp add: chunk_size_of_def size_line_def)
  with L show ?thesis by (simp add: line_ok_def size_line_def)
qed

subsection \<open>Trailer sections\<close>

definition trailer_section :: "nat \<Rightarrow> bytes \<Rightarrow> bool" where
  "trailer_section max_line T \<longleftrightarrow>
     (\<exists>fls. T = concat (map (\<lambda>f. f @ crlf) fls) @ crlf \<and> (\<forall>f \<in> set fls. f \<noteq> [] \<and> 13 \<notin> set f) \<and>
        (fls = [] \<or> length T \<le> max_line + 1))"

lemma field_lines_start:
  "\<forall>f \<in> set fls. f \<noteq> [] \<and> 13 \<notin> set f \<Longrightarrow> take 2 (concat (map (\<lambda>f. f @ crlf) fls) @ crlf) = crlf \<Longrightarrow> fls = []"
  by (cases fls; cases "hd fls") auto

lemma window_4:
  assumes "take 4 (drop q v) = [a, b, c, d]"
  shows "q + 4 \<le> length v" and "v ! q = a"
proof -
  have "length (take 4 (drop q v)) = 4" by (simp only: assms) simp
  then show "q + 4 \<le> length v" by simp
  then show "v ! q = a" using arg_cong [OF assms, of "\<lambda>xs. xs ! 0"] by simp
qed

lemma first_empty_line:
  assumes "\<forall>f \<in> set fls. f \<noteq> [] \<and> 13 \<notin> set f"
    and "take 4 (drop q (concat (map (\<lambda>f. f @ crlf) fls) @ crlf)) = crlf @ crlf"
  shows "q + 4 = length (concat (map (\<lambda>f. f @ crlf) fls) @ crlf)"
  using assms
proof (induction fls arbitrary: q)
  case Nil
  have "length (take 4 (drop q crlf)) = 4" using Nil (2) by simp
  then show ?case by simp
next
  case (Cons f fs)
  let ?T = "concat (map (\<lambda>f. f @ crlf) fs) @ crlf"
  have w: "take 4 (drop q (f @ crlf @ ?T)) = crlf @ crlf" using Cons.prems (2) by simp
  then have "(f @ crlf @ ?T) ! q = 13" by (intro window_4 (2) [of _ _ 13 10 13 10]) simp
  consider "q < length f" | "q = length f" | "q = length f + 1" | "length f + 2 \<le> q" by linarith
  then show ?case
  proof cases
    case 1
    with \<open>(f @ crlf @ ?T) ! q = 13\<close> have "f ! q = 13" by (simp add: nth_append)
    with 1 Cons.prems (1) show ?thesis by (metis list.set_intros (1) nth_mem)
  next
    case 2
    with w have "take 2 ?T = crlf" by (simp add: eval_nat_numeral)
    with field_lines_start Cons.prems (1) have "fs = []" by auto
    with 2 show ?thesis by simp
  next
    case 3
    with \<open>(f @ crlf @ ?T) ! q = 13\<close> show ?thesis by (simp add: nth_append)
  next
    case 4
    then obtain k where q: "q = length f + 2 + k" by (metis le_Suc_ex)
    with w have "take 4 (drop k ?T) = crlf @ crlf" by simp
    from Cons.IH [OF _ this] Cons.prems (1) q show ?thesis by simp
  qed
qed

lemma trailer_section_ok:
  assumes "trailer_section max_line T"
  shows "trailer_ok max_line T"
proof -
  obtain fls where f: "T = concat (map (\<lambda>f. f @ crlf) fls) @ crlf" "\<forall>f \<in> set fls. f \<noteq> [] \<and> 13 \<notin> set f"
    "fls = [] \<or> length T \<le> max_line + 1" using assms by (auto simp: trailer_section_def)
  show ?thesis
  proof (cases "fls = []")
    case True
    with f (1) show ?thesis by (simp add: trailer_ok_def)
  next
    case False
    then obtain g fs where g: "fls = fs @ [g]" by (metis rev_exhaust)
    then have T: "T = concat (map (\<lambda>f. f @ crlf) fs) @ g @ crlf @ crlf" and "g \<noteq> []" using f (1, 2) by simp_all
    then have len: "4 \<le> length T" by (cases g) auto
    have "drop (length T - 4) T = crlf @ crlf" unfolding T by simp
    then have at: "take 4 (drop (length T - 4) T) = crlf @ crlf" by simp
    have "\<not> starts_with T crlf"
      using field_lines_start [OF f (2)] f (1) False by (auto simp: starts_with_def numeral_2_eq_2)
    moreover have first: "q + 4 = length T" if "take 4 (drop q T) = crlf @ crlf" for q
      using first_empty_line [OF f (2)] that f (1) by simp
    have "length T - 4 + 4 = length T" using len by simp
    then have "find_window (crlf @ crlf) T = Some (length T - 4)"
      unfolding find_window_iff
    proof (intro conjI allI impI)
      fix q assume "q < length T - 4"
      then show "take (length (crlf @ crlf)) (drop q T) \<noteq> crlf @ crlf" using first [of q] by (auto simp: eval_nat_numeral)
    qed (use at len in simp_all)
    then have "find_double_crlf_from T 0 = Some (length T - 4)" using len by (simp add: find_double_crlf_from_def)
    ultimately show ?thesis using f (3) False len by (simp only: trailer_ok_def) blast
  qed
qed

subsection \<open>What the code takes beyond the grammar\<close>

definition blank :: "bytes \<Rightarrow> bool" where
  "blank bs \<longleftrightarrow> (\<exists>cs. set cs \<subseteq> set ws_chars \<and> bs = concat cs)"

definition taken_line :: "bytes \<Rightarrow> nat \<Rightarrow> bool" where
  "taken_line line n \<longleftrightarrow>
     (\<exists>lead sign ds pad ext. line = lead @ sign @ ds @ pad @ ext \<and> blank lead \<and> sign \<in> {[], [43]} \<and>
        hexadecimal ds n \<and> length (sign @ ds) \<le> 16 \<and> blank pad \<and> (ext = [] \<or> hd ext = 59)) \<and>
     (\<forall>q. take 2 (drop q line) \<noteq> crlf) \<and> utf8_valid line"

definition taken_trailer :: "bytes \<Rightarrow> bool" where
  "taken_trailer T \<longleftrightarrow> T = crlf \<or>
     take 2 T \<noteq> crlf \<and> (\<exists>body. T = body @ crlf @ crlf) \<and> (\<forall>q. take 4 (drop q T) = crlf @ crlf \<longrightarrow> q + 4 = length T)"

lemma strip_front_split: "\<exists>cs. set cs \<subseteq> set chars \<and> bs = concat cs @ strip_front chars bs"
proof (induction chars bs rule: strip_front.induct)
  case (1 chars bs)
  show ?case
  proof (cases "ws_len chars bs = 0 \<or> bs = []")
    case True
    then have "strip_front chars bs = bs" by (subst strip_front.simps) auto
    then show ?thesis by (intro exI [of _ "[]"]) simp
  next
    case False
    then obtain w ws where f: "filter (\<lambda>w. take (length w) bs = w) chars = w # ws"
      by (auto simp: ws_len_def split: list.splits)
    then have w: "w \<in> set chars" "take (length w) bs = w" "ws_len chars bs = length w"
      by (auto simp: filter_eq_Cons_iff ws_len_def)
    from 1 [OF False] obtain cs where cs: "set cs \<subseteq> set chars" "drop (length w) bs = concat cs @ strip_front chars (drop (length w) bs)"
      by (auto simp: w (3))
    have "strip_front chars bs = strip_front chars (drop (length w) bs)"
      using False w (3) by (subst strip_front.simps) simp
    then have "bs = concat (w # cs) @ strip_front chars bs"
      using cs (2) w (2) append_take_drop_id [of "length w" bs] by simp
    with w (1) cs (1) show ?thesis by (intro exI [of _ "w # cs"]) simp
  qed
qed

lemma trim_split: "\<exists>lead pad. blank lead \<and> blank pad \<and> bs = lead @ trim bs @ pad"
proof -
  obtain cs where cs: "set cs \<subseteq> set ws_chars" "bs = concat cs @ trim_start bs"
    unfolding trim_start_def using strip_front_split [of ws_chars bs] by blast
  obtain ds where ds: "set ds \<subseteq> set (map rev ws_chars)" "rev (trim_start bs) = concat ds @ rev (trim bs)"
    using strip_front_split [of "map rev ws_chars" "rev (trim_start bs)"] by (auto simp: trim_def trim_end_def)
  from ds (2) have "trim_start bs = trim bs @ concat (map rev (rev ds))"
    using rev_rev_ident [of "trim_start bs"] by (simp add: rev_concat rev_map)
  moreover have "set (map rev (rev ds)) \<subseteq> set ws_chars" using ds (1) by auto
  ultimately show ?thesis using cs unfolding blank_def by (metis append.assoc)
qed

lemma chunk_size_taken:
  assumes "chunk_size_of line = Inr n" and "\<And>q. take 2 (drop q line) \<noteq> crlf"
  shows "taken_line line n"
proof -
  let ?s = "trim (hd (split_on 59 line))"
  have s: "utf8_valid line" "?s \<noteq> []" "length ?s \<le> 16" "from_hex ?s = Some n"
    using assms (1) by (auto simp: chunk_size_of_def Let_def split: if_splits option.splits)
  obtain ext where ext: "line = hd (split_on 59 line) @ ext" "ext = [] \<or> hd ext = 59"
  proof (cases "59 \<in> set line")
    case True
    then obtain a b where "line = a @ 59 # b" "59 \<notin> set a" by (metis split_list_first)
    then show thesis by (intro that [of "59 # b"]) (simp_all add: split_on_append)
  qed (use that [of "[]"] in \<open>simp add: split_on_none\<close>)
  obtain lead pad where t: "blank lead" "blank pad" "hd (split_on 59 line) = lead @ ?s @ pad" using trim_split by blast
  define ds where "ds = (if hd ?s = 43 then tl ?s else ?s)"
  have v: "hex_value 0 ds = Some n" "?s \<noteq> [43]" using s (4) by (auto simp: from_hex_def ds_def split: if_splits)
  have "ds \<noteq> []" using s (2) v (2) by (cases ?s) (auto simp: ds_def)
  with hex_value_means [OF v (1)] have "hexadecimal ds n" by (auto simp: hexadecimal_def)
  moreover obtain sign where sign: "?s = sign @ ds" "sign \<in> {[], [43]}" 
  proof (cases "hd ?s = 43")
    case True
    then have "[43] @ ds = hd ?s # tl ?s" by (simp add: ds_def)
    also have "\<dots> = ?s" using s (2) by (rule list.collapse)
    finally have e: "[43] @ ds = ?s" .
    show thesis by (rule that [OF e [symmetric]]) simp
  qed (use that [of "[]"] in \<open>simp add: ds_def\<close>)
  moreover from this t (3) ext (1) have "line = lead @ sign @ ds @ pad @ ext" by (metis append.assoc)
  moreover have "length (sign @ ds) \<le> 16" using s (3) by (simp only: sign (1))
  ultimately show ?thesis unfolding taken_line_def using assms (2) s (1) t (1, 2) ext (2) by blast
qed

subsection \<open>What the decoder has read\<close>

definition taken_body :: "(bytes \<times> bytes) list \<Rightarrow> bytes \<Rightarrow> bytes \<Rightarrow> bool" where
  "taken_body ps l0 T \<longleftrightarrow>
     (\<forall>(line, data) \<in> set ps. data \<noteq> [] \<and> taken_line line (length data)) \<and> taken_line l0 0 \<and> taken_trailer T"

text \<open>\<open>reads st P w rest\<close>: from state \<open>st\<close>, the bytes \<open>w\<close> are the rest of a body with payload \<open>P\<close>, and then \<open>rest\<close>.\<close>

definition reads_chunks :: "bytes \<Rightarrow> bytes \<Rightarrow> bytes \<Rightarrow> bool" where
  "reads_chunks P w rest \<longleftrightarrow> (\<exists>ps l0 T. taken_body ps l0 T \<and> w = chunked_wire ps l0 T @ rest \<and> P = payload ps)"

definition reads :: "chunk_state \<Rightarrow> bytes \<Rightarrow> bytes \<Rightarrow> bytes \<Rightarrow> bool" where
  "reads st P w rest =
     (case st of
        ChunkSize \<Rightarrow> reads_chunks P w rest
      | ChunkBody n \<Rightarrow> \<exists>data Q v. length data = n \<and> w = data @ crlf @ v \<and> P = data @ Q \<and> reads_chunks Q v rest
      | ChunkCrlf \<Rightarrow> \<exists>v. w = crlf @ v \<and> reads_chunks P v rest
      | ChunkTrailers \<Rightarrow> (\<exists>T. taken_trailer T \<and> w = T @ rest) \<and> P = [])"

text \<open>No end of a line starts in front of the position where the search goes on.\<close>

definition scanned :: "chunked_decoder \<Rightarrow> bytes \<Rightarrow> bool" where
  "scanned d buf =
     (case cd_state d of
        ChunkSize \<Rightarrow> \<forall>q < cd_scan_from d. q + 2 \<le> length buf \<and> take 2 (drop q buf) \<noteq> crlf
      | ChunkTrailers \<Rightarrow> \<forall>q < cd_scan_from d. q + 4 \<le> length buf \<and> take 4 (drop q buf) \<noteq> crlf @ crlf
      | _ \<Rightarrow> cd_scan_from d = 0)"

lemma scanned_more: "scanned d buf \<Longrightarrow> scanned d (buf @ seg)"
  by (auto simp: scanned_def split: chunk_state.splits)

lemma reads_last: "taken_line l 0 \<Longrightarrow> reads ChunkTrailers P w rest \<Longrightarrow> reads_chunks P (l @ crlf @ w) rest"
  unfolding reads_def reads_chunks_def chunk_state.case
  by (elim conjE exE) (rule exI [of _ "[]"], rule exI [of _ l], auto simp: chunked_wire_Nil taken_body_def)

lemma reads_chunk:
  "taken_line l n \<Longrightarrow> 0 < n \<Longrightarrow> reads (ChunkBody n) P w rest \<Longrightarrow> reads_chunks P (l @ crlf @ w) rest"
proof -
  assume "taken_line l n" "0 < n" "reads (ChunkBody n) P w rest"
  then obtain data Q v ps l0 T where "length data = n" "w = data @ crlf @ v" "P = data @ Q" "taken_body ps l0 T"
    "v = chunked_wire ps l0 T @ rest" "Q = payload ps" by (auto simp: reads_def reads_chunks_def)
  with \<open>taken_line l n\<close> \<open>0 < n\<close> show "reads_chunks P (l @ crlf @ w) rest"
    unfolding reads_chunks_def
    by (intro exI [of _ "(l, data) # ps"] exI [of _ l0] exI [of _ T]) (auto simp: taken_body_def chunked_wire_Cons)
qed

lemma crlf_found:
  assumes "find_crlf_from buf from = Some p" and "\<forall>q < from. q + 2 \<le> length buf \<and> take 2 (drop q buf) \<noteq> crlf"
  shows "buf = take p buf @ crlf @ drop (p + 2) buf" and "\<And>q. take 2 (drop q (take p buf)) \<noteq> crlf"
proof -
  let ?s = "min from (length buf - 1)"
  have s: "?s \<le> length buf" by simp
  have "map_option (\<lambda>p. ?s + p) (find_window crlf (drop ?s buf)) = Some p" "2 \<le> length buf"
    using assms (1) by (auto simp: find_crlf_from_def Let_def split: if_splits)
  then have f: "take 2 (drop p buf) = crlf" "p + 2 \<le> length buf" "\<And>q. ?s \<le> q \<Longrightarrow> q < p \<Longrightarrow> take 2 (drop q buf) \<noteq> crlf"
    unfolding find_window_from [OF s] by (auto simp: eval_nat_numeral)
  have "buf = take p buf @ take 2 (drop p buf) @ drop (p + 2) buf"
    by (metis add.commute append_take_drop_id drop_drop)
  then show "buf = take p buf @ crlf @ drop (p + 2) buf" by (simp only: f (1))
  fix q show "take 2 (drop q (take p buf)) \<noteq> crlf"
  proof
    assume w: "take 2 (drop q (take p buf)) = crlf"
    have "length (take 2 (drop q (take p buf))) = 2" by (simp only: w) simp
    then have q: "q + 2 \<le> p" by simp
    then have "take 2 (drop q buf) = crlf" using w min.absorb1 [of 2 "p - q"] by (simp add: drop_take)
    moreover from this assms (2) have "?s \<le> q" by (meson leI min.coboundedI1)
    ultimately show False using f (3) [of q] q by simp
  qed
qed

lemma double_crlf_found:
  assumes "find_double_crlf_from buf from = Some p" and "\<forall>q < from. q + 4 \<le> length buf \<and> take 4 (drop q buf) \<noteq> crlf @ crlf"
    and "\<not> starts_with buf crlf"
  shows "buf = take (p + 4) buf @ drop (p + 4) buf" and "taken_trailer (take (p + 4) buf)"
proof -
  let ?s = "min from (length buf - 3)" and ?pat = "crlf @ crlf"
  have s: "?s \<le> length buf" by simp
  have "map_option (\<lambda>p. ?s + p) (find_window ?pat (drop ?s buf)) = Some p" "4 \<le> length buf"
    using assms (1) by (auto simp: find_double_crlf_from_def Let_def split: if_splits)
  then have f: "take 4 (drop p buf) = ?pat" "p + 4 \<le> length buf" "\<And>q. ?s \<le> q \<Longrightarrow> q < p \<Longrightarrow> take 4 (drop q buf) \<noteq> ?pat"
    unfolding find_window_from [OF s] by (auto simp: eval_nat_numeral)
  have "take (p + 4) buf = take p buf @ take 4 (drop p buf)" by (rule take_add)
  then have "\<exists>body. take (p + 4) buf = body @ crlf @ crlf" by (simp only: f (1)) blast
  moreover have "take 2 (take (p + 4) buf) \<noteq> crlf"
    using assms (3) f (2) by (simp add: starts_with_def numeral_2_eq_2 min_def)
  moreover have "q + 4 = length (take (p + 4) buf)" if w: "take 4 (drop q (take (p + 4) buf)) = ?pat" for q
  proof -
    have "length (take 4 (drop q (take (p + 4) buf))) = 4" by (simp only: w) simp
    then have q: "q \<le> p" by simp
    then have "take 4 (drop q buf) = ?pat" using w min.absorb1 [of 4 "p + 4 - q"] by (simp add: drop_take)
    moreover from this assms (2) have "?s \<le> q" by (meson leI min.coboundedI1)
    ultimately have "q = p" using f (3) [of q] q by (meson le_neq_implies_less)
    with f (2) show ?thesis by simp
  qed
  ultimately show "taken_trailer (take (p + 4) buf)" by (simp only: taken_trailer_def) blast
qed simp

text \<open>A run of the decoder from \<open>c\<close> to \<open>c'\<close> collects the front of the payload of every body that may follow.\<close>

definition run_reads :: "nat \<Rightarrow> chunk_run \<Rightarrow> chunk_run \<Rightarrow> bool" where
  "run_reads mc c c' \<longleftrightarrow> (\<exists>D. pieces c' = pieces c @ D \<and>
     (if cu_done c' then \<forall>later. reads (cd_state (cu_decoder c)) D (cu_buf c @ later) (cu_buf c' @ later)
      else scanned (cu_decoder c') (cu_buf c') \<and> cu_collected c' + length (cu_buf c') \<le> mc \<and>
        (\<forall>Q later rest. reads (cd_state (cu_decoder c')) Q (cu_buf c' @ later) rest \<longrightarrow>
           reads (cd_state (cu_decoder c)) (D @ Q) (cu_buf c @ later) rest)))"

lemma run_reads_trans: "run_reads mc c c1 \<Longrightarrow> \<not> cu_done c1 \<Longrightarrow> run_reads mc c1 c' \<Longrightarrow> run_reads mc c c'"
  unfolding run_reads_def by (elim exE conjE) (rule exI, auto split: if_splits)

lemma run_readsI:
  "pieces c' = pieces c @ D \<Longrightarrow> \<not> cu_done c' \<Longrightarrow> scanned (cu_decoder c') (cu_buf c') \<Longrightarrow>
   cu_collected c' + length (cu_buf c') \<le> mc \<Longrightarrow>
   (\<And>Q later rest. reads (cd_state (cu_decoder c')) Q (cu_buf c' @ later) rest \<Longrightarrow>
      reads (cd_state (cu_decoder c)) (D @ Q) (cu_buf c @ later) rest) \<Longrightarrow> run_reads mc c c'"
  unfolding run_reads_def by (rule exI [of _ D]) simp

lemma size_reads:
  assumes "chunk_round il ml mc c = (Inr go, c')" and "cd_state (cu_decoder c) = ChunkSize"
    and "scanned (cu_decoder c) (cu_buf c)" and "cu_collected c + length (cu_buf c) \<le> mc" and "\<not> cu_done c"
  shows "run_reads mc c c'"
proof (cases "find_crlf_from (cu_buf c) (cd_scan_from (cu_decoder c))")
  case None
  with assms (1, 2) have c': "c' = c\<lparr>cu_decoder := (cu_decoder c)\<lparr>cd_scan_from := length (cu_buf c) - 1\<rparr>\<rparr>"
    by (auto simp: chunk_round_def Let_def split: if_splits)
  have "take 2 (drop q (cu_buf c)) \<noteq> crlf" if "q < length (cu_buf c) - 1" for q
  proof (cases "q < cd_scan_from (cu_decoder c)")
    case False
    let ?s = "min (cd_scan_from (cu_decoder c)) (length (cu_buf c) - 1)"
    have "find_window crlf (drop ?s (cu_buf c)) = None"
      using None that by (simp add: find_crlf_from_def Let_def split: if_splits)
    from find_window_None [OF this, of "q - ?s"] False that show ?thesis by (simp add: min_def eval_nat_numeral split: if_splits)
  qed (use assms (2, 3) in \<open>simp add: scanned_def\<close>)
  then have "scanned (cu_decoder c') (cu_buf c')" using assms (2) by (auto simp: c' scanned_def)
  then show ?thesis by (rule run_readsI [of _ _ "[]", rotated 2]) (use assms in \<open>simp_all add: c' pieces_def\<close>)
next
  case (Some p)
  let ?line = "take p (cu_buf c)"
  obtain n where n: "chunk_size_of ?line = Inr n"
    using Some assms (1, 2) by (cases "chunk_size_of ?line") (auto simp: chunk_round_def Let_def)
  let ?st = "if n = 0 then ChunkTrailers else ChunkBody n"
  have c': "c' = c\<lparr>cu_decoder := (cu_decoder c)\<lparr>cd_scan_from := 0, cd_state := ?st\<rparr>, cu_buf := drop (p + 2) (cu_buf c)\<rparr>"
    using Some n assms (1, 2) by (cases "n = 0") (auto simp: chunk_round_def Let_def)
  have scan: "\<forall>q < cd_scan_from (cu_decoder c). q + 2 \<le> length (cu_buf c) \<and> take 2 (drop q (cu_buf c)) \<noteq> crlf"
    using assms (2, 3) by (simp add: scanned_def)
  note found = crlf_found [OF Some scan]
  have line: "taken_line ?line n" by (rule chunk_size_taken [OF n found (2)])
  have "reads ChunkSize Q (cu_buf c @ later) rest" if "reads ?st Q (drop (p + 2) (cu_buf c) @ later) rest" for Q later rest
  proof -
    have "reads_chunks Q (?line @ crlf @ drop (p + 2) (cu_buf c) @ later) rest"
      using that line reads_last [of ?line Q _ rest] reads_chunk [of ?line n Q _ rest] by (cases "n = 0") auto
    also have "?line @ crlf @ drop (p + 2) (cu_buf c) @ later = cu_buf c @ later"
      using arg_cong [OF found (1), of "\<lambda>b. b @ later"] by simp
    finally show ?thesis by (simp add: reads_def)
  qed
  then show ?thesis
    by (intro run_readsI [of _ _ "[]"]) (use assms (2, 4, 5) in \<open>auto simp: c' pieces_def scanned_def\<close>)
qed

lemma body_reads:
  assumes "chunk_round il ml mc c = (Inr go, c')" and "cd_state (cu_decoder c) = ChunkBody n"
    and "scanned (cu_decoder c) (cu_buf c)" and "cu_collected c + length (cu_buf c) \<le> mc" and "\<not> cu_done c"
  shows "run_reads mc c c'"
proof (cases "cu_buf c = []")
  case True
  with assms (1, 2) have "c' = c" by (simp add: chunk_round_def)
  then show ?thesis by (intro run_readsI [of _ _ "[]"]) (use assms in simp_all)
next
  case False
  define t where "t = min n (length (cu_buf c))"
  have collect: "min t (mc - cu_collected c) = t" using assms (4) by (simp add: t_def)
  have "cu_collected c < mc" using assms (4) False by (cases "cu_buf c") auto
  then have c': "cu_buf c' = drop t (cu_buf c)" "pieces c' = pieces c @ take t (cu_buf c)" "\<not> cu_done c'"
    "cd_state (cu_decoder c') = (if n - t = 0 then ChunkCrlf else ChunkBody (n - t))" "cd_scan_from (cu_decoder c') = cd_scan_from (cu_decoder c)"
    "cu_collected c' \<le> cu_collected c + t"
    using assms (1, 2, 5) False sat_add64_le [of "cu_collected c" t]
    by (auto simp: chunk_round_def Let_def pieces_def t_def [symmetric] collect split: if_splits)
  have "reads (ChunkBody n) (take t (cu_buf c) @ Q) (cu_buf c @ later) rest"
    if R: "reads (cd_state (cu_decoder c')) Q (cu_buf c' @ later) rest" for Q later rest
  proof (cases "n - t = 0")
    case True
    then have "t = n" by (simp add: t_def)
    from R True obtain v where v: "drop t (cu_buf c) @ later = crlf @ v" "reads_chunks Q v rest" by (auto simp: c' reads_def)
    then have "cu_buf c @ later = take t (cu_buf c) @ crlf @ v" by (metis append.assoc append_take_drop_id)
    moreover have "length (take t (cu_buf c)) = n" using \<open>t = n\<close> by (simp add: t_def)
    ultimately show ?thesis using v (2) unfolding reads_def chunk_state.case by blast
  next
    case more: False
    then have t: "t = length (cu_buf c)" by (simp add: t_def min_def split: if_splits)
    from R more obtain data Q' v where d: "length data = n - t" "later = data @ crlf @ v" "Q = data @ Q'" "reads_chunks Q' v rest"
      by (auto simp: c' t reads_def)
    then have "length (cu_buf c @ data) = n" using more t by simp
    moreover have "take t (cu_buf c) @ Q = (cu_buf c @ data) @ Q'" "cu_buf c @ later = (cu_buf c @ data) @ crlf @ v"
      using d by (simp_all add: t)
    ultimately show ?thesis using d (4) unfolding reads_def chunk_state.case by blast
  qed
  moreover have "cu_collected c' + length (cu_buf c') \<le> mc" using c' (1, 6) assms (4) by (simp add: t_def)
  moreover have "scanned (cu_decoder c') (cu_buf c')" using c' (4, 5) assms (2, 3) by (simp add: scanned_def)
  ultimately show ?thesis by (intro run_readsI [OF c' (2, 3)]) (simp_all add: assms (2))
qed

lemma crlf_reads:
  assumes "chunk_round il ml mc c = (Inr go, c')" and "cd_state (cu_decoder c) = ChunkCrlf"
    and "scanned (cu_decoder c) (cu_buf c)" and "cu_collected c + length (cu_buf c) \<le> mc" and "\<not> cu_done c"
  shows "run_reads mc c c'"
proof (cases "length (cu_buf c) < 2")
  case True
  with assms (1, 2) have "c' = c" by (simp add: chunk_round_def)
  then show ?thesis by (intro run_readsI [of _ _ "[]"]) (use assms in simp_all)
next
  case False
  with assms (1, 2) have b: "take 2 (cu_buf c) = crlf"
    and c': "c' = c\<lparr>cu_buf := drop 2 (cu_buf c), cu_decoder := (cu_decoder c)\<lparr>cd_state := ChunkSize\<rparr>\<rparr>"
    by (auto simp: chunk_round_def Let_def split: if_splits)
  have "cu_buf c = crlf @ drop 2 (cu_buf c)" using append_take_drop_id [of 2 "cu_buf c"] by (simp only: b)
  then have "cu_buf c @ later = crlf @ drop 2 (cu_buf c) @ later" for later by (metis append.assoc)
  then have "reads ChunkCrlf Q (cu_buf c @ later) rest" if "reads ChunkSize Q (drop 2 (cu_buf c) @ later) rest" for Q later rest
    using that unfolding reads_def chunk_state.case by blast
  then show ?thesis
    by (intro run_readsI [of _ _ "[]"]) (use assms (2-5) in \<open>auto simp: c' pieces_def scanned_def\<close>)
qed

lemma trailers_read:
  assumes "chunk_round il ml mc c = (Inr go, c')" and "cd_state (cu_decoder c) = ChunkTrailers"
    and "scanned (cu_decoder c) (cu_buf c)" and "cu_collected c + length (cu_buf c) \<le> mc" and "\<not> cu_done c"
  shows "run_reads mc c c' \<and> \<not> go"
proof -
  have stop: "run_reads mc c (c\<lparr>cu_buf := drop k (cu_buf c), cu_done := True, cu_decoder := default_decoder\<rparr>)"
    if "taken_trailer (take k (cu_buf c))" for k
  proof -
    have "cu_buf c @ later = take k (cu_buf c) @ drop k (cu_buf c) @ later" for later by simp
    with that have "reads ChunkTrailers [] (cu_buf c @ later) (drop k (cu_buf c) @ later)" for later
      unfolding reads_def chunk_state.case by blast
    then show ?thesis using assms (2) by (simp add: run_reads_def pieces_def)
  qed
  have scan: "\<forall>q < cd_scan_from (cu_decoder c). q + 4 \<le> length (cu_buf c) \<and> take 4 (drop q (cu_buf c)) \<noteq> crlf @ crlf"
    using assms (2, 3) by (simp add: scanned_def)
  show ?thesis
  proof (cases "starts_with (cu_buf c) crlf")
    case True
    then have "take 2 (cu_buf c) = crlf" by (simp add: starts_with_def numeral_2_eq_2)
    then have "taken_trailer (take 2 (cu_buf c))" by (simp add: taken_trailer_def)
    from stop [OF this] True assms (1, 2) show ?thesis by (auto simp: chunk_round_def Let_def)
  next
    case no: False
    show ?thesis
    proof (cases "find_double_crlf_from (cu_buf c) (cd_scan_from (cu_decoder c))")
      case None
      with assms (1, 2) no have c': "c' = c\<lparr>cu_decoder := (cu_decoder c)\<lparr>cd_scan_from := length (cu_buf c) - 3\<rparr>\<rparr>" "\<not> go"
        by (auto simp: chunk_round_def Let_def split: if_splits)
      have "take 4 (drop q (cu_buf c)) \<noteq> crlf @ crlf" if "q < length (cu_buf c) - 3" for q
      proof (cases "q < cd_scan_from (cu_decoder c)")
        case False
        let ?s = "min (cd_scan_from (cu_decoder c)) (length (cu_buf c) - 3)"
        have "find_window (crlf @ crlf) (drop ?s (cu_buf c)) = None"
          using None that by (simp add: find_double_crlf_from_def Let_def split: if_splits)
        from find_window_None [OF this, of "q - ?s"] False that show ?thesis by (simp add: min_def eval_nat_numeral split: if_splits)
      qed (use scan in simp)
      then have "scanned (cu_decoder c') (cu_buf c')" using assms (2) by (auto simp: c' scanned_def)
      then have "run_reads mc c c'" by (rule run_readsI [of _ _ "[]", rotated 2]) (use assms in \<open>simp_all add: c' pieces_def\<close>)
      with c' (2) show ?thesis by simp
    next
      case (Some p)
      from stop [OF double_crlf_found (2) [OF Some scan no]] Some no assms (1, 2) show ?thesis
        by (auto simp: chunk_round_def Let_def)
    qed
  qed
qed

lemma round_reads:
  assumes "chunk_round il ml mc c = (Inr go, c')" and "scanned (cu_decoder c) (cu_buf c)"
    and "cu_collected c + length (cu_buf c) \<le> mc" and "\<not> cu_done c"
  shows "run_reads mc c c' \<and> (cu_done c' \<longrightarrow> \<not> go)"
proof (cases "cd_state (cu_decoder c)")
  case ChunkTrailers
  from trailers_read [OF assms (1) this assms (2-4)] show ?thesis by simp
next
  case ChunkSize
  with assms (1, 4) have "\<not> cu_done c'" by (auto simp: chunk_round_def Let_def split: option.splits sum.splits if_splits)
  with size_reads [OF assms (1) ChunkSize assms (2-4)] show ?thesis by simp
next
  case (ChunkBody n)
  with assms (1, 4) have "\<not> cu_done c'" by (auto simp: chunk_round_def Let_def split: if_splits)
  with body_reads [OF assms (1) ChunkBody assms (2-4)] show ?thesis by simp
next
  case ChunkCrlf
  with assms (1, 4) have "\<not> cu_done c'" by (auto simp: chunk_round_def Let_def split: if_splits)
  with crlf_reads [OF assms (1) ChunkCrlf assms (2-4)] show ?thesis by simp
qed

lemma run_readsD:
  "run_reads mc c c' \<Longrightarrow> \<not> cu_done c' \<Longrightarrow>
   scanned (cu_decoder c') (cu_buf c') \<and> cu_collected c' + length (cu_buf c') \<le> mc"
  by (auto simp: run_reads_def)

lemma loop_reads:
  assumes "consume_loop il ml mc c = (Inr (), c')" and "scanned (cu_decoder c) (cu_buf c)"
    and "cu_collected c + length (cu_buf c) \<le> mc" and "\<not> cu_done c"
  shows "run_reads mc c c'"
  using assms
proof (induction "chunk_measure c" arbitrary: c rule: less_induct)
  case less
  obtain r c1 where r: "chunk_round il ml mc c = (r, c1)" by fastforce
  show ?case
  proof (cases r)
    case (Inl e)
    with r less.prems (1) show ?thesis by (subst (asm) consume_loop.simps) simp
  next
    case (Inr go)
    note step = round_reads [OF r [unfolded Inr] less.prems (2-4)]
    show ?thesis
    proof (cases go)
      case True
      with r Inr less.prems (1) have l: "consume_loop il ml mc c1 = (Inr (), c')"
        by (subst (asm) consume_loop.simps) simp
      have nd: "\<not> cu_done c1" using step True by simp
      have m: "chunk_measure c1 < chunk_measure c" using chunk_round_measure r Inr True by simp
      from step run_readsD nd have "run_reads mc c1 c'" by (intro less.hyps [OF m l _ _ nd]) auto
      with step nd show ?thesis by (blast intro: run_reads_trans)
    next
      case False
      with r Inr less.prems (1) have "c' = c1" by (subst (asm) consume_loop.simps) simp
      with step show ?thesis by simp
    qed
  qed
qed

lemma consume_all_reads:
  assumes "consume_all ml mc d buf segs = Inr (P, Some rest)" and "scanned d buf" and "length (buf @ concat segs) \<le> mc"
  shows "reads (cd_state d) P (buf @ concat segs) rest"
  using assms
proof (induction segs arbitrary: d buf P)
  case (Cons seg segs)
  let ?c = "\<lparr>cu_decoder = d, cu_buf = buf @ seg, cu_chunks = [], cu_collected = 0, cu_body_bytes = 0, cu_done = False\<rparr>"
  obtain c' where l: "consume_loop (length (buf @ seg)) ml mc ?c = (Inr (), c')"
    using Cons.prems (1) by (auto simp: consume_def split: prod.splits sum.splits)
  have "run_reads mc ?c c'" by (rule loop_reads [OF l]) (use Cons.prems (2, 3) in \<open>simp_all add: scanned_more\<close>)
  then obtain D where D: "pieces c' = pieces ?c @ D"
    "if cu_done c' then \<forall>later. reads (cd_state (cu_decoder ?c)) D (cu_buf ?c @ later) (cu_buf c' @ later)
     else scanned (cu_decoder c') (cu_buf c') \<and> cu_collected c' + length (cu_buf c') \<le> mc \<and>
       (\<forall>Q later rest. reads (cd_state (cu_decoder c')) Q (cu_buf c' @ later) rest \<longrightarrow>
          reads (cd_state (cu_decoder ?c)) (D @ Q) (cu_buf ?c @ later) rest)"
    unfolding run_reads_def by blast
  show ?case
  proof (cases "cu_done c'")
    case True
    with Cons.prems (1) l D (1) have "P = D" "rest = cu_buf c' @ concat segs" by (simp_all add: consume_def pieces_def)
    with True D (2) show ?thesis by simp
  next
    case False
    with Cons.prems (1) l D (1) obtain Q where
      Q: "consume_all ml mc (cu_decoder c') (cu_buf c') segs = Inr (Q, Some rest)" "P = D @ Q"
      by (auto simp: consume_def pieces_def and_then_Inr_iff)
    have "length (cu_buf c') \<le> length (buf @ seg)" using consume_loop_length [OF l] by simp
    then have "length (cu_buf c' @ concat segs) \<le> mc" using Cons.prems (3) by simp
    from Cons.IH [OF Q (1) _ this] False D (2) have "reads (cd_state (cu_decoder c')) Q (cu_buf c' @ concat segs) rest" by simp
    with False D (2) Q (2) show ?thesis by simp
  qed
qed simp

subsection \<open>Properties\<close>

definition chunked_body :: "nat \<Rightarrow> (bytes \<times> bytes) list \<Rightarrow> bytes \<Rightarrow> bytes \<Rightarrow> bool" where
  "chunked_body max_line ps l0 T \<longleftrightarrow>
     (\<forall>(line, data) \<in> set ps. data \<noteq> [] \<and> size_line max_line line (length data)) \<and>
     size_line max_line l0 0 \<and> trailer_section max_line T"

text \<open>C23: the decoder implements the grammar of a chunked body, in any segmentation and in both directions. The
  first part: for chunks with size lines of the grammar (hexadecimal digits of either case, at most sixteen, then
  optional blanks, then nothing or a semicolon and an extension), a last chunk and a trailer section of field lines,
  all within the line limit, followed by anything, and cut into segments at any places: feeding the segments one
  after the other gives no error, collects exactly the bytes of the chunks, and leaves exactly what follows the
  body. The second part: whatever the decoder completes without an error is such a body, with its chunks' bytes as
  the result and the bytes behind it left over; the lines may there also have white space in front of the digits, a
  plus sign, and a lone carriage return, and the trailer is whatever ends with the first empty line. The grammar
  does not mention the decoder's functions.\<close>

theorem chunked_any_segmentation:
  "(chunked_body max_line ps l0 T \<and> concat segs = chunked_wire ps l0 T @ rest \<and> length (payload ps) \<le> max_collect \<longrightarrow>
      consume_all max_line max_collect default_decoder [] segs = Inr (payload ps, Some rest)) \<and>
   (consume_all max_line max_collect default_decoder [] segs = Inr (P, Some rest) \<and> length (concat segs) \<le> max_collect \<longrightarrow>
      (\<exists>ps l0 T. taken_body ps l0 T \<and> concat segs = chunked_wire ps l0 T @ rest \<and> P = payload ps))"
proof (intro conjI impI; elim conjE)
  assume "chunked_body max_line ps l0 T" "concat segs = chunked_wire ps l0 T @ rest" "length (payload ps) \<le> max_collect"
  then show "consume_all max_line max_collect default_decoder [] segs = Inr (payload ps, Some rest)"
    by (intro chunked_decodes [of max_line ps l0 T])
      (auto simp: chunked_body_def chunks_ok_def intro: size_line_ok trailer_section_ok)
next
  assume "consume_all max_line max_collect default_decoder [] segs = Inr (P, Some rest)" "length (concat segs) \<le> max_collect"
  from consume_all_reads [OF this (1)] this (2)
  show "\<exists>ps l0 T. taken_body ps l0 T \<and> concat segs = chunked_wire ps l0 T @ rest \<and> P = payload ps"
    by (auto simp: scanned_def default_decoder_def reads_def reads_chunks_def)
qed

text \<open>Two chunks, the second with an extension, and a trailer field, in three segments.\<close>

lemma example_body:
  "chunked_body 64 [([51], [97, 98, 99]), ([50, 32, 59, 120], [100, 101])] [48] [84, 58, 49, 13, 10, 13, 10]"
proof -
  have h: "hexadecimal [51] 3" "hexadecimal [50] 2" "hexadecimal [48] 0"
    unfolding hexadecimal_def
    by (simp, rule exI [of _ "[3]"], simp add: digit_means_def digit_alphabets,
        simp, rule exI [of _ "[2]"], simp add: digit_means_def digit_alphabets,
        simp, rule exI [of _ "[0]"], simp add: digit_means_def digit_alphabets)
  have plain: "size_line 64 [51] 3" "size_line 64 [48] 0"
    unfolding size_line_def
    by (intro conjI exI [of _ "[51]"] exI [of _ "[]"], simp_all add: h utf8_valid_ascii,
        intro conjI exI [of _ "[48]"] exI [of _ "[]"], simp_all add: h)
  have "size_line 64 [50, 32, 59, 120] 2"
    unfolding size_line_def
    by (intro conjI exI [of _ "[50]"] exI [of _ "[32]"] exI [of _ "[59, 120]"]) (simp_all add: h utf8_valid_ascii)
  moreover have "trailer_section 64 [84, 58, 49, 13, 10, 13, 10]"
    unfolding trailer_section_def by (rule exI [of _ "[[84, 58, 49]]"]) simp
  ultimately show ?thesis using plain by (simp add: chunked_body_def eval_nat_numeral)
qed

theorem chunked_any_segmentation_witness:
  "consume_all 64 100 default_decoder []
     [[51, 13], [10, 97, 98, 99, 13, 10, 50, 32, 59, 120, 13, 10, 100], [101, 13, 10, 48, 13, 10, 84, 58, 49, 13, 10, 13, 10, 71]]
     = Inr ([97, 98, 99, 100, 101], Some [71]) \<and>
   (\<exists>ps l0 T. taken_body ps l0 T \<and> [97, 98, 99, 100, 101] = payload ps)"
proof -
  let ?segs = "[[51, 13], [10, 97, 98, 99, 13, 10, 50, 32, 59, 120, 13, 10, 100],
    [101, 13, 10, 48, 13, 10, 84, 58, 49, 13, 10, 13, 10, 71]] :: bytes list"
  let ?ps = "[([51], [97, 98, 99]), ([50, 32, 59, 120], [100, 101])] :: (bytes \<times> bytes) list"
  note both = chunked_any_segmentation [of 64 ?ps "[48]" "[84, 58, 49, 13, 10, 13, 10]" ?segs "[71]" 100 "[97, 98, 99, 100, 101]"]
  have run: "consume_all 64 100 default_decoder [] ?segs = Inr ([97, 98, 99, 100, 101], Some [71])"
    using conjunct1 [OF both] example_body by (simp add: chunked_wire_def)
  moreover have "length (concat ?segs) \<le> 100" by simp
  ultimately show ?thesis using conjunct2 [OF both] by blast
qed

end
