(* ===== verification/Topology.thy ===== *)
theory Topology
  imports Bazalt_Model Rust_Text Service_Registry
begin

text \<open>
  The source topology of \<open>src/src/topology.rs\<close>: per-source counters with a rate window, the tracker that bounds
  the number of sources, the local observers of the capture workers, which batch their observations, and the
  targets of throttle rules.

  Instants are natural numbers (nanoseconds), \<open>duration_since\<close> and \<open>elapsed\<close> are truncating subtractions. The
  clock readings of a call are its argument \<open>topo_clock\<close>. The rates of a source are pairs of a numerator and a
  denominator: the source divides them as floating point numbers. A hash map is an association list with
  distinct keys.
\<close>

subsection \<open>Sources\<close>

abbreviation rate_window_secs :: nat where "rate_window_secs \<equiv> 5"
abbreviation local_flush_interval :: nat where "local_flush_interval \<equiv> 250000000"
abbreviation max_local_sources_before_flush :: nat where "max_local_sources_before_flush \<equiv> 4096"
abbreviation max_topology_gc_interval :: nat where "max_topology_gc_interval \<equiv> 30000000000"

record pending_counters =
  pc_packets :: nat
  pc_bytes :: nat
  pc_last_packet_ts_ns :: nat

definition default_counters :: pending_counters where
  "default_counters = \<lparr>pc_packets = 0, pc_bytes = 0, pc_last_packet_ts_ns = 0\<rparr>"

record rate_bucket =
  rb_second :: nat
  rb_packets :: nat
  rb_bytes :: nat

record source_state =
  so_packets_total :: nat
  so_bytes_total :: nat
  so_last_packet_ts_ns :: nat
  so_last_observed :: nat
  so_buckets :: "rate_bucket list"

definition new_source :: "nat \<Rightarrow> source_state" where
  "new_source now = \<lparr>so_packets_total = 0, so_bytes_total = 0, so_last_packet_ts_ns = 0, so_last_observed = now,
                     so_buckets = []\<rparr>"

definition trim_buckets :: "nat \<Rightarrow> source_state \<Rightarrow> source_state" where
  "trim_buckets now_second s = s\<lparr>so_buckets := dropWhile (\<lambda>b. now_second - rb_second b \<ge> rate_window_secs) (so_buckets s)\<rparr>"

definition add_bucket :: "pending_counters \<Rightarrow> nat \<Rightarrow> rate_bucket list \<Rightarrow> rate_bucket list" where
  "add_bucket c second bs =
     (if bs \<noteq> [] \<and> rb_second (last bs) = second
      then butlast bs @ [(last bs)\<lparr>rb_packets := sat_add64 (rb_packets (last bs)) (pc_packets c),
                                  rb_bytes := sat_add64 (rb_bytes (last bs)) (pc_bytes c)\<rparr>]
      else bs @ [\<lparr>rb_second = second, rb_packets = pc_packets c, rb_bytes = pc_bytes c\<rparr>])"

definition merge_source :: "pending_counters \<Rightarrow> nat \<Rightarrow> nat \<Rightarrow> source_state \<Rightarrow> source_state" where
  "merge_source c second now s =
     trim_buckets second
       (s\<lparr>so_packets_total := sat_add64 (so_packets_total s) (pc_packets c),
         so_bytes_total := sat_add64 (so_bytes_total s) (pc_bytes c),
         so_last_packet_ts_ns := max (so_last_packet_ts_ns s) (pc_last_packet_ts_ns c),
         so_last_observed := now,
         so_buckets := add_bucket c second (so_buckets s)\<rparr>)"

text \<open>Packets, bits and the seconds that divide both.\<close>

definition rates :: "nat \<Rightarrow> source_state \<Rightarrow> (nat \<times> nat \<times> nat) \<times> source_state" where
  "rates now_second s =
     (let s = trim_buckets now_second s;
          packets = sum_list (map rb_packets (so_buckets s)) mod 2 ^ 64;
          bytes = sum_list (map rb_bytes (so_buckets s)) mod 2 ^ 64;
          seconds = (case so_buckets s of [] \<Rightarrow> 1 | b # _ \<Rightarrow> sat_add64 (now_second - rb_second b) 1);
          seconds = max 1 (min seconds rate_window_secs)
      in ((packets, bytes * 8, seconds), s))"

subsection \<open>The tracker\<close>

record topology_state =
  ts_sources :: "(u32 \<times> source_state) list"
  ts_overflow :: "source_state option"
  ts_last_gc :: "nat option"

record topology_tracker =
  tt_group_prefix_v4 :: nat
  tt_source_ttl :: nat
  tt_max_sources :: nat
  tt_state :: topology_state

definition new_tracker :: "nat \<Rightarrow> nat \<Rightarrow> nat \<Rightarrow> topology_tracker" where
  "new_tracker prefix_v4 ttl max_sources =
     \<lparr>tt_group_prefix_v4 = prefix_v4, tt_source_ttl = ttl, tt_max_sources = max max_sources 1,
      tt_state = \<lparr>ts_sources = [], ts_overflow = None, ts_last_gc = None\<rparr>\<rparr>"

definition retain_sources :: "nat \<Rightarrow> nat \<Rightarrow> topology_state \<Rightarrow> topology_state" where
  "retain_sources ttl now st =
     st\<lparr>ts_sources := filter (\<lambda>e. now - so_last_observed (snd e) \<le> ttl) (ts_sources st), ts_last_gc := Some now\<rparr>"

definition merge_entry :: "nat \<Rightarrow> nat \<Rightarrow> nat \<Rightarrow> u32 \<times> pending_counters \<Rightarrow> topology_state \<Rightarrow> topology_state" where
  "merge_entry max_sources second now e st =
     (case e of (ip, c) \<Rightarrow>
        (case map_of (ts_sources st) ip of
           Some s \<Rightarrow> st\<lparr>ts_sources := AList.update ip (merge_source c second now s) (ts_sources st)\<rparr>
         | None \<Rightarrow>
             if length (ts_sources st) < max_sources
             then st\<lparr>ts_sources := AList.update ip (merge_source c second now (new_source now)) (ts_sources st)\<rparr>
             else st\<lparr>ts_overflow := Some (merge_source c second now
                      (case ts_overflow st of Some s \<Rightarrow> s | None \<Rightarrow> new_source now))\<rparr>))"

definition gc_due :: "nat \<Rightarrow> topology_tracker \<Rightarrow> bool" where
  "gc_due now t =
     (case ts_last_gc (tt_state t) of
        None \<Rightarrow> True
      | Some last_gc \<Rightarrow> now - last_gc \<ge> min (tt_source_ttl t) max_topology_gc_interval)"

definition merge_batch :: "nat \<Rightarrow> nat \<Rightarrow> (u32 \<times> pending_counters) list \<Rightarrow> topology_tracker \<Rightarrow> topology_tracker" where
  "merge_batch now second pending t =
     (if pending = [] then t
      else
        let st = (if gc_due now t then retain_sources (tt_source_ttl t) now (tt_state t) else tt_state t)
        in t\<lparr>tt_state := fold (merge_entry (tt_max_sources t) second now) pending st\<rparr>)"

subsection \<open>Local observers\<close>

record topo_clock =
  ck_elapsed :: nat
  ck_merge :: nat
  ck_second :: nat
  ck_flush :: nat

record local_observer =
  lo_pending :: "(u32 \<times> pending_counters) list"
  lo_last_flush :: nat
  lo_ignored_source_mac :: "bytes option"

definition new_observer :: "bytes option \<Rightarrow> nat \<Rightarrow> local_observer" where
  "new_observer mac now = \<lparr>lo_pending = [], lo_last_flush = now, lo_ignored_source_mac = mac\<rparr>"

definition ethernet_source_mac :: "bytes \<Rightarrow> bytes option" where
  "ethernet_source_mac frame = slice_chk 6 12 frame"

definition ignores_ethernet_frame :: "local_observer \<Rightarrow> bytes \<Rightarrow> bool" where
  "ignores_ethernet_frame lo frame =
     (case lo_ignored_source_mac lo of None \<Rightarrow> False | Some mac \<Rightarrow> ethernet_source_mac frame = Some mac)"

definition flush_observer :: "topo_clock \<Rightarrow> local_observer \<Rightarrow> topology_tracker \<Rightarrow> local_observer \<times> topology_tracker" where
  "flush_observer ck lo t =
     (lo\<lparr>lo_pending := [], lo_last_flush := ck_flush ck\<rparr>, merge_batch (ck_merge ck) (ck_second ck) (lo_pending lo) t)"

definition count_source :: "nat \<Rightarrow> nat \<Rightarrow> u32 \<Rightarrow> (u32 \<times> pending_counters) list \<Rightarrow> (u32 \<times> pending_counters) list" where
  "count_source ts wire_len ip pending =
     (let e = (case map_of pending ip of Some c \<Rightarrow> c | None \<Rightarrow> default_counters)
      in AList.update ip (e\<lparr>pc_packets := sat_add64 (pc_packets e) 1, pc_bytes := sat_add64 (pc_bytes e) wire_len,
                            pc_last_packet_ts_ns := max (pc_last_packet_ts_ns e) ts\<rparr>) pending)"

definition observe_ipv4_source ::
  "topo_clock \<Rightarrow> nat \<Rightarrow> nat \<Rightarrow> u32 \<Rightarrow> local_observer \<Rightarrow> topology_tracker \<Rightarrow> local_observer \<times> topology_tracker" where
  "observe_ipv4_source ck ts wire_len ip lo t =
     (let lo = lo\<lparr>lo_pending := count_source ts wire_len ip (lo_pending lo)\<rparr> in
      if length (lo_pending lo) \<ge> max_local_sources_before_flush
         \<or> ck_elapsed ck - lo_last_flush lo \<ge> local_flush_interval
      then flush_observer ck lo t else (lo, t))"

definition flush_if_due :: "topo_clock \<Rightarrow> local_observer \<Rightarrow> topology_tracker \<Rightarrow> local_observer \<times> topology_tracker" where
  "flush_if_due ck lo t =
     (if lo_pending lo \<noteq> [] \<and> ck_elapsed ck - lo_last_flush lo \<ge> local_flush_interval
      then flush_observer ck lo t else (lo, t))"

text \<open>\<open>Drop\<close> of an observer.\<close>

definition drop_observer :: "topo_clock \<Rightarrow> local_observer \<Rightarrow> topology_tracker \<Rightarrow> topology_tracker" where
  "drop_observer ck lo t = snd (flush_observer ck lo t)"

subsection \<open>Snapshots\<close>

definition network_for :: "u32 \<Rightarrow> nat \<Rightarrow> u32" where
  "network_for ip prefix_len =
     (let mask = (if prefix_len = 0 then 0 else if prefix_len = 32 then - 1 else push_bit (32 - prefix_len) (- 1)) in ip AND mask)"

record group_snapshot =
  gs_source_count :: nat
  gs_packets_total :: nat
  gs_bytes_total :: nat

record topology_snapshot =
  sn_source_count :: nat
  sn_source_capacity_saturated :: bool
  sn_untracked_packets_total :: nat
  sn_untracked_bytes_total :: nat
  sn_packets_total :: nat
  sn_bytes_total :: nat
  sn_groups :: "(u32 \<times> group_snapshot) list"

definition add_to_group :: "nat \<Rightarrow> u32 \<times> source_state \<Rightarrow> (u32 \<times> group_snapshot) list \<Rightarrow> (u32 \<times> group_snapshot) list" where
  "add_to_group prefix_len row groups =
     (case row of (ip, s) \<Rightarrow>
        let network = network_for ip prefix_len;
            g = (case map_of groups network of
                   Some g \<Rightarrow> g | None \<Rightarrow> \<lparr>gs_source_count = 0, gs_packets_total = 0, gs_bytes_total = 0\<rparr>)
        in AList.update network
             \<lparr>gs_source_count = sat_add64 (gs_source_count g) 1,
              gs_packets_total = sat_add64 (gs_packets_total g) (so_packets_total s),
              gs_bytes_total = sat_add64 (gs_bytes_total g) (so_bytes_total s)\<rparr> groups)"

text \<open>
  The state change and the integer part of \<open>snapshot\<close>, before its groups are sorted by rate and cut to the
  size of a response.
\<close>

definition snapshot :: "nat \<Rightarrow> nat \<Rightarrow> topology_tracker \<Rightarrow> topology_snapshot \<times> topology_tracker" where
  "snapshot now now_second t =
     (let st = retain_sources (tt_source_ttl t) now (tt_state t);
          st = st\<lparr>ts_sources := map (\<lambda>(ip, s). (ip, snd (rates now_second s))) (ts_sources st),
                  ts_overflow := map_option (\<lambda>s. snd (rates now_second s)) (ts_overflow st)\<rparr>;
          (up, ub) = (case ts_overflow st of Some s \<Rightarrow> (so_packets_total s, so_bytes_total s) | None \<Rightarrow> (0, 0))
      in (\<lparr>sn_source_count = length (ts_sources st),
            sn_source_capacity_saturated = (length (ts_sources st) \<ge> tt_max_sources t),
            sn_untracked_packets_total = up, sn_untracked_bytes_total = ub,
            sn_packets_total = foldl (\<lambda>n (_, s). sat_add64 n (so_packets_total s)) up (ts_sources st),
            sn_bytes_total = foldl (\<lambda>n (_, s). sat_add64 n (so_bytes_total s)) ub (ts_sources st),
            sn_groups = fold (add_to_group (tt_group_prefix_v4 t)) (ts_sources st) []\<rparr>,
          t\<lparr>tt_state := st\<rparr>))"

subsection \<open>Counting\<close>

definition pending_packets :: "(u32 \<times> pending_counters) list \<Rightarrow> nat" where
  "pending_packets ps = sum_list (map (pc_packets \<circ> snd) ps)"

definition source_packets :: "topology_state \<Rightarrow> nat" where
  "source_packets st = sum_list (map (so_packets_total \<circ> snd) (ts_sources st)) +
     (case ts_overflow st of None \<Rightarrow> 0 | Some s \<Rightarrow> so_packets_total s)"

text \<open>Distinct sources, no more than the capacity.\<close>

definition tracker_ok :: "topology_tracker \<Rightarrow> bool" where
  "tracker_ok t \<longleftrightarrow> distinct (map fst (ts_sources (tt_state t))) \<and> length (ts_sources (tt_state t)) \<le> tt_max_sources t"

lemma update_total:
  assumes "distinct (map fst xs)"
  shows "sum_list (map (f \<circ> snd) (AList.update k v xs)) + (case map_of xs k of Some w \<Rightarrow> f w | None \<Rightarrow> 0) =
    (sum_list (map (f \<circ> snd) xs) + f v :: nat)"
  using assms
proof (induction xs)
  case (Cons x xs)
  then show ?case by (cases x) (auto simp: dom_map_of_conv_image_fst split: option.splits simp: map_of_eq_None_iff)
qed simp

lemma update_length: "length (AList.update k v xs) = (if map_of xs k = None then Suc (length xs) else length xs)"
  by (induction xs) auto

lemma merge_source_packets:
  "so_packets_total (merge_source c second now s) = sat_add64 (so_packets_total s) (pc_packets c)"
  by (simp add: merge_source_def trim_buckets_def)

lemma new_source_packets [simp]: "so_packets_total (new_source now) = 0"
  by (simp add: new_source_def)

lemma merge_entry_total:
  assumes "distinct (map fst (ts_sources st))" and "length (ts_sources st) \<le> cap"
    and "source_packets st + pc_packets (snd e) \<le> u64_max"
  shows "source_packets (merge_entry cap second now e st) = source_packets st + pc_packets (snd e) \<and>
    distinct (map fst (ts_sources (merge_entry cap second now e st))) \<and>
    length (ts_sources (merge_entry cap second now e st)) \<le> cap"
proof -
  obtain ip c where e: "e = (ip, c)" by fastforce
  let ?sum = "sum_list (map (so_packets_total \<circ> snd) (ts_sources st))"
  show ?thesis
  proof (cases "map_of (ts_sources st) ip")
    case (Some s)
    have "so_packets_total s \<le> ?sum"
      using map_of_SomeD [OF Some] by (intro member_le_sum_list) (force, simp)
    then have "sat_add64 (so_packets_total s) (pc_packets c) = so_packets_total s + pc_packets c"
      using assms (3) e by (intro sat_add64_exact) (simp add: source_packets_def)
    with Some assms (1, 2) update_total [OF assms (1), of so_packets_total ip "merge_source c second now s"] e show ?thesis
      by (simp add: merge_entry_def source_packets_def merge_source_packets distinct_update update_length)
  next
    case None
    show ?thesis
    proof (cases "length (ts_sources st) < cap")
      case True
      with None assms update_total [OF assms (1), of so_packets_total ip "merge_source c second now (new_source now)"] e show ?thesis
        by (simp add: merge_entry_def source_packets_def merge_source_packets distinct_update update_length sat_add64_exact)
    next
      case False
      with None assms e show ?thesis
        by (auto simp: merge_entry_def source_packets_def merge_source_packets sat_add64_exact split: option.splits)
    qed
  qed
qed

lemma merge_fold_total:
  assumes "distinct (map fst (ts_sources st))" and "length (ts_sources st) \<le> cap"
    and "source_packets st + pending_packets ps \<le> u64_max"
  shows "source_packets (fold (merge_entry cap second now) ps st) = source_packets st + pending_packets ps \<and>
    distinct (map fst (ts_sources (fold (merge_entry cap second now) ps st))) \<and>
    length (ts_sources (fold (merge_entry cap second now) ps st)) \<le> cap"
  using assms
proof (induction ps arbitrary: st)
  case (Cons p ps)
  have p: "pending_packets (p # ps) = pc_packets (snd p) + pending_packets ps" by (simp add: pending_packets_def)
  note step = merge_entry_total [OF Cons.prems (1, 2), of p second now]
  with Cons.prems (3) Cons.IH [of "merge_entry cap second now p st"] show ?case by (simp add: p)
qed (simp add: pending_packets_def)

text \<open>The packets of the sources that a collection at \<open>now\<close> forgets.\<close>

definition forgotten :: "nat \<Rightarrow> nat \<Rightarrow> topology_state \<Rightarrow> nat" where
  "forgotten ttl now st =
     sum_list (map (so_packets_total \<circ> snd) (filter (\<lambda>e. \<not> now - so_last_observed (snd e) \<le> ttl) (ts_sources st)))"

lemma filter_split_sum: "sum_list (map f (filter P xs)) + sum_list (map f (filter (\<lambda>x. \<not> P x) xs)) = (sum_list (map f xs) :: nat)"
  by (induction xs) auto

lemma retain_total: "source_packets (retain_sources ttl now st) + forgotten ttl now st = source_packets st"
  using filter_split_sum [of "so_packets_total \<circ> snd" "\<lambda>e. now - so_last_observed (snd e) \<le> ttl" "ts_sources st"]
  by (simp add: source_packets_def retain_sources_def forgotten_def)

lemma retain_distinct:
  "distinct (map fst (ts_sources st)) \<Longrightarrow> distinct (map fst (ts_sources (retain_sources ttl now st)))"
  "length (ts_sources (retain_sources ttl now st)) \<le> length (ts_sources st)"
  by (simp_all add: retain_sources_def distinct_map_filter)

definition merge_forgets :: "nat \<Rightarrow> (u32 \<times> pending_counters) list \<Rightarrow> topology_tracker \<Rightarrow> nat" where
  "merge_forgets now ps t = (if ps \<noteq> [] \<and> gc_due now t then forgotten (tt_source_ttl t) now (tt_state t) else 0)"

lemma merge_batch_total:
  assumes "tracker_ok t" and "source_packets (tt_state t) + pending_packets ps \<le> u64_max"
  shows "source_packets (tt_state (merge_batch now second ps t)) + merge_forgets now ps t =
      source_packets (tt_state t) + pending_packets ps \<and> tracker_ok (merge_batch now second ps t) \<and>
      tt_max_sources (merge_batch now second ps t) = tt_max_sources t"
proof (cases "ps = []")
  case True
  with assms show ?thesis by (simp add: merge_batch_def merge_forgets_def pending_packets_def)
next
  case False
  define st where "st = (if gc_due now t then retain_sources (tt_source_ttl t) now (tt_state t) else tt_state t)"
  have st: "source_packets st + merge_forgets now ps t = source_packets (tt_state t)"
    using False retain_total by (simp add: st_def merge_forgets_def)
  have ok: "distinct (map fst (ts_sources st))" "length (ts_sources st) \<le> tt_max_sources t"
    using assms (1) by (auto simp: st_def tracker_ok_def retain_distinct (1) intro: le_trans [OF retain_distinct (2)])
  from merge_fold_total [OF ok, of ps second now] st assms (2) False show ?thesis
    by (simp add: merge_batch_def st_def [symmetric] Let_def tracker_ok_def)
qed

lemma count_source_total:
  assumes "distinct (map fst ps)" and "pending_packets ps < u64_max"
  shows "pending_packets (count_source ts len ip ps) = pending_packets ps + 1 \<and> distinct (map fst (count_source ts len ip ps))"
proof -
  have "pc_packets c \<le> pending_packets ps" if "map_of ps ip = Some c" for c
    unfolding pending_packets_def using map_of_SomeD [OF that] by (intro member_le_sum_list) (force, simp)
  moreover define e where "e = (case map_of ps ip of Some c \<Rightarrow> c | None \<Rightarrow> default_counters)"
  ultimately have sat: "sat_add64 (pc_packets e) 1 = pc_packets e + 1"
    using assms (2) by (intro sat_add64_exact) (auto simp: default_counters_def split: option.splits)
  have "(case map_of ps ip of Some w \<Rightarrow> pc_packets w | None \<Rightarrow> 0) = pc_packets e"
    by (simp add: e_def default_counters_def split: option.splits)
  then have "sum_list (map (pc_packets \<circ> snd) (AList.update ip v ps)) + pc_packets e = sum_list (map (pc_packets \<circ> snd) ps) + pc_packets v" for v
    using update_total [OF assms (1), of pc_packets ip v] by simp
  from this [of "e\<lparr>pc_packets := pc_packets e + 1, pc_bytes := sat_add64 (pc_bytes e) len, pc_last_packet_ts_ns := max (pc_last_packet_ts_ns e) ts\<rparr>"]
  show ?thesis using assms (1) sat
    by (simp add: count_source_def Let_def pending_packets_def distinct_update e_def [symmetric])
qed

subsection \<open>Several workers and one tracker\<close>

datatype topo_event =
    Observe nat topo_clock nat nat u32
  | FlushDue nat topo_clock
  | DropObserver nat topo_clock
  | TakeSnapshot nat nat

record topo_system =
  sy_observers :: "local_observer list"
  sy_tracker :: topology_tracker

definition with_observer ::
  "nat \<Rightarrow> (local_observer \<Rightarrow> topology_tracker \<Rightarrow> local_observer \<times> topology_tracker) \<Rightarrow> topo_system \<Rightarrow> topo_system" where
  "with_observer w f sy =
     (if w < length (sy_observers sy)
      then let (lo, t) = f (sy_observers sy ! w) (sy_tracker sy)
           in \<lparr>sy_observers = (sy_observers sy)[w := lo], sy_tracker = t\<rparr>
      else sy)"

fun topo_step :: "topo_event \<Rightarrow> topo_system \<Rightarrow> topo_system" where
  "topo_step (Observe w ck ts len ip) sy = with_observer w (observe_ipv4_source ck ts len ip) sy"
| "topo_step (FlushDue w ck) sy = with_observer w (flush_if_due ck) sy"
| "topo_step (DropObserver w ck) sy =
     (if w < length (sy_observers sy)
      then \<lparr>sy_observers = take w (sy_observers sy) @ drop (Suc w) (sy_observers sy),
             sy_tracker = drop_observer ck (sy_observers sy ! w) (sy_tracker sy)\<rparr>
      else sy)"
| "topo_step (TakeSnapshot now now_second) sy = sy\<lparr>sy_tracker := snd (snapshot now now_second (sy_tracker sy))\<rparr>"

text \<open>
  An observer that is dropped hands over its batch and leaves the list; the numbers of those behind it move up.
  What an event adds to the observed packets.
\<close>

definition observed :: "topo_event \<Rightarrow> topo_system \<Rightarrow> nat" where
  "observed e sy = (case e of Observe w _ _ _ _ \<Rightarrow> if w < length (sy_observers sy) then 1 else 0 | _ \<Rightarrow> 0)"

definition held :: "topo_system \<Rightarrow> nat" where
  "held sy = source_packets (tt_state (sy_tracker sy)) + sum_list (map (pending_packets \<circ> lo_pending) (sy_observers sy))"

definition system_ok :: "topo_system \<Rightarrow> bool" where
  "system_ok sy \<longleftrightarrow> tracker_ok (sy_tracker sy) \<and>
     (\<forall>lo \<in> set (sy_observers sy). distinct (map fst (lo_pending lo)) \<and> length (lo_pending lo) < max_local_sources_before_flush)"

lemma flush_observer_total:
  assumes "tracker_ok t" and "source_packets (tt_state t) + pending_packets (lo_pending lo) \<le> u64_max"
    and "flush_observer ck lo t = (lo', t')"
  shows "lo_pending lo' = [] \<and> tracker_ok t' \<and>
    source_packets (tt_state t') + merge_forgets (ck_merge ck) (lo_pending lo) t = source_packets (tt_state t) + pending_packets (lo_pending lo)"
  using assms merge_batch_total [OF assms (1, 2), of "ck_merge ck" "ck_second ck"] by (auto simp: flush_observer_def)

lemma rates_packets: "so_packets_total (snd (rates n s)) = so_packets_total s"
  by (simp add: rates_def Let_def trim_buckets_def)

lemma snapshot_total:
  assumes "tracker_ok t" and "snapshot now sec t = (sn, t')"
  shows "tracker_ok t' \<and> source_packets (tt_state t') + forgotten (tt_source_ttl t) now (tt_state t) = source_packets (tt_state t)"
proof -
  let ?r = "retain_sources (tt_source_ttl t) now (tt_state t)"
  have "map (so_packets_total \<circ> snd) (ts_sources (tt_state t')) = map (so_packets_total \<circ> snd) (ts_sources ?r)"
    "map fst (ts_sources (tt_state t')) = map fst (ts_sources ?r)" "length (ts_sources (tt_state t')) = length (ts_sources ?r)"
    "(case ts_overflow (tt_state t') of None \<Rightarrow> 0 | Some s \<Rightarrow> so_packets_total s) = (case ts_overflow ?r of None \<Rightarrow> 0 | Some s \<Rightarrow> so_packets_total s)"
    "tt_max_sources t' = tt_max_sources t"
    using assms (2) by (auto simp: snapshot_def Let_def rates_packets o_def case_prod_beta split: prod.splits option.splits)
  with assms (1) retain_total [of "tt_source_ttl t" now "tt_state t"] retain_distinct [where st = "tt_state t" and ttl = "tt_source_ttl t" and now = now] show ?thesis
    by (auto simp: tracker_ok_def source_packets_def [of "tt_state t'"] source_packets_def [of ?r])
qed

abbreviation limits :: "topology_tracker \<Rightarrow> nat \<times> nat" where
  "limits t \<equiv> (tt_source_ttl t, tt_max_sources t)"

text \<open>The clock reading at which an event may forget sources.\<close>

definition event_now :: "topo_event \<Rightarrow> nat" where
  "event_now e = (case e of Observe _ ck _ _ _ \<Rightarrow> ck_merge ck | FlushDue _ ck \<Rightarrow> ck_merge ck | DropObserver _ ck \<Rightarrow> ck_merge ck | TakeSnapshot now _ \<Rightarrow> now)"

lemma forgotten_none: "now \<le> ttl \<Longrightarrow> forgotten ttl now st = 0"
proof -
  assume "now \<le> ttl"
  then have "now - x \<le> ttl" for x by simp
  then show ?thesis by (simp add: forgotten_def)
qed

text \<open>Two results of one call: what an observer and the tracker hold together afterwards.\<close>

definition observer_moves :: "nat \<Rightarrow> nat \<Rightarrow> local_observer \<Rightarrow> topology_tracker \<Rightarrow> local_observer \<times> topology_tracker \<Rightarrow> bool" where
  "observer_moves now n lo t r \<longleftrightarrow> (case r of (lo', t') \<Rightarrow>
     tracker_ok t' \<and> limits t' = limits t \<and>
     distinct (map fst (lo_pending lo')) \<and> length (lo_pending lo') < max_local_sources_before_flush \<and>
     source_packets (tt_state t') + pending_packets (lo_pending lo') \<le> source_packets (tt_state t) + pending_packets (lo_pending lo) + n \<and>
     (now \<le> tt_source_ttl t \<longrightarrow>
        source_packets (tt_state t') + pending_packets (lo_pending lo') = source_packets (tt_state t) + pending_packets (lo_pending lo) + n))"

lemma observer_flush_moves:
  assumes "tracker_ok t" and "source_packets (tt_state t) + pending_packets (lo_pending lo) \<le> u64_max"
  shows "observer_moves (ck_merge ck) 0 lo t (flush_observer ck lo t)"
proof -
  obtain lo' t' where f: "flush_observer ck lo t = (lo', t')" by fastforce
  have "limits t' = limits t"
    using f by (auto simp: flush_observer_def merge_batch_def Let_def)
  moreover have "merge_forgets (ck_merge ck) (lo_pending lo) t = 0" if "ck_merge ck \<le> tt_source_ttl t"
    using that by (simp add: merge_forgets_def forgotten_none)
  ultimately show ?thesis
    using flush_observer_total [OF assms f] by (auto simp: observer_moves_def f pending_packets_def)
qed

lemma observe_moves:
  assumes "tracker_ok t" and "distinct (map fst (lo_pending lo))"
    and "source_packets (tt_state t) + pending_packets (lo_pending lo) < u64_max"
  shows "observer_moves (ck_merge ck) 1 lo t (observe_ipv4_source ck ts len ip lo t)"
proof -
  define lo1 where "lo1 = lo\<lparr>lo_pending := count_source ts len ip (lo_pending lo)\<rparr>"
  have lo1: "pending_packets (lo_pending lo1) = pending_packets (lo_pending lo) + 1" "distinct (map fst (lo_pending lo1))"
    using count_source_total [OF assms (2), of ts len ip] assms (3) by (simp_all add: lo1_def)
  have "observer_moves (ck_merge ck) 0 lo1 t (flush_observer ck lo1 t)"
    by (rule observer_flush_moves [OF assms (1)]) (use assms (3) lo1 (1) in simp)
  then show ?thesis
    using lo1 assms (1) by (auto simp: observe_ipv4_source_def lo1_def [symmetric] observer_moves_def)
qed

lemma flush_due_moves:
  assumes "tracker_ok t" and "distinct (map fst (lo_pending lo))" and "length (lo_pending lo) < max_local_sources_before_flush"
    and "source_packets (tt_state t) + pending_packets (lo_pending lo) \<le> u64_max"
  shows "observer_moves (ck_merge ck) 0 lo t (flush_if_due ck lo t)"
  using observer_flush_moves [OF assms (1, 4), of ck] assms (1-3) by (auto simp: flush_if_due_def observer_moves_def)

lemma with_observer_moves:
  assumes "system_ok sy" and "w < length (sy_observers sy)"
    and "observer_moves now n (sy_observers sy ! w) (sy_tracker sy) (f (sy_observers sy ! w) (sy_tracker sy))"
  shows "system_ok (with_observer w f sy) \<and> limits (sy_tracker (with_observer w f sy)) = limits (sy_tracker sy) \<and>
    length (sy_observers (with_observer w f sy)) = length (sy_observers sy) \<and>
    held (with_observer w f sy) \<le> held sy + n \<and> (now \<le> tt_source_ttl (sy_tracker sy) \<longrightarrow> held (with_observer w f sy) = held sy + n)"
proof -
  obtain lo' t' where f: "f (sy_observers sy ! w) (sy_tracker sy) = (lo', t')" by fastforce
  let ?g = "pending_packets \<circ> lo_pending"
  have sum: "sum_list (map ?g ((sy_observers sy)[w := lo'])) + ?g (sy_observers sy ! w) = sum_list (map ?g (sy_observers sy)) + ?g lo'"
    using assms (2) member_le_sum_list [of "?g (sy_observers sy ! w)" "map ?g (sy_observers sy)"]
    by (simp add: map_update sum_list_update)
  have "set ((sy_observers sy)[w := lo']) \<subseteq> insert lo' (set (sy_observers sy))" by (rule set_update_subset_insert)
  then have "system_ok (with_observer w f sy)"
    using assms f by (auto simp: system_ok_def with_observer_def observer_moves_def)
  then show ?thesis
    using assms (2, 3) f sum by (auto simp: with_observer_def observer_moves_def held_def)
qed

lemma drop_observer_moves:
  fixes ck
  assumes "system_ok sy" and "w < length (sy_observers sy)" and "held sy \<le> u64_max"
  defines "sy' \<equiv> topo_step (DropObserver w ck) sy"
  shows "system_ok sy' \<and> limits (sy_tracker sy') = limits (sy_tracker sy) \<and> held sy' \<le> held sy \<and>
    (ck_merge ck \<le> tt_source_ttl (sy_tracker sy) \<longrightarrow> held sy' = held sy)"
proof -
  let ?lo = "sy_observers sy ! w" and ?g = "pending_packets \<circ> lo_pending"
  have parts: "sy_observers sy = take w (sy_observers sy) @ ?lo # drop (Suc w) (sy_observers sy)"
    by (rule id_take_nth_drop [OF assms (2)])
  have split: "sum_list (map ?g (sy_observers sy)) =
      sum_list (map ?g (take w (sy_observers sy))) + ?g ?lo + sum_list (map ?g (drop (Suc w) (sy_observers sy)))"
    by (subst parts) simp
  obtain lo' t' where f: "flush_observer ck ?lo (sy_tracker sy) = (lo', t')" by fastforce
  have t: "tracker_ok (sy_tracker sy)" using assms (1) by (simp add: system_ok_def)
  have "source_packets (tt_state (sy_tracker sy)) + pending_packets (lo_pending ?lo) \<le> u64_max"
    using split assms (3) by (simp add: held_def)
  from observer_flush_moves [OF t this, of ck] flush_observer_total [OF t this f] f
  have m: "observer_moves (ck_merge ck) 0 ?lo (sy_tracker sy) (lo', t')" "lo_pending lo' = []" by simp_all
  have "set (take w (sy_observers sy) @ drop (Suc w) (sy_observers sy)) \<subseteq> set (sy_observers sy)"
    by (auto dest: in_set_takeD in_set_dropD)
  then show ?thesis
    using m f split assms (1, 2) by (auto simp: sy'_def drop_observer_def observer_moves_def system_ok_def held_def pending_packets_def)
qed

lemma topo_step_counts:
  assumes "system_ok sy" and "held sy + observed e sy \<le> u64_max"
  shows "system_ok (topo_step e sy) \<and> limits (sy_tracker (topo_step e sy)) = limits (sy_tracker sy) \<and>
    held (topo_step e sy) \<le> held sy + observed e sy \<and>
    (event_now e \<le> tt_source_ttl (sy_tracker sy) \<longrightarrow> held (topo_step e sy) = held sy + observed e sy)"
proof -
  have one: "source_packets (tt_state (sy_tracker sy)) + pending_packets (lo_pending (sy_observers sy ! w)) \<le> held sy"
    if "w < length (sy_observers sy)" for w
    using that member_le_sum_list [of "pending_packets (lo_pending (sy_observers sy ! w))" "map (pending_packets \<circ> lo_pending) (sy_observers sy)"]
    by (auto simp: held_def)
  have ok: "tracker_ok (sy_tracker sy)" "w < length (sy_observers sy) \<Longrightarrow> distinct (map fst (lo_pending (sy_observers sy ! w))) \<and>
      length (lo_pending (sy_observers sy ! w)) < max_local_sources_before_flush" for w
    using assms (1) by (auto simp: system_ok_def)
  show ?thesis
  proof (cases e)
    case (Observe w ck ts len ip)
    show ?thesis
    proof (cases "w < length (sy_observers sy)")
      case True
      have "observer_moves (ck_merge ck) 1 (sy_observers sy ! w) (sy_tracker sy) (observe_ipv4_source ck ts len ip (sy_observers sy ! w) (sy_tracker sy))"
        by (rule observe_moves) (use ok True one [OF True] assms (2) Observe in \<open>auto simp: observed_def\<close>)
      from with_observer_moves [where f = "observe_ipv4_source ck ts len ip", OF assms (1) True this] Observe True show ?thesis by (simp add: observed_def event_now_def)
    next
      case False
      with Observe assms show ?thesis by (simp add: observed_def with_observer_def)
    qed
  next
    case (FlushDue w ck)
    show ?thesis
    proof (cases "w < length (sy_observers sy)")
      case True
      have "observer_moves (ck_merge ck) 0 (sy_observers sy ! w) (sy_tracker sy) (flush_if_due ck (sy_observers sy ! w) (sy_tracker sy))"
        by (rule flush_due_moves) (use ok True one [OF True] assms (2) in auto)
      from with_observer_moves [where f = "flush_if_due ck", OF assms (1) True this] FlushDue True show ?thesis by (simp add: observed_def event_now_def)
    next
      case False
      with FlushDue assms show ?thesis by (simp add: observed_def with_observer_def)
    qed
  next
    case (DropObserver w ck)
    show ?thesis
    proof (cases "w < length (sy_observers sy)")
      case True
      from drop_observer_moves [OF assms (1) True, of ck] assms (2) DropObserver show ?thesis by (simp add: observed_def event_now_def)
    next
      case False
      with DropObserver assms show ?thesis by (simp add: observed_def)
    qed
  next
    case (TakeSnapshot now sec)
    obtain sn t' where s: "snapshot now sec (sy_tracker sy) = (sn, t')" by fastforce
    have "limits t' = limits (sy_tracker sy)" using s by (auto simp: snapshot_def Let_def split: prod.splits)
    with TakeSnapshot s snapshot_total [OF ok (1) s] assms (1) forgotten_none [of now "tt_source_ttl (sy_tracker sy)"] show ?thesis
      by (auto simp: observed_def event_now_def held_def system_ok_def)
  qed
qed

subsection \<open>Properties\<close>

fun run_topology :: "topo_event list \<Rightarrow> topo_system \<Rightarrow> nat \<times> topo_system" where
  "run_topology [] sy = (0, sy)"
| "run_topology (e # es) sy =
     (let (n, sy') = run_topology es (topo_step e sy) in (observed e sy + n, sy'))"

lemma observed_le: "observed e sy \<le> 1"
  by (simp add: observed_def split: topo_event.splits)

lemma run_topology_counts:
  assumes "system_ok sy" and "held sy + length es \<le> u64_max" and "run_topology es sy = (n, sy')"
  shows "system_ok sy' \<and> limits (sy_tracker sy') = limits (sy_tracker sy) \<and> held sy' \<le> held sy + n \<and>
    ((\<forall>e \<in> set es. event_now e \<le> tt_source_ttl (sy_tracker sy)) \<longrightarrow> held sy' = held sy + n)"
  using assms
proof (induction es arbitrary: sy n)
  case (Cons e es)
  obtain m where r: "run_topology es (topo_step e sy) = (m, sy')" "n = observed e sy + m"
    using Cons.prems (3) by (auto simp: Let_def split: prod.splits)
  have "held sy + observed e sy \<le> u64_max" using Cons.prems (2) observed_le [of e sy] by simp
  note step = topo_step_counts [OF Cons.prems (1) this]
  have "held (topo_step e sy) + length es \<le> u64_max" using step Cons.prems (2) observed_le [of e sy] by simp
  from Cons.IH [OF _ this r (1)] step r (2) show ?case by auto
qed simp

text \<open>C34: the topology counts every observed packet once, whatever the interleaving of workers, flushes, collections,
  snapshots and workers that stop. The packets in the tracker (tracked sources and the overflow bucket) and in the observers'
  batches are never more than were observed, and exactly as many while no collection runs later than the time
  to live; the tracker never holds more than its capacity of sources, and no observer batches 4096 or more.\<close>

theorem topology_counts:
  assumes "length es \<le> u64_max"
    and "run_topology es \<lparr>sy_observers = replicate k (new_observer mac now), sy_tracker = new_tracker pfx ttl cap\<rparr> = (n, sy)"
  shows "held sy \<le> n \<and> ((\<forall>e \<in> set es. event_now e \<le> ttl) \<longrightarrow> held sy = n) \<and>
    length (ts_sources (tt_state (sy_tracker sy))) \<le> max cap 1 \<and>
    (\<forall>lo \<in> set (sy_observers sy). length (lo_pending lo) < 4096)"
proof -
  let ?sy = "\<lparr>sy_observers = replicate k (new_observer mac now), sy_tracker = new_tracker pfx ttl cap\<rparr>"
  have "system_ok ?sy" by (auto simp: system_ok_def tracker_ok_def new_tracker_def new_observer_def)
  moreover have "held ?sy = 0" by (simp add: held_def source_packets_def new_tracker_def new_observer_def pending_packets_def o_def)
  ultimately show ?thesis
    using run_topology_counts [OF _ _ assms (2)] assms (1) by (auto simp: system_ok_def tracker_ok_def new_tracker_def)
qed

definition example_clock :: "nat \<Rightarrow> topo_clock" where
  "example_clock now = \<lparr>ck_elapsed = now, ck_merge = now, ck_second = 1, ck_flush = now\<rparr>"

text \<open>Three packets of two sources at two workers; the first worker flushes, the second
  one stops, the tracker has room for one source.\<close>

definition example_topology :: "topo_event list" where
  "example_topology = [Observe 0 (example_clock 1) 7 60 10, Observe 1 (example_clock 2) 8 60 11, Observe 0 (example_clock 3) 9 60 11,
     FlushDue 0 (example_clock 250000000), TakeSnapshot 250000001 1, DropObserver 1 (example_clock 250000002)]"

theorem topology_counts_witness:
  "held (snd (run_topology example_topology \<lparr>sy_observers = replicate 2 (new_observer None 0), sy_tracker = new_tracker 24 900000000 1\<rparr>)) = 3"
proof -
  let ?sy = "\<lparr>sy_observers = replicate 2 (new_observer None 0), sy_tracker = new_tracker 24 900000000 1\<rparr>"
  obtain n sy where r: "run_topology example_topology ?sy = (n, sy)" by fastforce
  have "n = fst (run_topology example_topology ?sy)" by (simp only: r fst_conv)
  also have "\<dots> = 3"
    by (simp add: example_topology_def observed_def with_observer_def Let_def case_prod_beta)
  finally have "n = 3" .
  moreover have "\<forall>e \<in> set example_topology. event_now e \<le> 900000000"
    by (simp add: example_topology_def event_now_def example_clock_def)
  moreover have "length example_topology \<le> u64_max" by (simp add: example_topology_def)
  ultimately have "held sy = 3" using topology_counts [OF _ r] by blast
  then show ?thesis by (simp only: r snd_conv)
qed

end
