(* ===== verification/Throttle.thy ===== *)
theory Throttle
  imports Topology
begin

text \<open>
  Targets of the throttle rules of \<open>src/src/topology.rs\<close> (\<open>Ipv4Target\<close>): their text is read and written, and
  reading what was written gives the target back.
\<close>

subsection \<open>Targets\<close>

record ipv4_target =
  it_network :: u32
  it_prefix :: nat

datatype throttle_error =
    InvalidPrefix | PrefixRange | InvalidAddress
  | DropPercentRange | TtlRange | NotConfigured | BackendFailed

text \<open>\<open>Ipv4Addr::from_str\<close>: four decimal octets without leading zeros.\<close>

definition parse_octet :: "bytes \<Rightarrow> nat option" where
  "parse_octet bs =
     (if bs = [] \<or> length bs > 3 \<or> \<not> list_all is_digit bs \<or> (length bs > 1 \<and> hd bs = 48) \<or> decimal_value bs > 255
      then None else Some (decimal_value bs))"

definition parse_ipv4 :: "bytes \<Rightarrow> u32 option" where
  "parse_ipv4 bs =
     (case split_on 46 bs of
        [a, b, c, d] \<Rightarrow> do {
          a \<leftarrow> parse_octet a; b \<leftarrow> parse_octet b; c \<leftarrow> parse_octet c; d \<leftarrow> parse_octet d;
          Some (of_nat (((a * 256 + b) * 256 + c) * 256 + d)) }
      | _ \<Rightarrow> None)"

text \<open>\<open>parse::<u8>\<close>: digits with an optional plus sign.\<close>

definition parse_u8 :: "bytes \<Rightarrow> nat option" where
  "parse_u8 bs =
     (let digits = (if bs \<noteq> [] \<and> hd bs = 43 then tl bs else bs) in
      if digits = [] \<or> \<not> list_all is_digit digits \<or> decimal_value digits > 255 then None else Some (decimal_value digits))"

fun split_once :: "byte \<Rightarrow> bytes \<Rightarrow> (bytes \<times> bytes) option" where
  "split_once c [] = None"
| "split_once c (x # xs) = (if x = c then Some ([], xs) else map_option (\<lambda>(a, b). (x # a, b)) (split_once c xs))"

definition parse_target :: "bytes \<Rightarrow> throttle_error + ipv4_target" where
  "parse_target val =
     (let trimmed = trim val in
      and_then
        (case split_once 47 trimmed of
           Some (ip, prefix_text) \<Rightarrow>
             (case parse_u8 prefix_text of
                None \<Rightarrow> Inl InvalidPrefix
              | Some n \<Rightarrow> if n > 32 then Inl PrefixRange else Inr (ip, n))
         | None \<Rightarrow> Inr (trimmed, 32))
        (\<lambda>(ip_raw, n).
           case parse_ipv4 ip_raw of
             None \<Rightarrow> Inl InvalidAddress
           | Some ip \<Rightarrow> Inr \<lparr>it_network = network_for ip n, it_prefix = n\<rparr>))"

definition ipv4_text :: "u32 \<Rightarrow> bytes" where
  "ipv4_text ip =
     (let n = unat ip in
      as_bytes (decimal (n div 16777216)) @ 46 # as_bytes (decimal (n div 65536 mod 256)) @ 46 #
      as_bytes (decimal (n div 256 mod 256)) @ 46 # as_bytes (decimal (n mod 256)))"

definition canonical_target :: "ipv4_target \<Rightarrow> bytes" where
  "canonical_target t =
     (if it_prefix t = 32 then ipv4_text (it_network t)
      else ipv4_text (it_network t) @ 47 # as_bytes (decimal (it_prefix t)))"

text \<open>\<open>TopologyTracker::canonical_throttle_target\<close>; \<open>None\<close> as an error is the prefix that is neither.\<close>

definition canonical_throttle_target :: "topology_tracker \<Rightarrow> bytes \<Rightarrow> throttle_error option + bytes" where
  "canonical_throttle_target t val =
     (case parse_target val of
        Inl e \<Rightarrow> Inl (Some e)
      | Inr target \<Rightarrow>
          if it_prefix target \<noteq> tt_group_prefix_v4 t \<and> it_prefix target \<noteq> 32 then Inl None
          else Inr (canonical_target target))"

subsubsection \<open>Reading what was written\<close>

lemma decimal_no_zero: "0 < n \<Longrightarrow> hd (as_bytes (decimal n)) \<noteq> 48"
proof (induction n rule: decimal.induct)
  case (1 n)
  show ?case
  proof (cases "n < 10")
    case True
    have "(of_nat (of_char (digit n)) :: byte) \<noteq> 48"
    proof
      assume "(of_nat (of_char (digit n)) :: byte) = 48"
      then have "unat (of_nat (of_char (digit n)) :: byte) = 48" by simp
      with digit_byte [OF True] 1 (2) show False by simp
    qed
    with True show ?thesis by (subst decimal.simps) (simp add: as_bytes_def)
  next
    case False
    then have "as_bytes (decimal n) = as_bytes (decimal (n div 10)) @ [of_nat (of_char (digit (n mod 10)))]"
      by (subst decimal.simps) (simp add: as_bytes_def)
    moreover have "as_bytes (decimal (n div 10)) \<noteq> []" using decimal_digits by simp
    ultimately show ?thesis using 1 (1) False by simp
  qed
qed

lemma parse_octet_decimal: "n < 256 \<Longrightarrow> parse_octet (as_bytes (decimal n)) = Some n"
proof -
  assume n: "n < 256"
  then have "length (decimal n) \<le> 3" by (intro decimal_length) simp_all
  moreover have "\<not> (length (decimal n) > 1 \<and> hd (as_bytes (decimal n)) = 48)"
  proof (cases "n = 0")
    case True
    then show ?thesis by (simp add: decimal.simps)
  qed (use decimal_no_zero in auto)
  ultimately show ?thesis using n decimal_digits [of n] by (auto simp: parse_octet_def decimal_value_decimal)
qed

lemma digit_facts: "is_digit b \<Longrightarrow> graphic b \<and> b \<noteq> 46 \<and> b \<noteq> 47 \<and> b \<noteq> 43"
  by (auto simp: is_digit_def graphic_def word_le_nat_alt)

lemma decimal_facts:
  "c \<in> {46, 47, 43} \<Longrightarrow> c \<notin> set (as_bytes (decimal n))" "list_all graphic (as_bytes (decimal n))" "as_bytes (decimal n) \<noteq> []"
  using decimal_digits [of n] digit_facts by (auto simp: list_all_iff)

lemma octets_sum: "((n div 16777216 * 256 + n div 65536 mod 256) * 256 + n div 256 mod 256) * 256 + n mod 256 = (n :: nat)"
proof -
  have "n div 16777216 * 256 + n div 65536 mod 256 = n div 65536"
    using div_mult_mod_eq [of "n div 65536" 256] by (simp add: div_mult2_eq [symmetric])
  moreover have "n div 65536 * 256 + n div 256 mod 256 = n div 256"
    using div_mult_mod_eq [of "n div 256" 256] by (simp add: div_mult2_eq [symmetric])
  ultimately show ?thesis by simp
qed

lemma parse_ipv4_text: "parse_ipv4 (ipv4_text ip) = Some ip"
proof -
  let ?n = "unat ip"
  have "?n < 2 ^ 32" using unsigned_less [of ip] by simp
  then have a: "?n div 16777216 < 256" by (simp add: less_mult_imp_div_less)
  have "split_on 46 (ipv4_text ip) = [as_bytes (decimal (?n div 16777216)), as_bytes (decimal (?n div 65536 mod 256)),
      as_bytes (decimal (?n div 256 mod 256)), as_bytes (decimal (?n mod 256))]"
    by (simp add: ipv4_text_def Let_def split_on_append split_on_none decimal_facts)
  moreover have "(of_nat (((?n div 16777216 * 256 + ?n div 65536 mod 256) * 256 + ?n div 256 mod 256) * 256 + ?n mod 256) :: u32) = ip"
    unfolding octets_sum by simp
  ultimately show ?thesis
    unfolding parse_ipv4_def by (simp only: list.case parse_octet_decimal [OF a] parse_octet_decimal mod_less_divisor zero_less_numeral Option.bind.bind_lunit)
qed

lemma ipv4_text_facts: "47 \<notin> set (ipv4_text ip)" "list_all graphic (ipv4_text ip)"
  using decimal_facts by (auto simp: ipv4_text_def Let_def graphic_def [of 46])

lemma split_once_none: "c \<notin> set bs \<Longrightarrow> split_once c bs = None"
  by (induction bs) auto

lemma split_once_append: "c \<notin> set bs \<Longrightarrow> split_once c (bs @ c # xs) = Some (bs, xs)"
  by (induction bs) auto

lemma parse_u8_decimal: "n < 256 \<Longrightarrow> parse_u8 (as_bytes (decimal n)) = Some n"
proof -
  assume "n < 256"
  moreover have "hd (as_bytes (decimal n)) \<noteq> 43" using decimal_facts (1, 3) by (metis hd_in_set insert_iff)
  ultimately show ?thesis using decimal_digits [of n] decimal_facts (3) [of n]
    by (simp add: parse_u8_def Let_def decimal_value_decimal)
qed

text \<open>A target is well formed when its network is masked by its prefix.\<close>

definition target_ok :: "ipv4_target \<Rightarrow> bool" where
  "target_ok t \<longleftrightarrow> it_prefix t \<le> 32 \<and> network_for (it_network t) (it_prefix t) = it_network t"

lemma network_for_idem: "network_for (network_for ip n) n = network_for ip n"
  by (simp add: network_for_def Let_def and.assoc)

lemma parse_target_ok: "parse_target val = Inr t \<Longrightarrow> target_ok t"
  by (auto simp: parse_target_def Let_def target_ok_def and_then_Inr_iff network_for_idem split: option.splits if_splits)

lemma parse_canonical:
  assumes "target_ok t"
  shows "parse_target (canonical_target t) = Inr t"
proof (cases "it_prefix t = 32")
  case True
  with assms show ?thesis
    by (simp add: parse_target_def canonical_target_def graphic_trim ipv4_text_facts split_once_none parse_ipv4_text target_ok_def)
next
  case False
  have "list_all graphic (canonical_target t)"
    using False ipv4_text_facts (2) decimal_facts (2) by (simp add: canonical_target_def graphic_def [of 47])
  moreover have "it_prefix t < 256" "\<not> it_prefix t > 32" using assms by (auto simp: target_ok_def)
  ultimately show ?thesis
    using False assms
    by (simp add: parse_target_def canonical_target_def graphic_trim ipv4_text_facts split_once_append parse_u8_decimal parse_ipv4_text target_ok_def)
qed

text \<open>Whatever text a throttle target is accepted from, its network is masked by its prefix of at most 32, and
  reading its canonical text, the form the rule book, the audit trail and the rule snapshots show and a later
  request may send back, gives the same target.\<close>

theorem throttle_target_roundtrip:
  assumes "parse_target text = Inr t"
  shows "it_prefix t \<le> 32 \<and> network_for (it_network t) (it_prefix t) = it_network t \<and>
    parse_target (canonical_target t) = Inr t"
  using parse_target_ok [OF assms] parse_canonical by (simp add: target_ok_def)

theorem throttle_target_roundtrip_witness:
  "parse_target (as_bytes ''10.1.2.3/+24'') = Inr \<lparr>it_network = 0x0A010200, it_prefix = 24\<rparr> \<and>
   parse_target (canonical_target \<lparr>it_network = 0x0A010200, it_prefix = 24\<rparr>) = Inr \<lparr>it_network = 0x0A010200, it_prefix = 24\<rparr>"
proof
  have n: "network_for 0x0A010203 24 = 0x0A010200" by code_simp
  show p: "parse_target (as_bytes ''10.1.2.3/+24'') = Inr \<lparr>it_network = 0x0A010200, it_prefix = 24\<rparr>"
    by (simp add: parse_target_def as_bytes_def graphic_trim graphic_def parse_u8_def parse_ipv4_def parse_octet_def is_digit_def
      decimal_value_def n)
  show "parse_target (canonical_target \<lparr>it_network = 0x0A010200, it_prefix = 24\<rparr>) = Inr \<lparr>it_network = 0x0A010200, it_prefix = 24\<rparr>"
    using throttle_target_roundtrip [OF p] by blast
qed

end
