(* ===== verification/Throttle_Rules.thy ===== *)
theory Throttle_Rules
  imports Throttle
begin

text \<open>
  The throttle manager of \<open>src/src/topology.rs\<close> (\<open>ThrottleManager\<close>) with its rule book and audit trail, over
  the backend of \<open>src/native/throttle.c\<close>.

  The kernel's map of rules is foreign code: \<open>bpf_map\<close> holds its calls, which return an error number (0 is
  success) and the next kernel state, of any type. The map is a longest-prefix-match trie
  (\<open>BPF_MAP_TYPE_LPM_TRIE\<close>): \<open>bpf_entry\<close> is the value it stores for a prefix, and a lookup answers with the
  entry of the longest prefix that covers its key. \<open>bpf_law\<close> is what the kernel documents of them: an update that
  succeeds sets the entry of its prefix, a deletion that succeeds removes the entry of its prefix and no other,
  \<open>ENOENT\<close> says that the prefix has no entry, and a call that fails changes nothing. The program at the
  interface (\<open>src/native/throttle.bpf.c\<close>) is \<open>xdp_drops\<close>. Instants are in nanoseconds; wall clock readings are plain
  numbers. The manager serialises its operations with one lock, so a history is a list of whole operations.
\<close>

subsection \<open>The kernel's rules\<close>

record kernel_rule =
  kr_drop_percent :: nat
  kr_expires_at_ns :: nat
  kr_seen_packets :: nat
  kr_seen_bytes :: nat
  kr_dropped_packets :: nat
  kr_dropped_bytes :: nat

record 'k bpf_map =
  bpf_update :: "ipv4_target \<Rightarrow> kernel_rule \<Rightarrow> 'k \<Rightarrow> nat \<times> 'k"
  bpf_delete :: "ipv4_target \<Rightarrow> 'k \<Rightarrow> nat \<times> 'k"
  bpf_lookup :: "ipv4_target \<Rightarrow> 'k \<Rightarrow> kernel_rule option"
  bpf_entry :: "ipv4_target \<Rightarrow> 'k \<Rightarrow> kernel_rule option"

abbreviation enoent :: nat where "enoent \<equiv> 2"

text \<open>The longest prefix, of at most \<open>n\<close> bits, that covers an address and has an entry.\<close>

fun longest_match :: "(ipv4_target \<rightharpoonup> 'v) \<Rightarrow> u32 \<Rightarrow> nat \<Rightarrow> 'v option" where
  "longest_match entry ip 0 = entry \<lparr>it_network = network_for ip 0, it_prefix = 0\<rparr>"
| "longest_match entry ip (Suc n) =
     (case entry \<lparr>it_network = network_for ip (Suc n), it_prefix = Suc n\<rparr> of
        Some v \<Rightarrow> Some v
      | None \<Rightarrow> longest_match entry ip n)"

definition bpf_law :: "'k bpf_map \<Rightarrow> bool" where
  "bpf_law m \<longleftrightarrow>
     (\<forall>t k. target_ok t \<longrightarrow> bpf_lookup m t k = longest_match (\<lambda>s. bpf_entry m s k) (it_network t) (it_prefix t)) \<and>
     (\<forall>t v k e k'. target_ok t \<longrightarrow> bpf_update m t v k = (e, k') \<longrightarrow>
        (\<forall>s. target_ok s \<longrightarrow> bpf_entry m s k' = (if e = 0 \<and> s = t then Some v else bpf_entry m s k))) \<and>
     (\<forall>t k e k'. target_ok t \<longrightarrow> bpf_delete m t k = (e, k') \<longrightarrow>
        (e = enoent \<longrightarrow> bpf_entry m t k = None) \<and>
        (\<forall>s. target_ok s \<longrightarrow> bpf_entry m s k' = (if e = 0 \<and> s = t then None else bpf_entry m s k)))"

text \<open>The verdict of \<open>bazalt_throttle\<close> on a packet from \<open>ip\<close> at instant \<open>now\<close>, with the random number it draws.\<close>

definition xdp_drops :: "'k bpf_map \<Rightarrow> nat \<Rightarrow> u32 \<Rightarrow> nat \<Rightarrow> 'k \<Rightarrow> bool" where
  "xdp_drops m now ip sample k =
     (case bpf_lookup m \<lparr>it_network = ip, it_prefix = 32\<rparr> k of
        None \<Rightarrow> False
      | Some rule \<Rightarrow>
          if kr_drop_percent rule = 0 then False
          else if kr_expires_at_ns rule \<noteq> 0 \<and> now \<ge> kr_expires_at_ns rule then False
          else kr_drop_percent rule \<ge> 100 \<or> sample < kr_drop_percent rule * 4294967296 div 100)"

text \<open>\<open>pm_throttle_set_rule\<close> and \<open>pm_throttle_delete_rule\<close>, called with valid arguments.\<close>

definition expires_at_ns :: "nat \<Rightarrow> nat \<Rightarrow> nat" where
  "expires_at_ns now ttl_seconds =
     (let delta = (if ttl_seconds > u64_max div 1000000000 then u64_max else ttl_seconds * 1000000000)
      in if now > u64_max - delta then u64_max else now + delta)"

definition backend_set_rule ::
  "'k bpf_map \<Rightarrow> nat option \<Rightarrow> ipv4_target \<Rightarrow> nat \<Rightarrow> nat \<Rightarrow> 'k \<Rightarrow> bool \<times> 'k" where
  "backend_set_rule m kernel_now target drop_percent ttl_seconds k =
     (if it_prefix target > 32 \<or> drop_percent = 0 \<or> drop_percent > 100 \<or> ttl_seconds = 0 then (False, k)
      else
        (case kernel_now of
           None \<Rightarrow> (False, k)
         | Some now \<Rightarrow>
             let (e, k) = bpf_update m target
                   \<lparr>kr_drop_percent = drop_percent, kr_expires_at_ns = expires_at_ns now ttl_seconds,
                    kr_seen_packets = 0, kr_seen_bytes = 0, kr_dropped_packets = 0, kr_dropped_bytes = 0\<rparr> k
             in (e = 0, k)))"

definition backend_delete_rule :: "'k bpf_map \<Rightarrow> ipv4_target \<Rightarrow> 'k \<Rightarrow> bool \<times> 'k" where
  "backend_delete_rule m target k =
     (if it_prefix target > 32 then (False, k)
      else let (e, k) = bpf_delete m target k in (e = 0 \<or> e = enoent, k))"

subsection \<open>The rule book\<close>

record active_rule =
  ar_target :: ipv4_target
  ar_drop_percent :: nat
  ar_created_at :: nat
  ar_expires_at :: nat
  ar_expires_instant :: nat

datatype audit_action = AuditSet | AuditClear | AuditExpire

record audit_entry =
  ae_at :: nat
  ae_action :: audit_action
  ae_target :: bytes
  ae_drop_percent :: nat
  ae_ttl_seconds :: "nat option"

record rule_book =
  bk_rules :: "(ipv4_target \<times> active_rule) list"
  bk_audit :: "audit_entry list"

text \<open>The manager: \<open>th_kernel\<close> is \<open>Some\<close> when enforcement is configured (\<open>backend\<close>).\<close>

record 'k throttle =
  th_kernel :: "'k option"
  th_book :: rule_book

abbreviation max_audit_entries :: nat where "max_audit_entries \<equiv> 512"
abbreviation max_throttle_ttl_secs :: nat where "max_throttle_ttl_secs \<equiv> 3600"

definition new_throttle :: "'k option \<Rightarrow> 'k throttle" where
  "new_throttle k = \<lparr>th_kernel = k, th_book = \<lparr>bk_rules = [], bk_audit = []\<rparr>\<rparr>"

definition push_audit :: "audit_entry \<Rightarrow> audit_entry list \<Rightarrow> audit_entry list" where
  "push_audit e audit = (if length audit \<ge> max_audit_entries then tl audit else audit) @ [e]"

text \<open>The clock readings of an operation: wall clock, monotonic instant, the kernel call's clock.\<close>

record throttle_clock =
  tc_utc :: nat
  tc_instant :: nat
  tc_kernel :: "nat option"

subsection \<open>Operations\<close>

definition expired_targets :: "nat \<Rightarrow> rule_book \<Rightarrow> ipv4_target list" where
  "expired_targets now b = map fst (filter (\<lambda>e. ar_expires_instant (snd e) \<le> now) (bk_rules b))"

fun delete_rules :: "'k bpf_map \<Rightarrow> ipv4_target list \<Rightarrow> 'k \<Rightarrow> ipv4_target list \<times> 'k" where
  "delete_rules m [] k = ([], k)"
| "delete_rules m (t # ts) k =
     (let (ok, k) = backend_delete_rule m t k;
          (removable, k) = delete_rules m ts k
      in (if ok then t # removable else removable, k))"

definition remove_expired :: "nat \<Rightarrow> ipv4_target \<Rightarrow> rule_book \<Rightarrow> rule_book" where
  "remove_expired utc t b =
     (if map_of (bk_rules b) t = None then b
      else \<lparr>bk_rules = AList.delete t (bk_rules b),
            bk_audit = push_audit \<lparr>ae_at = utc, ae_action = AuditExpire, ae_target = canonical_target t,
                                   ae_drop_percent = 0, ae_ttl_seconds = None\<rparr> (bk_audit b)\<rparr>)"

definition prune_expired_locked :: "'k bpf_map \<Rightarrow> throttle_clock \<Rightarrow> 'k throttle \<Rightarrow> 'k throttle" where
  "prune_expired_locked m ck th =
     (let expired = expired_targets (tc_instant ck) (th_book th) in
      if expired = [] then th
      else
        let (removable, kernel) =
              (case th_kernel th of
                 Some k \<Rightarrow> (let (r, k) = delete_rules m expired k in (r, Some k))
               | None \<Rightarrow> (expired, None))
        in th\<lparr>th_kernel := kernel, th_book := fold (remove_expired (tc_utc ck)) removable (th_book th)\<rparr>)"

record rule_snapshot =
  rs_target :: bytes
  rs_drop_percent :: nat
  rs_created_at :: nat
  rs_expires_at :: nat
  rs_seen_packets :: nat
  rs_seen_bytes :: nat
  rs_dropped_packets :: nat
  rs_dropped_bytes :: nat

definition snapshot_rule :: "'k bpf_map \<Rightarrow> 'k throttle \<Rightarrow> active_rule \<Rightarrow> rule_snapshot" where
  "snapshot_rule m th rule =
     (let stats = Option.bind (th_kernel th) (bpf_lookup m (ar_target rule));
          stat = (\<lambda>f. case stats of Some v \<Rightarrow> f v | None \<Rightarrow> 0)
      in \<lparr>rs_target = canonical_target (ar_target rule), rs_drop_percent = ar_drop_percent rule,
          rs_created_at = ar_created_at rule, rs_expires_at = ar_expires_at rule,
          rs_seen_packets = stat kr_seen_packets, rs_seen_bytes = stat kr_seen_bytes,
          rs_dropped_packets = stat kr_dropped_packets, rs_dropped_bytes = stat kr_dropped_bytes\<rparr>)"

definition set_rule ::
  "'k bpf_map \<Rightarrow> throttle_clock \<Rightarrow> bytes \<Rightarrow> nat \<Rightarrow> nat \<Rightarrow> 'k throttle \<Rightarrow> (throttle_error + rule_snapshot) \<times> 'k throttle" where
  "set_rule m ck target_text drop_percent ttl_seconds th =
     (if \<not> (1 \<le> drop_percent \<and> drop_percent \<le> 100) then (Inl DropPercentRange, th)
      else if \<not> (1 \<le> ttl_seconds \<and> ttl_seconds \<le> max_throttle_ttl_secs) then (Inl TtlRange, th)
      else if th_kernel th = None then (Inl NotConfigured, th)
      else
        (case parse_target target_text of
           Inl e \<Rightarrow> (Inl e, th)
         | Inr target \<Rightarrow>
             let th = prune_expired_locked m ck th;
                 (ok, k) = backend_set_rule m (tc_kernel ck) target drop_percent ttl_seconds (the (th_kernel th));
                 th = th\<lparr>th_kernel := Some k\<rparr>
             in if \<not> ok then (Inl BackendFailed, th)
                else
                  let rule = \<lparr>ar_target = target, ar_drop_percent = drop_percent, ar_created_at = tc_utc ck,
                              ar_expires_at = tc_utc ck + ttl_seconds * 1000000000,
                              ar_expires_instant = tc_instant ck + ttl_seconds * 1000000000\<rparr>;
                      b = th_book th;
                      th = th\<lparr>th_book := \<lparr>bk_rules = AList.update target rule (bk_rules b),
                                bk_audit = push_audit \<lparr>ae_at = tc_utc ck, ae_action = AuditSet, ae_target = canonical_target target,
                                  ae_drop_percent = drop_percent, ae_ttl_seconds = Some ttl_seconds\<rparr> (bk_audit b)\<rparr>\<rparr>
                  in (Inr (snapshot_rule m th rule), th)))"

definition clear_rule :: "'k bpf_map \<Rightarrow> throttle_clock \<Rightarrow> bytes \<Rightarrow> 'k throttle \<Rightarrow> (throttle_error + bool) \<times> 'k throttle" where
  "clear_rule m ck target_text th =
     (case th_kernel th of
        None \<Rightarrow> (Inl NotConfigured, th)
      | Some k \<Rightarrow>
          (case parse_target target_text of
             Inl e \<Rightarrow> (Inl e, th)
           | Inr target \<Rightarrow>
               let (ok, k) = backend_delete_rule m target k; th = th\<lparr>th_kernel := Some k\<rparr> in
               if \<not> ok then (Inl BackendFailed, th)
               else
                 let b = th_book th
                 in (Inr (map_of (bk_rules b) target \<noteq> None),
                     th\<lparr>th_book := \<lparr>bk_rules = AList.delete target (bk_rules b),
                        bk_audit = push_audit \<lparr>ae_at = tc_utc ck, ae_action = AuditClear, ae_target = canonical_target target,
                          ae_drop_percent = 0, ae_ttl_seconds = None\<rparr> (bk_audit b)\<rparr>\<rparr>)))"

record throttle_snapshot =
  tn_available :: bool
  tn_rules :: "rule_snapshot list"
  tn_audit :: "audit_entry list"

definition throttle_snapshot_of :: "'k bpf_map \<Rightarrow> throttle_clock \<Rightarrow> 'k throttle \<Rightarrow> throttle_snapshot \<times> 'k throttle" where
  "throttle_snapshot_of m ck th =
     (let th = prune_expired_locked m ck th; b = th_book th
      in (\<lparr>tn_available = (th_kernel th \<noteq> None),
            tn_rules = sort_key rs_target (map (snapshot_rule m th \<circ> snd) (bk_rules b)),
            tn_audit = take 32 (rev (bk_audit b))\<rparr>, th))"

subsection \<open>Histories\<close>

text \<open>Between operations packets pass: the program at the interface counts them in the kernel's rules.\<close>

datatype 'k throttle_op =
    OpSet throttle_clock bytes nat nat
  | OpClear throttle_clock bytes
  | OpSnapshot throttle_clock
  | Traffic "'k \<Rightarrow> 'k"

fun throttle_step :: "'k bpf_map \<Rightarrow> 'k throttle_op \<Rightarrow> 'k throttle \<Rightarrow> 'k throttle" where
  "throttle_step m (OpSet ck text percent ttl) th = snd (set_rule m ck text percent ttl th)"
| "throttle_step m (OpClear ck text) th = snd (clear_rule m ck text th)"
| "throttle_step m (OpSnapshot ck) th = snd (throttle_snapshot_of m ck th)"
| "throttle_step m (Traffic f) th = th\<lparr>th_kernel := map_option f (th_kernel th)\<rparr>"

definition run_throttle :: "'k bpf_map \<Rightarrow> 'k throttle_op list \<Rightarrow> 'k throttle \<Rightarrow> 'k throttle" where
  "run_throttle m ops th = fold (throttle_step m) ops th"

text \<open>
  Traffic keeps what a rule says, and the kernel call of an operation reads its clock after the manager.
\<close>

definition same_rules :: "'k bpf_map \<Rightarrow> 'k \<Rightarrow> 'k \<Rightarrow> bool" where
  "same_rules m k k' \<longleftrightarrow>
     (\<forall>t. target_ok t \<longrightarrow> map_option (\<lambda>v. (kr_drop_percent v, kr_expires_at_ns v)) (bpf_entry m t k') =
          map_option (\<lambda>v. (kr_drop_percent v, kr_expires_at_ns v)) (bpf_entry m t k))"

fun op_law :: "'k bpf_map \<Rightarrow> 'k throttle_op \<Rightarrow> bool" where
  "op_law m (OpSet ck text percent ttl) = (case tc_kernel ck of Some n \<Rightarrow> tc_instant ck \<le> n | None \<Rightarrow> True)"
| "op_law m (Traffic f) = (\<forall>k. same_rules m k (f k))"
| "op_law m _ = True"

subsection \<open>Book and kernel\<close>

text \<open>
  A rule of the book and the rule of the kernel: the same share of packets, and a deadline of the kernel that is
  not before the one of the book.
\<close>

fun rule_matches :: "active_rule option \<Rightarrow> kernel_rule option \<Rightarrow> bool" where
  "rule_matches None None = True"
| "rule_matches (Some r) (Some v) =
     (kr_drop_percent v = ar_drop_percent r \<and> min u64_max (ar_expires_instant r) \<le> kr_expires_at_ns v)"
| "rule_matches _ _ = False"

definition rules_agree :: "'k bpf_map \<Rightarrow> (ipv4_target \<times> active_rule) list \<Rightarrow> 'k \<Rightarrow> bool" where
  "rules_agree m rules k \<longleftrightarrow> (\<forall>t. target_ok t \<longrightarrow> rule_matches (map_of rules t) (bpf_entry m t k))"

definition entry_ok :: "ipv4_target \<times> active_rule \<Rightarrow> bool" where
  "entry_ok e \<longleftrightarrow> target_ok (fst e) \<and> ar_target (snd e) = fst e \<and> 1 \<le> ar_drop_percent (snd e) \<and> ar_drop_percent (snd e) \<le> 100"

definition book_ok :: "rule_book \<Rightarrow> bool" where
  "book_ok b \<longleftrightarrow> distinct (map fst (bk_rules b)) \<and> list_all entry_ok (bk_rules b) \<and> length (bk_audit b) \<le> max_audit_entries"

definition throttle_ok :: "'k bpf_map \<Rightarrow> 'k throttle \<Rightarrow> bool" where
  "throttle_ok m th \<longleftrightarrow> book_ok (th_book th) \<and>
     (case th_kernel th of None \<Rightarrow> bk_rules (th_book th) = [] | Some k \<Rightarrow> rules_agree m (bk_rules (th_book th)) k)"

lemma push_audit_bound: "length audit \<le> max_audit_entries \<Longrightarrow> length (push_audit e audit) \<le> max_audit_entries"
  by (auto simp: push_audit_def)

lemma update_entries: "list_all P xs \<Longrightarrow> P (k, v) \<Longrightarrow> list_all P (AList.update k v xs)"
  by (induction xs) auto

lemma delete_entries: "list_all P xs \<Longrightarrow> list_all P (AList.delete k xs)"
  by (induction xs) auto

lemma book_ok_update:
  "book_ok b \<Longrightarrow> entry_ok (t, r) \<Longrightarrow>
   book_ok \<lparr>bk_rules = AList.update t r (bk_rules b), bk_audit = push_audit e (bk_audit b)\<rparr>"
  by (auto simp: book_ok_def distinct_update push_audit_bound intro: update_entries)

lemma book_ok_delete:
  "book_ok b \<Longrightarrow> book_ok \<lparr>bk_rules = AList.delete t (bk_rules b), bk_audit = push_audit e (bk_audit b)\<rparr>"
  by (auto simp: book_ok_def distinct_delete push_audit_bound intro: delete_entries)

subsubsection \<open>The calls of the backend\<close>

lemma bpf_law_update:
  "bpf_law m \<Longrightarrow> target_ok t \<Longrightarrow> target_ok s \<Longrightarrow> bpf_update m t v k = (e, k') \<Longrightarrow>
   bpf_entry m s k' = (if e = 0 \<and> s = t then Some v else bpf_entry m s k)"
  unfolding bpf_law_def by blast

lemma bpf_law_delete:
  "bpf_law m \<Longrightarrow> target_ok t \<Longrightarrow> bpf_delete m t k = (e, k') \<Longrightarrow> e = enoent \<Longrightarrow> bpf_entry m t k = None"
  "bpf_law m \<Longrightarrow> target_ok t \<Longrightarrow> target_ok s \<Longrightarrow> bpf_delete m t k = (e, k') \<Longrightarrow>
   bpf_entry m s k' = (if e = 0 \<and> s = t then None else bpf_entry m s k)"
  unfolding bpf_law_def by blast+

lemma backend_set_lookup:
  assumes "bpf_law m" and "target_ok target" and "backend_set_rule m kn target percent ttl k = (ok, k')"
  shows "\<not> ok \<Longrightarrow> target_ok t \<Longrightarrow> bpf_entry m t k' = bpf_entry m t k"
    and "ok \<Longrightarrow> \<exists>now v. kn = Some now \<and> kr_drop_percent v = percent \<and> kr_expires_at_ns v = expires_at_ns now ttl \<and>
           (\<forall>t. target_ok t \<longrightarrow> bpf_entry m t k' = (if t = target then Some v else bpf_entry m t k))"
proof -
  let ?v = "\<lambda>now. \<lparr>kr_drop_percent = percent, kr_expires_at_ns = expires_at_ns now ttl,
      kr_seen_packets = 0, kr_seen_bytes = 0, kr_dropped_packets = 0, kr_dropped_bytes = 0\<rparr>"
  note law = bpf_law_update [OF assms (1, 2)]
  show "\<not> ok \<Longrightarrow> target_ok t \<Longrightarrow> bpf_entry m t k' = bpf_entry m t k"
    using assms (3) law by (auto simp: backend_set_rule_def Let_def split: if_splits option.splits prod.splits)
  assume ok
  with assms (3) obtain now where now: "kn = Some now" "bpf_update m target (?v now) k = (0, k')"
    by (auto simp: backend_set_rule_def Let_def split: if_splits option.splits prod.splits)
  then show "\<exists>now v. kn = Some now \<and> kr_drop_percent v = percent \<and> kr_expires_at_ns v = expires_at_ns now ttl \<and>
           (\<forall>t. target_ok t \<longrightarrow> bpf_entry m t k' = (if t = target then Some v else bpf_entry m t k))"
    using law [OF _ now (2)] by (intro exI [of _ now] exI [of _ "?v now"]) simp
qed

lemma backend_delete_lookup:
  assumes "bpf_law m" and "target_ok target" and "target_ok t" and "backend_delete_rule m target k = (ok, k')"
  shows "bpf_entry m t k' = (if ok \<and> t = target then None else bpf_entry m t k)"
proof -
  obtain e k1 where d: "bpf_delete m target k = (e, k1)" by fastforce
  note law = bpf_law_delete (1) [OF assms (1, 2) d] bpf_law_delete (2) [OF assms (1, 2, 3) d]
  show ?thesis using assms (4) d law by (auto simp: backend_delete_rule_def split: if_splits)
qed

text \<open>Where two tables of rules agree, so do their longest matches.\<close>

lemma network_ok: "n \<le> 32 \<Longrightarrow> target_ok \<lparr>it_network = network_for ip n, it_prefix = n\<rparr>"
  by (simp add: target_ok_def network_for_idem)

lemma longest_match_agrees:
  assumes "\<And>t. target_ok t \<Longrightarrow> rule_matches (f t) (g t)" and "n \<le> 32"
  shows "rule_matches (longest_match f ip n) (longest_match g ip n)"
  using assms (2)
proof (induction n)
  case 0
  show ?case using assms (1) [OF network_ok [of 0 ip]] by simp
next
  case (Suc n)
  let ?t = "\<lparr>it_network = network_for ip (Suc n), it_prefix = Suc n\<rparr>"
  have "rule_matches (f ?t) (g ?t)" by (rule assms (1) [OF network_ok]) (rule Suc.prems)
  with Suc show ?case by (cases "f ?t"; cases "g ?t") auto
qed

lemma delete_rules_lookup:
  assumes "bpf_law m" and "delete_rules m ts k = (removable, k')" and "distinct ts" and "list_all target_ok ts" and "target_ok t"
  shows "set removable \<subseteq> set ts \<and> bpf_entry m t k' = (if t \<in> set removable then None else bpf_entry m t k)"
  using assms (2-4)
proof (induction ts arbitrary: k removable)
  case (Cons x ts)
  obtain ok k1 where d: "backend_delete_rule m x k = (ok, k1)" by fastforce
  obtain r where r: "delete_rules m ts k1 = (r, k')" "removable = (if ok then x # r else r)"
    using Cons.prems (1) d by (auto split: prod.splits)
  have x: "target_ok x" using Cons.prems (3) by simp
  note IH = Cons.IH [OF r (1)] and D = backend_delete_lookup [OF assms (1) x assms (5) d]
  show ?case using IH D r (2) Cons.prems (2, 3) by auto
qed simp

subsubsection \<open>Removal of expired rules\<close>

lemma remove_expired_book:
  assumes "book_ok b"
  shows "book_ok (remove_expired utc x b) \<and>
    map_of (bk_rules (remove_expired utc x b)) t = (if t = x then None else map_of (bk_rules b) t)"
  using assms book_ok_delete [OF assms] by (auto simp: remove_expired_def delete_conv)

lemma remove_all_book:
  assumes "book_ok b"
  shows "book_ok (fold (remove_expired utc) ts b) \<and>
    map_of (bk_rules (fold (remove_expired utc) ts b)) t = (if t \<in> set ts then None else map_of (bk_rules b) t)"
  using assms
proof (induction ts arbitrary: b)
  case (Cons x ts)
  with remove_expired_book [OF Cons.prems, of utc x] show ?case by auto
qed simp

lemma map_of_book: "book_ok b \<Longrightarrow> (t, r) \<in> set (bk_rules b) \<longleftrightarrow> map_of (bk_rules b) t = Some r"
  by (simp add: book_ok_def)

lemma expired_targets_iff:
  "book_ok b \<Longrightarrow> t \<in> set (expired_targets now b) \<longleftrightarrow> (\<exists>r. map_of (bk_rules b) t = Some r \<and> ar_expires_instant r \<le> now)"
  by (force simp: expired_targets_def map_of_book [symmetric])

lemma expired_targets_distinct: "book_ok b \<Longrightarrow> distinct (expired_targets now b)"
  by (simp add: expired_targets_def book_ok_def distinct_map_filter)

lemma delete_rules_all:
  "\<forall>t k. fst (bpf_delete m t k) \<in> {0, enoent} \<Longrightarrow> list_all (\<lambda>t. it_prefix t \<le> 32) ts \<Longrightarrow> fst (delete_rules m ts k) = ts"
proof (induction ts arbitrary: k)
  case (Cons t ts)
  have "fst (bpf_delete m t k) \<in> {0, enoent}" using Cons.prems (1) by blast
  with Cons.prems (2) have "fst (backend_delete_rule m t k)" by (auto simp: backend_delete_rule_def split: prod.splits)
  moreover have "fst (delete_rules m ts k') = ts" for k' using Cons by simp
  ultimately show ?case by (auto split: prod.splits) (metis fst_conv)
qed simp

lemma expired_targets_ok: "book_ok b \<Longrightarrow> list_all target_ok (expired_targets now b)"
  by (fastforce simp: expired_targets_def book_ok_def list_all_iff entry_ok_def)

lemma prune_ok:
  assumes "bpf_law m" and "throttle_ok m th"
  shows "throttle_ok m (prune_expired_locked m ck th)"
    and "(th_kernel (prune_expired_locked m ck th) = None) = (th_kernel th = None)"
proof -
  let ?x = "expired_targets (tc_instant ck) (th_book th)"
  note book = assms (2) [unfolded throttle_ok_def, THEN conjunct1]
  have "throttle_ok m (prune_expired_locked m ck th) \<and> (th_kernel (prune_expired_locked m ck th) = None) = (th_kernel th = None)"
  proof (cases "th_kernel th")
    case None
    with assms (2) show ?thesis by (simp add: throttle_ok_def prune_expired_locked_def expired_targets_def)
  next
    case (Some k)
    obtain removable k' where d: "delete_rules m ?x k = (removable, k')" by fastforce
    note D = delete_rules_lookup [OF assms (1) d expired_targets_distinct [OF book] expired_targets_ok [OF book]]
      and R = remove_all_book [OF book, of "tc_utc ck" removable]
    have "rules_agree m (bk_rules (th_book th)) k" using assms (2) Some by (simp add: throttle_ok_def)
    then have "rules_agree m (bk_rules (fold (remove_expired (tc_utc ck)) removable (th_book th))) k'"
      using D R by (simp add: rules_agree_def)
    with assms (2) Some d R show ?thesis by (simp add: prune_expired_locked_def throttle_ok_def Let_def)
  qed
  then show "throttle_ok m (prune_expired_locked m ck th)"
    "(th_kernel (prune_expired_locked m ck th) = None) = (th_kernel th = None)" by blast+
qed

lemma prune_expires:
  assumes "bpf_law m" and "throttle_ok m th" and del: "\<forall>t k. fst (bpf_delete m t k) \<in> {0, enoent}"
    and "map_of (bk_rules (th_book (prune_expired_locked m ck th))) t = Some r"
  shows "tc_instant ck < ar_expires_instant r"
proof -
  let ?x = "expired_targets (tc_instant ck) (th_book th)"
  note book = assms (2) [unfolded throttle_ok_def, THEN conjunct1]
  have "list_all (\<lambda>t. it_prefix t \<le> 32) ?x"
    using book by (fastforce simp: expired_targets_def book_ok_def list_all_iff entry_ok_def target_ok_def)
  then have "fst (delete_rules m ?x k) = ?x" for k using delete_rules_all [OF del] by blast
  then have "th_book (prune_expired_locked m ck th) = fold (remove_expired (tc_utc ck)) ?x (th_book th)"
    by (auto simp: prune_expired_locked_def Let_def split: option.splits prod.splits) (metis fst_conv)
  then have "t \<notin> set ?x \<and> map_of (bk_rules (th_book th)) t = Some r"
    using remove_all_book [OF book, of "tc_utc ck" ?x t] assms (4) by (auto split: if_splits)
  with expired_targets_iff [OF book] show ?thesis by (meson not_le)
qed

subsection \<open>Every operation\<close>

lemma expires_not_before:
  assumes "ttl \<le> max_throttle_ttl_secs" and "instant \<le> now"
  shows "min u64_max (instant + ttl * 1000000000) \<le> expires_at_ns now ttl"
  using assms by (auto simp: expires_at_ns_def Let_def)

lemma set_rule_ok:
  assumes law: "bpf_law m" and "throttle_ok m th" and "op_law m (OpSet ck text percent ttl)"
  shows "throttle_ok m (snd (set_rule m ck text percent ttl th))"
proof (cases "(1 \<le> percent \<and> percent \<le> 100) \<and> (1 \<le> ttl \<and> ttl \<le> max_throttle_ttl_secs) \<and> th_kernel th \<noteq> None \<and> (\<exists>t. parse_target text = Inr t)")
  case True
  then obtain t where t: "parse_target text = Inr t" by blast
  define th1 where "th1 = prune_expired_locked m ck th"
  have th1: "throttle_ok m th1" "th_kernel th1 \<noteq> None"
    using prune_ok [OF assms (1, 2), of ck] True by (simp_all add: th1_def)
  then obtain k where k: "th_kernel th1 = Some k" "rules_agree m (bk_rules (th_book th1)) k" "book_ok (th_book th1)"
    by (auto simp: throttle_ok_def)
  obtain ok k' where b: "backend_set_rule m (tc_kernel ck) t percent ttl k = (ok, k')" by fastforce
  note S = backend_set_lookup [OF law parse_target_ok [OF t] b]
  show ?thesis
  proof (cases ok)
    case False
    with True t k b S (1) show ?thesis by (auto simp: set_rule_def th1_def [symmetric] Let_def throttle_ok_def rules_agree_def)
  next
    case okT: True
    then obtain now v where v: "tc_kernel ck = Some now" "kr_drop_percent v = percent" "kr_expires_at_ns v = expires_at_ns now ttl"
      "\<And>s. target_ok s \<Longrightarrow> bpf_entry m s k' = (if s = t then Some v else bpf_entry m s k)"
      using S (2) by blast
    have "min u64_max (tc_instant ck + ttl * 1000000000) \<le> expires_at_ns now ttl"
      using expires_not_before assms (3) True v (1) by simp
    then show ?thesis
      using True t k b okT v parse_target_ok [OF t]
      by (auto simp: set_rule_def th1_def [symmetric] Let_def throttle_ok_def rules_agree_def update_conv' entry_ok_def intro!: book_ok_update)
  qed
qed (use assms (2) in \<open>auto simp: set_rule_def split: sum.splits\<close>)

lemma clear_rule_ok:
  assumes law: "bpf_law m" and "throttle_ok m th"
  shows "throttle_ok m (snd (clear_rule m ck text th))"
proof (cases "th_kernel th")
  case (Some k)
  with assms (2) have k: "book_ok (th_book th)" "rules_agree m (bk_rules (th_book th)) k" by (simp_all add: throttle_ok_def)
  show ?thesis
  proof (cases "parse_target text")
    case (Inr t)
    obtain ok k' where b: "backend_delete_rule m t k = (ok, k')" by fastforce
    note D = backend_delete_lookup [OF law parse_target_ok [OF Inr] _ b]
    show ?thesis
      using Some Inr b k D
      by (auto simp: clear_rule_def Let_def throttle_ok_def rules_agree_def delete_conv intro: book_ok_delete)
  qed (use Some assms (2) in \<open>simp add: clear_rule_def\<close>)
qed (use assms (2) in \<open>simp add: clear_rule_def\<close>)

lemma traffic_ok:
  assumes "throttle_ok m th" and "\<forall>k. same_rules m k (f k)"
  shows "throttle_ok m (th\<lparr>th_kernel := map_option f (th_kernel th)\<rparr>)"
proof (cases "th_kernel th")
  case (Some k)
  have "rule_matches r w" if "rule_matches r v"
    "map_option (\<lambda>v. (kr_drop_percent v, kr_expires_at_ns v)) w = map_option (\<lambda>v. (kr_drop_percent v, kr_expires_at_ns v)) v" for r v w
    using that by (cases r; cases v; cases w) auto
  moreover have "same_rules m k (f k)" using assms (2) by blast
  ultimately show ?thesis using assms (1) Some by (simp add: throttle_ok_def rules_agree_def same_rules_def) blast
qed (use assms (1) in \<open>simp add: throttle_ok_def\<close>)

lemma throttle_step_ok:
  assumes "bpf_law m" and "throttle_ok m th" and "op_law m e"
  shows "throttle_ok m (throttle_step m e th) \<and> (th_kernel (throttle_step m e th) = None) = (th_kernel th = None)"
proof (cases e)
  case (OpSet ck raw percent ttl)
  then show ?thesis using set_rule_ok [OF assms (1, 2)] assms (3) prune_ok (2) [OF assms (1, 2), of ck]
    by (auto simp: set_rule_def Let_def split: if_splits sum.splits prod.splits)
next
  case (OpClear ck raw)
  then show ?thesis using clear_rule_ok [OF assms (1, 2)]
    by (auto simp: clear_rule_def Let_def split: if_splits sum.splits prod.splits option.splits)
next
  case (OpSnapshot ck)
  then show ?thesis using prune_ok [OF assms (1, 2)] by (simp add: throttle_snapshot_of_def Let_def)
next
  case (Traffic f)
  then show ?thesis using traffic_ok [OF assms (2)] assms (3) by simp
qed

lemma run_throttle_ok:
  assumes "bpf_law m" and "throttle_ok m th" and "list_all (op_law m) ops"
  shows "throttle_ok m (run_throttle m ops th) \<and> (th_kernel (run_throttle m ops th) = None) = (th_kernel th = None)"
  using assms (2, 3)
proof (induction ops arbitrary: th)
  case (Cons e ops)
  with throttle_step_ok [OF assms (1), of th e] show ?case by (simp add: run_throttle_def)
qed (simp add: run_throttle_def)

subsection \<open>The verdict at the interface\<close>

lemma longest_match_entry:
  "longest_match (map_of rules) ip n = Some r \<Longrightarrow> \<exists>t. (t, r) \<in> set rules"
  by (induction n) (auto dest: map_of_SomeD split: option.splits)

lemma verdict_of_book:
  assumes "bpf_law m" and "\<And>t. target_ok t \<Longrightarrow> rule_matches (map_of rules t) (bpf_entry m t k)" and "list_all entry_ok rules"
  shows "\<forall>now ip sample. case longest_match (map_of rules) ip 32 of
        None \<Rightarrow> \<not> xdp_drops m now ip sample k
      | Some r \<Rightarrow> now < min u64_max (ar_expires_instant r) \<longrightarrow>
          (xdp_drops m now ip sample k \<longleftrightarrow> ar_drop_percent r \<ge> 100 \<or> sample < ar_drop_percent r * 4294967296 div 100)"
proof (intro allI)
  fix now ip sample
  let ?b = "longest_match (map_of rules) ip 32" and ?e = "longest_match (\<lambda>s. bpf_entry m s k) ip 32"
  have "target_ok \<lparr>it_network = ip, it_prefix = 32\<rparr>" by (simp add: target_ok_def network_for_def)
  then have l: "bpf_lookup m \<lparr>it_network = ip, it_prefix = 32\<rparr> k = ?e" using assms (1) by (simp add: bpf_law_def del: longest_match.simps)
  have r: "rule_matches ?b ?e" by (rule longest_match_agrees) (simp_all add: assms (2))
  show "case ?b of None \<Rightarrow> \<not> xdp_drops m now ip sample k
      | Some r \<Rightarrow> now < min u64_max (ar_expires_instant r) \<longrightarrow>
          (xdp_drops m now ip sample k \<longleftrightarrow> ar_drop_percent r \<ge> 100 \<or> sample < ar_drop_percent r * 4294967296 div 100)"
  proof (cases ?b)
    case None
    with r have "?e = None" by (cases ?e) auto
    with None l show ?thesis by (simp add: xdp_drops_def)
  next
    case (Some rule)
    with r obtain v where v: "?e = Some v" "kr_drop_percent v = ar_drop_percent rule"
      "min u64_max (ar_expires_instant rule) \<le> kr_expires_at_ns v" by (cases ?e) auto
    obtain t where "(t, rule) \<in> set rules" using longest_match_entry [OF Some] by blast
    with assms (3) have "1 \<le> ar_drop_percent rule" by (auto simp: list_all_iff entry_ok_def)
    with Some l v show ?thesis by (auto simp: xdp_drops_def)
  qed
qed

text \<open>C35: Whatever rules are set, cleared and listed, from an empty kernel map on and with any kernel call failing,
  the rule book and the kernel's trie hold rules for the same networks with the same percentages, from 1 to 100, and no
  kernel rule ends before the book's does. So the book tells what the interface does: a packet from an address that no
  rule covers passes, and one that the most specific covering rule of the book finds before its end is dropped exactly
  when the random number falls below that rule's percentage. Targets are masked
  networks, the audit trail stays within its 512 entries, and as long as the kernel can delete, a listing shows
  no rule whose time has passed.\<close>

theorem throttle_enforced:
  assumes "bpf_law m" and "\<And>t. bpf_entry m t k = None" and "list_all (op_law m) ops"
    and "run_throttle m ops (new_throttle (Some k)) = th"
  shows "\<exists>k'. th_kernel th = Some k' \<and>
    (\<forall>t. target_ok t \<longrightarrow> rule_matches (map_of (bk_rules (th_book th)) t) (bpf_entry m t k')) \<and>
    (\<forall>now ip sample. case longest_match (map_of (bk_rules (th_book th))) ip 32 of
        None \<Rightarrow> \<not> xdp_drops m now ip sample k'
      | Some r \<Rightarrow> now < min u64_max (ar_expires_instant r) \<longrightarrow>
          (xdp_drops m now ip sample k' \<longleftrightarrow> ar_drop_percent r \<ge> 100 \<or> sample < ar_drop_percent r * 4294967296 div 100)) \<and>
    list_all entry_ok (bk_rules (th_book th)) \<and> length (bk_audit (th_book th)) \<le> max_audit_entries \<and>
    ((\<forall>t k. fst (bpf_delete m t k) \<in> {0, enoent}) \<longrightarrow>
      (\<forall>ck t r. map_of (bk_rules (th_book (snd (throttle_snapshot_of m ck th)))) t = Some r \<longrightarrow> tc_instant ck < ar_expires_instant r))"
proof -
  have "throttle_ok m (new_throttle (Some k))"
    using assms (2) by (simp add: throttle_ok_def new_throttle_def book_ok_def rules_agree_def)
  from run_throttle_ok [OF assms (1) this assms (3)] assms (4)
  have ok: "throttle_ok m th" "th_kernel th \<noteq> None" by (simp_all add: new_throttle_def)
  then obtain k' where k': "th_kernel th = Some k'" by blast
  then have agree: "rule_matches (map_of (bk_rules (th_book th)) t) (bpf_entry m t k')" if "target_ok t" for t
    using ok (1) that by (simp add: throttle_ok_def rules_agree_def)
  have book: "list_all entry_ok (bk_rules (th_book th))" "length (bk_audit (th_book th)) \<le> max_audit_entries"
    using ok (1) by (simp_all add: throttle_ok_def book_ok_def)
  have e: "tc_instant ck < ar_expires_instant r"
    if "\<forall>t k. fst (bpf_delete m t k) \<in> {0, enoent}" "map_of (bk_rules (th_book (snd (throttle_snapshot_of m ck th)))) t = Some r" for ck t r
    using prune_expires [OF assms (1) ok (1) that (1)] that (2) by (simp add: throttle_snapshot_of_def Let_def)
  show ?thesis
    using k' agree verdict_of_book [OF assms (1) agree book (1)] book e by blast
qed

text \<open>A trie as a function from prefixes, on which deletions of absent prefixes report \<open>ENOENT\<close>.\<close>

definition plain_trie :: "(ipv4_target \<rightharpoonup> kernel_rule) bpf_map" where
  "plain_trie = \<lparr>bpf_update = (\<lambda>t v k. (0, k(t \<mapsto> v))), bpf_delete = (\<lambda>t k. (if k t = None then enoent else 0, k(t := None))),
                bpf_lookup = (\<lambda>t k. longest_match k (it_network t) (it_prefix t)), bpf_entry = (\<lambda>t k. k t)\<rparr>"

lemma plain_trie_law: "bpf_law plain_trie"
  by (auto simp: bpf_law_def plain_trie_def)

text \<open>A network at one half and one of its addresses blocked.\<close>

definition sample_ops :: "(ipv4_target \<rightharpoonup> kernel_rule) throttle_op list" where
  "sample_ops =
     [OpSet \<lparr>tc_utc = 5, tc_instant = 7, tc_kernel = Some 8\<rparr> (as_bytes ''10.1.2.3/24'') 50 60,
      OpSet \<lparr>tc_utc = 5, tc_instant = 7, tc_kernel = Some 8\<rparr> (as_bytes ''10.1.2.3'') 100 60, Traffic (\<lambda>k. k),
      OpSnapshot \<lparr>tc_utc = 9, tc_instant = 10, tc_kernel = None\<rparr>]"

theorem throttle_enforced_witness:
  "bpf_law plain_trie \<and> list_all (op_law plain_trie) sample_ops \<and>
   (\<exists>k'. th_kernel (run_throttle plain_trie sample_ops (new_throttle (Some Map.empty))) = Some k' \<and>
      list_all entry_ok (bk_rules (th_book (run_throttle plain_trie sample_ops (new_throttle (Some Map.empty))))))"
proof -
  have ops: "list_all (op_law plain_trie) sample_ops" by (simp add: sample_ops_def same_rules_def)
  moreover have "bpf_entry plain_trie t Map.empty = None" for t by (simp add: plain_trie_def)
  ultimately show ?thesis using throttle_enforced [OF plain_trie_law, of Map.empty sample_ops] plain_trie_law by blast
qed

end
