(* ===== verification/Capture.thy ===== *)
theory Capture
  imports Packet_Decoder_Props Topology Flow_Engine
begin

text \<open>
  The capture workers of \<open>src/src/capture/mod.rs\<close>: the service gate, the cheap rejection before decoding, the
  handling of a frame and the rounds of a worker's loop, with the ingress of the flow engine
  (\<open>FlowIngress::send_timeout\<close>) and the capture mode of \<open>src/src/config.rs\<close>.

  What the outside answers is an argument: the frames a backend delivers, whether a channel has room, the
  result of a filter update, clock readings. A worker owns its decoder and observer; the fragment shards, the
  topology tracker, the metrics and the channels are shared, and a call finds them in whatever state they are.
  Reads of a frame are checked, \<open>None\<close> stands for a panic.
\<close>

subsection \<open>Modes\<close>

datatype capture_mode = AfXdp | PcapLive | PcapFile | Disabled

definition parse_capture_mode :: "bytes \<Rightarrow> capture_mode option" where
  "parse_capture_mode v =
     (let v = of_bytes (map lower_byte v) in
      if v = ''afxdp'' then Some AfXdp
      else if v = ''pcap'' \<or> v = ''pcap-live'' then Some PcapLive
      else if v = ''file'' \<or> v = ''pcap-file'' then Some PcapFile
      else if v = ''disabled'' \<or> v = ''view'' then Some Disabled
      else None)"

definition effective_capture_mode :: "capture_mode \<Rightarrow> bool \<Rightarrow> capture_mode" where
  "effective_capture_mode requested throttle_enabled =
     (if requested = AfXdp \<and> throttle_enabled then PcapLive else requested)"

text \<open>The address of an interface, six bytes in hexadecimal between colons.\<close>

definition hex_u8 :: "bytes \<Rightarrow> byte option" where
  "hex_u8 bs = (case from_hex bs of Some n \<Rightarrow> if n \<le> 255 then Some (of_nat n) else None | None \<Rightarrow> None)"

definition interface_mac :: "bytes \<Rightarrow> bytes option" where
  "interface_mac raw =
     (let parts = split_on 58 (trim raw) in
      if list_all (\<lambda>p. hex_u8 p \<noteq> None) (take 6 parts) \<and> length parts = 6
      then Some (List.map_filter hex_u8 parts) else None)"

subsection \<open>The gates\<close>

definition service_flow_visible :: "service_packet_scope \<Rightarrow> capture_mode \<Rightarrow> bool \<Rightarrow> bool" where
  "service_flow_visible scope mode local_egress =
     (case mode of
        PcapLive \<Rightarrow> if local_egress then scope_flow scope else scope_destination scope
      | AfXdp \<Rightarrow> scope_destination scope
      | PcapFile \<Rightarrow> scope_flow scope
      | Disabled \<Rightarrow> False)"

text \<open>The loop over VLAN tags: ethertype and offset of the network header, or \<open>None\<close> when a tag is cut.\<close>

fun skip_tags :: "nat \<Rightarrow> bytes \<Rightarrow> u16 \<Rightarrow> nat \<Rightarrow> (u16 \<times> nat) option option" where
  "skip_tags 0 frame et offset = Some (Some (et, offset))"
| "skip_tags (Suc n) frame et offset =
     (if is_vlan et then
        if length frame < offset + 4 then Some None
        else do { et \<leftarrow> u16_at frame (offset + 2); skip_tags n frame et (offset + 4) }
      else Some (Some (et, offset)))"

definition port_match :: "service_registry \<Rightarrow> bool option \<Rightarrow> u16 \<Rightarrow> u16 \<Rightarrow> bool" where
  "port_match services local_egress src_port dst_port =
     (case local_egress of
        Some True \<Rightarrow> accepts_port services src_port
      | Some False \<Rightarrow> accepts_port services dst_port
      | None \<Rightarrow> accepts_port services src_port \<or> accepts_port services dst_port)"

definition transport_may_belong ::
  "bytes \<Rightarrow> service_registry \<Rightarrow> bool \<Rightarrow> bool option \<Rightarrow> byte \<Rightarrow> nat \<Rightarrow> bool option" where
  "transport_may_belong frame services tunnel local_egress protocol l4 =
     (if protocol = 6 \<or> protocol = 17 then
        if length frame < l4 + 4 then Some True
        else do {
          src_port \<leftarrow> u16_at frame l4;
          dst_port \<leftarrow> u16_at frame (l4 + 2);
          Some (port_match services local_egress src_port dst_port
                \<or> tunnel \<and> protocol = 17 \<and> (dst_port = 4789 \<or> dst_port = 8472))
        }
      else if protocol = 47 \<or> protocol = 4 \<or> protocol = 41 then Some tunnel
      else Some False)"

definition ipv4_may_belong :: "bytes \<Rightarrow> service_registry \<Rightarrow> bool \<Rightarrow> bool option \<Rightarrow> nat \<Rightarrow> bool option" where
  "ipv4_may_belong frame services tunnel local_egress offset =
     (if length frame < offset + 20 then Some True
      else do {
        b0 \<leftarrow> byte_at frame offset;
        if drop_bit 4 b0 \<noteq> 4 then Some True
        else do {
          let ihl = unat (b0 AND 0x0f) * 4;
          if ihl < 20 \<or> length frame < offset + ihl then Some True
          else do {
            frag \<leftarrow> u16_at frame (offset + 6);
            if frag AND 0x3fff \<noteq> 0 then Some True
            else do {
              protocol \<leftarrow> byte_at frame (offset + 9);
              transport_may_belong frame services tunnel local_egress protocol (offset + ihl)
            }
          }
        }
      })"

definition frame_may_belong_to_service :: "bytes \<Rightarrow> service_registry \<Rightarrow> bool \<Rightarrow> bool option \<Rightarrow> bool option" where
  "frame_may_belong_to_service frame services tunnel local_egress =
     (if registry_is_empty services then Some False
      else if length frame < 14 then Some True
      else do {
        et \<leftarrow> u16_at frame 12;
        tagged \<leftarrow> skip_tags 4 frame et 14;
        case tagged of
          None \<Rightarrow> Some True
        | Some (et, offset) \<Rightarrow>
            if et \<noteq> ethertype_ipv4 then Some True
            else ipv4_may_belong frame services tunnel local_egress offset
      })"

subsection \<open>State of a worker\<close>

record capture_config =
  cc_requested_mode :: capture_mode
  cc_effective_mode :: capture_mode
  cc_tunnel_decapsulation :: bool
  cc_early_port_filter :: bool
  cc_flow_shards :: nat
  cc_shard_seed :: u64

record capture_metrics =
  cm_frames :: u64
  cm_frame_bytes :: u64
  cm_raw_drops :: u64
  cm_filtered :: u64
  cm_drops :: u64
  cm_ignored :: u64
  cm_parse_errors :: u64
  cm_backend_drops :: u64
  cm_backend_invalid_descs :: u64
  cm_flow_queue_depth :: u64
  cm_flow_queue_high_watermark :: u64

record source_stats =
  st_dropped :: nat
  st_invalid_descs :: nat

text \<open>\<open>cw_sent\<close> is what the worker put into the channels of the flow shards, oldest first.\<close>

record capture_worker =
  cw_decoder :: packet_decoder
  cw_observer :: local_observer
  cw_tracker :: topology_tracker
  cw_metrics :: capture_metrics
  cw_sent :: "(nat \<times> parsed_packet) list"
  cw_generation :: u64
  cw_last_stats :: source_stats

datatype send_result = SendOk | SendTimeout | SendDisconnected

text \<open>
  The answers of the outside while one frame is handled. The registry is read before and after decoding, and
  may have changed in between. \<open>fe_raw\<close> says whether the raw writer's channel has room, if there is a writer.
\<close>

record frame_env =
  fe_decode :: decode_env
  fe_prefilter_services :: service_registry
  fe_services :: service_registry
  fe_topo :: topo_clock
  fe_raw :: "bool option"
  fe_send :: send_result

definition count_metric :: "(capture_metrics \<Rightarrow> capture_metrics) \<Rightarrow> capture_worker \<Rightarrow> capture_worker" where
  "count_metric f w = w\<lparr>cw_metrics := f (cw_metrics w)\<rparr>"

subsection \<open>One frame\<close>

definition local_egress_for :: "capture_mode \<Rightarrow> bool \<Rightarrow> bool option" where
  "local_egress_for mode topology_ignore_l2 =
     (case mode of PcapLive \<Rightarrow> Some topology_ignore_l2 | AfXdp \<Rightarrow> Some False | PcapFile \<Rightarrow> None | Disabled \<Rightarrow> None)"

text \<open>\<open>FlowIngress::send_timeout\<close> and what the worker makes of its result; \<open>False\<close> ends the worker.\<close>

definition send_packet :: "capture_config \<Rightarrow> send_result \<Rightarrow> parsed_packet \<Rightarrow> capture_worker \<Rightarrow> (capture_worker \<times> bool) option" where
  "send_packet cfg res p w =
     (if cc_flow_shards cfg = 0 then None
      else
        let idx = flow_shard (cc_shard_seed cfg) (cc_flow_shards cfg) p in
        case res of
          SendOk \<Rightarrow>
            let (depth, high) = queue_enqueued (cm_flow_queue_depth (cw_metrics w)) (cm_flow_queue_high_watermark (cw_metrics w))
            in Some (count_metric (\<lambda>m. m\<lparr>cm_flow_queue_depth := depth, cm_flow_queue_high_watermark := high\<rparr>)
                       (w\<lparr>cw_sent := cw_sent w @ [(idx, p)]\<rparr>), True)
        | SendTimeout \<Rightarrow> Some (count_metric (\<lambda>m. m\<lparr>cm_drops := cm_drops m + 1\<rparr>) w, True)
        | SendDisconnected \<Rightarrow> Some (w, False))"

text \<open>A decoded packet: topology first, then the authoritative gate, then the flow engine.\<close>

definition observe_packet :: "frame_env \<Rightarrow> bool \<Rightarrow> parsed_packet \<Rightarrow> capture_worker \<Rightarrow> capture_worker" where
  "observe_packet fe topology_ignore_l2 p w =
     (if \<not> topology_ignore_l2 \<and> scope_destination (packet_scope (fe_services fe) p)
      then (case ep_ip (source_endpoint p) of
              V4 source_ip \<Rightarrow>
                let (lo, t) = observe_ipv4_source (fe_topo fe) (pkt_ts_ns p) (pkt_wire_len p) source_ip (cw_observer w) (cw_tracker w)
                in w\<lparr>cw_observer := lo, cw_tracker := t\<rparr>
            | V6 _ \<Rightarrow> w)
      else w)"

definition handle_decoded_packet ::
  "capture_config \<Rightarrow> frame_env \<Rightarrow> bool \<Rightarrow> parsed_packet \<Rightarrow> capture_worker \<Rightarrow> (capture_worker \<times> bool) option" where
  "handle_decoded_packet cfg fe topology_ignore_l2 p w =
     (let w = observe_packet fe topology_ignore_l2 p w in
      if \<not> service_flow_visible (packet_scope (fe_services fe) p) (cc_effective_mode cfg) topology_ignore_l2
      then Some (count_metric (\<lambda>m. m\<lparr>cm_filtered := cm_filtered m + 1\<rparr>) w, True)
      else send_packet cfg (fe_send fe) p w)"

definition decode_frame ::
  "capture_config \<Rightarrow> frame_env \<Rightarrow> captured_frame \<Rightarrow> bool \<Rightarrow> capture_worker \<Rightarrow> (capture_worker \<times> bool) option" where
  "decode_frame cfg fe frame topology_ignore_l2 w = do {
     (outcome, d) \<leftarrow> decode (fe_decode fe) (cw_decoder w) frame;
     let w = w\<lparr>cw_decoder := d\<rparr>;
     case outcome of
       Inr (Packet p) \<Rightarrow> handle_decoded_packet cfg fe topology_ignore_l2 p w
     | Inr PendingFragment \<Rightarrow> Some (w, True)
     | Inr Ignored \<Rightarrow> Some (count_metric (\<lambda>m. m\<lparr>cm_ignored := cm_ignored m + 1\<rparr>) w, True)
     | Inl e \<Rightarrow> Some (count_metric (\<lambda>m. m\<lparr>cm_parse_errors := cm_parse_errors m + 1\<rparr>) w, True)
   }"

definition receive_frame :: "frame_env \<Rightarrow> captured_frame \<Rightarrow> capture_worker \<Rightarrow> capture_worker" where
  "receive_frame fe frame w =
     (let w = count_metric (\<lambda>m. m\<lparr>cm_frames := cm_frames m + 1,
                                 cm_frame_bytes := cm_frame_bytes m + of_nat (cf_wire_len frame)\<rparr>) w
      in if fe_raw fe = Some False then count_metric (\<lambda>m. m\<lparr>cm_raw_drops := cm_raw_drops m + 1\<rparr>) w else w)"

definition handle_frame :: "capture_config \<Rightarrow> frame_env \<Rightarrow> captured_frame \<Rightarrow> capture_worker \<Rightarrow> (capture_worker \<times> bool) option" where
  "handle_frame cfg fe frame w = do {
     let topology_ignore_l2 = ignores_ethernet_frame (cw_observer w) (cf_data frame);
     let w = receive_frame fe frame w;
     may \<leftarrow> frame_may_belong_to_service (cf_data frame) (fe_prefilter_services fe) (cc_tunnel_decapsulation cfg)
             (local_egress_for (cc_effective_mode cfg) topology_ignore_l2);
     if \<not> may then Some (count_metric (\<lambda>m. m\<lparr>cm_filtered := cm_filtered m + 1\<rparr>) w, True)
     else decode_frame cfg fe frame topology_ignore_l2 w
   }"

fun handle_batch :: "capture_config \<Rightarrow> (frame_env \<times> captured_frame) list \<Rightarrow> capture_worker \<Rightarrow> (capture_worker \<times> bool) option" where
  "handle_batch cfg [] w = Some (w, True)"
| "handle_batch cfg ((fe, frame) # rest) w = do {
     (w, go) \<leftarrow> handle_frame cfg fe frame w;
     if go then handle_batch cfg rest w else Some (w, False)
   }"

subsection \<open>The loop\<close>

datatype filter_result = Optimized | FailOpen | FilterFailed

datatype stats_result = StatsNotDue | StatsError | NoStats | Stats source_stats

datatype receive_result = ReceiveFailed | Received "(frame_env \<times> captured_frame) list"

record round_env =
  re_shutdown :: bool
  re_services :: service_registry
  re_filter :: filter_result
  re_stats :: stats_result
  re_receive :: receive_result
  re_flush :: topo_clock

text \<open>The filter update; \<open>False\<close> when the worker stops because it cannot widen its filter.\<close>

definition update_filter :: "capture_config \<Rightarrow> round_env \<Rightarrow> capture_worker \<Rightarrow> capture_worker \<times> bool" where
  "update_filter cfg re w =
     (if generation (re_services re) \<noteq> cw_generation w
      then if cc_early_port_filter cfg
           then (case re_filter re of
                   FilterFailed \<Rightarrow> (w, False)
                 | _ \<Rightarrow> (w\<lparr>cw_generation := generation (re_services re)\<rparr>, True))
           else (w\<lparr>cw_generation := generation (re_services re)\<rparr>, True)
      else (w, True))"

definition poll_stats :: "stats_result \<Rightarrow> capture_worker \<Rightarrow> capture_worker" where
  "poll_stats res w =
     (case res of
        Stats now \<Rightarrow>
          (count_metric (\<lambda>m. m\<lparr>cm_backend_drops := cm_backend_drops m + of_nat (st_dropped now - st_dropped (cw_last_stats w)),
                              cm_backend_invalid_descs := cm_backend_invalid_descs m +
                                of_nat (st_invalid_descs now - st_invalid_descs (cw_last_stats w))\<rparr>) w)
            \<lparr>cw_last_stats := now\<rparr>
      | _ \<Rightarrow> w)"

definition flush_worker :: "topo_clock \<Rightarrow> capture_worker \<Rightarrow> capture_worker" where
  "flush_worker ck w = (let (lo, t) = flush_if_due ck (cw_observer w) (cw_tracker w) in w\<lparr>cw_observer := lo, cw_tracker := t\<rparr>)"

text \<open>A worker that stops drops its observer, which hands over what it has counted.\<close>

definition stop_worker :: "topo_clock \<Rightarrow> capture_worker \<Rightarrow> capture_worker" where
  "stop_worker ck w =
     (let (lo, t) = flush_observer ck (cw_observer w) (cw_tracker w) in w\<lparr>cw_observer := lo, cw_tracker := t\<rparr>)"

definition receive_round :: "capture_config \<Rightarrow> round_env \<Rightarrow> capture_worker \<Rightarrow> (capture_worker \<times> bool) option" where
  "receive_round cfg re w =
     (case re_receive re of
        ReceiveFailed \<Rightarrow> Some (flush_worker (re_flush re) w, True)
      | Received [] \<Rightarrow> if cc_requested_mode cfg = PcapFile then Some (stop_worker (re_flush re) w, False) else Some (w, True)
      | Received frames \<Rightarrow> do {
          (w, go) \<leftarrow> handle_batch cfg frames w;
          Some (if go then (flush_worker (re_flush re) w, True) else (stop_worker (re_flush re) w, False))
        })"

definition capture_round :: "capture_config \<Rightarrow> round_env \<Rightarrow> capture_worker \<Rightarrow> (capture_worker \<times> bool) option" where
  "capture_round cfg re w =
     (if re_shutdown re then Some (stop_worker (re_flush re) w, False)
      else
        let (w, go) = update_filter cfg re w in
        if \<not> go then Some (stop_worker (re_flush re) w, False)
        else if cc_requested_mode cfg = PcapFile \<and> registry_is_empty (re_services re) then Some (w, True)
        else receive_round cfg re (poll_stats (re_stats re) w))"

fun capture_loop :: "capture_config \<Rightarrow> round_env list \<Rightarrow> capture_worker \<Rightarrow> (capture_worker \<times> bool) option" where
  "capture_loop cfg [] w = Some (w, True)"
| "capture_loop cfg (re # rest) w = do {
     (w, go) \<leftarrow> capture_round cfg re w;
     if go then capture_loop cfg rest w else Some (w, False)
   }"

end
