(* ===== verification/Capture_Props.thy ===== *)
theory Capture_Props
  imports Capture
begin

text \<open>
  What the capture gates let through: the rejection before decoding agrees with the authoritative gate behind
  the decoder, and what reaches the flow engine belongs to a configured service.
\<close>

subsection \<open>Reads behind an offset\<close>

lemma byte_at_slice: "off \<le> length xs \<Longrightarrow> byte_at (bslice off (length xs) xs) i = byte_at xs (off + i)"
  by (simp add: byte_at_def bslice_def add.commute less_diff_conv)

lemma u16_at_slice: "off \<le> length xs \<Longrightarrow> u16_at (bslice off (length xs) xs) i = u16_at xs (off + i)"
  by (simp add: u16_at_def byte_at_slice add.assoc)

lemma u16_at_bslice: "i + 1 < b - a \<Longrightarrow> b \<le> length xs \<Longrightarrow> u16_at (bslice a b xs) i = u16_at xs (a + i)"
  by (auto simp: u16_at_def byte_at_def bslice_def)

lemma u16_at_None_iff: "u16_at xs i = None \<longleftrightarrow> length xs \<le> i + 1"
  by (auto simp: u16_at_def byte_at_def)

lemma byte_at_None_iff: "byte_at xs i = None \<longleftrightarrow> length xs \<le> i"
  by (auto simp: byte_at_def)

subsection \<open>The rejection before decoding\<close>

lemma skip_tags_total: "skip_tags n frame et offset \<noteq> None"
proof (induction n arbitrary: et offset)
  case (Suc n)
  then show ?case by (auto simp: u16_at_None_iff bind_eq_None_conv split: if_splits)
qed simp

lemma transport_total: "transport_may_belong frame services tunnel le protocol l4 \<noteq> None"
  by (auto simp: transport_may_belong_def bind_eq_None_conv u16_at_None_iff)

lemma ipv4_total: "ipv4_may_belong frame services tunnel le offset \<noteq> None"
  using transport_total by (auto simp: ipv4_may_belong_def Let_def bind_eq_None_conv u16_at_None_iff byte_at_None_iff split: if_splits)

lemma prefilter_total: "frame_may_belong_to_service frame services tunnel le \<noteq> None"
proof (cases "registry_is_empty services \<or> length frame < 14")
  case False
  obtain et where "u16_at frame 12 = Some et" using False u16_at_None_iff [of frame 12] by auto
  moreover obtain t where "skip_tags 4 frame et 14 = Some t" using skip_tags_total by blast
  ultimately show ?thesis
    using False ipv4_total by (auto simp: frame_may_belong_to_service_def split: option.splits)
qed (auto simp: frame_may_belong_to_service_def)

declare byte_at_ok [simp del] and u16_at_ok [simp del] and u32_at_ok [simp del]

lemma skip_tags_vlan:
  assumes "skip_tags n frame et offset = Some (Some (et', offset'))" and "offset \<le> length frame"
  shows "offset' \<le> length frame \<and> (\<exists>domain'. vlan_tags n frame et offset l2 = Some (Inr (et', offset', domain')))"
  using assms
proof (induction n arbitrary: et offset l2)
  case (Suc n)
  show ?case
  proof (cases "is_vlan et")
    case True
    with Suc.prems obtain e where e: "u16_at frame (offset + 2) = Some e" "offset + 4 \<le> length frame"
      "skip_tags n frame e (offset + 4) = Some (Some (et', offset'))"
      by (auto split: if_splits bind_splits simp: bind_eq_Some_conv)
    then obtain tci where "u16_at frame offset = Some tci" by (cases "u16_at frame offset") (auto simp: u16_at_None_iff)
    with True e Suc.IH [OF e (3), of "mix_domain l2 0x564c414e (ucast (tci AND 0x0fff))"] show ?thesis by auto
  qed (use Suc.prems in auto)
qed auto

text \<open>What a decoder returns for a frame that was rejected: nothing is put aside, no packet matches.\<close>

definition rejected :: "service_registry \<Rightarrow> bool option \<Rightarrow> packet_decoder \<Rightarrow> decode_result \<Rightarrow> bool" where
  "rejected services le d res \<longleftrightarrow> (\<forall>r d'. res = Some (r, d') \<longrightarrow> pd_fragments d' = pd_fragments d \<and>
     (\<forall>p. r = Inr (Packet p) \<longrightarrow> \<not> port_match services le (ep_port (source_endpoint p)) (ep_port (destination_endpoint p))))"

lemma rejected_simps [simp]:
  "rejected services le d (bail e d)" "rejected services le d (bail_truncated e d)" "rejected services le d (Some (Inr Ignored, d))"
  "rejected services le d None"
  by (auto simp: rejected_def bail_def bail_truncated_def mark_truncated_def bump_def)

lemma packet_endpoints:
  assumes "canonical_with_domain src sp dst dp pr l2 = (pkt_key p, pkt_direction p)"
  shows "source_endpoint p = Endpoint src sp" "destination_endpoint p = Endpoint dst dp"
proof (atomize (full), cases "Endpoint src sp \<le> Endpoint dst dp")
  case True
  with assms have "pkt_key p = \<lparr>key_a = Endpoint src sp, key_b = Endpoint dst dp, key_protocol = pr, key_l2_domain = l2\<rparr>"
    "pkt_direction p = AToB" by (simp_all add: canonical_with_domain_def Let_def)
  then show "source_endpoint p = Endpoint src sp \<and> destination_endpoint p = Endpoint dst dp"
    by (simp add: source_endpoint_def destination_endpoint_def)
next
  case False
  with assms have "pkt_key p = \<lparr>key_a = Endpoint dst dp, key_b = Endpoint src sp, key_protocol = pr, key_l2_domain = l2\<rparr>"
    "pkt_direction p = BToA" by (simp_all add: canonical_with_domain_def Let_def)
  then show "source_endpoint p = Endpoint src sp \<and> destination_endpoint p = Endpoint dst dp"
    by (simp add: source_endpoint_def destination_endpoint_def)
qed

lemma rejected_packet:
  assumes "\<not> port_match services le sp dp" and "canonical_with_domain src sp dst dp pr l2 = (pkt_key p, pkt_direction p)"
  shows "rejected services le d (Some (Inr (Packet p), d))"
  using assms (1) packet_endpoints [OF assms (2)] by (simp add: rejected_def)

lemma rejected_bind: "(\<And>x. m = Some x \<Longrightarrow> rejected services le d (f x)) \<Longrightarrow> rejected services le d (Option.bind m f)"
  by (cases m) auto

lemma rejected_tcp:
  assumes "u16_at tcp 0 = Some sp" "u16_at tcp 2 = Some dp" "\<not> port_match services le sp dp"
  shows "rejected services le d (parse_tcp d ts len src dst tcp l2)"
  using assms (1, 2) unfolding parse_tcp_def
  by (auto simp: Let_def split: prod.splits intro!: rejected_bind rejected_packet [OF assms (3)])

lemma rejected_udp:
  assumes "u16_at udp 0 = Some sp" "u16_at udp 2 = Some dp" "\<not> port_match services le sp dp"
    and "\<not> (pd_tunnel_decapsulation d \<and> (dp = 4789 \<or> dp = 8472))"
  shows "rejected services le d (decode_udp inner d ts len src dst udp l2 depth)"
  using assms (1, 2, 4) unfolding decode_udp_def plain_udp_def
  by (auto simp: Let_def split: prod.splits intro!: rejected_bind rejected_packet [OF assms (3)])

lemma fragment_bits: "frag AND 0x3fff = (0 :: u16) \<Longrightarrow> frag AND 0x1fff = 0 \<and> frag AND 0x2000 = 0"
proof -
  assume z: "frag AND 0x3fff = (0 :: u16)"
  have "frag AND 0x1fff = (frag AND 0x3fff) AND 0x1fff" "frag AND 0x2000 = (frag AND 0x3fff) AND 0x2000"
    by (simp_all add: and.assoc)
  with z show ?thesis by simp
qed

lemma rejected_payload:
  assumes t: "transport_may_belong frame services (pd_tunnel_decapsulation d) le protocol l4 = Some False"
    and "payload = bslice l4 e frame" and "e \<le> length frame"
  shows "rejected services le d (decode_ip_payload inner d ts len src dst protocol payload l2 depth)"
proof (cases "protocol = 6 \<or> protocol = 17")
  case True
  show ?thesis
  proof (cases "length payload < 8")
    case True
    with \<open>protocol = 6 \<or> protocol = 17\<close> show ?thesis
      by (auto simp: decode_ip_payload_def parse_tcp_def decode_udp_def)
  next
    case False
    then have "8 \<le> e - l4" using assms (2) by simp
    with assms (2, 3) have u: "u16_at payload 0 = u16_at frame l4" "u16_at payload 2 = u16_at frame (l4 + 2)"
      by (simp_all add: u16_at_bslice)
    from t True \<open>8 \<le> e - l4\<close> assms (3) obtain sp dp where
      p: "u16_at frame l4 = Some sp" "u16_at frame (l4 + 2) = Some dp" "\<not> port_match services le sp dp"
        "\<not> (pd_tunnel_decapsulation d \<and> protocol = 17 \<and> (dp = 4789 \<or> dp = 8472))"
      unfolding transport_may_belong_def by (auto simp: bind_eq_Some_conv split: if_splits)
    show ?thesis
      using True rejected_tcp [OF _ _ p (3), of payload] rejected_udp [OF _ _ p (3), of payload] p u
      by (auto simp: decode_ip_payload_def)
  qed
next
  case False
  with t show ?thesis by (auto simp: transport_may_belong_def decode_ip_payload_def Let_def split: if_splits)
qed

lemma rejected_ipv4:
  assumes t: "ipv4_may_belong frame services (pd_tunnel_decapsulation d) le offset = Some False"
    and off: "offset \<le> length frame"
  shows "rejected services le d (decode_ipv4 env inner d ts len (bslice offset (length frame) frame) l2 depth)"
proof -
  let ?l3 = "bslice offset (length frame) frame"
  obtain b0 frag protocol where f: "byte_at frame offset = Some b0" "drop_bit 4 b0 = 4"
      "\<not> length frame < offset + unat (b0 AND 0x0f) * 4" "u16_at frame (offset + 6) = Some frag" "frag AND 0x3fff = 0"
      "byte_at frame (offset + 9) = Some protocol"
      "transport_may_belong frame services (pd_tunnel_decapsulation d) le protocol (offset + unat (b0 AND 0x0f) * 4) = Some False"
    using t unfolding ipv4_may_belong_def by (auto simp: Let_def bind_eq_Some_conv split: if_splits)
  have payload: "rejected services le d
      (decode_ip_payload inner d ts len src dst protocol (bslice (unat (b0 AND 0x0f) * 4) n ?l3) l2 depth)"
    if "n \<le> length frame - offset" for src dst n
  proof -
    from that off have "bslice (unat (b0 AND 0x0f) * 4) n ?l3 = bslice (offset + unat (b0 AND 0x0f) * 4) (offset + n) frame"
      "offset + n \<le> length frame"
      by (simp_all add: bslice_def drop_take min_def add.commute)
    then show ?thesis by (rule rejected_payload [OF f (7)])
  qed
  show ?thesis
    unfolding decode_ipv4_def using f fragment_bits [OF f (5)] off
    by (auto simp: byte_at_slice u16_at_slice Let_def intro!: rejected_bind payload)
qed

lemma rejected_decode:
  assumes "frame_may_belong_to_service (cf_data frame) services (pd_tunnel_decapsulation d) le = Some False"
    and "\<not> registry_is_empty services"
  shows "rejected services le d (decode env d frame)"
proof -
  let ?x = "cf_data frame"
  obtain et tags where e: "\<not> length ?x < 14" "u16_at ?x 12 = Some et" "skip_tags 4 ?x et 14 = Some tags"
      "(case tags of None \<Rightarrow> Some True | Some (et, offset) \<Rightarrow> if et \<noteq> ethertype_ipv4 then Some True
          else ipv4_may_belong ?x services (pd_tunnel_decapsulation d) le offset) = Some False"
    using assms unfolding frame_may_belong_to_service_def by (auto simp: bind_eq_Some_conv split: if_splits)
  obtain et' offset where f: "skip_tags 4 ?x et 14 = Some (Some (et', offset))" "et' = ethertype_ipv4"
      "ipv4_may_belong ?x services (pd_tunnel_decapsulation d) le offset = Some False"
  proof (cases tags)
    case (Some t)
    then show ?thesis using that e by (cases t) (auto split: if_splits)
  qed (use e in simp)
  obtain l2 where v: "offset \<le> length ?x" "vlan_tags 4 ?x et 14 0 = Some (Inr (et', offset, l2))"
    using skip_tags_vlan [OF f (1), of 0] e (1) by auto
  have "decode env d frame = decode_ipv4 env (decode_levels env max_tunnel_depth) d (cf_ts_ns frame) (cf_wire_len frame)
      (bslice offset (length ?x) ?x) l2 (max_tunnel_depth - max_tunnel_depth)"
    using e f v unfolding decode_def decode_levels.simps by (simp add: decode_ethernet_bytes_def)
  then show ?thesis using rejected_ipv4 [OF f (3) v (1)] by simp
qed

lemma empty_registry: "registry_is_empty services \<Longrightarrow> \<not> accepts_port services port"
  by (simp add: registry_is_empty_def accepts_port_def)

lemma rejected_ports:
  assumes "frame_may_belong_to_service (cf_data frame) services (pd_tunnel_decapsulation d) le = Some False"
    and "decode env d frame = Some (Inr (Packet p), d')"
  shows "\<not> port_match services le (ep_port (source_endpoint p)) (ep_port (destination_endpoint p))"
proof (cases "registry_is_empty services")
  case True
  then show ?thesis by (auto simp: port_match_def empty_registry split: option.splits bool.splits)
qed (use rejected_decode [OF assms (1)] assms (2) in \<open>auto simp: rejected_def\<close>)

subsection \<open>Rejecting early changes nothing\<close>

text \<open>
  A worker that hands every frame to the decoder. \<open>seen_alike\<close>: the same packets for the flow engine, the same
  topology, the same fragments.
\<close>

definition handle_every_frame :: "capture_config \<Rightarrow> frame_env \<Rightarrow> captured_frame \<Rightarrow> capture_worker \<Rightarrow> (capture_worker \<times> bool) option" where
  "handle_every_frame cfg fe frame w =
     decode_frame cfg fe frame (ignores_ethernet_frame (cw_observer w) (cf_data frame)) (receive_frame fe frame w)"

definition seen_alike :: "capture_worker \<Rightarrow> capture_worker \<Rightarrow> bool" where
  "seen_alike v w \<longleftrightarrow> cw_sent v = cw_sent w \<and> cw_observer v = cw_observer w \<and> cw_tracker v = cw_tracker w \<and>
     pd_fragments (cw_decoder v) = pd_fragments (cw_decoder w)"

lemma count_metric_frame [simp]:
  "cw_sent (count_metric f w) = cw_sent w" "cw_observer (count_metric f w) = cw_observer w"
  "cw_tracker (count_metric f w) = cw_tracker w" "cw_decoder (count_metric f w) = cw_decoder w"
  by (simp_all add: count_metric_def)

lemma receive_frame_frame [simp]:
  "cw_sent (receive_frame fe frame w) = cw_sent w" "cw_observer (receive_frame fe frame w) = cw_observer w"
  "cw_tracker (receive_frame fe frame w) = cw_tracker w" "cw_decoder (receive_frame fe frame w) = cw_decoder w"
  by (simp_all add: receive_frame_def Let_def)

text \<open>A packet that matches no port by the rule of its direction is neither counted nor passed on.\<close>

lemma unmatched_invisible:
  assumes "\<not> port_match services (local_egress_for mode ignored) (ep_port (source_endpoint p)) (ep_port (destination_endpoint p))"
    and "mode \<noteq> PcapLive \<or> \<not> ignored"
  shows "\<not> service_flow_visible (packet_scope services p) mode ignored \<and> \<not> scope_destination (packet_scope services p)"
  using assms by (cases mode) (auto simp: port_match_def local_egress_for_def service_flow_visible_def packet_scope_def Let_def)

lemma invisible_packet:
  assumes "\<not> service_flow_visible (packet_scope (fe_services fe) p) (cc_effective_mode cfg) ignored"
    and "\<not> scope_destination (packet_scope (fe_services fe) p)"
  shows "handle_decoded_packet cfg fe ignored p w = Some (count_metric (\<lambda>m. m\<lparr>cm_filtered := cm_filtered m + 1\<rparr>) w, True)"
  using assms by (simp add: handle_decoded_packet_def observe_packet_def)

lemma decode_total:
  assumes "shards_ok (pd_fragments d)"
  obtains r d' where "decode env d frame = Some (r, d')" "shards_ok (pd_fragments d')"
    "pd_tunnel_decapsulation d' = pd_tunnel_decapsulation d"
proof -
  have "inner_ok (decode_levels env (Suc max_tunnel_depth))" by (rule decode_levels_ok) simp_all
  then have "step_ok (cf_ts_ns frame) d (decode env d frame)"
    using assms unfolding decode_def inner_ok_def by blast
  then show ?thesis using that by (auto simp: step_ok_def elim!: returnsE)
qed

lemma handle_packet_total:
  assumes "cc_flow_shards cfg > 0"
  shows "\<exists>v go. handle_decoded_packet cfg fe ignored p w = Some (v, go)"
  using assms by (cases "fe_send fe") (auto simp: handle_decoded_packet_def send_packet_def Let_def split: prod.splits)

lemma decode_frame_total:
  assumes "decode (fe_decode fe) (cw_decoder w) frame = Some (r, d')" and "cc_flow_shards cfg > 0"
  shows "\<exists>v go. decode_frame cfg fe frame ignored w = Some (v, go)"
proof -
  consider e where "r = Inl e" | "r = Inr PendingFragment" | "r = Inr Ignored" | p where "r = Inr (Packet p)"
    by (metis inner_outcome.exhaust obj_sumE)
  then show ?thesis using assms handle_packet_total [OF assms (2)] by cases (auto simp: decode_frame_def)
qed

lemma rejected_frame:
  assumes "shards_ok (pd_fragments (cw_decoder w))" and "cc_tunnel_decapsulation cfg = pd_tunnel_decapsulation (cw_decoder w)"
    and reg: "fe_prefilter_services fe = fe_services fe" "\<not> registry_is_empty (fe_services fe)"
    and dir: "cc_effective_mode cfg \<noteq> PcapLive \<or> \<not> ignored"
    and rej: "frame_may_belong_to_service (cf_data frame) (fe_services fe) (cc_tunnel_decapsulation cfg)
      (local_egress_for (cc_effective_mode cfg) ignored) = Some False"
  shows "\<exists>v. decode_frame cfg fe frame ignored w = Some (v, True) \<and> seen_alike w v"
proof -
  obtain r d' where d: "decode (fe_decode fe) (cw_decoder w) frame = Some (r, d')" using decode_total [OF assms (1)] .
  note rej = rej [unfolded assms (2)]
  note R = rejected_decode [OF rej reg (2), of "fe_decode fe", unfolded rejected_def, rule_format, OF d]
  show ?thesis
  proof (cases "\<exists>p. r = Inr (Packet p)")
    case True
    then obtain p where p: "r = Inr (Packet p)" by blast
    note inv = unmatched_invisible [OF conjunct2 [OF R, rule_format, OF p] dir]
    with d p R show ?thesis
      by (simp add: decode_frame_def invisible_packet seen_alike_def)
  next
    case False
    then consider e where "r = Inl e" | "r = Inr PendingFragment" | "r = Inr Ignored"
      by (metis inner_outcome.exhaust obj_sumE)
    then show ?thesis using d R by cases (simp_all add: decode_frame_def seen_alike_def)
  qed
qed

text \<open>C30: For the frames of a live interface that this host did not send, and for every frame of a file, the cheap
  rejection before decoding changes nothing the program acts on, as long as at least one service is configured and the
  table of services does not change between the rejection and the admission of the same frame: a worker that decoded
  every frame would hand the same packets to the flow engine, count the same sources and put the same fragments aside,
  whatever the bytes. Without any service, every frame is rejected at once and no fragment is put aside, which a decoder
  of every frame would do; a change between the two readings makes the one frame go by either table.\<close>

theorem prefilter_equivalent:
  assumes "shards_ok (pd_fragments (cw_decoder w))" and "cc_tunnel_decapsulation cfg = pd_tunnel_decapsulation (cw_decoder w)"
    and "cc_flow_shards cfg > 0"
    and "fe_prefilter_services fe = fe_services fe" and "\<not> registry_is_empty (fe_services fe)"
    and "cc_effective_mode cfg \<noteq> PcapLive \<or> \<not> ignores_ethernet_frame (cw_observer w) (cf_data frame)"
  shows "\<exists>v1 v2 go. handle_frame cfg fe frame w = Some (v1, go) \<and> handle_every_frame cfg fe frame w = Some (v2, go) \<and> seen_alike v1 v2"
proof -
  let ?i = "ignores_ethernet_frame (cw_observer w) (cf_data frame)" and ?w = "receive_frame fe frame w"
  obtain may where may: "frame_may_belong_to_service (cf_data frame) (fe_services fe) (cc_tunnel_decapsulation cfg)
      (local_egress_for (cc_effective_mode cfg) ?i) = Some may" using prefilter_total by blast
  show ?thesis
  proof (cases may)
    case True
    obtain r d' where "decode (fe_decode fe) (cw_decoder w) frame = Some (r, d')" using decode_total [OF assms (1)] .
    then have "decode (fe_decode fe) (cw_decoder ?w) frame = Some (r, d')" by simp
    from decode_frame_total [OF this assms (3)] obtain v go where "decode_frame cfg fe frame ?i ?w = Some (v, go)" by blast
    with True may assms (4) show ?thesis by (simp add: handle_frame_def handle_every_frame_def seen_alike_def)
  next
    case False
    have "\<exists>v. decode_frame cfg fe frame ?i ?w = Some (v, True) \<and> seen_alike ?w v"
      by (rule rejected_frame) (use assms may False in simp_all)
    then obtain v where v: "decode_frame cfg fe frame ?i ?w = Some (v, True)" "seen_alike ?w v" by blast
    from False may assms (4) have "handle_frame cfg fe frame w = Some (count_metric (\<lambda>m. m\<lparr>cm_filtered := cm_filtered m + 1\<rparr>) ?w, True)"
      by (simp add: handle_frame_def)
    with v show ?thesis by (auto simp: handle_every_frame_def seen_alike_def)
  qed
qed

subsection \<open>What reaches the flow engine\<close>

definition from_own_mac :: "bytes option \<Rightarrow> bytes \<Rightarrow> bool" where
  "from_own_mac own frame \<longleftrightarrow> (case own of None \<Rightarrow> False | Some mac \<Rightarrow> ethernet_source_mac frame = Some mac)"

text \<open>A packet sent to a shard comes from one of the frames, passed the gate and goes to the shard of its flow.\<close>

definition gated :: "capture_config \<Rightarrow> bytes option \<Rightarrow> (frame_env \<times> captured_frame) list \<Rightarrow> nat \<times> parsed_packet \<Rightarrow> bool" where
  "gated cfg own frames e \<longleftrightarrow>
     list_ex (\<lambda>(fe, frame). service_flow_visible (packet_scope (fe_services fe) (snd e)) (cc_effective_mode cfg) (from_own_mac own (cf_data frame)) \<and>
       pkt_ts_ns (snd e) = cf_ts_ns frame) frames \<and>
     fst e = flow_shard (cc_shard_seed cfg) (cc_flow_shards cfg) (snd e)"

definition advances :: "capture_config \<Rightarrow> (frame_env \<times> captured_frame) list \<Rightarrow> capture_worker \<Rightarrow> capture_worker \<Rightarrow> bool" where
  "advances cfg frames w v \<longleftrightarrow> shards_ok (pd_fragments (cw_decoder v)) \<and>
     lo_ignored_source_mac (cw_observer v) = lo_ignored_source_mac (cw_observer w) \<and>
     (\<exists>new. cw_sent v = cw_sent w @ new \<and> list_all (gated cfg (lo_ignored_source_mac (cw_observer w)) frames) new)"

lemma advances_refl: "shards_ok (pd_fragments (cw_decoder w)) \<Longrightarrow> advances cfg frames w w"
  by (simp add: advances_def)

lemma gated_mono: "gated cfg own frames e \<Longrightarrow> set frames \<subseteq> set more_frames \<Longrightarrow> gated cfg own more_frames e"
  by (auto simp: gated_def list_ex_iff)

lemma advances_trans:
  assumes "advances cfg xs u v" and "advances cfg ys v w"
  shows "advances cfg (xs @ ys) u w"
proof -
  obtain n1 n2 where "cw_sent v = cw_sent u @ n1" "list_all (gated cfg (lo_ignored_source_mac (cw_observer u)) xs) n1"
    "cw_sent w = cw_sent v @ n2" "list_all (gated cfg (lo_ignored_source_mac (cw_observer u)) ys) n2"
    using assms by (auto simp: advances_def)
  with assms show ?thesis
    unfolding advances_def by (auto simp: list_all_iff intro!: exI [of _ "n1 @ n2"] elim!: gated_mono)
qed

lemma advances_same:
  assumes "advances cfg frames w v" and "cw_sent v' = cw_sent v" and "cw_decoder v' = cw_decoder v"
    and "lo_ignored_source_mac (cw_observer v') = lo_ignored_source_mac (cw_observer v)"
  shows "advances cfg frames w v'"
  using assms by (simp add: advances_def)

lemma observe_mac [simp]:
  "lo_ignored_source_mac (fst (observe_ipv4_source ck ts len ip lo t)) = lo_ignored_source_mac lo"
  "lo_ignored_source_mac (fst (flush_if_due ck lo t)) = lo_ignored_source_mac lo"
  "lo_ignored_source_mac (fst (flush_observer ck lo t)) = lo_ignored_source_mac lo"
  by (simp_all add: observe_ipv4_source_def flush_if_due_def flush_observer_def Let_def)

lemma observe_macD: "observe_ipv4_source ck ts len ip lo t = (lo', t') \<Longrightarrow> lo_ignored_source_mac lo' = lo_ignored_source_mac lo"
  using observe_mac (1) [of ck ts len ip lo t] by simp

lemma observe_packet_frame [simp]:
  "cw_sent (observe_packet fe ignored p w) = cw_sent w" "cw_decoder (observe_packet fe ignored p w) = cw_decoder w"
  "lo_ignored_source_mac (cw_observer (observe_packet fe ignored p w)) = lo_ignored_source_mac (cw_observer w)"
  by (auto simp: observe_packet_def Let_def split: ip_addr.splits prod.splits dest: observe_macD)

lemma ignores_own_mac: "ignores_ethernet_frame lo frame = from_own_mac (lo_ignored_source_mac lo) frame"
  by (simp add: ignores_ethernet_frame_def from_own_mac_def)

lemma handle_packet_advances:
  assumes "handle_decoded_packet cfg fe ignored p w = Some (v, go)" and "shards_ok (pd_fragments (cw_decoder w))"
    and "pkt_ts_ns p = cf_ts_ns frame" and "ignored = from_own_mac (lo_ignored_source_mac (cw_observer w)) (cf_data frame)"
  shows "advances cfg [(fe, frame)] w v"
proof (cases "service_flow_visible (packet_scope (fe_services fe) p) (cc_effective_mode cfg) ignored")
  case True
  with assms show ?thesis
    by (cases "fe_send fe") (auto simp: handle_decoded_packet_def send_packet_def Let_def advances_def gated_def split: if_splits prod.splits)
next
  case False
  with assms show ?thesis by (auto simp: handle_decoded_packet_def Let_def advances_def)
qed

lemma decode_frame_advances:
  assumes "decode_frame cfg fe frame ignored w = Some (v, go)" and ok: "shards_ok (pd_fragments (cw_decoder w))"
    and "ignored = from_own_mac (lo_ignored_source_mac (cw_observer w)) (cf_data frame)"
  shows "advances cfg [(fe, frame)] w v"
proof -
  have "inner_ok (decode_levels (fe_decode fe) (Suc max_tunnel_depth))" by (rule decode_levels_ok) simp_all
  then have "step_ok (cf_ts_ns frame) (cw_decoder w) (decode (fe_decode fe) (cw_decoder w) frame)"
    using ok unfolding decode_def inner_ok_def by blast
  then obtain r d' where d: "decode (fe_decode fe) (cw_decoder w) frame = Some (r, d')" "shards_ok (pd_fragments d')"
    "\<And>p. r = Inr (Packet p) \<Longrightarrow> packet_ok (cf_ts_ns frame) p" by (auto simp: step_ok_def elim!: returnsE)
  have step: "advances cfg [(fe, frame)] w (w\<lparr>cw_decoder := d'\<rparr>)" using d (2) by (simp add: advances_def)
  consider e where "r = Inl e" | "r = Inr PendingFragment" | "r = Inr Ignored" | p where "r = Inr (Packet p)"
    by (metis inner_outcome.exhaust obj_sumE)
  then show ?thesis
  proof cases
    case (4 p)
    have "advances cfg [(fe, frame)] (w\<lparr>cw_decoder := d'\<rparr>) v"
      by (rule handle_packet_advances [of _ _ ignored p _ _ go]) (use assms d 4 in \<open>simp_all add: decode_frame_def packet_ok_def\<close>)
    then show ?thesis by (simp add: advances_def)
  qed (use assms (1) d (1) step in \<open>auto simp: decode_frame_def elim!: advances_same\<close>)
qed

lemma handle_frame_advances:
  assumes "shards_ok (pd_fragments (cw_decoder w))" and "cc_flow_shards cfg > 0"
  shows "\<exists>v go. handle_frame cfg fe frame w = Some (v, go) \<and> advances cfg [(fe, frame)] w v"
proof -
  let ?i = "ignores_ethernet_frame (cw_observer w) (cf_data frame)" and ?w = "receive_frame fe frame w"
  have w: "advances cfg [(fe, frame)] w ?w" using assms (1) by (simp add: advances_def)
  obtain may where may: "frame_may_belong_to_service (cf_data frame) (fe_prefilter_services fe) (cc_tunnel_decapsulation cfg)
      (local_egress_for (cc_effective_mode cfg) ?i) = Some may" using prefilter_total by blast
  obtain r d' where "decode (fe_decode fe) (cw_decoder ?w) frame = Some (r, d')"
    using decode_total [OF assms (1)] by (metis receive_frame_frame (4))
  from decode_frame_total [OF this assms (2)] obtain v go where v: "decode_frame cfg fe frame ?i ?w = Some (v, go)" by blast
  have "advances cfg [(fe, frame)] ?w v"
    by (rule decode_frame_advances [OF v]) (simp_all add: assms ignores_own_mac)
  then have "advances cfg [(fe, frame)] w v" by (simp add: advances_def)
  with may v w show ?thesis
    by (cases may) (auto simp: handle_frame_def elim!: advances_same)
qed

lemma handle_batch_advances:
  assumes "shards_ok (pd_fragments (cw_decoder w))" and "cc_flow_shards cfg > 0"
  shows "\<exists>v go. handle_batch cfg frames w = Some (v, go) \<and> advances cfg frames w v"
  using assms (1)
proof (induction frames arbitrary: w)
  case Nil
  then show ?case by (auto simp: advances_refl)
next
  case (Cons x frames)
  obtain fe frame where x: "x = (fe, frame)" by fastforce
  obtain v go where v: "handle_frame cfg fe frame w = Some (v, go)" "advances cfg [(fe, frame)] w v"
    using handle_frame_advances [OF Cons.prems assms (2)] by blast
  then have "shards_ok (pd_fragments (cw_decoder v))" by (simp add: advances_def)
  from Cons.IH [OF this] obtain u go' where u: "handle_batch cfg frames v = Some (u, go')" "advances cfg frames v u" by blast
  have "advances cfg (x # frames) w u" using advances_trans [OF v (2) u (2)] x by simp
  moreover have "advances cfg (x # frames) w v"
    using advances_trans [OF v (2) advances_refl [of v cfg frames]] v (2) x by (simp add: advances_def)
  ultimately show ?case using v (1) u (1) x by (cases go) auto
qed

definition round_frames :: "round_env \<Rightarrow> (frame_env \<times> captured_frame) list" where
  "round_frames re = (case re_receive re of Received frames \<Rightarrow> frames | ReceiveFailed \<Rightarrow> [])"

lemma round_parts_frame [simp]:
  "cw_sent (flush_worker ck w) = cw_sent w" "cw_decoder (flush_worker ck w) = cw_decoder w"
  "lo_ignored_source_mac (cw_observer (flush_worker ck w)) = lo_ignored_source_mac (cw_observer w)"
  "cw_sent (stop_worker ck w) = cw_sent w" "cw_decoder (stop_worker ck w) = cw_decoder w"
  "lo_ignored_source_mac (cw_observer (stop_worker ck w)) = lo_ignored_source_mac (cw_observer w)"
  "cw_sent (poll_stats res w) = cw_sent w" "cw_decoder (poll_stats res w) = cw_decoder w" "cw_observer (poll_stats res w) = cw_observer w"
  "cw_sent (fst (update_filter cfg re w)) = cw_sent w" "cw_decoder (fst (update_filter cfg re w)) = cw_decoder w"
  "cw_observer (fst (update_filter cfg re w)) = cw_observer w"
  by (auto simp: flush_worker_def stop_worker_def poll_stats_def update_filter_def Let_def flush_if_due_def flush_observer_def count_metric_def
      split: prod.splits stats_result.splits filter_result.splits)

lemma receive_round_advances:
  assumes "shards_ok (pd_fragments (cw_decoder w))" and "cc_flow_shards cfg > 0"
  shows "\<exists>v go. receive_round cfg re w = Some (v, go) \<and> advances cfg (round_frames re) w v"
proof (cases "re_receive re")
  case ReceiveFailed
  then show ?thesis using assms (1) by (auto simp: receive_round_def advances_def)
next
  case (Received frames)
  obtain v go where "handle_batch cfg frames w = Some (v, go)" "advances cfg frames w v"
    using handle_batch_advances [OF assms] by blast
  with Received assms (1) show ?thesis
    by (cases frames; cases go) (auto simp: receive_round_def round_frames_def advances_def)
qed

lemma capture_round_advances:
  assumes "shards_ok (pd_fragments (cw_decoder w))" and "cc_flow_shards cfg > 0"
  shows "\<exists>v go. capture_round cfg re w = Some (v, go) \<and> advances cfg (round_frames re) w v"
proof -
  obtain u go where u: "update_filter cfg re w = (u, go)" by fastforce
  then have [simp]: "cw_sent u = cw_sent w" "cw_decoder u = cw_decoder w" "cw_observer u = cw_observer w"
    using round_parts_frame (10-12) [of cfg re w] by simp_all
  have "shards_ok (pd_fragments (cw_decoder (poll_stats (re_stats re) u)))" using assms (1) by simp
  from receive_round_advances [OF this assms (2)] obtain v go' where
    "receive_round cfg re (poll_stats (re_stats re) u) = Some (v, go')" "advances cfg (round_frames re) (poll_stats (re_stats re) u) v"
    by blast
  with u assms (1) show ?thesis by (auto simp: capture_round_def advances_def)
qed

lemma capture_loop_advances:
  assumes "shards_ok (pd_fragments (cw_decoder w))" and "cc_flow_shards cfg > 0"
  shows "\<exists>v go. capture_loop cfg rounds w = Some (v, go) \<and> advances cfg (concat (map round_frames rounds)) w v"
  using assms (1)
proof (induction rounds arbitrary: w)
  case Nil
  then show ?case by (auto simp: advances_refl)
next
  case (Cons re rounds)
  obtain v go where v: "capture_round cfg re w = Some (v, go)" "advances cfg (round_frames re) w v"
    using capture_round_advances [OF Cons.prems assms (2)] by blast
  then have ok: "shards_ok (pd_fragments (cw_decoder v))" by (simp add: advances_def)
  from Cons.IH [OF this] obtain u go' where u: "capture_loop cfg rounds v = Some (u, go')"
    "advances cfg (concat (map round_frames rounds)) v u" by blast
  have "advances cfg (concat (map round_frames (re # rounds))) w u" using advances_trans [OF v (2) u (2)] by simp
  moreover have "advances cfg (concat (map round_frames (re # rounds))) w v"
    using advances_trans [OF v (2) advances_refl [OF ok, of cfg "concat (map round_frames rounds)"]] by simp
  ultimately show ?case using v (1) u (1) by (cases go) auto
qed

lemma visible_destination:
  "service_flow_visible (packet_scope services p) mode own \<Longrightarrow> mode = AfXdp \<or> mode = PcapLive \<and> \<not> own \<Longrightarrow>
   accepts_port services (ep_port (destination_endpoint p))"
  by (auto simp: service_flow_visible_def packet_scope_def Let_def)

text \<open>C31: A capture worker's loop always goes on or stops, it never panics, whatever the backend delivers and however
  the registry changes meanwhile. What it sends to the flow engine only ever grows, and every packet it adds comes
  from a delivered frame, goes to the shard of its flow and passed the service gate: on a live interface the
  destination port of a packet of a remote sender is that of a configured service.\<close>

theorem capture_gate:
  assumes "shards_ok (pd_fragments (cw_decoder w))" and "cc_flow_shards cfg > 0"
  shows "\<exists>v go new. capture_loop cfg rounds w = Some (v, go) \<and> cw_sent v = cw_sent w @ new \<and>
    list_all (\<lambda>(idx, p). idx = flow_shard (cc_shard_seed cfg) (cc_flow_shards cfg) p \<and>
      list_ex (\<lambda>(fe, frame). pkt_ts_ns p = cf_ts_ns frame \<and>
        service_flow_visible (packet_scope (fe_services fe) p) (cc_effective_mode cfg)
          (from_own_mac (lo_ignored_source_mac (cw_observer w)) (cf_data frame)) \<and>
        (cc_effective_mode cfg = AfXdp \<or>
         cc_effective_mode cfg = PcapLive \<and> \<not> from_own_mac (lo_ignored_source_mac (cw_observer w)) (cf_data frame)
           \<longrightarrow> accepts_port (fe_services fe) (ep_port (destination_endpoint p))))
        (concat (map round_frames rounds))) new"
proof -
  obtain v go new where v: "capture_loop cfg rounds w = Some (v, go)" "cw_sent v = cw_sent w @ new"
    "list_all (gated cfg (lo_ignored_source_mac (cw_observer w)) (concat (map round_frames rounds))) new"
    using capture_loop_advances [OF assms] unfolding advances_def by blast
  show ?thesis
    by (rule exI [of _ v], rule exI [of _ go], rule exI [of _ new], intro conjI v (1, 2), rule list.pred_mono_strong [OF v (3)])
      (use visible_destination in \<open>fastforce simp: gated_def list_ex_iff split: prod.splits\<close>)
qed

subsection \<open>A worker to start from\<close>

definition sample_service :: service_config where
  "sample_service = \<lparr>svc_port = 8080, svc_name = ''web'', svc_http = True, svc_urldecode_http_requests = False,
     svc_merge_adjacent_packets = False, svc_parse_websockets = False\<rparr>"

definition sample_clock :: topo_clock where
  "sample_clock = \<lparr>ck_elapsed = 0, ck_merge = 0, ck_second = 0, ck_flush = 0\<rparr>"

definition sample_worker :: "bytes option \<Rightarrow> capture_worker" where
  "sample_worker own =
     \<lparr>cw_decoder = stateless 0, cw_observer = new_observer own 0, cw_tracker = new_tracker 24 60 100,
      cw_metrics = \<lparr>cm_frames = 0, cm_frame_bytes = 0, cm_raw_drops = 0, cm_filtered = 0, cm_drops = 0, cm_ignored = 0,
        cm_parse_errors = 0, cm_backend_drops = 0, cm_backend_invalid_descs = 0, cm_flow_queue_depth = 0,
        cm_flow_queue_high_watermark = 0\<rparr>,
      cw_sent = [], cw_generation = 0, cw_last_stats = \<lparr>st_dropped = 0, st_invalid_descs = 0\<rparr>\<rparr>"

definition sample_frame_env :: frame_env where
  "sample_frame_env =
     \<lparr>fe_decode = \<lparr>env_hash = (\<lambda>_. 0), env_clk = (\<lambda>_. 5)\<rparr>, fe_prefilter_services = new_registry [sample_service],
      fe_services = new_registry [sample_service], fe_topo = sample_clock, fe_raw = None, fe_send = SendOk\<rparr>"

definition sample_config :: capture_config where
  "sample_config = \<lparr>cc_requested_mode = PcapLive, cc_effective_mode = PcapLive, cc_tunnel_decapsulation = True,
     cc_early_port_filter = True, cc_flow_shards = 4, cc_shard_seed = 7\<rparr>"

text \<open>An Ethernet frame of a TCP segment between two hosts.\<close>

definition sample_tcp_frame :: "byte list \<Rightarrow> byte list \<Rightarrow> captured_frame" where
  "sample_tcp_frame sport dport = \<lparr>cf_ts_ns = 9, cf_wire_len = 54, cf_data =
     [2, 0, 0, 0, 0, 1, 2, 0, 0, 0, 0, 2, 8, 0] @
     [0x45, 0, 0, 40, 0, 0, 0, 0, 64, 6, 0, 0, 192, 168, 0, 2, 192, 168, 0, 10] @
     sport @ dport @ [0, 0, 0, 1, 0, 0, 0, 0, 0x50, 0x18, 0, 0, 0, 0, 0, 0]\<rparr>"

lemmas sample_defs = sample_service_def sample_clock_def sample_worker_def sample_frame_env_def sample_config_def sample_tcp_frame_def

theorem prefilter_equivalent_witness:
  "\<exists>v1 v2 go. handle_frame sample_config sample_frame_env (sample_tcp_frame [0x9c, 0x40] [0x27, 0x0f]) (sample_worker None) = Some (v1, go) \<and>
     handle_every_frame sample_config sample_frame_env (sample_tcp_frame [0x9c, 0x40] [0x27, 0x0f]) (sample_worker None) = Some (v2, go) \<and>
     seen_alike v1 v2"
  by (rule prefilter_equivalent)
    (simp_all add: sample_defs stateless_def new_shards_ok registry_is_empty_def new_registry_def ignores_ethernet_frame_def new_observer_def)

theorem capture_gate_witness:
  "\<exists>v go new. capture_loop sample_config
       [\<lparr>re_shutdown = False, re_services = new_registry [sample_service], re_filter = FailOpen, re_stats = NoStats,
         re_receive = Received [(sample_frame_env, sample_tcp_frame [0x9c, 0x40] [0x1f, 0x90])], re_flush = sample_clock\<rparr>]
       (sample_worker None) = Some (v, go) \<and> cw_sent v = cw_sent (sample_worker None) @ new"
proof -
  have "shards_ok (pd_fragments (cw_decoder (sample_worker None)))" "cc_flow_shards sample_config > 0"
    by (simp_all add: sample_defs stateless_def new_shards_ok)
  from capture_gate [OF this] show ?thesis by blast
qed

text \<open>
  Frames this host sends are where the two gates part: the gate behind the decoder also lets through a packet to a
  configured port of another host, the rejection before decoding asks for a configured source port only.
\<close>

lemma local_egress_gates_differ:
  "frame_may_belong_to_service (cf_data (sample_tcp_frame [0x9c, 0x40] [0x1f, 0x90])) (new_registry [sample_service]) True (Some True) = Some False"
  "destination_endpoint p = Endpoint dst 8080 \<Longrightarrow>
   service_flow_visible (packet_scope (new_registry [sample_service]) p) PcapLive True"
proof -
  show "frame_may_belong_to_service (cf_data (sample_tcp_frame [0x9c, 0x40] [0x1f, 0x90])) (new_registry [sample_service]) True (Some True) = Some False"
    by code_simp
  assume "destination_endpoint p = Endpoint dst 8080"
  then show "service_flow_visible (packet_scope (new_registry [sample_service]) p) PcapLive True"
    by (simp add: service_flow_visible_def packet_scope_def accepts_port_def new_registry_def sample_service_def)
qed

end
