(* ===== verification/Matching.thy ===== *)
theory Matching
  imports Bazalt_Events Rust_Text
begin

text \<open>
  Pattern matching, \<open>src/src/matching/mod.rs\<close>: compiling patterns into groups, scanning a content record behind
  the tail of its stream, the live matcher's worker with its ingress, and the scanner of a replay.

  The search libraries are parameters, the fields of \<open>match_lib\<close>: \<open>ml_literals\<close> is \<open>AhoCorasick::find_iter\<close>
  (pattern number, start, end), \<open>ml_regex_set\<close> and \<open>ml_regex\<close> are \<open>RegexSet::matches\<close> and
  \<open>Regex::find_iter\<close>, \<open>ml_hex\<close> is \<open>hex::decode\<close>, and the remaining fields say which inputs the constructors
  accept. Text is the list of its bytes. Offsets are natural numbers, their sums stay within 64 bits. Hash maps
  are association lists; instants are nanoseconds. \<open>None\<close> stands for a panic.
\<close>

subsection \<open>Patterns\<close>

record match_lib =
  ml_hex :: "bytes \<Rightarrow> bytes option"
  ml_literals_ok :: "bytes list \<Rightarrow> bool"
  ml_literals :: "bytes list \<Rightarrow> bytes \<Rightarrow> (nat \<times> nat \<times> nat) list"
  ml_regex_ok :: "string \<Rightarrow> bool"
  ml_regex_set_ok :: "string list \<Rightarrow> bool"
  ml_regex_set :: "string list \<Rightarrow> bytes \<Rightarrow> nat list"
  ml_regex :: "string \<Rightarrow> bytes \<Rightarrow> (nat \<times> nat) list"

datatype match_error =
    EmptyName | EmptyExpression | InvalidHex | EmptyBinary | LiteralsFailed | RegexSetFailed | RegexFailed

definition decode_binary :: "match_lib \<Rightarrow> string \<Rightarrow> match_error + bytes" where
  "decode_binary lib v =
     (let compact = filter (\<lambda>b. \<not> is_ascii_whitespace b \<and> b \<noteq> 58) (as_bytes v) in
      case ml_hex lib compact of
        None \<Rightarrow> Inl InvalidHex
      | Some bs \<Rightarrow> if bs = [] then Inl EmptyBinary else Inr bs)"

record new_pattern =
  np_name :: string
  np_expression :: string
  np_kind :: pattern_kind

definition validate_new_pattern :: "match_lib \<Rightarrow> new_pattern \<Rightarrow> match_error + unit" where
  "validate_new_pattern lib p =
     (if trim (as_bytes (np_name p)) = [] then Inl EmptyName
      else if np_expression p = [] then Inl EmptyExpression
      else
        (case np_kind p of
           BinaryPattern \<Rightarrow> map_sum id (\<lambda>_. ()) (decode_binary lib (np_expression p))
         | RegexPattern \<Rightarrow> if ml_regex_ok lib (np_expression p) then Inr () else Inl RegexFailed
         | TextPattern \<Rightarrow> Inr ()))"

subsection \<open>Limits\<close>

record match_limiter =
  mt_per_pattern :: "((uuid \<times> int) \<times> nat) list"
  mt_candidates :: nat
  mt_max_per_pattern :: nat
  mt_max_total :: nat
  mt_limited :: bool

definition new_limiter :: "nat \<Rightarrow> nat \<Rightarrow> match_limiter" where
  "new_limiter max_per_pattern max_total =
     \<lparr>mt_per_pattern = [], mt_candidates = 0, mt_max_per_pattern = max_per_pattern, mt_max_total = max_total, mt_limited = False\<rparr>"

definition exhausted :: "match_limiter \<Rightarrow> bool" where
  "exhausted lim \<longleftrightarrow> mt_candidates lim \<ge> mt_max_total lim"

definition pattern_key :: "pattern_revision \<Rightarrow> uuid \<times> int" where
  "pattern_key p = (pr_id p, pr_revision p)"

definition pattern_count :: "match_limiter \<Rightarrow> uuid \<times> int \<Rightarrow> nat" where
  "pattern_count lim k = (case map_of (mt_per_pattern lim) k of None \<Rightarrow> 0 | Some n \<Rightarrow> n)"

type_synonym scan_state = "match_record list \<times> match_limiter"

definition limiter_push :: "pattern_revision \<Rightarrow> match_record \<Rightarrow> scan_state \<Rightarrow> scan_state" where
  "limiter_push p hit st =
     (case st of (out, lim) \<Rightarrow>
        if exhausted lim then (out, lim\<lparr>mt_limited := True\<rparr>)
        else
          let lim = lim\<lparr>mt_candidates := mt_candidates lim + 1\<rparr>; n = pattern_count lim (pattern_key p) in
          if n \<ge> mt_max_per_pattern lim
          then (out, lim\<lparr>mt_per_pattern := AList.update (pattern_key p) n (mt_per_pattern lim), mt_limited := True\<rparr>)
          else (out @ [hit], lim\<lparr>mt_per_pattern := AList.update (pattern_key p) (n + 1) (mt_per_pattern lim)\<rparr>))"

definition hit_limit :: "scan_state \<Rightarrow> scan_state" where
  "hit_limit st = (fst st, (snd st)\<lparr>mt_limited := True\<rparr>)"

subsection \<open>Groups\<close>

record compiled_group =
  cg_literals :: "bytes list"
  cg_literal_meta :: "pattern_revision list"
  cg_regexes :: "string list"
  cg_regex_meta :: "pattern_revision list"
  cg_max_literal_len :: nat

definition empty_group :: compiled_group where
  "empty_group = \<lparr>cg_literals = [], cg_literal_meta = [], cg_regexes = [], cg_regex_meta = [], cg_max_literal_len = 0\<rparr>"

definition add_literal :: "pattern_revision \<Rightarrow> bytes \<Rightarrow> compiled_group \<Rightarrow> compiled_group" where
  "add_literal p bs g =
     g\<lparr>cg_max_literal_len := max (cg_max_literal_len g) (length bs), cg_literals := cg_literals g @ [bs],
       cg_literal_meta := cg_literal_meta g @ [p]\<rparr>"

fun group_patterns :: "match_lib \<Rightarrow> pattern_revision list \<Rightarrow> compiled_group \<Rightarrow> match_error + compiled_group" where
  "group_patterns lib [] g = Inr g"
| "group_patterns lib (p # ps) g =
     (case pr_kind p of
        TextPattern \<Rightarrow> group_patterns lib ps (add_literal p (as_bytes (pr_expression p)) g)
      | BinaryPattern \<Rightarrow> and_then (decode_binary lib (pr_expression p)) (\<lambda>bs. group_patterns lib ps (add_literal p bs g))
      | RegexPattern \<Rightarrow>
          group_patterns lib ps (g\<lparr>cg_regexes := cg_regexes g @ [pr_expression p], cg_regex_meta := cg_regex_meta g @ [p]\<rparr>))"

definition compile_group :: "match_lib \<Rightarrow> pattern_revision list \<Rightarrow> match_error + compiled_group" where
  "compile_group lib ps =
     and_then (group_patterns lib ps empty_group) (\<lambda>g.
       if cg_literals g \<noteq> [] \<and> \<not> ml_literals_ok lib (cg_literals g) then Inl LiteralsFailed
       else if cg_regexes g \<noteq> [] \<and> \<not> ml_regex_set_ok lib (cg_regexes g) then Inl RegexSetFailed
       else if \<not> list_all (ml_regex_ok lib) (cg_regexes g) then Inl RegexFailed
       else Inr g)"

definition group_overlap :: "nat \<Rightarrow> compiled_group \<Rightarrow> nat" where
  "group_overlap regex_overlap g =
     (let literal = cg_max_literal_len g - 1 in if cg_regexes g \<noteq> [] then max literal regex_overlap else literal)"

definition match_record_of :: "pattern_revision \<Rightarrow> content_record \<Rightarrow> nat \<Rightarrow> nat \<Rightarrow> bool \<Rightarrow> match_record" where
  "match_record_of p r start stop historical =
     \<lparr>mr_timestamp = ns_to_datetime (cr_ts_ns r), mr_pattern_id = pr_id p, mr_pattern_revision = pr_revision p,
      mr_flow_id = cr_flow_id r, mr_content_id = cr_id r, mr_view = cr_view r, mr_action = pr_action p,
      mr_offset_start = start, mr_offset_end = stop, mr_historical = historical\<rparr>"

subsection \<open>Scanning\<close>

text \<open>
  The loop over the matches of a search: it stops the whole scan when the limit is reached (\<open>False\<close>). \<open>wanted\<close>
  is the loop's condition on the offsets of a match.
\<close>

fun push_matches ::
  "pattern_revision list \<Rightarrow> content_record \<Rightarrow> bool \<Rightarrow> nat \<Rightarrow> (nat \<Rightarrow> nat \<Rightarrow> bool) \<Rightarrow> (nat \<times> nat \<times> nat) list \<Rightarrow> scan_state \<Rightarrow>
   (scan_state \<times> bool) option" where
  "push_matches metas r historical base wanted [] st = Some (st, True)"
| "push_matches metas r historical base wanted ((i, s, e) # ms) st =
     (if exhausted (snd st) then Some (hit_limit st, False)
      else if i \<ge> length metas then None
      else
        let start = base + s; stop = base + e in
        push_matches metas r historical base wanted ms
          (if wanted start stop then limiter_push (metas ! i) (match_record_of (metas ! i) r start stop historical) st else st))"

definition scan_bridge ::
  "match_lib \<Rightarrow> compiled_group \<Rightarrow> content_record \<Rightarrow> bytes \<Rightarrow> bool \<Rightarrow> scan_state \<Rightarrow> (scan_state \<times> bool) option" where
  "scan_bridge lib g r tail historical st =
     (if tail \<noteq> [] \<and> cg_max_literal_len g > 1 then
        let literal_keep = cg_max_literal_len g - 1;
            literal_prefix = drop (length tail - literal_keep) tail;
            bridge_current = min literal_keep (length (cr_data r));
            bridge = literal_prefix @ take bridge_current (cr_data r);
            base_offset = cr_stream_offset r - length literal_prefix
        in push_matches (cg_literal_meta g) r historical base_offset
             (\<lambda>start stop. start < cr_stream_offset r \<and> stop > cr_stream_offset r) (ml_literals lib (cg_literals g) bridge) st
      else Some (st, True))"

definition scan_literals ::
  "match_lib \<Rightarrow> compiled_group \<Rightarrow> content_record \<Rightarrow> bytes \<Rightarrow> bool \<Rightarrow> scan_state \<Rightarrow> (scan_state \<times> bool) option" where
  "scan_literals lib g r tail historical st =
     (if cg_literals g = [] then Some (st, True)
      else do {
        (st, go) \<leftarrow> scan_bridge lib g r tail historical st;
        if \<not> go then Some (st, False)
        else push_matches (cg_literal_meta g) r historical (cr_stream_offset r) (\<lambda>_ _. True)
               (ml_literals lib (cg_literals g) (cr_data r)) st
      })"

text \<open>The loop over the regular expressions that the set reports.\<close>

fun scan_regexes ::
  "match_lib \<Rightarrow> compiled_group \<Rightarrow> content_record \<Rightarrow> bool \<Rightarrow> bytes \<Rightarrow> nat \<Rightarrow> nat option \<Rightarrow> nat list \<Rightarrow> scan_state \<Rightarrow>
   (scan_state \<times> bool) option" where
  "scan_regexes lib g r historical combined base boundary [] st = Some (st, True)"
| "scan_regexes lib g r historical combined base boundary (i # idxs) st =
     (if exhausted (snd st) then Some (hit_limit st, False)
      else if i \<ge> length (cg_regex_meta g) \<or> i \<ge> length (cg_regexes g) then None
      else do {
        (st, go) \<leftarrow> push_matches [cg_regex_meta g ! i] r historical base
                      (\<lambda>start stop. \<not> (case boundary of Some b \<Rightarrow> stop \<le> b | None \<Rightarrow> False))
                      (map (\<lambda>(s, e). (0, s, e)) (ml_regex lib (cg_regexes g ! i) combined)) st;
        if go then scan_regexes lib g r historical combined base boundary idxs st else Some (st, False)
      })"

definition scan_into ::
  "match_lib \<Rightarrow> compiled_group \<Rightarrow> content_record \<Rightarrow> bytes \<Rightarrow> bool \<Rightarrow> scan_state \<Rightarrow> scan_state option" where
  "scan_into lib g r tail historical st = do {
     (st, go) \<leftarrow> scan_literals lib g r tail historical st;
     if \<not> go \<or> cg_regexes g = [] then Some st
     else if exhausted (snd st) then Some (hit_limit st)
     else do {
       let (combined, base, boundary) =
             (if tail = [] then (cr_data r, cr_stream_offset r, None)
              else (tail @ cr_data r, cr_stream_offset r - length tail, Some (cr_stream_offset r)));
       (st, _) \<leftarrow> scan_regexes lib g r historical combined base boundary (ml_regex_set lib (cg_regexes g) combined) st;
       Some st
     }
   }"

subsection \<open>Sets of patterns\<close>

definition views_for_pattern :: "pattern_revision \<Rightarrow> content_view list" where
  "views_for_pattern p =
     (let inputs = [HttpRequestHeaders, HttpRequestBody, HttpRequestDecodedBody];
          outputs = [HttpResponseHeaders, HttpResponseBody, HttpResponseDecodedBody]
      in case pr_view p of
           Some view \<Rightarrow>
             if (case pr_direction_type p of
                   BothDirections \<Rightarrow> True | InputDirection \<Rightarrow> view \<in> set inputs | OutputDirection \<Rightarrow> view \<in> set outputs)
             then [view] else []
         | None \<Rightarrow>
             (case pr_direction_type p of
                InputDirection \<Rightarrow> inputs
              | OutputDirection \<Rightarrow> outputs
              | BothDirections \<Rightarrow> [TcpRaw, HttpRequestDecodedBody, HttpResponseDecodedBody]))"

record pattern_set =
  ps_global :: "(content_view \<times> compiled_group) list"
  ps_service :: "(string \<times> (content_view \<times> compiled_group) list) list"
  ps_ignore_revisions :: "(uuid \<times> int) list"

type_synonym buckets = "(content_view \<times> pattern_revision list) list"

definition push_bucket :: "pattern_revision \<Rightarrow> content_view \<Rightarrow> buckets \<Rightarrow> buckets" where
  "push_bucket p view b = AList.update view ((case map_of b view of None \<Rightarrow> [] | Some ps \<Rightarrow> ps) @ [p]) b"

definition bucket_pattern :: "pattern_revision \<Rightarrow> buckets \<times> (string \<times> buckets) list \<Rightarrow> buckets \<times> (string \<times> buckets) list" where
  "bucket_pattern p bs =
     fold (\<lambda>view (globals, services).
       case pr_service p of
         Some service \<Rightarrow>
           (globals, AList.update service
              (push_bucket p view (case map_of services service of None \<Rightarrow> [] | Some b \<Rightarrow> b)) services)
       | None \<Rightarrow> (push_bucket p view globals, services)) (views_for_pattern p) bs"

fun compile_buckets :: "match_lib \<Rightarrow> buckets \<Rightarrow> match_error + (content_view \<times> compiled_group) list" where
  "compile_buckets lib [] = Inr []"
| "compile_buckets lib ((view, ps) # bs) =
     and_then (compile_group lib ps) (\<lambda>g. and_then (compile_buckets lib bs) (\<lambda>gs. Inr ((view, g) # gs)))"

fun compile_services ::
  "match_lib \<Rightarrow> (string \<times> buckets) list \<Rightarrow> match_error + (string \<times> (content_view \<times> compiled_group) list) list" where
  "compile_services lib [] = Inr []"
| "compile_services lib ((service, b) # bs) =
     and_then (compile_buckets lib b) (\<lambda>gs. and_then (compile_services lib bs) (\<lambda>ss. Inr ((service, gs) # ss)))"

definition compile_set :: "match_lib \<Rightarrow> pattern_revision list \<Rightarrow> match_error + pattern_set" where
  "compile_set lib ps =
     (let enabled = filter pr_enabled ps;
          ignored = map pattern_key (filter (\<lambda>p. pr_action p = Ignore) enabled);
          (globals, services) = fold bucket_pattern enabled ([], [])
      in and_then (compile_buckets lib globals) (\<lambda>gs.
           and_then (compile_services lib services) (\<lambda>ss.
             Inr \<lparr>ps_global = gs, ps_service = ss, ps_ignore_revisions = ignored\<rparr>)))"

definition content_view_bit :: "content_view \<Rightarrow> u64" where
  "content_view_bit view =
     push_bit (case view of TcpRaw \<Rightarrow> 0 | HttpRequestHeaders \<Rightarrow> 1 | HttpRequestBody \<Rightarrow> 2 | HttpRequestDecodedBody \<Rightarrow> 3
                 | HttpResponseHeaders \<Rightarrow> 4 | HttpResponseBody \<Rightarrow> 5 | HttpResponseDecodedBody \<Rightarrow> 6) 1"

definition interest_mask :: "pattern_set \<Rightarrow> u64" where
  "interest_mask ps =
     fold (\<lambda>view mask. mask OR content_view_bit view)
       (map fst (ps_global ps) @ concat (map (map fst \<circ> snd) (ps_service ps))) 0"

definition groups_for :: "pattern_set \<Rightarrow> content_record \<Rightarrow> compiled_group option \<times> compiled_group option" where
  "groups_for ps r =
     (map_of (ps_global ps) (cr_view r),
      do { name \<leftarrow> cr_service r; groups \<leftarrow> map_of (ps_service ps) name; map_of groups (cr_view r) })"

definition is_interested :: "pattern_set \<Rightarrow> content_record \<Rightarrow> bool" where
  "is_interested ps r = (case groups_for ps r of (global, service) \<Rightarrow> global \<noteq> None \<or> service \<noteq> None)"

definition required_overlap :: "pattern_set \<Rightarrow> content_record \<Rightarrow> nat \<Rightarrow> nat" where
  "required_overlap ps r regex_overlap =
     (case groups_for ps r of (global, service) \<Rightarrow>
        let overlap = (\<lambda>g. case g of None \<Rightarrow> 0 | Some g \<Rightarrow> group_overlap regex_overlap g)
        in max (overlap global) (overlap service))"

record scan_outcome =
  sn_hits :: "match_record list"
  sn_limited :: bool

definition scan_bounded ::
  "match_lib \<Rightarrow> pattern_set \<Rightarrow> content_record \<Rightarrow> bytes \<Rightarrow> bool \<Rightarrow> nat \<Rightarrow> nat \<Rightarrow> scan_outcome option" where
  "scan_bounded lib ps r tail historical max_per_pattern max_total =
     (case groups_for ps r of (global, service) \<Rightarrow>
        if global = None \<and> service = None then Some \<lparr>sn_hits = [], sn_limited = False\<rparr>
        else do {
          let st = ([], new_limiter max_per_pattern max_total);
          st \<leftarrow> (case global of None \<Rightarrow> Some st | Some g \<Rightarrow> scan_into lib g r tail historical st);
          st \<leftarrow> (if \<not> exhausted (snd st)
                 then (case service of None \<Rightarrow> Some st | Some g \<Rightarrow> scan_into lib g r tail historical st)
                 else Some (if service \<noteq> None then hit_limit st else st));
          Some \<lparr>sn_hits = fst st, sn_limited = mt_limited (snd st)\<rparr>
        })"

end
