(* ===== verification/Matcher.thy ===== *)
theory Matcher
  imports Matching
begin

text \<open>
  The live matcher and the replay scanner of \<open>src/src/matching/mod.rs\<close>: the tail kept of every stream, the
  ingress with its interest mask and channels, the loop of a worker, and \<open>ReplayScanner\<close>.

  A worker's input comes with the instants it reads; whether the \<open>k\<close>-th metadata event is accepted is the
  parameter \<open>ok\<close>. The ingress loads mask, pattern set and generation one after the other, so the three values
  are arguments of their own; \<open>channel_result\<close> is how the bounded channel answers.
\<close>

subsection \<open>Tails\<close>

record stream_key =
  sk_flow_id :: uuid
  sk_direction :: direction
  sk_view :: content_view

definition key_of :: "content_record \<Rightarrow> stream_key" where
  "key_of r = \<lparr>sk_flow_id = cr_flow_id r, sk_direction = cr_direction r, sk_view = cr_view r\<rparr>"

record tail_state =
  ta_data :: bytes
  ta_end_offset :: nat
  ta_generation :: u64

definition prefix_for :: "tail_state \<Rightarrow> content_record \<Rightarrow> u64 \<Rightarrow> bytes" where
  "prefix_for t r gen = (if ta_generation t = gen \<and> ta_end_offset t = cr_stream_offset r then ta_data t else [])"

definition build_tail :: "bytes \<Rightarrow> bytes \<Rightarrow> nat \<Rightarrow> bytes" where
  "build_tail previous bs keep =
     (if keep = 0 then []
      else if length bs \<ge> keep then drop (length bs - keep) bs
      else
        let previous_keep = min (keep - length bs) (length previous)
        in drop (length previous - previous_keep) previous @ bs)"

subsection \<open>Ingress\<close>

datatype matcher_work =
    Content content_record pattern_set u64
  | FlowClosed uuid

record matcher_metrics =
  mm_queue_depth :: u64
  mm_queue_high_watermark :: u64
  mm_backpressure :: u64
  mm_drops :: u64
  mm_housekeeping_drops :: u64

record matcher_ingress =
  mi_shards :: nat
  mi_metrics :: matcher_metrics
  mi_queued :: "(nat \<times> matcher_work) list"

datatype channel_result = Accepted | FullThenAccepted | FullThenClosed | ChannelClosed

definition matcher_shard :: "nat \<Rightarrow> uuid \<Rightarrow> nat" where
  "matcher_shard shards fid = unat (ucast fid :: u64) mod shards"

definition is_interested_view :: "u64 \<Rightarrow> content_view \<Rightarrow> bool" where
  "is_interested_view interest view \<longleftrightarrow> interest AND content_view_bit view \<noteq> 0"

definition prepare_content :: "u64 \<Rightarrow> pattern_set \<Rightarrow> u64 \<Rightarrow> content_record \<Rightarrow> matcher_work option" where
  "prepare_content interest active generation_now r =
     (if interest AND content_view_bit (cr_view r) = 0 then None
      else if \<not> is_interested active r then None
      else Some (Content r active generation_now))"

definition enqueue_work :: "nat \<Rightarrow> matcher_work \<Rightarrow> matcher_ingress \<Rightarrow> matcher_ingress" where
  "enqueue_work idx work i =
     (let (depth, high) = queue_enqueued (mm_queue_depth (mi_metrics i)) (mm_queue_high_watermark (mi_metrics i))
      in i\<lparr>mi_metrics := (mi_metrics i)\<lparr>mm_queue_depth := depth, mm_queue_high_watermark := high\<rparr>,
           mi_queued := mi_queued i @ [(idx, work)]\<rparr>)"

definition count_matcher :: "(matcher_metrics \<Rightarrow> matcher_metrics) \<Rightarrow> matcher_ingress \<Rightarrow> matcher_ingress" where
  "count_matcher f i = i\<lparr>mi_metrics := f (mi_metrics i)\<rparr>"

definition send_content ::
  "u64 \<Rightarrow> pattern_set \<Rightarrow> u64 \<Rightarrow> channel_result \<Rightarrow> content_record \<Rightarrow> matcher_ingress \<Rightarrow> (bool \<times> matcher_ingress) option" where
  "send_content interest active generation_now res r i =
     (case prepare_content interest active generation_now r of
        None \<Rightarrow> Some (True, i)
      | Some work \<Rightarrow>
          if mi_shards i = 0 then None
          else
            let idx = matcher_shard (mi_shards i) (cr_flow_id r);
                pressure = count_matcher (\<lambda>m. m\<lparr>mm_backpressure := mm_backpressure m + 1\<rparr>);
                lost = count_matcher (\<lambda>m. m\<lparr>mm_drops := mm_drops m + 1\<rparr>)
            in Some (case res of
                 Accepted \<Rightarrow> (True, enqueue_work idx work i)
               | FullThenAccepted \<Rightarrow> (True, enqueue_work idx work (pressure i))
               | FullThenClosed \<Rightarrow> (False, lost (pressure i))
               | ChannelClosed \<Rightarrow> (False, lost i)))"

definition try_flow_closed :: "bool \<Rightarrow> uuid \<Rightarrow> matcher_ingress \<Rightarrow> (bool \<times> matcher_ingress) option" where
  "try_flow_closed accepted fid i =
     (if mi_shards i = 0 then None
      else Some (if accepted then (True, enqueue_work (matcher_shard (mi_shards i) fid) (FlowClosed fid) i)
                 else (False, count_matcher (\<lambda>m. m\<lparr>mm_housekeeping_drops := mm_housekeeping_drops m + 1\<rparr>) i)))"

text \<open>\<open>PatternManager::install_prepared\<close>: set, mask and generation as the ingress may load them.\<close>

record active_patterns =
  ap_set :: pattern_set
  ap_mask :: u64
  ap_generation :: u64

definition install_prepared :: "pattern_set \<Rightarrow> active_patterns \<Rightarrow> active_patterns" where
  "install_prepared ps a = \<lparr>ap_set = ps, ap_mask = interest_mask ps, ap_generation = ap_generation a + 1\<rparr>"

subsection \<open>The worker\<close>

record live_event =
  le_flow_id :: uuid
  le_pattern_id :: uuid
  le_timestamp :: timestamp
  le_service :: "string option"

record matcher_worker =
  mw_tails :: "(stream_key \<times> tail_state) list"
  mw_flow_tail_keys :: "(uuid \<times> stream_key list) list"
  mw_flow_last_seen :: "(uuid \<times> nat) list"
  mw_processed :: u64
  mw_sends :: nat
  mw_metadata :: "match_record list"
  mw_events :: "live_event list"
  mw_bytes :: u64
  mw_limit_events :: u64
  mw_matches :: u64
  mw_queue_depth :: u64

definition new_matcher :: "u64 \<Rightarrow> matcher_worker" where
  "new_matcher depth =
     \<lparr>mw_tails = [], mw_flow_tail_keys = [], mw_flow_last_seen = [], mw_processed = 0, mw_sends = 0, mw_metadata = [],
      mw_events = [], mw_bytes = 0, mw_limit_events = 0, mw_matches = 0, mw_queue_depth = depth\<rparr>"

record matcher_config =
  mc_overlap_limit :: nat
  mc_max_hits_per_pattern :: nat
  mc_max_hits_per_record :: nat

abbreviation tail_ttl :: nat where "tail_ttl \<equiv> 120000000000"

definition forget_flow :: "uuid \<Rightarrow> matcher_worker \<Rightarrow> matcher_worker" where
  "forget_flow fid w =
     (let w = w\<lparr>mw_flow_last_seen := AList.delete fid (mw_flow_last_seen w)\<rparr> in
      case map_of (mw_flow_tail_keys w) fid of
        None \<Rightarrow> w
      | Some keys \<Rightarrow> w\<lparr>mw_flow_tail_keys := AList.delete fid (mw_flow_tail_keys w), mw_tails := fold AList.delete keys (mw_tails w)\<rparr>)"

definition stale_flows :: "nat \<Rightarrow> matcher_worker \<Rightarrow> uuid list" where
  "stale_flows now w = map fst (filter (\<lambda>e. now - snd e \<ge> tail_ttl) (mw_flow_last_seen w))"

definition touch_flow :: "nat \<Rightarrow> nat \<Rightarrow> content_record \<Rightarrow> matcher_worker \<Rightarrow> matcher_worker" where
  "touch_flow seen now r w =
     (let w = w\<lparr>mw_flow_last_seen := AList.update (cr_flow_id r) seen (mw_flow_last_seen w), mw_processed := mw_processed w + 1\<rparr>
      in if mw_processed w AND 0x0fff = 0 then fold forget_flow (stale_flows now w) w else w)"

text \<open>The loop over the hits; \<open>False\<close> when the metadata channel is gone.\<close>

fun send_hits :: "(nat \<Rightarrow> bool) \<Rightarrow> content_record \<Rightarrow> match_record list \<Rightarrow> matcher_worker \<Rightarrow> matcher_worker \<times> bool" where
  "send_hits ok r [] w = (w, True)"
| "send_hits ok r (hit # hits) w =
     (let w = w\<lparr>mw_matches := mw_matches w + 1, mw_sends := mw_sends w + 1\<rparr> in
      if \<not> ok (mw_sends w - 1) then (w, False)
      else
        let w = w\<lparr>mw_metadata := mw_metadata w @ [hit],
                  mw_events := (if mr_action hit = Find
                    then mw_events w @ [\<lparr>le_flow_id = mr_flow_id hit, le_pattern_id = mr_pattern_id hit,
                                         le_timestamp = mr_timestamp hit, le_service = cr_service r\<rparr>]
                    else mw_events w)\<rparr>
        in send_hits ok r hits w)"

definition store_tail :: "content_record \<Rightarrow> u64 \<Rightarrow> nat \<Rightarrow> bytes \<Rightarrow> matcher_worker \<Rightarrow> matcher_worker" where
  "store_tail r gen keep tail w =
     (let key = key_of r in
      if keep = 0 then w\<lparr>mw_tails := AList.delete key (mw_tails w)\<rparr>
      else
        let tracked = (case map_of (mw_flow_tail_keys w) (cr_flow_id r) of None \<Rightarrow> [] | Some keys \<Rightarrow> keys);
            w = (if map_of (mw_tails w) key = None \<and> key \<notin> set tracked
                 then w\<lparr>mw_flow_tail_keys := AList.update (cr_flow_id r) (tracked @ [key]) (mw_flow_tail_keys w)\<rparr> else w)
        in w\<lparr>mw_tails := AList.update key
               \<lparr>ta_data = build_tail tail (cr_data r) keep,
                ta_end_offset = sat_add64 (cr_stream_offset r) (length (cr_data r)), ta_generation = gen\<rparr> (mw_tails w)\<rparr>)"

definition tail_for :: "(stream_key \<times> tail_state) list \<Rightarrow> content_record \<Rightarrow> u64 \<Rightarrow> bytes" where
  "tail_for tails r gen = (case map_of tails (key_of r) of None \<Rightarrow> [] | Some t \<Rightarrow> prefix_for t r gen)"

definition match_content ::
  "match_lib \<Rightarrow> matcher_config \<Rightarrow> (nat \<Rightarrow> bool) \<Rightarrow> content_record \<Rightarrow> pattern_set \<Rightarrow> u64 \<Rightarrow> matcher_worker \<Rightarrow>
   (matcher_worker \<times> bool) option" where
  "match_content lib cfg ok r ps gen w =
     (if \<not> is_interested ps r then Some (w\<lparr>mw_tails := AList.delete (key_of r) (mw_tails w)\<rparr>, True)
      else do {
        let w = w\<lparr>mw_bytes := mw_bytes w + of_nat (length (cr_data r))\<rparr>;
        let keep = required_overlap ps r (mc_overlap_limit cfg);
        let tail = tail_for (mw_tails w) r gen;
        scan \<leftarrow> scan_bounded lib ps r tail False (mc_max_hits_per_pattern cfg) (mc_max_hits_per_record cfg);
        let w = (if sn_limited scan then w\<lparr>mw_limit_events := mw_limit_events w + 1\<rparr> else w);
        let (w, go) = send_hits ok r (sn_hits scan) w;
        Some (if go then (store_tail r gen keep tail w, True) else (w, False))
      })"

definition matcher_step ::
  "match_lib \<Rightarrow> matcher_config \<Rightarrow> (nat \<Rightarrow> bool) \<Rightarrow> nat \<times> nat \<times> matcher_work \<Rightarrow> matcher_worker \<Rightarrow> (matcher_worker \<times> bool) option" where
  "matcher_step lib cfg ok input w =
     (case input of (seen, now, work) \<Rightarrow>
        let w = w\<lparr>mw_queue_depth := queue_dequeued (mw_queue_depth w)\<rparr> in
        case work of
          FlowClosed fid \<Rightarrow> Some (forget_flow fid w, True)
        | Content r ps gen \<Rightarrow> match_content lib cfg ok r ps gen (touch_flow seen now r w))"

fun matcher_worker_loop ::
  "match_lib \<Rightarrow> matcher_config \<Rightarrow> (nat \<Rightarrow> bool) \<Rightarrow> (nat \<times> nat \<times> matcher_work) list \<Rightarrow> matcher_worker \<Rightarrow> (matcher_worker \<times> bool) option" where
  "matcher_worker_loop lib cfg ok [] w = Some (w, True)"
| "matcher_worker_loop lib cfg ok (x # xs) w = do {
     (w, go) \<leftarrow> matcher_step lib cfg ok x w;
     if go then matcher_worker_loop lib cfg ok xs w else Some (w, False)
   }"

subsection \<open>Replay\<close>

record replay_scanner =
  rp_patterns :: pattern_set
  rp_tails :: "(stream_key \<times> tail_state) list"
  rp_last_seen_ns :: "(stream_key \<times> nat) list"
  rp_config :: matcher_config
  rp_scanned :: u64

definition new_replay_scanner :: "match_lib \<Rightarrow> pattern_revision list \<Rightarrow> matcher_config \<Rightarrow> match_error + replay_scanner" where
  "new_replay_scanner lib ps cfg =
     and_then (compile_set lib ps) (\<lambda>set.
       Inr \<lparr>rp_patterns = set, rp_tails = [], rp_last_seen_ns = [], rp_config = cfg, rp_scanned = 0\<rparr>)"

definition drop_stale :: "nat \<Rightarrow> replay_scanner \<Rightarrow> replay_scanner" where
  "drop_stale ts s =
     (let cutoff = ts - 300000000000;
          stale = map fst (filter (\<lambda>e. snd e < cutoff) (rp_last_seen_ns s))
      in s\<lparr>rp_last_seen_ns := fold AList.delete stale (rp_last_seen_ns s), rp_tails := fold AList.delete stale (rp_tails s)\<rparr>)"

definition scan_record :: "match_lib \<Rightarrow> content_record \<Rightarrow> replay_scanner \<Rightarrow> (scan_outcome \<times> replay_scanner) option" where
  "scan_record lib r s =
     (let key = key_of r; cfg = rp_config s in
      if \<not> is_interested (rp_patterns s) r
      then Some (\<lparr>sn_hits = [], sn_limited = False\<rparr>,
                 s\<lparr>rp_tails := AList.delete key (rp_tails s), rp_last_seen_ns := AList.delete key (rp_last_seen_ns s)\<rparr>)
      else do {
        let keep = required_overlap (rp_patterns s) r (mc_overlap_limit cfg);
        let tail = tail_for (rp_tails s) r 0;
        scan \<leftarrow> scan_bounded lib (rp_patterns s) r tail True (mc_max_hits_per_pattern cfg) (mc_max_hits_per_record cfg);
        let s = s\<lparr>rp_tails := (if keep = 0 then AList.delete key (rp_tails s)
                   else AList.update key \<lparr>ta_data = build_tail tail (cr_data r) keep,
                          ta_end_offset = sat_add64 (cr_stream_offset r) (length (cr_data r)), ta_generation = 0\<rparr> (rp_tails s)),
                  rp_last_seen_ns := AList.update key (cr_ts_ns r) (rp_last_seen_ns s),
                  rp_scanned := rp_scanned s + 1\<rparr>;
        Some (scan, if rp_scanned s mod 4096 = 0 then drop_stale (cr_ts_ns r) s else s)
      })"

fun replay_records :: "match_lib \<Rightarrow> content_record list \<Rightarrow> replay_scanner \<Rightarrow> (match_record list \<times> replay_scanner) option" where
  "replay_records lib [] s = Some ([], s)"
| "replay_records lib (r # rs) s = do {
     (scan, s) \<leftarrow> scan_record lib r s;
     (hits, s) \<leftarrow> replay_records lib rs s;
     Some (sn_hits scan @ hits, s)
   }"

end
