(* ===== verification/Matching_Props.thy ===== *)
theory Matching_Props
  imports Matching Http_Invariant
begin

text \<open>
  One scan of a record: what the search libraries promise, what compiling promises of a group, that a scan
  returns, which hits it can report, and how many.
\<close>

subsection \<open>The libraries\<close>

text \<open>
  Literal matches are occurrences of their pattern, and there is one when a non-empty pattern occurs; the set of
  regular expressions reports members, and matches lie in the searched text.
\<close>

definition occurs_at :: "bytes \<Rightarrow> bytes \<Rightarrow> nat \<Rightarrow> bool" where
  "occurs_at hay needle s \<longleftrightarrow> s + length needle \<le> length hay \<and> bslice s (s + length needle) hay = needle"

definition literal_law :: "match_lib \<Rightarrow> bool" where
  "literal_law lib \<longleftrightarrow>
     (\<forall>pats hay i s e. (i, s, e) \<in> set (ml_literals lib pats hay) \<longrightarrow>
        i < length pats \<and> e = s + length (pats ! i) \<and> occurs_at hay (pats ! i) s) \<and>
     (\<forall>pats hay i s. i < length pats \<and> pats ! i \<noteq> [] \<and> occurs_at hay (pats ! i) s \<longrightarrow> ml_literals lib pats hay \<noteq> [])"

definition regex_law :: "match_lib \<Rightarrow> bool" where
  "regex_law lib \<longleftrightarrow>
     (\<forall>res hay i. i \<in> set (ml_regex_set lib res hay) \<longrightarrow> i < length res) \<and>
     (\<forall>re hay s e. (s, e) \<in> set (ml_regex lib re hay) \<longrightarrow> s \<le> e \<and> e \<le> length hay)"

lemma literal_lawD:
  assumes "literal_law lib" and "(i, s, e) \<in> set (ml_literals lib pats hay)"
  shows "i < length pats" "e = s + length (pats ! i)" "occurs_at hay (pats ! i) s"
  using assms unfolding literal_law_def by blast+

lemma literal_law_found:
  "literal_law lib \<Longrightarrow> i < length pats \<Longrightarrow> pats ! i \<noteq> [] \<Longrightarrow> occurs_at hay (pats ! i) s \<Longrightarrow> ml_literals lib pats hay \<noteq> []"
  unfolding literal_law_def by blast

lemma regex_lawD:
  "regex_law lib \<Longrightarrow> i \<in> set (ml_regex_set lib res hay) \<Longrightarrow> i < length res"
  "regex_law lib \<Longrightarrow> (s, e) \<in> set (ml_regex lib re hay) \<Longrightarrow> s \<le> e \<and> e \<le> length hay"
  unfolding regex_law_def by blast+

subsection \<open>Compiled groups\<close>

definition literal_of :: "match_lib \<Rightarrow> pattern_revision \<Rightarrow> bytes option" where
  "literal_of lib p =
     (case pr_kind p of
        TextPattern \<Rightarrow> Some (as_bytes (pr_expression p))
      | BinaryPattern \<Rightarrow> (case decode_binary lib (pr_expression p) of Inr bs \<Rightarrow> Some bs | Inl _ \<Rightarrow> None)
      | RegexPattern \<Rightarrow> None)"

definition group_ok :: "match_lib \<Rightarrow> pattern_revision set \<Rightarrow> compiled_group \<Rightarrow> bool" where
  "group_ok lib P g \<longleftrightarrow>
     list_all2 (\<lambda>p bs. p \<in> P \<and> literal_of lib p = Some bs \<and> length bs \<le> cg_max_literal_len g) (cg_literal_meta g) (cg_literals g) \<and>
     list_all2 (\<lambda>p re. p \<in> P \<and> pr_kind p = RegexPattern \<and> pr_expression p = re) (cg_regex_meta g) (cg_regexes g)"

lemma group_patterns_ok:
  assumes "group_patterns lib ps g = Inr g'" and "group_ok lib P g" and "set ps \<subseteq> P"
  shows "group_ok lib P g'"
  using assms
proof (induction ps arbitrary: g)
  case (Cons p ps)
  have lit: "group_ok lib P (add_literal p bs g)" if "literal_of lib p = Some bs" for bs
    using that Cons.prems (2, 3) unfolding group_ok_def add_literal_def
    by (auto simp: list_all2_conv_all_nth nth_append less_Suc_eq intro: max.coboundedI1)
  show ?case
  proof (cases "pr_kind p")
    case TextPattern
    with Cons lit show ?thesis by (simp add: literal_of_def)
  next
    case BinaryPattern
    then obtain bs where "decode_binary lib (pr_expression p) = Inr bs" "group_patterns lib ps (add_literal p bs g) = Inr g'"
      using Cons.prems (1) by (auto simp: and_then_Inr_iff)
    with BinaryPattern Cons.IH [OF _ lit] Cons.prems (3) show ?thesis by (simp add: literal_of_def)
  next
    case RegexPattern
    have "group_ok lib P (g\<lparr>cg_regexes := cg_regexes g @ [pr_expression p], cg_regex_meta := cg_regex_meta g @ [p]\<rparr>)"
      using Cons.prems (2, 3) RegexPattern by (auto simp: group_ok_def intro!: list_all2_appendI)
    with Cons RegexPattern show ?thesis by simp
  qed
qed simp

lemma compile_group_ok: "compile_group lib ps = Inr g \<Longrightarrow> group_ok lib (set ps) g"
  using group_patterns_ok [of lib ps empty_group g "set ps"]
  by (auto simp: compile_group_def and_then_Inr_iff group_ok_def empty_group_def split: if_splits)

lemma group_okD:
  assumes "group_ok lib P g"
  shows "length (cg_literal_meta g) = length (cg_literals g)" "length (cg_regex_meta g) = length (cg_regexes g)"
    "i < length (cg_literals g) \<Longrightarrow> cg_literal_meta g ! i \<in> P \<and> literal_of lib (cg_literal_meta g ! i) = Some (cg_literals g ! i) \<and>
       length (cg_literals g ! i) \<le> cg_max_literal_len g"
    "i < length (cg_regexes g) \<Longrightarrow> cg_regex_meta g ! i \<in> P \<and> pr_kind (cg_regex_meta g ! i) = RegexPattern"
  using assms by (auto simp: group_ok_def list_all2_conv_all_nth)

subsection \<open>Windows\<close>

lemma occurs_at_window:
  assumes "occurs_at (take n (drop k xs)) needle s" and "k \<le> length xs"
  shows "occurs_at xs needle (k + s)"
proof -
  have "s + length needle \<le> n" "s + length needle \<le> length xs - k" using assms (1) by (auto simp: occurs_at_def)
  moreover from this have "bslice s (s + length needle) (take n (drop k xs)) = bslice (k + s) (k + s + length needle) xs"
    by (simp add: bslice_def drop_take min_def add.commute)
  ultimately show ?thesis using assms by (simp add: occurs_at_def)
qed

lemma occurs_at_append: "occurs_at ys needle s \<Longrightarrow> occurs_at (xs @ ys) needle (length xs + s)"
  by (simp add: occurs_at_def bslice_def)

text \<open>
  The matches of a record behind its tail: occurrences of a literal in the window, and what a regular expression
  may report, beyond the tail if there is one.
\<close>

definition window_hit :: "compiled_group \<Rightarrow> content_record \<Rightarrow> bytes \<Rightarrow> pattern_revision \<Rightarrow> nat \<Rightarrow> nat \<Rightarrow> bool" where
  "window_hit g r tail p start stop \<longleftrightarrow>
     (\<exists>i < length (cg_literals g). p = cg_literal_meta g ! i \<and> stop = start + length (cg_literals g ! i) \<and>
        cr_stream_offset r - length tail \<le> start \<and>
        occurs_at (tail @ cr_data r) (cg_literals g ! i) (start - (cr_stream_offset r - length tail))) \<or>
     (\<exists>i < length (cg_regexes g). p = cg_regex_meta g ! i \<and> start \<le> stop \<and> cr_stream_offset r - length tail \<le> start \<and>
        stop \<le> cr_stream_offset r + length (cr_data r) \<and> (tail \<noteq> [] \<longrightarrow> cr_stream_offset r < stop))"

lemma window_hit_literal:
  assumes "i < length (cg_literals g)" and "occurs_at (tail @ cr_data r) (cg_literals g ! i) k"
    and "length tail \<le> cr_stream_offset r" and "start = cr_stream_offset r - length tail + k"
  shows "window_hit g r tail (cg_literal_meta g ! i) start (start + length (cg_literals g ! i))"
  using assms by (auto simp: window_hit_def)

subsection \<open>Invariants of a scan\<close>

text \<open>
  A property of the hits and the limiter that holds whatever wanted match is pushed. \<open>allowed\<close> restricts the
  matches that a scan may push.
\<close>

locale scan_invariant =
  fixes I :: "scan_state \<Rightarrow> bool"
    and allowed :: "pattern_revision \<Rightarrow> match_record \<Rightarrow> bool"
  assumes push: "I st \<Longrightarrow> allowed p hit \<Longrightarrow> I (limiter_push p hit st)"
    and limit: "I st \<Longrightarrow> I (hit_limit st)"
begin

lemma push_matches_inv:
  assumes "push_matches metas r historical base wanted ms st = Some (st', go)" and "I st"
    and "\<And>i s e. (i, s, e) \<in> set ms \<Longrightarrow> i < length metas \<Longrightarrow> wanted (base + s) (base + e) \<Longrightarrow>
      allowed (metas ! i) (match_record_of (metas ! i) r (base + s) (base + e) historical)"
  shows "I st'"
  using assms
proof (induction ms arbitrary: st)
  case (Cons m ms)
  obtain i s e where m: "m = (i, s, e)" by (cases m)
  have allow: "\<And>i s e. (i, s, e) \<in> set ms \<Longrightarrow> i < length metas \<Longrightarrow> wanted (base + s) (base + e) \<Longrightarrow>
      allowed (metas ! i) (match_record_of (metas ! i) r (base + s) (base + e) historical)" using Cons.prems (3) by simp
  show ?case
  proof (cases "exhausted (snd st) \<or> i \<ge> length metas")
    case True
    with Cons.prems (1, 2) m limit [of st] show ?thesis by (auto split: if_splits)
  next
    case False
    let ?st = "if wanted (base + s) (base + e)
      then limiter_push (metas ! i) (match_record_of (metas ! i) r (base + s) (base + e) historical) st else st"
    have "I ?st" using Cons.prems (2, 3) False m push by auto
    moreover have "push_matches metas r historical base wanted ms ?st = Some (st', go)"
      using Cons.prems (1) False m by (simp add: Let_def)
    ultimately show ?thesis using Cons.IH allow by blast
  qed
qed simp

lemma scan_bridge_inv:
  assumes "scan_bridge lib g r tail historical st = Some (st', go)" and "I st" and law: "literal_law lib"
    and off: "length tail \<le> cr_stream_offset r"
    and allow: "\<And>p start stop. window_hit g r tail p start stop \<Longrightarrow> allowed p (match_record_of p r start stop historical)"
  shows "I st'"
proof (cases "tail \<noteq> [] \<and> cg_max_literal_len g > 1")
  case True
  define k where "k = length tail - (cg_max_literal_len g - 1)"
  define n where "n = min (cg_max_literal_len g - 1) (length (cr_data r))"
  have k: "k \<le> length tail" by (simp add: k_def)
  have bridge: "drop k tail @ take n (cr_data r) = take (length tail - k + n) (drop k (tail @ cr_data r))" using k by simp
  show ?thesis
  proof (rule push_matches_inv [OF _ assms (2)])
    show "push_matches (cg_literal_meta g) r historical (cr_stream_offset r - length (drop k tail))
      (\<lambda>start stop. start < cr_stream_offset r \<and> stop > cr_stream_offset r)
      (ml_literals lib (cg_literals g) (drop k tail @ take n (cr_data r))) st = Some (st', go)"
      using assms (1) unfolding scan_bridge_def Let_def if_P [OF True] k_def n_def .
    fix i s e
    assume m: "(i, s, e) \<in> set (ml_literals lib (cg_literals g) (drop k tail @ take n (cr_data r)))"
    note L = literal_lawD [OF law m]
    have occ: "occurs_at (tail @ cr_data r) (cg_literals g ! i) (k + s)"
      using L (3) unfolding bridge by (rule occurs_at_window) (use k in simp)
    have "cr_stream_offset r - length (drop k tail) = cr_stream_offset r - length tail + k" using k off by simp
    then show "allowed (cg_literal_meta g ! i)
      (match_record_of (cg_literal_meta g ! i) r (cr_stream_offset r - length (drop k tail) + s) (cr_stream_offset r - length (drop k tail) + e) historical)"
      using allow [OF window_hit_literal [OF L (1) occ off refl]] L (2) by (simp add: add.assoc)
  qed
qed (use assms (1, 2) in \<open>auto simp: scan_bridge_def\<close>)

lemma scan_literals_inv:
  assumes "scan_literals lib g r tail historical st = Some (st', go)" and "I st" and law: "literal_law lib"
    and off: "length tail \<le> cr_stream_offset r"
    and allow: "\<And>p start stop. window_hit g r tail p start stop \<Longrightarrow> allowed p (match_record_of p r start stop historical)"
  shows "I st'"
proof (cases "cg_literals g = []")
  case False
  then obtain st1 go1 where b: "scan_bridge lib g r tail historical st = Some (st1, go1)"
    "(if \<not> go1 then Some (st1, False) else push_matches (cg_literal_meta g) r historical (cr_stream_offset r) (\<lambda>_ _. True)
       (ml_literals lib (cg_literals g) (cr_data r)) st1) = Some (st', go)"
    using assms (1) by (auto simp: scan_literals_def bind_eq_Some_conv)
  note I1 = scan_bridge_inv [OF b (1) assms (2-5)]
  show ?thesis
  proof (cases go1)
    case True
    show ?thesis
    proof (rule push_matches_inv [OF _ I1])
      show "push_matches (cg_literal_meta g) r historical (cr_stream_offset r) (\<lambda>_ _. True)
          (ml_literals lib (cg_literals g) (cr_data r)) st1 = Some (st', go)" using b (2) True by simp
      fix i s e
      assume m: "(i, s, e) \<in> set (ml_literals lib (cg_literals g) (cr_data r))"
      note L = literal_lawD [OF law m]
      have "window_hit g r tail (cg_literal_meta g ! i) (cr_stream_offset r + s) (cr_stream_offset r + s + length (cg_literals g ! i))"
        by (rule window_hit_literal [OF L (1) occurs_at_append [OF L (3)] off]) (use off in simp)
      from allow [OF this] show "allowed (cg_literal_meta g ! i)
          (match_record_of (cg_literal_meta g ! i) r (cr_stream_offset r + s) (cr_stream_offset r + e) historical)"
        using L (2) by (simp add: add.assoc)
    qed
  qed (use b I1 in auto)
qed (use assms (1, 2) in \<open>auto simp: scan_literals_def\<close>)

lemma scan_regexes_inv:
  assumes "scan_regexes lib g r historical (tail @ cr_data r) (cr_stream_offset r - length tail) boundary idxs st = Some (st', go)"
    and "I st" and law: "regex_law lib" and off: "length tail \<le> cr_stream_offset r"
    and boundary: "boundary = (if tail = [] then None else Some (cr_stream_offset r))"
    and allow: "\<And>p start stop. window_hit g r tail p start stop \<Longrightarrow> allowed p (match_record_of p r start stop historical)"
  shows "I st'"
  using assms (1, 2)
proof (induction idxs arbitrary: st)
  case (Cons i idxs)
  show ?case
  proof (cases "exhausted (snd st)")
    case True
    with Cons.prems limit [of st] show ?thesis by auto
  next
    case False
    then obtain st1 go1 where i: "i < length (cg_regex_meta g)" "i < length (cg_regexes g)" and
      p: "push_matches [cg_regex_meta g ! i] r historical (cr_stream_offset r - length tail)
           (\<lambda>start stop. \<not> (case boundary of Some b \<Rightarrow> stop \<le> b | None \<Rightarrow> False))
           (map (\<lambda>(s, e). (0, s, e)) (ml_regex lib (cg_regexes g ! i) (tail @ cr_data r))) st = Some (st1, go1)" and
      rest: "(if go1 then scan_regexes lib g r historical (tail @ cr_data r) (cr_stream_offset r - length tail) boundary idxs st1
              else Some (st1, False)) = Some (st', go)"
      using Cons.prems (1) by (auto simp: bind_eq_Some_conv not_le split: if_splits)
    have "I st1"
    proof (rule push_matches_inv [OF p Cons.prems (2)])
      fix j s e
      assume m: "(j, s, e) \<in> set (map (\<lambda>(s, e). (0, s, e)) (ml_regex lib (cg_regexes g ! i) (tail @ cr_data r)))"
        and j: "j < length [cg_regex_meta g ! i]"
        and w: "\<not> (case boundary of Some b \<Rightarrow> cr_stream_offset r - length tail + e \<le> b | None \<Rightarrow> False)"
      have "(s, e) \<in> set (ml_regex lib (cg_regexes g ! i) (tail @ cr_data r))" using m by auto
      from regex_lawD (2) [OF law this] have "window_hit g r tail (cg_regex_meta g ! i) (cr_stream_offset r - length tail + s) (cr_stream_offset r - length tail + e)"
        using i w off boundary unfolding window_hit_def by (intro disjI2 exI [of _ i]) (auto split: if_splits)
      from allow [OF this] j show "allowed ([cg_regex_meta g ! i] ! j)
          (match_record_of ([cg_regex_meta g ! i] ! j) r (cr_stream_offset r - length tail + s) (cr_stream_offset r - length tail + e) historical)"
        by simp
    qed
    with rest Cons.IH show ?thesis by (auto split: if_splits)
  qed
qed auto

lemma scan_into_inv:
  assumes "scan_into lib g r tail historical st = Some st'" and "I st" and "literal_law lib" "regex_law lib"
    and off: "length tail \<le> cr_stream_offset r"
    and allow: "\<And>p start stop. window_hit g r tail p start stop \<Longrightarrow> allowed p (match_record_of p r start stop historical)"
  shows "I st'"
proof -
  obtain st1 go where l: "scan_literals lib g r tail historical st = Some (st1, go)"
    using assms (1) by (auto simp: scan_into_def bind_eq_Some_conv)
  note I1 = scan_literals_inv [OF l assms (2, 3) off allow]
  let ?b = "if tail = [] then None else Some (cr_stream_offset r)"
  from assms (1) l consider "st' = st1" | "st' = hit_limit st1" |
    go' where "scan_regexes lib g r historical (tail @ cr_data r) (cr_stream_offset r - length tail) ?b
      (ml_regex_set lib (cg_regexes g) (tail @ cr_data r)) st1 = Some (st', go')"
    by (auto simp: scan_into_def bind_eq_Some_conv split: if_splits)
  then show ?thesis
  proof cases
    case 3
    then show ?thesis using scan_regexes_inv [OF _ I1 assms (4) off refl allow] by blast
  qed (use I1 limit [of st1] in auto)
qed

lemma scan_bounded_inv:
  assumes "scan_bounded lib ps r tail historical mp mt = Some scan" and "I ([], new_limiter mp mt)"
    and laws: "literal_law lib" "regex_law lib" and off: "length tail \<le> cr_stream_offset r"
    and allow: "\<And>g p start stop. g \<in> set_option (fst (groups_for ps r)) \<union> set_option (snd (groups_for ps r)) \<Longrightarrow>
      window_hit g r tail p start stop \<Longrightarrow> allowed p (match_record_of p r start stop historical)"
  shows "\<exists>lim. I (sn_hits scan, lim)"
proof -
  obtain global service where gs: "groups_for ps r = (global, service)" by fastforce
  have into: "I st'" if "scan_into lib g r tail historical st = Some st'" "I st" "g \<in> set_option global \<union> set_option service" for g st st'
    using scan_into_inv [OF that (1, 2) laws off] allow that (3) gs by simp
  show ?thesis
  proof (cases "global = None \<and> service = None")
    case True
    with assms (1, 2) gs show ?thesis by (auto simp: scan_bounded_def)
  next
    case False
    obtain st1 st2 where
      1: "(case global of None \<Rightarrow> Some ([], new_limiter mp mt) | Some g \<Rightarrow> scan_into lib g r tail historical ([], new_limiter mp mt)) = Some st1" and
      2: "(if \<not> exhausted (snd st1) then (case service of None \<Rightarrow> Some st1 | Some g \<Rightarrow> scan_into lib g r tail historical st1)
           else Some (if service \<noteq> None then hit_limit st1 else st1)) = Some st2" and
      3: "scan = \<lparr>sn_hits = fst st2, sn_limited = mt_limited (snd st2)\<rparr>"
      using assms (1) unfolding scan_bounded_def gs prod.case if_not_P [OF False] Let_def bind_eq_Some_conv by auto
    have "I st1" using 1 assms (2) into by (cases global) auto
    then have "I st2" using 2 into limit [of st1] by (cases service) (auto split: if_splits)
    with 3 show ?thesis by (cases st2) auto
  qed
qed

end

lemma push_matches_total:
  "(\<And>i s e. (i, s, e) \<in> set ms \<Longrightarrow> i < length metas) \<Longrightarrow> \<exists>st' go. push_matches metas r historical base wanted ms st = Some (st', go)"
proof (induction ms arbitrary: st)
  case (Cons m ms)
  obtain i s e where m: "m = (i, s, e)" by (cases m)
  have "i < length metas" using Cons.prems [of i s e] m by simp
  moreover have "\<exists>st' go. push_matches metas r historical base wanted ms st = Some (st', go)" for st
    using Cons.IH Cons.prems by (meson list.set_intros (2))
  ultimately show ?case using m by (auto simp: Let_def)
qed auto

subsection \<open>Which patterns a record meets\<close>

definition applies :: "content_record \<Rightarrow> pattern_revision \<Rightarrow> bool" where
  "applies r p \<longleftrightarrow> pr_enabled p \<and> cr_view r \<in> set (views_for_pattern p) \<and> (pr_service p = None \<or> pr_service p = cr_service r)"

definition bucket_ok :: "(content_view \<Rightarrow> pattern_revision \<Rightarrow> bool) \<Rightarrow> buckets \<Rightarrow> bool" where
  "bucket_ok Q b \<longleftrightarrow> (\<forall>(view, ps) \<in> set b. \<forall>p \<in> set ps. Q view p)"

definition meant :: "pattern_revision set \<Rightarrow> string option \<Rightarrow> content_view \<Rightarrow> pattern_revision \<Rightarrow> bool" where
  "meant P service view p \<longleftrightarrow> p \<in> P \<and> pr_service p = service \<and> view \<in> set (views_for_pattern p)"

definition all_buckets_ok :: "pattern_revision set \<Rightarrow> buckets \<times> (string \<times> buckets) list \<Rightarrow> bool" where
  "all_buckets_ok P bs \<longleftrightarrow> bucket_ok (meant P None) (fst bs) \<and> (\<forall>(service, b) \<in> set (snd bs). bucket_ok (meant P (Some service)) b)"

lemma alist_update_set: "set (AList.update k v xs) \<subseteq> insert (k, v) (set xs)"
  by (induction xs) auto

lemma bucket_ok_update: "bucket_ok Q b \<Longrightarrow> \<forall>p \<in> set ps. Q view p \<Longrightarrow> bucket_ok Q (AList.update view ps b)"
  using alist_update_set [of view ps b] unfolding bucket_ok_def by fast

lemma bucket_ok_old: "bucket_ok Q b \<Longrightarrow> \<forall>p \<in> set (case map_of b view of None \<Rightarrow> [] | Some ps \<Rightarrow> ps). Q view p"
  by (cases "map_of b view") (auto simp: bucket_ok_def dest!: map_of_SomeD)

lemma push_bucket_ok: "bucket_ok Q b \<Longrightarrow> Q view p \<Longrightarrow> bucket_ok Q (push_bucket p view b)"
  unfolding push_bucket_def using bucket_ok_old [of Q b view] by (intro bucket_ok_update) (simp_all only: set_append ball_Un, simp)

lemma bucket_pattern_ok:
  assumes "all_buckets_ok P bs" and "p \<in> P"
  shows "all_buckets_ok P (bucket_pattern p bs)"
proof -
  have "all_buckets_ok P (fold (\<lambda>view (globals, services).
       case pr_service p of
         Some service \<Rightarrow>
           (globals, AList.update service
              (push_bucket p view (case map_of services service of None \<Rightarrow> [] | Some b \<Rightarrow> b)) services)
       | None \<Rightarrow> (push_bucket p view globals, services)) views bs)" if "set views \<subseteq> set (views_for_pattern p)" for views
    using that assms (1)
  proof (induction views arbitrary: bs)
    case (Cons view views)
    obtain globals services where bs: "bs = (globals, services)" by fastforce
    have old: "bucket_ok (meant P (Some service)) (case map_of services service of None \<Rightarrow> [] | Some b \<Rightarrow> b)" for service
      using Cons.prems (2) bs
      by (cases "map_of services service") (auto simp: all_buckets_ok_def bucket_ok_def [of _ "[]"] dest!: map_of_SomeD)
    have "all_buckets_ok P (case pr_service p of
         Some service \<Rightarrow>
           (globals, AList.update service
              (push_bucket p view (case map_of services service of None \<Rightarrow> [] | Some b \<Rightarrow> b)) services)
       | None \<Rightarrow> (push_bucket p view globals, services))"
    proof (cases "pr_service p")
      case None
      with Cons.prems bs assms (2) show ?thesis by (auto simp: all_buckets_ok_def meant_def intro!: push_bucket_ok)
    next
      case (Some service)
      then have "bucket_ok (meant P (Some service)) (push_bucket p view (case map_of services service of None \<Rightarrow> [] | Some b \<Rightarrow> b))"
        using Cons.prems (1) assms (2) by (intro push_bucket_ok old) (simp add: meant_def)
      then have "\<forall>(service, b) \<in> set (AList.update service
          (push_bucket p view (case map_of services service of None \<Rightarrow> [] | Some b \<Rightarrow> b)) services). bucket_ok (meant P (Some service)) b"
        using Cons.prems (2) bs
          subsetD [OF alist_update_set [of service "push_bucket p view (case map_of services service of None \<Rightarrow> [] | Some b \<Rightarrow> b)" services]]
        unfolding all_buckets_ok_def by fastforce
      with Some Cons.prems (2) bs show ?thesis by (simp add: all_buckets_ok_def)
    qed
    with Cons bs show ?case by simp
  qed simp
  then show ?thesis by (simp add: bucket_pattern_def)
qed

lemma bucket_all_ok: "all_buckets_ok P bs \<Longrightarrow> set ps \<subseteq> P \<Longrightarrow> all_buckets_ok P (fold bucket_pattern ps bs)"
  by (induction ps arbitrary: bs) (auto simp: bucket_pattern_ok)

lemma group_ok_mono: "group_ok lib P g \<Longrightarrow> P \<subseteq> Q \<Longrightarrow> group_ok lib Q g"
  by (auto simp: group_ok_def list_all2_conv_all_nth)

lemma compile_buckets_ok:
  "compile_buckets lib b = Inr gs \<Longrightarrow> bucket_ok Q b \<Longrightarrow> (view, g) \<in> set gs \<Longrightarrow> group_ok lib {p. Q view p} g"
proof (induction b arbitrary: gs)
  case (Cons x b)
  obtain v ps where x: "x = (v, ps)" by fastforce
  with Cons.prems (1) obtain g' gs' where c: "compile_group lib ps = Inr g'" "compile_buckets lib b = Inr gs'" "gs = (v, g') # gs'"
    by (auto simp: and_then_Inr_iff)
  have "group_ok lib {p. Q v p} g'"
    by (rule group_ok_mono [OF compile_group_ok [OF c (1)]]) (use Cons.prems (2) x in \<open>auto simp: bucket_ok_def\<close>)
  moreover have "bucket_ok Q b" using Cons.prems (2) by (simp add: bucket_ok_def)
  ultimately show ?case using Cons.IH [OF c (2)] Cons.prems (3) c (3) by auto
qed simp

lemma compile_services_ok:
  "compile_services lib bs = Inr ss \<Longrightarrow> (name, gs) \<in> set ss \<Longrightarrow> \<exists>b. (name, b) \<in> set bs \<and> compile_buckets lib b = Inr gs"
proof (induction bs arbitrary: ss)
  case (Cons x bs)
  then show ?case by (cases x) (fastforce simp: and_then_Inr_iff)
qed simp

definition record_groups :: "pattern_set \<Rightarrow> content_record \<Rightarrow> compiled_group set" where
  "record_groups ps r = set_option (fst (groups_for ps r)) \<union> set_option (snd (groups_for ps r))"

lemma compile_set_groups:
  assumes "compile_set lib pats = Inr ps" and "g \<in> record_groups ps r"
  shows "group_ok lib {p \<in> set pats. applies r p} g"
proof -
  let ?P = "set (filter pr_enabled pats)"
  obtain globals services where b: "fold bucket_pattern (filter pr_enabled pats) ([], []) = (globals, services)" by fastforce
  have ok: "all_buckets_ok ?P (globals, services)"
    unfolding b [symmetric] by (rule bucket_all_ok) (simp_all add: all_buckets_ok_def bucket_ok_def)
  from assms (1) b have c: "compile_buckets lib globals = Inr (ps_global ps)" "compile_services lib services = Inr (ps_service ps)"
    by (auto simp: compile_set_def Let_def and_then_Inr_iff)
  from assms (2) consider "map_of (ps_global ps) (cr_view r) = Some g" |
    name groups where "cr_service r = Some name" "map_of (ps_service ps) name = Some groups" "map_of groups (cr_view r) = Some g"
    by (auto simp: record_groups_def groups_for_def bind_eq_Some_conv)
  then show ?thesis
  proof cases
    case 1
    have "group_ok lib {p. meant ?P None (cr_view r) p} g"
      by (rule compile_buckets_ok [OF c (1) _ map_of_SomeD [OF 1]]) (use ok in \<open>simp add: all_buckets_ok_def\<close>)
    then show ?thesis by (rule group_ok_mono) (auto simp: meant_def applies_def)
  next
    case 2
    obtain bk where bk: "(name, bk) \<in> set services" "compile_buckets lib bk = Inr groups"
      using compile_services_ok [OF c (2) map_of_SomeD [OF 2 (2)]] by blast
    have "group_ok lib {p. meant ?P (Some name) (cr_view r) p} g"
      by (rule compile_buckets_ok [OF bk (2) _ map_of_SomeD [OF 2 (3)]]) (use ok bk (1) in \<open>auto simp: all_buckets_ok_def\<close>)
    then show ?thesis by (rule group_ok_mono) (use 2 (1) in \<open>auto simp: meant_def applies_def\<close>)
  qed
qed

end
