(* ===== verification/Matcher_Props.thy ===== *)
theory Matcher_Props
  imports Matcher Matching_Props L7_Properties
begin

text \<open>
  What the live matcher and the replay scanner report: scans return and keep their limits, hits are true to the
  stream, a literal across two records is found, and a replay reports what the live matcher reported.
\<close>

subsection \<open>A scan returns\<close>

lemma scan_bridge_total:
  assumes "literal_law lib" and "group_ok lib P g"
  shows "\<exists>st' go. scan_bridge lib g r tail historical st = Some (st', go)"
proof -
  have "\<exists>st' go. push_matches (cg_literal_meta g) r historical base wanted (ml_literals lib (cg_literals g) hay) st = Some (st', go)"
    for base wanted hay st
    by (rule push_matches_total) (use literal_lawD (1) [OF assms (1)] group_okD (1) [OF assms (2)] in auto)
  then show ?thesis unfolding scan_bridge_def Let_def by (auto simp del: split_paired_Ex split_paired_All)
qed

lemma scan_literals_total:
  assumes "literal_law lib" and "group_ok lib P g"
  shows "\<exists>st' go. scan_literals lib g r tail historical st = Some (st', go)"
proof -
  have "\<exists>st' go. push_matches (cg_literal_meta g) r historical base wanted (ml_literals lib (cg_literals g) hay) st = Some (st', go)"
    for base wanted hay st
    by (rule push_matches_total) (use literal_lawD (1) [OF assms (1)] group_okD (1) [OF assms (2)] in auto)
  moreover obtain st1 go1 where "scan_bridge lib g r tail historical st = Some (st1, go1)"
    using scan_bridge_total [OF assms] by blast
  ultimately show ?thesis unfolding scan_literals_def by (cases go1) (auto simp del: split_paired_Ex split_paired_All)
qed

lemma scan_regexes_total:
  assumes "group_ok lib P g" and "\<And>i. i \<in> set idxs \<Longrightarrow> i < length (cg_regexes g)"
  shows "\<exists>st' go. scan_regexes lib g r historical combined base boundary idxs st = Some (st', go)"
  using assms (2)
proof (induction idxs arbitrary: st)
  case (Cons i idxs)
  have i: "i < length (cg_regexes g)" using Cons.prems by simp
  obtain st1 go1 where p: "push_matches [cg_regex_meta g ! i] r historical base
      (\<lambda>start stop. \<not> (case boundary of Some b \<Rightarrow> stop \<le> b | None \<Rightarrow> False))
      (map (\<lambda>(s, e). (0, s, e)) (ml_regex lib (cg_regexes g ! i) combined)) st = Some (st1, go1)"
    using push_matches_total [of "map (\<lambda>(s, e). (0, s, e)) (ml_regex lib (cg_regexes g ! i) combined)" "[cg_regex_meta g ! i]"] by fastforce
  have "\<exists>st' go. scan_regexes lib g r historical combined base boundary idxs st1 = Some (st', go)"
    using Cons.IH Cons.prems by (meson list.set_intros (2))
  with p i group_okD (2) [OF assms (1)] show ?case by (cases go1) (auto simp del: split_paired_Ex split_paired_All)
qed (auto simp del: split_paired_Ex)

lemma scan_into_total:
  assumes "literal_law lib" "regex_law lib" and "group_ok lib P g"
  shows "\<exists>st'. scan_into lib g r tail historical st = Some st'"
proof -
  obtain st1 go1 where l: "scan_literals lib g r tail historical st = Some (st1, go1)"
    using scan_literals_total [OF assms (1, 3)] by blast
  have "\<exists>st'. Option.bind (scan_regexes lib g r historical combined base boundary (ml_regex_set lib (cg_regexes g) combined) st1)
      (\<lambda>(st, _). Some st) = Some st'" for combined base boundary
  proof -
    have "\<exists>st2 go2. scan_regexes lib g r historical combined base boundary (ml_regex_set lib (cg_regexes g) combined) st1 = Some (st2, go2)"
      by (rule scan_regexes_total [OF assms (3)]) (rule regex_lawD (1) [OF assms (2)])
    then show ?thesis by (auto simp del: split_paired_Ex)
  qed
  with l show ?thesis unfolding scan_into_def Let_def by (simp del: split_paired_Ex)
qed

lemma scan_bounded_total:
  assumes "literal_law lib" "regex_law lib" and "\<And>g. g \<in> record_groups ps r \<Longrightarrow> \<exists>P. group_ok lib P g"
  shows "\<exists>scan. scan_bounded lib ps r tail historical mp mt = Some scan"
proof -
  obtain global service where gs: "groups_for ps r = (global, service)" by fastforce
  have into: "\<exists>st'. scan_into lib g r tail historical st = Some st'" if "g \<in> set_option global \<union> set_option service" for g st
  proof -
    have "g \<in> record_groups ps r" using that gs by (simp add: record_groups_def)
    from assms (3) [OF this] obtain P where "group_ok lib P g" by blast
    from scan_into_total [OF assms (1, 2) this] show ?thesis .
  qed
  have 1: "\<exists>st1. (case global of None \<Rightarrow> Some st | Some g \<Rightarrow> scan_into lib g r tail historical st) = Some st1" for st
    using into by (cases global) (auto simp del: split_paired_Ex)
  have 2: "\<exists>st1. (case service of None \<Rightarrow> Some st | Some g \<Rightarrow> scan_into lib g r tail historical st) = Some st1" for st
    using into by (cases service) (auto simp del: split_paired_Ex)
  obtain st1 where "(case global of None \<Rightarrow> Some ([], new_limiter mp mt) | Some g \<Rightarrow> scan_into lib g r tail historical ([], new_limiter mp mt)) = Some st1"
    using 1 by blast
  moreover obtain st2 where "(case service of None \<Rightarrow> Some st1 | Some g \<Rightarrow> scan_into lib g r tail historical st1) = Some st2"
    using 2 by blast
  ultimately show ?thesis unfolding scan_bounded_def gs prod.case Let_def by (auto simp del: split_paired_Ex)
qed

subsection \<open>Limits\<close>

definition hit_key :: "match_record \<Rightarrow> uuid \<times> int" where
  "hit_key h = (mr_pattern_id h, mr_pattern_revision h)"

definition hits_of :: "uuid \<times> int \<Rightarrow> match_record list \<Rightarrow> nat" where
  "hits_of k hits = length (filter (\<lambda>h. hit_key h = k) hits)"

definition within_limits :: "nat \<Rightarrow> nat \<Rightarrow> scan_state \<Rightarrow> bool" where
  "within_limits mp mt st \<longleftrightarrow> (case st of (out, lim) \<Rightarrow>
     mt_max_per_pattern lim = mp \<and> mt_max_total lim = mt \<and> length out \<le> mt_candidates lim \<and> mt_candidates lim \<le> mt \<and>
     (\<forall>k. pattern_count lim k = hits_of k out \<and> hits_of k out \<le> mp))"

lemma pattern_count_update:
  "mt_per_pattern lim' = AList.update k' n (mt_per_pattern lim) \<Longrightarrow> pattern_count lim' k = (if k = k' then n else pattern_count lim k)"
  by (simp add: pattern_count_def update_conv')

lemma pattern_count_same: "mt_per_pattern lim' = mt_per_pattern lim \<Longrightarrow> pattern_count lim' k = pattern_count lim k"
  by (simp add: pattern_count_def)

lemma push_within_limits:
  assumes "within_limits mp mt (out, lim)" and "hit_key hit = pattern_key p"
  shows "within_limits mp mt (limiter_push p hit (out, lim))"
proof (cases "exhausted lim")
  case True
  with assms (1) show ?thesis by (simp add: within_limits_def limiter_push_def pattern_count_same [of "lim\<lparr>mt_limited := True\<rparr>" lim])
next
  case False
  define n where "n = pattern_count lim (pattern_key p)"
  have n: "pattern_count (lim\<lparr>mt_candidates := c\<rparr>) (pattern_key p) = n" for c
    unfolding n_def by (rule pattern_count_same) simp
  note W = assms (1) [unfolded within_limits_def prod.case]
  show ?thesis
  proof (cases "n \<ge> mp")
    case True
    let ?lim = "lim\<lparr>mt_candidates := mt_candidates lim + 1, mt_per_pattern := AList.update (pattern_key p) n (mt_per_pattern lim), mt_limited := True\<rparr>"
    have "pattern_count ?lim k = pattern_count lim k" for k
      using pattern_count_update [of ?lim "pattern_key p" n lim k] by (simp add: n_def)
    with W False True n show ?thesis by (simp add: within_limits_def limiter_push_def Let_def exhausted_def del: split_paired_All)
  next
    case less: False
    let ?lim = "lim\<lparr>mt_candidates := mt_candidates lim + 1, mt_per_pattern := AList.update (pattern_key p) (n + 1) (mt_per_pattern lim)\<rparr>"
    have "pattern_count ?lim k = (if k = pattern_key p then n + 1 else pattern_count lim k)" for k
      using pattern_count_update [of ?lim "pattern_key p" "n + 1" lim k] by simp
    moreover have "hits_of k (out @ [hit]) = (if k = pattern_key p then hits_of k out + 1 else hits_of k out)" for k
      using assms (2) by (simp add: hits_of_def)
    ultimately show ?thesis using W False less n
      by (auto simp: within_limits_def limiter_push_def Let_def exhausted_def n_def simp del: split_paired_All)
  qed
qed

interpretation limits: scan_invariant "within_limits mp mt" "\<lambda>p hit. hit_key hit = pattern_key p" for mp mt
proof
  fix st p and hit :: match_record
  assume "within_limits mp mt st" "hit_key hit = pattern_key p"
  then show "within_limits mp mt (limiter_push p hit st)" by (cases st) (simp add: push_within_limits)
next
  fix st
  assume "within_limits mp mt st"
  then show "within_limits mp mt (hit_limit st)"
    by (auto simp: within_limits_def hit_limit_def pattern_count_def split: prod.splits)
qed

lemma within_limits_new: "within_limits mp mt ([], new_limiter mp mt)"
  by (simp add: within_limits_def new_limiter_def hits_of_def pattern_count_def)

text \<open>A scan of any record with any compiled set of patterns returns, and however often its patterns occur it
  reports at most the configured number of hits for each pattern revision and in total.\<close>

theorem scan_within_limits:
  assumes "literal_law lib" "regex_law lib" and "compile_set lib pats = Inr ps" and "length tail \<le> cr_stream_offset r"
  shows "\<exists>scan. scan_bounded lib ps r tail historical mp mt = Some scan \<and> length (sn_hits scan) \<le> mt \<and>
    (\<forall>k. hits_of k (sn_hits scan) \<le> mp)"
proof -
  obtain scan where s: "scan_bounded lib ps r tail historical mp mt = Some scan"
    using scan_bounded_total [OF assms (1, 2)] compile_set_groups [OF assms (3)] by blast
  have "\<exists>lim. within_limits mp mt (sn_hits scan, lim)"
    by (rule limits.scan_bounded_inv [OF s within_limits_new assms (1, 2, 4)])
      (simp add: hit_key_def match_record_of_def pattern_key_def)
  with s show ?thesis by (auto simp: within_limits_def)
qed

subsection \<open>Tails\<close>

lemma build_tail_eq: "build_tail previous bs keep = drop (length (previous @ bs) - keep) (previous @ bs)"
  by (auto simp: build_tail_def Let_def min_def)

text \<open>
  \<open>S\<close> gives the bytes of every stream of content; \<open>V\<close> are the views whose records are true to it. A decoded body is
  not part of the stream it came from, so its view need not be among them.
\<close>

definition content_true :: "(stream_key \<Rightarrow> nat \<Rightarrow> byte) \<Rightarrow> content_view set \<Rightarrow> content_record \<Rightarrow> bool" where
  "content_true S V r \<longleftrightarrow> cr_stream_offset r + length (cr_data r) \<le> u64_max \<and>
     (cr_view r \<in> V \<longrightarrow> bytes_at (S (key_of r)) (cr_stream_offset r) (cr_data r))"

definition tail_true :: "(stream_key \<Rightarrow> nat \<Rightarrow> byte) \<Rightarrow> content_view set \<Rightarrow> stream_key \<Rightarrow> bytes \<Rightarrow> nat \<Rightarrow> bool" where
  "tail_true S V k bs stop \<longleftrightarrow> length bs \<le> stop \<and> (sk_view k \<in> V \<longrightarrow> bytes_at (S k) (stop - length bs) bs)"

definition tails_true :: "(stream_key \<Rightarrow> nat \<Rightarrow> byte) \<Rightarrow> content_view set \<Rightarrow> (stream_key \<times> tail_state) list \<Rightarrow> bool" where
  "tails_true S V tails \<longleftrightarrow> (\<forall>k t. map_of tails k = Some t \<longrightarrow> tail_true S V k (ta_data t) (ta_end_offset t))"

lemma tail_for_true:
  "tails_true S V tails \<Longrightarrow> tail_true S V (key_of r) (tail_for tails r gen) (cr_stream_offset r)"
proof (cases "map_of tails (key_of r)")
  case (Some t)
  assume "tails_true S V tails"
  with Some have "tail_true S V (key_of r) (ta_data t) (ta_end_offset t)" unfolding tails_true_def by blast
  with Some show ?thesis
    by (cases "ta_generation t = gen \<and> ta_end_offset t = cr_stream_offset r") (auto simp: tail_for_def prefix_for_def tail_true_def)
qed (simp add: tail_for_def tail_true_def)

lemma window_true:
  assumes "tail_true S V (key_of r) tail (cr_stream_offset r)" and "content_true S V r" and "cr_view r \<in> V"
  shows "bytes_at (S (key_of r)) (cr_stream_offset r - length tail) (tail @ cr_data r)"
  using assms by (simp add: tail_true_def content_true_def bytes_at_append key_of_def)

lemma build_tail_true:
  assumes "tail_true S V (key_of r) tail (cr_stream_offset r)" and "content_true S V r"
  shows "tail_true S V (key_of r) (build_tail tail (cr_data r) keep) (cr_stream_offset r + length (cr_data r))"
proof -
  define w where "w = tail @ cr_data r"
  define n where "n = length w - keep"
  have off: "length tail \<le> cr_stream_offset r" using assms (1) by (simp add: tail_true_def)
  have n: "n \<le> length w" by (simp add: n_def)
  have "cr_stream_offset r + length (cr_data r) - length (drop n w) = cr_stream_offset r - length tail + n"
    using off n by (simp add: w_def)
  moreover have "bytes_at (S (key_of r)) (cr_stream_offset r - length tail + n) (drop n w)" if "cr_view r \<in> V"
    by (rule bytes_at_drop [OF _ n]) (use window_true [OF assms that] in \<open>simp add: w_def\<close>)
  moreover have "build_tail tail (cr_data r) keep = drop n w" by (simp only: build_tail_eq w_def n_def)
  moreover have "length (drop n w) \<le> cr_stream_offset r + length (cr_data r)" using off by (simp add: w_def)
  ultimately show ?thesis by (simp add: tail_true_def key_of_def)
qed

subsection \<open>Hits\<close>

text \<open>
  A hit is true: a pattern that applies to the record, offsets that end within it, and for a literal the bytes of the
  stream between them.
\<close>

definition hit_true ::
  "match_lib \<Rightarrow> (stream_key \<Rightarrow> nat \<Rightarrow> byte) \<Rightarrow> content_view set \<Rightarrow> pattern_revision set \<Rightarrow> content_record \<Rightarrow> match_record \<Rightarrow> bool" where
  "hit_true lib S V P r h \<longleftrightarrow>
     mr_flow_id h = cr_flow_id r \<and> mr_content_id h = cr_id r \<and> mr_view h = cr_view r \<and>
     mr_offset_end h \<le> cr_stream_offset r + length (cr_data r) \<and>
     (\<exists>p \<in> P. applies r p \<and> hit_key h = pattern_key p \<and>
        (\<forall>bs. literal_of lib p = Some bs \<longrightarrow> mr_offset_end h = mr_offset_start h + length bs \<and>
           (cr_view r \<in> V \<longrightarrow> bytes_at (S (key_of r)) (mr_offset_start h) bs)))"

lemma occurs_at_bytes: "bytes_at f off hay \<Longrightarrow> occurs_at hay needle s \<Longrightarrow> bytes_at f (off + s) needle"
  unfolding bytes_at_def
proof (intro allI impI)
  fix i
  assume "\<forall>i < length hay. hay ! i = f (off + i)" and o: "occurs_at hay needle s" and i: "i < length needle"
  then have "hay ! (s + i) = f (off + (s + i))" by (simp add: occurs_at_def)
  moreover have "needle ! i = bslice s (s + length needle) hay ! i" using o by (simp add: occurs_at_def)
  moreover have "bslice s (s + length needle) hay ! i = hay ! (s + i)" using o i by (intro nth_bslice) (auto simp: occurs_at_def)
  ultimately show "needle ! i = f (off + s + i)" by (simp add: add.assoc)
qed

lemma window_hit_true:
  assumes "window_hit g r tail p start stop" and "group_ok lib {p \<in> P. applies r p} g"
    and "tail_true S V (key_of r) tail (cr_stream_offset r)" and "content_true S V r"
  shows "hit_true lib S V P r (match_record_of p r start stop historical)"
proof -
  have off: "length tail \<le> cr_stream_offset r" using assms (3) by (simp add: tail_true_def)
  from assms (1) consider
    i where "i < length (cg_literals g)" "p = cg_literal_meta g ! i" "stop = start + length (cg_literals g ! i)"
      "cr_stream_offset r - length tail \<le> start" "occurs_at (tail @ cr_data r) (cg_literals g ! i) (start - (cr_stream_offset r - length tail))" |
    i where "i < length (cg_regexes g)" "p = cg_regex_meta g ! i" "stop \<le> cr_stream_offset r + length (cr_data r)"
    unfolding window_hit_def by blast
  then show ?thesis
  proof cases
    case 1
    note G = group_okD (3) [OF assms (2) 1 (1)]
    have "start - (cr_stream_offset r - length tail) + length (cg_literals g ! i) \<le> length tail + length (cr_data r)"
      using 1 (5) by (simp add: occurs_at_def)
    then have "stop \<le> cr_stream_offset r + length (cr_data r)" using 1 (3, 4) off by simp
    moreover have "bytes_at (S (key_of r)) start (cg_literals g ! i)" if "cr_view r \<in> V"
      using occurs_at_bytes [OF window_true [OF assms (3, 4) that] 1 (5)] 1 (4) by simp
    ultimately show ?thesis
      using G 1 (2, 3) by (auto simp: hit_true_def match_record_of_def hit_key_def pattern_key_def intro!: bexI [of _ p])
  next
    case 2
    with group_okD (4) [OF assms (2) 2 (1)] show ?thesis
      by (auto simp: hit_true_def match_record_of_def hit_key_def pattern_key_def literal_of_def intro!: bexI [of _ p])
  qed
qed

interpretation hits_in: scan_invariant "\<lambda>st. list_all Q (fst st)" "\<lambda>p hit. Q hit" for Q
  by unfold_locales (auto simp: limiter_push_def hit_limit_def Let_def split: prod.splits)

lemma scan_hits_true:
  assumes "scan_bounded lib ps r tail historical mp mt = Some scan" and "literal_law lib" "regex_law lib"
    and "compile_set lib pats = Inr ps" and "set pats \<subseteq> P"
    and "tail_true S V (key_of r) tail (cr_stream_offset r)" and "content_true S V r"
  shows "list_all (hit_true lib S V P r) (sn_hits scan)"
proof -
  have off: "length tail \<le> cr_stream_offset r" using assms (6) by (simp add: tail_true_def)
  have hits: "hit_true lib S V P r (match_record_of p r start stop historical)"
    if "g \<in> set_option (fst (groups_for ps r)) \<union> set_option (snd (groups_for ps r))" "window_hit g r tail p start stop" for g p start stop
  proof -
    have "group_ok lib {p \<in> set pats. applies r p} g" using compile_set_groups [OF assms (4)] that (1) by (simp add: record_groups_def)
    then have "group_ok lib {p \<in> P. applies r p} g" by (rule group_ok_mono) (use assms (5) in auto)
    from window_hit_true [OF that (2) this assms (6, 7)] show ?thesis .
  qed
  have "\<exists>lim. list_all (hit_true lib S V P r) (fst (sn_hits scan, lim :: match_limiter))"
    by (rule hits_in.scan_bounded_inv [OF assms (1) _ assms (2, 3) off]) (use hits in auto)
  then show ?thesis by simp
qed

subsection \<open>Scanners that keep tails\<close>

text \<open>
  What the live worker and the replay scanner have in common: a step scans a record behind its tail, reports some of
  the hits, and changes no tail but that of the record. \<open>input_of\<close> is what a step scans, if anything.
\<close>

locale stream_scanner =
  fixes tails :: "'w \<Rightarrow> (stream_key \<times> tail_state) list"
    and step :: "'i \<Rightarrow> 'w \<Rightarrow> (match_record list \<times> 'w) option"
    and input_of :: "'i \<Rightarrow> 'w \<Rightarrow> (content_record \<times> pattern_set \<times> u64) option"
    and lib :: match_lib and historical :: bool
  assumes step_hits: "step x w = Some (hits, w') \<Longrightarrow> input_of x w = Some (r, ps, gen) \<Longrightarrow>
      \<exists>tail mp mt scan. (tail = [] \<or> tail = tail_for (tails w) r gen) \<and>
        scan_bounded lib ps r tail historical mp mt = Some scan \<and> set hits \<subseteq> set (sn_hits scan)"
    and step_silent: "step x w = Some (hits, w') \<Longrightarrow> input_of x w = None \<Longrightarrow> hits = []"
    and step_tails: "step x w = Some (hits, w') \<Longrightarrow> map_of (tails w') k = Some t \<Longrightarrow>
      map_of (tails w) k = Some t \<or>
      (\<exists>r ps gen tail keep. input_of x w = Some (r, ps, gen) \<and> (tail = [] \<or> tail = tail_for (tails w) r gen) \<and> k = key_of r \<and>
        ta_data t = build_tail tail (cr_data r) keep \<and> ta_end_offset t = sat_add64 (cr_stream_offset r) (length (cr_data r)))"
begin

lemma step_true:
  assumes "step x w = Some (hits, w')" and "tails_true S V (tails w)" and "literal_law lib" "regex_law lib"
    and input: "\<And>r ps gen. input_of x w = Some (r, ps, gen) \<Longrightarrow>
      content_true S V r \<and> (\<exists>pats. compile_set lib pats = Inr ps \<and> set pats \<subseteq> P)"
  shows "tails_true S V (tails w')"
    and "h \<in> set hits \<Longrightarrow> \<exists>r ps gen. input_of x w = Some (r, ps, gen) \<and> hit_true lib S V P r h"
proof -
  have tail: "tail_true S V (key_of r) tail (cr_stream_offset r)" if "tail = [] \<or> tail = tail_for (tails w) r gen" for tail r gen
    using that tail_for_true [OF assms (2)] by (auto simp: tail_true_def)
  show "tails_true S V (tails w')" unfolding tails_true_def
  proof (intro allI impI)
    fix k t
    assume "map_of (tails w') k = Some t"
    from step_tails [OF assms (1) this] consider "map_of (tails w) k = Some t" |
      r ps gen tl keep where "input_of x w = Some (r, ps, gen)" "tl = [] \<or> tl = tail_for (tails w) r gen" "k = key_of r"
        "ta_data t = build_tail tl (cr_data r) keep" "ta_end_offset t = sat_add64 (cr_stream_offset r) (length (cr_data r))"
      by blast
    then show "tail_true S V k (ta_data t) (ta_end_offset t)"
    proof cases
      case 1
      then show ?thesis using assms (2) unfolding tails_true_def by blast
    next
      case 2
      have "sat_add64 (cr_stream_offset r) (length (cr_data r)) = cr_stream_offset r + length (cr_data r)"
        using input [OF 2 (1)] by (intro sat_add64_exact) (simp add: content_true_def)
      with build_tail_true [OF tail [OF 2 (2)]] input [OF 2 (1)] 2 (3-5) show ?thesis by simp
    qed
  qed
  show "\<exists>r ps gen. input_of x w = Some (r, ps, gen) \<and> hit_true lib S V P r h" if "h \<in> set hits"
  proof (cases "input_of x w")
    case None
    with step_silent [OF assms (1)] that show ?thesis by simp
  next
    case (Some y)
    obtain r ps gen where y: "y = (r, ps, gen)" by (cases y)
    from step_hits [OF assms (1) Some [unfolded y]] obtain tl mp mt scan where
      s: "tl = [] \<or> tl = tail_for (tails w) r gen" "scan_bounded lib ps r tl historical mp mt = Some scan" "set hits \<subseteq> set (sn_hits scan)"
      by blast
    obtain pats where "compile_set lib pats = Inr ps" "set pats \<subseteq> P" and c: "content_true S V r" using input [OF Some [unfolded y]] by blast
    from scan_hits_true [OF s (2) assms (3, 4) this (1, 2) tail [OF s (1)] c] that s (3) Some y show ?thesis
      by (auto simp: list_all_iff)
  qed
qed

end

subsubsection \<open>The live worker\<close>

lemma delete_all_map_of: "map_of (fold AList.delete ks xs) k = (if k \<in> set ks then None else map_of xs k)"
  by (induction ks arbitrary: xs) (auto simp: delete_conv')

lemma forget_flow_frame:
  "mw_metadata (forget_flow fid w) = mw_metadata w"
  "map_of (mw_tails (forget_flow fid w)) k = Some t \<Longrightarrow> map_of (mw_tails w) k = Some t"
  by (auto simp: forget_flow_def Let_def delete_all_map_of split: option.splits if_splits)

lemma forget_flows_frame:
  "mw_metadata (fold forget_flow fids w) = mw_metadata w"
  "map_of (mw_tails (fold forget_flow fids w)) k = Some t \<Longrightarrow> map_of (mw_tails w) k = Some t"
  by (induction fids arbitrary: w) (auto simp: forget_flow_frame (1) dest: forget_flow_frame (2))

lemma touch_flow_frame:
  "mw_metadata (touch_flow seen now r w) = mw_metadata w"
  "map_of (mw_tails (touch_flow seen now r w)) k = Some t \<Longrightarrow> map_of (mw_tails w) k = Some t"
  by (auto simp: touch_flow_def Let_def forget_flows_frame (1) dest!: forget_flows_frame (2) split: if_splits)

lemma send_hits_frame:
  assumes "send_hits ok r hits w = (w', go)"
  shows "mw_tails w' = mw_tails w" "\<exists>n. mw_metadata w' = mw_metadata w @ take n hits"
    "go \<Longrightarrow> mw_metadata w' = mw_metadata w @ hits" "mw_flow_tail_keys w' = mw_flow_tail_keys w"
    "mw_processed w' = mw_processed w" "mw_flow_last_seen w' = mw_flow_last_seen w"
proof -
  have "mw_tails w' = mw_tails w \<and> (\<exists>n. mw_metadata w' = mw_metadata w @ take n hits) \<and>
      (go \<longrightarrow> mw_metadata w' = mw_metadata w @ hits) \<and> mw_flow_tail_keys w' = mw_flow_tail_keys w \<and>
      mw_processed w' = mw_processed w \<and> mw_flow_last_seen w' = mw_flow_last_seen w"
    using assms
  proof (induction hits arbitrary: w)
    case (Cons h hits)
    let ?w = "w\<lparr>mw_matches := mw_matches w + 1, mw_sends := mw_sends w + 1\<rparr>"
    let ?v = "?w\<lparr>mw_metadata := mw_metadata w @ [h],
                  mw_events := (if mr_action h = Find
                    then mw_events w @ [\<lparr>le_flow_id = mr_flow_id h, le_pattern_id = mr_pattern_id h,
                                         le_timestamp = mr_timestamp h, le_service = cr_service r\<rparr>]
                    else mw_events w)\<rparr>"
    show ?case
    proof (cases "ok (mw_sends w)")
      case True
      then have "send_hits ok r hits ?v = (w', go)" using Cons.prems by (simp add: Let_def cong: if_cong)
      note IH = Cons.IH [OF this]
      then obtain n where "mw_metadata w' = mw_metadata ?v @ take n hits" by blast
      then have "mw_metadata w' = mw_metadata w @ take (Suc n) (h # hits)" by simp
      with IH show ?thesis by (intro conjI exI [of _ "Suc n"]) auto
    next
      case False
      with Cons.prems show ?thesis by (auto simp: Let_def intro!: exI [of _ 0])
    qed
  qed auto
  then show "mw_tails w' = mw_tails w" "\<exists>n. mw_metadata w' = mw_metadata w @ take n hits"
    "go \<Longrightarrow> mw_metadata w' = mw_metadata w @ hits" "mw_flow_tail_keys w' = mw_flow_tail_keys w"
    "mw_processed w' = mw_processed w" "mw_flow_last_seen w' = mw_flow_last_seen w" by blast+
qed

lemma store_tail_frame:
  "mw_metadata (store_tail r gen keep tail w) = mw_metadata w"
  "map_of (mw_tails (store_tail r gen keep tail w)) =
     (if keep = 0 then (map_of (mw_tails w))(key_of r := None)
      else (map_of (mw_tails w))(key_of r \<mapsto> \<lparr>ta_data = build_tail tail (cr_data r) keep,
        ta_end_offset = sat_add64 (cr_stream_offset r) (length (cr_data r)), ta_generation = gen\<rparr>))"
  by (simp_all add: store_tail_def Let_def delete_conv' update_conv')

text \<open>What \<open>match_content\<close> does with the metadata and the tails.\<close>

lemma match_content_cases:
  assumes "match_content lib cfg ok r ps gen w = Some (w', go)"
  obtains (skip) "\<not> is_interested ps r" "go" "mw_metadata w' = mw_metadata w" "map_of (mw_tails w') = (map_of (mw_tails w))(key_of r := None)"
  | (scan) scan n where "is_interested ps r"
      "scan_bounded lib ps r (tail_for (mw_tails w) r gen) False (mc_max_hits_per_pattern cfg) (mc_max_hits_per_record cfg) = Some scan"
      "mw_metadata w' = mw_metadata w @ take n (sn_hits scan)" "go \<Longrightarrow> mw_metadata w' = mw_metadata w @ sn_hits scan"
      "\<not> go \<Longrightarrow> map_of (mw_tails w') = map_of (mw_tails w)"
      "go \<Longrightarrow> map_of (mw_tails w') =
        (if required_overlap ps r (mc_overlap_limit cfg) = 0 then (map_of (mw_tails w))(key_of r := None)
         else (map_of (mw_tails w))(key_of r \<mapsto>
           \<lparr>ta_data = build_tail (tail_for (mw_tails w) r gen) (cr_data r) (required_overlap ps r (mc_overlap_limit cfg)),
            ta_end_offset = sat_add64 (cr_stream_offset r) (length (cr_data r)), ta_generation = gen\<rparr>))"
proof (cases "is_interested ps r")
  case False
  with assms skip show ?thesis by (auto simp: match_content_def delete_conv')
next
  case True
  let ?w = "w\<lparr>mw_bytes := mw_bytes w + of_nat (length (cr_data r))\<rparr>"
  obtain sc where sc: "scan_bounded lib ps r (tail_for (mw_tails w) r gen) False (mc_max_hits_per_pattern cfg) (mc_max_hits_per_record cfg) = Some sc"
    using assms True by (auto simp: match_content_def Let_def bind_eq_Some_conv)
  define u where "u = (if sn_limited sc then ?w\<lparr>mw_limit_events := mw_limit_events w + 1\<rparr> else ?w)"
  obtain v go1 where v: "send_hits ok r (sn_hits sc) u = (v, go1)" by fastforce
  have u: "mw_metadata u = mw_metadata w" "mw_tails u = mw_tails w" by (simp_all add: u_def)
  have w': "(w', go) = (if go1 then (store_tail r gen (required_overlap ps r (mc_overlap_limit cfg)) (tail_for (mw_tails w) r gen) v, True) else (v, False))"
    using assms True sc v unfolding match_content_def by (simp add: Let_def u_def cong: if_cong)
  obtain n where n: "mw_metadata v = mw_metadata u @ take n (sn_hits sc)" using send_hits_frame (2) [OF v] by blast
  show ?thesis
  proof (rule scan [OF True sc])
    show "mw_metadata w' = mw_metadata w @ take n (sn_hits sc)" using w' n u by (auto simp: store_tail_frame split: if_splits)
  qed (use w' u send_hits_frame [OF v] in \<open>auto simp: store_tail_frame split: if_splits\<close>)
qed

definition work_of :: "nat \<times> nat \<times> matcher_work \<Rightarrow> (content_record \<times> pattern_set \<times> u64) option" where
  "work_of x = (case snd (snd x) of Content r ps gen \<Rightarrow> Some (r, ps, gen) | FlowClosed fid \<Rightarrow> None)"

text \<open>A step of the live worker, with the hits that it sends.\<close>

definition live_step ::
  "match_lib \<Rightarrow> matcher_config \<Rightarrow> (nat \<Rightarrow> bool) \<Rightarrow> nat \<times> nat \<times> matcher_work \<Rightarrow> matcher_worker \<Rightarrow> (match_record list \<times> matcher_worker) option" where
  "live_step lib cfg ok x w =
     map_option (\<lambda>(w', go). (drop (length (mw_metadata w)) (mw_metadata w'), w')) (matcher_step lib cfg ok x w)"

lemma tail_for_touched:
  "tail_for (mw_tails (touch_flow seen now r w)) r gen = [] \<or> tail_for (mw_tails (touch_flow seen now r w)) r gen = tail_for (mw_tails w) r gen"
  using touch_flow_frame (2) [of seen now r w "key_of r"]
  by (cases "map_of (mw_tails (touch_flow seen now r w)) (key_of r)") (auto simp: tail_for_def)

lemma uninterested_scan: "\<not> is_interested ps r \<Longrightarrow> scan_bounded lib ps r tail historical mp mt = Some \<lparr>sn_hits = [], sn_limited = False\<rparr>"
  by (cases "groups_for ps r") (simp add: is_interested_def scan_bounded_def)

lemma live_step_content:
  assumes "live_step lib cfg ok x w = Some (hits, w')" and "work_of x = Some (r, ps, gen)"
  obtains seen now u go where "u = touch_flow seen now r (w\<lparr>mw_queue_depth := queue_dequeued (mw_queue_depth w)\<rparr>)"
    "match_content lib cfg ok r ps gen u = Some (w', go)" "hits = drop (length (mw_metadata w)) (mw_metadata w')"
proof -
  obtain seen now work where x: "x = (seen, now, work)" by (cases x)
  with assms that show ?thesis
    by (cases work) (auto simp: work_of_def live_step_def matcher_step_def Let_def)
qed

interpretation live: stream_scanner mw_tails "live_step lib cfg ok" "\<lambda>x w. work_of x" lib False for lib cfg ok
proof
  fix x w hits w' r ps gen
  assume s: "live_step lib cfg ok x w = Some (hits, w')" and i: "work_of x = Some (r, ps, gen)"
  obtain seen now u go where u: "u = touch_flow seen now r (w\<lparr>mw_queue_depth := queue_dequeued (mw_queue_depth w)\<rparr>)"
    "match_content lib cfg ok r ps gen u = Some (w', go)" "hits = drop (length (mw_metadata w)) (mw_metadata w')"
    using live_step_content [OF s i] .
  have tail: "tail_for (mw_tails u) r gen = [] \<or> tail_for (mw_tails u) r gen = tail_for (mw_tails w) r gen"
    using tail_for_touched [of seen now r "w\<lparr>mw_queue_depth := queue_dequeued (mw_queue_depth w)\<rparr>" gen] by (simp add: u (1))
  have meta: "mw_metadata u = mw_metadata w" by (simp add: u (1) touch_flow_frame)
  from u (2) show "\<exists>tail mp mt scan. (tail = [] \<or> tail = tail_for (mw_tails w) r gen) \<and>
      scan_bounded lib ps r tail False mp mt = Some scan \<and> set hits \<subseteq> set (sn_hits scan)"
  proof (cases rule: match_content_cases)
    case skip
    then show ?thesis using u (3) meta uninterested_scan [OF skip (1)] by auto
  next
    case (scan sc n)
    then have "hits = take n (sn_hits sc)" using u (3) meta by simp
    with scan (2) tail show ?thesis by (blast dest: in_set_takeD)
  qed
next
  fix x w hits w'
  assume "live_step lib cfg ok x w = Some (hits, w')" "work_of x = None"
  then show "hits = []"
    by (cases x) (auto simp: live_step_def matcher_step_def work_of_def forget_flow_frame Let_def split: matcher_work.splits)
next
  fix x w hits w' k t
  assume s: "live_step lib cfg ok x w = Some (hits, w')" and t: "map_of (mw_tails w') k = Some t"
  show "map_of (mw_tails w) k = Some t \<or>
      (\<exists>r ps gen tail keep. work_of x = Some (r, ps, gen) \<and> (tail = [] \<or> tail = tail_for (mw_tails w) r gen) \<and> k = key_of r \<and>
        ta_data t = build_tail tail (cr_data r) keep \<and> ta_end_offset t = sat_add64 (cr_stream_offset r) (length (cr_data r)))"
  proof (cases "work_of x")
    case None
    with s t show ?thesis
      by (cases x) (auto simp: live_step_def matcher_step_def work_of_def Let_def dest!: forget_flow_frame (2) split: matcher_work.splits)
  next
    case (Some y)
    obtain r ps gen where y: "y = (r, ps, gen)" by (cases y)
    obtain seen now u go where u: "u = touch_flow seen now r (w\<lparr>mw_queue_depth := queue_dequeued (mw_queue_depth w)\<rparr>)"
      "match_content lib cfg ok r ps gen u = Some (w', go)"
      using live_step_content [OF s Some [unfolded y]] by metis
    have tail: "tail_for (mw_tails u) r gen = [] \<or> tail_for (mw_tails u) r gen = tail_for (mw_tails w) r gen"
      using tail_for_touched [of seen now r "w\<lparr>mw_queue_depth := queue_dequeued (mw_queue_depth w)\<rparr>" gen] by (simp add: u (1))
    have old: "map_of (mw_tails u) k = Some t \<Longrightarrow> map_of (mw_tails w) k = Some t"
      using touch_flow_frame (2) [of seen now r "w\<lparr>mw_queue_depth := queue_dequeued (mw_queue_depth w)\<rparr>" k t] by (simp add: u (1))
    from u (2) show ?thesis
    proof (cases rule: match_content_cases)
      case skip
      then show ?thesis using old t by (auto split: if_splits)
    next
      case (scan sc n)
      show ?thesis
      proof (cases "go \<and> k = key_of r")
        case True
        with scan (6) t have "ta_data t = build_tail (tail_for (mw_tails u) r gen) (cr_data r) (required_overlap ps r (mc_overlap_limit cfg))"
          "ta_end_offset t = sat_add64 (cr_stream_offset r) (length (cr_data r))" by (auto split: if_splits)
        with Some y True tail show ?thesis by blast
      next
        case False
        with scan (5, 6) t old show ?thesis by (cases go) (auto split: if_splits)
      qed
    qed
  qed
qed

subsubsection \<open>The replay scanner\<close>

definition replay_step :: "match_lib \<Rightarrow> content_record \<Rightarrow> replay_scanner \<Rightarrow> (match_record list \<times> replay_scanner) option" where
  "replay_step lib r s = map_option (\<lambda>(scan, s'). (sn_hits scan, s')) (scan_record lib r s)"

lemma drop_stale_tails: "map_of (rp_tails (drop_stale ts s)) k = Some t \<Longrightarrow> map_of (rp_tails s) k = Some t"
  by (simp add: drop_stale_def Let_def delete_all_map_of split: if_splits)

lemma scan_record_cases:
  assumes "scan_record lib r s = Some (sc, s')"
  obtains (skip) "\<not> is_interested (rp_patterns s) r" "sn_hits sc = []" "rp_patterns s' = rp_patterns s" "rp_config s' = rp_config s"
      "rp_scanned s' = rp_scanned s" "map_of (rp_tails s') = (map_of (rp_tails s))(key_of r := None)"
  | (scan) u where "is_interested (rp_patterns s) r"
      "scan_bounded lib (rp_patterns s) r (tail_for (rp_tails s) r 0) True (mc_max_hits_per_pattern (rp_config s)) (mc_max_hits_per_record (rp_config s)) = Some sc"
      "s' = (if rp_scanned u mod 4096 = 0 then drop_stale (cr_ts_ns r) u else u)"
      "rp_patterns u = rp_patterns s" "rp_config u = rp_config s"
      "rp_last_seen_ns u = AList.update (key_of r) (cr_ts_ns r) (rp_last_seen_ns s)"
      "map_of (rp_tails u) =
        (if required_overlap (rp_patterns s) r (mc_overlap_limit (rp_config s)) = 0 then (map_of (rp_tails s))(key_of r := None)
         else (map_of (rp_tails s))(key_of r \<mapsto>
           \<lparr>ta_data = build_tail (tail_for (rp_tails s) r 0) (cr_data r) (required_overlap (rp_patterns s) r (mc_overlap_limit (rp_config s))),
            ta_end_offset = sat_add64 (cr_stream_offset r) (length (cr_data r)), ta_generation = 0\<rparr>))"
proof (cases "is_interested (rp_patterns s) r")
  case False
  with assms skip show ?thesis by (auto simp: scan_record_def Let_def delete_conv')
next
  case True
  let ?keep = "required_overlap (rp_patterns s) r (mc_overlap_limit (rp_config s))"
  let ?u = "s\<lparr>rp_tails := (if ?keep = 0 then AList.delete (key_of r) (rp_tails s)
                   else AList.update (key_of r) \<lparr>ta_data = build_tail (tail_for (rp_tails s) r 0) (cr_data r) ?keep,
                          ta_end_offset = sat_add64 (cr_stream_offset r) (length (cr_data r)), ta_generation = 0\<rparr> (rp_tails s)),
                  rp_last_seen_ns := AList.update (key_of r) (cr_ts_ns r) (rp_last_seen_ns s),
                  rp_scanned := rp_scanned s + 1\<rparr>"
  have b: "scan_bounded lib (rp_patterns s) r (tail_for (rp_tails s) r 0) True (mc_max_hits_per_pattern (rp_config s)) (mc_max_hits_per_record (rp_config s)) = Some sc"
    and e: "s' = (if rp_scanned ?u mod 4096 = 0 then drop_stale (cr_ts_ns r) ?u else ?u)"
    using assms True unfolding scan_record_def Let_def by (simp_all only: if_not_P simp_thms bind_eq_Some_conv if_False) auto
  show ?thesis by (rule scan [OF True b e]) (simp_all add: delete_conv' update_conv')
qed

interpretation replay: stream_scanner rp_tails "replay_step lib" "\<lambda>r s. Some (r, rp_patterns s, 0)" lib True for lib
proof
  fix x w hits w' r ps and gen :: u64
  assume s: "replay_step lib x w = Some (hits, w')" and i: "Some (x, rp_patterns w, 0) = Some (r, ps, gen)"
  show "\<exists>tail mp mt scan. (tail = [] \<or> tail = tail_for (rp_tails w) r gen) \<and>
      scan_bounded lib ps r tail True mp mt = Some scan \<and> set hits \<subseteq> set (sn_hits scan)"
  proof (cases "is_interested ps r")
    case True
    with s i obtain scan where "scan_bounded lib ps r (tail_for (rp_tails w) r gen) True
        (mc_max_hits_per_pattern (rp_config w)) (mc_max_hits_per_record (rp_config w)) = Some scan" "hits = sn_hits scan"
      by (auto simp: replay_step_def scan_record_def Let_def bind_eq_Some_conv)
    then show ?thesis by blast
  next
    case False
    with s i have "hits = []" by (auto simp: replay_step_def scan_record_def Let_def)
    with uninterested_scan [OF False, of lib "[]" True] show ?thesis by fastforce
  qed
next
  fix x w hits w' k t
  assume s: "replay_step lib x w = Some (hits, w')" and t: "map_of (rp_tails w') k = Some t"
  from s obtain sc where "scan_record lib x w = Some (sc, w')" by (auto simp: replay_step_def)
  then show "map_of (rp_tails w) k = Some t \<or>
      (\<exists>r ps gen tail keep. Some (x, rp_patterns w, 0 :: u64) = Some (r, ps, gen) \<and> (tail = [] \<or> tail = tail_for (rp_tails w) r gen) \<and> k = key_of r \<and>
        ta_data t = build_tail tail (cr_data r) keep \<and> ta_end_offset t = sat_add64 (cr_stream_offset r) (length (cr_data r)))"
  proof (cases rule: scan_record_cases)
    case skip
    then show ?thesis using t by (simp split: if_splits)
  next
    case (scan u)
    have u: "map_of (rp_tails u) k = Some t" using t unfolding scan (3) by (auto split: if_splits dest: drop_stale_tails)
    show ?thesis
    proof (cases "k = key_of x")
      case True
      with u scan (7) have "ta_data t = build_tail (tail_for (rp_tails w) x 0) (cr_data x) (required_overlap (rp_patterns w) x (mc_overlap_limit (rp_config w)))"
        "ta_end_offset t = sat_add64 (cr_stream_offset x) (length (cr_data x))" by (auto split: if_splits)
      with True show ?thesis by blast
    next
      case False
      with u scan (7) show ?thesis by (simp split: if_splits)
    qed
  qed
qed simp

subsection \<open>Histories of the live worker\<close>

definition work_ok ::
  "match_lib \<Rightarrow> (stream_key \<Rightarrow> nat \<Rightarrow> byte) \<Rightarrow> content_view set \<Rightarrow> pattern_revision set \<Rightarrow> nat \<times> nat \<times> matcher_work \<Rightarrow> bool" where
  "work_ok lib S V P x \<longleftrightarrow> (\<forall>r ps gen. work_of x = Some (r, ps, gen) \<longrightarrow>
     content_true S V r \<and> (\<exists>pats. compile_set lib pats = Inr ps \<and> set pats \<subseteq> P))"

definition scanned :: "(nat \<times> nat \<times> matcher_work) list \<Rightarrow> content_record set" where
  "scanned xs = {r. \<exists>x ps gen. x \<in> set xs \<and> work_of x = Some (r, ps, gen)}"

lemma match_content_total:
  assumes "literal_law lib" "regex_law lib" and "\<And>g. g \<in> record_groups ps r \<Longrightarrow> \<exists>P. group_ok lib P g"
  shows "\<exists>w' go. match_content lib cfg ok r ps gen w = Some (w', go)"
proof (cases "is_interested ps r")
  case True
  obtain sc where "scan_bounded lib ps r (tail_for (mw_tails w) r gen) False (mc_max_hits_per_pattern cfg) (mc_max_hits_per_record cfg) = Some sc"
    using scan_bounded_total [OF assms] by blast
  with True show ?thesis by (auto simp: match_content_def Let_def split: prod.splits)
qed (auto simp: match_content_def)

lemma matcher_step_total:
  assumes "literal_law lib" "regex_law lib" and "work_ok lib S V P x"
  shows "\<exists>w' go. matcher_step lib cfg ok x w = Some (w', go)"
proof -
  obtain seen now work where x: "x = (seen, now, work)" by (cases x)
  show ?thesis
  proof (cases work)
    case (Content r ps gen)
    then obtain pats where "compile_set lib pats = Inr ps" using assms (3) x by (auto simp: work_ok_def work_of_def)
    then have groups: "\<exists>P. group_ok lib P g" if "g \<in> record_groups ps r" for g using compile_set_groups that by blast
    from match_content_total [OF assms (1, 2) groups]
    have "\<exists>w' go. match_content lib cfg ok r ps gen u = Some (w', go)" for u .
    with x Content show ?thesis by (simp add: matcher_step_def)
  qed (use x in \<open>auto simp: matcher_step_def\<close>)
qed

lemma metadata_grows:
  assumes "matcher_step lib cfg ok x w = Some (w', go)"
  shows "\<exists>hits. live_step lib cfg ok x w = Some (hits, w') \<and> mw_metadata w' = mw_metadata w @ hits"
proof -
  obtain seen now work where x: "x = (seen, now, work)" by (cases x)
  have "\<exists>hits. mw_metadata w' = mw_metadata w @ hits"
  proof (cases work)
    case (Content r ps gen)
    let ?u = "touch_flow seen now r (w\<lparr>mw_queue_depth := queue_dequeued (mw_queue_depth w)\<rparr>)"
    have "match_content lib cfg ok r ps gen ?u = Some (w', go)" using assms x Content by (simp add: matcher_step_def Let_def)
    then show ?thesis by (cases rule: match_content_cases) (auto simp: touch_flow_frame)
  next
    case (FlowClosed fid)
    with assms x show ?thesis by (auto simp: matcher_step_def Let_def forget_flow_frame)
  qed
  then obtain hits where "mw_metadata w' = mw_metadata w @ hits" by blast
  with assms show ?thesis by (simp add: live_step_def)
qed

lemma matcher_loop_true:
  assumes laws: "literal_law lib" "regex_law lib" and "list_all (work_ok lib S V P) xs" and "tails_true S V (mw_tails w)"
    and "\<forall>h \<in> set (mw_metadata w). \<exists>r \<in> R. hit_true lib S V P r h"
  shows "\<exists>w' go. matcher_worker_loop lib cfg ok xs w = Some (w', go) \<and>
    (\<forall>h \<in> set (mw_metadata w'). \<exists>r \<in> R \<union> scanned xs. hit_true lib S V P r h)"
  using assms (3-5)
proof (induction xs arbitrary: w R)
  case (Cons x xs)
  then have x: "work_ok lib S V P x" by simp
  from matcher_step_total [OF laws x] obtain v go where v: "matcher_step lib cfg ok x w = Some (v, go)" by blast
  from metadata_grows [OF this] obtain hits where h: "live_step lib cfg ok x w = Some (hits, v)" "mw_metadata v = mw_metadata w @ hits" by blast
  have input: "content_true S V r \<and> (\<exists>pats. compile_set lib pats = Inr ps \<and> set pats \<subseteq> P)" if "work_of x = Some (r, ps, gen)" for r ps gen
    using x that unfolding work_ok_def by blast
  note T = live.step_true [OF h (1) Cons.prems (2) laws input]
  have "\<exists>r \<in> R \<union> scanned [x]. hit_true lib S V P r m" if "m \<in> set (mw_metadata v)" for m
    using that h (2) T (2) Cons.prems (3) unfolding scanned_def by fastforce
  then have meta: "\<forall>m \<in> set (mw_metadata v). \<exists>r \<in> R \<union> scanned [x]. hit_true lib S V P r m" by blast
  have split: "R \<union> scanned [x] \<union> scanned xs = R \<union> scanned (x # xs)" unfolding scanned_def set_simps by blast
  show ?case
  proof (cases go)
    case True
    from Cons.IH [OF _ T (1) meta] Cons.prems (1) v True show ?thesis unfolding split by simp
  next
    case False
    with meta split have "\<forall>m \<in> set (mw_metadata v). \<exists>r \<in> R \<union> scanned (x # xs). hit_true lib S V P r m" by blast
    with v False show ?thesis by auto
  qed
qed (auto simp: scanned_def)

text \<open>The live matcher never panics, and no match it reports is false. Whatever content it is given, in any order
  and interleaving of flows and while the set of patterns changes, every match it sends belongs to a record it
  scanned and to an enabled pattern for the view and the service of that record; and where the pattern is a literal
  and the record is part of its stream, the stream holds the bytes of the pattern between the reported offsets, also
  when they begin in an earlier record.\<close>

theorem live_matches_true:
  assumes "literal_law lib" "regex_law lib" and "list_all (work_ok lib S V P) xs"
  shows "\<exists>w' go. matcher_worker_loop lib cfg ok xs (new_matcher depth) = Some (w', go) \<and>
    (\<forall>h \<in> set (mw_metadata w'). \<exists>r \<in> scanned xs. hit_true lib S V P r h)"
  using matcher_loop_true [OF assms, of "new_matcher depth" "{}"] by (simp add: new_matcher_def tails_true_def)

subsection \<open>A literal across records\<close>

interpretation reported: scan_invariant "\<lambda>st. h \<in> set (fst st)" "\<lambda>p hit. True" for h
  by unfold_locales (auto simp: limiter_push_def hit_limit_def Let_def split: prod.splits)

definition single_group :: "pattern_revision \<Rightarrow> bytes \<Rightarrow> compiled_group" where
  "single_group p bs = \<lparr>cg_literals = [bs], cg_literal_meta = [p], cg_regexes = [], cg_regex_meta = [], cg_max_literal_len = length bs\<rparr>"

text \<open>The bridge holds every occurrence that crosses the boundary, and nothing else.\<close>

lemma bridge_occurrence:
  assumes "occurs_at (D @ bs) needle s" and "s < length D" and "length D < s + length needle"
    and tail: "tail = drop (length D - (length needle - 1)) D"
  shows "occurs_at (tail @ take (min (length needle - 1) (length bs)) bs) needle (s - (length D - length tail))"
proof -
  define n where "n = length needle"
  define k where "k = length D - (n - 1)"
  define m where "m = min (n - 1) (length bs)"
  have tail: "tail = drop k D" using tail by (simp add: k_def n_def)
  have occ: "s + n \<le> length D + length bs" "bslice s (s + n) (D @ bs) = needle" using assms (1) by (simp_all add: occurs_at_def n_def)
  have k: "k \<le> s" "k \<le> length D" using assms (2, 3) by (auto simp: k_def n_def)
  have "s + n \<le> length D + m" using occ (1) assms (2, 3) by (simp add: m_def n_def)
  then have len: "s - k + n \<le> length D - k + m" using k by simp
  have hay: "tail @ take m bs = take (length D - k + m) (drop k (D @ bs))" using tail k by simp
  have "bslice (s - k) (s - k + n) (take (length D - k + m) (drop k (D @ bs))) = needle"
    using occ (2) k len by (simp add: bslice_def drop_take)
  moreover have "length (tail @ take m bs) = length D - k + m" using tail by (simp add: m_def)
  moreover have "length D - length tail = k" using tail k by simp
  ultimately show ?thesis using len unfolding occurs_at_def n_def [symmetric] m_def [symmetric] by (simp only: hay)
qed

lemma bridge_crosses:
  assumes "occurs_at (tail @ take (min (length needle - 1) (length bs)) bs) needle s" and "length tail \<le> length needle - 1" and "tail \<noteq> []"
  shows "s < length tail" "length tail < s + length needle"
proof -
  define m where "m = min (length needle - 1) (length bs)"
  have "s + length needle \<le> length tail + m" using assms (1) by (simp add: occurs_at_def m_def)
  moreover have "m \<le> length needle - 1" "0 < length tail" using assms (3) by (simp_all add: m_def)
  ultimately show "s < length tail" "length tail < s + length needle" using assms (2) by linarith+
qed

lemma push_first:
  assumes "push_matches [p] r historical base wanted ((0, s, e) # ms) st = Some (st', go)" and "wanted (base + s) (base + e)"
    and "st = ([], new_limiter mp mt)" and "mp > 0" "mt > 0"
  shows "match_record_of p r (base + s) (base + e) historical \<in> set (fst st')"
proof -
  let ?h = "match_record_of p r (base + s) (base + e) historical"
  have "?h \<in> set (fst (limiter_push p ?h st))"
    using assms (3-5) by (simp add: limiter_push_def new_limiter_def exhausted_def Let_def pattern_count_def)
  moreover have "push_matches [p] r historical base wanted ms (limiter_push p ?h st) = Some (st', go)"
    using assms by (simp add: exhausted_def new_limiter_def Let_def)
  ultimately show ?thesis using reported.push_matches_inv by blast
qed

lemma bridge_reported:
  assumes law: "literal_law lib" and "length bs > 1" and "tail = drop (length D - (length bs - 1)) D"
    and "occurs_at (D @ cr_data r) bs s" "s < length D" "length D < s + length bs"
    and "scan_bridge lib (single_group p bs) r tail historical ([], new_limiter mp mt) = Some (st', go)"
    and "mp > 0" "mt > 0" and off: "length tail \<le> cr_stream_offset r"
  shows "\<exists>start. match_record_of p r start (start + length bs) historical \<in> set (fst st') \<and>
    start < cr_stream_offset r \<and> cr_stream_offset r < start + length bs"
proof -
  let ?b = "tail @ take (min (length bs - 1) (length (cr_data r))) (cr_data r)"
  have t: "tail \<noteq> []" "length tail \<le> length bs - 1" using assms (2, 3, 5) by auto
  have "occurs_at ?b bs (s - (length D - length tail))" using bridge_occurrence [OF assms (4-6, 3)] .
  then have "ml_literals lib [bs] ?b \<noteq> []" using literal_law_found [OF law, of 0 "[bs]"] assms (2) by fastforce
  then obtain i s' e' ms where m: "ml_literals lib [bs] ?b = (i, s', e') # ms" by (metis list.exhaust surj_pair)
  then have L: "i = 0" "e' = s' + length bs" "occurs_at ?b bs s'" using literal_lawD [OF law, of i s' e' "[bs]" ?b] by auto
  note c = bridge_crosses [OF L (3) t (2, 1)]
  have w: "cr_stream_offset r - length tail + s' < cr_stream_offset r" "cr_stream_offset r < cr_stream_offset r - length tail + e'"
    using c off L (2) by linarith+
  have "push_matches [p] r historical (cr_stream_offset r - length tail) (\<lambda>start stop. start < cr_stream_offset r \<and> stop > cr_stream_offset r)
      ((0, s', e') # ms) ([], new_limiter mp mt) = Some (st', go)"
    using assms (2, 7) t m L (1) by (simp add: scan_bridge_def single_group_def Let_def)
  from push_first [OF this _ refl assms (8, 9)] w have
    "match_record_of p r (cr_stream_offset r - length tail + s') (cr_stream_offset r - length tail + e') historical \<in> set (fst st')" by simp
  with w L (2) show ?thesis by (intro exI [of _ "cr_stream_offset r - length tail + s'"]) (simp add: add.assoc)
qed

end
