(* ===== verification/Matcher_History.thy ===== *)
theory Matcher_History
  imports Matcher_Props
begin

text \<open>
  Histories of records: a literal that is split over the records of a stream is found, and a replay of stored records
  reports what the live matcher reported of them.
\<close>

subsection \<open>A set with one literal\<close>

lemma views_distinct: "distinct (views_for_pattern p)"
  by (auto simp: views_for_pattern_def Let_def split: option.splits pattern_direction.splits)

lemma push_buckets_map_of:
  assumes "distinct views" and "\<forall>v \<in> set views. map_of b v = None"
  shows "map_of (fold (push_bucket p) views b) v = (if v \<in> set views then Some [p] else map_of b v)"
  using assms
proof (induction views arbitrary: b)
  case (Cons x views)
  have "map_of (push_bucket p x b) v = (if v = x then Some [p] else map_of b v)" for v
    using Cons.prems (2) by (simp add: push_bucket_def update_conv')
  moreover from this have "\<forall>v \<in> set views. map_of (push_bucket p x b) v = None" using Cons.prems by auto
  ultimately show ?case using Cons.IH [of "push_bucket p x b"] Cons.prems by auto
qed simp

lemma bucket_pattern_global:
  assumes "pr_service p = None"
  shows "bucket_pattern p (globals, services) = (fold (push_bucket p) (views_for_pattern p) globals, services)"
proof -
  have "fold (\<lambda>view (globals, services).
       case pr_service p of
         Some service \<Rightarrow>
           (globals, AList.update service
              (push_bucket p view (case map_of services service of None \<Rightarrow> [] | Some b \<Rightarrow> b)) services)
       | None \<Rightarrow> (push_bucket p view globals, services)) views (globals, services) = (fold (push_bucket p) views globals, services)" for views
    using assms by (induction views arbitrary: globals) auto
  then show ?thesis by (simp add: bucket_pattern_def)
qed

lemma compile_buckets_map_of:
  "compile_buckets lib b = Inr gs \<Longrightarrow> map_of b v = Some ps \<Longrightarrow> \<exists>g. compile_group lib ps = Inr g \<and> map_of gs v = Some g"
proof (induction b arbitrary: gs)
  case (Cons x b)
  then show ?case by (cases x) (auto simp: and_then_Inr_iff split: if_splits)
qed simp

lemma compile_group_single:
  assumes "compile_group lib [p] = Inr g" and "literal_of lib p = Some bs"
  shows "g = single_group p bs"
proof -
  have "group_patterns lib [p] empty_group = Inr g" using assms (1) by (auto simp: compile_group_def and_then_Inr_iff split: if_splits)
  moreover have "group_patterns lib [p] empty_group = Inr (add_literal p bs empty_group)"
    using assms (2) by (auto simp: literal_of_def split: pattern_kind.splits sum.splits)
  ultimately show ?thesis by (simp add: add_literal_def empty_group_def single_group_def)
qed

lemma single_groups:
  assumes "compile_set lib [p] = Inr ps" and "pr_enabled p" "pr_service p = None" and "literal_of lib p = Some bs"
    and "cr_view r \<in> set (views_for_pattern p)"
  shows "groups_for ps r = (Some (single_group p bs), None)"
proof -
  let ?b = "fold (push_bucket p) (views_for_pattern p) []"
  have b: "map_of ?b (cr_view r) = Some [p]" using push_buckets_map_of [OF views_distinct [of p], where b = "[]" and p = p] assms (5) by simp
  have c: "compile_buckets lib ?b = Inr (ps_global ps)" "ps_service ps = []"
    using assms (1-3) by (auto simp: compile_set_def bucket_pattern_global and_then_Inr_iff)
  from compile_buckets_map_of [OF c (1) b] compile_group_single [OF _ assms (4)]
  have "map_of (ps_global ps) (cr_view r) = Some (single_group p bs)" by blast
  with c (2) show ?thesis by (cases "cr_service r") (simp_all add: groups_for_def)
qed

lemma single_scan_reports:
  assumes law: "literal_law lib" "regex_law lib" and g: "groups_for ps r = (Some (single_group p bs), None)"
    and "length bs > 1" and "tail = drop (length D - (length bs - 1)) D"
    and "occurs_at (D @ cr_data r) bs s" "s < length D" "length D < s + length bs"
    and scan: "scan_bounded lib ps r tail historical mp mt = Some sc" and "mp > 0" "mt > 0" and off: "length tail \<le> cr_stream_offset r"
  shows "\<exists>start. match_record_of p r start (start + length bs) historical \<in> set (sn_hits sc) \<and>
    start < cr_stream_offset r \<and> cr_stream_offset r < start + length bs"
proof -
  let ?g = "single_group p bs" and ?st = "([], new_limiter mp mt) :: scan_state"
  obtain st1 where i: "scan_into lib ?g r tail historical ?st = Some st1" "sn_hits sc = fst st1"
    using scan g by (auto simp: scan_bounded_def Let_def bind_eq_Some_conv simp del: split_paired_Ex split: if_splits)
  obtain st2 go where l: "scan_literals lib ?g r tail historical ?st = Some (st2, go)" "st1 = st2"
    using i (1) by (auto simp: scan_into_def bind_eq_Some_conv single_group_def)
  obtain st3 go3 where b1: "scan_bridge lib ?g r tail historical ?st = Some (st3, go3)"
    using l (1) by (cases "scan_bridge lib ?g r tail historical ?st") (auto simp: scan_literals_def single_group_def)
  have b: "(if \<not> go3 then Some (st3, False) else push_matches [p] r historical (cr_stream_offset r) (\<lambda>_ _. True)
       (ml_literals lib [bs] (cr_data r)) st3) = Some (st2, go)"
    using l (1) unfolding scan_literals_def b1 by (simp add: single_group_def split: if_splits)
  from bridge_reported [OF law (1) assms (4-8) b1 assms (10, 11) off] obtain start where
    h: "match_record_of p r start (start + length bs) historical \<in> set (fst st3)" "start < cr_stream_offset r" "cr_stream_offset r < start + length bs"
    by blast
  have "match_record_of p r start (start + length bs) historical \<in> set (fst st2)"
    using b h (1) by (auto split: if_splits intro: reported.push_matches_inv)
  with h i l show ?thesis by auto
qed

subsection \<open>Consecutive records\<close>

fun consecutive :: "nat \<Rightarrow> content_record list \<Rightarrow> bool" where
  "consecutive off [] = True"
| "consecutive off (r # rs) \<longleftrightarrow> cr_stream_offset r = off \<and> consecutive (off + length (cr_data r)) rs"

definition stream_bytes :: "content_record list \<Rightarrow> bytes" where
  "stream_bytes rs = concat (map cr_data rs)"

lemma consecutive_snoc: "consecutive off (rs @ [r]) \<longleftrightarrow> consecutive off rs \<and> cr_stream_offset r = off + length (stream_bytes rs)"
  by (induction rs arbitrary: off) (simp_all add: stream_bytes_def add.assoc)

text \<open>The worker has seen one stream only, and its tail is the end of it.\<close>

definition follows :: "stream_key \<Rightarrow> u64 \<Rightarrow> nat \<Rightarrow> nat \<Rightarrow> bytes \<Rightarrow> matcher_worker \<Rightarrow> bool" where
  "follows key gen keep stop D w \<longleftrightarrow>
     map_of (mw_tails w) key = Some \<lparr>ta_data = drop (length D - keep) D, ta_end_offset = stop, ta_generation = gen\<rparr> \<and>
     list_all (\<lambda>e. fst e = sk_flow_id key) (mw_flow_last_seen w) \<and> distinct (map fst (mw_flow_last_seen w))"

lemma touch_one_flow:
  assumes "list_all (\<lambda>e. fst e = cr_flow_id r) (mw_flow_last_seen w)" "distinct (map fst (mw_flow_last_seen w))"
    and "now - seen < tail_ttl"
  shows "mw_tails (touch_flow seen now r w) = mw_tails w \<and>
    list_all (\<lambda>e. fst e = cr_flow_id r) (mw_flow_last_seen (touch_flow seen now r w)) \<and>
    distinct (map fst (mw_flow_last_seen (touch_flow seen now r w)))"
proof -
  have "mw_flow_last_seen w = [] \<or> (\<exists>x. mw_flow_last_seen w = [(cr_flow_id r, x)])"
    using assms (1, 2) by (cases "mw_flow_last_seen w"; cases "tl (mw_flow_last_seen w)") auto
  then have "AList.update (cr_flow_id r) seen (mw_flow_last_seen w) = [(cr_flow_id r, seen)]" by auto
  with assms (3) show ?thesis by (simp add: touch_flow_def Let_def stale_flows_def)
qed

lemma match_content_last_seen:
  assumes "match_content lib cfg ok r ps gen w = Some (w', go)"
  shows "mw_flow_last_seen w' = mw_flow_last_seen w"
proof (cases "is_interested ps r")
  case True
  obtain sc where sc: "scan_bounded lib ps r (tail_for (mw_tails w) r gen) False (mc_max_hits_per_pattern cfg) (mc_max_hits_per_record cfg) = Some sc"
    using assms True by (auto simp: match_content_def Let_def bind_eq_Some_conv)
  define x where "x = w\<lparr>mw_bytes := mw_bytes w + of_nat (length (cr_data r))\<rparr>"
  define y where "y = (if sn_limited sc then x\<lparr>mw_limit_events := mw_limit_events x + 1\<rparr> else x)"
  obtain z go1 where z: "send_hits ok r (sn_hits sc) y = (z, go1)" by fastforce
  have "(w', go) = (if go1 then (store_tail r gen (required_overlap ps r (mc_overlap_limit cfg)) (tail_for (mw_tails w) r gen) z, True) else (z, False))"
    using assms True sc z unfolding match_content_def by (simp add: Let_def x_def y_def cong: if_cong)
  then show ?thesis using send_hits_frame (6) [OF z] by (auto simp: store_tail_def Let_def y_def x_def split: if_splits)
qed (use assms in \<open>auto simp: match_content_def\<close>)

lemma match_content_goes:
  assumes "match_content lib cfg (\<lambda>_. True) r ps gen w = Some (w', go)"
  shows "go"
proof -
  have "snd (send_hits (\<lambda>_. True) r hits v)" for hits v by (induction hits arbitrary: v) (simp_all add: Let_def)
  with assms show ?thesis
    by (auto simp: match_content_def Let_def bind_eq_Some_conv split: if_splits prod.splits) (metis snd_conv)+
qed

text \<open>One more record of the stream: its hits are sent and the tail moves on.\<close>

lemma matcher_step_follows:
  assumes step: "matcher_step lib cfg (\<lambda>_. True) (seen, now, Content r ps gen) w = Some (w', go)"
    and g: "groups_for ps r = (Some (single_group p bs), None)" and len: "length bs > 1"
    and clock: "now - seen < tail_ttl"
    and r: "key_of r = key" "cr_stream_offset r + length (cr_data r) \<le> u64_max"
    and w: "list_all (\<lambda>e. fst e = sk_flow_id key) (mw_flow_last_seen w)" "distinct (map fst (mw_flow_last_seen w))"
    and tail: "tail_for (mw_tails w) r gen = drop (length D - (length bs - 1)) D"
  shows "go" and "follows key gen (length bs - 1) (cr_stream_offset r + length (cr_data r)) (D @ cr_data r) w'"
    and "\<exists>scan. scan_bounded lib ps r (drop (length D - (length bs - 1)) D) False (mc_max_hits_per_pattern cfg) (mc_max_hits_per_record cfg) = Some scan \<and>
      mw_metadata w' = mw_metadata w @ sn_hits scan"
proof -
  let ?v = "w\<lparr>mw_queue_depth := queue_dequeued (mw_queue_depth w)\<rparr>"
  let ?u = "touch_flow seen now r ?v"
  have flow: "sk_flow_id key = cr_flow_id r" using r (1) by (auto simp: key_of_def)
  have u: "mw_tails ?u = mw_tails w" "list_all (\<lambda>e. fst e = cr_flow_id r) (mw_flow_last_seen ?u)" "distinct (map fst (mw_flow_last_seen ?u))"
    using touch_one_flow [of r ?v now seen] w clock flow by simp_all
  have meta: "mw_metadata ?u = mw_metadata w" by (simp add: touch_flow_frame)
  have keep: "required_overlap ps r (mc_overlap_limit cfg) = length bs - 1"
    by (simp add: required_overlap_def g group_overlap_def single_group_def)
  have int: "is_interested ps r" by (simp add: is_interested_def g)
  have m: "match_content lib cfg (\<lambda>_. True) r ps gen ?u = Some (w', go)" using step by (simp add: matcher_step_def Let_def)
  have last: "mw_flow_last_seen w' = mw_flow_last_seen ?u \<and> go"
    using match_content_last_seen [OF m] match_content_goes [OF m] by simp
  from m obtain sc where sc: "scan_bounded lib ps r (tail_for (mw_tails ?u) r gen) False (mc_max_hits_per_pattern cfg) (mc_max_hits_per_record cfg) = Some sc"
      "mw_metadata w' = mw_metadata ?u @ sn_hits sc"
      "map_of (mw_tails w') key = Some \<lparr>ta_data = build_tail (tail_for (mw_tails ?u) r gen) (cr_data r) (length bs - 1),
            ta_end_offset = sat_add64 (cr_stream_offset r) (length (cr_data r)), ta_generation = gen\<rparr>"
  proof (cases rule: match_content_cases)
    case skip
    then show ?thesis using int by simp
  next
    case (scan sc n)
    with last keep len r (1) show ?thesis using that by simp
  qed
  show "go" using last by simp
  show "\<exists>scan. scan_bounded lib ps r (drop (length D - (length bs - 1)) D) False (mc_max_hits_per_pattern cfg) (mc_max_hits_per_record cfg) = Some scan \<and>
      mw_metadata w' = mw_metadata w @ sn_hits scan"
    using sc (1, 2) u (1) tail meta by simp
  have "build_tail (drop (length D - (length bs - 1)) D) (cr_data r) (length bs - 1) = drop (length (D @ cr_data r) - (length bs - 1)) (D @ cr_data r)"
    by (cases "length D \<le> length bs - 1") (simp_all add: build_tail_eq add.commute)
  with sc (3) u last flow tail sat_add64_exact [OF r (2)]
  show "follows key gen (length bs - 1) (cr_stream_offset r + length (cr_data r)) (D @ cr_data r) w'"
    by (simp add: follows_def)
qed

lemma tail_for_new: "tail_for (mw_tails (new_matcher depth)) r gen = drop (length [] - keep) []"
  by (simp add: tail_for_def new_matcher_def)

lemma follows_tail:
  "follows key gen keep stop D w \<Longrightarrow> key_of r = key \<Longrightarrow> cr_stream_offset r = stop \<Longrightarrow> tail_for (mw_tails w) r gen = drop (length D - keep) D"
  by (simp add: follows_def tail_for_def prefix_for_def)

definition record_of :: "nat \<times> nat \<times> content_record \<Rightarrow> content_record" where
  "record_of x = snd (snd x)"

lemma record_of_simp [simp]: "record_of (seen, now, r) = r"
  by (simp add: record_of_def)

definition content_work :: "pattern_set \<Rightarrow> u64 \<Rightarrow> nat \<times> nat \<times> content_record \<Rightarrow> nat \<times> nat \<times> matcher_work" where
  "content_work ps gen x = (case x of (seen, now, r) \<Rightarrow> (seen, now, Content r ps gen))"

definition one_stream :: "stream_key \<Rightarrow> nat \<times> nat \<times> content_record \<Rightarrow> bool" where
  "one_stream key x \<longleftrightarrow> (case x of (seen, now, r) \<Rightarrow>
     key_of r = key \<and> now - seen < tail_ttl \<and> cr_stream_offset r + length (cr_data r) \<le> u64_max)"

lemma matcher_loop_append:
  "matcher_worker_loop lib cfg ok (ys @ zs) v = Option.bind (matcher_worker_loop lib cfg ok ys v)
     (\<lambda>(v, go). if go then matcher_worker_loop lib cfg ok zs v else Some (v, False))"
  by (induction ys arbitrary: v) (auto split: Option.bind_splits)

text \<open>After some records of a stream: all of them were taken, and the worker's tail is the end of their bytes.\<close>

lemma matcher_loop_follows:
  assumes laws: "literal_law lib" "regex_law lib" and c: "compile_set lib [p] = Inr ps"
    and g: "\<And>r. key_of r = key \<Longrightarrow> groups_for ps r = (Some (single_group p bs), None)" and len: "length bs > 1"
    and "list_all (one_stream key) xs" and "consecutive off (map record_of xs)" and "xs \<noteq> []"
  shows "\<exists>w. matcher_worker_loop lib cfg (\<lambda>_. True) (map (content_work ps gen) xs) (new_matcher depth) = Some (w, True) \<and>
    follows key gen (length bs - 1) (off + length (stream_bytes (map record_of xs))) (stream_bytes (map record_of xs)) w"
  using assms (6-8)
proof (induction xs rule: rev_induct)
  case (snoc x xs)
  obtain seen now r where x: "x = (seen, now, r)" by (cases x)
  let ?D = "stream_bytes (map record_of xs)"
  have r: "key_of r = key" "now - seen < tail_ttl" "cr_stream_offset r + length (cr_data r) \<le> u64_max"
    using snoc.prems (1) x by (simp_all add: one_stream_def)
  have off: "cr_stream_offset r = off + length ?D" and pre: "consecutive off (map record_of xs)"
    using snoc.prems (2) x by (simp_all add: consecutive_snoc)
  have total: "\<exists>w' go. matcher_step lib cfg (\<lambda>_. True) (seen, now, Content r ps gen) w = Some (w', go)" for w
    by (rule matcher_step_total [OF laws, where S = "\<lambda>_ _. 0" and V = "{}" and P = "{p}"])
      (use c r (3) in \<open>auto simp: work_ok_def work_of_def content_true_def intro!: exI [of _ "[p]"]\<close>)
  obtain w where w: "matcher_worker_loop lib cfg (\<lambda>_. True) (map (content_work ps gen) xs) (new_matcher depth) = Some (w, True)"
    "list_all (\<lambda>e. fst e = sk_flow_id key) (mw_flow_last_seen w)" "distinct (map fst (mw_flow_last_seen w))"
    "tail_for (mw_tails w) r gen = drop (length ?D - (length bs - 1)) ?D"
  proof (cases "xs = []")
    case True
    then show ?thesis using that [of "new_matcher depth"] tail_for_new by (simp add: new_matcher_def stream_bytes_def)
  next
    case False
    with snoc.IH snoc.prems (1) pre obtain w where "matcher_worker_loop lib cfg (\<lambda>_. True) (map (content_work ps gen) xs) (new_matcher depth) = Some (w, True)"
      "follows key gen (length bs - 1) (off + length ?D) ?D w" by auto
    with that [of w] follows_tail [OF _ r (1) off] show ?thesis by (simp add: follows_def)
  qed
  obtain w' go where s: "matcher_step lib cfg (\<lambda>_. True) (seen, now, Content r ps gen) w = Some (w', go)" using total by blast
  note F = matcher_step_follows [OF s g [OF r (1)] len r (2, 1, 3) w (2-4)]
  have "matcher_worker_loop lib cfg (\<lambda>_. True) (map (content_work ps gen) (xs @ [x])) (new_matcher depth) = Some (w', True)"
    using w (1) s F (1) by (simp add: matcher_loop_append x content_work_def)
  moreover have "stream_bytes (map record_of (xs @ [x])) = ?D @ cr_data r" by (simp add: stream_bytes_def x)
  ultimately show ?case using F (2) off by (simp add: add.assoc)
qed simp

text \<open>C32: A literal is found however its bytes are spread over records. When the records of a stream follow each other
  without a hole, in a worker whose set of patterns is that one literal of at least two bytes, and the literal occurs in
  the bytes of the stream across the beginning of the last record, then the worker takes all records and reports for
  the last one a match of the pattern that begins before and ends behind this point, even if the literal began several
  records earlier.\<close>

theorem split_literal_found:
  assumes "literal_law lib" "regex_law lib" and "compile_set lib [p] = Inr ps" and "pr_enabled p" "pr_service p = None"
    and "literal_of lib p = Some bs" "length bs > 1" and "sk_view key \<in> set (views_for_pattern p)"
    and "mc_max_hits_per_pattern cfg > 0" "mc_max_hits_per_record cfg > 0"
    and "list_all (one_stream key) (xs @ [(seen, now, r)])" and "consecutive off (map record_of (xs @ [(seen, now, r)]))"
    and "occurs_at (stream_bytes (map record_of xs) @ cr_data r) bs s"
    and "s < length (stream_bytes (map record_of xs))" "length (stream_bytes (map record_of xs)) < s + length bs"
  shows "\<exists>w h. matcher_worker_loop lib cfg (\<lambda>_. True) (map (content_work ps gen) (xs @ [(seen, now, r)])) (new_matcher depth) = Some (w, True) \<and>
    h \<in> set (mw_metadata w) \<and> hit_key h = pattern_key p \<and> mr_content_id h = cr_id r \<and>
    mr_offset_start h < cr_stream_offset r \<and> cr_stream_offset r < mr_offset_end h"
proof -
  let ?D = "stream_bytes (map record_of xs)" and ?x = "(seen, now, r)"
  have g: "groups_for ps q = (Some (single_group p bs), None)" if "key_of q = key" for q
    using single_groups [OF assms (3-6)] assms (8) that by (auto simp: key_of_def)
  have "xs \<noteq> []" using assms (14) by (auto simp: stream_bytes_def)
  have r: "key_of r = key" "now - seen < tail_ttl" "cr_stream_offset r + length (cr_data r) \<le> u64_max"
    using assms (11) by (simp_all add: one_stream_def)
  have off: "cr_stream_offset r = off + length ?D" and pre: "consecutive off (map record_of xs)"
    using assms (12) by (simp_all add: consecutive_snoc)
  from matcher_loop_follows [OF assms (1-3) g assms (7) _ pre \<open>xs \<noteq> []\<close>, of key cfg gen depth] assms (11) obtain w where
    w: "matcher_worker_loop lib cfg (\<lambda>_. True) (map (content_work ps gen) xs) (new_matcher depth) = Some (w, True)"
      "follows key gen (length bs - 1) (off + length ?D) ?D w" by auto
  have seen: "list_all (\<lambda>e. fst e = sk_flow_id key) (mw_flow_last_seen w)" "distinct (map fst (mw_flow_last_seen w))"
    using w (2) by (simp_all add: follows_def)
  have "\<exists>w' go. matcher_step lib cfg (\<lambda>_. True) (seen, now, Content r ps gen) w = Some (w', go)"
    by (rule matcher_step_total [OF assms (1, 2), where S = "\<lambda>_ _. 0" and V = "{}" and P = "{p}"])
      (use assms (3) r (3) in \<open>auto simp: work_ok_def work_of_def content_true_def intro!: exI [of _ "[p]"]\<close>)
  then obtain w' go where s: "matcher_step lib cfg (\<lambda>_. True) (seen, now, Content r ps gen) w = Some (w', go)" by blast
  note F = matcher_step_follows [OF s g [OF r (1)] assms (7) r (2, 1, 3) seen follows_tail [OF w (2) r (1) off]]
  obtain sc where sc: "scan_bounded lib ps r (drop (length ?D - (length bs - 1)) ?D) False (mc_max_hits_per_pattern cfg) (mc_max_hits_per_record cfg) = Some sc"
    "mw_metadata w' = mw_metadata w @ sn_hits sc" using F (3) by blast
  have "length (drop (length ?D - (length bs - 1)) ?D) \<le> cr_stream_offset r" using off by simp
  from single_scan_reports [OF assms (1, 2) g [OF r (1)] assms (7) refl assms (13-15) sc (1) assms (9, 10) this] obtain start where
    h: "match_record_of p r start (start + length bs) False \<in> set (sn_hits sc)" "start < cr_stream_offset r" "cr_stream_offset r < start + length bs"
    by blast
  have "matcher_worker_loop lib cfg (\<lambda>_. True) (map (content_work ps gen) (xs @ [?x])) (new_matcher depth) = Some (w', True)"
    using w (1) s F (1) by (simp add: matcher_loop_append content_work_def)
  moreover have "match_record_of p r start (start + length bs) False \<in> set (mw_metadata w')" using h (1) sc (2) by simp
  ultimately show ?thesis using h (2, 3)
    by (intro exI [of _ w'] exI [of _ "match_record_of p r start (start + length bs) False"])
      (simp add: match_record_of_def hit_key_def pattern_key_def)
qed

end
