(* ===== verification/Matcher_Replay.thy ===== *)
theory Matcher_Replay
  imports Matcher_History
begin

text \<open>
  A replay of stored records reports what the live matcher reported of them: a historical scan is the live scan with
  another mark, and the tails of both scanners agree.
\<close>

subsection \<open>A historical scan\<close>

definition as_history :: "scan_state \<Rightarrow> scan_state" where
  "as_history st = (map (\<lambda>h. h\<lparr>mr_historical := True\<rparr>) (fst st), snd st)"

definition history_result :: "(scan_state \<times> bool) option \<Rightarrow> (scan_state \<times> bool) option" where
  "history_result = map_option (map_prod as_history id)"

lemma as_history_simps [simp]:
  "snd (as_history st) = snd st" "hit_limit (as_history st) = as_history (hit_limit st)" "as_history ([], lim) = ([], lim)"
  by (simp_all add: as_history_def hit_limit_def)

lemma history_result_simps [simp]:
  "history_result None = None" "history_result (Some (st, go)) = Some (as_history st, go)"
  by (simp_all add: history_result_def)

lemma push_history:
  "limiter_push p (match_record_of q r s e True) (as_history st) = as_history (limiter_push p (match_record_of q r s e False) st)"
  by (cases st) (simp add: limiter_push_def as_history_def Let_def match_record_of_def)

lemma push_matches_history:
  "push_matches metas r True base wanted ms (as_history st) = history_result (push_matches metas r False base wanted ms st)"
proof (induction ms arbitrary: st)
  case (Cons m ms)
  then show ?case by (cases m) (simp add: Let_def push_history)
qed simp

lemma scan_bridge_history: "scan_bridge lib g r tail True (as_history st) = history_result (scan_bridge lib g r tail False st)"
  by (simp add: scan_bridge_def Let_def push_matches_history)

lemma scan_literals_history: "scan_literals lib g r tail True (as_history st) = history_result (scan_literals lib g r tail False st)"
  by (cases "scan_bridge lib g r tail False st") (auto simp: scan_literals_def scan_bridge_history push_matches_history)

lemma scan_regexes_history:
  "scan_regexes lib g r True combined base boundary idxs (as_history st) = history_result (scan_regexes lib g r False combined base boundary idxs st)"
proof (induction idxs arbitrary: st)
  case (Cons i idxs)
  show ?case
    by (cases "push_matches [cg_regex_meta g ! i] r False base (\<lambda>start stop. \<not> (case boundary of Some b \<Rightarrow> stop \<le> b | None \<Rightarrow> False))
        (map (\<lambda>(s, e). (0, s, e)) (ml_regex lib (cg_regexes g ! i) combined)) st")
      (auto simp: push_matches_history Cons.IH)
qed simp

lemma scan_into_history: "scan_into lib g r tail True (as_history st) = map_option as_history (scan_into lib g r tail False st)"
proof (cases "scan_literals lib g r tail False st")
  case (Some y)
  obtain st1 go where y: "y = (st1, go)" by fastforce
  define combined base boundary where "combined = (if tail = [] then cr_data r else tail @ cr_data r)"
    and "base = (if tail = [] then cr_stream_offset r else cr_stream_offset r - length tail)"
    and "boundary = (if tail = [] then None else Some (cr_stream_offset r))"
  have "(if tail = [] then (cr_data r, cr_stream_offset r, None) else (tail @ cr_data r, cr_stream_offset r - length tail, Some (cr_stream_offset r)))
      = (combined, base, boundary)" by (simp add: combined_def base_def boundary_def)
  with Some y show ?thesis
    by (cases "scan_regexes lib g r False combined base boundary (ml_regex_set lib (cg_regexes g) combined) st1")
      (auto simp: scan_into_def scan_literals_history scan_regexes_history)
qed (simp add: scan_into_def scan_literals_history)

lemma scan_bounded_history:
  "scan_bounded lib ps r tail True mp mt =
     map_option (\<lambda>sc. sc\<lparr>sn_hits := map (\<lambda>h. h\<lparr>mr_historical := True\<rparr>) (sn_hits sc)\<rparr>) (scan_bounded lib ps r tail False mp mt)"
proof -
  obtain global service where g: "groups_for ps r = (global, service)" by fastforce
  have into: "scan_into lib h r tail True st = map_option as_history (scan_into lib h r tail False st')" if "st = as_history st'" for h st st'
    using that scan_into_history by simp
  have start: "([], new_limiter mp mt) = as_history ([], new_limiter mp mt)" by simp
  show ?thesis
  proof (cases "case global of None \<Rightarrow> Some ([], new_limiter mp mt) | Some g \<Rightarrow> scan_into lib g r tail False ([], new_limiter mp mt)")
    case None
    then show ?thesis using into [OF start] by (cases global) (simp_all add: scan_bounded_def g)
  next
    case (Some st1)
    have 1: "(case global of None \<Rightarrow> Some ([], new_limiter mp mt) | Some g \<Rightarrow> scan_into lib g r tail True ([], new_limiter mp mt)) = Some (as_history st1)"
      using Some into [OF start] by (cases global) auto
    show ?thesis
      unfolding scan_bounded_def g prod.case Let_def 1 Some
      by (cases service; cases "scan_into lib (the service) r tail False st1")
        (auto simp: scan_into_history, auto simp: as_history_def hit_limit_def)
  qed
qed

subsection \<open>Both scanners over the same records\<close>

text \<open>The tails agree, up to the generation, which a replay does not have.\<close>

definition tails_agree :: "u64 \<Rightarrow> (stream_key \<times> tail_state) list \<Rightarrow> (stream_key \<times> tail_state) list \<Rightarrow> bool" where
  "tails_agree gen live_tails replay_tails \<longleftrightarrow> (\<forall>k.
     map_of replay_tails k = map_option (\<lambda>t. t\<lparr>ta_generation := 0\<rparr>) (map_of live_tails k) \<and>
     (\<forall>t. map_of live_tails k = Some t \<longrightarrow> ta_generation t = gen))"

lemma tails_agree_for: "tails_agree gen lt rt \<Longrightarrow> tail_for rt r 0 = tail_for lt r gen"
  by (cases "map_of lt (key_of r)") (auto simp: tails_agree_def tail_for_def prefix_for_def)

text \<open>No flow is idle for the two minutes after which the live worker forgets it, no stream for the five of a replay.\<close>

definition fresh_live :: "nat list \<Rightarrow> matcher_worker \<Rightarrow> bool" where
  "fresh_live seens w \<longleftrightarrow> snd ` set (mw_flow_last_seen w) \<subseteq> set seens"

definition fresh_replay :: "nat list \<Rightarrow> replay_scanner \<Rightarrow> bool" where
  "fresh_replay stamps s \<longleftrightarrow> snd ` set (rp_last_seen_ns s) \<subseteq> set stamps"

definition no_idle :: "(nat \<times> nat \<times> content_record) list \<Rightarrow> bool" where
  "no_idle xs \<longleftrightarrow>
     (\<forall>x \<in> set xs. \<forall>y \<in> set xs. fst (snd x) - fst y < tail_ttl \<and> cr_ts_ns (record_of x) - 300000000000 \<le> cr_ts_ns (record_of y))"

lemma touch_fresh:
  assumes "fresh_live seens w" and "\<forall>y \<in> set (seen # seens). now - y < tail_ttl"
  shows "mw_tails (touch_flow seen now r w) = mw_tails w" "fresh_live (seen # seens) (touch_flow seen now r w)"
proof -
  have u: "snd ` set (AList.update (cr_flow_id r) seen (mw_flow_last_seen w)) \<subseteq> set (seen # seens)"
    using alist_update_set [of "cr_flow_id r" seen "mw_flow_last_seen w"] assms (1) by (fastforce simp: fresh_live_def)
  then have "filter (\<lambda>e. now - snd e \<ge> tail_ttl) (AList.update (cr_flow_id r) seen (mw_flow_last_seen w)) = []"
    using assms (2) by (fastforce simp: filter_empty_conv not_le)
  with u show "mw_tails (touch_flow seen now r w) = mw_tails w" "fresh_live (seen # seens) (touch_flow seen now r w)"
    by (simp_all add: touch_flow_def Let_def stale_flows_def fresh_live_def)
qed

lemma drop_stale_fresh:
  assumes "fresh_replay stamps s" and "\<forall>y \<in> set stamps. ts - 300000000000 \<le> y"
  shows "rp_tails (drop_stale ts s) = rp_tails s" "rp_last_seen_ns (drop_stale ts s) = rp_last_seen_ns s"
    "rp_patterns (drop_stale ts s) = rp_patterns s" "rp_config (drop_stale ts s) = rp_config s"
proof -
  have "filter (\<lambda>e. snd e < ts - 300000000000) (rp_last_seen_ns s) = []"
    using assms by (fastforce simp: filter_empty_conv not_less fresh_replay_def)
  then show "rp_tails (drop_stale ts s) = rp_tails s" "rp_last_seen_ns (drop_stale ts s) = rp_last_seen_ns s"
    "rp_patterns (drop_stale ts s) = rp_patterns s" "rp_config (drop_stale ts s) = rp_config s"
    by (simp_all add: drop_stale_def Let_def)
qed

definition scanners_agree ::
  "pattern_set \<Rightarrow> matcher_config \<Rightarrow> u64 \<Rightarrow> nat list \<Rightarrow> nat list \<Rightarrow> matcher_worker \<Rightarrow> replay_scanner \<Rightarrow> bool" where
  "scanners_agree ps cfg gen seens stamps w s \<longleftrightarrow> tails_agree gen (mw_tails w) (rp_tails s) \<and> fresh_live seens w \<and>
     fresh_replay stamps s \<and> rp_patterns s = ps \<and> rp_config s = cfg"

abbreviation mark_historical :: "match_record \<Rightarrow> match_record" where
  "mark_historical h \<equiv> h\<lparr>mr_historical := True\<rparr>"

lemma tails_agree_delete:
  assumes "tails_agree gen lt rt" and "map_of lt' = (map_of lt)(key := None)" and "map_of rt' = (map_of rt)(key := None)"
  shows "tails_agree gen lt' rt'"
  using assms by (simp add: tails_agree_def)

lemma tails_agree_update:
  assumes "tails_agree gen lt rt" and "map_of lt' = (map_of lt)(key \<mapsto> \<lparr>ta_data = d, ta_end_offset = e, ta_generation = gen\<rparr>)"
    and "map_of rt' = (map_of rt)(key \<mapsto> \<lparr>ta_data = d, ta_end_offset = e, ta_generation = 0\<rparr>)"
  shows "tails_agree gen lt' rt'"
  using assms by (simp add: tails_agree_def)

lemma scan_record_total:
  assumes "literal_law lib" "regex_law lib" and "\<And>g. g \<in> record_groups (rp_patterns s) r \<Longrightarrow> \<exists>P. group_ok lib P g"
  shows "\<exists>sc s'. scan_record lib r s = Some (sc, s')"
proof (cases "is_interested (rp_patterns s) r")
  case True
  obtain sc where "scan_bounded lib (rp_patterns s) r (tail_for (rp_tails s) r 0) True (mc_max_hits_per_pattern (rp_config s)) (mc_max_hits_per_record (rp_config s)) = Some sc"
    using scan_bounded_total [OF assms] by blast
  with True show ?thesis by (simp add: scan_record_def Let_def)
qed (auto simp: scan_record_def Let_def)

lemma replay_scanned:
  assumes "scan_record lib r s = Some (sc, s')" and "is_interested (rp_patterns s) r"
  shows "\<exists>u. scan_bounded lib (rp_patterns s) r (tail_for (rp_tails s) r 0) True (mc_max_hits_per_pattern (rp_config s)) (mc_max_hits_per_record (rp_config s)) = Some sc \<and>
    s' = (if rp_scanned u mod 4096 = 0 then drop_stale (cr_ts_ns r) u else u) \<and> rp_patterns u = rp_patterns s \<and> rp_config u = rp_config s \<and>
    map_of (rp_tails u) =
      (if required_overlap (rp_patterns s) r (mc_overlap_limit (rp_config s)) = 0 then (map_of (rp_tails s))(key_of r := None)
       else (map_of (rp_tails s))(key_of r \<mapsto>
         \<lparr>ta_data = build_tail (tail_for (rp_tails s) r 0) (cr_data r) (required_overlap (rp_patterns s) r (mc_overlap_limit (rp_config s))),
          ta_end_offset = sat_add64 (cr_stream_offset r) (length (cr_data r)), ta_generation = 0\<rparr>)) \<and>
    rp_last_seen_ns u = AList.update (key_of r) (cr_ts_ns r) (rp_last_seen_ns s)"
  using assms (1)
proof (cases rule: scan_record_cases)
  case skip
  with assms (2) show ?thesis by simp
next
  case (scan u)
  then show ?thesis by blast
qed

lemma step_agrees:
  assumes laws: "literal_law lib" "regex_law lib" and c: "compile_set lib pats = Inr ps"
    and agree: "scanners_agree ps cfg gen seens stamps w s"
    and live: "\<forall>y \<in> set (seen # seens). now - y < tail_ttl" and replay: "\<forall>y \<in> set (cr_ts_ns r # stamps). cr_ts_ns r - 300000000000 \<le> y"
  shows "\<exists>w' sc s'. matcher_step lib cfg (\<lambda>_. True) (seen, now, Content r ps gen) w = Some (w', True) \<and> scan_record lib r s = Some (sc, s') \<and>
    map mark_historical (mw_metadata w') = map mark_historical (mw_metadata w) @ sn_hits sc \<and>
    scanners_agree ps cfg gen (seen # seens) (cr_ts_ns r # stamps) w' s'"
proof -
  let ?v = "w\<lparr>mw_queue_depth := queue_dequeued (mw_queue_depth w)\<rparr>"
  let ?u = "touch_flow seen now r ?v"
  have A: "tails_agree gen (mw_tails w) (rp_tails s)" "fresh_live seens ?v" "fresh_replay stamps s" "rp_patterns s = ps" "rp_config s = cfg"
    using agree by (auto simp: scanners_agree_def fresh_live_def)
  note T = touch_fresh [OF A (2) live, of r]
  have ut: "mw_tails ?u = mw_tails w" using T (1) by simp
  have tail: "tail_for (rp_tails s) r 0 = tail_for (mw_tails ?u) r gen" using tails_agree_for [OF A (1)] ut by simp
  have groups: "\<exists>P. group_ok lib P g" if "g \<in> record_groups ps r" for g using compile_set_groups [OF c that] by blast
  obtain sc s' where sc: "scan_record lib r s = Some (sc, s')" using scan_record_total [OF laws] groups A (4) by metis
  obtain w' go where m: "match_content lib cfg (\<lambda>_. True) r ps gen ?u = Some (w', go)"
    using match_content_total [OF laws groups] by blast
  have go: "go" by (rule match_content_goes [OF m])
  have step: "matcher_step lib cfg (\<lambda>_. True) (seen, now, Content r ps gen) w = Some (w', True)"
    using m go by (simp add: matcher_step_def Let_def)
  have fl: "fresh_live (seen # seens) w'" using T (2) match_content_last_seen [OF m] by (simp add: fresh_live_def)
  show ?thesis
  proof (cases "is_interested ps r")
    case False
    from m False have L: "mw_metadata w' = mw_metadata w" "map_of (mw_tails w') = (map_of (mw_tails w))(key_of r := None)"
      by (cases rule: match_content_cases; simp add: touch_flow_frame ut)+
    have R: "sn_hits sc = []" "s' = s\<lparr>rp_tails := AList.delete (key_of r) (rp_tails s), rp_last_seen_ns := AList.delete (key_of r) (rp_last_seen_ns s)\<rparr>"
      using sc False A (4) by (auto simp: scan_record_def Let_def)
    have "fresh_replay (cr_ts_ns r # stamps) s'" using A (3) R (2) by (auto simp: fresh_replay_def AList.delete_eq)
    moreover have "tails_agree gen (mw_tails w') (rp_tails s')"
      by (rule tails_agree_delete [OF A (1) L (2)]) (simp add: R (2) delete_conv')
    ultimately show ?thesis using step sc L (1) R fl A (4, 5) by (auto simp: scanners_agree_def)
  next
    case True
    let ?keep = "required_overlap ps r (mc_overlap_limit cfg)"
    from m True go obtain lsc where L: "scan_bounded lib ps r (tail_for (mw_tails ?u) r gen) False (mc_max_hits_per_pattern cfg) (mc_max_hits_per_record cfg) = Some lsc"
      "mw_metadata w' = mw_metadata w @ sn_hits lsc"
      "map_of (mw_tails w') = (if ?keep = 0 then (map_of (mw_tails w))(key_of r := None)
         else (map_of (mw_tails w))(key_of r \<mapsto> \<lparr>ta_data = build_tail (tail_for (mw_tails ?u) r gen) (cr_data r) ?keep,
            ta_end_offset = sat_add64 (cr_stream_offset r) (length (cr_data r)), ta_generation = gen\<rparr>))"
    proof (cases rule: match_content_cases)
      case skip
      with True show ?thesis by simp
    next
      case (scan lsc n)
      show ?thesis using that [OF scan (2)] scan (4, 6) go ut by (simp add: touch_flow_frame)
    qed
    obtain u where R: "scan_bounded lib ps r (tail_for (mw_tails ?u) r gen) True (mc_max_hits_per_pattern cfg) (mc_max_hits_per_record cfg) = Some sc"
      "s' = (if rp_scanned u mod 4096 = 0 then drop_stale (cr_ts_ns r) u else u)" "rp_patterns u = ps" "rp_config u = cfg"
      "map_of (rp_tails u) = (if ?keep = 0 then (map_of (rp_tails s))(key_of r := None)
         else (map_of (rp_tails s))(key_of r \<mapsto> \<lparr>ta_data = build_tail (tail_for (mw_tails ?u) r gen) (cr_data r) ?keep,
            ta_end_offset = sat_add64 (cr_stream_offset r) (length (cr_data r)), ta_generation = 0\<rparr>))"
      "rp_last_seen_ns u = AList.update (key_of r) (cr_ts_ns r) (rp_last_seen_ns s)"
      using replay_scanned [OF sc] True A (4, 5) tail by metis
    have fu: "fresh_replay (cr_ts_ns r # stamps) u"
      using A (3) R (6) alist_update_set [of "key_of r" "cr_ts_ns r" "rp_last_seen_ns s"] by (fastforce simp: fresh_replay_def)
    note S = drop_stale_fresh [OF fu replay]
    have s': "rp_tails s' = rp_tails u" "fresh_replay (cr_ts_ns r # stamps) s'" "rp_patterns s' = ps" "rp_config s' = cfg"
      using R (2-4) S fu by (auto simp: fresh_replay_def)
    have "tails_agree gen (mw_tails w') (rp_tails s')"
    proof (cases "?keep = 0")
      case True
      then show ?thesis using tails_agree_delete [OF A (1)] L (3) R (5) s' (1) by simp
    next
      case False
      then show ?thesis using tails_agree_update [OF A (1)] L (3) R (5) s' (1) by simp
    qed
    moreover have "sn_hits sc = map mark_historical (sn_hits lsc)" using scan_bounded_history [of lib ps r] L (1) R (1) by auto
    ultimately show ?thesis using step sc L (2) fl s' by (auto simp: scanners_agree_def)
  qed
qed

lemma run_agrees:
  assumes laws: "literal_law lib" "regex_law lib" and c: "compile_set lib pats = Inr ps"
    and "scanners_agree ps cfg gen seens stamps w s"
    and "\<forall>x \<in> set xs. \<forall>y \<in> set seens \<union> fst ` set xs. fst (snd x) - y < tail_ttl"
    and "\<forall>x \<in> set xs. \<forall>y \<in> set stamps \<union> (cr_ts_ns \<circ> record_of) ` set xs. cr_ts_ns (record_of x) - 300000000000 \<le> y"
  shows "\<exists>w' s' hits. matcher_worker_loop lib cfg (\<lambda>_. True) (map (content_work ps gen) xs) w = Some (w', True) \<and>
    replay_records lib (map record_of xs) s = Some (hits, s') \<and> map mark_historical (mw_metadata w') = map mark_historical (mw_metadata w) @ hits"
  using assms (4-6)
proof (induction xs arbitrary: w s seens stamps)
  case (Cons x xs)
  obtain seen now r where x: "x = (seen, now, r)" by (cases x)
  have "\<exists>w' sc s'. matcher_step lib cfg (\<lambda>_. True) (seen, now, Content r ps gen) w = Some (w', True) \<and> scan_record lib r s = Some (sc, s') \<and>
    map mark_historical (mw_metadata w') = map mark_historical (mw_metadata w) @ sn_hits sc \<and>
    scanners_agree ps cfg gen (seen # seens) (cr_ts_ns r # stamps) w' s'"
    by (rule step_agrees [OF laws c Cons.prems (1)]) (use Cons.prems (2, 3) x in simp_all)
  then obtain w1 sc s1 where 1: "matcher_step lib cfg (\<lambda>_. True) (seen, now, Content r ps gen) w = Some (w1, True)" "scan_record lib r s = Some (sc, s1)"
    "map mark_historical (mw_metadata w1) = map mark_historical (mw_metadata w) @ sn_hits sc"
    "scanners_agree ps cfg gen (seen # seens) (cr_ts_ns r # stamps) w1 s1" by blast
  have "\<exists>w' s' hits. matcher_worker_loop lib cfg (\<lambda>_. True) (map (content_work ps gen) xs) w1 = Some (w', True) \<and>
    replay_records lib (map record_of xs) s1 = Some (hits, s') \<and> map mark_historical (mw_metadata w') = map mark_historical (mw_metadata w1) @ hits"
    by (rule Cons.IH [OF 1 (4)]) (use Cons.prems (2, 3) x in auto)
  then obtain w2 s2 hits where "matcher_worker_loop lib cfg (\<lambda>_. True) (map (content_work ps gen) xs) w1 = Some (w2, True)"
    "replay_records lib (map record_of xs) s1 = Some (hits, s2)" "map mark_historical (mw_metadata w2) = map mark_historical (mw_metadata w1) @ hits" by blast
  moreover have "content_work ps gen x = (seen, now, Content r ps gen)" by (simp add: content_work_def x)
  ultimately show ?case using 1 x by simp
qed simp

text \<open>C33: A replay finds what the live matcher found. For the same records in the same order, with the same patterns and
  limits and no stream idle long enough to be forgotten, the live matcher and the replay scanner both return, and the
  matches of the replay are those the live matcher sent, in order, marked historical.\<close>

theorem replay_agrees_with_live:
  assumes "literal_law lib" "regex_law lib" and "compile_set lib pats = Inr ps" and "no_idle xs"
  shows "\<exists>w s s' hits. new_replay_scanner lib pats cfg = Inr s \<and>
    matcher_worker_loop lib cfg (\<lambda>_. True) (map (content_work ps gen) xs) (new_matcher depth) = Some (w, True) \<and>
    replay_records lib (map record_of xs) s = Some (hits, s') \<and> hits = map (\<lambda>h. h\<lparr>mr_historical := True\<rparr>) (mw_metadata w)"
proof -
  define s where "s = \<lparr>rp_patterns = ps, rp_tails = [], rp_last_seen_ns = [], rp_config = cfg, rp_scanned = 0\<rparr>"
  have s: "new_replay_scanner lib pats cfg = Inr s" using assms (3) by (simp add: new_replay_scanner_def s_def)
  have "scanners_agree ps cfg gen [] [] (new_matcher depth) s"
    by (simp add: scanners_agree_def tails_agree_def fresh_live_def fresh_replay_def new_matcher_def s_def)
  from run_agrees [OF assms (1-3) this, of xs] assms (4) obtain w s' hits where
    "matcher_worker_loop lib cfg (\<lambda>_. True) (map (content_work ps gen) xs) (new_matcher depth) = Some (w, True)"
    "replay_records lib (map record_of xs) s = Some (hits, s')" "map mark_historical (mw_metadata w) = map mark_historical (mw_metadata (new_matcher depth)) @ hits"
    by (auto simp: no_idle_def)
  with s show ?thesis by (auto simp: new_matcher_def)
qed

end
