(* ===== verification/Matcher_Examples.thy ===== *)
theory Matcher_Examples
  imports Matcher_Replay
begin

text \<open>
  A library without regular expressions that finds every occurrence of every literal, a pattern and the records of a
  stream that splits it.
\<close>

definition every_occurrence :: "bytes list \<Rightarrow> bytes \<Rightarrow> (nat \<times> nat \<times> nat) list" where
  "every_occurrence pats hay =
     concat (map (\<lambda>i. map (\<lambda>s. (i, s, s + length (pats ! i))) (filter (occurs_at hay (pats ! i)) [0 ..< Suc (length hay)])) [0 ..< length pats])"

definition plain_lib :: match_lib where
  "plain_lib = \<lparr>ml_hex = (\<lambda>_. None), ml_literals_ok = (\<lambda>_. True), ml_literals = every_occurrence, ml_regex_ok = (\<lambda>_. False),
     ml_regex_set_ok = (\<lambda>_. False), ml_regex_set = (\<lambda>_ _. []), ml_regex = (\<lambda>_ _. [])\<rparr>"

lemma plain_literal_law: "literal_law plain_lib"
  unfolding literal_law_def
proof (intro conjI allI impI)
  fix pats hay i s
  assume a: "i < length pats \<and> pats ! i \<noteq> [] \<and> occurs_at hay (pats ! i) s"
  then have "s < Suc (length hay)" by (simp add: occurs_at_def)
  with a have "(i, s, s + length (pats ! i)) \<in> set (every_occurrence pats hay)"
    by (auto simp: every_occurrence_def simp del: upt_Suc intro!: bexI [of _ i])
  then show "ml_literals plain_lib pats hay \<noteq> []" by (auto simp: plain_lib_def)
qed (auto simp: plain_lib_def every_occurrence_def simp del: upt_Suc)

lemma plain_regex_law: "regex_law plain_lib"
  by (simp add: regex_law_def plain_lib_def)

definition plain_pattern :: pattern_revision where
  "plain_pattern = \<lparr>pr_id = 7, pr_revision = 1, pr_name = ''x'', pr_expression = ''BC'', pr_kind = TextPattern, pr_action = Find,
     pr_color = [], pr_direction_type = BothDirections, pr_service = None, pr_view = Some TcpRaw, pr_enabled = True, pr_created_at = (0, 0)\<rparr>"

definition plain_set :: pattern_set where
  "plain_set = \<lparr>ps_global = [(TcpRaw, single_group plain_pattern [66, 67])], ps_service = [], ps_ignore_revisions = []\<rparr>"

lemma plain_compiled: "compile_set plain_lib [plain_pattern] = Inr plain_set"
  by (simp add: compile_set_def plain_pattern_def bucket_pattern_def views_for_pattern_def push_bucket_def compile_group_def plain_lib_def
      add_literal_def empty_group_def plain_set_def single_group_def as_bytes_def)

definition plain_record :: "nat \<Rightarrow> bytes \<Rightarrow> content_record" where
  "plain_record off bs = \<lparr>cr_id = of_nat off, cr_flow_id = 1, cr_ts_ns = 5, cr_service = None, cr_direction = AToB, cr_view = TcpRaw,
     cr_stream_offset = off, cr_data = bs\<rparr>"

definition plain_config :: matcher_config where
  "plain_config = \<lparr>mc_overlap_limit = 16, mc_max_hits_per_pattern = 3, mc_max_hits_per_record = 32\<rparr>"

definition plain_stream :: "(nat \<times> nat \<times> content_record) list" where
  "plain_stream = [(0, 1, plain_record 0 [65, 66])]"

abbreviation plain_history :: "(nat \<times> nat \<times> content_record) list" where
  "plain_history \<equiv> plain_stream @ [(2, 3, plain_record 2 [67, 68])]"

definition plain_key :: stream_key where
  "plain_key = \<lparr>sk_flow_id = 1, sk_direction = AToB, sk_view = TcpRaw\<rparr>"

theorem scan_within_limits_witness:
  "\<exists>scan. scan_bounded plain_lib plain_set (plain_record 2 [67, 68]) [66] False 3 32 = Some scan \<and> length (sn_hits scan) \<le> 32 \<and>
     (\<forall>k. hits_of k (sn_hits scan) \<le> 3)"
  by (rule scan_within_limits [OF plain_literal_law plain_regex_law plain_compiled]) (simp add: plain_record_def)

theorem live_matches_true_witness:
  "\<exists>w' go. matcher_worker_loop plain_lib plain_config (\<lambda>_. True) (map (content_work plain_set 1) plain_history) (new_matcher 0) = Some (w', go) \<and>
     list_all (\<lambda>h. \<exists>r. r \<in> scanned (map (content_work plain_set 1) plain_history) \<and>
       hit_true plain_lib (\<lambda>_ n. [65, 66, 67, 68] ! n) {TcpRaw} {plain_pattern} r h) (mw_metadata w')"
proof -
  have "list_all (work_ok plain_lib (\<lambda>_ n. [65, 66, 67, 68] ! n) {TcpRaw} {plain_pattern}) (map (content_work plain_set 1) plain_history)"
    using plain_compiled
    by (auto simp: plain_stream_def content_work_def work_ok_def work_of_def content_true_def plain_record_def bytes_at_def less_Suc_eq nth_Cons'
        intro!: exI [of _ "[plain_pattern]"])
  from live_matches_true [OF plain_literal_law plain_regex_law this, of plain_config "\<lambda>_. True" 0] show ?thesis
    by (auto simp: list_all_iff Bex_def simp del: map_append)
qed

theorem split_literal_found_witness:
  "\<exists>w h. matcher_worker_loop plain_lib plain_config (\<lambda>_. True) (map (content_work plain_set 1) plain_history) (new_matcher 0) = Some (w, True) \<and>
     h \<in> set (mw_metadata w) \<and> hit_key h = pattern_key plain_pattern \<and> mr_content_id h = 2 \<and> mr_offset_start h < 2 \<and> 2 < mr_offset_end h"
proof -
  have D: "stream_bytes (map record_of plain_stream) = [65, 66]" by (simp add: stream_bytes_def plain_stream_def plain_record_def)
  have "occurs_at ([65, 66] @ cr_data (plain_record 2 [67, 68])) [66, 67] 1" by (simp add: occurs_at_def bslice_def plain_record_def)
  moreover have "list_all (one_stream plain_key) plain_history" "consecutive 0 (map record_of plain_history)"
    by (simp_all add: plain_stream_def one_stream_def plain_key_def key_of_def plain_record_def)
  moreover have "pr_enabled plain_pattern" "pr_service plain_pattern = None" "literal_of plain_lib plain_pattern = Some [66, 67]"
    "sk_view plain_key \<in> set (views_for_pattern plain_pattern)"
    by (simp_all add: plain_pattern_def literal_of_def as_bytes_def views_for_pattern_def plain_key_def)
  ultimately show ?thesis
    using split_literal_found [OF plain_literal_law plain_regex_law plain_compiled, of "[66, 67]" plain_key plain_config plain_stream 2 3 "plain_record 2 [67, 68]" 0 1 1 0]
    by (simp add: D plain_config_def plain_record_def)
qed

theorem replay_agrees_with_live_witness:
  "\<exists>w s s' hits. new_replay_scanner plain_lib [plain_pattern] plain_config = Inr s \<and>
     matcher_worker_loop plain_lib plain_config (\<lambda>_. True) (map (content_work plain_set 1) plain_history) (new_matcher 0) = Some (w, True) \<and>
     replay_records plain_lib (map record_of plain_history) s = Some (hits, s') \<and> hits = map (\<lambda>h. h\<lparr>mr_historical := True\<rparr>) (mw_metadata w)"
  by (rule replay_agrees_with_live [OF plain_literal_law plain_regex_law plain_compiled])
    (simp add: no_idle_def plain_stream_def plain_record_def)

end
