(* ===== verification/Spool.thy ===== *)
theory Spool
  imports Segment_Store Bazalt_Events Rust_Text
begin

text \<open>
  The metadata spool of \<open>src/src/storage/spool.rs\<close>: one directory with a file per batch of events, named by its
  sequence number in twenty digits.

  A directory maps names to contents. \<open>sp_dir\<close> is what the process sees, \<open>sp_synced\<close> what is on the disk for
  certain: the two differ after a rename or a removal whose directory has not been synced. Contents are synced
  before a file gets its final name. How far a call gets is an argument (\<open>append_io\<close>, \<open>remove_io\<close>). JSON is
  foreign code: \<open>event_codec\<close> holds \<open>serde_json::to_vec\<close> and \<open>from_slice\<close>, and \<open>codec_law\<close> says that reading
  gives back what was written.
\<close>

subsection \<open>Names\<close>

definition zero_pad :: "nat \<Rightarrow> string \<Rightarrow> string" where
  "zero_pad n s = replicate (n - length s) (CHR ''0'') @ s"

definition path_for_sequence :: "nat \<Rightarrow> string" where
  "path_for_sequence sequence = zero_pad 20 (decimal sequence) @ ''.json''"

definition temp_name :: "nat \<Rightarrow> string \<Rightarrow> string" where
  "temp_name sequence uuid_text = ''.'' @ zero_pad 20 (decimal sequence) @ ''.tmp-'' @ uuid_text"

definition is_temp :: "string \<Rightarrow> bool" where
  "is_temp name \<longleftrightarrow> name \<noteq> [] \<and> hd name = CHR ''.'' \<and> find_window (as_bytes ''.tmp-'') (as_bytes name) \<noteq> None"

definition file_stem :: "string \<Rightarrow> string" where
  "file_stem name =
     (let front = dropWhile (\<lambda>c. c \<noteq> CHR ''.'') (rev name) in if length front \<le> 1 then name else rev (tl front))"

text \<open>\<open>parse::<u64>\<close> of any text.\<close>

definition parse_u64_text :: "bytes \<Rightarrow> nat option" where
  "parse_u64_text bs =
     (let digits = (if bs \<noteq> [] \<and> hd bs = 43 then tl bs else bs) in
      if digits = [] \<or> \<not> list_all is_digit digits then None else parse_u64 digits)"

definition entry_sequence :: "string \<Rightarrow> nat option" where
  "entry_sequence name =
     (if extension_of name \<noteq> Some ''json'' then None else parse_u64_text (as_bytes (file_stem name)))"

subsection \<open>The spool\<close>

type_synonym spool_dir = "(string \<times> bytes) list"

record event_codec =
  ec_to_vec :: "metadata_event list \<Rightarrow> bytes option"
  ec_from_slice :: "bytes \<Rightarrow> metadata_event list option"

definition codec_law :: "event_codec \<Rightarrow> bool" where
  "codec_law c \<longleftrightarrow> (\<forall>events payload. ec_to_vec c events = Some payload \<longrightarrow> ec_from_slice c payload = Some events)"

datatype spool_error =
    ZeroMaximum | AboveMaximum nat | SerializeFailed | QuotaExceeded nat nat | SpoolIo | DecodeFailed

record spool =
  sp_dir :: spool_dir
  sp_synced :: spool_dir
  sp_max_bytes :: nat
  sp_bytes :: nat

definition list_entries :: "spool_dir \<Rightarrow> (nat \<times> string) list" where
  "list_entries dir = sort_key fst (List.map_filter (\<lambda>(name, _). map_option (\<lambda>s. (s, name)) (entry_sequence name)) dir)"

definition entry_len :: "spool_dir \<Rightarrow> string \<Rightarrow> nat" where
  "entry_len dir name = (case map_of dir name of None \<Rightarrow> 0 | Some payload \<Rightarrow> length payload)"

definition open_spool :: "nat \<Rightarrow> spool_dir \<Rightarrow> spool_error + spool" where
  "open_spool max_bytes dir =
     (if max_bytes = 0 then Inl ZeroMaximum
      else
        let dir = filter (\<lambda>f. \<not> is_temp (fst f)) dir;
            bs = fold (\<lambda>(_, name) n. sat_add64 n (entry_len dir name)) (list_entries dir) 0
        in if bs > max_bytes then Inl (AboveMaximum bs)
           else Inr \<lparr>sp_dir = dir, sp_synced = dir, sp_max_bytes = max_bytes, sp_bytes = bs\<rparr>)"

definition max_sequence :: "spool \<Rightarrow> nat" where
  "max_sequence sp = (let es = list_entries (sp_dir sp) in if es = [] then 0 else fst (last es))"

definition first_sequence :: "spool \<Rightarrow> nat option" where
  "first_sequence sp = (let es = list_entries (sp_dir sp) in if es = [] then None else Some (fst (hd es)))"

text \<open>
  The calls of \<open>append\<close> up to the one that fails: creating the file, writing it (so many bytes reach it), renaming
  it, syncing the directory. The flag says whether the removal of the temporary file succeeds.
\<close>

datatype append_io = AppendDone | CreateFails | WriteFails nat bool | RenameFails bool | DirSyncFails

definition leave_temp :: "bool \<Rightarrow> string \<Rightarrow> bytes \<Rightarrow> spool_dir \<Rightarrow> spool_dir" where
  "leave_temp removed tmp content dir = (if removed then AList.delete tmp dir else AList.update tmp content dir)"

definition spool_append ::
  "event_codec \<Rightarrow> append_io \<Rightarrow> string \<Rightarrow> nat \<Rightarrow> metadata_event list \<Rightarrow> spool \<Rightarrow> (spool_error + unit) \<times> spool" where
  "spool_append c io uuid_text sequence events sp =
     (if events = [] then (Inr (), sp)
      else
        (case ec_to_vec c events of
           None \<Rightarrow> (Inl SerializeFailed, sp)
         | Some payload \<Rightarrow>
             if sat_add64 (sp_bytes sp) (length payload) > sp_max_bytes sp
             then (Inl (QuotaExceeded (sp_bytes sp) (length payload)), sp)
             else
               let tmp = temp_name sequence uuid_text;
                   renamed = AList.update (path_for_sequence sequence) payload (AList.delete tmp (sp_dir sp))
               in (case io of
                     CreateFails \<Rightarrow> (Inl SpoolIo, sp)
                   | WriteFails n removed \<Rightarrow> (Inl SpoolIo, sp\<lparr>sp_dir := leave_temp removed tmp (take n payload) (sp_dir sp)\<rparr>)
                   | RenameFails removed \<Rightarrow> (Inl SpoolIo, sp\<lparr>sp_dir := leave_temp removed tmp payload (sp_dir sp)\<rparr>)
                   | DirSyncFails \<Rightarrow> (Inl SpoolIo, sp\<lparr>sp_dir := renamed\<rparr>)
                   | AppendDone \<Rightarrow>
                       (Inr (), sp\<lparr>sp_dir := renamed, sp_synced := renamed, sp_bytes := sp_bytes sp + length payload\<rparr>))))"

definition spool_read :: "event_codec \<Rightarrow> string \<Rightarrow> spool \<Rightarrow> spool_error + metadata_event list" where
  "spool_read c name sp =
     (case map_of (sp_dir sp) name of
        None \<Rightarrow> Inl SpoolIo
      | Some payload \<Rightarrow> (case ec_from_slice c payload of None \<Rightarrow> Inl DecodeFailed | Some events \<Rightarrow> Inr events))"

datatype remove_io = RemoveDone | UnlinkFails | RemoveSyncFails

definition spool_remove :: "remove_io \<Rightarrow> string \<Rightarrow> spool \<Rightarrow> (spool_error + unit) \<times> spool" where
  "spool_remove io name sp =
     (let n = entry_len (sp_dir sp) name; unlinked = AList.delete name (sp_dir sp) in
      if map_of (sp_dir sp) name = None then (Inl SpoolIo, sp)
      else
        (case io of
           UnlinkFails \<Rightarrow> (Inl SpoolIo, sp)
         | RemoveSyncFails \<Rightarrow> (Inl SpoolIo, sp\<lparr>sp_dir := unlinked\<rparr>)
         | RemoveDone \<Rightarrow> (Inr (), sp\<lparr>sp_dir := unlinked, sp_synced := unlinked, sp_bytes := sp_bytes sp - n\<rparr>)))"

text \<open>
  What a crash may leave: of every name either what the process saw or what was synced, and anything under the
  names of temporary files.
\<close>

definition crash_dir :: "spool \<Rightarrow> spool_dir \<Rightarrow> bool" where
  "crash_dir sp dir \<longleftrightarrow> distinct (map fst dir) \<and>
     (\<forall>name. \<not> is_temp name \<longrightarrow> map_of dir name = map_of (sp_dir sp) name \<or> map_of dir name = map_of (sp_synced sp) name)"

subsection \<open>Names and sequence numbers\<close>

lemma decimal_value_zeros: "decimal_value (replicate n 48 @ bs) = decimal_value bs"
  by (induction n) (simp_all add: decimal_value_def)

lemma as_bytes_append [simp]: "as_bytes (a @ b) = as_bytes a @ as_bytes b"
  by (simp add: as_bytes_def)

lemma as_bytes_pad: "as_bytes (zero_pad n (decimal s)) = replicate (n - length (decimal s)) 48 @ as_bytes (decimal s)"
  by (simp add: zero_pad_def as_bytes_def)

lemma pad_digits: "list_all is_digit (as_bytes (zero_pad n (decimal s)))" "as_bytes (zero_pad n (decimal s)) \<noteq> []"
  "decimal_value (as_bytes (zero_pad n (decimal s))) = s"
proof -
  have "list_all is_digit (replicate k 48)" for k by (simp add: list_all_iff is_digit_def)
  with decimal_digits [of s] show "list_all is_digit (as_bytes (zero_pad n (decimal s)))" "as_bytes (zero_pad n (decimal s)) \<noteq> []"
    by (simp_all add: as_bytes_pad)
qed (simp add: as_bytes_pad decimal_value_zeros decimal_value_decimal)

lemma pad_no_dot: "CHR ''.'' \<notin> set (zero_pad n (decimal s))"
proof
  assume "CHR ''.'' \<in> set (zero_pad n (decimal s))"
  then have "46 \<in> set (as_bytes (zero_pad n (decimal s)))" by (force simp: as_bytes_def)
  then show False using pad_digits (1) [of n s] by (auto simp: list_all_iff is_digit_def)
qed

lemma dropWhile_dot: "c \<notin> set xs \<Longrightarrow> dropWhile (\<lambda>x. x \<noteq> c) (xs @ c # ys) = c # ys"
  by (induction xs) auto

lemma takeWhile_dot: "c \<notin> set xs \<Longrightarrow> takeWhile (\<lambda>x. x \<noteq> c) (xs @ c # ys) = xs"
  by (induction xs) auto

lemma path_parts:
  "extension_of (path_for_sequence s) = Some ''json''" "file_stem (path_for_sequence s) = zero_pad 20 (decimal s)"
proof -
  have r: "rev (path_for_sequence s) = ''nosj'' @ CHR ''.'' # rev (zero_pad 20 (decimal s))"
    by (simp add: path_for_sequence_def)
  have d: "dropWhile (\<lambda>c. c \<noteq> CHR ''.'') (rev (path_for_sequence s)) = CHR ''.'' # rev (zero_pad 20 (decimal s))"
    unfolding r by (rule dropWhile_dot) simp
  have t: "takeWhile (\<lambda>c. c \<noteq> CHR ''.'') (rev (path_for_sequence s)) = ''nosj''"
    unfolding r by (rule takeWhile_dot) simp
  have n: "zero_pad 20 (decimal s) \<noteq> []" using pad_digits (2) [of 20 s] by (auto simp: as_bytes_def)
  show "extension_of (path_for_sequence s) = Some ''json''"
    using n by (simp only: extension_of_def Let_def d t) simp
  show "file_stem (path_for_sequence s) = zero_pad 20 (decimal s)"
    using n by (simp only: file_stem_def Let_def d) simp
qed

lemma entry_sequence_path: "s \<le> u64_max \<Longrightarrow> entry_sequence (path_for_sequence s) = Some s"
proof -
  assume "s \<le> u64_max"
  moreover have "hd (as_bytes (zero_pad 20 (decimal s))) \<noteq> 43"
    using pad_digits (1, 2) [of 20 s] by (cases "as_bytes (zero_pad 20 (decimal s))") (auto simp: is_digit_def)
  ultimately show ?thesis
    using pad_digits [of 20 s] by (simp add: entry_sequence_def path_parts parse_u64_text_def parse_u64_def)
qed

lemma path_inject: "path_for_sequence s = path_for_sequence t \<longleftrightarrow> s = t"
proof
  assume "path_for_sequence s = path_for_sequence t"
  then have "zero_pad 20 (decimal s) = zero_pad 20 (decimal t)" by (metis path_parts (2))
  then show "s = t" by (metis pad_digits (3))
qed simp

lemma path_not_temp [simp]: "\<not> is_temp (path_for_sequence s)"
proof -
  have "zero_pad 20 (decimal s) \<noteq> []" using pad_digits (2) [of 20 s] by (auto simp: as_bytes_def)
  then have "hd (path_for_sequence s) \<in> set (zero_pad 20 (decimal s))" by (simp add: path_for_sequence_def)
  then show ?thesis using pad_no_dot [of 20 s] by (auto simp: is_temp_def)
qed

lemma find_window_append: "find_window pat (xs @ pat @ ys) \<noteq> None"
proof (induction xs)
  case Nil
  show ?case
  proof (cases "pat @ ys")
    case (Cons a list)
    have "take (length pat) (pat @ ys) = pat" "\<not> length (pat @ ys) < length pat" by simp_all
    then show ?thesis using Cons by simp
  qed simp
next
  case (Cons x xs)
  then show ?case by auto
qed

lemma temp_is_temp [simp]: "is_temp (temp_name s u)"
proof -
  have "as_bytes (temp_name s u) = (46 # as_bytes (zero_pad 20 (decimal s))) @ as_bytes ''.tmp-'' @ as_bytes u"
    by (simp add: temp_name_def as_bytes_def)
  then show ?thesis by (simp only: is_temp_def find_window_append) (simp add: temp_name_def)
qed

lemma path_not_temp_name [simp]: "path_for_sequence s \<noteq> temp_name t u" "temp_name t u \<noteq> path_for_sequence s"
  using path_not_temp [of s] temp_is_temp [of t u] by metis+

end
