(* ===== verification/Metadata.thy ===== *)
theory Metadata
  imports Spool
begin

text \<open>
  The metadata pipeline of \<open>src/src/storage/mod.rs\<close>: the channel, the writer task that turns commands into durable
  batches of the spool, the projector task that takes the batches to ClickHouse and retires them, and the tasks that
  wait for a projected barrier.

  The tasks run concurrently. Each of their steps between two accesses to shared state is an operation here, and
  \<open>pipeline_step\<close> interleaves them in any order, with the answers of the file system and of ClickHouse as
  arguments, and with a restart of the process at any point from any directory a crash may leave.

  Three fields record history: \<open>pl_log\<close> the commands the channel accepted since the last start, \<open>pl_batches\<close>
  every batch that was published or found at a start, \<open>pl_inserted\<close> every batch ClickHouse acknowledged. A barrier
  is named by its place in \<open>pl_log\<close>. Sequence numbers are natural numbers.
\<close>

subsection \<open>State\<close>

datatype meta_command = EventCmd metadata_event | BarrierCmd bool nat

datatype writer_phase =
    Receiving
  | Appending "metadata_event list" "(bool \<times> nat) option"
  | Publishing "metadata_event list" "(bool \<times> nat) option"
  | WriterStopped

datatype projector_phase =
    Polling
  | Projecting "metadata_event list"
  | Retiring "metadata_event list"
  | Retired "metadata_event list"
  | ProjectorStopped

record pipeline =
  pl_spool :: spool
  pl_queue :: "meta_command list"
  pl_durable :: nat
  pl_projected :: nat
  pl_shutdown :: bool
  pl_writer :: writer_phase
  pl_next :: nat
  pl_projector :: projector_phase
  pl_sequence :: nat
  pl_ready :: bool
  pl_waiters :: "(nat \<times> nat) list"
  pl_replies :: "(nat \<times> bool) list"
  pl_live :: "uuid list"
  pl_log :: "meta_command list"
  pl_batches :: "metadata_event list list"
  pl_base :: nat
  pl_inserted :: "metadata_event list list"

definition projector_alive :: "pipeline \<Rightarrow> bool" where
  "projector_alive s \<longleftrightarrow> pl_projector s \<noteq> ProjectorStopped"

subsection \<open>Start\<close>

definition start_pipeline :: "spool \<Rightarrow> metadata_event list list \<Rightarrow> metadata_event list list \<Rightarrow> pipeline" where
  "start_pipeline sp batches inserted =
     (let recovered_max = max_sequence sp;
          initial_projected = (case first_sequence sp of Some f \<Rightarrow> f - 1 | None \<Rightarrow> recovered_max);
          next_projector = (case first_sequence sp of Some f \<Rightarrow> f | None \<Rightarrow> max (recovered_max + 1) 1)
      in \<lparr>pl_spool = sp, pl_queue = [], pl_durable = recovered_max, pl_projected = initial_projected, pl_shutdown = False,
          pl_writer = Receiving, pl_next = max (recovered_max + 1) 1, pl_projector = Polling, pl_sequence = next_projector,
          pl_ready = False, pl_waiters = [], pl_replies = [], pl_live = [],
          pl_log = [], pl_batches = batches, pl_base = length batches, pl_inserted = inserted\<rparr>)"

text \<open>The batches of a directory beyond a sequence number, oldest first.\<close>

definition batches_beyond :: "event_codec \<Rightarrow> nat \<Rightarrow> spool \<Rightarrow> metadata_event list list" where
  "batches_beyond c n sp =
     List.map_filter (\<lambda>(s, name). if s > n then (case spool_read c name sp of Inl _ \<Rightarrow> None | Inr events \<Rightarrow> Some events) else None)
       (list_entries (sp_dir sp))"

definition restart_pipeline :: "event_codec \<Rightarrow> spool_dir \<Rightarrow> pipeline \<Rightarrow> spool_error + pipeline" where
  "restart_pipeline c dir s =
     (case open_spool (sp_max_bytes (pl_spool s)) dir of
        Inl e \<Rightarrow> Inl e
      | Inr sp \<Rightarrow> Inr (start_pipeline sp (pl_batches s @ batches_beyond c (pl_durable s) sp) (pl_inserted s)))"

subsection \<open>The channel and the writer\<close>

definition sink_command :: "bool \<Rightarrow> meta_command \<Rightarrow> pipeline \<Rightarrow> pipeline" where
  "sink_command connected cmd s =
     (if connected then s\<lparr>pl_queue := pl_queue s @ [cmd], pl_log := pl_log s @ [cmd]\<rparr> else s)"

definition sink_event :: "metadata_event \<Rightarrow> pipeline \<Rightarrow> pipeline" where
  "sink_event e s = sink_command (pl_writer s \<noteq> WriterStopped) (EventCmd e) s"

definition sink_barrier :: "bool \<Rightarrow> pipeline \<Rightarrow> pipeline" where
  "sink_barrier projected s = sink_command (pl_writer s \<noteq> WriterStopped) (BarrierCmd projected (length (pl_log s))) s"

text \<open>The commands that come in before the deadline, \<open>n\<close> of them at most: no more than a batch, and up to a barrier.\<close>

fun collect :: "nat \<Rightarrow> metadata_event list \<Rightarrow> meta_command list \<Rightarrow> metadata_event list \<times> (bool \<times> nat) option \<times> meta_command list" where
  "collect n batch [] = (batch, None, [])"
| "collect 0 batch (cmd # q) = (batch, None, cmd # q)"
| "collect (Suc n) batch (cmd # q) =
     (if length batch \<ge> 2048 then (batch, None, cmd # q)
      else case cmd of EventCmd e \<Rightarrow> collect n (batch @ [e]) q | BarrierCmd projected i \<Rightarrow> (batch, Some (projected, i), q))"

definition receive_batch :: "nat \<Rightarrow> meta_command list \<Rightarrow> metadata_event list \<times> (bool \<times> nat) option \<times> meta_command list" where
  "receive_batch n q =
     (case q of
        EventCmd e # q \<Rightarrow> collect n [e] q
      | BarrierCmd projected i # q \<Rightarrow> ([], Some (projected, i), q)
      | [] \<Rightarrow> ([], None, []))"

definition writer_receive :: "nat \<Rightarrow> pipeline \<Rightarrow> pipeline" where
  "writer_receive n s =
     (case receive_batch n (pl_queue s) of (batch, barrier, q) \<Rightarrow> s\<lparr>pl_queue := q, pl_writer := Appending batch barrier\<rparr>)"

definition answer_barrier :: "nat \<Rightarrow> (bool \<times> nat) option \<Rightarrow> pipeline \<Rightarrow> pipeline" where
  "answer_barrier durable_sequence barrier s =
     (case barrier of
        None \<Rightarrow> s
      | Some (False, i) \<Rightarrow> s\<lparr>pl_replies := pl_replies s @ [(i, True)]\<rparr>
      | Some (True, i) \<Rightarrow> s\<lparr>pl_waiters := pl_waiters s @ [(durable_sequence, i)]\<rparr>)"

definition writer_append :: "event_codec \<Rightarrow> append_io \<Rightarrow> string \<Rightarrow> metadata_event list \<Rightarrow> (bool \<times> nat) option \<Rightarrow> pipeline \<Rightarrow> pipeline" where
  "writer_append c io uuid_text batch barrier s =
     (if batch = [] then answer_barrier (pl_next s - 1) barrier (s\<lparr>pl_writer := Receiving\<rparr>)
      else
        (case spool_append c io uuid_text (pl_next s) batch (pl_spool s) of
           (Inl e, sp) \<Rightarrow> s\<lparr>pl_spool := sp, pl_writer := WriterStopped\<rparr>
         | (Inr _, sp) \<Rightarrow> s\<lparr>pl_spool := sp, pl_writer := Publishing batch barrier\<rparr>))"

definition writer_publish :: "metadata_event list \<Rightarrow> (bool \<times> nat) option \<Rightarrow> pipeline \<Rightarrow> pipeline" where
  "writer_publish batch barrier s =
     answer_barrier (pl_next s) barrier
       (s\<lparr>pl_durable := pl_next s, pl_next := pl_next s + 1, pl_writer := Receiving, pl_batches := pl_batches s @ [batch]\<rparr>)"

subsection \<open>The projector\<close>

definition projector_poll :: "event_codec \<Rightarrow> pipeline \<Rightarrow> pipeline" where
  "projector_poll c s =
     (if pl_shutdown s then s\<lparr>pl_projector := ProjectorStopped\<rparr>
      else if pl_sequence s > pl_durable s then s
      else
        (case spool_read c (path_for_sequence (pl_sequence s)) (pl_spool s) of
           Inl e \<Rightarrow> s\<lparr>pl_projector := ProjectorStopped\<rparr>
         | Inr batch \<Rightarrow> s\<lparr>pl_projector := Projecting batch\<rparr>))"

datatype clickhouse_answer = InitFailed | InsertFailed | Inserted

definition projector_insert :: "clickhouse_answer \<Rightarrow> metadata_event list \<Rightarrow> pipeline \<Rightarrow> pipeline" where
  "projector_insert answer batch s =
     (if pl_shutdown s then s\<lparr>pl_projector := ProjectorStopped\<rparr>
      else if \<not> pl_ready s \<and> answer = InitFailed then s
      else
        let s = s\<lparr>pl_ready := True\<rparr> in
        if answer = Inserted then s\<lparr>pl_projector := Retiring batch, pl_inserted := pl_inserted s @ [batch]\<rparr> else s)"

definition projector_retire :: "remove_io \<Rightarrow> metadata_event list \<Rightarrow> pipeline \<Rightarrow> pipeline" where
  "projector_retire io batch s =
     (case spool_remove io (path_for_sequence (pl_sequence s)) (pl_spool s) of
        (Inl e, sp) \<Rightarrow> s\<lparr>pl_spool := sp, pl_projector := ProjectorStopped\<rparr>
      | (Inr _, sp) \<Rightarrow> s\<lparr>pl_spool := sp, pl_projector := Retired batch\<rparr>)"

definition event_flow_id :: "metadata_event \<Rightarrow> uuid" where
  "event_flow_id e =
     (case e of FlowEvent v \<Rightarrow> fs_flow_id v | HttpEvent v \<Rightarrow> hr_flow_id v | MatchEvent v \<Rightarrow> mr_flow_id v
      | ContentIndexEvent v \<Rightarrow> ci_flow_id v)"

definition projector_store :: "metadata_event list \<Rightarrow> pipeline \<Rightarrow> pipeline" where
  "projector_store batch s =
     s\<lparr>pl_projected := pl_sequence s, pl_sequence := pl_sequence s + 1, pl_projector := Polling,
       pl_live := pl_live s @ remdups (map event_flow_id batch)\<rparr>"

text \<open>One look of the task that waits for a projected barrier.\<close>

definition waiter_check :: "nat \<times> nat \<Rightarrow> pipeline \<Rightarrow> pipeline" where
  "waiter_check waiter s =
     (case waiter of (durable_sequence, i) \<Rightarrow>
        if pl_projected s \<ge> durable_sequence
        then s\<lparr>pl_waiters := remove1 waiter (pl_waiters s), pl_replies := pl_replies s @ [(i, True)]\<rparr>
        else if \<not> projector_alive s
        then s\<lparr>pl_waiters := remove1 waiter (pl_waiters s), pl_replies := pl_replies s @ [(i, False)]\<rparr>
        else s)"

subsection \<open>Interleaving\<close>

inductive pipeline_step :: "event_codec \<Rightarrow> pipeline \<Rightarrow> pipeline \<Rightarrow> bool" for c where
  Send: "pipeline_step c s (sink_event e s)"
| Barrier: "pipeline_step c s (sink_barrier projected s)"
| Receive: "pl_writer s = Receiving \<Longrightarrow> pl_queue s \<noteq> [] \<Longrightarrow> pipeline_step c s (writer_receive n s)"
| Disconnect: "pl_writer s = Receiving \<Longrightarrow> pl_queue s = [] \<Longrightarrow> pipeline_step c s (s\<lparr>pl_writer := WriterStopped\<rparr>)"
| Append: "pl_writer s = Appending batch barrier \<Longrightarrow> pipeline_step c s (writer_append c io uuid_text batch barrier s)"
| Publish: "pl_writer s = Publishing batch barrier \<Longrightarrow> pipeline_step c s (writer_publish batch barrier s)"
| Poll: "pl_projector s = Polling \<Longrightarrow> pipeline_step c s (projector_poll c s)"
| Insert: "pl_projector s = Projecting batch \<Longrightarrow> pipeline_step c s (projector_insert answer batch s)"
| Retire: "pl_projector s = Retiring batch \<Longrightarrow> pipeline_step c s (projector_retire remove batch s)"
| Store: "pl_projector s = Retired batch \<Longrightarrow> pipeline_step c s (projector_store batch s)"
| Wait: "waiter \<in> set (pl_waiters s) \<Longrightarrow> pipeline_step c s (waiter_check waiter s)"
| Shutdown: "pipeline_step c s (s\<lparr>pl_shutdown := True\<rparr>)"
| Restart: "crash_dir (pl_spool s) dir \<Longrightarrow> restart_pipeline c dir s = Inr s' \<Longrightarrow> pipeline_step c s s'"

inductive pipeline_reaches :: "event_codec \<Rightarrow> nat \<Rightarrow> pipeline \<Rightarrow> bool" for c max_bytes where
  Start: "open_spool max_bytes [] = Inr sp \<Longrightarrow> pipeline_reaches c max_bytes (start_pipeline sp [] [])"
| Step: "pipeline_reaches c max_bytes s \<Longrightarrow> pipeline_step c s s' \<Longrightarrow> pipeline_reaches c max_bytes s'"

end
