(* ===== verification/Spool_Props.thy ===== *)
theory Spool_Props
  imports Metadata
begin

text \<open>
  The directory of the spool as a range of sequence numbers: what it holds, how appending and removing change it,
  and what opening it after a crash finds.
\<close>

declare map_of_eq_Some_iff [simp del]

subsection \<open>Directories as ranges\<close>

definition payload :: "event_codec \<Rightarrow> metadata_event list \<Rightarrow> bytes" where
  "payload c b = (case ec_to_vec c b of None \<Rightarrow> [] | Some p \<Rightarrow> p)"

definition holds :: "event_codec \<Rightarrow> spool_dir \<Rightarrow> nat \<Rightarrow> metadata_event list \<Rightarrow> bool" where
  "holds c dir k b \<longleftrightarrow> ec_to_vec c b = Some (payload c b) \<and> map_of dir (path_for_sequence k) = Some (payload c b)"

definition lacks :: "spool_dir \<Rightarrow> nat \<Rightarrow> bool" where
  "lacks dir k \<longleftrightarrow> map_of dir (path_for_sequence k) = None"

definition names_within :: "nat \<Rightarrow> nat \<Rightarrow> spool_dir \<Rightarrow> bool" where
  "names_within a b dir \<longleftrightarrow>
     (\<forall>name. \<not> is_temp name \<and> map_of dir name \<noteq> None \<longrightarrow> (\<exists>k. a \<le> k \<and> k \<le> b \<and> name = path_for_sequence k))"

lemma names_withinI:
  "(\<And>name. \<not> is_temp name \<Longrightarrow> map_of dir name \<noteq> None \<Longrightarrow> \<exists>k. a \<le> k \<and> k \<le> b \<and> name = path_for_sequence k) \<Longrightarrow> names_within a b dir"
  unfolding names_within_def by blast

lemma names_withinD:
  "names_within a b dir \<Longrightarrow> \<not> is_temp name \<Longrightarrow> map_of dir name \<noteq> None \<Longrightarrow> \<exists>k. a \<le> k \<and> k \<le> b \<and> name = path_for_sequence k"
  unfolding names_within_def by blast

lemma names_within_mono: "names_within a b dir \<Longrightarrow> b \<le> b' \<Longrightarrow> names_within a b' dir"
  unfolding names_within_def by (meson le_trans)

lemma names_within_lacks: "names_within a b dir \<Longrightarrow> k < a \<or> b < k \<Longrightarrow> lacks dir k"
  using names_withinD [of a b dir "path_for_sequence k"] by (force simp: lacks_def path_inject)

text \<open>
  The directory has exactly the batches \<open>bs\<close>, from sequence number \<open>f\<close> on, except that the first one may be
  missing (\<open>lacking\<close>), and that behind the last there may be one more, \<open>extra\<close>, which must be there if \<open>must\<close>.
\<close>

definition dir_range ::
  "event_codec \<Rightarrow> nat \<Rightarrow> metadata_event list list \<Rightarrow> bool \<Rightarrow> metadata_event list option \<Rightarrow> bool \<Rightarrow> spool_dir \<Rightarrow> bool" where
  "dir_range c f bs lacking extra must dir \<longleftrightarrow>
     distinct (map fst dir) \<and>
     names_within f (f + length bs) dir \<and>
     (\<forall>j < length bs. holds c dir (f + j) (bs ! j) \<or> lacking \<and> j = 0 \<and> lacks dir f) \<and>
     (case extra of
        None \<Rightarrow> lacks dir (f + length bs)
      | Some u \<Rightarrow> holds c dir (f + length bs) u \<or> \<not> must \<and> lacks dir (f + length bs))"

definition total_bytes :: "event_codec \<Rightarrow> metadata_event list list \<Rightarrow> nat" where
  "total_bytes c bs = sum_list (map (length \<circ> payload c) bs)"

lemma total_bytes_simps [simp]:
  "total_bytes c [] = 0" "total_bytes c (b # bs) = length (payload c b) + total_bytes c bs"
  "total_bytes c (bs @ cs) = total_bytes c bs + total_bytes c cs"
  by (simp_all add: total_bytes_def)

lemma holds_not_lacks: "holds c dir k b \<Longrightarrow> \<not> lacks dir k"
  by (simp add: holds_def lacks_def)

lemma holds_read: "codec_law c \<Longrightarrow> holds c (sp_dir sp) k b \<Longrightarrow> spool_read c (path_for_sequence k) sp = Inr b"
  by (auto simp: holds_def spool_read_def codec_law_def)

lemma dir_range_cong:
  assumes "dir_range c f bs lacking extra must dir" and "distinct (map fst dir')"
    and "\<And>name. \<not> is_temp name \<Longrightarrow> map_of dir' name = map_of dir name"
  shows "dir_range c f bs lacking extra must dir'"
proof -
  have "holds c dir' k b = holds c dir k b" "lacks dir' k = lacks dir k" for k b by (simp_all add: holds_def lacks_def assms (3))
  moreover have "names_within f (f + length bs) dir'"
    using assms (1) by (intro names_withinI) (auto simp: dir_range_def assms (3) dest: names_withinD)
  ultimately show ?thesis using assms (1, 2) by (simp add: dir_range_def cong: option.case_cong)
qed

lemma leave_temp_same:
  "is_temp tmp \<Longrightarrow> \<not> is_temp name \<Longrightarrow> map_of (leave_temp removed tmp content dir) name = map_of dir name"
  by (auto simp: leave_temp_def update_conv' delete_conv')

lemma leave_temp_distinct: "distinct (map fst dir) \<Longrightarrow> distinct (map fst (leave_temp removed tmp content dir))"
  by (simp add: leave_temp_def distinct_update distinct_delete)

subsection \<open>Appending\<close>

lemma append_range:
  assumes "dir_range c f bs lacking None must dir" and "ec_to_vec c b = Some (payload c b)"
    and "dir' = AList.update (path_for_sequence (f + length bs)) (payload c b) (AList.delete (temp_name k u) dir)"
  shows "dir_range c f bs lacking (Some b) True dir'"
proof -
  have m: "map_of dir' name = (if name = path_for_sequence (f + length bs) then Some (payload c b) else map_of dir name)"
    if "\<not> is_temp name" for name
    using that temp_is_temp [of k u] by (auto simp: assms (3) update_conv' delete_conv')
  have h: "holds c dir' (f + j) (bs ! j) = holds c dir (f + j) (bs ! j)" "lacks dir' f = lacks dir f" if "j < length bs" for j
    using that by (auto simp: holds_def lacks_def m path_inject)
  have "distinct (map fst dir')" using assms (1) by (simp add: assms (3) dir_range_def distinct_update distinct_delete)
  moreover have "holds c dir' (f + length bs) b" using assms (2) by (simp add: holds_def m)
  moreover have "names_within f (f + length bs) dir'"
  proof (rule names_withinI)
    fix name assume a: "\<not> is_temp name" "map_of dir' name \<noteq> None"
    show "\<exists>k. f \<le> k \<and> k \<le> f + length bs \<and> name = path_for_sequence k"
    proof (cases "name = path_for_sequence (f + length bs)")
      case True
      then show ?thesis by (intro exI [of _ "f + length bs"]) simp
    next
      case False
      with a m have "map_of dir name \<noteq> None" by simp
      with a (1) assms (1) show ?thesis by (intro names_withinD) (simp_all add: dir_range_def)
    qed
  qed
  ultimately show ?thesis using assms (1) h by (simp add: dir_range_def)
qed

lemma dir_range_weaken:
  "dir_range c f bs lacking None must dir \<Longrightarrow> dir_range c f bs lacking (Some u) False dir"
  "dir_range c f bs lacking (Some u) must dir \<Longrightarrow> dir_range c f bs lacking (Some u) False dir"
  "dir_range c f bs False extra must dir \<Longrightarrow> dir_range c f bs lacking extra must dir"
  by (auto simp: dir_range_def)

text \<open>Publishing moves the extra batch into the range.\<close>

lemma publish_range:
  assumes "dir_range c f bs lacking (Some b) True dir" and "\<And>k. k = Suc (f + length bs) \<Longrightarrow> lacks dir k"
  shows "dir_range c f (bs @ [b]) lacking None must dir"
proof -
  have "names_within f (f + length (bs @ [b])) dir"
    using assms (1) by (auto simp: dir_range_def elim: names_within_mono)
  moreover have "holds c dir (f + j) ((bs @ [b]) ! j) \<or> lacking \<and> j = 0 \<and> lacks dir f" if "j < length (bs @ [b])" for j
    using assms (1) that by (auto simp: dir_range_def nth_append less_Suc_eq)
  ultimately show ?thesis using assms by (simp add: dir_range_def)
qed

lemma range_beyond: "dir_range c f bs lacking extra must dir \<Longrightarrow> k > f + length bs \<Longrightarrow> lacks dir k"
  by (auto simp: dir_range_def intro: names_within_lacks)

lemma range_below: "dir_range c f bs lacking extra must dir \<Longrightarrow> k < f \<Longrightarrow> lacks dir k"
  by (auto simp: dir_range_def intro: names_within_lacks)

subsection \<open>Removing\<close>

lemma remove_range:
  assumes "dir_range c f (b # bs) lacking extra must dir" and "dir' = AList.delete (path_for_sequence f) dir"
  shows "dir_range c (Suc f) bs False extra must dir'" and "dir_range c f (b # bs) True extra must dir'"
proof -
  have m: "map_of dir' name = (if name = path_for_sequence f then None else map_of dir name)" for name
    by (simp add: assms (2) delete_conv')
  have h: "holds c dir' k u = holds c dir k u" "lacks dir' k = lacks dir k" if "k \<noteq> f" for k u
    using that by (simp_all add: holds_def lacks_def m path_inject)
  have l: "lacks dir' f" by (simp add: lacks_def m)
  have d: "distinct (map fst dir')" using assms (1) by (simp add: assms (2) dir_range_def distinct_delete)
  have r: "names_within (Suc f) (f + length (b # bs)) dir'"
  proof (rule names_withinI)
    fix name assume a: "\<not> is_temp name" "map_of dir' name \<noteq> None"
    with m [of name] have "map_of dir name \<noteq> None" "name \<noteq> path_for_sequence f" by (auto split: if_splits)
    with a (1) assms (1) obtain k where "f \<le> k" "k \<le> f + length (b # bs)" "name = path_for_sequence k"
      using names_withinD by (force simp: dir_range_def)
    with \<open>name \<noteq> path_for_sequence f\<close> show "\<exists>k. Suc f \<le> k \<and> k \<le> f + length (b # bs) \<and> name = path_for_sequence k"
      by (intro exI [of _ k]) (cases "k = f", auto)
  qed
  then have r': "names_within f (f + length (b # bs)) dir'" unfolding names_within_def by (meson Suc_leD)
  have b: "holds c dir' (f + Suc j) (bs ! j)" if "j < length bs" for j
    using assms (1) that h [of "f + Suc j"] by (auto simp: dir_range_def dest: spec [of _ "Suc j"])
  have e: "case extra of None \<Rightarrow> lacks dir' (f + length (b # bs))
      | Some u \<Rightarrow> holds c dir' (f + length (b # bs)) u \<or> \<not> must \<and> lacks dir' (f + length (b # bs))"
    using assms (1) h [of "f + length (b # bs)"] by (simp add: dir_range_def cong: option.case_cong)
  show "dir_range c (Suc f) bs False extra must dir'" using d r b e by (cases extra) (simp_all add: dir_range_def)
  have "holds c dir' (f + j) ((b # bs) ! j) \<or> j = 0 \<and> lacks dir' f" if "j < length (b # bs)" for j
    using b [of "j - 1"] l that by (cases j) simp_all
  with d r' e show "dir_range c f (b # bs) True extra must dir'" unfolding dir_range_def by blast
qed

subsection \<open>Opening\<close>

lemma list_entries_range:
  assumes "distinct (map fst dir)" and "b \<le> Suc u64_max"
    and names: "\<And>name. map_of dir name \<noteq> None \<longleftrightarrow> (\<exists>k. a \<le> k \<and> k < b \<and> name = path_for_sequence k)"
  shows "list_entries dir = map (\<lambda>k. (k, path_for_sequence k)) [a ..< b]"
proof -
  let ?es = "List.map_filter (\<lambda>(name, _). map_option (\<lambda>s. (s, name)) (entry_sequence name)) dir"
  have n: "fst ` set dir = path_for_sequence ` {a ..< b}"
  proof (rule set_eqI)
    fix name
    have "name \<in> fst ` set dir \<longleftrightarrow> (\<exists>k. a \<le> k \<and> k < b \<and> name = path_for_sequence k)"
      unfolding names [symmetric] by (simp add: map_of_eq_None_iff)
    then show "name \<in> fst ` set dir \<longleftrightarrow> name \<in> path_for_sequence ` {a ..< b}" by auto
  qed
  have es: "?es = map (\<lambda>f. (the (entry_sequence (fst f)), fst f)) dir"
  proof -
    have ok: "entry_sequence (fst f) \<noteq> None" if "f \<in> set dir" for f
    proof -
      from that have "fst f \<in> path_for_sequence ` {a ..< b}" unfolding n [symmetric] by (rule imageI)
      then obtain k where "k < b" "fst f = path_for_sequence k" by auto
      then show ?thesis using assms (2) by (simp add: entry_sequence_path)
    qed
    then have "filter (\<lambda>f. (case f of (name, _) \<Rightarrow> map_option (\<lambda>s. (s, name)) (entry_sequence name)) \<noteq> None) dir = dir"
      by (intro filter_True) (auto simp: case_prod_unfold)
    then have "?es = map (\<lambda>f. the (case f of (name, _) \<Rightarrow> map_option (\<lambda>s. (s, name)) (entry_sequence name))) dir"
      by (simp add: List.map_filter_def comp_def)
    also have "\<dots> = map (\<lambda>f. (the (entry_sequence (fst f)), fst f)) dir"
      using ok by (intro map_cong refl) (simp add: case_prod_unfold option.map_sel)
    finally show ?thesis .
  qed
  have s: "set ?es = (\<lambda>k. (k, path_for_sequence k)) ` {a ..< b}"
  proof -
    have "set ?es = (\<lambda>name. (the (entry_sequence name), name)) ` path_for_sequence ` {a ..< b}"
      unfolding es n [symmetric] by (simp add: image_image)
    also have "\<dots> = (\<lambda>k. (k, path_for_sequence k)) ` {a ..< b}"
      using assms (2) by (auto simp: image_image entry_sequence_path intro!: image_cong)
    finally show ?thesis .
  qed
  have i: "inj_on fst (set ?es)" unfolding s by (auto simp: inj_on_def)
  have "distinct (map snd ?es)" unfolding es using assms (1) by (simp add: comp_def)
  then have "distinct ?es" by (simp add: distinct_map)
  then have d: "distinct (map fst ?es)" using i by (simp add: distinct_map)
  show ?thesis
    unfolding list_entries_def
    by (rule map_sorted_distinct_set_unique [where f = fst]) (use i d s in \<open>auto simp: comp_def distinct_map inj_on_def\<close>)
qed

lemma fold_sat_add:
  assumes "m + sum_list (map f xs) \<le> u64_max"
  shows "fold (\<lambda>x n. sat_add64 n (f x)) xs m = m + sum_list (map f xs)"
  using assms by (induction xs arbitrary: m) (simp_all add: sat_add64_def)

text \<open>A directory without missing or extra batches opens, if the quota holds them.\<close>

lemma open_range:
  assumes r: "dir_range c f bs False None must dir" and "f + length bs \<le> Suc u64_max"
    and "total_bytes c bs \<le> max_bytes" "0 < max_bytes" "max_bytes \<le> u64_max"
  shows "\<exists>sp. open_spool max_bytes dir = Inr sp \<and> sp_max_bytes sp = max_bytes \<and> sp_bytes sp = total_bytes c bs \<and>
    sp_synced sp = sp_dir sp \<and> dir_range c f bs False None must (sp_dir sp) \<and>
    list_entries (sp_dir sp) = map (\<lambda>k. (k, path_for_sequence k)) [f ..< f + length bs]"
proof -
  define d where "d = filter (\<lambda>e. \<not> is_temp (fst e)) dir"
  have m: "map_of d name = (if is_temp name then None else map_of dir name)" for name
    unfolding d_def by (induction dir) auto
  have dd: "distinct (map fst d)" using r unfolding d_def dir_range_def by (simp add: distinct_map_filter)
  then have rd: "dir_range c f bs False None must d" by (rule dir_range_cong [OF r]) (simp add: m)
  have e: "list_entries d = map (\<lambda>k. (k, path_for_sequence k)) [f ..< f + length bs]"
  proof (rule list_entries_range [OF dd assms (2)], rule iffI)
    fix name assume a: "map_of d name \<noteq> None"
    then have "\<not> is_temp name" by (auto simp: m split: if_splits)
    with a rd obtain k where k: "f \<le> k" "k \<le> f + length bs" "name = path_for_sequence k"
      unfolding dir_range_def by (meson names_withinD)
    moreover have "k \<noteq> f + length bs" using a k (3) rd by (auto simp: dir_range_def lacks_def)
    ultimately show "\<exists>k. f \<le> k \<and> k < f + length bs \<and> name = path_for_sequence k" by (intro exI [of _ k]) auto
  next
    fix name assume "\<exists>k. f \<le> k \<and> k < f + length bs \<and> name = path_for_sequence k"
    then obtain j where "j < length bs" "name = path_for_sequence (f + j)" by (metis le_Suc_ex nat_add_left_cancel_less)
    then show "map_of d name \<noteq> None" using rd by (auto simp: dir_range_def holds_def)
  qed
  have "map (\<lambda>k. entry_len d (path_for_sequence k)) [f ..< f + length bs] = map (length \<circ> payload c) bs"
    using rd by (intro nth_equalityI) (auto simp: dir_range_def holds_def entry_len_def)
  then have sum: "sum_list (map (\<lambda>(_, name). entry_len d name) (list_entries d)) = total_bytes c bs"
    unfolding e total_bytes_def by (simp add: comp_def)
  have "fold (\<lambda>(_, name) n. sat_add64 n (entry_len d name)) (list_entries d) 0 = total_bytes c bs"
    using fold_sat_add [of 0 "\<lambda>(_, name). entry_len d name" "list_entries d"] sum assms (3, 5) by (simp add: case_prod_unfold)
  then show ?thesis
    using assms (3, 4) rd e by (simp add: open_spool_def Let_def d_def [symmetric])
qed

subsection \<open>After a crash\<close>

lemma crash_range:
  assumes "dir_range c f bs lacking extra must (sp_dir sp)" and "dir_range c f bs lacking extra must (sp_synced sp)"
    and "crash_dir sp dir"
  shows "dir_range c f bs lacking extra must dir"
proof -
  have m: "map_of dir name = map_of (sp_dir sp) name \<or> map_of dir name = map_of (sp_synced sp) name" if "\<not> is_temp name" for name
    using assms (3) that by (simp add: crash_dir_def)
  have e: "(\<forall>b. holds c dir k b = holds c (sp_dir sp) k b) \<and> lacks dir k = lacks (sp_dir sp) k \<or>
      (\<forall>b. holds c dir k b = holds c (sp_synced sp) k b) \<and> lacks dir k = lacks (sp_synced sp) k" for k
    using m [of "path_for_sequence k"] unfolding holds_def lacks_def by (auto simp del: not_None_eq)
  have "names_within f (f + length bs) dir"
  proof (rule names_withinI)
    fix name assume a: "\<not> is_temp name" "map_of dir name \<noteq> None"
    with m [OF a (1)] consider "map_of (sp_dir sp) name \<noteq> None" | "map_of (sp_synced sp) name \<noteq> None" by fastforce
    then show "\<exists>k. f \<le> k \<and> k \<le> f + length bs \<and> name = path_for_sequence k"
      using assms (1, 2) a (1) by cases (auto simp: dir_range_def dest: names_withinD)
  qed
  moreover have "holds c dir (f + j) (bs ! j) \<or> lacking \<and> j = 0 \<and> lacks dir f" if "j < length bs" for j
    using assms (1, 2) that e [of "f + j"] by (auto simp: dir_range_def)
  moreover have "case extra of None \<Rightarrow> lacks dir (f + length bs)
      | Some u \<Rightarrow> holds c dir (f + length bs) u \<or> \<not> must \<and> lacks dir (f + length bs)"
    using assms (1, 2) e [of "f + length bs"] by (cases extra) (auto simp: dir_range_def)
  ultimately show ?thesis using assms (3) unfolding dir_range_def crash_dir_def by blast
qed

text \<open>What is there is a range again: without the first batch if that is missing, with the extra one if it is there.\<close>

lemma lacking_first:
  assumes "dir_range c f (b # bs) lacking extra must dir" and "lacks dir f"
  shows "dir_range c (Suc f) bs False extra must dir"
proof -
  have "AList.delete (path_for_sequence f) dir = dir"
    using assms (2) by (intro delete_id) (auto simp: lacks_def map_of_eq_None_iff)
  then show ?thesis using remove_range (1) [OF assms (1) refl] by simp
qed

lemma settle_extra:
  assumes "dir_range c f bs lacking extra must dir"
  shows "\<exists>cs. (cs = [] \<and> \<not> must \<or> cs = [] \<and> extra = None \<or> (\<exists>u. extra = Some u \<and> cs = [u])) \<and> dir_range c f (bs @ cs) lacking None True dir"
proof (cases "lacks dir (f + length bs)")
  case True
  then show ?thesis
    using assms holds_not_lacks by (intro exI [of _ "[]"]) (auto simp: dir_range_def split: option.splits)
next
  case False
  then obtain u where u: "extra = Some u" using assms by (auto simp: dir_range_def split: option.splits)
  then have "dir_range c f bs lacking (Some u) True dir" using assms False by (simp add: dir_range_def)
  then have "dir_range c f (bs @ [u]) lacking None True dir" by (rule publish_range) (use assms in \<open>auto intro: range_beyond\<close>)
  with u show ?thesis by blast
qed

lemma settle_range:
  assumes "dir_range c f bs lacking extra must dir"
  shows "\<exists>a cs. dir_range c (f + a) (drop a bs @ cs) False None True dir \<and> a \<le> 1 \<and> (a = 1 \<longrightarrow> lacking \<and> bs \<noteq> []) \<and>
    (cs = [] \<and> \<not> must \<or> cs = [] \<and> extra = None \<or> (\<exists>u. extra = Some u \<and> cs = [u]))"
proof (cases "bs \<noteq> [] \<and> lacks dir f")
  case True
  then obtain b bs' where b: "bs = b # bs'" by (cases bs) auto
  then have l: lacking using True assms holds_not_lacks by (auto simp: dir_range_def)
  have "dir_range c (Suc f) bs' False extra must dir" using lacking_first assms True b by blast
  from settle_extra [OF this] show ?thesis using b l by (intro exI [of _ 1]) auto
next
  case False
  then have "dir_range c f bs False extra must dir" using assms by (auto simp: dir_range_def)
  from settle_extra [OF this] show ?thesis by (intro exI [of _ 0]) auto
qed

end
