(* ===== verification/Metadata_Props.thy ===== *)
theory Metadata_Props
  imports Spool_Props
begin

text \<open>
  The invariant of the metadata pipeline: every published batch is in the spool or was acknowledged by ClickHouse,
  in order and across crashes, and a barrier is answered only when what it promises holds.
\<close>

subsection \<open>At least once, in order\<close>

text \<open>\<open>repeats xs ys\<close>: \<open>ys\<close> is \<open>xs\<close> with every element once or several times in a row.\<close>

inductive repeats :: "'a list \<Rightarrow> 'a list \<Rightarrow> bool" where
  Nothing: "repeats [] []"
| Once: "repeats xs ys \<Longrightarrow> repeats (xs @ [x]) (ys @ [x])"
| Again: "repeats (xs @ [x]) ys \<Longrightarrow> repeats (xs @ [x]) (ys @ [x])"

lemma repeats_set: "repeats xs ys \<Longrightarrow> set ys = set xs"
  by (induction rule: repeats.induct) auto

subsection \<open>The invariant of the spool\<close>

definition first_kept :: "pipeline \<Rightarrow> nat" where
  "first_kept s = (case pl_projector s of Retired _ \<Rightarrow> Suc (pl_sequence s) | _ \<Rightarrow> pl_sequence s)"

definition retired :: "pipeline \<Rightarrow> nat" where
  "retired s = first_kept s + length (pl_batches s) - Suc (pl_durable s)"

definition kept :: "pipeline \<Rightarrow> metadata_event list list" where
  "kept s = drop (retired s) (pl_batches s)"

definition counters_ok :: "pipeline \<Rightarrow> bool" where
  "counters_ok s \<longleftrightarrow> pl_durable s \<le> length (pl_batches s) \<and> first_kept s \<le> Suc (pl_durable s) \<and>
     pl_sequence s = Suc (pl_projected s) \<and> pl_next s = Suc (pl_durable s)"

lemma kept_facts:
  assumes "counters_ok s"
  shows "retired s \<le> length (pl_batches s)" "first_kept s + length (kept s) = Suc (pl_durable s)"
    "take (retired s) (pl_batches s) @ kept s = pl_batches s"
  using assms by (auto simp: counters_ok_def kept_def retired_def first_kept_def split: projector_phase.splits)

text \<open>The oldest kept batch has been inserted already.\<close>

definition head_inserted :: "pipeline \<Rightarrow> bool" where
  "head_inserted s \<longleftrightarrow> kept s \<noteq> [] \<and> repeats (take (retired s) (pl_batches s) @ [hd (kept s)]) (pl_inserted s)"

definition projector_ok :: "pipeline \<Rightarrow> bool" where
  "projector_ok s \<longleftrightarrow>
     (case pl_projector s of
        Projecting b \<Rightarrow> kept s \<noteq> [] \<and> hd (kept s) = b
      | Retiring b \<Rightarrow> kept s \<noteq> [] \<and> hd (kept s) = b \<and> head_inserted s
      | Retired b \<Rightarrow> pl_sequence s \<le> pl_durable s
      | _ \<Rightarrow> True) \<and>
     (repeats (take (retired s) (pl_batches s)) (pl_inserted s) \<or> head_inserted s)"

definition lacking :: "pipeline \<Rightarrow> bool" where
  "lacking s \<longleftrightarrow> pl_projector s = ProjectorStopped \<and> head_inserted s"

definition publishing :: "pipeline \<Rightarrow> bool" where
  "publishing s \<longleftrightarrow> (case pl_writer s of Publishing _ _ \<Rightarrow> True | _ \<Rightarrow> False)"

definition extra_ok :: "writer_phase \<Rightarrow> metadata_event list option \<Rightarrow> bool" where
  "extra_ok w extra \<longleftrightarrow> (case w of Publishing b _ \<Rightarrow> extra = Some b | WriterStopped \<Rightarrow> True | _ \<Rightarrow> extra = None)"

definition extra_bytes :: "event_codec \<Rightarrow> metadata_event list option \<Rightarrow> nat" where
  "extra_bytes c extra = (case extra of None \<Rightarrow> 0 | Some u \<Rightarrow> length (payload c u))"

definition dirs_ok :: "event_codec \<Rightarrow> nat \<Rightarrow> metadata_event list option \<Rightarrow> pipeline \<Rightarrow> bool" where
  "dirs_ok c max_bytes extra s \<longleftrightarrow>
     dir_range c (first_kept s) (kept s) (lacking s) extra (publishing s) (sp_dir (pl_spool s)) \<and>
     dir_range c (first_kept s) (kept s) (lacking s) extra (publishing s) (sp_synced (pl_spool s)) \<and>
     sp_max_bytes (pl_spool s) = max_bytes \<and>
     total_bytes c (kept s) + extra_bytes c extra \<le> max_bytes \<and>
     sp_bytes (pl_spool s) = total_bytes c (kept s) + (if publishing s then extra_bytes c extra else 0)"

definition spool_ok :: "event_codec \<Rightarrow> nat \<Rightarrow> pipeline \<Rightarrow> bool" where
  "spool_ok c max_bytes s \<longleftrightarrow> counters_ok s \<and> projector_ok s \<and> (\<exists>extra. extra_ok (pl_writer s) extra \<and> dirs_ok c max_bytes extra s)"

lemmas state_defs = first_kept_def retired_def kept_def counters_ok_def head_inserted_def projector_ok_def lacking_def
  publishing_def

text \<open>Steps that leave spool, projector and batches alone.\<close>

lemma spool_ok_frame:
  assumes "spool_ok c mx s" and "pl_spool s' = pl_spool s" "pl_durable s' = pl_durable s" "pl_projected s' = pl_projected s"
    "pl_projector s' = pl_projector s" "pl_sequence s' = pl_sequence s" "pl_next s' = pl_next s" "pl_batches s' = pl_batches s"
    "pl_inserted s' = pl_inserted s" and "publishing s' = publishing s"
    and "\<And>extra. extra_ok (pl_writer s) extra \<Longrightarrow> extra_ok (pl_writer s') extra"
  shows "spool_ok c mx s'"
proof -
  have e: "counters_ok s' = counters_ok s" "projector_ok s' = projector_ok s" "lacking s' = lacking s" "first_kept s' = first_kept s"
    "kept s' = kept s"
    using assms (2 - 9) by (simp_all add: counters_ok_def projector_ok_def lacking_def head_inserted_def kept_def retired_def first_kept_def
        cong: projector_phase.case_cong)
  from assms (1) obtain extra where x: "extra_ok (pl_writer s) extra" "dirs_ok c mx extra s" by (auto simp: spool_ok_def)
  then have "dirs_ok c mx extra s'" using assms (2, 10) by (simp add: dirs_ok_def e)
  with assms (1, 11) x (1) show ?thesis unfolding spool_ok_def e by blast
qed


subsection \<open>The writer\<close>

lemma answer_barrier_frame:
  "pl_spool (answer_barrier n b s) = pl_spool s" "pl_durable (answer_barrier n b s) = pl_durable s"
  "pl_projected (answer_barrier n b s) = pl_projected s" "pl_projector (answer_barrier n b s) = pl_projector s"
  "pl_sequence (answer_barrier n b s) = pl_sequence s" "pl_next (answer_barrier n b s) = pl_next s"
  "pl_batches (answer_barrier n b s) = pl_batches s" "pl_inserted (answer_barrier n b s) = pl_inserted s"
  "pl_writer (answer_barrier n b s) = pl_writer s" "pl_log (answer_barrier n b s) = pl_log s"
  "pl_queue (answer_barrier n b s) = pl_queue s" "pl_base (answer_barrier n b s) = pl_base s"
  by (auto simp: answer_barrier_def split: option.splits bool.splits)

lemma spool_append_cases:
  assumes "spool_append c io u k b sp = (res, sp')" and "b \<noteq> []"
  obtains
    (kept) e where "res = Inl e" "sp' = sp"
  | (temp) e removed content where "res = Inl e" "sp' = sp\<lparr>sp_dir := leave_temp removed (temp_name k u) content (sp_dir sp)\<rparr>"
  | (renamed) e d where "res = Inl e" "ec_to_vec c b = Some (payload c b)" "sat_add64 (sp_bytes sp) (length (payload c b)) \<le> sp_max_bytes sp"
      "d = AList.update (path_for_sequence k) (payload c b) (AList.delete (temp_name k u) (sp_dir sp))" "sp' = sp\<lparr>sp_dir := d\<rparr>"
  | (synced) d where "res = Inr ()" "ec_to_vec c b = Some (payload c b)" "sat_add64 (sp_bytes sp) (length (payload c b)) \<le> sp_max_bytes sp"
      "d = AList.update (path_for_sequence k) (payload c b) (AList.delete (temp_name k u) (sp_dir sp))"
      "sp' = sp\<lparr>sp_dir := d, sp_synced := d, sp_bytes := sp_bytes sp + length (payload c b)\<rparr>"
proof (cases "ec_to_vec c b")
  case None
  with assms show ?thesis by (intro that (1) [of SerializeFailed]) (simp_all add: spool_append_def)
next
  case (Some p)
  then have p: "p = payload c b" by (simp add: payload_def)
  show ?thesis
  proof (cases "sat_add64 (sp_bytes sp) (length p) > sp_max_bytes sp")
    case True
    with Some assms show ?thesis
      by (intro that (1) [of "QuotaExceeded (sp_bytes sp) (length p)"]) (auto simp: spool_append_def)
  next
    case False
    note a = assms Some False
    show ?thesis
    proof (cases io)
      case CreateFails
      with a show ?thesis by (intro that (1) [of SpoolIo]) (simp_all add: spool_append_def Let_def)
    next
      case (WriteFails n removed)
      with a show ?thesis by (intro that (2) [of SpoolIo removed "take n p"]) (simp_all add: spool_append_def Let_def)
    next
      case (RenameFails removed)
      with a show ?thesis by (intro that (2) [of SpoolIo removed p]) (simp_all add: spool_append_def Let_def)
    next
      case DirSyncFails
      with a show ?thesis unfolding p by (intro that (3) [of SpoolIo, OF _ _ _ refl]) (simp_all add: spool_append_def Let_def)
    next
      case AppendDone
      with a show ?thesis unfolding p by (intro that (4) [OF _ _ _ refl]) (simp_all add: spool_append_def Let_def)
    qed
  qed
qed

lemma sat_add_within: "sat_add64 a b \<le> m \<Longrightarrow> m < u64_max \<Longrightarrow> a + b \<le> m"
  by (simp add: sat_add64_def split: if_splits)

lemma writer_append_ok:
  assumes "spool_ok c mx s" and w: "pl_writer s = Appending batch barrier" and "mx < u64_max"
  shows "spool_ok c mx (writer_append c io u batch barrier s)"
proof (cases "batch = []")
  case True
  then show ?thesis
    by (intro spool_ok_frame [OF assms (1)]) (simp_all add: writer_append_def answer_barrier_frame publishing_def w extra_ok_def)
next
  case False
  obtain res sp where sp: "spool_append c io u (pl_next s) batch (pl_spool s) = (res, sp)" by fastforce
  let ?t = "\<lambda>sp w. s\<lparr>pl_spool := sp, pl_writer := w\<rparr>"
  from assms (1) w have x: "counters_ok s" "projector_ok s" "dirs_ok c mx None s" "\<not> publishing s"
    by (auto simp: spool_ok_def extra_ok_def publishing_def)
  have n: "pl_next s = first_kept s + length (kept s)" using kept_facts (2) [OF x (1)] x (1) by (simp add: counters_ok_def)
  have e: "counters_ok (?t sp w) = counters_ok s" "projector_ok (?t sp w) = projector_ok s" "lacking (?t sp w) = lacking s"
    "first_kept (?t sp w) = first_kept s" "kept (?t sp w) = kept s" for sp w
    by (simp_all add: counters_ok_def projector_ok_def lacking_def head_inserted_def kept_def retired_def first_kept_def
        cong: projector_phase.case_cong)
  have p: "\<not> publishing (?t sp WriterStopped)" "publishing (?t sp (Publishing b' v))" for sp b' v by (simp_all add: publishing_def)
  let ?r = "\<lambda>ex m d. dir_range c (first_kept s) (kept s) (lacking s) ex m d"
  have d: "?r None False (sp_dir (pl_spool s))" "?r None False (sp_synced (pl_spool s))" "sp_max_bytes (pl_spool s) = mx"
    "sp_bytes (pl_spool s) = total_bytes c (kept s)" "total_bytes c (kept s) \<le> mx"
    using x (3, 4) by (simp_all add: dirs_ok_def extra_bytes_def)
  show ?thesis
    using sp False
  proof (cases rule: spool_append_cases)
    case kept
    then have "writer_append c io u batch barrier s = s\<lparr>pl_writer := WriterStopped\<rparr>" using False sp by (simp add: writer_append_def)
    then show ?thesis by (intro spool_ok_frame [OF assms (1)]) (simp_all add: publishing_def w extra_ok_def)
  next
    case (temp e' removed content)
    have "?r None False (sp_dir sp)"
      by (rule dir_range_cong [OF d (1)]) (use d (1) temp (2) in \<open>simp_all add: dir_range_def leave_temp_distinct leave_temp_same\<close>)
    then have "dirs_ok c mx None (?t sp WriterStopped)" using d temp (2) by (simp add: dirs_ok_def e p extra_bytes_def)
    then show ?thesis using x temp (1) False sp by (auto simp: writer_append_def spool_ok_def e extra_ok_def)
  next
    case (renamed e' dir)
    have "?r (Some batch) True dir" using append_range [OF d (1)] renamed (2, 4) n by auto
    then have "dirs_ok c mx (Some batch) (?t sp WriterStopped)"
      using d sat_add_within [OF _ assms (3)] renamed (3, 5) by (simp add: dirs_ok_def e p extra_bytes_def dir_range_weaken)
    then show ?thesis using x renamed (1) False sp by (auto simp: writer_append_def spool_ok_def e extra_ok_def)
  next
    case (synced dir)
    have "?r (Some batch) True dir" using append_range [OF d (1)] synced (2, 4) n by auto
    then have "dirs_ok c mx (Some batch) (?t sp (Publishing batch barrier))"
      using d sat_add_within [OF _ assms (3)] synced (3, 5) by (simp add: dirs_ok_def e p extra_bytes_def)
    then show ?thesis using x synced (1) False sp by (auto simp: writer_append_def spool_ok_def e extra_ok_def)
  qed
qed

lemma writer_publish_ok:
  assumes "spool_ok c mx s" and w: "pl_writer s = Publishing batch barrier"
  shows "spool_ok c mx (writer_publish batch barrier s)"
proof -
  define t where "t = s\<lparr>pl_durable := pl_next s, pl_next := pl_next s + 1, pl_writer := Receiving, pl_batches := pl_batches s @ [batch]\<rparr>"
  from assms have x: "counters_ok s" "projector_ok s" "dirs_ok c mx (Some batch) s" "publishing s"
    by (auto simp: spool_ok_def extra_ok_def publishing_def)
  note r = kept_facts [OF x (1)]
  have n: "pl_next s = Suc (pl_durable s)" using x (1) by (simp add: counters_ok_def)
  have t: "pl_projector t = pl_projector s" "pl_sequence t = pl_sequence s" "pl_durable t = Suc (pl_durable s)" "pl_batches t = pl_batches s @ [batch]"
    "pl_inserted t = pl_inserted s" "pl_spool t = pl_spool s" "pl_next t = Suc (Suc (pl_durable s))" "pl_projected t = pl_projected s"
    "pl_writer t = Receiving"
    by (simp_all add: t_def n)
  have f: "first_kept t = first_kept s" by (simp add: first_kept_def t cong: projector_phase.case_cong)
  then have rt: "retired t = retired s" by (simp add: retired_def t)
  have k: "kept t = kept s @ [batch]" using r (1) by (simp add: kept_def rt t)
  have tk: "take (retired s) (pl_batches s @ [batch]) = take (retired s) (pl_batches s)" using r (1) by simp
  have h: "head_inserted s \<Longrightarrow> head_inserted t" using r (1) by (auto simp: head_inserted_def k rt t)
  have p: "projector_ok t"
    using x (2) h r (1) by (auto simp: projector_ok_def k rt tk t split: projector_phase.splits)
  have c: "counters_ok t" using x (1) by (simp add: counters_ok_def f t)
  have l: "lacking s \<Longrightarrow> lacking t" using h by (simp add: lacking_def t)
  have d: "dir_range c (first_kept s) (kept s @ [batch]) (lacking t) None False dir"
    if "dir_range c (first_kept s) (kept s) (lacking s) (Some batch) True dir" for dir
  proof -
    have "dir_range c (first_kept s) (kept s @ [batch]) (lacking s) None False dir"
      by (rule publish_range [OF that]) (auto intro: range_beyond [OF that])
    then show ?thesis using l by (cases "lacking s") (auto intro: dir_range_weaken (3))
  qed
  have "dirs_ok c mx None t"
    using x (3, 4) d by (simp add: dirs_ok_def f k extra_bytes_def publishing_def t)
  with c p have "spool_ok c mx t" by (auto simp: spool_ok_def extra_ok_def t)
  then show ?thesis
    by (rule spool_ok_frame) (simp_all add: writer_publish_def answer_barrier_frame publishing_def t_def)
qed

subsection \<open>The projector\<close>

lemma range_hd:
  assumes "codec_law c" and "dir_range c f bs False extra must (sp_dir sp)" and "bs \<noteq> []"
  shows "spool_read c (path_for_sequence f) sp = Inr (hd bs)"
  using assms holds_read [OF assms (1), of sp f "hd bs"] by (auto simp: dir_range_def hd_conv_nth dest: spec [of _ 0])

text \<open>A step of the projector that neither retires a batch nor touches the spool.\<close>

lemma projector_moves:
  assumes "spool_ok c mx s" and same: "pl_spool s' = pl_spool s" "pl_writer s' = pl_writer s" "pl_durable s' = pl_durable s"
    "pl_batches s' = pl_batches s" "pl_sequence s' = pl_sequence s" "pl_projected s' = pl_projected s" "pl_next s' = pl_next s"
    and "\<And>b. pl_projector s \<noteq> Retired b" "\<And>b. pl_projector s' \<noteq> Retired b"
    and "kept s' = kept s \<Longrightarrow> retired s' = retired s \<Longrightarrow> (lacking s \<longrightarrow> lacking s') \<and> projector_ok s'"
  shows "spool_ok c mx s'"
proof -
  have f: "first_kept s' = first_kept s"
    using assms (9, 10) same (5) by (auto simp: first_kept_def split: projector_phase.splits)
  then have r: "retired s' = retired s" by (simp add: retired_def same)
  then have k: "kept s' = kept s" by (simp add: kept_def same)
  from assms (1) obtain extra where x: "counters_ok s" "extra_ok (pl_writer s) extra" "dirs_ok c mx extra s" by (auto simp: spool_ok_def)
  have p: "publishing s' = publishing s" by (simp add: publishing_def same)
  have l: "lacking s \<longrightarrow> lacking s'" "projector_ok s'" using assms (11) k r by blast+
  have "dir_range c (first_kept s) (kept s) (lacking s') extra m dir" if "dir_range c (first_kept s) (kept s) (lacking s) extra m dir" for m dir
    using that l (1) by (cases "lacking s") (auto intro: dir_range_weaken (3))
  with x (3) have "dirs_ok c mx extra s'" by (simp add: dirs_ok_def same f k p)
  moreover have "counters_ok s'" using x (1) by (simp add: counters_ok_def same f)
  ultimately show ?thesis using x (2) l (2) by (auto simp: spool_ok_def same)
qed

lemma projector_poll_ok:
  assumes "codec_law c" "spool_ok c mx s" and p: "pl_projector s = Polling"
  shows "spool_ok c mx (projector_poll c s)"
proof -
  have x: "counters_ok s" "projector_ok s" "\<not> lacking s" using assms (2) p by (auto simp: spool_ok_def lacking_def)
  have f: "first_kept s = pl_sequence s" by (simp add: first_kept_def p)
  have stop: "spool_ok c mx (s\<lparr>pl_projector := ProjectorStopped\<rparr>)"
    by (rule projector_moves [OF assms (2)]) (use x p in \<open>simp_all add: projector_ok_def head_inserted_def\<close>)
  have go: "spool_ok c mx (s\<lparr>pl_projector := Projecting b\<rparr>)" if "kept s \<noteq> []" "hd (kept s) = b" for b
    by (rule projector_moves [OF assms (2)]) (use x p that in \<open>simp_all add: projector_ok_def head_inserted_def\<close>)
  show ?thesis
  proof (cases "pl_shutdown s \<or> pl_sequence s > pl_durable s")
    case True
    then show ?thesis using stop assms (2) by (auto simp: projector_poll_def)
  next
    case False
    then have k: "kept s \<noteq> []" using kept_facts (2) [OF x (1)] f by auto
    from assms (2) x (3) have "\<exists>extra. dir_range c (first_kept s) (kept s) False extra (publishing s) (sp_dir (pl_spool s))"
      by (auto simp: spool_ok_def dirs_ok_def)
    with range_hd [OF assms (1) _ k] have "spool_read c (path_for_sequence (pl_sequence s)) (pl_spool s) = Inr (hd (kept s))"
      unfolding f by blast
    then show ?thesis using go k False by (simp add: projector_poll_def)
  qed
qed

lemma projector_insert_ok:
  assumes "spool_ok c mx s" and p: "pl_projector s = Projecting b"
  shows "spool_ok c mx (projector_insert answer b s)"
proof -
  have x: "kept s \<noteq> []" "hd (kept s) = b"
    and i: "repeats (take (retired s) (pl_batches s)) (pl_inserted s) \<or> head_inserted s"
    using assms by (auto simp: spool_ok_def projector_ok_def)
  have h: "repeats (take (retired s) (pl_batches s) @ [b]) (pl_inserted s @ [b])"
    using i x (2) by (auto simp: head_inserted_def intro: repeats.intros)
  have "spool_ok c mx (s\<lparr>pl_projector := ProjectorStopped\<rparr>)" "spool_ok c mx (s\<lparr>pl_ready := True\<rparr>)"
    by (rule projector_moves [OF assms (1)]; use p x i in \<open>simp add: projector_ok_def head_inserted_def lacking_def\<close>)+
  moreover have "spool_ok c mx (s\<lparr>pl_ready := True, pl_projector := Retiring b, pl_inserted := pl_inserted s @ [b]\<rparr>)"
    by (rule projector_moves [OF assms (1)]; use p x h in \<open>simp add: projector_ok_def head_inserted_def lacking_def\<close>)
  ultimately show ?thesis using assms (1) by (simp add: projector_insert_def Let_def)
qed

lemma projector_retire_ok:
  assumes "spool_ok c mx s" and p: "pl_projector s = Retiring b"
  shows "spool_ok c mx (projector_retire io b s)"
proof -
  obtain extra where x: "counters_ok s" "extra_ok (pl_writer s) extra" "dirs_ok c mx extra s"
    and k: "kept s \<noteq> []" "hd (kept s) = b" "head_inserted s"
    using assms by (auto simp: spool_ok_def projector_ok_def)
  have f: "first_kept s = pl_sequence s" by (simp add: first_kept_def p)
  obtain rest where kr: "kept s = b # rest" using k (1, 2) by (cases "kept s") auto
  have l: "\<not> lacking s" by (simp add: lacking_def p)
  let ?d = "AList.delete (path_for_sequence (pl_sequence s)) (sp_dir (pl_spool s))"
  have d: "dir_range c (pl_sequence s) (b # rest) False extra (publishing s) (sp_dir (pl_spool s))"
    "dir_range c (pl_sequence s) (b # rest) False extra (publishing s) (sp_synced (pl_spool s))"
    using x (3) l by (simp_all add: dirs_ok_def f kr)
  then have m: "map_of (sp_dir (pl_spool s)) (path_for_sequence (pl_sequence s)) = Some (payload c b)"
    by (auto simp: dir_range_def holds_def dest: spec [of _ 0])
  have stopped: "spool_ok c mx t"
    if t: "t = s\<lparr>pl_spool := sp, pl_projector := ProjectorStopped\<rparr>" and sp: "sp = pl_spool s \<or> sp = (pl_spool s)\<lparr>sp_dir := ?d\<rparr>" for t sp
  proof -
    have e: "first_kept t = pl_sequence s" "pl_writer t = pl_writer s" "pl_spool t = sp" by (simp_all add: t first_kept_def)
    then have "retired t = retired s" by (simp add: retired_def f t)
    then have kt: "kept t = b # rest" "head_inserted t" using k (3) kr by (simp_all add: kept_def t head_inserted_def)
    then have lt: "lacking t" by (simp add: lacking_def t)
    have "dirs_ok c mx extra t"
      using x (3) d remove_range (2) [OF d (1) refl] sp
      by (auto simp: dirs_ok_def e kt lt kr publishing_def intro: dir_range_weaken (3))
    moreover have "counters_ok t" "projector_ok t" using x (1) kt (2) e by (simp_all add: counters_ok_def t projector_ok_def first_kept_def p)
    ultimately show ?thesis using x (2) by (auto simp: spool_ok_def e)
  qed
  have removed: "spool_ok c mx t"
    if t: "t = s\<lparr>pl_spool := (pl_spool s)\<lparr>sp_dir := ?d, sp_synced := ?d, sp_bytes := sp_bytes (pl_spool s) - length (payload c b)\<rparr>,
      pl_projector := Retired b\<rparr>" for t
  proof -
    have e: "first_kept t = Suc (pl_sequence s)" "pl_writer t = pl_writer s" "publishing t = publishing s"
      by (simp_all add: t first_kept_def publishing_def)
    have le: "pl_sequence s \<le> pl_durable s" using kept_facts (2) [OF x (1)] kr by (simp add: f)
    moreover have "length (pl_batches t) = length (pl_batches s)" "pl_durable t = pl_durable s" by (simp_all add: t)
    moreover have "pl_durable s \<le> length (pl_batches s)" "pl_sequence s = Suc (pl_projected s)" using x (1) by (simp_all add: counters_ok_def)
    ultimately have rt: "retired t = Suc (retired s)" unfolding retired_def e (1) f by linarith
    have kt: "kept t = rest" using kr unfolding kept_def rt by (simp add: t drop_Suc drop_tl)
    have tk: "take (Suc (retired s)) (pl_batches s) = take (retired s) (pl_batches s) @ [b]"
      using kr by (simp add: kept_def take_hd_drop [symmetric] drop_eq_Nil [symmetric] del: drop_eq_Nil)
        (metis drop_eq_Nil hd_drop_conv_nth list.distinct(1) list.sel(1) not_le take_Suc_conv_app_nth)
    have "pl_batches t = pl_batches s" "pl_inserted t = pl_inserted s" by (simp_all add: t)
    then have "repeats (take (retired t) (pl_batches t)) (pl_inserted t)" using k (3) kr tk by (simp add: rt head_inserted_def)
    then have "projector_ok t" using le by (simp add: projector_ok_def t)
    moreover have "\<not> lacking t" "pl_spool t = (pl_spool s)\<lparr>sp_dir := ?d, sp_synced := ?d,
        sp_bytes := sp_bytes (pl_spool s) - length (payload c b)\<rparr>" by (simp_all add: t lacking_def)
    then have "dirs_ok c mx extra t" using x (3) remove_range (1) [OF d (1) refl] by (simp add: dirs_ok_def e kt kr)
    moreover have "counters_ok t" using x (1) le e (1) by (simp add: counters_ok_def t)
    ultimately show ?thesis using x (2) by (auto simp: spool_ok_def e)
  qed
  show ?thesis
    using m stopped [OF refl] stopped [OF refl, of "pl_spool s"] removed [OF refl]
    by (cases io) (simp_all add: projector_retire_def spool_remove_def Let_def entry_len_def)
qed

lemma projector_store_ok:
  assumes "spool_ok c mx s" and p: "pl_projector s = Retired b"
  shows "spool_ok c mx (projector_store b s)"
proof -
  define t where "t = projector_store b s"
  obtain extra where x: "counters_ok s" "projector_ok s" "extra_ok (pl_writer s) extra" "dirs_ok c mx extra s"
    using assms by (auto simp: spool_ok_def)
  have t: "first_kept t = first_kept s" "pl_writer t = pl_writer s" "pl_spool t = pl_spool s" "pl_batches t = pl_batches s"
    "pl_durable t = pl_durable s" "pl_inserted t = pl_inserted s" "\<not> lacking t" "\<not> lacking s" "publishing t = publishing s"
    by (simp_all add: t_def projector_store_def first_kept_def p lacking_def publishing_def)
  then have r: "retired t = retired s" "kept t = kept s" by (simp_all add: retired_def kept_def)
  have "counters_ok t" using x (1) by (simp add: counters_ok_def t) (simp add: t_def projector_store_def)
  moreover have "projector_ok t" using x (2) by (simp add: projector_ok_def head_inserted_def r t p) (simp add: t_def projector_store_def)
  moreover have "dirs_ok c mx extra t" using x (4) t (7, 8) by (simp add: dirs_ok_def t r)
  ultimately show ?thesis using x (3) by (auto simp: spool_ok_def t_def [symmetric] t)
qed

subsection \<open>Restart\<close>

lemma batches_beyond_range:
  assumes "codec_law c" and r: "dir_range c f (bs @ cs) False None must (sp_dir sp)"
    and e: "list_entries (sp_dir sp) = map (\<lambda>k. (k, path_for_sequence k)) [f ..< f + length (bs @ cs)]" and n: "f + length bs = Suc n"
  shows "batches_beyond c n sp = cs"
proof -
  have h: "spool_read c (path_for_sequence (f + j)) sp = Inr ((bs @ cs) ! j)" if "j < length (bs @ cs)" for j
    using r that by (intro holds_read [OF assms (1)]) (auto simp: dir_range_def)
  have u: "[f ..< f + length (bs @ cs)] = [f ..< Suc n] @ map (\<lambda>j. j + Suc n) [0 ..< length cs]"
  proof -
    have a: "f + length (bs @ cs) = Suc n + length cs" using n by simp
    have b: "[f ..< Suc n + length cs] = [f ..< Suc n] @ [Suc n ..< Suc n + length cs]"
      by (rule upt_add_eq_append) (use n in simp)
    have c: "[Suc n ..< Suc n + length cs] = map (\<lambda>j. j + Suc n) [0 ..< length cs]" by (simp only: map_add_upt add.commute)
    show ?thesis unfolding a b c ..
  qed
  have "List.map_filter F (map (\<lambda>j. (j + Suc n, path_for_sequence (j + Suc n))) [0 ..< length cs]) = cs"
    if F: "F = (\<lambda>(s, name). if s > n then (case spool_read c name sp of Inl _ \<Rightarrow> None | Inr events \<Rightarrow> Some events) else None)" for F
  proof -
    have "F (j + Suc n, path_for_sequence (j + Suc n)) = Some (cs ! j)" if "j < length cs" for j
    proof -
      have eq: "f + (length bs + j) = j + Suc n" using n by simp
      show ?thesis using h [of "length bs + j", unfolded eq] that by (simp add: F del: add_Suc_right)
    qed
    then have "List.map_filter (\<lambda>j. F (j + Suc n, path_for_sequence (j + Suc n))) [0 ..< length cs] = map (\<lambda>j. cs ! j) [0 ..< length cs]"
      by (auto simp: List.map_filter_def filter_True simp del: add_Suc_right)
    then show ?thesis by (simp add: List.map_filter_def comp_def filter_map map_nth del: add_Suc_right)
  qed
  from this [OF refl] show ?thesis
    unfolding batches_beyond_def e u by (simp add: List.map_filter_def comp_def filter_map del: add_Suc_right split: prod.splits)
qed

lemma empty_range: "dir_range c f [] l None m dir \<Longrightarrow> dir_range c g [] l' None m' dir"
proof -
  assume a: "dir_range c f [] l None m dir"
  have "map_of dir name = None" if "\<not> is_temp name" for name
  proof (rule ccontr)
    assume "map_of dir name \<noteq> None"
    with a that obtain k where "f \<le> k" "k \<le> f" "name = path_for_sequence k" by (auto simp: dir_range_def dest: names_withinD)
    with a \<open>map_of dir name \<noteq> None\<close> show False by (simp add: dir_range_def lacks_def)
  qed
  moreover from this have "names_within g g dir" by (intro names_withinI) auto
  ultimately show ?thesis using a by (simp add: dir_range_def lacks_def)
qed

lemma batches_beyond_same:
  assumes "\<And>k name. (k, name) \<in> set (list_entries (sp_dir sp)) \<Longrightarrow> m < k \<and> n < k"
  shows "batches_beyond c m sp = batches_beyond c n sp"
proof -
  let ?F = "\<lambda>n (s, name). if s > n then (case spool_read c name sp of Inl _ \<Rightarrow> None | Inr events \<Rightarrow> Some events) else None"
  have "?F m e = ?F n e" if "e \<in> set (list_entries (sp_dir sp))" for e using assms that by (cases e) auto
  then show ?thesis by (simp add: batches_beyond_def List.map_filter_def cong: map_cong filter_cong)
qed

lemma start_empty:
  assumes "list_entries (sp_dir sp) = []" and "dir_range c f [] False None m (sp_dir sp)" "sp_synced sp = sp_dir sp"
    and "sp_max_bytes sp = mx" "sp_bytes sp = 0" and "repeats B ins"
  shows "spool_ok c mx (start_pipeline sp B ins)"
proof -
  define t where "t = start_pipeline sp B ins"
  have t: "pl_spool t = sp" "pl_durable t = 0" "pl_projected t = 0" "pl_next t = 1" "pl_sequence t = 1" "pl_projector t = Polling"
    "pl_writer t = Receiving" "pl_batches t = B" "pl_inserted t = ins"
    using assms (1) by (simp_all add: t_def start_pipeline_def Let_def max_sequence_def first_sequence_def)
  then have k: "first_kept t = 1" "retired t = length B" "kept t = []" "\<not> publishing t" "\<not> lacking t" by (simp_all add: state_defs)
  have "dirs_ok c mx None t"
    using empty_range [OF assms (2)] assms (3 - 5) k by (simp add: dirs_ok_def t extra_bytes_def)
  moreover have "counters_ok t" "projector_ok t" using assms (6) k by (simp_all add: counters_ok_def projector_ok_def t)
  ultimately show ?thesis unfolding t_def [symmetric] by (auto simp: spool_ok_def extra_ok_def t)
qed

lemma start_nonempty:
  assumes "list_entries (sp_dir sp) = map (\<lambda>k. (k, path_for_sequence k)) [f ..< f + length bs]" and "bs \<noteq> []" "0 < f" "f + length bs \<le> Suc (length B)"
    and "dir_range c f bs False None m (sp_dir sp)" "sp_synced sp = sp_dir sp"
    and "sp_max_bytes sp = mx" "sp_bytes sp = total_bytes c bs" "total_bytes c bs \<le> mx" and "B = old @ bs"
    and "repeats old ins \<or> repeats (old @ [hd bs]) ins"
  shows "spool_ok c mx (start_pipeline sp B ins)"
proof -
  define t where "t = start_pipeline sp B ins"
  have l: "fst (last (list_entries (sp_dir sp))) = f + length bs - 1" "fst (hd (list_entries (sp_dir sp))) = f" "list_entries (sp_dir sp) \<noteq> []"
    using assms (1, 2) by (simp_all add: last_map hd_map)
  have t: "pl_spool t = sp" "pl_durable t = f + length bs - 1" "pl_projected t = f - 1" "pl_next t = f + length bs" "pl_sequence t = f"
    "pl_projector t = Polling" "pl_writer t = Receiving" "pl_batches t = B" "pl_inserted t = ins"
    using l assms (2, 3) by (simp_all add: t_def start_pipeline_def Let_def max_sequence_def first_sequence_def)
  have k: "first_kept t = f" "retired t = length old" "\<not> publishing t" "\<not> lacking t"
    using assms (2, 3, 10) by (simp_all add: first_kept_def retired_def publishing_def lacking_def t)
  then have k': "kept t = bs" using assms (10) by (simp add: kept_def t)
  have "dirs_ok c mx None t"
    using assms (5 - 9) k k' by (simp add: dirs_ok_def t extra_bytes_def) (simp add: dir_range_def)
  moreover have "counters_ok t" using assms (2 - 4) k by (simp add: counters_ok_def t)
  moreover have "projector_ok t" using assms (2, 10, 11) k k' by (simp add: projector_ok_def head_inserted_def t)
  ultimately show ?thesis unfolding t_def [symmetric] by (auto simp: spool_ok_def extra_ok_def t)
qed

lemma restart_ok:
  assumes "codec_law c" "spool_ok c mx s" and "crash_dir (pl_spool s) dir" and "0 < mx" "mx < u64_max" and "length (pl_batches s) < u64_max"
  obtains sp a cs where "open_spool mx dir = Inr sp" "restart_pipeline c dir s = Inr (start_pipeline sp (pl_batches s @ cs) (pl_inserted s))"
    "length cs \<le> 1" "spool_ok c mx (start_pipeline sp (pl_batches s @ cs) (pl_inserted s))"
    "sp_bytes sp \<le> mx" "batches_beyond c 0 sp = drop (retired s + a) (pl_batches s @ cs)" "a \<le> 1" "a = 1 \<Longrightarrow> head_inserted s"
proof -
  from assms (2) obtain extra where x: "counters_ok s" "projector_ok s" "dirs_ok c mx extra s" by (auto simp: spool_ok_def)
  note k = kept_facts [OF x (1)]
  have "dir_range c (first_kept s) (kept s) (lacking s) extra (publishing s) dir"
    using crash_range [OF _ _ assms (3)] x (3) by (simp add: dirs_ok_def)
  from settle_range [OF this] obtain a cs where r: "dir_range c (first_kept s + a) (drop a (kept s) @ cs) False None True dir"
    and a: "a \<le> 1" "a = 1 \<longrightarrow> lacking s \<and> kept s \<noteq> []" and cs: "cs = [] \<or> (\<exists>u. extra = Some u \<and> cs = [u])" by blast
  let ?f = "first_kept s + a" and ?bs = "drop a (kept s) @ cs" and ?old = "take (retired s + a) (pl_batches s)"
  have a0: "a = 0 \<or> a = 1 \<and> kept s \<noteq> []" using a by auto
  then have len: "?f + length (drop a (kept s)) = Suc (pl_durable s)" using k (2) by (cases "kept s") auto
  have lc: "length cs \<le> 1" using cs by auto
  have B: "pl_batches s @ cs = ?old @ ?bs"
    unfolding kept_def drop_drop by (simp add: add.commute)
  have bound: "?f + length ?bs \<le> Suc u64_max" "?f + length ?bs \<le> Suc (length (pl_batches s @ cs))"
    using len lc assms (6) x (1) by (auto simp: counters_ok_def)
  have "total_bytes c (drop a (kept s)) \<le> total_bytes c (kept s)"
    using a0 by (cases "kept s") auto
  then have tot: "total_bytes c ?bs \<le> mx" using x (3) cs by (auto simp: dirs_ok_def extra_bytes_def)
  obtain sp where sp: "open_spool mx dir = Inr sp" "sp_max_bytes sp = mx" "sp_bytes sp = total_bytes c ?bs" "sp_synced sp = sp_dir sp"
    "dir_range c ?f ?bs False None True (sp_dir sp)" "list_entries (sp_dir sp) = map (\<lambda>k. (k, path_for_sequence k)) [?f ..< ?f + length ?bs]"
    using open_range [OF r bound (1) tot assms (4)] assms (5) by auto
  have beyond: "batches_beyond c (pl_durable s) sp = cs"
    by (rule batches_beyond_range [OF assms (1) sp (5) sp (6) len])
  have f0: "0 < first_kept s" using x (1) by (auto simp: counters_ok_def first_kept_def split: projector_phase.splits)
  have all: "batches_beyond c 0 sp = ?bs"
  proof -
    have "batches_beyond c 0 sp = batches_beyond c (?f - 1) sp"
      by (rule batches_beyond_same) (use f0 sp (6) in auto)
    then show ?thesis using batches_beyond_range [OF assms (1), of ?f "[]" ?bs True sp "?f - 1"] sp (5, 6) f0 by simp
  qed
  have ins: "repeats ?old (pl_inserted s) \<or> ?bs \<noteq> [] \<and> repeats (?old @ [hd ?bs]) (pl_inserted s)"
  proof (cases "a = 0")
    case True
    then show ?thesis using x (2) by (auto simp: projector_ok_def head_inserted_def)
  next
    case False
    then have "a = 1" "head_inserted s" using a by (auto simp: lacking_def)
    moreover have "take (Suc (retired s)) (pl_batches s) = take (retired s) (pl_batches s) @ [hd (kept s)]"
      using a0 False k (1) by (simp add: kept_def hd_drop_conv_nth take_Suc_conv_app_nth)
    ultimately show ?thesis by (simp add: head_inserted_def)
  qed
  have "spool_ok c mx (start_pipeline sp (pl_batches s @ cs) (pl_inserted s))"
  proof (cases "?bs = []")
    case True
    then have "pl_batches s @ cs = ?old" using B by simp
    then show ?thesis using sp True ins by (intro start_empty) auto
  next
    case False
    then show ?thesis
      by (intro start_nonempty [OF sp (6) _ _ bound (2) sp (5) sp (4) sp (2) sp (3) tot B]) (use f0 ins in auto)
  qed
  moreover have "?bs = drop (retired s + a) (pl_batches s @ cs)"
    using k (1) a0 by (auto simp: kept_def drop_drop add.commute)
  moreover have "restart_pipeline c dir s = Inr (start_pipeline sp (pl_batches s @ cs) (pl_inserted s))"
    using sp (1) x (3) beyond by (simp add: restart_pipeline_def dirs_ok_def)
  ultimately show ?thesis using that [of sp cs a] sp (1, 3) lc tot all a by (auto simp: lacking_def)
qed

end
