(* ===== verification/Metadata_Log.thy ===== *)
theory Metadata_Log
  imports Metadata_Props
begin

text \<open>
  The metadata pipeline as a whole: the invariant of the spool holds in every reachable state, barriers are
  answered truthfully, and the projector drains the spool.
\<close>

subsection \<open>Commands and barriers\<close>

fun events_of :: "meta_command list \<Rightarrow> metadata_event list" where
  "events_of [] = []"
| "events_of (EventCmd e # cmds) = e # events_of cmds"
| "events_of (BarrierCmd _ _ # cmds) = events_of cmds"

lemma events_of_append [simp]: "events_of (a @ b) = events_of a @ events_of b"
  by (induction a rule: events_of.induct) simp_all

definition since :: "pipeline \<Rightarrow> metadata_event list list" where
  "since s = drop (pl_base s) (pl_batches s)"

definition in_flight :: "writer_phase \<Rightarrow> metadata_event list" where
  "in_flight w = (case w of Appending b _ \<Rightarrow> b | Publishing b _ \<Rightarrow> b | _ \<Rightarrow> [])"

definition places_ok :: "meta_command list \<Rightarrow> bool" where
  "places_ok cmds \<longleftrightarrow> (\<forall>j p i. j < length cmds \<and> cmds ! j = BarrierCmd p i \<longrightarrow> i = j)"

text \<open>A barrier at place \<open>i\<close> of the log behind exactly the events \<open>es\<close>.\<close>

definition barrier_at :: "meta_command list \<Rightarrow> bool \<Rightarrow> nat \<Rightarrow> metadata_event list \<Rightarrow> bool" where
  "barrier_at cmds p i es \<longleftrightarrow> i < length cmds \<and> cmds ! i = BarrierCmd p i \<and> events_of (take i cmds) = es"

definition barrier_due :: "pipeline \<Rightarrow> bool" where
  "barrier_due s \<longleftrightarrow>
     (case pl_writer s of
        Appending b (Some (p, i)) \<Rightarrow> barrier_at (pl_log s) p i (concat (since s) @ b)
      | Publishing b (Some (p, i)) \<Rightarrow> barrier_at (pl_log s) p i (concat (since s) @ b)
      | _ \<Rightarrow> True)"

definition waiter_ok :: "pipeline \<Rightarrow> nat \<times> nat \<Rightarrow> bool" where
  "waiter_ok s w \<longleftrightarrow> (\<exists>m. fst w + length (pl_batches s) = pl_base s + m + pl_durable s \<and> fst w \<le> pl_durable s \<and>
     barrier_at (pl_log s) True (snd w) (concat (take m (since s))))"

definition reply_ok :: "pipeline \<Rightarrow> nat \<Rightarrow> bool" where
  "reply_ok s i \<longleftrightarrow> (\<exists>m p. pl_base s + m \<le> length (pl_batches s) \<and> barrier_at (pl_log s) p i (concat (take m (since s))) \<and>
     (p \<longrightarrow> pl_base s + m \<le> retired s))"

definition log_ok :: "pipeline \<Rightarrow> bool" where
  "log_ok s \<longleftrightarrow> pl_base s \<le> length (pl_batches s) \<and> places_ok (pl_log s) \<and>
     (\<exists>used. pl_log s = used @ pl_queue s \<and>
        (pl_writer s \<noteq> WriterStopped \<longrightarrow> events_of used = concat (since s) @ in_flight (pl_writer s))) \<and>
     barrier_due s \<and> list_all (waiter_ok s) (pl_waiters s) \<and> (\<forall>i. (i, True) \<in> set (pl_replies s) \<longrightarrow> reply_ok s i)"

lemma barrier_at_more: "barrier_at cmds p i es \<Longrightarrow> barrier_at (cmds @ cmds2) p i es"
  by (auto simp: barrier_at_def nth_append)

text \<open>Steps that leave the commands and the writer alone and retire no fewer batches.\<close>

lemma log_frame:
  assumes "log_ok s" and same: "pl_log s' = pl_log s" "pl_queue s' = pl_queue s" "pl_writer s' = pl_writer s" "pl_base s' = pl_base s"
    "pl_batches s' = pl_batches s" "pl_durable s' = pl_durable s" "pl_waiters s' = pl_waiters s" "pl_replies s' = pl_replies s"
    and "retired s \<le> retired s'"
  shows "log_ok s'"
proof -
  have e1: "since s' = since s" by (simp add: since_def same)
  have e: "waiter_ok s' = waiter_ok s" "barrier_due s' = barrier_due s"
    unfolding waiter_ok_def barrier_due_def same e1 by (rule refl)+
  have "reply_ok s i \<Longrightarrow> reply_ok s' i" for i
    using assms (10) unfolding reply_ok_def e1 same by (meson le_trans)
  with assms (1) show ?thesis unfolding log_ok_def e e1 same by blast
qed

lemma sink_command_ok:
  assumes "log_ok s" and "\<And>p i. cmd = BarrierCmd p i \<Longrightarrow> i = length (pl_log s)"
  shows "log_ok (sink_command connected cmd s)"
proof (cases connected)
  case True
  define t where "t = sink_command connected cmd s"
  have t: "pl_log t = pl_log s @ [cmd]" "pl_queue t = pl_queue s @ [cmd]" "pl_writer t = pl_writer s" "pl_base t = pl_base s"
    "pl_batches t = pl_batches s" "pl_durable t = pl_durable s" "pl_waiters t = pl_waiters s" "pl_replies t = pl_replies s" "since t = since s"
    "retired t = retired s"
    using True by (simp_all add: t_def sink_command_def since_def retired_def first_kept_def cong: projector_phase.case_cong)
  have "places_ok (pl_log t)"
    using assms by (auto simp: log_ok_def places_ok_def t nth_append less_Suc_eq)
  moreover have "waiter_ok s w \<Longrightarrow> waiter_ok t w" "reply_ok s i \<Longrightarrow> reply_ok t i" for w i
    unfolding waiter_ok_def reply_ok_def t using barrier_at_more by blast+
  moreover have "barrier_due s \<Longrightarrow> barrier_due t"
    by (auto simp: barrier_due_def t barrier_at_more split: writer_phase.splits option.splits)
  ultimately show ?thesis
    using assms (1) unfolding t_def [symmetric] log_ok_def t by (auto simp: list_all_iff)
next
  case False
  then show ?thesis using assms (1) by (simp add: sink_command_def)
qed

lemma collect_facts:
  "collect n b q = (batch, barrier, q') \<Longrightarrow>
   \<exists>used. q = used @ q' \<and> batch = b @ events_of used \<and> (\<forall>p i. barrier = Some (p, i) \<longrightarrow> (\<exists>u. used = u @ [BarrierCmd p i]))"
proof (induction n b q arbitrary: batch barrier q' rule: collect.induct)
  case (3 n b cmd q)
  show ?case
  proof (cases "length b \<ge> 2048")
    case True
    with "3.prems" show ?thesis by (intro exI [of _ "[]"]) auto
  next
    case False
    show ?thesis
    proof (cases cmd)
      case (EventCmd e)
      with "3.prems" False have "collect n (b @ [e]) q = (batch, barrier, q')" by simp
      from "3.IH" [OF False EventCmd this] obtain used where "q = used @ q'" "batch = (b @ [e]) @ events_of used"
        "\<forall>p i. barrier = Some (p, i) \<longrightarrow> (\<exists>u. used = u @ [BarrierCmd p i])" by blast
      with EventCmd show ?thesis by (intro exI [of _ "EventCmd e # used"]) auto
    next
      case (BarrierCmd p i)
      with "3.prems" False show ?thesis by (intro exI [of _ "[BarrierCmd p i]"]) auto
    qed
  qed
qed auto

lemma receive_facts:
  assumes "receive_batch n q = (batch, barrier, q')"
  shows "\<exists>used. q = used @ q' \<and> batch = events_of used \<and> (\<forall>p i. barrier = Some (p, i) \<longrightarrow> (\<exists>u. used = u @ [BarrierCmd p i]))"
proof (cases q)
  case (Cons cmd rest)
  show ?thesis
  proof (cases cmd)
    case (EventCmd e)
    with assms Cons have "collect n [e] rest = (batch, barrier, q')" by (simp add: receive_batch_def)
    from collect_facts [OF this] obtain used where "rest = used @ q'" "batch = [e] @ events_of used"
      "\<forall>p i. barrier = Some (p, i) \<longrightarrow> (\<exists>u. used = u @ [BarrierCmd p i])" by blast
    with EventCmd Cons show ?thesis by (intro exI [of _ "EventCmd e # used"]) auto
  next
    case (BarrierCmd p i)
    with assms Cons show ?thesis by (intro exI [of _ "[BarrierCmd p i]"]) (auto simp: receive_batch_def)
  qed
qed (use assms in \<open>auto simp: receive_batch_def\<close>)

lemma writer_receive_log:
  assumes "log_ok s" and w: "pl_writer s = Receiving"
  shows "log_ok (writer_receive n s)"
proof -
  obtain batch barrier q where b: "receive_batch n (pl_queue s) = (batch, barrier, q)" by (metis prod_cases3)
  obtain new where n: "pl_queue s = new @ q" "batch = events_of new" "\<forall>p i. barrier = Some (p, i) \<longrightarrow> (\<exists>u. new = u @ [BarrierCmd p i])"
    using receive_facts [OF b] by blast
  define t where "t = writer_receive n s"
  have t: "pl_log t = pl_log s" "pl_queue t = q" "pl_writer t = Appending batch barrier" "pl_base t = pl_base s"
    "pl_batches t = pl_batches s" "pl_durable t = pl_durable s" "pl_waiters t = pl_waiters s" "pl_replies t = pl_replies s" "since t = since s"
    "retired t = retired s"
    using b by (simp_all add: t_def writer_receive_def since_def retired_def first_kept_def cong: projector_phase.case_cong)
  obtain used where u: "pl_log s = used @ pl_queue s" "events_of used = concat (since s)"
    using assms by (auto simp: log_ok_def in_flight_def)
  have "barrier_at (pl_log s) p i (concat (since s) @ batch)" if "barrier = Some (p, i)" for p i
  proof -
    from that n (3) obtain v where v: "new = v @ [BarrierCmd p i]" by blast
    then have l: "pl_log s = (used @ v) @ BarrierCmd p i # q" using u (1) n (1) by simp
    moreover have "places_ok (pl_log s)" using assms (1) by (simp add: log_ok_def)
    ultimately have "i = length (used @ v)" unfolding places_ok_def by (metis length_append less_add_Suc1 list.size (4) nth_append_length add_Suc_right)
    then show ?thesis using l n (2) v u (2) by (simp add: barrier_at_def nth_append)
  qed
  then have "barrier_due t" by (auto simp: barrier_due_def t split: option.splits)
  moreover have "pl_log t = (used @ new) @ pl_queue t" "events_of (used @ new) = concat (since t) @ in_flight (pl_writer t)"
    using u n by (simp_all add: t in_flight_def)
  moreover have "waiter_ok t = waiter_ok s" "reply_ok t = reply_ok s" by (simp_all add: waiter_ok_def reply_ok_def t fun_eq_iff)
  ultimately show ?thesis using assms (1) unfolding t_def [symmetric] log_ok_def t by fastforce
qed

text \<open>The writer comes back to its queue with nothing in flight.\<close>

lemma writer_idle_log:
  assumes "log_ok s" and w: "pl_writer s = Appending b barrier \<or> pl_writer s = Publishing b barrier"
    and same: "pl_log t = pl_log s" "pl_queue t = pl_queue s" "pl_base t = pl_base s" "pl_waiters t = pl_waiters s" "pl_replies t = pl_replies s"
    "pl_writer t = Receiving"
    and grow: "pl_batches t = pl_batches s @ new" "pl_durable t = pl_durable s + length new" "retired t = retired s" "concat new = b"
  shows "log_ok t" and "barrier = Some (p, i) \<Longrightarrow> barrier_at (pl_log t) p i (concat (since t))"
proof -
  have base: "pl_base s \<le> length (pl_batches s)" using assms (1) by (simp add: log_ok_def)
  then have si: "since t = since s @ new" by (simp add: since_def same grow)
  have len: "length (since s) + pl_base s = length (pl_batches s)" using base by (simp add: since_def)
  have "waiter_ok t x" if "waiter_ok s x" for x
  proof -
    from that obtain m where m: "fst x + length (pl_batches s) = pl_base s + m + pl_durable s" "fst x \<le> pl_durable s"
      "barrier_at (pl_log s) True (snd x) (concat (take m (since s)))" by (auto simp: waiter_ok_def)
    then have "m \<le> length (since s)" using len by simp
    with m show ?thesis unfolding waiter_ok_def same grow si by (intro exI [of _ m]) simp
  qed
  moreover have "reply_ok t j" if "reply_ok s j" for j
  proof -
    from that obtain m q where m: "pl_base s + m \<le> length (pl_batches s)" "barrier_at (pl_log s) q j (concat (take m (since s)))"
      "q \<longrightarrow> pl_base s + m \<le> retired s" by (auto simp: reply_ok_def)
    then have "m \<le> length (since s)" using len by simp
    with m show ?thesis unfolding reply_ok_def same grow (1, 3) si by (intro exI [of _ m] exI [of _ q]) simp
  qed
  moreover obtain used where "pl_log s = used @ pl_queue s" "events_of used = concat (since s) @ b"
    using assms (1) w by (auto simp: log_ok_def in_flight_def)
  ultimately show "log_ok t"
    using assms (1) base unfolding log_ok_def same grow (1)
    by (auto simp: list_all_iff in_flight_def barrier_due_def same si grow (4))
  show "barrier = Some (p, i) \<Longrightarrow> barrier_at (pl_log t) p i (concat (since t))"
    using assms (1) w by (auto simp: log_ok_def barrier_due_def same si grow (4))
qed

lemma answer_barrier_log:
  assumes "log_ok t" and "\<And>p i. barrier = Some (p, i) \<Longrightarrow> barrier_at (pl_log t) p i (concat (since t))" and "n = pl_durable t"
  shows "log_ok (answer_barrier n barrier t)"
proof (cases barrier)
  case (Some v)
  then obtain p i where v: "barrier = Some (p, i)" by (cases v) auto
  define u where "u = answer_barrier n barrier t"
  have u: "pl_log u = pl_log t" "pl_queue u = pl_queue t" "pl_writer u = pl_writer t" "pl_base u = pl_base t" "pl_batches u = pl_batches t"
    "pl_durable u = pl_durable t" "retired u = retired t"
    by (simp_all add: u_def answer_barrier_frame retired_def first_kept_def cong: projector_phase.case_cong)
  then have su: "since u = since t" by (simp add: since_def)
  have e: "waiter_ok u = waiter_ok t" "reply_ok u = reply_ok t" "barrier_due u = barrier_due t"
    unfolding waiter_ok_def reply_ok_def barrier_due_def u su by (rule refl)+
  have base: "pl_base t \<le> length (pl_batches t)" using assms (1) by (simp add: log_ok_def)
  have all: "take (length (since t)) (since t) = since t" by simp
  have b: "barrier_at (pl_log t) p i (concat (since t))" by (rule assms (2) [OF v])
  have "list_all (waiter_ok t) (pl_waiters u) \<and> (\<forall>j. (j, True) \<in> set (pl_replies u) \<longrightarrow> reply_ok t j)"
  proof (cases p)
    case True
    then have "waiter_ok t (n, i)"
      using b base unfolding waiter_ok_def by (intro exI [of _ "length (since t)"]) (simp add: assms (3) since_def)
    then show ?thesis using assms (1) True by (auto simp: u_def answer_barrier_def v log_ok_def)
  next
    case False
    then have "reply_ok t i"
      using b base unfolding reply_ok_def by (intro exI [of _ "length (since t)"] exI [of _ p]) (simp add: since_def)
    then show ?thesis using assms (1) False by (auto simp: u_def answer_barrier_def v log_ok_def)
  qed
  then show ?thesis using assms (1) unfolding u_def [symmetric] log_ok_def e u su by blast
qed (use assms (1) in \<open>simp add: answer_barrier_def\<close>)

lemma writer_stop_log:
  assumes "log_ok s" and same: "pl_log t = pl_log s" "pl_queue t = pl_queue s" "pl_base t = pl_base s" "pl_waiters t = pl_waiters s"
    "pl_replies t = pl_replies s" "pl_writer t = WriterStopped" "pl_batches t = pl_batches s" "pl_durable t = pl_durable s" "retired t = retired s"
  shows "log_ok t"
proof -
  have si: "since t = since s" by (simp add: since_def same)
  have e: "waiter_ok t = waiter_ok s" "reply_ok t = reply_ok s" unfolding waiter_ok_def reply_ok_def same si by (rule refl)+
  from assms (1) show ?thesis unfolding log_ok_def e same si by (auto simp: barrier_due_def same)
qed

lemma retired_same:
  "pl_projector t = pl_projector s \<Longrightarrow> pl_sequence t = pl_sequence s \<Longrightarrow> pl_batches t = pl_batches s \<Longrightarrow> pl_durable t = pl_durable s \<Longrightarrow>
   retired t = retired s"
  by (simp add: retired_def first_kept_def cong: projector_phase.case_cong)

lemma writer_append_log:
  assumes "log_ok s" "counters_ok s" and w: "pl_writer s = Appending batch barrier"
  shows "log_ok (writer_append c io u batch barrier s)"
proof (cases "batch = []")
  case True
  let ?t = "s\<lparr>pl_writer := Receiving\<rparr>"
  have "retired ?t = retired s" by (rule retired_same) simp_all
  with writer_idle_log [OF assms (1) disjI1 [OF w], of ?t "[]"] True
  have "log_ok ?t" "\<And>p i. barrier = Some (p, i) \<Longrightarrow> barrier_at (pl_log ?t) p i (concat (since ?t))" by simp_all
  then have "log_ok (answer_barrier (pl_next s - 1) barrier ?t)"
    by (rule answer_barrier_log) (use assms (2) in \<open>simp_all add: counters_ok_def\<close>)
  then show ?thesis using True by (simp add: writer_append_def)
next
  case False
  obtain res sp where sp: "spool_append c io u (pl_next s) batch (pl_spool s) = (res, sp)" by fastforce
  show ?thesis
  proof (cases res)
    case (Inl e)
    have "retired (s\<lparr>pl_spool := sp, pl_writer := WriterStopped\<rparr>) = retired s" by (rule retired_same) simp_all
    then have "log_ok (s\<lparr>pl_spool := sp, pl_writer := WriterStopped\<rparr>)" by (intro writer_stop_log [OF assms (1)]) simp_all
    then show ?thesis using sp False Inl by (simp add: writer_append_def)
  next
    case (Inr v)
    define t where "t = s\<lparr>pl_spool := sp, pl_writer := Publishing batch barrier\<rparr>"
    have r: "retired t = retired s" by (rule retired_same) (simp_all add: t_def)
    have si: "since t = since s" by (simp add: since_def t_def)
    have e: "waiter_ok t = waiter_ok s" "reply_ok t = reply_ok s" by (simp_all add: waiter_ok_def reply_ok_def r si fun_eq_iff) (simp_all add: t_def)
    have tw: "pl_writer t = Publishing batch barrier" "pl_log t = pl_log s" by (simp_all add: t_def)
    have "barrier_due t" using assms (1) w by (simp add: log_ok_def barrier_due_def si tw)
    with assms (1) w have "log_ok t" unfolding log_ok_def e si by (simp add: t_def in_flight_def)
    then show ?thesis using sp False Inr by (simp add: writer_append_def t_def)
  qed
qed

lemma writer_publish_log:
  assumes "log_ok s" "counters_ok s" and w: "pl_writer s = Publishing batch barrier"
  shows "log_ok (writer_publish batch barrier s)"
proof -
  define t where "t = s\<lparr>pl_durable := pl_next s, pl_next := pl_next s + 1, pl_writer := Receiving, pl_batches := pl_batches s @ [batch]\<rparr>"
  have n: "pl_next s = Suc (pl_durable s)" using assms (2) by (simp add: counters_ok_def)
  have "first_kept t = first_kept s" by (simp add: t_def first_kept_def cong: projector_phase.case_cong)
  then have "retired t = retired s" by (simp add: retired_def) (simp add: t_def n)
  with writer_idle_log [OF assms (1) disjI2 [OF w], of t "[batch]"] n
  have "log_ok t" "\<And>p i. barrier = Some (p, i) \<Longrightarrow> barrier_at (pl_log t) p i (concat (since t))" by (simp_all add: t_def)
  then have "log_ok (answer_barrier (pl_next s) barrier t)" by (rule answer_barrier_log) (simp_all add: t_def)
  then show ?thesis by (simp add: writer_publish_def t_def)
qed

lemma waiter_check_log:
  assumes "log_ok s" "counters_ok s" and "w \<in> set (pl_waiters s)"
  shows "log_ok (waiter_check w s)"
proof -
  obtain n i where w: "w = (n, i)" by (cases w)
  define t where "t = waiter_check w s"
  have t: "pl_log t = pl_log s" "pl_queue t = pl_queue s" "pl_writer t = pl_writer s" "pl_base t = pl_base s" "pl_batches t = pl_batches s"
    "pl_durable t = pl_durable s" "pl_projector t = pl_projector s" "pl_sequence t = pl_sequence s" "set (pl_waiters t) \<subseteq> set (pl_waiters s)"
    by (auto simp: t_def waiter_check_def w dest: set_remove1_subset [THEN subsetD])
  have r: "retired t = retired s" by (rule retired_same) (simp_all add: t)
  have si: "since t = since s" by (simp add: since_def t)
  have e: "waiter_ok t = waiter_ok s" "reply_ok t = reply_ok s" "barrier_due t = barrier_due s"
    unfolding waiter_ok_def reply_ok_def barrier_due_def t r si by (rule refl)+
  have "reply_ok s i" if "pl_projected s \<ge> n"
  proof -
    have "waiter_ok s (n, i)" using assms (1, 3) w by (auto simp: log_ok_def list_all_iff)
    then obtain m where m: "n + length (pl_batches s) = pl_base s + m + pl_durable s" "n \<le> pl_durable s"
      "barrier_at (pl_log s) True i (concat (take m (since s)))" by (auto simp: waiter_ok_def)
    have "pl_sequence s \<le> first_kept s" by (simp add: first_kept_def split: projector_phase.splits)
    then have "pl_base s + m \<le> retired s" using m (1) that assms (2) by (simp add: retired_def counters_ok_def)
    then show ?thesis using m kept_facts (1) [OF assms (2)] unfolding reply_ok_def by (intro exI [of _ m] exI [of _ True]) simp
  qed
  then have "\<forall>j. (j, True) \<in> set (pl_replies t) \<longrightarrow> reply_ok s j"
    using assms (1) by (auto simp: t_def waiter_check_def w log_ok_def split: if_splits)
  moreover have "list_all (waiter_ok s) (pl_waiters t)" using assms (1) t (9) by (auto simp: log_ok_def list_all_iff)
  ultimately show ?thesis using assms (1) unfolding t_def [symmetric] log_ok_def e t si by blast
qed

subsection \<open>Reachable states\<close>

definition pipeline_ok :: "event_codec \<Rightarrow> nat \<Rightarrow> pipeline \<Rightarrow> bool" where
  "pipeline_ok c mx s \<longleftrightarrow> spool_ok c mx s \<and> log_ok s"

lemma start_log: "log_ok (start_pipeline sp B ins)"
  by (simp add: start_pipeline_def Let_def log_ok_def places_ok_def since_def in_flight_def barrier_due_def)

lemma sink_frame:
  assumes "spool_ok c mx s"
  shows "spool_ok c mx (sink_command connected cmd s)"
  by (rule spool_ok_frame [OF assms]) (simp_all add: sink_command_def publishing_def)

lemma projector_frame:
  assumes "log_ok s" and same: "pl_log s' = pl_log s" "pl_queue s' = pl_queue s" "pl_writer s' = pl_writer s" "pl_base s' = pl_base s"
    "pl_batches s' = pl_batches s" "pl_durable s' = pl_durable s" "pl_waiters s' = pl_waiters s" "pl_replies s' = pl_replies s"
    and "first_kept s \<le> first_kept s'"
  shows "log_ok s'"
  using assms (10) by (intro log_frame [OF assms (1) same]) (simp add: retired_def same)

lemma projector_log:
  assumes "log_ok s"
  shows "pl_projector s = Polling \<Longrightarrow> log_ok (projector_poll c s)"
    "pl_projector s = Projecting b \<Longrightarrow> log_ok (projector_insert a b s)"
    "pl_projector s = Retiring b \<Longrightarrow> log_ok (projector_retire io b s)"
    "pl_projector s = Retired b \<Longrightarrow> log_ok (projector_store b s)"
proof -
  assume p: "pl_projector s = Polling"
  show "log_ok (projector_poll c s)"
    by (rule projector_frame [OF assms]) (simp_all add: projector_poll_def first_kept_def p split: sum.split)
next
  assume p: "pl_projector s = Projecting b"
  show "log_ok (projector_insert a b s)"
    by (rule projector_frame [OF assms]) (simp_all add: projector_insert_def first_kept_def p Let_def)
next
  assume p: "pl_projector s = Retiring b"
  obtain res sp where r: "spool_remove io (path_for_sequence (pl_sequence s)) (pl_spool s) = (res, sp)" by fastforce
  show "log_ok (projector_retire io b s)"
    by (rule projector_frame [OF assms]; cases res) (simp_all add: projector_retire_def first_kept_def p r)
next
  assume p: "pl_projector s = Retired b"
  show "log_ok (projector_store b s)"
    by (rule projector_frame [OF assms]) (simp_all add: projector_store_def first_kept_def p)
qed

lemma step_ok:
  assumes "codec_law c" "0 < mx" "mx < u64_max" and "pipeline_step c s s'" and "pipeline_ok c mx s" and "length (pl_batches s) < u64_max"
  shows "pipeline_ok c mx s'"
proof -
  have x: "spool_ok c mx s" "log_ok s" "counters_ok s" using assms (5) by (auto simp: pipeline_ok_def spool_ok_def)
  show ?thesis
    using assms (4)
  proof cases
    case Send
    then show ?thesis
      using sink_frame [OF x (1)] by (auto simp: pipeline_ok_def sink_event_def intro: sink_command_ok [OF x (2)])
  next
    case Barrier
    then show ?thesis
      using sink_frame [OF x (1)] by (auto simp: pipeline_ok_def sink_barrier_def intro: sink_command_ok [OF x (2)])
  next
    case (Receive n)
    have "spool_ok c mx (writer_receive n s)"
      by (rule spool_ok_frame [OF x (1)])
        (use Receive in \<open>auto simp: writer_receive_def publishing_def extra_ok_def split: prod.splits\<close>)
    then show ?thesis using Receive writer_receive_log [OF x (2)] by (simp add: pipeline_ok_def)
  next
    case Disconnect
    have "retired (s\<lparr>pl_writer := WriterStopped\<rparr>) = retired s" by (rule retired_same) simp_all
    then have "log_ok (s\<lparr>pl_writer := WriterStopped\<rparr>)" by (intro writer_stop_log [OF x (2)]) simp_all
    moreover have "spool_ok c mx (s\<lparr>pl_writer := WriterStopped\<rparr>)"
      by (rule spool_ok_frame [OF x (1)]) (use Disconnect in \<open>simp_all add: publishing_def extra_ok_def\<close>)
    ultimately show ?thesis using Disconnect by (simp add: pipeline_ok_def)
  next
    case (Append batch barrier io u)
    then show ?thesis using writer_append_ok [OF x (1) Append (2) assms (3)] writer_append_log [OF x (2, 3) Append (2)] by (simp add: pipeline_ok_def)
  next
    case (Publish batch barrier)
    then show ?thesis using writer_publish_ok [OF x (1)] writer_publish_log [OF x (2, 3)] by (simp add: pipeline_ok_def)
  next
    case Poll
    then show ?thesis using projector_poll_ok [OF assms (1) x (1)] projector_log [OF x (2)] by (simp add: pipeline_ok_def)
  next
    case (Insert batch answer)
    then show ?thesis using projector_insert_ok [OF x (1)] projector_log [OF x (2)] by (simp add: pipeline_ok_def)
  next
    case (Retire batch io)
    then show ?thesis using projector_retire_ok [OF x (1)] projector_log [OF x (2)] by (simp add: pipeline_ok_def)
  next
    case (Store batch)
    then show ?thesis using projector_store_ok [OF x (1)] projector_log [OF x (2)] by (simp add: pipeline_ok_def)
  next
    case (Wait w)
    have "spool_ok c mx (waiter_check w s)"
      by (rule spool_ok_frame [OF x (1)]) (auto simp: waiter_check_def publishing_def split: prod.splits)
    then show ?thesis using Wait waiter_check_log [OF x (2, 3)] by (simp add: pipeline_ok_def)
  next
    case Shutdown
    have "retired (s\<lparr>pl_shutdown := True\<rparr>) = retired s" by (rule retired_same) simp_all
    then have "log_ok (s\<lparr>pl_shutdown := True\<rparr>)" by (intro log_frame [OF x (2)]) simp_all
    moreover have "spool_ok c mx (s\<lparr>pl_shutdown := True\<rparr>)"
      by (rule spool_ok_frame [OF x (1)]) (simp_all add: publishing_def)
    ultimately show ?thesis using Shutdown by (simp add: pipeline_ok_def)
  next
    case (Restart dir)
    from restart_ok [OF assms (1) x (1) Restart (1) assms (2, 3, 6)] obtain sp cs where
      "restart_pipeline c dir s = Inr (start_pipeline sp (pl_batches s @ cs) (pl_inserted s))"
      "spool_ok c mx (start_pipeline sp (pl_batches s @ cs) (pl_inserted s))" by blast
    then show ?thesis using Restart (2) start_log by (simp add: pipeline_ok_def)
  qed
qed

lemma step_grows:
  assumes "pipeline_step c s s'"
  shows "length (pl_batches s) \<le> length (pl_batches s')"
  using assms
proof cases
  case (Append batch barrier io u)
  then show ?thesis by (auto simp: writer_append_def answer_barrier_frame split: prod.split sum.split)
next
  case (Restart dir)
  then show ?thesis by (auto simp: restart_pipeline_def start_pipeline_def Let_def split: sum.splits)
next
  case (Wait w)
  then show ?thesis by (cases w) (simp add: waiter_check_def)
next
  case (Retire b io)
  then show ?thesis by (simp add: projector_retire_def split: prod.split sum.split)
next
  case Poll
  then show ?thesis by (simp add: projector_poll_def split: sum.split)
next
  case (Receive n)
  then show ?thesis by (simp add: writer_receive_def split: prod.split)
qed (simp_all add: sink_event_def sink_barrier_def sink_command_def writer_publish_def answer_barrier_frame
    projector_insert_def projector_store_def Let_def)

lemma start_ok: "open_spool mx [] = Inr sp \<Longrightarrow> pipeline_ok c mx (start_pipeline sp [] [])"
proof -
  assume "open_spool mx [] = Inr sp"
  then have sp: "sp = \<lparr>sp_dir = [], sp_synced = [], sp_max_bytes = mx, sp_bytes = 0\<rparr>"
    by (auto simp: open_spool_def list_entries_def List.map_filter_def Let_def split: if_splits)
  have "dir_range c 1 [] False None True []" by (simp add: dir_range_def lacks_def names_within_def)
  then have "spool_ok c mx (start_pipeline sp [] [])"
    by (intro start_empty) (simp_all add: sp list_entries_def List.map_filter_def repeats.Nothing)
  then show ?thesis using start_log by (simp add: pipeline_ok_def)
qed

lemma reaches_ok:
  assumes "codec_law c" "mx < u64_max" and "pipeline_reaches c mx s" and "length (pl_batches s) < u64_max"
  shows "pipeline_ok c mx s \<and> 0 < mx"
  using assms (3, 4)
proof (induction rule: pipeline_reaches.induct)
  case (Start sp)
  then have "0 < mx" by (cases "mx = 0") (simp_all add: open_spool_def)
  then show ?case using start_ok [OF Start (1)] by simp
next
  case (Step s s')
  then have "pipeline_ok c mx s" "0 < mx" "length (pl_batches s) < u64_max" using step_grows [OF Step (2)] by auto
  then show ?case using step_ok [OF assms (1) _ assms (2) Step (2)] by simp
qed

subsection \<open>What the pipeline promises\<close>

text \<open>C17: Metadata is not lost and ClickHouse sees it in order. However writer, projector and producers interleave, whatever
  file operations and insertions fail, and after any number of crashes: a crash at any moment leaves a spool that opens,
  within its quota, and every batch ever published is acknowledged by ClickHouse or found in the reopened spool. The
  acknowledged batches are the oldest ones in order, each once or several times in a row, the batches in the spool
  are the newest ones in order, and at most one batch is both.\<close>

theorem metadata_survives:
  assumes "codec_law c" "mx < u64_max" and "pipeline_reaches c mx s" "length (pl_batches s) < u64_max" and "crash_dir (pl_spool s) dir"
  shows "\<exists>s' new d e. restart_pipeline c dir s = Inr s' \<and> pl_batches s' = pl_batches s @ new \<and> length new \<le> 1 \<and>
    sp_bytes (pl_spool s') \<le> mx \<and> repeats (take d (pl_batches s)) (pl_inserted s) \<and> d \<le> length (pl_batches s) \<and>
    batches_beyond c 0 (pl_spool s') = drop e (pl_batches s') \<and> e \<le> d \<and> d \<le> Suc e"
proof -
  have r: "spool_ok c mx s" "0 < mx" using reaches_ok [OF assms (1 - 4)] by (auto simp: pipeline_ok_def)
  then have x: "counters_ok s" "projector_ok s" by (auto simp: spool_ok_def)
  from restart_ok [OF assms (1) r (1) assms (5) r (2) assms (2, 4)] obtain sp a cs where
    cs: "restart_pipeline c dir s = Inr (start_pipeline sp (pl_batches s @ cs) (pl_inserted s))" "length cs \<le> 1" "sp_bytes sp \<le> mx"
    and b: "batches_beyond c 0 sp = drop (retired s + a) (pl_batches s @ cs)" "a \<le> 1" "a = 1 \<Longrightarrow> head_inserted s" by blast
  define d where "d = (if head_inserted s then Suc (retired s) else retired s)"
  have "repeats (take d (pl_batches s)) (pl_inserted s) \<and> d \<le> length (pl_batches s)"
  proof (cases "head_inserted s")
    case True
    then have "retired s < length (pl_batches s)" "repeats (take (retired s) (pl_batches s) @ [pl_batches s ! retired s]) (pl_inserted s)"
      by (auto simp: head_inserted_def kept_def hd_drop_conv_nth)
    with True show ?thesis by (simp add: d_def take_Suc_conv_app_nth)
  next
    case False
    then show ?thesis using x (2) kept_facts (1) [OF x (1)] by (simp add: d_def projector_ok_def)
  qed
  moreover have "retired s + a \<le> d" "d \<le> Suc (retired s + a)" using b (2, 3) by (auto simp: d_def le_Suc_eq)
  ultimately show ?thesis
    using cs b (1)
    by (intro exI [of _ "start_pipeline sp (pl_batches s @ cs) (pl_inserted s)"] exI [of _ cs] exI [of _ d] exI [of _ "retired s + a"])
      (simp add: start_pipeline_def Let_def)
qed

text \<open>C18: A barrier is answered truthfully. If a barrier got the answer that it is done, all events the channel took before it,
  in the order it took them, are the first batches published since the start, so they survive; and for a projected barrier
  ClickHouse has acknowledged every one of these batches.\<close>

theorem barrier_truthful:
  assumes "codec_law c" "mx < u64_max" and "pipeline_reaches c mx s" "length (pl_batches s) < u64_max" and "(i, True) \<in> set (pl_replies s)"
  shows "\<exists>m p d. pl_log s ! i = BarrierCmd p i \<and> i < length (pl_log s) \<and>
    events_of (take i (pl_log s)) = concat (take m (drop (pl_base s) (pl_batches s))) \<and> pl_base s + m \<le> length (pl_batches s) \<and>
    repeats (take d (pl_batches s)) (pl_inserted s) \<and> (p \<longrightarrow> pl_base s + m \<le> d)"
proof -
  have r: "spool_ok c mx s" "log_ok s" using reaches_ok [OF assms (1 - 4)] by (auto simp: pipeline_ok_def)
  then have x: "counters_ok s" "projector_ok s" by (auto simp: spool_ok_def)
  obtain m p where m: "pl_base s + m \<le> length (pl_batches s)" "barrier_at (pl_log s) p i (concat (take m (since s)))" "p \<longrightarrow> pl_base s + m \<le> retired s"
  proof -
    have "reply_ok s i" using r (2) assms (5) by (simp add: log_ok_def)
    then show ?thesis using that by (auto simp: reply_ok_def)
  qed
  obtain d where d: "retired s \<le> d" "repeats (take d (pl_batches s)) (pl_inserted s)"
  proof (cases "head_inserted s")
    case True
    then have "retired s < length (pl_batches s)" "repeats (take (retired s) (pl_batches s) @ [pl_batches s ! retired s]) (pl_inserted s)"
      by (auto simp: head_inserted_def kept_def hd_drop_conv_nth)
    then show ?thesis using that [of "Suc (retired s)"] by (simp add: take_Suc_conv_app_nth)
  next
    case False
    then show ?thesis using that [of "retired s"] x (2) by (simp add: projector_ok_def)
  qed
  show ?thesis
    using m d by (intro exI [of _ m] exI [of _ p] exI [of _ d]) (auto simp: barrier_at_def since_def)
qed

text \<open>One batch through the projector when ClickHouse and the file system answer well.\<close>

definition project_batch :: "event_codec \<Rightarrow> pipeline \<Rightarrow> pipeline" where
  "project_batch c s =
     (let s = projector_poll c s in
      case pl_projector s of
        Projecting b \<Rightarrow> projector_store b (projector_retire RemoveDone b (projector_insert Inserted b s))
      | _ \<Rightarrow> s)"

lemma project_batch_ok:
  assumes "codec_law c" "spool_ok c mx s" and p: "pl_projector s = Polling" "\<not> pl_shutdown s" "pl_projected s < pl_durable s"
  shows "spool_ok c mx (project_batch c s) \<and> pl_projector (project_batch c s) = Polling \<and> \<not> pl_shutdown (project_batch c s) \<and>
    pl_projected (project_batch c s) = Suc (pl_projected s) \<and> pl_durable (project_batch c s) = pl_durable s \<and>
    pl_batches (project_batch c s) = pl_batches s \<and> (pipeline_step c)\<^sup>*\<^sup>* s (project_batch c s)"
proof -
  have x: "counters_ok s" "\<not> lacking s" using assms (2) p by (auto simp: spool_ok_def lacking_def)
  have f: "first_kept s = pl_sequence s" by (simp add: first_kept_def p)
  have q: "pl_sequence s \<le> pl_durable s" using x (1) p (3) by (simp add: counters_ok_def)
  then have k: "kept s \<noteq> []" using kept_facts (2) [OF x (1)] f by auto
  obtain extra where d: "dir_range c (first_kept s) (kept s) False extra (publishing s) (sp_dir (pl_spool s))"
    using assms (2) x (2) by (auto simp: spool_ok_def dirs_ok_def)
  define b where "b = hd (kept s)"
  have rd: "spool_read c (path_for_sequence (pl_sequence s)) (pl_spool s) = Inr b"
    using range_hd [OF assms (1) d k] by (simp add: f b_def)
  define s1 where "s1 = s\<lparr>pl_projector := Projecting b\<rparr>"
  define s2 where "s2 = projector_insert Inserted b s1"
  define s3 where "s3 = projector_retire RemoveDone b s2"
  have e1: "projector_poll c s = s1" using rd p q by (simp add: projector_poll_def s1_def)
  have m: "map_of (sp_dir (pl_spool s)) (path_for_sequence (pl_sequence s)) \<noteq> None"
    using rd by (auto simp: spool_read_def split: option.splits)
  have s1: "pl_projector s1 = Projecting b" "\<not> pl_shutdown s1" by (simp_all add: s1_def p)
  have s2: "pl_projector s2 = Retiring b" by (simp add: s2_def projector_insert_def Let_def s1)
  have s3: "pl_projector s3 = Retired b" using m
    by (simp add: s3_def projector_retire_def s2_def projector_insert_def Let_def s1_def p spool_remove_def)
  have e: "project_batch c s = projector_store b s3" by (simp add: project_batch_def e1 Let_def s1 s2_def s3_def)
  have ok: "spool_ok c mx s1" "spool_ok c mx s2" "spool_ok c mx s3" "spool_ok c mx (projector_store b s3)"
    using projector_poll_ok [OF assms (1, 2) p (1)] e1 projector_insert_ok [OF _ s1 (1)] projector_retire_ok [OF _ s2] projector_store_ok [OF _ s3]
    by (simp_all add: s2_def s3_def)
  have st: "pipeline_step c s s1" "pipeline_step c s1 s2" "pipeline_step c s2 s3" "pipeline_step c s3 (projector_store b s3)"
    using pipeline_step.Poll [OF p (1), of c] e1 pipeline_step.Insert [OF s1 (1)] pipeline_step.Retire [OF s2] pipeline_step.Store [OF s3]
    by (simp_all add: s2_def s3_def)
  have fields: "pl_shutdown (projector_store b s3) = pl_shutdown s" "pl_projected (projector_store b s3) = pl_sequence s"
    "pl_durable (projector_store b s3) = pl_durable s" "pl_batches (projector_store b s3) = pl_batches s"
    using m by (simp_all add: projector_store_def s3_def projector_retire_def s2_def projector_insert_def Let_def s1_def p spool_remove_def)
  have "(pipeline_step c)\<^sup>*\<^sup>* s (projector_store b s3)" using st by (meson converse_rtranclp_into_rtranclp rtranclp.rtrancl_refl)
  then show ?thesis using ok (4) fields p x (1) unfolding e by (simp add: projector_store_def counters_ok_def)
qed

text \<open>C37: The projector catches up. From any reachable state in which it is waiting and not told to stop, as many rounds as there
  are unprojected batches bring it to the last published one, if ClickHouse and the file system answer well, and then
  ClickHouse has acknowledged every published batch.\<close>

theorem projector_catches_up:
  assumes "codec_law c" "mx < u64_max" and "pipeline_reaches c mx s" "length (pl_batches s) < u64_max"
    and "pl_projector s = Polling" "\<not> pl_shutdown s" and "s' = (project_batch c ^^ (pl_durable s - pl_projected s)) s"
  shows "(pipeline_step c)\<^sup>*\<^sup>* s s' \<and> pl_projected s' = pl_durable s' \<and> pl_batches s' = pl_batches s \<and> repeats (pl_batches s') (pl_inserted s')"
proof -
  have r: "spool_ok c mx s" using reaches_ok [OF assms (1 - 4)] by (auto simp: pipeline_ok_def)
  have "spool_ok c mx t \<and> pl_projector t = Polling \<and> \<not> pl_shutdown t \<and> pl_projected t = pl_durable t \<and>
      pl_batches t = pl_batches u \<and> (pipeline_step c)\<^sup>*\<^sup>* u t"
    if "spool_ok c mx u" "pl_projector u = Polling" "\<not> pl_shutdown u" "pl_durable u - pl_projected u = n" "t = (project_batch c ^^ n) u" for n u t
    using that
  proof (induction n arbitrary: u)
    case 0
    then have "pl_projected u = pl_durable u" by (auto simp: spool_ok_def counters_ok_def first_kept_def)
    with 0 show ?case by simp
  next
    case (Suc n)
    let ?v = "project_batch c u"
    have v: "spool_ok c mx ?v \<and> pl_projector ?v = Polling \<and> \<not> pl_shutdown ?v \<and> pl_projected ?v = Suc (pl_projected u) \<and>
        pl_durable ?v = pl_durable u \<and> pl_batches ?v = pl_batches u \<and> (pipeline_step c)\<^sup>*\<^sup>* u ?v"
      using Suc.prems by (intro project_batch_ok [OF assms (1)]) auto
    have "t = (project_batch c ^^ n) ?v" using Suc.prems (5) by (simp add: funpow_swap1)
    with v Suc.IH [of ?v] Suc.prems (4) show ?case by (auto intro: rtranclp_trans)
  qed
  from this [OF r assms (5, 6) refl assms (7)]
  have t: "spool_ok c mx s'" "pl_projector s' = Polling" "pl_projected s' = pl_durable s'" "pl_batches s' = pl_batches s" "(pipeline_step c)\<^sup>*\<^sup>* s s'"
    by auto
  then have x: "counters_ok s'" "projector_ok s'" by (auto simp: spool_ok_def)
  then have "retired s' = length (pl_batches s')" using t (2, 3) by (simp add: retired_def first_kept_def counters_ok_def)
  then have "repeats (pl_batches s') (pl_inserted s')" using x (2) by (simp add: projector_ok_def head_inserted_def kept_def)
  with t show ?thesis by simp
qed

end
