(* ===== verification/Metadata_Examples.thy ===== *)
theory Metadata_Examples
  imports Metadata_Log
begin

text \<open>
  A run of the metadata pipeline: an event and a projected barrier are sent, written, published and projected, and the
  barrier is answered. The codec writes repetitions of one event.
\<close>

definition sample_event :: metadata_event where
  "sample_event = MatchEvent \<lparr>mr_timestamp = (0, 0), mr_pattern_id = 1, mr_pattern_revision = 1, mr_flow_id = 2, mr_content_id = 3,
     mr_view = TcpRaw, mr_action = Find, mr_offset_start = 0, mr_offset_end = 4, mr_historical = False\<rparr>"

definition unary_codec :: event_codec where
  "unary_codec =
     \<lparr>ec_to_vec = (\<lambda>events. if list_all (\<lambda>e. e = sample_event) events then Some (replicate (length events) 1) else None),
      ec_from_slice = (\<lambda>bs. Some (replicate (length bs) sample_event))\<rparr>"

lemma unary_codec_law: "codec_law unary_codec"
  by (auto simp: codec_law_def unary_codec_def list_all_iff replicate_length_same)

definition sample_spool :: "spool_dir \<Rightarrow> nat \<Rightarrow> spool" where
  "sample_spool dir n = \<lparr>sp_dir = dir, sp_synced = dir, sp_max_bytes = 100, sp_bytes = n\<rparr>"

definition sample_start :: pipeline where
  "sample_start = start_pipeline (sample_spool [] 0) [] []"

definition sample_sent :: pipeline where
  "sample_sent = sink_barrier True (sink_event sample_event sample_start)"

definition sample_published :: pipeline where
  "sample_published = writer_publish [sample_event] (Some (True, 1))
     (writer_append unary_codec AppendDone ''u'' [sample_event] (Some (True, 1)) (writer_receive 5 sample_sent))"

definition sample_projected :: pipeline where
  "sample_projected = waiter_check (1, 1) (project_batch unary_codec sample_published)"

lemma sample_opens: "open_spool 100 [] = Inr (sample_spool [] 0)"
  by (simp add: open_spool_def list_entries_def List.map_filter_def sample_spool_def)

lemma sample_start_state:
  "sample_start = \<lparr>pl_spool = sample_spool [] 0, pl_queue = [], pl_durable = 0, pl_projected = 0, pl_shutdown = False, pl_writer = Receiving,
     pl_next = 1, pl_projector = Polling, pl_sequence = 1, pl_ready = False, pl_waiters = [], pl_replies = [], pl_live = [], pl_log = [],
     pl_batches = [], pl_base = 0, pl_inserted = []\<rparr>"
  by (simp add: sample_start_def start_pipeline_def max_sequence_def first_sequence_def list_entries_def List.map_filter_def sample_spool_def)

lemma sample_sent_state:
  "sample_sent = sample_start\<lparr>pl_queue := [EventCmd sample_event, BarrierCmd True 1], pl_log := [EventCmd sample_event, BarrierCmd True 1]\<rparr>"
  by (simp add: sample_sent_def sink_barrier_def sink_event_def sink_command_def sample_start_state)

lemma sample_received_state:
  "writer_receive 5 sample_sent = sample_sent\<lparr>pl_queue := [], pl_writer := Appending [sample_event] (Some (True, 1))\<rparr>"
  by (simp add: writer_receive_def sample_sent_state receive_batch_def numeral_eq_Suc)

lemma sample_appended_state:
  "writer_append unary_codec AppendDone ''u'' [sample_event] (Some (True, 1)) (writer_receive 5 sample_sent) =
   sample_sent\<lparr>pl_queue := [], pl_spool := sample_spool [(path_for_sequence 1, [1])] 1, pl_writer := Publishing [sample_event] (Some (True, 1))\<rparr>"
  unfolding sample_received_state
  by (simp add: writer_append_def spool_append_def unary_codec_def sample_sent_state sample_start_state sample_spool_def
      sat_add64_def Let_def)

lemma sample_published_state:
  "sample_published = sample_start\<lparr>pl_spool := sample_spool [(path_for_sequence 1, [1])] 1, pl_durable := 1, pl_next := 2,
     pl_waiters := [(1, 1)], pl_log := [EventCmd sample_event, BarrierCmd True 1], pl_batches := [[sample_event]]\<rparr>"
  unfolding sample_published_def sample_appended_state
  by (simp add: writer_publish_def answer_barrier_def sample_sent_state sample_start_state)

lemma sample_projected_state:
  "sample_projected = sample_published\<lparr>pl_spool := sample_spool [] 0, pl_projected := 1, pl_sequence := 2, pl_ready := True,
     pl_live := [event_flow_id sample_event], pl_inserted := [[sample_event]], pl_waiters := [], pl_replies := [(1, True)]\<rparr>"
  by (simp add: sample_projected_def waiter_check_def project_batch_def projector_poll_def projector_insert_def projector_retire_def
      projector_store_def spool_read_def spool_remove_def entry_len_def unary_codec_def sample_published_state sample_start_state sample_spool_def Let_def)

lemma sample_reaches: "pipeline_reaches unary_codec 100 sample_published" "pipeline_reaches unary_codec 100 sample_projected"
proof -
  note step = pipeline_reaches.Step
  have "pipeline_reaches unary_codec 100 sample_start"
    unfolding sample_start_def by (rule pipeline_reaches.Start [OF sample_opens])
  then have "pipeline_reaches unary_codec 100 sample_sent"
    unfolding sample_sent_def by (intro step [OF step [OF _ pipeline_step.Send] pipeline_step.Barrier])
  then have "pipeline_reaches unary_codec 100 (writer_receive 5 sample_sent)"
    by (rule step [OF _ pipeline_step.Receive]) (simp_all add: sample_sent_state sample_start_state)
  then have "pipeline_reaches unary_codec 100
      (writer_append unary_codec AppendDone ''u'' [sample_event] (Some (True, 1)) (writer_receive 5 sample_sent))"
    by (rule step [OF _ pipeline_step.Append]) (simp add: sample_received_state)
  then show p: "pipeline_reaches unary_codec 100 sample_published"
    unfolding sample_published_def by (rule step [OF _ pipeline_step.Publish]) (unfold sample_appended_state, simp)
  have "(pipeline_step unary_codec)\<^sup>*\<^sup>* sample_published (project_batch unary_codec sample_published)"
    using reaches_ok [OF unary_codec_law _ p] by (intro project_batch_ok [OF unary_codec_law, of 100, THEN conjunct2, THEN conjunct2, THEN conjunct2,
        THEN conjunct2, THEN conjunct2, THEN conjunct2]) (auto simp: pipeline_ok_def sample_published_state sample_start_state)
  then have "pipeline_reaches unary_codec 100 (project_batch unary_codec sample_published)" using p by (induction rule: rtranclp_induct) (auto intro: step)
  then show "pipeline_reaches unary_codec 100 sample_projected"
    unfolding sample_projected_def
    by (rule step [OF _ pipeline_step.Wait])
      (simp add: project_batch_def projector_poll_def projector_insert_def projector_retire_def
        projector_store_def spool_read_def spool_remove_def entry_len_def unary_codec_def sample_published_state sample_start_state sample_spool_def Let_def)
qed

theorem metadata_survives_witness:
  "\<exists>s' new d e. restart_pipeline unary_codec [(path_for_sequence 1, [1])] sample_published = Inr s' \<and> pl_batches s' = [[sample_event]] @ new \<and>
    length new \<le> 1 \<and> sp_bytes (pl_spool s') \<le> 100 \<and> repeats (take d [[sample_event]]) [] \<and> d \<le> 1 \<and>
    batches_beyond unary_codec 0 (pl_spool s') = drop e (pl_batches s') \<and> e \<le> d \<and> d \<le> Suc e"
proof -
  have "crash_dir (pl_spool sample_published) [(path_for_sequence 1, [1])]"
    by (simp add: crash_dir_def sample_published_state sample_spool_def)
  from metadata_survives [OF unary_codec_law _ sample_reaches (1) _ this] show ?thesis
    by (simp add: sample_published_state sample_start_state)
qed

theorem barrier_truthful_witness:
  "\<exists>m d. events_of (take 1 (pl_log sample_projected)) = concat (take m (drop (pl_base sample_projected) (pl_batches sample_projected))) \<and>
    repeats (take d (pl_batches sample_projected)) (pl_inserted sample_projected) \<and> pl_base sample_projected + m \<le> d"
proof -
  have "(1, True) \<in> set (pl_replies sample_projected)" "length (pl_batches sample_projected) < u64_max"
    "pl_log sample_projected ! 1 = BarrierCmd True 1"
    by (simp_all add: sample_projected_state sample_published_state sample_start_state)
  then show ?thesis using barrier_truthful [OF unary_codec_law _ sample_reaches (2), of 1] by auto
qed

theorem projector_catches_up_witness:
  "(pipeline_step unary_codec)\<^sup>*\<^sup>* sample_published ((project_batch unary_codec ^^ 1) sample_published) \<and>
   pl_projected ((project_batch unary_codec ^^ 1) sample_published) = pl_durable ((project_batch unary_codec ^^ 1) sample_published) \<and>
   pl_batches ((project_batch unary_codec ^^ 1) sample_published) = pl_batches sample_published \<and>
   repeats (pl_batches ((project_batch unary_codec ^^ 1) sample_published)) (pl_inserted ((project_batch unary_codec ^^ 1) sample_published))"
  by (rule projector_catches_up [OF unary_codec_law _ sample_reaches (1)])
    (simp_all add: sample_published_state sample_start_state)

end
