(* ===== verification/Startup.thy ===== *)
theory Startup
  imports Segment_Properties
begin

text \<open>
  Start-up of the storage, \<open>StorageRuntime::start\<close> of \<open>src/src/storage/mod.rs\<close>, from the opening of the segment
  store on: the index rows of the segment that was active at a crash, or of all segments when the recovery marker is
  not valid, are sent again and made durable before the store is used.
\<close>

subsection \<open>The code\<close>

definition send_barrier :: "seg_thread \<Rightarrow> seg_error + seg_thread" where
  "send_barrier s = (case sink_durable_barrier (st_sink s) of (Inl e, k) \<Rightarrow> Inl e | (Inr _, k) \<Rightarrow> Inr (s\<lparr>st_sink := k\<rparr>))"

definition recovery_marker_bytes :: bytes where
  "recovery_marker_bytes = [118, 50, 10]"

definition recovery_marker_valid :: "path \<Rightarrow> file_system \<Rightarrow> bool" where
  "recovery_marker_valid p fs = (case map_of fs p of None \<Rightarrow> False | Some f \<Rightarrow> f_data f = recovery_marker_bytes)"

definition write_recovery_marker :: "path \<Rightarrow> file_system \<Rightarrow> file_system" where
  "write_recovery_marker p fs = AList.update p \<lparr>f_data = recovery_marker_bytes, f_synced = length recovery_marker_bytes\<rparr> fs"

definition recovery_marker :: "seg_config \<Rightarrow> path" where
  "recovery_marker cfg = cfg_root cfg @ [''.content-index-recovery-v2'']"

definition recover_index ::
  "(bytes \<Rightarrow> u32) \<Rightarrow> seg_config \<Rightarrow> bool \<Rightarrow> path option \<Rightarrow> seg_thread \<Rightarrow> seg_error + seg_thread" where
  "recover_index crc cfg requires_full_index_recovery recovery_segment s =
     (if requires_full_index_recovery then
        (case flush_and_publish False s of (reply, s) \<Rightarrow>
          (case rebuild_index crc cfg reply (st_fs s) (st_sink s) of
             (Inl e, k) \<Rightarrow> Inl e
           | (Inr _, k) \<Rightarrow> and_then (send_barrier (s\<lparr>st_sink := k\<rparr>))
               (\<lambda>s. Inr (s\<lparr>st_fs := write_recovery_marker (recovery_marker cfg) (st_fs s)\<rparr>))))
      else
        (case recovery_segment of
           Some p \<Rightarrow>
             if map_of (st_fs s) p = None then Inr s
             else (case rebuild_index_path crc cfg (st_fs s) p (st_sink s) of
                     (Inl e, k) \<Rightarrow> Inl e
                   | (Inr _, k) \<Rightarrow> Inr (s\<lparr>st_sink := k\<rparr>))
         | None \<Rightarrow> Inr s))"

definition start_storage ::
  "(bytes \<Rightarrow> u32) \<Rightarrow> seg_env \<Rightarrow> seg_config \<Rightarrow> meta_sink \<Rightarrow> seg_metrics \<Rightarrow> file_system \<Rightarrow> seg_error + seg_thread" where
  "start_storage crc env cfg k m fs =
     (let recovery_segment = latest_segment_path (cfg_root cfg) fs;
          requires_full_index_recovery = (\<not> recovery_marker_valid (recovery_marker cfg) fs) in
      and_then (open_store crc env cfg k m fs) (\<lambda>s.
      and_then (recover_index crc cfg requires_full_index_recovery recovery_segment s) send_barrier))"

subsection \<open>The newest segment is indexed again\<close>

lemma sink_send_open: "ms_room k = None \<Longrightarrow> sink_send row k = (Inr (), k\<lparr>ms_sent := ms_sent k @ [row]\<rparr>)"
  by (cases k) (simp add: sink_send_def)

lemma send_barrier_open:
  "ms_room (st_sink s) = None \<Longrightarrow>
   send_barrier s = Inr (s\<lparr>st_sink := (st_sink s)\<lparr>ms_durable := length (ms_sent (st_sink s))\<rparr>\<rparr>)"
  by (cases "st_sink s") (simp add: send_barrier_def sink_durable_barrier_def)

text \<open>The visitor of \<open>rebuild_index_path\<close> while the metadata writer runs.\<close>

lemma resend_rows:
  assumes "ms_room k = None"
  shows "visit (\<lambda>offset record _ (cnt, k).
       case sink_send (index_row record p offset) k of (Inl e, k) \<Rightarrow> (Inl e, (cnt, k)) | (Inr u, k) \<Rightarrow> (Inr u, (sat_add64 cnt 1, k)))
     xs (n, k) = (Inr (), (fold (\<lambda>_ c. sat_add64 c 1) xs n, k\<lparr>ms_sent := ms_sent k @ map (\<lambda>(o', r). index_row (stored r) p o') xs\<rparr>))"
  using assms
proof (induction xs arbitrary: n k)
  case (Cons x xs)
  show ?case
    using Cons.prems Cons.IH [of "k\<lparr>ms_sent := ms_sent k @ [index_row (stored (snd x)) p (fst x)]\<rparr>"]
    by (cases x) (simp add: sink_send_open)
qed simp

lemma record_payload_stored [simp]: "record_payload (stored r) = record_payload r"
proof -
  have "service_bytes (stored r) = service_bytes r" by (simp add: service_bytes_def stored_def)
  moreover have "cr_data (stored r) = cr_data r" "cr_stream_offset (stored r) = cr_stream_offset r" by (simp_all add: stored_def)
  ultimately show ?thesis by (simp add: record_payload_def encode_record_prefix_def Let_def)
qed

lemma located_stored: "located off (map stored rs) = map (\<lambda>(o', r). (o', stored r)) (located off rs)"
  by (induction rs arbitrary: off) simp_all

lemma rebuild_whole_file:
  assumes "map_of fs p = Some (whole_file crc now rs)" and "\<forall>r \<in> set rs. storable (cfg_max_record_bytes cfg) r" and "ms_room k = None"
  shows "\<exists>n. rebuild_index_path crc cfg fs p k = (Inr n, k\<lparr>ms_sent := ms_sent k @ rows p header_size (map stored rs)\<rparr>)"
proof -
  have l: "map (\<lambda>(o', r). index_row (stored r) p o') (located off rs) = rows p off (map stored rs)" for off
    by (simp add: rows_def located_stored case_prod_unfold)
  have "open_file fs p = Inr (write_header now @ records_image crc rs)"
    using assms (1) by (simp add: open_file_def whole_file_def segment_image_def)
  moreover have "scan_records crc (cfg_max_record_bytes cfg) f \<lparr>rd_data = write_header now @ records_image crc rs, rd_pos = header_size\<rparr> s
      = visit f (located header_size rs) s" for f and s :: "nat \<times> meta_sink"
    using scan_records_image [OF assms(2), where pre = "write_header now"] by simp
  ultimately show ?thesis
    using assms(3) by (simp add: rebuild_index_path_def read_header_image resend_rows l)
qed

text \<open>The segment that recovery left, if any, is indexed again and everything sent so far becomes durable.\<close>

lemma recover_active:
  assumes fl: "map_of (st_fs s) p = (if gone then None else Some (whole_file crc now rs))" and gone: "gone \<Longrightarrow> rs = []"
    and st: "\<forall>r \<in> set rs. storable (cfg_max_record_bytes cfg) r" and room: "ms_room (st_sink s) = None"
  shows "\<exists>s2. and_then (recover_index crc cfg False (Some p) s) send_barrier = Inr s2 \<and> st_fs s2 = st_fs s
    \<and> set (ms_sent (st_sink s) @ rows p header_size (map stored rs)) = set (take (ms_durable (st_sink s2)) (ms_sent (st_sink s2)))"
proof (cases gone)
  case True
  with fl gone room show ?thesis by (simp add: recover_index_def send_barrier_open rows_def)
next
  case False
  with fl have "map_of (st_fs s) p = Some (whole_file crc now rs)" by simp
  from rebuild_whole_file [OF this st room] this room show ?thesis
    by (auto simp: recover_index_def send_barrier_open)
qed

text \<open>What recovery finds of a run that lost power, and what it leaves.\<close>

lemma crash_leaves:
  assumes "run_ok cfg fs evs" and "run_store crc env cfg k m fs evs = Inr (replies, stopped, s)"
    and "crashed (st_fs s) fs'" and "latest_segment_path (cfg_root cfg) fs' = Some (aw_path (st_writer s))"
    and "recover_last_segment_tail crc (cfg_root cfg) (cfg_max_record_bytes cfg) fs' = Inr fs2"
  shows "\<exists>olds now active. subseq (sealed_records olds @ active) (received evs)
    \<and> (st_fatal s \<or> sealed_records olds @ active = received (take (length replies) evs))
    \<and> (\<exists>f. map_of (st_fs s) (aw_path (st_writer s)) = Some f \<and> f_data f @ aw_buf (st_writer s) = segment_image crc now active)
    \<and> map_of fs2 (aw_path (st_writer s)) = (if file_len fs' (aw_path (st_writer s)) < header_size then None
        else Some (whole_file crc now (complete_prefix (file_len fs' (aw_path (st_writer s)) - header_size) active)))
    \<and> (\<forall>q. q \<noteq> aw_path (st_writer s) \<longrightarrow> map_of fs2 q = map_of fs' q)
    \<and> (\<forall>r \<in> set active. storable (cfg_max_record_bytes cfg) r)
    \<and> (\<forall>(p, t, qs) \<in> set olds. map_of fs2 p = Some (whole_file crc t qs))
    \<and> set (sealed_rows olds) \<subseteq> set (take (ms_durable (st_sink s)) (ms_sent (st_sink s)))"
proof -
  let ?p = "aw_path (st_writer s)" and ?mx = "cfg_max_record_bytes cfg"
  note I = run_inv [OF assms (1, 2)]
  then obtain olds now rs1 rs2 where rep: "seg_rep crc (ms_sent k) (received (take (length replies) evs)) s olds now rs1 rs2"
    by (auto simp: seg_inv_def)
  have sr: "store_rep crc (st_writer s) (st_fs s) olds now rs1 rs2" using rep by (simp add: seg_rep_def)
  have st: "\<forall>r \<in> set (rs1 @ rs2). storable ?mx r" and sealed: "sealed_rep crc (st_writer s) (st_fs s) olds"
    using sr I by (auto simp: store_rep_def)
  from crash_recovers [OF assms(1-4) sr] assms(5) have
    R: "\<forall>q. q \<noteq> ?p \<longrightarrow> map_of fs2 q = map_of fs' q"
      "map_of fs2 ?p = (if file_len fs' ?p < header_size then None
        else Some (whole_file crc now (complete_prefix (file_len fs' ?p - header_size) (rs1 @ rs2))))"
    by auto
  have "\<forall>(p, t, qs) \<in> set olds. map_of fs2 p = Some (whole_file crc t qs)"
    using sealed_kept [OF sealed assms(3) R(1)] by blast
  moreover have "set (sealed_rows olds) \<subseteq> set (take (ms_durable (st_sink s)) (ms_sent (st_sink s)))"
    using rep by (cases "olds = []") (auto simp: seg_rep_def sealed_rows_def [of "[]"])
  moreover have "\<exists>f. map_of (st_fs s) ?p = Some f \<and> f_data f @ aw_buf (st_writer s) = segment_image crc now (rs1 @ rs2)"
    using sr by (auto simp: store_rep_def active_rep_def)
  moreover have "st_fatal s \<or> sealed_records olds @ rs1 @ rs2 = received (take (length replies) evs)"
    using rep by (simp add: seg_rep_def)
  ultimately show ?thesis using R st rep_received [OF rep] by blast
qed

text \<open>C19: After a crash the content index is complete again before the store is used. Let a store run, lose power at any
  point, the segment it had open being the newest by its name, and start again with a valid recovery marker (\<open>.content-index-recovery-v2\<close>), on a metadata log that
  kept at least the rows a durable barrier had covered. If the store opens, under a new segment name, start-up succeeds. Let \<open>olds\<close> be the
  segments the run had sealed and \<open>active\<close> the records of the open one, together, unless the writer had stopped on an error, exactly the
  records received: every file but the open one and the new one is as the crash left it, the sealed ones whole; the open one is gone if not even its
  header survived and else holds exactly its records that survived whole; and the index rows of all these records, also of those whose
  row had not been published or was lost in the crash, are durable.\<close>

theorem startup_reindexes:
  assumes "run_ok cfg fs evs" and "run_store crc env cfg k m fs evs = Inr (replies, stopped, s)"
    and "crashed (st_fs s) fs'" and "latest_segment_path (cfg_root cfg) fs' = Some (aw_path (st_writer s))"
    and "ms_sent k2 = take j (ms_sent (st_sink s))" "ms_durable (st_sink s) \<le> j" "ms_room k2 = None"
    and "recovery_marker_valid (recovery_marker cfg) fs'" and "open_store crc env2 cfg k2 m2 fs' = Inr s1"
    and "aw_path (st_writer s1) \<noteq> aw_path (st_writer s)"
  shows "\<exists>s2 olds now active kept. start_storage crc env2 cfg k2 m2 fs' = Inr s2
    \<and> subseq (sealed_records olds @ active) (received evs)
    \<and> (st_fatal s \<or> sealed_records olds @ active = received (take (length replies) evs))
    \<and> (\<exists>f. map_of (st_fs s) (aw_path (st_writer s)) = Some f \<and> f_data f @ aw_buf (st_writer s) = segment_image crc now active)
    \<and> kept = (if file_len fs' (aw_path (st_writer s)) < header_size then []
        else complete_prefix (file_len fs' (aw_path (st_writer s)) - header_size) active)
    \<and> map_of (st_fs s2) (aw_path (st_writer s)) = (if file_len fs' (aw_path (st_writer s)) < header_size then None
        else Some (whole_file crc now kept))
    \<and> list_all (\<lambda>(p, t, qs). map_of (st_fs s2) p = Some (whole_file crc t qs)) olds
    \<and> (\<forall>q. q = aw_path (st_writer s) \<or> q = aw_path (st_writer s1) \<or> map_of (st_fs s2) q = map_of fs' q)
    \<and> set (sealed_rows olds @ rows (aw_path (st_writer s)) header_size (map stored kept))
        \<subseteq> set (take (ms_durable (st_sink s2)) (ms_sent (st_sink s2)))"
proof -
  let ?p = "aw_path (st_writer s)"
  have dk: "distinct (map fst fs')" and mxb: "cfg_store_max_bytes cfg + header_size \<le> u64_max"
    using run_inv [OF assms(1,2)] crashed_keys [OF assms(3)] assms(1)
    by (auto simp: seg_inv_def seg_rep_def store_rep_def run_ok_def)
  from open_store_files [OF assms(9) dk mxb] obtain fs2 where
    re: "recover_last_segment_tail crc (cfg_root cfg) (cfg_max_record_bytes cfg) fs' = Inr fs2"
    and new: "map_of fs2 (aw_path (st_writer s1)) = None" and k2: "st_sink s1 = k2"
    and same: "\<And>q. q \<noteq> aw_path (st_writer s1) \<Longrightarrow> map_of (st_fs s1) q = map_of fs2 q"
    by blast
  from crash_leaves [OF assms(1-4) re] obtain olds now active where C: "subseq (sealed_records olds @ active) (received evs)"
      "st_fatal s \<or> sealed_records olds @ active = received (take (length replies) evs)"
      "\<exists>f. map_of (st_fs s) ?p = Some f \<and> f_data f @ aw_buf (st_writer s) = segment_image crc now active"
      "map_of fs2 ?p = (if file_len fs' ?p < header_size then None
        else Some (whole_file crc now (complete_prefix (file_len fs' ?p - header_size) active)))"
      "\<forall>q. q \<noteq> ?p \<longrightarrow> map_of fs2 q = map_of fs' q"
      "\<forall>r \<in> set active. storable (cfg_max_record_bytes cfg) r" "\<forall>(p, t, qs) \<in> set olds. map_of fs2 p = Some (whole_file crc t qs)"
      "set (sealed_rows olds) \<subseteq> set (take (ms_durable (st_sink s)) (ms_sent (st_sink s)))"
    by blast
  define gone where "gone \<longleftrightarrow> file_len fs' ?p < header_size"
  define kept where "kept = (if gone then [] else complete_prefix (file_len fs' ?p - header_size) active)"
  have fl: "map_of (st_fs s1) ?p = (if gone then None else Some (whole_file crc now kept))"
    using same [of ?p] assms(10) C(4) by (auto simp: gone_def kept_def)
  have kst: "\<forall>r \<in> set kept. storable (cfg_max_record_bytes cfg) r"
    using C(6) set_mono_prefix [OF complete_prefix_prefix] by (auto simp: kept_def)
  have "ms_room (st_sink s1) = None" using k2 assms(7) by simp
  from recover_active [OF fl _ kst this] obtain s2 where
    s2: "and_then (recover_index crc cfg False (Some ?p) s1) send_barrier = Inr s2" "st_fs s2 = st_fs s1"
      "set (ms_sent k2 @ rows ?p header_size (map stored kept)) = set (take (ms_durable (st_sink s2)) (ms_sent (st_sink s2)))"
    unfolding k2 by (auto simp: kept_def)
  have start: "start_storage crc env2 cfg k2 m2 fs' = Inr s2"
    using s2(1) assms(4,8,9) by (simp add: start_storage_def)
  have "map_of (st_fs s1) p = Some (whole_file crc t qs)" if "(p, t, qs) \<in> set olds" for p t qs
    using C(7) that same [of p] new by force
  then have whole: "list_all (\<lambda>(p, t, qs). map_of (st_fs s2) p = Some (whole_file crc t qs)) olds"
    by (auto simp: list_all_iff s2(2))
  have "set (sealed_rows olds) \<subseteq> set (ms_sent k2)"
    using C(8) set_take_subset_set_take [OF assms(6), of "ms_sent (st_sink s)"] assms(5) by auto
  then have rows: "set (sealed_rows olds @ rows ?p header_size (map stored kept)) \<subseteq> set (take (ms_durable (st_sink s2)) (ms_sent (st_sink s2)))"
    using s2(3) by auto
  have others: "\<forall>q. q = ?p \<or> q = aw_path (st_writer s1) \<or> map_of (st_fs s2) q = map_of fs' q"
    using same C(5) s2(2) by metis
  show ?thesis
    using start C(1-3) fl [folded s2(2)] whole others rows
    by (intro exI [of _ s2] exI [of _ olds] exI [of _ now] exI [of _ active] exI [of _ kept])
      (simp add: kept_def gone_def)
qed

subsection \<open>An example\<close>

definition start_example_fs :: file_system where
  "start_example_fs = write_recovery_marker (recovery_marker seg_example_cfg) []"

lemmas start_eval = start_example_fs_def write_recovery_marker_def recovery_marker_valid_def recovery_marker_def recovery_marker_bytes_def

lemma start_example_run:
  "\<exists>s. run_store (\<lambda>_. 7) (seg_env_at ''a'') seg_example_cfg seg_example_sink seg_example_metrics start_example_fs seg_example_events
      = Inr ([NoReply, NoReply, FlushReply (Inr ())], False, s) \<and> crashed (st_fs s) (settle (st_fs s))
    \<and> latest_segment_path (cfg_root seg_example_cfg) (settle (st_fs s)) = Some (aw_path (st_writer s))
    \<and> \<not> st_fatal s \<and> ms_durable (st_sink s) = 1 \<and> length (ms_sent (st_sink s)) = 2
    \<and> aw_path (st_writer s) = [''data'', ''segment-b-u.seg'']
    \<and> recovery_marker_valid (recovery_marker seg_example_cfg) (settle (st_fs s))
    \<and> map_of (settle (st_fs s)) [''data'', ''segment-b-u.seg''] = Some (whole_file (\<lambda>_. 7) 5 [seg_example_record 2])
    \<and> directory_bytes [''data''] (settle (st_fs s)) \<le> 1000 \<and> map_of (settle (st_fs s)) [''data'', ''segment-d-u.seg''] = None"
  by (simp add: seg_eval start_eval seg_example_defs crashed_def cut_file_def settle_def extension_of_def
      less_eq_char_def less_char_def whole_file_def segment_image_def record_payload_def envelope_def)

lemma recover_one_record:
  assumes st: "storable mx r" and len: "length (segment_image crc now [r]) \<le> u64_max"
  shows "recover_file crc mx (segment_image crc now [r]) = Inr Intact"
proof -
  let ?p = "record_payload r" and ?pre = "write_header now"
  let ?rd = "\<lparr>rd_data = ?pre @ record_image crc r, rd_pos = header_size\<rparr>"
  have r1: "read_exact 12 ?rd = Inr (take 12 (envelope crc ?p), ?rd\<lparr>rd_pos := header_size + 12\<rparr>)"
    by (simp add: read_exact_def bslice_def)
  have r2: "read_exact (length ?p) (?rd\<lparr>rd_pos := header_size + 12\<rparr>) = Inr (?p, ?rd\<lparr>rd_pos := length (rd_data ?rd)\<rparr>)"
    by (simp add: read_exact_def bslice_def envelope_def)
  have sat: "sat_add64 (sat_add64 header_size 12) (length ?p) = header_size + (12 + length ?p)"
    using len by (simp add: sat_add64_def segment_image_def)
  have l: "recover_loop crc mx (?rd\<lparr>rd_pos := length (rd_data ?rd)\<rparr>) = Inr Intact"
    by (subst recover_loop.simps) simp
  have "recover_loop crc mx ?rd = Inr Intact"
    using r1 r2 envelope_header [OF conjunct2 [OF storable_len [OF st]], of crc] storable_len [OF st] sat storable_decode [OF st] l
    by (subst recover_loop.simps) (simp add: Let_def)
  then show ?thesis by (simp add: recover_file_def segment_image_def read_header_image)
qed

lemma start_example_open:
  assumes "map_of fs [''data'', ''segment-b-u.seg''] = Some (whole_file (\<lambda>_. 7) 5 [seg_example_record 2])"
    and "latest_segment_path [''data''] fs = Some [''data'', ''segment-b-u.seg'']"
    and "directory_bytes [''data''] fs \<le> 1000" "map_of fs [''data'', ''segment-d-u.seg''] = None"
  shows "\<exists>s1. open_store (\<lambda>_. 7) (seg_env_at ''d'') seg_example_cfg k m fs = Inr s1
    \<and> aw_path (st_writer s1) = [''data'', ''segment-d-u.seg'']"
proof -
  let ?r = "seg_example_record 2"
  have st: "storable 1000 ?r"
    using seg_example_ok by (simp add: run_ok_def seg_example_events_def storable_def record_payload_def seg_eval seg_example_defs)
  have "length (segment_image (\<lambda>_. 7) 5 [?r]) \<le> u64_max"
    using storable_len [OF st] by (simp add: segment_image_def)
  from recover_one_record [OF st this] assms(1,2)
  have "recover_last_segment_tail (\<lambda>_. 7) [''data''] 1000 fs = Inr fs"
    by (simp add: recover_last_segment_tail_def whole_file_def)
  with assms(3,4) show ?thesis
    by (simp add: open_store_def seg_example_cfg_def seg_env_at_def Let_def new_writer_def create_segment_def bw_write_all_def split: prod.splits if_splits)
qed

lemma startup_reindexes_witness:
  "\<exists>s s2 olds active kept. run_store (\<lambda>_. 7) (seg_env_at ''a'') seg_example_cfg seg_example_sink seg_example_metrics start_example_fs
        seg_example_events = Inr ([NoReply, NoReply, FlushReply (Inr ())], False, s)
    \<and> start_storage (\<lambda>_. 7) (seg_env_at ''d'') seg_example_cfg (seg_example_sink\<lparr>ms_sent := take 1 (ms_sent (st_sink s))\<rparr>)
        seg_example_metrics (settle (st_fs s)) = Inr s2
    \<and> sealed_records olds @ active = [seg_example_record 1, seg_example_record 2]
    \<and> set (sealed_rows olds @ rows [''data'', ''segment-b-u.seg''] header_size (map stored kept))
        \<subseteq> set (take (ms_durable (st_sink s2)) (ms_sent (st_sink s2)))"
proof -
  from start_example_run obtain s where
    run: "run_store (\<lambda>_. 7) (seg_env_at ''a'') seg_example_cfg seg_example_sink seg_example_metrics start_example_fs seg_example_events
      = Inr ([NoReply, NoReply, FlushReply (Inr ())], False, s)" and cr: "crashed (st_fs s) (settle (st_fs s))"
    and la: "latest_segment_path (cfg_root seg_example_cfg) (settle (st_fs s)) = Some (aw_path (st_writer s))"
    and nf: "\<not> st_fatal s" and du: "ms_durable (st_sink s) \<le> 1" and ap: "aw_path (st_writer s) = [''data'', ''segment-b-u.seg'']"
    and mk: "recovery_marker_valid (recovery_marker seg_example_cfg) (settle (st_fs s))"
    and fl: "map_of (settle (st_fs s)) [''data'', ''segment-b-u.seg''] = Some (whole_file (\<lambda>_. 7) 5 [seg_example_record 2])"
      "directory_bytes [''data''] (settle (st_fs s)) \<le> 1000" "map_of (settle (st_fs s)) [''data'', ''segment-d-u.seg''] = None"
    by (metis order_refl)
  let ?k = "seg_example_sink\<lparr>ms_sent := take 1 (ms_sent (st_sink s))\<rparr>"
  have ok: "run_ok seg_example_cfg start_example_fs seg_example_events"
    using seg_example_ok by (simp add: run_ok_def start_eval)
  from start_example_open [OF fl(1) _ fl(2,3), of ?k seg_example_metrics] la ap obtain s1 where
    op: "open_store (\<lambda>_. 7) (seg_env_at ''d'') seg_example_cfg ?k seg_example_metrics (settle (st_fs s)) = Inr s1"
      "aw_path (st_writer s1) = [''data'', ''segment-d-u.seg'']"
    by (auto simp: seg_example_cfg_def)
  have ne: "aw_path (st_writer s1) \<noteq> aw_path (st_writer s)" using op(2) ap by simp
  have sink: "ms_sent ?k = take 1 (ms_sent (st_sink s))" "ms_room ?k = None" by (simp_all add: seg_example_sink_def)
  from startup_reindexes [OF ok run cr la sink(1) du sink(2) mk op(1) ne] nf obtain s2 olds active kept where
    "start_storage (\<lambda>_. 7) (seg_env_at ''d'') seg_example_cfg ?k seg_example_metrics (settle (st_fs s)) = Inr s2"
    "sealed_records olds @ active = received (take (length [NoReply, NoReply, FlushReply (Inr ())]) seg_example_events)"
    "set (sealed_rows olds @ rows (aw_path (st_writer s)) header_size (map stored kept))
        \<subseteq> set (take (ms_durable (st_sink s2)) (ms_sent (st_sink s2)))"
    by (elim exE conjE disjE) (blast+)
  then show ?thesis using run ap by (simp add: seg_example_events_def) blast
qed

end
