(* ===== verification/Auth.thy ===== *)
theory Auth
  imports Rust_Text Bazalt_Model
begin

text \<open>
  Access to the API, \<open>src/src/auth.rs\<close>: sessions opened by a login, Basic credentials, and the limit on failed logins.

  Texts are byte lists. Instants are nanoseconds. What a call reads from outside comes with it (\<open>auth_env\<close>): the
  clock at each place that reads it, the token built from two random UUIDs, and the order in which the hash map
  is iterated. A request is reduced to the two headers the code reads, where \<open>to_str\<close> succeeds. Decoding of base64 is
  foreign code, a parameter.

  A call is one step. In the code \<open>login\<close> takes the lock of the failures to look at the limit and once more to record a
  failure, or to forget the failures of a sender that got in, and then the lock of the sessions: in between
  another request may take its turn. The model, and with it every statement about a history of calls, is about
  requests that are served one after the other; requests served at the same moment can all pass the
  limit before the first of them records its failure.
\<close>

unbundle bit_operations_syntax

subsection \<open>State\<close>

record auth_config =
  ac_enabled :: bool
  ac_username :: bytes
  ac_password :: bytes
  ac_session_ttl :: nat
  ac_cookie_secure :: bool

record login_failures =
  lf_window_started :: nat
  lf_failures :: nat

record auth_manager =
  am_cfg :: auth_config
  am_sessions :: "(bytes \<times> nat) list"
  am_failures :: "(ip_addr \<times> login_failures) list"

datatype login_error = Forbidden | RateLimited

definition session_cookie :: bytes where
  "session_cookie = as_bytes ''bazalt_session''"

definition login_window :: nat where
  "login_window = 60000000000"

definition login_max_failures :: nat where
  "login_max_failures = 8"

definition max_sessions :: nat where
  "max_sessions = 4096"

record auth_env =
  at_limit :: nat
  at_failure :: nat
  at_session :: nat
  at_token :: bytes
  at_order :: "(bytes \<times> nat) list \<Rightarrow> (bytes \<times> nat) list"

record auth_headers =
  ah_authorization :: "bytes option"
  ah_cookie :: "bytes option"

definition new_auth :: "auth_config \<Rightarrow> auth_manager" where
  "new_auth cfg = \<lparr>am_cfg = cfg, am_sessions = [], am_failures = []\<rparr>"

subsection \<open>Login\<close>

definition constant_time_eq :: "bytes \<Rightarrow> bytes \<Rightarrow> bool" where
  "constant_time_eq a b \<longleftrightarrow>
     fold (\<lambda>i diff. diff OR ucast (byte_or_zero a i XOR byte_or_zero b i)) [0..<max (length a) (length b)]
       ((of_nat (length a) :: u64) XOR of_nat (length b)) = 0"

definition is_rate_limited :: "nat \<Rightarrow> ip_addr \<Rightarrow> auth_manager \<Rightarrow> bool \<times> auth_manager" where
  "is_rate_limited now ip a =
     (let failures = filter (\<lambda>(_, state). now - lf_window_started state < login_window) (am_failures a)
      in (case map_of failures ip of None \<Rightarrow> False | Some state \<Rightarrow> lf_failures state \<ge> login_max_failures, a\<lparr>am_failures := failures\<rparr>))"

definition record_failure :: "nat \<Rightarrow> ip_addr \<Rightarrow> auth_manager \<Rightarrow> auth_manager" where
  "record_failure now ip a =
     (let state = (case map_of (am_failures a) ip of Some state \<Rightarrow> state | None \<Rightarrow> \<lparr>lf_window_started = now, lf_failures = 0\<rparr>);
          state = (if now - lf_window_started state \<ge> login_window then \<lparr>lf_window_started = now, lf_failures = 1\<rparr>
                   else state\<lparr>lf_failures := min (lf_failures state + 1) 4294967295\<rparr>)
      in a\<lparr>am_failures := AList.update ip state (am_failures a)\<rparr>)"

fun oldest_session :: "(bytes \<times> nat) list \<Rightarrow> bytes option" where
  "oldest_session [] = None"
| "oldest_session (x # xs) = Some (fst (fold (\<lambda>y best. if snd y < snd best then y else best) xs x))"

definition live_sessions :: "nat \<Rightarrow> (bytes \<times> nat) list \<Rightarrow> (bytes \<times> nat) list" where
  "live_sessions now sessions = filter (\<lambda>(_, expiry). expiry > now) sessions"

definition open_session :: "auth_env \<Rightarrow> auth_manager \<Rightarrow> auth_manager" where
  "open_session env a =
     (let now = at_session env;
          sessions = live_sessions now (am_sessions a);
          sessions =
            (if length sessions \<ge> max_sessions
             then (case oldest_session (at_order env sessions) of None \<Rightarrow> sessions | Some oldest \<Rightarrow> AList.delete oldest sessions)
             else sessions)
      in a\<lparr>am_sessions := AList.update (at_token env) (now + ac_session_ttl (am_cfg a)) sessions\<rparr>)"

definition login :: "auth_env \<Rightarrow> ip_addr \<Rightarrow> bytes \<Rightarrow> bytes \<Rightarrow> auth_manager \<Rightarrow> (login_error + bytes) \<times> auth_manager" where
  "login env ip username password a =
     (if \<not> ac_enabled (am_cfg a) then (Inr [], a)
      else
        let (limited, a) = is_rate_limited (at_limit env) ip a in
        if limited then (Inl RateLimited, a)
        else
          let same_name = constant_time_eq username (ac_username (am_cfg a));
              same_word = constant_time_eq password (ac_password (am_cfg a)) in
          if \<not> (same_name \<and> same_word) then (Inl Forbidden, record_failure (at_failure env) ip a)
          else (Inr (at_token env), open_session env (a\<lparr>am_failures := AList.delete ip (am_failures a)\<rparr>)))"

subsection \<open>Requests\<close>

text \<open>The parts of \<open>splitn(2, c)\<close>.\<close>

definition splitn2 :: "byte \<Rightarrow> bytes \<Rightarrow> bytes \<times> bytes option" where
  "splitn2 c bs = (takeWhile (\<lambda>b. b \<noteq> c) bs, if c \<in> set bs then Some (tl (dropWhile (\<lambda>b. b \<noteq> c) bs)) else None)"

definition strip_prefix :: "bytes \<Rightarrow> bytes \<Rightarrow> bytes option" where
  "strip_prefix pat bs = (if take (length pat) bs = pat then Some (drop (length pat) bs) else None)"

definition basic_credentials :: "(bytes \<Rightarrow> bytes option) \<Rightarrow> auth_headers \<Rightarrow> (bytes \<times> bytes) option" where
  "basic_credentials decode headers =
     (case ah_authorization headers of
        None \<Rightarrow> None
      | Some value \<Rightarrow>
          (case (case strip_prefix (as_bytes ''Basic '') value of Some e \<Rightarrow> Some e | None \<Rightarrow> strip_prefix (as_bytes ''basic '') value) of
             None \<Rightarrow> None
           | Some encoded \<Rightarrow>
               (case decode (trim encoded) of
                  None \<Rightarrow> None
                | Some decoded \<Rightarrow> (case splitn2 58 decoded of (name, None) \<Rightarrow> None | (name, Some word') \<Rightarrow> Some (name, word')))))"

definition valid_basic :: "(bytes \<Rightarrow> bytes option) \<Rightarrow> auth_headers \<Rightarrow> auth_manager \<Rightarrow> bool" where
  "valid_basic decode headers a =
     (case basic_credentials decode headers of
        None \<Rightarrow> False
      | Some (name, word') \<Rightarrow> constant_time_eq name (ac_username (am_cfg a)) \<and> constant_time_eq word' (ac_password (am_cfg a)))"

fun find_cookie :: "bytes list \<Rightarrow> bytes option" where
  "find_cookie [] = None"
| "find_cookie (item # items) =
     (case splitn2 61 (trim item) of (name, value) \<Rightarrow> if name = session_cookie then value else find_cookie items)"

definition session_token :: "auth_headers \<Rightarrow> bytes option" where
  "session_token headers = (case ah_cookie headers of None \<Rightarrow> None | Some cookie \<Rightarrow> find_cookie (split_on 59 cookie))"

definition valid_session :: "nat \<Rightarrow> bytes \<Rightarrow> auth_manager \<Rightarrow> bool \<times> auth_manager" where
  "valid_session now token a =
     (let sessions = live_sessions now (am_sessions a)
      in (case map_of sessions token of None \<Rightarrow> False | Some expiry \<Rightarrow> expiry > now, a\<lparr>am_sessions := sessions\<rparr>))"

definition is_authorized :: "(bytes \<Rightarrow> bytes option) \<Rightarrow> nat \<Rightarrow> auth_headers \<Rightarrow> auth_manager \<Rightarrow> bool \<times> auth_manager" where
  "is_authorized decode now headers a =
     (if \<not> ac_enabled (am_cfg a) then (True, a)
      else if valid_basic decode headers a then (True, a)
      else (case session_token headers of None \<Rightarrow> (False, a) | Some token \<Rightarrow> valid_session now token a))"

definition logout :: "auth_headers \<Rightarrow> auth_manager \<Rightarrow> auth_manager" where
  "logout headers a =
     (case session_token headers of None \<Rightarrow> a | Some token \<Rightarrow> a\<lparr>am_sessions := AList.delete token (am_sessions a)\<rparr>)"

definition set_cookie_header :: "bytes \<Rightarrow> auth_config \<Rightarrow> bytes" where
  "set_cookie_header token cfg =
     session_cookie @ as_bytes ''='' @ token @ as_bytes ''; Path=/; HttpOnly; SameSite=Strict; Max-Age=''
     @ as_bytes (decimal (ac_session_ttl cfg div 1000000000)) @ (if ac_cookie_secure cfg then as_bytes ''; Secure'' else [])"

definition clear_cookie_header :: "auth_config \<Rightarrow> bytes" where
  "clear_cookie_header cfg =
     session_cookie @ as_bytes ''=; Path=/; HttpOnly; SameSite=Strict; Max-Age=0'' @ (if ac_cookie_secure cfg then as_bytes ''; Secure'' else [])"

subsection \<open>Histories\<close>

datatype auth_op = Login ip_addr bytes bytes | Authorize auth_headers | Logout auth_headers

datatype auth_result = LoginResult "login_error + bytes" | Authorized bool | LoggedOut

definition auth_step :: "(bytes \<Rightarrow> bytes option) \<Rightarrow> auth_env \<Rightarrow> auth_op \<Rightarrow> auth_manager \<Rightarrow> auth_result \<times> auth_manager" where
  "auth_step decode env op a =
     (case op of
        Login ip username password \<Rightarrow> (case login env ip username password a of (r, a) \<Rightarrow> (LoginResult r, a))
      | Authorize headers \<Rightarrow> (case is_authorized decode (at_session env) headers a of (r, a) \<Rightarrow> (Authorized r, a))
      | Logout headers \<Rightarrow> (LoggedOut, logout headers a))"

fun auth_run :: "(bytes \<Rightarrow> bytes option) \<Rightarrow> (auth_env \<times> auth_op) list \<Rightarrow> auth_manager \<Rightarrow> auth_result list \<times> auth_manager" where
  "auth_run decode [] a = ([], a)"
| "auth_run decode ((env, op) # ops) a =
     (case auth_step decode env op a of (r, a) \<Rightarrow> (case auth_run decode ops a of (rs, a) \<Rightarrow> (r # rs, a)))"

end
