(* ===== verification/Auth_Props.thy ===== *)
theory Auth_Props
  imports Auth
begin

text \<open>
  What the access control promises: the comparison is equality, sessions are those of an abstract table that only
  successful logins fill, and the number of passwords a sender can try at the login is bounded.
\<close>

declare map_of_eq_Some_iff [simp del]

subsection \<open>Comparison\<close>

lemma or_zero_iff: "(a :: 'a :: len word) OR b = 0 \<longleftrightarrow> a = 0 \<and> b = 0"
  by (auto simp: bit_eq_iff bit_simps)

lemma xor_zero_iff: "(a :: 'a :: len word) XOR b = 0 \<longleftrightarrow> a = b"
  by (auto simp: bit_eq_iff bit_simps)

lemma fold_or_zero: "fold (\<lambda>i diff. diff OR f i) xs (d :: u64) = 0 \<longleftrightarrow> d = 0 \<and> (\<forall>i \<in> set xs. f i = 0)"
  by (induction xs arbitrary: d) (auto simp: or_zero_iff)

lemma ucast_byte_zero: "(ucast (b :: byte) :: u64) = 0 \<longleftrightarrow> b = 0"
proof -
  have "unat b < 256" using unsigned_less [of b] by simp
  then have "unat b < 2 ^ 64" by simp
  then have "take_bit 64 (unat b) = unat b" by (rule take_bit_nat_eq_self)
  then show ?thesis by (simp add: unsigned_ucast_eq flip: unat_eq_0)
qed

lemma constant_time_eq_iff:
  assumes "length a \<le> u64_max" "length b \<le> u64_max"
  shows "constant_time_eq a b \<longleftrightarrow> a = b"
proof -
  have len: "(of_nat (length a) :: u64) = of_nat (length b) \<longleftrightarrow> length a = length b"
    using assms by (simp add: word_of_nat_eq_iff take_bit_nat_eq_self)
  have "constant_time_eq a b \<longleftrightarrow> length a = length b \<and> (\<forall>i \<in> {0..<max (length a) (length b)}. byte_or_zero a i = byte_or_zero b i)"
    unfolding constant_time_eq_def fold_or_zero xor_zero_iff ucast_byte_zero len by simp
  also have "\<dots> \<longleftrightarrow> a = b"
  proof
    assume "length a = length b \<and> (\<forall>i \<in> {0..<max (length a) (length b)}. byte_or_zero a i = byte_or_zero b i)"
    then have l: "length a = length b" and e: "\<And>i. i < length b \<Longrightarrow> byte_or_zero a i = byte_or_zero b i" by auto
    from l e show "a = b" by (intro nth_equalityI) (auto simp: byte_or_zero_def)
  qed simp
  finally show ?thesis .
qed

subsection \<open>Sessions refine a table\<close>

text \<open>The table of sessions as the operations describe it: tokens with their expiry, never dropped for want of room.\<close>

definition table_step :: "auth_config \<Rightarrow> (auth_env \<times> auth_op) \<times> auth_result \<Rightarrow> (bytes \<rightharpoonup> nat) \<Rightarrow> (bytes \<rightharpoonup> nat)" where
  "table_step cfg x m =
     (case x of
        ((env, Login ip username password), LoginResult (Inr token)) \<Rightarrow>
          if username = ac_username cfg \<and> password = ac_password cfg then m(token \<mapsto> at_session env + ac_session_ttl cfg) else m
      | ((env, Logout headers), r) \<Rightarrow> (case session_token headers of None \<Rightarrow> m | Some token \<Rightarrow> m(token := None))
      | _ \<Rightarrow> m)"

definition session_table :: "auth_config \<Rightarrow> (auth_env \<times> auth_op) list \<Rightarrow> auth_result list \<Rightarrow> (bytes \<rightharpoonup> nat)" where
  "session_table cfg ops results = fold (table_step cfg) (zip ops results) Map.empty"

definition is_login :: "auth_env \<times> auth_op \<Rightarrow> bool" where
  "is_login x \<longleftrightarrow> (case snd x of Login ip u p \<Rightarrow> True | _ \<Rightarrow> False)"

definition op_ok :: "auth_env \<times> auth_op \<Rightarrow> bool" where
  "op_ok x \<longleftrightarrow> (case x of (env, op) \<Rightarrow> (\<forall>xs. mset (at_order env xs) = mset xs) \<and>
     (case op of Login ip u p \<Rightarrow> length u \<le> u64_max \<and> length p \<le> u64_max | _ \<Rightarrow> True))"

definition config_ok :: "auth_config \<Rightarrow> bool" where
  "config_ok cfg \<longleftrightarrow> ac_enabled cfg \<and> length (ac_username cfg) \<le> u64_max \<and> length (ac_password cfg) \<le> u64_max"

text \<open>The sessions are rows of the table, and the rows that are live after \<open>c\<close> are sessions.\<close>

definition in_table :: "(bytes \<times> nat) list \<Rightarrow> (bytes \<rightharpoonup> nat) \<Rightarrow> bool" where
  "in_table ss m \<longleftrightarrow> (\<forall>t e. map_of ss t = Some e \<longrightarrow> m t = Some e)"

definition covers :: "nat \<Rightarrow> (bytes \<times> nat) list \<Rightarrow> (bytes \<rightharpoonup> nat) \<Rightarrow> bool" where
  "covers c ss m \<longleftrightarrow> (\<forall>t e. m t = Some e \<longrightarrow> c < e \<longrightarrow> map_of ss t = Some e)"

text \<open>\<open>c\<close> is the last reading of the clock, \<open>n\<close> the number of logins so far.\<close>

definition refines :: "auth_config \<Rightarrow> nat \<Rightarrow> nat \<Rightarrow> (bytes \<rightharpoonup> nat) \<Rightarrow> auth_manager \<Rightarrow> bool" where
  "refines cfg c n m a \<longleftrightarrow> am_cfg a = cfg \<and> distinct (map fst (am_sessions a)) \<and> in_table (am_sessions a) m \<and>
     length (am_sessions a) \<le> min n max_sessions \<and> (n \<le> max_sessions \<longrightarrow> covers c (am_sessions a) m)"

lemma oldest_session_in: "oldest_session xs = Some t \<Longrightarrow> t \<in> fst ` set xs"
proof -
  have "fold (\<lambda>y best. if snd y < snd best then y else best) ys (x :: bytes \<times> nat) \<in> insert x (set ys)" for ys x
    by (induction ys arbitrary: x) fastforce+
  then show "oldest_session xs = Some t \<Longrightarrow> t \<in> fst ` set xs" by (cases xs) force+
qed

lemma map_of_live: "distinct (map fst ss) \<Longrightarrow> map_of (live_sessions now ss) t = (case map_of ss t of Some e \<Rightarrow> if now < e then Some e else None | None \<Rightarrow> None)"
  unfolding live_sessions_def by (induction ss) (auto split: option.splits simp: map_of_eq_None_iff)

lemma live_sessions_facts:
  shows "distinct (map fst ss) \<Longrightarrow> distinct (map fst (live_sessions now ss))" and "length (live_sessions now ss) \<le> length ss"
  by (simp_all add: live_sessions_def distinct_map_filter)

lemma table_live:
  assumes "distinct (map fst ss)"
  shows "in_table ss m \<Longrightarrow> in_table (live_sessions now ss) m" and "covers c ss m \<Longrightarrow> c \<le> now \<Longrightarrow> covers now (live_sessions now ss) m"
  using assms by (auto simp: in_table_def covers_def map_of_live split: option.splits if_splits)

lemma table_delete:
  "in_table ss m \<Longrightarrow> in_table (AList.delete t ss) m" "in_table ss m \<Longrightarrow> in_table (AList.delete t ss) (m(t := None))"
  "covers c ss m \<Longrightarrow> covers c (AList.delete t ss) (m(t := None))"
  by (auto simp: in_table_def covers_def AList.delete_conv')

lemma table_update:
  "in_table ss m \<Longrightarrow> in_table (AList.update t e ss) (m(t \<mapsto> e))" "covers c ss m \<Longrightarrow> covers c (AList.update t e ss) (m(t \<mapsto> e))"
  by (auto simp: in_table_def covers_def AList.update_conv')

lemma covers_later: "covers c ss m \<Longrightarrow> c \<le> c' \<Longrightarrow> covers c' ss m"
  by (auto simp: covers_def)

lemma is_rate_limited_frame:
  "is_rate_limited now ip a = (limited, a') \<Longrightarrow> am_sessions a' = am_sessions a \<and> am_cfg a' = am_cfg a"
  by (auto simp: is_rate_limited_def Let_def)

lemma record_failure_frame [simp]: "am_sessions (record_failure now ip a) = am_sessions a" "am_cfg (record_failure now ip a) = am_cfg a"
  by (simp_all add: record_failure_def Let_def)


lemma delete_shorter: "t \<in> fst ` set xs \<Longrightarrow> length (AList.delete t xs) < length xs"
  by (auto simp: AList.delete_eq intro!: length_filter_less)

lemma update_longer: "length (AList.update k v xs) \<le> Suc (length xs)"
  by (induction xs) auto

text \<open>Every operation on the sessions keeps the refinement.\<close>

lemma open_session_refines:
  assumes r: "refines cfg c n m a" and "c \<le> at_session env" and o: "\<forall>xs. mset (at_order env xs) = mset xs"
  shows "refines cfg (at_session env) (Suc n) (m(at_token env \<mapsto> at_session env + ac_session_ttl cfg)) (open_session env a)"
proof -
  let ?now = "at_session env" and ?ss = "live_sessions (at_session env) (am_sessions a)"
  define ss where "ss = (if length ?ss \<ge> max_sessions
      then (case oldest_session (at_order env ?ss) of None \<Rightarrow> ?ss | Some oldest \<Rightarrow> AList.delete oldest ?ss) else ?ss)"
  have a: "am_cfg a = cfg" "distinct (map fst (am_sessions a))" "in_table (am_sessions a) m" "length (am_sessions a) \<le> min n max_sessions"
    using r by (auto simp: refines_def)
  have d: "distinct (map fst ?ss)" and l: "length ?ss \<le> min n max_sessions" using a live_sessions_facts [where ss = "am_sessions a" and now = ?now] by auto
  have sub: "in_table ss m" using table_live(1) [OF a(2,3)] table_delete(1) by (auto simp: ss_def split: option.splits)
  have ds: "distinct (map fst ss)" using d by (auto simp: ss_def AList.distinct_delete split: option.splits)
  have "length ss < max_sessions \<and> length ss \<le> n"
  proof (cases "length ?ss \<ge> max_sessions")
    case True
    then have "?ss \<noteq> []" by (auto simp: max_sessions_def)
    then have "at_order env ?ss \<noteq> []" using o by (metis mset_zero_iff)
    then obtain t where t: "oldest_session (at_order env ?ss) = Some t" by (cases "at_order env ?ss") auto
    with oldest_session_in have "t \<in> fst ` set ?ss" using o by (metis set_mset_mset)
    from delete_shorter [OF this] l True t show ?thesis by (simp add: ss_def)
  qed (use l in \<open>simp add: ss_def\<close>)
  then have len: "length ss < max_sessions" "length ss \<le> n" by auto
  have all: "covers ?now ss m" if "Suc n \<le> max_sessions"
    using that r table_live(2) [OF a(2) _ assms(2)] l by (simp add: ss_def refines_def)
  have "open_session env a = a\<lparr>am_sessions := AList.update (at_token env) (?now + ac_session_ttl cfg) ss\<rparr>"
    by (simp add: open_session_def Let_def ss_def a(1))
  then show ?thesis
    using a(1) table_update(1) [OF sub] ds len all table_update(2) update_longer [of "at_token env" "?now + ac_session_ttl cfg" ss]
    by (simp add: refines_def AList.distinct_update)
qed


lemma refines_clock: "refines cfg c n m a \<Longrightarrow> c \<le> c' \<Longrightarrow> n \<le> n' \<Longrightarrow> refines cfg c' n' m a"
  using covers_later by (auto simp: refines_def)

lemma refines_failures: "refines cfg c n m (a\<lparr>am_failures := fs\<rparr>) \<longleftrightarrow> refines cfg c n m a"
  by (simp add: refines_def)

lemma refines_sessions: "am_sessions a' = am_sessions a \<Longrightarrow> am_cfg a' = am_cfg a \<Longrightarrow> refines cfg c n m a \<Longrightarrow> refines cfg c n m a'"
  by (simp add: refines_def)

lemma live_refines:
  assumes "refines cfg c n m a" "c \<le> now"
  shows "refines cfg now n m (a\<lparr>am_sessions := live_sessions now (am_sessions a)\<rparr>)"
  using assms live_sessions_facts [where ss = "am_sessions a" and now = now] 
    table_live(1) [where ss = "am_sessions a" and m = m and now = now] table_live(2) [where ss = "am_sessions a" and m = m and now = now and c = c]
  by (auto simp: refines_def)

lemma logout_refines:
  assumes "refines cfg c n m a"
  shows "refines cfg c n (case session_token headers of None \<Rightarrow> m | Some token \<Rightarrow> m(token := None)) (logout headers a)"
proof (cases "session_token headers")
  case (Some token)
  have "length (AList.delete token (am_sessions a)) \<le> length (am_sessions a)" by (rule AList.length_delete_le)
  then show ?thesis
    using assms table_delete(2,3) by (auto simp: Some refines_def logout_def AList.distinct_delete)
qed (use assms in \<open>simp add: logout_def\<close>)


lemma login_refines:
  assumes r: "refines cfg c n m a" and cfg: "config_ok cfg" and "c \<le> at_session env" and ok: "op_ok (env, Login ip username password)"
    and l: "login env ip username password a = (res, a')"
  shows "refines cfg (at_session env) (Suc n) (table_step cfg ((env, Login ip username password), LoginResult res) m) a'"
proof -
  have c: "am_cfg a = cfg" "ac_enabled cfg" using r cfg by (auto simp: refines_def config_ok_def)
  obtain limited a1 where rl: "is_rate_limited (at_limit env) ip a = (limited, a1)" by fastforce
  then have a1: "am_cfg a1 = cfg" "refines cfg c n m a1"
    using is_rate_limited_frame [OF rl] refines_sessions [OF _ _ r, of a1] c by auto
  have same: "constant_time_eq username (ac_username cfg) \<longleftrightarrow> username = ac_username cfg"
      "constant_time_eq password (ac_password cfg) \<longleftrightarrow> password = ac_password cfg"
    using ok cfg by (auto simp: op_ok_def config_ok_def constant_time_eq_iff)
  let ?right = "username = ac_username cfg \<and> password = ac_password cfg"
  let ?a2 = "a1\<lparr>am_failures := AList.delete ip (am_failures a1)\<rparr>"
  have L: "(res, a') = (if limited then (Inl RateLimited, a1) else if \<not> ?right then (Inl Forbidden, record_failure (at_failure env) ip a1)
      else (Inr (at_token env), open_session env ?a2))"
    using l same by (cases limited; cases ?right) (simp_all add: login_def rl c(1,2) a1(1))
  consider "res = Inl RateLimited" "a' = a1" | "res = Inl Forbidden" "a' = record_failure (at_failure env) ip a1"
    | "res = Inr (at_token env)" "?right" "a' = open_session env ?a2"
    using L by (cases limited; cases ?right) auto
  then show ?thesis
  proof cases
    case 3
    have "refines cfg c n m ?a2" using a1(2) by (simp add: refines_failures)
    from open_session_refines [OF this assms(3)] ok 3 show ?thesis by (simp add: table_step_def op_ok_def)
  next
    case 2
    have "refines cfg c n m a'" by (rule refines_sessions [OF _ _ a1(2)]) (simp_all add: 2)
    then show ?thesis using refines_clock [of cfg c n m a' "at_session env" "Suc n"] assms(3) by (simp add: table_step_def 2(1))
  next
    case 1
    then show ?thesis using refines_clock [OF a1(2) assms(3), of "Suc n"] by (simp add: table_step_def)
  qed
qed

lemma authorize_refines:
  assumes r: "refines cfg c n m a" and "config_ok cfg" "c \<le> now" and l: "is_authorized decode now headers a = (res, a')"
  shows "refines cfg now n m a'"
  using refines_clock [OF r assms(3) order_refl] live_refines [OF r assms(3)] l
  by (auto simp: is_authorized_def valid_session_def Let_def split: if_splits option.splits)

lemma auth_step_refines:
  assumes r: "refines cfg c n m a" and "config_ok cfg" "c \<le> at_session env" "op_ok (env, op)" and l: "auth_step decode env op a = (res, a')"
  shows "refines cfg (at_session env) (n + (if is_login (env, op) then 1 else 0)) (table_step cfg ((env, op), res) m) a'"
proof (cases op)
  case (Login ip u p)
  with l obtain q where "login env ip u p a = (q, a')" "res = LoginResult q" by (auto simp: auth_step_def split: prod.splits)
  with login_refines [OF r assms(2,3)] assms(4) Login show ?thesis by (simp add: is_login_def)
next
  case (Authorize h)
  with l obtain q where "is_authorized decode (at_session env) h a = (q, a')" "res = Authorized q" by (auto simp: auth_step_def split: prod.splits)
  with authorize_refines [OF r assms(2,3)] Authorize show ?thesis by (simp add: is_login_def table_step_def)
next
  case (Logout h)
  with l have "a' = logout h a" "res = LoggedOut" by (auto simp: auth_step_def)
  with refines_clock [OF logout_refines [OF r] assms(3) order_refl] Logout show ?thesis by (simp add: is_login_def table_step_def)
qed

lemma auth_run_refines:
  assumes "refines cfg c n m a" "config_ok cfg" "list_all op_ok ops" "sorted (c # map (at_session \<circ> fst) ops)"
    and "auth_run decode ops a = (results, a')"
  shows "\<exists>c'. c' \<in> insert c (at_session ` fst ` set ops) \<and>
    refines cfg c' (n + length (filter is_login ops)) (fold (table_step cfg) (zip ops results) m) a'"
  using assms
proof (induction ops arbitrary: c n m a results)
  case (Cons x ops)
  obtain env op where x: "x = (env, op)" by fastforce
  obtain r a1 rs where st: "auth_step decode env op a = (r, a1)" "auth_run decode ops a1 = (rs, a')" "results = r # rs"
    using Cons.prems(5) by (auto simp: x split: prod.splits)
  have "refines cfg (at_session env) (n + (if is_login (env, op) then 1 else 0)) (table_step cfg ((env, op), r) m) a1"
    using auth_step_refines [OF Cons.prems(1,2) _ _ st(1)] Cons.prems(3,4) x by simp
  from Cons.IH [OF this Cons.prems(2) _ _ st(2)] Cons.prems(3,4) obtain c' where
    "c' \<in> insert (at_session env) (at_session ` fst ` set ops)"
    "refines cfg c' (n + (if is_login (env, op) then 1 else 0) + length (filter is_login ops))
       (fold (table_step cfg) (zip ops rs) (table_step cfg ((env, op), r) m)) a'" by (auto simp: x)
  then show ?case by (cases "is_login (env, op)") (auto simp: x st(3) intro!: exI [of _ c'])
qed (auto simp: refines_def)


text \<open>What a request needs: the configured name and password as Basic credentials, or the token of a live row.\<close>

definition granted :: "auth_config \<Rightarrow> (bytes \<Rightarrow> bytes option) \<Rightarrow> nat \<Rightarrow> (bytes \<rightharpoonup> nat) \<Rightarrow> auth_headers \<Rightarrow> bool" where
  "granted cfg decode now m headers \<longleftrightarrow> basic_credentials decode headers = Some (ac_username cfg, ac_password cfg) \<or>
     (\<exists>t e. session_token headers = Some t \<and> m t = Some e \<and> now < e)"

definition decode_ok :: "(bytes \<Rightarrow> bytes option) \<Rightarrow> bool" where
  "decode_ok decode \<longleftrightarrow> (\<forall>bs out. decode bs = Some out \<longrightarrow> length out \<le> u64_max)"

lemma splitn2_length: "splitn2 c bs = (x, Some y) \<Longrightarrow> length x \<le> length bs \<and> length y \<le> length bs"
  by (auto simp: splitn2_def length_takeWhile_le length_dropWhile_le le_diff_conv split: if_splits intro: le_SucI [OF length_dropWhile_le])

lemma valid_basic_iff:
  assumes "config_ok cfg" "decode_ok decode" "am_cfg a = cfg"
  shows "valid_basic decode headers a \<longleftrightarrow> basic_credentials decode headers = Some (ac_username cfg, ac_password cfg)"
proof (cases "basic_credentials decode headers")
  case (Some nw)
  obtain name word' where nw: "nw = (name, word')" by fastforce
  from Some obtain bs out where "decode bs = Some out" "splitn2 58 out = (name, Some word')"
    by (auto simp: basic_credentials_def nw split: option.splits prod.splits)
  then have "length name \<le> u64_max" "length word' \<le> u64_max"
    using assms(2) splitn2_length by (fastforce simp: decode_ok_def)+
  then show ?thesis using assms(1,3) by (simp add: valid_basic_def Some nw config_ok_def constant_time_eq_iff)
qed (simp add: valid_basic_def)

lemma authorized_iff:
  assumes r: "refines cfg c n m a" and cfg: "config_ok cfg" "decode_ok decode" "c \<le> now"
  shows "fst (is_authorized decode now headers a) \<Longrightarrow> granted cfg decode now m headers"
    and "n \<le> max_sessions \<Longrightarrow> granted cfg decode now m headers \<Longrightarrow> fst (is_authorized decode now headers a)"
proof -
  have a: "am_cfg a = cfg" "distinct (map fst (am_sessions a))" "in_table (am_sessions a) m" "n \<le> max_sessions \<Longrightarrow> covers c (am_sessions a) m"
    and e: "ac_enabled cfg" using r cfg(1) by (auto simp: refines_def config_ok_def)
  note b = valid_basic_iff [OF cfg(1,2) a(1), of headers]
  have s: "fst (valid_session now t a) \<longleftrightarrow> (\<exists>x. map_of (am_sessions a) t = Some x \<and> now < x)" for t
    using a(2) by (auto simp: valid_session_def Let_def map_of_live split: option.splits)
  have i: "fst (is_authorized decode now headers a) \<longleftrightarrow> valid_basic decode headers a \<or>
      (\<exists>t. session_token headers = Some t \<and> fst (valid_session now t a))"
    using a(1) e by (auto simp: is_authorized_def split: option.splits)
  show "fst (is_authorized decode now headers a) \<Longrightarrow> granted cfg decode now m headers"
    using a(3) unfolding i b s granted_def in_table_def by blast
  assume "n \<le> max_sessions" and g: "granted cfg decode now m headers"
  then have "covers now (am_sessions a) m" using a(4) covers_later cfg(3) by blast
  with g show "fst (is_authorized decode now headers a)" unfolding i b s granted_def covers_def by blast
qed

text \<open>C38: Sessions are what the logins made them. After any history of logins, requests and logouts a request passes only with
  the configured name and password as Basic credentials, or with the token that a login with that name and password
  was given, which no logout has ended and whose time is not over; and as long as there were no more logins than
  sessions fit, every such request passes. There are never more sessions than the limit.\<close>

theorem sessions_refine_table:
  assumes "config_ok cfg" "decode_ok decode" "list_all op_ok ops" "sorted (map (at_session \<circ> fst) ops @ [now])"
    and "auth_run decode ops (new_auth cfg) = (results, a)"
  shows "length (am_sessions a) \<le> max_sessions \<and>
    (fst (is_authorized decode now headers a) \<longrightarrow> granted cfg decode now (session_table cfg ops results) headers) \<and>
    (length (filter is_login ops) \<le> max_sessions \<longrightarrow>
       fst (is_authorized decode now headers a) = granted cfg decode now (session_table cfg ops results) headers)"
proof -
  have "refines cfg 0 0 Map.empty (new_auth cfg)"
    by (simp add: refines_def new_auth_def in_table_def covers_def)
  moreover have "sorted (0 # map (at_session \<circ> fst) ops)" using assms(4) by (simp add: sorted_append)
  ultimately obtain c where c: "c \<in> insert 0 (at_session ` fst ` set ops)"
      "refines cfg c (length (filter is_login ops)) (session_table cfg ops results) a"
    using auth_run_refines [OF _ assms(1,3) _ assms(5), of 0 0 Map.empty] by (auto simp: session_table_def)
  have "c \<le> now" using c(1) assms(4) by (auto simp: sorted_append)
  from authorized_iff [OF c(2) assms(1,2) this, of headers] c(2) show ?thesis
    by (auto simp: refines_def)
qed


subsection \<open>Guessing at the login\<close>

definition guess_of :: "ip_addr \<Rightarrow> (auth_env \<times> auth_op) \<times> auth_result \<Rightarrow> bool" where
  "guess_of ip x \<longleftrightarrow> (case x of ((env, Login ip' u p), LoginResult (Inl Forbidden)) \<Rightarrow> ip' = ip | _ \<Rightarrow> False)"

definition success_of :: "ip_addr \<Rightarrow> (auth_env \<times> auth_op) \<times> auth_result \<Rightarrow> bool" where
  "success_of ip x \<longleftrightarrow> (case x of ((env, Login ip' u p), LoginResult (Inr t)) \<Rightarrow> ip' = ip | _ \<Rightarrow> False)"

text \<open>How many failures the table of failures leaves a sender in a period that begins at \<open>t0\<close>: what its window leaves
  if that began later, a whole window more if it began earlier.\<close>

definition guesses_left :: "nat \<Rightarrow> ip_addr \<Rightarrow> auth_manager \<Rightarrow> nat" where
  "guesses_left t0 ip a =
     (case map_of (am_failures a) ip of
        None \<Rightarrow> login_max_failures
      | Some st \<Rightarrow> (login_max_failures - lf_failures st) + (if lf_window_started st < t0 then login_max_failures else 0))"

definition in_period :: "nat \<Rightarrow> auth_env \<times> auth_op \<Rightarrow> bool" where
  "in_period t0 x \<longleftrightarrow> (case x of (env, op) \<Rightarrow> t0 \<le> at_limit env \<and> at_limit env < t0 + login_window \<and>
     t0 \<le> at_failure env \<and> at_failure env < t0 + login_window)"

lemma map_of_filter_distinct:
  "distinct (map fst xs) \<Longrightarrow> map_of (filter (\<lambda>(k, v). P v) xs) k = (case map_of xs k of Some v \<Rightarrow> if P v then Some v else None | None \<Rightarrow> None)"
  by (induction xs) (auto split: option.splits simp: map_of_eq_None_iff)

lemma rate_limit_left:
  assumes d: "distinct (map fst (am_failures a))" and "t0 \<le> now" "now < t0 + login_window" and l: "is_rate_limited now ip' a = (limited, a')"
  shows "guesses_left t0 ip a' \<le> guesses_left t0 ip a" and "distinct (map fst (am_failures a'))"
    and "\<not> limited \<Longrightarrow> (case map_of (am_failures a') ip' of None \<Rightarrow> True | Some st \<Rightarrow> lf_failures st < login_max_failures)"
proof -
  have a': "am_failures a' = filter (\<lambda>(_, st). now - lf_window_started st < login_window) (am_failures a)"
    "limited \<longleftrightarrow> (case map_of (am_failures a') ip' of None \<Rightarrow> False | Some st \<Rightarrow> lf_failures st \<ge> login_max_failures)"
    using l by (auto simp: is_rate_limited_def Let_def)
  show "guesses_left t0 ip a' \<le> guesses_left t0 ip a"
    using assms(2,3) d by (auto simp: guesses_left_def a'(1) map_of_filter_distinct split: option.splits)
  show "distinct (map fst (am_failures a'))" using d by (simp add: a'(1) distinct_map_filter)
  show "\<not> limited \<Longrightarrow> (case map_of (am_failures a') ip' of None \<Rightarrow> True | Some st \<Rightarrow> lf_failures st < login_max_failures)"
    using a'(2) by (auto split: option.splits)
qed

lemma record_failure_left:
  assumes "case map_of (am_failures a) ip of None \<Rightarrow> True | Some st \<Rightarrow> lf_failures st < login_max_failures"
    and "t0 \<le> now" "now < t0 + login_window"
  shows "Suc (guesses_left t0 ip (record_failure now ip a)) \<le> guesses_left t0 ip a"
    and "ip' \<noteq> ip \<Longrightarrow> guesses_left t0 ip' (record_failure now ip a) = guesses_left t0 ip' a"
  using assms
  by (auto simp: guesses_left_def record_failure_def Let_def AList.update_conv' login_max_failures_def login_window_def split: option.splits)


lemma login_left:
  assumes d: "distinct (map fst (am_failures a))" and p: "in_period t0 (env, Login ip' u p)" and l: "login env ip' u p a = (res, a')"
    and no: "\<not> success_of ip ((env, Login ip' u p), LoginResult res)"
  shows "guesses_left t0 ip a' + (if guess_of ip ((env, Login ip' u p), LoginResult res) then 1 else 0) \<le> guesses_left t0 ip a
    \<and> distinct (map fst (am_failures a'))"
proof (cases "ac_enabled (am_cfg a)")
  case True
  obtain limited a1 where rl: "is_rate_limited (at_limit env) ip' a = (limited, a1)" by fastforce
  have t: "t0 \<le> at_limit env" "at_limit env < t0 + login_window" "t0 \<le> at_failure env" "at_failure env < t0 + login_window"
    using p by (auto simp: in_period_def)
  note R = rate_limit_left [OF d t(1,2) rl]
  let ?right = "constant_time_eq u (ac_username (am_cfg a1)) \<and> constant_time_eq p (ac_password (am_cfg a1))"
  have L: "login env ip' u p a = (if limited then (Inl RateLimited, a1) else if \<not> ?right then (Inl Forbidden, record_failure (at_failure env) ip' a1)
      else (Inr (at_token env), open_session env (a1\<lparr>am_failures := AList.delete ip' (am_failures a1)\<rparr>)))"
    using True by (cases limited; cases ?right) (simp_all add: login_def rl)
  consider "res = Inl RateLimited" "a' = a1" | "\<not> limited" "res = Inl Forbidden" "a' = record_failure (at_failure env) ip' a1"
    | "res = Inr (at_token env)" "am_failures a' = AList.delete ip' (am_failures a1)"
    using l unfolding L by (cases limited; cases ?right) (auto simp: open_session_def Let_def)
  then show ?thesis
  proof cases
    case 1
    then show ?thesis using R(1) [of ip] R(2) by (simp add: guess_of_def)
  next
    case 2
    note F = record_failure_left [OF R(3) [OF 2(1)] t(3,4)]
    have "distinct (map fst (am_failures a'))" using R(2) by (simp add: 2(3) record_failure_def Let_def AList.distinct_update)
    then show ?thesis using F(1) F(2) [of ip] R(1) [of ip] 2 by (cases "ip' = ip") (auto simp: guess_of_def)
  next
    case 3
    then have "ip' \<noteq> ip" using no by (auto simp: success_of_def)
    then have "guesses_left t0 ip a' = guesses_left t0 ip a1" using 3(2) by (simp add: guesses_left_def AList.delete_conv')
    then show ?thesis using R(1) [of ip] R(2) 3 by (simp add: guess_of_def AList.distinct_delete)
  qed
qed (use d l in \<open>auto simp: login_def guess_of_def\<close>)

lemma auth_step_left:
  assumes d: "distinct (map fst (am_failures a))" and p: "in_period t0 (env, op)" and l: "auth_step decode env op a = (res, a')"
    and no: "\<not> success_of ip ((env, op), res)"
  shows "guesses_left t0 ip a' + (if guess_of ip ((env, op), res) then 1 else 0) \<le> guesses_left t0 ip a \<and> distinct (map fst (am_failures a'))"
proof (cases op)
  case (Login ip' u q)
  with l obtain r where "login env ip' u q a = (r, a')" "res = LoginResult r" by (auto simp: auth_step_def split: prod.splits)
  with login_left [OF d, of t0 env ip' u q r a' ip] p no Login show ?thesis by simp
next
  case (Authorize h)
  with l have "am_failures a' = am_failures a"
    by (auto simp: auth_step_def is_authorized_def valid_session_def Let_def split: prod.splits if_splits option.splits)
  with d Authorize show ?thesis by (simp add: guess_of_def guesses_left_def)
next
  case (Logout h)
  with l have "am_failures a' = am_failures a" by (auto simp: auth_step_def logout_def split: option.splits)
  with d Logout show ?thesis by (simp add: guess_of_def guesses_left_def)
qed

lemma auth_run_left:
  assumes "distinct (map fst (am_failures a))" "list_all (in_period t0) ops" "auth_run decode ops a = (results, a')"
    and "list_all (\<lambda>x. \<not> success_of ip x) (zip ops results)"
  shows "guesses_left t0 ip a' + length (filter (guess_of ip) (zip ops results)) \<le> guesses_left t0 ip a"
  using assms
proof (induction ops arbitrary: a results)
  case (Cons x ops)
  obtain env op where x: "x = (env, op)" by fastforce
  obtain r a1 rs where st: "auth_step decode env op a = (r, a1)" "auth_run decode ops a1 = (rs, a')" "results = r # rs"
    using Cons.prems(3) by (auto simp: x split: prod.splits)
  have S: "guesses_left t0 ip a1 + (if guess_of ip ((env, op), r) then 1 else 0) \<le> guesses_left t0 ip a" "distinct (map fst (am_failures a1))"
    using auth_step_left [OF Cons.prems(1) _ st(1), of t0 ip] Cons.prems(2,4) x st(3) by auto
  from Cons.IH [OF S(2) _ st(2)] Cons.prems(2,4) S(1) show ?case by (auto simp: x st(3))
qed simp

lemma auth_step_distinct:
  assumes "auth_step decode env op a = (res, a')" "distinct (map fst (am_failures a))"
  shows "distinct (map fst (am_failures a'))"
  using assms
  by (auto simp: auth_step_def login_def is_rate_limited_def record_failure_def open_session_def logout_def is_authorized_def
      valid_session_def Let_def distinct_map_filter AList.distinct_update AList.distinct_delete
      split: auth_op.splits prod.splits if_splits option.splits)

lemma auth_run_distinct:
  "auth_run decode ops a = (results, a') \<Longrightarrow> distinct (map fst (am_failures a)) \<Longrightarrow> distinct (map fst (am_failures a'))"
proof (induction ops arbitrary: a results)
  case (Cons x ops)
  then show ?case by (cases x) (auto split: prod.splits dest: auth_step_distinct)
qed simp

text \<open>C39: Guessing at the login is bounded, for requests served one after the other. After any history, in any period as long as the window of a minute, a sender none of
  whose logins succeeds has at most sixteen passwords tried, eight for each window that the period can meet, and at most
  eight if no failure of that sender is on record when the period begins; whatever other senders do meanwhile, all other
  attempts are turned down before the password is looked at.\<close>

theorem login_guesses_bounded:
  assumes "auth_run decode history (new_auth cfg) = (rs, a)" "auth_run decode ops a = (results, a')"
    and "list_all (in_period t0) ops" "list_all (\<lambda>x. \<not> success_of ip x) (zip ops results)"
  shows "length (filter (guess_of ip) (zip ops results)) \<le> (if map_of (am_failures a) ip = None then 8 else 16)"
proof -
  have "distinct (map fst (am_failures a))" using auth_run_distinct [OF assms(1)] by (simp add: new_auth_def)
  from auth_run_left [OF this assms(3,2,4)] show ?thesis
    by (auto simp: guesses_left_def login_max_failures_def split: option.splits if_splits)
qed

subsection \<open>An example\<close>

definition auth_example_cfg :: auth_config where
  "auth_example_cfg = \<lparr>ac_enabled = True, ac_username = [97], ac_password = [98], ac_session_ttl = 100, ac_cookie_secure = False\<rparr>"

definition auth_example_env :: "nat \<Rightarrow> bytes \<Rightarrow> auth_env" where
  "auth_example_env now token = \<lparr>at_limit = now, at_failure = now, at_session = now, at_token = token, at_order = (\<lambda>xs. xs)\<rparr>"

definition auth_example_request :: "bytes \<Rightarrow> auth_headers" where
  "auth_example_request token = \<lparr>ah_authorization = None, ah_cookie = Some (session_cookie @ 61 # token)\<rparr>"

definition auth_example_ops :: "(auth_env \<times> auth_op) list" where
  "auth_example_ops = [(auth_example_env 5 [48], Login (V4 1) [97] [99]), (auth_example_env 6 [49], Login (V4 1) [97] [98])]"

lemmas auth_eval = auth_example_cfg_def auth_example_env_def auth_example_ops_def auth_step_def login_def is_rate_limited_def
  record_failure_def open_session_def live_sessions_def new_auth_def constant_time_eq_iff login_window_def login_max_failures_def max_sessions_def

lemma auth_example_run:
  "\<exists>a. auth_run (\<lambda>_. None) auth_example_ops (new_auth auth_example_cfg) = ([LoginResult (Inl Forbidden), LoginResult (Inr [49])], a)"
  by (simp add: auth_eval)

lemma auth_example_token: "session_token (auth_example_request [49]) = Some [49]"
  by code_simp

theorem sessions_refine_table_witness:
  "\<exists>results a. auth_run (\<lambda>_. None) auth_example_ops (new_auth auth_example_cfg) = (results, a) \<and>
    length (am_sessions a) \<le> max_sessions \<and> fst (is_authorized (\<lambda>_. None) 50 (auth_example_request [49]) a) = True"
proof -
  obtain a where run: "auth_run (\<lambda>_. None) auth_example_ops (new_auth auth_example_cfg) = ([LoginResult (Inl Forbidden), LoginResult (Inr [49])], a)"
    using auth_example_run by blast
  have "config_ok auth_example_cfg" "decode_ok (\<lambda>_. None)" "list_all op_ok auth_example_ops"
    "sorted (map (at_session \<circ> fst) auth_example_ops @ [50])" "length (filter is_login auth_example_ops) \<le> max_sessions"
    by (simp_all add: config_ok_def decode_ok_def op_ok_def is_login_def auth_eval)
  note T = sessions_refine_table [OF this(1-4) run, of "auth_example_request [49]"] this(5)
  have "granted auth_example_cfg (\<lambda>_. None) 50 (session_table auth_example_cfg auth_example_ops [LoginResult (Inl Forbidden), LoginResult (Inr [49])])
      (auth_example_request [49])"
    by (simp add: granted_def auth_example_token session_table_def table_step_def auth_example_ops_def auth_example_cfg_def auth_example_env_def)
  with T run show ?thesis by auto
qed

lemma wrong_word:
  "auth_run decode (replicate n (env, Login ip u p)) a = (results, a') \<Longrightarrow> ac_enabled (am_cfg a) \<Longrightarrow>
   \<not> constant_time_eq p (ac_password (am_cfg a)) \<Longrightarrow> list_all (\<lambda>x. \<not> success_of ip x) (zip (replicate n (env, Login ip u p)) results)"
proof (induction n arbitrary: a results)
  case (Suc n)
  obtain r a1 rs where st: "login env ip u p a = (r, a1)" "auth_run decode (replicate n (env, Login ip u p)) a1 = (rs, a')" "results = LoginResult r # rs"
    using Suc.prems(1) by (auto simp: auth_step_def split: prod.splits)
  from st(1) Suc.prems(2,3) have "am_cfg a1 = am_cfg a" "\<exists>e. r = Inl e"
    by (auto simp: login_def is_rate_limited_def Let_def split: if_splits)
  with Suc.IH [OF st(2)] Suc.prems(2,3) st(3) show ?case by (auto simp: success_of_def)
qed simp

abbreviation auth_example_guesses :: "(auth_env \<times> auth_op) list" where
  "auth_example_guesses \<equiv> replicate 20 (auth_example_env 5 [48], Login (V4 1) [97] [99])"

theorem login_guesses_bounded_witness:
  "\<exists>results a. auth_run (\<lambda>_. None) auth_example_guesses (new_auth auth_example_cfg) = (results, a) \<and>
    length (filter (guess_of (V4 1)) (zip auth_example_guesses results)) \<le> 8"
proof -
  obtain results a where run: "auth_run (\<lambda>_. None) auth_example_guesses (new_auth auth_example_cfg) = (results, a)" by fastforce
  have "list_all (\<lambda>x. \<not> success_of (V4 1) x) (zip auth_example_guesses results)"
    by (rule wrong_word [OF run]) (simp_all add: new_auth_def auth_example_cfg_def constant_time_eq_iff)
  moreover have "list_all (in_period 0) auth_example_guesses" by (simp add: list_all_iff in_period_def auth_example_env_def login_window_def)
  moreover have "auth_run (\<lambda>_. None) [] (new_auth auth_example_cfg) = ([], new_auth auth_example_cfg)" by simp
  ultimately have "length (filter (guess_of (V4 1)) (zip auth_example_guesses results)) \<le> 8"
    using login_guesses_bounded [of "\<lambda>_. None" "[]" auth_example_cfg "[]" "new_auth auth_example_cfg" auth_example_guesses results a 0 "V4 1"] run
    by (simp add: new_auth_def)
  with run show ?thesis by blast
qed

end
