(* ===== verification/Affinity.thy ===== *)
theory Affinity
  imports Bazalt_Prelude
begin

text \<open>
  The layout of workers on CPUs, \<open>adaptive_plan\<close> of \<open>src/src/affinity.rs\<close>. What the system answers is an argument:
  the CPUs of the process (\<open>allowed_cpus\<close>, which may fail) and \<open>available_parallelism\<close>. Counts are natural
  numbers, the deficits of \<open>distribute_stage_workers\<close> integers.
\<close>

record cpu_plan =
  cp_allowed :: "nat list"
  cp_budget :: nat
  cp_capture_cpus :: "nat list"
  cp_flow_cpus :: "nat list"
  cp_l7_cpus :: "nat list"
  cp_matcher_cpus :: "nat list"
  cp_flow_workers :: nat
  cp_l7_workers :: nat
  cp_matcher_workers :: nat
  cp_replay_workers :: nat
  cp_tokio_workers :: nat

definition clamp :: "nat \<Rightarrow> nat \<Rightarrow> nat \<Rightarrow> nat" where
  "clamp low high n = (if n < low then low else if n > high then high else n)"

definition default_cpu_budget :: "nat \<Rightarrow> nat" where
  "default_cpu_budget available =
     (let available = max available 1 in if available \<le> 4 then available else clamp 4 available ((available * 3 + 3) div 4))"

definition stage_weights :: "nat list" where
  "stage_weights = [30, 40, 30]"

text \<open>The stage that lacks most of its share, the first one among equals.\<close>

definition most_lacking :: "nat \<Rightarrow> nat list \<Rightarrow> nat" where
  "most_lacking target counts =
     fst (fold (\<lambda>i (best, best_deficit).
            let deficit = int (stage_weights ! i * target) - int (counts ! i * 100)
            in case best_deficit of None \<Rightarrow> (i, Some deficit) | Some d \<Rightarrow> if deficit > d then (i, Some deficit) else (best, best_deficit))
          [0, 1, 2] (0, None))"

definition most_surplus :: "nat \<Rightarrow> nat list \<Rightarrow> nat option" where
  "most_surplus target counts =
     map_option fst (fold (\<lambda>i best.
            if counts ! i \<le> 1 then best
            else let surplus = int (counts ! i * 100) - int (stage_weights ! i * target)
                 in case best of None \<Rightarrow> Some (i, surplus) | Some (b, s) \<Rightarrow> if surplus > s then Some (i, surplus) else best)
          [0, 1, 2] None)"

lemma most_lacking_less: "most_lacking target counts < 3"
  by (simp add: most_lacking_def Let_def split: option.splits if_splits)

lemma most_surplus_some: "most_surplus target counts = Some i \<Longrightarrow> i < 3 \<and> counts ! i > 1"
  by (auto simp: most_surplus_def Let_def split: option.splits if_splits prod.splits)

lemma sum_update: "i < length xs \<Longrightarrow> sum_list (xs[i := n]) + xs ! i = sum_list xs + (n :: nat)"
  by (induction xs arbitrary: i) (auto split: nat.splits)

function grow_stages :: "nat \<Rightarrow> nat list \<Rightarrow> nat list" where
  "grow_stages target counts =
     (if length counts = 3 \<and> sum_list counts < target
      then let best = most_lacking target counts in grow_stages target (counts[best := counts ! best + 1])
      else counts)"
  by pat_completeness auto
termination
proof (relation "measure (\<lambda>(target, counts). target - sum_list counts)", goal_cases)
  case (2 target counts best)
  then have "best < length counts" using most_lacking_less [of target counts] by simp
  from sum_update [OF this, of "counts ! best + 1"] 2 show ?case by (simp add: diff_less_mono2)
qed simp

declare grow_stages.simps [simp del]

function shrink_stages :: "nat \<Rightarrow> nat list \<Rightarrow> nat list" where
  "shrink_stages target counts =
     (if length counts = 3 \<and> sum_list counts > target
      then (case most_surplus target counts of None \<Rightarrow> counts | Some i \<Rightarrow> shrink_stages target (counts[i := counts ! i - 1]))
      else counts)"
  by pat_completeness auto
termination
proof (relation "measure (\<lambda>(target, counts). sum_list counts)", goal_cases)
  case (2 target counts i)
  then have i: "i < length counts" "counts ! i > 1" using most_surplus_some [of target counts i] by auto
  from sum_update [OF i(1), of "counts ! i - 1"] i show ?case by simp
qed simp

declare shrink_stages.simps [simp del]

definition distribute_stage_workers :: "nat \<Rightarrow> nat \<times> nat \<times> nat" where
  "distribute_stage_workers target =
     (let target = max target 3;
          counts = map (\<lambda>w. max (target * w div 100) 1) stage_weights;
          counts = shrink_stages target (grow_stages target counts)
      in (counts ! 0, counts ! 1, counts ! 2))"

definition take_wrapping :: "nat list \<Rightarrow> nat \<Rightarrow> nat \<Rightarrow> nat list" where
  "take_wrapping cpus start n = (if cpus = [] \<or> n = 0 then [] else map (\<lambda>i. cpus ! ((start + i) mod length cpus)) [0..<n])"

definition adaptive_plan :: "nat list option \<Rightarrow> nat option \<Rightarrow> nat \<Rightarrow> nat option \<Rightarrow> cpu_plan" where
  "adaptive_plan allowed_cpus parallelism capture_hint requested_budget =
     (let allowed = (case allowed_cpus of Some cpus \<Rightarrow> cpus | None \<Rightarrow> [0..<max (case parallelism of Some n \<Rightarrow> n | None \<Rightarrow> 1) 1]);
          allowed = (if allowed = [] then [0] else allowed);
          quota_hint = (case parallelism of Some n \<Rightarrow> n | None \<Rightarrow> length allowed);
          effective = min (length allowed) (max quota_hint 1);
          allowed = take effective allowed;
          budget = max (case requested_budget of
                          Some v \<Rightarrow> if v > 0 then min v (length allowed) else default_cpu_budget (length allowed)
                        | None \<Rightarrow> default_cpu_budget (length allowed)) 1;
          cpu_pool = take budget allowed;
          tokio_workers = (if budget \<ge> 8 then 2 else 1);
          capture_cap = clamp 1 4 (budget div 4);
          capture_reserve = (if capture_hint = 0 then 0 else min capture_hint capture_cap);
          post_budget = budget - (capture_reserve + tokio_workers);
          stage_budget = max post_budget 3;
          (flow_workers, l7_workers, matcher_workers) = distribute_stage_workers stage_budget;
          stage_start = min capture_reserve (length cpu_pool)
      in \<lparr>cp_allowed = allowed, cp_budget = budget,
          cp_capture_cpus = take_wrapping cpu_pool 0 (max capture_reserve (if capture_hint > 0 then 1 else 0)),
          cp_flow_cpus = take_wrapping cpu_pool stage_start flow_workers,
          cp_l7_cpus = take_wrapping cpu_pool (stage_start + flow_workers) l7_workers,
          cp_matcher_cpus = take_wrapping cpu_pool (stage_start + flow_workers + l7_workers) matcher_workers,
          cp_flow_workers = flow_workers, cp_l7_workers = l7_workers, cp_matcher_workers = matcher_workers,
          cp_replay_workers = (if budget \<ge> 24 then 3 else if budget \<ge> 12 then 2 else 1), cp_tokio_workers = tokio_workers\<rparr>)"


subsection \<open>The plan fits\<close>

text \<open>Three stages, none without a worker.\<close>

definition staffed :: "nat list \<Rightarrow> bool" where
  "staffed counts \<longleftrightarrow> length counts = 3 \<and> (\<forall>n \<in> set counts. 1 \<le> n)"

lemma staffed_update: "staffed counts \<Longrightarrow> n \<ge> 1 \<Longrightarrow> staffed (counts[i := n])"
  using set_update_subset_insert [of counts i n] by (auto simp: staffed_def)

lemma staffed_three: "staffed counts \<Longrightarrow> \<exists>a b c. counts = [a, b, c] \<and> 1 \<le> a \<and> 1 \<le> b \<and> 1 \<le> c"
  by (auto simp: staffed_def length_Suc_conv numeral_3_eq_3)

lemma grow_stages_ok: "staffed counts \<Longrightarrow> staffed (grow_stages target counts) \<and> sum_list (grow_stages target counts) = max (sum_list counts) target"
proof (induction target counts rule: grow_stages.induct)
  case (1 target counts)
  let ?b = "most_lacking target counts"
  show ?case
  proof (cases "sum_list counts < target")
    case True
    have b: "?b < length counts" using most_lacking_less [of target counts] 1(2) by (simp add: staffed_def)
    from 1(1) [OF _ refl] True 1(2) staffed_update [OF 1(2), of "counts ! ?b + 1" ?b] sum_update [OF b, of "counts ! ?b + 1"]
    show ?thesis by (subst (1 2) grow_stages.simps) (simp add: staffed_def Let_def)
  qed (use 1(2) in \<open>simp add: grow_stages.simps [of target counts]\<close>)
qed

lemma most_surplus_None: "staffed counts \<Longrightarrow> most_surplus target counts = None \<Longrightarrow> sum_list counts = 3"
proof -
  assume "staffed counts" and n: "most_surplus target counts = None"
  then obtain a b c where c: "counts = [a, b, c]" "1 \<le> a" "1 \<le> b" "1 \<le> c" using staffed_three by blast
  have "a \<le> 1 \<and> b \<le> 1 \<and> c \<le> 1"
    using n by (auto simp: most_surplus_def Let_def c(1) split: option.splits if_splits prod.splits)
  with c show ?thesis by simp
qed

lemma shrink_stages_ok:
  "staffed counts \<Longrightarrow> 3 \<le> target \<Longrightarrow> target \<le> sum_list counts \<Longrightarrow>
   staffed (shrink_stages target counts) \<and> sum_list (shrink_stages target counts) = target"
proof (induction target counts rule: shrink_stages.induct)
  case (1 target counts)
  show ?case
  proof (cases "sum_list counts > target")
    case True
    then obtain i where i: "most_surplus target counts = Some i" using most_surplus_None [OF 1(2), of target] 1(3) by (cases "most_surplus target counts") auto
    note B = most_surplus_some [OF i]
    have "staffed (counts[i := counts ! i - 1])" by (rule staffed_update) (use B 1(2) in auto)
    moreover have "sum_list (counts[i := counts ! i - 1]) + 1 = sum_list counts"
    proof -
      have "i < length counts" using B 1(2) by (simp add: staffed_def)
      from sum_update [OF this, of "counts ! i - 1"] B show ?thesis by linarith
    qed
    ultimately show ?thesis
      using 1(1) [OF _ i] 1(2,3) True i by (subst (1 2) shrink_stages.simps) (simp add: staffed_def)
  next
    case False
    then have "shrink_stages target counts = counts" by (subst shrink_stages.simps) simp
    with False 1(2-4) show ?thesis by simp
  qed
qed

lemma distribute_ok:
  "distribute_stage_workers target = (f, l, m) \<Longrightarrow> f \<ge> 1 \<and> l \<ge> 1 \<and> m \<ge> 1 \<and> f + l + m = max target 3"
proof -
  assume d: "distribute_stage_workers target = (f, l, m)"
  let ?t = "max target 3"
  define c0 where "c0 = map (\<lambda>w. max (?t * w div 100) 1) stage_weights"
  have "staffed c0" by (auto simp: staffed_def c0_def stage_weights_def)
  note G = grow_stages_ok [OF this, of ?t]
  define c where "c = shrink_stages ?t (grow_stages ?t c0)"
  have "staffed c \<and> sum_list c = ?t" unfolding c_def by (rule shrink_stages_ok) (use G in auto)
  moreover have "f = c ! 0" "l = c ! 1" "m = c ! 2" using d by (auto simp: distribute_stage_workers_def Let_def c_def c0_def)
  ultimately show ?thesis using staffed_three [of c] by auto
qed

lemma take_wrapping_ok: "cpus \<noteq> [] \<Longrightarrow> length (take_wrapping cpus start n) = n \<and> set (take_wrapping cpus start n) \<subseteq> set cpus"
  by (auto simp: take_wrapping_def)

lemma default_cpu_budget_le: "0 < n \<Longrightarrow> default_cpu_budget n \<le> n \<and> 0 < default_cpu_budget n"
  by (auto simp: default_cpu_budget_def clamp_def Let_def)


text \<open>C40: The worker layout fits the machine. Whatever CPUs the process may use and whatever is asked for, planning returns a
  budget of at least one and no more than these CPUs, every capture, flow, L7 and matcher worker is placed on a CPU of
  the budget, and every stage has as many CPUs as workers and at least one. The CPUs of capture, the control threads
  and the workers of the three stages are together no more than the budget, or than five where the budget is
  smaller, be it because the machine is or because the operator asked for it. The workers of the replay, one to three,
  come on top of that.\<close>

theorem plan_fits_budget:
  fixes allowed_cpus parallelism capture_hint requested_budget
  defines "plan \<equiv> adaptive_plan allowed_cpus parallelism capture_hint requested_budget"
  shows "1 \<le> cp_budget plan \<and> cp_budget plan \<le> length (cp_allowed plan)
    \<and> set (cp_capture_cpus plan @ cp_flow_cpus plan @ cp_l7_cpus plan @ cp_matcher_cpus plan) \<subseteq> set (take (cp_budget plan) (cp_allowed plan))
    \<and> length (cp_flow_cpus plan) = cp_flow_workers plan \<and> length (cp_l7_cpus plan) = cp_l7_workers plan
    \<and> length (cp_matcher_cpus plan) = cp_matcher_workers plan
    \<and> 1 \<le> cp_flow_workers plan \<and> 1 \<le> cp_l7_workers plan \<and> 1 \<le> cp_matcher_workers plan
    \<and> length (cp_capture_cpus plan) + cp_tokio_workers plan + cp_flow_workers plan + cp_l7_workers plan + cp_matcher_workers plan
        \<le> max (cp_budget plan) 5
    \<and> 1 \<le> cp_replay_workers plan \<and> cp_replay_workers plan \<le> 3"
proof -
  define cpus where "cpus = (let cpus = (case allowed_cpus of Some cpus \<Rightarrow> cpus | None \<Rightarrow> [0..<max (case parallelism of Some n \<Rightarrow> n | None \<Rightarrow> 1) 1])
    in if cpus = [] then [0] else cpus)"
  define allowed where "allowed = take (min (length cpus) (max (case parallelism of Some n \<Rightarrow> n | None \<Rightarrow> length cpus) 1)) cpus"
  define budget where "budget = max (case requested_budget of Some v \<Rightarrow> if v > 0 then min v (length allowed) else default_cpu_budget (length allowed)
      | None \<Rightarrow> default_cpu_budget (length allowed)) 1"
  define reserve where "reserve = (if capture_hint = 0 then 0 else min capture_hint (clamp 1 4 (budget div 4)))"
  define tokio where "tokio = (if budget \<ge> 8 then 2 else 1 :: nat)"
  obtain f l m where dist: "distribute_stage_workers (max (budget - (reserve + tokio)) 3) = (f, l, m)" by (metis prod_cases3)
  have "cpus \<noteq> []" by (auto simp: cpus_def Let_def)
  then have al: "allowed \<noteq> []" by (simp add: allowed_def)
  have b: "1 \<le> budget" "budget \<le> length allowed"
    using al default_cpu_budget_le [of "length allowed"] by (auto simp: budget_def Suc_le_eq split: option.splits)
  define pool where "pool = take budget allowed"
  have pool: "pool \<noteq> []" using al b(1) by (simp add: pool_def)
  have plan: "plan = \<lparr>cp_allowed = allowed, cp_budget = budget, cp_capture_cpus = take_wrapping pool 0 (max reserve (if capture_hint > 0 then 1 else 0)),
      cp_flow_cpus = take_wrapping pool (min reserve (length pool)) f, cp_l7_cpus = take_wrapping pool (min reserve (length pool) + f) l,
      cp_matcher_cpus = take_wrapping pool (min reserve (length pool) + f + l) m, cp_flow_workers = f, cp_l7_workers = l, cp_matcher_workers = m,
      cp_replay_workers = (if budget \<ge> 24 then 3 else if budget \<ge> 12 then 2 else 1), cp_tokio_workers = tokio\<rparr>"
    using dist unfolding plan_def adaptive_plan_def Let_def cpus_def [symmetric, unfolded Let_def] allowed_def [symmetric] budget_def [symmetric]
      reserve_def [symmetric] tokio_def [symmetric] pool_def [symmetric] by simp
  have fit: "max reserve (if capture_hint > 0 then 1 else 0) + tokio + (f + l + m) \<le> max budget 5"
  proof -
    have r: "max reserve (if capture_hint > 0 then 1 else 0) = reserve"
      by (auto simp: reserve_def clamp_def)
    have "f + l + m = max (budget - (reserve + tokio)) 3" using distribute_ok [OF dist] by simp
    moreover have "reserve \<le> budget div 4 \<or> reserve \<le> 1" by (auto simp: reserve_def clamp_def)
    moreover have "budget < 8 \<and> tokio = 1 \<or> 8 \<le> budget \<and> tokio = 2" by (auto simp: tokio_def)
    moreover have "budget < 8 \<Longrightarrow> reserve \<le> 1" by (auto simp: reserve_def clamp_def)
    ultimately show ?thesis unfolding r by linarith
  qed
  show ?thesis
    using b distribute_ok [OF dist] take_wrapping_ok [OF pool] fit by (simp add: plan add.assoc flip: pool_def)
qed

end
