(* ===== verification/Spec2Isabelle.thy ===== *)
theory Spec2Isabelle
  imports Tcp_Properties Fragment_Props Packet_Decoder_Props Packet_Roundtrip Flow_Pressure Segment_Properties
    L7_Properties Http_Grammar Throttle_Rules Capture_Props Matcher_Examples Metadata_Examples Startup
    Auth_Props Affinity
begin

text \<open>
  Verification library of BAZALT, a traffic analyser for attack/defence games: it captures packets, reassembles flows,
  extracts HTTP, stores all content in append-only segments, scans it for patterns, and indexes what it finds.

  \<^bold>\<open>The program.\<close> A capture worker (\<open>capture/mod.rs\<close>) takes frames from a backend, rejects what cannot belong to a
  configured service, decodes the rest (\<open>capture/parser.rs\<close>, fragments in \<open>capture/fragment.rs\<close>), counts sources
  (\<open>topology.rs\<close>) and sends packets to a flow shard (\<open>flow/mod.rs\<close>), which reassembles TCP (\<open>flow/reassembly.rs\<close>) and sends
  chunks to an L7 worker (\<open>http/mod.rs\<close>). That worker parses HTTP and gives every record first to the segment store
  (\<open>storage/segment.rs\<close>), then to the live matcher (\<open>matching/mod.rs\<close>), and its summaries to the metadata writer
  (\<open>storage/mod.rs\<close>, \<open>storage/spool.rs\<close>), whose projector takes them to ClickHouse. The operator edits services, patterns and
  throttle rules through an API behind \<open>auth.rs\<close>; \<open>affinity.rs\<close> places the workers. All paths are under \<open>src/src\<close>.

  \<^bold>\<open>Conventions.\<close> A structure is a record, an enumeration a datatype, a function of the source a definition of the same
  name; a hash map is an association list, an ordered map a sorted one (\<open>Ordered_Map\<close>). Machine words are words where
  their wrap-around matters and natural numbers with saturation written out (\<open>sat_add64\<close>) elsewhere. A panic is \<open>None\<close>, an
  error is \<open>Inl\<close>. Loops are recursive functions with a termination proof, or partial functions (\<open>insert_loop\<close>) with a proof that
  they return; there is no fuel. Clocks, random identifiers, CRC, the answers of channels, of the file system and of the kernel are arguments, as is foreign code: httparse, flate2,
  Aho-Corasick, regex, serde_json, base64, ClickHouse. The properties that need something of it name it as a law
  (\<open>literal_law\<close>, \<open>regex_law\<close>, \<open>codec_law\<close>, \<open>bpf_law\<close>) and have a witness with an instance.

  \<^bold>\<open>Theories.\<close>
  \<^item> \<open>Bazalt_Prelude\<close>, \<open>Ordered_Map\<close>, \<open>Rust_Text\<close>, \<open>Bazalt_Model\<close>, \<open>Bazalt_Events\<close>: shared lemmas and collections, the ordered
    map, strings of Rust, and the types of \<open>model.rs\<close>.
  \<^item> \<open>Tcp_Reassembly\<close> is \<open>TcpHalf\<close>; \<open>Tcp_Buffer\<close> holds the invariant of the out-of-order buffer, over the interface of an
    ordered map (locale \<open>segment_map\<close>), and \<open>Tcp_Stream\<close> the relation to the stream of the sender; \<open>Tcp_Operations\<close> and
    \<open>Tcp_Properties\<close> show that accepting a segment returns, stays within the limits and delivers first-seen bytes at their
    places, and that a run is faithful to the sender. The code emits a whole retransmission a second time while nothing
    is buffered; the model does the same, \<open>retransmission_displaces\<close> states it, and what is said of the
    content of chunks excepts such segments (\<open>replays\<close>, \<open>fresh_run\<close>).
  \<^item> \<open>Fragment\<close>, \<open>Fragment_Props\<close>: the fragment cache; any order of arrival completes a datagram. \<open>Packet_Decoder\<close>,
    \<open>Packet_Decoder_Props\<close>, \<open>Packet_Roundtrip\<close>: the decoder is total on any bytes and inverts the encoding of a frame.
  \<^item> \<open>Tombstones\<close>, \<open>Service_Registry\<close>: closed flows and configured services, each a refinement of a map.
  \<^item> \<open>Flow_Engine\<close>, \<open>Flow_Invariant\<close>, \<open>Flow_Loop\<close>, \<open>Flow_Properties\<close>, \<open>Flow_Pressure\<close>: a flow shard; its invariant, admission,
    expiry, shutdown, and how rejected packets postpone expiry.
  \<^item> \<open>Http_Message\<close>, \<open>Http_Parser\<close>, \<open>Http_Invariant\<close>, \<open>Http_Bounds\<close>, \<open>Http_Chunked\<close>, \<open>Http_Grammar\<close>: the HTTP analyser; limits,
    and the chunked decoder against a grammar written without it, in every segmentation. \<open>L7_Worker\<close>, \<open>L7_Invariant\<close>, \<open>L7_Properties\<close>: the worker; what it
    stores is true to the streams and complete.
  \<^item> \<open>Segment_Codec\<close>, \<open>Segment_Store\<close>, \<open>Segment_Roundtrip\<close>, \<open>Segment_Invariant\<close>, \<open>Segment_Thread\<close>, \<open>Segment_Properties\<close>, \<open>Startup\<close>: the
    segment file format, the writer thread over a file system that knows what is synced, crashes, recovery and the
    rebuilding of the index at start-up.
  \<^item> \<open>Spool\<close>, \<open>Metadata\<close>, \<open>Spool_Props\<close>, \<open>Metadata_Props\<close>, \<open>Metadata_Log\<close>, \<open>Metadata_Examples\<close>: the metadata pipeline as a step
    relation over writer, projector, producers and barrier waiters, with failing calls, crashes and restarts.
  \<^item> \<open>Matching\<close>, \<open>Matcher\<close>, \<open>Matching_Props\<close>, \<open>Matcher_Props\<close>, \<open>Matcher_History\<close>, \<open>Matcher_Replay\<close>, \<open>Matcher_Examples\<close>: compiled
    pattern sets, scanning, the live matcher and the replay scanner; hits are true, bounded, found across records, and
    the same in a replay.
  \<^item> \<open>Topology\<close>, \<open>Throttle\<close>, \<open>Throttle_Rules\<close>: source counters, throttle targets, and the rule book against the kernel's
    prefix trie and the verdict of the XDP program.
    \<open>Capture\<close>, \<open>Capture_Props\<close>: the worker loop, its gate, and the rejection before decoding.
  \<^item> \<open>Auth\<close>, \<open>Auth_Props\<close>, \<open>Affinity\<close>: sessions and the login limit, for requests served one after the other; the placement of workers.
  \<^item> This theory: what holds across components.

  \<^bold>\<open>Interfaces.\<close> \<open>btree\<close> and \<open>segment_map\<close> (ordered maps, for the reassembly buffer), \<open>service_table\<close> (a registry under its
  abstraction), \<open>feed_invariant\<close> and \<open>worker_invariant\<close> (what every step of the parser and of the L7 worker keeps),
  \<open>scan_invariant\<close> and \<open>stream_scanner\<close> (what a scan keeps, and what live matcher and replay scanner share) are locales,
  interpreted on the model's own definitions where these are defined.

  \<^bold>\<open>Bounds.\<close> Statements about positions and accounts assume what the types guarantee (values below \<open>2 ^ 64\<close>); sequence
  numbers of the spool and instants are natural numbers. Runs are lists of steps of any length.

  \<^bold>\<open>Not modelled.\<close> The handlers of the API, SQL and requests to PostgreSQL and ClickHouse, the bindings to libpcap, packet
  sockets and AF_XDP, the XDP programs but for the throttle's verdict on an address, parsing of the environment, sampling of \<open>/proc\<close>, rendering of metrics, the start and
  stop of threads, and the job loop of \<open>replay/mod.rs\<close> around the scanner: they are input and output around the modelled
  parts. Of the segment store, failing system calls are left out, and the deletion of files by the retention is a definition
  that no run of the writer contains; of the topology, the rates in floating point.
\<close>

subsection \<open>From the traffic to the reported match\<close>

text \<open>C16: No false alarm, from the traffic to the reported match. Let an L7 worker run on chunks that carry the bytes of
  their flows, with any interleaving of flows, holes, HTTP library and refusals, and let a live matcher scan
  content that this worker handed over, in any order and while the set of patterns changes. Then the matcher returns,
  and every match it sends belongs to a record that the segment store holds and to an enabled pattern for it; and if
  the pattern is a literal and the record is not a decoded body, the flow carried the bytes of the pattern in that
  direction at the reported offsets.\<close>

theorem traffic_matches_true:
  assumes "literal_law lib" "regex_law lib"
    and "\<forall>(services, event) \<in> set events. \<forall>c. event = Chunk c \<longrightarrow> stream_chunk_true S c"
    and "\<forall>x \<in> set xs. \<forall>r ps gen. work_of x = Some (r, ps, gen) \<longrightarrow> r \<in> set (lw_matcher (l7_worker_loop env io events (new_worker depth)))
      \<and> cr_stream_offset r + length (cr_data r) \<le> u64_max \<and> (\<exists>pats. compile_set lib pats = Inr ps \<and> set pats \<subseteq> P)"
  shows "\<exists>w go. matcher_worker_loop lib cfg ok xs (new_matcher backlog) = Some (w, go)
    \<and> (\<forall>h \<in> set (mw_metadata w). \<exists>r \<in> set (lw_segments (l7_worker_loop env io events (new_worker depth))).
        hit_true lib (\<lambda>k. S (sk_flow_id k) (sk_direction k)) {v. \<not> decoded_view v} P r h)"
proof -
  let ?w = "l7_worker_loop env io events (new_worker depth)" and ?S = "\<lambda>k. S (sk_flow_id k) (sk_direction k)"
  have "worker_ok S (new_worker depth)" by (simp add: worker_ok_def new_worker_def)
  from l7_worker_loop_ok [OF this assms(3), of env io] have T: "\<forall>r \<in> set (lw_segments ?w). record_true (S (cr_flow_id r) (cr_direction r)) r"
    by (simp add: worker_ok_def L7_Invariant.record_ok_def)
  have "subseq (lw_matcher ?w) (lw_segments ?w)"
    using loop_matched [of "new_worker depth" env io events] by (simp add: matched_stored_def new_worker_def)
  then have M: "set (lw_matcher ?w) \<subseteq> set (lw_segments ?w)" by (auto dest: list_emb_set)
  have "work_ok lib ?S {v. \<not> decoded_view v} P x" if "x \<in> set xs" for x
    using assms(4) that T M by (fastforce simp: work_ok_def content_true_def record_true_def key_of_def)
  then have "list_all (work_ok lib ?S {v. \<not> decoded_view v} P) xs" by (simp add: list_all_iff)
  from matcher_loop_true [OF assms(1,2) this, of "new_matcher backlog" "{}" cfg ok] obtain w go where
    w: "matcher_worker_loop lib cfg ok xs (new_matcher backlog) = Some (w, go)"
      "\<forall>h \<in> set (mw_metadata w). \<exists>r \<in> scanned xs. hit_true lib ?S {v. \<not> decoded_view v} P r h"
    by (auto simp: new_matcher_def tails_true_def)
  have "scanned xs \<subseteq> set (lw_segments ?w)" using assms(4) M by (fastforce simp: scanned_def)
  with w show ?thesis by blast
qed

abbreviation raw_io :: l7_io where
  "raw_io \<equiv> \<lparr>io_append_ok = (\<lambda>_. True), io_interested = (\<lambda>_ v. v = TcpRaw), io_metadata_ok = (\<lambda>_. True)\<rparr>"

abbreviation raw_events :: "(service_registry \<times> flow_output) list" where
  "raw_events \<equiv> map (\<lambda>c. (new_registry [], Chunk c)) example_chunks"

lemma raw_matched:
  "map (\<lambda>r. (cr_stream_offset r, length (cr_data r), cr_view r)) (lw_matcher (l7_worker_loop example_http_env raw_io raw_events (new_worker 0)))
  = [(0, 7, TcpRaw), (7, 5, TcpRaw)]"
  by (simp add: l7_step_def handle_chunk_def parse_chunk_def fanout_content_def Let_def new_worker_def raw_record_def example_chunk_def 
    should_parse_http_def flow_service_def new_registry_def by_port_def)


text \<open>Two raw chunks of a flow without an HTTP service, scanned for a literal.\<close>

theorem traffic_matches_true_witness:
  "\<exists>w go. matcher_worker_loop plain_lib plain_config (\<lambda>_. True)
      (map (\<lambda>r. (0, 1, Content r plain_set 1)) (lw_matcher (l7_worker_loop example_http_env raw_io raw_events (new_worker 0))))
      (new_matcher 0) = Some (w, go)
    \<and> list_all (\<lambda>h. \<exists>r. r \<in> set (lw_segments (l7_worker_loop example_http_env raw_io raw_events (new_worker 0)))
        \<and> hit_true plain_lib (\<lambda>k. example_bytes (sk_flow_id k) (sk_direction k)) {v. \<not> decoded_view v} {plain_pattern} r h) (mw_metadata w)"
proof -
  let ?w = "l7_worker_loop example_http_env raw_io raw_events (new_worker 0)"
  have "cr_stream_offset r + length (cr_data r) \<le> u64_max" if "r \<in> set (lw_matcher ?w)" for r
  proof -
    have "(cr_stream_offset r, length (cr_data r), cr_view r) \<in> set [(0, 7, TcpRaw), (7, 5, TcpRaw)]"
      unfolding raw_matched [symmetric] using that by (simp only: set_map image_iff) blast
    then show ?thesis by auto
  qed
  then have "\<forall>x \<in> set (map (\<lambda>r. (0, 1, Content r plain_set 1)) (lw_matcher ?w)). \<forall>r ps gen. work_of x = Some (r, ps, gen) \<longrightarrow>
      r \<in> set (lw_matcher ?w) \<and> cr_stream_offset r + length (cr_data r) \<le> u64_max \<and>
      (\<exists>pats. compile_set plain_lib pats = Inr ps \<and> set pats \<subseteq> {plain_pattern})"
    using plain_compiled by (auto simp: work_of_def simp del: l7_worker_loop.simps intro!: exI [of _ "[plain_pattern]"])
  moreover have "\<forall>(services, event) \<in> set raw_events. \<forall>c. event = Chunk c \<longrightarrow> stream_chunk_true example_bytes c"
    using example_chunks_true by auto
  ultimately show ?thesis
    using traffic_matches_true [OF plain_literal_law plain_regex_law, of raw_events example_bytes _ example_http_env raw_io 0 "{plain_pattern}"
      plain_config "\<lambda>_. True" 0] unfolding list_all_iff Bex_def by blast
qed

end
